(* ===== verification/Prelude.thy ===== *)
theory Prelude
  imports Complex_Main "HOL-Library.Sublist" "HOL-Library.Word"
begin

text \<open>
  Shared vocabulary of the development: results with errors as values, sequencing of fallible
  steps, loops that stop at the first error, insertion-ordered association lists for the
  JavaScript Map and for object literals, JavaScript numbers with NaN and the infinities, and
  JSON-like dynamic values. The lemmas are stated for any error and element type.
\<close>

named_theorems res_simps \<open>evaluation of fallible steps\<close>

section \<open>Fallible computations\<close>

text \<open>A thrown exception is \<open>Inl\<close>, a returned value is \<open>Inr\<close>.\<close>

fun bind_res :: "'e + 'a \<Rightarrow> ('a \<Rightarrow> 'e + 'b) \<Rightarrow> 'e + 'b" where
  "bind_res (Inl e) f = Inl e"
| "bind_res (Inr x) f = f x"

definition guard_res :: "bool \<Rightarrow> 'e \<Rightarrow> 'e + unit" where
  "guard_res bad e = (if bad then Inl e else Inr ())"

fun map_res :: "('a \<Rightarrow> 'e + 'b) \<Rightarrow> 'a list \<Rightarrow> 'e + 'b list" where
  "map_res f [] = Inr []"
| "map_res f (x # xs) = bind_res (f x) (\<lambda>y. bind_res (map_res f xs) (\<lambda>ys. Inr (y # ys)))"

fun each_res :: "('a \<Rightarrow> 'e + unit) \<Rightarrow> 'a list \<Rightarrow> 'e + unit" where
  "each_res f [] = Inr ()"
| "each_res f (x # xs) = bind_res (f x) (\<lambda>_. each_res f xs)"

lemma bind_res_Inr_iff [res_simps]:
  "bind_res r f = Inr y \<longleftrightarrow> (\<exists>x. r = Inr x \<and> f x = Inr y)"
  by (cases r) auto

lemma bind_res_Inl_iff [res_simps]:
  "bind_res r f = Inl e \<longleftrightarrow> r = Inl e \<or> (\<exists>x. r = Inr x \<and> f x = Inl e)"
  by (cases r) auto

lemma guard_res_Inr_iff [res_simps]: "guard_res b e = Inr u \<longleftrightarrow> \<not> b"
  by (simp add: guard_res_def)

lemma guard_res_Inl_iff [res_simps]: "guard_res b e = Inl e' \<longleftrightarrow> b \<and> e' = e"
  by (auto simp: guard_res_def)

lemma each_res_Inr_iff [res_simps]:
  "each_res f xs = Inr u \<longleftrightarrow> (\<forall>x \<in> set xs. f x = Inr ())"
  by (induction xs) (auto simp: bind_res_Inr_iff)

lemma each_res_Inl_mem: "each_res f xs = Inl e \<Longrightarrow> \<exists>x \<in> set xs. f x = Inl e"
  by (induction xs) (auto simp: bind_res_Inl_iff)

lemma map_res_length: "map_res f xs = Inr ys \<Longrightarrow> length ys = length xs"
  by (induction xs arbitrary: ys) (auto simp: bind_res_Inr_iff)

lemma map_res_nth: "map_res f xs = Inr ys \<Longrightarrow> i < length xs \<Longrightarrow> f (xs ! i) = Inr (ys ! i)"
proof (induction xs arbitrary: ys i)
  case (Cons x xs)
  then show ?case by (cases i) (auto simp: bind_res_Inr_iff)
qed simp

lemma map_res_Inl_mem: "map_res f xs = Inl e \<Longrightarrow> \<exists>x \<in> set xs. f x = Inl e"
  by (induction xs) (auto simp: bind_res_Inl_iff)

section \<open>Lists\<close>

text \<open>What lies above an element of a strictly sorted list.\<close>

lemma filter_above_drop:
  assumes s: "sorted_wrt (<) (map f xs)" and n: "0 < n" "n \<le> length xs"
  shows "filter (\<lambda>e. (f (xs ! (n - 1)) :: 'b :: linorder) < f e) xs = drop n xs"
proof -
  have lt: "f (xs ! i) < f (xs ! j)" if "i < j" "j < length xs" for i j
    using s that by (simp add: sorted_wrt_iff_nth_less)
  have a: "\<not> f (xs ! (n - 1)) < f (xs ! i)" if "i < n" for i
  proof (cases "i = n - 1")
    case False
    then show ?thesis using lt[of i "n - 1"] that n by (intro less_not_sym) linarith+
  qed simp
  have b: "f (xs ! (n - 1)) < f (xs ! (n + i))" if "i < length xs - n" for i
    using lt[of "n - 1" "n + i"] that n by linarith
  have "filter (\<lambda>e. f (xs ! (n - 1)) < f e) (take n xs) = []"
    unfolding filter_empty_conv using a by (metis in_set_conv_nth length_take min_less_iff_conj nth_take)
  moreover have "filter (\<lambda>e. f (xs ! (n - 1)) < f e) (drop n xs) = drop n xs"
    by (rule filter_True) (metis b in_set_conv_nth length_drop n(2) nth_drop)
  ultimately show ?thesis
    using filter_append[of "\<lambda>e. f (xs ! (n - 1)) < f e" "take n xs" "drop n xs"] by simp
qed

section \<open>Insertion-ordered maps\<close>

text \<open>
  The JavaScript \<open>Map\<close> keeps its entries in insertion order: setting a present key keeps its
  place, setting a new key appends, deleting removes the entry.
\<close>

type_synonym ('k, 'v) omap = "('k \<times> 'v) list"

fun oset :: "'k \<Rightarrow> 'v \<Rightarrow> ('k, 'v) omap \<Rightarrow> ('k, 'v) omap" where
  "oset k v [] = [(k, v)]"
| "oset k v ((k', v') # m) = (if k' = k then (k, v) # m else (k', v') # oset k v m)"

definition odel :: "'k \<Rightarrow> ('k, 'v) omap \<Rightarrow> ('k, 'v) omap" where
  "odel k m = filter (\<lambda>e. fst e \<noteq> k) m"

abbreviation oget :: "('k, 'v) omap \<Rightarrow> 'k \<Rightarrow> 'v option" where
  "oget \<equiv> map_of"

definition owf :: "('k, 'v) omap \<Rightarrow> bool" where
  "owf m = distinct (map fst m)"

lemma oget_oset [simp]: "oget (oset k v m) k' = (if k' = k then Some v else oget m k')"
  by (induction m) auto

lemma oget_odel [simp]: "oget (odel k m) k' = (if k' = k then None else oget m k')"
  by (induction m) (auto simp: odel_def)

lemma keys_oset [simp]: "fst ` set (oset k v m) = insert k (fst ` set m)"
  by (induction k v m rule: oset.induct) auto

lemma keys_odel [simp]: "fst ` set (odel k m) = fst ` set m - {k}"
  by (auto simp: odel_def)

lemma owf_Nil [simp]: "owf []"
  by (simp add: owf_def)

lemma owf_oset [simp]: "owf m \<Longrightarrow> owf (oset k v m)"
proof (induction m)
  case (Cons e m)
  obtain k' v' where e: "e = (k', v')" by (cases e)
  with Cons show ?case by (cases "k' = k") (auto simp: owf_def)
qed (simp add: owf_def)

lemma owf_filter [simp]: "owf m \<Longrightarrow> owf (filter P m)"
  by (induction m) (auto simp: owf_def)

lemma owf_odel [simp]: "owf m \<Longrightarrow> owf (odel k m)"
  by (simp add: odel_def)

lemma oget_filter:
  "owf m \<Longrightarrow> oget (filter P m) k = (case oget m k of None \<Rightarrow> None | Some v \<Rightarrow> if P (k, v) then Some v else None)"
proof (induction m)
  case (Cons e m)
  obtain k' v' where e: "e = (k', v')" by (cases e)
  have "k' \<notin> fst ` set m" using Cons.prems e by (auto simp: owf_def)
  then have none: "oget m k' = None" by (simp add: map_of_eq_None_iff)
  have "owf m" using Cons.prems by (simp add: owf_def)
  then show ?case using Cons.IH e none by (auto split: option.splits)
qed simp

lemma length_oset: "length (oset k v m) = (if k \<in> fst ` set m then length m else Suc (length m))"
  by (induction k v m rule: oset.induct) auto

lemma oset_set_subset: "set (oset k v m) \<subseteq> insert (k, v) (set m)"
  by (induction k v m rule: oset.induct) auto

section \<open>JavaScript numbers and dynamic values\<close>

text \<open>
  A JavaScript number is a rational (double rounding is not modelled: the arithmetic of the
  modelled code is exact on the values it is written for), NaN, or an infinity. Every comparison
  with NaN is false.
\<close>

datatype jsnum = Fin rat | NaN | PosInf | NegInf

fun num_le :: "jsnum \<Rightarrow> jsnum \<Rightarrow> bool" where
  "num_le NaN _ = False"
| "num_le _ NaN = False"
| "num_le (Fin a) (Fin b) = (a \<le> b)"
| "num_le NegInf _ = True"
| "num_le _ PosInf = True"
| "num_le _ _ = False"

fun num_less :: "jsnum \<Rightarrow> jsnum \<Rightarrow> bool" where
  "num_less NaN _ = False"
| "num_less _ NaN = False"
| "num_less (Fin a) (Fin b) = (a < b)"
| "num_less NegInf NegInf = False"
| "num_less NegInf _ = True"
| "num_less PosInf _ = False"
| "num_less _ PosInf = True"
| "num_less _ _ = False"

fun num_finite :: "jsnum \<Rightarrow> bool" where
  "num_finite (Fin _) = True"
| "num_finite _ = False"

definition num_integer :: "jsnum \<Rightarrow> bool" where
  "num_integer n = (case n of Fin a \<Rightarrow> a = of_int (floor a) | _ \<Rightarrow> False)"

datatype jsval =
    JUndef
  | JNull
  | JBool bool
  | JNum jsnum
  | JStr string
  | JArr "jsval list"
  | JObj "(string \<times> jsval) list"

text \<open>Property access: a missing property, and any property of a value without it, is undefined.\<close>

fun jget :: "jsval \<Rightarrow> string \<Rightarrow> jsval" where
  "jget (JObj fs) k = (case map_of fs k of None \<Rightarrow> JUndef | Some v \<Rightarrow> v)"
| "jget _ k = JUndef"

fun truthy :: "jsval \<Rightarrow> bool" where
  "truthy JUndef = False"
| "truthy JNull = False"
| "truthy (JBool b) = b"
| "truthy (JNum n) = (n \<noteq> Fin 0 \<and> n \<noteq> NaN)"
| "truthy (JStr s) = (s \<noteq> [])"
| "truthy _ = True"

fun is_object :: "jsval \<Rightarrow> bool" where
  "is_object (JArr _) = True"
| "is_object (JObj _) = True"
| "is_object _ = False"

fun as_str :: "jsval \<Rightarrow> string option" where
  "as_str (JStr s) = Some s"
| "as_str _ = None"

fun as_num :: "jsval \<Rightarrow> jsnum option" where
  "as_num (JNum n) = Some n"
| "as_num _ = None"

text \<open>Nullish coalescing \<open>a ?? b\<close> on optional values.\<close>

definition or_default :: "'a option \<Rightarrow> 'a \<Rightarrow> 'a" where
  "or_default a b = (case a of None \<Rightarrow> b | Some x \<Rightarrow> x)"

definition or_else :: "'a option \<Rightarrow> 'a option \<Rightarrow> 'a option" where
  "or_else a b = (case a of None \<Rightarrow> b | Some x \<Rightarrow> Some x)"

lemma or_default_simps [simp]: "or_default None b = b" "or_default (Some x) b = x"
  by (simp_all add: or_default_def)

lemma or_else_simps [simp]: "or_else None b = b" "or_else (Some x) b = Some x"
  by (simp_all add: or_else_def)

end
