(* ===== verification/JsLib.thy ===== *)
theory JsLib
  imports Prelude
begin

text \<open>
  The JavaScript string operations the modelled code uses. A string is a list of code units; the
  development covers code units below 256, so \<open>trim\<close> and \<open>toLowerCase\<close> are those of Latin-1 and
  the UTF-8 length of a unit is one or two bytes. Code that depends on surrogate pairs is
  modelled on 16-bit units in its own theory.
\<close>

section \<open>Characters\<close>

abbreviation code :: "char \<Rightarrow> nat" where
  "code \<equiv> of_char"

definition is_ws :: "char \<Rightarrow> bool" where
  "is_ws c = (code c \<in> {9, 10, 11, 12, 13, 32, 160})"

definition is_digit :: "char \<Rightarrow> bool" where
  "is_digit c = (48 \<le> code c \<and> code c \<le> 57)"

definition is_octal :: "char \<Rightarrow> bool" where
  "is_octal c = (48 \<le> code c \<and> code c \<le> 55)"

definition is_hex :: "char \<Rightarrow> bool" where
  "is_hex c = (is_digit c \<or> 97 \<le> code c \<and> code c \<le> 102 \<or> 65 \<le> code c \<and> code c \<le> 70)"

text \<open>Value of a digit in any base up to 36.\<close>

definition digit_val :: "char \<Rightarrow> nat" where
  "digit_val c =
     (let n = code c in
      if 48 \<le> n \<and> n \<le> 57 then n - 48
      else if 97 \<le> n \<and> n \<le> 122 then n - 87
      else if 65 \<le> n \<and> n \<le> 90 then n - 55
      else 36)"

definition lower_char :: "char \<Rightarrow> char" where
  "lower_char c =
     (let n = code c in
      if 65 \<le> n \<and> n \<le> 90 \<or> 192 \<le> n \<and> n \<le> 222 \<and> n \<noteq> 215 then char_of (n + 32) else c)"

definition upper_ascii :: "char \<Rightarrow> char" where
  "upper_ascii c = (let n = code c in if 97 \<le> n \<and> n \<le> 122 then char_of (n - 32) else c)"

section \<open>Strings\<close>

definition str_includes :: "string \<Rightarrow> string \<Rightarrow> bool" where
  "str_includes s t = sublist t s"

definition starts_with :: "string \<Rightarrow> string \<Rightarrow> bool" where
  "starts_with s p = prefix p s"

definition ends_with :: "string \<Rightarrow> string \<Rightarrow> bool" where
  "ends_with s p = suffix p s"

definition trim :: "string \<Rightarrow> string" where
  "trim s = rev (dropWhile is_ws (rev (dropWhile is_ws s)))"

definition to_lower :: "string \<Rightarrow> string" where
  "to_lower s = map lower_char s"

definition to_upper :: "string \<Rightarrow> string" where
  "to_upper s = map upper_ascii s"

text \<open>\<open>s.split(c)\<close> for a one-character separator: never empty.\<close>

fun split_on :: "char \<Rightarrow> string \<Rightarrow> string list" where
  "split_on c [] = [[]]"
| "split_on c (x # xs) =
     (if x = c then [] # split_on c xs
      else (case split_on c xs of [] \<Rightarrow> [[x]] | y # ys \<Rightarrow> (x # y) # ys))"

fun join_with :: "string \<Rightarrow> string list \<Rightarrow> string" where
  "join_with sep [] = []"
| "join_with sep [x] = x"
| "join_with sep (x # y # ys) = x @ sep @ join_with sep (y # ys)"

text \<open>\<open>indexOf\<close> and \<open>lastIndexOf\<close> of one character, \<open>None\<close> for -1.\<close>

fun index_of :: "char \<Rightarrow> string \<Rightarrow> nat option" where
  "index_of c [] = None"
| "index_of c (x # xs) = (if x = c then Some 0 else map_option Suc (index_of c xs))"

definition last_index_of :: "char \<Rightarrow> string \<Rightarrow> nat option" where
  "last_index_of c s = map_option (\<lambda>i. length s - 1 - i) (index_of c (rev s))"

text \<open>\<open>indexOf\<close> of a substring, \<open>None\<close> for -1.\<close>

fun index_of_str :: "string \<Rightarrow> string \<Rightarrow> nat option" where
  "index_of_str t [] = (if t = [] then Some 0 else None)"
| "index_of_str t (x # xs) =
     (if prefix t (x # xs) then Some 0 else map_option Suc (index_of_str t xs))"

section \<open>Numbers in strings\<close>

definition digits_val :: "int \<Rightarrow> string \<Rightarrow> int" where
  "digits_val b ds = foldl (\<lambda>a c. a * b + int (digit_val c)) 0 ds"

text \<open>
  \<open>parseInt(s, radix)\<close>: skip white space, read an optional sign, then (radix 16) an optional
  \<open>0x\<close>, then the longest run of digits of the base; \<open>None\<close> is NaN. The result is exact: values
  past the safe integers are only ever compared with small bounds.
\<close>

definition strip_0x :: "nat \<Rightarrow> string \<Rightarrow> string" where
  "strip_0x b s = (if b = 16 \<and> (starts_with s ''0x'' \<or> starts_with s ''0X'') then drop 2 s else s)"

definition parseInt :: "string \<Rightarrow> nat \<Rightarrow> int option" where
  "parseInt s b =
     (let s1 = dropWhile is_ws s;
          neg = (case s1 of c # _ \<Rightarrow> c = CHR ''-'' | [] \<Rightarrow> False);
          signed = (case s1 of c # _ \<Rightarrow> c = CHR ''-'' \<or> c = CHR ''+'' | [] \<Rightarrow> False);
          s2 = strip_0x b (if signed then tl s1 else s1);
          ds = takeWhile (\<lambda>c. digit_val c < b) s2
      in if ds = [] then None
         else Some ((if neg then -1 else 1) * digits_val (int b) ds))"

text \<open>Decimal rendering of a natural number, as string templates print it.\<close>

fun nat_str :: "nat \<Rightarrow> string" where
  "nat_str n = (if n < 10 then [char_of (48 + n)] else nat_str (n div 10) @ [char_of (48 + n mod 10)])"

declare nat_str.simps [simp del]

definition int_str :: "int \<Rightarrow> string" where
  "int_str i = (if i < 0 then CHR ''-'' # nat_str (nat (- i)) else nat_str (nat i))"

text \<open>UTF-8 length: one byte below 128, two bytes from 128 to 255.\<close>

definition utf8_len :: "string \<Rightarrow> nat" where
  "utf8_len s = sum_list (map (\<lambda>c. if code c < 128 then 1 else 2) s)"

section \<open>Facts\<close>

text \<open>Lower case on the bits of a character, which evaluates without arithmetic.\<close>

lemma lower_char_code [code]:
  "lower_char (Char b0 b1 b2 b3 b4 b5 b6 b7) =
     (if b6 \<and> \<not> b5 \<and>
         (if b7 then \<not> (b0 \<and> b1 \<and> b2 \<and> b4) else (b0 \<or> b1 \<or> b2 \<or> b3 \<or> b4) \<and> \<not> (b4 \<and> b3 \<and> (b2 \<or> b1 \<and> b0)))
      then Char b0 b1 b2 b3 b4 True b6 b7 else Char b0 b1 b2 b3 b4 b5 b6 b7)"
  by (cases b0; cases b1; cases b2; cases b3; cases b4; cases b5; cases b6; cases b7; simp add: lower_char_def Let_def char_of_def bit_simps)

lemma str_includes_char [simp]: "str_includes s [c] \<longleftrightarrow> c \<in> set s"
proof
  assume "str_includes s [c]"
  then show "c \<in> set s" by (auto simp: str_includes_def dest: set_mono_sublist)
next
  assume "c \<in> set s"
  then obtain a b where "s = a @ c # b" by (auto simp: in_set_conv_decomp)
  then have "s = a @ [c] @ b" by simp
  then show "str_includes s [c]" unfolding str_includes_def sublist_def by blast
qed

lemma split_on_not_Nil [simp]: "split_on c s \<noteq> []"
  by (cases s) (auto split: list.splits)

lemma split_on_no_sep: "seg \<in> set (split_on c s) \<Longrightarrow> c \<notin> set seg"
proof (induction s arbitrary: seg)
  case (Cons x xs)
  then show ?case by (cases "split_on c xs") (auto split: if_splits)
qed simp

lemma split_on_absent: "c \<notin> set s \<Longrightarrow> split_on c s = [s]"
  by (induction s) auto

lemma join_split: "join_with [c] (split_on c s) = s"
proof (induction s)
  case (Cons x xs)
  obtain y ys where y: "split_on c xs = y # ys" by (cases "split_on c xs") auto
  then show ?case using Cons by (cases ys) auto
qed simp

lemma split_on_append_sep:
  "split_on c (a @ c # b) = split_on c a @ split_on c b"
proof (induction a)
  case (Cons x a)
  obtain y ys where y: "split_on c a = y # ys" by (cases "split_on c a") auto
  then show ?case using Cons by auto
qed simp

lemma split_on_two: "c \<notin> set a \<Longrightarrow> c \<notin> set b \<Longrightarrow> split_on c (a @ c # b) = [a, b]"
  using split_on_append_sep[of c a b] by (simp add: split_on_absent)

lemma split_join: "xs \<noteq> [] \<Longrightarrow> (\<And>x. x \<in> set xs \<Longrightarrow> c \<notin> set x) \<Longrightarrow> split_on c (join_with [c] xs) = xs"
proof (induction "[c]" xs rule: join_with.induct)
  case (2 x)
  then show ?case by (simp add: split_on_absent)
next
  case (3 x y ys)
  then show ?case using split_on_append_sep[of c x "join_with [c] (y # ys)"] by (simp add: split_on_absent)
qed simp

lemma starts_with_iff: "starts_with s p \<longleftrightarrow> (\<exists>r. s = p @ r)"
  by (auto simp: starts_with_def prefix_def)

lemma starts_with_append [simp]: "starts_with (p @ r) p"
  by (auto simp: starts_with_iff)

lemma starts_with_set: "starts_with s p \<Longrightarrow> set p \<subseteq> set s"
  by (auto simp: starts_with_iff)

lemma index_of_None: "index_of c s = None \<longleftrightarrow> c \<notin> set s"
  by (induction s) auto

lemma index_of_Some:
  "index_of c s = Some i \<Longrightarrow> i < length s \<and> s ! i = c \<and> c \<notin> set (take i s)"
  by (induction s arbitrary: i) (auto split: if_splits)

lemma digit_val_digit [simp]: "is_digit c \<Longrightarrow> digit_val c < 10"
  by (auto simp: is_digit_def digit_val_def Let_def)

lemma digit_val_octal [simp]: "is_octal c \<Longrightarrow> digit_val c < 8"
  by (auto simp: is_octal_def digit_val_def Let_def)

lemma digit_val_hex [simp]: "is_hex c \<Longrightarrow> digit_val c < 16"
  by (auto simp: is_hex_def is_digit_def digit_val_def Let_def)

lemma digits_val_Nil [simp]: "digits_val b [] = 0"
  by (simp add: digits_val_def)

lemma digits_val_snoc: "digits_val b (ds @ [c]) = digits_val b ds * b + int (digit_val c)"
  by (simp add: digits_val_def)

lemma digits_val_nonneg: "0 \<le> b \<Longrightarrow> 0 \<le> digits_val b ds"
  by (induction ds rule: rev_induct) (simp_all add: digits_val_snoc)

lemma digits_val_less:
  assumes "\<And>c. c \<in> set ds \<Longrightarrow> digit_val c < b"
  shows "digits_val (int b) ds < int b ^ length ds"
  using assms
proof (induction ds rule: rev_induct)
  case (snoc c ds)
  have "digits_val (int b) ds + 1 \<le> int b ^ length ds" and d: "int (digit_val c) < int b"
    using snoc by auto
  then have "(digits_val (int b) ds + 1) * int b \<le> int b ^ length ds * int b"
    by (intro mult_right_mono) auto
  then show ?case using d by (simp add: digits_val_snoc algebra_simps)
qed simp

lemma nat_str_not_Nil [simp]: "nat_str n \<noteq> []"
  by (subst nat_str.simps) simp

lemma nat_str_digits: "c \<in> set (nat_str n) \<Longrightarrow> is_digit c"
proof (induction n rule: nat_str.induct)
  case (1 n)
  show ?case
  proof (cases "n < 10")
    case True
    then have "c = char_of (48 + n)" using "1.prems" by (subst (asm) nat_str.simps) simp
    then show ?thesis using True by (simp add: is_digit_def)
  next
    case False
    then have "c \<in> set (nat_str (n div 10)) \<or> c = char_of (48 + n mod 10)"
      using "1.prems" by (subst (asm) nat_str.simps) auto
    moreover have "is_digit (char_of (48 + n mod 10))"
    proof -
      have "n mod 10 < 10" by simp
      then show ?thesis unfolding is_digit_def of_char_of by simp
    qed
    ultimately show ?thesis using "1.IH" False by auto
  qed
qed

lemma digit_val_char_of: "d < 10 \<Longrightarrow> digit_val (char_of (48 + d)) = d"
  by (simp add: digit_val_def Let_def)

lemma digits_val_nat_str: "digits_val 10 (nat_str n) = int n"
proof (induction n rule: nat_str.induct)
  case (1 n)
  show ?case
  proof (cases "n < 10")
    case True
    then show ?thesis
      by (subst nat_str.simps) (simp add: digits_val_def digit_val_char_of)
  next
    case False
    then have "digits_val 10 (nat_str n) = int (n div 10) * 10 + int (n mod 10)"
      using "1.IH" by (subst nat_str.simps) (simp add: digits_val_snoc digit_val_char_of)
    then show ?thesis by (metis mult.commute mult_div_mod_eq of_nat_add of_nat_mult of_nat_numeral)
  qed
qed

lemma nat_str_hd: "n \<noteq> 0 \<Longrightarrow> hd (nat_str n) \<noteq> CHR ''0''"
proof (induction n rule: nat_str.induct)
  case (1 n)
  show ?case
  proof (cases "n < 10")
    case True
    have "of_char (char_of (48 + n) :: char) \<noteq> (of_char (CHR ''0'') :: nat)"
      using True "1.prems" by simp
    then have "(char_of (48 + n) :: char) \<noteq> CHR ''0''" by metis
    then show ?thesis using True by (subst nat_str.simps) simp
  next
    case False
    then have "n div 10 \<noteq> 0" by simp
    then show ?thesis using "1.IH" False by (subst nat_str.simps) simp
  qed
qed

lemma trim_Nil [simp]: "trim [] = []"
  by (simp add: trim_def)

lemma to_lower_Nil [simp]: "to_lower [] = []"
  by (simp add: to_lower_def)

lemma length_to_lower [simp]: "length (to_lower s) = length s"
  by (simp add: to_lower_def)

lemma digit_props: "is_digit c \<Longrightarrow> lower_char c = c \<and> c \<noteq> CHR ''/'' \<and> c \<noteq> CHR ''-'' \<and> c \<noteq> CHR ''+'' \<and> c \<noteq> CHR '','' \<and> c \<noteq> CHR ''*'' \<and> \<not> is_ws c"
  by (auto simp: is_digit_def lower_char_def is_ws_def)

lemma nat_str_chars: "c \<in> set (nat_str n) \<Longrightarrow> lower_char c = c \<and> c \<noteq> CHR ''/'' \<and> c \<noteq> CHR ''-'' \<and> c \<noteq> CHR ''+'' \<and> c \<noteq> CHR '','' \<and> c \<noteq> CHR ''*'' \<and> \<not> is_ws c"
  using nat_str_digits digit_props by blast

lemma to_lower_nat_str [simp]: "to_lower (nat_str n) = nat_str n"
  unfolding to_lower_def using nat_str_chars by (simp add: map_idI)

lemma parseInt_nat_str [simp]: "parseInt (nat_str n) 10 = Some (int n)"
proof -
  obtain c ds where s: "nat_str n = c # ds" using nat_str_not_Nil by (metis neq_Nil_conv)
  have c: "\<not> is_ws c" "c \<noteq> CHR ''-''" "c \<noteq> CHR ''+''" using nat_str_chars[of c n] s by auto
  have "\<forall>x \<in> set (nat_str n). digit_val x < 10" using nat_str_digits digit_val_digit by blast
  then have "takeWhile (\<lambda>c. digit_val c < 10) (nat_str n) = nat_str n" by (simp add: takeWhile_eq_all_conv)
  then show ?thesis using c s digits_val_nat_str[of n] by (simp add: parseInt_def strip_0x_def Let_def)
qed

lemma trim_solid: "s \<noteq> [] \<Longrightarrow> \<not> is_ws (hd s) \<Longrightarrow> \<not> is_ws (last s) \<Longrightarrow> trim s = s"
proof -
  assume a: "s \<noteq> []" "\<not> is_ws (hd s)" "\<not> is_ws (last s)"
  have "dropWhile is_ws s = s" using a by (cases s) auto
  moreover have "dropWhile is_ws (rev s) = rev s" using a by (cases s rule: rev_cases) auto
  ultimately show ?thesis by (simp add: trim_def)
qed

lemma trim_no_ws: "(\<And>c. c \<in> set s \<Longrightarrow> \<not> is_ws c) \<Longrightarrow> trim s = s"
  by (cases "s = []") (auto intro: trim_solid)

end
