(* ===== verification/Errors.thy ===== *)
theory Errors
  imports JsLib
begin

text \<open>
  The error taxonomy of \<open>packages/errors/mod.ts\<close>: the ten codes, the error objects that carry
  them, the HTTP status of a code, and the response body built from an error. Exceptions that
  are not RailFog errors (a plain \<open>Error\<close>, a \<open>RangeError\<close> of the engine, a rejection of a
  third-party call) are values of the same exception type, so every throw of the modelled code
  is a branch of a result.
\<close>

datatype error_code =
    RESOURCE_NOT_FOUND
  | PERMISSION_DENIED
  | VALIDATION_FAILED
  | RATE_LIMITED
  | CALL_DEPTH_EXCEEDED
  | TIMEOUT
  | PAYLOAD_TOO_LARGE
  | CONFLICT
  | UNAVAILABLE
  | INTERNAL

record rf_error =
  err_code :: error_code
  err_message :: string
  err_requestId :: "string option"

datatype exn =
    RF rf_error
  | PlainError string
  | RangeError
  | URIError
  | Foreign string

type_synonym 'a res = "exn + 'a"

definition throw_rf :: "error_code \<Rightarrow> string \<Rightarrow> exn" where
  "throw_rf c msg = RF \<lparr>err_code = c, err_message = msg, err_requestId = None\<rparr>"

fun exn_code :: "exn \<Rightarrow> error_code option" where
  "exn_code (RF e) = Some (err_code e)"
| "exn_code _ = None"

fun exn_message :: "exn \<Rightarrow> string" where
  "exn_message (RF e) = err_message e"
| "exn_message (PlainError m) = m"
| "exn_message RangeError = ''RangeError''"
| "exn_message URIError = ''URI malformed''"
| "exn_message (Foreign m) = m"

lemma exn_code_throw_rf [simp]: "exn_code (throw_rf c m) = Some c"
  by (simp add: throw_rf_def)

lemma throw_rf_inject [simp]: "throw_rf c m = throw_rf c' m' \<longleftrightarrow> c = c' \<and> m = m'"
  by (simp add: throw_rf_def)

fun code_name :: "error_code \<Rightarrow> string" where
  "code_name RESOURCE_NOT_FOUND = ''RESOURCE_NOT_FOUND''"
| "code_name PERMISSION_DENIED = ''PERMISSION_DENIED''"
| "code_name VALIDATION_FAILED = ''VALIDATION_FAILED''"
| "code_name RATE_LIMITED = ''RATE_LIMITED''"
| "code_name CALL_DEPTH_EXCEEDED = ''CALL_DEPTH_EXCEEDED''"
| "code_name TIMEOUT = ''TIMEOUT''"
| "code_name PAYLOAD_TOO_LARGE = ''PAYLOAD_TOO_LARGE''"
| "code_name CONFLICT = ''CONFLICT''"
| "code_name UNAVAILABLE = ''UNAVAILABLE''"
| "code_name INTERNAL = ''INTERNAL''"

text \<open>\<open>toErrorResponseBody\<close>: the request id appears only when it is defined.\<close>

definition toErrorResponseBody :: "rf_error \<Rightarrow> jsval" where
  "toErrorResponseBody err =
     JObj [(''error'', JObj ([(''code'', JStr (code_name (err_code err))),
                              (''message'', JStr (err_message err))] @
        (case err_requestId err of None \<Rightarrow> [] | Some r \<Rightarrow> [(''request_id'', JStr r)])))]"

fun statusFromErrorCode :: "error_code \<Rightarrow> nat" where
  "statusFromErrorCode RESOURCE_NOT_FOUND = 404"
| "statusFromErrorCode PERMISSION_DENIED = 403"
| "statusFromErrorCode VALIDATION_FAILED = 400"
| "statusFromErrorCode RATE_LIMITED = 429"
| "statusFromErrorCode CALL_DEPTH_EXCEEDED = 429"
| "statusFromErrorCode TIMEOUT = 504"
| "statusFromErrorCode PAYLOAD_TOO_LARGE = 413"
| "statusFromErrorCode CONFLICT = 409"
| "statusFromErrorCode UNAVAILABLE = 503"
| "statusFromErrorCode INTERNAL = 500"

lemma code_name_inj: "code_name c = code_name d \<Longrightarrow> c = d"
  by (cases c; cases d) simp_all

text \<open>The body determines the error: no two errors serialise to the same response.\<close>

lemma toErrorResponseBody_inj: "toErrorResponseBody a = toErrorResponseBody b \<Longrightarrow> a = b"
  by (auto simp: toErrorResponseBody_def split: option.splits dest: code_name_inj
      intro!: rf_error.equality)

lemma status_is_error: "400 \<le> statusFromErrorCode c \<and> statusFromErrorCode c < 600"
  by (cases c) simp_all

end
