(* ===== verification/IpBlocker.thy ===== *)
theory IpBlocker
  imports Errors
begin

text \<open>
  \<open>runtime/sandbox/egress-ip-blocker.ts\<close>: parsing of IPv4 and IPv6 literals and CIDR ranges into
  integers, the mandatory blocked ranges, and the connect-time decision on a destination. BigInt
  values are \<open>int\<close>; the DNS resolver is a parameter. The theorems show that parsed addresses fit
  their width, that a CIDR test is a test of the leading bits, that the mandatory ranges are
  blocked whatever further ranges are configured, and that a destination that is let through
  resolved only to addresses that are not blocked.
\<close>

unbundle bit_operations_syntax

section \<open>Numbers\<close>

text \<open>
  \<open>BigInt(parseInt(part, 8))\<close> goes through a double: the value is rounded to 53 significant bits,
  ties to even, and \<open>BigInt\<close> of an infinity throws a RangeError.
\<close>

fun bit_len :: "nat \<Rightarrow> int \<Rightarrow> nat" where
  "bit_len 0 n = 0"
| "bit_len (Suc fuel) n = (if n \<le> 0 then 0 else Suc (bit_len fuel (n div 2)))"

definition round_double :: "nat \<Rightarrow> int \<Rightarrow> int option" where
  "round_double fuel n =
     (let L = bit_len fuel n in
      if L \<le> 53 then Some n
      else let s = L - 53; q = n div 2 ^ s; r = n mod 2 ^ s; h = 2 ^ (s - 1);
               q' = (if h < r \<or> r = h \<and> odd q then q + 1 else q);
               v = q' * 2 ^ s
           in if 2 ^ 1024 \<le> v then None else Some v)"

definition nat_hex_digit :: "int \<Rightarrow> char" where
  "nat_hex_digit d = (if d < 10 then char_of (48 + nat d) else char_of (87 + nat d))"

text \<open>\<open>toString(16)\<close> of a value below 65536.\<close>

definition hex16 :: "int \<Rightarrow> string" where
  "hex16 v =
     (if v < 16 then [nat_hex_digit v]
      else if v < 256 then [nat_hex_digit (v div 16), nat_hex_digit (v mod 16)]
      else if v < 4096 then
        [nat_hex_digit (v div 256), nat_hex_digit (v div 16 mod 16), nat_hex_digit (v mod 16)]
      else [nat_hex_digit (v div 4096), nat_hex_digit (v div 256 mod 16),
            nat_hex_digit (v div 16 mod 16), nat_hex_digit (v mod 16)])"

section \<open>Parsing\<close>

definition IPV4_MAX :: int where "IPV4_MAX = 0xffffffff"

definition bracket_match :: "string \<Rightarrow> string option" where
  "bracket_match t =
     (case t of [] \<Rightarrow> None
      | c # cs \<Rightarrow>
         if c \<noteq> CHR ''['' then None
         else let body = takeWhile (\<lambda>x. x \<noteq> CHR '']'') cs; rest = dropWhile (\<lambda>x. x \<noteq> CHR '']'') cs
              in if body = [] then None
                 else (case rest of [] \<Rightarrow> None
                   | _ # r \<Rightarrow>
                      (case r of [] \<Rightarrow> Some body
                       | c2 # ds \<Rightarrow>
                          if c2 = CHR '':'' \<and> ds \<noteq> [] \<and> list_all is_digit ds then Some body else None)))"

definition port_match :: "string \<Rightarrow> string option" where
  "port_match t =
     (let h = takeWhile (\<lambda>x. x \<noteq> CHR '':'') t in
      case dropWhile (\<lambda>x. x \<noteq> CHR '':'') t of
        [] \<Rightarrow> None
      | _ # ds \<Rightarrow> if h \<noteq> [] \<and> ds \<noteq> [] \<and> list_all is_digit ds then Some h else None)"

definition stripPortAndBrackets :: "string \<Rightarrow> string" where
  "stripPortAndBrackets input =
     (let trimmed = trim input in
      case bracket_match trimmed of
        Some b \<Rightarrow> b
      | None \<Rightarrow> (case port_match trimmed of Some h \<Rightarrow> h | None \<Rightarrow> trimmed))"

definition parse_part :: "string \<Rightarrow> int option res" where
  "parse_part part =
     (if part = [] then Inr None
      else if starts_with part ''0x'' \<or> starts_with part ''0X'' then
        let hexDigits = drop 2 part in
        if hexDigits = [] \<or> \<not> list_all is_hex hexDigits then Inr None
        else Inr (Some (digits_val 16 hexDigits))
      else if starts_with part ''0'' \<and> 1 < length part then
        if \<not> list_all is_octal (drop 1 part) then Inr None
        else (case round_double (3 * length part) (digits_val 8 part) of
                None \<Rightarrow> Inl RangeError
              | Some v \<Rightarrow> Inr (Some v))
      else if \<not> list_all is_digit part then Inr None
      else Inr (Some (digits_val 10 part)))"

fun parse_parts :: "string list \<Rightarrow> int list option res" where
  "parse_parts [] = Inr (Some [])"
| "parse_parts (p # ps) =
     bind_res (parse_part p) (\<lambda>v.
       case v of
         None \<Rightarrow> Inr None
       | Some x \<Rightarrow> bind_res (parse_parts ps) (\<lambda>r. Inr (map_option (\<lambda>xs. x # xs) r)))"

fun combine_parts :: "int list \<Rightarrow> int option" where
  "combine_parts [a, b, c, d] =
     (if a > 255 \<or> b > 255 \<or> c > 255 \<or> d > 255 then None
      else Some (push_bit 24 a OR push_bit 16 b OR push_bit 8 c OR d))"
| "combine_parts [a, b, c] =
     (if a > 255 \<or> b > 255 \<or> c > 65535 then None
      else Some (push_bit 24 a OR push_bit 16 b OR c))"
| "combine_parts [a, b] =
     (if a > 255 \<or> b > 16777215 then None else Some (push_bit 24 a OR b))"
| "combine_parts [a] = (if a > IPV4_MAX then None else Some a)"
| "combine_parts _ = None"

definition parseIPv4 :: "string \<Rightarrow> int option res" where
  "parseIPv4 input =
     (let trimmed = trim input in
      if trimmed = [] then Inr None
      else let parts = split_on (CHR ''.'') trimmed in
        if length parts < 1 \<or> 4 < length parts then Inr None
        else bind_res (parse_parts parts) (\<lambda>r. Inr (Option.bind r combine_parts)))"

fun fold_hextets :: "int \<Rightarrow> string list \<Rightarrow> int option" where
  "fold_hextets acc [] = Some acc"
| "fold_hextets acc (h # hs) =
     (if h \<noteq> [] \<and> length h \<le> 4 \<and> list_all is_hex h
      then fold_hextets (push_bit 16 acc OR digits_val 16 h) hs else None)"

definition expand_hextets :: "string \<Rightarrow> string list option" where
  "expand_hextets str =
     (case index_of_str ''::'' str of
        Some i \<Rightarrow>
          if index_of_str ''::'' (drop (i + 2) str) \<noteq> None then None
          else let leftPart = take i str; rightPart = drop (i + 2) str;
                   l = (if leftPart = [] then [] else split_on (CHR '':'') leftPart);
                   r = (if rightPart = [] then [] else split_on (CHR '':'') rightPart);
                   total = length l + length r
               in if 7 < total then None
                  else Some (l @ replicate (8 - total) ''0'' @ r)
      | None \<Rightarrow>
          let hs = split_on (CHR '':'') str in if length hs \<noteq> 8 then None else Some hs)"

text \<open>A dotted IPv4 tail is rewritten to two hextets first; \<open>None\<close> when the tail is no IPv4.\<close>

definition rewrite_v4_tail :: "string \<Rightarrow> nat \<Rightarrow> string option res" where
  "rewrite_v4_tail str lastColon =
     (let tail = drop (lastColon + 1) str in
      if CHR ''.'' \<in> set tail then
        bind_res (parseIPv4 tail) (\<lambda>v.
          case v of
            None \<Rightarrow> Inr None
          | Some v4 \<Rightarrow>
              Inr (Some (take (lastColon + 1) str @ hex16 (drop_bit 16 v4 AND 0xffff) @ '':'' @
                         hex16 (v4 AND 0xffff))))
      else Inr (Some str))"

definition parseIPv6 :: "string \<Rightarrow> int option res" where
  "parseIPv6 input =
     (let str = trim input in
      if str = [] then Inr None
      else (case last_index_of (CHR '':'') str of
          None \<Rightarrow> Inr None
        | Some lastColon \<Rightarrow>
            bind_res (rewrite_v4_tail str lastColon) (\<lambda>s.
              Inr (Option.bind (Option.bind s expand_hextets) (fold_hextets 0)))))"

datatype parsed_ip = Ipv4 int | Ipv6 int

definition tryParseIp :: "string \<Rightarrow> parsed_ip option res" where
  "tryParseIp input =
     (let clean = stripPortAndBrackets input in
      if CHR '':'' \<in> set clean then bind_res (parseIPv6 clean) (\<lambda>v. Inr (map_option Ipv6 v))
      else bind_res (parseIPv4 clean) (\<lambda>v. Inr (map_option Ipv4 v)))"

section \<open>Ranges\<close>

record cidr =
  network :: int
  cmask :: int

definition split_cidr :: "string \<Rightarrow> string \<Rightarrow> string \<times> string" where
  "split_cidr dflt c =
     (case index_of (CHR ''/'') c of None \<Rightarrow> (c, dflt) | Some i \<Rightarrow> (take i c, drop (i + 1) c))"

definition v4_mask :: "nat \<Rightarrow> int" where
  "v4_mask p = (if p = 0 then 0 else push_bit (32 - p) (push_bit p 1 - 1) AND IPV4_MAX)"

definition v6_mask :: "nat \<Rightarrow> int" where
  "v6_mask p = (if p = 0 then 0 else push_bit (128 - p) (push_bit p 1 - 1))"

definition parseIpv4Cidr :: "string \<Rightarrow> cidr res" where
  "parseIpv4Cidr c =
     (let (ipStr, prefixStr) = split_cidr ''32'' c in
      case parseInt prefixStr 10 of
        None \<Rightarrow> Inl (PlainError (''Invalid IPv4 CIDR prefix: '' @ c))
      | Some p \<Rightarrow>
          if p < 0 \<or> 32 < p then Inl (PlainError (''Invalid IPv4 CIDR prefix: '' @ c))
          else bind_res (parseIPv4 ipStr) (\<lambda>v.
            case v of
              None \<Rightarrow> Inl (PlainError (''Invalid IPv4 address in CIDR: '' @ c))
            | Some ip \<Rightarrow> let m = v4_mask (nat p) in Inr \<lparr>network = ip AND m, cmask = m\<rparr>))"

definition parseIpv6Cidr :: "string \<Rightarrow> cidr res" where
  "parseIpv6Cidr c =
     (let (ipStr, prefixStr) = split_cidr ''128'' c in
      case parseInt prefixStr 10 of
        None \<Rightarrow> Inl (PlainError (''Invalid IPv6 CIDR prefix: '' @ c))
      | Some p \<Rightarrow>
          if p < 0 \<or> 128 < p then Inl (PlainError (''Invalid IPv6 CIDR prefix: '' @ c))
          else bind_res (parseIPv6 ipStr) (\<lambda>v.
            case v of
              None \<Rightarrow> Inl (PlainError (''Invalid IPv6 address in CIDR: '' @ c))
            | Some ip \<Rightarrow> let m = v6_mask (nat p) in Inr \<lparr>network = ip AND m, cmask = m\<rparr>))"

definition MANDATORY_BLOCKED_IPV4_CIDRS :: "string list" where
  "MANDATORY_BLOCKED_IPV4_CIDRS =
     [''169.254.0.0/16'', ''10.0.0.0/8'', ''172.16.0.0/12'', ''192.168.0.0/16'', ''127.0.0.0/8'',
      ''0.0.0.0/8'', ''100.64.0.0/10'', ''224.0.0.0/4'', ''240.0.0.0/4'']"

definition MANDATORY_BLOCKED_IPV6_CIDRS :: "string list" where
  "MANDATORY_BLOCKED_IPV6_CIDRS =
     [''fd00:ec2::/8'', ''fc00::/7'', ''::1/128'', ''fe80::/10'', ''ff00::/8'', ''::/128'']"

section \<open>The blocker\<close>

record blocker =
  ipv4BlockedRanges :: "cidr list"
  ipv6BlockedRanges :: "cidr list"

fun add_ranges :: "string list \<Rightarrow> blocker \<Rightarrow> blocker res" where
  "add_ranges [] b = Inr b"
| "add_ranges (c # cs) b =
     (if CHR '':'' \<in> set c
      then bind_res (parseIpv6Cidr c)
             (\<lambda>r. add_ranges cs (b\<lparr>ipv6BlockedRanges := ipv6BlockedRanges b @ [r]\<rparr>))
      else bind_res (parseIpv4Cidr c)
             (\<lambda>r. add_ranges cs (b\<lparr>ipv4BlockedRanges := ipv4BlockedRanges b @ [r]\<rparr>)))"

definition new_blocker :: "string list \<Rightarrow> blocker res" where
  "new_blocker additional =
     bind_res (map_res parseIpv4Cidr MANDATORY_BLOCKED_IPV4_CIDRS) (\<lambda>v4.
     bind_res (map_res parseIpv6Cidr MANDATORY_BLOCKED_IPV6_CIDRS) (\<lambda>v6.
       add_ranges additional \<lparr>ipv4BlockedRanges = v4, ipv6BlockedRanges = v6\<rparr>))"

definition isIpv4Blocked :: "blocker \<Rightarrow> int \<Rightarrow> bool" where
  "isIpv4Blocked b v = list_ex (\<lambda>c. v AND cmask c = network c) (ipv4BlockedRanges b)"

definition isIpv6Blocked :: "blocker \<Rightarrow> int \<Rightarrow> bool" where
  "isIpv6Blocked b v = list_ex (\<lambda>c. v AND cmask c = network c) (ipv6BlockedRanges b)"

definition isParsedBlocked :: "blocker \<Rightarrow> parsed_ip option \<Rightarrow> bool" where
  "isParsedBlocked b p =
     (case p of
        None \<Rightarrow> True
      | Some (Ipv4 v) \<Rightarrow> isIpv4Blocked b v
      | Some (Ipv6 v) \<Rightarrow>
          if drop_bit 32 v = 0xffff then isIpv4Blocked b (v AND IPV4_MAX)
          else if drop_bit 32 v = 0 \<and> 1 < v then isIpv4Blocked b (v AND IPV4_MAX)
          else isIpv6Blocked b v)"

definition isIpBlocked :: "blocker \<Rightarrow> string \<Rightarrow> bool res" where
  "isIpBlocked b ip = bind_res (tryParseIp ip) (\<lambda>p. Inr (isParsedBlocked b p))"

record block_result =
  blocked :: bool
  res_ip :: string
  reason :: "string option"

fun first_blocked :: "blocker \<Rightarrow> string list \<Rightarrow> string option res" where
  "first_blocked b [] = Inr None"
| "first_blocked b (ip # ips) =
     bind_res (isIpBlocked b ip) (\<lambda>bl. if bl then Inr (Some ip) else first_blocked b ips)"

definition decide_resolved :: "blocker \<Rightarrow> string \<Rightarrow> string list \<Rightarrow> block_result res" where
  "decide_resolved b target ips =
     (case ips of
        [] \<Rightarrow> Inr \<lparr>blocked = True, res_ip = target, reason = Some ''No IP addresses resolved''\<rparr>
      | ip0 # _ \<Rightarrow>
          bind_res (first_blocked b ips) (\<lambda>fb.
            case fb of
              Some ip \<Rightarrow> Inr \<lparr>blocked = True, res_ip = ip,
                          reason = Some (''Destination resolved to blocked IP '' @ ip)\<rparr>
            | None \<Rightarrow> Inr \<lparr>blocked = False, res_ip = ip0, reason = None\<rparr>))"

definition validateDestination ::
  "blocker \<Rightarrow> (string \<Rightarrow> string list res) \<Rightarrow> string \<Rightarrow> block_result res" where
  "validateDestination b dns hostOrIp =
     (let target = stripPortAndBrackets hostOrIp in
      bind_res (tryParseIp target) (\<lambda>parsed.
      if parsed \<noteq> None then
        bind_res (isIpBlocked b target) (\<lambda>bl.
          if bl then Inr \<lparr>blocked = True, res_ip = target,
                     reason = Some (''Destination IP '' @ target @ '' is in a blocked range'')\<rparr>
          else Inr \<lparr>blocked = False, res_ip = target, reason = None\<rparr>)
      else bind_res (dns target) (decide_resolved b target)))"

section \<open>Masks select leading bits\<close>

lemma bit_imp_less: "0 \<le> v \<Longrightarrow> v < 2 ^ n \<Longrightarrow> bit (v :: int) i \<Longrightarrow> i < n"
  by (metis bit_take_bit_iff take_bit_int_eq_self)

lemma and_prefix_mask:
  assumes "0 \<le> v" "v < 2 ^ n" "p \<le> n"
  shows "(v :: int) AND push_bit (n - p) (push_bit p 1 - 1) = push_bit (n - p) (drop_bit (n - p) v)"
proof (rule bit_eqI)
  fix i
  have "push_bit p (1 :: int) - 1 = mask p" by (simp add: mask_eq_exp_minus_1)
  then show "bit (v AND push_bit (n - p) (push_bit p 1 - 1)) i =
        bit (push_bit (n - p) (drop_bit (n - p) v)) i"
    using bit_imp_less[OF assms(1,2), of i] assms(3)
    by (auto simp: bit_and_iff bit_push_bit_iff bit_drop_bit_eq bit_mask_iff)
qed

lemma v4_mask_and: "0 \<le> v \<Longrightarrow> v < 2 ^ 32 \<Longrightarrow> p \<le> 32 \<Longrightarrow> v AND v4_mask p = push_bit (32 - p) (drop_bit (32 - p) v)"
proof -
  assume v: "0 \<le> v" "v < 2 ^ 32" and p: "p \<le> 32"
  have max: "v AND IPV4_MAX = v"
  proof -
    have "IPV4_MAX = mask 32" by (simp add: IPV4_MAX_def mask_eq_exp_minus_1)
    then have "v AND IPV4_MAX = take_bit 32 v" by (simp add: take_bit_eq_mask)
    then show ?thesis using v by (simp add: take_bit_int_eq_self)
  qed
  show ?thesis
  proof (cases "p = 0")
    case True
    have "drop_bit 32 v = 0" using v by (simp add: drop_bit_eq_div)
    then show ?thesis using True by (simp add: v4_mask_def)
  next
    case False
    have "v AND v4_mask p = (v AND IPV4_MAX) AND push_bit (32 - p) (push_bit p 1 - 1)"
      using False by (simp add: v4_mask_def ac_simps)
    then show ?thesis using and_prefix_mask[OF v p] max by simp
  qed
qed

lemma v6_mask_and:
  assumes v: "0 \<le> v" "v < 2 ^ 128" and p: "p \<le> 128"
  shows "v AND v6_mask p = push_bit (128 - p) (drop_bit (128 - p) v)"
proof (cases "p = 0")
  case True
  have "drop_bit 128 v = 0" using v by (simp add: drop_bit_eq_div)
  then show ?thesis using True by (simp add: v6_mask_def)
next
  case False
  then show ?thesis using and_prefix_mask[OF v p] by (simp add: v6_mask_def)
qed

lemma prefix_eq_iff:
  "(push_bit k (drop_bit k v) = (m :: int) * 2 ^ k) \<longleftrightarrow> v div 2 ^ k = m"
  by (simp add: push_bit_eq_mult drop_bit_eq_div)

lemma v4_block_iff:
  assumes "0 \<le> v" "v < 2 ^ 32" "p + k = 32" "v4_mask p = m" "q * 2 ^ k = n"
  shows "v AND m = n \<longleftrightarrow> v div 2 ^ k = q"
proof -
  have "p \<le> 32" and k: "32 - p = k" using assms(3) by auto
  then show ?thesis using v4_mask_and[OF assms(1,2), of p] assms(4,5) prefix_eq_iff by metis
qed

lemma v6_block_iff:
  assumes "0 \<le> v" "v < 2 ^ 128" "p + k = 128" "q * 2 ^ k = n"
  shows "v AND v6_mask p = n \<longleftrightarrow> v div 2 ^ k = q"
proof -
  have "p \<le> 128" and k: "128 - p = k" using assms(3) by auto
  then show ?thesis using v6_mask_and[OF assms(1,2), of p] assms(4) prefix_eq_iff by metis
qed

text \<open>The mandatory ranges as the constructor parses them.\<close>

definition mandatory_v4_ranges :: "cidr list" where
  "mandatory_v4_ranges =
     [\<lparr>network = 2851995648, cmask = 4294901760\<rparr>, \<lparr>network = 167772160, cmask = 4278190080\<rparr>,
      \<lparr>network = 2886729728, cmask = 4293918720\<rparr>, \<lparr>network = 3232235520, cmask = 4294901760\<rparr>,
      \<lparr>network = 2130706432, cmask = 4278190080\<rparr>, \<lparr>network = 0, cmask = 4278190080\<rparr>,
      \<lparr>network = 1681915904, cmask = 4290772992\<rparr>, \<lparr>network = 3758096384, cmask = 4026531840\<rparr>,
      \<lparr>network = 4026531840, cmask = 4026531840\<rparr>]"

definition mandatory_v6_ranges :: "cidr list" where
  "mandatory_v6_ranges =
     [\<lparr>network = 0xfd * 2 ^ 120, cmask = v6_mask 8\<rparr>, \<lparr>network = 0x7e * 2 ^ 121, cmask = v6_mask 7\<rparr>,
      \<lparr>network = 1, cmask = v6_mask 128\<rparr>, \<lparr>network = 0x3fa * 2 ^ 118, cmask = v6_mask 10\<rparr>,
      \<lparr>network = 0xff * 2 ^ 120, cmask = v6_mask 8\<rparr>, \<lparr>network = 0, cmask = v6_mask 128\<rparr>]"

lemma parse_mandatory_v4: "map_res parseIpv4Cidr MANDATORY_BLOCKED_IPV4_CIDRS = Inr mandatory_v4_ranges"
  by code_simp

lemma parse_mandatory_v6: "map_res parseIpv6Cidr MANDATORY_BLOCKED_IPV6_CIDRS = Inr mandatory_v6_ranges"
  by code_simp

lemma add_ranges_extends:
  "add_ranges cs b = Inr b' \<Longrightarrow>
     (\<exists>xs. ipv4BlockedRanges b' = ipv4BlockedRanges b @ xs) \<and>
     (\<exists>ys. ipv6BlockedRanges b' = ipv6BlockedRanges b @ ys)"
proof (induction cs arbitrary: b)
  case (Cons c cs)
  then show ?case by (fastforce simp: bind_res_Inr_iff split: if_splits)
qed simp

lemma new_blocker_ranges:
  assumes "new_blocker extra = Inr b"
  obtains xs ys where "ipv4BlockedRanges b = mandatory_v4_ranges @ xs"
    and "ipv6BlockedRanges b = mandatory_v6_ranges @ ys"
  using assms add_ranges_extends[of extra _ b]
  by (fastforce simp: new_blocker_def parse_mandatory_v4 parse_mandatory_v6)

lemma new_blocker_default:
  "new_blocker [] = Inr \<lparr>ipv4BlockedRanges = mandatory_v4_ranges, ipv6BlockedRanges = mandatory_v6_ranges\<rparr>"
  by (simp add: new_blocker_def parse_mandatory_v4 parse_mandatory_v6)

section \<open>What the mandatory ranges are\<close>

text \<open>The blocked IPv4 space by leading octets, as the comments of the source list it.\<close>

definition mandatory_v4 :: "int \<Rightarrow> bool" where
  "mandatory_v4 v =
     (v div 2 ^ 24 \<in> {0, 10, 127} \<or> v div 2 ^ 20 = 172 * 16 + 1 \<or>
      v div 2 ^ 16 \<in> {169 * 256 + 254, 192 * 256 + 168} \<or> v div 2 ^ 22 = 100 * 4 + 1 \<or>
      v div 2 ^ 28 \<in> {14, 15})"

definition mandatory_v6 :: "int \<Rightarrow> bool" where
  "mandatory_v6 v = (v \<in> {0, 1} \<or> v div 2 ^ 121 = 0x7e \<or> v div 2 ^ 118 = 0x3fa \<or> v div 2 ^ 120 = 0xff)"

fun mandatory_ip :: "parsed_ip \<Rightarrow> bool" where
  "mandatory_ip (Ipv4 v) = mandatory_v4 v"
| "mandatory_ip (Ipv6 v) =
     (if v div 2 ^ 32 = 0xffff \<or> v div 2 ^ 32 = 0 \<and> 1 < v then mandatory_v4 (v mod 2 ^ 32)
      else mandatory_v6 v)"

lemma v4_ranges_iff:
  assumes v: "0 \<le> v" "v < 2 ^ 32"
  shows "list_ex (\<lambda>c. v AND cmask c = network c) mandatory_v4_ranges \<longleftrightarrow> mandatory_v4 v"
proof -
  note iff = v4_block_iff[OF v]
  have "v AND 4294901760 = 2851995648 \<longleftrightarrow> v div 2 ^ 16 = 169 * 256 + 254"
    by (rule iff[where p = 16]) (simp_all add: v4_mask_def IPV4_MAX_def)
  moreover have "v AND 4278190080 = 167772160 \<longleftrightarrow> v div 2 ^ 24 = 10"
    by (rule iff[where p = 8]) (simp_all add: v4_mask_def IPV4_MAX_def)
  moreover have "v AND 4293918720 = 2886729728 \<longleftrightarrow> v div 2 ^ 20 = 172 * 16 + 1"
    by (rule iff[where p = 12]) (simp_all add: v4_mask_def IPV4_MAX_def)
  moreover have "v AND 4294901760 = 3232235520 \<longleftrightarrow> v div 2 ^ 16 = 192 * 256 + 168"
    by (rule iff[where p = 16]) (simp_all add: v4_mask_def IPV4_MAX_def)
  moreover have "v AND 4278190080 = 2130706432 \<longleftrightarrow> v div 2 ^ 24 = 127"
    by (rule iff[where p = 8]) (simp_all add: v4_mask_def IPV4_MAX_def)
  moreover have "v AND 4278190080 = 0 \<longleftrightarrow> v div 2 ^ 24 = 0"
    by (rule iff[where p = 8]) (simp_all add: v4_mask_def IPV4_MAX_def)
  moreover have "v AND 4290772992 = 1681915904 \<longleftrightarrow> v div 2 ^ 22 = 100 * 4 + 1"
    by (rule iff[where p = 10]) (simp_all add: v4_mask_def IPV4_MAX_def)
  moreover have "v AND 4026531840 = 3758096384 \<longleftrightarrow> v div 2 ^ 28 = 14"
    by (rule iff[where p = 4]) (simp_all add: v4_mask_def IPV4_MAX_def)
  moreover have "v AND 4026531840 = 4026531840 \<longleftrightarrow> v div 2 ^ 28 = 15"
    by (rule iff[where p = 4]) (simp_all add: v4_mask_def IPV4_MAX_def)
  ultimately show ?thesis unfolding mandatory_v4_ranges_def mandatory_v4_def by auto
qed

lemma v6_ranges_iff:
  assumes v: "0 \<le> v" "v < 2 ^ 128"
  shows "list_ex (\<lambda>c. v AND cmask c = network c) mandatory_v6_ranges \<longleftrightarrow> mandatory_v6 v"
proof -
  note iff = v6_block_iff[OF v]
  have "v AND v6_mask 8 = 0xfd * 2 ^ 120 \<longleftrightarrow> v div 2 ^ 120 = 0xfd"
    by (rule iff) simp_all
  moreover have "v AND v6_mask 7 = 0x7e * 2 ^ 121 \<longleftrightarrow> v div 2 ^ 121 = 0x7e"
    by (rule iff) simp_all
  moreover have "v AND v6_mask 128 = 1 \<longleftrightarrow> v = 1"
    using iff[of 128 0 1 1] by simp
  moreover have "v AND v6_mask 10 = 0x3fa * 2 ^ 118 \<longleftrightarrow> v div 2 ^ 118 = 0x3fa"
    by (rule iff) simp_all
  moreover have "v AND v6_mask 8 = 0xff * 2 ^ 120 \<longleftrightarrow> v div 2 ^ 120 = 0xff"
    by (rule iff) simp_all
  moreover have "v AND v6_mask 128 = 0 \<longleftrightarrow> v = 0"
    using iff[of 128 0 0 0] by simp
  moreover have "v div 2 ^ 120 = 0xfd \<Longrightarrow> v div 2 ^ 121 = 0x7e"
    using zdiv_zmult2_eq[of 2 v "2 ^ 120"] by simp
  ultimately show ?thesis unfolding mandatory_v6_ranges_def mandatory_v6_def by auto
qed

section \<open>Parsed addresses fit their width\<close>

lemma or_push_bound:
  fixes x y :: int
  assumes "0 \<le> x" "x < 2 ^ n" "0 \<le> y" "y < 2 ^ k"
  shows "0 \<le> (push_bit k x OR y) \<and> (push_bit k x OR y) < 2 ^ (n + k)"
proof -
  have "x * 2 ^ k < 2 ^ n * 2 ^ k" using assms(2) by (intro mult_strict_right_mono) auto
  then have a: "push_bit k x < 2 ^ (n + k)" by (simp add: push_bit_eq_mult power_add)
  have "(2::int) ^ k \<le> 2 ^ (n + k)" by (intro power_increasing) auto
  then have b: "y < 2 ^ (n + k)" using assms(4) by linarith
  have "0 \<le> push_bit k x" using assms(1) by (simp add: push_bit_eq_mult)
  then show ?thesis using a b assms(3) by (auto intro: OR_upper)
qed

lemma or_push_add:
  fixes x y :: int
  assumes "0 \<le> y" "y < 2 ^ k"
  shows "push_bit k x OR y = x * 2 ^ k + y"
proof -
  have "push_bit k x AND y = 0"
    using bit_imp_less[OF assms] by (intro bit_eqI) (fastforce simp: bit_and_iff bit_push_bit_iff)
  then have "push_bit k x OR y = push_bit k x + y" by (simp add: disjunctive_add_eq_or)
  then show ?thesis by (simp add: push_bit_eq_mult)
qed

lemma round_double_nonneg: "0 \<le> n \<Longrightarrow> round_double f n = Some m \<Longrightarrow> 0 \<le> m"
  by (auto simp: round_double_def Let_def pos_imp_zdiv_nonneg_iff split: if_splits)

lemma parse_part_nonneg: "parse_part p = Inr (Some x) \<Longrightarrow> 0 \<le> x"
  by (auto simp: parse_part_def Let_def digits_val_nonneg split: if_splits option.splits
      dest!: round_double_nonneg[rotated])

lemma parse_parts_nonneg:
  "parse_parts ps = Inr (Some xs) \<Longrightarrow> (\<forall>x \<in> set xs. 0 \<le> x) \<and> length xs = length ps"
proof (induction ps arbitrary: xs)
  case (Cons p ps)
  then show ?case
    by (fastforce simp: bind_res_Inr_iff split: option.splits dest: parse_part_nonneg)
qed simp

lemma combine_parts_bound:
  "combine_parts xs = Some v \<Longrightarrow> (\<forall>x \<in> set xs. 0 \<le> x) \<Longrightarrow> 0 \<le> v \<and> v < 2 ^ 32"
proof (induction xs rule: combine_parts.induct)
  case (1 a b c d)
  then have s: "a < 2 ^ 8" "b < 2 ^ 8" "c < 2 ^ 8" "d < 2 ^ 8" by (auto split: if_splits)
  have "0 \<le> (push_bit 8 c OR d) \<and> (push_bit 8 c OR d) < 2 ^ 16"
    using or_push_bound[of c 8 d 8] "1.prems"(2) s by simp
  then have "0 \<le> (push_bit 16 b OR (push_bit 8 c OR d)) \<and> (push_bit 16 b OR (push_bit 8 c OR d)) < 2 ^ 24"
    using or_push_bound[of b 8 _ 16] "1.prems"(2) s by simp
  then show ?case using or_push_bound[of a 8 _ 24] "1.prems" s by (auto simp: or.assoc split: if_splits)
next
  case (2 a b c)
  then have s: "a < 2 ^ 8" "b < 2 ^ 8" "c < 2 ^ 16" by (auto split: if_splits)
  have "0 \<le> (push_bit 16 b OR c) \<and> (push_bit 16 b OR c) < 2 ^ 24"
    using or_push_bound[of b 8 _ 16] "2.prems"(2) s by simp
  then show ?case using or_push_bound[of a 8 _ 24] "2.prems" s by (auto simp: or.assoc split: if_splits)
next
  case (3 a b)
  then show ?case using or_push_bound[of a 8 b 24] by (auto split: if_splits)
next
  case (4 a)
  then show ?case by (auto simp: IPV4_MAX_def split: if_splits)
qed simp_all

lemma parseIPv4_bound: "parseIPv4 s = Inr (Some v) \<Longrightarrow> 0 \<le> v \<and> v < 2 ^ 32"
  by (auto simp: parseIPv4_def Let_def bind_res_Inr_iff bind_eq_Some_conv split: if_splits
      dest!: parse_parts_nonneg combine_parts_bound)

lemma fold_hextets_bound:
  "fold_hextets acc hs = Some v \<Longrightarrow> 0 \<le> acc \<Longrightarrow> acc < 2 ^ n \<Longrightarrow>
     0 \<le> v \<and> v < 2 ^ (n + 16 * length hs)"
proof (induction hs arbitrary: acc n)
  case (Cons h hs)
  then have h: "h \<noteq> []" "length h \<le> 4" "list_all is_hex h" by (auto split: if_splits)
  have "digits_val (int 16) h < int 16 ^ length h"
    by (rule digits_val_less) (use h(3) in \<open>auto simp: list_all_iff\<close>)
  also have "int 16 ^ length h \<le> 16 ^ 4" using h(2) power_increasing[of "length h" 4 "16 :: int"] by simp
  finally have d: "digits_val 16 h < 2 ^ 16" by simp
  have "0 \<le> digits_val 16 h" by (simp add: digits_val_nonneg)
  then have "0 \<le> (push_bit 16 acc OR digits_val 16 h)"
    "(push_bit 16 acc OR digits_val 16 h) < 2 ^ (n + 16)"
    using or_push_bound[of acc n _ 16] Cons.prems d by auto
  then show ?case using Cons.IH[of _ "n + 16"] Cons.prems(1) h by (simp add: algebra_simps)
qed simp

lemma expand_hextets_length: "expand_hextets s = Some hs \<Longrightarrow> length hs = 8"
  by (auto simp: expand_hextets_def Let_def split: option.splits if_splits)

lemma parseIPv6_bound: "parseIPv6 s = Inr (Some v) \<Longrightarrow> 0 \<le> v \<and> v < 2 ^ 128"
  using fold_hextets_bound[of 0 _ v 0] expand_hextets_length
  by (fastforce simp: parseIPv6_def Let_def bind_res_Inr_iff bind_eq_Some_conv
      split: if_splits option.splits)

fun ip_in_width :: "parsed_ip \<Rightarrow> bool" where
  "ip_in_width (Ipv4 v) = (0 \<le> v \<and> v < 2 ^ 32)"
| "ip_in_width (Ipv6 v) = (0 \<le> v \<and> v < 2 ^ 128)"

lemma tryParseIp_width: "tryParseIp s = Inr (Some p) \<Longrightarrow> ip_in_width p"
  using parseIPv4_bound parseIPv6_bound
  by (auto simp: tryParseIp_def Let_def bind_res_Inr_iff split: if_splits)

section \<open>The blocking decision\<close>

lemma drop_bit_32_v6: "0 \<le> v \<Longrightarrow> (v AND IPV4_MAX) = v mod 2 ^ 32"
proof -
  have "IPV4_MAX = mask 32" by (simp add: IPV4_MAX_def mask_eq_exp_minus_1)
  then have "v AND IPV4_MAX = take_bit 32 v" by (simp add: take_bit_eq_mask)
  then show ?thesis by (simp add: take_bit_eq_mod)
qed

lemma isParsedBlocked_default:
  assumes w: "ip_in_width p"
    and b: "ipv4BlockedRanges b = mandatory_v4_ranges" "ipv6BlockedRanges b = mandatory_v6_ranges"
  shows "isParsedBlocked b (Some p) = mandatory_ip p"
proof (cases p)
  case (Ipv4 v)
  then show ?thesis using w b v4_ranges_iff by (simp add: isParsedBlocked_def isIpv4Blocked_def)
next
  case (Ipv6 v)
  have "list_ex (\<lambda>c. (v mod 2 ^ 32) AND cmask c = network c) mandatory_v4_ranges = mandatory_v4 (v mod 2 ^ 32)"
    by (rule v4_ranges_iff) simp_all
  then show ?thesis using Ipv6 w b v6_ranges_iff[of v]
    by (simp add: isParsedBlocked_def isIpv4Blocked_def isIpv6Blocked_def drop_bit_32_v6 drop_bit_eq_div)
qed

lemma isParsedBlocked_mono:
  assumes "ipv4BlockedRanges b = mandatory_v4_ranges @ xs" "ipv6BlockedRanges b = mandatory_v6_ranges @ ys"
    and "ip_in_width p" "mandatory_ip p"
  shows "isParsedBlocked b (Some p)"
proof -
  let ?d = "\<lparr>ipv4BlockedRanges = mandatory_v4_ranges, ipv6BlockedRanges = mandatory_v6_ranges\<rparr>"
  have "isParsedBlocked ?d (Some p)" using isParsedBlocked_default[of p ?d] assms(3,4) by simp
  then show ?thesis using assms(1,2)
    by (auto simp: isParsedBlocked_def isIpv4Blocked_def isIpv6Blocked_def split: parsed_ip.splits if_splits)
qed

lemma first_blocked_None:
  "first_blocked b ips = Inr None \<longleftrightarrow> (\<forall>ip \<in> set ips. isIpBlocked b ip = Inr False)"
  by (induction ips) (auto simp: bind_res_Inr_iff split: if_splits)

lemma decide_resolved_open:
  assumes "decide_resolved b t ips = Inr r" "\<not> blocked r"
  shows "ips \<noteq> [] \<and> res_ip r = hd ips \<and> (\<forall>ip \<in> set ips. isIpBlocked b ip = Inr False)"
proof (cases ips)
  case (Cons ip0 rest)
  then obtain fb where fb: "first_blocked b ips = Inr fb"
    using assms(1) by (auto simp: decide_resolved_def bind_res_Inr_iff simp del: first_blocked.simps)
  have "fb = None" "res_ip r = ip0"
    using assms fb Cons by (auto simp: decide_resolved_def simp del: first_blocked.simps split: option.splits)
  moreover have "\<forall>ip \<in> set ips. isIpBlocked b ip = Inr False"
    using fb \<open>fb = None\<close> first_blocked_None by blast
  ultimately show ?thesis using Cons by simp
qed (use assms in \<open>auto simp: decide_resolved_def\<close>)

text \<open>
  C2: Whatever further ranges the blocker is configured with, an address literal in any accepted
  notation (dotted, octal, hexadecimal, short forms, IPv6, IPv4-mapped or IPv4-compatible IPv6)
  that denotes an address of a mandatory range is blocked.
\<close>

theorem mandatory_ranges_always_blocked:
  assumes "new_blocker extra = Inr b"
    and "tryParseIp ip = Inr (Some p)"
    and "mandatory_ip p"
  shows "isIpBlocked b ip = Inr True"
proof -
  obtain xs ys where "ipv4BlockedRanges b = mandatory_v4_ranges @ xs"
    "ipv6BlockedRanges b = mandatory_v6_ranges @ ys"
    using new_blocker_ranges[OF assms(1)] .
  then have "isParsedBlocked b (Some p)"
    using isParsedBlocked_mono tryParseIp_width assms(2,3) by blast
  then show ?thesis using assms(2) by (simp add: isIpBlocked_def)
qed

theorem mandatory_ranges_always_blocked_witness:
  "\<exists>b. new_blocker [''8.8.8.0/24''] = Inr b \<and> isIpBlocked b ''0xa9.254.0xa9fe'' = Inr True"
proof -
  obtain b where b: "new_blocker [''8.8.8.0/24''] = Inr b"
  proof -
    have "\<not> isl (new_blocker [''8.8.8.0/24''])" by code_simp
    then show ?thesis using that by (cases "new_blocker [''8.8.8.0/24'']") auto
  qed
  have p: "tryParseIp ''0xa9.254.0xa9fe'' = Inr (Some (Ipv4 2852039166))" by code_simp
  have "mandatory_ip (Ipv4 2852039166)" by (simp add: mandatory_v4_def)
  then show ?thesis using b mandatory_ranges_always_blocked[OF b p] by blast
qed

text \<open>
  The blocker built with no further ranges decides every literal exactly: a literal that
  parses is blocked if and only if it lies in a mandatory range, and text that is no address is
  blocked.
\<close>

theorem default_blocker_exact:
  assumes "new_blocker [] = Inr b" and "tryParseIp ip = Inr r"
  shows "isIpBlocked b ip = Inr (case r of None \<Rightarrow> True | Some p \<Rightarrow> mandatory_ip p)"
proof (cases r)
  case None
  then show ?thesis using assms(2) by (simp add: isIpBlocked_def isParsedBlocked_def)
next
  case (Some p)
  have "ip_in_width p" using tryParseIp_width assms(2) Some by simp
  then show ?thesis
    using isParsedBlocked_default[of p b] assms Some
    by (auto simp: isIpBlocked_def new_blocker_default)
qed

theorem default_blocker_exact_witness:
  "isIpBlocked \<lparr>ipv4BlockedRanges = mandatory_v4_ranges, ipv6BlockedRanges = mandatory_v6_ranges\<rparr>
     ''8.8.8.8'' = Inr False"
proof -
  have p: "tryParseIp ''8.8.8.8'' = Inr (Some (Ipv4 134744072))" by code_simp
  show ?thesis using default_blocker_exact[OF new_blocker_default p] by (simp add: mandatory_v4_def)
qed

text \<open>
  A destination is let through only if the address that is returned for the connection is
  not blocked, and, when the destination is a host name, only if none of the addresses the
  resolver returned is blocked.
\<close>

theorem validateDestination_safe:
  assumes "validateDestination b dns host = Inr r" and "\<not> blocked r"
  shows "isIpBlocked b (res_ip r) = Inr False \<and>
         (tryParseIp (stripPortAndBrackets host) = Inr None \<longrightarrow>
            (\<exists>ips. dns (stripPortAndBrackets host) = Inr ips \<and> res_ip r = hd ips \<and> ips \<noteq> [] \<and>
                   (\<forall>ip \<in> set ips. isIpBlocked b ip = Inr False)))"
proof -
  let ?t = "stripPortAndBrackets host"
  obtain parsed where p: "tryParseIp ?t = Inr parsed"
    using assms(1) by (auto simp: validateDestination_def Let_def bind_res_Inr_iff)
  show ?thesis
  proof (cases parsed)
    case (Some x)
    then show ?thesis using assms p
      by (auto simp: validateDestination_def Let_def bind_res_Inr_iff split: if_splits)
  next
    case None
    with assms(1) p obtain ips where ips: "dns ?t = Inr ips" and r: "decide_resolved b ?t ips = Inr r"
      by (auto simp: validateDestination_def Let_def bind_res_Inr_iff)
    then have "ips \<noteq> []" "res_ip r = hd ips" "\<forall>ip \<in> set ips. isIpBlocked b ip = Inr False"
      using decide_resolved_open[OF r assms(2)] by auto
    then show ?thesis using ips by (cases ips) auto
  qed
qed

theorem validateDestination_safe_witness:
  "isIpBlocked \<lparr>ipv4BlockedRanges = mandatory_v4_ranges, ipv6BlockedRanges = mandatory_v6_ranges\<rparr>
     ''93.184.216.34'' = Inr False"
proof -
  let ?b = "\<lparr>ipv4BlockedRanges = mandatory_v4_ranges, ipv6BlockedRanges = mandatory_v6_ranges\<rparr>"
  have v: "validateDestination ?b (\<lambda>_. Inr [''93.184.216.34'']) ''example.com:443'' =
      Inr \<lparr>blocked = False, res_ip = ''93.184.216.34'', reason = None\<rparr>" by code_simp
  show ?thesis using validateDestination_safe[OF v] by simp
qed

lemma parse_part_nat_str: "parse_part (nat_str n) = Inr (Some (int n))"
proof -
  have d: "list_all is_digit (nat_str n)" by (auto simp: list_all_iff nat_str_digits)
  have nox: "\<not> starts_with (nat_str n) ''0x''" "\<not> starts_with (nat_str n) ''0X''"
    using d by (auto simp: starts_with_iff is_digit_def)
  have "\<not> (starts_with (nat_str n) ''0'' \<and> 1 < length (nat_str n))"
  proof (cases "n = 0")
    case True
    then show ?thesis by (subst nat_str.simps) simp
  next
    case False
    then show ?thesis using nat_str_hd[of n] by (auto simp: starts_with_iff)
  qed
  then show ?thesis using d nox by (auto simp: parse_part_def digits_val_nat_str)
qed

definition dotted :: "nat \<Rightarrow> nat \<Rightarrow> nat \<Rightarrow> nat \<Rightarrow> string" where
  "dotted a b c d = nat_str a @ ''.'' @ nat_str b @ ''.'' @ nat_str c @ ''.'' @ nat_str d"

lemma nat_str_no_dot: "CHR ''.'' \<notin> set (nat_str n)"
  using nat_str_digits[of "CHR ''.''" n] by (auto simp: is_digit_def)

lemma split_dotted:
  "split_on (CHR ''.'') (dotted a b c d) = [nat_str a, nat_str b, nat_str c, nat_str d]"
  by (simp add: dotted_def split_on_append_sep split_on_absent nat_str_no_dot)

text \<open>
  Every IPv4 literal the parser accepts denotes a value below 2^32 and every IPv6 literal a
  value below 2^128, and the dotted decimal rendering of four octets parses to their value.
\<close>

theorem parsed_addresses_in_width:
  "(parseIPv4 s = Inr (Some v) \<longrightarrow> 0 \<le> v \<and> v < 2 ^ 32) \<and>
   (parseIPv6 s = Inr (Some v) \<longrightarrow> 0 \<le> v \<and> v < 2 ^ 128) \<and>
   (a < 256 \<and> b < 256 \<and> c < 256 \<and> d < 256 \<longrightarrow>
      parseIPv4 (dotted a b c d) =
        Inr (Some (int a * 2 ^ 24 + int b * 2 ^ 16 + int c * 2 ^ 8 + int d)))"
proof (intro conjI impI)
  assume o: "a < 256 \<and> b < 256 \<and> c < 256 \<and> d < 256"
  have "\<not> is_ws x" if "x \<in> set (dotted a b c d)" for x
    using that nat_str_digits unfolding dotted_def by (fastforce simp: is_ws_def is_digit_def)
  then have t: "trim (dotted a b c d) = dotted a b c d" by (rule trim_no_ws)
  have ne: "dotted a b c d \<noteq> []" by (simp add: dotted_def)
  have cb: "combine_parts [int a, int b, int c, int d] =
      Some (int a * 2 ^ 24 + int b * 2 ^ 16 + int c * 2 ^ 8 + int d)"
    using o by (simp add: or.assoc or_push_add)
  show "parseIPv4 (dotted a b c d) = Inr (Some (int a * 2 ^ 24 + int b * 2 ^ 16 + int c * 2 ^ 8 + int d))"
    unfolding parseIPv4_def Let_def t using ne
    by (simp add: split_dotted parse_part_nat_str cb del: combine_parts.simps)
qed (use parseIPv4_bound parseIPv6_bound in \<open>simp_all\<close>)

theorem parsed_addresses_in_width_witness:
  "parseIPv4 (dotted 10 0 0 1) = Inr (Some 167772161)"
  using parsed_addresses_in_width[of "[]" 0 10 0 0 1] by simp

lemma digits_val_replicate_7: "digits_val 8 (replicate k (CHR ''7'')) = 8 ^ k - 1"
proof (induction k)
  case (Suc k)
  have "replicate (Suc k) (CHR ''7'') = replicate k (CHR ''7'') @ [CHR ''7'']"
    by (simp add: replicate_append_same)
  then show ?case using Suc by (simp add: digits_val_snoc digit_val_def)
qed simp

lemma bit_len_eq: "n < 2 ^ L \<Longrightarrow> 2 ^ L \<le> 2 * n \<Longrightarrow> L \<le> fuel \<Longrightarrow> bit_len fuel n = L"
proof (induction fuel arbitrary: n L)
  case (Suc fuel)
  have "0 < n" using Suc.prems(2) zero_less_power[of "2 :: int" L] by linarith
  then obtain L' where L: "L = Suc L'" using Suc.prems(1) by (cases L) auto
  have "n div 2 < 2 ^ L'" "2 ^ L' \<le> 2 * (n div 2) \<or> L' = 0" "L' \<le> fuel"
    using Suc.prems L by (auto, cases L', auto)
  then show ?case using \<open>0 < n\<close> L Suc by (cases "L' = 0") (auto, cases fuel, auto)
qed (auto simp: not_less)

text \<open>
  An octal part with more digits than a double can hold is no rejected literal: the parser
  throws a RangeError, from the conversion of an infinite number to a BigInt.
\<close>

theorem huge_octal_throws:
  "parseIPv4 (CHR ''0'' # replicate 342 (CHR ''7'')) = Inl RangeError"
proof -
  let ?s = "CHR ''0'' # replicate 342 (CHR ''7'')"
  have "\<not> is_ws c" if "c \<in> set ?s" for c using that by (auto simp: is_ws_def)
  then have t: "trim ?s = ?s" by (rule trim_no_ws)
  have sp: "split_on (CHR ''.'') ?s = [?s]" by (rule split_on_absent) simp
  have dv: "digits_val 8 ?s = 2 ^ 1026 - 1"
    using digits_val_replicate_7[of 342] by (simp add: digits_val_def digit_val_def)
  have bl: "bit_len (3 * length ?s) (2 ^ 1026 - 1) = 1026" by (rule bit_len_eq) simp_all
  have "round_double (3 * length ?s) (digits_val 8 ?s) = None"
    unfolding dv round_double_def bl Let_def by simp
  moreover have "\<not> starts_with ?s ''0x''" "\<not> starts_with ?s ''0X''"
    using starts_with_set[of ?s "''0x''"] starts_with_set[of ?s "''0X''"] by auto
  moreover have "starts_with ?s ''0''" by (simp add: starts_with_def)
  ultimately have "parse_part ?s = Inl RangeError"
    by (simp add: parse_part_def is_octal_def list_all_iff)
  then show ?thesis unfolding parseIPv4_def Let_def t sp by simp
qed

end
