(* ===== verification/Router.thy ===== *)
theory Router
  imports Errors
begin

text \<open>
  \<open>runtime/router/route-matcher.ts\<close>: the specificity score of a route pattern, the bounded cache
  of compiled patterns, and the choice of the most specific matching route. \<open>URLPattern\<close> is the
  platform's: compiling a pattern and testing a path against it are parameters. The theorems show
  that the loop returns the first route of maximal score among the matching ones, and that the
  cache never changes an answer and never exceeds its bound.
\<close>

record route =
  pattern :: string
  rfunction :: string

definition LITERAL_SEGMENT_WEIGHT :: int where "LITERAL_SEGMENT_WEIGHT = 2"
definition WILDCARD_OR_NAMED_SEGMENT_WEIGHT :: int where "WILDCARD_OR_NAMED_SEGMENT_WEIGHT = 1"

definition isWildcardOrNamedSegment :: "string \<Rightarrow> bool" where
  "isWildcardOrNamedSegment seg =
     (str_includes seg ''*'' \<or> str_includes seg '':'' \<or> str_includes seg ''('' \<or> str_includes seg ''{'')"

fun score_segments :: "int \<Rightarrow> string list \<Rightarrow> int" where
  "score_segments score [] = score"
| "score_segments score (seg # segs) =
     score_segments
       (if isWildcardOrNamedSegment seg then score + WILDCARD_OR_NAMED_SEGMENT_WEIGHT
        else score + LITERAL_SEGMENT_WEIGHT) segs"

definition specificityScore :: "string \<Rightarrow> int" where
  "specificityScore pat = score_segments 0 (filter (\<lambda>seg. 0 < length seg) (split_on (CHR ''/'') pat))"

section \<open>The pattern cache\<close>

definition MAX_PATTERN_CACHE_SIZE :: nat where "MAX_PATTERN_CACHE_SIZE = 1000"

definition getCompiledPattern ::
  "(string \<Rightarrow> 'p) \<Rightarrow> (string, 'p) omap \<Rightarrow> string \<Rightarrow> 'p \<times> (string, 'p) omap" where
  "getCompiledPattern compile cache pat =
     (case oget cache pat of
        Some p \<Rightarrow> (p, cache)
      | None \<Rightarrow>
          let cache' = (if MAX_PATTERN_CACHE_SIZE \<le> length cache then [] else cache);
              p = compile pat
          in (p, oset pat p cache'))"

definition normalizePattern :: "string \<Rightarrow> string" where
  "normalizePattern pat = (if starts_with pat ''/'' then pat else CHR ''/'' # pat)"

text \<open>The loop of \<open>matchRoute\<close>: the winning route so far, its score, and the module's cache.\<close>

fun match_loop ::
  "(string \<Rightarrow> 'p) \<Rightarrow> ('p \<Rightarrow> string \<Rightarrow> bool) \<Rightarrow> string \<Rightarrow> route list \<Rightarrow>
   route option \<Rightarrow> int \<Rightarrow> (string, 'p) omap \<Rightarrow> route option \<times> (string, 'p) omap" where
  "match_loop compile test path [] win best cache = (win, cache)"
| "match_loop compile test path (r # rs) win best cache =
     (let (p, cache') = getCompiledPattern compile cache (normalizePattern (pattern r)) in
      if test p path then
        let score = specificityScore (pattern r) in
        if best < score then match_loop compile test path rs (Some r) score cache'
        else match_loop compile test path rs win best cache'
      else match_loop compile test path rs win best cache')"

definition matchRoute ::
  "(string \<Rightarrow> 'p) \<Rightarrow> ('p \<Rightarrow> string \<Rightarrow> bool) \<Rightarrow> (string, 'p) omap \<Rightarrow> route list \<Rightarrow> string \<Rightarrow>
   route option \<times> (string, 'p) omap" where
  "matchRoute compile test cache routes path = match_loop compile test path routes None (-1) cache"

section \<open>Facts\<close>

lemma score_segments_add: "score_segments s segs = s + score_segments 0 segs"
proof (induction segs arbitrary: s)
  case (Cons seg segs)
  show ?case unfolding score_segments.simps by (subst (1 2) Cons) simp
qed simp

lemma score_segments_bounds:
  "int (length segs) \<le> score_segments 0 segs \<and> score_segments 0 segs \<le> 2 * int (length segs)"
proof (induction segs)
  case (Cons seg segs)
  then show ?case
    using score_segments_add[of "WILDCARD_OR_NAMED_SEGMENT_WEIGHT" segs]
      score_segments_add[of "LITERAL_SEGMENT_WEIGHT" segs]
    by (auto simp: WILDCARD_OR_NAMED_SEGMENT_WEIGHT_def LITERAL_SEGMENT_WEIGHT_def)
qed simp

lemma specificityScore_nonneg: "0 \<le> specificityScore pat"
  using score_segments_bounds[of "filter (\<lambda>seg. 0 < length seg) (split_on (CHR ''/'') pat)"]
  by (simp add: specificityScore_def)

definition cache_ok :: "(string \<Rightarrow> 'p) \<Rightarrow> (string, 'p) omap \<Rightarrow> bool" where
  "cache_ok compile cache =
     ((\<forall>k p. oget cache k = Some p \<longrightarrow> p = compile k) \<and> length cache \<le> MAX_PATTERN_CACHE_SIZE)"

lemma cache_ok_Nil: "cache_ok compile []"
  by (simp add: cache_ok_def)

lemma getCompiledPattern_ok:
  assumes "cache_ok compile cache"
  shows "fst (getCompiledPattern compile cache pat) = compile pat"
    and "cache_ok compile (snd (getCompiledPattern compile cache pat))"
  using assms
  by (auto simp: getCompiledPattern_def cache_ok_def Let_def MAX_PATTERN_CACHE_SIZE_def length_oset
      split: option.splits)

text \<open>The route a specification picks: the first of those that match with the highest score.\<close>

definition matching :: "(string \<Rightarrow> 'p) \<Rightarrow> ('p \<Rightarrow> string \<Rightarrow> bool) \<Rightarrow> string \<Rightarrow> route \<Rightarrow> bool" where
  "matching compile test path r = test (compile (normalizePattern (pattern r))) path"

definition best_route :: "(route \<Rightarrow> bool) \<Rightarrow> route list \<Rightarrow> route option \<Rightarrow> bool" where
  "best_route P rs w =
     (case w of
        None \<Rightarrow> (\<forall>r \<in> set rs. \<not> P r)
      | Some r \<Rightarrow> (\<exists>a b. rs = a @ r # b \<and> P r \<and>
            (\<forall>x \<in> set a. P x \<longrightarrow> specificityScore (pattern x) < specificityScore (pattern r)) \<and>
            (\<forall>x \<in> set b. P x \<longrightarrow> specificityScore (pattern x) \<le> specificityScore (pattern r))))"

lemma best_route_snoc_skip:
  assumes "best_route P rs w"
    and "P r \<Longrightarrow> \<exists>b. w = Some b \<and> specificityScore (pattern r) \<le> specificityScore (pattern b)"
  shows "best_route P (rs @ [r]) w"
proof (cases w)
  case None
  then show ?thesis using assms by (auto simp: best_route_def)
next
  case (Some b)
  then obtain u v where uv: "rs = u @ b # v" "P b"
    "\<forall>x \<in> set u. P x \<longrightarrow> specificityScore (pattern x) < specificityScore (pattern b)"
    "\<forall>x \<in> set v. P x \<longrightarrow> specificityScore (pattern x) \<le> specificityScore (pattern b)"
    using assms(1) by (auto simp: best_route_def)
  then have "rs @ [r] = u @ b # (v @ [r])" by simp
  moreover have "\<forall>x \<in> set (v @ [r]). P x \<longrightarrow> specificityScore (pattern x) \<le> specificityScore (pattern b)"
    using uv assms(2) Some by auto
  ultimately have "\<exists>x y. rs @ [r] = x @ b # y \<and> P b \<and>
      (\<forall>z \<in> set x. P z \<longrightarrow> specificityScore (pattern z) < specificityScore (pattern b)) \<and>
      (\<forall>z \<in> set y. P z \<longrightarrow> specificityScore (pattern z) \<le> specificityScore (pattern b))"
    using uv(2,3) by blast
  then show ?thesis using Some by (simp add: best_route_def)
qed

lemma best_route_snoc_take:
  assumes "best_route P rs w" "P r"
    and "\<And>b. w = Some b \<Longrightarrow> specificityScore (pattern b) < specificityScore (pattern r)"
  shows "best_route P (rs @ [r]) (Some r)"
proof -
  have "\<forall>x \<in> set rs. P x \<longrightarrow> specificityScore (pattern x) < specificityScore (pattern r)"
    using assms by (cases w) (fastforce simp: best_route_def)+
  then show ?thesis using assms(2) by (fastforce simp: best_route_def)
qed

lemma match_loop_best:
  assumes "cache_ok compile cache"
    and "best_route (matching compile test path) seen w"
    and "best = (case w of None \<Rightarrow> -1 | Some b \<Rightarrow> specificityScore (pattern b))"
  shows "best_route (matching compile test path) (seen @ rs) (fst (match_loop compile test path rs w best cache)) \<and>
         cache_ok compile (snd (match_loop compile test path rs w best cache))"
  using assms
proof (induction rs arbitrary: seen w best cache)
  case (Cons r rs)
  let ?P = "matching compile test path"
  obtain p cache' where g: "getCompiledPattern compile cache (normalizePattern (pattern r)) = (p, cache')"
    by fastforce
  have p: "p = compile (normalizePattern (pattern r))" and ok: "cache_ok compile cache'"
    using getCompiledPattern_ok[OF Cons.prems(1), of "normalizePattern (pattern r)"] g by auto
  have pr: "test p path = ?P r" by (simp add: matching_def p)
  show ?case
  proof (cases "?P r \<and> best < specificityScore (pattern r)")
    case True
    have "best_route ?P (seen @ [r]) (Some r)"
      by (rule best_route_snoc_take[OF Cons.prems(2)]) (use True Cons.prems(3) in auto)
    then show ?thesis using Cons.IH[OF ok, of "seen @ [r]" "Some r"] True g pr by simp
  next
    case False
    have "best_route ?P (seen @ [r]) w"
    proof (rule best_route_snoc_skip[OF Cons.prems(2)])
      assume "?P r"
      then have "specificityScore (pattern r) \<le> best" using False by simp
      then show "\<exists>b. w = Some b \<and> specificityScore (pattern r) \<le> specificityScore (pattern b)"
        using Cons.prems(3) specificityScore_nonneg[of "pattern r"] by (cases w) auto
    qed
    then show ?thesis using Cons.IH[OF ok, of "seen @ [r]" w best] Cons.prems(3) False g pr by auto
  qed
qed simp

text \<open>
  With a cache whose entries are compilations of their keys, \<open>matchRoute\<close> returns a route
  exactly when some route matches, and then the first of the matching routes with the highest
  specificity score; the cache it leaves is again correct and holds at most 1000 entries.
\<close>

theorem matchRoute_most_specific:
  assumes "cache_ok compile cache"
  shows "best_route (matching compile test path) routes (fst (matchRoute compile test cache routes path)) \<and>
         cache_ok compile (snd (matchRoute compile test cache routes path))"
  using match_loop_best[OF assms, of test path "[]" None "-1" routes]
  by (simp add: matchRoute_def best_route_def)

theorem matchRoute_most_specific_witness:
  "fst (matchRoute (\<lambda>p. p) (\<lambda>p path. True) [] [\<lparr>pattern = ''/a/*'', rfunction = ''f''\<rparr>,
      \<lparr>pattern = ''/a/b'', rfunction = ''g''\<rparr>] ''/a/b'') = Some \<lparr>pattern = ''/a/b'', rfunction = ''g''\<rparr> \<and>
   cache_ok (\<lambda>p. p) (snd (matchRoute (\<lambda>p. p) (\<lambda>p path. True) [] [\<lparr>pattern = ''/a/*'', rfunction = ''f''\<rparr>,
      \<lparr>pattern = ''/a/b'', rfunction = ''g''\<rparr>] ''/a/b''))"
proof
  show "fst (matchRoute (\<lambda>p. p) (\<lambda>p path. True) [] [\<lparr>pattern = ''/a/*'', rfunction = ''f''\<rparr>,
      \<lparr>pattern = ''/a/b'', rfunction = ''g''\<rparr>] ''/a/b'') = Some \<lparr>pattern = ''/a/b'', rfunction = ''g''\<rparr>"
    by code_simp
qed (use matchRoute_most_specific[OF cache_ok_Nil] in blast)

end
