(* ===== verification/RateLimiter.thy ===== *)
theory RateLimiter
  imports Errors
begin

text \<open>
  The two token bucket limiters, \<open>packages/policy/rate-limiter.ts\<close> (request admission and
  concurrency slots of the policy layer) and \<open>apps/gateway/rate-limiter.ts\<close> (the ingress
  limiter), on exact rational token counts and integer millisecond clocks. What they share is the
  locale \<open>token_bucket\<close>: a state with an available amount that grows at most at the configured
  rate, is capped by the burst, and pays one token per admitted request. Inside it, the number of
  admitted requests in a window is bounded by the burst plus the refill of the window; both
  limiters are interpretations, with requests of other keys and pruning as events that do not
  touch the bucket.
\<close>

section \<open>The contract of a token bucket\<close>

locale token_bucket =
  fixes rate :: rat
    and burst :: rat
    and step :: "'s \<Rightarrow> 'e \<Rightarrow> bool \<times> 's"
    and tm :: "'e \<Rightarrow> int"
    and target :: "'e \<Rightarrow> bool"
    and ok :: "'e \<Rightarrow> bool"
    and avail :: "'s \<Rightarrow> int \<Rightarrow> rat"
    and inv :: "'s \<Rightarrow> bool"
  assumes rate_nonneg: "inv s \<Longrightarrow> 0 \<le> rate"
    and avail_range: "inv s \<Longrightarrow> 0 \<le> avail s t \<and> avail s t \<le> burst"
    and avail_growth: "inv s \<Longrightarrow> t \<le> t' \<Longrightarrow> avail s t' \<le> avail s t + rate * of_int (t' - t) / 1000"
    and inv_step: "inv s \<Longrightarrow> ok e \<Longrightarrow> inv (snd (step s e))"
    and target_admits: "inv s \<Longrightarrow> ok e \<Longrightarrow> target e \<Longrightarrow> fst (step s e) \<longleftrightarrow> 1 \<le> avail s (tm e)"
    and target_pays: "inv s \<Longrightarrow> ok e \<Longrightarrow> target e \<Longrightarrow>
          avail (snd (step s e)) (tm e) = avail s (tm e) - (if fst (step s e) then 1 else 0)"
    and other_keeps: "inv s \<Longrightarrow> ok e \<Longrightarrow> \<not> target e \<Longrightarrow> avail (snd (step s e)) (tm e) \<le> avail s (tm e)"
begin

fun admitted :: "'s \<Rightarrow> 'e list \<Rightarrow> nat" where
  "admitted s [] = 0"
| "admitted s (e # es) =
     (if target e \<and> fst (step s e) then 1 else 0) + admitted (snd (step s e)) es"

lemma step_avail:
  assumes "inv s" "ok e"
  shows "avail (snd (step s e)) (tm e) + (if target e \<and> fst (step s e) then 1 else 0) \<le> avail s (tm e)"
  using target_pays[OF assms] other_keeps[OF assms] by (cases "target e") auto

lemma admitted_avail:
  assumes "inv s" "sorted (map tm es)" "\<forall>e \<in> set es. ok e \<and> t0 \<le> tm e \<and> tm e \<le> t1" "t0 \<le> t1"
  shows "of_nat (admitted s es) \<le> avail s t0 + rate * of_int (t1 - t0) / 1000"
  using assms
proof (induction es arbitrary: s t0)
  case Nil
  then show ?case using avail_range[of s t0] rate_nonneg[of s] by simp
next
  case (Cons e es)
  have oke: "ok e" and t: "t0 \<le> tm e" "tm e \<le> t1" using Cons.prems(3) by auto
  have "of_nat (admitted (snd (step s e)) es) \<le>
      avail (snd (step s e)) (tm e) + rate * of_int (t1 - tm e) / 1000"
    using Cons.prems t oke by (intro Cons.IH inv_step) auto
  then have "of_nat (admitted s (e # es)) \<le> avail s (tm e) + rate * of_int (t1 - tm e) / 1000"
    using step_avail[OF Cons.prems(1) oke] by (auto split: if_splits)
  also have "avail s (tm e) \<le> avail s t0 + rate * of_int (tm e - t0) / 1000"
    by (rule avail_growth[OF Cons.prems(1) t(1)])
  finally show ?case by (simp add: field_simps)
qed

theorem window_bound:
  assumes "inv s" "sorted (map tm es)" "\<forall>e \<in> set es. ok e \<and> t0 \<le> tm e \<and> tm e \<le> t1" "t0 \<le> t1"
  shows "of_nat (admitted s es) \<le> burst + rate * of_int (t1 - t0) / 1000"
  using admitted_avail[OF assms] avail_range[OF assms(1), of t0] by linarith

end

text \<open>The waiting time the limiters announce: the least number of seconds that refills one token.\<close>

lemma retry_after_exact:
  fixes tokens rate :: rat
  assumes "0 < rate" "tokens < 1"
  shows "1 \<le> tokens + rate * of_int \<lceil>(1 - tokens) / rate\<rceil>"
    and "tokens + rate * of_int (\<lceil>(1 - tokens) / rate\<rceil> - 1) < 1"
    and "0 < \<lceil>(1 - tokens) / rate\<rceil>"
proof -
  let ?w = "(1 - tokens) / rate"
  have e: "rate * ?w = 1 - tokens" using assms(1) by simp
  have "?w \<le> of_int \<lceil>?w\<rceil>" by simp
  then have "rate * ?w \<le> rate * of_int \<lceil>?w\<rceil>" using assms(1) by (intro mult_left_mono) auto
  then show "1 \<le> tokens + rate * of_int \<lceil>?w\<rceil>" using e by linarith
  have "of_int (\<lceil>?w\<rceil> - 1) < ?w" by linarith
  then have "rate * of_int (\<lceil>?w\<rceil> - 1) < rate * ?w" using assms(1) by (intro mult_strict_left_mono) auto
  then show "tokens + rate * of_int (\<lceil>?w\<rceil> - 1) < 1" using e by linarith
  show "0 < \<lceil>?w\<rceil>" using assms by simp
qed

section \<open>The policy limiter\<close>

datatype scope = ScopeIp | ScopeIdentity | ScopeProject

fun scope_str :: "scope \<Rightarrow> string" where
  "scope_str ScopeIp = ''ip''"
| "scope_str ScopeIdentity = ''identity''"
| "scope_str ScopeProject = ''project''"

record tier =
  t_rate :: rat
  t_burst :: rat

fun RATE_LIMIT_TIERS :: "scope \<Rightarrow> tier" where
  "RATE_LIMIT_TIERS ScopeIp = \<lparr>t_rate = 10, t_burst = 20\<rparr>"
| "RATE_LIMIT_TIERS ScopeIdentity = \<lparr>t_rate = 50, t_burst = 100\<rparr>"
| "RATE_LIMIT_TIERS ScopeProject = \<lparr>t_rate = 200, t_burst = 400\<rparr>"

record tb_state =
  tokens :: rat
  lastReplenishedAt :: int

record limiter =
  buckets :: "(string, tb_state) omap"
  concurrencyCounts :: "(string, int) omap"

record limit_result =
  allowed :: bool
  remaining :: int
  retryAfterSeconds :: "int option"

definition bucket_key :: "scope \<Rightarrow> string \<Rightarrow> string" where
  "bucket_key sc key = scope_str sc @ '':'' @ key"

definition refilled :: "tier \<Rightarrow> tb_state option \<Rightarrow> int \<Rightarrow> rat" where
  "refilled tr b now =
     (case b of
        None \<Rightarrow> t_burst tr
      | Some bk \<Rightarrow>
          let deltaSec = max 0 (of_int (now - lastReplenishedAt bk) / 1000)
          in min (t_burst tr) (tokens bk + t_rate tr * deltaSec))"

definition consume :: "limiter \<Rightarrow> string \<Rightarrow> scope \<Rightarrow> int \<Rightarrow> limit_result \<times> limiter" where
  "consume l key sc now =
     (let tr = RATE_LIMIT_TIERS sc; bk = bucket_key sc key;
          tok = refilled tr (oget (buckets l) bk) now
      in if 1 \<le> tok then
           let tok' = tok - 1 in
           (\<lparr>allowed = True, remaining = \<lfloor>tok'\<rfloor>, retryAfterSeconds = None\<rparr>,
            l\<lparr>buckets := oset bk \<lparr>tokens = tok', lastReplenishedAt = now\<rparr> (buckets l)\<rparr>)
         else
           (\<lparr>allowed = False, remaining = max 0 \<lfloor>tok\<rfloor>,
             retryAfterSeconds = Some \<lceil>(1 - tok) / t_rate tr\<rceil>\<rparr>,
            l\<lparr>buckets := oset bk \<lparr>tokens = tok, lastReplenishedAt = now\<rparr> (buckets l)\<rparr>))"

record conc_result =
  c_allowed :: bool
  active :: int

definition acquireConcurrency :: "limiter \<Rightarrow> string \<Rightarrow> int \<Rightarrow> conc_result \<times> limiter" where
  "acquireConcurrency l fnKey maxConcurrency =
     (let currentActive = or_default (oget (concurrencyCounts l) fnKey) 0 in
      if currentActive < maxConcurrency then
        (\<lparr>c_allowed = True, active = currentActive + 1\<rparr>,
         l\<lparr>concurrencyCounts := oset fnKey (currentActive + 1) (concurrencyCounts l)\<rparr>)
      else (\<lparr>c_allowed = False, active = currentActive\<rparr>, l))"

definition releaseConcurrency :: "limiter \<Rightarrow> string \<Rightarrow> limiter" where
  "releaseConcurrency l fnKey =
     (let currentActive = or_default (oget (concurrencyCounts l) fnKey) 0 in
      if 1 < currentActive
      then l\<lparr>concurrencyCounts := oset fnKey (currentActive - 1) (concurrencyCounts l)\<rparr>
      else l\<lparr>concurrencyCounts := odel fnKey (concurrencyCounts l)\<rparr>)"

definition prune :: "limiter \<Rightarrow> int \<Rightarrow> int \<Rightarrow> nat \<times> limiter" where
  "prune l maxIdleMs now =
     (let idle = (\<lambda>e. maxIdleMs < now - lastReplenishedAt (snd e)) in
      (length (filter idle (buckets l)), l\<lparr>buckets := filter (\<lambda>e. \<not> idle e) (buckets l)\<rparr>))"

text \<open>\<open>formatRateLimitRejection\<close>: status, the two headers and the body of the rejection.\<close>

definition formatRateLimitRejection ::
  "int \<Rightarrow> string option \<Rightarrow> nat \<times> (string \<times> string) list \<times> jsval" where
  "formatRateLimitRejection retryAfter requestId =
     (429, [(''content-type'', ''application/json''), (''Retry-After'', int_str retryAfter)],
      toErrorResponseBody
        \<lparr>err_code = RATE_LIMITED, err_message = ''Rate limit exceeded'', err_requestId = requestId\<rparr>)"

section \<open>The gateway limiter\<close>

record gw_bucket =
  g_tokens :: rat
  lastRefillTime :: int
  lastAccessTime :: int

record gw_limiter =
  configs :: "scope \<Rightarrow> tier"
  g_buckets :: "(string, gw_bucket) omap"

record decision =
  d_allowed :: bool
  d_remaining :: int
  d_limit :: rat
  resetMs :: int
  d_retryAfter :: "int option"

definition DEFAULT_RATE_LIMITS :: "scope \<Rightarrow> tier" where
  "DEFAULT_RATE_LIMITS sc =
     (case sc of
        ScopeIp \<Rightarrow> \<lparr>t_rate = 10, t_burst = 20\<rparr>
      | ScopeIdentity \<Rightarrow> \<lparr>t_rate = 50, t_burst = 100\<rparr>
      | ScopeProject \<Rightarrow> \<lparr>t_rate = 200, t_burst = 400\<rparr>)"

definition new_gw_limiter :: "(scope \<Rightarrow> tier option) \<Rightarrow> gw_limiter" where
  "new_gw_limiter custom =
     \<lparr>configs = (\<lambda>sc. or_default (custom sc) (DEFAULT_RATE_LIMITS sc)), g_buckets = []\<rparr>"

text \<open>The bucket after the first half of \<open>check\<close>: fresh and full, or refilled up to now.\<close>

definition gw_refill :: "tier \<Rightarrow> gw_bucket option \<Rightarrow> int \<Rightarrow> gw_bucket" where
  "gw_refill cfg b now =
     (case b of
        None \<Rightarrow> \<lparr>g_tokens = t_burst cfg, lastRefillTime = now, lastAccessTime = now\<rparr>
      | Some bk \<Rightarrow>
          let deltaSeconds = max 0 (of_int (now - lastRefillTime bk) / 1000)
          in \<lparr>g_tokens = min (t_burst cfg) (g_tokens bk + t_rate cfg * deltaSeconds),
              lastRefillTime = now, lastAccessTime = now\<rparr>)"

definition gw_reset_ms :: "tier \<Rightarrow> rat \<Rightarrow> int" where
  "gw_reset_ms cfg tok = \<lceil>max 0 ((t_burst cfg - tok) / t_rate cfg) * 1000\<rceil>"

definition check :: "gw_limiter \<Rightarrow> scope \<Rightarrow> string \<Rightarrow> int \<Rightarrow> decision \<times> gw_limiter" where
  "check g sc key now =
     (let cfg = configs g sc; bk = bucket_key sc key;
          bucket = gw_refill cfg (oget (g_buckets g) bk) now
      in if 1 \<le> g_tokens bucket then
           let tok' = g_tokens bucket - 1 in
           (\<lparr>d_allowed = True, d_remaining = \<lfloor>tok'\<rfloor>, d_limit = t_burst cfg,
             resetMs = gw_reset_ms cfg tok', d_retryAfter = None\<rparr>,
            g\<lparr>g_buckets := oset bk (bucket\<lparr>g_tokens := tok'\<rparr>) (g_buckets g)\<rparr>)
         else
           (\<lparr>d_allowed = False, d_remaining = 0, d_limit = t_burst cfg,
             resetMs = gw_reset_ms cfg (g_tokens bucket),
             d_retryAfter = Some \<lceil>(1 - g_tokens bucket) / t_rate cfg\<rceil>\<rparr>,
            g\<lparr>g_buckets := oset bk bucket (g_buckets g)\<rparr>))"

definition gw_reset :: "gw_limiter \<Rightarrow> scope \<Rightarrow> string \<Rightarrow> gw_limiter" where
  "gw_reset g sc key = g\<lparr>g_buckets := odel (bucket_key sc key) (g_buckets g)\<rparr>"

definition gw_prune :: "gw_limiter \<Rightarrow> int \<Rightarrow> int \<Rightarrow> nat \<times> gw_limiter" where
  "gw_prune g maxIdleMs now =
     (let idle = (\<lambda>e. maxIdleMs < now - lastAccessTime (snd e)) in
      (length (filter idle (g_buckets g)), g\<lparr>g_buckets := filter (\<lambda>e. \<not> idle e) (g_buckets g)\<rparr>))"

section \<open>Keys of different scopes never collide\<close>

lemma bucket_key_inj: "bucket_key sc k = bucket_key sc' k' \<longleftrightarrow> sc = sc' \<and> k = k'"
  by (cases sc; cases sc') (auto simp: bucket_key_def)

section \<open>The policy limiter is a token bucket\<close>

text \<open>A run of the limiter: requests of any key and prunings, each at a time.\<close>

datatype limit_event = Request scope string int | Prune int int

fun event_time :: "limit_event \<Rightarrow> int" where
  "event_time (Request sc k now) = now"
| "event_time (Prune idle now) = now"

definition is_request :: "scope \<Rightarrow> string \<Rightarrow> limit_event \<Rightarrow> bool" where
  "is_request sc k e = (case e of Request sc' k' _ \<Rightarrow> sc' = sc \<and> k' = k | Prune _ _ \<Rightarrow> False)"

text \<open>A pruning is harmless for a tier when the idle time it demands refills the whole burst.\<close>

definition prune_harmless :: "tier \<Rightarrow> limit_event \<Rightarrow> bool" where
  "prune_harmless tr e =
     (case e of Request _ _ _ \<Rightarrow> True | Prune idle _ \<Rightarrow> 1000 * t_burst tr \<le> t_rate tr * of_int idle)"

fun policy_step :: "limiter \<Rightarrow> limit_event \<Rightarrow> bool \<times> limiter" where
  "policy_step l (Request sc k now) = (let (r, l') = consume l k sc now in (allowed r, l'))"
| "policy_step l (Prune idle now) = (False, snd (prune l idle now))"

definition tier_ok :: "tier \<Rightarrow> bool" where
  "tier_ok tr = (0 < t_rate tr \<and> 0 \<le> t_burst tr)"

definition bucket_ok :: "tier \<Rightarrow> tb_state option \<Rightarrow> bool" where
  "bucket_ok tr b = (\<forall>bk. b = Some bk \<longrightarrow> 0 \<le> tokens bk \<and> tokens bk \<le> t_burst tr)"

definition limiter_ok :: "limiter \<Rightarrow> bool" where
  "limiter_ok l = (owf (buckets l) \<and>
     (\<forall>sc k. bucket_ok (RATE_LIMIT_TIERS sc) (oget (buckets l) (bucket_key sc k))))"

lemma tiers_ok [simp]: "tier_ok (RATE_LIMIT_TIERS sc)"
  by (cases sc) (simp_all add: tier_ok_def)

lemma refilled_range: "tier_ok tr \<Longrightarrow> bucket_ok tr b \<Longrightarrow> 0 \<le> refilled tr b t \<and> refilled tr b t \<le> t_burst tr"
  by (auto simp: refilled_def bucket_ok_def tier_ok_def Let_def split: option.splits)

lemma refilled_growth:
  assumes "tier_ok tr" "bucket_ok tr b" "t \<le> t'"
  shows "refilled tr b t' \<le> refilled tr b t + t_rate tr * of_int (t' - t) / 1000"
proof (cases b)
  case None
  then show ?thesis using assms by (simp add: refilled_def tier_ok_def)
next
  case (Some bk)
  let ?d = "\<lambda>x. max 0 (of_int (x - lastReplenishedAt bk) / 1000) :: rat"
  have "?d t' \<le> ?d t + of_int (t' - t) / 1000" using assms(3) by (auto simp: max_def field_simps)
  then have "t_rate tr * ?d t' \<le> t_rate tr * (?d t + of_int (t' - t) / 1000)"
    using assms(1) by (intro mult_left_mono) (auto simp: tier_ok_def)
  then have "t_rate tr * ?d t' \<le> t_rate tr * ?d t + t_rate tr * of_int (t' - t) / 1000"
    by (simp add: distrib_left)
  moreover have "0 \<le> t_rate tr * of_int (t' - t) / 1000"
    using assms by (simp add: tier_ok_def)
  ultimately show ?thesis using Some by (simp add: refilled_def Let_def min_def del: of_int_diff)
qed

lemma refilled_idle:
  assumes "tier_ok tr" "bucket_ok tr (Some bk)" "1000 * t_burst tr \<le> t_rate tr * of_int idle"
    and "idle < now - lastReplenishedAt bk"
  shows "refilled tr (Some bk) now = t_burst tr"
proof -
  have "t_rate tr * of_int idle \<le> t_rate tr * of_int (now - lastReplenishedAt bk)"
    using assms(1,4) by (intro mult_left_mono) (auto simp: tier_ok_def)
  then have "t_burst tr \<le> t_rate tr * (of_int (now - lastReplenishedAt bk) / 1000)"
    using assms(3) by (simp add: field_simps)
  also have "\<dots> \<le> t_rate tr * max 0 (of_int (now - lastReplenishedAt bk) / 1000)"
    using assms(1) by (intro mult_left_mono) (auto simp: tier_ok_def)
  finally show ?thesis using assms(2) by (simp add: refilled_def bucket_ok_def Let_def)
qed

text \<open>A bucket dropped after an idle time that refills it answers as if it had been kept.\<close>

definition keep_busy :: "int \<Rightarrow> int \<Rightarrow> tb_state option \<Rightarrow> tb_state option" where
  "keep_busy idle now b =
     (case b of
        None \<Rightarrow> None
      | Some bk \<Rightarrow> if idle < now - lastReplenishedAt bk then None else Some bk)"

lemma refilled_pruned:
  assumes "tier_ok tr" "bucket_ok tr b" "1000 * t_burst tr \<le> t_rate tr * of_int idle"
  shows "refilled tr (keep_busy idle now b) now = refilled tr b now"
proof (cases b)
  case (Some bk)
  show ?thesis
  proof (cases "idle < now - lastReplenishedAt bk")
    case True
    then have "refilled tr b now = t_burst tr" using refilled_idle assms Some by blast
    moreover have "keep_busy idle now b = None" using True Some by (simp add: keep_busy_def)
    ultimately show ?thesis by (simp add: refilled_def)
  qed (simp add: Some keep_busy_def)
qed (simp add: keep_busy_def)

lemma refilled_now [simp]:
  "refilled tr (Some \<lparr>tokens = x, lastReplenishedAt = t\<rparr>) t = min (t_burst tr) x"
  by (simp add: refilled_def)

lemma consume_allowed:
  "allowed (fst (consume l k sc now)) \<longleftrightarrow>
     1 \<le> refilled (RATE_LIMIT_TIERS sc) (oget (buckets l) (bucket_key sc k)) now"
  by (simp add: consume_def Let_def)

lemma consume_bucket:
  "oget (buckets (snd (consume l k sc now))) k' =
     (if k' = bucket_key sc k
      then Some \<lparr>tokens = refilled (RATE_LIMIT_TIERS sc) (oget (buckets l) (bucket_key sc k)) now -
                   (if allowed (fst (consume l k sc now)) then 1 else 0),
                 lastReplenishedAt = now\<rparr>
      else oget (buckets l) k')"
  by (simp add: consume_def Let_def)

lemma owf_consume: "owf (buckets l) \<Longrightarrow> owf (buckets (snd (consume l k sc now)))"
  by (simp add: consume_def Let_def)

lemma limiter_ok_consume:
  assumes "limiter_ok l"
  shows "limiter_ok (snd (consume l k sc now))"
proof -
  have "bucket_ok (RATE_LIMIT_TIERS sc') (oget (buckets (snd (consume l k sc now))) (bucket_key sc' k'))" for sc' k'
    using assms refilled_range[OF tiers_ok, of sc "oget (buckets l) (bucket_key sc k)" now]
    by (auto simp: limiter_ok_def consume_bucket bucket_key_inj bucket_ok_def consume_allowed)
  then show ?thesis using assms owf_consume by (simp add: limiter_ok_def)
qed

lemma prune_bucket:
  "owf (buckets l) \<Longrightarrow> oget (buckets (snd (prune l idle now))) k = keep_busy idle now (oget (buckets l) k)"
  by (auto simp: prune_def Let_def oget_filter keep_busy_def split: option.splits)

lemma limiter_ok_prune: "limiter_ok l \<Longrightarrow> limiter_ok (snd (prune l idle now))"
  by (auto simp: limiter_ok_def prune_bucket bucket_ok_def keep_busy_def split: option.splits if_splits)
     (simp add: prune_def Let_def)

interpretation policy_bucket: token_bucket
  "t_rate (RATE_LIMIT_TIERS sc)" "t_burst (RATE_LIMIT_TIERS sc)" policy_step event_time
  "is_request sc k" "prune_harmless (RATE_LIMIT_TIERS sc)"
  "\<lambda>l. refilled (RATE_LIMIT_TIERS sc) (oget (buckets l) (bucket_key sc k))" limiter_ok
  for sc k
proof (unfold_locales, goal_cases)
  case (1 s)
  then show ?case using tiers_ok[of sc] by (simp add: tier_ok_def)
next
  case (2 s t)
  then show ?case by (intro refilled_range) (simp_all add: limiter_ok_def)
next
  case (3 s t t')
  then show ?case by (intro refilled_growth) (simp_all add: limiter_ok_def)
next
  case (4 s e)
  then show ?case by (cases e) (auto simp: limiter_ok_consume limiter_ok_prune split_def Let_def)
next
  case (5 s e)
  then show ?case by (cases e) (auto simp: is_request_def split_def Let_def consume_allowed)
next
  case (6 s e)
  then obtain now where e: "e = Request sc k now" by (cases e) (auto simp: is_request_def)
  have "refilled (RATE_LIMIT_TIERS sc) (oget (buckets s) (bucket_key sc k)) now \<le> t_burst (RATE_LIMIT_TIERS sc)"
    using 6 refilled_range[OF tiers_ok] by (simp add: limiter_ok_def)
  then show ?case using e by (auto simp: split_def Let_def consume_bucket)
next
  case (7 s e)
  show ?case
  proof (cases e)
    case (Request sc' k' now)
    then show ?thesis using 7 by (auto simp: split_def Let_def consume_bucket bucket_key_inj is_request_def)
  next
    case (Prune idle now)
    then show ?thesis using 7
      by (auto simp: limiter_ok_def prune_bucket prune_harmless_def refilled_pruned)
  qed
qed

section \<open>The gateway limiter is a token bucket\<close>

definition gw_abs :: "gw_bucket \<Rightarrow> tb_state" where
  "gw_abs b = \<lparr>tokens = g_tokens b, lastReplenishedAt = lastRefillTime b\<rparr>"

definition gw_get :: "gw_limiter \<Rightarrow> string \<Rightarrow> tb_state option" where
  "gw_get g k = map_option gw_abs (oget (g_buckets g) k)"

fun gateway_step :: "gw_limiter \<Rightarrow> limit_event \<Rightarrow> bool \<times> gw_limiter" where
  "gateway_step g (Request sc k now) = (let (r, g') = check g sc k now in (d_allowed r, g'))"
| "gateway_step g (Prune idle now) = (False, snd (gw_prune g idle now))"

definition gw_ok :: "(scope \<Rightarrow> tier) \<Rightarrow> gw_limiter \<Rightarrow> bool" where
  "gw_ok cfg g = (configs g = cfg \<and> (\<forall>sc. tier_ok (cfg sc)) \<and> owf (g_buckets g) \<and>
     (\<forall>k b. oget (g_buckets g) k = Some b \<longrightarrow> lastAccessTime b = lastRefillTime b) \<and>
     (\<forall>sc k. bucket_ok (cfg sc) (gw_get g (bucket_key sc k))))"

lemma gw_refill_tokens: "g_tokens (gw_refill cfg b now) = refilled cfg (map_option gw_abs b) now"
  by (cases b) (simp_all add: gw_refill_def refilled_def gw_abs_def Let_def)

lemma gw_refill_times [simp]:
  "lastRefillTime (gw_refill cfg b now) = now" "lastAccessTime (gw_refill cfg b now) = now"
  by (cases b; simp add: gw_refill_def Let_def)+

lemma check_allowed:
  "d_allowed (fst (check g sc k now)) \<longleftrightarrow> 1 \<le> refilled (configs g sc) (gw_get g (bucket_key sc k)) now"
  by (simp add: check_def Let_def gw_refill_tokens gw_get_def)

lemma check_bucket:
  "oget (g_buckets (snd (check g sc k now))) k' =
     (if k' = bucket_key sc k
      then Some \<lparr>g_tokens = refilled (configs g sc) (gw_get g (bucket_key sc k)) now -
                   (if d_allowed (fst (check g sc k now)) then 1 else 0),
                 lastRefillTime = now, lastAccessTime = now\<rparr>
      else oget (g_buckets g) k')"
  by (auto simp: check_def Let_def gw_refill_tokens gw_get_def intro: gw_bucket.equality)

lemma check_frame [simp]: "configs (snd (check g sc k now)) = configs g"
  "owf (g_buckets g) \<Longrightarrow> owf (g_buckets (snd (check g sc k now)))"
  by (simp_all add: check_def Let_def)

lemma check_get:
  "gw_get (snd (check g sc k now)) k' =
     (if k' = bucket_key sc k
      then Some \<lparr>tokens = refilled (configs g sc) (gw_get g (bucket_key sc k)) now -
                   (if d_allowed (fst (check g sc k now)) then 1 else 0), lastReplenishedAt = now\<rparr>
      else gw_get g k')"
  unfolding gw_get_def[of "snd _"] check_bucket by (simp add: gw_abs_def gw_get_def)

lemma gw_ok_check:
  assumes "gw_ok cfg g"
  shows "gw_ok cfg (snd (check g sc k now))"
proof -
  have "bucket_ok (cfg sc') (gw_get (snd (check g sc k now)) (bucket_key sc' k'))" for sc' k'
    using assms refilled_range[of "cfg sc" "gw_get g (bucket_key sc k)" now]
    by (auto simp: gw_ok_def check_get bucket_key_inj bucket_ok_def check_allowed)
  moreover have "oget (g_buckets (snd (check g sc k now))) k' = Some b \<Longrightarrow> lastAccessTime b = lastRefillTime b" for k' b
    using assms by (auto simp: gw_ok_def check_bucket split: if_splits)
  ultimately show ?thesis using assms by (auto simp: gw_ok_def)
qed

lemma gw_prune_get:
  "gw_ok cfg g \<Longrightarrow> gw_get (snd (gw_prune g idle now)) k = keep_busy idle now (gw_get g k)"
  by (auto simp: gw_ok_def gw_prune_def gw_get_def Let_def oget_filter keep_busy_def gw_abs_def split: option.splits)

lemma gw_ok_prune:
  assumes "gw_ok cfg g"
  shows "gw_ok cfg (snd (gw_prune g idle now))"
proof -
  have "bucket_ok (cfg sc) (gw_get (snd (gw_prune g idle now)) (bucket_key sc k))" for sc k
    using assms by (auto simp: gw_prune_get[OF assms] gw_ok_def bucket_ok_def keep_busy_def split: option.splits)
  then show ?thesis using assms
    by (auto simp: gw_ok_def gw_prune_def Let_def oget_filter split: option.splits if_splits)
qed

interpretation gateway_bucket: token_bucket
  "t_rate (cfg sc)" "t_burst (cfg sc)" gateway_step event_time
  "is_request sc k" "prune_harmless (cfg sc)"
  "\<lambda>g. refilled (cfg sc) (gw_get g (bucket_key sc k))" "gw_ok cfg"
  for cfg sc k
proof (unfold_locales, goal_cases)
  case (1 s)
  then have "tier_ok (cfg sc)" by (simp add: gw_ok_def)
  then show ?case by (simp add: tier_ok_def)
next
  case (2 s t)
  then show ?case by (intro refilled_range) (simp_all add: gw_ok_def)
next
  case (3 s t t')
  then show ?case by (intro refilled_growth) (simp_all add: gw_ok_def)
next
  case (4 s e)
  then show ?case by (cases e) (auto simp: gw_ok_check gw_ok_prune split_def Let_def)
next
  case (5 s e)
  then show ?case by (cases e) (auto simp: is_request_def split_def Let_def check_allowed gw_ok_def)
next
  case (6 s e)
  then obtain now where e: "e = Request sc k now" by (cases e) (auto simp: is_request_def)
  have "refilled (cfg sc) (gw_get s (bucket_key sc k)) now \<le> t_burst (cfg sc)"
    using 6 refilled_range by (simp add: gw_ok_def)
  then show ?case using e 6 by (auto simp: split_def Let_def check_get gw_ok_def)
next
  case (7 s e)
  show ?case
  proof (cases e)
    case (Request sc' k' now)
    then show ?thesis using 7 by (auto simp: split_def Let_def check_get bucket_key_inj is_request_def)
  next
    case (Prune idle now)
    then show ?thesis using 7 gw_prune_get[of cfg s idle now]
      by (auto simp: prune_harmless_def refilled_pruned gw_ok_def)
  qed
qed

section \<open>Properties of the limiters\<close>

text \<open>Admitted requests of one key in a run, counted over the limiters themselves.\<close>

fun policy_admitted :: "scope \<Rightarrow> string \<Rightarrow> limiter \<Rightarrow> limit_event list \<Rightarrow> nat" where
  "policy_admitted sc k l [] = 0"
| "policy_admitted sc k l (e # es) =
     (if is_request sc k e \<and> fst (policy_step l e) then 1 else 0) +
     policy_admitted sc k (snd (policy_step l e)) es"

fun gateway_admitted :: "scope \<Rightarrow> string \<Rightarrow> gw_limiter \<Rightarrow> limit_event list \<Rightarrow> nat" where
  "gateway_admitted sc k g [] = 0"
| "gateway_admitted sc k g (e # es) =
     (if is_request sc k e \<and> fst (gateway_step g e) then 1 else 0) +
     gateway_admitted sc k (snd (gateway_step g e)) es"

lemma policy_admitted_eq: "policy_admitted sc k l es = policy_bucket.admitted sc k l es"
  by (induction es arbitrary: l) simp_all

lemma gateway_admitted_eq: "gateway_admitted sc k g es = gateway_bucket.admitted sc k g es"
  by (induction es arbitrary: g) simp_all

lemma new_limiter_ok: "limiter_ok \<lparr>buckets = [], concurrencyCounts = []\<rparr>"
  by (simp add: limiter_ok_def bucket_ok_def)

lemma new_gw_ok: "(\<And>sc. tier_ok (or_default (custom sc) (DEFAULT_RATE_LIMITS sc))) \<Longrightarrow>
    gw_ok (\<lambda>sc. or_default (custom sc) (DEFAULT_RATE_LIMITS sc)) (new_gw_limiter custom)"
  by (simp add: gw_ok_def new_gw_limiter_def gw_get_def bucket_ok_def)

lemma default_tiers_ok: "tier_ok (DEFAULT_RATE_LIMITS sc)"
  by (cases sc) (simp_all add: DEFAULT_RATE_LIMITS_def tier_ok_def)

text \<open>
  C23: The policy limiter, started empty, admits in any window of a run with a monotone clock at
  most burst plus rate times the window's length of the requests of one key, whatever requests of
  other keys and scopes are interleaved and however often idle buckets are pruned (with an idle
  time that refills the burst).
\<close>

theorem policy_window_bound:
  assumes "sorted (map event_time (before @ es))"
    and "\<forall>e \<in> set (before @ es). prune_harmless (RATE_LIMIT_TIERS sc) e"
    and "\<forall>e \<in> set es. t0 \<le> event_time e \<and> event_time e \<le> t1" and "t0 \<le> t1"
  shows "of_nat (policy_admitted sc k
            (foldl (\<lambda>l e. snd (policy_step l e)) \<lparr>buckets = [], concurrencyCounts = []\<rparr> before) es)
         \<le> t_burst (RATE_LIMIT_TIERS sc) + t_rate (RATE_LIMIT_TIERS sc) * of_int (t1 - t0) / 1000"
proof -
  have "limiter_ok (foldl (\<lambda>l e. snd (policy_step l e)) l bs)" if "limiter_ok l"
    "\<forall>e \<in> set bs. prune_harmless (RATE_LIMIT_TIERS sc) e" for l bs
    using that by (induction bs arbitrary: l) (auto intro: policy_bucket.inv_step)
  then have "limiter_ok (foldl (\<lambda>l e. snd (policy_step l e)) \<lparr>buckets = [], concurrencyCounts = []\<rparr> before)"
    using new_limiter_ok assms(2) by simp
  then show ?thesis unfolding policy_admitted_eq
    using assms by (intro policy_bucket.window_bound) (auto simp: sorted_append)
qed

theorem policy_window_bound_witness:
  "of_nat (policy_admitted ScopeIp ''1.2.3.4'' \<lparr>buckets = [], concurrencyCounts = []\<rparr>
     (replicate 30 (Request ScopeIp ''1.2.3.4'' 5))) \<le> (20 :: rat)"
  using policy_window_bound[of "[]" "replicate 30 (Request ScopeIp ''1.2.3.4'' 5)" ScopeIp 5 5 "''1.2.3.4''"]
  by (simp add: prune_harmless_def sorted_replicate)

text \<open>
  The gateway limiter with any configuration of positive rates bounds the admitted requests
  of one key in a window in the same way.
\<close>

theorem gateway_window_bound:
  assumes "gw_ok cfg g"
    and "sorted (map event_time es)"
    and "\<forall>e \<in> set es. prune_harmless (cfg sc) e \<and> t0 \<le> event_time e \<and> event_time e \<le> t1" and "t0 \<le> t1"
  shows "of_nat (gateway_admitted sc k g es) \<le> t_burst (cfg sc) + t_rate (cfg sc) * of_int (t1 - t0) / 1000"
  unfolding gateway_admitted_eq using assms by (intro gateway_bucket.window_bound)

theorem gateway_window_bound_witness:
  "of_nat (gateway_admitted ScopeIp ''a'' (new_gw_limiter (\<lambda>_. None))
     [Request ScopeIp ''a'' 0, Prune 60000 10, Request ScopeIp ''a'' 10]) \<le> (201 / 10 :: rat)"
proof -
  have "gw_ok DEFAULT_RATE_LIMITS (new_gw_limiter (\<lambda>_. None))"
    using new_gw_ok[of "\<lambda>_. None"] default_tiers_ok by simp
  from gateway_window_bound[OF this, of "[Request ScopeIp ''a'' 0, Prune 60000 10, Request ScopeIp ''a'' 10]"
      ScopeIp 0 10 "''a''"]
  show ?thesis by (simp add: prune_harmless_def DEFAULT_RATE_LIMITS_def)
qed

text \<open>
  The Retry-After value of a rejection is exact. A rejected client that waits that many
  seconds is admitted if no other request used the key meanwhile, and one second less would not
  have been enough.
\<close>

theorem retry_after_is_exact:
  assumes "limiter_ok l" and "consume l k sc now = (r, l')" and "retryAfterSeconds r = Some w"
  shows "allowed (fst (consume l' k sc (now + 1000 * w))) \<and>
         \<not> allowed (fst (consume l' k sc (now + 1000 * (w - 1)))) \<and> 0 < w"
proof -
  let ?tr = "RATE_LIMIT_TIERS sc"
  define tok where "tok = refilled ?tr (oget (buckets l) (bucket_key sc k)) now"
  have rej: "tok < 1" and w: "w = \<lceil>(1 - tok) / t_rate ?tr\<rceil>"
    using assms(2,3) by (auto simp: consume_def Let_def tok_def split: if_splits)
  have rp: "0 < t_rate ?tr" using tiers_ok[of sc] by (simp add: tier_ok_def)
  note ex = retry_after_exact[OF rp rej, folded w]
  have b1: "1 \<le> t_burst ?tr" by (cases sc) simp_all
  have l': "oget (buckets l') (bucket_key sc k) = Some \<lparr>tokens = tok, lastReplenishedAt = now\<rparr>"
    using assms(2) rej consume_bucket[of l k sc now "bucket_key sc k"] consume_allowed[of l k sc now]
    by (simp add: tok_def)
  have r: "refilled ?tr (oget (buckets l') (bucket_key sc k)) (now + 1000 * d) =
      min (t_burst ?tr) (tok + t_rate ?tr * of_int d)" if "0 \<le> d" for d
    using that by (simp add: l' refilled_def)
  have "0 \<le> w" "0 \<le> w - 1" using ex(3) by auto
  then show ?thesis unfolding consume_allowed using r[of w] r[of "w - 1"] ex b1 by auto
qed

theorem retry_after_is_exact_witness:
  "0 < (1 :: int) \<and> allowed (fst (consume \<lparr>buckets = [(''ip:a'', \<lparr>tokens = 1/2, lastReplenishedAt = 0\<rparr>)],
     concurrencyCounts = []\<rparr> ''a'' ScopeIp 1000))"
proof -
  let ?l = "\<lparr>buckets = [(''ip:a'', \<lparr>tokens = 1/2, lastReplenishedAt = 0\<rparr>)], concurrencyCounts = []\<rparr>"
  have ok: "limiter_ok ?l"
    by (auto simp: limiter_ok_def owf_def bucket_ok_def bucket_key_def) (case_tac sc; simp)+
  have c: "consume ?l ''a'' ScopeIp 0 = (\<lparr>allowed = False, remaining = 0, retryAfterSeconds = Some 1\<rparr>, ?l)"
    by (simp add: consume_def bucket_key_def refilled_def ceiling_eq_iff)
  show ?thesis using retry_after_is_exact[OF ok c] by simp
qed

text \<open>Runs of slot operations, each on a function key; every acquisition of a key names its limit.\<close>

datatype slot_op = Acquire string | Release string

fun slot_step :: "(string \<Rightarrow> int) \<Rightarrow> limiter \<Rightarrow> slot_op \<Rightarrow> limiter" where
  "slot_step mx l (Acquire f) = snd (acquireConcurrency l f (mx f))"
| "slot_step mx l (Release f) = releaseConcurrency l f"

definition slots :: "limiter \<Rightarrow> string \<Rightarrow> int" where
  "slots l f = or_default (oget (concurrencyCounts l) f) 0"

lemma slots_acquire:
  "slots (snd (acquireConcurrency l f m)) g = (if g = f \<and> slots l f < m then slots l f + 1 else slots l g)"
  by (auto simp: acquireConcurrency_def slots_def Let_def)

lemma slots_release:
  "slots (releaseConcurrency l f) g = (if g = f then (if 1 < slots l f then slots l f - 1 else 0) else slots l g)"
  by (auto simp: releaseConcurrency_def slots_def Let_def)

lemma slots_run:
  assumes "\<And>f. 0 \<le> mx f" "\<And>f. 0 \<le> slots l f \<and> slots l f \<le> mx f"
  shows "0 \<le> slots (foldl (slot_step mx) l ops) f \<and> slots (foldl (slot_step mx) l ops) f \<le> mx f"
  using assms(2)
proof (induction ops arbitrary: l)
  case (Cons p ops)
  have "0 \<le> slots (slot_step mx l p) g \<and> slots (slot_step mx l p) g \<le> mx g" for g
    using Cons.prems[of g] assms(1)[of g] by (cases p) (auto simp: slots_acquire slots_release)
  then show ?case using Cons.IH by simp
qed simp

text \<open>
  In every run of acquisitions and releases from an empty limiter the slots in use of a
  function stay between zero and its limit, a release never underflows, an acquisition is refused
  exactly when the limit is reached, and releasing an acquired slot restores the count of every
  function.
\<close>

theorem concurrency_bounded:
  assumes "\<And>f. 0 \<le> mx f"
    and l: "l = foldl (slot_step mx) \<lparr>buckets = [], concurrencyCounts = []\<rparr> ops"
  shows "0 \<le> slots l f \<and> slots l f \<le> mx f \<and>
         (c_allowed (fst (acquireConcurrency l f (mx f))) \<longleftrightarrow> slots l f \<noteq> mx f) \<and>
         (c_allowed (fst (acquireConcurrency l f (mx f))) \<longrightarrow>
            slots (releaseConcurrency (snd (acquireConcurrency l f (mx f))) f) = slots l)"
proof -
  have b: "0 \<le> slots l f \<and> slots l f \<le> mx f"
    unfolding l by (rule slots_run) (use assms(1) in \<open>simp_all add: slots_def\<close>)
  have a: "c_allowed (fst (acquireConcurrency l f (mx f))) \<longleftrightarrow> slots l f < mx f"
    by (simp add: acquireConcurrency_def slots_def Let_def)
  then show ?thesis using b by (auto simp: fun_eq_iff slots_acquire slots_release)
qed

theorem concurrency_bounded_witness:
  "slots (foldl (slot_step (\<lambda>_. 2)) \<lparr>buckets = [], concurrencyCounts = []\<rparr>
     [Acquire ''f'', Acquire ''f'', Acquire ''f'']) ''f'' \<le> 2"
  using concurrency_bounded[of "\<lambda>_. 2" _ "[Acquire ''f'', Acquire ''f'', Acquire ''f'']" "''f''", OF _ refl] by simp

end
