(* ===== verification/UriCodec.thy ===== *)
theory UriCodec
  imports Errors
begin

text \<open>
  \<open>encodeURIComponent\<close> and \<open>decodeURIComponent\<close> of the language, on characters with codes below 256:
  a character is itself, one escape, or two escapes (its UTF-8 bytes). A percent-encoded character above
  code 255 is an error here.
\<close>

definition unreserved :: "char \<Rightarrow> bool" where
  "unreserved c = (is_digit c \<or> 65 \<le> code c \<and> code c \<le> 90 \<or> 97 \<le> code c \<and> code c \<le> 122 \<or> c \<in> set ''-_.!~*()'' \<or> code c = 39)"

definition hex_upper :: "nat \<Rightarrow> char" where
  "hex_upper d = (if d < 10 then char_of (48 + d) else char_of (55 + d))"

definition escape_byte :: "nat \<Rightarrow> string" where
  "escape_byte b = [CHR ''%'', hex_upper (b div 16), hex_upper (b mod 16)]"

definition encode_char :: "char \<Rightarrow> string" where
  "encode_char c =
     (if unreserved c then [c]
      else if code c < 128 then escape_byte (code c)
      else escape_byte (192 + code c div 64) @ escape_byte (128 + code c mod 64))"

definition encodeURIComponent :: "string \<Rightarrow> string" where
  "encodeURIComponent s = concat (map encode_char s)"

fun decodeURIComponent :: "string \<Rightarrow> string res" where
  "decodeURIComponent [] = Inr []"
| "decodeURIComponent (c # s) =
     (if c \<noteq> CHR ''%'' then bind_res (decodeURIComponent s) (\<lambda>r. Inr (c # r))
      else case s of
        a # b # s1 \<Rightarrow>
          if \<not> (is_hex a \<and> is_hex b) then Inl URIError
          else let n = 16 * digit_val a + digit_val b in
            if n < 128 then bind_res (decodeURIComponent s1) (\<lambda>r. Inr (char_of n # r))
            else (case s1 of
               p # x # y # s2 \<Rightarrow>
                 let m = 16 * digit_val x + digit_val y in
                 if (n = 194 \<or> n = 195) \<and> p = CHR ''%'' \<and> is_hex x \<and> is_hex y \<and> 128 \<le> m \<and> m < 192
                 then bind_res (decodeURIComponent s2) (\<lambda>r. Inr (char_of ((n - 192) * 64 + (m - 128)) # r))
                 else Inl URIError
             | _ \<Rightarrow> Inl URIError)
      | _ \<Rightarrow> Inl URIError)"

declare decodeURIComponent.simps [simp del]

lemma decode_Nil [simp]: "decodeURIComponent [] = Inr []"
  by (simp add: decodeURIComponent.simps)

lemma decode_plain_char [simp]: "c \<noteq> CHR ''%'' \<Longrightarrow> decodeURIComponent (c # s) = bind_res (decodeURIComponent s) (\<lambda>r. Inr (c # r))"
  by (simp add: decodeURIComponent.simps)

lemma hex_upper_val [simp]: "d < 16 \<Longrightarrow> digit_val (hex_upper d) = d" "d < 16 \<Longrightarrow> is_hex (hex_upper d)"
  by (auto simp: hex_upper_def digit_val_def is_hex_def is_digit_def Let_def)

lemma decode_escape: "n < 128 \<Longrightarrow> decodeURIComponent (escape_byte n @ s) = bind_res (decodeURIComponent s) (\<lambda>r. Inr (char_of n # r))"
  by (simp add: escape_byte_def decodeURIComponent.simps(2) Let_def)

lemma decode_escapes:
  assumes "m < 64" "k < 4" "2 \<le> k"
  shows "decodeURIComponent (escape_byte (192 + k) @ escape_byte (128 + m) @ s) = bind_res (decodeURIComponent s) (\<lambda>r. Inr (char_of (k * 64 + m) # r))"
proof -
  have "k = 2 \<or> k = 3" using assms by linarith
  then have k: "(192 + k) div 16 = 12" "(192 + k) mod 16 = k" by auto
  have m: "(128 + m) div 16 < 16" "(128 + m) mod 16 < 16" "16 * ((128 + m) div 16) + (128 + m) mod 16 = 128 + m"
    using assms less_mult_imp_div_less[of "128 + m" 16 16] by auto
  have "k = 2 \<or> k = 3" using assms by linarith
  then show ?thesis using assms k m by (auto simp: escape_byte_def decodeURIComponent.simps(2) Let_def)
qed

lemma decode_encode_char: "decodeURIComponent (encode_char c @ s) = bind_res (decodeURIComponent s) (\<lambda>r. Inr (c # r))"
proof -
  have c: "code c < 256" "char_of (code c) = c" using nat_of_char_less_256[of c] by simp_all
  have p: "unreserved c \<Longrightarrow> c \<noteq> CHR ''%''" by (auto simp: unreserved_def is_digit_def)
  show ?thesis
  proof (cases "unreserved c \<or> code c < 128")
    case True
    then show ?thesis using c p decode_escape[of "code c" s] by (auto simp: encode_char_def)
  next
    case False
    have "code c div 64 * 64 + code c mod 64 = code c" by simp
    moreover have "code c div 64 < 4" "2 \<le> code c div 64" using False c(1) less_mult_imp_div_less[of "code c" 4 64] by auto
    ultimately show ?thesis using False c decode_escapes[of "code c mod 64" "code c div 64" s] by (simp add: encode_char_def)
  qed
qed

lemma decode_encode: "decodeURIComponent (encodeURIComponent s) = Inr s"
  by (induction s) (simp_all add: encodeURIComponent_def decode_encode_char res_simps)

lemma encodeURIComponent_inj: "encodeURIComponent s = encodeURIComponent t \<longleftrightarrow> s = t"
  using decode_encode by (metis sum.inject(2))

lemma encode_char_no_slash: "CHR ''/'' \<notin> set (encode_char c)"
proof -
  have h: "d < 16 \<Longrightarrow> hex_upper d \<noteq> CHR ''/''" for d using hex_upper_val(2)[of d] by (auto simp: is_hex_def is_digit_def)
  have b: "n < 256 \<Longrightarrow> CHR ''/'' \<notin> set (escape_byte n)" for n 
    using h[of "n div 16"] h[of "n mod 16"] less_mult_imp_div_less[of n 16 16] by (auto simp: escape_byte_def)
  have "code c < 256" by (rule nat_of_char_less_256)
  moreover from this have "code c div 64 < 4" using less_mult_imp_div_less[of "code c" 4 64] by simp
  ultimately show ?thesis using b[of "code c"] b[of "192 + code c div 64"] b[of "128 + code c mod 64"]
    by (auto simp: encode_char_def unreserved_def is_digit_def)
qed

lemma encode_no_slash: "CHR ''/'' \<notin> set (encodeURIComponent s)"
  using encode_char_no_slash by (induction s) (auto simp: encodeURIComponent_def)

end
