(* ===== verification/KvStore.thy ===== *)
theory KvStore
  imports UriCodec "HOL-Library.Char_ord" "HOL-Library.List_Lexorder"
begin

text \<open>
  \<open>providers/kv/sqlite-provider.ts\<close>: the local KV provider. The table \<open>kv_entries\<close> is an
  insertion-ordered map from key paths to rows; the values are JSON values, which the provider
  stores as text and parses back. \<open>LIKE\<close> is SQLite's: \<open>%\<close> any run of characters, \<open>_\<close> any one
  character, ASCII letters compared without case. A cursor is the base64 text of a key path; it
  is modelled by the path itself. The clock is an argument.

  Shown: key paths identify keys, versions count the writes of a live key, a transaction commits
  exactly when every expected version is current and then applies all its mutations, following
  the cursors of \<open>list\<close> visits every matching row once, and the prefix test of \<open>list\<close> is wider
  than the key prefix.
\<close>

section \<open>Key paths\<close>

definition encodeKeyPath :: "string list \<Rightarrow> string" where
  "encodeKeyPath key = (if key = [] then [] else join_with ''/'' (map encodeURIComponent key) @ ''/'')"

definition validateKey :: "string list \<Rightarrow> unit res" where
  "validateKey key =
     (if 32 < length key then Inl (throw_rf VALIDATION_FAILED ''Key exceeds 32 segments'')
      else if 512 < sum_list (map utf8_len key) then Inl (throw_rf VALIDATION_FAILED ''Key exceeds 512 bytes'')
      else Inr ())"

section \<open>The table\<close>

record 'v kv_row =
  key_json :: "string list"
  value_json :: 'v
  version :: int
  expires_at :: "int option"

type_synonym 'v table = "(string, 'v kv_row) omap"

definition expired :: "int \<Rightarrow> 'v kv_row \<Rightarrow> bool" where
  "expired now r = (case expires_at r of None \<Rightarrow> False | Some e \<Rightarrow> e \<le> now)"

text \<open>The row a reader at time \<open>now\<close> sees.\<close>

definition live_row :: "'v table \<Rightarrow> int \<Rightarrow> string list \<Rightarrow> 'v kv_row option" where
  "live_row t now key =
     (case oget t (encodeKeyPath key) of
        None \<Rightarrow> None
      | Some r \<Rightarrow> if expired now r then None else Some r)"

definition kv_get :: "'v table \<Rightarrow> int \<Rightarrow> string list \<Rightarrow> ('v option \<times> 'v table) res" where
  "kv_get t now key =
     bind_res (validateKey key) (\<lambda>_.
       case oget t (encodeKeyPath key) of
         None \<Rightarrow> Inr (None, t)
       | Some row \<Rightarrow>
           if expired now row then Inr (None, odel (encodeKeyPath key) t)
           else Inr (Some (value_json row), t))"

text \<open>The upsert both \<open>set\<close> and \<open>commit\<close> run: version 1 for a new row, one more for a present one.\<close>

definition upsert :: "string list \<Rightarrow> 'v \<Rightarrow> int option \<Rightarrow> 'v table \<Rightarrow> 'v table" where
  "upsert key v ex t =
     (let p = encodeKeyPath key in
      case oget t p of
        None \<Rightarrow> oset p \<lparr>key_json = key, value_json = v, version = 1, expires_at = ex\<rparr> t
      | Some row \<Rightarrow> oset p (row\<lparr>value_json := v, version := version row + 1, expires_at := ex\<rparr>) t)"

definition kv_set :: "'v table \<Rightarrow> int \<Rightarrow> string list \<Rightarrow> 'v \<Rightarrow> int option \<Rightarrow> 'v table res" where
  "kv_set t now key v ttl =
     bind_res (validateKey key) (\<lambda>_.
       Inr (upsert key v (map_option (\<lambda>s. now + s * 1000) ttl) t))"

definition kv_delete :: "'v table \<Rightarrow> string list \<Rightarrow> 'v table res" where
  "kv_delete t key = bind_res (validateKey key) (\<lambda>_. Inr (odel (encodeKeyPath key) t))"

section \<open>Listing\<close>

definition ascii_lower :: "char \<Rightarrow> char" where
  "ascii_lower c = (let n = code c in if 65 \<le> n \<and> n \<le> 90 then char_of (n + 32) else c)"

fun like :: "string \<Rightarrow> string \<Rightarrow> bool" where
  "like [] t = (t = [])"
| "like (p # ps) [] = (p = CHR ''%'' \<and> like ps [])"
| "like (p # ps) (c # cs) =
     (if p = CHR ''%'' then like ps (c # cs) \<or> like (p # ps) cs
      else (p = CHR ''_'' \<or> ascii_lower p = ascii_lower c) \<and> like ps cs)"

definition list_limit :: "int option \<Rightarrow> nat" where
  "list_limit limit = (case limit of Some l \<Rightarrow> if 0 < l then nat (min l 1000) else 100 | None \<Rightarrow> 100)"

definition matching_rows :: "'v table \<Rightarrow> int \<Rightarrow> string list \<Rightarrow> string option \<Rightarrow> (string \<times> 'v kv_row) list" where
  "matching_rows t now pre cursor =
     sort_key fst (filter (\<lambda>(p, r). like (encodeKeyPath pre @ ''%'') p \<and> \<not> expired now r \<and>
        (case cursor of None \<Rightarrow> True | Some c \<Rightarrow> c < p)) t)"

text \<open>An empty cursor string is falsy and ignored.\<close>

definition effective_cursor :: "string option \<Rightarrow> string option" where
  "effective_cursor c = (case c of Some s \<Rightarrow> if s = [] then None else Some s | None \<Rightarrow> None)"

definition kv_list ::
  "'v table \<Rightarrow> int \<Rightarrow> string list \<Rightarrow> int option \<Rightarrow> string option \<Rightarrow>
   (string list \<times> 'v) list \<times> string option" where
  "kv_list t now pre limit cursor =
     (let lim = list_limit limit;
          rows = take (lim + 1) (matching_rows t now pre (effective_cursor cursor));
          hasMore = lim < length rows;
          results = (if hasMore then take lim rows else rows)
      in (map (\<lambda>(p, r). (key_json r, value_json r)) results,
          if hasMore then Some (fst (last results)) else None))"

section \<open>Transactions\<close>

datatype 'v mutation = MSet "string list" 'v | MDelete "string list"

fun mut_key :: "'v mutation \<Rightarrow> string list" where
  "mut_key (MSet k v) = k"
| "mut_key (MDelete k) = k"

record 'v builder =
  checks :: "(string list \<times> int) list"
  mutations :: "'v mutation list"

definition atomic :: "'v builder" where
  "atomic = \<lparr>checks = [], mutations = []\<rparr>"

definition b_check :: "string list \<Rightarrow> int \<Rightarrow> 'v builder \<Rightarrow> 'v builder" where
  "b_check k e b = b\<lparr>checks := checks b @ [(k, e)]\<rparr>"

definition b_set :: "string list \<Rightarrow> 'v \<Rightarrow> 'v builder \<Rightarrow> 'v builder" where
  "b_set k v b = b\<lparr>mutations := mutations b @ [MSet k v]\<rparr>"

definition b_delete :: "string list \<Rightarrow> 'v builder \<Rightarrow> 'v builder" where
  "b_delete k b = b\<lparr>mutations := mutations b @ [MDelete k]\<rparr>"

definition purge :: "int \<Rightarrow> 'v table \<Rightarrow> 'v table" where
  "purge now t = filter (\<lambda>e. \<not> expired now (snd e)) t"

definition current_version :: "'v table \<Rightarrow> int \<Rightarrow> string list \<Rightarrow> int" where
  "current_version t now key = (case live_row t now key of None \<Rightarrow> 0 | Some r \<Rightarrow> version r)"

fun checks_pass :: "'v table \<Rightarrow> int \<Rightarrow> (string list \<times> int) list \<Rightarrow> bool" where
  "checks_pass t now [] = True"
| "checks_pass t now ((k, e) # cs) = (current_version t now k = e \<and> checks_pass t now cs)"

fun apply_mutations :: "'v mutation list \<Rightarrow> int \<Rightarrow> 'v table \<Rightarrow> int \<times> 'v table" where
  "apply_mutations [] hv t = (hv, t)"
| "apply_mutations (MSet k v # ms) hv t =
     (let t' = upsert k v None t;
          nv = (case oget t' (encodeKeyPath k) of None \<Rightarrow> 0 | Some r \<Rightarrow> version r)
      in apply_mutations ms (max hv nv) t')"
| "apply_mutations (MDelete k # ms) hv t = apply_mutations ms hv (odel (encodeKeyPath k) t)"

record commit_result =
  commit_ok :: bool
  commit_version :: "int option"

text \<open>A failed check rolls the transaction back, the purge included.\<close>

definition commit :: "'v table \<Rightarrow> int \<Rightarrow> 'v builder \<Rightarrow> (commit_result \<times> 'v table) res" where
  "commit t now b =
     bind_res (each_res (\<lambda>m. validateKey (mut_key m)) (mutations b)) (\<lambda>_.
       let t1 = purge now t in
       if \<not> checks_pass t1 now (checks b) then Inr (\<lparr>commit_ok = False, commit_version = None\<rparr>, t)
       else let (hv, t2) = apply_mutations (mutations b) 0 t1 in
            Inr (\<lparr>commit_ok = True, commit_version = (if 0 < hv then Some hv else None)\<rparr>, t2))"

text \<open>
  What a client does with \<open>list\<close>: ask again with the returned cursor until there is none. The fuel
  bounds the number of pages.
\<close>

fun list_all_pages ::
  "nat \<Rightarrow> 'v table \<Rightarrow> int \<Rightarrow> string list \<Rightarrow> int option \<Rightarrow> string option \<Rightarrow> (string list \<times> 'v) list option" where
  "list_all_pages 0 t now pre limit cursor = None"
| "list_all_pages (Suc n) t now pre limit cursor =
     (case kv_list t now pre limit cursor of
        (items, None) \<Rightarrow> Some items
      | (items, Some c) \<Rightarrow> map_option (\<lambda>rest. items @ rest) (list_all_pages n t now pre limit (Some c)))"

definition last_mutation :: "string list \<Rightarrow> 'v mutation list \<Rightarrow> 'v mutation option" where
  "last_mutation k ms = find (\<lambda>m. mut_key m = k) (rev ms)"

section \<open>Key paths identify keys\<close>

lemma encodeKeyPath_Cons: "encodeKeyPath (x # xs) = encodeURIComponent x @ ''/'' @ encodeKeyPath xs"
  by (cases xs) (simp_all add: encodeKeyPath_def)

lemma sep_cancel: "c \<notin> set a \<Longrightarrow> c \<notin> set b \<Longrightarrow> a @ c # x = b @ c # y \<Longrightarrow> a = b \<and> x = y"
  by (induction a arbitrary: b) (auto simp: Cons_eq_append_conv)

lemma encodeKeyPath_inj: "encodeKeyPath a = encodeKeyPath b \<Longrightarrow> a = b"
proof (induction a arbitrary: b)
  case Nil
  then show ?case by (cases b) (auto simp: encodeKeyPath_def)
next
  case (Cons x a)
  then obtain y b' where b: "b = y # b'" by (cases b) (auto simp: encodeKeyPath_def)
  have "encodeURIComponent x @ CHR ''/'' # encodeKeyPath a = encodeURIComponent y @ CHR ''/'' # encodeKeyPath b'"
    using Cons.prems b by (simp add: encodeKeyPath_Cons)
  then have "encodeURIComponent x = encodeURIComponent y \<and> encodeKeyPath a = encodeKeyPath b'"
    by (intro sep_cancel) (simp_all add: encode_no_slash)
  then show ?case using Cons.IH b encodeURIComponent_inj by blast
qed

lemma encodeKeyPath_eq [simp]: "encodeKeyPath a = encodeKeyPath b \<longleftrightarrow> a = b"
  using encodeKeyPath_inj by blast

lemma encodeKeyPath_append: "encodeKeyPath (a @ b) = encodeKeyPath a @ encodeKeyPath b"
  by (induction a) (simp_all add: encodeKeyPath_Cons, simp add: encodeKeyPath_def)

section \<open>The table seen by readers\<close>

definition table_ok :: "'v table \<Rightarrow> bool" where
  "table_ok t = (owf t \<and> (\<forall>p r. oget t p = Some r \<longrightarrow> 1 \<le> version r \<and> p = encodeKeyPath (key_json r)))"

lemma table_ok_Nil: "table_ok []"
  by (simp add: table_ok_def)

lemma oget_upsert:
  "oget (upsert k v ex t) p =
     (if p = encodeKeyPath k
      then Some (case oget t p of
          None \<Rightarrow> \<lparr>key_json = k, value_json = v, version = 1, expires_at = ex\<rparr>
        | Some r \<Rightarrow> r\<lparr>value_json := v, version := version r + 1, expires_at := ex\<rparr>)
      else oget t p)"
  by (auto simp: upsert_def Let_def split: option.splits)

lemma owf_upsert: "owf t \<Longrightarrow> owf (upsert k v ex t)"
  by (auto simp: upsert_def Let_def split: option.splits)

lemma table_ok_upsert: "table_ok t \<Longrightarrow> table_ok (upsert k v ex t)"
proof -
  assume t: "table_ok t"
  then have w: "owf t" and r: "\<And>p r. oget t p = Some r \<Longrightarrow> 1 \<le> version r \<and> p = encodeKeyPath (key_json r)"
    by (auto simp: table_ok_def)
  have "1 \<le> version x \<and> p = encodeKeyPath (key_json x)" if "oget (upsert k v ex t) p = Some x" for p x
    using that r[of p] by (cases "oget t p") (auto simp: oget_upsert split: if_splits)
  then show ?thesis using w by (auto simp: table_ok_def owf_upsert)
qed

lemma table_ok_odel: "table_ok t \<Longrightarrow> table_ok (odel p t)"
  by (auto simp: table_ok_def)

lemma oget_purge: "owf t \<Longrightarrow> oget (purge now t) p =
    (case oget t p of None \<Rightarrow> None | Some r \<Rightarrow> if expired now r then None else Some r)"
  by (auto simp: purge_def oget_filter split: option.splits)

lemma table_ok_purge: "table_ok t \<Longrightarrow> table_ok (purge now t)"
  by (auto simp: table_ok_def oget_purge split: option.splits if_splits) (simp add: purge_def)

lemma expired_mono: "expired now r \<Longrightarrow> now \<le> now' \<Longrightarrow> expired now' r"
  by (auto simp: expired_def split: option.splits)

lemma live_row_purge: "owf t \<Longrightarrow> now \<le> now' \<Longrightarrow> live_row (purge now t) now' k = live_row t now' k"
  by (auto simp: live_row_def oget_purge split: option.splits dest: expired_mono)

lemma current_version_purge: "owf t \<Longrightarrow> current_version (purge now t) now k = current_version t now k"
  by (simp add: current_version_def live_row_purge)

lemma checks_pass_iff: "checks_pass t now cs \<longleftrightarrow> (\<forall>(k, e) \<in> set cs. current_version t now k = e)"
  by (induction t now cs rule: checks_pass.induct) auto

lemma table_ok_apply_mutations: "table_ok t \<Longrightarrow> table_ok (snd (apply_mutations ms hv t))"
  by (induction ms hv t rule: apply_mutations.induct) (simp_all add: Let_def table_ok_upsert table_ok_odel)

lemma live_row_upsert:
  "live_row (upsert k v None t) now k' =
     (if k' = k then Some (case oget t (encodeKeyPath k) of
          None \<Rightarrow> \<lparr>key_json = k, value_json = v, version = 1, expires_at = None\<rparr>
        | Some r \<Rightarrow> r\<lparr>value_json := v, version := version r + 1, expires_at := None\<rparr>)
      else live_row t now k')"
  by (auto simp: live_row_def oget_upsert expired_def split: option.splits)

section \<open>The compare-and-set contract\<close>

text \<open>
  Clients that all expect the version \<open>e\<close> of a key and try to set it, one after the other: who succeeds.
\<close>

fun race :: "('s \<Rightarrow> int \<Rightarrow> 'k \<Rightarrow> int \<Rightarrow> 'v \<Rightarrow> bool \<times> 's) \<Rightarrow> 's \<Rightarrow> 'k \<Rightarrow> int \<Rightarrow> (int \<times> 'v) list \<Rightarrow> bool list" where
  "race cas s k e [] = []"
| "race cas s k e ((t, v) # cs) = fst (cas s t k e v) # race cas (snd (cas s t k e v)) k e cs"

text \<open>
  What a client of optimistic concurrency relies on: a key that reads as absent has version 0, a
  compare-and-set succeeds exactly when the expected version is current, a successful one makes
  the value readable under the next version and leaves every other key alone, and after a failed one
  every key reads as before.
\<close>

locale cas_store =
  fixes read :: "'s \<Rightarrow> int \<Rightarrow> 'k \<Rightarrow> 'v option"
    and ver :: "'s \<Rightarrow> int \<Rightarrow> 'k \<Rightarrow> int"
    and cas :: "'s \<Rightarrow> int \<Rightarrow> 'k \<Rightarrow> int \<Rightarrow> 'v \<Rightarrow> bool \<times> 's"
    and inv :: "'s \<Rightarrow> bool"
    and valid :: "'k \<Rightarrow> bool"
  assumes ver_absent: "inv s \<Longrightarrow> ver s t k = 0 \<longleftrightarrow> read s t k = None"
    and ver_nonneg: "inv s \<Longrightarrow> 0 \<le> ver s t k"
    and cas_iff: "inv s \<Longrightarrow> valid k \<Longrightarrow> fst (cas s t k e v) \<longleftrightarrow> ver s t k = e"
    and cas_fail: "inv s \<Longrightarrow> valid k \<Longrightarrow> \<not> fst (cas s t k e v) \<Longrightarrow> t \<le> t' \<Longrightarrow>
          read (snd (cas s t k e v)) t' k' = read s t' k' \<and> ver (snd (cas s t k e v)) t' k' = ver s t' k'"
    and cas_read: "inv s \<Longrightarrow> valid k \<Longrightarrow> fst (cas s t k e v) \<Longrightarrow> t \<le> t' \<Longrightarrow>
          read (snd (cas s t k e v)) t' k' = (if k' = k then Some v else read s t' k')"
    and cas_ver: "inv s \<Longrightarrow> valid k \<Longrightarrow> fst (cas s t k e v) \<Longrightarrow> t \<le> t' \<Longrightarrow>
          ver (snd (cas s t k e v)) t' k' = (if k' = k then e + 1 else ver s t' k')"
    and cas_inv: "inv s \<Longrightarrow> valid k \<Longrightarrow> inv (snd (cas s t k e v))"
begin

text \<open>After a success the expected version is never current again, so everyone else in the race loses.\<close>

lemma race_lost:
  assumes "inv s" "valid k" "\<And>t'. t \<le> t' \<Longrightarrow> ver s t' k = e + 1" "sorted (t # map fst cs)"
  shows "\<not> True \<in> set (race cas s k e cs)"
  using assms
proof (induction cs arbitrary: s t)
  case (Cons c cs)
  obtain t1 v where c: "c = (t1, v)" by (cases c)
  have le: "t \<le> t1" using Cons.prems(4) c by simp
  have f: "\<not> fst (cas s t1 k e v)" using cas_iff[OF Cons.prems(1,2), of t1 e v] Cons.prems(3)[OF le] by simp
  have "ver (snd (cas s t1 k e v)) t' k = e + 1" if "t1 \<le> t'" for t'
    using cas_fail[OF Cons.prems(1,2) f that, of k] Cons.prems(3) le that by simp
  then have "\<not> True \<in> set (race cas (snd (cas s t1 k e v)) k e cs)"
    using Cons.prems(4) c by (intro Cons.IH[OF cas_inv[OF Cons.prems(1,2)] Cons.prems(2)]) auto
  then show ?case using f c by simp
qed simp

lemma race_one_winner:
  assumes "inv s" "valid k" "sorted (map fst cs)"
  shows "length (filter (\<lambda>b. b) (race cas s k e cs)) \<le> 1"
  using assms
proof (induction cs arbitrary: s)
  case (Cons c cs)
  obtain t v where c: "c = (t, v)" by (cases c)
  let ?s = "snd (cas s t k e v)"
  note i = cas_inv[OF Cons.prems(1,2), of t e v]
  show ?case
  proof (cases "fst (cas s t k e v)")
    case True
    have "\<not> True \<in> set (race cas ?s k e cs)"
      using race_lost[OF i Cons.prems(2), of t] cas_ver[OF Cons.prems(1,2) True, of _ k] Cons.prems(3) c by auto
    then have "filter (\<lambda>b. b) (race cas ?s k e cs) = []" by (auto simp: filter_empty_conv)
    then show ?thesis using True c by simp
  next
    case False
    then show ?thesis using Cons.IH[OF i Cons.prems(2)] Cons.prems(3) c by simp
  qed
qed simp

end

definition kv_read :: "'v table \<Rightarrow> int \<Rightarrow> string list \<Rightarrow> 'v option" where
  "kv_read t now k = map_option value_json (live_row t now k)"

text \<open>\<open>atomic().check(k, e).set(k, v).commit()\<close>, for a valid key.\<close>

definition kv_cas :: "'v table \<Rightarrow> int \<Rightarrow> string list \<Rightarrow> int \<Rightarrow> 'v \<Rightarrow> bool \<times> 'v table" where
  "kv_cas t now k e v =
     (case commit t now (b_set k v (b_check k e atomic)) of
        Inl _ \<Rightarrow> (False, t)
      | Inr (r, t') \<Rightarrow> (commit_ok r, t'))"

definition kv_valid :: "string list \<Rightarrow> bool" where
  "kv_valid k = (validateKey k = Inr ())"

lemma kv_cas_eq:
  assumes "owf t" "kv_valid k"
  shows "kv_cas t now k e v =
     (if current_version t now k = e then (True, upsert k v None (purge now t)) else (False, t))"
  using assms
  by (simp add: kv_cas_def commit_def b_set_def b_check_def atomic_def kv_valid_def current_version_purge Let_def)

text \<open>The same for \<open>commit\<close> itself, with the version it reports.\<close>

lemma commit_cas:
  assumes "table_ok t" "kv_valid k"
  shows "commit t now (b_set k v (b_check k e atomic)) =
     (if current_version t now k = e
      then Inr (\<lparr>commit_ok = True, commit_version = Some (e + 1)\<rparr>, upsert k v None (purge now t))
      else Inr (\<lparr>commit_ok = False, commit_version = None\<rparr>, t))"
proof -
  have o: "owf t" and r: "\<And>p r. oget t p = Some r \<Longrightarrow> 1 \<le> version r"
    using assms(1) by (auto simp: table_ok_def)
  have "current_version t now k = e \<Longrightarrow> oget (upsert k v None (purge now t)) (encodeKeyPath k) = Some x \<Longrightarrow>
      version x = e + 1 \<and> 0 < e + 1" for x
    using o r[of "encodeKeyPath k"]
    by (fastforce simp: oget_upsert oget_purge current_version_def live_row_def split: option.splits if_splits)
  moreover have "oget (upsert k v None (purge now t)) (encodeKeyPath k) \<noteq> None" by (simp add: oget_upsert)
  ultimately show ?thesis using assms o
    by (auto simp: commit_def b_set_def b_check_def atomic_def kv_valid_def current_version_purge Let_def
        max_def split: option.splits)
qed

lemma kv_get_read:
  assumes "kv_valid k"
  shows "\<exists>t'. kv_get t now k = Inr (kv_read t now k, t')"
  using assms by (auto simp: kv_get_def kv_valid_def kv_read_def live_row_def split: option.splits)

interpretation sqlite_cas: cas_store kv_read current_version kv_cas table_ok kv_valid
proof (unfold_locales, goal_cases)
  case (1 s t k)
  then show ?case
    by (fastforce simp: current_version_def kv_read_def live_row_def table_ok_def split: option.splits if_splits)
next
  case (2 s t k)
  then show ?case
    by (fastforce simp: current_version_def live_row_def table_ok_def split: option.splits if_splits)
next
  case (3 s k t e v)
  then show ?case by (simp add: kv_cas_eq table_ok_def)
next
  case (4 s k t e v t' k')
  then show ?case by (simp add: kv_cas_eq table_ok_def split: if_splits)
next
  case (5 s k t e v t' k')
  then have o: "owf s" and e: "current_version s t k = e" by (auto simp: kv_cas_eq table_ok_def split: if_splits)
  then show ?case using 5
    by (auto simp: kv_cas_eq kv_read_def live_row_upsert live_row_purge split: option.splits)
next
  case (6 s k t e v t' k')
  then have o: "owf s" and e: "current_version s t k = e" by (auto simp: kv_cas_eq table_ok_def split: if_splits)
  then show ?case using 6
    by (auto simp: kv_cas_eq current_version_def live_row_upsert live_row_purge oget_purge
        live_row_def[of s t k] split: option.splits if_splits)
next
  case (7 s k t e v)
  then show ?case by (auto simp: kv_cas_eq table_ok_def intro!: table_ok_upsert[unfolded table_ok_def]
        table_ok_purge[unfolded table_ok_def])
qed

section \<open>Transactions are atomic\<close>

lemma find_append: "find P (xs @ ys) = (case find P xs of None \<Rightarrow> find P ys | Some x \<Rightarrow> Some x)"
  by (induction xs) auto

lemma live_row_odel: "live_row (odel (encodeKeyPath k) t) now k' = (if k' = k then None else live_row t now k')"
  by (simp add: live_row_def)

lemma kv_read_apply_mutations:
  "kv_read (snd (apply_mutations ms hv t)) now k =
     (case last_mutation k ms of
        None \<Rightarrow> kv_read t now k
      | Some (MSet _ v) \<Rightarrow> Some v
      | Some (MDelete _) \<Rightarrow> None)"
proof (induction ms hv t rule: apply_mutations.induct)
  case (1 hv t)
  then show ?case by (simp add: last_mutation_def)
next
  case (2 k' v ms hv t)
  have "kv_read (upsert k' v None t) now k = (if k = k' then Some v else kv_read t now k)"
    by (auto simp: kv_read_def live_row_upsert split: option.splits)
  then show ?case using 2
    by (auto simp: Let_def last_mutation_def find_append split: option.splits mutation.splits)
next
  case (3 k' ms hv t)
  have "kv_read (odel (encodeKeyPath k') t) now k = (if k = k' then None else kv_read t now k)"
    by (simp add: kv_read_def live_row_odel)
  then show ?case using 3
    by (auto simp: last_mutation_def find_append split: option.splits mutation.splits)
qed

lemma commit_cases:
  assumes "commit t now b = Inr (r, t')"
  shows "commit_ok r = checks_pass (purge now t) now (checks b)"
    and "\<not> commit_ok r \<Longrightarrow> t' = t"
    and "commit_ok r \<Longrightarrow> t' = snd (apply_mutations (mutations b) 0 (purge now t))"
  using assms by (auto simp: commit_def Let_def res_simps split: if_splits prod.splits)

lemma checks_pass_purge: "owf t \<Longrightarrow> checks_pass (purge now t) now cs = checks_pass t now cs"
  by (simp add: checks_pass_iff current_version_purge)

text \<open>
  C4: A transaction that is not refused for an invalid key commits exactly when every checked
  key is at its expected version (0 for a key that reads as absent). When it does not commit the
  table is unchanged; when it commits, each key reads as its last mutation left it, every other
  key reads as before, and the table stays well formed (unique paths, versions from 1).
\<close>

theorem commit_atomic:
  assumes "table_ok t" "commit t now b = Inr (r, t')"
  shows "(commit_ok r \<longleftrightarrow> (\<forall>(k, e) \<in> set (checks b). current_version t now k = e)) \<and>
    (\<not> commit_ok r \<longrightarrow> t' = t) \<and>
    (commit_ok r \<longrightarrow> (\<forall>k. kv_read t' now k =
        (case last_mutation k (mutations b) of
           None \<Rightarrow> kv_read t now k
         | Some (MSet _ v) \<Rightarrow> Some v
         | Some (MDelete _) \<Rightarrow> None))) \<and>
    table_ok t'"
proof -
  have o: "owf t" using assms(1) by (simp add: table_ok_def)
  have "commit_ok r \<longleftrightarrow> (\<forall>(k, e) \<in> set (checks b). current_version t now k = e)"
    using commit_cases(1)[OF assms(2)] checks_pass_purge[OF o] by (simp add: checks_pass_iff)
  moreover have "kv_read (purge now t) now k = kv_read t now k" for k
    using o by (simp add: kv_read_def live_row_purge)
  moreover have "table_ok t'" using commit_cases(2,3)[OF assms(2)] assms(1)
    by (cases "commit_ok r") (simp_all add: table_ok_apply_mutations table_ok_purge)
  ultimately show ?thesis using commit_cases(2,3)[OF assms(2)]
    by (auto simp: kv_read_apply_mutations split: option.split mutation.split)
qed

definition demo_table :: "int table" where
  "demo_table = upsert [''a''] 10 None (upsert [''b''] 20 (Some 5000) (upsert [''a''] 1 None []))"

lemma demo_table_ok: "table_ok demo_table"
  unfolding demo_table_def by (intro table_ok_upsert table_ok_Nil)

definition demo_txn :: "int builder" where
  "demo_txn = b_delete [''a''] (b_set [''c''] 30 (b_check [''b''] 0 (b_check [''a''] 2 atomic)))"

lemma commit_atomic_witness:
  "\<exists>r t'. commit demo_table 6000 demo_txn = Inr (r, t') \<and> commit_ok r \<and>
     kv_read t' 6000 [''a''] = None \<and> kv_read t' 6000 [''c''] = Some 30"
proof -
  obtain r t' where c: "commit demo_table 6000 demo_txn = Inr (r, t')"
  proof (cases "commit demo_table 6000 demo_txn")
    case (Inl e)
    have "\<not> isl (commit demo_table 6000 demo_txn)" by code_simp
    then show thesis using Inl by simp
  next
    case (Inr x)
    then show thesis using that by (cases x) simp
  qed
  have v: "current_version demo_table 6000 [''a''] = 2" "current_version demo_table 6000 [''b''] = 0" by code_simp+
  show ?thesis using commit_atomic[OF demo_table_ok c] c v
    by (auto simp: demo_txn_def b_delete_def b_set_def b_check_def atomic_def last_mutation_def)
qed

section \<open>Following the cursors\<close>

lemma matching_rows_strict: "owf t \<Longrightarrow> sorted_wrt (<) (map fst (matching_rows t now pre c))"
proof -
  assume "owf t"
  then have "distinct (map fst (filter P t))" for P :: "string \<times> 'a kv_row \<Rightarrow> bool"
    by (simp add: owf_def distinct_map_filter)
  then show ?thesis
    unfolding matching_rows_def strict_sorted_iff by (simp add: distinct_map distinct_sort)
qed

lemma matching_rows_cursor:
  "matching_rows t now pre (Some c) = filter (\<lambda>e. c < fst e) (matching_rows t now pre None)"
  by (auto simp: matching_rows_def filter_sort[symmetric] intro!: filter_cong arg_cong[where f = "sort_key fst"])

definition row_item :: "string \<times> 'v kv_row \<Rightarrow> string list \<times> 'v" where
  "row_item e = (key_json (snd e), value_json (snd e))"

lemma list_limit_pos: "0 < list_limit limit"
  by (auto simp: list_limit_def split: option.splits)

lemma kv_list_page:
  assumes "matching_rows t now pre (effective_cursor c) = M" "n = list_limit limit"
  shows "kv_list t now pre limit c =
     (if n < length M then (map row_item (take n M), Some (fst (M ! (n - 1))))
      else (map row_item M, None))"
proof (cases "n < length M")
  case True
  have "last (take n M) = M ! (n - 1)"
    using True list_limit_pos[of limit] assms(2) by (subst last_conv_nth) (auto simp: min_def)
  then show ?thesis using True assms
    by (simp add: kv_list_def Let_def row_item_def case_prod_beta min_def)
next
  case False
  then show ?thesis using assms by (simp add: kv_list_def Let_def row_item_def case_prod_beta min_def)
qed

lemma list_all_pages_suffix:
  fixes M :: "(string \<times> 'v kv_row) list"
  assumes o: "owf t" and ne: "oget t [] = None" and M: "M = matching_rows t now pre None"
  shows "\<lbrakk>matching_rows t now pre (effective_cursor c) = drop m M; m \<le> length M; length M - m < fuel\<rbrakk>
     \<Longrightarrow> list_all_pages fuel t now pre limit c = Some (map row_item (drop m M))"
proof (induction fuel arbitrary: c m)
  case (Suc fuel)
  define n where "n = list_limit limit"
  have n: "0 < n" by (simp add: n_def list_limit_pos)
  show ?case
  proof (cases "n < length (drop m M)")
    case False
    then show ?thesis using kv_list_page[OF Suc.prems(1) n_def] by (simp split: if_splits)
  next
    case True
    define cur where "cur = fst (M ! (m + n - 1))"
    have c': "drop m M ! (n - 1) = M ! (m + n - 1)" using True n by (simp add: Suc.prems)
    have page: "kv_list t now pre limit c = (map row_item (take n (drop m M)), Some cur)"
      using kv_list_page[OF Suc.prems(1) n_def] True c' by (simp add: cur_def del: drop_drop)
    have "M ! (m + n - 1) \<in> set t"
      using True n nth_mem[of "m + n - 1" M] by (auto simp: M matching_rows_def)
    then have "cur \<noteq> []"
      using ne unfolding cur_def map_of_eq_None_iff by (metis image_eqI)
    then have "effective_cursor (Some cur) = Some cur" by (simp add: effective_cursor_def)
    moreover have "matching_rows t now pre (Some cur) = drop (m + n) M"
      using filter_above_drop[OF matching_rows_strict[OF o, of now pre None], of "m + n"] True n
      by (simp add: matching_rows_cursor cur_def M)
    ultimately have "list_all_pages fuel t now pre limit (Some cur) = Some (map row_item (drop (m + n) M))"
      using Suc.prems True n by (intro Suc.IH) auto
    moreover have "map row_item (take n (drop m M)) @ map row_item (drop (m + n) M) = map row_item (drop m M)"
      by (metis add.commute append_take_drop_id drop_drop map_append)
    ultimately show ?thesis using page by simp
  qed
qed simp

text \<open>
  Asking for page after page with the returned cursor ends, and the pages together are
  exactly the live rows matching the prefix, each once, in increasing order of their key paths,
  whatever the requested page size is. (The hypothesis excludes a row under the empty key, whose
  cursor would be the empty string.)
\<close>

theorem pagination_complete:
  fixes t :: "'v table"
  assumes "table_ok t" "oget t [] = None"
  shows "list_all_pages (Suc (length t)) t now pre limit None =
           Some (map row_item (matching_rows t now pre None)) \<and>
         sorted_wrt (<) (map fst (matching_rows t now pre None)) \<and>
         set (matching_rows t now pre None) =
           {(p, r). oget t p = Some r \<and> \<not> expired now r \<and> like (encodeKeyPath pre @ ''%'') p}"
proof -
  have o: "owf t" using assms(1) by (simp add: table_ok_def)
  have l: "length (matching_rows t now pre None) < Suc (length t)"
    by (simp add: matching_rows_def less_Suc_eq_le)
  have "list_all_pages (Suc (length t)) t now pre limit None =
      Some (map row_item (drop 0 (matching_rows t now pre None)))"
    using l by (intro list_all_pages_suffix[OF o assms(2) refl]) (simp_all add: effective_cursor_def)
  moreover have "(p, r) \<in> set t \<longleftrightarrow> oget t p = Some r" for p r
    using o by (simp add: owf_def map_of_eq_Some_iff)
  then have "set (matching_rows t now pre None) =
      {(p, r). oget t p = Some r \<and> \<not> expired now r \<and> like (encodeKeyPath pre @ ''%'') p}"
    by (auto simp: matching_rows_def)
  ultimately show ?thesis using matching_rows_strict[OF o, of now pre None] by simp
qed

lemma pagination_complete_witness:
  "list_all_pages 4 demo_table 0 [] (Some 1) None = Some [([''a''], 10), ([''b''], 20)]"
proof -
  have "oget demo_table [] = None" "length demo_table = 2"
    "map row_item (matching_rows demo_table 0 [] None) = [([''a''], 10), ([''b''], 20)]"
    by code_simp+
  moreover have "list_all_pages 4 demo_table 0 [] (Some 1) None =
    list_all_pages (Suc (length demo_table)) demo_table 0 [] (Some 1) None" by code_simp
  ultimately show ?thesis using pagination_complete[OF demo_table_ok, of 0 "[]" "Some 1"] by simp
qed

lemma like_percent [simp]: "like ''%'' s"
  by (induction s) auto

lemma like_skip: "like ps s \<Longrightarrow> like (CHR ''%'' # ps) s"
  by (cases s) auto

lemma like_refl_append: "like (p @ ''%'') (p @ r)"
proof (induction p)
  case (Cons c p)
  then show ?case using like_skip[OF Cons.IH] by (cases "c = CHR ''%''") simp_all
qed simp

text \<open>
  Listing under a key prefix finds every live key with that prefix, but it is not confined to
  them: an underscore in the prefix is a wildcard of LIKE and letters compare without case, so the
  prefix of project \<open>p\<close> in organisation \<open>org_1\<close> also lists a key of organisation \<open>orgX1\<close>, and
  the one of \<open>acme\<close> a key of \<open>ACME\<close>.
\<close>

theorem list_prefix_is_wider:
  "(\<forall>t now pre k r. live_row t now (pre @ k) = Some r \<longrightarrow>
      (encodeKeyPath (pre @ k), r) \<in> set (matching_rows t now pre None)) \<and>
   kv_list (upsert [''orgX1'', ''p'', ''secret''] (7 :: int) None []) 0 [''org_1'', ''p''] None None =
     ([([''orgX1'', ''p'', ''secret''], 7)], None) \<and>
   kv_list (upsert [''ACME'', ''p'', ''secret''] (7 :: int) None []) 0 [''acme'', ''p''] None None =
     ([([''ACME'', ''p'', ''secret''], 7)], None)"
proof (intro conjI allI impI)
  fix t :: "'a table" and now pre k and r :: "'a kv_row"
  assume "live_row t now (pre @ k) = Some r"
  then show "(encodeKeyPath (pre @ k), r) \<in> set (matching_rows t now pre None)"
    by (auto simp: live_row_def matching_rows_def encodeKeyPath_append like_refl_append
        dest: map_of_SomeD split: option.splits if_splits)
qed code_simp+

lemma list_prefix_is_wider_witness:
  "(encodeKeyPath [''a''], \<lparr>key_json = [''a''], value_json = 10, version = 2, expires_at = None\<rparr>)
     \<in> set (matching_rows demo_table 0 [] None)"
proof -
  have "live_row demo_table 0 ([] @ [''a'']) =
      Some \<lparr>key_json = [''a''], value_json = 10, version = 2, expires_at = None\<rparr>" by code_simp
  then show ?thesis using list_prefix_is_wider by fastforce
qed

section \<open>Reading tables with expiry\<close>

lemma kv_read_upsert:
  "kv_read (upsert k v ex t) now k' =
     (if k' = k then (case ex of Some e \<Rightarrow> if e \<le> now then None else Some v | None \<Rightarrow> Some v) else kv_read t now k')"
  by (auto simp: kv_read_def live_row_def oget_upsert expired_def split: option.splits)

lemma kv_read_odel: "kv_read (odel (encodeKeyPath k) t) now k' = (if k' = k then None else kv_read t now k')"
  by (simp add: kv_read_def live_row_odel)

lemma kv_get_Inr:
  assumes "kv_get t now k = Inr (v, t')"
  shows "v = kv_read t now k" "now \<le> n \<Longrightarrow> kv_read t' n k' = kv_read t n k'"
proof -
  show "v = kv_read t now k"
    using assms by (auto simp: kv_get_def kv_read_def live_row_def res_simps split: option.splits if_splits)
  show "now \<le> n \<Longrightarrow> kv_read t' n k' = kv_read t n k'"
    using assms
    by (auto simp: kv_get_def kv_read_def live_row_def res_simps dest: expired_mono split: option.splits if_splits)
qed

lemma kv_set_Inr:
  assumes "kv_set t now k v ttl = Inr t'"
  shows "kv_read t' n k' =
    (if k' = k then (case ttl of Some s \<Rightarrow> if now + s * 1000 \<le> n then None else Some v | None \<Rightarrow> Some v) else kv_read t n k')"
  using assms by (auto simp: kv_set_def res_simps kv_read_upsert split: option.splits)

lemma kv_delete_Inr: "kv_delete t k = Inr t' \<Longrightarrow> kv_read t' n k' = (if k' = k then None else kv_read t n k')"
  by (auto simp: kv_delete_def res_simps kv_read_odel)

end
