(* ===== verification/CircuitBreaker.thy ===== *)
theory CircuitBreaker
  imports KvStore
begin

text \<open>
  \<open>packages/policy/circuit-breaker.ts\<close> over the SQLite KV provider. A breaker keeps its whole state in
  one KV entry and updates it by an optimistic loop: read, compute, commit under a version check,
  try again on a conflict. Other clients may change the table between the read and the commit;
  \<open>world\<close> supplies those changes and the clock readings, round by round. The loop is a function
  of fuel, \<open>None\<close> meaning that it has not returned after that many rounds.

  Shown: a call of \<open>mutateState\<close> acts as one atomic step on the state other breakers left, it
  returns as soon as one round is free of conflicts, it never returns when the version inside the
  stored record differs from the row's version; the sequential behaviour of \<open>execute\<close> as a
  three-state machine; and the effect of a slow probe on a closed circuit.
\<close>

section \<open>State\<close>

datatype CircuitState = Closed | Open | HalfOpen

record cb_fields =
  state :: CircuitState
  consecutiveFailures :: int
  consecutiveSuccesses :: int
  lastStateChangeEpochMs :: int

record CircuitBreakerStateRecord = cb_fields +
  cb_version :: int

text \<open>A stored JSON value: not an object, or an object some of whose fields may be missing.\<close>

record partial_record =
  p_state :: "CircuitState option"
  p_failures :: "int option"
  p_successes :: "int option"
  p_last :: "int option"
  p_version :: "int option"

datatype cb_value = NotAnObject | AnObject partial_record

record CircuitBreakerOptions =
  opt_failureThreshold :: "int option"
  opt_cooldownMs :: "int option"
  opt_halfOpenSuccessThreshold :: "int option"

definition DEFAULT_FAILURE_THRESHOLD :: int where "DEFAULT_FAILURE_THRESHOLD = 5"
definition DEFAULT_COOLDOWN_MS :: int where "DEFAULT_COOLDOWN_MS = 30000"
definition DEFAULT_HALF_OPEN_SUCCESS_THRESHOLD :: int where "DEFAULT_HALF_OPEN_SUCCESS_THRESHOLD = 2"

record breaker =
  circuitKey :: "string list"
  failureThreshold :: int
  cooldownMs :: int
  halfOpenSuccessThreshold :: int

definition createCircuitBreaker :: "string list \<Rightarrow> CircuitBreakerOptions \<Rightarrow> breaker" where
  "createCircuitBreaker key opts =
     \<lparr>circuitKey = key,
      failureThreshold = or_default (opt_failureThreshold opts) DEFAULT_FAILURE_THRESHOLD,
      cooldownMs = or_default (opt_cooldownMs opts) DEFAULT_COOLDOWN_MS,
      halfOpenSuccessThreshold = or_default (opt_halfOpenSuccessThreshold opts) DEFAULT_HALF_OPEN_SUCCESS_THRESHOLD\<rparr>"

definition initial_record :: CircuitBreakerStateRecord where
  "initial_record = \<lparr>state = Closed, consecutiveFailures = 0, consecutiveSuccesses = 0,
     lastStateChangeEpochMs = 0, cb_version = 0\<rparr>"

definition parse_record :: "cb_value option \<Rightarrow> CircuitBreakerStateRecord" where
  "parse_record raw =
     (case raw of
        Some (AnObject p) \<Rightarrow>
          \<lparr>state = or_default (p_state p) Closed,
           consecutiveFailures = or_default (p_failures p) 0,
           consecutiveSuccesses = or_default (p_successes p) 0,
           lastStateChangeEpochMs = or_default (p_last p) 0,
           cb_version = or_default (p_version p) 0\<rparr>
      | _ \<Rightarrow> initial_record)"

definition getState ::
  "breaker \<Rightarrow> int \<Rightarrow> cb_value table \<Rightarrow> (CircuitBreakerStateRecord \<times> cb_value table) res" where
  "getState b now t =
     bind_res (kv_get t now (circuitKey b)) (\<lambda>(raw, t'). Inr (parse_record raw, t'))"

section \<open>The optimistic loop\<close>

text \<open>The clock readings of each round and what other clients do to the table within it.\<close>

record world =
  read_time :: "nat \<Rightarrow> int"
  now_time :: "nat \<Rightarrow> int"
  commit_time :: "nat \<Rightarrow> int"
  interfere :: "nat \<Rightarrow> cb_value table \<Rightarrow> cb_value table"

definition with_version :: "cb_fields \<Rightarrow> int \<Rightarrow> CircuitBreakerStateRecord" where
  "with_version m v = cb_fields.extend m \<lparr>cb_version = v\<rparr>"

definition to_value :: "CircuitBreakerStateRecord \<Rightarrow> cb_value" where
  "to_value r = AnObject \<lparr>p_state = Some (state r), p_failures = Some (consecutiveFailures r),
     p_successes = Some (consecutiveSuccesses r), p_last = Some (lastStateChangeEpochMs r),
     p_version = Some (cb_version r)\<rparr>"

fun mutateState ::
  "nat \<Rightarrow> world \<Rightarrow> nat \<Rightarrow> breaker \<Rightarrow> (int \<Rightarrow> CircuitBreakerStateRecord \<Rightarrow> cb_fields option) \<Rightarrow>
   cb_value table \<Rightarrow> (CircuitBreakerStateRecord \<times> cb_value table) res option" where
  "mutateState 0 w n b mutator t = None"
| "mutateState (Suc fuel) w n b mutator t =
     (case getState b (read_time w n) t of
        Inl e \<Rightarrow> Some (Inl e)
      | Inr (current, t1) \<Rightarrow>
          (case mutator (now_time w n) current of
             None \<Rightarrow> Some (Inr (current, t1))
           | Some m \<Rightarrow>
               let nextRecord = with_version m (cb_version current + 1) in
               (case commit (interfere w n t1) (commit_time w n)
                       (b_set (circuitKey b) (to_value nextRecord)
                         (b_check (circuitKey b) (cb_version current) atomic)) of
                  Inl e \<Rightarrow> Some (Inl e)
                | Inr (r, t2) \<Rightarrow>
                    if commit_ok r
                    then Some (Inr (nextRecord\<lparr>cb_version := or_default (commit_version r) (cb_version nextRecord)\<rparr>, t2))
                    else mutateState fuel w (Suc n) b mutator t2)))"

section \<open>The mutators\<close>

definition success_mutator ::
  "breaker \<Rightarrow> CircuitState \<Rightarrow> int \<Rightarrow> CircuitBreakerStateRecord \<Rightarrow> cb_fields option" where
  "success_mutator b stateBeforeOp now latest =
     (if state latest = HalfOpen \<or> stateBeforeOp = Open \<or> stateBeforeOp = HalfOpen
      then let currentSuccesses = (if state latest = HalfOpen then consecutiveSuccesses latest else 0);
               nextSuccesses = currentSuccesses + 1
           in if halfOpenSuccessThreshold b \<le> nextSuccesses
              then Some \<lparr>state = Closed, consecutiveFailures = 0, consecutiveSuccesses = 0,
                         lastStateChangeEpochMs = now\<rparr>
              else Some \<lparr>state = HalfOpen, consecutiveFailures = 0, consecutiveSuccesses = nextSuccesses,
                         lastStateChangeEpochMs =
                           (if state latest = HalfOpen then lastStateChangeEpochMs latest else now)\<rparr>
      else if state latest = Closed
      then if 0 < consecutiveFailures latest
           then Some \<lparr>state = Closed, consecutiveFailures = 0, consecutiveSuccesses = 0,
                      lastStateChangeEpochMs = lastStateChangeEpochMs latest\<rparr>
           else None
      else None)"

definition failure_mutator ::
  "breaker \<Rightarrow> CircuitState \<Rightarrow> int \<Rightarrow> CircuitBreakerStateRecord \<Rightarrow> cb_fields option" where
  "failure_mutator b stateBeforeOp now latest =
     (if state latest = HalfOpen \<or> stateBeforeOp = Open \<or> stateBeforeOp = HalfOpen
      then Some \<lparr>state = Open, consecutiveFailures = failureThreshold b, consecutiveSuccesses = 0,
                 lastStateChangeEpochMs = now\<rparr>
      else if state latest = Open then None
      else let nextFailures = consecutiveFailures latest + 1 in
           if failureThreshold b \<le> nextFailures
           then Some \<lparr>state = Open, consecutiveFailures = nextFailures, consecutiveSuccesses = 0,
                      lastStateChangeEpochMs = now\<rparr>
           else Some \<lparr>state = Closed, consecutiveFailures = nextFailures, consecutiveSuccesses = 0,
                      lastStateChangeEpochMs = lastStateChangeEpochMs latest\<rparr>)"

definition recordSuccess ::
  "nat \<Rightarrow> world \<Rightarrow> nat \<Rightarrow> breaker \<Rightarrow> CircuitState \<Rightarrow> cb_value table \<Rightarrow>
   (CircuitBreakerStateRecord \<times> cb_value table) res option" where
  "recordSuccess fuel w n b before t = mutateState fuel w n b (success_mutator b before) t"

definition recordFailure ::
  "nat \<Rightarrow> world \<Rightarrow> nat \<Rightarrow> breaker \<Rightarrow> CircuitState \<Rightarrow> cb_value table \<Rightarrow>
   (CircuitBreakerStateRecord \<times> cb_value table) res option" where
  "recordFailure fuel w n b before t = mutateState fuel w n b (failure_mutator b before) t"

definition reset_mutator :: "int \<Rightarrow> CircuitBreakerStateRecord \<Rightarrow> cb_fields option" where
  "reset_mutator now latest = Some \<lparr>state = Closed, consecutiveFailures = 0, consecutiveSuccesses = 0,
     lastStateChangeEpochMs = now\<rparr>"

definition cb_reset ::
  "nat \<Rightarrow> world \<Rightarrow> breaker \<Rightarrow> cb_value table \<Rightarrow> (CircuitBreakerStateRecord \<times> cb_value table) res option" where
  "cb_reset fuel w b t = mutateState fuel w 0 b reset_mutator t"

text \<open>
  \<open>execute\<close>: round 0 is the initial read, \<open>interfere w 0\<close> what happens while the operation runs,
  the rounds of the recording loop follow. The result says whether the operation was called and
  what the caller gets; an error while recording a success is itself recorded as a failure.
\<close>

record 'a exec_result =
  invoked :: bool
  outcome :: "'a res"
  table_after :: "cb_value table"

definition finish_failure ::
  "nat \<Rightarrow> world \<Rightarrow> breaker \<Rightarrow> CircuitState \<Rightarrow> exn \<Rightarrow> cb_value table \<Rightarrow> 'a exec_result option" where
  "finish_failure fuel w b before err t =
     (case recordFailure fuel w 1 b before t of
        None \<Rightarrow> None
      | Some (Inl e) \<Rightarrow> Some \<lparr>invoked = True, outcome = Inl e, table_after = t\<rparr>
      | Some (Inr (_, t')) \<Rightarrow> Some \<lparr>invoked = True, outcome = Inl err, table_after = t'\<rparr>)"

definition execute ::
  "nat \<Rightarrow> world \<Rightarrow> breaker \<Rightarrow> 'a res \<Rightarrow> cb_value table \<Rightarrow> 'a exec_result option" where
  "execute fuel w b operation t =
     (case getState b (read_time w 0) t of
        Inl e \<Rightarrow> Some \<lparr>invoked = False, outcome = Inl e, table_after = t\<rparr>
      | Inr (current, t1) \<Rightarrow>
          if state current = Open \<and> now_time w 0 - lastStateChangeEpochMs current < cooldownMs b
          then Some \<lparr>invoked = False, outcome = Inl (throw_rf UNAVAILABLE
                 ''Circuit breaker is Open: downstream service unavailable''), table_after = t1\<rparr>
          else let t2 = interfere w 0 t1 in
               (case operation of
                  Inr x \<Rightarrow>
                    (case recordSuccess fuel w 1 b (state current) t2 of
                       None \<Rightarrow> None
                     | Some (Inl e) \<Rightarrow> finish_failure fuel w b (state current) e t2
                     | Some (Inr (_, t3)) \<Rightarrow> Some \<lparr>invoked = True, outcome = Inr x, table_after = t3\<rparr>)
                | Inl err \<Rightarrow> finish_failure fuel w b (state current) err t2))"

section \<open>The abstract breaker\<close>

text \<open>
  What the breaker promises when nothing else touches its entry: a closed circuit counts
  consecutive failures, an open one remembers since when, a half-open one counts consecutive
  successes. The step returns the next state and whether the operation was called.
\<close>

datatype spec_state = SClosed int | SOpen int | SHalfOpen int

definition spec_probe_ok :: "breaker \<Rightarrow> int \<Rightarrow> spec_state" where
  "spec_probe_ok b k = (if halfOpenSuccessThreshold b \<le> k + 1 then SClosed 0 else SHalfOpen (k + 1))"

fun spec_execute :: "breaker \<Rightarrow> int \<Rightarrow> bool \<Rightarrow> spec_state \<Rightarrow> spec_state \<times> bool" where
  "spec_execute b now ok (SClosed f) =
     (if ok then SClosed 0 else if failureThreshold b \<le> f + 1 then SOpen now else SClosed (f + 1), True)"
| "spec_execute b now ok (SOpen since) =
     (if now - since < cooldownMs b then (SOpen since, False)
      else (if ok then spec_probe_ok b 0 else SOpen now, True))"
| "spec_execute b now ok (SHalfOpen k) = (if ok then spec_probe_ok b k else SOpen now, True)"

definition abs_state :: "CircuitBreakerStateRecord \<Rightarrow> spec_state" where
  "abs_state r = (case state r of
      Closed \<Rightarrow> SClosed (consecutiveFailures r)
    | Open \<Rightarrow> SOpen (lastStateChangeEpochMs r)
    | HalfOpen \<Rightarrow> SHalfOpen (consecutiveSuccesses r))"

definition quiet :: "int \<Rightarrow> world" where
  "quiet now = \<lparr>read_time = (\<lambda>_. now), now_time = (\<lambda>_. now), commit_time = (\<lambda>_. now), interfere = (\<lambda>_ t. t)\<rparr>"

text \<open>A sequence of calls, one after the other, each with its time and its operation's outcome.\<close>

fun run_calls :: "breaker \<Rightarrow> (int \<times> 'a res) list \<Rightarrow> cb_value table \<Rightarrow> cb_value table option" where
  "run_calls b [] t = Some t"
| "run_calls b ((now, operation) # cs) t =
     (case execute 1 (quiet now) b operation t of
        None \<Rightarrow> None
      | Some res \<Rightarrow> run_calls b cs (table_after res))"

section \<open>Atomicity of the loop\<close>

text \<open>The breaker's state as the table holds it.\<close>

definition state_of :: "breaker \<Rightarrow> cb_value table \<Rightarrow> CircuitBreakerStateRecord" where
  "state_of b t = parse_record (map_option value_json (oget t (encodeKeyPath (circuitKey b))))"

text \<open>The entry was written by breakers only: it does not expire and carries its row's version.\<close>

definition row_agrees :: "breaker \<Rightarrow> cb_value table \<Rightarrow> bool" where
  "row_agrees b t =
     (table_ok t \<and>
      (case oget t (encodeKeyPath (circuitKey b)) of
         None \<Rightarrow> True
       | Some r \<Rightarrow> expires_at r = None \<and> cb_version (parse_record (Some (value_json r))) = version r))"

text \<open>
  The steps of other clients: a commit attempt of another breaker on the same key, with whatever
  version it read before, and any change that leaves this entry alone.
\<close>

inductive other_step :: "breaker \<Rightarrow> cb_value table \<Rightarrow> cb_value table \<Rightarrow> bool" for b where
  other_commit: "commit t now (b_set (circuitKey b) (to_value (with_version m (e + 1)))
      (b_check (circuitKey b) e atomic)) = Inr (r, t') \<Longrightarrow> other_step b t t'"
| other_frame: "table_ok t' \<Longrightarrow> oget t' (encodeKeyPath (circuitKey b)) = oget t (encodeKeyPath (circuitKey b))
      \<Longrightarrow> other_step b t t'"

abbreviation others :: "breaker \<Rightarrow> cb_value table \<Rightarrow> cb_value table \<Rightarrow> bool" where
  "others b \<equiv> (other_step b)\<^sup>*\<^sup>*"

lemma with_version_simps [simp]:
  "state (with_version m v) = state m"
  "consecutiveFailures (with_version m v) = consecutiveFailures m"
  "consecutiveSuccesses (with_version m v) = consecutiveSuccesses m"
  "lastStateChangeEpochMs (with_version m v) = lastStateChangeEpochMs m"
  "cb_version (with_version m v) = v"
  "with_version m v\<lparr>cb_version := u\<rparr> = with_version m u"
  by (simp_all add: with_version_def cb_fields.extend_def)

lemma parse_to_value [simp]: "parse_record (Some (to_value r)) = r"
  by (simp add: parse_record_def to_value_def or_default_def)

lemma parse_record_None [simp]: "parse_record None = initial_record"
  by (simp add: parse_record_def)

lemma row_agrees_version:
  assumes "row_agrees b t"
  shows "current_version t now (circuitKey b) = cb_version (state_of b t)"
  using assms by (auto simp: row_agrees_def state_of_def current_version_def live_row_def expired_def
      initial_record_def split: option.splits)

lemma getState_quiet:
  assumes "row_agrees b t" "kv_valid (circuitKey b)"
  shows "getState b now t = Inr (state_of b t, t)"
  using assms by (auto simp: getState_def kv_get_def kv_valid_def row_agrees_def state_of_def expired_def
      split: option.splits)

lemma oget_commit_result:
  assumes "row_agrees b t"
  shows "oget (upsert (circuitKey b) v None (purge now t)) (encodeKeyPath (circuitKey b)) =
     Some \<lparr>key_json = circuitKey b, value_json = v, version = cb_version (state_of b t) + 1, expires_at = None\<rparr>"
proof -
  have "owf t" "\<And>r. oget t (encodeKeyPath (circuitKey b)) = Some r \<Longrightarrow> key_json r = circuitKey b"
    using assms unfolding row_agrees_def table_ok_def by (blast, metis encodeKeyPath_inj)
  then show ?thesis using assms
    by (auto simp: oget_upsert oget_purge row_agrees_def state_of_def expired_def initial_record_def
        split: option.splits intro!: kv_row.equality)
qed

lemma commit_state:
  assumes "row_agrees b t"
    and "t' = upsert (circuitKey b) (to_value (with_version m (cb_version (state_of b t) + 1))) None (purge now t)"
  shows "state_of b t' = with_version m (cb_version (state_of b t) + 1)" "row_agrees b t'"
  using assms oget_commit_result[OF assms(1)]
  by (auto simp: state_of_def row_agrees_def table_ok_upsert table_ok_purge)

lemma other_step_effect:
  assumes "other_step b t t'" "row_agrees b t" "kv_valid (circuitKey b)"
  shows "row_agrees b t' \<and>
    (state_of b t' = state_of b t \<or> cb_version (state_of b t) < cb_version (state_of b t'))"
  using assms(1)
proof cases
  case (other_commit now m e r)
  have tok: "table_ok t" using assms(2) by (simp add: row_agrees_def)
  show ?thesis
  proof (cases "cb_version (state_of b t) = e")
    case True
    then have "t' = upsert (circuitKey b) (to_value (with_version m (e + 1))) None (purge now t)"
      using other_commit commit_cas[OF tok assms(3)] row_agrees_version[OF assms(2)] by auto
    then show ?thesis using commit_state[OF assms(2)] True by auto
  next
    case False
    then show ?thesis
      using other_commit commit_cas[OF tok assms(3)] row_agrees_version[OF assms(2)] assms(2) by auto
  qed
next
  case other_frame
  then show ?thesis using assms(2) by (auto simp: row_agrees_def state_of_def)
qed

lemma others_effect:
  assumes "others b t t'" "row_agrees b t" "kv_valid (circuitKey b)"
  shows "row_agrees b t' \<and>
    (state_of b t' = state_of b t \<or> cb_version (state_of b t) < cb_version (state_of b t'))"
  using assms(1)
proof (induction rule: rtranclp_induct)
  case base
  then show ?case using assms(2) by simp
next
  case (step y z)
  then show ?case using other_step_effect[OF step.hyps(2) _ assms(3)] by force
qed

text \<open>One round, when the entry is in order.\<close>

lemma mutateState_round:
  assumes "row_agrees b t" "kv_valid (circuitKey b)" "others b t (interfere w n t)"
  shows "mutateState (Suc fuel) w n b mutator t =
     (case mutator (now_time w n) (state_of b t) of
        None \<Rightarrow> Some (Inr (state_of b t, t))
      | Some m \<Rightarrow>
          let v = cb_version (state_of b t); t1 = interfere w n t in
          if cb_version (state_of b t1) = v
          then Some (Inr (with_version m (v + 1), upsert (circuitKey b) (to_value (with_version m (v + 1)))
                 None (purge (commit_time w n) t1)))
          else mutateState fuel w (Suc n) b mutator t1)"
proof -
  have a: "row_agrees b (interfere w n t)" using others_effect[OF assms(3,1,2)] by simp
  then have "table_ok (interfere w n t)" by (simp add: row_agrees_def)
  from commit_cas[OF this assms(2)] row_agrees_version[OF a]
  show ?thesis by (auto simp: getState_quiet[OF assms(1,2)] Let_def or_default_def split: option.split)
qed



definition demo_breaker :: breaker where
  "demo_breaker = createCircuitBreaker [''breaker'', ''db'']
     \<lparr>opt_failureThreshold = Some 2, opt_cooldownMs = None, opt_halfOpenSuccessThreshold = None\<rparr>"

text \<open>A rival breaker commits its own record in the first round; the later rounds are quiet.\<close>

definition rival_fields :: cb_fields where
  "rival_fields = \<lparr>state = Closed, consecutiveFailures = 1, consecutiveSuccesses = 0, lastStateChangeEpochMs = 0\<rparr>"

definition rival_commit :: "cb_value table \<Rightarrow> cb_value table" where
  "rival_commit t = (case commit t 10 (b_set [''breaker'', ''db''] (to_value (with_version rival_fields (0 + 1)))
      (b_check [''breaker'', ''db''] 0 atomic)) of Inl _ \<Rightarrow> t | Inr (_, t') \<Rightarrow> t')"

definition rival_world :: world where
  "rival_world = (quiet 10)\<lparr>interfere := (\<lambda>n t. if n = 0 then rival_commit t else t)\<rparr>"

lemma demo_valid: "kv_valid (circuitKey demo_breaker)"
  unfolding kv_valid_def by code_simp

lemma demo_agrees: "row_agrees demo_breaker []"
  by (simp add: row_agrees_def table_ok_Nil)

lemma rival_others: "others demo_breaker t (interfere rival_world n t)"
proof (cases "n = 0")
  case True
  have k: "circuitKey demo_breaker = [''breaker'', ''db'']" by (simp add: demo_breaker_def createCircuitBreaker_def)
  show ?thesis
  proof (cases "commit t 10 (b_set [''breaker'', ''db''] (to_value (with_version rival_fields (0 + 1)))
      (b_check [''breaker'', ''db''] 0 atomic))")
    case (Inl e)
    then show ?thesis using True by (simp add: rival_world_def rival_commit_def)
  next
    case (Inr x)
    obtain r t' where x: "x = (r, t')" by (cases x)
    have "other_step demo_breaker t t'"
      using Inr x by (intro other_commit[of t 10 demo_breaker rival_fields 0 r]) (simp add: k)
    then show ?thesis using True Inr x by (simp add: rival_world_def rival_commit_def)
  qed
qed (simp add: rival_world_def)



section \<open>An entry not written by a breaker\<close>

text \<open>
  If the entry holds a value whose own version field is not the row's version (a value
  another program stored, or one without a numeric version), every commit attempt fails its check
  and is repeated: a recording or a reset never returns, however many rounds it is given.
\<close>

theorem foreign_entry_never_returns:
  assumes "table_ok t" "kv_valid (circuitKey b)" "oget t (encodeKeyPath (circuitKey b)) = Some r"
    and "expires_at r = None" "cb_version (parse_record (Some (value_json r))) \<noteq> version r"
    and "\<And>n. interfere w n t = t" "\<And>now st. mutator now st \<noteq> None"
  shows "mutateState fuel w n b mutator t = None"
proof (induction fuel arbitrary: n)
  case (Suc fuel)
  define cur where "cur = parse_record (Some (value_json r))"
  have g: "getState b (read_time w n) t = Inr (cur, t)"
    using assms(2-4) by (simp add: getState_def kv_get_def kv_valid_def expired_def cur_def)
  have "current_version t now (circuitKey b) = version r" for now
    using assms(3,4) by (simp add: current_version_def live_row_def expired_def)
  then have "current_version t now (circuitKey b) \<noteq> cb_version cur" for now
    using assms(5) by (simp add: cur_def)
  then show ?case using g commit_cas[OF assms(1,2)] assms(6) assms(7)[of "now_time w n" cur] Suc.IH
    by (auto simp: Let_def split: option.split)
qed simp

lemma foreign_entry_never_returns_witness:
  "\<forall>fuel. cb_reset fuel (quiet 0) demo_breaker (upsert [''breaker'', ''db''] NotAnObject None []) = None"
proof
  fix fuel
  let ?t = "upsert [''breaker'', ''db''] NotAnObject None []"
  have "table_ok ?t" by (intro table_ok_upsert table_ok_Nil)
  then show "cb_reset fuel (quiet 0) demo_breaker ?t = None"
    unfolding cb_reset_def
    by (rule foreign_entry_never_returns[OF _ demo_valid])
      (auto simp: oget_upsert demo_breaker_def createCircuitBreaker_def parse_record_def initial_record_def
        quiet_def reset_mutator_def)
qed

section \<open>The sequential breaker\<close>

definition counts_ok :: "CircuitBreakerStateRecord \<Rightarrow> bool" where
  "counts_ok r = (state r = Closed \<longrightarrow> 0 \<le> consecutiveFailures r)"

definition next_state :: "(int \<Rightarrow> CircuitBreakerStateRecord \<Rightarrow> cb_fields option) \<Rightarrow> int \<Rightarrow>
    CircuitBreakerStateRecord \<Rightarrow> CircuitBreakerStateRecord" where
  "next_state mutator now st =
     (case mutator now st of None \<Rightarrow> st | Some m \<Rightarrow> with_version m (cb_version st + 1))"

lemma mutateState_quiet:
  assumes "row_agrees b t" "kv_valid (circuitKey b)"
  shows "\<exists>t'. mutateState (Suc fuel) (quiet now) n b mutator t =
      Some (Inr (next_state mutator now (state_of b t), t')) \<and>
    state_of b t' = next_state mutator now (state_of b t) \<and> row_agrees b t'"
proof -
  have q: "others b t (interfere (quiet now) n t)" by (simp add: quiet_def)
  show ?thesis
    using mutateState_round[OF assms q, of fuel mutator] commit_state[OF assms(1) refl, of _ now] assms(1)
    by (auto simp: next_state_def quiet_def Let_def split: option.splits)
qed

lemma success_step:
  assumes "counts_ok st" "before = state st"
  shows "abs_state (next_state (success_mutator b before) now st) =
      (case abs_state st of SClosed f \<Rightarrow> SClosed 0 | SOpen _ \<Rightarrow> spec_probe_ok b 0 | SHalfOpen k \<Rightarrow> spec_probe_ok b k)"
    and "counts_ok (next_state (success_mutator b before) now st)"
  using assms by (cases "state st"; auto simp: next_state_def success_mutator_def Let_def abs_state_def
      counts_ok_def spec_probe_ok_def)+

lemma failure_step:
  assumes "counts_ok st" "before = state st"
  shows "abs_state (next_state (failure_mutator b before) now st) =
      (case abs_state st of
         SClosed f \<Rightarrow> if failureThreshold b \<le> f + 1 then SOpen now else SClosed (f + 1)
       | _ \<Rightarrow> SOpen now)"
    and "counts_ok (next_state (failure_mutator b before) now st)"
  using assms by (cases "state st"; auto simp: next_state_def failure_mutator_def Let_def abs_state_def
      counts_ok_def)+

lemma execute_quiet:
  assumes "row_agrees b t" "kv_valid (circuitKey b)" "counts_ok (state_of b t)"
  shows "\<exists>res. execute (Suc fuel) (quiet now) b operation t = Some res \<and>
    row_agrees b (table_after res) \<and> counts_ok (state_of b (table_after res)) \<and>
    spec_execute b now (\<not> isl operation) (abs_state (state_of b t)) =
      (abs_state (state_of b (table_after res)), invoked res) \<and>
    outcome res = (if invoked res then operation else
      Inl (throw_rf UNAVAILABLE ''Circuit breaker is Open: downstream service unavailable''))"
proof (cases "state (state_of b t) = Open \<and> now - lastStateChangeEpochMs (state_of b t) < cooldownMs b")
  case True
  then show ?thesis using assms getState_quiet[OF assms(1,2), of now]
    by (simp add: execute_def quiet_def abs_state_def)
next
  case False
  note g = getState_quiet[OF assms(1,2), of now]
  let ?st = "state_of b t"
  show ?thesis
  proof (cases operation)
    case (Inr x)
    obtain t' where t': "recordSuccess (Suc fuel) (quiet now) 1 b (state ?st) t =
        Some (Inr (next_state (success_mutator b (state ?st)) now ?st, t'))"
      "state_of b t' = next_state (success_mutator b (state ?st)) now ?st" "row_agrees b t'"
      using mutateState_quiet[OF assms(1,2)] unfolding recordSuccess_def by blast
    have "execute (Suc fuel) (quiet now) b operation t =
        Some \<lparr>invoked = True, outcome = operation, table_after = t'\<rparr>"
      using False g Inr t'(1) by (auto simp: execute_def quiet_def)
    moreover have "spec_execute b now True (abs_state ?st) = (abs_state (state_of b t'), True)"
      unfolding t'(2) success_step(1)[OF assms(3) refl]
      using False by (cases "state ?st") (auto simp: abs_state_def)
    ultimately show ?thesis using Inr t'(2,3) success_step(2)[OF assms(3) refl] by simp
  next
    case (Inl e)
    obtain t' where t': "recordFailure (Suc fuel) (quiet now) 1 b (state ?st) t =
        Some (Inr (next_state (failure_mutator b (state ?st)) now ?st, t'))"
      "state_of b t' = next_state (failure_mutator b (state ?st)) now ?st" "row_agrees b t'"
      using mutateState_quiet[OF assms(1,2)] unfolding recordFailure_def by blast
    have "execute (Suc fuel) (quiet now) b operation t =
        Some \<lparr>invoked = True, outcome = operation, table_after = t'\<rparr>"
      using False g Inl t'(1) by (auto simp: execute_def finish_failure_def quiet_def)
    moreover have "spec_execute b now False (abs_state ?st) = (abs_state (state_of b t'), True)"
      unfolding t'(2) failure_step(1)[OF assms(3) refl]
      using False by (cases "state ?st") (auto simp: abs_state_def)
    ultimately show ?thesis using Inl t'(2,3) failure_step(2)[OF assms(3) refl] by simp
  qed
qed

text \<open>
  C18: A call of \<open>execute\<close> with no interference returns and refines one step of the abstract
  three-state breaker: the stored state moves as the abstract one does, the operation is called
  exactly when the abstract breaker admits it, and the caller gets the operation's own outcome, or
  the UNAVAILABLE error without a call while the cool-down of an open circuit runs.
\<close>

theorem execute_refines:
  assumes "row_agrees b t" "kv_valid (circuitKey b)" "counts_ok (state_of b t)"
  shows "\<exists>res. execute (Suc fuel) (quiet now) b operation t = Some res \<and>
    row_agrees b (table_after res) \<and> counts_ok (state_of b (table_after res)) \<and>
    spec_execute b now (\<not> isl operation) (abs_state (state_of b t)) =
      (abs_state (state_of b (table_after res)), invoked res) \<and>
    outcome res = (if invoked res then operation else
      Inl (throw_rf UNAVAILABLE ''Circuit breaker is Open: downstream service unavailable''))"
  using assms by (rule execute_quiet)

lemma demo_counts: "counts_ok (state_of demo_breaker [])"
  by (simp add: counts_ok_def state_of_def initial_record_def)

lemma execute_refines_witness:
  "\<exists>res. execute 1 (quiet 7) demo_breaker (Inl (PlainError ''down'') :: int res) [] = Some res \<and>
     abs_state (state_of demo_breaker (table_after res)) = SClosed 1 \<and> invoked res"
proof -
  have "spec_execute demo_breaker 7 False (abs_state (state_of demo_breaker [])) = (SClosed 1, True)" by code_simp
  then show ?thesis
    using execute_refines[OF demo_agrees demo_valid demo_counts, of 0 7 "Inl (PlainError ''down'') :: int res"] by auto
qed

lemma run_failures:
  assumes "row_agrees b t" "kv_valid (circuitKey b)" "counts_ok (state_of b t)"
    and "abs_state (state_of b t) = SClosed f" "f + int (length cs) \<le> failureThreshold b"
    and "\<forall>(now, operation) \<in> set cs. isl operation"
  shows "\<exists>t'. run_calls b cs t = Some t' \<and> row_agrees b t' \<and> counts_ok (state_of b t') \<and>
    abs_state (state_of b t') =
      (if f + int (length cs) < failureThreshold b \<or> cs = [] then SClosed (f + int (length cs)) else SOpen (fst (last cs)))"
  using assms
proof (induction cs arbitrary: t f)
  case (Cons c cs)
  obtain now operation where c: "c = (now, operation)" by (cases c)
  obtain res where res: "execute 1 (quiet now) b operation t = Some res"
    "row_agrees b (table_after res)" "counts_ok (state_of b (table_after res))"
    "spec_execute b now False (SClosed f) = (abs_state (state_of b (table_after res)), invoked res)"
    using execute_quiet[OF Cons.prems(1-3), of 0 now operation] Cons.prems(4,6) c by auto
  show ?case
  proof (cases cs)
    case Nil
    then show ?thesis using res c Cons.prems(5) by (auto split: if_splits)
  next
    case (Cons d ds)
    then have "abs_state (state_of b (table_after res)) = SClosed (f + 1)"
      using res(4) Cons.prems(5) by (auto split: if_splits)
    from Cons.IH[OF res(2) Cons.prems(2) res(3) this] Cons.prems(5,6)
    show ?thesis using res(1) c Cons by (auto simp: algebra_simps split: if_splits)
  qed
qed auto

text \<open>
  From a closed circuit without failures, a run of failing calls leaves the circuit closed
  with that many failures as long as there are fewer than the threshold, and the threshold-th
  failure opens it; the next call within the cool-down fails with UNAVAILABLE, does not reach the
  operation and leaves the circuit as it is.
\<close>

theorem breaker_trips:
  assumes "row_agrees b t" "kv_valid (circuitKey b)" "abs_state (state_of b t) = SClosed 0"
    and "0 < failureThreshold b" "int (length cs) \<le> failureThreshold b"
    and "\<forall>(now, operation) \<in> set cs. isl operation"
  shows "\<exists>t'. run_calls b cs t = Some t' \<and>
    (int (length cs) < failureThreshold b \<longrightarrow> abs_state (state_of b t') = SClosed (int (length cs))) \<and>
    (int (length cs) = failureThreshold b \<longrightarrow>
       abs_state (state_of b t') = SOpen (fst (last cs)) \<and>
       (\<forall>later operation. later - fst (last cs) < cooldownMs b \<longrightarrow>
          (\<exists>res. execute 1 (quiet later) b operation t' = Some res \<and> \<not> invoked res \<and>
             outcome res = Inl (throw_rf UNAVAILABLE ''Circuit breaker is Open: downstream service unavailable'') \<and>
             abs_state (state_of b (table_after res)) = SOpen (fst (last cs)))))"
proof -
  have "counts_ok (state_of b t)" using assms(3) by (auto simp: counts_ok_def abs_state_def)
  then obtain t' where t': "run_calls b cs t = Some t'" "row_agrees b t'" "counts_ok (state_of b t')"
    "abs_state (state_of b t') =
      (if int (length cs) < failureThreshold b \<or> cs = [] then SClosed (int (length cs)) else SOpen (fst (last cs)))"
    using run_failures[OF assms(1,2) _ assms(3), of cs] assms(5,6) by auto
  moreover have "int (length cs) = failureThreshold b \<Longrightarrow> cs \<noteq> []" using assms(4) by auto
  moreover have "\<exists>res. execute 1 (quiet later) b operation t' = Some res \<and> \<not> invoked res \<and>
      outcome res = Inl (throw_rf UNAVAILABLE ''Circuit breaker is Open: downstream service unavailable'') \<and>
      abs_state (state_of b (table_after res)) = SOpen since"
    if "abs_state (state_of b t') = SOpen since" "later - since < cooldownMs b" for later since and operation :: "'b res"
    using execute_quiet[OF t'(2) assms(2) t'(3), of 0 later operation] that by auto
  ultimately show ?thesis by auto
qed

lemma breaker_trips_witness:
  "\<exists>t'. run_calls demo_breaker [(5, Inl (PlainError ''x'') :: int res), (9, Inl (PlainError ''y''))] [] = Some t' \<and>
     abs_state (state_of demo_breaker t') = SOpen 9"
proof -
  have a: "abs_state (state_of demo_breaker []) = SClosed 0" "failureThreshold demo_breaker = 2" by code_simp+
  show ?thesis
    using breaker_trips[OF demo_agrees demo_valid a(1),
        of "[(5, Inl (PlainError ''x'') :: int res), (9, Inl (PlainError ''y''))]"] a(2) by auto
qed

text \<open>
  A probe that was admitted while the circuit was open or half-open and that finishes after
  the circuit has closed again does not leave it closed: its success moves the closed circuit back
  to half-open (when more than one success is required), its failure opens it, whatever the
  failure count.
\<close>

theorem late_probe_disturbs_closed_circuit:
  assumes "row_agrees b t" "kv_valid (circuitKey b)" "state (state_of b t) = Closed"
    and "before = Open \<or> before = HalfOpen"
  shows "(1 < halfOpenSuccessThreshold b \<longrightarrow>
      (\<exists>r t'. recordSuccess (Suc fuel) (quiet now) n b before t = Some (Inr (r, t')) \<and>
        abs_state (state_of b t') = SHalfOpen 1)) \<and>
    (\<exists>r t'. recordFailure (Suc fuel) (quiet now) n b before t = Some (Inr (r, t')) \<and>
        abs_state (state_of b t') = SOpen now)"
proof -
  have "1 < halfOpenSuccessThreshold b \<Longrightarrow>
      abs_state (next_state (success_mutator b before) now (state_of b t)) = SHalfOpen 1"
    using assms(3,4) by (auto simp: next_state_def success_mutator_def abs_state_def)
  moreover have "abs_state (next_state (failure_mutator b before) now (state_of b t)) = SOpen now"
    using assms(3,4) by (auto simp: next_state_def failure_mutator_def abs_state_def)
  ultimately show ?thesis
    using mutateState_quiet[OF assms(1,2), of fuel now n "success_mutator b before"]
      mutateState_quiet[OF assms(1,2), of fuel now n "failure_mutator b before"]
    unfolding recordSuccess_def recordFailure_def by metis
qed

lemma late_probe_disturbs_closed_circuit_witness:
  "\<exists>r t'. recordSuccess 1 (quiet 3) 1 demo_breaker Open [] = Some (Inr (r, t')) \<and>
     abs_state (state_of demo_breaker t') = SHalfOpen 1"
proof -
  have "state (state_of demo_breaker []) = Closed" "1 < halfOpenSuccessThreshold demo_breaker" by code_simp+
  then show ?thesis
    using late_probe_disturbs_closed_circuit[OF demo_agrees demo_valid, of Open 0 3 1] by simp
qed

end
