(* ===== verification/KvScope.thy ===== *)
theory KvScope
  imports KvStore
begin

text \<open>
  The operations of the KV provider interface (\<open>primitives/kv/kv-provider.ts\<close>) as data, and the
  provider of \<open>KvStore\<close> performing them, so that the wrappers around a provider (the tenant guard and
  the capability bindings) can be stated as translations of operations. The locale \<open>scoped_kv\<close> is
  the contract both wrappers promise: what a client does through them stays within its keys.
\<close>

datatype ('k, 'v) atom_op = ACheck 'k int | ASet 'k 'v | ADelete 'k

datatype ('k, 'v) kv_op =
    OpGet 'k
  | OpSet 'k 'v "int option"
  | OpDelete 'k
  | OpList 'k "int option" "string option"
  | OpAtomic "('k, 'v) atom_op list"

datatype 'v reply =
    RValue "'v option"
  | RUnit
  | RPage "(string list \<times> 'v) list" "string option"
  | RCommit commit_result

fun build :: "(string list, 'v) atom_op list \<Rightarrow> 'v builder \<Rightarrow> 'v builder" where
  "build [] b = b"
| "build (ACheck k e # as) b = build as (b_check k e b)"
| "build (ASet k v # as) b = build as (b_set k v b)"
| "build (ADelete k # as) b = build as (b_delete k b)"

fun kv_perform :: "int \<Rightarrow> (string list, 'v) kv_op \<Rightarrow> 'v table \<Rightarrow> ('v reply \<times> 'v table) res" where
  "kv_perform now (OpGet k) t = bind_res (kv_get t now k) (\<lambda>(v, t'). Inr (RValue v, t'))"
| "kv_perform now (OpSet k v ttl) t = bind_res (kv_set t now k v ttl) (\<lambda>t'. Inr (RUnit, t'))"
| "kv_perform now (OpDelete k) t = bind_res (kv_delete t k) (\<lambda>t'. Inr (RUnit, t'))"
| "kv_perform now (OpList p limit cursor) t =
     (case kv_list t now p limit cursor of (items, c) \<Rightarrow> Inr (RPage items c, t))"
| "kv_perform now (OpAtomic as) t =
     bind_res (commit t now (build as atomic)) (\<lambda>(r, t'). Inr (RCommit r, t'))"

text \<open>A session: operations one after the other, a refused one leaving the table as it was.\<close>

fun run_session ::
  "(int \<Rightarrow> 'op \<Rightarrow> 'v table \<Rightarrow> ('r \<times> 'v table) res) \<Rightarrow> (int \<times> 'op) list \<Rightarrow> 'v table \<Rightarrow> 'v table" where
  "run_session step [] t = t"
| "run_session step ((now, op) # xs) t =
     (case step now op t of Inl e \<Rightarrow> run_session step xs t | Inr (r, t') \<Rightarrow> run_session step xs t')"

section \<open>Operations on keys of a set\<close>

fun atom_key :: "('k, 'v) atom_op \<Rightarrow> 'k" where
  "atom_key (ACheck k e) = k"
| "atom_key (ASet k v) = k"
| "atom_key (ADelete k) = k"

fun op_keys :: "('k, 'v) kv_op \<Rightarrow> 'k set" where
  "op_keys (OpGet k) = {k}"
| "op_keys (OpSet k v ttl) = {k}"
| "op_keys (OpDelete k) = {k}"
| "op_keys (OpList p limit cursor) = {p}"
| "op_keys (OpAtomic as) = atom_key ` set as"

fun is_list :: "('k, 'v) kv_op \<Rightarrow> bool" where
  "is_list (OpList p limit cursor) = True"
| "is_list _ = False"

text \<open>Two tables agree on a set of keys when they hold the same rows for them.\<close>

definition agree :: "(string list \<Rightarrow> bool) \<Rightarrow> 'v table \<Rightarrow> 'v table \<Rightarrow> bool" where
  "agree scope t1 t2 = (\<forall>k. scope k \<longrightarrow> oget t1 (encodeKeyPath k) = oget t2 (encodeKeyPath k))"

text \<open>Nothing a reader at a later time sees of a key has changed.\<close>

definition untouched :: "string list \<Rightarrow> int \<Rightarrow> 'v table \<Rightarrow> 'v table \<Rightarrow> bool" where
  "untouched k now t t' = (\<forall>now' \<ge> now. live_row t' now' k = live_row t now' k)"

lemma build_checks: "set (checks (build as b)) = set (checks b) \<union> {(k, e). ACheck k e \<in> set as}"
  by (induction as b rule: build.induct) (auto simp: b_check_def b_set_def b_delete_def)

lemma build_mutations: "mut_key ` set (mutations (build as b)) \<subseteq> mut_key ` set (mutations b) \<union> atom_key ` set as"
  by (induction as b rule: build.induct) (auto simp: b_check_def b_set_def b_delete_def)

lemma untouched_refl [simp]: "untouched k now t t"
  by (simp add: untouched_def)

lemma untouched_trans: "untouched k now t t' \<Longrightarrow> untouched k now' t' t'' \<Longrightarrow> now \<le> now' \<Longrightarrow> untouched k now' t t''"
  by (auto simp: untouched_def)

lemma oget_apply_mutations_outside:
  "k \<notin> mut_key ` set ms \<Longrightarrow>
   oget (snd (apply_mutations ms hv t)) (encodeKeyPath k) = oget t (encodeKeyPath k)"
  by (induction ms hv t rule: apply_mutations.induct) (auto simp: Let_def oget_upsert)

lemma commit_outside:
  assumes "commit t now b = Inr (r, t')" "owf t" "k \<notin> mut_key ` set (mutations b)"
  shows "untouched k now t t'"
proof (cases "commit_ok r")
  case True
  then have "t' = snd (apply_mutations (mutations b) 0 (purge now t))" using commit_cases(3)[OF assms(1)] by simp
  then have "oget t' (encodeKeyPath k) = oget (purge now t) (encodeKeyPath k)"
    using oget_apply_mutations_outside[OF assms(3)] by simp
  then have "live_row t' now' k = live_row (purge now t) now' k" for now' by (simp add: live_row_def)
  then show ?thesis using live_row_purge[OF assms(2)] by (simp add: untouched_def)
next
  case False
  then show ?thesis using commit_cases(2)[OF assms(1)] by simp
qed

lemma table_ok_commit:
  assumes "commit t now b = Inr (r, t')" "table_ok t"
  shows "table_ok t'"
  using commit_cases(2,3)[OF assms(1)] assms(2)
  by (cases "commit_ok r") (simp_all add: table_ok_apply_mutations table_ok_purge)

lemma kv_get_outside:
  assumes "kv_get t now k' = Inr (v, t')"
  shows "untouched k now t t'"
  using assms expired_mono[of now]
  by (fastforce simp: kv_get_def untouched_def live_row_def res_simps split: option.splits if_splits)

lemma kv_perform_outside:
  assumes "kv_perform now op t = Inr (r, t')" "table_ok t" "k \<notin> op_keys op"
  shows "untouched k now t t'"
proof (cases op)
  case (OpGet x)
  then show ?thesis using assms kv_get_outside by (auto simp: res_simps split: prod.splits)
next
  case (OpSet x v ttl)
  then show ?thesis using assms
    by (auto simp: res_simps kv_set_def untouched_def live_row_def oget_upsert split: option.splits)
next
  case (OpDelete x)
  then show ?thesis using assms by (auto simp: res_simps kv_delete_def untouched_def live_row_odel)
next
  case (OpList p limit cursor)
  then show ?thesis using assms by (auto split: prod.splits)
next
  case (OpAtomic as)
  then have "k \<notin> mut_key ` set (mutations (build as atomic))"
    using assms(3) build_mutations[of as atomic] by (auto simp: atomic_def)
  then show ?thesis using OpAtomic assms(1,2) commit_outside
    by (fastforce simp: res_simps table_ok_def split: prod.splits)
qed

lemma kv_perform_ok:
  assumes "kv_perform now op t = Inr (r, t')" "table_ok t"
  shows "table_ok t'"
proof (cases op)
  case (OpGet x)
  then show ?thesis using assms
    by (auto simp: res_simps kv_get_def table_ok_odel split: prod.splits option.splits if_splits)
next
  case (OpAtomic as)
  then show ?thesis using assms table_ok_commit by (auto simp: res_simps split: prod.splits)
qed (use assms in \<open>auto simp: res_simps kv_set_def kv_delete_def table_ok_upsert table_ok_odel split: prod.splits\<close>)

section \<open>Replies depend on the operation's keys only\<close>

lemma agree_purge: "owf t1 \<Longrightarrow> owf t2 \<Longrightarrow> agree scope t1 t2 \<Longrightarrow> agree scope (purge now t1) (purge now t2)"
  by (auto simp: agree_def oget_purge)

lemma agree_apply_mutations:
  "agree scope t1 t2 \<Longrightarrow> \<forall>m \<in> set ms. scope (mut_key m) \<Longrightarrow>
   fst (apply_mutations ms hv t1) = fst (apply_mutations ms hv t2) \<and>
   agree scope (snd (apply_mutations ms hv t1)) (snd (apply_mutations ms hv t2))"
proof (induction ms arbitrary: hv t1 t2)
  case (Cons m ms)
  show ?case
  proof (cases m)
    case (MSet k v)
    have "agree scope (upsert k v None t1) (upsert k v None t2)"
      using Cons.prems by (auto simp: agree_def oget_upsert)
    then show ?thesis using Cons MSet by (auto simp: Let_def agree_def)
  next
    case (MDelete k)
    have "agree scope (odel (encodeKeyPath k) t1) (odel (encodeKeyPath k) t2)"
      using Cons.prems by (auto simp: agree_def)
    then show ?thesis using Cons MDelete by simp
  qed
qed simp

lemma commit_agree:
  assumes "agree scope t1 t2" "table_ok t1" "table_ok t2"
    and "\<forall>m \<in> set (mutations b). scope (mut_key m)" "\<forall>(k, e) \<in> set (checks b). scope k"
  shows "(\<exists>e. commit t1 now b = Inl e \<and> commit t2 now b = Inl e) \<or>
    (\<exists>r t1' t2'. commit t1 now b = Inr (r, t1') \<and> commit t2 now b = Inr (r, t2') \<and> agree scope t1' t2')"
proof (cases "each_res (\<lambda>m. validateKey (mut_key m)) (mutations b)")
  case (Inr u)
  have a: "agree scope (purge now t1) (purge now t2)"
    using assms(1-3) by (auto simp: table_ok_def intro: agree_purge)
  then have "checks_pass (purge now t1) now (checks b) = checks_pass (purge now t2) now (checks b)"
    using assms(5) by (fastforce simp: checks_pass_iff current_version_def live_row_def agree_def)
  then show ?thesis using Inr agree_apply_mutations[OF a assms(4), of 0] assms(1)
    by (auto simp: commit_def Let_def case_prod_beta)
qed (simp add: commit_def)

lemma kv_perform_agree:
  assumes "agree scope t1 t2" "table_ok t1" "table_ok t2" "\<forall>k \<in> op_keys op. scope k" "\<not> is_list op"
  shows "(\<exists>e. kv_perform now op t1 = Inl e \<and> kv_perform now op t2 = Inl e) \<or>
    (\<exists>r t1' t2'. kv_perform now op t1 = Inr (r, t1') \<and> kv_perform now op t2 = Inr (r, t2') \<and> agree scope t1' t2')"
proof (cases op)
  case (OpGet k)
  then have "oget t1 (encodeKeyPath k) = oget t2 (encodeKeyPath k)" using assms(1,4) by (simp add: agree_def)
  moreover have "agree scope (odel (encodeKeyPath k) t1) (odel (encodeKeyPath k) t2)"
    using assms(1) by (simp add: agree_def)
  ultimately show ?thesis using OpGet assms(1)
    by (cases "validateKey k") (auto simp: kv_get_def split: option.split)
next
  case (OpSet k v ttl)
  have "agree scope (upsert k v ex t1) (upsert k v ex t2)" for ex
    using assms(1,4) OpSet by (auto simp: agree_def oget_upsert)
  then show ?thesis using OpSet by (cases "validateKey k") (auto simp: kv_set_def)
next
  case (OpDelete k)
  have "agree scope (odel (encodeKeyPath k) t1) (odel (encodeKeyPath k) t2)"
    using assms(1) by (simp add: agree_def)
  then show ?thesis using OpDelete by (cases "validateKey k") (auto simp: kv_delete_def)
next
  case (OpList p limit cursor)
  then show ?thesis using assms(5) by simp
next
  case (OpAtomic as)
  have "\<forall>m \<in> set (mutations (build as atomic)). scope (mut_key m)"
    using build_mutations[of as atomic] assms(4) OpAtomic by (auto simp: atomic_def)
  moreover have "\<forall>(k, e) \<in> set (checks (build as atomic)). scope k"
    using build_checks[of as atomic] assms(4) OpAtomic by (force simp: atomic_def)
  ultimately show ?thesis using commit_agree[OF assms(1-3), of "build as atomic" now] OpAtomic by auto
qed

section \<open>The contract of a wrapper\<close>

text \<open>
  A wrapper gives a client a step function on tables. It promises that the client's steps touch
  only keys of the client's scope, keep the table well formed, and, but for listings, that their
  replies are determined by the rows of the scope.
\<close>

locale scoped_kv =
  fixes step :: "int \<Rightarrow> 'op \<Rightarrow> 'v table \<Rightarrow> ('r \<times> 'v table) res"
    and scope :: "string list \<Rightarrow> bool"
    and lists :: "'op \<Rightarrow> bool"
  assumes step_outside: "step now op t = Inr (r, t') \<Longrightarrow> table_ok t \<Longrightarrow> \<not> scope k \<Longrightarrow> untouched k now t t'"
    and step_ok: "step now op t = Inr (r, t') \<Longrightarrow> table_ok t \<Longrightarrow> table_ok t'"
    and step_local: "agree scope t1 t2 \<Longrightarrow> table_ok t1 \<Longrightarrow> table_ok t2 \<Longrightarrow> \<not> lists op \<Longrightarrow>
        (\<exists>e. step now op t1 = Inl e \<and> step now op t2 = Inl e) \<or>
        (\<exists>r t1' t2'. step now op t1 = Inr (r, t1') \<and> step now op t2 = Inr (r, t2') \<and> agree scope t1' t2')"
begin

lemma session_outside:
  assumes "table_ok t" "\<not> scope k" "sorted (map fst xs)" "\<forall>x \<in> set xs. fst x \<le> now"
  shows "live_row (run_session step xs t) now k = live_row t now k \<and> table_ok (run_session step xs t)"
  using assms
proof (induction xs arbitrary: t)
  case (Cons x xs)
  obtain tm op where x: "x = (tm, op)" by (cases x)
  show ?case
  proof (cases "step tm op t")
    case (Inl e)
    then show ?thesis using Cons x by simp
  next
    case (Inr y)
    obtain r t' where y: "y = (r, t')" by (cases y)
    then have "untouched k tm t t'" "table_ok t'"
      using Inr step_outside[of tm op t r t' k] step_ok[of tm op t r t'] Cons.prems by auto
    then have "live_row t' now k = live_row t now k" using Cons.prems(4) x by (simp add: untouched_def)
    then show ?thesis using Cons.IH[of t'] Cons.prems Inr y x \<open>table_ok t'\<close> by simp
  qed
qed simp

end

end
