(* ===== verification/TenantGuard.thy ===== *)
theory TenantGuard
  imports KvScope
begin

text \<open>
  \<open>providers/guard/tenant-guard.ts\<close>: the wrappers that check every key, object path and queue name
  against the tenant before the underlying provider sees it. Keys and names are dynamic values, as
  the code receives them.

  Shown: through a guarded KV provider a tenant neither changes nor, listings apart, observes any
  entry of another tenant; an accepted object key belongs to one tenant only and stays inside its
  directory; queue names do not separate tenants whose identifiers contain underscores.
\<close>

section \<open>Tenants\<close>

record tenant_context =
  orgId :: string
  projectId :: string

definition tg_invalid :: "string \<Rightarrow> bool" where
  "tg_invalid s = (s = ''.'' \<or> s = ''..'' \<or> str_includes s ''..'' \<or> str_includes s ''/'' \<or>
     str_includes s [char_of (92 :: nat)] \<or> str_includes s [char_of (0 :: nat)] \<or>
     str_includes (to_lower s) ''%2e%2e'')"

definition normalizeTenantContext :: "jsval \<Rightarrow> tenant_context res" where
  "normalizeTenantContext v =
     (if \<not> is_object v then Inl (throw_rf VALIDATION_FAILED ''Tenant context must be a non-null object'')
      else case (as_str (jget v ''orgId''), as_str (jget v ''projectId'')) of
        (Some org, Some proj) \<Rightarrow>
          if trim org = [] \<or> trim proj = []
          then Inl (throw_rf VALIDATION_FAILED ''Tenant orgId and projectId must not be empty or whitespace'')
          else if org \<noteq> trim org \<or> proj \<noteq> trim proj
          then Inl (throw_rf VALIDATION_FAILED
                 ''Tenant orgId and projectId must not contain leading or trailing whitespace'')
          else if tg_invalid org \<or> tg_invalid proj
          then Inl (throw_rf VALIDATION_FAILED
                 ''Tenant orgId and projectId must not contain path traversal, slashes, or null bytes'')
          else Inr \<lparr>orgId = org, projectId = proj\<rparr>
      | _ \<Rightarrow> Inl (throw_rf VALIDATION_FAILED ''Tenant orgId and projectId must both be strings''))"

section \<open>KV keys\<close>

definition assertValidSegment :: "string \<Rightarrow> unit res" where
  "assertValidSegment seg =
     (if seg = [] then Inl (throw_rf PERMISSION_DENIED ''Key segment must be a non-empty string'')
      else if tg_invalid seg
      then Inl (throw_rf PERMISSION_DENIED
             ''Key segment contains forbidden path traversal, delimiters, or control characters'')
      else Inr ())"

definition copy_segment :: "jsval \<Rightarrow> string res" where
  "copy_segment v =
     (case v of
        JStr s \<Rightarrow> if s = [] then Inl (throw_rf PERMISSION_DENIED ''Key segment must be a non-empty string'') else Inr s
      | _ \<Rightarrow> Inl (throw_rf PERMISSION_DENIED ''Key segment must be a non-empty string''))"

definition sanitize_with :: "string \<Rightarrow> string \<Rightarrow> jsval \<Rightarrow> tenant_context \<Rightarrow> string list res" where
  "sanitize_with shapeMsg denyMsg key tn =
     (case key of
        JArr segs \<Rightarrow>
          if length segs < 2 then Inl (throw_rf PERMISSION_DENIED shapeMsg)
          else bind_res (map_res copy_segment segs) (\<lambda>safe.
            if safe ! 0 \<noteq> orgId tn \<or> safe ! 1 \<noteq> projectId tn
            then Inl (throw_rf PERMISSION_DENIED
                   (denyMsg @ '' does not match tenant prefix ['' @ orgId tn @ '', '' @ projectId tn @ '']''))
            else bind_res (each_res assertValidSegment safe) (\<lambda>_. Inr safe))
      | _ \<Rightarrow> Inl (throw_rf PERMISSION_DENIED shapeMsg))"

definition sanitizeKvKey :: "jsval \<Rightarrow> tenant_context \<Rightarrow> string list res" where
  "sanitizeKvKey key tn =
     sanitize_with ''KV key must be an array containing at least [orgId, projectId, ...]''
       ''Cross-tenant KV access denied: key'' key tn"

definition sanitizeKvPrefix :: "jsval \<Rightarrow> tenant_context \<Rightarrow> string list res" where
  "sanitizeKvPrefix pre tn =
     sanitize_with ''KV list prefix must specify at least [orgId, projectId] to prevent cross-tenant scans''
       ''Cross-tenant KV list denied: prefix'' pre tn"

section \<open>Object keys\<close>

definition object_prefix :: "tenant_context \<Rightarrow> string" where
  "object_prefix tn = orgId tn @ ''/'' @ projectId tn @ ''/''"

definition has_traversal :: "string \<Rightarrow> bool" where
  "has_traversal s = (str_includes s ''..'' \<or> str_includes s [char_of (92 :: nat)] \<or>
     str_includes s [char_of (0 :: nat)] \<or> str_includes (to_lower s) ''%2e%2e'')"

definition assertValidObjectKey :: "jsval \<Rightarrow> tenant_context \<Rightarrow> string res" where
  "assertValidObjectKey key tn =
     (case as_str key of
        None \<Rightarrow> Inl (throw_rf PERMISSION_DENIED ''Object key must be a string'')
      | Some k \<Rightarrow>
          if \<not> starts_with k (object_prefix tn)
          then Inl (throw_rf PERMISSION_DENIED
                 (''Cross-tenant object access denied: key must begin with '' @ object_prefix tn))
          else if has_traversal k
          then Inl (throw_rf PERMISSION_DENIED
                 ''Object key contains forbidden path traversal, backslashes, or null bytes'')
          else let remainder = drop (length (object_prefix tn)) k in
               if remainder = []
               then Inl (throw_rf PERMISSION_DENIED ''Object key must contain a non-empty name after tenant prefix'')
               else if \<exists>seg \<in> set (split_on (CHR ''/'') remainder). seg = ''.'' \<or> seg = ''..'' \<or> seg = []
               then Inl (throw_rf PERMISSION_DENIED ''Object key contains invalid or empty path segments'')
               else Inr k)"

definition assertValidObjectListPrefix :: "jsval \<Rightarrow> tenant_context \<Rightarrow> string res" where
  "assertValidObjectListPrefix pre tn =
     (case as_str pre of
        None \<Rightarrow> Inl (throw_rf PERMISSION_DENIED ''Object list prefix must be a string'')
      | Some p \<Rightarrow>
          if \<not> starts_with p (object_prefix tn)
          then Inl (throw_rf PERMISSION_DENIED
                 (''Cross-tenant object list denied: prefix must begin with '' @ object_prefix tn))
          else if has_traversal p
          then Inl (throw_rf PERMISSION_DENIED
                 ''Object list prefix contains forbidden path traversal, backslashes, or null bytes'')
          else if \<exists>seg \<in> set (split_on (CHR ''/'') p). seg = ''.'' \<or> seg = ''..''
          then Inl (throw_rf PERMISSION_DENIED ''Object list prefix contains traversal segments'')
          else Inr p)"

section \<open>Queue names\<close>

definition queue_prefix :: "tenant_context \<Rightarrow> string" where
  "queue_prefix tn = orgId tn @ ''_'' @ projectId tn @ ''_''"

definition assertValidQueueName :: "jsval \<Rightarrow> tenant_context \<Rightarrow> unit res" where
  "assertValidQueueName name tn =
     (case as_str name of
        None \<Rightarrow> Inl (throw_rf PERMISSION_DENIED ''Queue name must be a non-empty string'')
      | Some n \<Rightarrow>
          if trim n = [] then Inl (throw_rf PERMISSION_DENIED ''Queue name must be a non-empty string'')
          else if \<not> starts_with n (queue_prefix tn)
          then Inl (throw_rf PERMISSION_DENIED
                 (''Cross-tenant queue access denied: queue name must begin with '' @ queue_prefix tn))
          else if has_traversal n \<or> str_includes n ''/''
          then Inl (throw_rf PERMISSION_DENIED
                 ''Queue name contains forbidden slashes, traversal, or control characters'')
          else if drop (length (queue_prefix tn)) n = []
          then Inl (throw_rf PERMISSION_DENIED ''Queue name must contain a resource identifier after tenant prefix'')
          else Inr ())"

section \<open>The guarded providers\<close>

text \<open>\<open>GuardedKVAtomicBuilder\<close>: each call checks its key before it reaches the real builder.\<close>

fun guard_atom :: "tenant_context \<Rightarrow> (jsval, 'v) atom_op \<Rightarrow> (string list, 'v) atom_op res" where
  "guard_atom tn (ACheck k e) = bind_res (sanitizeKvKey k tn) (\<lambda>s. Inr (ACheck s e))"
| "guard_atom tn (ASet k v) = bind_res (sanitizeKvKey k tn) (\<lambda>s. Inr (ASet s v))"
| "guard_atom tn (ADelete k) = bind_res (sanitizeKvKey k tn) (\<lambda>s. Inr (ADelete s))"

text \<open>\<open>GuardedKVProvider\<close>: the operation the underlying provider is given.\<close>

fun guard_op :: "tenant_context \<Rightarrow> (jsval, 'v) kv_op \<Rightarrow> (string list, 'v) kv_op res" where
  "guard_op tn (OpGet k) = bind_res (sanitizeKvKey k tn) (\<lambda>s. Inr (OpGet s))"
| "guard_op tn (OpSet k v ttl) = bind_res (sanitizeKvKey k tn) (\<lambda>s. Inr (OpSet s v ttl))"
| "guard_op tn (OpDelete k) = bind_res (sanitizeKvKey k tn) (\<lambda>s. Inr (OpDelete s))"
| "guard_op tn (OpList p limit cursor) = bind_res (sanitizeKvPrefix p tn) (\<lambda>s. Inr (OpList s limit cursor))"
| "guard_op tn (OpAtomic as) = bind_res (map_res (guard_atom tn) as) (\<lambda>ss. Inr (OpAtomic ss))"

definition guarded_kv ::
  "tenant_context \<Rightarrow> int \<Rightarrow> (jsval, 'v) kv_op \<Rightarrow> 'v table \<Rightarrow> ('v reply \<times> 'v table) res" where
  "guarded_kv tn now op t = bind_res (guard_op tn op) (\<lambda>op'. kv_perform now op' t)"

text \<open>\<open>GuardedObjectProvider\<close>, over any provider operation that takes the key or the prefix.\<close>

definition guarded_object :: "tenant_context \<Rightarrow> jsval \<Rightarrow> (string \<Rightarrow> 'r res) \<Rightarrow> 'r res" where
  "guarded_object tn key operation = bind_res (assertValidObjectKey key tn) operation"

definition guarded_object_list :: "tenant_context \<Rightarrow> jsval \<Rightarrow> (string \<Rightarrow> 'r res) \<Rightarrow> 'r res" where
  "guarded_object_list tn pre operation = bind_res (assertValidObjectListPrefix pre tn) operation"

text \<open>\<open>GuardedQueueProvider\<close>: the bound name, and what the provider itself says its queue is.\<close>

record guarded_queue =
  gq_tenant :: tenant_context
  boundQueueName :: "string option"
  underlyingName :: jsval

definition tenant_js :: "tenant_context \<Rightarrow> jsval" where
  "tenant_js tn = JObj [(''orgId'', JStr (orgId tn)), (''projectId'', JStr (projectId tn))]"

definition new_GuardedQueueProvider :: "jsval \<Rightarrow> jsval \<Rightarrow> string option \<Rightarrow> guarded_queue res" where
  "new_GuardedQueueProvider underName tenant queueName =
     bind_res (normalizeTenantContext tenant) (\<lambda>tn.
       bind_res (case queueName of None \<Rightarrow> Inr () | Some n \<Rightarrow> assertValidQueueName (JStr n) tn) (\<lambda>_.
         Inr \<lparr>gq_tenant = tn, boundQueueName = queueName, underlyingName = underName\<rparr>))"

definition createGuardedQueueProvider :: "jsval \<Rightarrow> jsval \<Rightarrow> string option \<Rightarrow> guarded_queue res" where
  "createGuardedQueueProvider underName tenant queueName =
     bind_res (normalizeTenantContext tenant) (\<lambda>tn.
       bind_res (case queueName of None \<Rightarrow> Inr () | Some n \<Rightarrow> assertValidQueueName (JStr n) tn) (\<lambda>_.
         new_GuardedQueueProvider underName (tenant_js tn) queueName))"

text \<open>The dead letter queue, when the provider has one, under the same tenant and bound name.\<close>

definition gq_deadLetter :: "guarded_queue \<Rightarrow> jsval option \<Rightarrow> guarded_queue option res" where
  "gq_deadLetter g dlq =
     (case dlq of
        None \<Rightarrow> Inr None
      | Some dlqName \<Rightarrow>
          bind_res (new_GuardedQueueProvider dlqName (tenant_js (gq_tenant g)) (boundQueueName g)) (\<lambda>d. Inr (Some d)))"

definition assertCurrentQueueName :: "guarded_queue \<Rightarrow> unit res" where
  "assertCurrentQueueName g =
     bind_res (case boundQueueName g of None \<Rightarrow> Inr () | Some n \<Rightarrow> assertValidQueueName (JStr n) (gq_tenant g)) (\<lambda>_.
       bind_res (if underlyingName g \<noteq> JUndef then assertValidQueueName (underlyingName g) (gq_tenant g) else Inr ()) (\<lambda>_.
         if boundQueueName g = None \<and> underlyingName g = JUndef
         then Inl (throw_rf PERMISSION_DENIED ''No queue name configured for guarded queue provider'')
         else Inr ()))"

definition guarded_queue_op :: "guarded_queue \<Rightarrow> 'r res \<Rightarrow> 'r res" where
  "guarded_queue_op g operation = bind_res (assertCurrentQueueName g) (\<lambda>_. operation)"

section \<open>KV isolation\<close>

text \<open>The keys of a tenant.\<close>

definition tenant_scope :: "tenant_context \<Rightarrow> string list \<Rightarrow> bool" where
  "tenant_scope tn k = (take 2 k = [orgId tn, projectId tn])"

lemma sanitize_with_scope:
  assumes "sanitize_with a b key tn = Inr k"
  shows "tenant_scope tn k" "\<forall>seg \<in> set k. assertValidSegment seg = Inr ()"
proof -
  obtain segs where s: "key = JArr segs" "\<not> length segs < 2" "map_res copy_segment segs = Inr k"
    "k ! 0 = orgId tn" "k ! 1 = projectId tn" and e: "each_res assertValidSegment k = Inr ()"
    using assms by (auto simp: sanitize_with_def res_simps split: jsval.splits if_splits)
  have "2 \<le> length k" using s map_res_length[OF s(3)] by simp
  then show "tenant_scope tn k"
    using s(4,5) by (auto simp: tenant_scope_def numeral_2_eq_2 Suc_le_length_iff)
  show "\<forall>seg \<in> set k. assertValidSegment seg = Inr ()" using e by (simp add: res_simps)
qed

lemma guard_atom_scope: "guard_atom tn a = Inr a' \<Longrightarrow> tenant_scope tn (atom_key a')"
  by (cases a) (auto simp: res_simps sanitizeKvKey_def dest: sanitize_with_scope)

lemma guard_atoms_scope:
  assumes "map_res (guard_atom tn) as = Inr as'" "a \<in> set as'"
  shows "tenant_scope tn (atom_key a)"
proof -
  obtain i where "i < length as'" "a = as' ! i" using assms(2) by (auto simp: in_set_conv_nth)
  then show ?thesis using map_res_nth[OF assms(1)] map_res_length[OF assms(1)] guard_atom_scope by metis
qed

lemma guard_op_scope: "guard_op tn op = Inr op' \<Longrightarrow> \<forall>k \<in> op_keys op'. tenant_scope tn k"
  by (cases op)
    (auto simp: res_simps sanitizeKvKey_def sanitizeKvPrefix_def dest: sanitize_with_scope guard_atoms_scope)

lemma guard_op_is_list: "guard_op tn op = Inr op' \<Longrightarrow> is_list op' = is_list op"
  by (cases op) (auto simp: res_simps)

interpretation guard_kv: scoped_kv "guarded_kv tn" "tenant_scope tn" is_list for tn
proof (unfold_locales, goal_cases)
  case (1 now op t r t' k)
  then obtain op' where "guard_op tn op = Inr op'" "kv_perform now op' t = Inr (r, t')"
    by (auto simp: guarded_kv_def res_simps)
  then show ?case using 1 guard_op_scope kv_perform_outside by metis
next
  case (2 now op t r t')
  then show ?case by (auto simp: guarded_kv_def res_simps dest: kv_perform_ok)
next
  case (3 t1 t2 op now)
  show ?case
  proof (cases "guard_op tn op")
    case (Inl e)
    then show ?thesis by (simp add: guarded_kv_def)
  next
    case (Inr op')
    have "\<not> is_list op'" using guard_op_is_list[OF Inr] 3(4) by simp
    then show ?thesis using kv_perform_agree[OF 3(1-3) guard_op_scope[OF Inr], of now] Inr
      by (simp add: guarded_kv_def)
  qed
qed

text \<open>
  C1: A tenant confined to its guarded KV provider cannot affect another tenant: after any
  session of operations, refused ones included, every key outside the tenant's prefix reads as
  before; and two tables with the same rows under the tenant's prefix give every operation but a
  listing the same answer and stay equal there.
\<close>

theorem guard_isolates_tenants:
  assumes "table_ok t" "\<not> tenant_scope tn k" "sorted (map fst xs)" "\<forall>x \<in> set xs. fst x \<le> now"
    and "agree (tenant_scope tn) t t2" "table_ok t2" "\<not> is_list op"
  shows "live_row (run_session (guarded_kv tn) xs t) now k = live_row t now k \<and>
    ((\<exists>e. guarded_kv tn now op t = Inl e \<and> guarded_kv tn now op t2 = Inl e) \<or>
     (\<exists>r t1' t2'. guarded_kv tn now op t = Inr (r, t1') \<and> guarded_kv tn now op t2 = Inr (r, t2') \<and>
        agree (tenant_scope tn) t1' t2'))"
  using guard_kv.session_outside[OF assms(1-4)] guard_kv.step_local[OF assms(5,1,6,7)] by simp

definition acme :: tenant_context where
  "acme = \<lparr>orgId = ''acme'', projectId = ''web''\<rparr>"

lemma guard_isolates_tenants_witness:
  "live_row (run_session (guarded_kv acme)
      [(0, OpSet (JArr [JStr ''acme'', JStr ''web'', JStr ''k'']) 5 None),
       (1, OpDelete (JArr [JStr ''other'', JStr ''web'', JStr ''k'']))]
      (upsert [''other'', ''web'', ''k''] (7 :: int) None [])) 2 [''other'', ''web'', ''k''] =
    live_row (upsert [''other'', ''web'', ''k''] 7 None []) 2 [''other'', ''web'', ''k'']"
proof -
  have t: "table_ok (upsert [''other'', ''web'', ''k''] (7 :: int) None [])"
    by (intro table_ok_upsert table_ok_Nil)
  have a: "agree (tenant_scope acme) (upsert [''other'', ''web'', ''k''] (7 :: int) None [])
      (upsert [''other'', ''web'', ''k''] 7 None [])" by (simp add: agree_def)
  show ?thesis
    by (rule guard_isolates_tenants[OF t _ _ _ a t, of _ _ _ "OpGet (JArr [])", THEN conjunct1])
      (simp_all add: tenant_scope_def acme_def)
qed

section \<open>Object keys\<close>

lemma normalized_no_slash:
  assumes "normalizeTenantContext v = Inr tn"
  shows "CHR ''/'' \<notin> set (orgId tn)" "CHR ''/'' \<notin> set (projectId tn)"
  using assms by (auto simp: normalizeTenantContext_def tg_invalid_def str_includes_char
      split: if_splits option.splits)

lemma object_key_prefix:
  assumes "assertValidObjectKey key tn = Inr k"
  shows "\<exists>r. k = object_prefix tn @ r \<and> r \<noteq> [] \<and> \<not> has_traversal k \<and>
    (\<forall>seg \<in> set (split_on (CHR ''/'') r). seg \<notin> {''.'', ''..'', []})"
  using assms by (auto simp: assertValidObjectKey_def Let_def starts_with_iff split: option.splits if_splits)

lemma prefix_determines_tenant:
  assumes "CHR ''/'' \<notin> set (orgId t1)" "CHR ''/'' \<notin> set (projectId t1)"
    "CHR ''/'' \<notin> set (orgId t2)" "CHR ''/'' \<notin> set (projectId t2)"
    "object_prefix t1 @ r1 = object_prefix t2 @ r2"
  shows "t1 = t2"
proof -
  have "orgId t1 @ CHR ''/'' # projectId t1 @ CHR ''/'' # r1 = orgId t2 @ CHR ''/'' # projectId t2 @ CHR ''/'' # r2"
    using assms(5) by (simp add: object_prefix_def)
  from sep_cancel[OF assms(1,3) this]
  have "orgId t1 = orgId t2" and p: "projectId t1 @ CHR ''/'' # r1 = projectId t2 @ CHR ''/'' # r2" by auto
  with sep_cancel[OF assms(2,4) p] show ?thesis by simp
qed

text \<open>
  An object key is accepted for at most one tenant, and an accepted key, read as a path, has
  the tenant's two identifiers as its first two segments and after them at least one segment, none
  of them empty, a dot or two dots: no accepted path leaves the tenant's directory.
\<close>

theorem object_keys_confined:
  assumes "normalizeTenantContext v1 = Inr t1" "normalizeTenantContext v2 = Inr t2"
    and "assertValidObjectKey key t1 = Inr k1" "assertValidObjectKey key t2 = Inr k2"
  shows "t1 = t2 \<and> key = JStr k1 \<and>
    (\<exists>segs. split_on (CHR ''/'') k1 = orgId t1 # projectId t1 # segs \<and> segs \<noteq> [] \<and>
       (\<forall>seg \<in> set segs. seg \<notin> {''.'', ''..'', []}))"
proof -
  obtain r1 r2 where r: "k1 = object_prefix t1 @ r1" "k2 = object_prefix t2 @ r2"
    and s: "\<forall>seg \<in> set (split_on (CHR ''/'') r1). seg \<notin> {''.'', ''..'', []}"
    using object_key_prefix[OF assms(3)] object_key_prefix[OF assms(4)] by blast
  have k: "key = JStr k1 \<and> key = JStr k2"
    using assms(3,4) by (cases key) (auto simp: assertValidObjectKey_def Let_def split: if_splits)
  note n = normalized_no_slash[OF assms(1)] normalized_no_slash[OF assms(2)]
  have "t1 = t2" using prefix_determines_tenant[OF n] r k by auto
  moreover have "split_on (CHR ''/'') k1 = orgId t1 # projectId t1 # split_on (CHR ''/'') r1"
    using n(1,2) by (simp add: r(1) object_prefix_def split_on_append_sep split_on_absent)
  moreover have "split_on (CHR ''/'') r1 \<noteq> []" by (simp add: split_on_not_Nil)
  ultimately show ?thesis using k s by blast
qed

lemma object_keys_confined_witness:
  "split_on (CHR ''/'') ''acme/web/a.txt'' = [''acme'', ''web'', ''a.txt'']"
proof -
  have n: "normalizeTenantContext (tenant_js acme) = Inr acme" by code_simp
  have k: "assertValidObjectKey (JStr ''acme/web/a.txt'') acme = Inr ''acme/web/a.txt''" by code_simp
  have "\<exists>segs. split_on (CHR ''/'') ''acme/web/a.txt'' = ''acme'' # ''web'' # segs"
    using object_keys_confined[OF n n k k] by (auto simp: acme_def)
  moreover have "drop 2 (split_on (CHR ''/'') ''acme/web/a.txt'') = [''a.txt'']" by code_simp
  ultimately show ?thesis by auto
qed

section \<open>Queue names\<close>

text \<open>
  A queue name accepted for two tenants whose identifiers contain no underscore belongs to
  one tenant, but in general it does not: organisation \<open>a\<close> with project \<open>b_c\<close> and organisation
  \<open>a_b\<close> with project \<open>c\<close> are different valid tenants and both may use the queue \<open>a_b_c_jobs\<close>.
\<close>

theorem queue_names_ambiguous:
  "(\<forall>t1 t2 name. (CHR ''_'') \<notin> set (orgId t1 @ projectId t1 @ orgId t2 @ projectId t2) \<and>
      assertValidQueueName name t1 = Inr () \<and> assertValidQueueName name t2 = Inr () \<longrightarrow>
      orgId t1 = orgId t2 \<and> projectId t1 = projectId t2) \<and>
   (let ta = JObj [(''orgId'', JStr ''a''), (''projectId'', JStr ''b_c'')];
        tb = JObj [(''orgId'', JStr ''a_b''), (''projectId'', JStr ''c'')]
    in normalizeTenantContext ta = Inr \<lparr>orgId = ''a'', projectId = ''b_c''\<rparr> \<and>
       normalizeTenantContext tb = Inr \<lparr>orgId = ''a_b'', projectId = ''c''\<rparr> \<and>
       \<not> isl (createGuardedQueueProvider JUndef ta (Some ''a_b_c_jobs'')) \<and>
       \<not> isl (createGuardedQueueProvider JUndef tb (Some ''a_b_c_jobs'')))"
proof (rule conjI)
  show "\<forall>t1 t2 name. (CHR ''_'') \<notin> set (orgId t1 @ projectId t1 @ orgId t2 @ projectId t2) \<and>
      assertValidQueueName name t1 = Inr () \<and> assertValidQueueName name t2 = Inr () \<longrightarrow>
      orgId t1 = orgId t2 \<and> projectId t1 = projectId t2"
  proof (intro allI impI)
    fix t1 t2 :: tenant_context and name
    assume a: "(CHR ''_'') \<notin> set (orgId t1 @ projectId t1 @ orgId t2 @ projectId t2) \<and>
      assertValidQueueName name t1 = Inr () \<and> assertValidQueueName name t2 = Inr ()"
    then obtain n where "starts_with n (queue_prefix t1)" "starts_with n (queue_prefix t2)"
      by (auto simp: assertValidQueueName_def split: option.splits if_splits)
    then obtain r1 r2 where "queue_prefix t1 @ r1 = queue_prefix t2 @ r2" by (metis starts_with_iff)
    then have e: "orgId t1 @ CHR ''_'' # (projectId t1 @ CHR ''_'' # r1) =
        orgId t2 @ CHR ''_'' # (projectId t2 @ CHR ''_'' # r2)" by (simp add: queue_prefix_def)
    have n: "CHR ''_'' \<notin> set (orgId t1)" "CHR ''_'' \<notin> set (orgId t2)"
      "CHR ''_'' \<notin> set (projectId t1)" "CHR ''_'' \<notin> set (projectId t2)" using a by auto
    show "orgId t1 = orgId t2 \<and> projectId t1 = projectId t2"
      using sep_cancel[OF n(1,2) e] sep_cancel[OF n(3,4)] by blast
  qed
qed code_simp

lemma queue_names_ambiguous_witness:
  "assertValidQueueName (JStr ''acme_web_jobs'') \<lparr>orgId = ''globex'', projectId = ''web''\<rparr> \<noteq> Inr ()"
proof
  assume "assertValidQueueName (JStr ''acme_web_jobs'') \<lparr>orgId = ''globex'', projectId = ''web''\<rparr> = Inr ()"
  moreover have "assertValidQueueName (JStr ''acme_web_jobs'') acme = Inr ()" by code_simp
  moreover have "CHR ''_'' \<notin> set (orgId acme @ projectId acme @ ''globex'' @ ''web'')" by (simp add: acme_def)
  ultimately show False
    using queue_names_ambiguous[THEN conjunct1, rule_format, of acme "\<lparr>orgId = ''globex'', projectId = ''web''\<rparr>"]
    by (auto simp: acme_def)
qed

end
