(* ===== verification/Permissions.thy ===== *)
theory Permissions
  imports KvScope
begin

text \<open>
  \<open>packages/policy/permission-resolver.ts\<close>: the declared capabilities of a project become bindings
  whose operations are closed over a physical prefix. A KV binding is its key prefix, an object
  binding its path prefix; the operations of the closures are the functions below.

  Shown: which bindings a declaration yields and that every refusal is a validation error; a KV
  binding touches only keys under its prefix; object bindings of different scopes never address
  the same object and a listing returns only the binding's own keys; a KV listing may show the
  entries of another scope.
\<close>

section \<open>Declarations\<close>

record DeclaredPermissions =
  d_kv :: "string list option"
  d_state :: "string list option"
  d_objects :: "string list option"
  d_data :: "string list option"
  d_queues :: "string list option"
  d_signal :: "string list option"
  d_network :: "string list option"
  d_secrets :: "string list option"

record normalized =
  n_kv :: "string list option"
  n_objects :: "string list option"
  n_queues :: "string list option"
  n_network :: "string list option"
  n_secrets :: "string list option"

definition both :: "'a option \<Rightarrow> 'b option \<Rightarrow> bool" where
  "both a b = (a \<noteq> None \<and> b \<noteq> None)"

definition normalizeDeclaredCapabilities :: "DeclaredPermissions \<Rightarrow> normalized res" where
  "normalizeDeclaredCapabilities d =
     (if both (d_kv d) (d_state d)
      then Inl (throw_rf VALIDATION_FAILED
        ''Cannot declare both 'kv' and 'state' capabilities (PLAT-6 mutual exclusivity violation)'')
      else if both (d_objects d) (d_data d)
      then Inl (throw_rf VALIDATION_FAILED
        ''Cannot declare both 'objects' and 'data' capabilities (PLAT-6 mutual exclusivity violation)'')
      else if both (d_queues d) (d_signal d)
      then Inl (throw_rf VALIDATION_FAILED
        ''Cannot declare both 'queues' and 'signal' capabilities (PLAT-6 mutual exclusivity violation)'')
      else Inr \<lparr>n_kv = or_else (d_state d) (d_kv d), n_objects = or_else (d_data d) (d_objects d),
                n_queues = or_else (d_signal d) (d_queues d), n_network = d_network d,
                n_secrets = d_secrets d\<rparr>)"

definition path_unsafe :: "string \<Rightarrow> bool" where
  "path_unsafe s = (str_includes s ''..'' \<or> str_includes s ''/'' \<or>
     str_includes s [char_of (92 :: nat)] \<or> str_includes s [char_of (0 :: nat)])"

definition unsafe_message :: "string \<Rightarrow> string \<Rightarrow> string" where
  "unsafe_message s name = ''Invalid identifier '' @ [char_of (34 :: nat)] @ s @ [char_of (34 :: nat)] @ '' for '' @ name @
     '': path traversal characters ('..', '/', ''  @ [char_of (39 :: nat), char_of (92 :: nat), char_of (39 :: nat)] @
     '') and null bytes are forbidden (PLAT-7)''"

definition validateIdentifier :: "string \<Rightarrow> string \<Rightarrow> unit res" where
  "validateIdentifier s name =
     (if s = [] \<or> trim s = [] then Inl (throw_rf VALIDATION_FAILED (''Invalid empty resource name for '' @ name))
      else if path_unsafe s then Inl (throw_rf VALIDATION_FAILED (unsafe_message s name))
      else Inr ())"

section \<open>Resolution\<close>

record ResolvedBindings =
  b_kv :: "string list option"
  b_objects :: "string option"
  b_queues :: bool

text \<open>At most one resource of a kind; its name is checked; none declared or an empty list gives no binding.\<close>

definition one_resource :: "string list option \<Rightarrow> string \<Rightarrow> string \<Rightarrow> string option res" where
  "one_resource names kind ambiguous =
     (case names of
        None \<Rightarrow> Inr None
      | Some ns \<Rightarrow>
          if 1 < length ns then Inl (throw_rf VALIDATION_FAILED ambiguous)
          else (case ns of
              [] \<Rightarrow> Inr None
            | n # _ \<Rightarrow> bind_res (validateIdentifier n kind) (\<lambda>_. Inr (Some n))))"

definition resolvePermissions :: "DeclaredPermissions \<Rightarrow> string \<Rightarrow> string \<Rightarrow> ResolvedBindings res" where
  "resolvePermissions d org proj =
     (if org = [] \<or> proj = [] then Inl (throw_rf VALIDATION_FAILED ''orgId and projectId are required'')
      else if path_unsafe org then Inl (throw_rf VALIDATION_FAILED (unsafe_message org ''orgId''))
      else if path_unsafe proj then Inl (throw_rf VALIDATION_FAILED (unsafe_message proj ''projectId''))
      else bind_res (normalizeDeclaredCapabilities d) (\<lambda>n.
        bind_res (one_resource (n_kv n) ''kv'' ''Ambiguous scope: Multiple KV namespaces requested'') (\<lambda>kv.
        bind_res (one_resource (n_objects n) ''objects'' ''Ambiguous scope: Multiple Object buckets requested'') (\<lambda>ob.
        bind_res (one_resource (n_queues n) ''queues'' ''Ambiguous scope: Multiple Queues requested'') (\<lambda>qu.
          Inr \<lparr>b_kv = map_option (\<lambda>r. [org, proj, r]) kv,
               b_objects = map_option (\<lambda>r. org @ ''/'' @ proj @ ''/'' @ r @ ''/'') ob,
               b_queues = (qu \<noteq> None)\<rparr>)))))"

section \<open>The KV binding\<close>

fun prefix_atom :: "string list \<Rightarrow> (string list, 'v) atom_op \<Rightarrow> (string list, 'v) atom_op" where
  "prefix_atom p (ACheck k e) = ACheck (p @ k) e"
| "prefix_atom p (ASet k v) = ASet (p @ k) v"
| "prefix_atom p (ADelete k) = ADelete (p @ k)"

fun prefix_op :: "string list \<Rightarrow> (string list, 'v) kv_op \<Rightarrow> (string list, 'v) kv_op" where
  "prefix_op p (OpGet k) = OpGet (p @ k)"
| "prefix_op p (OpSet k v ttl) = OpSet (p @ k) v ttl"
| "prefix_op p (OpDelete k) = OpDelete (p @ k)"
| "prefix_op p (OpList q limit cursor) = OpList (p @ q) limit cursor"
| "prefix_op p (OpAtomic as) = OpAtomic (map (prefix_atom p) as)"

fun strip_reply :: "string list \<Rightarrow> 'v reply \<Rightarrow> 'v reply" where
  "strip_reply p (RPage items c) = RPage (map (\<lambda>(k, v). (drop (length p) k, v)) items) c"
| "strip_reply p r = r"

definition binding_kv ::
  "string list \<Rightarrow> int \<Rightarrow> (string list, 'v) kv_op \<Rightarrow> 'v table \<Rightarrow> ('v reply \<times> 'v table) res" where
  "binding_kv p now op t = bind_res (kv_perform now (prefix_op p op) t) (\<lambda>(r, t'). Inr (strip_reply p r, t'))"

section \<open>The object binding\<close>

definition validateObjectKey :: "string \<Rightarrow> unit res" where
  "validateObjectKey key =
     (if starts_with key ''/'' \<or> str_includes key ''..'' \<or> str_includes key [char_of (92 :: nat)]
      then Inl (throw_rf VALIDATION_FAILED ''Path traversal not allowed in object keys'')
      else Inr ())"

text \<open>\<open>put\<close>, \<open>get\<close>, \<open>delete\<close>, \<open>head\<close>, \<open>presign\<close>, \<open>createMultipartUpload\<close>: check, prefix, call.\<close>

definition binding_object :: "string \<Rightarrow> (string \<Rightarrow> 'r res) \<Rightarrow> string \<Rightarrow> 'r res" where
  "binding_object p operation key = bind_res (validateObjectKey key) (\<lambda>_. operation (p @ key))"

definition provider_cursor :: "string \<Rightarrow> string option \<Rightarrow> string option" where
  "provider_cursor p cursor =
     (case cursor of
        None \<Rightarrow> None
      | Some c \<Rightarrow> if c = [] then None else if starts_with c p then Some c else Some (p @ c))"

definition client_cursor :: "string \<Rightarrow> string option \<Rightarrow> string option" where
  "client_cursor p cursor =
     (case cursor of
        None \<Rightarrow> None
      | Some c \<Rightarrow> if c \<noteq> [] \<and> starts_with c p then Some (drop (length p) c) else Some c)"

definition binding_object_list ::
  "string \<Rightarrow> (string \<Rightarrow> string option \<Rightarrow> (string list \<times> string option) res) \<Rightarrow> string \<Rightarrow> string option \<Rightarrow>
   (string list \<times> string option) res" where
  "binding_object_list p provider_list queryPrefix cursor =
     bind_res (validateObjectKey queryPrefix) (\<lambda>_.
       bind_res (provider_list (p @ queryPrefix) (provider_cursor p cursor)) (\<lambda>(keys, next).
         Inr (map (\<lambda>k. drop (length p) k) (filter (\<lambda>k. starts_with k p) keys), client_cursor p next)))"

section \<open>What a declaration yields\<close>

lemma validateIdentifier_Inr: "validateIdentifier s n = Inr () \<longleftrightarrow> trim s \<noteq> [] \<and> \<not> path_unsafe s"
  by (auto simp: validateIdentifier_def trim_def split: if_splits)

lemma one_resource_Inr:
  "one_resource names kind msg = Inr r \<longleftrightarrow>
     (case names of None \<Rightarrow> r = None | Some ns \<Rightarrow>
        ns = [] \<and> r = None \<or> (\<exists>n. ns = [n] \<and> trim n \<noteq> [] \<and> \<not> path_unsafe n \<and> r = Some n))"
proof (cases names)
  case (Some ns)
  then show ?thesis by (cases ns) (auto simp: one_resource_def res_simps validateIdentifier_Inr split: if_splits)
qed (auto simp: one_resource_def)

lemma one_resource_Inl: "one_resource names kind msg = Inl e \<Longrightarrow> exn_code e = Some VALIDATION_FAILED"
  by (auto simp: one_resource_def res_simps validateIdentifier_def split: option.splits list.splits if_splits)

lemma normalize_Inl: "normalizeDeclaredCapabilities d = Inl e \<Longrightarrow> exn_code e = Some VALIDATION_FAILED"
  by (auto simp: normalizeDeclaredCapabilities_def split: if_splits)

lemma resolvePermissions_Inl: "resolvePermissions d org proj = Inl e \<Longrightarrow> exn_code e = Some VALIDATION_FAILED"
  by (auto simp: resolvePermissions_def res_simps dest: one_resource_Inl normalize_Inl split: if_splits)

lemma resolvePermissions_InrE:
  assumes "resolvePermissions d org proj = Inr b"
  obtains n kv ob qu where "org \<noteq> []" "proj \<noteq> []" "\<not> path_unsafe org" "\<not> path_unsafe proj"
    "normalizeDeclaredCapabilities d = Inr n"
    "one_resource (n_kv n) ''kv'' ''Ambiguous scope: Multiple KV namespaces requested'' = Inr kv"
    "one_resource (n_objects n) ''objects'' ''Ambiguous scope: Multiple Object buckets requested'' = Inr ob"
    "one_resource (n_queues n) ''queues'' ''Ambiguous scope: Multiple Queues requested'' = Inr qu"
    "b_kv b = map_option (\<lambda>r. [org, proj, r]) kv"
    "b_objects b = map_option (\<lambda>r. org @ ''/'' @ proj @ ''/'' @ r @ ''/'') ob"
    "b_queues b = (qu \<noteq> None)"
  using assms unfolding resolvePermissions_def by (auto simp: bind_res_Inr_iff split: if_splits)

text \<open>An alias pair and the resource resolved from it.\<close>

lemma alias_resource:
  assumes "one_resource (or_else a c) kind msg = Inr (Some r)" "\<not> both c a"
  shows "\<not> path_unsafe r \<and> trim r \<noteq> [] \<and> (c = Some [r] \<and> a = None \<or> a = Some [r] \<and> c = None)"
  using assms by (cases a; cases c) (auto simp: one_resource_Inr both_def)

lemma normalize_Inr:
  assumes "normalizeDeclaredCapabilities d = Inr n"
  shows "n_kv n = or_else (d_state d) (d_kv d)" "n_objects n = or_else (d_data d) (d_objects d)"
    "n_queues n = or_else (d_signal d) (d_queues d)"
    "\<not> both (d_kv d) (d_state d)" "\<not> both (d_objects d) (d_data d)" "\<not> both (d_queues d) (d_signal d)"
  using assms by (auto simp: normalizeDeclaredCapabilities_def split: if_splits)

text \<open>
  Resolution either fails with a validation error or grants exactly what is declared: a KV or
  object binding exists only for the single resource declared under that kind or its alias, and is
  closed over the prefix of the calling organisation, project and that resource, whose names
  cannot escape it; a queue binding exists only if one queue is declared.
\<close>

theorem resolution_grants_declared_only:
  "(\<forall>e. resolvePermissions d org proj = Inl e \<longrightarrow> exn_code e = Some VALIDATION_FAILED) \<and>
   (\<forall>b. resolvePermissions d org proj = Inr b \<longrightarrow>
      org \<noteq> [] \<and> proj \<noteq> [] \<and> \<not> path_unsafe org \<and> \<not> path_unsafe proj \<and>
      (\<forall>p. b_kv b = Some p \<longrightarrow> (\<exists>r. p = [org, proj, r] \<and> \<not> path_unsafe r \<and> trim r \<noteq> [] \<and>
          (d_kv d = Some [r] \<and> d_state d = None \<or> d_state d = Some [r] \<and> d_kv d = None))) \<and>
      (\<forall>p. b_objects b = Some p \<longrightarrow> (\<exists>r. p = org @ ''/'' @ proj @ ''/'' @ r @ ''/'' \<and> \<not> path_unsafe r \<and> trim r \<noteq> [] \<and>
          (d_objects d = Some [r] \<and> d_data d = None \<or> d_data d = Some [r] \<and> d_objects d = None))) \<and>
      (b_queues b \<longrightarrow> (\<exists>r. d_queues d = Some [r] \<and> d_signal d = None \<or> d_signal d = Some [r] \<and> d_queues d = None)))"
proof (rule conjI; intro allI impI)
  fix e assume "resolvePermissions d org proj = Inl e"
  then show "exn_code e = Some VALIDATION_FAILED" by (rule resolvePermissions_Inl)
next
  fix b assume "resolvePermissions d org proj = Inr b"
  then show "org \<noteq> [] \<and> proj \<noteq> [] \<and> \<not> path_unsafe org \<and> \<not> path_unsafe proj \<and>
      (\<forall>p. b_kv b = Some p \<longrightarrow> (\<exists>r. p = [org, proj, r] \<and> \<not> path_unsafe r \<and> trim r \<noteq> [] \<and>
          (d_kv d = Some [r] \<and> d_state d = None \<or> d_state d = Some [r] \<and> d_kv d = None))) \<and>
      (\<forall>p. b_objects b = Some p \<longrightarrow> (\<exists>r. p = org @ ''/'' @ proj @ ''/'' @ r @ ''/'' \<and> \<not> path_unsafe r \<and> trim r \<noteq> [] \<and>
          (d_objects d = Some [r] \<and> d_data d = None \<or> d_data d = Some [r] \<and> d_objects d = None))) \<and>
      (b_queues b \<longrightarrow> (\<exists>r. d_queues d = Some [r] \<and> d_signal d = None \<or> d_signal d = Some [r] \<and> d_queues d = None))"
  proof (rule resolvePermissions_InrE)
    fix n kv ob qu
    assume safe: "org \<noteq> []" "proj \<noteq> []" "\<not> path_unsafe org" "\<not> path_unsafe proj"
      and "normalizeDeclaredCapabilities d = Inr n"
      and one: "one_resource (n_kv n) ''kv'' ''Ambiguous scope: Multiple KV namespaces requested'' = Inr kv"
        "one_resource (n_objects n) ''objects'' ''Ambiguous scope: Multiple Object buckets requested'' = Inr ob"
        "one_resource (n_queues n) ''queues'' ''Ambiguous scope: Multiple Queues requested'' = Inr qu"
      and b: "b_kv b = map_option (\<lambda>r. [org, proj, r]) kv"
        "b_objects b = map_option (\<lambda>r. org @ ''/'' @ proj @ ''/'' @ r @ ''/'') ob" "b_queues b = (qu \<noteq> None)"
    note n = normalize_Inr[OF \<open>normalizeDeclaredCapabilities d = Inr n\<close>]
    have k: "kv = Some r \<Longrightarrow> \<not> path_unsafe r \<and> trim r \<noteq> [] \<and>
        (d_kv d = Some [r] \<and> d_state d = None \<or> d_state d = Some [r] \<and> d_kv d = None)" for r
      using alias_resource[OF _ n(4)] one(1) n(1) by auto
    have o: "ob = Some r \<Longrightarrow> \<not> path_unsafe r \<and> trim r \<noteq> [] \<and>
        (d_objects d = Some [r] \<and> d_data d = None \<or> d_data d = Some [r] \<and> d_objects d = None)" for r
      using alias_resource[OF _ n(5)] one(2) n(2) by auto
    have q: "qu = Some r \<Longrightarrow> d_queues d = Some [r] \<and> d_signal d = None \<or> d_signal d = Some [r] \<and> d_queues d = None" for r
      using alias_resource[OF _ n(6)] one(3) n(3) by auto
    then have "qu \<noteq> None \<Longrightarrow> \<exists>r. d_queues d = Some [r] \<and> d_signal d = None \<or> d_signal d = Some [r] \<and> d_queues d = None"
      by blast
    then show ?thesis using safe b k o by (cases kv; cases ob) simp_all
  qed
qed

definition demo_declared :: DeclaredPermissions where
  "demo_declared = \<lparr>d_kv = None, d_state = Some [''cache''], d_objects = Some [''files''], d_data = None,
     d_queues = None, d_signal = None, d_network = None, d_secrets = None\<rparr>"

lemma resolution_grants_declared_only_witness:
  "\<exists>b. resolvePermissions demo_declared ''acme'' ''web'' = Inr b \<and> b_kv b = Some [''acme'', ''web'', ''cache''] \<and>
     \<not> path_unsafe ''cache''"
proof -
  have c: "resolvePermissions demo_declared ''acme'' ''web'' =
      Inr \<lparr>b_kv = Some [''acme'', ''web'', ''cache''], b_objects = Some ''acme/web/files/'', b_queues = False\<rparr>"
    by code_simp
  then show ?thesis using resolution_grants_declared_only[of demo_declared "''acme''" "''web''"] by auto
qed

section \<open>KV bindings stay within their prefix\<close>

definition prefix_scope :: "string list \<Rightarrow> string list \<Rightarrow> bool" where
  "prefix_scope p k = (take (length p) k = p)"

lemma prefix_scope_append [simp]: "prefix_scope p (p @ k)"
  by (simp add: prefix_scope_def)

lemma prefix_op_scope: "\<forall>k \<in> op_keys (prefix_op p op). prefix_scope p k"
proof (cases op)
  case (OpAtomic as)
  have "prefix_scope p (atom_key (prefix_atom p a))" for a :: "(string list, 'a) atom_op"
    by (cases a) simp_all
  then show ?thesis using OpAtomic by auto
qed simp_all

lemma prefix_op_is_list [simp]: "is_list (prefix_op p op) = is_list op"
  by (cases op) simp_all

interpretation binding: scoped_kv "binding_kv p" "prefix_scope p" is_list for p
proof (unfold_locales, goal_cases)
  case (1 now op t r t' k)
  then show ?case using prefix_op_scope[of p op] kv_perform_outside[of now "prefix_op p op" t _ t' k]
    by (auto simp: binding_kv_def res_simps)
next
  case (2 now op t r t')
  then show ?case by (auto simp: binding_kv_def res_simps dest: kv_perform_ok)
next
  case (3 t1 t2 op now)
  then show ?case using kv_perform_agree[OF 3(1-3) prefix_op_scope[of p op], of now]
    by (auto simp: binding_kv_def)
qed

text \<open>
  C17: KV bindings of different scopes do not interfere: whatever a session through the binding of
  one scope does, every key of a binding with another prefix of the same shape reads as before, and
  what an operation other than a listing answers is determined by the rows under its own prefix.
\<close>

theorem kv_bindings_do_not_interfere:
  assumes "table_ok t" "p \<noteq> q" "length p = length q" "sorted (map fst xs)" "\<forall>x \<in> set xs. fst x \<le> now"
    and "agree (prefix_scope p) t t2" "table_ok t2" "\<not> is_list op"
  shows "live_row (run_session (binding_kv p) xs t) now (q @ k) = live_row t now (q @ k) \<and>
    ((\<exists>e. binding_kv p now op t = Inl e \<and> binding_kv p now op t2 = Inl e) \<or>
     (\<exists>r t1' t2'. binding_kv p now op t = Inr (r, t1') \<and> binding_kv p now op t2 = Inr (r, t2') \<and>
        agree (prefix_scope p) t1' t2'))"
proof -
  have "\<not> prefix_scope p (q @ k)" using assms(2,3) by (simp add: prefix_scope_def)
  then show ?thesis
    using binding.session_outside[OF assms(1) _ assms(4,5)] binding.step_local[OF assms(6,1,7,8)] by simp
qed

lemma kv_bindings_do_not_interfere_witness:
  "live_row (run_session (binding_kv [''acme'', ''web'', ''cache''])
      [(0, OpSet [''k''] 5 None), (1, OpAtomic [ACheck [''k''] 1, ADelete [''k'']])]
      (upsert [''acme'', ''web'', ''other'', ''k''] (7 :: int) None [])) 2 ([''acme'', ''web'', ''other''] @ [''k'']) =
    live_row (upsert [''acme'', ''web'', ''other'', ''k''] 7 None []) 2 ([''acme'', ''web'', ''other''] @ [''k''])"
proof -
  let ?t = "upsert [''acme'', ''web'', ''other'', ''k''] (7 :: int) None []"
  have t: "table_ok ?t" by (intro table_ok_upsert table_ok_Nil)
  have a: "agree (prefix_scope [''acme'', ''web'', ''cache'']) ?t ?t" by (simp add: agree_def)
  show ?thesis
    by (rule kv_bindings_do_not_interfere[OF t _ _ _ _ a t, of _ _ _ "OpGet []", THEN conjunct1]) simp_all
qed

text \<open>
  Listings do interfere. Two organisations that differ only where one name has an underscore
  resolve to valid bindings, and an entry the one stores is returned by the other's listing, its
  key stripped of the foreign prefix.
\<close>

theorem kv_listing_crosses_tenants:
  "resolvePermissions demo_declared ''org_1'' ''web'' =
     Inr \<lparr>b_kv = Some [''org_1'', ''web'', ''cache''], b_objects = Some ''org_1/web/files/'', b_queues = False\<rparr> \<and>
   resolvePermissions demo_declared ''orgX1'' ''web'' =
     Inr \<lparr>b_kv = Some [''orgX1'', ''web'', ''cache''], b_objects = Some ''orgX1/web/files/'', b_queues = False\<rparr> \<and>
   binding_kv [''org_1'', ''web'', ''cache''] 5 (OpList [] None None)
     (run_session (binding_kv [''orgX1'', ''web'', ''cache'']) [(0, OpSet [''token''] (7 :: int) None)] []) =
   Inr (RPage [([''token''], 7)] None,
        run_session (binding_kv [''orgX1'', ''web'', ''cache'']) [(0, OpSet [''token''] 7 None)] [])"
  by (intro conjI; code_simp)

section \<open>Object bindings\<close>

lemma path_unsafe_slash: "\<not> path_unsafe s \<Longrightarrow> CHR ''/'' \<notin> set s"
  by (auto simp: path_unsafe_def str_includes_char)

lemma object_prefix_cancel:
  assumes "\<not> path_unsafe o1" "\<not> path_unsafe p1" "\<not> path_unsafe r1" "\<not> path_unsafe o2" "\<not> path_unsafe p2" "\<not> path_unsafe r2"
    and "(o1 @ ''/'' @ p1 @ ''/'' @ r1 @ ''/'') @ k1 = (o2 @ ''/'' @ p2 @ ''/'' @ r2 @ ''/'') @ k2"
  shows "o1 = o2 \<and> p1 = p2 \<and> r1 = r2 \<and> k1 = k2"
proof -
  have e: "o1 @ CHR ''/'' # (p1 @ CHR ''/'' # (r1 @ CHR ''/'' # k1)) =
      o2 @ CHR ''/'' # (p2 @ CHR ''/'' # (r2 @ CHR ''/'' # k2))" using assms(7) by simp
  note n = assms(1-6)[THEN path_unsafe_slash]
  show ?thesis using sep_cancel[OF n(1,4) e] sep_cancel[OF n(2,5)] sep_cancel[OF n(3,6)] by blast
qed

lemma one_resource_safe: "one_resource names kind msg = Inr (Some r) \<Longrightarrow> \<not> path_unsafe r"
  by (auto simp: one_resource_Inr split: option.splits)

lemma object_binding_shape:
  assumes "resolvePermissions d org proj = Inr b" "b_objects b = Some p"
  shows "\<exists>r. p = org @ ''/'' @ proj @ ''/'' @ r @ ''/'' \<and> \<not> path_unsafe r \<and> \<not> path_unsafe org \<and> \<not> path_unsafe proj"
  using assms(1)
proof (rule resolvePermissions_InrE)
  fix n ob
  assume "\<not> path_unsafe org" "\<not> path_unsafe proj"
    and o: "one_resource (n_objects n) ''objects'' ''Ambiguous scope: Multiple Object buckets requested'' = Inr ob"
    and "b_objects b = map_option (\<lambda>r. org @ ''/'' @ proj @ ''/'' @ r @ ''/'') ob"
  then show ?thesis using assms(2) one_resource_safe by (cases ob) auto
qed

text \<open>
  Whatever the object provider does: two resolved object bindings that hand it the same
  physical key have the same scope and were called with the same key; and a listing returns only
  keys under the binding's prefix, each as the key with which that binding addresses it.
\<close>

theorem object_bindings_separate:
  assumes "resolvePermissions d1 org1 proj1 = Inr b1" "resolvePermissions d2 org2 proj2 = Inr b2"
    and "b_objects b1 = Some p1" "b_objects b2 = Some p2"
  shows "(binding_object p1 Inr k1 = Inr f \<and> binding_object p2 Inr k2 = Inr f \<longrightarrow>
      org1 = org2 \<and> proj1 = proj2 \<and> p1 = p2 \<and> k1 = k2 \<and> f = p1 @ k1) \<and>
    (binding_object_list p1 provider_list q cursor = Inr (keys, next) \<longrightarrow>
      (\<exists>phys c. provider_list (p1 @ q) (provider_cursor p1 cursor) = Inr (phys, c) \<and>
        map (\<lambda>k. p1 @ k) keys = filter (\<lambda>k. starts_with k p1) phys))"
proof -
  obtain r1 r2 where p: "p1 = org1 @ ''/'' @ proj1 @ ''/'' @ r1 @ ''/''" "p2 = org2 @ ''/'' @ proj2 @ ''/'' @ r2 @ ''/''"
    and u: "\<not> path_unsafe org1" "\<not> path_unsafe proj1" "\<not> path_unsafe r1"
      "\<not> path_unsafe org2" "\<not> path_unsafe proj2" "\<not> path_unsafe r2"
    using object_binding_shape[OF assms(1,3)] object_binding_shape[OF assms(2,4)] by blast
  have "map (\<lambda>k. p1 @ k) (map (\<lambda>k. drop (length p1) k) (filter (\<lambda>k. starts_with k p1) phys)) =
      filter (\<lambda>k. starts_with k p1) phys" for phys
    by (induction phys) (auto simp: starts_with_iff)
  then have "binding_object_list p1 provider_list q cursor = Inr (keys, next) \<longrightarrow>
      (\<exists>phys c. provider_list (p1 @ q) (provider_cursor p1 cursor) = Inr (phys, c) \<and>
        map (\<lambda>k. p1 @ k) keys = filter (\<lambda>k. starts_with k p1) phys)"
    by (cases "provider_list (p1 @ q) (provider_cursor p1 cursor)") (auto simp: binding_object_list_def bind_res_Inr_iff)
  moreover have "org1 = org2 \<and> proj1 = proj2 \<and> p1 = p2 \<and> k1 = k2 \<and> f = p1 @ k1"
    if "binding_object p1 Inr k1 = Inr f" "binding_object p2 Inr k2 = Inr f"
  proof -
    have f: "f = p1 @ k1" "p1 @ k1 = p2 @ k2"
      using that by (simp_all only: binding_object_def bind_res_Inr_iff) auto
    then show ?thesis using object_prefix_cancel[OF u, of k1 k2] p by simp
  qed
  ultimately show ?thesis by blast
qed

lemma object_bindings_separate_witness:
  "\<not> (\<exists>f. binding_object ''acme/web/files/'' Inr ''a.txt'' = Inr f \<and> binding_object ''acme/web/files/'' Inr ''b.txt'' = Inr f)"
proof -
  have c: "resolvePermissions demo_declared ''acme'' ''web'' =
      Inr \<lparr>b_kv = Some [''acme'', ''web'', ''cache''], b_objects = Some ''acme/web/files/'', b_queues = False\<rparr>"
    by code_simp
  show ?thesis
    using object_bindings_separate[OF c c, of "''acme/web/files/''" "''acme/web/files/''" "''a.txt''" _ "''b.txt''"] by auto
qed

end
