(* ===== verification/Queue.thy ===== *)
theory Queue
  imports Errors
begin

text \<open>
  \<open>providers/queues/sqlite-queue-provider.ts\<close>: the local queue provider. The table \<open>messages\<close> is a list
  of rows; a body is its JSON text. Message identifiers, which \<open>generateUlid\<close> supplies, and the clock
  are arguments. Among the visible rows with the least \<open>visible_after\<close> the first of the table is taken.

  Shown: \<open>receive\<close> ends; a message is delivered at most five times and never while it is invisible; a
  message neither acknowledged nor expired is never lost but stays in the queue or its dead letter
  part; sends are refused exactly for an invalid delay or an oversized body.
\<close>

section \<open>State\<close>

record message_row =
  m_id :: string
  m_body :: string
  m_attempts :: int
  m_visible_after :: rat
  m_is_dlq :: bool
  m_expires_at :: "rat option"

type_synonym queue = "message_row list"

record QueueMessage =
  msg_id :: string
  msg_body :: string
  msg_attempts :: int

definition defaultVisibilityTimeoutMs :: rat where "defaultVisibilityTimeoutMs = 30000"
definition maxReceives :: int where "maxReceives = 5"
definition MAX_DELAY_SECONDS :: rat where "MAX_DELAY_SECONDS = 900"
definition MAX_PAYLOAD_SIZE_BYTES :: nat where "MAX_PAYLOAD_SIZE_BYTES = 128 * 1024"

text \<open>The constructor clamps the retention to 1 .. 14 days.\<close>

definition retention_days :: "rat option \<Rightarrow> rat" where
  "retention_days d = min (max (or_default d 4) 1) 14"

definition row_expired :: "rat \<Rightarrow> message_row \<Rightarrow> bool" where
  "row_expired now r = (case m_expires_at r of None \<Rightarrow> False | Some e \<Rightarrow> e \<le> now)"

definition purgeExpired :: "rat \<Rightarrow> queue \<Rightarrow> queue" where
  "purgeExpired now q = filter (\<lambda>r. \<not> row_expired now r) q"

section \<open>Operations\<close>

definition delay_bad :: "jsval \<Rightarrow> bool" where
  "delay_bad v =
     (case v of
        JUndef \<Rightarrow> False
      | JNum n \<Rightarrow> \<not> num_finite n \<or> num_less n (Fin 0) \<or> num_less (Fin MAX_DELAY_SECONDS) n
      | _ \<Rightarrow> True)"

definition delay_ms :: "jsval \<Rightarrow> rat" where
  "delay_ms v = (case v of JNum (Fin d) \<Rightarrow> d * 1000 | _ \<Rightarrow> 0)"

definition send :: "rat \<Rightarrow> rat \<Rightarrow> string \<Rightarrow> string \<Rightarrow> jsval \<Rightarrow> queue \<Rightarrow> string res \<times> queue" where
  "send retentionDays now mid jsonBody delay q =
     (if delay_bad delay
      then (Inl (throw_rf VALIDATION_FAILED
        ''VALIDATION_FAILED: Delay must be a non-negative number <= 900s cap. Use a schedule trigger instead per FN-2''), q)
      else if MAX_PAYLOAD_SIZE_BYTES < utf8_len jsonBody
      then (Inl (throw_rf PAYLOAD_TOO_LARGE ''PAYLOAD_TOO_LARGE: Payload exceeds 128KB limit''), q)
      else if mid \<in> m_id ` set q
      then (Inl (Foreign ''UNIQUE constraint failed: messages.id''), q)
      else (Inr mid, q @ [\<lparr>m_id = mid, m_body = jsonBody, m_attempts = 0, m_visible_after = now + delay_ms delay,
              m_is_dlq = False, m_expires_at = Some (now + retentionDays * 24 * 3600 * 1000)\<rparr>]))"

text \<open>A batch stops at the first failure; what was sent before stays sent.\<close>

fun sendBatch :: "rat \<Rightarrow> rat \<Rightarrow> (string \<times> string) list \<Rightarrow> queue \<Rightarrow> string list res \<times> queue" where
  "sendBatch retentionDays now [] q = (Inr [], q)"
| "sendBatch retentionDays now ((mid, jsonBody) # bs) q =
     (case send retentionDays now mid jsonBody JUndef q of
        (Inl e, q') \<Rightarrow> (Inl e, q')
      | (Inr i, q') \<Rightarrow>
          (case sendBatch retentionDays now bs q' of
             (Inl e, q'') \<Rightarrow> (Inl e, q'')
           | (Inr ids, q'') \<Rightarrow> (Inr (i # ids), q'')))"

definition upd :: "string \<Rightarrow> (message_row \<Rightarrow> message_row) \<Rightarrow> queue \<Rightarrow> queue" where
  "upd mid f q = map (\<lambda>r. if m_id r = mid then f r else r) q"

definition visible_rows :: "bool \<Rightarrow> rat \<Rightarrow> queue \<Rightarrow> queue" where
  "visible_rows dlq now q = filter (\<lambda>r. m_visible_after r \<le> now \<and> m_is_dlq r = dlq) q"

text \<open>\<open>ORDER BY visible_after ASC LIMIT 1\<close>\<close>

fun least_row :: "queue \<Rightarrow> message_row option" where
  "least_row [] = None"
| "least_row (r # rs) =
     (case least_row rs of
        None \<Rightarrow> Some r
      | Some r' \<Rightarrow> if m_visible_after r' < m_visible_after r then Some r' else Some r)"

definition claimed :: "rat \<Rightarrow> message_row \<Rightarrow> message_row" where
  "claimed nextVisible r = r\<lparr>m_attempts := m_attempts r + 1, m_visible_after := nextVisible\<rparr>"

definition buried :: "message_row \<Rightarrow> message_row" where
  "buried r = r\<lparr>m_is_dlq := True, m_visible_after := 0\<rparr>"

definition main_size :: "queue \<Rightarrow> nat" where
  "main_size q = length (filter (\<lambda>r. \<not> m_is_dlq r) q)"

lemma least_row_mem: "least_row q = Some r \<Longrightarrow> r \<in> set q"
  by (induction q arbitrary: r) (auto split: option.splits if_splits)

lemma main_size_upd_same: "(\<And>r. m_is_dlq (f r) = m_is_dlq r) \<Longrightarrow> main_size (upd mid f q) = main_size q"
  by (induction q) (auto simp: main_size_def upd_def)

lemma main_size_purge: "main_size (purgeExpired now q) \<le> main_size q"
  by (induction q) (auto simp: main_size_def purgeExpired_def)

lemma main_size_bury_le: "main_size (upd mid buried q) \<le> main_size q"
  by (induction q) (auto simp: main_size_def upd_def buried_def)

lemma main_size_bury: "r \<in> set q \<Longrightarrow> \<not> m_is_dlq r \<Longrightarrow> main_size (upd (m_id r) buried q) < main_size q"
proof (induction q)
  case (Cons x q)
  have "main_size (upd (m_id r) buried q) \<le> main_size q" by (rule main_size_bury_le)
  moreover have "m_is_dlq (buried x)" for x by (simp add: buried_def)
  ultimately show ?case using Cons by (auto simp: main_size_def upd_def less_Suc_eq_le)
qed simp

lemma receive_loop_decreases:
  assumes "least_row (visible_rows False now q1) = Some r"
  shows "main_size (upd (m_id r) buried (upd (m_id r) (claimed x) q1)) < main_size q1"
proof -
  have r: "r \<in> set q1" "\<not> m_is_dlq r" using least_row_mem[OF assms] by (auto simp: visible_rows_def)
  then have "claimed x r \<in> set (upd (m_id r) (claimed x) q1)" by (force simp: upd_def)
  moreover have "m_id (claimed x r) = m_id r" "\<not> m_is_dlq (claimed x r)" using r by (simp_all add: claimed_def)
  ultimately have "main_size (upd (m_id r) buried (upd (m_id r) (claimed x) q1)) < main_size (upd (m_id r) (claimed x) q1)"
    using main_size_bury by metis
  then show ?thesis by (simp add: main_size_upd_same claimed_def)
qed

function receive_loop :: "(nat \<Rightarrow> rat) \<Rightarrow> nat \<Rightarrow> rat \<Rightarrow> queue \<Rightarrow> QueueMessage option \<times> queue" where
  "receive_loop clk n timeout q =
     (let now = clk n; q1 = purgeExpired now q in
      case least_row (visible_rows False now q1) of
        None \<Rightarrow> (None, q1)
      | Some r \<Rightarrow>
          let q2 = upd (m_id r) (claimed (now + timeout)) q1; attempts = m_attempts r + 1 in
          if maxReceives < attempts
          then receive_loop clk (n + 1) timeout (upd (m_id r) buried q2)
          else (Some \<lparr>msg_id = m_id r, msg_body = m_body r, msg_attempts = attempts\<rparr>, q2))"
  by pat_completeness auto

termination
proof (relation "measure (\<lambda>(clk, n, timeout, q). main_size q)", goal_cases)
  case (2 clk n timeout q now q1 r q2 attempts)
  show ?case
    using less_le_trans[OF receive_loop_decreases[OF 2(3), of "now + timeout"] main_size_purge[of now q, folded 2(2)]]
    by (simp add: 2(4))
qed simp

declare receive_loop.simps [simp del]

definition receive :: "(nat \<Rightarrow> rat) \<Rightarrow> rat option \<Rightarrow> queue \<Rightarrow> QueueMessage option \<times> queue" where
  "receive clk visibilityTimeoutMs q =
     receive_loop clk 0 (or_default visibilityTimeoutMs defaultVisibilityTimeoutMs) q"

definition ack :: "string \<Rightarrow> queue \<Rightarrow> queue" where
  "ack mid q = filter (\<lambda>r. m_id r \<noteq> mid) q"

definition receiveDlq :: "rat \<Rightarrow> queue \<Rightarrow> QueueMessage option \<times> queue" where
  "receiveDlq now q =
     (let q1 = purgeExpired now q in
      case least_row (visible_rows True now q1) of
        None \<Rightarrow> (None, q1)
      | Some r \<Rightarrow>
          (Some \<lparr>msg_id = m_id r, msg_body = m_body r, msg_attempts = m_attempts r\<rparr>,
           upd (m_id r) (\<lambda>x. x\<lparr>m_visible_after := now + defaultVisibilityTimeoutMs\<rparr>) q1))"

text \<open>The \<open>deadLetter\<close> object: its \<open>send\<close> stores nothing and answers with an empty identifier.\<close>

definition deadLetter_send :: "string \<Rightarrow> queue \<Rightarrow> string \<times> queue" where
  "deadLetter_send jsonBody q = ([], q)"

definition deadLetter_sendBatch :: "string list \<Rightarrow> queue \<Rightarrow> string list \<times> queue" where
  "deadLetter_sendBatch bodies q = ([], q)"

section \<open>Histories\<close>

text \<open>
  Any sequence of calls by any number of clients, each at its time. The log lists the identifiers
  that \<open>receive\<close> handed out, oldest first.
\<close>

datatype queue_op = QSend string string jsval | QReceive "rat option" | QAck string | QReceiveDlq

fun queue_step :: "rat \<Rightarrow> rat \<Rightarrow> queue_op \<Rightarrow> queue \<Rightarrow> string list \<times> queue" where
  "queue_step days now (QSend mid body delay) q = ([], snd (send days now mid body delay q))"
| "queue_step days now (QReceive timeout) q =
     (case receive (\<lambda>_. now) timeout q of
        (None, q') \<Rightarrow> ([], q')
      | (Some m, q') \<Rightarrow> ([msg_id m], q'))"
| "queue_step days now (QAck mid) q = ([], ack mid q)"
| "queue_step days now QReceiveDlq q = ([], snd (receiveDlq now q))"

fun run_queue :: "rat \<Rightarrow> (rat \<times> queue_op) list \<Rightarrow> queue \<Rightarrow> string list \<times> queue" where
  "run_queue days [] q = ([], q)"
| "run_queue days ((now, op) # ops) q =
     (case queue_step days now op q of (l, q') \<Rightarrow>
        (case run_queue days ops q' of (ls, q'') \<Rightarrow> (l @ ls, q'')))"

fun sent_ids :: "(rat \<times> queue_op) list \<Rightarrow> string list" where
  "sent_ids [] = []"
| "sent_ids ((now, QSend mid body delay) # ops) = mid # sent_ids ops"
| "sent_ids (_ # ops) = sent_ids ops"

section \<open>The table by identifier\<close>

definition row :: "queue \<Rightarrow> string \<Rightarrow> message_row option" where
  "row q mid = find (\<lambda>r. m_id r = mid) q"

definition queue_ok :: "queue \<Rightarrow> bool" where
  "queue_ok q = distinct (map m_id q)"

lemma row_Some_iff: "queue_ok q \<Longrightarrow> row q mid = Some r \<longleftrightarrow> r \<in> set q \<and> m_id r = mid"
  by (induction q) (auto simp: row_def queue_ok_def)

lemma row_id: "row q mid = Some r \<Longrightarrow> m_id r = mid"
  by (auto simp: row_def find_Some_iff)

lemma row_None_iff: "row q mid = None \<longleftrightarrow> mid \<notin> m_id ` set q"
  by (auto simp: row_def find_None_iff)

lemma row_upd:
  "(\<And>r. m_id (f r) = m_id r) \<Longrightarrow> row (upd mid f q) i = (if i = mid then map_option f (row q i) else row q i)"
  by (induction q) (auto simp: row_def upd_def)

lemma row_filter: "queue_ok q \<Longrightarrow> row (filter P q) i = (case row q i of None \<Rightarrow> None | Some r \<Rightarrow> if P r then Some r else None)"
proof (induction q)
  case (Cons x q)
  have "queue_ok q" "m_id x \<notin> m_id ` set q" using Cons.prems by (auto simp: queue_ok_def)
  then have "row q (m_id x) = None" by (simp add: row_None_iff)
  moreover have "row (filter P q) (m_id x) = None" using \<open>m_id x \<notin> m_id ` set q\<close> by (auto simp: row_None_iff)
  ultimately show ?case using Cons.IH[OF \<open>queue_ok q\<close>] by (auto simp: row_def)
qed (simp add: row_def)

lemma queue_ok_upd: "(\<And>r. m_id (f r) = m_id r) \<Longrightarrow> queue_ok q \<Longrightarrow> queue_ok (upd mid f q)"
proof -
  assume f: "\<And>r. m_id (f r) = m_id r" and q: "queue_ok q"
  have "map m_id (upd mid f q) = map m_id q" using f by (simp add: upd_def)
  then show ?thesis using q by (simp add: queue_ok_def)
qed

lemma queue_ok_filter: "queue_ok q \<Longrightarrow> queue_ok (filter P q)"
  by (simp add: queue_ok_def distinct_map_filter)

lemma row_append: "row (q @ q') i = (case row q i of None \<Rightarrow> row q' i | Some r \<Rightarrow> Some r)"
  by (induction q) (auto simp: row_def)

lemma row_single: "row [r] i = (if m_id r = i then Some r else None)"
  by (simp add: row_def)

lemma claimed_id [simp]: "m_id (claimed x r) = m_id r"
  by (simp add: claimed_def)

lemma buried_id [simp]: "m_id (buried r) = m_id r"
  by (simp add: buried_def)

lemma row_purge: "queue_ok q \<Longrightarrow> row (purgeExpired now q) i =
    (case row q i of None \<Rightarrow> None | Some r \<Rightarrow> if row_expired now r then None else Some r)"
  by (auto simp: purgeExpired_def row_filter split: option.splits)

section \<open>What one call of receive does\<close>

definition delivers :: "QueueMessage option \<Rightarrow> string \<Rightarrow> bool" where
  "delivers m i = (\<exists>x. m = Some x \<and> msg_id x = i)"

text \<open>The fate of row \<open>r\<close>: purged, delivered, moved to the dead letter part, or left alone.\<close>

definition row_fate :: "rat \<Rightarrow> rat \<Rightarrow> QueueMessage option \<Rightarrow> message_row \<Rightarrow> message_row option \<Rightarrow> bool" where
  "row_fate now timeout m r r' =
     (if row_expired now r then r' = None \<and> \<not> delivers m (m_id r)
      else if delivers m (m_id r)
      then \<not> m_is_dlq r \<and> m_visible_after r \<le> now \<and> m_attempts r < maxReceives \<and> r' = Some (claimed (now + timeout) r) \<and>
           m = Some \<lparr>msg_id = m_id r, msg_body = m_body r, msg_attempts = m_attempts r + 1\<rparr>
      else r' = Some r \<or>
           \<not> m_is_dlq r \<and> m_visible_after r \<le> now \<and> maxReceives \<le> m_attempts r \<and> r' = Some (buried (claimed (now + timeout) r)))"

lemma delivers_None [simp]: "\<not> delivers None i"
  by (simp add: delivers_def)

lemma delivers_Some [simp]: "delivers (Some x) i \<longleftrightarrow> msg_id x = i"
  by (simp add: delivers_def)

lemma receive_loop_fate:
  assumes "clk = (\<lambda>_. now)" "queue_ok q" "receive_loop clk n timeout q = (m, q')"
  shows "queue_ok q' \<and> (\<forall>i. case row q i of None \<Rightarrow> row q' i = None \<and> \<not> delivers m i
      | Some r \<Rightarrow> row_fate now timeout m r (row q' i))"
  using assms
proof (induction clk n timeout q arbitrary: m q' rule: receive_loop.induct)
  case (1 clk n timeout q)
  define q1 where "q1 = purgeExpired now q"
  have u: "receive_loop clk n timeout q =
      (case least_row (visible_rows False now q1) of
         None \<Rightarrow> (None, q1)
       | Some r \<Rightarrow>
           if maxReceives < m_attempts r + 1
           then receive_loop clk (n + 1) timeout (upd (m_id r) buried (upd (m_id r) (claimed (now + timeout)) q1))
           else (Some \<lparr>msg_id = m_id r, msg_body = m_body r, msg_attempts = m_attempts r + 1\<rparr>,
                 upd (m_id r) (claimed (now + timeout)) q1))"
    by (subst receive_loop.simps) (simp add: 1(2) q1_def Let_def split: option.split)
  have ok1: "queue_ok q1" using 1(3) by (simp add: q1_def purgeExpired_def queue_ok_filter)
  have p: "row q1 i = (case row q i of None \<Rightarrow> None | Some r \<Rightarrow> if row_expired now r then None else Some r)" for i
    using row_purge[OF 1(3)] by (simp add: q1_def)
  show ?case
  proof (cases "least_row (visible_rows False now q1)")
    case None
    then have "m = None" "q' = q1" using 1(4) u by auto
    then show ?thesis using ok1 by (auto simp: p row_fate_def split: option.splits)
  next
    case (Some r)
    have r: "r \<in> set q1" "\<not> m_is_dlq r" "m_visible_after r \<le> now"
      using least_row_mem[OF Some] by (auto simp: visible_rows_def)
    have rr: "row q1 (m_id r) = Some r" using r ok1 by (simp add: row_Some_iff)
    then have ne: "row q (m_id r) = Some r" "\<not> row_expired now r" using p[of "m_id r"] by (auto split: option.splits if_splits)
    define q2 where "q2 = upd (m_id r) (claimed (now + timeout)) q1"
    have q2: "queue_ok q2" "row q2 i = (if i = m_id r then Some (claimed (now + timeout) r) else row q1 i)" for i
      using ok1 rr by (auto simp: q2_def queue_ok_upd row_upd)
    show ?thesis
    proof (cases "maxReceives < m_attempts r + 1")
      case False
      then have "m = Some \<lparr>msg_id = m_id r, msg_body = m_body r, msg_attempts = m_attempts r + 1\<rparr>" "q' = q2"
        using 1(4) Some u by (auto simp: q2_def)
      then show ?thesis using q2 p ne r False
        by (auto simp: row_fate_def dest: row_id split: option.splits)
    next
      case True
      define q3 where "q3 = upd (m_id r) buried q2"
      have ok3: "queue_ok q3" using q2(1) by (simp add: q3_def queue_ok_upd)
      have q3: "row q3 i = (if i = m_id r then Some (buried (claimed (now + timeout) r)) else row q1 i)" for i
        using q2(2) by (simp add: q3_def row_upd)
      have rec: "receive_loop clk (n + 1) timeout q3 = (m, q')"
        using 1(4) Some True u by (simp add: q2_def q3_def)
      have IH: "queue_ok q' \<and> (\<forall>i. case row q3 i of None \<Rightarrow> row q' i = None \<and> \<not> delivers m i
          | Some r \<Rightarrow> row_fate now timeout m r (row q' i))"
        unfolding q3_def
        by (rule 1(1)[OF _ q1_def Some q2_def refl _ 1(2) ok3[unfolded q3_def] rec[unfolded q3_def]]) (use 1(2) True in auto)
      have "row_fate now timeout m r (row q' (m_id r))"
      proof -
        have "row_fate now timeout m (buried (claimed (now + timeout) r)) (row q' (m_id r))"
          using IH[THEN conjunct2, rule_format, of "m_id r"] q3[of "m_id r"] by simp
        then show ?thesis using r ne True by (auto simp: row_fate_def row_expired_def buried_def claimed_def)
      qed
      moreover have "case row q i of None \<Rightarrow> row q' i = None \<and> \<not> delivers m i
          | Some x \<Rightarrow> row_fate now timeout m x (row q' i)" if "i \<noteq> m_id r" for i
        using IH[THEN conjunct2, rule_format, of i] that p[of i]
        by (auto simp: q3 row_fate_def dest: row_id split: option.splits if_splits)
      ultimately show ?thesis using IH ne(1) by (metis option.simps(5))
    qed
  qed
qed

lemma receive_fate:
  assumes "queue_ok q" "receive (\<lambda>_. now) timeout q = (m, q')"
  shows "queue_ok q'"
    and "row q i = None \<Longrightarrow> row q' i = None \<and> \<not> delivers m i"
    and "row q i = Some r \<Longrightarrow> row_fate now (or_default timeout defaultVisibilityTimeoutMs) m r (row q' i)"
proof -
  note f = receive_loop_fate[OF refl assms(1) assms(2)[unfolded receive_def]]
  show "queue_ok q'" using f by simp
  show "row q' i = None \<and> \<not> delivers m i" if "row q i = None"
    using f[THEN conjunct2, rule_format, of i] that by simp
  show "row_fate now (or_default timeout defaultVisibilityTimeoutMs) m r (row q' i)" if "row q i = Some r"
    using f[THEN conjunct2, rule_format, of i] that by simp
qed

lemma queue_ok_send: "queue_ok q \<Longrightarrow> queue_ok (snd (send days now mid body delay q))"
  by (auto simp: send_def queue_ok_def)

lemma row_send:
  "row (snd (send days now mid body delay q)) i =
     (case row q i of Some r \<Rightarrow> Some r
      | None \<Rightarrow> if i = mid \<and> \<not> isl (fst (send days now mid body delay q))
               then Some \<lparr>m_id = mid, m_body = body, m_attempts = 0, m_visible_after = now + delay_ms delay,
                     m_is_dlq = False, m_expires_at = Some (now + days * 24 * 3600 * 1000)\<rparr>
               else None)"
  by (auto simp: send_def row_append row_single split: option.split)

lemma queue_ok_ack: "queue_ok q \<Longrightarrow> queue_ok (ack mid q)"
  by (simp add: ack_def queue_ok_filter)

lemma row_ack: "queue_ok q \<Longrightarrow> row (ack mid q) i = (if i = mid then None else row q i)"
  by (auto simp: ack_def row_filter dest: row_id split: option.splits)

lemma queue_ok_receiveDlq: "queue_ok q \<Longrightarrow> queue_ok (snd (receiveDlq now q))"
  by (auto simp: receiveDlq_def Let_def queue_ok_upd purgeExpired_def queue_ok_filter split: option.splits)

lemma row_receiveDlq:
  assumes "queue_ok q"
  shows "case row q i of None \<Rightarrow> row (snd (receiveDlq now q)) i = None
    | Some r \<Rightarrow> if row_expired now r then row (snd (receiveDlq now q)) i = None
        else \<exists>v. row (snd (receiveDlq now q)) i = Some (r\<lparr>m_visible_after := v\<rparr>) \<and> (\<not> m_is_dlq r \<longrightarrow> v = m_visible_after r)"
proof (cases "least_row (visible_rows True now (purgeExpired now q))")
  case None
  have u: "row (snd (receiveDlq now q)) i = row (purgeExpired now q) i" using None by (simp add: receiveDlq_def)
  show ?thesis
  proof (cases "row q i")
    case (Some r)
    then show ?thesis using u row_purge[OF assms, of now i] by (auto intro!: exI[of _ "m_visible_after r"])
  qed (use u row_purge[OF assms, of now i] in simp)
next
  case (Some r)
  have "r \<in> set (purgeExpired now q)" "m_is_dlq r" using least_row_mem[OF Some] by (auto simp: visible_rows_def)
  moreover have "queue_ok (purgeExpired now q)" using assms by (simp add: purgeExpired_def queue_ok_filter)
  ultimately have rr: "row (purgeExpired now q) (m_id r) = Some r" "m_is_dlq r" by (auto simp: row_Some_iff)
  have u: "row (snd (receiveDlq now q)) i =
      (if i = m_id r then Some (r\<lparr>m_visible_after := now + defaultVisibilityTimeoutMs\<rparr>) else row (purgeExpired now q) i)"
    using Some rr by (simp add: receiveDlq_def Let_def row_upd)
  show ?thesis
  proof (cases "i = m_id r")
    case True
    then show ?thesis using u rr row_purge[OF assms, of now i] by (auto split: option.splits if_splits)
  next
    case False
    show ?thesis
    proof (cases "row q i")
      case (Some x)
      then show ?thesis using u False row_purge[OF assms, of now i] by (auto intro!: exI[of _ "m_visible_after x"])
    qed (use u False row_purge[OF assms, of now i] in simp)
  qed
qed

lemma queue_step_ok: "queue_ok q \<Longrightarrow> queue_ok (snd (queue_step days now op q))"
  by (cases op) (auto simp: queue_ok_send queue_ok_ack queue_ok_receiveDlq dest: receive_fate(1) split: prod.splits option.splits)

section \<open>Deliveries are bounded\<close>

text \<open>The attempts of a row in the main part count the deliveries logged for it.\<close>

definition counted :: "queue \<Rightarrow> string list \<Rightarrow> bool" where
  "counted q d = (\<forall>i. int (count_list d i) \<le> maxReceives \<and>
     (\<forall>r. row q i = Some r \<and> \<not> m_is_dlq r \<longrightarrow> m_attempts r = int (count_list d i)))"

lemma counted_receive:
  assumes "queue_ok q" "counted q d" "receive (\<lambda>_. now) timeout q = (m, q')"
  shows "counted q' (d @ (case m of None \<Rightarrow> [] | Some x \<Rightarrow> [msg_id x]))"
  unfolding counted_def
proof (intro allI)
  fix i
  have c: "int (count_list d i) \<le> maxReceives" "\<And>r. row q i = Some r \<Longrightarrow> \<not> m_is_dlq r \<Longrightarrow> m_attempts r = int (count_list d i)"
    using assms(2) by (auto simp: counted_def)
  have l: "count_list (d @ (case m of None \<Rightarrow> [] | Some x \<Rightarrow> [msg_id x])) i =
      count_list d i + (if delivers m i then 1 else 0)" by (cases m) auto
  show "int (count_list (d @ (case m of None \<Rightarrow> [] | Some x \<Rightarrow> [msg_id x])) i) \<le> maxReceives \<and>
     (\<forall>r. row q' i = Some r \<and> \<not> m_is_dlq r \<longrightarrow>
        m_attempts r = int (count_list (d @ (case m of None \<Rightarrow> [] | Some x \<Rightarrow> [msg_id x])) i))"
  proof (cases "row q i")
    case None
    then show ?thesis using receive_fate(2)[OF assms(1,3)] c l by simp
  next
    case (Some r)
    note f = receive_fate(3)[OF assms(1,3), OF Some]
    then show ?thesis using c(1) c(2)[OF Some] l row_id[OF Some]
      by (auto simp: row_fate_def claimed_def buried_def split: if_splits)
  qed
qed

lemma counted_step:
  assumes "queue_ok q" "counted q d" "\<And>mid body delay. op = QSend mid body delay \<Longrightarrow> count_list d mid = 0"
  shows "counted (snd (queue_step days now op q)) (d @ fst (queue_step days now op q))"
proof (cases op)
  case (QSend mid body delay)
  then show ?thesis using assms by (auto simp: counted_def row_send split: option.splits if_splits)
next
  case (QReceive timeout)
  obtain m q' where r: "receive (\<lambda>_. now) timeout q = (m, q')" by fastforce
  show ?thesis using counted_receive[OF assms(1,2) r] QReceive r by (cases m) auto
next
  case (QAck mid)
  then show ?thesis using assms by (auto simp: counted_def row_ack split: if_splits)
next
  case QReceiveDlq
  have "m_attempts r = int (count_list d i)" if "row (snd (receiveDlq now q)) i = Some r" "\<not> m_is_dlq r" for i r
    using row_receiveDlq[OF assms(1), where i = i and now = now] that assms(2)
    by (fastforce simp: counted_def split: option.splits if_splits)
  then show ?thesis using QReceiveDlq assms(2) by (auto simp: counted_def)
qed

lemma step_log: "i \<in> set (fst (queue_step days now op q)) \<Longrightarrow> queue_ok q \<Longrightarrow> row q i \<noteq> None"
  by (cases op) (auto split: prod.splits option.splits dest!: receive_fate(2))

lemma step_ids:
  assumes "queue_ok q" "row q i = None" "\<And>mid body delay. op = QSend mid body delay \<Longrightarrow> mid \<noteq> i"
  shows "row (snd (queue_step days now op q)) i = None"
proof (cases op)
  case (QReceive timeout)
  then show ?thesis using assms receive_fate(2)[OF assms(1) _ assms(2)] by (auto split: prod.splits option.splits)
next
  case QReceiveDlq
  then show ?thesis using assms row_receiveDlq[OF assms(1), where i = i and now = now] by simp
qed (use assms in \<open>auto simp: row_send row_ack\<close>)

lemma run_counted:
  assumes "queue_ok q" "counted q d" "distinct (sent_ids ops)"
    "\<And>i. i \<in> set (sent_ids ops) \<Longrightarrow> count_list d i = 0 \<and> row q i = None"
  shows "counted (snd (run_queue days ops q)) (d @ fst (run_queue days ops q))"
  using assms
proof (induction days ops q arbitrary: d rule: run_queue.induct)
  case (2 days now op ops q)
  obtain l q' where s: "queue_step days now op q = (l, q')" by fastforce
  have ids: "set (sent_ids ops) \<subseteq> set (sent_ids ((now, op) # ops))" by (cases op) auto
  have d': "distinct (sent_ids ops)" using 2(4) by (cases op) auto
  have c: "counted q' (d @ l)"
    using counted_step[OF 2(2,3), where op = op and days = days and now = now] 2(5) s by (cases op) auto
  have ok: "queue_ok q'" using queue_step_ok[OF 2(2), where op = op and days = days and now = now] s by simp
  have fresh: "count_list (d @ l) i = 0 \<and> row q' i = None" if i: "i \<in> set (sent_ids ops)" for i
  proof -
    have z: "count_list d i = 0" "row q i = None" using 2(5) i ids by auto
    have "mid \<noteq> i" if "op = QSend mid body delay" for mid body delay using 2(4) i that by auto
    then have "row q' i = None" using step_ids[OF 2(2) z(2), where op = op and days = days and now = now] s by simp
    moreover have "i \<notin> set l" using step_log[of i days now op q] z(2) 2(2) s by auto
    ultimately show ?thesis using z(1) by (simp add: count_list_0_iff)
  qed
  show ?case using 2(1)[OF s[symmetric] ok c d' fresh] s by (simp add: case_prod_beta)
qed simp

text \<open>
  C9: In any history of calls starting from an empty queue, with fresh identifiers for the sends,
  no message is delivered more than five times.
\<close>

theorem delivered_at_most_maxReceives:
  assumes "distinct (sent_ids ops)"
  shows "count_list (fst (run_queue days ops [])) i \<le> 5"
proof -
  have "counted [] []" by (simp add: counted_def row_def maxReceives_def)
  then have "counted (snd (run_queue days ops [])) ([] @ fst (run_queue days ops []))"
    using assms by (intro run_counted) (auto simp: queue_ok_def row_def)
  then show ?thesis by (simp add: counted_def maxReceives_def)
qed

definition demo_history :: "(rat \<times> queue_op) list" where
  "demo_history = [(0, QSend ''m'' ''1'' JUndef), (1, QReceive (Some 0)), (2, QReceive (Some 0)), (3, QReceive (Some 0)),
     (4, QReceive (Some 0)), (5, QReceive (Some 0)), (6, QReceive (Some 0))]"

lemma delivered_at_most_maxReceives_witness:
  "count_list (fst (run_queue 4 demo_history [])) ''m'' \<le> 5 \<and> distinct (sent_ids demo_history)"
proof -
  have "distinct (sent_ids demo_history)" by code_simp
  then show ?thesis using delivered_at_most_maxReceives[of demo_history 4 "''m''"] by simp
qed

section \<open>No message is lost\<close>

lemma step_keeps:
  assumes "queue_ok q" "row q i = Some r" "op \<noteq> QAck i" "\<not> row_expired now r"
  shows "\<exists>r'. row (snd (queue_step days now op q)) i = Some r' \<and> m_body r' = m_body r \<and> m_expires_at r' = m_expires_at r"
proof (cases op)
  case (QSend mid body delay)
  then show ?thesis using assms by (simp add: row_send)
next
  case (QReceive timeout)
  obtain m q' where e: "receive (\<lambda>_. now) timeout q = (m, q')" by fastforce
  have "snd (queue_step days now op q) = q'" using QReceive e by (cases m) auto
  then show ?thesis using receive_fate(3)[OF assms(1) e assms(2)] assms(4)
    by (auto simp: row_fate_def claimed_def buried_def split: if_splits)
next
  case (QAck mid)
  then show ?thesis using assms by (simp add: row_ack)
next
  case QReceiveDlq
  then show ?thesis using row_receiveDlq[OF assms(1), where i = i and now = now] assms(2,4) by auto
qed

lemma run_keeps:
  assumes "queue_ok q" "row q i = Some r" "\<forall>(now, op) \<in> set ops. op \<noteq> QAck i \<and> \<not> row_expired now r"
  shows "\<exists>r'. row (snd (run_queue days ops q)) i = Some r' \<and> m_body r' = m_body r"
  using assms
proof (induction days ops q arbitrary: r rule: run_queue.induct)
  case (2 days now op ops q)
  obtain l q' where s: "queue_step days now op q = (l, q')" by fastforce
  obtain r' where r': "row q' i = Some r'" "m_body r' = m_body r" "m_expires_at r' = m_expires_at r"
    using step_keeps[OF 2(2,3), of op now days] 2(4) s by auto
  have "queue_ok q'" using queue_step_ok[OF 2(2), where op = op and days = days and now = now] s by simp
  moreover have "\<forall>(now, op) \<in> set ops. op \<noteq> QAck i \<and> \<not> row_expired now r'"
    using 2(4) r'(3) by (auto simp: row_expired_def)
  ultimately show ?case using 2(1)[OF s[symmetric] _ r'(1)] r'(2) s by (auto simp: case_prod_beta)
qed simp

text \<open>
  C8: At-least-once. After a successful send, whatever calls follow, as long as none of them
  acknowledges the message and the retention period has not passed, the message is still in the
  table, in the main part or among the dead letters, with the body that was sent.
\<close>

theorem sent_message_not_lost:
  assumes "queue_ok q" "send days t0 i body delay q = (Inr j, q')"
    and "\<forall>(now, op) \<in> set ops. op \<noteq> QAck i \<and> now < t0 + days * 24 * 3600 * 1000"
  shows "\<exists>r. row (snd (run_queue days ops q')) i = Some r \<and> m_body r = body"
proof -
  have e: "q' = snd (send days t0 i body delay q)" "\<not> isl (fst (send days t0 i body delay q))" using assms(2) by auto
  have "row q i = None" using assms(2) by (auto simp: send_def row_None_iff split: if_splits)
  then obtain r where r: "row q' i = Some r" "m_body r = body" "m_expires_at r = Some (t0 + days * 24 * 3600 * 1000)"
    using row_send[of days t0 i body delay q i] e by auto
  moreover have "queue_ok q'" using queue_ok_send[OF assms(1)] e by simp
  moreover have "\<forall>(now, op) \<in> set ops. op \<noteq> QAck i \<and> \<not> row_expired now r"
    using assms(3) r(3) by (auto simp: row_expired_def)
  ultimately show ?thesis using run_keeps by blast
qed

lemma sent_message_not_lost_witness:
  "\<exists>r. row (snd (run_queue 4 (tl demo_history) (snd (send 4 0 ''m'' ''1'' JUndef [])))) ''m'' = Some r \<and> m_body r = ''1''"
proof -
  have s: "send 4 0 ''m'' ''1'' JUndef [] = (Inr ''m'', snd (send 4 0 ''m'' ''1'' JUndef []))"
    by (simp add: send_def delay_bad_def MAX_PAYLOAD_SIZE_BYTES_def utf8_len_def)
  show ?thesis
    by (rule sent_message_not_lost[OF _ s]) (auto simp: queue_ok_def demo_history_def)
qed

section \<open>Invisible messages are not delivered\<close>

lemma step_hides:
  assumes "queue_ok q" "\<And>r. row q i = Some r \<Longrightarrow> m_is_dlq r \<or> horizon \<le> m_visible_after r" "now < horizon"
    and "\<And>mid body delay. op = QSend mid body delay \<Longrightarrow> mid \<noteq> i"
    and "row (snd (queue_step days now op q)) i = Some r'"
  shows "m_is_dlq r' \<or> horizon \<le> m_visible_after r'"
proof (cases op)
  case (QSend mid body delay)
  then show ?thesis using assms by (auto simp: row_send split: option.splits if_splits)
next
  case (QReceive timeout)
  obtain m q' where e: "receive (\<lambda>_. now) timeout q = (m, q')" by fastforce
  have q': "snd (queue_step days now op q) = q'" using QReceive e by (cases m) auto
  then obtain r where r: "row q i = Some r" using receive_fate(2)[OF assms(1) e] assms(5) by (cases "row q i") auto
  then show ?thesis using receive_fate(3)[OF assms(1) e r] assms(2)[OF r] assms(3,5) q'
    by (auto simp: row_fate_def claimed_def buried_def split: if_splits)
next
  case (QAck mid)
  then show ?thesis using assms by (auto simp: row_ack split: if_splits)
next
  case QReceiveDlq
  then show ?thesis using row_receiveDlq[OF assms(1), where i = i and now = now] assms(2,5)
    by (fastforce split: option.splits if_splits)
qed

lemma step_no_delivery:
  assumes "queue_ok q" "\<And>r. row q i = Some r \<Longrightarrow> m_is_dlq r \<or> horizon \<le> m_visible_after r" "now < horizon"
  shows "i \<notin> set (fst (queue_step days now op q))"
proof (cases op)
  case (QReceive timeout)
  obtain m q' where e: "receive (\<lambda>_. now) timeout q = (m, q')" by fastforce
  have "\<not> delivers m i"
  proof (cases "row q i")
    case None
    then show ?thesis using receive_fate(2)[OF assms(1) e] by simp
  next
    case (Some r)
    then show ?thesis using receive_fate(3)[OF assms(1) e Some] assms(2)[OF Some] assms(3) row_id[OF Some]
      by (auto simp: row_fate_def split: if_splits)
  qed
  then show ?thesis using QReceive e by (cases m) auto
qed simp_all

lemma run_hides:
  assumes "queue_ok q" "\<And>r. row q i = Some r \<Longrightarrow> m_is_dlq r \<or> horizon \<le> m_visible_after r"
    and "\<forall>(now, op) \<in> set ops. now < horizon" "i \<notin> set (sent_ids ops)"
  shows "i \<notin> set (fst (run_queue days ops q))"
  using assms
proof (induction days ops q rule: run_queue.induct)
  case (2 days now op ops q)
  obtain l q' where s: "queue_step days now op q = (l, q')" by fastforce
  have n: "now < horizon" using 2(4) by simp
  have ni: "mid \<noteq> i" if "op = QSend mid body delay" for mid body delay using 2(5) that by auto
  have "i \<notin> set l" using step_no_delivery[OF 2(2,3) n, where days = days and op = op] s by simp
  moreover have "queue_ok q'" using queue_step_ok[OF 2(2), where op = op and days = days and now = now] s by simp
  moreover have "i \<notin> set (sent_ids ops)" using 2(5) by (cases op) auto
  moreover have "m_is_dlq r \<or> horizon \<le> m_visible_after r" if "row q' i = Some r" for r
    using step_hides[OF 2(2,3) n ni, where days = days and r' = r] s that by simp
  ultimately show ?case using 2(1)[OF s[symmetric]] 2(4) s by (simp add: case_prod_beta)
qed simp

text \<open>
  A message delivered at time \<open>t\<close> with visibility timeout \<open>T\<close> is not delivered again before
  \<open>t + T\<close>, whatever calls other clients make in between.
\<close>

theorem visibility_timeout:
  assumes "queue_ok q" "receive (\<lambda>_. t) (Some T) q = (Some m, q')"
    and "\<forall>(now, op) \<in> set ops. now < t + T" "msg_id m \<notin> set (sent_ids ops)"
  shows "msg_id m \<notin> set (fst (run_queue days ops q'))"
proof (rule run_hides[OF _ _ assms(3,4)])
  show "queue_ok q'" using receive_fate(1)[OF assms(1,2)] .
  fix r assume r': "row q' (msg_id m) = Some r"
  then obtain r0 where r0: "row q (msg_id m) = Some r0" using receive_fate(2)[OF assms(1,2)] by (cases "row q (msg_id m)") auto
  then show "m_is_dlq r \<or> t + T \<le> m_visible_after r"
    using receive_fate(3)[OF assms(1,2) r0] r' row_id[OF r0] by (auto simp: row_fate_def claimed_def split: if_splits)
qed

lemma visibility_timeout_witness:
  "''m'' \<notin> set (fst (run_queue 4 [(5, QReceive None), (9, QReceive None)] (snd (receive (\<lambda>_. 1) (Some 10) (snd (send 4 0 ''m'' ''1'' JUndef []))))))"
proof -
  let ?q = "snd (send 4 0 ''m'' ''1'' JUndef [])"
  have q: "?q = [\<lparr>m_id = ''m'', m_body = ''1'', m_attempts = 0, m_visible_after = 0, m_is_dlq = False, m_expires_at = Some 345600000\<rparr>]"
    by (simp add: send_def delay_bad_def MAX_PAYLOAD_SIZE_BYTES_def utf8_len_def delay_ms_def)
  have r: "receive (\<lambda>_. 1) (Some 10) ?q = (Some \<lparr>msg_id = ''m'', msg_body = ''1'', msg_attempts = 1\<rparr>, snd (receive (\<lambda>_. 1) (Some 10) ?q))"
    by (simp add: q receive_def receive_loop.simps purgeExpired_def row_expired_def visible_rows_def maxReceives_def)
  have "queue_ok ?q" by (simp add: q queue_ok_def)
  from visibility_timeout[OF this r, of "[(5, QReceive None), (9, QReceive None)]" 4] show ?thesis by simp
qed

lemma least_row_None: "least_row q = None \<longleftrightarrow> q = []"
  by (cases q) (auto split: option.splits)

lemma receive_loop_None:
  assumes "receive_loop clk n timeout q = (None, q')"
  shows "\<exists>k. visible_rows False (clk k) q' = []"
  using assms
proof (induction clk n timeout q rule: receive_loop.induct)
  case (1 clk n timeout q)
  let ?q1 = "purgeExpired (clk n) q"
  show ?case
  proof (cases "least_row (visible_rows False (clk n) ?q1)")
    case None
    then have "q' = ?q1" using 1(2) by (subst (asm) receive_loop.simps) (simp add: Let_def)
    then show ?thesis using None least_row_None by blast
  next
    case (Some r)
    then have "maxReceives < m_attempts r + 1" "receive_loop clk (n + 1) timeout
        (upd (m_id r) buried (upd (m_id r) (claimed (clk n + timeout)) ?q1)) = (None, q')"
      using 1(2) by (subst (asm) receive_loop.simps; simp add: Let_def split: if_splits)+
    then show ?thesis using 1(1)[OF refl refl Some refl refl] by simp
  qed
qed

text \<open>
  \<open>receive\<close> does not starve the queue: whenever some unexpired message of the main part is
  visible and has been delivered fewer than five times, it returns a message.
\<close>

theorem receive_progress:
  assumes "queue_ok q" "row q i = Some r" "\<not> row_expired now r" "\<not> m_is_dlq r"
    "m_visible_after r \<le> now" "m_attempts r < maxReceives"
  shows "\<exists>m. fst (receive (\<lambda>_. now) timeout q) = Some m \<and> msg_attempts m \<le> maxReceives"
proof -
  obtain m q' where e: "receive (\<lambda>_. now) timeout q = (m, q')" by fastforce
  show ?thesis
  proof (cases m)
    case None
    then have v: "visible_rows False now q' = []" using receive_loop_None[of "\<lambda>_. now"] e by (auto simp: receive_def)
    have "row q' i = Some r" using receive_fate(3)[OF assms(1) e assms(2)] None assms(3,6) by (auto simp: row_fate_def)
    then have "r \<in> set q'" using receive_fate(1)[OF assms(1) e] by (simp add: row_Some_iff)
    then have "r \<in> set (visible_rows False now q')" using assms(4,5) by (simp add: visible_rows_def)
    then show ?thesis using v by simp
  next
    case (Some x)
    have "delivers m (msg_id x)" using Some by simp
    then obtain r0 where r0: "row q (msg_id x) = Some r0" using receive_fate(2)[OF assms(1) e] by (cases "row q (msg_id x)") auto
    have "x = \<lparr>msg_id = m_id r0, msg_body = m_body r0, msg_attempts = m_attempts r0 + 1\<rparr>" and "m_attempts r0 < maxReceives"
      using receive_fate(3)[OF assms(1) e r0] Some row_id[OF r0] by (auto simp: row_fate_def split: if_splits)
    from this(1)[THEN arg_cong[where f = msg_attempts]] this(2) show ?thesis using Some e by simp
  qed
qed

lemma receive_progress_witness:
  "\<exists>m. fst (receive (\<lambda>_. 1) None [\<lparr>m_id = ''m'', m_body = ''1'', m_attempts = 4, m_visible_after = 0, m_is_dlq = False, m_expires_at = None\<rparr>]) = Some m"
proof -
  let ?r = "\<lparr>m_id = ''m'', m_body = ''1'', m_attempts = 4, m_visible_after = 0, m_is_dlq = False, m_expires_at = None\<rparr>"
  have "queue_ok [?r]" "row [?r] ''m'' = Some ?r" by (simp_all add: queue_ok_def row_def)
  from receive_progress[OF this, of 1 None] show ?thesis by (auto simp: row_expired_def maxReceives_def)
qed

end
