(* ===== verification/Retry.thy ===== *)
theory Retry
  imports Errors
begin

text \<open>
  \<open>packages/policy/retry.ts\<close>: decorrelated jitter, the idempotency rule and the retry loop. The
  operation is a function of the attempt number, the random source a function of the attempt and
  the bounds; the loop returns the outcome and the sleeps it made.

  Shown: the loop ends after at most \<open>maxAttempts\<close> calls (one at least), with the first success or
  the last error, and every sleep lies between the base and the cap and grows at most threefold.
\<close>

definition DEFAULT_BASE_MS :: rat where "DEFAULT_BASE_MS = 100"
definition DEFAULT_CAP_MS :: rat where "DEFAULT_CAP_MS = 20000"
definition DEFAULT_MAX_ATTEMPTS :: int where "DEFAULT_MAX_ATTEMPTS = 5"
definition JITTER_MULTIPLIER :: rat where "JITTER_MULTIPLIER = 3"
definition IDEMPOTENCY_KEY_HEADER :: string where "IDEMPOTENCY_KEY_HEADER = ''idempotency-key''"

record RetryPolicyOptions =
  baseMs :: "rat option"
  capMs :: "rat option"
  maxAttempts :: "int option"
  randomUniform :: "(nat \<Rightarrow> rat \<Rightarrow> rat \<Rightarrow> rat) option"
  shouldRetry :: "(exn \<Rightarrow> nat \<Rightarrow> bool) option"

record RetryState =
  attempt :: nat
  lastSleepMs :: rat

text \<open>\<open>Math.random()\<close> is an argument.\<close>

definition defaultRandomUniform :: "(nat \<Rightarrow> rat) \<Rightarrow> nat \<Rightarrow> rat \<Rightarrow> rat \<Rightarrow> rat" where
  "defaultRandomUniform rnd n lo hi = rnd n * (hi - lo) + lo"

definition calculateNextSleep :: "(nat \<Rightarrow> rat) \<Rightarrow> RetryState \<Rightarrow> RetryPolicyOptions \<Rightarrow> rat" where
  "calculateNextSleep rnd st opts =
     (let base = or_default (baseMs opts) DEFAULT_BASE_MS;
          cap = or_default (capMs opts) DEFAULT_CAP_MS
      in if attempt st = 0 then base
         else let rng = or_default (randomUniform opts) (defaultRandomUniform rnd);
                  upperRange = max base (lastSleepMs st * JITTER_MULTIPLIER)
              in min cap (rng (attempt st) base upperRange))"

section \<open>Idempotency\<close>

text \<open>
  The headers of a request: absent, a \<open>Headers\<close> object (names in lower case, values of a repeated
  name joined with a comma) or a plain record, whose values need not be strings.
\<close>

datatype headers = NoHeaders | HeadersObject "(string \<times> string) list" | PlainRecord "(string \<times> jsval) list"

definition headers_get :: "(string \<times> string) list \<Rightarrow> string \<Rightarrow> string option" where
  "headers_get hs name =
     (case filter (\<lambda>e. to_lower (fst e) = to_lower name) hs of
        [] \<Rightarrow> None
      | es \<Rightarrow> Some (join_with '', '' (map snd es)))"

fun record_idempotency :: "(string \<times> jsval) list \<Rightarrow> bool" where
  "record_idempotency [] = False"
| "record_idempotency ((k, v) # es) =
     (if to_lower k = IDEMPOTENCY_KEY_HEADER
      then (case v of JStr s \<Rightarrow> trim s \<noteq> [] | _ \<Rightarrow> False)
      else record_idempotency es)"

fun hasValidIdempotencyKey :: "headers \<Rightarrow> bool" where
  "hasValidIdempotencyKey NoHeaders = False"
| "hasValidIdempotencyKey (HeadersObject hs) =
     (case headers_get hs IDEMPOTENCY_KEY_HEADER of None \<Rightarrow> False | Some v \<Rightarrow> trim v \<noteq> [])"
| "hasValidIdempotencyKey (PlainRecord es) = record_idempotency es"

definition isIdempotentRetryAllowed :: "string \<Rightarrow> headers \<Rightarrow> bool" where
  "isIdempotentRetryAllowed meth hs =
     (let normalizedMethod = to_upper (trim meth) in
      if normalizedMethod = ''GET'' \<or> normalizedMethod = ''HEAD'' then True
      else hasValidIdempotencyKey hs)"

section \<open>The loop\<close>

record 'a retry_result =
  result :: "'a res"
  sleeps :: "rat list"

definition refused :: "RetryPolicyOptions \<Rightarrow> exn \<Rightarrow> nat \<Rightarrow> bool" where
  "refused opts e n = (case shouldRetry opts of None \<Rightarrow> False | Some f \<Rightarrow> \<not> f e n)"

function retry_loop ::
  "(nat \<Rightarrow> rat) \<Rightarrow> (nat \<Rightarrow> 'a res) \<Rightarrow> RetryPolicyOptions \<Rightarrow> nat \<Rightarrow> rat \<Rightarrow> 'a retry_result" where
  "retry_loop rnd operation opts n prev =
     (case operation n of
        Inr x \<Rightarrow> \<lparr>result = Inr x, sleeps = []\<rparr>
      | Inl e \<Rightarrow>
          if refused opts e n then \<lparr>result = Inl e, sleeps = []\<rparr>
          else if or_default (maxAttempts opts) DEFAULT_MAX_ATTEMPTS \<le> int n + 1 then \<lparr>result = Inl e, sleeps = []\<rparr>
          else let sleepMs = calculateNextSleep rnd \<lparr>attempt = n, lastSleepMs = prev\<rparr> opts;
                   r = retry_loop rnd operation opts (n + 1) sleepMs
               in r\<lparr>sleeps := sleepMs # sleeps r\<rparr>)"
  by pat_completeness auto
termination
  by (relation "measure (\<lambda>(rnd, operation, opts, n, prev).
        nat (or_default (maxAttempts opts) DEFAULT_MAX_ATTEMPTS - int n))") auto

declare retry_loop.simps [simp del]

definition withRetry :: "(nat \<Rightarrow> rat) \<Rightarrow> (nat \<Rightarrow> 'a res) \<Rightarrow> RetryPolicyOptions \<Rightarrow> 'a retry_result" where
  "withRetry rnd operation opts = retry_loop rnd operation opts 0 0"

section \<open>Attempts\<close>

lemma retry_loop_calls:
  "\<exists>m. n \<le> m \<and> int m < max (int n + 1) (or_default (maxAttempts opts) DEFAULT_MAX_ATTEMPTS) \<and>
     result (retry_loop rnd operation opts n prev) = operation m \<and>
     length (sleeps (retry_loop rnd operation opts n prev)) = m - n \<and>
     (\<forall>i. n \<le> i \<and> i < m \<longrightarrow> (\<exists>e. operation i = Inl e \<and> \<not> refused opts e i)) \<and>
     (\<forall>e. operation m = Inl e \<longrightarrow> refused opts e m \<or> or_default (maxAttempts opts) DEFAULT_MAX_ATTEMPTS \<le> int m + 1)"
proof (induction rnd operation opts n prev rule: retry_loop.induct)
  case (1 rnd operation opts n prev)
  show ?case
  proof (cases "operation n")
    case (Inr x)
    then show ?thesis by (intro exI[of _ n]) (auto simp: retry_loop.simps)
  next
    case (Inl e)
    let ?mx = "or_default (maxAttempts opts) DEFAULT_MAX_ATTEMPTS"
    show ?thesis
    proof (cases "refused opts e n \<or> ?mx \<le> int n + 1")
      case True
      then show ?thesis using Inl by (intro exI[of _ n]) (auto simp: retry_loop.simps)
    next
      case False
      define s where "s = calculateNextSleep rnd \<lparr>attempt = n, lastSleepMs = prev\<rparr> opts"
      have u: "retry_loop rnd operation opts n prev =
          (let r = retry_loop rnd operation opts (n + 1) s in r\<lparr>sleeps := s # sleeps r\<rparr>)"
        using Inl False by (subst retry_loop.simps) (simp add: s_def Let_def)
      obtain m where m: "n + 1 \<le> m" "int m < max (int (n + 1) + 1) ?mx"
        "result (retry_loop rnd operation opts (n + 1) s) = operation m"
        "length (sleeps (retry_loop rnd operation opts (n + 1) s)) = m - (n + 1)"
        "\<forall>i. n + 1 \<le> i \<and> i < m \<longrightarrow> (\<exists>e. operation i = Inl e \<and> \<not> refused opts e i)"
        "\<forall>e. operation m = Inl e \<longrightarrow> refused opts e m \<or> ?mx \<le> int m + 1"
        using 1[OF Inl _ _ s_def] False by auto
      have "\<exists>e'. operation i = Inl e' \<and> \<not> refused opts e' i" if "n \<le> i" "i < m" for i
        using m(5) that Inl False by (cases "i = n") auto
      then show ?thesis using m False by (intro exI[of _ m]) (auto simp: u Let_def)
    qed
  qed
qed

text \<open>
  \<open>withRetry\<close> always returns, after at least one and at most \<open>maxAttempts\<close> calls (one if that is
  not positive). Its result is that of the last call \<open>m\<close>: all calls before it failed with errors the
  policy lets through, it sleeps once per failed call before the last, and if the last call failed
  too, either the policy refused a retry or the attempts were used up.
\<close>

theorem withRetry_bounded:
  "\<exists>m. int m < max 1 (or_default (maxAttempts opts) DEFAULT_MAX_ATTEMPTS) \<and>
     result (withRetry rnd operation opts) = operation m \<and>
     length (sleeps (withRetry rnd operation opts)) = m \<and>
     (\<forall>i < m. \<exists>e. operation i = Inl e \<and> \<not> refused opts e i) \<and>
     (\<forall>e. operation m = Inl e \<longrightarrow> refused opts e m \<or> or_default (maxAttempts opts) DEFAULT_MAX_ATTEMPTS \<le> int m + 1)"
  using retry_loop_calls[of 0 opts rnd operation 0] by (simp add: withRetry_def)

definition demo_opts :: RetryPolicyOptions where
  "demo_opts = \<lparr>baseMs = None, capMs = None, maxAttempts = Some 3, randomUniform = None, shouldRetry = None\<rparr>"

lemma withRetry_bounded_witness:
  "\<exists>m. int m < 3 \<and> result (withRetry (\<lambda>_. 1 / 2) (\<lambda>n. if n < 2 then Inl (PlainError ''x'') else Inr (7 :: int)) demo_opts) =
     (if m < 2 then Inl (PlainError ''x'') else Inr 7)"
  using withRetry_bounded[of demo_opts "\<lambda>_. 1 / 2" "\<lambda>n. if n < 2 then Inl (PlainError ''x'') else Inr (7 :: int)"]
  by (auto simp: demo_opts_def)

section \<open>Sleeps\<close>

text \<open>What the loop needs of a random source: it stays within the bounds it is given.\<close>

definition rng_ok :: "(nat \<Rightarrow> rat \<Rightarrow> rat \<Rightarrow> rat) \<Rightarrow> bool" where
  "rng_ok rng = (\<forall>n lo hi. lo \<le> hi \<longrightarrow> lo \<le> rng n lo hi \<and> rng n lo hi \<le> hi)"

lemma defaultRandomUniform_ok: "(\<And>n. 0 \<le> rnd n \<and> rnd n < 1) \<Longrightarrow> rng_ok (defaultRandomUniform rnd)"
proof (unfold rng_ok_def, intro allI impI conjI)
  fix n and lo hi :: rat
  assume r: "\<And>n. 0 \<le> rnd n \<and> rnd n < 1" and l: "lo \<le> hi"
  have "0 \<le> rnd n * (hi - lo)" using r[of n] l by (intro mult_nonneg_nonneg) auto
  then show "lo \<le> defaultRandomUniform rnd n lo hi" by (simp add: defaultRandomUniform_def)
  have "rnd n * (hi - lo) \<le> 1 * (hi - lo)" using r[of n] l by (intro mult_right_mono) auto
  then show "defaultRandomUniform rnd n lo hi \<le> hi" by (simp add: defaultRandomUniform_def)
qed

lemma next_sleep_bounds:
  assumes "rng_ok (or_default (randomUniform opts) (defaultRandomUniform rnd))"
    and b: "b = or_default (baseMs opts) DEFAULT_BASE_MS" and c: "c = or_default (capMs opts) DEFAULT_CAP_MS"
    and "0 \<le> b" "b \<le> c" "attempt st = 0 \<or> b \<le> lastSleepMs st"
    and s: "s = calculateNextSleep rnd st opts"
  shows "b \<le> s" "s \<le> c" "attempt st \<noteq> 0 \<Longrightarrow> s \<le> 3 * lastSleepMs st"
proof -
  define u where "u = max b (lastSleepMs st * JITTER_MULTIPLIER)"
  define x where "x = or_default (randomUniform opts) (defaultRandomUniform rnd) (attempt st) b u"
  have x: "b \<le> x" "x \<le> u" using assms(1) by (auto simp: x_def u_def rng_ok_def)
  have s': "s = (if attempt st = 0 then b else min c x)"
    by (simp add: s calculateNextSleep_def Let_def b c x_def u_def)
  show "b \<le> s" "s \<le> c" using s' x assms(5) by (auto simp: min_def)
  show "s \<le> 3 * lastSleepMs st" if "attempt st \<noteq> 0"
  proof -
    have l: "b \<le> lastSleepMs st" using assms(6) that by simp
    then have "lastSleepMs st * 1 \<le> lastSleepMs st * 3" using assms(4) by (intro mult_left_mono) auto
    then have "u = 3 * lastSleepMs st" using l by (simp add: u_def JITTER_MULTIPLIER_def max_def)
    then show ?thesis using s' x that by (auto simp: min_def)
  qed
qed

fun chain_ok :: "rat \<Rightarrow> rat list \<Rightarrow> bool" where
  "chain_ok prev [] = True"
| "chain_ok prev (s # ss) = (s \<le> 3 * prev \<and> chain_ok s ss)"

lemma retry_loop_sleeps:
  assumes "rng_ok (or_default (randomUniform opts) (defaultRandomUniform rnd))"
    and "b = or_default (baseMs opts) DEFAULT_BASE_MS" "c = or_default (capMs opts) DEFAULT_CAP_MS" "0 \<le> b" "b \<le> c"
    and "n = 0 \<or> b \<le> prev"
  shows "(\<forall>s \<in> set (sleeps (retry_loop rnd operation opts n prev)). b \<le> s \<and> s \<le> c) \<and>
    (n \<noteq> 0 \<longrightarrow> chain_ok prev (sleeps (retry_loop rnd operation opts n prev))) \<and>
    (n = 0 \<longrightarrow> (case sleeps (retry_loop rnd operation opts n prev) of [] \<Rightarrow> True | s # ss \<Rightarrow> s = b \<and> chain_ok s ss))"
  using assms
proof (induction rnd operation opts n prev rule: retry_loop.induct)
  case (1 rnd operation opts n prev)
  show ?case
  proof (cases "\<exists>e. operation n = Inl e \<and> \<not> refused opts e n \<and> \<not> or_default (maxAttempts opts) DEFAULT_MAX_ATTEMPTS \<le> int n + 1")
    case False
    then have "sleeps (retry_loop rnd operation opts n prev) = []"
      by (subst retry_loop.simps) (auto split: sum.splits)
    then show ?thesis by auto
  next
    case True
    then obtain e where e: "operation n = Inl e" "\<not> refused opts e n"
      "\<not> or_default (maxAttempts opts) DEFAULT_MAX_ATTEMPTS \<le> int n + 1" by blast
    define s where "s = calculateNextSleep rnd \<lparr>attempt = n, lastSleepMs = prev\<rparr> opts"
    have u: "sleeps (retry_loop rnd operation opts n prev) = s # sleeps (retry_loop rnd operation opts (n + 1) s)"
      using e by (subst retry_loop.simps) (simp add: s_def Let_def)
    have nb: "b \<le> s" "s \<le> c" "n \<noteq> 0 \<Longrightarrow> s \<le> 3 * prev"
      using next_sleep_bounds[OF 1(2-6) _ s_def] 1(7) by simp_all
    have z: "n = 0 \<Longrightarrow> s = b" using 1(3) by (simp add: s_def calculateNextSleep_def Let_def)
    have r: "(\<forall>s' \<in> set (sleeps (retry_loop rnd operation opts (n + 1) s)). b \<le> s' \<and> s' \<le> c) \<and>
        chain_ok s (sleeps (retry_loop rnd operation opts (n + 1) s))"
      using 1(1)[OF e s_def 1(2-6)] nb(1) by simp
    show ?thesis unfolding u using r nb z by auto
  qed
qed

text \<open>
  With a random source that respects its bounds (the default one does) and \<open>0 \<le> base \<le> cap\<close>,
  the first sleep is the base, every sleep lies between base and cap, and each is at most three
  times the one before.
\<close>

theorem sleeps_follow_decorrelated_jitter:
  assumes "rng_ok (or_default (randomUniform opts) (defaultRandomUniform rnd))"
    and "b = or_default (baseMs opts) DEFAULT_BASE_MS" "c = or_default (capMs opts) DEFAULT_CAP_MS" "0 \<le> b" "b \<le> c"
  shows "(\<forall>s \<in> set (sleeps (withRetry rnd operation opts)). b \<le> s \<and> s \<le> c) \<and>
    (case sleeps (withRetry rnd operation opts) of [] \<Rightarrow> True | s # ss \<Rightarrow> s = b \<and> chain_ok s ss)"
  using retry_loop_sleeps[OF assms, of 0 0 operation] by (simp add: withRetry_def)

lemma sleeps_follow_decorrelated_jitter_witness:
  "sleeps (withRetry (\<lambda>_. 1 / 2) (\<lambda>n. Inl (PlainError ''x'') :: int res) demo_opts) = [100, 200] \<and>
   list_all (\<lambda>s. 100 \<le> s \<and> s \<le> 20000) (sleeps (withRetry (\<lambda>_. 1 / 2) (\<lambda>n. Inl (PlainError ''x'') :: int res) demo_opts))"
proof -
  have r: "rng_ok (or_default (randomUniform demo_opts) (defaultRandomUniform (\<lambda>_. 1 / 2)))"
    using defaultRandomUniform_ok[of "\<lambda>_. 1 / 2"] by (simp add: demo_opts_def)
  have "list_all (\<lambda>s. 100 \<le> s \<and> s \<le> 20000) (sleeps (withRetry (\<lambda>_. 1 / 2) (\<lambda>n. Inl (PlainError ''x'') :: int res) demo_opts))"
    unfolding list_all_iff
    using sleeps_follow_decorrelated_jitter[OF r refl refl, of "\<lambda>n. Inl (PlainError ''x'') :: int res"]
    by (simp add: demo_opts_def DEFAULT_BASE_MS_def DEFAULT_CAP_MS_def)
  then show ?thesis
    by (simp add: withRetry_def retry_loop.simps refused_def demo_opts_def calculateNextSleep_def Let_def
        DEFAULT_BASE_MS_def DEFAULT_CAP_MS_def defaultRandomUniform_def JITTER_MULTIPLIER_def)
qed

section \<open>Eligibility\<close>

lemma bare_request_not_retried:
  assumes "to_upper (trim meth) \<notin> {''GET'', ''HEAD''}" "\<And>k v. (k, v) \<in> set es \<Longrightarrow> to_lower k \<noteq> IDEMPOTENCY_KEY_HEADER"
  shows "\<not> isIdempotentRetryAllowed meth (PlainRecord es)" "\<not> isIdempotentRetryAllowed meth NoHeaders"
proof -
  have "\<not> record_idempotency es" using assms(2) by (induction es rule: record_idempotency.induct) auto
  then show "\<not> isIdempotentRetryAllowed meth (PlainRecord es)" "\<not> isIdempotentRetryAllowed meth NoHeaders"
    using assms(1) by (simp_all add: isIdempotentRetryAllowed_def Let_def)
qed

end
