(* ===== verification/QueueConsumer.thy ===== *)
theory QueueConsumer
  imports Queue Retry
begin

text \<open>
  \<open>apps/worker/queue-consumer.ts\<close> and the worker cycle of \<open>apps/worker/worker-supervisor.ts\<close>: a worker
  receives a message, invokes the target function and acknowledges, leaves or buries the message.
  The provider is a pair of functions on its state \<open>'s\<close>, the function a partial one that answers
  with an error or nothing; the dead letter provider is optional and its errors are ignored.

  Shown: against the contract of a queue (the locale \<open>queue_contract\<close>, which the SQLite provider
  meets) a worker removes a message exactly when it was handled or has used up its receives, and
  loses nothing else; without a dead letter provider, and with the SQLite provider's own one, an
  exhausted message is dropped; the polling sleeps of the resilient worker stay between base and cap.
\<close>

section \<open>Options and provider\<close>

definition DEFAULT_VISIBILITY_TIMEOUT_MS :: rat where "DEFAULT_VISIBILITY_TIMEOUT_MS = 30000"
definition DEFAULT_MAX_RECEIVES :: int where "DEFAULT_MAX_RECEIVES = 5"
definition DEFAULT_POLL_INTERVAL_MS :: rat where "DEFAULT_POLL_INTERVAL_MS = 100"

record 's QueueConsumerOptions =
  queueName :: string
  targetFunctionName :: string
  opt_visibilityTimeoutMs :: "rat option"
  opt_maxReceives :: "int option"
  opt_pollIntervalMs :: "rat option"
  dlqProvider :: "(string \<Rightarrow> 's \<Rightarrow> 's) option"

record 's queue_provider =
  p_receive :: "rat \<Rightarrow> 's \<Rightarrow> QueueMessage option res \<times> 's"
  p_ack :: "string \<Rightarrow> 's \<Rightarrow> unit res \<times> 's"

definition c_maxReceives :: "'s QueueConsumerOptions \<Rightarrow> int" where
  "c_maxReceives opts = or_default (opt_maxReceives opts) DEFAULT_MAX_RECEIVES"

definition c_visibilityTimeoutMs :: "'s QueueConsumerOptions \<Rightarrow> rat" where
  "c_visibilityTimeoutMs opts = or_default (opt_visibilityTimeoutMs opts) DEFAULT_VISIBILITY_TIMEOUT_MS"

definition c_pollIntervalMs :: "'s QueueConsumerOptions \<Rightarrow> rat" where
  "c_pollIntervalMs opts = or_default (opt_pollIntervalMs opts) DEFAULT_POLL_INTERVAL_MS"

section \<open>Processing one message\<close>

text \<open>The error branch: an exhausted message goes to the dead letter provider and is acknowledged.\<close>

definition bury_exhausted ::
  "'s queue_provider \<Rightarrow> (string \<Rightarrow> 's \<Rightarrow> 's) option \<Rightarrow> int \<Rightarrow> QueueMessage \<Rightarrow> 's \<Rightarrow> 's" where
  "bury_exhausted p dlq maxRecv m s =
     (if maxRecv \<le> msg_attempts m
      then let s1 = (case dlq of None \<Rightarrow> s | Some f \<Rightarrow> f (msg_body m) s) in snd (p_ack p (msg_id m) s1)
      else s)"

datatype poll = PollFailed | Empty | Handled bool

text \<open>What a poll found and whether the message was processed, with the state after it.\<close>

definition poll_once ::
  "'s queue_provider \<Rightarrow> 's QueueConsumerOptions \<Rightarrow> (string \<Rightarrow> QueueMessage \<Rightarrow> exn option) \<Rightarrow> 's \<Rightarrow> poll \<times> 's" where
  "poll_once p opts invokeFunction s =
     (case p_receive p (c_visibilityTimeoutMs opts) s of
        (Inl e, s1) \<Rightarrow> (PollFailed, s1)
      | (Inr None, s1) \<Rightarrow> (Empty, s1)
      | (Inr (Some m), s1) \<Rightarrow>
          (case invokeFunction (targetFunctionName opts) m of
             Some err \<Rightarrow> (Handled False, bury_exhausted p (dlqProvider opts) (c_maxReceives opts) m s1)
           | None \<Rightarrow>
               (case p_ack p (msg_id m) s1 of
                  (Inr _, s2) \<Rightarrow> (Handled True, s2)
                | (Inl e, s2) \<Rightarrow> (Handled False, s2))))"

text \<open>\<open>QueueConsumerWorker.processNext\<close>\<close>

definition processNext ::
  "'s queue_provider \<Rightarrow> 's QueueConsumerOptions \<Rightarrow> (string \<Rightarrow> QueueMessage \<Rightarrow> exn option) \<Rightarrow> 's \<Rightarrow> bool \<times> 's" where
  "processNext p opts invokeFunction s =
     (case poll_once p opts invokeFunction s of
        (Handled b, s') \<Rightarrow> (b, s')
      | (_, s') \<Rightarrow> (False, s'))"

text \<open>The fixed-interval loop, for a number of rounds before \<open>stop\<close>: the sleeps it makes.\<close>

fun runLoop ::
  "nat \<Rightarrow> 's queue_provider \<Rightarrow> 's QueueConsumerOptions \<Rightarrow> (nat \<Rightarrow> string \<Rightarrow> QueueMessage \<Rightarrow> exn option) \<Rightarrow> 's \<Rightarrow> rat list \<times> 's" where
  "runLoop 0 p opts invokeFunction s = ([], s)"
| "runLoop (Suc n) p opts invokeFunction s =
     (case processNext p opts (invokeFunction n) s of
        (processed, s1) \<Rightarrow>
          (case runLoop n p opts invokeFunction s1 of
             (ss, s2) \<Rightarrow> ((if processed then ss else c_pollIntervalMs opts # ss), s2)))"

section \<open>The resilient worker\<close>

record backoff_state =
  consecutiveEmptyPolls :: nat
  w_lastSleepMs :: rat

text \<open>\<open>ResilientQueueConsumerWorker.processNext\<close>: it also counts the polls that found nothing.\<close>

definition r_processNext ::
  "'s queue_provider \<Rightarrow> 's QueueConsumerOptions \<Rightarrow> (string \<Rightarrow> QueueMessage \<Rightarrow> exn option) \<Rightarrow>
   backoff_state \<times> 's \<Rightarrow> bool \<times> backoff_state \<times> 's" where
  "r_processNext p opts invokeFunction ws =
     (case ws of (w, s) \<Rightarrow>
        (case poll_once p opts invokeFunction s of
           (PollFailed, s') \<Rightarrow> (False, w\<lparr>consecutiveEmptyPolls := consecutiveEmptyPolls w + 1\<rparr>, s')
         | (Empty, s') \<Rightarrow> (False, w\<lparr>consecutiveEmptyPolls := consecutiveEmptyPolls w + 1\<rparr>, s')
         | (Handled True, s') \<Rightarrow> (True, w\<lparr>consecutiveEmptyPolls := 0, w_lastSleepMs := 0\<rparr>, s')
         | (Handled False, s') \<Rightarrow> (False, w, s')))"

definition retry_policy :: "RetryPolicyOptions option \<Rightarrow> RetryPolicyOptions" where
  "retry_policy rp =
     (case rp of
        None \<Rightarrow> \<lparr>baseMs = Some DEFAULT_BASE_MS, capMs = Some DEFAULT_CAP_MS,
                 RetryPolicyOptions.maxAttempts = Some DEFAULT_MAX_RECEIVES, randomUniform = None, shouldRetry = None\<rparr>
      | Some o' \<Rightarrow> \<lparr>baseMs = Some (or_default (baseMs o') DEFAULT_BASE_MS),
                  capMs = Some (or_default (capMs o') DEFAULT_CAP_MS),
                  RetryPolicyOptions.maxAttempts = Some (or_default (RetryPolicyOptions.maxAttempts o') DEFAULT_MAX_RECEIVES),
                  randomUniform = randomUniform o', shouldRetry = shouldRetry o'\<rparr>)"

definition r_sleep :: "(nat \<Rightarrow> rat) \<Rightarrow> RetryPolicyOptions \<Rightarrow> backoff_state \<Rightarrow> rat" where
  "r_sleep rnd policy w =
     calculateNextSleep rnd \<lparr>attempt = consecutiveEmptyPolls w - 1, lastSleepMs = w_lastSleepMs w\<rparr> policy"

fun r_runLoop ::
  "nat \<Rightarrow> (nat \<Rightarrow> nat \<Rightarrow> rat) \<Rightarrow> RetryPolicyOptions \<Rightarrow> 's queue_provider \<Rightarrow> 's QueueConsumerOptions \<Rightarrow>
   (nat \<Rightarrow> string \<Rightarrow> QueueMessage \<Rightarrow> exn option) \<Rightarrow> backoff_state \<times> 's \<Rightarrow> rat list \<times> backoff_state \<times> 's" where
  "r_runLoop 0 rnd policy p opts invokeFunction ws = ([], ws)"
| "r_runLoop (Suc n) rnd policy p opts invokeFunction ws =
     (case r_processNext p opts (invokeFunction n) ws of
        (processed, w1, s1) \<Rightarrow>
          if processed then r_runLoop n rnd policy p opts invokeFunction (w1, s1)
          else let sleepMs = r_sleep (rnd n) policy w1 in
               (case r_runLoop n rnd policy p opts invokeFunction (w1\<lparr>w_lastSleepMs := sleepMs\<rparr>, s1) of
                  (ss, ws') \<Rightarrow> (sleepMs # ss, ws')))"

section \<open>The supervised worker\<close>

definition MAX_RECEIVES_BEFORE_DLQ :: int where "MAX_RECEIVES_BEFORE_DLQ = 5"

text \<open>
  \<open>runWorkerCycle\<close>: a failing \<open>receive\<close> escapes to the supervisor; a failing run, and a failing
  acknowledgement after a successful one, are handled like a failed message.
\<close>

definition runWorkerCycle ::
  "'s queue_provider \<Rightarrow> (string \<Rightarrow> 's \<Rightarrow> 's) option \<Rightarrow> (QueueMessage \<Rightarrow> exn option) \<Rightarrow> 's \<Rightarrow> unit res \<times> 's" where
  "runWorkerCycle p dlq compute s =
     (case p_receive p 30000 s of
        (Inl e, s1) \<Rightarrow> (Inl e, s1)
      | (Inr None, s1) \<Rightarrow> (Inr (), s1)
      | (Inr (Some m), s1) \<Rightarrow>
          (case compute m of
             Some err \<Rightarrow> (Inr (), bury_exhausted p dlq MAX_RECEIVES_BEFORE_DLQ m s1)
           | None \<Rightarrow>
               (case p_ack p (msg_id m) s1 of
                  (Inr _, s2) \<Rightarrow> (Inr (), s2)
                | (Inl e, s2) \<Rightarrow> (Inr (), bury_exhausted p dlq MAX_RECEIVES_BEFORE_DLQ m s2))))"

definition crash_backoff :: "nat \<Rightarrow> int" where
  "crash_backoff consecutiveErrors = min 5000 (50 * 2 ^ min (consecutiveErrors - 1) 6)"

text \<open>The supervision loop over the outcomes of its cycles: the backoff sleeps it makes.\<close>

fun runSupervisedWorker :: "bool list \<Rightarrow> nat \<Rightarrow> int list" where
  "runSupervisedWorker [] errors = []"
| "runSupervisedWorker (crashed # cs) errors =
     (if crashed then crash_backoff (errors + 1) # runSupervisedWorker cs (errors + 1)
      else runSupervisedWorker cs 0)"

section \<open>The queue contract\<close>

text \<open>
  What a worker relies on: a received message is pending and stays so, receiving loses nothing, an
  acknowledgement removes that message and no other, a failed call changes nothing.
\<close>

locale queue_contract =
  fixes recv :: "rat \<Rightarrow> 's \<Rightarrow> QueueMessage option res \<times> 's"
    and ackn :: "string \<Rightarrow> 's \<Rightarrow> unit res \<times> 's"
    and pending :: "'s \<Rightarrow> string \<Rightarrow> bool"
    and inv :: "'s \<Rightarrow> bool"
  assumes recv_inv: "inv s \<Longrightarrow> recv T s = (r, s') \<Longrightarrow> inv s'"
    and recv_keeps: "inv s \<Longrightarrow> recv T s = (r, s') \<Longrightarrow> pending s' i = pending s i"
    and recv_pending: "inv s \<Longrightarrow> recv T s = (Inr (Some m), s') \<Longrightarrow> pending s (msg_id m)"
    and ack_inv: "inv s \<Longrightarrow> ackn i s = (a, s') \<Longrightarrow> inv s'"
    and ack_ok: "inv s \<Longrightarrow> ackn i s = (Inr (), s') \<Longrightarrow> pending s' j = (j \<noteq> i \<and> pending s j)"
    and ack_fail: "inv s \<Longrightarrow> ackn i s = (Inl e, s') \<Longrightarrow> pending s' j = pending s j"
begin

text \<open>A poll takes away at most the one message it handled, and only for one of the two reasons.\<close>

lemma poll_removes:
  assumes "inv s" "poll_once \<lparr>p_receive = recv, p_ack = ackn\<rparr> opts f s = (r, s')"
    and dlq: "\<And>g body s j. dlqProvider opts = Some g \<Longrightarrow> inv s \<Longrightarrow> inv (g body s) \<and> pending (g body s) j = pending s j"
    and "pending s i" "\<not> pending s' i"
  shows "\<exists>m s1. recv (c_visibilityTimeoutMs opts) s = (Inr (Some m), s1) \<and> msg_id m = i \<and>
    (f (targetFunctionName opts) m = None \<and> r = Handled True \<or>
     (\<exists>e. f (targetFunctionName opts) m = Some e) \<and> c_maxReceives opts \<le> msg_attempts m)"
proof -
  obtain x s1 where x: "recv (c_visibilityTimeoutMs opts) s = (x, s1)" by fastforce
  note k = recv_keeps[OF assms(1) x] and v = recv_inv[OF assms(1) x]
  have "\<exists>m. x = Inr (Some m)"
    using assms(2,4,5) x k by (auto simp: poll_once_def split: sum.splits option.splits)
  then obtain m where m: "x = Inr (Some m)" by blast
  show ?thesis
  proof (cases "f (targetFunctionName opts) m")
    case None
    obtain y s2 where y: "ackn (msg_id m) s1 = (y, s2)" by fastforce
    show ?thesis
    proof (cases y)
      case (Inl e)
      then show ?thesis using assms(2,4,5) x m None y k ack_fail[OF v, of "msg_id m" e s2 i] by (simp add: poll_once_def)
    next
      case (Inr u)
      then show ?thesis using assms(2,4,5) x m None y k ack_ok[OF v, of "msg_id m" s2 i] by (auto simp: poll_once_def)
    qed
  next
    case (Some err)
    define s2 where "s2 = (case dlqProvider opts of None \<Rightarrow> s1 | Some g \<Rightarrow> g (msg_body m) s1)"
    have s2: "inv s2" "pending s2 j = pending s1 j" for j
      using v dlq[of _ s1 "msg_body m"] by (auto simp: s2_def split: option.splits)
    obtain y s3 where y: "ackn (msg_id m) s2 = (y, s3)" by fastforce
    have s': "s' = (if c_maxReceives opts \<le> msg_attempts m then s3 else s1)"
      using assms(2) x m Some y by (auto simp: poll_once_def bury_exhausted_def s2_def Let_def)
    have "pending s3 i = (i \<noteq> msg_id m \<and> pending s2 i) \<or> pending s3 i = pending s2 i"
      using y ack_ok[OF s2(1), of "msg_id m" s3 i] ack_fail[OF s2(1), of "msg_id m" _ s3 i] by (cases y) auto
    then show ?thesis using s' assms(4,5) k s2(2) x m Some by (auto split: if_splits)
  qed
qed

text \<open>A poll that reports success has removed the message it handled.\<close>

lemma poll_success:
  assumes "inv s" "poll_once \<lparr>p_receive = recv, p_ack = ackn\<rparr> opts f s = (Handled True, s')"
  shows "\<exists>m s1. recv (c_visibilityTimeoutMs opts) s = (Inr (Some m), s1) \<and> f (targetFunctionName opts) m = None \<and>
    (\<forall>j. pending s' j = (j \<noteq> msg_id m \<and> pending s j))"
proof -
  obtain x s1 where x: "recv (c_visibilityTimeoutMs opts) s = (x, s1)" by fastforce
  note k = recv_keeps[OF assms(1) x] and v = recv_inv[OF assms(1) x]
  obtain m where m: "x = Inr (Some m)" "f (targetFunctionName opts) m = None" "ackn (msg_id m) s1 = (Inr (), s')"
    using assms(2) x by (auto simp: poll_once_def split: sum.splits option.splits prod.splits)
  then show ?thesis using x k ack_ok[OF v m(3)] by auto
qed

end

section \<open>The SQLite provider meets the contract\<close>

definition sqlite_receive :: "rat \<Rightarrow> rat \<Rightarrow> queue \<Rightarrow> QueueMessage option res \<times> queue" where
  "sqlite_receive now T q = (case receive (\<lambda>_. now) (Some T) q of (m, q') \<Rightarrow> (Inr m, q'))"

definition sqlite_ack :: "string \<Rightarrow> queue \<Rightarrow> unit res \<times> queue" where
  "sqlite_ack i q = (Inr (), ack i q)"

definition sqlite_provider :: "rat \<Rightarrow> queue queue_provider" where
  "sqlite_provider now = \<lparr>p_receive = sqlite_receive now, p_ack = sqlite_ack\<rparr>"

text \<open>A message a reader at \<open>now\<close> can still find, delivered or not, in the main part or buried.\<close>

definition pending :: "rat \<Rightarrow> queue \<Rightarrow> string \<Rightarrow> bool" where
  "pending now q i = (case row q i of None \<Rightarrow> False | Some r \<Rightarrow> \<not> row_expired now r)"

lemma receive_pending:
  assumes "queue_ok q" "receive (\<lambda>_. now) T q = (m, q')"
  shows "pending now q' i = pending now q i" "delivers m i \<Longrightarrow> pending now q i"
proof -
  have e: "row_expired now (claimed v r) = row_expired now r" "row_expired now (buried r) = row_expired now r" for v r
    by (simp_all add: row_expired_def claimed_def buried_def)
  have "pending now q' i = pending now q i \<and> (delivers m i \<longrightarrow> pending now q i)"
  proof (cases "row q i")
    case None
    then show ?thesis using receive_fate(2)[OF assms None] by (simp add: pending_def)
  next
    case (Some r)
    then show ?thesis using receive_fate(3)[OF assms Some] row_id[OF Some]
      by (auto simp: pending_def row_fate_def e split: if_splits)
  qed
  then show "pending now q' i = pending now q i" "delivers m i \<Longrightarrow> pending now q i" by blast+
qed

interpretation sqlite_queue: queue_contract "sqlite_receive now" sqlite_ack "pending now" queue_ok for now
proof (unfold_locales, goal_cases)
  case (1 s T r s')
  then show ?case by (auto simp: sqlite_receive_def dest: receive_fate(1) split: prod.splits)
next
  case (2 s T r s' i)
  then show ?case using receive_pending(1) by (auto simp: sqlite_receive_def split: prod.splits)
next
  case (3 s T m s')
  then show ?case using receive_pending(2)[of s now "Some T" "Some m"] by (auto simp: sqlite_receive_def split: prod.splits)
next
  case (4 s i a s')
  then show ?case by (auto simp: sqlite_ack_def queue_ok_ack)
next
  case (5 s i s' j)
  then show ?case by (cases "j = i") (auto simp: sqlite_ack_def pending_def row_ack)
next
  case (6 s i e s' j)
  then show ?case by (simp add: sqlite_ack_def)
qed

text \<open>
  A worker on the SQLite queue handles one message per poll and endangers no other: a message
  that disappears in a call of \<open>processNext\<close> was received in it and either its handler succeeded, and
  then the call reports success, or the handler failed and the message had used up its receives. A
  call that reports success has removed exactly the message its handler accepted.
\<close>

theorem worker_removes_only_settled:
  assumes "queue_ok q" "processNext (sqlite_provider now) opts f q = (b, q')"
    and "\<forall>g body q j. dlqProvider opts = Some g \<and> queue_ok q \<longrightarrow> queue_ok (g body q) \<and> pending now (g body q) j = pending now q j"
  shows "(\<forall>i. pending now q i \<and> \<not> pending now q' i \<longrightarrow>
      (\<exists>m q1. receive (\<lambda>_. now) (Some (c_visibilityTimeoutMs opts)) q = (Some m, q1) \<and> msg_id m = i \<and>
        (f (targetFunctionName opts) m = None \<and> b \<or>
         f (targetFunctionName opts) m \<noteq> None \<and> c_maxReceives opts \<le> msg_attempts m))) \<and>
    (b \<longrightarrow> (\<exists>m q1. receive (\<lambda>_. now) (Some (c_visibilityTimeoutMs opts)) q = (Some m, q1) \<and>
        f (targetFunctionName opts) m = None \<and> (\<forall>j. pending now q' j = (j \<noteq> msg_id m \<and> pending now q j))))"
proof -
  obtain r where p: "poll_once \<lparr>p_receive = sqlite_receive now, p_ack = sqlite_ack\<rparr> opts f q = (r, q')"
    and b: "b = (r = Handled True)"
    using assms(2) by (cases "poll_once (sqlite_provider now) opts f q")
      (auto simp: processNext_def sqlite_provider_def split: poll.splits)
  have sq: "sqlite_receive now T q = (Inr m, q1) \<longleftrightarrow> receive (\<lambda>_. now) (Some T) q = (m, q1)" for T m q1
    by (auto simp: sqlite_receive_def split: prod.splits)
  have dlq: "queue_ok (g body s) \<and> pending now (g body s) j = pending now s j"
    if "dlqProvider opts = Some g" "queue_ok s" for g body s j
    using assms(3) that by blast
  have "\<exists>m q1. receive (\<lambda>_. now) (Some (c_visibilityTimeoutMs opts)) q = (Some m, q1) \<and> msg_id m = i \<and>
      (f (targetFunctionName opts) m = None \<and> b \<or> f (targetFunctionName opts) m \<noteq> None \<and> c_maxReceives opts \<le> msg_attempts m)"
    if "pending now q i" "\<not> pending now q' i" for i
    unfolding b not_None_eq sq[symmetric] using dlq by (intro sqlite_queue.poll_removes[OF assms(1) p _ that]) blast
  moreover have "\<exists>m q1. receive (\<lambda>_. now) (Some (c_visibilityTimeoutMs opts)) q = (Some m, q1) \<and>
      f (targetFunctionName opts) m = None \<and> (\<forall>j. pending now q' j = (j \<noteq> msg_id m \<and> pending now q j))" if b
    using sqlite_queue.poll_success[OF assms(1) p[unfolded b[THEN iffD1, OF that]]] unfolding sq .
  ultimately show ?thesis by blast
qed

definition demo_consumer :: "queue QueueConsumerOptions" where
  "demo_consumer = \<lparr>queueName = ''jobs'', targetFunctionName = ''fn'', opt_visibilityTimeoutMs = Some 10,
     opt_maxReceives = None, opt_pollIntervalMs = None, dlqProvider = None\<rparr>"

definition demo_row :: "int \<Rightarrow> message_row" where
  "demo_row n = \<lparr>m_id = ''m'', m_body = ''1'', m_attempts = n, m_visible_after = 0, m_is_dlq = False, m_expires_at = None\<rparr>"

lemma worker_removes_only_settled_witness:
  "\<exists>q'. processNext (sqlite_provider 1) demo_consumer (\<lambda>_ _. None) [demo_row 0] = (True, q') \<and>
     \<not> pending 1 q' ''m'' \<and> (\<exists>m q1. receive (\<lambda>_. 1) (Some 10) [demo_row 0] = (Some m, q1) \<and> msg_id m = ''m'')"
proof -
  have ok: "queue_ok [demo_row 0]" by (simp add: queue_ok_def)
  have pe: "pending 1 [demo_row 0] ''m''" by (simp add: pending_def row_def demo_row_def row_expired_def)
  obtain b q' where p: "processNext (sqlite_provider 1) demo_consumer (\<lambda>_ _. None) [demo_row 0] = (b, q')" by fastforce
  have q': "b \<and> q' = []"
    using p by (auto simp: processNext_def poll_once_def sqlite_provider_def sqlite_receive_def sqlite_ack_def receive_def
        receive_loop.simps purgeExpired_def row_expired_def visible_rows_def demo_row_def maxReceives_def upd_def
        claimed_def ack_def demo_consumer_def)
  have d: "\<forall>g body q j. dlqProvider demo_consumer = Some g \<and> queue_ok q \<longrightarrow>
      queue_ok (g body q) \<and> pending 1 (g body q) j = pending 1 q j" by (simp add: demo_consumer_def)
  have "\<not> pending 1 q' ''m''" using q' by (simp add: pending_def row_def)
  moreover have "c_visibilityTimeoutMs demo_consumer = 10" by (simp add: c_visibilityTimeoutMs_def demo_consumer_def)
  ultimately show ?thesis using worker_removes_only_settled[OF ok p d] pe p q' by auto
qed

section \<open>Exhausted messages\<close>

lemma receive_only_row:
  assumes "\<not> m_is_dlq r" "m_visible_after r \<le> now" "\<not> row_expired now r" "m_attempts r < maxReceives"
  shows "receive (\<lambda>_. now) T [r] =
    (Some \<lparr>msg_id = m_id r, msg_body = m_body r, msg_attempts = m_attempts r + 1\<rparr>,
     [claimed (now + or_default T defaultVisibilityTimeoutMs) r])"
  using assms by (simp add: receive_def receive_loop.simps purgeExpired_def visible_rows_def upd_def Let_def)

text \<open>
  With the default limit and no dead letter provider, or with the SQLite provider's own
  \<open>deadLetter\<close> object as that provider, a message whose handler fails on its fifth delivery is
  deleted: it is neither in the main part nor among the dead letters, so the provider's own rule,
  which buries a message on the sixth receive, never applies.
\<close>

theorem exhausted_message_dropped:
  assumes "\<not> m_is_dlq r" "m_visible_after r \<le> now" "\<not> row_expired now r" "m_attempts r = 4"
    and "c_maxReceives opts = 5" "dlqProvider opts = None \<or> dlqProvider opts = Some (\<lambda>body q. snd (deadLetter_send body q))"
    and "\<And>m. f (targetFunctionName opts) m \<noteq> None"
  shows "processNext (sqlite_provider now) opts f [r] = (False, [])"
  using assms
  by (auto simp: processNext_def poll_once_def sqlite_provider_def sqlite_receive_def receive_only_row maxReceives_def
      bury_exhausted_def sqlite_ack_def deadLetter_send_def ack_def Let_def split: option.splits)

lemma exhausted_message_dropped_witness:
  "processNext (sqlite_provider 1) demo_consumer (\<lambda>_ _. Some (PlainError ''boom'')) [demo_row 4] = (False, [])"
  by (rule exhausted_message_dropped)
    (auto simp: demo_row_def row_expired_def demo_consumer_def c_maxReceives_def DEFAULT_MAX_RECEIVES_def)

section \<open>Polling sleeps\<close>

definition backoff_ok :: "rat \<Rightarrow> backoff_state \<Rightarrow> bool" where
  "backoff_ok base w = (1 \<le> consecutiveEmptyPolls w \<longrightarrow> base \<le> w_lastSleepMs w)"

lemma r_processNext_polls:
  assumes "r_processNext p opts f (w, s) = (processed, w1, s1)"
  shows "w1 = (if processed then w\<lparr>consecutiveEmptyPolls := 0, w_lastSleepMs := 0\<rparr> else w) \<or>
    \<not> processed \<and> w1 = w\<lparr>consecutiveEmptyPolls := consecutiveEmptyPolls w + 1\<rparr>"
  using assms by (auto simp: r_processNext_def split: prod.splits poll.splits bool.splits)

lemma r_runLoop_sleeps:
  assumes "\<And>n. rng_ok (or_default (randomUniform policy) (defaultRandomUniform (rnd n)))"
    and "b = or_default (baseMs policy) DEFAULT_BASE_MS" "c = or_default (capMs policy) DEFAULT_CAP_MS" "0 \<le> b" "b \<le> c"
    and "backoff_ok b w"
  shows "\<forall>x \<in> set (fst (r_runLoop n rnd policy p opts f (w, s))). b \<le> x \<and> x \<le> c"
  using assms(6)
proof (induction n arbitrary: w s)
  case (Suc n)
  obtain processed w1 s1 where r: "r_processNext p opts (f n) (w, s) = (processed, w1, s1)" by (metis prod_cases3)
  note w1 = r_processNext_polls[OF r]
  show ?case
  proof (cases processed)
    case True
    then have "backoff_ok b w1" using w1 by (auto simp: backoff_ok_def)
    then show ?thesis using Suc.IH r True by simp
  next
    case False
    have pre: "consecutiveEmptyPolls w1 - 1 = 0 \<or> b \<le> w_lastSleepMs w1"
      using w1 False Suc.prems by (auto simp: backoff_ok_def)
    define x where "x = r_sleep (rnd n) policy w1"
    have x: "b \<le> x" "x \<le> c"
      using next_sleep_bounds(1,2)[OF assms(1-5), of "\<lparr>attempt = consecutiveEmptyPolls w1 - 1, lastSleepMs = w_lastSleepMs w1\<rparr>" x n] pre
      by (simp_all add: x_def r_sleep_def)
    then have "backoff_ok b (w1\<lparr>w_lastSleepMs := x\<rparr>)" by (simp add: backoff_ok_def)
    from Suc.IH[OF this, of s1] show ?thesis using r False x by (simp add: x_def[symmetric] Let_def case_prod_beta)
  qed
qed simp

text \<open>
  The resilient worker never polls in a tight loop: with a random source within its bounds
  and \<open>0 \<le> base \<le> cap\<close>, every sleep after a poll that processed nothing lies between the base and the
  cap, however polls, failures and successes follow each other.
\<close>

theorem resilient_polling_sleeps_bounded:
  assumes "\<And>n. rng_ok (or_default (randomUniform policy) (defaultRandomUniform (rnd n)))"
    and "b = or_default (baseMs policy) DEFAULT_BASE_MS" "c = or_default (capMs policy) DEFAULT_CAP_MS" "0 \<le> b" "b \<le> c"
  shows "\<forall>x \<in> set (fst (r_runLoop n rnd policy p opts f (\<lparr>consecutiveEmptyPolls = 0, w_lastSleepMs = 0\<rparr>, s))). b \<le> x \<and> x \<le> c"
  by (rule r_runLoop_sleeps[OF assms]) (simp add: backoff_ok_def)

lemma resilient_polling_sleeps_bounded_witness:
  "\<forall>x \<in> set (fst (r_runLoop 7 (\<lambda>_ _. 1 / 2) (retry_policy None) (sqlite_provider 0) demo_consumer (\<lambda>_ _ _. None)
      (\<lparr>consecutiveEmptyPolls = 0, w_lastSleepMs = 0\<rparr>, []))). 100 \<le> x \<and> x \<le> 20000"
proof -
  have r: "rng_ok (or_default (randomUniform (retry_policy None)) (defaultRandomUniform ((\<lambda>_ _. 1 / 2) n)))" for n :: nat
    using defaultRandomUniform_ok[of "\<lambda>_. 1 / 2"] by (simp add: retry_policy_def)
  show ?thesis
    using resilient_polling_sleeps_bounded[OF r refl refl, of 7 "sqlite_provider 0" demo_consumer "\<lambda>_ _ _. None" "[]"]
    by (simp add: retry_policy_def DEFAULT_BASE_MS_def DEFAULT_CAP_MS_def del: r_runLoop.simps)
qed

lemma crash_backoff_bounds: "50 \<le> crash_backoff n \<and> crash_backoff n \<le> 3200"
proof -
  define k where "k = min (n - 1) 6"
  have "(2 :: int) ^ k \<le> 2 ^ 6" by (rule power_increasing) (simp_all add: k_def)
  moreover have "1 \<le> (2 :: int) ^ k" by simp
  moreover have "crash_backoff n = min 5000 (50 * 2 ^ k)" unfolding crash_backoff_def k_def ..
  ultimately show ?thesis by (simp add: min_def)
qed

lemma supervised_sleeps_bounded: "\<forall>x \<in> set (runSupervisedWorker cs errors). 50 \<le> x \<and> x \<le> 3200"
  by (induction cs errors rule: runSupervisedWorker.induct) (auto simp: crash_backoff_bounds)

end
