(* ===== verification/OperationCounter.thy ===== *)
theory OperationCounter
  imports Errors
begin

text \<open>
  \<open>runtime/limits/operation-counter.ts\<close>: the per-invocation counters, the log budget and the
  call-depth guard. A log chunk is a sequence of 16-bit code units, as a JavaScript string is; its
  UTF-8 length counts a surrogate pair as four bytes and a lone surrogate as the three bytes of the
  replacement character.

  Shown: of any number of operations of a kind exactly the first \<open>max\<close> are let through; the binary
  search for the log cut ends and finds the longest prefix within the budget that does not end in
  the middle of a pair; the log output of an invocation stays within its budget; the call depth
  grows by one per hop and is refused beyond the maximum.
\<close>

section \<open>Code units\<close>

type_synonym utf16 = "16 word list"

definition is_high :: "16 word \<Rightarrow> bool" where
  "is_high u = (0xD800 \<le> u \<and> u \<le> 0xDBFF)"

definition is_low :: "16 word \<Rightarrow> bool" where
  "is_low u = (0xDC00 \<le> u \<and> u \<le> 0xDFFF)"

definition unit_bytes :: "16 word \<Rightarrow> int" where
  "unit_bytes u = (if u < 0x80 then 1 else if u < 0x800 then 2 else 3)"

text \<open>The byte length of \<open>TextEncoder.encode\<close>.\<close>

fun encoded_bytes :: "utf16 \<Rightarrow> int" where
  "encoded_bytes [] = 0"
| "encoded_bytes [u] = unit_bytes u"
| "encoded_bytes (u # v # us) =
     (if is_high u \<and> is_low v then 4 + encoded_bytes us else unit_bytes u + encoded_bytes (v # us))"

section \<open>Truncation\<close>

definition slice_end :: "utf16 \<Rightarrow> int \<Rightarrow> int" where
  "slice_end candidate mid =
     (if 0 < mid \<and> mid < int (length candidate) \<and> is_high (candidate ! nat (mid - 1)) then mid - 1 else mid)"

lemma slice_end_bounds: "slice_end c mid \<le> mid" "mid - 1 \<le> slice_end c mid" "0 \<le> mid \<Longrightarrow> 0 \<le> slice_end c mid"
  by (auto simp: slice_end_def)

function cut_search :: "utf16 \<Rightarrow> int \<Rightarrow> int \<Rightarrow> int \<Rightarrow> int \<Rightarrow> int" where
  "cut_search candidate maxBytes low high best =
     (if low \<le> high
      then let mid = (low + high) div 2; sliceEnd = slice_end candidate mid in
           if encoded_bytes (take (nat sliceEnd) candidate) \<le> maxBytes
           then cut_search candidate maxBytes (mid + 1) high (if best < sliceEnd then sliceEnd else best)
           else cut_search candidate maxBytes low (sliceEnd - 1) best
      else best)"
  by pat_completeness auto

termination
proof (relation "measure (\<lambda>(c, m, low, high, best). nat (high - low + 1))", goal_cases)
  case (3 c m low high best mid se)
  then have "mid \<le> high" by simp
  then show ?case using 3 slice_end_bounds(1)[where c = c and mid = mid] by simp
qed simp_all

declare cut_search.simps [simp del]

definition truncateToUtf8Bytes :: "utf16 \<Rightarrow> int \<Rightarrow> utf16" where
  "truncateToUtf8Bytes str maxBytes =
     (if maxBytes \<le> 0 then []
      else let candidate = take (nat maxBytes) str in
           if encoded_bytes candidate \<le> maxBytes then candidate
           else take (nat (cut_search candidate maxBytes 0 (int (length candidate)) 0)) candidate)"

section \<open>The tracker\<close>

record InvocationOperationLimits =
  l_maxKvOps :: "int option"
  l_maxObjectOps :: "int option"
  l_maxQueueOps :: "int option"
  l_maxLogBytes :: "int option"
  l_maxCallDepth :: "int option"

record InvocationTracker =
  maxKvOps :: int
  maxObjectOps :: int
  maxQueueOps :: int
  maxLogBytes :: int
  maxCallDepth :: int
  kvOps :: int
  objectOps :: int
  queueOps :: int
  currentLogBytes :: int
  logTruncated :: bool

definition createInvocationTracker :: "InvocationOperationLimits \<Rightarrow> InvocationTracker" where
  "createInvocationTracker l =
     \<lparr>maxKvOps = or_default (l_maxKvOps l) 1000,
      maxObjectOps = or_default (l_maxObjectOps l) 100,
      maxQueueOps = or_default (l_maxQueueOps l) 100,
      maxLogBytes = or_default (l_maxLogBytes l) 64000,
      maxCallDepth = or_default (l_maxCallDepth l) 8,
      kvOps = 0, objectOps = 0, queueOps = 0, currentLogBytes = 0, logTruncated = False\<rparr>"

definition recordKvOp :: "InvocationTracker \<Rightarrow> InvocationTracker res" where
  "recordKvOp s =
     (if maxKvOps s \<le> kvOps s
      then Inl (throw_rf RATE_LIMITED (''KV operation limit exceeded: maximum '' @ int_str (maxKvOps s) @
             '' operations per invocation allowed''))
      else Inr (s\<lparr>kvOps := kvOps s + 1\<rparr>))"

definition recordObjectOp :: "InvocationTracker \<Rightarrow> InvocationTracker res" where
  "recordObjectOp s =
     (if maxObjectOps s \<le> objectOps s
      then Inl (throw_rf RATE_LIMITED (''Object operation limit exceeded: maximum '' @ int_str (maxObjectOps s) @
             '' operations per invocation allowed''))
      else Inr (s\<lparr>objectOps := objectOps s + 1\<rparr>))"

definition recordQueueOp :: "InvocationTracker \<Rightarrow> InvocationTracker res" where
  "recordQueueOp s =
     (if maxQueueOps s \<le> queueOps s
      then Inl (throw_rf RATE_LIMITED (''Queue operation limit exceeded: maximum '' @ int_str (maxQueueOps s) @
             '' operations per invocation allowed''))
      else Inr (s\<lparr>queueOps := queueOps s + 1\<rparr>))"

definition LOG_TRUNCATED_MARKER :: utf16 where
  "LOG_TRUNCATED_MARKER = map (\<lambda>c. word_of_nat (of_char c)) ''[LOG_TRUNCATED]''"

definition appendLog :: "utf16 \<Rightarrow> InvocationTracker \<Rightarrow> (utf16 \<times> bool) \<times> InvocationTracker" where
  "appendLog chunk s =
     (if logTruncated s then (([], True), s)
      else let chunkBytes = encoded_bytes chunk in
           if currentLogBytes s + chunkBytes \<le> maxLogBytes s
           then ((chunk, False), s\<lparr>currentLogBytes := currentLogBytes s + chunkBytes\<rparr>)
           else let remainingCapacity = maxLogBytes s - currentLogBytes s;
                    validSlice = truncateToUtf8Bytes chunk remainingCapacity
                in ((validSlice @ LOG_TRUNCATED_MARKER, True),
                    s\<lparr>logTruncated := True, currentLogBytes := maxLogBytes s\<rparr>))"

definition checkCallDepth :: "string option \<Rightarrow> InvocationTracker \<Rightarrow> int res" where
  "checkCallDepth header s =
     (case header of
        None \<Rightarrow> Inr 1
      | Some h \<Rightarrow>
          if h = [] then Inr 1
          else if \<not> list_all is_digit h
          then Inl (throw_rf VALIDATION_FAILED (''Invalid X-RailFog-Call-Depth header value: '' @ [char_of (34 :: nat)] @ h @
                 [char_of (34 :: nat)] @ ''. Must be a non-negative integer.''))
          else let nextHop = digits_val 10 h + 1 in
               if maxCallDepth s < nextHop
               then Inl (throw_rf CALL_DEPTH_EXCEEDED (''Call depth limit exceeded: next hop '' @ int_str nextHop @
                      '' exceeds maximum allowed depth of '' @ int_str (maxCallDepth s)))
               else Inr nextHop)"

text \<open>
  A chain of functions calling each other: the first call carries no header, every further hop the
  depth the tracker of the calling invocation computed.
\<close>

fun call_chain :: "nat \<Rightarrow> InvocationTracker \<Rightarrow> int res" where
  "call_chain 0 s = checkCallDepth None s"
| "call_chain (Suc n) s = bind_res (call_chain n s) (\<lambda>d. checkCallDepth (Some (int_str d)) s)"

section \<open>Counters\<close>

text \<open>The shared contract of the three counters: refuse at the limit, else count.\<close>

fun repeat_op :: "nat \<Rightarrow> ('s \<Rightarrow> 's res) \<Rightarrow> 's \<Rightarrow> exn list \<times> 's" where
  "repeat_op 0 f s = ([], s)"
| "repeat_op (Suc n) f s =
     (case f s of
        Inl e \<Rightarrow> (case repeat_op n f s of (es, s') \<Rightarrow> (e # es, s'))
      | Inr s1 \<Rightarrow> repeat_op n f s1)"

locale bounded_counter =
  fixes bump :: "'s \<Rightarrow> 's res" and count :: "'s \<Rightarrow> int" and limit :: "'s \<Rightarrow> int" and frame :: "'s \<Rightarrow> 'f"
  assumes bump_full: "limit s \<le> count s \<Longrightarrow> \<exists>e. bump s = Inl e \<and> exn_code e = Some RATE_LIMITED"
    and bump_room: "count s < limit s \<Longrightarrow> \<exists>s'. bump s = Inr s' \<and> count s' = count s + 1 \<and> limit s' = limit s \<and> frame s' = frame s"
begin

lemma repeat_counts:
  "count s \<le> limit s \<Longrightarrow>
   count (snd (repeat_op n bump s)) = min (limit s) (count s + int n) \<and>
   int (length (fst (repeat_op n bump s))) = max 0 (count s + int n - limit s) \<and>
   (\<forall>e \<in> set (fst (repeat_op n bump s)). exn_code e = Some RATE_LIMITED) \<and>
   limit (snd (repeat_op n bump s)) = limit s \<and> frame (snd (repeat_op n bump s)) = frame s"
proof (induction n arbitrary: s)
  case (Suc n)
  show ?case
  proof (cases "count s < limit s")
    case True
    then obtain s' where s': "bump s = Inr s'" "count s' = count s + 1" "limit s' = limit s" "frame s' = frame s"
      using bump_room by blast
    then show ?thesis using Suc.IH[of s'] Suc.prems True by (simp add: ac_simps)
  next
    case False
    then obtain e where e: "bump s = Inl e" "exn_code e = Some RATE_LIMITED" using bump_full[of s] by auto
    then show ?thesis using Suc.IH[of s] Suc.prems False by (auto simp: case_prod_beta)
  qed
qed simp

end

interpretation kv_counter: bounded_counter recordKvOp kvOps maxKvOps
  "\<lambda>s. (objectOps s, queueOps s, maxObjectOps s, maxQueueOps s, currentLogBytes s)"
  by unfold_locales (simp_all add: recordKvOp_def)

interpretation object_counter: bounded_counter recordObjectOp objectOps maxObjectOps
  "\<lambda>s. (kvOps s, queueOps s, maxKvOps s, maxQueueOps s, currentLogBytes s)"
  by unfold_locales (simp_all add: recordObjectOp_def)

interpretation queue_counter: bounded_counter recordQueueOp queueOps maxQueueOps
  "\<lambda>s. (kvOps s, objectOps s, maxKvOps s, maxObjectOps s, currentLogBytes s)"
  by unfold_locales (simp_all add: recordQueueOp_def)

text \<open>
  Of any number \<open>n\<close> of operations of one kind in a fresh invocation exactly the first \<open>max\<close>
  succeed and each later one fails as RATE_LIMITED, for KV, object and queue operations alike and
  for any non-negative limits, and the counters of the other kinds are not affected.
\<close>

theorem operation_limits_exact:
  assumes "s = createInvocationTracker l" "0 \<le> maxKvOps s" "0 \<le> maxObjectOps s" "0 \<le> maxQueueOps s"
  shows "(let (es, s') = repeat_op n recordKvOp s in
      int (length es) = max 0 (int n - maxKvOps s) \<and> (\<forall>e \<in> set es. exn_code e = Some RATE_LIMITED) \<and>
      kvOps s' = min (maxKvOps s) (int n) \<and> objectOps s' = 0 \<and> queueOps s' = 0) \<and>
    (let (es, s') = repeat_op n recordObjectOp s in
      int (length es) = max 0 (int n - maxObjectOps s) \<and> (\<forall>e \<in> set es. exn_code e = Some RATE_LIMITED) \<and>
      objectOps s' = min (maxObjectOps s) (int n) \<and> kvOps s' = 0 \<and> queueOps s' = 0) \<and>
    (let (es, s') = repeat_op n recordQueueOp s in
      int (length es) = max 0 (int n - maxQueueOps s) \<and> (\<forall>e \<in> set es. exn_code e = Some RATE_LIMITED) \<and>
      queueOps s' = min (maxQueueOps s) (int n) \<and> kvOps s' = 0 \<and> objectOps s' = 0)"
proof -
  have z: "kvOps s = 0" "objectOps s = 0" "queueOps s = 0" using assms(1) by (simp_all add: createInvocationTracker_def)
  show ?thesis
    using kv_counter.repeat_counts[of s n] object_counter.repeat_counts[of s n] queue_counter.repeat_counts[of s n] assms(2-4)
    by (simp add: z case_prod_beta)
qed

definition demo_limits :: InvocationOperationLimits where
  "demo_limits = \<lparr>l_maxKvOps = Some 2, l_maxObjectOps = None, l_maxQueueOps = None, l_maxLogBytes = Some 5, l_maxCallDepth = None\<rparr>"

lemma operation_limits_exact_witness:
  "length (fst (repeat_op 5 recordKvOp (createInvocationTracker demo_limits))) = 3"
  using operation_limits_exact[of "createInvocationTracker demo_limits" demo_limits 5]
  by (simp add: case_prod_beta createInvocationTracker_def demo_limits_def del: repeat_op.simps)

section \<open>The log cut\<close>

lemma unit_bytes_pos: "1 \<le> unit_bytes u" "unit_bytes u \<le> 3"
  by (simp_all add: unit_bytes_def)

lemma is_high_unat: "is_high u \<longleftrightarrow> 0xD800 \<le> unat u \<and> unat u \<le> 0xDBFF"
  by (simp add: is_high_def word_le_nat_alt)

lemma is_low_unat: "is_low u \<longleftrightarrow> 0xDC00 \<le> unat u \<and> unat u \<le> 0xDFFF"
  by (simp add: is_low_def word_le_nat_alt)

lemma high_bytes: "is_high u \<Longrightarrow> unit_bytes u = 3"
  by (simp add: is_high_unat unit_bytes_def word_less_nat_alt)

lemma low_not_high: "is_low u \<Longrightarrow> \<not> is_high u"
  by (simp add: is_high_unat is_low_unat)

lemma encoded_bytes_length: "int (length us) \<le> encoded_bytes us"
proof (induction us rule: encoded_bytes.induct)
  case (3 u v us)
  then show ?case using unit_bytes_pos(1)[of u] by auto
qed (simp_all add: unit_bytes_pos)

lemma encoded_bytes_snoc: "encoded_bytes us \<le> encoded_bytes (us @ [x])"
proof (induction us rule: encoded_bytes.induct)
  case (2 u)
  then show ?case using unit_bytes_pos[of x] unit_bytes_pos(2)[of u] by auto
next
  case (3 u v us)
  then show ?case by (cases "is_high u \<and> is_low v") auto
qed (use unit_bytes_pos(1)[of x] in simp)

lemma encoded_bytes_take_Suc: "encoded_bytes (take n us) \<le> encoded_bytes (take (Suc n) us)"
  using encoded_bytes_snoc by (cases "n < length us") (simp_all add: take_Suc_conv_app_nth)

lemma encoded_bytes_mono: "m \<le> n \<Longrightarrow> encoded_bytes (take m us) \<le> encoded_bytes (take n us)"
  by (rule lift_Suc_mono_le[of "\<lambda>n. encoded_bytes (take n us)"]) (rule encoded_bytes_take_Suc)

text \<open>The search keeps the best cut found and narrows the range around the longest one that fits.\<close>

lemma cut_search_spec:
  assumes "0 \<le> low" "high \<le> int (length c)" "0 \<le> best" "best \<le> int (length c)"
    and "encoded_bytes (take (nat best) c) \<le> m"
    and "\<And>n. 0 \<le> n \<Longrightarrow> n < low \<Longrightarrow> slice_end c n \<le> best"
    and "\<And>n. high < n \<Longrightarrow> n \<le> int (length c) \<Longrightarrow> m < encoded_bytes (take (nat n) c)"
    and "\<exists>k. 0 \<le> k \<and> k \<le> int (length c) \<and> best = slice_end c k"
    and "r = cut_search c m low high best"
  shows "0 \<le> r \<and> r \<le> int (length c) \<and> encoded_bytes (take (nat r) c) \<le> m \<and>
    (\<exists>k. 0 \<le> k \<and> k \<le> int (length c) \<and> r = slice_end c k) \<and>
    (\<forall>n. 0 \<le> n \<and> n \<le> int (length c) \<and> encoded_bytes (take (nat n) c) \<le> m \<longrightarrow> slice_end c n \<le> r)"
  using assms
proof (induction c m low high best rule: cut_search.induct)
  case (1 c m low high best)
  show ?case
  proof (cases "low \<le> high")
    case False
    then have "r = best" using 1(11) by (simp add: cut_search.simps)
    moreover have "slice_end c n \<le> best" if "0 \<le> n" "n \<le> int (length c)" "encoded_bytes (take (nat n) c) \<le> m" for n
      using 1(8)[of n] 1(9)[of n] that False by linarith
    ultimately show ?thesis using 1(5-7,10) by blast
  next
    case True
    define mid where "mid = (low + high) div 2"
    define se where "se = slice_end c mid"
    have mid: "low \<le> mid" "mid \<le> high" using True by (auto simp: mid_def)
    have se: "0 \<le> se" "se \<le> mid" using slice_end_bounds[where c = c and mid = mid] mid 1(3) by (auto simp: se_def)
    show ?thesis
    proof (cases "encoded_bytes (take (nat se) c) \<le> m")
      case fits: True
      let ?b = "if best < se then se else best"
      have r: "r = cut_search c m (mid + 1) high ?b"
        using 1(11) True fits by (subst (asm) cut_search.simps) (simp add: mid_def se_def Let_def)
      have mono: "slice_end c n \<le> se" if "n \<le> mid" for n
        using that slice_end_bounds(1,2)[where c = c and mid = n] slice_end_bounds(2)[where c = c and mid = mid] by (cases "n = mid") (auto simp: se_def)
      have "slice_end c n \<le> ?b" if "n < mid + 1" for n using mono[of n] that by auto
      moreover have "\<exists>k. 0 \<le> k \<and> k \<le> int (length c) \<and> ?b = slice_end c k"
        using 1(10) mid 1(3,4) by (auto simp: se_def intro!: exI[of _ mid])
      ultimately show ?thesis using 1(1)[OF True mid_def se_def fits _ 1(4) _ _ _ _ 1(9) _ r] 1(3,5-7) se mid 1(4) fits by auto
    next
      case over: False
      have r: "r = cut_search c m low (se - 1) best"
        using 1(11) True over by (subst (asm) cut_search.simps) (simp add: mid_def se_def Let_def)
      have "m < encoded_bytes (take (nat n) c)" if "se - 1 < n" for n
      proof -
        have "nat se \<le> nat n" using that by simp
        then show ?thesis using encoded_bytes_mono[of "nat se" "nat n" c] over by linarith
      qed
      then show ?thesis using 1(2)[OF True mid_def se_def over 1(3) _ 1(5-8) _ 1(10) r] se mid 1(4) by auto
    qed
  qed
qed

text \<open>Cutting before \<open>n\<close> would separate the two halves of a surrogate pair.\<close>

definition splits_pair :: "utf16 \<Rightarrow> nat \<Rightarrow> bool" where
  "splits_pair s n = (0 < n \<and> n < length s \<and> is_high (s ! (n - 1)) \<and> is_low (s ! n))"

lemma encoded_bytes_snoc_not_low: "\<not> is_low x \<Longrightarrow> encoded_bytes (us @ [x]) = encoded_bytes us + unit_bytes x"
  by (induction us rule: encoded_bytes.induct) auto

lemma ascii_fit_no_high:
  assumes "encoded_bytes c \<le> int (length c)" "c \<noteq> []"
  shows "\<not> is_high (c ! (length c - 1))"
proof
  assume h: "is_high (c ! (length c - 1))"
  obtain us x where c: "c = us @ [x]" using assms(2) by (cases c rule: rev_cases) auto
  then have "is_high x" using h by simp
  then have "encoded_bytes c = encoded_bytes us + 3" using c low_not_high high_bytes encoded_bytes_snoc_not_low by metis
  then show False using encoded_bytes_length[of us] assms(1) c by simp
qed

text \<open>
  The truncation returns a prefix of the chunk that fits the byte budget and does not cut a
  surrogate pair in two, and it is the longest such prefix: every prefix that fits and does not end
  in a high surrogate is at most as long.
\<close>

theorem truncation_longest_fit:
  assumes "r = truncateToUtf8Bytes str maxBytes"
  shows "prefix r str \<and> encoded_bytes r \<le> max 0 maxBytes \<and> \<not> splits_pair str (length r) \<and>
    (\<forall>n \<le> length str. encoded_bytes (take n str) \<le> maxBytes \<and> (0 < n \<longrightarrow> \<not> is_high (str ! (n - 1))) \<longrightarrow> n \<le> length r)"
proof -
  define c where "c = take (nat maxBytes) str"
  have len: "int n \<le> maxBytes" if "n \<le> length str" "encoded_bytes (take n str) \<le> maxBytes" for n
    using encoded_bytes_length[of "take n str"] that by simp
  consider (none) "maxBytes \<le> 0" | (fits) "0 < maxBytes" "encoded_bytes c \<le> maxBytes"
    | (search) "0 < maxBytes" "maxBytes < encoded_bytes c" by linarith
  then show ?thesis
  proof cases
    case none
    then have "r = []" using assms by (simp add: truncateToUtf8Bytes_def)
    then show ?thesis using none len by (fastforce simp: splits_pair_def)
  next
    case fits
    then have r: "r = c" using assms by (simp add: truncateToUtf8Bytes_def c_def Let_def)
    have "\<not> splits_pair str (length c)"
    proof
      assume sp: "splits_pair str (length c)"
      then have l: "length c = nat maxBytes" "c \<noteq> []" by (auto simp: splits_pair_def c_def)
      then have "\<not> is_high (c ! (length c - 1))" using ascii_fit_no_high[of c] fits by simp
      moreover have "c ! (length c - 1) = str ! (length c - 1)" using l by (simp add: c_def)
      ultimately show False using sp by (simp add: splits_pair_def)
    qed
    moreover have "n \<le> length c" if "n \<le> length str" "encoded_bytes (take n str) \<le> maxBytes" for n
      using len[OF that] that(1) by (simp add: c_def)
    ultimately show ?thesis using r fits by (auto simp: c_def take_is_prefix)
  next
    case search
    define k where "k = cut_search c maxBytes 0 (int (length c)) 0"
    have r: "r = take (nat k) c" using assms search by (simp add: truncateToUtf8Bytes_def c_def Let_def k_def)
    have z: "slice_end c 0 = 0" by (simp add: slice_end_def)
    have ex: "\<exists>j. 0 \<le> j \<and> j \<le> int (length c) \<and> 0 = slice_end c j" by (rule exI[of _ 0]) (simp add: z)
    have spec: "0 \<le> k \<and> k \<le> int (length c) \<and> encoded_bytes (take (nat k) c) \<le> maxBytes \<and>
        (\<exists>j. 0 \<le> j \<and> j \<le> int (length c) \<and> k = slice_end c j) \<and>
        (\<forall>n. 0 \<le> n \<and> n \<le> int (length c) \<and> encoded_bytes (take (nat n) c) \<le> maxBytes \<longrightarrow> slice_end c n \<le> k)"
      by (rule cut_search_spec[OF _ _ _ _ _ _ _ ex k_def]) (use search in simp_all)
    have k: "0 \<le> k" "k \<le> int (length c)" "encoded_bytes (take (nat k) c) \<le> maxBytes"
      and kj: "\<exists>j. 0 \<le> j \<and> j \<le> int (length c) \<and> k = slice_end c j"
      and km: "\<And>n. 0 \<le> n \<Longrightarrow> n \<le> int (length c) \<Longrightarrow> encoded_bytes (take (nat n) c) \<le> maxBytes \<Longrightarrow> slice_end c n \<le> k"
      using spec by auto
    have lr: "length r = nat k" using r k(2) by simp
    have nth: "c ! i = str ! i" if "i < length c" for i using that by (simp add: c_def)
    have "\<not> splits_pair str (nat k)"
    proof
      assume sp: "splits_pair str (nat k)"
      obtain j where j: "0 \<le> j" "j \<le> int (length c)" "k = slice_end c j" using kj by blast
      show False
      proof (cases "k = j")
        case True
        have "nat k \<noteq> length c" using k(3) search(2) by auto
        then have "is_high (c ! nat (j - 1))" using sp True j(2) nth[of "nat k - 1"] by (auto simp: splits_pair_def nat_diff_distrib)
        then have "slice_end c j = j - 1" using sp True j(2) \<open>nat k \<noteq> length c\<close> by (auto simp: slice_end_def splits_pair_def)
        then show ?thesis using j True by simp
      next
        case False
        then have "k = j - 1" "0 < j" "j < int (length c)" "is_high (c ! nat (j - 1))" using j(3) by (auto simp: slice_end_def split: if_splits)
        then have "is_high (str ! nat k)" using nth[of "nat k"] by simp
        then show ?thesis using sp low_not_high by (auto simp: splits_pair_def)
      qed
    qed
    moreover have "n \<le> nat k" if "n \<le> length str" "encoded_bytes (take n str) \<le> maxBytes" "0 < n \<longrightarrow> \<not> is_high (str ! (n - 1))" for n
    proof -
      have n: "n \<le> length c" using len[OF that(1,2)] that(1) by (simp add: c_def)
      have "n \<le> nat maxBytes" using len[OF that(1,2)] by simp
      then have "take n c = take n str" by (simp add: c_def min_def)
      then have "slice_end c (int n) \<le> k" using km[of "int n"] n that(2) by simp
      moreover have "slice_end c (int n) = int n" using that(3) n nth[of "n - 1"] by (auto simp: slice_end_def nat_diff_distrib)
      ultimately show ?thesis by simp
    qed
    moreover have "prefix r str" using r by (simp add: c_def take_is_prefix)
    ultimately show ?thesis using k(3) r lr by auto
  qed
qed

lemma truncation_longest_fit_witness:
  "truncateToUtf8Bytes [0x61, 0xD83D, 0xDE00, 0x62] 4 = [0x61] \<and>
   \<not> splits_pair [0x61, 0xD83D, 0xDE00, 0x62] (length (truncateToUtf8Bytes [0x61, 0xD83D, 0xDE00, 0x62] 4))"
proof
  show "truncateToUtf8Bytes [0x61, 0xD83D, 0xDE00, 0x62] 4 = [0x61]" by code_simp
  show "\<not> splits_pair [0x61, 0xD83D, 0xDE00, 0x62] (length (truncateToUtf8Bytes [0x61, 0xD83D, 0xDE00, 0x62] 4))"
    using truncation_longest_fit[OF refl, of "[0x61, 0xD83D, 0xDE00, 0x62]" 4] by blast
qed

section \<open>The log budget\<close>

fun log_all :: "utf16 list \<Rightarrow> InvocationTracker \<Rightarrow> utf16 list \<times> InvocationTracker" where
  "log_all [] s = ([], s)"
| "log_all (c # cs) s =
     (case appendLog c s of ((out, tr), s1) \<Rightarrow> (case log_all cs s1 of (outs, s2) \<Rightarrow> (out # outs, s2)))"

lemma encoded_bytes_append: "b \<noteq> [] \<Longrightarrow> \<not> is_low (hd b) \<Longrightarrow> encoded_bytes (a @ b) = encoded_bytes a + encoded_bytes b"
proof (induction a rule: encoded_bytes.induct)
  case (2 u)
  then show ?case by (cases b) auto
qed auto

lemma marker_bytes: "encoded_bytes LOG_TRUNCATED_MARKER = 15" "LOG_TRUNCATED_MARKER \<noteq> []" "\<not> is_low (hd LOG_TRUNCATED_MARKER)"
  by code_simp+

lemma truncated_bytes: "encoded_bytes (truncateToUtf8Bytes str m) \<le> max 0 m"
proof (cases "m \<le> 0 \<or> encoded_bytes (take (nat m) str) \<le> m")
  case True
  then show ?thesis by (auto simp: truncateToUtf8Bytes_def Let_def)
next
  case False
  define c where "c = take (nat m) str"
  define k where "k = cut_search c m 0 (int (length c)) 0"
  have ex: "\<exists>j. 0 \<le> j \<and> j \<le> int (length c) \<and> 0 = slice_end c j" by (rule exI[of _ 0]) (simp add: slice_end_def)
  have "encoded_bytes (take (nat k) c) \<le> m"
    using cut_search_spec[OF _ _ _ _ _ _ _ ex k_def] False by simp
  then show ?thesis using False by (simp add: truncateToUtf8Bytes_def Let_def c_def k_def)
qed

lemma log_all_budget:
  "0 \<le> currentLogBytes s \<Longrightarrow> currentLogBytes s \<le> maxLogBytes s \<Longrightarrow>
   sum_list (map encoded_bytes (fst (log_all cs s))) \<le> (if logTruncated s then 0 else maxLogBytes s - currentLogBytes s + 15) \<and>
   (\<not> logTruncated s \<and> currentLogBytes s + sum_list (map encoded_bytes cs) \<le> maxLogBytes s \<longrightarrow> fst (log_all cs s) = cs)"
proof (induction cs arbitrary: s)
  case (Cons c cs)
  have pos: "0 \<le> encoded_bytes x" for x using encoded_bytes_length[of x] by linarith
  have sp: "0 \<le> sum_list (map encoded_bytes cs)" by (rule sum_list_nonneg) (auto simp: pos)
  consider (tr) "logTruncated s" | (ok) "\<not> logTruncated s" "currentLogBytes s + encoded_bytes c \<le> maxLogBytes s"
    | (cut) "\<not> logTruncated s" "maxLogBytes s < currentLogBytes s + encoded_bytes c" by linarith
  then show ?case
  proof cases
    case tr
    then show ?thesis using Cons.IH[of s] Cons.prems by (simp add: appendLog_def case_prod_beta)
  next
    case ok
    then show ?thesis using Cons.IH[of "s\<lparr>currentLogBytes := currentLogBytes s + encoded_bytes c\<rparr>"] Cons.prems pos[of c]
      by (simp add: appendLog_def case_prod_beta ac_simps)
  next
    case cut
    let ?s = "s\<lparr>logTruncated := True, currentLogBytes := maxLogBytes s\<rparr>"
    have "encoded_bytes (truncateToUtf8Bytes c (maxLogBytes s - currentLogBytes s) @ LOG_TRUNCATED_MARKER) \<le> maxLogBytes s - currentLogBytes s + 15"
      using truncated_bytes[of c "maxLogBytes s - currentLogBytes s"] Cons.prems by (simp add: encoded_bytes_append marker_bytes)
    then show ?thesis using Cons.IH[of ?s] Cons.prems cut sp by (simp add: appendLog_def Let_def case_prod_beta)
  qed
qed simp

text \<open>
  Whatever an invocation logs, the bytes it outputs stay within its budget plus the one
  truncation marker, and chunks that fit the budget together are passed through unchanged.
\<close>

theorem log_output_within_budget:
  assumes "s = createInvocationTracker l" "0 \<le> maxLogBytes s"
  shows "sum_list (map encoded_bytes (fst (log_all cs s))) \<le> maxLogBytes s + encoded_bytes LOG_TRUNCATED_MARKER \<and>
    (sum_list (map encoded_bytes cs) \<le> maxLogBytes s \<longrightarrow> fst (log_all cs s) = cs)"
proof -
  have "currentLogBytes s = 0" "\<not> logTruncated s" using assms(1) by (simp_all add: createInvocationTracker_def)
  then show ?thesis using log_all_budget[of s cs] assms(2) by (simp add: marker_bytes)
qed

lemma log_output_within_budget_witness:
  "sum_list (map encoded_bytes (fst (log_all [[0x61, 0x62, 0x63], [0x64, 0x65, 0x66]] (createInvocationTracker demo_limits)))) \<le> 5 + 15"
  using log_output_within_budget[of "createInvocationTracker demo_limits" demo_limits "[[0x61, 0x62, 0x63], [0x64, 0x65, 0x66]]"]
  by (simp add: createInvocationTracker_def demo_limits_def marker_bytes del: log_all.simps)

section \<open>Call depth\<close>

lemma digits_nat_str: "list_all is_digit (nat_str n) \<and> nat_str n \<noteq> [] \<and> digits_val 10 (nat_str n) = int n"
  by (simp add: nat_str_digits nat_str_not_Nil digits_val_nat_str list_all_iff)

lemma checkCallDepth_str:
  "checkCallDepth (Some (int_str (int n))) s =
     (if maxCallDepth s < int n + 1
      then Inl (throw_rf CALL_DEPTH_EXCEEDED (''Call depth limit exceeded: next hop '' @ int_str (int n + 1) @
             '' exceeds maximum allowed depth of '' @ int_str (maxCallDepth s)))
      else Inr (int n + 1))"
  using digits_nat_str[of n] by (simp add: checkCallDepth_def int_str_def)

text \<open>
  A chain of function calls that passes the depth header on is cut exactly at the maximum: the
  call after \<open>n\<close> hops has depth \<open>n + 1\<close> as long as that is allowed, and every longer chain ends in a
  CALL_DEPTH_EXCEEDED error.
\<close>

theorem call_chain_cut_at_max:
  assumes "1 \<le> maxCallDepth s"
  shows "(int n + 1 \<le> maxCallDepth s \<longrightarrow> call_chain n s = Inr (int n + 1)) \<and>
    (maxCallDepth s < int n + 1 \<longrightarrow> (\<exists>e. call_chain n s = Inl e \<and> exn_code e = Some CALL_DEPTH_EXCEEDED))"
proof (induction n)
  case 0
  then show ?case using assms by (simp add: checkCallDepth_def)
next
  case (Suc n)
  have e: "1 + int n = int (Suc n)" by simp
  show ?case
  proof (cases "int n + 1 \<le> maxCallDepth s")
    case True
    then have "call_chain n s = Inr (int (Suc n))" using Suc by simp
    then show ?thesis by (simp add: checkCallDepth_str del: of_nat_Suc)
  next
    case False
    then show ?thesis using Suc by auto
  qed
qed

lemma call_chain_cut_at_max_witness:
  "call_chain 7 (createInvocationTracker demo_limits) = Inr 8 \<and> isl (call_chain 8 (createInvocationTracker demo_limits))"
proof -
  have m: "maxCallDepth (createInvocationTracker demo_limits) = 8" by (simp add: createInvocationTracker_def demo_limits_def)
  show ?thesis
    using call_chain_cut_at_max[of "createInvocationTracker demo_limits" 7] call_chain_cut_at_max[of "createInvocationTracker demo_limits" 8]
    by (auto simp: m simp del: call_chain.simps)
qed

end
