(* ===== verification/Config.thy ===== *)
theory Config
  imports Errors
begin

text \<open>
  \<open>packages/config/parser.ts\<close> and \<open>schema.ts\<close>: validation of a project configuration that the TOML
  parser has read. The parser is an argument; the raw configuration is a dynamic value and numbers
  may be NaN or infinite, as TOML allows.

  Shown: an accepted configuration has a project with trimmed, non-empty identifiers, at least one
  function, an entry point for every function and limits that are within the ceilings or NaN;
  every finding is an error diagnostic with the code VALIDATION_FAILED; a NaN limit is accepted.
\<close>

section \<open>Schema\<close>

record FunctionLimitsConfig =
  cpuMs :: "jsnum option"
  timeoutMs :: "jsnum option"
  memoryMb :: "jsnum option"
  concurrency :: "jsnum option"

record FunctionTriggersConfig =
  http :: "string option"
  queue :: "string option"
  schedule :: "string option"
  webhook :: "string option"

record FunctionPermissionsConfig =
  perm_kv :: "string list option"
  perm_objects :: "string list option"
  perm_queues :: "string list option"
  perm_network :: "string list option"
  perm_secrets :: "string list option"

record FunctionConfig =
  entrypoint :: string
  limits :: "FunctionLimitsConfig option"
  triggers :: "FunctionTriggersConfig option"
  permissions :: "FunctionPermissionsConfig option"

record ProjectConfig =
  project_id :: string
  project_orgId :: string
  project_name :: "string option"

record QueueResource =
  maxDeliveryAttempts :: "jsnum option"
  retryBackoffMs :: "jsnum option"

record RailFogConfig =
  project :: ProjectConfig
  fns :: "(string \<times> FunctionConfig) list"
  kv :: "(string \<times> string option) list option"
  objects :: "(string \<times> bool option) list option"
  queues :: "(string \<times> QueueResource) list option"

datatype severity = Error | Warning

record ConfigDiagnostic =
  severity :: severity
  diag_code :: string
  path :: string
  message :: string

record ConfigValidationResult =
  valid :: bool
  config :: "RailFogConfig option"
  diagnostics :: "ConfigDiagnostic list"

definition diag :: "string \<Rightarrow> string \<Rightarrow> ConfigDiagnostic" where
  "diag p m = \<lparr>severity = Error, diag_code = ''VALIDATION_FAILED'', path = p, message = m\<rparr>"

section \<open>Reading fields\<close>

text \<open>\<open>Object.entries\<close>: of an object its fields, of an array its elements under their indices.\<close>

fun entries :: "jsval \<Rightarrow> (string \<times> jsval) list" where
  "entries (JObj fs) = fs"
| "entries (JArr xs) = zip (map nat_str [0..<length xs]) xs"
| "entries _ = []"

definition trimmed :: "jsval \<Rightarrow> string option" where
  "trimmed v = (case v of JStr s \<Rightarrow> if trim s \<noteq> [] then Some (trim s) else None | _ \<Rightarrow> None)"

definition str_of :: "jsval \<Rightarrow> string \<Rightarrow> string \<Rightarrow> string option" where
  "str_of obj a b = or_else (trimmed (jget obj a)) (trimmed (jget obj b))"

definition num_of :: "jsval \<Rightarrow> string \<Rightarrow> string \<Rightarrow> jsnum option" where
  "num_of obj a b = or_else (as_num (jget obj a)) (as_num (jget obj b))"

definition string_items :: "jsval \<Rightarrow> string list option" where
  "string_items v = (case v of JArr xs \<Rightarrow> Some (List.map_filter as_str xs) | _ \<Rightarrow> None)"

definition str_or_bool :: "jsval \<Rightarrow> string option" where
  "str_or_bool v =
     (case v of JStr s \<Rightarrow> Some s | JBool b \<Rightarrow> Some (if b then ''true'' else ''false'') | _ \<Rightarrow> None)"

section \<open>Project\<close>

definition check_project :: "jsval \<Rightarrow> ProjectConfig option \<times> ConfigDiagnostic list" where
  "check_project raw =
     (let p = jget raw ''project'' in
      if \<not> is_object p
      then (None, [diag ''project'' ''Missing project configuration table'',
                   diag ''project.id'' ''Missing required property project.id'',
                   diag ''project.orgId'' ''Missing required property project.orgId''])
      else let i = str_of p ''id'' ''name''; org = str_of p ''orgId'' ''org_id'' in
           ((case (i, org) of
               (Some x, Some y) \<Rightarrow> Some \<lparr>project_id = x, project_orgId = y, project_name = as_str (jget p ''name'')\<rparr>
             | _ \<Rightarrow> None),
            (if i = None then [diag ''project.id'' ''Missing required property project.id''] else []) @
            (if org = None then [diag ''project.orgId'' ''Missing required property project.orgId''] else [])))"

section \<open>Functions\<close>

definition MAX_MEMORY_MB :: rat where "MAX_MEMORY_MB = 1024"
definition MAX_TIMEOUT_MS :: rat where "MAX_TIMEOUT_MS = 900000"

definition not_positive :: "jsnum option \<Rightarrow> bool" where
  "not_positive n = (case n of None \<Rightarrow> False | Some x \<Rightarrow> num_le x (Fin 0))"

definition above :: "jsnum option \<Rightarrow> rat \<Rightarrow> bool" where
  "above n k = (case n of None \<Rightarrow> False | Some x \<Rightarrow> num_less (Fin k) x)"

definition check_limits :: "string \<Rightarrow> jsval \<Rightarrow> FunctionLimitsConfig option \<times> ConfigDiagnostic list" where
  "check_limits fn l =
     (if \<not> is_object l then (None, [])
      else let c = num_of l ''cpuMs'' ''cpu_ms''; t = num_of l ''timeoutMs'' ''timeout_ms'';
               m = num_of l ''memoryMb'' ''memory_mb''; k = as_num (jget l ''concurrency'') in
           (Some \<lparr>cpuMs = c, timeoutMs = t, memoryMb = m, concurrency = k\<rparr>,
            (if not_positive c
             then [diag (''functions.'' @ fn @ ''.limits.cpuMs'') (''cpuMs must be a positive number for function '' @ fn)] else []) @
            (if not_positive t \<or> above t MAX_TIMEOUT_MS
             then [diag (''functions.'' @ fn @ ''.limits.timeoutMs'') (''timeoutMs must be between 1 and 900000 ms for function '' @ fn)] else []) @
            (if not_positive m \<or> above m MAX_MEMORY_MB
             then [diag (''functions.'' @ fn @ ''.limits.memoryMb'') (''memoryMb must be between 1 and 1024 MB for function '' @ fn)] else []) @
            (if not_positive k
             then [diag (''functions.'' @ fn @ ''.limits.concurrency'') (''concurrency must be a positive number for function '' @ fn)] else [])))"

definition read_triggers :: "jsval \<Rightarrow> FunctionTriggersConfig option" where
  "read_triggers t =
     (if \<not> is_object t then None
      else Some \<lparr>http = str_or_bool (jget t ''http''), queue = as_str (jget t ''queue''),
                 schedule = as_str (jget t ''schedule''), webhook = str_or_bool (jget t ''webhook'')\<rparr>)"

definition read_permissions :: "jsval \<Rightarrow> FunctionPermissionsConfig option" where
  "read_permissions p =
     (if \<not> is_object p then None
      else Some \<lparr>perm_kv = string_items (jget p ''kv''), perm_objects = string_items (jget p ''objects''),
                 perm_queues = string_items (jget p ''queues''), perm_network = string_items (jget p ''network''),
                 perm_secrets = string_items (jget p ''secrets'')\<rparr>)"

definition check_function :: "string \<Rightarrow> jsval \<Rightarrow> (string \<times> FunctionConfig) list \<times> ConfigDiagnostic list" where
  "check_function fn raw =
     (if \<not> is_object raw
      then ([], [diag (''functions.'' @ fn) (''Function '' @ fn @ '' configuration must be an object'')])
      else let e = str_of raw ''entrypoint'' ''entry''; (lm, ds) = check_limits fn (jget raw ''limits'') in
           ((case e of
               None \<Rightarrow> []
             | Some x \<Rightarrow> [(fn, \<lparr>entrypoint = x, limits = lm, triggers = read_triggers (jget raw ''triggers''),
                             permissions = read_permissions (jget raw ''permissions'')\<rparr>)]),
            (if e = None
             then [diag (''functions.'' @ fn @ ''.entrypoint'') (''Missing required property entrypoint for function '' @ fn)] else []) @ ds))"

definition check_functions :: "jsval \<Rightarrow> (string \<times> FunctionConfig) list \<times> ConfigDiagnostic list" where
  "check_functions raw =
     (let fs = jget raw ''functions'' in
      if \<not> is_object fs then ([], [diag ''functions'' ''Missing functions definition table''])
      else let rs = map (\<lambda>(n, v). check_function n v) (entries fs) in
           (concat (map fst rs),
            (if entries fs = [] then [diag ''functions'' ''At least one function must be declared''] else []) @ concat (map snd rs)))"

section \<open>Resources\<close>

definition check_kv :: "jsval \<Rightarrow> (string \<times> string option) list option \<times> ConfigDiagnostic list" where
  "check_kv raw =
     (let k = jget raw ''kv'' in
      if \<not> is_object k then (None, [])
      else let es = filter (\<lambda>e. is_object (snd e)) (entries k);
               ok = (\<lambda>v. v = JStr ''strong'' \<or> v = JStr ''eventual'') in
           (Some (map (\<lambda>(n, v). (n, if ok (jget v ''consistency'') then as_str (jget v ''consistency'') else None)) es),
            concat (map (\<lambda>(n, v). if jget v ''consistency'' \<noteq> JUndef \<and> \<not> ok (jget v ''consistency'')
               then [diag (''kv.'' @ n @ ''.consistency'') (''consistency must be 'strong' or 'eventual' for kv namespace '' @ n)] else []) es)))"

definition read_objects :: "jsval \<Rightarrow> (string \<times> bool option) list option" where
  "read_objects raw =
     (let k = jget raw ''objects'' in
      if \<not> is_object k then None
      else Some (map (\<lambda>(n, v). (n, case jget v ''public'' of JBool b \<Rightarrow> Some b | _ \<Rightarrow> None))
                   (filter (\<lambda>e. is_object (snd e)) (entries k))))"

definition read_queues :: "jsval \<Rightarrow> (string \<times> QueueResource) list option" where
  "read_queues raw =
     (let k = jget raw ''queues'' in
      if \<not> is_object k then None
      else Some (map (\<lambda>(n, v). (n, \<lparr>maxDeliveryAttempts = num_of v ''maxDeliveryAttempts'' ''max_receives'',
                                     retryBackoffMs = num_of v ''retryBackoffMs'' ''retry_backoff_ms''\<rparr>))
                   (filter (\<lambda>e. is_object (snd e)) (entries k))))"

section \<open>Validation\<close>

definition validateRailFogConfig :: "jsval \<Rightarrow> ConfigValidationResult" where
  "validateRailFogConfig raw =
     (if \<not> is_object raw
      then \<lparr>valid = False, config = None, diagnostics = [diag [] ''Configuration must be an object'']\<rparr>
      else let (p, d1) = check_project raw;
               (fs, d2) = check_functions raw;
               (k, d3) = check_kv raw;
               ds = d1 @ d2 @ d3
           in if filter (\<lambda>d. severity d = Error) ds = []
              then (case p of
                  Some pc \<Rightarrow> \<lparr>valid = True,
                     config = Some \<lparr>project = pc, fns = fs, kv = k, objects = read_objects raw, queues = read_queues raw\<rparr>,
                     diagnostics = ds\<rparr>
                | None \<Rightarrow> \<lparr>valid = False, config = None, diagnostics = ds\<rparr>)
              else \<lparr>valid = False, config = None, diagnostics = ds\<rparr>)"

text \<open>The TOML parser answers with the message of a syntax error or with the raw configuration.\<close>

definition parseRailFogConfig :: "(string \<Rightarrow> string + jsval) \<Rightarrow> string \<Rightarrow> ConfigValidationResult" where
  "parseRailFogConfig parse tomlContent =
     (case parse tomlContent of
        Inl msg \<Rightarrow> \<lparr>valid = False, config = None, diagnostics = [diag ''toml'' (''Invalid TOML syntax: '' @ msg)]\<rparr>
      | Inr raw \<Rightarrow> validateRailFogConfig raw)"

section \<open>Accepted configurations\<close>

definition diag_ok :: "ConfigDiagnostic \<Rightarrow> bool" where
  "diag_ok d = (severity d = Error \<and> diag_code d = ''VALIDATION_FAILED'')"

definition limit_within :: "jsnum option \<Rightarrow> rat option \<Rightarrow> bool" where
  "limit_within n upper =
     (case n of None \<Rightarrow> True
      | Some NaN \<Rightarrow> True
      | Some x \<Rightarrow> num_less (Fin 0) x \<and> (case upper of None \<Rightarrow> True | Some c \<Rightarrow> num_le x (Fin c)))"

definition limits_ok :: "FunctionLimitsConfig \<Rightarrow> bool" where
  "limits_ok l = (limit_within (cpuMs l) None \<and> limit_within (timeoutMs l) (Some 900000) \<and> limit_within (memoryMb l) (Some 1024) \<and>
     limit_within (concurrency l) None)"

definition function_ok :: "FunctionConfig \<Rightarrow> bool" where
  "function_ok f = (entrypoint f \<noteq> [] \<and> (case limits f of None \<Rightarrow> True | Some l \<Rightarrow> limits_ok l))"

lemma diag_ok_diag [simp]: "diag_ok (diag p m)"
  by (simp add: diag_ok_def diag_def)

lemma not_positive_within: "\<not> not_positive n \<Longrightarrow> limit_within n None"
  by (cases n; cases "the n") (auto simp: not_positive_def limit_within_def split: jsnum.splits)

lemma not_above_within: "\<not> not_positive n \<Longrightarrow> \<not> above n c \<Longrightarrow> limit_within n (Some c)"
  by (cases n; cases "the n") (auto simp: not_positive_def above_def limit_within_def split: jsnum.splits)

lemma trimmed_not_Nil: "trimmed v = Some s \<Longrightarrow> s \<noteq> []"
  by (auto simp: trimmed_def split: jsval.splits if_splits)

lemma str_of_not_Nil: "str_of obj a b = Some s \<Longrightarrow> s \<noteq> []"
  by (auto simp: str_of_def or_else_def dest: trimmed_not_Nil split: option.splits)

lemma check_limits_ok:
  assumes "check_limits fn l = (lm, [])"
  shows "case lm of None \<Rightarrow> True | Some x \<Rightarrow> limits_ok x"
  using assms
  by (auto simp: check_limits_def Let_def limits_ok_def MAX_TIMEOUT_MS_def MAX_MEMORY_MB_def
      intro: not_positive_within not_above_within split: if_splits)

lemma check_function_ok:
  assumes "check_function fn raw = (fs, [])"
  shows "\<exists>f. fs = [(fn, f)] \<and> function_ok f"
proof -
  have o: "is_object raw" using assms by (auto simp: check_function_def split: if_splits)
  obtain lm ds where l: "check_limits fn (jget raw ''limits'') = (lm, ds)" by fastforce
  obtain e where e: "str_of raw ''entrypoint'' ''entry'' = Some e" and ds: "ds = []"
    using assms o l by (auto simp: check_function_def Let_def split: if_splits option.splits)
  show ?thesis using assms o l e ds check_limits_ok[of fn "jget raw ''limits''" lm] str_of_not_Nil[OF e]
    by (auto simp: check_function_def Let_def function_ok_def)
qed

lemma check_limits_diags: "list_all diag_ok (snd (check_limits fn l))"
  by (simp add: check_limits_def Let_def)

lemma check_function_diags: "list_all diag_ok (snd (check_function fn raw))"
  using check_limits_diags[of fn "jget raw ''limits''"] by (auto simp: check_function_def Let_def case_prod_beta)

lemma check_functions_diags: "list_all diag_ok (snd (check_functions raw))"
  using check_function_diags by (auto simp: check_functions_def Let_def list_all_iff)

lemma check_project_diags: "list_all diag_ok (snd (check_project raw))"
  by (simp add: check_project_def Let_def)

lemma check_kv_diags: "list_all diag_ok (snd (check_kv raw))"
  by (auto simp: check_kv_def Let_def list_all_iff)

lemma check_functions_ok:
  assumes "check_functions raw = (fs, [])"
  shows "map fst fs = map fst (entries (jget raw ''functions'')) \<and> fs \<noteq> [] \<and> (\<forall>(n, f) \<in> set fs. function_ok f)"
proof -
  let ?es = "entries (jget raw ''functions'')"
  have es: "?es \<noteq> []" and c: "concat (map snd (map (\<lambda>(n, v). check_function n v) ?es)) = []"
    and f: "fs = concat (map fst (map (\<lambda>(n, v). check_function n v) ?es))"
    using assms by (auto simp: check_functions_def Let_def split: if_splits)
  have each: "\<exists>f. fst (check_function n v) = [(n, f)] \<and> function_ok f" if "(n, v) \<in> set ?es" for n v
  proof -
    have "snd (check_function n v) = []" using c that by (auto simp: concat_eq_Nil_conv)
    then show ?thesis using check_function_ok[of n v "fst (check_function n v)"] by (metis prod.collapse)
  qed
  have "map fst (concat (map fst (map (\<lambda>(n, v). check_function n v) xs))) = map fst xs \<and>
      (\<forall>(n, f) \<in> set (concat (map fst (map (\<lambda>(n, v). check_function n v) xs))). function_ok f)"
    if "set xs \<subseteq> set ?es" for xs
    using that
  proof (induction xs)
    case (Cons x xs)
    obtain n v where x: "x = (n, v)" by (cases x)
    then obtain g where "fst (check_function n v) = [(n, g)]" "function_ok g"
      using each[of n v] Cons.prems by auto
    then show ?case using Cons x by auto
  qed simp
  from this[OF order_refl] have m: "map fst fs = map fst ?es" and o: "\<forall>(n, f) \<in> set fs. function_ok f"
    unfolding f by blast+
  moreover have "fs \<noteq> []" using m es by (metis map_is_Nil_conv)
  ultimately show ?thesis by blast
qed

text \<open>
  A configuration is either accepted or refused with at least one diagnostic, and every
  diagnostic is an error with the code VALIDATION_FAILED. An accepted one has non-empty project and
  organisation identifiers and as functions exactly the declared ones, at least one, each with an
  entry point and with limits that are positive and at most the ceilings, or NaN.
\<close>

theorem accepted_config_sound:
  "list_all diag_ok (diagnostics (parseRailFogConfig parse s)) \<and>
   (valid (parseRailFogConfig parse s) \<longleftrightarrow> diagnostics (parseRailFogConfig parse s) = []) \<and>
   (valid (parseRailFogConfig parse s) \<longrightarrow>
     (\<exists>raw c. parse s = Inr raw \<and> config (parseRailFogConfig parse s) = Some c \<and>
        project_id (project c) \<noteq> [] \<and> project_orgId (project c) \<noteq> [] \<and> fns c \<noteq> [] \<and>
        map fst (fns c) = map fst (entries (jget raw ''functions'')) \<and>
        (\<forall>(n, f) \<in> set (fns c). function_ok f)))"
proof (cases "parse s")
  case (Inl m)
  then show ?thesis by (simp add: parseRailFogConfig_def)
next
  case (Inr raw)
  show ?thesis
  proof (cases "is_object raw")
    case False
    then show ?thesis using Inr by (simp add: parseRailFogConfig_def validateRailFogConfig_def)
  next
    case True
    obtain p d1 where p: "check_project raw = (p, d1)" by fastforce
    obtain fs d2 where f: "check_functions raw = (fs, d2)" by fastforce
    obtain k d3 where k: "check_kv raw = (k, d3)" by fastforce
    let ?ds = "d1 @ d2 @ d3"
    have ok: "list_all diag_ok ?ds"
      using check_project_diags[of raw] check_functions_diags[of raw] check_kv_diags[of raw] p f k by simp
    then have nil: "filter (\<lambda>d. severity d = Error) ?ds = [] \<longleftrightarrow> ?ds = []"
      by (auto simp: list_all_iff diag_ok_def filter_empty_conv)
    have pr: "d1 = [] \<Longrightarrow> \<exists>pc. p = Some pc \<and> project_id pc \<noteq> [] \<and> project_orgId pc \<noteq> []"
      using p by (auto simp: check_project_def Let_def dest!: str_of_not_Nil split: if_splits option.splits)
    have v: "parseRailFogConfig parse s =
        (if ?ds = [] then (case p of Some pc \<Rightarrow> \<lparr>valid = True,
             config = Some \<lparr>project = pc, fns = fs, kv = k, objects = read_objects raw, queues = read_queues raw\<rparr>,
             diagnostics = ?ds\<rparr>
           | None \<Rightarrow> \<lparr>valid = False, config = None, diagnostics = ?ds\<rparr>)
         else \<lparr>valid = False, config = None, diagnostics = ?ds\<rparr>)"
      using Inr True p f k nil by (simp add: parseRailFogConfig_def validateRailFogConfig_def Let_def)
    show ?thesis
    proof (cases "?ds = []")
      case True
      then obtain pc where "p = Some pc" "project_id pc \<noteq> []" "project_orgId pc \<noteq> []" using pr by auto
      then show ?thesis using v True check_functions_ok[of raw fs] f Inr by auto
    next
      case False
      then have "parseRailFogConfig parse s = \<lparr>valid = False, config = None, diagnostics = ?ds\<rparr>"
        unfolding v by (simp only: if_False)
      then show ?thesis using ok False by simp
    qed
  qed
qed

definition demo_raw :: "jsnum \<Rightarrow> jsval" where
  "demo_raw t = JObj [(''project'', JObj [(''id'', JStr ''web''), (''org_id'', JStr ''acme'')]),
     (''functions'', JObj [(''api'', JObj [(''entry'', JStr ''main.ts''), (''limits'', JObj [(''timeoutMs'', JNum t)])])])]"

lemma accepted_config_sound_witness:
  "valid (parseRailFogConfig (\<lambda>_. Inr (demo_raw (Fin 30000))) []) \<and>
   (\<exists>c. config (parseRailFogConfig (\<lambda>_. Inr (demo_raw (Fin 30000))) []) = Some c \<and> map fst (fns c) = [''api''])"
proof -
  have v: "valid (parseRailFogConfig (\<lambda>_. Inr (demo_raw (Fin 30000))) [])" by code_simp
  have e: "map fst (entries (jget (demo_raw (Fin 30000)) ''functions'')) = [''api'']" by code_simp
  show ?thesis using accepted_config_sound[of "\<lambda>_. Inr (demo_raw (Fin 30000))" "[]"] v e by auto
qed

text \<open>
  The comparisons that reject a limit are all false for NaN, which TOML can express: a function
  whose timeout is NaN is accepted, and so is an infinite CPU limit, while an infinite or a negative
  timeout is refused.
\<close>

theorem nan_limit_accepted:
  "valid (validateRailFogConfig (demo_raw NaN)) \<and>
   \<not> valid (validateRailFogConfig (demo_raw PosInf)) \<and> \<not> valid (validateRailFogConfig (demo_raw (Fin (- 1)))) \<and>
   limits (snd (hd (fns (the (config (validateRailFogConfig (demo_raw NaN))))))) =
     Some \<lparr>cpuMs = None, timeoutMs = Some NaN, memoryMb = None, concurrency = None\<rparr> \<and>
   snd (check_limits fn (JObj [(''cpu_ms'', JNum PosInf)])) = []"
proof (intro conjI)
  show "snd (check_limits fn (JObj [(''cpu_ms'', JNum PosInf)])) = []"
    by (simp add: check_limits_def num_of_def not_positive_def above_def)
qed code_simp+

end
