(* ===== verification/Ulid.thy ===== *)
theory Ulid
  imports JsLib "HOL-Library.Char_ord" "HOL-Library.List_Lexorder"
begin

unbundle bit_operations_syntax

text \<open>
  \<open>packages/core/id/ulid.ts\<close>: 48 bits of time in ten and 80 random bits in sixteen characters of
  Crockford's base 32. The clock reading and the ten random bytes are arguments.

  Shown: every generated identifier is valid; identifiers of a later millisecond sort after those
  of an earlier one, up to \<open>2 ^ 50\<close> ms; the identifier determines the time and the random bytes.
\<close>

definition ENCODING :: string where
  "ENCODING = ''0123456789ABCDEFGHJKMNPQRSTVWXYZ''"

text \<open>The loop over the ten time characters, the last character first.\<close>

fun time_chars :: "nat \<Rightarrow> int \<Rightarrow> string" where
  "time_chars 0 t = []"
| "time_chars (Suc i) t = time_chars i (t div 32) @ [ENCODING ! nat (t mod 32)]"

text \<open>Five bytes to eight characters.\<close>

definition rand_indices :: "int list \<Rightarrow> int list" where
  "rand_indices b =
     [drop_bit 3 (b ! 0) AND 0x1f,
      push_bit 2 (b ! 0 AND 0x07) OR drop_bit 6 (b ! 1),
      drop_bit 1 (b ! 1) AND 0x1f,
      push_bit 4 (b ! 1 AND 0x01) OR drop_bit 4 (b ! 2),
      push_bit 1 (b ! 2 AND 0x0f) OR drop_bit 7 (b ! 3),
      drop_bit 2 (b ! 3) AND 0x1f,
      push_bit 3 (b ! 3 AND 0x03) OR drop_bit 5 (b ! 4),
      b ! 4 AND 0x1f]"

definition rand_chars :: "int list \<Rightarrow> string" where
  "rand_chars b = map (\<lambda>i. ENCODING ! nat i) (rand_indices b)"

definition generateUlid :: "int \<Rightarrow> int list \<Rightarrow> string" where
  "generateUlid now bytes = time_chars 10 now @ rand_chars (take 5 bytes) @ rand_chars (drop 5 bytes)"

definition ulid_char :: "char \<Rightarrow> bool" where
  "ulid_char c =
     (let n = code c in
      48 \<le> n \<and> n \<le> 57 \<or> 65 \<le> n \<and> n \<le> 72 \<or> n = 74 \<or> n = 75 \<or> n = 77 \<or> n = 78 \<or>
      80 \<le> n \<and> n \<le> 84 \<or> 86 \<le> n \<and> n \<le> 90)"

definition isValidUlid :: "string \<Rightarrow> bool" where
  "isValidUlid v = (length v = 26 \<and> list_all ulid_char v)"

section \<open>The alphabet\<close>

lemma encoding_length: "length ENCODING = 32"
  by (simp add: ENCODING_def)

lemma encoding_valid: "i < 32 \<Longrightarrow> ulid_char (ENCODING ! i)"
proof -
  assume i: "i < 32"
  have "list_all ulid_char ENCODING" by code_simp
  then show ?thesis using i encoding_length by (simp add: list_all_length)
qed

lemma encoding_less: "i < j \<Longrightarrow> j < 32 \<Longrightarrow> ENCODING ! i < ENCODING ! j"
proof -
  assume i: "i < j" "j < 32"
  have "sorted_wrt (<) ENCODING" by code_simp
  then show ?thesis using i encoding_length by (simp add: sorted_wrt_iff_nth_less)
qed

lemma encoding_inj: "i < 32 \<Longrightarrow> j < 32 \<Longrightarrow> ENCODING ! i = ENCODING ! j \<Longrightarrow> i = j"
  using encoding_less[of i j] encoding_less[of j i] by (cases i j rule: linorder_cases) auto

section \<open>Time\<close>

lemma time_chars_length: "length (time_chars n t) = n"
  by (induction n arbitrary: t) auto

lemma time_chars_valid: "list_all ulid_char (time_chars n t)"
proof (induction n arbitrary: t)
  case (Suc n)
  have "nat (t mod 32) < 32" by (simp add: nat_less_iff)
  then show ?case using Suc encoding_valid by simp
qed simp

lemma time_chars_mono:
  assumes "0 \<le> s" "s < t" "t < 32 ^ n"
  shows "time_chars n s < time_chars n t"
  using assms
proof (induction n arbitrary: s t)
  case (Suc n)
  show ?case
  proof (cases "s div 32 = t div 32")
    case True
    then have m: "s mod 32 < t mod 32" using Suc.prems(2) by (metis div_mult_mod_eq add_less_cancel_left)
    have "nat (s mod 32) < nat (t mod 32)" "nat (t mod 32) < 32" using m by (auto simp: nat_less_iff)
    then have "ENCODING ! nat (s mod 32) < ENCODING ! nat (t mod 32)" by (rule encoding_less)
    then show ?thesis using True by (simp add: list_less_def lexord_append_leftI)
  next
    case False
    then have "s div 32 < t div 32" using Suc.prems(2) zdiv_mono1[of s t 32] by simp
    moreover have "t div 32 < 32 ^ n" using Suc.prems(3) by (simp add: div_less_iff_less_mult mult.commute)
    ultimately have "time_chars n (s div 32) < time_chars n (t div 32)" using Suc by (simp add: pos_imp_zdiv_nonneg_iff)
    then show ?thesis using time_chars_length[of n] by (simp add: list_less_def lexord_sufI)
  qed
qed simp

section \<open>Randomness\<close>

definition is_byte :: "int \<Rightarrow> bool" where
  "is_byte b = (0 \<le> b \<and> b < 256)"

lemma small_or:
  "a \<in> set [0..7] \<Longrightarrow> b \<in> set [0..3] \<Longrightarrow> push_bit 2 a OR b = 4 * a + (b :: int)"
  "a \<in> set [0..1] \<Longrightarrow> b \<in> set [0..15] \<Longrightarrow> push_bit 4 a OR b = 16 * a + (b :: int)"
  "a \<in> set [0..15] \<Longrightarrow> b \<in> set [0..1] \<Longrightarrow> push_bit 1 a OR b = 2 * a + (b :: int)"
  "a \<in> set [0..3] \<Longrightarrow> b \<in> set [0..7] \<Longrightarrow> push_bit 3 a OR b = 8 * a + (b :: int)"
proof -
  have "list_all (\<lambda>a. list_all (\<lambda>b. push_bit 2 a OR b = 4 * a + b) [0..3]) [0..7 :: int]"
    "list_all (\<lambda>a. list_all (\<lambda>b. push_bit 4 a OR b = 16 * a + b) [0..15]) [0..1 :: int]"
    "list_all (\<lambda>a. list_all (\<lambda>b. push_bit 1 a OR b = 2 * a + b) [0..1]) [0..15 :: int]"
    "list_all (\<lambda>a. list_all (\<lambda>b. push_bit 3 a OR b = 8 * a + b) [0..7]) [0..3 :: int]"
    by code_simp+
  then show "a \<in> set [0..7] \<Longrightarrow> b \<in> set [0..3] \<Longrightarrow> push_bit 2 a OR b = 4 * a + b"
    "a \<in> set [0..1] \<Longrightarrow> b \<in> set [0..15] \<Longrightarrow> push_bit 4 a OR b = 16 * a + b"
    "a \<in> set [0..15] \<Longrightarrow> b \<in> set [0..1] \<Longrightarrow> push_bit 1 a OR b = 2 * a + b"
    "a \<in> set [0..3] \<Longrightarrow> b \<in> set [0..7] \<Longrightarrow> push_bit 3 a OR b = 8 * a + b"
    unfolding list_all_iff by blast+
qed

lemma mask_mod: "(x :: int) AND 0x1f = x mod 32" "x AND 0x07 = x mod 8" "x AND 0x01 = x mod 2" "x AND 0x0f = x mod 16" "x AND 0x03 = x mod 4"
  proof -
  have m: "x AND mask n = x mod 2 ^ n" for n by (simp add: take_bit_eq_mod flip: take_bit_eq_mask)
  show "x AND 0x1f = x mod 32" using m[of 5] by (simp add: mask_eq_exp_minus_1)
  show "x AND 0x07 = x mod 8" using m[of 3] by (simp add: mask_eq_exp_minus_1)
  show "x AND 0x01 = x mod 2" using m[of 1] by (simp add: mask_eq_exp_minus_1)
  show "x AND 0x0f = x mod 16" using m[of 4] by (simp add: mask_eq_exp_minus_1)
  show "x AND 0x03 = x mod 4" using m[of 2] by (simp add: mask_eq_exp_minus_1)
qed

lemma in_upto: "0 \<le> x \<Longrightarrow> x < l \<Longrightarrow> l = k + 1 \<Longrightarrow> x \<in> set [0..k]"
  by simp

lemma byte_parts:
  assumes "is_byte b"
  shows "b div 64 \<in> set [0..3]" "b div 16 \<in> set [0..15]" "b div 128 \<in> set [0..1]" "b div 32 \<in> set [0..7]"
    "b mod 8 \<in> set [0..7]" "b mod 2 \<in> set [0..1]" "b mod 16 \<in> set [0..15]" "b mod 4 \<in> set [0..3]"
    "0 \<le> b div 8" "b div 8 < 32"
proof -
  have b: "0 \<le> b" "b < 256" using assms by (auto simp: is_byte_def)
  have z: "0 \<le> b div k" if "0 < k" for k using b that by (simp add: pos_imp_zdiv_nonneg_iff)
  have d: "b div k < n" if "0 < k" "256 = n * k" for k n
  proof -
    have "b < n * k" using b that by simp
    moreover have "b div k * k \<le> b" using div_mult_mod_eq[of b k] pos_mod_sign[of k b] that(1) by linarith
    ultimately show ?thesis using mult_right_mono[of n "b div k" k] that(1) by linarith
  qed
  show "b div 64 \<in> set [0..3]" by (rule in_upto[OF z d[of 64 4]]) simp_all
  show "b div 16 \<in> set [0..15]" by (rule in_upto[OF z d[of 16 16]]) simp_all
  show "b div 128 \<in> set [0..1]" by (rule in_upto[OF z d[of 128 2]]) simp_all
  show "b div 32 \<in> set [0..7]" by (rule in_upto[OF z d[of 32 8]]) simp_all
  show "0 \<le> b div 8" by (rule z) simp
  show "b div 8 < 32" by (rule d) simp_all
  show "b mod 8 \<in> set [0..7]" by (rule in_upto[OF pos_mod_sign pos_mod_bound]) simp_all
  show "b mod 2 \<in> set [0..1]" by (rule in_upto[OF pos_mod_sign pos_mod_bound]) simp_all
  show "b mod 16 \<in> set [0..15]" by (rule in_upto[OF pos_mod_sign pos_mod_bound]) simp_all
  show "b mod 4 \<in> set [0..3]" by (rule in_upto[OF pos_mod_sign pos_mod_bound]) simp_all
qed

lemma rand_indices_arith:
  assumes "is_byte b0" "is_byte b1" "is_byte b2" "is_byte b3" "is_byte b4"
  shows "rand_indices [b0, b1, b2, b3, b4] =
    [b0 div 8, 4 * (b0 mod 8) + b1 div 64, b1 div 2 mod 32, 16 * (b1 mod 2) + b2 div 16,
     2 * (b2 mod 16) + b3 div 128, b3 div 4 mod 32, 8 * (b3 mod 4) + b4 div 32, b4 mod 32]"
proof -
  have "b0 div 8 mod 32 = b0 div 8" using byte_parts(9,10)[OF assms(1)] by simp
  moreover note small_or(1)[OF byte_parts(5)[OF assms(1)] byte_parts(1)[OF assms(2)]]
    small_or(2)[OF byte_parts(6)[OF assms(2)] byte_parts(2)[OF assms(3)]]
    small_or(3)[OF byte_parts(7)[OF assms(3)] byte_parts(3)[OF assms(4)]]
    small_or(4)[OF byte_parts(8)[OF assms(4)] byte_parts(4)[OF assms(5)]]
  ultimately show ?thesis unfolding rand_indices_def mask_mod by (simp add: drop_bit_eq_div)
qed

text \<open>Five bytes from eight base 32 digits.\<close>

fun decode5 :: "int list \<Rightarrow> int list" where
  "decode5 [i0, i1, i2, i3, i4, i5, i6, i7] =
     [8 * i0 + i1 div 4, 64 * (i1 mod 4) + 2 * i2 + i3 div 16, 16 * (i3 mod 16) + i4 div 2,
      128 * (i4 mod 2) + 4 * i5 + i6 div 8, 32 * (i6 mod 8) + i7]"
| "decode5 _ = []"

lemma split_digits: "0 \<le> y \<Longrightarrow> y < (k :: int) \<Longrightarrow> (k * x + y) div k = x \<and> (k * x + y) mod k = y"
  by simp

lemma join_digits: "0 < k \<Longrightarrow> 0 < j \<Longrightarrow> l = k * j \<Longrightarrow> l * (b div l) + k * (b div k mod j) + b mod k = (b :: int)"
proof -
  assume k: "0 < k" "0 < j" and l: "l = k * j"
  have e: "b div (k * j) = b div k div j" using k by (simp add: zdiv_zmult2_eq)
  have "k * j * (b div (k * j)) + k * (b div k mod j) = k * (j * (b div k div j) + b div k mod j)"
    by (simp only: e distrib_left mult.assoc)
  also have "\<dots> = k * (b div k)" by (simp only: mult_div_mod_eq)
  finally show ?thesis unfolding l by (simp only: mult_div_mod_eq)
qed

lemma decode5_rand_indices:
  assumes "is_byte b0" "is_byte b1" "is_byte b2" "is_byte b3" "is_byte b4"
  shows "decode5 (rand_indices [b0, b1, b2, b3, b4]) = [b0, b1, b2, b3, b4]"
proof -
  note p1 = byte_parts(1)[OF assms(2)] and p2 = byte_parts(2)[OF assms(3)] and p3 = byte_parts(3)[OF assms(4)]
    and p4 = byte_parts(4)[OF assms(5)]
  have s1: "(4 * (b0 mod 8) + b1 div 64) div 4 = b0 mod 8" "(4 * (b0 mod 8) + b1 div 64) mod 4 = b1 div 64"
    using split_digits[of "b1 div 64" 4] p1 by auto
  have s2: "(16 * (b1 mod 2) + b2 div 16) div 16 = b1 mod 2" "(16 * (b1 mod 2) + b2 div 16) mod 16 = b2 div 16"
    using split_digits[of "b2 div 16" 16] p2 by auto
  have s3: "(2 * (b2 mod 16) + b3 div 128) div 2 = b2 mod 16" "(2 * (b2 mod 16) + b3 div 128) mod 2 = b3 div 128"
    using split_digits[of "b3 div 128" 2] p3 by auto
  have s4: "(8 * (b3 mod 4) + b4 div 32) div 8 = b3 mod 4" "(8 * (b3 mod 4) + b4 div 32) mod 8 = b4 div 32"
    using split_digits[of "b4 div 32" 8] p4 by auto
  have j: "64 * (b1 div 64) + 2 * (b1 div 2 mod 32) + b1 mod 2 = b1" by (rule join_digits) simp_all
  have j': "128 * (b3 div 128) + 4 * (b3 div 4 mod 32) + b3 mod 4 = b3" by (rule join_digits) simp_all
  show ?thesis unfolding rand_indices_arith[OF assms] decode5.simps s1 s2 s3 s4 j j' mult_div_mod_eq ..
qed

lemma digit_range:
  "x \<in> set [0..p] \<Longrightarrow> y \<in> set [0..q] \<Longrightarrow> 0 < k \<Longrightarrow> k * p + q = 31 \<Longrightarrow> 0 \<le> k * x + y \<and> k * x + y < (32 :: int)"
proof -
  assume a: "x \<in> set [0..p]" "y \<in> set [0..q]" "0 < k" "k * p + q = 31"
  then have "0 \<le> x" "x \<le> p" "0 \<le> y" "y \<le> q" by auto
  moreover have "k * x \<le> k * p" "0 \<le> k * x" using a(3) \<open>x \<le> p\<close> \<open>0 \<le> x\<close> by (auto intro: mult_left_mono)
  ultimately show ?thesis using a(4) by linarith
qed

lemma rand_indices_range:
  assumes "is_byte b0" "is_byte b1" "is_byte b2" "is_byte b3" "is_byte b4"
  shows "list_all (\<lambda>i. 0 \<le> i \<and> i < 32) (rand_indices [b0, b1, b2, b3, b4])"
  unfolding rand_indices_arith[OF assms] list.pred_inject
proof (intro conjI TrueI)
  show "0 \<le> b0 div 8" "b0 div 8 < 32" by (rule byte_parts[OF assms(1)])+
  show "0 \<le> 4 * (b0 mod 8) + b1 div 64" "4 * (b0 mod 8) + b1 div 64 < 32"
    by (rule digit_range[OF byte_parts(5)[OF assms(1)] byte_parts(1)[OF assms(2)], THEN conjunct1]
        digit_range[OF byte_parts(5)[OF assms(1)] byte_parts(1)[OF assms(2)], THEN conjunct2]; simp)+
  show "0 \<le> 16 * (b1 mod 2) + b2 div 16" "16 * (b1 mod 2) + b2 div 16 < 32"
    by (rule digit_range[OF byte_parts(6)[OF assms(2)] byte_parts(2)[OF assms(3)], THEN conjunct1]
        digit_range[OF byte_parts(6)[OF assms(2)] byte_parts(2)[OF assms(3)], THEN conjunct2]; simp)+
  show "0 \<le> 2 * (b2 mod 16) + b3 div 128" "2 * (b2 mod 16) + b3 div 128 < 32"
    by (rule digit_range[OF byte_parts(7)[OF assms(3)] byte_parts(3)[OF assms(4)], THEN conjunct1]
        digit_range[OF byte_parts(7)[OF assms(3)] byte_parts(3)[OF assms(4)], THEN conjunct2]; simp)+
  show "0 \<le> 8 * (b3 mod 4) + b4 div 32" "8 * (b3 mod 4) + b4 div 32 < 32"
    by (rule digit_range[OF byte_parts(8)[OF assms(4)] byte_parts(4)[OF assms(5)], THEN conjunct1]
        digit_range[OF byte_parts(8)[OF assms(4)] byte_parts(4)[OF assms(5)], THEN conjunct2]; simp)+
qed simp_all

lemma length5: "length b = 5 \<Longrightarrow> \<exists>b0 b1 b2 b3 b4. b = [b0, b1, b2, b3, b4]"
  by (auto simp: numeral_eq_Suc length_Suc_conv)

lemma rand_chars_props:
  assumes "length b = 5" "list_all is_byte b"
  shows "length (rand_chars b) = 8" "list_all ulid_char (rand_chars b)"
proof -
  obtain b0 b1 b2 b3 b4 where b: "b = [b0, b1, b2, b3, b4]" using length5[OF assms(1)] by blast
  show "length (rand_chars b) = 8" by (simp add: rand_chars_def rand_indices_def)
  show "list_all ulid_char (rand_chars b)"
    using rand_indices_range[of b0 b1 b2 b3 b4] assms(2) b
    unfolding rand_chars_def list_all_iff by (auto intro!: encoding_valid simp: nat_less_iff)
qed

lemma rand_chars_inj:
  assumes "length b = 5" "list_all is_byte b" "length c = 5" "list_all is_byte c" "rand_chars b = rand_chars c"
  shows "b = c"
proof -
  obtain b0 b1 b2 b3 b4 where b: "b = [b0, b1, b2, b3, b4]" using length5[OF assms(1)] by blast
  obtain c0 c1 c2 c3 c4 where c: "c = [c0, c1, c2, c3, c4]" using length5[OF assms(3)] by blast
  have r: "\<forall>i \<in> set (rand_indices b). 0 \<le> i \<and> i < 32" "\<forall>i \<in> set (rand_indices c). 0 \<le> i \<and> i < 32"
    using rand_indices_range[of b0 b1 b2 b3 b4] rand_indices_range[of c0 c1 c2 c3 c4] assms(2,4) b c
    by (simp_all add: list_all_iff)
  have inj: "inj_on (\<lambda>i. ENCODING ! nat i) {0..<32 :: int}"
  proof (rule inj_onI)
    fix x y :: int assume "x \<in> {0..<32}" "y \<in> {0..<32}" "ENCODING ! nat x = ENCODING ! nat y"
    then show "x = y" using encoding_inj[of "nat x" "nat y"] by (auto simp: nat_less_iff)
  qed
  have "set (rand_indices b) \<union> set (rand_indices c) \<subseteq> {0..<32}" using r by auto
  from map_inj_on[OF assms(5)[unfolded rand_chars_def] inj_on_subset[OF inj this]]
  have "rand_indices b = rand_indices c" .
  moreover have "decode5 (rand_indices b) = b" unfolding b by (rule decode5_rand_indices) (use assms(2) b in simp_all)
  moreover have "decode5 (rand_indices c) = c" unfolding c by (rule decode5_rand_indices) (use assms(4) c in simp_all)
  ultimately show ?thesis by metis
qed

lemma byte_halves:
  assumes "length x = 10" "list_all is_byte x"
  shows "length (take 5 x) = 5 \<and> length (drop 5 x) = 5 \<and> list_all is_byte (take 5 x) \<and> list_all is_byte (drop 5 x)"
  using assms by (auto simp: list_all_iff dest: in_set_takeD in_set_dropD)

lemma generateUlid_valid:
  assumes "length a = 10" "list_all is_byte a"
  shows "isValidUlid (generateUlid s a)"
  using rand_chars_props[of "take 5 a"] rand_chars_props[of "drop 5 a"] byte_halves[OF assms]
  by (simp add: isValidUlid_def generateUlid_def time_chars_length time_chars_valid)

text \<open>
  For a clock reading below \<open>2 ^ 50\<close> ms and ten random bytes the generated identifier is
  accepted by \<open>isValidUlid\<close>; an identifier made at a later millisecond is greater as a string,
  whatever the random bytes; and two equal identifiers were made at the same time from the same
  bytes.
\<close>

theorem ulid_valid_sortable_unique:
  assumes "0 \<le> s" "s < 2 ^ 50" "length a = 10" "list_all is_byte a"
    and "0 \<le> t" "t < 2 ^ 50" "length b = 10" "list_all is_byte b"
  shows "isValidUlid (generateUlid s a) \<and>
    (s < t \<longrightarrow> generateUlid s a < generateUlid t b) \<and>
    (generateUlid s a = generateUlid t b \<longrightarrow> s = t \<and> a = b)"
proof -
  note ha = byte_halves[OF assms(3,4)] and hb = byte_halves[OF assms(7,8)]
  have lt: "generateUlid x u < generateUlid y v" if "0 \<le> x" "x < y" "y < 2 ^ 50" for x y u v
  proof -
    have "time_chars 10 x < time_chars 10 y" using time_chars_mono[of x y 10] that by simp
    then show ?thesis by (simp add: generateUlid_def list_less_def lexord_sufI time_chars_length)
  qed
  have "isValidUlid (generateUlid s a)" using assms(3,4) by (rule generateUlid_valid)
  moreover have "s = t \<and> a = b" if e: "generateUlid s a = generateUlid t b"
  proof -
    have "s = t" using lt[of s t a b] lt[of t s b a] assms e by (cases s t rule: linorder_cases) auto
    moreover have "rand_chars (take 5 a) = rand_chars (take 5 b)" "rand_chars (drop 5 a) = rand_chars (drop 5 b)"
      using e rand_chars_props(1) ha hb by (auto simp: generateUlid_def time_chars_length)
    then have "take 5 a = take 5 b" "drop 5 a = drop 5 b" using rand_chars_inj ha hb by blast+
    ultimately show ?thesis by (metis append_take_drop_id)
  qed
  ultimately show ?thesis using lt assms by blast
qed

lemma ulid_valid_sortable_unique_witness:
  "isValidUlid (generateUlid 1700000000000 [1, 2, 3, 4, 5, 6, 7, 8, 9, 255]) \<and>
   generateUlid 1700000000000 [1, 2, 3, 4, 5, 6, 7, 8, 9, 255] < generateUlid 1700000000001 [0, 0, 0, 0, 0, 0, 0, 0, 0, 0]"
  using ulid_valid_sortable_unique[of 1700000000000 "[1, 2, 3, 4, 5, 6, 7, 8, 9, 255]" 1700000000001 "[0, 0, 0, 0, 0, 0, 0, 0, 0, 0]"]
  by (simp add: is_byte_def)

lemma ulid_char_solid: "ulid_char c \<Longrightarrow> \<not> is_ws c"
  by (auto simp: ulid_char_def is_ws_def Let_def)

lemma trim_ulid: "isValidUlid u \<Longrightarrow> trim u = u \<and> u \<noteq> []"
  using ulid_char_solid by (auto simp: isValidUlid_def list_all_iff intro!: trim_no_ws)

end
