(* ===== verification/Snapshot.thy ===== *)
theory Snapshot
  imports Errors Ulid
begin

text \<open>
  The routing snapshot: \<open>packages/protocol/snapshot.ts\<close> (the producer \<open>SnapshotDistributor\<close> and the
  validator \<open>validateRoutingSnapshot\<close>) and the project snapshot state of
  \<open>apps/api/control-server.ts\<close> (\<open>getProjectSnapshot\<close>, \<open>invalidateProjectSnapshot\<close>, \<open>isEtagMatch\<close>
  and the answer of the snapshot endpoint). Clock readings and random bytes are arguments. Interpolated values are left out
  of error messages. Freezing has no counterpart: the values of the model are immutable.

  Shown: a produced snapshot passes the validator after it crossed the wire as JSON and grants
  what the manifests declare; versions identify snapshots within one run of the control plane;
  a conditional request of a client is answered with 304 only when its copy is current, within
  one run; after a restart of the control plane a stale copy is confirmed as current.
\<close>

section \<open>Revisions\<close>

record ManifestPermissions =
  mp_kv :: "string list option"
  mp_objects :: "string list option"
  mp_queues :: "string list option"
  mp_secrets :: "string list option"
  mp_network :: "string list option"

text \<open>Limits, authentication and triggers are read from the manifest as dynamic values.\<close>

record Manifest =
  m_permissions :: "ManifestPermissions option"
  m_limits :: jsval
  m_auth :: jsval
  m_triggers :: jsval

datatype RevisionState = Created | Building | Ready | Deployed | Failed | Suspended

fun state_name :: "RevisionState \<Rightarrow> string" where
  "state_name Created = ''Created''"
| "state_name Building = ''Building''"
| "state_name Ready = ''Ready''"
| "state_name Deployed = ''Deployed''"
| "state_name Failed = ''Failed''"
| "state_name Suspended = ''Suspended''"

record RevisionRecord =
  rev_id :: string
  rev_project :: string
  rev_functionName :: string
  rev_artifactId :: string
  rev_integrity :: string
  rev_state :: RevisionState
  rev_createdAt :: int
  rev_manifest :: "Manifest option"

record ProjectMetadata =
  meta_environment :: "string option"
  meta_domains :: "string list option"

section \<open>JSON transport\<close>

text \<open>
  \<open>JSON.parse(JSON.stringify(v))\<close>: undefined properties disappear, undefined elements and
  non-finite numbers become null.
\<close>

fun wire :: "jsval \<Rightarrow> jsval"
and wire_items :: "jsval list \<Rightarrow> jsval list"
and wire_fields :: "(string \<times> jsval) list \<Rightarrow> (string \<times> jsval) list" where
  "wire (JArr xs) = JArr (wire_items xs)"
| "wire (JObj fs) = JObj (wire_fields fs)"
| "wire (JNum n) = (if num_finite n then JNum n else JNull)"
| "wire JUndef = JUndef"
| "wire JNull = JNull"
| "wire (JBool b) = JBool b"
| "wire (JStr s) = JStr s"
| "wire_items [] = []"
| "wire_items (x # xs) = (if x = JUndef then JNull else wire x) # wire_items xs"
| "wire_fields [] = []"
| "wire_fields ((k, v) # fs) = (if v = JUndef then wire_fields fs else (k, wire v) # wire_fields fs)"

section \<open>Validation\<close>

definition SNAPSHOT_ID_PREFIX :: string where "SNAPSHOT_ID_PREFIX = ''snap_''"

definition SNAPSHOT_ID_REGEX :: "string \<Rightarrow> bool" where
  "SNAPSHOT_ID_REGEX s =
     (take 5 s = SNAPSHOT_ID_PREFIX \<and> length s = 31 \<and> list_all ulid_char (drop 5 s))"

definition MAX_SAFE_INTEGER :: int where "MAX_SAFE_INTEGER = 9007199254740991"

definition is_safe_integer :: "jsnum \<Rightarrow> bool" where
  "is_safe_integer n =
     (case n of Fin a \<Rightarrow> a = of_int (floor a) \<and> \<bar>floor a\<bar> \<le> MAX_SAFE_INTEGER | _ \<Rightarrow> False)"

fun is_record :: "jsval \<Rightarrow> bool" where
  "is_record (JObj _) = True"
| "is_record _ = False"

fun is_str :: "jsval \<Rightarrow> bool" where
  "is_str (JStr _) = True"
| "is_str _ = False"

fun is_nonblank :: "jsval \<Rightarrow> bool" where
  "is_nonblank (JStr s) = (trim s \<noteq> [])"
| "is_nonblank _ = False"

fun is_finite_num :: "jsval \<Rightarrow> bool" where
  "is_finite_num (JNum n) = num_finite n"
| "is_finite_num _ = False"

fun is_string_array :: "jsval \<Rightarrow> bool" where
  "is_string_array (JArr xs) = list_all is_str xs"
| "is_string_array _ = False"

definition invalid :: "string \<Rightarrow> exn" where
  "invalid m = throw_rf VALIDATION_FAILED (''VALIDATION_FAILED: '' @ m)"

definition validate_scope :: "string \<Rightarrow> jsval \<Rightarrow> string \<Rightarrow> unit res" where
  "validate_scope fnKey perms scope =
     guard_res (jget perms scope \<noteq> JUndef \<and> \<not> is_string_array (jget perms scope))
       (invalid (''Function '' @ fnKey @ '' permissions.'' @ scope @ '' must be an array of strings''))"

definition validate_function :: "string \<times> jsval \<Rightarrow> unit res" where
  "validate_function e =
     (let fnKey = fst e; fn = snd e; perms = jget fn ''permissions''; limits = jget fn ''limits'';
          fail = (\<lambda>m. invalid (''Function '' @ fnKey @ m)) in
      bind_res (guard_res (\<not> is_record fn) (fail '' metadata must be an object'')) (\<lambda>_.
      bind_res (guard_res (\<not> is_nonblank (jget fn ''functionName'')) (fail '' missing functionName'')) (\<lambda>_.
      bind_res (guard_res (\<not> is_nonblank (jget fn ''revisionId'')) (fail '' missing revisionId'')) (\<lambda>_.
      bind_res (guard_res (\<not> is_nonblank (jget fn ''artifactId'')) (fail '' missing artifactId'')) (\<lambda>_.
      bind_res (guard_res (\<not> is_record perms) (fail '' permissions must be an object'')) (\<lambda>_.
      bind_res (each_res (validate_scope fnKey perms)
                  [''kv'', ''objects'', ''queues'', ''secrets'', ''network'']) (\<lambda>_.
      bind_res (guard_res (\<not> is_record limits) (fail '' limits must be an object'')) (\<lambda>_.
      guard_res (\<not> is_finite_num (jget limits ''cpu_ms'') \<or> \<not> is_finite_num (jget limits ''timeout_ms'') \<or>
                 \<not> is_finite_num (jget limits ''memory_mb''))
        (fail '' limits must contain numeric cpu_ms, timeout_ms, memory_mb'')))))))))"

fun items :: "jsval \<Rightarrow> jsval list option" where
  "items (JArr xs) = Some xs"
| "items _ = None"

fun fields :: "jsval \<Rightarrow> (string \<times> jsval) list" where
  "fields (JObj fs) = fs"
| "fields _ = []"

definition validate_route :: "jsval \<Rightarrow> unit res" where
  "validate_route r =
     guard_res (\<not> is_object r \<or> \<not> is_str (jget r ''pattern'') \<or> \<not> is_str (jget r ''function''))
       (invalid ''Each route must contain pattern and function strings'')"

definition validateRoutingSnapshot :: "jsval \<Rightarrow> jsval res" where
  "validateRoutingSnapshot d =
     bind_res (guard_res (\<not> is_record d) (invalid ''Snapshot payload must be a non-null object'')) (\<lambda>_.
     bind_res (guard_res (case jget d ''snapshotId'' of JStr s \<Rightarrow> \<not> SNAPSHOT_ID_REGEX s | _ \<Rightarrow> True)
                 (invalid ''Invalid snapshotId format'')) (\<lambda>_.
     bind_res (guard_res (case jget d ''version'' of
                            JNum n \<Rightarrow> \<not> is_safe_integer n \<or> num_le n (Fin 0) | _ \<Rightarrow> True)
                 (invalid ''Snapshot version must be a positive safe integer'')) (\<lambda>_.
     bind_res (guard_res (items (jget d ''routes'') = None) (invalid ''Snapshot routes must be an array'')) (\<lambda>_.
     bind_res (each_res validate_route (the (items (jget d ''routes'')))) (\<lambda>_.
     bind_res (guard_res (\<not> is_record (jget d ''functions'')) (invalid ''Snapshot functions must be an object'')) (\<lambda>_.
     bind_res (each_res validate_function (fields (jget d ''functions''))) (\<lambda>_.
     bind_res (guard_res (\<not> is_finite_num (jget d ''generatedAt''))
                 (invalid ''Snapshot generatedAt must be a finite number'')) (\<lambda>_.
     Inr d))))))))"

section \<open>Production\<close>

definition DEFAULT_LIMIT_CPU_MS :: jsval where "DEFAULT_LIMIT_CPU_MS = JNum (Fin 200)"
definition DEFAULT_LIMIT_TIMEOUT_MS :: jsval where "DEFAULT_LIMIT_TIMEOUT_MS = JNum (Fin 30000)"
definition DEFAULT_LIMIT_MEMORY_MB :: jsval where "DEFAULT_LIMIT_MEMORY_MB = JNum (Fin 128)"

text \<open>\<open>a ?? b\<close> on dynamic values, and optional values as properties.\<close>

fun coalesce :: "jsval \<Rightarrow> jsval \<Rightarrow> jsval" where
  "coalesce JUndef b = b"
| "coalesce JNull b = b"
| "coalesce a b = a"

definition js_strs :: "string list \<Rightarrow> jsval" where
  "js_strs xs = JArr (map JStr xs)"

definition js_opt :: "('a \<Rightarrow> jsval) \<Rightarrow> 'a option \<Rightarrow> jsval" where
  "js_opt f v = (case v of None \<Rightarrow> JUndef | Some x \<Rightarrow> f x)"

definition scope_field :: "string \<Rightarrow> string list option \<Rightarrow> (string \<times> jsval) list" where
  "scope_field k v = (case v of None \<Rightarrow> [] | Some xs \<Rightarrow> [(k, js_strs xs)])"

definition snapshot_permissions :: "ManifestPermissions option \<Rightarrow> jsval" where
  "snapshot_permissions mp =
     (case mp of None \<Rightarrow> JObj []
      | Some p \<Rightarrow> JObj (scope_field ''kv'' (mp_kv p) @ scope_field ''objects'' (mp_objects p) @
                       scope_field ''queues'' (mp_queues p) @ scope_field ''secrets'' (mp_secrets p) @
                       scope_field ''network'' (mp_network p)))"

definition snapshot_limits :: "jsval \<Rightarrow> jsval" where
  "snapshot_limits l =
     JObj [(''cpu_ms'', coalesce (jget l ''cpu_ms'') DEFAULT_LIMIT_CPU_MS),
           (''timeout_ms'', coalesce (jget l ''timeout_ms'') DEFAULT_LIMIT_TIMEOUT_MS),
           (''memory_mb'', coalesce (jget l ''memory_mb'') DEFAULT_LIMIT_MEMORY_MB),
           (''rate'', jget l ''rate''), (''burst'', jget l ''burst'')]"

definition function_snapshot :: "RevisionRecord \<Rightarrow> jsval" where
  "function_snapshot rv =
     (let m = rev_manifest rv in
      JObj [(''functionName'', JStr (rev_functionName rv)),
            (''revisionId'', JStr (rev_id rv)),
            (''artifactId'', JStr (rev_artifactId rv)),
            (''permissions'', snapshot_permissions (Option.bind m m_permissions)),
            (''limits'', snapshot_limits (js_opt m_limits m)),
            (''auth'', js_opt m_auth m),
            (''triggers'', js_opt m_triggers m)])"

text \<open>
  \<open>SnapshotDistributor.createSnapshot\<close>: the state is \<open>currentVersion\<close>; the clock is read for the
  identifier and again for \<open>generatedAt\<close>.
\<close>

record stamp =
  id_time :: int
  id_bytes :: "int list"
  gen_time :: int

definition createSnapshot ::
  "int \<Rightarrow> stamp \<Rightarrow> (string \<times> string) list \<Rightarrow> (string \<times> RevisionRecord) list \<Rightarrow> ProjectMetadata option \<Rightarrow>
   int \<times> jsval" where
  "createSnapshot currentVersion st routes activeRevisions metadata =
     (let v = currentVersion + 1 in
      (v, JObj [(''snapshotId'', JStr (SNAPSHOT_ID_PREFIX @ generateUlid (id_time st) (id_bytes st))),
                (''version'', JNum (Fin (of_int v))),
                (''routes'', JArr (map (\<lambda>r. JObj [(''pattern'', JStr (fst r)), (''function'', JStr (snd r))]) routes)),
                (''functions'', JObj (map (\<lambda>e. (fst e, function_snapshot (snd e))) activeRevisions)),
                (''generatedAt'', JNum (Fin (of_int (gen_time st)))),
                (''environment'', js_opt JStr (Option.bind metadata meta_environment)),
                (''domains'', js_opt js_strs (Option.bind metadata meta_domains))]))"

section \<open>Project snapshots of the control server\<close>

text \<open>What \<open>getProjectSnapshot\<close> reads from the deployment service.\<close>

record readings =
  dep_functions :: "string list"
  dep_active :: "string \<Rightarrow> RevisionRecord option"
  dep_routes :: "(string \<times> string) list option"
  dep_metadata :: "ProjectMetadata option"

record ProjectSnapshotState =
  distributor :: int
  snapshot :: jsval
  revisionFingerprint :: string

type_synonym snapshot_states = "(string, ProjectSnapshotState) omap"

definition active_revisions :: "readings \<Rightarrow> (string \<times> RevisionRecord) list" where
  "active_revisions d = List.map_filter (\<lambda>f. map_option (Pair f) (dep_active d f)) (sort (dep_functions d))"

definition fingerprint :: "(string \<times> RevisionRecord) list \<Rightarrow> string" where
  "fingerprint revs =
     join_with '';'' (sort (map (\<lambda>(k, v). k @ '':'' @ rev_id v @ '':'' @ rev_artifactId v @ '':'' @ state_name (rev_state v)) revs))"

definition snapshot_routes :: "readings \<Rightarrow> (string \<times> string) list" where
  "snapshot_routes d =
     (case dep_routes d of
        Some (r # rs) \<Rightarrow> r # rs
      | _ \<Rightarrow> map (\<lambda>fn. (''/'' @ fn, fn)) (sort (map fst (active_revisions d))))"

definition getProjectSnapshot ::
  "string \<Rightarrow> stamp \<Rightarrow> readings \<Rightarrow> snapshot_states \<Rightarrow> snapshot_states \<times> jsval" where
  "getProjectSnapshot projectId st d S =
     (let revs = active_revisions d; fp = fingerprint revs; routes = snapshot_routes d;
          fresh = (\<lambda>dist. case createSnapshot dist st routes revs (dep_metadata d) of (v, sn) \<Rightarrow>
             (oset projectId \<lparr>distributor = v, snapshot = sn, revisionFingerprint = fp\<rparr> S, sn)) in
      case oget S projectId of
        None \<Rightarrow> fresh 0
      | Some state \<Rightarrow>
          if revisionFingerprint state \<noteq> fp then fresh (distributor state) else (S, snapshot state))"

definition invalidateProjectSnapshot :: "string \<Rightarrow> snapshot_states \<Rightarrow> snapshot_states" where
  "invalidateProjectSnapshot projectId S =
     (case oget S projectId of
        None \<Rightarrow> S
      | Some state \<Rightarrow> oset projectId (state\<lparr>revisionFingerprint := []\<rparr>) S)"

text \<open>ETags: the weak prefix and one quote on either side are stripped.\<close>

definition strip_prefix :: "string \<Rightarrow> string \<Rightarrow> string" where
  "strip_prefix p s = (if starts_with s p then drop (length p) s else s)"

definition strip_suffix :: "string \<Rightarrow> string \<Rightarrow> string" where
  "strip_suffix p s = (if ends_with s p then take (length s - length p) s else s)"

definition clean_etag :: "string \<Rightarrow> string" where
  "clean_etag s = strip_suffix [CHR 0x22] (strip_prefix [CHR 0x22] (strip_prefix ''W/'' s))"

definition isEtagMatch :: "string \<Rightarrow> string \<Rightarrow> bool" where
  "isEtagMatch ifNoneMatch currentEtag =
     list_ex (\<lambda>part. part = ''*'' \<or> clean_etag part = clean_etag (trim currentEtag))
       (map trim (split_on (CHR '','') ifNoneMatch))"

definition snapshot_version :: "jsval \<Rightarrow> int" where
  "snapshot_version s = (case jget s ''version'' of JNum (Fin a) \<Rightarrow> floor a | _ \<Rightarrow> 0)"

definition etag :: "jsval \<Rightarrow> string" where
  "etag s = [CHR 0x22] @ int_str (snapshot_version s) @ [CHR 0x22]"

datatype snapshot_response =
    NotModified string
  | SnapshotOk jsval string

definition snapshot_endpoint :: "string option \<Rightarrow> jsval \<Rightarrow> snapshot_response" where
  "snapshot_endpoint ifNoneMatch s =
     (case ifNoneMatch of
        Some h \<Rightarrow> if h \<noteq> [] \<and> isEtagMatch h (etag s) then NotModified (etag s) else SnapshotOk (wire s) (etag s)
      | None \<Rightarrow> SnapshotOk (wire s) (etag s))"

text \<open>One run of the control plane: requests for snapshots and invalidations after mutations.\<close>

datatype control_op =
    GetSnapshot string stamp readings
  | Invalidate string

fun control_run :: "control_op list \<Rightarrow> snapshot_states \<Rightarrow> snapshot_states \<times> (string \<times> jsval) list" where
  "control_run [] S = (S, [])"
| "control_run (GetSnapshot p st d # ops) S =
     (case getProjectSnapshot p st d S of (S', s) \<Rightarrow>
        (case control_run ops S' of (S'', outs) \<Rightarrow> (S'', (p, s) # outs)))"
| "control_run (Invalidate p # ops) S = control_run ops (invalidateProjectSnapshot p S)"

section \<open>Accepted by the data plane\<close>

definition revision_ok :: "RevisionRecord \<Rightarrow> bool" where
  "revision_ok rv =
     (trim (rev_functionName rv) \<noteq> [] \<and> trim (rev_id rv) \<noteq> [] \<and> trim (rev_artifactId rv) \<noteq> [] \<and>
      list_all (\<lambda>k. case jget (js_opt m_limits (rev_manifest rv)) k of
                      JUndef \<Rightarrow> True | JNull \<Rightarrow> True | JNum n \<Rightarrow> num_finite n | _ \<Rightarrow> False)
        [''cpu_ms'', ''timeout_ms'', ''memory_mb''])"

definition declared_scope :: "RevisionRecord \<Rightarrow> string \<Rightarrow> string list option" where
  "declared_scope rv scope =
     Option.bind (Option.bind (rev_manifest rv) m_permissions) (\<lambda>p.
       if scope = ''kv'' then mp_kv p else if scope = ''objects'' then mp_objects p
       else if scope = ''queues'' then mp_queues p else if scope = ''secrets'' then mp_secrets p
       else if scope = ''network'' then mp_network p else None)"

definition granted_scope :: "jsval \<Rightarrow> string \<Rightarrow> string \<Rightarrow> jsval" where
  "granted_scope s fn scope = jget (jget (jget (jget s ''functions'') fn) ''permissions'') scope"

definition stamp_ok :: "stamp \<Rightarrow> bool" where
  "stamp_ok st = (length (id_bytes st) = 10 \<and> list_all is_byte (id_bytes st))"

lemma oget_map_snd: "oget (map (\<lambda>e. (fst e, f (snd e))) m) k = map_option f (oget m k)"
  by (induction m) auto

lemma wire_items_map: "(\<And>x. x \<in> set xs \<Longrightarrow> f x \<noteq> JUndef) \<Longrightarrow> wire_items (map f xs) = map (wire \<circ> f) xs"
  by (induction xs) auto

lemma wire_fields_map:
  "(\<And>e. e \<in> set xs \<Longrightarrow> g e \<noteq> JUndef) \<Longrightarrow>
   wire_fields (map (\<lambda>e. (f e, g e)) xs) = map (\<lambda>e. (f e, wire (g e))) xs"
  by (induction xs) auto

lemma wire_fields_append [simp]: "wire_fields (fs @ gs) = wire_fields fs @ wire_fields gs"
  by (induction fs) auto

lemma wire_js_strs [simp]: "wire (js_strs xs) = js_strs xs"
  using wire_items_map[of xs JStr] by (simp add: js_strs_def)

lemma js_strs_neq [simp]: "js_strs xs \<noteq> JUndef"
  by (simp add: js_strs_def)

lemma wire_scope_field [simp]: "wire_fields (scope_field k v) = scope_field k v"
  by (simp add: scope_field_def split: option.split)

lemma wire_permissions [simp]: "wire (snapshot_permissions p) = snapshot_permissions p"
  by (simp add: snapshot_permissions_def split: option.split)

lemma permissions_neq [simp]: "snapshot_permissions p \<noteq> JUndef" "snapshot_limits l \<noteq> JUndef"
  by (simp_all add: snapshot_permissions_def snapshot_limits_def split: option.split)

lemma map_of_scope_field [simp]:
  "map_of (scope_field k v) k' = (if k' = k then map_option js_strs v else None)"
  by (simp add: scope_field_def split: option.split)

lemma permissions_scope:
  "jget (snapshot_permissions (Option.bind (rev_manifest rv) m_permissions)) scope =
   js_opt js_strs (declared_scope rv scope)"
proof (cases "Option.bind (rev_manifest rv) m_permissions")
  case None
  then show ?thesis by (simp add: snapshot_permissions_def declared_scope_def js_opt_def)
next
  case (Some p)
  show ?thesis
    by (simp add: Some snapshot_permissions_def declared_scope_def map_add_def js_opt_def split: option.split)
qed

lemma wire_coalesce:
  assumes "case v of JUndef \<Rightarrow> True | JNull \<Rightarrow> True | JNum n \<Rightarrow> num_finite n | _ \<Rightarrow> False"
  shows "\<exists>a. coalesce v (JNum (Fin b)) = JNum (Fin a)"
proof (cases v)
  case (JNum n)
  then show ?thesis using assms by (cases n) auto
qed (use assms in auto)

lemma limits_wire:
  assumes "revision_ok rv"
  obtains a b c fs where "wire (snapshot_limits (js_opt m_limits (rev_manifest rv))) =
    JObj ([(''cpu_ms'', JNum (Fin a)), (''timeout_ms'', JNum (Fin b)), (''memory_mb'', JNum (Fin c))] @ fs)"
proof -
  let ?l = "js_opt m_limits (rev_manifest rv)"
  obtain a b c where "coalesce (jget ?l ''cpu_ms'') DEFAULT_LIMIT_CPU_MS = JNum (Fin a)"
    "coalesce (jget ?l ''timeout_ms'') DEFAULT_LIMIT_TIMEOUT_MS = JNum (Fin b)"
    "coalesce (jget ?l ''memory_mb'') DEFAULT_LIMIT_MEMORY_MB = JNum (Fin c)"
    using assms wire_coalesce
    unfolding revision_ok_def DEFAULT_LIMIT_CPU_MS_def DEFAULT_LIMIT_TIMEOUT_MS_def DEFAULT_LIMIT_MEMORY_MB_def list_all_iff
    by (metis list.set_intros)
  then show ?thesis by (intro that) (simp add: snapshot_limits_def)
qed

lemma string_scopes: "validate_scope k (snapshot_permissions p) sc = Inr ()"
proof -
  have strs: "is_string_array (js_strs xs)" for xs by (simp add: js_strs_def list_all_iff)
  obtain rv :: RevisionRecord where "p = Option.bind (rev_manifest rv) m_permissions"
    by (metis Manifest.select_convs(1) RevisionRecord.select_convs(8) bind.bind_lunit)
  then show ?thesis
    using permissions_scope[of rv sc] strs
    by (simp add: validate_scope_def res_simps js_opt_def split: option.split)
qed

lemma permissions_record [simp]: "is_record (snapshot_permissions p)"
  by (simp add: snapshot_permissions_def split: option.split)

lemma function_snapshot_valid:
  assumes "revision_ok rv"
  shows "validate_function (k, wire (function_snapshot rv)) = Inr ()"
proof -
  obtain a b c fs where lim: "wire (snapshot_limits (js_opt m_limits (rev_manifest rv))) =
    JObj ([(''cpu_ms'', JNum (Fin a)), (''timeout_ms'', JNum (Fin b)), (''memory_mb'', JNum (Fin c))] @ fs)"
    using assms by (rule limits_wire)
  show ?thesis using assms
    by (simp add: validate_function_def function_snapshot_def Let_def res_simps lim string_scopes revision_ok_def)
qed

lemma snapshot_id_ok:
  assumes "stamp_ok st"
  shows "SNAPSHOT_ID_REGEX (SNAPSHOT_ID_PREFIX @ generateUlid (id_time st) (id_bytes st))"
  using generateUlid_valid assms
  by (simp add: SNAPSHOT_ID_REGEX_def SNAPSHOT_ID_PREFIX_def stamp_ok_def isValidUlid_def)

lemma wire_functions:
  "wire_fields (map (\<lambda>e. (fst e, function_snapshot (snd e))) revs) =
   map (\<lambda>e. (fst e, wire (function_snapshot (snd e)))) revs"
  by (rule wire_fields_map) (simp add: function_snapshot_def Let_def)

lemma wire_routes:
  "wire_items (map (\<lambda>r. JObj [(''pattern'', JStr (fst r)), (''function'', JStr (snd r))]) routes) =
   map (\<lambda>r. JObj [(''pattern'', JStr (fst r)), (''function'', JStr (snd r))]) routes"
  by (subst wire_items_map) (auto simp: o_def)

lemma wire_snapshot:
  assumes "createSnapshot ver st routes revs meta = (v, s)"
  obtains fs where "wire s = JObj (
     [(''snapshotId'', JStr (SNAPSHOT_ID_PREFIX @ generateUlid (id_time st) (id_bytes st))),
      (''version'', JNum (Fin (of_int (ver + 1)))),
      (''routes'', JArr (map (\<lambda>r. JObj [(''pattern'', JStr (fst r)), (''function'', JStr (snd r))]) routes)),
      (''functions'', JObj (map (\<lambda>e. (fst e, wire (function_snapshot (snd e)))) revs)),
      (''generatedAt'', JNum (Fin (of_int (gen_time st))))] @ fs)"
  using assms that by (auto simp: createSnapshot_def Let_def wire_functions wire_routes)

lemma granted_function:
  "jget (jget (wire (function_snapshot rv)) ''permissions'') scope = js_opt js_strs (declared_scope rv scope)"
  using permissions_scope[of rv scope] by (simp add: function_snapshot_def Let_def)

text \<open>
  A snapshot that the distributor creates from named revisions whose limits are absent or finite is accepted by the validator of
  the data plane after it crossed the wire as JSON; its version is the successor of the
  distributor's; and for every active function it grants exactly the scopes the manifest declares:
  the same lists for \<open>kv\<close>, \<open>objects\<close>, \<open>queues\<close>, \<open>secrets\<close> and \<open>network\<close>, and nothing under any
  other name.
\<close>

theorem snapshot_accepted_and_grants_declared:
  assumes "createSnapshot ver st routes revs meta = (v, s)"
    and "0 \<le> ver" "ver < MAX_SAFE_INTEGER" "stamp_ok st" "\<forall>e \<in> set revs. revision_ok (snd e)"
  shows "validateRoutingSnapshot (wire s) = Inr (wire s) \<and> v = ver + 1 \<and> snapshot_version (wire s) = v \<and>
    (\<forall>fn rv scope. oget revs fn = Some rv \<longrightarrow>
       granted_scope (wire s) fn scope = js_opt js_strs (declared_scope rv scope))"
proof -
  obtain fs where w: "wire s = JObj (
     [(''snapshotId'', JStr (SNAPSHOT_ID_PREFIX @ generateUlid (id_time st) (id_bytes st))),
      (''version'', JNum (Fin (of_int (ver + 1)))),
      (''routes'', JArr (map (\<lambda>r. JObj [(''pattern'', JStr (fst r)), (''function'', JStr (snd r))]) routes)),
      (''functions'', JObj (map (\<lambda>e. (fst e, wire (function_snapshot (snd e)))) revs)),
      (''generatedAt'', JNum (Fin (of_int (gen_time st))))] @ fs)"
    using assms(1) by (rule wire_snapshot)
  have fns: "\<forall>e \<in> set revs. validate_function (fst e, wire (function_snapshot (snd e))) = Inr ()"
    using assms(5) function_snapshot_valid by blast
  have ver: "is_safe_integer (Fin (of_int (ver + 1)))" "\<not> num_le (Fin (of_int (ver + 1))) (Fin 0)"
    using assms(2,3) by (simp_all add: is_safe_integer_def del: of_int_add)
  have "validateRoutingSnapshot (wire s) = Inr (wire s)"
    unfolding validateRoutingSnapshot_def
    using ver snapshot_id_ok[OF assms(4)] fns
    by (simp add: w res_simps validate_route_def del: of_int_add num_le.simps)
  moreover have "v = ver + 1 \<and> snapshot_version (wire s) = v"
    using assms(1) by (auto simp: createSnapshot_def Let_def snapshot_version_def)
  moreover have "granted_scope (wire s) fn scope = js_opt js_strs (declared_scope rv scope)"
    if "oget revs fn = Some rv" for fn rv scope
  proof -
    have "oget (map (\<lambda>e. (fst e, wire (function_snapshot (snd e)))) revs) fn = Some (wire (function_snapshot rv))"
      using that oget_map_snd[of "\<lambda>r. wire (function_snapshot r)" revs fn] by simp
    then show ?thesis by (simp add: granted_scope_def w granted_function)
  qed
  ultimately show ?thesis by blast
qed

definition sample_stamp :: stamp where
  "sample_stamp = \<lparr>id_time = 1700000000000, id_bytes = [1, 2, 3, 4, 5, 6, 7, 8, 9, 10], gen_time = 1700000000001\<rparr>"

definition sample_revision :: RevisionRecord where
  "sample_revision = \<lparr>rev_id = ''rev_1'', rev_project = ''p'', rev_functionName = ''api'', rev_artifactId = ''sha256:00'',
     rev_integrity = ''sha256-AA=='', rev_state = Deployed, rev_createdAt = 1700000000000,
     rev_manifest = Some \<lparr>m_permissions = Some \<lparr>mp_kv = Some [''users''], mp_objects = None, mp_queues = None,
       mp_secrets = Some [''TOKEN''], mp_network = None\<rparr>,
       m_limits = JObj [(''cpu_ms'', JNum (Fin 50))], m_auth = JStr ''none'', m_triggers = JUndef\<rparr>\<rparr>"

lemma snapshot_accepted_and_grants_declared_witness:
  "\<not> isl (validateRoutingSnapshot (wire (snd (createSnapshot 6 sample_stamp [(''/api'', ''api'')] [(''api'', sample_revision)] None)))) \<and>
   granted_scope (wire (snd (createSnapshot 6 sample_stamp [(''/api'', ''api'')] [(''api'', sample_revision)] None))) ''api'' ''kv'' =
     js_strs [''users'']"
proof -
  let ?c = "createSnapshot 6 sample_stamp [(''/api'', ''api'')] [(''api'', sample_revision)] None"
  have h: "stamp_ok sample_stamp" "revision_ok sample_revision" "(6 :: int) < MAX_SAFE_INTEGER" by code_simp+
  have d: "declared_scope sample_revision ''kv'' = Some [''users'']" by code_simp
  show ?thesis
    using snapshot_accepted_and_grants_declared[of 6 sample_stamp "[(''/api'', ''api'')]" "[(''api'', sample_revision)]" None "fst ?c" "snd ?c"] h d
    by (simp add: js_opt_def)
qed

section \<open>Versions within one run\<close>

text \<open>The snapshot of a project carries its distributor's version.\<close>

definition state_ok :: "snapshot_states \<Rightarrow> bool" where
  "state_ok S = (\<forall>p st. oget S p = Some st \<longrightarrow> snapshot_version (snapshot st) = distributor st)"

lemma version_createSnapshot:
  "createSnapshot ver st routes revs meta = (v, s) \<Longrightarrow> v = ver + 1 \<and> snapshot_version s = v"
  by (auto simp: createSnapshot_def Let_def snapshot_version_def)

text \<open>What a request does: it keeps the project's snapshot or replaces it under the next version.\<close>

lemma getProjectSnapshot_cases:
  assumes "getProjectSnapshot p st d S = (S', s)"
  obtains (kept) ps where "oget S p = Some ps" "s = snapshot ps" "S' = S"
  | (fresh) fp v where "S' = oset p \<lparr>distributor = v, snapshot = s, revisionFingerprint = fp\<rparr> S"
      "snapshot_version s = v" "v = (case oget S p of None \<Rightarrow> 1 | Some ps \<Rightarrow> distributor ps + 1)"
  using assms version_createSnapshot
  by (fastforce simp: getProjectSnapshot_def Let_def split: option.splits if_splits prod.splits)

text \<open>What a client holds is at most as new as the project's state, and the same when equally new.\<close>

definition held_ok :: "snapshot_states \<Rightarrow> string \<times> jsval \<Rightarrow> bool" where
  "held_ok S h =
     (case oget S (fst h) of
        None \<Rightarrow> False
      | Some ps \<Rightarrow> snapshot_version (snd h) \<le> distributor ps \<and>
                  (snapshot_version (snd h) = distributor ps \<longrightarrow> snd h = snapshot ps))"

lemma get_keeps:
  assumes "getProjectSnapshot p st d S = (S', s)" "state_ok S"
  shows "state_ok S' \<and> held_ok S' (p, s) \<and> (held_ok S h \<longrightarrow> held_ok S' h)"
  using assms(1)
proof (cases rule: getProjectSnapshot_cases)
  case (kept ps)
  then show ?thesis using assms(2) by (auto simp: state_ok_def held_ok_def)
next
  case (fresh fp v)
  then show ?thesis using assms(2) by (auto simp: state_ok_def held_ok_def split: option.splits if_splits)
qed

lemma invalidate_keeps:
  "state_ok S \<Longrightarrow> state_ok (invalidateProjectSnapshot p S) \<and> (held_ok S h \<longrightarrow> held_ok (invalidateProjectSnapshot p S) h)"
  by (auto simp: invalidateProjectSnapshot_def state_ok_def held_ok_def split: option.splits)

lemma control_run_keeps:
  "control_run ops S = (S', outs) \<Longrightarrow> state_ok S \<Longrightarrow>
   state_ok S' \<and> (\<forall>h \<in> set outs. held_ok S' h) \<and> (\<forall>h. held_ok S h \<longrightarrow> held_ok S' h)"
proof (induction ops S arbitrary: outs rule: control_run.induct)
  case (2 p st d ops S)
  obtain S1 s where g: "getProjectSnapshot p st d S = (S1, s)" by fastforce
  obtain S2 o2 where r: "control_run ops S1 = (S2, o2)" by fastforce
  have e: "S' = S2" "outs = (p, s) # o2" using "2.prems"(1) g r by auto
  note k = get_keeps[OF g "2.prems"(2)]
  have "state_ok S' \<and> (\<forall>h \<in> set o2. held_ok S' h) \<and> (\<forall>h. held_ok S1 h \<longrightarrow> held_ok S' h)"
    using "2.IH"[OF g[symmetric]] r e k by blast
  then show ?case using k e by auto
next
  case (3 p ops S)
  then show ?case using invalidate_keeps[of S p] by auto
qed simp

section \<open>Conditional requests\<close>

lemma int_str_chars:
  assumes "c \<in> set (int_str n)"
  shows "c \<noteq> CHR 0x22 \<and> c \<noteq> CHR '','' \<and> c \<noteq> CHR ''W'' \<and> c \<noteq> CHR ''*''"
proof -
  have "is_digit c \<or> c = CHR ''-''" using assms nat_str_digits by (auto simp: int_str_def split: if_splits)
  then show ?thesis by (auto simp: is_digit_def)
qed

lemma int_str_inj: "int_str m = int_str n \<Longrightarrow> m = n"
proof -
  assume e: "int_str m = int_str n"
  have dash: "CHR ''-'' \<notin> set (nat_str k)" for k using nat_str_digits[of "CHR ''-''" k] by (auto simp: is_digit_def)
  have v: "nat_str j = nat_str k \<Longrightarrow> j = k" for j k using digits_val_nat_str by (metis of_nat_eq_iff)
  show ?thesis
    using e dash[of "nat m"] dash[of "nat n"] v[of "nat m" "nat n"] v[of "nat (- m)" "nat (- n)"]
    by (auto simp: int_str_def split: if_splits) (metis list.set_intros(1))+
qed

lemma strip_absent: "p \<notin> set s \<Longrightarrow> strip_prefix [p] s = s" "p \<notin> set s \<Longrightarrow> strip_suffix [p] s = s"
  by (auto simp: strip_prefix_def strip_suffix_def starts_with_def ends_with_def suffix_def prefix_def)

lemma clean_etag_quoted:
  assumes "CHR 0x22 \<notin> set s"
  shows "clean_etag (CHR 0x22 # s @ [CHR 0x22]) = s"
proof -
  have "strip_prefix ''W/'' (CHR 0x22 # s @ [CHR 0x22]) = CHR 0x22 # s @ [CHR 0x22]"
    by (simp add: strip_prefix_def starts_with_def)
  then show ?thesis
    by (simp add: clean_etag_def strip_prefix_def strip_suffix_def starts_with_def ends_with_def suffix_def)
qed

lemma etag_trim: "trim (etag s) = etag s"
  by (simp add: etag_def trim_def is_ws_def)

lemma etag_match: "isEtagMatch (etag s) (etag s') \<longleftrightarrow> snapshot_version s = snapshot_version s'"
proof -
  have "CHR '','' \<notin> set (etag s)" using int_str_chars by (force simp: etag_def)
  then have sp: "split_on (CHR '','') (etag s) = [etag s]" by (rule split_on_absent)
  have "CHR 0x22 \<notin> set (int_str n)" for n using int_str_chars by blast
  then have c: "clean_etag (etag s) = int_str (snapshot_version s)" for s
    unfolding etag_def using clean_etag_quoted by simp
  have "etag s \<noteq> ''*''" by (simp add: etag_def)
  then show ?thesis using int_str_inj by (auto simp: isEtagMatch_def sp etag_trim c)
qed

text \<open>
  Within one run of the control plane, a client that was handed a snapshot of a project and
  later repeats the request with that snapshot's ETag is told ``not modified'' exactly when its
  copy still is the project's current snapshot, and is sent the current snapshot otherwise,
  which then has a greater version, whatever requests and invalidations of any project lie in
  between.
\<close>

theorem conditional_request_exact:
  assumes "control_run ops [] = (S, outs)" "(p, s) \<in> set outs" "getProjectSnapshot p st d S = (S', s')"
  shows "snapshot_endpoint (Some (etag s)) s' =
      (if s' = s then NotModified (etag s) else SnapshotOk (wire s') (etag s')) \<and>
    (s' \<noteq> s \<longrightarrow> snapshot_version s < snapshot_version s')"
proof -
  have k: "state_ok S" "held_ok S (p, s)"
    using control_run_keeps[OF assms(1)] assms(2) by (auto simp: state_ok_def)
  have k': "state_ok S'" "held_ok S' (p, s)" "held_ok S' (p, s')"
    using get_keeps[OF assms(3) k(1)] k(2) by blast+
  have cur: "\<exists>ps. oget S' p = Some ps \<and> s' = snapshot ps"
    using assms(3) by (cases rule: getProjectSnapshot_cases) auto
  have v: "snapshot_version s \<le> snapshot_version s'" "snapshot_version s = snapshot_version s' \<Longrightarrow> s = s'"
    using k' cur by (auto simp: held_ok_def state_ok_def)
  have "etag s \<noteq> []" by (simp add: etag_def)
  then show ?thesis using v etag_match[of s s'] by (auto simp: snapshot_endpoint_def)
qed

definition sample_readings :: "string \<Rightarrow> readings" where
  "sample_readings i = \<lparr>dep_functions = [''api''], dep_active = (\<lambda>f. if f = ''api'' then Some (sample_revision\<lparr>rev_id := i\<rparr>) else None),
     dep_routes = None, dep_metadata = None\<rparr>"

lemma conditional_request_exact_witness:
  "let (S, outs) = control_run [GetSnapshot ''p'' sample_stamp (sample_readings ''rev_1'')] [];
       s = snd (hd outs); s' = snd (getProjectSnapshot ''p'' sample_stamp (sample_readings ''rev_2'') S)
   in s' \<noteq> s \<and> snapshot_endpoint (Some (etag s)) s' = SnapshotOk (wire s') (etag s')"
proof -
  let ?ops = "[GetSnapshot ''p'' sample_stamp (sample_readings ''rev_1'')]"
  let ?r = "control_run ?ops []"
  let ?s = "snd (hd (snd ?r))"
  let ?g = "getProjectSnapshot ''p'' sample_stamp (sample_readings ''rev_2'') (fst ?r)"
  have m: "snd ?r = [(''p'', ?s)]" by (simp add: case_prod_beta)
  have n: "snd ?g \<noteq> ?s" by code_simp
  show ?thesis
    using conditional_request_exact[of ?ops "fst ?r" "snd ?r" "''p''" ?s sample_stamp "sample_readings ''rev_2''" "fst ?g" "snd ?g"] m n
    by (simp add: case_prod_beta)
qed

text \<open>
  The version counter lives in the memory of the control server. The first snapshot of a
  project after a restart has version 1 again, so a client that still holds the first snapshot
  of the previous run is told ``not modified'' whatever the project's active revisions are now.
\<close>

theorem stale_copy_confirmed_after_restart:
  "snapshot_endpoint (Some (etag (snd (getProjectSnapshot p st d [])))) (snd (getProjectSnapshot p st' d' [])) =
   NotModified (etag (snd (getProjectSnapshot p st' d' [])))"
proof -
  have "snapshot_version (snd (getProjectSnapshot p st d [])) = 1" for st d
    by (simp add: getProjectSnapshot_def createSnapshot_def Let_def snapshot_version_def)
  then have "isEtagMatch (etag (snd (getProjectSnapshot p st d []))) (etag (snd (getProjectSnapshot p st' d' [])))"
    using etag_match by simp
  moreover have "etag s \<noteq> []" for s by (simp add: etag_def)
  ultimately show ?thesis by (simp add: snapshot_endpoint_def)
qed

end
