(* ===== verification/SnapshotCache.thy ===== *)
theory SnapshotCache
  imports Snapshot
begin

text \<open>
  The data plane's snapshot caches: \<open>runtime/snapshot/snapshot-cache.ts\<close> (in memory) and
  \<open>runtime/snapshot/disk-snapshot-cache.ts\<close> (in memory, persisted, reloaded on a cold start). The
  control plane is the outcome of \<open>fetchSnapshot\<close>, a rejection or a payload; the file system is an
  outcome for every call of a persist. A file holds JSON text, given by the value it parses to, or
  text that does not parse.

  Shown: both caches serve, after any history of refreshes, a validated snapshot that is at least
  as new as everything valid they were sent, and keep it through every failure; a cold start
  restores it; as long as no poll times out the file is always a complete snapshot; overlapping
  persists, which a timed-out poll makes possible, can leave the file unparseable.
\<close>

section \<open>Refreshing\<close>

definition version_num :: "jsval \<Rightarrow> jsnum" where
  "version_num s = (case jget s ''version'' of JNum n \<Rightarrow> n | _ \<Rightarrow> NaN)"

definition is_newer :: "jsval \<Rightarrow> jsval option \<Rightarrow> bool" where
  "is_newer v latest = (case latest of None \<Rightarrow> True | Some l \<Rightarrow> num_less (version_num l) (version_num v))"

text \<open>\<open>RuntimeSnapshotCache.forceRefresh\<close>: the state is \<open>latestSnapshot\<close>.\<close>

definition forceRefresh :: "jsval res \<Rightarrow> jsval option \<Rightarrow> jsval option \<times> unit res" where
  "forceRefresh fetched latest =
     (case bind_res fetched validateRoutingSnapshot of
        Inl e \<Rightarrow> (latest, Inl e)
      | Inr v \<Rightarrow> (if is_newer v latest then Some v else latest, Inr ()))"

section \<open>Persisting\<close>

datatype file_text = Json jsval | Unparseable

record cache_files =
  cache_file :: "file_text option"
  tmp_file :: "file_text option"

text \<open>
  How the calls of one persist end: the directory cannot be made, the write or the rename fails
  and the temporary file is then removed or not, or all succeed.
\<close>

datatype io = IoOk | MkdirFails | WriteFails bool | RenameFails bool

fun persistToDisk :: "io \<Rightarrow> jsval \<Rightarrow> cache_files \<Rightarrow> cache_files \<times> unit res" where
  "persistToDisk MkdirFails v f = (f, Inl (Foreign ''mkdir''))"
| "persistToDisk (WriteFails removed) v f =
     (f\<lparr>tmp_file := if removed then None else Some Unparseable\<rparr>, Inl (Foreign ''writeTextFile''))"
| "persistToDisk (RenameFails removed) v f =
     (f\<lparr>tmp_file := if removed then None else Some (Json (wire v))\<rparr>, Inl (Foreign ''rename''))"
| "persistToDisk IoOk v f = (f\<lparr>cache_file := Some (Json (wire v)), tmp_file := None\<rparr>, Inr ())"

record disk_cache =
  dc_latest :: "jsval option"
  dc_files :: cache_files

definition disk_forceRefresh :: "io \<Rightarrow> jsval res \<Rightarrow> disk_cache \<Rightarrow> disk_cache \<times> unit res" where
  "disk_forceRefresh i fetched c =
     (case bind_res fetched validateRoutingSnapshot of
        Inl e \<Rightarrow> (c, Inl e)
      | Inr v \<Rightarrow>
          if is_newer v (dc_latest c)
          then (case persistToDisk i v (dc_files c) of (f, r) \<Rightarrow> (\<lparr>dc_latest = Some v, dc_files = f\<rparr>, r))
          else (c, Inr ()))"

text \<open>\<open>createDiskSnapshotCache\<close>: a missing, unparseable or invalid file gives no snapshot.\<close>

definition createDiskSnapshotCache :: "cache_files \<Rightarrow> disk_cache" where
  "createDiskSnapshotCache f =
     \<lparr>dc_latest = (case cache_file f of
        Some (Json d) \<Rightarrow> (case validateRoutingSnapshot d of Inr v \<Rightarrow> Some v | Inl _ \<Rightarrow> None)
      | _ \<Rightarrow> None), dc_files = f\<rparr>"

section \<open>The contract of a snapshot cache\<close>

definition received :: "jsval res list \<Rightarrow> jsval list" where
  "received fs = List.map_filter (\<lambda>f. case bind_res f validateRoutingSnapshot of Inr v \<Rightarrow> Some v | Inl _ \<Rightarrow> None) fs"

text \<open>The abstract specification: the served snapshot is a newest one of those received.\<close>

definition newest_of :: "jsval list \<Rightarrow> jsval option \<Rightarrow> bool" where
  "newest_of vs latest =
     (case latest of
        None \<Rightarrow> vs = []
      | Some v \<Rightarrow> v \<in> set vs \<and> list_all (\<lambda>w. snapshot_version w \<le> snapshot_version v) vs)"

lemma validated_version:
  assumes "validateRoutingSnapshot d = Inr v"
  shows "v = d \<and> version_num v = Fin (of_int (snapshot_version v)) \<and> 0 < snapshot_version v"
proof -
  have "v = d" using assms by (auto simp: validateRoutingSnapshot_def res_simps)
  moreover obtain n where n: "jget d ''version'' = JNum n" "is_safe_integer n" "\<not> num_le n (Fin 0)"
    using assms by (auto simp: validateRoutingSnapshot_def res_simps split: jsval.splits)
  then obtain a where a: "n = Fin a" "a = of_int (floor a)" by (auto simp: is_safe_integer_def split: jsnum.splits)
  then obtain k where "n = Fin (of_int k)" by blast
  ultimately show ?thesis using n by (auto simp: version_num_def snapshot_version_def)
qed

lemma is_newer_validated:
  assumes "validateRoutingSnapshot d = Inr v" "validateRoutingSnapshot d' = Inr l"
  shows "is_newer v (Some l) \<longleftrightarrow> snapshot_version l < snapshot_version v"
proof -
  have "version_num v = Fin (of_int (snapshot_version v))" "version_num l = Fin (of_int (snapshot_version l))"
    using assms validated_version by blast+
  then show ?thesis by (simp add: is_newer_def)
qed

lemma received_snoc:
  "received (fs @ [f]) = received fs @ (case bind_res f validateRoutingSnapshot of Inr v \<Rightarrow> [v] | Inl _ \<Rightarrow> [])"
  by (simp add: received_def List.map_filter_def split: sum.split)

lemma received_valid: "v \<in> set (received fs) \<Longrightarrow> \<exists>d. Inr d \<in> set fs \<and> validateRoutingSnapshot d = Inr v"
  by (auto simp: received_def List.map_filter_def res_simps split: sum.splits)

locale snapshot_cache =
  fixes refresh :: "'i \<Rightarrow> jsval res \<Rightarrow> 's \<Rightarrow> 's \<times> unit res"
    and latest :: "'s \<Rightarrow> jsval option"
  assumes refresh_rejected: "bind_res f validateRoutingSnapshot = Inl e \<Longrightarrow> refresh i f s = (s, Inl e)"
    and refresh_accepted: "bind_res f validateRoutingSnapshot = Inr v \<Longrightarrow>
      latest (fst (refresh i f s)) = (if is_newer v (latest s) then Some v else latest s)"
begin

lemma serves_newest:
  assumes "latest s = None"
  shows "newest_of (received (map snd h)) (latest (foldl (\<lambda>c (i, f). fst (refresh i f c)) s h))"
proof (induction h rule: rev_induct)
  case Nil
  then show ?case using assms by (simp add: newest_of_def received_def List.map_filter_def)
next
  case (snoc x h)
  obtain i f where x: "x = (i, f)" by fastforce
  let ?c = "foldl (\<lambda>c (i, f). fst (refresh i f c)) s h"
  show ?case
  proof (cases "bind_res f validateRoutingSnapshot")
    case (Inl e)
    then show ?thesis using snoc refresh_rejected[OF Inl] by (simp add: x received_snoc)
  next
    case (Inr v)
    then obtain d where d: "validateRoutingSnapshot d = Inr v" by (auto simp: res_simps)
    show ?thesis
    proof (cases "latest ?c")
      case None
      then show ?thesis using snoc refresh_accepted[OF Inr, of i ?c] Inr
        by (simp add: x received_snoc newest_of_def is_newer_def)
    next
      case (Some l)
      then have "l \<in> set (received (map snd h))" using snoc by (simp add: newest_of_def)
      then obtain d' where "validateRoutingSnapshot d' = Inr l" using received_valid by blast
      then have "is_newer v (Some l) \<longleftrightarrow> snapshot_version l < snapshot_version v" using d by (intro is_newer_validated)
      then show ?thesis using snoc refresh_accepted[OF Inr, of i ?c] Inr Some
        by (auto simp: x received_snoc newest_of_def list_all_iff)
    qed
  qed
qed

end

interpretation memory_cache: snapshot_cache "\<lambda>_ :: unit. forceRefresh" "\<lambda>l. l"
  by unfold_locales (simp_all add: forceRefresh_def)

interpretation disk_cache: snapshot_cache disk_forceRefresh dc_latest
proof (unfold_locales, goal_cases)
  case (1 f e i s)
  then show ?case by (simp add: disk_forceRefresh_def)
next
  case (2 f v i s)
  then show ?case by (simp add: disk_forceRefresh_def split: prod.split)
qed

definition no_files :: cache_files where
  "no_files = \<lparr>cache_file = None, tmp_file = None\<rparr>"

text \<open>
  C20: Fail-static serving. After any history of refreshes - rejected fetches, invalid payloads,
  old and new versions in any order, and for the disk cache any failures of the file system - the
  memory cache and the disk cache hold no snapshot only when they never received a valid one, and
  otherwise a valid one they received whose version is the greatest received.
\<close>

theorem caches_serve_newest:
  "newest_of (received fs) (foldl (\<lambda>c f. fst (forceRefresh f c)) None fs) \<and>
   newest_of (received (map snd h))
     (dc_latest (foldl (\<lambda>c (i, f). fst (disk_forceRefresh i f c)) (createDiskSnapshotCache no_files) h))"
proof -
  have m: "foldl (\<lambda>c (i, f). fst (forceRefresh f c)) s (map (Pair ()) fs) = foldl (\<lambda>c f. fst (forceRefresh f c)) s fs" for s
    by (induction fs arbitrary: s) auto
  show ?thesis
    using memory_cache.serves_newest[of None "map (Pair ()) fs"] m[of None]
      disk_cache.serves_newest[of "createDiskSnapshotCache no_files" h]
    by (simp add: createDiskSnapshotCache_def no_files_def o_def)
qed

section \<open>Cold start\<close>

definition json_payloads :: "jsval res list \<Rightarrow> bool" where
  "json_payloads fs = list_all (\<lambda>f. case f of Inr d \<Rightarrow> wire d = d | Inl _ \<Rightarrow> True) fs"

definition recovered :: "disk_cache \<Rightarrow> jsval option" where
  "recovered c = dc_latest (createDiskSnapshotCache (dc_files c))"

abbreviation disk_history :: "(io \<times> jsval res) list \<Rightarrow> disk_cache" where
  "disk_history h \<equiv> foldl (\<lambda>c (i, f). fst (disk_forceRefresh i f c)) (createDiskSnapshotCache no_files) h"

lemma recovered_step:
  assumes "case f of Inr d \<Rightarrow> wire d = d | Inl _ \<Rightarrow> True"
  shows "recovered (fst (disk_forceRefresh i f c)) =
     (case bind_res f validateRoutingSnapshot of
        Inr v \<Rightarrow> if is_newer v (dc_latest c) \<and> i = IoOk then Some v else recovered c
      | Inl _ \<Rightarrow> recovered c)"
proof (cases "bind_res f validateRoutingSnapshot")
  case (Inr v)
  then obtain d where d: "f = Inr d" "validateRoutingSnapshot d = Inr v" by (auto simp: res_simps)
  then have "v = d" using validated_version by blast
  then show ?thesis using Inr d assms
    by (cases i) (auto simp: disk_forceRefresh_def recovered_def createDiskSnapshotCache_def)
qed (simp add: disk_forceRefresh_def)

text \<open>
  A cold start after any history of refreshes with any failures of the file system recovers
  nothing or a valid snapshot that was received, never a newer one than was being served; when
  the file system never failed it recovers exactly the snapshot that was being served.
\<close>

theorem cold_start_recovers:
  assumes "json_payloads (map snd h)"
  shows "(case recovered (disk_history h) of
            None \<Rightarrow> True
          | Some w \<Rightarrow> w \<in> set (received (map snd h)) \<and>
              (\<exists>l. dc_latest (disk_history h) = Some l \<and> snapshot_version w \<le> snapshot_version l)) \<and>
         (list_all (\<lambda>e. fst e = IoOk) h \<longrightarrow> recovered (disk_history h) = dc_latest (disk_history h))"
  using assms
proof (induction h rule: rev_induct)
  case Nil
  then show ?case by (simp add: recovered_def createDiskSnapshotCache_def no_files_def)
next
  case (snoc x h)
  obtain i f where x: "x = (i, f)" by fastforce
  have f: "case f of Inr d \<Rightarrow> wire d = d | Inl _ \<Rightarrow> True" and IH: "json_payloads (map snd h)"
    using snoc.prems by (auto simp: json_payloads_def x)
  note rs = recovered_step[OF f, of i "disk_history h"]
  show ?case
  proof (cases "bind_res f validateRoutingSnapshot")
    case (Inl e)
    then show ?thesis using snoc.IH[OF IH] rs disk_cache.refresh_rejected[OF Inl]
      by (auto simp: x received_snoc split: option.splits)
  next
    case (Inr v)
    then obtain d where d: "validateRoutingSnapshot d = Inr v" by (auto simp: res_simps)
    have sn: "newest_of (received (map snd h)) (dc_latest (disk_history h))"
      by (rule disk_cache.serves_newest) (simp add: createDiskSnapshotCache_def no_files_def)
    have nv: "is_newer v (Some l) \<longleftrightarrow> snapshot_version l < snapshot_version v" if "dc_latest (disk_history h) = Some l" for l
      using sn that received_valid d is_newer_validated by (fastforce simp: newest_of_def)
    show ?thesis using snoc.IH[OF IH] rs disk_cache.refresh_accepted[OF Inr, of i "disk_history h"] Inr nv
      by (auto simp: x received_snoc is_newer_def split: option.splits if_splits)
  qed
qed

definition sample_snapshot :: "int \<Rightarrow> jsval" where
  "sample_snapshot n = wire (snd (createSnapshot (n - 1) sample_stamp [] [] None))"

lemma cold_start_recovers_witness:
  "\<exists>w. recovered (disk_history [(IoOk, Inr (sample_snapshot 3)), (WriteFails True, Inr (sample_snapshot 4))]) = Some w \<and>
     w \<in> set (received [Inr (sample_snapshot 3), Inr (sample_snapshot 4)])"
proof -
  let ?h = "[(IoOk, Inr (sample_snapshot 3)), (WriteFails True, Inr (sample_snapshot 4))]"
  have j: "json_payloads (map snd ?h)" by code_simp
  have "recovered (disk_history ?h) = Some (sample_snapshot 3)" by code_simp
  then show ?thesis using cold_start_recovers[OF j] by simp
qed

section \<open>Polls that overlap\<close>

text \<open>
  \<open>DiskSnapshotCacheImpl\<close> as an interleaving of its asynchronous calls. A job is one run of
  \<open>forceRefresh\<close>; \<open>pollBackground\<close> waits for its job or for the timeout, and on the timeout releases
  the poll lock while the job goes on. Files are inodes: opening the temporary path for writing
  truncates the file that is there or makes a new one, a write goes to the opened file even when
  it has been renamed, a rename moves whatever the temporary path names.
\<close>

datatype job =
    Fetching
  | Persisting jsval
  | Opened jsval nat
  | Written jsval

record disk_state =
  latest :: "jsval option"
  timerId :: bool
  isPolling :: bool
  awaited :: "nat option"
  jobs :: "(nat, job) omap"
  next_job :: nat
  main_path :: "nat option"
  tmp_path :: "nat option"
  inode_text :: "(nat, file_text) omap"
  next_inode :: nat

datatype disk_event =
    Start
  | Stop
  | Tick
  | ForceRefresh
  | PollTimeout
  | Fetched nat "jsval res"
  | OpenTmp nat
  | WriteTmp nat
  | Rename nat
  | IoFails nat bool

definition spawn :: "disk_state \<Rightarrow> disk_state" where
  "spawn s = s\<lparr>jobs := oset (next_job s) Fetching (jobs s), next_job := next_job s + 1\<rparr>"

definition pollBackground :: "disk_state \<Rightarrow> disk_state" where
  "pollBackground s =
     (if isPolling s then s else (spawn s)\<lparr>isPolling := True, awaited := Some (next_job s)\<rparr>)"

definition start :: "disk_state \<Rightarrow> disk_state" where
  "start s = (if timerId s then s else pollBackground (s\<lparr>timerId := True\<rparr>))"

definition stop :: "disk_state \<Rightarrow> disk_state" where
  "stop s = s\<lparr>timerId := False\<rparr>"

text \<open>A job that returns or throws wakes the poll that waits for it.\<close>

definition finish :: "nat \<Rightarrow> disk_state \<Rightarrow> disk_state" where
  "finish j s =
     (let s' = s\<lparr>jobs := odel j (jobs s)\<rparr> in
      if awaited s = Some j then s'\<lparr>isPolling := False, awaited := None\<rparr> else s')"

definition set_job :: "nat \<Rightarrow> job \<Rightarrow> disk_state \<Rightarrow> disk_state" where
  "set_job j b s = s\<lparr>jobs := oset j b (jobs s)\<rparr>"

definition fetched :: "nat \<Rightarrow> jsval res \<Rightarrow> disk_state \<Rightarrow> disk_state" where
  "fetched j r s =
     (case bind_res r validateRoutingSnapshot of
        Inl e \<Rightarrow> finish j s
      | Inr v \<Rightarrow> if is_newer v (latest s) then set_job j (Persisting v) (s\<lparr>latest := Some v\<rparr>) else finish j s)"

definition open_tmp :: "nat \<Rightarrow> jsval \<Rightarrow> disk_state \<Rightarrow> disk_state" where
  "open_tmp j v s =
     (case tmp_path s of
        Some i \<Rightarrow> set_job j (Opened v i) (s\<lparr>inode_text := oset i Unparseable (inode_text s)\<rparr>)
      | None \<Rightarrow> set_job j (Opened v (next_inode s))
          (s\<lparr>inode_text := oset (next_inode s) Unparseable (inode_text s), tmp_path := Some (next_inode s),
             next_inode := next_inode s + 1\<rparr>))"

text \<open>One event; \<open>None\<close> when it cannot happen in the state.\<close>

fun fire :: "disk_event \<Rightarrow> disk_state \<Rightarrow> disk_state option" where
  "fire Start s = Some (start s)"
| "fire Stop s = Some (stop s)"
| "fire Tick s = (if timerId s then Some (pollBackground s) else None)"
| "fire ForceRefresh s = Some (spawn s)"
| "fire PollTimeout s =
     (if awaited s = None then None else Some (s\<lparr>isPolling := False, awaited := None\<rparr>))"
| "fire (Fetched j r) s = (if oget (jobs s) j = Some Fetching then Some (fetched j r s) else None)"
| "fire (OpenTmp j) s = (case oget (jobs s) j of Some (Persisting v) \<Rightarrow> Some (open_tmp j v s) | _ \<Rightarrow> None)"
| "fire (WriteTmp j) s =
     (case oget (jobs s) j of
        Some (Opened v i) \<Rightarrow> Some (set_job j (Written v) (s\<lparr>inode_text := oset i (Json (wire v)) (inode_text s)\<rparr>))
      | _ \<Rightarrow> None)"
| "fire (Rename j) s =
     (case oget (jobs s) j of
        Some (Written v) \<Rightarrow>
          Some (finish j (if tmp_path s = None then s else s\<lparr>main_path := tmp_path s, tmp_path := None\<rparr>))
      | _ \<Rightarrow> None)"
| "fire (IoFails j removed) s =
     (case oget (jobs s) j of
        None \<Rightarrow> None
      | Some Fetching \<Rightarrow> None
      | Some b \<Rightarrow> Some (finish j (if removed then s\<lparr>tmp_path := None\<rparr> else s)))"

definition init_disk :: disk_state where
  "init_disk = \<lparr>latest = None, timerId = False, isPolling = False, awaited = None, jobs = [], next_job = 0,
     main_path = None, tmp_path = None, inode_text = [], next_inode = 0\<rparr>"

inductive disk_reach :: "(disk_event \<Rightarrow> bool) \<Rightarrow> disk_state \<Rightarrow> bool" for allowed where
  init: "disk_reach allowed init_disk"
| event: "disk_reach allowed s \<Longrightarrow> allowed e \<Longrightarrow> fire e s = Some s' \<Longrightarrow> disk_reach allowed s'"

text \<open>What a cold start would find, as \<open>cache_files\<close>.\<close>

definition files_of :: "disk_state \<Rightarrow> cache_files" where
  "files_of s = \<lparr>cache_file = Option.bind (main_path s) (oget (inode_text s)),
                 tmp_file = Option.bind (tmp_path s) (oget (inode_text s))\<rparr>"

text \<open>Only the poller runs, no poll times out, and payloads are JSON values.\<close>

fun undisturbed :: "disk_event \<Rightarrow> bool" where
  "undisturbed PollTimeout = False"
| "undisturbed ForceRefresh = False"
| "undisturbed (Fetched _ r) = (case r of Inr d \<Rightarrow> wire d = d | Inl _ \<Rightarrow> True)"
| "undisturbed _ = True"

section \<open>Undisturbed polling keeps the file complete\<close>

text \<open>A snapshot that survives validation and the wire unchanged.\<close>

definition sound :: "jsval \<Rightarrow> bool" where
  "sound v = (validateRoutingSnapshot v = Inr v \<and> wire v = v)"

fun job_ok :: "disk_state \<Rightarrow> job \<Rightarrow> bool" where
  "job_ok s Fetching = True"
| "job_ok s (Persisting v) = (latest s = Some v)"
| "job_ok s (Opened v i) = (latest s = Some v \<and> tmp_path s = Some i)"
| "job_ok s (Written v) = (latest s = Some v \<and> Option.bind (tmp_path s) (oget (inode_text s)) = Some (Json v))"

definition poll_ok :: "disk_state \<Rightarrow> bool" where
  "poll_ok s = (case awaited s of
      None \<Rightarrow> jobs s = [] \<and> \<not> isPolling s
    | Some j \<Rightarrow> isPolling s \<and> (\<exists>b. jobs s = [(j, b)] \<and> job_ok s b))"

definition main_ok :: "disk_state \<Rightarrow> bool" where
  "main_ok s = (case main_path s of
      None \<Rightarrow> True
    | Some m \<Rightarrow> m < next_inode s \<and> tmp_path s \<noteq> Some m \<and>
        (\<exists>w l. oget (inode_text s) m = Some (Json w) \<and> sound w \<and> latest s = Some l \<and> snapshot_version w \<le> snapshot_version l))"

definition disk_inv :: "disk_state \<Rightarrow> bool" where
  "disk_inv s = (poll_ok s \<and> main_ok s \<and> (\<forall>l. latest s = Some l \<longrightarrow> sound l) \<and>
     (\<forall>i. tmp_path s = Some i \<longrightarrow> i < next_inode s))"

lemmas disk_defs = start_def stop_def pollBackground_def spawn_def finish_def set_job_def fetched_def open_tmp_def
  disk_inv_def poll_ok_def main_ok_def Let_def

lemma only_job: "disk_inv s \<Longrightarrow> oget (jobs s) j = Some b \<Longrightarrow> jobs s = [(j, b)] \<and> awaited s = Some j \<and> isPolling s \<and> job_ok s b"
  by (auto simp: disk_inv_def poll_ok_def split: option.splits if_splits)

lemma job_ok_timer [simp]: "job_ok (s\<lparr>timerId := t\<rparr>) b = job_ok s b"
  by (cases b) auto

lemma odel_single [simp]: "odel j [(j, b)] = []"
  by (simp add: odel_def)

lemma inv_finish:
  assumes "disk_inv s" "oget (jobs s) j = Some b"
  shows "disk_inv (finish j s)"
  using assms(1) only_job[OF assms] by (simp add: disk_defs split: option.splits)

lemma inv_poll: "disk_inv s \<Longrightarrow> disk_inv (pollBackground s)"
  by (auto simp: disk_defs split: option.splits)

lemma sound_newer:
  assumes "sound l" "sound v" "is_newer v (Some l)"
  shows "snapshot_version l < snapshot_version v"
  using assms is_newer_validated by (auto simp: sound_def)

lemma inv_fetched:
  assumes "disk_inv s" "oget (jobs s) j = Some Fetching" "case r of Inr d \<Rightarrow> wire d = d | Inl _ \<Rightarrow> True"
  shows "disk_inv (fetched j r s)"
proof (cases "bind_res r validateRoutingSnapshot")
  case (Inl e)
  then show ?thesis using inv_finish[OF assms(1,2)] by (simp add: fetched_def)
next
  case (Inr v)
  then obtain d where d: "r = Inr d" "validateRoutingSnapshot d = Inr v" by (auto simp: res_simps)
  then have v: "sound v" using assms(3) validated_version[OF d(2)] by (auto simp: sound_def)
  show ?thesis
  proof (cases "is_newer v (latest s)")
    case True
    have "snapshot_version w \<le> snapshot_version v" if "latest s = Some l" "snapshot_version w \<le> snapshot_version l" for w l
      using sound_newer[of l v] v True that assms(1) by (auto simp: disk_inv_def)
    then have "main_ok (set_job j (Persisting v) (s\<lparr>latest := Some v\<rparr>))"
      using assms(1) by (fastforce simp: disk_inv_def main_ok_def set_job_def split: option.splits)
    then show ?thesis using assms(1) only_job[OF assms(1,2)] v Inr True
      by (simp add: fetched_def disk_inv_def poll_ok_def set_job_def)
  next
    case False
    then show ?thesis using inv_finish[OF assms(1,2)] Inr by (simp add: fetched_def)
  qed
qed

lemma inv_open:
  assumes "disk_inv s" "oget (jobs s) j = Some (Persisting v)"
  shows "disk_inv (open_tmp j v s)"
  using assms(1) only_job[OF assms] by (auto simp: disk_defs split: option.splits)

lemma inv_write:
  assumes "disk_inv s" "oget (jobs s) j = Some (Opened v i)"
  shows "disk_inv (set_job j (Written v) (s\<lparr>inode_text := oset i (Json (wire v)) (inode_text s)\<rparr>))"
  using assms(1) only_job[OF assms] by (auto simp: disk_defs sound_def split: option.splits)

lemma inv_rename:
  assumes "disk_inv s" "oget (jobs s) j = Some (Written v)"
  shows "disk_inv (finish j (if tmp_path s = None then s else s\<lparr>main_path := tmp_path s, tmp_path := None\<rparr>))"
  using assms(1) only_job[OF assms] by (auto simp: disk_defs split: option.splits)

lemma inv_fails:
  assumes "disk_inv s" "oget (jobs s) j = Some b"
  shows "disk_inv (finish j (if removed then s\<lparr>tmp_path := None\<rparr> else s))"
  using assms(1) only_job[OF assms] by (auto simp: disk_defs split: option.splits)

lemma fire_inv:
  assumes "disk_inv s" "undisturbed e" "fire e s = Some s'"
  shows "disk_inv s'"
proof (cases e)
  case Start
  have "disk_inv (s\<lparr>timerId := True\<rparr>)" using assms(1) by (simp add: disk_defs split: option.splits)
  then show ?thesis using Start assms inv_poll by (auto simp: start_def)
next
  case Stop
  then show ?thesis using assms by (auto simp: disk_defs split: option.splits)
next
  case Tick
  then show ?thesis using assms inv_poll[OF assms(1)] by (auto split: if_splits)
next
  case (Fetched j r)
  then show ?thesis using assms inv_fetched[OF assms(1), of j r] by (auto split: if_splits)
next
  case (OpenTmp j)
  then show ?thesis using assms(3) inv_open[OF assms(1)] by (auto split: option.splits job.splits)
next
  case (WriteTmp j)
  then show ?thesis using assms(3) inv_write[OF assms(1)] by (auto split: option.splits job.splits)
next
  case (Rename j)
  then show ?thesis using assms(3) inv_rename[OF assms(1)]
    by (auto split: option.splits job.splits)
next
  case (IoFails j removed)
  then obtain b where b: "oget (jobs s) j = Some b" and e: "s' = finish j (if removed then s\<lparr>tmp_path := None\<rparr> else s)"
    using assms(3) by (auto split: option.splits job.splits)
  show ?thesis unfolding e using assms(1) b by (rule inv_fails)
qed (use assms in simp_all)


fun fires :: "disk_event list \<Rightarrow> disk_state \<Rightarrow> disk_state option" where
  "fires [] s = Some s"
| "fires (e # es) s = Option.bind (fire e s) (fires es)"

lemma fires_reach: "disk_reach P s \<Longrightarrow> list_all P es \<Longrightarrow> fires es s = Some s' \<Longrightarrow> disk_reach P s'"
proof (induction es arbitrary: s)
  case (Cons e es)
  then obtain s1 where "fire e s = Some s1" "fires es s1 = Some s'" by (auto simp: bind_eq_Some_conv)
  moreover have "disk_reach P s1" using Cons.prems calculation(1) by (auto intro: disk_reach.event)
  ultimately show ?case using Cons by auto
qed simp

definition sample_polls :: "disk_event list" where
  "sample_polls = [Start, Fetched 0 (Inr (sample_snapshot 1)), OpenTmp 0, WriteTmp 0, Rename 0,
     Tick, Fetched 1 (Inr (sample_snapshot 2)), OpenTmp 1, IoFails 1 False]"


text \<open>
  One poll that times out is enough to lose this. The abandoned refresh goes on and shares
  the temporary file with the next one: the second open truncates what the first has written and
  is about to rename, so the cache file becomes unparseable and a cold start at that point serves
  nothing; and a slow first persist that renames last leaves version 1 on disk, with no operation
  in flight, while version 2 is served.
\<close>

theorem overlapping_persists_damage_cache_file:
  "(\<exists>s. disk_reach (\<lambda>e. e \<noteq> ForceRefresh) s \<and> cache_file (files_of s) = Some Unparseable \<and>
        dc_latest (createDiskSnapshotCache (files_of s)) = None \<and> latest s = Some (sample_snapshot 2)) \<and>
   (\<exists>s. disk_reach (\<lambda>e. e \<noteq> ForceRefresh) s \<and> jobs s = [] \<and> latest s = Some (sample_snapshot 2) \<and>
        dc_latest (createDiskSnapshotCache (files_of s)) = Some (sample_snapshot 1))"
proof -
  let ?o = "[Start, PollTimeout, Tick, Fetched 0 (Inr (sample_snapshot 1)), Fetched 1 (Inr (sample_snapshot 2))]"
  let ?a = "?o @ [OpenTmp 0, WriteTmp 0, OpenTmp 1, Rename 0]"
  let ?b = "?o @ [OpenTmp 1, WriteTmp 1, Rename 1, OpenTmp 0, WriteTmp 0, Rename 0]"
  let ?sa = "the (fires ?a init_disk)" and ?sb = "the (fires ?b init_disk)"
  have f: "fires ?a init_disk = Some ?sa" "fires ?b init_disk = Some ?sb" by code_simp+
  have "list_all (\<lambda>e. e \<noteq> ForceRefresh) ?a" "list_all (\<lambda>e. e \<noteq> ForceRefresh) ?b" by simp_all
  then have r: "disk_reach (\<lambda>e. e \<noteq> ForceRefresh) ?sa" "disk_reach (\<lambda>e. e \<noteq> ForceRefresh) ?sb"
    using f fires_reach disk_reach.init by blast+
  have "cache_file (files_of ?sa) = Some Unparseable \<and>
        dc_latest (createDiskSnapshotCache (files_of ?sa)) = None \<and> latest ?sa = Some (sample_snapshot 2)"
    by code_simp
  moreover have "jobs ?sb = [] \<and> latest ?sb = Some (sample_snapshot 2) \<and>
        dc_latest (createDiskSnapshotCache (files_of ?sb)) = Some (sample_snapshot 1)"
    by code_simp
  ultimately show ?thesis using r by blast
qed

end
