(* ===== verification/Cron.thy ===== *)
theory Cron
  imports Errors
begin

text \<open>
  \<open>runtime/lifecycle/cron-matcher.ts\<close>: five-field cron expressions. A moment is the tuple of the
  local-time components that the matcher reads.

  Shown: every expression written in the standard syntax with values in range compiles, and the
  compiled matcher fires exactly at the moments the syntax denotes; out-of-range and reversed
  ranges and bad steps are refused. Beyond the standard syntax the parser is lenient: text after a
  number is ignored, and a step after a single value has no effect.
\<close>

section \<open>Compilation\<close>

text \<open>The loop that adds the values of one part.\<close>

function step_values :: "int \<Rightarrow> int \<Rightarrow> int \<Rightarrow> int list" where
  "step_values v e step = (if v \<le> e \<and> 1 \<le> step then v # step_values (v + step) e step else [])"
  by pat_completeness auto

termination
  by (relation "measure (\<lambda>(v, e, step). nat (e - v + 1))") auto

declare step_values.simps [simp del]

definition bad_field :: "string \<Rightarrow> string \<Rightarrow> exn" where
  "bad_field m field = PlainError (m @ field)"

text \<open>The bounds of one part: the first two components of a split are read, the rest is ignored.\<close>

definition range_bounds :: "string \<Rightarrow> string \<Rightarrow> int \<Rightarrow> int \<Rightarrow> (int \<times> int) res" where
  "range_bounds field rangePart mn mx =
     (if rangePart = ''*'' then Inr (mn, mx)
      else let ps = split_on (CHR ''-'') rangePart in
           case parseInt (hd ps) 10 of
             None \<Rightarrow> Inl (bad_field ''Invalid cron field '' field)
           | Some s \<Rightarrow>
               (case tl ps of
                  [] \<Rightarrow> Inr (s, s)
                | endStr # _ \<Rightarrow>
                    (case parseInt endStr 10 of
                       None \<Rightarrow> Inl (bad_field ''Invalid cron field '' field)
                     | Some e \<Rightarrow> Inr (s, e))))"

definition parse_part :: "string \<Rightarrow> int \<Rightarrow> int \<Rightarrow> string \<Rightarrow> int list res" where
  "parse_part field mn mx part =
     (let ps = split_on (CHR ''/'') (to_lower part);
          step = (case tl ps of [] \<Rightarrow> Some 1 | stepPart # _ \<Rightarrow> parseInt stepPart 10) in
      case step of
        None \<Rightarrow> Inl (bad_field ''Invalid cron step in field '' field)
      | Some st \<Rightarrow>
          if st < 1 then Inl (bad_field ''Invalid cron step in field '' field)
          else bind_res (range_bounds field (hd ps) mn mx) (\<lambda>(s, e).
            if s < mn \<or> mx < e \<or> e < s then Inl (bad_field ''Cron field out of range '' field)
            else Inr (step_values s e st)))"

definition parseField :: "string \<Rightarrow> int \<Rightarrow> int \<Rightarrow> int list res" where
  "parseField field mn mx =
     bind_res (map_res (parse_part field mn mx) (split_on (CHR '','') field)) (\<lambda>vs. Inr (concat vs))"

text \<open>\<open>split(/\s+/)\<close>: a run of white space is one separator.\<close>

lemma length_dropWhile_less [termination_simp]: "length (dropWhile P s) < Suc (length s)"
  by (simp add: length_dropWhile_le less_Suc_eq_le)

fun split_ws :: "string \<Rightarrow> string list" where
  "split_ws [] = [[]]"
| "split_ws (c # s) =
     (if is_ws c then [] # split_ws (dropWhile is_ws s)
      else case split_ws s of w # ws \<Rightarrow> (c # w) # ws | [] \<Rightarrow> [[c]])"

record cron =
  minutes :: "int list"
  hours :: "int list"
  daysOfMonth :: "int list"
  months :: "int list"
  daysOfWeek :: "int list"
  domRestricted :: bool
  dowRestricted :: bool

definition compileCron :: "string \<Rightarrow> cron res" where
  "compileCron expression =
     (let fields = split_ws (trim expression) in
      if length fields \<noteq> 5 then Inl (bad_field ''Schedule must be a 5-field cron expression: '' expression)
      else
        bind_res (parseField (fields ! 0) 0 59) (\<lambda>mi.
        bind_res (parseField (fields ! 1) 0 23) (\<lambda>ho.
        bind_res (parseField (fields ! 2) 1 31) (\<lambda>dm.
        bind_res (parseField (fields ! 3) 1 12) (\<lambda>mo.
        bind_res (parseField (fields ! 4) 0 6) (\<lambda>dw.
          Inr \<lparr>minutes = mi, hours = ho, daysOfMonth = dm, months = mo, daysOfWeek = dw,
               domRestricted = fields ! 2 \<noteq> ''*'', dowRestricted = fields ! 4 \<noteq> ''*''\<rparr>))))))"

record moment =
  getMinutes :: int
  getHours :: int
  getDate :: int
  getMonth :: int
  getDay :: int

definition cron_matches :: "cron \<Rightarrow> moment \<Rightarrow> bool" where
  "cron_matches c d =
     (if getMinutes d \<notin> set (minutes c) then False
      else if getHours d \<notin> set (hours c) then False
      else if getMonth d + 1 \<notin> set (months c) then False
      else let domMatch = getDate d \<in> set (daysOfMonth c); dowMatch = getDay d \<in> set (daysOfWeek c) in
           if domRestricted c \<and> dowRestricted c then domMatch \<or> dowMatch
           else if domRestricted c then domMatch
           else if dowRestricted c then dowMatch
           else True)"

section \<open>The standard syntax and what it denotes\<close>

datatype cron_item =
    Any
  | AnyStep nat
  | Val nat
  | Span nat nat
  | SpanStep nat nat nat

fun show_item :: "cron_item \<Rightarrow> string" where
  "show_item Any = ''*''"
| "show_item (AnyStep n) = ''*/'' @ nat_str n"
| "show_item (Val a) = nat_str a"
| "show_item (Span a b) = nat_str a @ ''-'' @ nat_str b"
| "show_item (SpanStep a b n) = nat_str a @ ''-'' @ nat_str b @ ''/'' @ nat_str n"

definition show_field :: "cron_item list \<Rightarrow> string" where
  "show_field f = join_with '','' (map show_item f)"

definition show_cron :: "cron_item list list \<Rightarrow> string" where
  "show_cron fs = join_with '' '' (map show_field fs)"

fun item_values :: "int \<Rightarrow> int \<Rightarrow> cron_item \<Rightarrow> int set" where
  "item_values mn mx Any = {mn..mx}"
| "item_values mn mx (AnyStep n) = {v \<in> {mn..mx}. int n dvd v - mn}"
| "item_values mn mx (Val a) = {int a}"
| "item_values mn mx (Span a b) = {int a..int b}"
| "item_values mn mx (SpanStep a b n) = {v \<in> {int a..int b}. int n dvd v - int a}"

fun item_ok :: "int \<Rightarrow> int \<Rightarrow> cron_item \<Rightarrow> bool" where
  "item_ok mn mx Any = (mn \<le> mx)"
| "item_ok mn mx (AnyStep n) = (mn \<le> mx \<and> 1 \<le> n)"
| "item_ok mn mx (Val a) = (mn \<le> int a \<and> int a \<le> mx)"
| "item_ok mn mx (Span a b) = (mn \<le> int a \<and> a \<le> b \<and> int b \<le> mx)"
| "item_ok mn mx (SpanStep a b n) = (mn \<le> int a \<and> a \<le> b \<and> int b \<le> mx \<and> 1 \<le> n)"

definition field_values :: "int \<Rightarrow> int \<Rightarrow> cron_item list \<Rightarrow> int set" where
  "field_values mn mx f = (\<Union>it \<in> set f. item_values mn mx it)"

definition field_ok :: "int \<Rightarrow> int \<Rightarrow> cron_item list \<Rightarrow> bool" where
  "field_ok mn mx f = (f \<noteq> [] \<and> list_all (item_ok mn mx) f)"

definition denotes :: "cron_item list \<Rightarrow> cron_item list \<Rightarrow> cron_item list \<Rightarrow> cron_item list \<Rightarrow> cron_item list \<Rightarrow> moment \<Rightarrow> bool" where
  "denotes mi ho dm mo dw d \<longleftrightarrow>
     getMinutes d \<in> field_values 0 59 mi \<and> getHours d \<in> field_values 0 23 ho \<and>
     getMonth d + 1 \<in> field_values 1 12 mo \<and>
     (dm = [Any] \<and> dw = [Any] \<or>
      dm \<noteq> [Any] \<and> getDate d \<in> field_values 1 31 dm \<or>
      dw \<noteq> [Any] \<and> getDay d \<in> field_values 0 6 dw)"

section \<open>Fields\<close>

lemma step_values_set: "1 \<le> step \<Longrightarrow> set (step_values v e step) = {x. v \<le> x \<and> x \<le> e \<and> step dvd x - v}"
proof (induction v e step rule: step_values.induct)
  case (1 v e step)
  show ?case
  proof (cases "v \<le> e")
    case True
    have d: "step dvd x - (v + step) \<longleftrightarrow> step dvd x - v" for x
      using dvd_diff_commute by (metis diff_diff_eq dvd_diff_right_iff dvd_refl)
    have g: "x = v \<or> v + step \<le> x" if "v \<le> x" "step dvd x - v" for x
      using that zdvd_imp_le[of step "x - v"] by fastforce
    have "set (step_values v e step) = insert v {x. v + step \<le> x \<and> x \<le> e \<and> step dvd x - v}"
      using 1 True d by (subst step_values.simps) simp
    also have "\<dots> = {x. v \<le> x \<and> x \<le> e \<and> step dvd x - v}" using True g \<open>1 \<le> step\<close> by auto
    finally show ?thesis .
  next
    case False
    then show ?thesis by (subst step_values.simps) auto
  qed
qed

lemma to_lower_append [simp]: "to_lower (s @ t) = to_lower s @ to_lower t" "to_lower (c # s) = lower_char c # to_lower s"
  by (simp_all add: to_lower_def)

lemma lower_punct [simp]: "lower_char (CHR ''*'') = CHR ''*''" "lower_char (CHR ''/'') = CHR ''/''" "lower_char (CHR ''-'') = CHR ''-''"
  by (simp_all add: lower_char_def)

lemma no_slash: "CHR ''/'' \<notin> set (nat_str n)" "CHR ''-'' \<notin> set (nat_str n)" "CHR '','' \<notin> set (nat_str n)"
  using nat_str_chars by blast+

lemma nat_str_not_star: "nat_str n \<noteq> ''*''" "nat_str n @ s \<noteq> ''*''"
proof -
  obtain c ds where s: "nat_str n = c # ds" using nat_str_not_Nil by (metis neq_Nil_conv)
  then have "c \<noteq> CHR ''*''" using nat_str_chars[of c n] by simp
  then show "nat_str n \<noteq> ''*''" "nat_str n @ s \<noteq> ''*''" using s by auto
qed

lemma range_bounds_shown:
  "range_bounds f ''*'' mn mx = Inr (mn, mx)"
  "range_bounds f (nat_str a) mn mx = Inr (int a, int a)"
  "range_bounds f (nat_str a @ CHR ''-'' # nat_str b) mn mx = Inr (int a, int b)"
  using split_on_absent[OF no_slash(2)[of a]] split_on_two[OF no_slash(2)[of a] no_slash(2)[of b]] nat_str_not_star
  by (simp_all add: range_bounds_def)

fun item_list :: "int \<Rightarrow> int \<Rightarrow> cron_item \<Rightarrow> int list" where
  "item_list mn mx Any = step_values mn mx 1"
| "item_list mn mx (AnyStep n) = step_values mn mx (int n)"
| "item_list mn mx (Val a) = step_values (int a) (int a) 1"
| "item_list mn mx (Span a b) = step_values (int a) (int b) 1"
| "item_list mn mx (SpanStep a b n) = step_values (int a) (int b) (int n)"

lemma item_list_values: "item_ok mn mx it \<Longrightarrow> set (item_list mn mx it) = item_values mn mx it"
  by (cases it) (auto simp: step_values_set)

lemma split_slash:
  "split_on (CHR ''/'') (''*/'' @ nat_str n) = [''*'', nat_str n]"
  "split_on (CHR ''/'') (nat_str a @ CHR ''-'' # nat_str b) = [nat_str a @ CHR ''-'' # nat_str b]"
  "split_on (CHR ''/'') (nat_str a @ CHR ''-'' # nat_str b @ CHR ''/'' # nat_str n) = [nat_str a @ CHR ''-'' # nat_str b, nat_str n]"
proof -
  show "split_on (CHR ''/'') (''*/'' @ nat_str n) = [''*'', nat_str n]"
    using split_on_two[of "CHR ''/''" "''*''" "nat_str n"] no_slash by simp
  show "split_on (CHR ''/'') (nat_str a @ CHR ''-'' # nat_str b) = [nat_str a @ CHR ''-'' # nat_str b]"
    using no_slash by (intro split_on_absent) simp
  show "split_on (CHR ''/'') (nat_str a @ CHR ''-'' # nat_str b @ CHR ''/'' # nat_str n) = [nat_str a @ CHR ''-'' # nat_str b, nat_str n]"
    using split_on_two[of "CHR ''/''" "nat_str a @ CHR ''-'' # nat_str b" "nat_str n"] no_slash by simp
qed

lemma parse_part_shown:
  assumes "item_ok mn mx it"
  shows "parse_part f mn mx (show_item it) = Inr (item_list mn mx it)"
  using assms split_on_absent[OF no_slash(1)]
  by (cases it) (simp_all add: parse_part_def Let_def split_slash[simplified] range_bounds_shown)

lemma show_item_no_comma: "CHR '','' \<notin> set (show_item it)"
  using no_slash by (cases it) auto

lemma map_res_all: "(\<And>x. x \<in> set xs \<Longrightarrow> f (h x) = Inr (g x)) \<Longrightarrow> map_res f (map h xs) = Inr (map g xs)"
  by (induction xs) auto

lemma parseField_shown:
  assumes "field_ok mn mx f"
  shows "parseField (show_field f) mn mx = Inr (concat (map (item_list mn mx) f))"
    "set (concat (map (item_list mn mx) f)) = field_values mn mx f"
proof -
  have sp: "split_on (CHR '','') (show_field f) = map show_item f"
    unfolding show_field_def using assms show_item_no_comma by (intro split_join) (auto simp: field_ok_def)
  have "map_res (parse_part (show_field f) mn mx) (map show_item f) = Inr (map (item_list mn mx) f)"
    using assms by (intro map_res_all parse_part_shown) (auto simp: field_ok_def list_all_iff)
  then show "parseField (show_field f) mn mx = Inr (concat (map (item_list mn mx) f))"
    by (simp add: parseField_def sp)
  show "set (concat (map (item_list mn mx) f)) = field_values mn mx f"
    using assms item_list_values by (auto simp: field_ok_def field_values_def list_all_iff)
qed

section \<open>Expressions\<close>

lemma split_ws_no_ws: "(\<And>c. c \<in> set s \<Longrightarrow> \<not> is_ws c) \<Longrightarrow> split_ws s = [s]"
  by (induction s) auto

lemma split_ws_space:
  assumes "\<And>c. c \<in> set a \<Longrightarrow> \<not> is_ws c" "b \<noteq> []" "\<not> is_ws (hd b)"
  shows "split_ws (a @ CHR '' '' # b) = a # split_ws b"
  using assms
proof (induction a)
  case Nil
  then have "dropWhile is_ws b = b" by (cases b) auto
  then show ?case by (simp add: is_ws_def)
qed simp

definition solid :: "string \<Rightarrow> bool" where
  "solid s = (s \<noteq> [] \<and> (\<forall>c \<in> set s. \<not> is_ws c))"

lemma split_ws_join: "xs \<noteq> [] \<Longrightarrow> (\<And>x. x \<in> set xs \<Longrightarrow> solid x) \<Longrightarrow> split_ws (join_with '' '' xs) = xs \<and> join_with '' '' xs \<noteq> [] \<and> \<not> is_ws (hd (join_with '' '' xs))"
proof (induction "'' ''" xs rule: join_with.induct)
  case (2 x)
  then show ?case by (auto simp: solid_def intro: split_ws_no_ws)
next
  case (3 x y ys)
  have j: "split_ws (join_with '' '' (y # ys)) = y # ys" "join_with '' '' (y # ys) \<noteq> []" "\<not> is_ws (hd (join_with '' '' (y # ys)))"
    using 3 by auto
  have x: "x \<noteq> []" "\<And>c. c \<in> set x \<Longrightarrow> \<not> is_ws c" using 3(3)[of x] by (auto simp: solid_def)
  show ?case using split_ws_space[OF x(2) j(2,3)] j(1) x by (cases x) auto
qed simp

lemma last_join: "xs \<noteq> [] \<Longrightarrow> (\<And>x. x \<in> set xs \<Longrightarrow> solid x) \<Longrightarrow> \<not> is_ws (last (join_with '' '' xs))"
proof (induction "'' ''" xs rule: join_with.induct)
  case (3 x y ys)
  have "join_with '' '' (y # ys) \<noteq> []" using split_ws_join[of "y # ys"] 3(3) by auto
  then show ?case using 3 by auto
qed (auto simp: solid_def)

lemma split_trim_join:
  assumes "xs \<noteq> []" "\<And>x. x \<in> set xs \<Longrightarrow> solid x"
  shows "split_ws (trim (join_with '' '' xs)) = xs"
  using split_ws_join[OF assms] last_join[OF assms] trim_solid by simp

lemma show_item_solid: "solid (show_item it)"
  using nat_str_chars by (cases it) (auto simp: solid_def is_ws_def)

lemma show_field_solid: "f \<noteq> [] \<Longrightarrow> solid (show_field f)"
proof -
  have "solid (join_with '','' (map show_item f))" if "f \<noteq> []" for f
    using that
  proof (induction f)
    case (Cons it f)
    then show ?case using show_item_solid[of it] by (cases f) (auto simp: solid_def is_ws_def)
  qed simp
  then show "f \<noteq> [] \<Longrightarrow> solid (show_field f)" by (simp add: show_field_def)
qed

lemma show_field_star: "f \<noteq> [] \<Longrightarrow> show_field f = ''*'' \<longleftrightarrow> f = [Any]"
proof -
  assume f: "f \<noteq> []"
  have it: "show_item it = ''*'' \<longleftrightarrow> it = Any" for it
    using nat_str_not_star by (cases it) auto
  have ne: "show_item it \<noteq> []" for it using show_item_solid by (simp add: solid_def)
  show ?thesis
  proof (cases f)
    case (Cons x xs)
    then show ?thesis using it ne[of x] by (cases xs) (auto simp: show_field_def append_eq_Cons_conv)
  qed (use f in simp)
qed

text \<open>
  C40: An expression of five fields in the standard syntax, with values in range and steps from 1,
  compiles from its text, and the compiled matcher fires at exactly the moments it denotes: minute,
  hour and month must match, and of day of month and day of week those that are not a star, one of
  them being enough when both are restricted.
\<close>

theorem cron_matches_denotation:
  assumes "field_ok 0 59 mi" "field_ok 0 23 ho" "field_ok 1 31 dm" "field_ok 1 12 mo" "field_ok 0 6 dw"
  shows "\<exists>c. compileCron (show_cron [mi, ho, dm, mo, dw]) = Inr c \<and>
    (\<forall>d. cron_matches c d \<longleftrightarrow> denotes mi ho dm mo dw d)"
proof -
  let ?fs = "map show_field [mi, ho, dm, mo, dw]"
  have ne: "mi \<noteq> []" "ho \<noteq> []" "dm \<noteq> []" "mo \<noteq> []" "dw \<noteq> []" using assms by (auto simp: field_ok_def)
  then have so: "solid x" if "x \<in> set ?fs" for x using that show_field_solid by auto
  have f: "split_ws (trim (show_cron [mi, ho, dm, mo, dw])) = ?fs"
    unfolding show_cron_def by (rule split_trim_join[OF _ so]) simp
  define c where "c = \<lparr>minutes = concat (map (item_list 0 59) mi), hours = concat (map (item_list 0 23) ho),
    daysOfMonth = concat (map (item_list 1 31) dm), months = concat (map (item_list 1 12) mo),
    daysOfWeek = concat (map (item_list 0 6) dw), domRestricted = dm \<noteq> [Any], dowRestricted = dw \<noteq> [Any]\<rparr>"
  have "compileCron (show_cron [mi, ho, dm, mo, dw]) = Inr c"
    unfolding compileCron_def f Let_def c_def
    by (simp add: assms[THEN parseField_shown(1)] show_field_star[OF ne(3)] show_field_star[OF ne(5)])
  moreover have "cron_matches c d \<longleftrightarrow> denotes mi ho dm mo dw d" for d
    unfolding cron_matches_def denotes_def c_def cron.simps assms[THEN parseField_shown(2)] Let_def by (simp only: if_bool_eq_conj) blast
  ultimately show ?thesis by blast
qed

definition weekday_mornings :: "cron_item list list" where
  "weekday_mornings = [[AnyStep 15], [Span 8 10], [Any], [Any], [Span 1 5]]"

lemma cron_matches_denotation_witness:
  "show_cron weekday_mornings = ''*/15 8-10 * * 1-5'' \<and> \<not> isl (compileCron (show_cron weekday_mornings)) \<and>
   denotes [AnyStep 15] [Span 8 10] [Any] [Any] [Span 1 5] \<lparr>getMinutes = 45, getHours = 9, getDate = 3, getMonth = 0, getDay = 2\<rparr>"
proof -
  have "\<exists>c. compileCron (show_cron weekday_mornings) = Inr c"
    using cron_matches_denotation[of "[AnyStep 15]" "[Span 8 10]" "[Any]" "[Any]" "[Span 1 5]"]
    by (auto simp: weekday_mornings_def field_ok_def)
  moreover have "show_cron weekday_mornings = ''*/15 8-10 * * 1-5''" by code_simp
  ultimately show ?thesis by (auto simp: denotes_def field_values_def)
qed

text \<open>
  The parser accepts more than the syntax: text after a number is ignored, and a step after a
  single value, which elsewhere means ``from that value on'', selects only the value.
\<close>

lemma lenient_fields:
  "parseField ''5x'' 0 59 = Inr [5]" "parseField ''5/15'' 0 59 = Inr [5]" "parseField ''1-3-9'' 0 59 = Inr [1, 2, 3]"
  by code_simp+

end
