(* ===== verification/KillEnforcer.thy ===== *)
theory KillEnforcer
  imports Errors
begin

text \<open>
  \<open>runtime/limits/kill-enforcer.ts\<close>: body size limits, the cap on streamed responses, the CPU limit and
  the deadline timer. A stream is the list of what its reads give: a chunk, a read without a
  value, or a failure; the end of the list is \<open>done\<close>. Limits are JavaScript numbers.

  Shown: a request body is returned complete exactly when it fits, otherwise it is refused after
  reading no further than the first chunk that exceeds the limit; a wrapped response stream emits
  a prefix of its source within the cap; a cleaned up deadline never aborts.
\<close>

section \<open>Limits\<close>

definition DEFAULT_MAX_REQUEST_BODY_BYTES :: jsnum where
  "DEFAULT_MAX_REQUEST_BODY_BYTES = Fin (10 * 1024 * 1024)"

definition DEFAULT_MAX_RESPONSE_BODY_BYTES :: jsnum where
  "DEFAULT_MAX_RESPONSE_BODY_BYTES = Fin (10 * 1024 * 1024)"

definition DEFAULT_MAX_STREAMED_BYTES :: jsnum where
  "DEFAULT_MAX_STREAMED_BYTES = Fin (512 * 1024 * 1024)"

record ResourceKillOptions =
  o_timeoutMs :: jsval
  o_cpuMs :: jsval
  o_maxRequestBodyBytes :: jsval
  o_maxResponseBodyBytes :: jsval
  o_maxStreamedBytes :: jsval

record kill_enforcer =
  timeoutMs :: jsnum
  cpuMs :: jsnum
  maxRequestBodyBytes :: jsnum
  maxResponseBodyBytes :: jsnum
  maxStreamedBytes :: jsnum

definition positive_number :: "jsval \<Rightarrow> bool" where
  "positive_number v = (case v of JNum n \<Rightarrow> n \<noteq> NaN \<and> \<not> num_le n (Fin 0) | _ \<Rightarrow> False)"

definition number_or :: "jsnum \<Rightarrow> jsval \<Rightarrow> jsnum" where
  "number_or d v = (case v of JNum n \<Rightarrow> n | _ \<Rightarrow> d)"

definition bad_option :: "string \<Rightarrow> exn" where
  "bad_option m = throw_rf VALIDATION_FAILED (''Invalid '' @ m @ '': must be a positive number'')"

definition new_KillEnforcer :: "ResourceKillOptions \<Rightarrow> kill_enforcer res" where
  "new_KillEnforcer o' =
     (let optional_ok = (\<lambda>v. v = JUndef \<or> positive_number v) in
      bind_res (guard_res (\<not> positive_number (o_timeoutMs o')) (bad_option ''timeoutMs'')) (\<lambda>_.
      bind_res (guard_res (\<not> positive_number (o_cpuMs o')) (bad_option ''cpuMs'')) (\<lambda>_.
      bind_res (guard_res (\<not> optional_ok (o_maxRequestBodyBytes o')) (bad_option ''maxRequestBodyBytes'')) (\<lambda>_.
      bind_res (guard_res (\<not> optional_ok (o_maxResponseBodyBytes o')) (bad_option ''maxResponseBodyBytes'')) (\<lambda>_.
      bind_res (guard_res (\<not> optional_ok (o_maxStreamedBytes o')) (bad_option ''maxStreamedBytes'')) (\<lambda>_.
        Inr \<lparr>timeoutMs = number_or NaN (o_timeoutMs o'), cpuMs = number_or NaN (o_cpuMs o'),
             maxRequestBodyBytes = number_or DEFAULT_MAX_REQUEST_BODY_BYTES (o_maxRequestBodyBytes o'),
             maxResponseBodyBytes = number_or DEFAULT_MAX_RESPONSE_BODY_BYTES (o_maxResponseBodyBytes o'),
             maxStreamedBytes = number_or DEFAULT_MAX_STREAMED_BYTES (o_maxStreamedBytes o')\<rparr>))))))"

section \<open>Request bodies\<close>

datatype 'b read = Chunk "'b list" | NoValue | ReadFails exn

definition byte_num :: "nat \<Rightarrow> jsnum" where
  "byte_num n = Fin (of_nat n)"

text \<open>The read loop: the chunks kept, the number of reads made, and how it ended.\<close>

fun read_body :: "jsnum \<Rightarrow> 'b read list \<Rightarrow> 'b list list \<Rightarrow> nat \<Rightarrow> nat \<Rightarrow> ('b list list res \<times> nat)" where
  "read_body mx [] chunks totalBytes reads = (Inr chunks, reads + 1)"
| "read_body mx (ReadFails e # rs) chunks totalBytes reads = (Inl e, reads + 1)"
| "read_body mx (NoValue # rs) chunks totalBytes reads = read_body mx rs chunks totalBytes (reads + 1)"
| "read_body mx (Chunk c # rs) chunks totalBytes reads =
     (if num_less mx (byte_num (totalBytes + length c))
      then (Inl (throw_rf PAYLOAD_TOO_LARGE ''Request body exceeds maximum allowed size''), reads + 1)
      else read_body mx rs (chunks @ [c]) (totalBytes + length c) (reads + 1))"

definition validateRequestBody :: "kill_enforcer \<Rightarrow> jsnum option \<Rightarrow> 'b read list option \<Rightarrow> 'b list res" where
  "validateRequestBody k contentLength bodyStream =
     bind_res (case contentLength of
         None \<Rightarrow> Inr ()
       | Some n \<Rightarrow>
           if n = NaN \<or> \<not> num_integer n \<or> num_less n (Fin 0)
           then Inl (throw_rf VALIDATION_FAILED ''Invalid Content-Length'')
           else if num_less (maxRequestBodyBytes k) n
           then Inl (throw_rf PAYLOAD_TOO_LARGE ''Request body Content-Length exceeds maximum allowed size'')
           else Inr ()) (\<lambda>_.
       case bodyStream of
         None \<Rightarrow> Inr []
       | Some rs \<Rightarrow> bind_res (fst (read_body (maxRequestBodyBytes k) rs [] 0 0)) (\<lambda>chunks. Inr (concat chunks)))"

section \<open>Streamed responses\<close>

datatype stream_end = Closed | Errored exn

text \<open>The wrapped stream, pulled until it closes or fails: what it enqueued and how it ended.\<close>

fun pull_all :: "jsnum \<Rightarrow> 'b read list \<Rightarrow> nat \<Rightarrow> 'b list list \<times> stream_end" where
  "pull_all mx [] emitted = ([], Closed)"
| "pull_all mx (ReadFails e # rs) emitted = ([], Errored e)"
| "pull_all mx (NoValue # rs) emitted = ([], Errored (Foreign ''TypeError''))"
| "pull_all mx (Chunk c # rs) emitted =
     (if num_less mx (byte_num (emitted + length c))
      then ([], Errored (throw_rf PAYLOAD_TOO_LARGE ''Streamed response exceeded maximum allowed size''))
      else (case pull_all mx rs (emitted + length c) of (out, e) \<Rightarrow> (c # out, e)))"

definition wrapResponseStream :: "kill_enforcer \<Rightarrow> 'b read list \<Rightarrow> 'b list list \<times> stream_end" where
  "wrapResponseStream k rs = pull_all (maxStreamedBytes k) rs 0"

section \<open>CPU time and deadline\<close>

definition checkCpuLimit :: "kill_enforcer \<Rightarrow> jsnum \<Rightarrow> unit res" where
  "checkCpuLimit k t =
     (if t = NaN \<or> num_less t (Fin 0) then Inl (throw_rf VALIDATION_FAILED ''Invalid cpuTimeMs'')
      else if num_le (cpuMs k) t then Inl (throw_rf TIMEOUT ''CPU time limit exceeded'')
      else Inr ())"

record abort_timer =
  armed :: bool
  aborted :: bool

datatype timer_event = Fires | Cleanup

definition createAbortController :: abort_timer where
  "createAbortController = \<lparr>armed = True, aborted = False\<rparr>"

fun timer_step :: "timer_event \<Rightarrow> abort_timer \<Rightarrow> abort_timer" where
  "timer_step Fires t = (if armed t then \<lparr>armed = False, aborted = True\<rparr> else t)"
| "timer_step Cleanup t = t\<lparr>armed := False\<rparr>"

section \<open>Exactness\<close>

definition chunks_of :: "'b read list \<Rightarrow> 'b list list" where
  "chunks_of rs = List.map_filter (\<lambda>r. case r of Chunk c \<Rightarrow> Some c | _ \<Rightarrow> None) rs"

definition no_failure :: "'b read list \<Rightarrow> bool" where
  "no_failure rs = list_all (\<lambda>r. case r of ReadFails _ \<Rightarrow> False | _ \<Rightarrow> True) rs"

lemma chunks_of_simps [simp]:
  "chunks_of [] = []" "chunks_of (Chunk c # rs) = c # chunks_of rs" "chunks_of (NoValue # rs) = chunks_of rs"
  "chunks_of (ReadFails e # rs) = chunks_of rs"
  by (simp_all add: chunks_of_def List.map_filter_def)

lemma no_failure_simps [simp]:
  "no_failure []" "no_failure (Chunk c # rs) = no_failure rs" "no_failure (NoValue # rs) = no_failure rs"
  "\<not> no_failure (ReadFails e # rs)"
  by (simp_all add: no_failure_def)

lemma size_mono: "m \<le> n \<Longrightarrow> num_less mx (byte_num m) \<Longrightarrow> num_less mx (byte_num n)"
  by (cases mx) (auto simp: byte_num_def)

lemma read_body_exact:
  assumes "no_failure rs"
  shows "fst (read_body mx rs chunks totalBytes reads) =
    (if rs \<noteq> [] \<and> chunks_of rs \<noteq> [] \<and> num_less mx (byte_num (totalBytes + length (concat (chunks_of rs))))
     then Inl (throw_rf PAYLOAD_TOO_LARGE ''Request body exceeds maximum allowed size'')
     else Inr (chunks @ chunks_of rs))"
  using assms
proof (induction mx rs chunks totalBytes reads rule: read_body.induct)
  case (4 mx c rs chunks totalBytes reads)
  have m: "num_less mx (byte_num (totalBytes + length c)) \<Longrightarrow>
      num_less mx (byte_num (totalBytes + (length c + length (concat (chunks_of rs)))))"
    by (rule size_mono[rotated]) auto
  show ?case
  proof (cases "num_less mx (byte_num (totalBytes + length c))")
    case True
    then show ?thesis using m by simp
  next
    case False
    show ?thesis
    proof (cases "chunks_of rs = []")
      case True
      then show ?thesis using 4 False by simp
    next
      case ne: False
      then have "rs \<noteq> []" by auto
      then show ?thesis using 4 False ne by (simp add: add.assoc)
    qed
  qed
qed auto

lemma read_body_reads:
  "snd (read_body mx rs chunks totalBytes reads) \<le> reads + length rs + 1"
  by (induction mx rs chunks totalBytes reads rule: read_body.induct) auto

lemma read_body_held:
  assumes "fst (read_body mx rs chunks totalBytes reads) = Inr out" "totalBytes = length (concat chunks)"
    and "\<not> num_less mx (byte_num totalBytes)"
  shows "\<not> num_less mx (byte_num (length (concat out)))"
  using assms
proof (induction mx rs chunks totalBytes reads rule: read_body.induct)
  case (4 mx c rs chunks totalBytes reads)
  then show ?case by (auto split: if_splits)
qed auto

text \<open>
  For a body stream that does not fail, a request is accepted exactly when its declared length,
  if any, is a non-negative integer within the limit and the bytes that really arrive are within
  the limit; then the whole body is returned unchanged. A declared length that is no such integer
  fails as VALIDATION_FAILED, and every other refusal is PAYLOAD_TOO_LARGE, whatever length was declared.
\<close>

theorem request_body_exact:
  assumes "no_failure rs" "\<not> num_less (maxRequestBodyBytes k) (Fin 0)"
  shows "validateRequestBody k contentLength (Some rs) =
    (if (\<exists>n. contentLength = Some n \<and> \<not> (num_integer n \<and> num_le (Fin 0) n))
     then Inl (throw_rf VALIDATION_FAILED ''Invalid Content-Length'')
     else if (\<exists>n. contentLength = Some n \<and> num_less (maxRequestBodyBytes k) n)
     then Inl (throw_rf PAYLOAD_TOO_LARGE ''Request body Content-Length exceeds maximum allowed size'')
     else if num_less (maxRequestBodyBytes k) (byte_num (length (concat (chunks_of rs))))
     then Inl (throw_rf PAYLOAD_TOO_LARGE ''Request body exceeds maximum allowed size'')
     else Inr (concat (chunks_of rs)))"
proof -
  have z: "\<not> num_less (maxRequestBodyBytes k) (byte_num 0)" using assms(2) by (simp add: byte_num_def)
  have b: "bind_res (fst (read_body (maxRequestBodyBytes k) rs [] 0 0)) (\<lambda>chunks. Inr (concat chunks)) =
    (if num_less (maxRequestBodyBytes k) (byte_num (length (concat (chunks_of rs))))
     then Inl (throw_rf PAYLOAD_TOO_LARGE ''Request body exceeds maximum allowed size'')
     else Inr (concat (chunks_of rs)))"
    using z by (cases "chunks_of rs = []") (auto simp: read_body_exact[OF assms(1)])
  have i: "(n = NaN \<or> \<not> num_integer n \<or> num_less n (Fin 0)) \<longleftrightarrow> \<not> (num_integer n \<and> num_le (Fin 0) n)" for n
    by (cases n) (auto simp: num_integer_def)
  show ?thesis
  proof (cases contentLength)
    case (Some n)
    then show ?thesis using i[of n] by (simp add: validateRequestBody_def b)
  qed (simp add: validateRequestBody_def b)
qed

definition small_enforcer :: kill_enforcer where
  "small_enforcer = \<lparr>timeoutMs = Fin 1000, cpuMs = Fin 200, maxRequestBodyBytes = Fin 4, maxResponseBodyBytes = Fin 4,
     maxStreamedBytes = Fin 5\<rparr>"

lemma request_body_exact_witness:
  "validateRequestBody small_enforcer (Some (Fin 2)) (Some [Chunk [1 :: int, 2], NoValue, Chunk [3, 4]]) = Inr [1, 2, 3, 4] \<and>
   isl (validateRequestBody small_enforcer (Some (Fin 2)) (Some [Chunk [1 :: int, 2], Chunk [3, 4, 5]]))"
proof -
  have k: "\<not> num_less (maxRequestBodyBytes small_enforcer) (Fin 0)" by (simp add: small_enforcer_def)
  have i: "num_integer (Fin 2)" by code_simp
  have "validateRequestBody small_enforcer (Some (Fin 2)) (Some [Chunk [1 :: int, 2], NoValue, Chunk [3, 4]]) = Inr [1, 2, 3, 4]"
    by (subst request_body_exact) (use k i in \<open>auto simp: small_enforcer_def byte_num_def\<close>)
  moreover have "isl (validateRequestBody small_enforcer (Some (Fin 2)) (Some [Chunk [1 :: int, 2], Chunk [3, 4, 5]]))"
    by (subst request_body_exact) (use k i in \<open>auto simp: small_enforcer_def byte_num_def\<close>)
  ultimately show ?thesis by blast
qed

text \<open>
  The wrapped response stream: what it emits is a prefix of the chunks of its source within the
  cap; it closes exactly when the source ends normally and fits, and then has emitted everything.
\<close>

lemma pull_all_prefix: "prefix (fst (pull_all mx rs n)) (chunks_of rs)"
  by (induction mx rs n rule: pull_all.induct) (auto split: prod.split)

lemma pull_all_cap:
  "\<not> num_less mx (byte_num n) \<Longrightarrow> \<not> num_less mx (byte_num (n + length (concat (fst (pull_all mx rs n)))))"
  by (induction mx rs n rule: pull_all.induct) (auto split: prod.splits simp: add.assoc)

lemma pull_all_closed:
  "snd (pull_all mx rs n) = Closed \<Longrightarrow> fst (pull_all mx rs n) = chunks_of rs \<and> no_failure rs"
  by (induction mx rs n rule: pull_all.induct) (auto split: prod.splits if_splits)

lemma pull_all_fits:
  assumes "list_all (\<lambda>r. \<exists>c. r = Chunk c) rs" "\<not> num_less mx (byte_num (n + length (concat (chunks_of rs))))"
  shows "snd (pull_all mx rs n) = Closed"
  using assms
proof (induction mx rs n rule: pull_all.induct)
  case (4 mx c rs n)
  have "\<not> num_less mx (byte_num (n + length c))"
    using 4(3) size_mono[of "n + length c" "n + (length c + length (concat (chunks_of rs)))" mx] by auto
  then show ?case using 4 by (auto simp: add.assoc split: prod.splits)
qed auto

theorem streamed_response_capped:
  assumes "\<not> num_less (maxStreamedBytes k) (Fin 0)"
  shows "prefix (fst (wrapResponseStream k rs)) (chunks_of rs) \<and>
    \<not> num_less (maxStreamedBytes k) (byte_num (length (concat (fst (wrapResponseStream k rs))))) \<and>
    (snd (wrapResponseStream k rs) = Closed \<longrightarrow> fst (wrapResponseStream k rs) = chunks_of rs) \<and>
    (list_all (\<lambda>r. \<exists>c. r = Chunk c) rs \<and> \<not> num_less (maxStreamedBytes k) (byte_num (length (concat (chunks_of rs))))
      \<longrightarrow> snd (wrapResponseStream k rs) = Closed)"
  using pull_all_prefix[of "maxStreamedBytes k" rs 0] pull_all_cap[of "maxStreamedBytes k" 0 rs]
    pull_all_closed[of "maxStreamedBytes k" rs 0] pull_all_fits[of rs "maxStreamedBytes k" 0] assms
  by (simp add: wrapResponseStream_def byte_num_def)

section \<open>Killing on CPU time and at the deadline\<close>

lemma cpu_limit_exact:
  assumes "t = Fin a" "0 \<le> a" "cpuMs k = Fin c"
  shows "checkCpuLimit k t = (if c \<le> a then Inl (throw_rf TIMEOUT ''CPU time limit exceeded'') else Inr ())"
  using assms by (simp add: checkCpuLimit_def)

lemma cleaned_up_stays: "\<not> armed t \<Longrightarrow> aborted (foldl (\<lambda>t e. timer_step e t) t es) = aborted t"
proof (induction es arbitrary: t)
  case (Cons e es)
  then show ?case by (cases e) auto
qed simp

lemma deadline_only_before_cleanup:
  "aborted (foldl (\<lambda>t e. timer_step e t) createAbortController es) \<longleftrightarrow> (\<exists>es'. es = Fires # es')"
proof (cases es)
  case (Cons e es')
  then show ?thesis
    using cleaned_up_stays[of "timer_step e createAbortController" es']
    by (cases e) (auto simp: createAbortController_def)
qed (simp add: createAbortController_def)

end
