(* ===== verification/Deployment.thy ===== *)
theory Deployment
  imports Snapshot
begin

text \<open>
  \<open>apps/api/deployment-service.ts\<close> and \<open>apps/api/health-checker.ts\<close>: revisions, active pointers, the
  deployment pipeline with its health gate, rollback, restore, and persistence of the state. The
  hash of an artifact, clock readings, random bytes, the outcome of a storage write and of every
  probe are arguments. \<open>deploy\<close> awaits its storage write and its probes, so it is modelled in two
  parts, before and after, between which other operations run.

  Shown: an active pointer always names a deployed revision of its function whose artifact is
  stored; the newest healthy revision wins whatever order deployments finish in; a rollback flips
  the pointer or changes nothing; the health check passes only on consecutive successes within the
  deadline and ends; the state survives a restart; a restore can activate a failed revision.
\<close>

section \<open>State\<close>

record deployments =
  revisions :: "(string, (string, (string, RevisionRecord) omap) omap) omap"
  activePointers :: "(string, (string, string) omap) omap"
  projectRoutes :: "(string, (string \<times> string) list) omap"
  projectMetadata :: "(string, ProjectMetadata) omap"
  lastTimestamp :: int
  persistQueued :: bool

definition no_deployments :: deployments where
  "no_deployments = \<lparr>revisions = [], activePointers = [], projectRoutes = [], projectMetadata = [],
     lastTimestamp = 0, persistQueued = False\<rparr>"

definition schedulePersist :: "deployments \<Rightarrow> deployments" where
  "schedulePersist s = s\<lparr>persistQueued := True\<rparr>"

definition nextMonotonicTimestamp :: "int \<Rightarrow> deployments \<Rightarrow> deployments" where
  "nextMonotonicTimestamp now s =
     s\<lparr>lastTimestamp := if now \<le> lastTimestamp s then lastTimestamp s + 1 else now\<rparr>"

text \<open>Nested maps: a missing inner map reads as empty.\<close>

definition inner :: "('k, ('l, 'v) omap) omap \<Rightarrow> 'k \<Rightarrow> ('l, 'v) omap" where
  "inner m k = (case oget m k of None \<Rightarrow> [] | Some i \<Rightarrow> i)"

definition getActivePointer :: "deployments \<Rightarrow> string \<Rightarrow> string \<Rightarrow> string option" where
  "getActivePointer s project fn = oget (inner (activePointers s) project) fn"

definition setActivePointer :: "string \<Rightarrow> string \<Rightarrow> string \<Rightarrow> deployments \<Rightarrow> deployments" where
  "setActivePointer project fn i s =
     s\<lparr>activePointers := oset project (oset fn i (inner (activePointers s) project)) (activePointers s)\<rparr>"

definition saveRevisionRecord :: "string \<Rightarrow> string \<Rightarrow> RevisionRecord \<Rightarrow> deployments \<Rightarrow> deployments" where
  "saveRevisionRecord project fn r s =
     (let fnMap = inner (revisions s) project; revMap = inner fnMap fn in
      s\<lparr>revisions := oset project (oset fn (oset (rev_id r) r revMap) fnMap) (revisions s)\<rparr>)"

definition getRevision :: "deployments \<Rightarrow> string \<Rightarrow> string \<Rightarrow> string \<Rightarrow> RevisionRecord option" where
  "getRevision s project fn i = oget (inner (inner (revisions s) project) fn) i"

definition getActiveRevision :: "deployments \<Rightarrow> string \<Rightarrow> string \<Rightarrow> RevisionRecord option" where
  "getActiveRevision s project fn =
     (case getActivePointer s project fn of
        None \<Rightarrow> None
      | Some i \<Rightarrow> if i = [] then None else getRevision s project fn i)"

definition listFunctions :: "deployments \<Rightarrow> string \<Rightarrow> string list" where
  "listFunctions s project = map fst (inner (revisions s) project)"

definition listRevisions :: "deployments \<Rightarrow> string \<Rightarrow> string \<Rightarrow> RevisionRecord list" where
  "listRevisions s project fn = map snd (inner (inner (revisions s) project) fn)"

section \<open>Health check\<close>

text \<open>The default gate: up to three probes, each must resolve to true.\<close>

definition REQUIRED_HEALTHY_PROBES :: nat where "REQUIRED_HEALTHY_PROBES = 3"

fun probe_loop :: "(nat \<Rightarrow> bool res) \<Rightarrow> nat \<Rightarrow> nat \<Rightarrow> bool" where
  "probe_loop probe i 0 = True"
| "probe_loop probe i (Suc n) =
     (case probe i of Inr True \<Rightarrow> probe_loop probe (Suc i) n | _ \<Rightarrow> False)"

record HealthProbeOptions =
  consecutiveSuccessesRequired :: int
  totalTimeoutMs :: int
  probeIntervalMs :: int

definition DEFAULT_HEALTH_OPTIONS :: HealthProbeOptions where
  "DEFAULT_HEALTH_OPTIONS = \<lparr>consecutiveSuccessesRequired = 3, totalTimeoutMs = 30000, probeIntervalMs = 1000\<rparr>"

record HealthCheckResult =
  passed :: bool
  consecutiveSuccesses :: int
  probesAttempted :: nat
  elapsedMs :: int

text \<open>
  The probe loop of \<open>executeHealthCheck\<close>. The \<open>n\<close>-th fetch takes \<open>fst (fetch n)\<close> milliseconds (a fetch
  that is aborted at the probe timeout takes that long) and gives a status or an error; time
  passes only in fetches and sleeps. The first argument is fuel.
\<close>

fun health_loop ::
  "nat \<Rightarrow> HealthProbeOptions \<Rightarrow> (nat \<Rightarrow> int \<times> int res) \<Rightarrow> int \<Rightarrow> int \<Rightarrow> int \<Rightarrow> nat \<Rightarrow> HealthCheckResult option" where
  "health_loop 0 opts fetch startTime t consec n = None"
| "health_loop (Suc fuel) opts fetch startTime t consec n =
     (let deadline = startTime + totalTimeoutMs opts in
      if t < deadline then
        let t1 = t + fst (fetch n);
            consec' = (if snd (fetch n) = Inr 200 then consec + 1 else 0) in
        if snd (fetch n) = Inr 200 \<and> consecutiveSuccessesRequired opts \<le> consec'
        then Some \<lparr>passed = True, consecutiveSuccesses = consec', probesAttempted = n + 1, elapsedMs = t1 - startTime\<rparr>
        else let sleepTime = max 0 (min (probeIntervalMs opts - fst (fetch n)) (deadline - t1)) in
             health_loop fuel opts fetch startTime (t1 + sleepTime) consec' (n + 1)
      else Some \<lparr>passed = False, consecutiveSuccesses = consec, probesAttempted = n, elapsedMs = t - startTime\<rparr>)"

definition executeHealthCheck :: "nat \<Rightarrow> HealthProbeOptions \<Rightarrow> (nat \<Rightarrow> int \<times> int res) \<Rightarrow> int \<Rightarrow> HealthCheckResult option" where
  "executeHealthCheck fuel opts fetch startTime = health_loop fuel opts fetch startTime startTime 0 0"

section \<open>Deploying\<close>

record PackagedArtifact =
  art_id :: string
  art_integrity :: string
  art_bytes :: "int list"
  art_manifest :: "Manifest option"

record DeploymentResult =
  res_revisionId :: string
  res_state :: RevisionState
  res_active :: bool

definition REVISION_ID_PREFIX :: string where "REVISION_ID_PREFIX = ''rev_''"
definition ARTIFACT_STORAGE_PREFIX :: string where "ARTIFACT_STORAGE_PREFIX = ''artifacts/''"

definition lower_hex :: "char \<Rightarrow> bool" where
  "lower_hex c = (is_digit c \<or> 97 \<le> (of_char c :: nat) \<and> (of_char c :: nat) \<le> 102)"

definition ARTIFACT_ID_REGEX :: "string \<Rightarrow> bool" where
  "ARTIFACT_ID_REGEX s = (take 7 s = ''sha256:'' \<and> length s = 71 \<and> list_all lower_hex (drop 7 s))"

record hashing =
  computeArtifactId :: "int list \<Rightarrow> string"
  computeIntegrity :: "int list \<Rightarrow> string"

text \<open>Up to the storage write: the revision in state Building and the advanced clock.\<close>

definition deploy_begin ::
  "hashing \<Rightarrow> string \<Rightarrow> string \<Rightarrow> PackagedArtifact \<Rightarrow> int \<Rightarrow> int list \<Rightarrow> deployments \<Rightarrow> (RevisionRecord \<times> deployments) res" where
  "deploy_begin hs project fn art now bytes s =
     (if \<not> ARTIFACT_ID_REGEX (art_id art)
      then Inl (throw_rf VALIDATION_FAILED ''VALIDATION_FAILED: Invalid artifact ID format (OBJ-4)'')
      else if art_id art \<noteq> computeArtifactId hs (art_bytes art) \<or> art_integrity art \<noteq> computeIntegrity hs (art_bytes art)
      then Inl (throw_rf VALIDATION_FAILED ''VALIDATION_FAILED: Artifact integrity or ID mismatch (OBJ-4)'')
      else let s1 = nextMonotonicTimestamp now s; createdAt = lastTimestamp s1 in
           Inr (\<lparr>rev_id = REVISION_ID_PREFIX @ generateUlid createdAt bytes, rev_project = project,
                 rev_functionName = fn, rev_artifactId = art_id art, rev_integrity = art_integrity art,
                 rev_state = Building, rev_createdAt = createdAt, rev_manifest = art_manifest art\<rparr>, s1))"

text \<open>After the probes: record the revision and, when healthy and not superseded, activate it.\<close>

definition deploy_finish ::
  "string \<Rightarrow> string \<Rightarrow> RevisionRecord \<Rightarrow> bool \<Rightarrow> deployments \<Rightarrow> DeploymentResult \<times> deployments" where
  "deploy_finish project fn r healthy s =
     (if healthy then
        let s1 = saveRevisionRecord project fn (r\<lparr>rev_state := Deployed\<rparr>) s;
            current = getActivePointer s1 project fn;
            act = (case current of None \<Rightarrow> True | Some c \<Rightarrow> c = [] \<or> c \<le> rev_id r);
            s2 = (if act then setActivePointer project fn (rev_id r) s1 else s1) in
        (\<lparr>res_revisionId = rev_id r, res_state = Deployed, res_active = act\<rparr>, schedulePersist s2)
      else
        (\<lparr>res_revisionId = rev_id r, res_state = Failed, res_active = False\<rparr>,
         schedulePersist (saveRevisionRecord project fn (r\<lparr>rev_state := Failed\<rparr>) s)))"

section \<open>Rollback, restore and the other operations\<close>

definition rollback :: "string \<Rightarrow> string \<Rightarrow> string \<Rightarrow> deployments \<Rightarrow> (string \<times> string) res \<times> deployments" where
  "rollback project fn target s =
     (case getRevision s project fn target of
        None \<Rightarrow> (Inl (throw_rf RESOURCE_NOT_FOUND ''RESOURCE_NOT_FOUND: Revision not found for project and function (PLAT-12)''), s)
      | Some r \<Rightarrow>
          if rev_state r \<noteq> Deployed
          then (Inl (throw_rf VALIDATION_FAILED ''VALIDATION_FAILED: Cannot rollback to a revision that is not Deployed (PLAT-3)''), s)
          else (Inr (or_default (getActivePointer s project fn) [], target),
                schedulePersist (setActivePointer project fn target s)))"

definition restoreRevision :: "string \<Rightarrow> string \<Rightarrow> RevisionRecord \<Rightarrow> bool \<Rightarrow> deployments \<Rightarrow> unit res \<times> deployments" where
  "restoreRevision project fn r isActive s =
     (let activate = (\<lambda>s1. (Inr (), if isActive then schedulePersist (setActivePointer project fn (rev_id r) s1) else s1)) in
      case getRevision s project fn (rev_id r) of
        Some e \<Rightarrow>
          if rev_artifactId e \<noteq> rev_artifactId r
          then (Inl (throw_rf CONFLICT ''CONFLICT: Revision already exists with conflicting artifactId (FN-3, PLAT-12)''), s)
          else activate s
      | None \<Rightarrow> activate (saveRevisionRecord project fn (r\<lparr>rev_project := project, rev_functionName := fn\<rparr>) s))"

definition setProjectRoutes :: "string \<Rightarrow> (string \<times> string) list \<Rightarrow> deployments \<Rightarrow> deployments" where
  "setProjectRoutes project rs s = schedulePersist (s\<lparr>projectRoutes := oset project rs (projectRoutes s)\<rparr>)"

definition getProjectRoutes :: "deployments \<Rightarrow> string \<Rightarrow> (string \<times> string) list option" where
  "getProjectRoutes s project = oget (projectRoutes s) project"

definition setProjectMetadata :: "string \<Rightarrow> ProjectMetadata \<Rightarrow> deployments \<Rightarrow> deployments" where
  "setProjectMetadata project m s = schedulePersist (s\<lparr>projectMetadata := oset project m (projectMetadata s)\<rparr>)"

definition getProjectMetadata :: "deployments \<Rightarrow> string \<Rightarrow> ProjectMetadata option" where
  "getProjectMetadata s project = oget (projectMetadata s) project"

definition listProjects :: "deployments \<Rightarrow> string list" where
  "listProjects s = sort (remdups (map fst (revisions s) @ map fst (activePointers s) @ map fst (projectRoutes s)))"

definition deleteProject :: "string \<Rightarrow> deployments \<Rightarrow> bool \<times> deployments" where
  "deleteProject project s =
     (let had = (oget (revisions s) project \<noteq> None \<or> oget (activePointers s) project \<noteq> None \<or>
                 oget (projectRoutes s) project \<noteq> None \<or> oget (projectMetadata s) project \<noteq> None);
          s1 = s\<lparr>revisions := odel project (revisions s), activePointers := odel project (activePointers s),
                 projectRoutes := odel project (projectRoutes s), projectMetadata := odel project (projectMetadata s)\<rparr> in
      (had, if had then schedulePersist s1 else s1))"

text \<open>What the control server reads for a snapshot of a project.\<close>

definition service_readings :: "deployments \<Rightarrow> string \<Rightarrow> readings" where
  "service_readings s project =
     \<lparr>dep_functions = listFunctions s project, dep_active = getActiveRevision s project,
      dep_routes = getProjectRoutes s project, dep_metadata = getProjectMetadata s project\<rparr>"

section \<open>Persistence\<close>

text \<open>The serialized form: maps as lists of entries, the records of a function as a list of values.\<close>

record persisted =
  p_revisions :: "(string \<times> (string \<times> RevisionRecord list) list) list"
  p_activePointers :: "(string \<times> (string \<times> string) list) list"
  p_projectRoutes :: "(string \<times> (string \<times> string) list) list"
  p_projectMetadata :: "(string \<times> ProjectMetadata) list"

definition persist_snapshot :: "deployments \<Rightarrow> persisted" where
  "persist_snapshot s =
     \<lparr>p_revisions = map (\<lambda>(p, fnMap). (p, map (\<lambda>(fn, revMap). (fn, map snd revMap)) fnMap)) (revisions s),
      p_activePointers = activePointers s, p_projectRoutes = projectRoutes s, p_projectMetadata = projectMetadata s\<rparr>"

text \<open>\<open>new Map(entries)\<close>.\<close>

definition map_of_entries :: "('k \<times> 'v) list \<Rightarrow> ('k, 'v) omap" where
  "map_of_entries es = foldl (\<lambda>m (k, v). oset k v m) [] es"

definition hydrate :: "persisted option \<Rightarrow> deployments" where
  "hydrate file =
     (case file of
        None \<Rightarrow> no_deployments
      | Some p \<Rightarrow> no_deployments\<lparr>
          revisions := map_of_entries (map (\<lambda>(p, fnMap).
            (p, map_of_entries (map (\<lambda>(fn, records). (fn, map_of_entries (map (\<lambda>r. (rev_id r, r)) records))) fnMap))) (p_revisions p)),
          activePointers := map_of_entries (map (\<lambda>(p, fnMap). (p, map_of_entries fnMap)) (p_activePointers p)),
          projectRoutes := map_of_entries (p_projectRoutes p),
          projectMetadata := map_of_entries (p_projectMetadata p)\<rparr>)"

section \<open>Interleaved operations\<close>

text \<open>
  A deployment in flight: its project and function, its revision, its bytes, and whether the
  storage write has completed.
\<close>

record in_flight =
  fl_project :: string
  fl_function :: string
  fl_revision :: RevisionRecord
  fl_bytes :: "int list"
  fl_stored :: bool

record control_plane =
  svc :: deployments
  in_flight :: "in_flight list"
  storage :: "(string, int list) omap"

datatype dep_event =
    Begin string string PackagedArtifact int "int list"
  | Put nat bool
  | Finish nat bool
  | Rollback string string string
  | Restore string string RevisionRecord bool
  | Delete string
  | SetRoutes string "(string \<times> string) list"
  | SetMetadata string ProjectMetadata

definition drop_nth :: "nat \<Rightarrow> 'a list \<Rightarrow> 'a list" where
  "drop_nth i xs = take i xs @ drop (Suc i) xs"

fun dep_step :: "hashing \<Rightarrow> dep_event \<Rightarrow> control_plane \<Rightarrow> control_plane" where
  "dep_step hs (Begin p f a now bytes) c =
     (case deploy_begin hs p f a now bytes (svc c) of
        Inl e \<Rightarrow> c
      | Inr (r, s) \<Rightarrow> c\<lparr>svc := s, in_flight := in_flight c @ [\<lparr>fl_project = p, fl_function = f, fl_revision = r,
          fl_bytes = art_bytes a, fl_stored = False\<rparr>]\<rparr>)"
| "dep_step hs (Put i ok) c =
     (if i < length (in_flight c) then
        let d = in_flight c ! i in
        if ok then c\<lparr>storage := oset (ARTIFACT_STORAGE_PREFIX @ rev_artifactId (fl_revision d)) (fl_bytes d) (storage c),
                     in_flight := (in_flight c)[i := d\<lparr>fl_stored := True\<rparr>]\<rparr>
        else c\<lparr>in_flight := drop_nth i (in_flight c)\<rparr>
      else c)"
| "dep_step hs (Finish i healthy) c =
     (if i < length (in_flight c) \<and> fl_stored (in_flight c ! i) then
        let d = in_flight c ! i in
        c\<lparr>svc := snd (deploy_finish (fl_project d) (fl_function d) (fl_revision d) healthy (svc c)),
          in_flight := drop_nth i (in_flight c)\<rparr>
      else c)"
| "dep_step hs (Rollback p f i) c = c\<lparr>svc := snd (rollback p f i (svc c))\<rparr>"
| "dep_step hs (Restore p f r act) c = c\<lparr>svc := snd (restoreRevision p f r act (svc c))\<rparr>"
| "dep_step hs (Delete p) c = c\<lparr>svc := snd (deleteProject p (svc c))\<rparr>"
| "dep_step hs (SetRoutes p rs) c = c\<lparr>svc := setProjectRoutes p rs (svc c)\<rparr>"
| "dep_step hs (SetMetadata p m) c = c\<lparr>svc := setProjectMetadata p m (svc c)\<rparr>"

definition fresh_plane :: control_plane where
  "fresh_plane = \<lparr>svc = no_deployments, in_flight = [], storage = []\<rparr>"

definition saved :: "deployments \<Rightarrow> string \<Rightarrow> bool" where
  "saved s i = (\<exists>p f. getRevision s p f i \<noteq> None)"

text \<open>
  What is assumed of an event: a new identifier is unused, the artifact of a restored deployed
  revision is stored, and a restore that activates names a deployed revision.
\<close>

fun dep_event_ok :: "hashing \<Rightarrow> dep_event \<Rightarrow> control_plane \<Rightarrow> bool" where
  "dep_event_ok hs (Begin p f a now bytes) c =
     (case deploy_begin hs p f a now bytes (svc c) of
        Inl e \<Rightarrow> True
      | Inr (r, s) \<Rightarrow> \<not> saved (svc c) (rev_id r) \<and> rev_id r \<notin> rev_id ` fl_revision ` set (in_flight c))"
| "dep_event_ok hs (Restore p f r act) c =
     (rev_id r \<notin> rev_id ` fl_revision ` set (in_flight c) \<and>
      (rev_state r = Deployed \<longrightarrow> oget (storage c) (ARTIFACT_STORAGE_PREFIX @ rev_artifactId r) \<noteq> None) \<and>
      (act \<longrightarrow> rev_state r = Deployed \<and>
         (case getRevision (svc c) p f (rev_id r) of Some e \<Rightarrow> rev_state e = Deployed | None \<Rightarrow> True)))"
| "dep_event_ok hs _ c = True"

inductive dep_reach :: "hashing \<Rightarrow> control_plane \<Rightarrow> bool" for hs where
  start: "dep_reach hs fresh_plane"
| event: "dep_reach hs c \<Longrightarrow> dep_event_ok hs e c \<Longrightarrow> dep_reach hs (dep_step hs e c)"

section \<open>Reading back\<close>

lemma inner_oset [simp]: "inner (oset k v m) k' = (if k' = k then v else inner m k')"
  by (simp add: inner_def)

lemma inner_odel [simp]: "inner (odel k m) k' = (if k' = k then [] else inner m k')"
  by (simp add: inner_def)

lemma getRevision_save [simp]:
  "getRevision (saveRevisionRecord p f r s) p' f' i = (if p' = p \<and> f' = f \<and> i = rev_id r then Some r else getRevision s p' f' i)"
  by (simp add: getRevision_def saveRevisionRecord_def Let_def)

lemma getActivePointer_set [simp]:
  "getActivePointer (setActivePointer p f i s) p' f' = (if p' = p \<and> f' = f then Some i else getActivePointer s p' f')"
  by (simp add: getActivePointer_def setActivePointer_def)

lemma getRevision_frame [simp]:
  "getRevision (setActivePointer p f i s) = getRevision s" "getRevision (schedulePersist s) = getRevision s"
  "getRevision (nextMonotonicTimestamp now s) = getRevision s" "getRevision (setProjectRoutes p rs s) = getRevision s"
  "getRevision (setProjectMetadata p m s) = getRevision s"
  by (simp_all add: fun_eq_iff getRevision_def setActivePointer_def schedulePersist_def nextMonotonicTimestamp_def
      setProjectRoutes_def setProjectMetadata_def)

lemma getActivePointer_frame [simp]:
  "getActivePointer (saveRevisionRecord p f r s) = getActivePointer s" "getActivePointer (schedulePersist s) = getActivePointer s"
  "getActivePointer (nextMonotonicTimestamp now s) = getActivePointer s" "getActivePointer (setProjectRoutes p rs s) = getActivePointer s"
  "getActivePointer (setProjectMetadata p m s) = getActivePointer s"
  by (simp_all add: fun_eq_iff getActivePointer_def saveRevisionRecord_def schedulePersist_def nextMonotonicTimestamp_def
      setProjectRoutes_def setProjectMetadata_def Let_def)

lemma delete_reads [simp]:
  "getRevision (snd (deleteProject p s)) p' f i = (if p' = p then None else getRevision s p' f i)"
  "getActivePointer (snd (deleteProject p s)) p' f = (if p' = p then None else getActivePointer s p' f)"
  by (simp_all add: deleteProject_def Let_def getRevision_def getActivePointer_def schedulePersist_def inner_def split: option.split)

lemma empty_reads [simp]: "getRevision no_deployments p f i = None" "getActivePointer no_deployments p f = None"
  by (simp_all add: getRevision_def getActivePointer_def no_deployments_def inner_def)

section \<open>Active revisions are deployed\<close>

definition has_artifact :: "control_plane \<Rightarrow> RevisionRecord \<Rightarrow> bool" where
  "has_artifact c r = (oget (storage c) (ARTIFACT_STORAGE_PREFIX @ rev_artifactId r) \<noteq> None)"

definition active_ok :: "control_plane \<Rightarrow> bool" where
  "active_ok c =
     ((\<forall>p f i. getActivePointer (svc c) p f = Some i \<longrightarrow> (\<exists>r. getRevision (svc c) p f i = Some r \<and> rev_state r = Deployed)) \<and>
      (\<forall>p f i r. getRevision (svc c) p f i = Some r \<and> rev_state r = Deployed \<longrightarrow> has_artifact c r))"

definition flights_ok :: "control_plane \<Rightarrow> bool" where
  "flights_ok c = (distinct (map (rev_id \<circ> fl_revision) (in_flight c)) \<and>
     (\<forall>d \<in> set (in_flight c). \<not> saved (svc c) (rev_id (fl_revision d)) \<and> (fl_stored d \<longrightarrow> has_artifact c (fl_revision d))))"

lemma distinct_drop_nth: "distinct (map g xs) \<Longrightarrow> distinct (map g (drop_nth i xs))"
proof -
  assume "distinct (map g xs)"
  then have "distinct (take i (map g xs) @ drop (Suc i) (map g xs))"
    by (auto simp: set_take_disj_set_drop_if_distinct)
  then show ?thesis by (simp add: drop_nth_def take_map drop_map)
qed

lemma set_drop_nth: "set (drop_nth i xs) \<subseteq> set xs"
  by (auto simp: drop_nth_def dest: in_set_takeD in_set_dropD)

lemma drop_nth_other:
  assumes "distinct (map g xs)" "i < length xs" "d \<in> set (drop_nth i xs)"
  shows "g d \<noteq> g (xs ! i)"
proof -
  have "xs = take i xs @ xs ! i # drop (Suc i) xs" using assms(2) by (simp add: id_take_nth_drop)
  then have "distinct (map g (take i xs @ xs ! i # drop (Suc i) xs))" using assms(1) by metis
  then have "g (xs ! i) \<notin> g ` set (drop_nth i xs)" by (simp add: drop_nth_def image_Un)
  then show ?thesis using assms(3) by (metis image_eqI)
qed

lemma deploy_begin_Inr:
  assumes "deploy_begin hs p f a now bytes s = Inr (r, s')"
  shows "s' = nextMonotonicTimestamp now s" "rev_id r = REVISION_ID_PREFIX @ generateUlid (lastTimestamp s') bytes"
    "rev_artifactId r = art_id a" "art_id a = computeArtifactId hs (art_bytes a)" "rev_createdAt r = lastTimestamp s'"
  using assms by (auto simp: deploy_begin_def Let_def split: if_splits)

lemma begin_keeps:
  assumes "active_ok c" "flights_ok c" "dep_event_ok hs (Begin p f a now bytes) c"
  shows "active_ok (dep_step hs (Begin p f a now bytes) c) \<and> flights_ok (dep_step hs (Begin p f a now bytes) c)"
proof (cases "deploy_begin hs p f a now bytes (svc c)")
  case (Inr x)
  obtain r s where x: "x = (r, s)" by fastforce
  have s: "s = nextMonotonicTimestamp now (svc c)" using deploy_begin_Inr(1) Inr x by blast
  show ?thesis using assms Inr x s
    by (auto simp: active_ok_def flights_ok_def has_artifact_def saved_def image_comp)
qed (use assms in simp)

lemma put_keeps:
  assumes "active_ok c" "flights_ok c"
  shows "active_ok (dep_step hs (Put i ok) c) \<and> flights_ok (dep_step hs (Put i ok) c)"
proof (cases "i < length (in_flight c) \<and> ok")
  case True
  let ?d = "in_flight c ! i"
  have m: "map (rev_id \<circ> fl_revision) ((in_flight c)[i := ?d\<lparr>fl_stored := True\<rparr>]) = map (rev_id \<circ> fl_revision) (in_flight c)"
    using True by (intro nth_equalityI) (auto simp: nth_list_update)
  have "d \<in> set (in_flight c) \<or> d = ?d\<lparr>fl_stored := True\<rparr>" if "d \<in> set ((in_flight c)[i := ?d\<lparr>fl_stored := True\<rparr>])" for d
    using that set_update_subset_insert by fastforce
  moreover have "?d \<in> set (in_flight c)" using True by simp
  ultimately show ?thesis using assms True m
    by (fastforce simp: active_ok_def flights_ok_def has_artifact_def Let_def)
next
  case False
  then show ?thesis using assms distinct_drop_nth set_drop_nth
    by (fastforce simp: active_ok_def flights_ok_def has_artifact_def Let_def)
qed

lemma finish_keeps:
  assumes "active_ok c" "flights_ok c"
  shows "active_ok (dep_step hs (Finish i h) c) \<and> flights_ok (dep_step hs (Finish i h) c)"
proof (cases "i < length (in_flight c) \<and> fl_stored (in_flight c ! i)")
  case True
  define d where "d = in_flight c ! i"
  have d: "d \<in> set (in_flight c)" using True by (simp add: d_def)
  have n: "\<not> saved (svc c) (rev_id (fl_revision d))" "has_artifact c (fl_revision d)"
    using assms(2) d True by (auto simp: flights_ok_def d_def)
  have o: "rev_id (fl_revision e) \<noteq> rev_id (fl_revision d)" if "e \<in> set (drop_nth i (in_flight c))" for e
    using drop_nth_other[of "rev_id \<circ> fl_revision" "in_flight c" i e] assms(2) True that
    by (simp add: flights_ok_def d_def)
  define s where "s = snd (deploy_finish (fl_project d) (fl_function d) (fl_revision d) h (svc c))"
  have rev: "getRevision s p f j = (if p = fl_project d \<and> f = fl_function d \<and> j = rev_id (fl_revision d)
      then Some ((fl_revision d)\<lparr>rev_state := if h then Deployed else Failed\<rparr>) else getRevision (svc c) p f j)" for p f j
    by (simp add: s_def deploy_finish_def Let_def)
  have ptr: "getActivePointer s p f = getActivePointer (svc c) p f \<or>
      h \<and> p = fl_project d \<and> f = fl_function d \<and> getActivePointer s p f = Some (rev_id (fl_revision d))" for p f
    by (auto simp: s_def deploy_finish_def Let_def)
  have st: "dep_step hs (Finish i h) c = c\<lparr>svc := s, in_flight := drop_nth i (in_flight c)\<rparr>"
    using True by (simp add: s_def d_def Let_def)
  have "\<exists>r. getRevision s p f j = Some r \<and> rev_state r = Deployed" if a: "getActivePointer s p f = Some j" for p f j
  proof (cases "getActivePointer (svc c) p f = Some j")
    case old: True
    then obtain r where r: "getRevision (svc c) p f j = Some r" "rev_state r = Deployed"
      using assms(1) unfolding active_ok_def by blast
    then have "j \<noteq> rev_id (fl_revision d)" using n(1) by (auto simp: saved_def)
    then show ?thesis using r rev by simp
  next
    case False
    then show ?thesis using a ptr[of p f] rev by auto
  qed
  moreover have "has_artifact c r" if "getRevision s p f j = Some r" "rev_state r = Deployed" for p f j r
    using that rev[of p f j] n(2) assms(1) unfolding active_ok_def by (auto simp: has_artifact_def split: if_splits)
  ultimately have "active_ok (dep_step hs (Finish i h) c)"
    unfolding active_ok_def st by (simp add: has_artifact_def) blast
  moreover have "flights_ok (dep_step hs (Finish i h) c)"
    unfolding st
    using assms(2) distinct_drop_nth[of "rev_id \<circ> fl_revision" "in_flight c" i] set_drop_nth[of i "in_flight c"] o
    by (auto simp: flights_ok_def has_artifact_def saved_def rev)
  ultimately show ?thesis by blast
qed (use assms in auto)

lemma rollback_keeps:
  assumes "active_ok c" "flights_ok c"
  shows "active_ok (dep_step hs (Rollback p f i) c) \<and> flights_ok (dep_step hs (Rollback p f i) c)"
  using assms by (auto simp: rollback_def active_ok_def flights_ok_def has_artifact_def saved_def split: option.split)

lemma restore_keeps:
  assumes "active_ok c" "flights_ok c" "dep_event_ok hs (Restore p f r act) c"
  shows "active_ok (dep_step hs (Restore p f r act) c) \<and> flights_ok (dep_step hs (Restore p f r act) c)"
proof -
  have n: "rev_id (fl_revision d) \<noteq> rev_id r" if "d \<in> set (in_flight c)" for d
    using assms(3) that by (metis dep_event_ok.simps(2) image_eqI)
  show ?thesis
  proof (cases "getRevision (svc c) p f (rev_id r)")
    case None
    then have "getActivePointer (svc c) p f \<noteq> Some (rev_id r)" using assms(1) by (metis active_ok_def option.distinct(1))
    then show ?thesis using None assms n
      by (auto simp: restoreRevision_def Let_def active_ok_def flights_ok_def has_artifact_def saved_def)
  next
    case (Some e)
    then show ?thesis using assms n
      by (auto simp: restoreRevision_def Let_def active_ok_def flights_ok_def has_artifact_def saved_def)
  qed
qed

lemma delete_keeps:
  assumes "active_ok c" "flights_ok c"
  shows "active_ok (dep_step hs (Delete p) c) \<and> flights_ok (dep_step hs (Delete p) c)"
  using assms by (auto simp: active_ok_def flights_ok_def has_artifact_def saved_def)

lemma settings_keep:
  assumes "active_ok c" "flights_ok c"
  shows "active_ok (dep_step hs (SetRoutes p rs) c) \<and> flights_ok (dep_step hs (SetRoutes p rs) c)"
    "active_ok (dep_step hs (SetMetadata p m) c) \<and> flights_ok (dep_step hs (SetMetadata p m) c)"
  using assms by (auto simp: active_ok_def flights_ok_def has_artifact_def saved_def)

lemma dep_step_keeps:
  assumes "active_ok c" "flights_ok c" "dep_event_ok hs e c"
  shows "active_ok (dep_step hs e c) \<and> flights_ok (dep_step hs e c)"
  using assms begin_keeps put_keeps finish_keeps rollback_keeps restore_keeps delete_keeps settings_keep
  by (cases e) metis+


section \<open>The newest healthy revision wins\<close>

text \<open>The identifiers of the deployments of a function that finished healthy, in order of finishing.\<close>

fun healthy_ids :: "hashing \<Rightarrow> string \<Rightarrow> string \<Rightarrow> dep_event list \<Rightarrow> control_plane \<Rightarrow> string list" where
  "healthy_ids hs p f [] c = []"
| "healthy_ids hs p f (e # es) c =
     (case e of
        Finish i True \<Rightarrow>
          if i < length (in_flight c) \<and> fl_stored (in_flight c ! i) \<and> fl_project (in_flight c ! i) = p \<and> fl_function (in_flight c ! i) = f
          then [rev_id (fl_revision (in_flight c ! i))] else []
      | _ \<Rightarrow> []) @ healthy_ids hs p f es (dep_step hs e c)"

fun only_deploys :: "string \<Rightarrow> string \<Rightarrow> dep_event \<Rightarrow> bool" where
  "only_deploys p f (Rollback p' f' i) = (p' \<noteq> p \<or> f' \<noteq> f)"
| "only_deploys p f (Restore p' f' r act) = (p' \<noteq> p \<or> f' \<noteq> f)"
| "only_deploys p f (Delete p') = (p' \<noteq> p)"
| "only_deploys p f _ = True"

definition greatest :: "string list \<Rightarrow> string option" where
  "greatest is = (if is = [] then None else Some (Max (set is)))"

lemma greatest_Cons: "greatest (i # is) = Some (case greatest is of None \<Rightarrow> i | Some j \<Rightarrow> max i j)"
  by (simp add: greatest_def)

fun best :: "string option \<Rightarrow> string option \<Rightarrow> string option" where
  "best None y = y"
| "best x None = x"
| "best (Some a) (Some b) = Some (max a b)"

lemma best_assoc: "best (best x y) z = best x (best y z)"
  by (cases x; cases y; cases z) (auto simp: max.assoc)

lemma best_None [simp]: "best x None = x"
  by (cases x) auto

lemma greatest_append: "greatest (is @ js) = best (greatest is) (greatest js)"
  by (auto simp: greatest_def Max_Un)

definition named :: "control_plane \<Rightarrow> bool" where
  "named c = ((\<forall>d \<in> set (in_flight c). rev_id (fl_revision d) \<noteq> []) \<and> (\<forall>p f. getActivePointer (svc c) p f \<noteq> Some []))"

lemma finish_pointer:
  assumes "getActivePointer s p f \<noteq> Some []"
  shows "getActivePointer (snd (deploy_finish p' f' r h s)) p f =
    (if h \<and> p' = p \<and> f' = f then best (getActivePointer s p f) (Some (rev_id r)) else getActivePointer s p f)"
  using assms by (auto simp: deploy_finish_def Let_def max_def split: option.split)

lemma pointer_step:
  assumes "only_deploys p f e" "getActivePointer (svc c) p f \<noteq> Some []"
  shows "getActivePointer (svc (dep_step hs e c)) p f = best (getActivePointer (svc c) p f) (greatest (healthy_ids hs p f [e] c))"
proof (cases e)
  case (Begin p' f' a now bytes)
  then show ?thesis by (auto simp: greatest_def dest!: deploy_begin_Inr(1) split: sum.split)
next
  case (Put i ok)
  then show ?thesis by (simp add: greatest_def Let_def)
next
  case (Finish i h)
  then show ?thesis using finish_pointer[OF assms(2)]
    by (cases h) (auto simp: greatest_def Let_def)
next
  case (Rollback p' f' i)
  then show ?thesis using assms(1) by (auto simp: greatest_def rollback_def split: option.split)
next
  case (Restore p' f' r act)
  then show ?thesis using assms(1) by (auto simp: greatest_def restoreRevision_def Let_def split: option.split)
next
  case (Delete p')
  then show ?thesis using assms(1) by (simp add: greatest_def)
qed (simp_all add: greatest_def)

lemma best_named: "x \<noteq> Some [] \<Longrightarrow> [] \<notin> set is \<Longrightarrow> best x (greatest is) \<noteq> Some []"
proof -
  assume a: "x \<noteq> Some []" "[] \<notin> set is"
  have "is = [] \<or> Max (set is) \<in> set is" using Max_in[of "set is"] by blast
  then have "greatest is \<noteq> Some []" using a(2) by (metis greatest_def option.distinct(1) option.inject)
  then show ?thesis using a(1) by (cases "(x, greatest is)" rule: best.cases) (auto simp: max_def)
qed

lemma rev_id_not_Nil: "deploy_begin hs p f a now bytes s = Inr (r, s') \<Longrightarrow> rev_id r \<noteq> []"
  by (auto dest!: deploy_begin_Inr(2) simp: REVISION_ID_PREFIX_def)

definition ids_named :: "control_plane \<Rightarrow> bool" where
  "ids_named c = (\<forall>d \<in> set (in_flight c). rev_id (fl_revision d) \<noteq> [])"

lemma ids_named_step: "ids_named c \<Longrightarrow> ids_named (dep_step hs e c)"
proof (cases e)
  case (Begin p f a now bytes)
  assume "ids_named c"
  then show ?thesis using Begin by (auto simp: ids_named_def dest: rev_id_not_Nil split: sum.splits)
next
  case (Put i ok)
  assume n: "ids_named c"
  have "d = (in_flight c ! i)\<lparr>fl_stored := True\<rparr> \<or> d \<in> set (in_flight c)"
    if "d \<in> set ((in_flight c)[i := (in_flight c ! i)\<lparr>fl_stored := True\<rparr>])" for d
    using that set_update_subset_insert by fastforce
  then show ?thesis using Put n set_drop_nth[of i "in_flight c"] by (fastforce simp: ids_named_def Let_def)
next
  case (Finish i h)
  assume "ids_named c"
  then show ?thesis using Finish set_drop_nth[of i "in_flight c"] by (auto simp: ids_named_def Let_def)
qed (auto simp: ids_named_def)

lemma healthy_named: "ids_named c \<Longrightarrow> [] \<notin> set (healthy_ids hs p f [e] c)"
proof (cases e)
  case (Finish i h)
  assume "ids_named c"
  then have "i < length (in_flight c) \<Longrightarrow> rev_id (fl_revision (in_flight c ! i)) \<noteq> []" by (simp add: ids_named_def)
  then show ?thesis using Finish by (cases h) auto
qed simp_all

lemma healthy_ids_Cons: "healthy_ids hs p f (e # es) c = healthy_ids hs p f [e] c @ healthy_ids hs p f es (dep_step hs e c)"
  by simp

lemma pointer_run:
  assumes "list_all (only_deploys p f) es" "getActivePointer (svc c) p f \<noteq> Some []" "ids_named c"
  shows "getActivePointer (svc (foldl (\<lambda>c e. dep_step hs e c) c es)) p f =
    best (getActivePointer (svc c) p f) (greatest (healthy_ids hs p f es c))"
  using assms
proof (induction es arbitrary: c)
  case Nil
  then show ?case by (simp add: greatest_def)
next
  case (Cons e es)
  have st: "getActivePointer (svc (dep_step hs e c)) p f = best (getActivePointer (svc c) p f) (greatest (healthy_ids hs p f [e] c))"
    using Cons.prems by (intro pointer_step) auto
  then have "getActivePointer (svc (dep_step hs e c)) p f \<noteq> Some []"
    using best_named[OF Cons.prems(2) healthy_named[OF Cons.prems(3)]] by metis
  then have r: "getActivePointer (svc (foldl (\<lambda>c e. dep_step hs e c) (dep_step hs e c) es)) p f =
      best (getActivePointer (svc (dep_step hs e c)) p f) (greatest (healthy_ids hs p f es (dep_step hs e c)))"
    using Cons.prems ids_named_step by (intro Cons.IH) auto
  have "greatest (healthy_ids hs p f (e # es) c) =
      best (greatest (healthy_ids hs p f [e] c)) (greatest (healthy_ids hs p f es (dep_step hs e c)))"
    by (simp only: healthy_ids_Cons[of hs p f e es c] greatest_append)
  then show ?case using r st by (simp add: best_assoc del: healthy_ids.simps)
qed


text \<open>
  The identifiers follow the order in which deployments begin, even when the clock stands still
  or is set back.
\<close>

lemma begin_ids_increase:
  assumes "deploy_begin hs p f a now bytes s = Inr (r, s1)" "deploy_begin hs p' f' a' now' bytes' s2 = Inr (r', s3)"
    and "lastTimestamp s1 \<le> lastTimestamp s2" "0 \<le> lastTimestamp s1" "lastTimestamp s3 < 2 ^ 50"
  shows "rev_id r < rev_id r'"
proof -
  note b = deploy_begin_Inr[OF assms(1)] deploy_begin_Inr[OF assms(2)]
  have "lastTimestamp s2 < lastTimestamp s3" using b(6) by (auto simp: nextMonotonicTimestamp_def)
  then have "time_chars 10 (lastTimestamp s1) < time_chars 10 (lastTimestamp s3)"
    using assms by (intro time_chars_mono) auto
  then have "generateUlid (lastTimestamp s1) bytes < generateUlid (lastTimestamp s3) bytes'"
    by (simp add: generateUlid_def list_less_def lexord_sufI time_chars_length)
  then show ?thesis using b(2,7) by (simp add: list_less_def lexord_append_leftI)
qed

section \<open>A sample history\<close>

definition sample_hash :: hashing where
  "sample_hash = \<lparr>computeArtifactId = (\<lambda>b. ''sha256:'' @ replicate 64 (if b = [] then CHR ''0'' else CHR ''a'')),
     computeIntegrity = (\<lambda>b. ''sha256-AA'')\<rparr>"

definition sample_artifact :: PackagedArtifact where
  "sample_artifact = \<lparr>art_id = ''sha256:'' @ replicate 64 (CHR ''a''), art_integrity = ''sha256-AA'', art_bytes = [1, 2], art_manifest = None\<rparr>"

definition sample_bytes :: "int list" where
  "sample_bytes = [1, 2, 3, 4, 5, 6, 7, 8, 9, 10]"

text \<open>Two deployments; the second, newer one finishes first.\<close>

definition sample_history :: "dep_event list" where
  "sample_history = [Begin ''p'' ''f'' sample_artifact 1000 sample_bytes, Begin ''p'' ''f'' sample_artifact 1000 sample_bytes,
     Put 1 True, Put 0 True, Finish 1 True, Finish 0 True]"

definition sample_plane :: control_plane where
  "sample_plane = foldl (\<lambda>c e. dep_step sample_hash e c) fresh_plane sample_history"

definition second_id :: string where
  "second_id = REVISION_ID_PREFIX @ generateUlid 1001 sample_bytes"


fun events_ok :: "hashing \<Rightarrow> dep_event list \<Rightarrow> control_plane \<Rightarrow> bool" where
  "events_ok hs [] c = True"
| "events_ok hs (e # es) c = (dep_event_ok hs e c \<and> events_ok hs es (dep_step hs e c))"

lemma events_reach: "dep_reach hs c \<Longrightarrow> events_ok hs es c \<Longrightarrow> dep_reach hs (foldl (\<lambda>c e. dep_step hs e c) c es)"
  by (induction es arbitrary: c) (auto intro: dep_reach.event)

lemma not_saved_empty: "revisions s = [] \<Longrightarrow> \<not> saved s i"
  by (simp add: saved_def getRevision_def inner_def)

definition one_deploy :: "dep_event list" where
  "one_deploy = [Begin ''p'' ''f'' sample_artifact 1000 sample_bytes, Put 0 True, Finish 0 True]"

lemma one_deploy_reach: "dep_reach sample_hash (foldl (\<lambda>c e. dep_step sample_hash e c) fresh_plane one_deploy)"
proof -
  have "dep_event_ok sample_hash (Begin ''p'' ''f'' sample_artifact 1000 sample_bytes) fresh_plane"
    using not_saved_empty[of no_deployments] by (auto simp: fresh_plane_def no_deployments_def split: sum.split)
  then have "events_ok sample_hash one_deploy fresh_plane" by (simp add: one_deploy_def)
  then show ?thesis using events_reach dep_reach.start by blast
qed


section \<open>Rollback and restore\<close>

text \<open>
  A rollback either fails - RESOURCE_NOT_FOUND for an unknown revision, VALIDATION_FAILED for
  one that is not deployed - and changes nothing, or makes the target the active revision of that
  function, reports the revision that was active, and changes no record and no other pointer;
  rolling back to the reported revision restores the pointer.
\<close>

theorem rollback_flips_or_nothing:
  "(case rollback p f i s of
      (Inl e, s') \<Rightarrow> s' = s \<and>
        (getRevision s p f i = None \<and> exn_code e = Some RESOURCE_NOT_FOUND \<or>
         (\<exists>r. getRevision s p f i = Some r \<and> rev_state r \<noteq> Deployed) \<and> exn_code e = Some VALIDATION_FAILED)
    | (Inr (prev, act), s') \<Rightarrow>
        act = i \<and> getActivePointer s' p f = Some i \<and> prev = or_default (getActivePointer s p f) [] \<and>
        getRevision s' = getRevision s \<and>
        (\<forall>p' f'. (p', f') \<noteq> (p, f) \<longrightarrow> getActivePointer s' p' f' = getActivePointer s p' f') \<and>
        (\<forall>j r. getActivePointer s p f = Some j \<and> getRevision s p f j = Some r \<and> rev_state r = Deployed \<longrightarrow>
           getActivePointer (snd (rollback p f prev s')) p f = getActivePointer s p f))"
  by (auto simp: rollback_def split: option.split)

definition two_deploys :: deployments where
  "two_deploys = svc (foldl (\<lambda>c e. dep_step sample_hash e c) fresh_plane
     [Begin ''p'' ''f'' sample_artifact 1000 sample_bytes, Put 0 True, Finish 0 True,
      Begin ''p'' ''f'' sample_artifact 1000 sample_bytes, Put 0 True, Finish 0 True])"

lemma rollback_flips_or_nothing_witness:
  "getActivePointer two_deploys ''p'' ''f'' = Some second_id \<and>
   getActivePointer (snd (rollback ''p'' ''f'' (REVISION_ID_PREFIX @ generateUlid 1000 sample_bytes) two_deploys)) ''p'' ''f'' =
     Some (REVISION_ID_PREFIX @ generateUlid 1000 sample_bytes)"
proof -
  let ?i = "REVISION_ID_PREFIX @ generateUlid 1000 sample_bytes"
  have a: "getActivePointer two_deploys ''p'' ''f'' = Some second_id" by code_simp
  have "\<not> isl (fst (rollback ''p'' ''f'' ?i two_deploys))" by code_simp
  then obtain prev act s' where r: "rollback ''p'' ''f'' ?i two_deploys = (Inr (prev, act), s')"
    by (metis isl_def old.prod.exhaust old.sum.exhaust prod.sel(1) surj_pair)
  show ?thesis using a rollback_flips_or_nothing[where p = "''p''" and f = "''f''" and i = ?i and s = two_deploys] by (simp add: r)
qed

text \<open>
  A restore that activates does not look at the state of the revision: a failed one becomes the
  active revision, which a rollback would have refused.
\<close>

theorem restore_activates_failed:
  assumes "getRevision s p f (rev_id r) = None" "rev_state r = Failed"
  shows "getActivePointer (snd (restoreRevision p f r True s)) p f = Some (rev_id r) \<and>
    (\<exists>r'. getRevision (snd (restoreRevision p f r True s)) p f (rev_id r) = Some r' \<and> rev_state r' = Failed) \<and>
    fst (rollback p f (rev_id r) (snd (restoreRevision p f r True s))) =
      Inl (throw_rf VALIDATION_FAILED ''VALIDATION_FAILED: Cannot rollback to a revision that is not Deployed (PLAT-3)'')"
  using assms by (simp add: restoreRevision_def rollback_def Let_def)

text \<open>A restore that does not activate is not written to the state file.\<close>

lemma inactive_restore_not_persisted:
  "persistQueued (snd (restoreRevision p f r False s)) = persistQueued s"
  by (simp add: restoreRevision_def saveRevisionRecord_def Let_def split: option.split)

section \<open>The health check\<close>

text \<open>The number of successes in a row up to the \<open>n\<close>-th probe.\<close>

fun trail :: "(nat \<Rightarrow> int \<times> int res) \<Rightarrow> nat \<Rightarrow> int" where
  "trail fetch 0 = 0"
| "trail fetch (Suc n) = (if snd (fetch n) = Inr 200 then trail fetch n + 1 else 0)"

lemma trail_window: "0 \<le> trail fetch n \<and> (\<forall>j < n. int n - trail fetch n \<le> int j \<longrightarrow> snd (fetch j) = Inr 200)"
proof (induction n)
  case (Suc n)
  then show ?case by (auto simp: less_Suc_eq)
qed simp

lemma health_loop_ends:
  assumes "0 < probeIntervalMs opts" "\<forall>n. 0 \<le> fst (fetch n)" "startTime + totalTimeoutMs opts - t < int fuel" "0 < fuel"
    and "consec = trail fetch n" "\<forall>m \<le> n. trail fetch m < consecutiveSuccessesRequired opts"
  shows "\<exists>r. health_loop fuel opts fetch startTime t consec n = Some r \<and>
    (if passed r then consecutiveSuccessesRequired opts \<le> trail fetch (probesAttempted r) \<and>
        (\<forall>m < probesAttempted r. trail fetch m < consecutiveSuccessesRequired opts)
     else totalTimeoutMs opts \<le> elapsedMs r \<and> (\<forall>m \<le> probesAttempted r. trail fetch m < consecutiveSuccessesRequired opts))"
  using assms
proof (induction fuel arbitrary: t consec n)
  case (Suc fuel)
  define deadline where "deadline = startTime + totalTimeoutMs opts"
  define t1 where "t1 = t + fst (fetch n)"
  define t2 where "t2 = t1 + max 0 (min (probeIntervalMs opts - fst (fetch n)) (deadline - t1))"
  show ?case
  proof (cases "t < deadline")
    case lt: True
    have d: "0 \<le> fst (fetch n)" using Suc.prems(2) by blast
    have adv: "t + 1 \<le> t2" using lt d Suc.prems(1) by (auto simp: t2_def t1_def)
    show ?thesis
    proof (cases "snd (fetch n) = Inr 200 \<and> consecutiveSuccessesRequired opts \<le> trail fetch (Suc n)")
      case True
      then show ?thesis using lt Suc.prems(5,6)
        by (auto simp: deadline_def Let_def less_Suc_eq_le)
    next
      case False
      have "trail fetch (Suc n) < consecutiveSuccessesRequired opts"
        using False Suc.prems(6)[rule_format, of 0] by (cases "snd (fetch n) = Inr 200") auto
      then have all: "\<forall>m \<le> Suc n. trail fetch m < consecutiveSuccessesRequired opts"
        using Suc.prems(6) by (auto simp: le_Suc_eq)
      have u: "health_loop (Suc fuel) opts fetch startTime t consec n = health_loop fuel opts fetch startTime t2 (trail fetch (Suc n)) (Suc n)"
        using lt False Suc.prems(5) by (auto simp: deadline_def t1_def t2_def Let_def)
      have "startTime + totalTimeoutMs opts - t2 < int fuel" "0 < fuel" using adv lt Suc.prems(3) by (auto simp: deadline_def)
      then show ?thesis unfolding u using Suc.prems(1,2) all by (intro Suc.IH) auto
    qed
  next
    case False
    then show ?thesis using Suc.prems(5,6) by (auto simp: deadline_def Let_def)
  qed
qed simp

text \<open>
  With a positive interval the health check always ends, within \<open>totalTimeoutMs + 1\<close> rounds,
  whatever the probes answer and however long they take. It passes only when the required number
  of the last probes, with no gap, returned status 200, and it passes at the first probe at which
  that holds; otherwise the deadline has passed and no probe completed such a series.
\<close>

theorem health_check_exact:
  assumes "0 < probeIntervalMs opts" "\<And>n. 0 \<le> fst (fetch n)" "0 \<le> totalTimeoutMs opts" "1 \<le> consecutiveSuccessesRequired opts"
  shows "\<exists>r. executeHealthCheck (nat (totalTimeoutMs opts) + 1) opts fetch startTime = Some r \<and>
    (if passed r
     then (\<forall>j < probesAttempted r. int (probesAttempted r) - consecutiveSuccessesRequired opts \<le> int j \<longrightarrow> snd (fetch j) = Inr 200) \<and>
        (\<forall>m < probesAttempted r. trail fetch m < consecutiveSuccessesRequired opts)
     else totalTimeoutMs opts \<le> elapsedMs r \<and> (\<forall>m \<le> probesAttempted r. trail fetch m < consecutiveSuccessesRequired opts))"
proof -
  obtain r where r: "executeHealthCheck (nat (totalTimeoutMs opts) + 1) opts fetch startTime = Some r"
    "if passed r then consecutiveSuccessesRequired opts \<le> trail fetch (probesAttempted r) \<and>
        (\<forall>m < probesAttempted r. trail fetch m < consecutiveSuccessesRequired opts)
     else totalTimeoutMs opts \<le> elapsedMs r \<and> (\<forall>m \<le> probesAttempted r. trail fetch m < consecutiveSuccessesRequired opts)"
    using health_loop_ends[of opts fetch startTime startTime "nat (totalTimeoutMs opts) + 1" 0 0] assms
    by (auto simp: executeHealthCheck_def)
  have "snd (fetch j) = Inr 200" if "consecutiveSuccessesRequired opts \<le> trail fetch (probesAttempted r)" "j < probesAttempted r"
    "int (probesAttempted r) - consecutiveSuccessesRequired opts \<le> int j" for j
    using trail_window[of fetch "probesAttempted r"] that by auto
  then show ?thesis using r by (intro exI[of _ r]) (auto split: if_splits)
qed

definition flaky :: "nat \<Rightarrow> int \<times> int res" where
  "flaky n = (20, if n = 1 then Inr 503 else Inr 200)"

definition quick_options :: HealthProbeOptions where
  "quick_options = \<lparr>consecutiveSuccessesRequired = 3, totalTimeoutMs = 500, probeIntervalMs = 50\<rparr>"

lemma health_check_exact_witness:
  "\<exists>r. executeHealthCheck 501 quick_options flaky 0 = Some r \<and> (passed r \<or> 500 \<le> elapsedMs r)"
  using health_check_exact[of quick_options flaky 0]
  by (auto simp: quick_options_def flaky_def split: if_splits)

section \<open>Surviving a restart\<close>

text \<open>The maps of the service: every level has unique keys, and records are stored under their identifiers.\<close>

definition each_ok :: "('v \<Rightarrow> bool) \<Rightarrow> ('k, 'v) omap \<Rightarrow> bool" where
  "each_ok P m = (owf m \<and> (\<forall>e \<in> set m. P (snd e)))"

definition revmap_ok :: "(string, RevisionRecord) omap \<Rightarrow> bool" where
  "revmap_ok m = (owf m \<and> (\<forall>e \<in> set m. rev_id (snd e) = fst e))"

definition service_wf :: "deployments \<Rightarrow> bool" where
  "service_wf s = (each_ok (each_ok revmap_ok) (revisions s) \<and> each_ok owf (activePointers s) \<and>
     owf (projectRoutes s) \<and> owf (projectMetadata s))"

lemma each_ok_oset: "each_ok P m \<Longrightarrow> P v \<Longrightarrow> each_ok P (oset k v m)"
  using oset_set_subset[of k v m] by (auto simp: each_ok_def)

lemma each_ok_odel: "each_ok P m \<Longrightarrow> each_ok P (odel k m)"
  by (auto simp: each_ok_def odel_def)

lemma each_ok_inner: "each_ok P m \<Longrightarrow> P [] \<Longrightarrow> P (inner m k)"
  by (auto simp: each_ok_def inner_def dest!: map_of_SomeD split: option.split)

lemma each_ok_Nil [simp]: "each_ok P []" "revmap_ok []"
  by (simp_all add: each_ok_def revmap_ok_def)

lemma revmap_ok_oset: "revmap_ok m \<Longrightarrow> revmap_ok (oset (rev_id r) r m)"
  using oset_set_subset[of "rev_id r" r m] by (auto simp: revmap_ok_def)

lemma oset_append_new: "k \<notin> fst ` set m \<Longrightarrow> oset k v m = m @ [(k, v)]"
  by (induction m) auto

lemma map_of_entries_foldl:
  "distinct (map fst (m @ es)) \<Longrightarrow> foldl (\<lambda>m (k, v). oset k v m) m es = m @ es"
proof (induction es arbitrary: m)
  case (Cons e es)
  obtain k v where e: "e = (k, v)" by fastforce
  have "k \<notin> fst ` set m" using Cons.prems by (auto simp: e)
  then show ?case using Cons by (simp add: e oset_append_new)
qed simp

lemma map_of_entries_wf [simp]: "owf es \<Longrightarrow> map_of_entries es = es"
  using map_of_entries_foldl[of "[]" es] by (simp add: map_of_entries_def owf_def)

lemma records_roundtrip:
  assumes "revmap_ok m"
  shows "map_of_entries (map (\<lambda>r. (rev_id r, r)) (map snd m)) = m"
proof -
  have "map (\<lambda>r. (rev_id r, r)) (map snd m) = m"
    using assms by (induction m) (auto simp: revmap_ok_def owf_def)
  then show ?thesis using assms by (simp add: revmap_ok_def)
qed

lemma nested_roundtrip:
  assumes "each_ok P m" "\<And>v. P v \<Longrightarrow> g (h v) = v"
  shows "map_of_entries (map (\<lambda>(k, v). (k, g v)) (map (\<lambda>(k, v). (k, h v)) m)) = m"
proof -
  have "map (\<lambda>(k, v). (k, g v)) (map (\<lambda>(k, v). (k, h v)) m) = m"
    using assms by (induction m) (auto simp: each_ok_def owf_def)
  then show ?thesis using assms(1) by (simp add: each_ok_def)
qed

lemma hydrate_persist:
  assumes "service_wf s"
  shows "hydrate (Some (persist_snapshot s)) = s\<lparr>lastTimestamp := 0, persistQueued := False\<rparr>"
proof -
  let ?recs = "\<lambda>records. map_of_entries (map (\<lambda>r. (rev_id r, r)) records)"
  have f: "map_of_entries (map (\<lambda>(f, records). (f, ?recs records)) (map (\<lambda>(f, revMap). (f, map snd revMap)) fnMap)) = fnMap"
    if "each_ok revmap_ok fnMap" for fnMap
    using that records_roundtrip by (rule nested_roundtrip)
  have "map_of_entries (map (\<lambda>(p, fnMap). (p, map_of_entries (map (\<lambda>(f, records). (f, ?recs records)) fnMap)))
      (map (\<lambda>(p, fnMap). (p, map (\<lambda>(f, revMap). (f, map snd revMap)) fnMap)) (revisions s))) = revisions s"
    using assms f by (intro nested_roundtrip[where P = "each_ok revmap_ok"]) (auto simp: service_wf_def)
  moreover have "map_of_entries (map (\<lambda>(p, ptrs). (p, map_of_entries ptrs)) (activePointers s)) = activePointers s"
    using nested_roundtrip[of owf "activePointers s" map_of_entries "\<lambda>x. x"] assms by (simp add: service_wf_def)
  ultimately show ?thesis using assms
    by (simp add: hydrate_def persist_snapshot_def no_deployments_def service_wf_def)
qed

lemma service_wf_save: "service_wf s \<Longrightarrow> service_wf (saveRevisionRecord p f r s)"
  by (simp add: service_wf_def saveRevisionRecord_def Let_def each_ok_oset each_ok_inner revmap_ok_oset)

lemma service_wf_pointer: "service_wf s \<Longrightarrow> service_wf (setActivePointer p f i s)"
  by (simp add: service_wf_def setActivePointer_def each_ok_oset each_ok_inner)

lemma service_wf_simple:
  assumes "service_wf s"
  shows "service_wf (schedulePersist s)" "service_wf (nextMonotonicTimestamp now s)" "service_wf (setProjectRoutes p rs s)"
    "service_wf (setProjectMetadata p m s)" "service_wf (snd (deleteProject p s))"
  using assms by (auto simp: service_wf_def schedulePersist_def nextMonotonicTimestamp_def setProjectRoutes_def
      setProjectMetadata_def deleteProject_def Let_def each_ok_odel)

lemmas service_wf_ops = service_wf_save service_wf_pointer service_wf_simple

lemma service_wf_step: "service_wf (svc c) \<Longrightarrow> service_wf (svc (dep_step hs e c))"
  by (cases e) (auto simp: deploy_finish_def rollback_def restoreRevision_def Let_def service_wf_ops
      dest!: deploy_begin_Inr(1) split: sum.splits option.splits)

text \<open>
  In every reachable state, what a restarted service reads from the file written in that state
  is the same service: revisions, active pointers, routes and metadata, with their order; only the
  monotonic clock starts over.
\<close>

theorem state_survives_restart:
  assumes "dep_reach hs c"
  shows "hydrate (Some (persist_snapshot (svc c))) = (svc c)\<lparr>lastTimestamp := 0, persistQueued := False\<rparr>"
proof -
  have "service_wf (svc c)" using assms
  proof induction
    case start
    show ?case by (simp add: fresh_plane_def no_deployments_def service_wf_def)
  next
    case (event c e)
    then show ?case using service_wf_step by blast
  qed
  then show ?thesis by (rule hydrate_persist)
qed

lemma state_survives_restart_witness:
  "getActivePointer (hydrate (Some (persist_snapshot (svc (foldl (\<lambda>c e. dep_step sample_hash e c) fresh_plane one_deploy))))) ''p'' ''f'' =
   Some (REVISION_ID_PREFIX @ generateUlid 1000 sample_bytes)"
proof -
  let ?c = "foldl (\<lambda>c e. dep_step sample_hash e c) fresh_plane one_deploy"
  have r: "dep_reach sample_hash ?c" by (rule one_deploy_reach)
  have "getActivePointer (svc ?c) ''p'' ''f'' = Some (REVISION_ID_PREFIX @ generateUlid 1000 sample_bytes)" by code_simp
  then show ?thesis unfolding state_survives_restart[OF r] by (simp add: getActivePointer_def)
qed

text \<open>
  The clock that starts over: a deployment begun when the wall clock is behind the active
  revision's timestamp finishes as Deployed but stays inactive.
\<close>

lemma restart_with_late_clock:
  assumes "deploy_begin hs p f a now bytes (hydrate file) = Inr (r, s1)"
    and "getActivePointer s p f = Some (REVISION_ID_PREFIX @ generateUlid t bytes')" "now < t" "0 < now" "t < 2 ^ 50"
  shows "\<not> res_active (fst (deploy_finish p f r True s))"
proof -
  have "lastTimestamp (hydrate file) = 0" by (simp add: hydrate_def no_deployments_def split: option.split)
  then have "rev_id r = REVISION_ID_PREFIX @ generateUlid now bytes"
    using deploy_begin_Inr(1,2)[OF assms(1)] assms(4) by (simp add: nextMonotonicTimestamp_def)
  moreover have "generateUlid now bytes < generateUlid t bytes'"
    using time_chars_mono[of now t 10] assms(3,4,5) by (simp add: generateUlid_def list_less_def lexord_sufI time_chars_length)
  ultimately have "rev_id r < REVISION_ID_PREFIX @ generateUlid t bytes'" by (simp add: list_less_def lexord_append_leftI)
  then show ?thesis using assms(2) by (auto simp: deploy_finish_def Let_def REVISION_ID_PREFIX_def)
qed

end
