(* ===== verification/Backup.thy ===== *)
theory Backup
  imports Deployment KvStore
begin

text \<open>
  State backup: the archive schema of \<open>packages/core/backup/archive-schema.ts\<close> and the export and
  import of \<open>apps/api/state-backup-service.ts\<close>, over the deployment service (\<open>Deployment\<close>) and the
  KV provider (\<open>KvStore\<close>). The object provider is a map from keys to bytes whose listing returns the
  keys with a prefix, as the interface promises. Hashing and the hex and base64 codecs are
  parameters. An archive is a dynamic value that the code validates and then reads as a typed
  record; time stamps and times to live are whole numbers. Interpolated values are left out of
  error messages. Export and import read the clock once.
\<close>

section \<open>The archive\<close>

record BackupRevisionRecord =
  b_id :: string
  b_artifactId :: string
  b_integrity :: string
  b_state :: RevisionState
  b_createdAt :: int
  b_manifest :: "Manifest option"

record BackupFunctionRecord =
  bf_name :: string
  bf_activeRevisionId :: "string option"
  bf_revisions :: "BackupRevisionRecord list"

record BackupKvEntry =
  bk_namespace :: string
  bk_key :: "string list"
  bk_value :: jsval
  bk_ttl :: "int option"
  bk_version :: int

record BackupObjectRecord =
  bo_store :: string
  bo_key :: string
  bo_sizeBytes :: int
  bo_sha256 :: string
  bo_integrity :: string
  bo_dataBase64 :: "string option"

record StateBackupArchive =
  backupId :: string
  ba_createdAt :: int
  ba_orgId :: string
  ba_projectId :: string
  ba_name :: string
  ba_functions :: "BackupFunctionRecord list"
  ba_kv :: "BackupKvEntry list"
  ba_objects :: "BackupObjectRecord list"
  ba_queues :: "jsval list"

section \<open>Validation of a raw archive\<close>

definition ARCHIVE_SCHEMA_VERSION :: jsval where
  "ARCHIVE_SCHEMA_VERSION = JNum (Fin 1)"

definition prefixed_ulid :: "string \<Rightarrow> string \<Rightarrow> bool" where
  "prefixed_ulid p s = (take 4 s = p \<and> length s = 30 \<and> list_all ulid_char (drop 4 s))"

definition BACKUP_ID_REGEX :: "string \<Rightarrow> bool" where
  "BACKUP_ID_REGEX s = prefixed_ulid ''bak_'' s"

definition REVISION_ID_REGEX :: "string \<Rightarrow> bool" where
  "REVISION_ID_REGEX s = prefixed_ulid ''rev_'' s"

definition SHA256_HEX_REGEX :: "string \<Rightarrow> bool" where
  "SHA256_HEX_REGEX s = (length s = 64 \<and> list_all lower_hex s)"

definition base64_char :: "char \<Rightarrow> bool" where
  "base64_char c =
     (let n = code c in
      48 \<le> n \<and> n \<le> 57 \<or> 65 \<le> n \<and> n \<le> 90 \<or> 97 \<le> n \<and> n \<le> 122 \<or> c = CHR ''+'' \<or> c = CHR ''/'' \<or> c = CHR ''='')"

definition BASE64_REGEX :: "string \<Rightarrow> bool" where
  "BASE64_REGEX s = (s \<noteq> [] \<and> list_all base64_char s)"

definition INTEGRITY_SRI_REGEX :: "string \<Rightarrow> bool" where
  "INTEGRITY_SRI_REGEX s = (take 7 s = ''sha256-'' \<and> BASE64_REGEX (drop 7 s))"

definition MAX_QUEUE_RETENTION_DAYS :: jsnum where
  "MAX_QUEUE_RETENTION_DAYS = Fin 14"

definition VALID_REVISION_STATES :: "string \<Rightarrow> bool" where
  "VALID_REVISION_STATES s = (s = ''Deployed'' \<or> s = ''Failed'' \<or> s = ''Ready'')"

fun str_such :: "(string \<Rightarrow> bool) \<Rightarrow> jsval \<Rightarrow> bool" where
  "str_such P (JStr s) = P s"
| "str_such P _ = False"

fun num_such :: "(jsnum \<Rightarrow> bool) \<Rightarrow> jsval \<Rightarrow> bool" where
  "num_such P (JNum n) = P n"
| "num_such P _ = False"

fun jhas :: "jsval \<Rightarrow> string \<Rightarrow> bool" where
  "jhas (JObj fs) k = (map_of fs k \<noteq> None)"
| "jhas _ k = False"

definition nonempty_str :: "jsval \<Rightarrow> bool" where
  "nonempty_str = str_such (\<lambda>s. s \<noteq> [])"

definition positive_num :: "jsval \<Rightarrow> bool" where
  "positive_num = num_such (\<lambda>n. num_finite n \<and> num_less (Fin 0) n)"

definition count_num :: "jsval \<Rightarrow> bool" where
  "count_num = num_such (\<lambda>n. num_integer n \<and> num_le (Fin 0) n)"

definition failed :: "string \<Rightarrow> exn" where
  "failed m = throw_rf VALIDATION_FAILED m"

fun require :: "(bool \<times> string) list \<Rightarrow> unit res" where
  "require [] = Inr ()"
| "require ((ok, m) # cs) = (if ok then require cs else Inl (failed m))"

definition validateProject :: "jsval \<Rightarrow> unit res" where
  "validateProject p = require
     [(is_record p, ''project must be a non-null object''),
      (nonempty_str (jget p ''orgId''), ''project.orgId must be a non-empty string''),
      (nonempty_str (jget p ''projectId''), ''project.projectId must be a non-empty string''),
      (nonempty_str (jget p ''name''), ''project.name must be a non-empty string'')]"

definition validate_revision :: "jsval \<Rightarrow> unit res" where
  "validate_revision r = require
     [(is_record r, ''Revision record must be an object''),
      (str_such REVISION_ID_REGEX (jget r ''id''), ''Invalid revision id''),
      (str_such ARTIFACT_ID_REGEX (jget r ''artifactId''), ''Invalid revision artifactId''),
      (str_such INTEGRITY_SRI_REGEX (jget r ''integrity''), ''Invalid revision integrity''),
      (str_such VALID_REVISION_STATES (jget r ''state''), ''Invalid revision state''),
      (is_finite_num (jget r ''createdAt''), ''Revision createdAt must be a finite number''),
      (jget r ''manifest'' \<noteq> JUndef, ''Revision manifest must be present'')]"

definition elements :: "jsval \<Rightarrow> jsval list" where
  "elements v = (case items v of Some xs \<Rightarrow> xs | None \<Rightarrow> [])"

definition validate_backup_function :: "jsval \<Rightarrow> unit res" where
  "validate_backup_function f =
     bind_res (require
       [(is_record f, ''Function record must be an object''),
        (nonempty_str (jget f ''name''), ''Function name must be a non-empty string''),
        (items (jget f ''revisions'') \<noteq> None, ''Revisions must be an array'')]) (\<lambda>_.
     bind_res (each_res validate_revision (elements (jget f ''revisions''))) (\<lambda>_.
     require
       [(let a = jget f ''activeRevisionId'' in a = JNull \<or>
           str_such REVISION_ID_REGEX a \<and> a \<in> set (map (\<lambda>r. jget r ''id'') (elements (jget f ''revisions''))),
         ''Invalid activeRevisionId: must be null or match a revision in the function'')]))"

definition validateFunctions :: "jsval \<Rightarrow> unit res" where
  "validateFunctions fs =
     bind_res (require [(items fs \<noteq> None, ''functions must be an array'')]) (\<lambda>_.
       each_res validate_backup_function (elements fs))"

definition validate_kv_entry :: "jsval \<Rightarrow> unit res" where
  "validate_kv_entry e = require
     [(is_record e, ''KV entry must be an object''),
      (nonempty_str (jget e ''namespace''), ''KV entry namespace must be a non-empty string''),
      (items (jget e ''key'') \<noteq> None \<and> elements (jget e ''key'') \<noteq> [] \<and> list_all nonempty_str (elements (jget e ''key'')),
       ''KV entry key must be a non-empty array of non-empty strings''),
      (jhas e ''value'', ''KV entry must have a value property''),
      (jget e ''ttl'' = JUndef \<or> positive_num (jget e ''ttl''), ''KV entry ttl must be a positive number''),
      (count_num (jget e ''version''), ''KV entry version must be a non-negative integer'')]"

definition validateKvEntries :: "jsval \<Rightarrow> unit res" where
  "validateKvEntries kv =
     bind_res (require [(items kv \<noteq> None, ''kv must be an array'')]) (\<lambda>_. each_res validate_kv_entry (elements kv))"

definition validate_object :: "jsval \<Rightarrow> unit res" where
  "validate_object b = require
     [(is_record b, ''Object record must be an object''),
      (nonempty_str (jget b ''store''), ''Object record store must be a non-empty string''),
      (nonempty_str (jget b ''key''), ''Object record key must be a non-empty string''),
      (count_num (jget b ''sizeBytes''), ''Object record sizeBytes must be a non-negative integer''),
      (str_such SHA256_HEX_REGEX (jget b ''sha256''), ''Invalid object sha256''),
      (str_such INTEGRITY_SRI_REGEX (jget b ''integrity''), ''Invalid object integrity''),
      (jget b ''dataBase64'' = JUndef \<or> str_such BASE64_REGEX (jget b ''dataBase64''),
       ''Object record dataBase64 must be a valid base64-encoded string'')]"

definition validateObjects :: "jsval \<Rightarrow> unit res" where
  "validateObjects bs =
     bind_res (require [(items bs \<noteq> None, ''objects must be an array'')]) (\<lambda>_. each_res validate_object (elements bs))"

definition validate_queue :: "jsval \<Rightarrow> unit res" where
  "validate_queue q = require
     [(is_record q, ''Queue record must be an object''),
      (nonempty_str (jget q ''name''), ''Queue record name must be a non-empty string''),
      (positive_num (jget q ''visibilityTimeoutMs''), ''Queue record visibilityTimeoutMs must be a positive number''),
      (positive_num (jget q ''maxReceives''), ''Queue record maxReceives must be a positive number''),
      (positive_num (jget q ''retentionDays'') \<and>
       num_such (\<lambda>n. \<not> num_less MAX_QUEUE_RETENTION_DAYS n) (jget q ''retentionDays''),
       ''Queue record retentionDays must be between 1 and 14 days''),
      (jget q ''dlqQueueName'' = JUndef \<or> nonempty_str (jget q ''dlqQueueName''),
       ''Queue record dlqQueueName must be a non-empty string when specified'')]"

definition validateQueues :: "jsval \<Rightarrow> unit res" where
  "validateQueues qs =
     bind_res (require [(items qs \<noteq> None, ''queues must be an array'')]) (\<lambda>_. each_res validate_queue (elements qs))"

definition validateBackupArchive :: "jsval \<Rightarrow> unit res" where
  "validateBackupArchive raw =
     bind_res (require
       [(is_record raw, ''StateBackupArchive root must be a non-null object''),
        (jget raw ''version'' = ARCHIVE_SCHEMA_VERSION, ''Unsupported archive version''),
        (str_such BACKUP_ID_REGEX (jget raw ''backupId''), ''Invalid backupId''),
        (is_finite_num (jget raw ''createdAt''), ''createdAt must be a finite number timestamp'')]) (\<lambda>_.
     bind_res (validateProject (jget raw ''project'')) (\<lambda>_.
     bind_res (validateFunctions (jget raw ''functions'')) (\<lambda>_.
     bind_res (validateKvEntries (jget raw ''kv'')) (\<lambda>_.
     bind_res (validateObjects (jget raw ''objects'')) (\<lambda>_.
     validateQueues (jget raw ''queues''))))))"

section \<open>Typed reading and writing of archives\<close>

definition str_of :: "jsval \<Rightarrow> string" where
  "str_of v = or_default (as_str v) []"

definition int_of :: "jsval \<Rightarrow> int" where
  "int_of v = (case v of JNum (Fin q) \<Rightarrow> floor q | _ \<Rightarrow> 0)"

definition json_int :: "int \<Rightarrow> jsval" where
  "json_int n = JNum (Fin (of_int n))"

definition json_strs :: "string list option \<Rightarrow> jsval" where
  "json_strs xs = (case xs of None \<Rightarrow> JUndef | Some ys \<Rightarrow> JArr (map JStr ys))"

definition strs_of :: "jsval \<Rightarrow> string list option" where
  "strs_of v = map_option (map str_of) (items v)"

definition json_manifest :: "Manifest option \<Rightarrow> jsval" where
  "json_manifest m =
     (case m of None \<Rightarrow> JUndef
      | Some x \<Rightarrow> JObj
         [(''permissions'', case m_permissions x of None \<Rightarrow> JUndef
            | Some p \<Rightarrow> JObj [(''kv'', json_strs (mp_kv p)), (''objects'', json_strs (mp_objects p)),
                (''queues'', json_strs (mp_queues p)), (''secrets'', json_strs (mp_secrets p)), (''network'', json_strs (mp_network p))]),
          (''limits'', m_limits x), (''auth'', m_auth x), (''triggers'', m_triggers x)])"

definition manifest_of :: "jsval \<Rightarrow> Manifest option" where
  "manifest_of v =
     (if v = JUndef then None
      else let p = jget v ''permissions'' in
       Some \<lparr>m_permissions = (if p = JUndef then None else Some \<lparr>mp_kv = strs_of (jget p ''kv''), mp_objects = strs_of (jget p ''objects''),
               mp_queues = strs_of (jget p ''queues''), mp_secrets = strs_of (jget p ''secrets''), mp_network = strs_of (jget p ''network'')\<rparr>),
             m_limits = jget v ''limits'', m_auth = jget v ''auth'', m_triggers = jget v ''triggers''\<rparr>)"

definition state_of :: "string \<Rightarrow> RevisionState" where
  "state_of s = (if s = ''Deployed'' then Deployed else if s = ''Failed'' then Failed else if s = ''Ready'' then Ready
     else if s = ''Building'' then Building else if s = ''Suspended'' then Suspended else Created)"

definition json_revision :: "BackupRevisionRecord \<Rightarrow> jsval" where
  "json_revision r = JObj
     [(''id'', JStr (b_id r)), (''artifactId'', JStr (b_artifactId r)), (''integrity'', JStr (b_integrity r)),
      (''state'', JStr (state_name (b_state r))), (''createdAt'', json_int (b_createdAt r)), (''manifest'', json_manifest (b_manifest r))]"

definition revision_of :: "jsval \<Rightarrow> BackupRevisionRecord" where
  "revision_of v =
     \<lparr>b_id = str_of (jget v ''id''), b_artifactId = str_of (jget v ''artifactId''), b_integrity = str_of (jget v ''integrity''),
      b_state = state_of (str_of (jget v ''state'')), b_createdAt = int_of (jget v ''createdAt''), b_manifest = manifest_of (jget v ''manifest'')\<rparr>"

definition json_function :: "BackupFunctionRecord \<Rightarrow> jsval" where
  "json_function f = JObj
     [(''name'', JStr (bf_name f)),
      (''activeRevisionId'', case bf_activeRevisionId f of None \<Rightarrow> JNull | Some i \<Rightarrow> JStr i),
      (''revisions'', JArr (map json_revision (bf_revisions f)))]"

definition function_of :: "jsval \<Rightarrow> BackupFunctionRecord" where
  "function_of v =
     \<lparr>bf_name = str_of (jget v ''name''), bf_activeRevisionId = as_str (jget v ''activeRevisionId''),
      bf_revisions = map revision_of (elements (jget v ''revisions''))\<rparr>"

definition json_kv_entry :: "BackupKvEntry \<Rightarrow> jsval" where
  "json_kv_entry e = JObj
     ([(''namespace'', JStr (bk_namespace e)), (''key'', JArr (map JStr (bk_key e))), (''value'', bk_value e)] @
      (case bk_ttl e of None \<Rightarrow> [] | Some t \<Rightarrow> [(''ttl'', json_int t)]) @ [(''version'', json_int (bk_version e))])"

definition kv_entry_of :: "jsval \<Rightarrow> BackupKvEntry" where
  "kv_entry_of v =
     \<lparr>bk_namespace = str_of (jget v ''namespace''), bk_key = map str_of (elements (jget v ''key'')), bk_value = jget v ''value'',
      bk_ttl = (if jget v ''ttl'' = JUndef then None else Some (int_of (jget v ''ttl''))), bk_version = int_of (jget v ''version'')\<rparr>"

definition json_object :: "BackupObjectRecord \<Rightarrow> jsval" where
  "json_object b = JObj
     ([(''store'', JStr (bo_store b)), (''key'', JStr (bo_key b)), (''sizeBytes'', json_int (bo_sizeBytes b)),
       (''sha256'', JStr (bo_sha256 b)), (''integrity'', JStr (bo_integrity b))] @
      (case bo_dataBase64 b of None \<Rightarrow> [] | Some d \<Rightarrow> [(''dataBase64'', JStr d)]))"

definition object_of :: "jsval \<Rightarrow> BackupObjectRecord" where
  "object_of v =
     \<lparr>bo_store = str_of (jget v ''store''), bo_key = str_of (jget v ''key''), bo_sizeBytes = int_of (jget v ''sizeBytes''),
      bo_sha256 = str_of (jget v ''sha256''), bo_integrity = str_of (jget v ''integrity''), bo_dataBase64 = as_str (jget v ''dataBase64'')\<rparr>"

definition json_archive :: "StateBackupArchive \<Rightarrow> jsval" where
  "json_archive a = JObj
     [(''version'', ARCHIVE_SCHEMA_VERSION), (''backupId'', JStr (backupId a)), (''createdAt'', json_int (ba_createdAt a)),
      (''project'', JObj [(''orgId'', JStr (ba_orgId a)), (''projectId'', JStr (ba_projectId a)), (''name'', JStr (ba_name a))]),
      (''functions'', JArr (map json_function (ba_functions a))), (''kv'', JArr (map json_kv_entry (ba_kv a))),
      (''objects'', JArr (map json_object (ba_objects a))), (''queues'', JArr (ba_queues a))]"

definition archive_of :: "jsval \<Rightarrow> StateBackupArchive" where
  "archive_of v =
     \<lparr>backupId = str_of (jget v ''backupId''), ba_createdAt = int_of (jget v ''createdAt''),
      ba_orgId = str_of (jget (jget v ''project'') ''orgId''), ba_projectId = str_of (jget (jget v ''project'') ''projectId''),
      ba_name = str_of (jget (jget v ''project'') ''name''),
      ba_functions = map function_of (elements (jget v ''functions'')), ba_kv = map kv_entry_of (elements (jget v ''kv'')),
      ba_objects = map object_of (elements (jget v ''objects'')), ba_queues = elements (jget v ''queues'')\<rparr>"

section \<open>Export\<close>

type_synonym objects = "(string, int list) omap"

record codec =
  computeSha256 :: "int list \<Rightarrow> int list"
  encodeHex :: "int list \<Rightarrow> string"
  encodeBase64 :: "int list \<Rightarrow> string"
  decodeBase64 :: "string \<Rightarrow> int list option"
  serialize :: "jsval \<Rightarrow> int list"

definition MAX_INLINE_OBJECT_BYTES :: int where
  "MAX_INLINE_OBJECT_BYTES = 256 * 1024"

definition hasPathTraversal :: "string \<Rightarrow> bool" where
  "hasPathTraversal s =
     (str_includes s ''..'' \<or> str_includes s [CHR 0x5c] \<or> str_includes s [CHR 0x00] \<or> str_includes (to_lower s) ''%2e%2e'')"

definition validateIdentifier :: "string \<Rightarrow> string \<Rightarrow> unit res" where
  "validateIdentifier i field =
     (let t = trim i in require
       [(t \<noteq> [], ''VALIDATION_FAILED: '' @ field @ '' must be a non-empty string (PLAT-12)''),
        (\<not> (str_includes t ''/'' \<or> hasPathTraversal t \<or> str_includes t '':''),
         ''VALIDATION_FAILED: '' @ field @ '' contains invalid characters or path traversal (PLAT-7, PLAT-12)''),
        (list_all (\<lambda>c. \<not> (code c \<le> 0x1f \<or> code c = 0x7f)) t,
         ''VALIDATION_FAILED: '' @ field @ '' contains control characters (PLAT-7, PLAT-12)'')])"

definition backup_revision :: "RevisionRecord \<Rightarrow> BackupRevisionRecord" where
  "backup_revision r =
     \<lparr>b_id = rev_id r, b_artifactId = rev_artifactId r, b_integrity = rev_integrity r, b_state = rev_state r,
      b_createdAt = rev_createdAt r, b_manifest = rev_manifest r\<rparr>"

definition gather_functions :: "deployments \<Rightarrow> string \<Rightarrow> BackupFunctionRecord list" where
  "gather_functions s project =
     map (\<lambda>fn. \<lparr>bf_name = fn, bf_activeRevisionId = getActivePointer s project fn,
                bf_revisions = map backup_revision (listRevisions s project fn)\<rparr>) (listFunctions s project)"

definition kv_entry :: "string list \<times> jsval \<Rightarrow> BackupKvEntry option" where
  "kv_entry e =
     (if 4 \<le> length (fst e)
      then Some \<lparr>bk_namespace = fst e ! 2, bk_key = drop 3 (fst e), bk_value = snd e, bk_ttl = None, bk_version = 1\<rparr>
      else None)"

text \<open>The loop over the pages of the listing; one page more than there are rows is enough.\<close>

definition gather_kv :: "jsval table \<Rightarrow> int \<Rightarrow> string \<Rightarrow> string \<Rightarrow> BackupKvEntry list option" where
  "gather_kv t now org project =
     map_option (List.map_filter kv_entry) (list_all_pages (Suc (length t)) t now [org, project] (Some 1000) None)"

definition object_prefix :: "string \<Rightarrow> string \<Rightarrow> string" where
  "object_prefix org project = org @ ''/'' @ project @ ''/''"

text \<open>The store and the key of an object below the prefix.\<close>

definition split_object_key :: "string \<Rightarrow> string \<Rightarrow> (string \<times> string) option" where
  "split_object_key pre full =
     (let rel = drop (length pre) full in
      case index_of CHR ''/'' rel of None \<Rightarrow> None | Some i \<Rightarrow> Some (take i rel, drop (Suc i) rel))"

definition object_record :: "codec \<Rightarrow> string \<Rightarrow> string \<Rightarrow> int list \<Rightarrow> BackupObjectRecord" where
  "object_record c st k bytes =
     \<lparr>bo_store = st, bo_key = k, bo_sizeBytes = int (length bytes), bo_sha256 = encodeHex c (computeSha256 c bytes),
      bo_integrity = ''sha256-'' @ encodeBase64 c (computeSha256 c bytes),
      bo_dataBase64 = (if int (length bytes) < MAX_INLINE_OBJECT_BYTES then Some (encodeBase64 c bytes) else None)\<rparr>"

fun gather_objects :: "codec \<Rightarrow> string \<Rightarrow> string list \<Rightarrow> objects \<Rightarrow> BackupObjectRecord list \<times> objects" where
  "gather_objects c pre [] obs = ([], obs)"
| "gather_objects c pre (full # ks) obs =
     (case (if starts_with full pre then split_object_key pre full else None) of
        None \<Rightarrow> gather_objects c pre ks obs
      | Some (st, k) \<Rightarrow>
          (case oget obs full of
             None \<Rightarrow> gather_objects c pre ks obs
           | Some bytes \<Rightarrow>
               let r = object_record c st k bytes;
                   obs' = (if bo_dataBase64 r = None then oset (''artifacts/'' @ bo_sha256 r) bytes obs else obs);
                   (rs, obs'') = gather_objects c pre ks obs' in
               (r # rs, obs'')))"

definition listed_keys :: "objects \<Rightarrow> string \<Rightarrow> string list" where
  "listed_keys obs pre = sort (filter (\<lambda>k. starts_with k pre) (map fst obs))"

definition bad_storage_key :: "string \<Rightarrow> bool" where
  "bad_storage_key k = (starts_with k ''/'' \<or> str_includes k ''..'' \<or> str_includes k [CHR 0x5c] \<or> str_includes k [CHR 0x00] \<or> trim k \<noteq> k)"

record backup_state =
  bs_dep :: deployments
  bs_kv :: "jsval table"
  bs_obj :: objects

definition project_archive :: "string \<Rightarrow> int \<Rightarrow> string \<Rightarrow> string \<Rightarrow> BackupFunctionRecord list \<Rightarrow> BackupKvEntry list \<Rightarrow> BackupObjectRecord list \<Rightarrow> StateBackupArchive" where
  "project_archive i now org project fs kv bs =
     \<lparr>backupId = i, ba_createdAt = now, ba_orgId = org, ba_projectId = project, ba_name = project,
      ba_functions = fs, ba_kv = kv, ba_objects = bs, ba_queues = []\<rparr>"

text \<open>
  \<open>None\<close> as the outer result would be a listing that does not end; \<open>gather_kv\<close> is shown to return.
\<close>

definition exportProject ::
  "codec \<Rightarrow> int \<Rightarrow> int list \<Rightarrow> string \<Rightarrow> string \<Rightarrow> string option \<Rightarrow> backup_state \<Rightarrow> (StateBackupArchive res \<times> backup_state) option" where
  "exportProject c now idBytes org project storageKey s =
     (case bind_res (validateIdentifier org ''orgId'') (\<lambda>_. validateIdentifier project ''projectId'') of
        Inl e \<Rightarrow> Some (Inl e, s)
      | Inr _ \<Rightarrow>
          (case gather_kv (bs_kv s) now org project of
             None \<Rightarrow> None
           | Some kv \<Rightarrow>
               let pre = object_prefix org project;
                   (bs, obs) = gather_objects c pre (listed_keys (bs_obj s) pre) (bs_obj s);
                   a = project_archive (''bak_'' @ generateUlid now idBytes) now org project (gather_functions (bs_dep s) project) kv bs;
                   s1 = s\<lparr>bs_obj := obs\<rparr> in
               (case validateBackupArchive (json_archive a) of
                  Inl e \<Rightarrow> Some (Inl e, s1)
                | Inr _ \<Rightarrow>
                    if (case storageKey of None \<Rightarrow> False | Some k \<Rightarrow> bad_storage_key k)
                    then Some (Inl (failed ''VALIDATION_FAILED: backupStorageKey contains path traversal or invalid characters (PLAT-7, PLAT-12)''), s1)
                    else Some (Inr a, s1\<lparr>bs_obj := oset (or_default storageKey (''backups/'' @ backupId a @ ''.json''))
                                                     (serialize c (json_archive a)) obs\<rparr>))))"

section \<open>Import\<close>

fun run_each :: "('a \<Rightarrow> 's \<Rightarrow> unit res \<times> 's) \<Rightarrow> 'a list \<Rightarrow> 's \<Rightarrow> unit res \<times> 's" where
  "run_each f [] s = (Inr (), s)"
| "run_each f (x # xs) s = (case f x s of (Inl e, s') \<Rightarrow> (Inl e, s') | (Inr _, s') \<Rightarrow> run_each f xs s')"

definition check_kv_paths :: "BackupKvEntry \<Rightarrow> unit res" where
  "check_kv_paths e =
     bind_res (require [(\<not> hasPathTraversal (bk_namespace e), ''VALIDATION_FAILED: Path traversal detected in KV namespace (PLAT-7, PLAT-12)'')])
       (\<lambda>_. each_res (\<lambda>seg. require [(\<not> hasPathTraversal seg, ''VALIDATION_FAILED: Path traversal detected in KV key segment (PLAT-7, PLAT-12)'')]) (bk_key e))"

definition check_object_paths :: "BackupObjectRecord \<Rightarrow> unit res" where
  "check_object_paths b = require
     [(\<not> (hasPathTraversal (bo_store b) \<or> str_includes (bo_store b) ''/'' \<or> str_includes (bo_store b) [CHR 0x5c]),
       ''VALIDATION_FAILED: Path traversal or slash detected in Object store (PLAT-7, PLAT-12)''),
      (\<not> (hasPathTraversal (bo_key b) \<or> starts_with (bo_key b) ''/'' \<or> starts_with (bo_key b) [CHR 0x5c]),
       ''VALIDATION_FAILED: Path traversal or leading slash detected in Object key (PLAT-7, PLAT-12)'')]"

definition check_payload :: "objects \<Rightarrow> BackupObjectRecord \<Rightarrow> unit res" where
  "check_payload obs b = require
     [(bo_dataBase64 b \<noteq> None \<or> oget obs (''artifacts/'' @ bo_sha256 b) \<noteq> None,
       ''VALIDATION_FAILED: Large object payload not found in content-addressed storage (OBJ-4, PLAT-12)'')]"

definition check_revision :: "deployments \<Rightarrow> string \<Rightarrow> string \<times> BackupRevisionRecord \<Rightarrow> unit res" where
  "check_revision d project fr =
     (case getRevision d project (fst fr) (b_id (snd fr)) of
        None \<Rightarrow> Inr ()
      | Some e \<Rightarrow> guard_res (rev_artifactId e \<noteq> b_artifactId (snd fr))
          (throw_rf CONFLICT ''CONFLICT: Revision already exists in target project with conflicting artifactId (FN-3, PLAT-12)''))"

definition target_key :: "string \<Rightarrow> string \<Rightarrow> BackupKvEntry \<Rightarrow> string list" where
  "target_key org project e = [org, project, bk_namespace e] @ bk_key e"

text \<open>Reading a key may drop its expired row; a stored null reads as absent.\<close>

fun check_keys_free :: "int \<Rightarrow> string list list \<Rightarrow> string list \<Rightarrow> jsval table \<Rightarrow> unit res \<times> jsval table" where
  "check_keys_free now [] seen t = (Inr (), t)"
| "check_keys_free now (k # ks) seen t =
     (let text = join_with ''/'' k in
      if text \<in> set seen then (Inl (throw_rf CONFLICT ''CONFLICT: Duplicate KV key in archive without overwrite (PLAT-12, ADR-0002)''), t)
      else case kv_get t now k of
        Inl e \<Rightarrow> (Inl e, t)
      | Inr (v, t') \<Rightarrow>
          if v \<noteq> None \<and> v \<noteq> Some JNull
          then (Inl (throw_rf CONFLICT ''CONFLICT: Target KV key already exists (PLAT-12, ADR-0002)''), t')
          else check_keys_free now ks (text # seen) t')"

definition archive_revisions :: "StateBackupArchive \<Rightarrow> (string \<times> BackupRevisionRecord) list" where
  "archive_revisions a = concat (map (\<lambda>f. map (\<lambda>r. (bf_name f, r)) (bf_revisions f)) (ba_functions a))"

definition static_checks :: "string \<Rightarrow> StateBackupArchive \<Rightarrow> backup_state \<Rightarrow> unit res" where
  "static_checks project a s =
     bind_res (each_res check_kv_paths (ba_kv a)) (\<lambda>_.
     bind_res (each_res check_object_paths (ba_objects a)) (\<lambda>_.
     bind_res (each_res (check_payload (bs_obj s)) (ba_objects a)) (\<lambda>_.
     each_res (check_revision (bs_dep s) project) (archive_revisions a))))"

definition precheck ::
  "int \<Rightarrow> string \<Rightarrow> string \<Rightarrow> bool \<Rightarrow> StateBackupArchive \<Rightarrow> backup_state \<Rightarrow> unit res \<times> backup_state" where
  "precheck now org project overwrite a s =
     (case static_checks project a s of
        Inl e \<Rightarrow> (Inl e, s)
      | Inr _ \<Rightarrow>
          if overwrite then (Inr (), s)
          else let (u, t) = check_keys_free now (map (target_key org project) (ba_kv a)) [] (bs_kv s) in (u, s\<lparr>bs_kv := t\<rparr>))"

definition restored_record :: "string \<Rightarrow> string \<Rightarrow> BackupRevisionRecord \<Rightarrow> RevisionRecord" where
  "restored_record project fn r =
     \<lparr>rev_id = b_id r, rev_project = project, rev_functionName = fn, rev_artifactId = b_artifactId r, rev_integrity = b_integrity r,
      rev_state = b_state r, rev_createdAt = b_createdAt r, rev_manifest = b_manifest r\<rparr>"

definition restore_function :: "string \<Rightarrow> BackupFunctionRecord \<Rightarrow> backup_state \<Rightarrow> unit res \<times> backup_state" where
  "restore_function project f =
     run_each (\<lambda>r s. case restoreRevision project (bf_name f) (restored_record project (bf_name f) r)
                          (bf_activeRevisionId f = Some (b_id r)) (bs_dep s) of
                 (u, d) \<Rightarrow> (u, s\<lparr>bs_dep := d\<rparr>)) (bf_revisions f)"

definition restore_kv :: "int \<Rightarrow> string \<Rightarrow> string \<Rightarrow> BackupKvEntry \<Rightarrow> backup_state \<Rightarrow> unit res \<times> backup_state" where
  "restore_kv now org project e s =
     (case kv_set (bs_kv s) now (target_key org project e) (bk_value e) (bk_ttl e) of
        Inl x \<Rightarrow> (Inl x, s)
      | Inr t \<Rightarrow> (Inr (), s\<lparr>bs_kv := t\<rparr>))"

definition restore_object :: "codec \<Rightarrow> string \<Rightarrow> string \<Rightarrow> BackupObjectRecord \<Rightarrow> backup_state \<Rightarrow> unit res \<times> backup_state" where
  "restore_object c org project b s =
     (let target = object_prefix org project @ bo_store b @ ''/'' @ bo_key b;
          verified = (\<lambda>bytes m. if encodeHex c (computeSha256 c bytes) \<noteq> bo_sha256 b then (Inl (failed m), s)
                                else (Inr (), s\<lparr>bs_obj := oset target bytes (bs_obj s)\<rparr>)) in
      case bo_dataBase64 b of
        Some d \<Rightarrow>
          (case decodeBase64 c d of
             None \<Rightarrow> (Inl (Foreign ''TypeError''), s)
           | Some bytes \<Rightarrow> verified bytes ''VALIDATION_FAILED: Inline object integrity verification failed (OBJ-4, PLAT-12)'')
      | None \<Rightarrow>
          (case oget (bs_obj s) (''artifacts/'' @ bo_sha256 b) of
             None \<Rightarrow> (Inl (failed ''VALIDATION_FAILED: Large object payload not found in content-addressed storage (OBJ-4, PLAT-12)''), s)
           | Some bytes \<Rightarrow> verified bytes ''VALIDATION_FAILED: Large object integrity verification failed (OBJ-4, PLAT-12)''))"

definition restore_all :: "codec \<Rightarrow> int \<Rightarrow> string \<Rightarrow> string \<Rightarrow> StateBackupArchive \<Rightarrow> backup_state \<Rightarrow> unit res \<times> backup_state" where
  "restore_all c now org project a s =
     (case run_each (restore_function project) (ba_functions a) s of
        (Inl e, s1) \<Rightarrow> (Inl e, s1)
      | (Inr _, s1) \<Rightarrow>
          (case run_each (restore_kv now org project) (ba_kv a) s1 of
             (Inl e, s2) \<Rightarrow> (Inl e, s2)
           | (Inr _, s2) \<Rightarrow> run_each (restore_object c org project) (ba_objects a) s2))"

record ImportProjectResult =
  restoredRevisions :: nat
  restoredKvKeys :: nat
  restoredObjects :: nat
  restoredQueues :: nat

definition import_checks :: "string \<Rightarrow> string \<Rightarrow> jsval \<Rightarrow> unit res" where
  "import_checks org project raw =
     bind_res (validateIdentifier org ''targetOrgId'') (\<lambda>_.
     bind_res (validateIdentifier project ''targetProjectId'') (\<lambda>_.
     bind_res (validateBackupArchive raw) (\<lambda>_.
     bind_res (validateIdentifier (ba_orgId (archive_of raw)) ''archive.project.orgId'') (\<lambda>_.
     validateIdentifier (ba_projectId (archive_of raw)) ''archive.project.projectId''))))"

definition importProject ::
  "codec \<Rightarrow> int \<Rightarrow> string \<Rightarrow> string \<Rightarrow> jsval \<Rightarrow> bool \<Rightarrow> backup_state \<Rightarrow> ImportProjectResult res \<times> backup_state" where
  "importProject c now org project raw overwrite s =
     (case import_checks org project raw of
        Inl e \<Rightarrow> (Inl e, s)
      | Inr _ \<Rightarrow>
          let a = archive_of raw in
          (case precheck now org project overwrite a s of
             (Inl e, s1) \<Rightarrow> (Inl e, s1)
           | (Inr _, s1) \<Rightarrow>
               (case restore_all c now org project a s1 of
                  (Inl e, s2) \<Rightarrow> (Inl e, s2)
                | (Inr _, s2) \<Rightarrow>
                    (Inr \<lparr>restoredRevisions = length (archive_revisions a), restoredKvKeys = length (ba_kv a),
                          restoredObjects = length (ba_objects a), restoredQueues = length (ba_queues a)\<rparr>, s2))))"


section \<open>Reading back a written archive\<close>

lemma items_JArr [simp]: "elements (JArr xs) = xs"
  by (simp add: elements_def)

lemma int_of_json_int [simp]: "int_of (json_int n) = n"
  by (simp add: int_of_def json_int_def)

lemma str_of_JStr [simp]: "str_of (JStr s) = s"
  by (simp add: str_of_def)

lemma strs_of_json_strs [simp]: "strs_of (json_strs xs) = xs"
  by (cases xs) (simp_all add: strs_of_def json_strs_def comp_def)

lemma manifest_of_json [simp]: "manifest_of (json_manifest m) = m"
proof (cases m)
  case (Some x)
  then show ?thesis by (cases "m_permissions x") (auto simp: manifest_of_def json_manifest_def)
qed (simp add: manifest_of_def json_manifest_def)

lemma state_of_name [simp]: "state_of (state_name st) = st"
  by (cases st) (simp_all add: state_of_def)

lemma revision_of_json [simp]: "revision_of (json_revision r) = r"
  by (simp add: revision_of_def json_revision_def)

lemma function_of_json [simp]: "function_of (json_function f) = f"
  by (cases "bf_activeRevisionId f") (simp_all add: function_of_def json_function_def comp_def)

lemma kv_entry_of_json [simp]: "kv_entry_of (json_kv_entry e) = e"
  by (cases "bk_ttl e") (simp_all add: kv_entry_of_def json_kv_entry_def comp_def json_int_def int_of_def)

lemma object_of_json [simp]: "object_of (json_object b) = b"
  by (cases "bo_dataBase64 b") (simp_all add: object_of_def json_object_def)

lemma archive_of_json [simp]: "archive_of (json_archive a) = a"
  by (simp add: archive_of_def json_archive_def comp_def)

section \<open>An import stays within its target\<close>

text \<open>The states agree outside project \<open>project\<close> of organisation \<open>org\<close>, from \<open>now\<close> on.\<close>

definition same_outside :: "int \<Rightarrow> string \<Rightarrow> string \<Rightarrow> backup_state \<Rightarrow> backup_state \<Rightarrow> bool" where
  "same_outside now org project s s' =
     ((\<forall>n k. now \<le> n \<longrightarrow> take 2 k \<noteq> [org, project] \<longrightarrow> kv_read (bs_kv s') n k = kv_read (bs_kv s) n k) \<and>
      (\<forall>k. \<not> starts_with k (object_prefix org project) \<longrightarrow> oget (bs_obj s') k = oget (bs_obj s) k) \<and>
      (\<forall>p. p \<noteq> project \<longrightarrow> inner (revisions (bs_dep s')) p = inner (revisions (bs_dep s)) p \<and>
             inner (activePointers (bs_dep s')) p = inner (activePointers (bs_dep s)) p) \<and>
      projectRoutes (bs_dep s') = projectRoutes (bs_dep s) \<and> projectMetadata (bs_dep s') = projectMetadata (bs_dep s))"

lemma same_outside_refl [simp]: "same_outside now org project s s"
  by (simp add: same_outside_def)

lemma same_outside_trans: "same_outside now org project s s1 \<Longrightarrow> same_outside now org project s1 s2 \<Longrightarrow> same_outside now org project s s2"
  by (simp add: same_outside_def)

lemma run_each_inv:
  assumes "\<And>x s. P s \<Longrightarrow> P (snd (f x s))" "P s"
  shows "P (snd (run_each f xs s))"
  using assms(2)
proof (induction xs arbitrary: s)
  case (Cons x xs)
  then have "P (snd (f x s))" using assms(1) by blast
  then show ?case using Cons.IH by (cases "f x s") (auto split: sum.split)
qed simp

lemma same_outside_each:
  assumes "\<And>x s. same_outside now org project s (snd (f x s))"
  shows "same_outside now org project s (snd (run_each f xs s))"
  using run_each_inv[where P = "same_outside now org project s" and f = f] assms same_outside_trans same_outside_refl by metis

lemma restoreRevision_outside:
  assumes "restoreRevision project fn r act d = (u, d')"
  shows "p \<noteq> project \<Longrightarrow> inner (revisions d') p = inner (revisions d) p"
    "p \<noteq> project \<Longrightarrow> inner (activePointers d') p = inner (activePointers d) p"
    "projectRoutes d' = projectRoutes d" "projectMetadata d' = projectMetadata d"
  using assms
  by (auto simp: restoreRevision_def Let_def saveRevisionRecord_def setActivePointer_def schedulePersist_def
      split: option.splits if_splits)

lemma restore_function_outside: "same_outside now org project s (snd (restore_function project f s))"
  unfolding restore_function_def
proof (rule same_outside_each)
  fix r s
  show "same_outside now org project s (snd (case restoreRevision project (bf_name f) (restored_record project (bf_name f) r)
                          (bf_activeRevisionId f = Some (b_id r)) (bs_dep s) of (u, d) \<Rightarrow> (u, s\<lparr>bs_dep := d\<rparr>)))"
    using restoreRevision_outside[of project "bf_name f" "restored_record project (bf_name f) r" "bf_activeRevisionId f = Some (b_id r)" "bs_dep s"]
    by (auto simp: same_outside_def split: prod.split)
qed

lemma restore_kv_outside: "same_outside now org project s (snd (restore_kv now org project e s))"
proof -
  have "take 2 k \<noteq> [org, project] \<Longrightarrow> k \<noteq> target_key org project e" for k by (auto simp: target_key_def)
  then show ?thesis
    by (auto simp: same_outside_def restore_kv_def kv_set_def res_simps kv_read_upsert split: sum.split)
qed

lemma restore_object_outside: "same_outside now org project s (snd (restore_object c org project b s))"
proof -
  have "\<not> starts_with k (object_prefix org project) \<Longrightarrow> k \<noteq> object_prefix org project @ x" for k x by auto
  then show ?thesis
    by (auto simp: same_outside_def restore_object_def Let_def split: option.split)
qed

lemma check_keys_free_reads: "now \<le> n \<Longrightarrow> kv_read (snd (check_keys_free now ks seen t)) n k = kv_read t n k"
proof (induction now ks seen t rule: check_keys_free.induct)
  case (2 now k0 ks seen t)
  then show ?case by (auto simp: Let_def kv_get_Inr(2) split: sum.split)
qed simp

text \<open>What the checks before the restore may change: rows that have expired.\<close>

lemma precheck_unchanged:
  assumes "precheck now org project overwrite a s = (u, s')"
  shows "bs_dep s' = bs_dep s" "bs_obj s' = bs_obj s" "now \<le> n \<Longrightarrow> kv_read (bs_kv s') n k = kv_read (bs_kv s) n k"
proof -
  have "s' = s \<or> s' = s\<lparr>bs_kv := snd (check_keys_free now (map (target_key org project) (ba_kv a)) [] (bs_kv s))\<rparr>"
    using assms by (auto simp: precheck_def Let_def split: sum.splits if_splits prod.splits)
  then show "bs_dep s' = bs_dep s" "bs_obj s' = bs_obj s" "now \<le> n \<Longrightarrow> kv_read (bs_kv s') n k = kv_read (bs_kv s) n k"
    using check_keys_free_reads by auto
qed

lemma restore_all_outside: "same_outside now org project s (snd (restore_all c now org project a s))"
proof -
  obtain u1 s1 where 1: "run_each (restore_function project) (ba_functions a) s = (u1, s1)" by (meson surj_pair)
  obtain u2 s2 where 2: "run_each (restore_kv now org project) (ba_kv a) s1 = (u2, s2)" by (meson surj_pair)
  obtain u3 s3 where 3: "run_each (restore_object c org project) (ba_objects a) s2 = (u3, s3)" by (meson surj_pair)
  have a: "same_outside now org project s s1" using same_outside_each[where f = "restore_function project" and xs = "ba_functions a" and s = s, OF restore_function_outside] 1 by simp
  have b: "same_outside now org project s1 s2" using same_outside_each[where f = "restore_kv now org project" and xs = "ba_kv a" and s = s1, OF restore_kv_outside] 2 by simp
  have c: "same_outside now org project s2 s3" using same_outside_each[where f = "restore_object c org project" and xs = "ba_objects a" and s = s2, OF restore_object_outside] 3 by simp
  show ?thesis using a same_outside_trans[OF a b] same_outside_trans[OF same_outside_trans[OF a b] c]
    by (auto simp: restore_all_def 1 2 3 split: sum.split)
qed

text \<open>
  C6: An import changes nothing outside its target: whatever the archive contains and whether the
  import succeeds or fails half-way, the live keys of other organisations and projects, the objects
  outside the target's prefix, and the revisions, active pointers, routes and metadata of other projects stay as they were.
\<close>

theorem import_confined_to_target:
  "same_outside now org project s (snd (importProject c now org project raw overwrite s))"
proof (cases "import_checks org project raw")
  case (Inr u)
  obtain u1 s1 where p: "precheck now org project overwrite (archive_of raw) s = (u1, s1)" by (meson surj_pair)
  have a: "same_outside now org project s s1" using precheck_unchanged[OF p] by (simp add: same_outside_def)
  have b: "same_outside now org project s1 (snd (restore_all c now org project (archive_of raw) s1))" by (rule restore_all_outside)
  show ?thesis using a same_outside_trans[OF a b] Inr p
    by (cases "restore_all c now org project (archive_of raw) s1") (auto simp: importProject_def Let_def split: sum.split)
qed (simp add: importProject_def)

section \<open>What a restore does\<close>

definition restore_rev :: "string \<Rightarrow> BackupFunctionRecord \<times> BackupRevisionRecord \<Rightarrow> backup_state \<Rightarrow> unit res \<times> backup_state" where
  "restore_rev project fr s =
     (case restoreRevision project (bf_name (fst fr)) (restored_record project (bf_name (fst fr)) (snd fr))
             (bf_activeRevisionId (fst fr) = Some (b_id (snd fr))) (bs_dep s) of (u, d) \<Rightarrow> (u, s\<lparr>bs_dep := d\<rparr>))"

definition flat :: "BackupFunctionRecord list \<Rightarrow> (BackupFunctionRecord \<times> BackupRevisionRecord) list" where
  "flat fs = concat (map (\<lambda>f. map (Pair f) (bf_revisions f)) fs)"

lemma run_each_append:
  "run_each f (xs @ ys) s = (case run_each f xs s of (Inl e, s') \<Rightarrow> (Inl e, s') | (Inr _, s') \<Rightarrow> run_each f ys s')"
  by (induction xs arbitrary: s) (auto split: prod.split sum.split)

lemma run_each_map: "run_each f (map g xs) s = run_each (\<lambda>x. f (g x)) xs s"
  by (induction xs arbitrary: s) (auto split: prod.split sum.split)

lemma run_each_flat: "run_each (restore_function project) fs s = run_each (restore_rev project) (flat fs) s"
proof (induction fs arbitrary: s)
  case (Cons f fs)
  have "run_each (restore_rev project) (map (Pair f) (bf_revisions f)) s = restore_function project f s" for s
    by (simp add: run_each_map restore_function_def restore_rev_def[abs_def])
  then show ?case using Cons by (simp add: flat_def run_each_append split: prod.split sum.split)
qed (simp add: flat_def)

lemma run_each_ok:
  assumes "\<And>x s. x \<in> set xs \<Longrightarrow> P s \<Longrightarrow> fst (f x s) = Inr () \<and> P (snd (f x s))" "P s"
  shows "fst (run_each f xs s) = Inr ()" "P (snd (run_each f xs s))"
proof -
  have "fst (run_each f xs s) = Inr () \<and> P (snd (run_each f xs s))" using assms
  proof (induction xs arbitrary: s)
    case (Cons x xs)
    then have "fst (f x s) = Inr ()" "P (snd (f x s))" by simp_all
    then show ?case using Cons by (cases "f x s") simp
  qed simp
  then show "fst (run_each f xs s) = Inr ()" "P (snd (run_each f xs s))" by simp_all
qed

text \<open>The first record of an identifier is kept, an existing one before all; the last active one is pointed to.\<close>

definition restored_rev where
  "restored_rev project xs fn i = map_option (\<lambda>fr. restored_record project fn (snd fr)) (find (\<lambda>fr. bf_name (fst fr) = fn \<and> b_id (snd fr) = i) xs)"

definition pointed where
  "pointed xs fn = map_option (\<lambda>fr. b_id (snd fr)) (find (\<lambda>fr. bf_name (fst fr) = fn \<and> bf_activeRevisionId (fst fr) = Some (b_id (snd fr))) (rev xs))"

lemma restore_rev_effect:
  assumes "restore_rev project fr s = (Inr (), s')"
  shows "getRevision (bs_dep s') project fn i = or_else (getRevision (bs_dep s) project fn i) (restored_rev project [fr] fn i)"
    and "getActivePointer (bs_dep s') project fn = or_else (pointed [fr] fn) (getActivePointer (bs_dep s) project fn)"
    and "bs_kv s' = bs_kv s" "bs_obj s' = bs_obj s"
  using assms
  by (auto simp: restore_rev_def restoreRevision_def Let_def restored_rev_def pointed_def restored_record_def or_else_def
      split: option.splits if_splits prod.splits)

lemma or_else_assoc: "or_else (or_else a b) c = or_else a (or_else b c)"
  by (cases a) simp_all

lemma restore_revs_effect:
  assumes "run_each (restore_rev project) xs s = (Inr (), s')"
  shows "getRevision (bs_dep s') project fn i = or_else (getRevision (bs_dep s) project fn i) (restored_rev project xs fn i)"
    and "getActivePointer (bs_dep s') project fn = or_else (pointed xs fn) (getActivePointer (bs_dep s) project fn)"
    and "bs_kv s' = bs_kv s" "bs_obj s' = bs_obj s"
proof -
  have "getRevision (bs_dep s') project fn i = or_else (getRevision (bs_dep s) project fn i) (restored_rev project xs fn i) \<and>
    getActivePointer (bs_dep s') project fn = or_else (pointed xs fn) (getActivePointer (bs_dep s) project fn) \<and>
    bs_kv s' = bs_kv s \<and> bs_obj s' = bs_obj s"
    using assms
  proof (induction xs arbitrary: s)
    case Nil
    then show ?case by (auto simp: restored_rev_def pointed_def or_else_def split: option.split)
  next
    case (Cons fr xs)
    obtain s1 where s1: "restore_rev project fr s = (Inr (), s1)" and r: "run_each (restore_rev project) xs s1 = (Inr (), s')"
      using Cons.prems by (auto split: prod.splits sum.splits)
    have a: "restored_rev project (fr # xs) fn i = or_else (restored_rev project [fr] fn i) (restored_rev project xs fn i)"
      by (simp add: restored_rev_def)
    have b: "pointed (fr # xs) fn = or_else (pointed xs fn) (pointed [fr] fn)"
      by (simp add: pointed_def find_append) (cases "find (\<lambda>fr. bf_name (fst fr) = fn \<and> bf_activeRevisionId (fst fr) = Some (b_id (snd fr))) (rev xs)"; simp)
    show ?case using Cons.IH[OF r] restore_rev_effect[OF s1] unfolding a b by (simp add: or_else_assoc)
  qed
  then show "getRevision (bs_dep s') project fn i = or_else (getRevision (bs_dep s) project fn i) (restored_rev project xs fn i)"
    "getActivePointer (bs_dep s') project fn = or_else (pointed xs fn) (getActivePointer (bs_dep s) project fn)"
    "bs_kv s' = bs_kv s" "bs_obj s' = bs_obj s" by blast+
qed

lemma restore_kv_effect:
  assumes "run_each (restore_kv now org project) es s = (Inr (), s')" "distinct (map (target_key org project) es)" "e \<in> set es"
    and "\<And>t. bk_ttl e = Some t \<Longrightarrow> n < now + t * 1000"
  shows "kv_read (bs_kv s') n (target_key org project e) = Some (bk_value e)"
proof -
  have other: "kv_read (bs_kv s2) n k = kv_read (bs_kv s1) n k"
    if "run_each (restore_kv now org project) xs s1 = (Inr (), s2)" "k \<notin> set (map (target_key org project) xs)" for xs k s1 s2
    using that
  proof (induction xs arbitrary: s1)
    case (Cons x xs)
    obtain s3 where s3: "restore_kv now org project x s1 = (Inr (), s3)" and r: "run_each (restore_kv now org project) xs s3 = (Inr (), s2)"
      using Cons.prems by (auto split: prod.splits sum.splits)
    then show ?case using Cons by (auto simp: restore_kv_def kv_set_Inr split: sum.splits)
  qed simp
  show ?thesis using assms(1,2,3)
  proof (induction es arbitrary: s)
    case (Cons x xs)
    obtain s1 where s1: "restore_kv now org project x s = (Inr (), s1)" and r: "run_each (restore_kv now org project) xs s1 = (Inr (), s')"
      using Cons.prems by (auto split: prod.splits sum.splits)
    show ?case
    proof (cases "e = x")
      case True
      then have "target_key org project e \<notin> set (map (target_key org project) xs)" using Cons.prems(2) by simp
      then have "kv_read (bs_kv s') n (target_key org project e) = kv_read (bs_kv s1) n (target_key org project e)" by (rule other[OF r])
      moreover have "kv_read (bs_kv s1) n (target_key org project e) = Some (bk_value e)"
        using s1 True assms(4) by (force simp: restore_kv_def kv_set_Inr split: sum.splits option.splits)
      ultimately show ?thesis by simp
    next
      case False
      then show ?thesis using Cons r by simp
    qed
  qed simp
qed

lemma restore_kv_frame: "run_each (restore_kv now org project) es s = (u, s') \<Longrightarrow> bs_dep s' = bs_dep s \<and> bs_obj s' = bs_obj s"
  by (induction es arbitrary: s) (auto simp: restore_kv_def split: prod.splits sum.splits)


section \<open>Restoring objects\<close>

definition target_object :: "string \<Rightarrow> string \<Rightarrow> BackupObjectRecord \<Rightarrow> string" where
  "target_object org project b = object_prefix org project @ bo_store b @ ''/'' @ bo_key b"

text \<open>The bytes a record stands for, and whether they are there with the recorded hash.\<close>

definition payload :: "codec \<Rightarrow> objects \<Rightarrow> BackupObjectRecord \<Rightarrow> int list option" where
  "payload c obs b =
     (case (case bo_dataBase64 b of Some d \<Rightarrow> decodeBase64 c d | None \<Rightarrow> oget obs (''artifacts/'' @ bo_sha256 b)) of
        None \<Rightarrow> None
      | Some bytes \<Rightarrow> if encodeHex c (computeSha256 c bytes) = bo_sha256 b then Some bytes else None)"

lemma restore_object_payload:
  "fst (restore_object c org project b s) = Inr () \<longleftrightarrow> payload c (bs_obj s) b \<noteq> None"
  "payload c (bs_obj s) b = Some bytes \<Longrightarrow>
     restore_object c org project b s = (Inr (), s\<lparr>bs_obj := oset (target_object org project b) bytes (bs_obj s)\<rparr>)"
  by (auto simp: restore_object_def payload_def target_object_def Let_def failed_def split: option.splits if_splits)

lemma target_not_artifact:
  assumes "CHR ''/'' \<notin> set h"
  shows "target_object org project b \<noteq> ''artifacts/'' @ h"
proof
  assume e: "target_object org project b = ''artifacts/'' @ h"
  have "count_list (target_object org project b) (CHR ''/'') = count_list (''artifacts/'' @ h) (CHR ''/'')" by (simp only: e)
  moreover have "count_list (''artifacts/'' @ h) (CHR ''/'') = 1" using assms by (simp add: count_notin)
  moreover have "2 \<le> count_list (target_object org project b) (CHR ''/'')"
    by (simp add: target_object_def object_prefix_def)
  ultimately show False by simp
qed

lemma payload_other:
  assumes "CHR ''/'' \<notin> set (bo_sha256 b)"
  shows "payload c (oset (target_object org project x) bytes obs) b = payload c obs b"
proof -
  have "oget (oset (target_object org project x) bytes obs) (''artifacts/'' @ bo_sha256 b) = oget obs (''artifacts/'' @ bo_sha256 b)"
    using not_sym[OF target_not_artifact[OF assms, of org project x]] by (simp del: append_Cons append.simps)
  then show ?thesis by (simp only: payload_def)
qed

lemma restore_objects_effect:
  assumes "\<And>b. b \<in> set bs \<Longrightarrow> payload c (bs_obj s) b \<noteq> None \<and> CHR ''/'' \<notin> set (bo_sha256 b)"
    and "distinct (map (target_object org project) bs)"
  shows "fst (run_each (restore_object c org project) bs s) = Inr ()"
    and "b \<in> set bs \<Longrightarrow> oget (bs_obj (snd (run_each (restore_object c org project) bs s))) (target_object org project b) = payload c (bs_obj s) b"
    and "k \<notin> set (map (target_object org project) bs) \<Longrightarrow> oget (bs_obj (snd (run_each (restore_object c org project) bs s))) k = oget (bs_obj s) k"
    and "bs_dep (snd (run_each (restore_object c org project) bs s)) = bs_dep s"
    and "bs_kv (snd (run_each (restore_object c org project) bs s)) = bs_kv s"
proof -
  have "fst (run_each (restore_object c org project) bs s) = Inr () \<and>
    (\<forall>b\<in>set bs. oget (bs_obj (snd (run_each (restore_object c org project) bs s))) (target_object org project b) = payload c (bs_obj s) b) \<and>
    (\<forall>k. k \<notin> set (map (target_object org project) bs) \<longrightarrow> oget (bs_obj (snd (run_each (restore_object c org project) bs s))) k = oget (bs_obj s) k) \<and>
    bs_dep (snd (run_each (restore_object c org project) bs s)) = bs_dep s \<and> bs_kv (snd (run_each (restore_object c org project) bs s)) = bs_kv s"
    using assms
  proof (induction bs arbitrary: s)
    case (Cons x xs)
    obtain bytes where p: "payload c (bs_obj s) x = Some bytes" using Cons.prems(1)[of x] by auto
    define s1 where "s1 = s\<lparr>bs_obj := oset (target_object org project x) bytes (bs_obj s)\<rparr>"
    have x: "restore_object c org project x s = (Inr (), s1)" using restore_object_payload(2)[OF p] s1_def by simp
    have same: "payload c (bs_obj s1) b = payload c (bs_obj s) b" if "CHR ''/'' \<notin> set (bo_sha256 b)" for b
      using payload_other[OF that] by (simp add: s1_def)
    have ih: "fst (run_each (restore_object c org project) xs s1) = Inr () \<and>
      (\<forall>b\<in>set xs. oget (bs_obj (snd (run_each (restore_object c org project) xs s1))) (target_object org project b) = payload c (bs_obj s1) b) \<and>
      (\<forall>k. k \<notin> set (map (target_object org project) xs) \<longrightarrow> oget (bs_obj (snd (run_each (restore_object c org project) xs s1))) k = oget (bs_obj s1) k) \<and>
      bs_dep (snd (run_each (restore_object c org project) xs s1)) = bs_dep s1 \<and> bs_kv (snd (run_each (restore_object c org project) xs s1)) = bs_kv s1"
      by (rule Cons.IH) (use Cons.prems same in auto)
    show ?case using ih x p same Cons.prems by (auto simp: s1_def)
  qed simp
  then show "fst (run_each (restore_object c org project) bs s) = Inr ()"
    and "b \<in> set bs \<Longrightarrow> oget (bs_obj (snd (run_each (restore_object c org project) bs s))) (target_object org project b) = payload c (bs_obj s) b"
    and "k \<notin> set (map (target_object org project) bs) \<Longrightarrow> oget (bs_obj (snd (run_each (restore_object c org project) bs s))) k = oget (bs_obj s) k"
    and "bs_dep (snd (run_each (restore_object c org project) bs s)) = bs_dep s"
    and "bs_kv (snd (run_each (restore_object c org project) bs s)) = bs_kv s" by blast+
qed


section \<open>An import restores everything or changes nothing\<close>

definition sound_archive :: "codec \<Rightarrow> objects \<Rightarrow> string \<Rightarrow> string \<Rightarrow> StateBackupArchive \<Rightarrow> bool" where
  "sound_archive c obs org project a =
     (distinct (map bf_name (ba_functions a)) \<and> list_all (\<lambda>f. distinct (map b_id (bf_revisions f))) (ba_functions a) \<and>
      distinct (map (target_key org project) (ba_kv a)) \<and> list_all (\<lambda>e. kv_valid (target_key org project e)) (ba_kv a) \<and>
      distinct (map (target_object org project) (ba_objects a)) \<and>
      list_all (\<lambda>b. payload c obs b \<noteq> None \<or> bo_dataBase64 b = None \<and> oget obs (''artifacts/'' @ bo_sha256 b) = None) (ba_objects a))"

definition unchanged :: "int \<Rightarrow> backup_state \<Rightarrow> backup_state \<Rightarrow> bool" where
  "unchanged now s s' = (bs_dep s' = bs_dep s \<and> bs_obj s' = bs_obj s \<and> (\<forall>n k. now \<le> n \<longrightarrow> kv_read (bs_kv s') n k = kv_read (bs_kv s) n k))"

definition revisions_restored :: "string \<Rightarrow> BackupFunctionRecord \<Rightarrow> deployments \<Rightarrow> deployments \<Rightarrow> bool" where
  "revisions_restored project f d d' =
     ((\<forall>r \<in> set (bf_revisions f). \<exists>e. getRevision d' project (bf_name f) (b_id r) = Some e \<and> rev_artifactId e = b_artifactId r \<and>
         (getRevision d project (bf_name f) (b_id r) = None \<longrightarrow> e = restored_record project (bf_name f) r)) \<and>
      (\<forall>i. bf_activeRevisionId f = Some i \<longrightarrow> getActivePointer d' project (bf_name f) = Some i))"

definition all_restored :: "codec \<Rightarrow> int \<Rightarrow> string \<Rightarrow> string \<Rightarrow> StateBackupArchive \<Rightarrow> backup_state \<Rightarrow> backup_state \<Rightarrow> bool" where
  "all_restored c now org project a s s' =
     ((\<forall>f \<in> set (ba_functions a). revisions_restored project f (bs_dep s) (bs_dep s')) \<and>
      (\<forall>e \<in> set (ba_kv a). \<forall>n. (\<forall>t. bk_ttl e = Some t \<longrightarrow> n < now + t * 1000) \<longrightarrow>
         kv_read (bs_kv s') n (target_key org project e) = Some (bk_value e)) \<and>
      (\<forall>b \<in> set (ba_objects a). payload c (bs_obj s) b \<noteq> None \<and>
         oget (bs_obj s') (target_object org project b) = payload c (bs_obj s) b))"

lemma require_Inr [simp]: "require cs = Inr () \<longleftrightarrow> list_all fst cs"
  by (induction cs rule: require.induct) auto

lemma str_such_str_of: "str_such P v \<Longrightarrow> P (str_of v)"
  by (cases v) (simp_all add: str_of_def)

lemma validate_object_hash: "validate_object v = Inr () \<Longrightarrow> SHA256_HEX_REGEX (bo_sha256 (object_of v))"
  by (auto simp: validate_object_def object_of_def simp del: require.simps intro: str_such_str_of)

lemma validated_hashes:
  assumes "import_checks org project raw = Inr ()" "b \<in> set (ba_objects (archive_of raw))"
  shows "CHR ''/'' \<notin> set (bo_sha256 b)"
proof -
  have "validateObjects (jget raw ''objects'') = Inr ()"
    using assms(1) by (simp add: import_checks_def validateBackupArchive_def res_simps)
  then have "\<forall>v \<in> set (elements (jget raw ''objects'')). validate_object v = Inr ()"
    by (simp add: validateObjects_def res_simps)
  then have "SHA256_HEX_REGEX (bo_sha256 b)"
    using assms(2) validate_object_hash by (auto simp: archive_of_def)
  moreover have "\<not> lower_hex (CHR ''/'')" by (simp add: lower_hex_def is_digit_def)
  ultimately show ?thesis by (auto simp: SHA256_HEX_REGEX_def list_all_iff)
qed

lemma validated_active:
  assumes "import_checks org project raw = Inr ()" "f \<in> set (ba_functions (archive_of raw))" "bf_activeRevisionId f = Some i"
  shows "i \<in> set (map b_id (bf_revisions f))"
proof -
  have "validateFunctions (jget raw ''functions'') = Inr ()"
    using assms(1) by (simp add: import_checks_def validateBackupArchive_def res_simps)
  then have v: "\<forall>v \<in> set (elements (jget raw ''functions'')). validate_backup_function v = Inr ()"
    by (simp add: validateFunctions_def res_simps)
  obtain v where f: "f = function_of v" "v \<in> set (elements (jget raw ''functions''))"
    using assms(2) by (auto simp: archive_of_def)
  have a: "jget v ''activeRevisionId'' = JStr i" using assms(3) f by (cases "jget v ''activeRevisionId''") (auto simp: function_of_def)
  have "validate_backup_function v = Inr ()" using v f(2) by blast
  then have "JStr i \<in> set (map (\<lambda>r. jget r ''id'') (elements (jget v ''revisions'')))"
    using a by (simp add: validate_backup_function_def res_simps Let_def del: require.simps)
  then obtain w where w: "w \<in> set (elements (jget v ''revisions''))" "jget w ''id'' = JStr i" by auto
  then have "b_id (revision_of w) = i" by (simp add: revision_of_def)
  then show ?thesis using w(1) f(1) by (auto simp: function_of_def)
qed

lemma same_revision:
  assumes "distinct (map bf_name fs)" "list_all (\<lambda>f. distinct (map b_id (bf_revisions f))) fs"
    and "(f, r) \<in> set (flat fs)" "(f', r') \<in> set (flat fs)" "bf_name f = bf_name f'" "b_id r = b_id r'"
  shows "f = f' \<and> r = r'"
proof -
  have f: "f \<in> set fs" "f' \<in> set fs" "r \<in> set (bf_revisions f)" "r' \<in> set (bf_revisions f')" using assms(3,4) by (auto simp: flat_def)
  then have e: "f = f'" using assms(1,5) by (meson inj_onD distinct_map)
  moreover have "distinct (map b_id (bf_revisions f))" using assms(2) f(1) by (simp add: list_all_iff)
  ultimately show ?thesis using f(3,4) assms(6) by (metis inj_onD distinct_map)
qed

lemma restore_revs_succeed:
  assumes "distinct (map bf_name fs)" "list_all (\<lambda>f. distinct (map b_id (bf_revisions f))) fs"
    and "\<And>f r e. (f, r) \<in> set (flat fs) \<Longrightarrow> getRevision (bs_dep s) project (bf_name f) (b_id r) = Some e \<Longrightarrow> rev_artifactId e = b_artifactId r"
  shows "fst (run_each (restore_rev project) (flat fs) s) = Inr ()"
proof (rule run_each_ok(1)[where P = "\<lambda>s. \<forall>(f, r) \<in> set (flat fs). \<forall>e. getRevision (bs_dep s) project (bf_name f) (b_id r) = Some e \<longrightarrow> rev_artifactId e = b_artifactId r"])
  fix fr and s :: backup_state
  assume fr: "fr \<in> set (flat fs)"
    and P: "\<forall>(f, r) \<in> set (flat fs). \<forall>e. getRevision (bs_dep s) project (bf_name f) (b_id r) = Some e \<longrightarrow> rev_artifactId e = b_artifactId r"
  obtain f r where x: "fr = (f, r)" by (cases fr)
  have ok: "fst (restore_rev project fr s) = Inr ()" using P fr x
    by (auto simp: restore_rev_def restoreRevision_def Let_def restored_record_def split: option.split)
  then obtain s' where s': "restore_rev project fr s = (Inr (), s')" by (cases "restore_rev project fr s") auto
  have "rev_artifactId e = b_artifactId r'" if m: "(f', r') \<in> set (flat fs)" "getRevision (bs_dep s') project (bf_name f') (b_id r') = Some e" for f' r' e
  proof (cases "getRevision (bs_dep s) project (bf_name f') (b_id r')")
    case None
    then have "restored_rev project [fr] (bf_name f') (b_id r') = Some e" using m(2) restore_rev_effect(1)[OF s'] by simp
    then have "bf_name f = bf_name f'" "b_id r = b_id r'" "e = restored_record project (bf_name f') r"
      by (auto simp: restored_rev_def x split: if_splits)
    then show ?thesis using same_revision[OF assms(1,2) _ m(1)] fr x by (auto simp: restored_record_def)
  next
    case (Some e')
    then show ?thesis using m restore_rev_effect(1)[OF s'] P by auto
  qed
  then show "fst (restore_rev project fr s) = Inr () \<and> (\<forall>(f, r) \<in> set (flat fs). \<forall>e.
      getRevision (bs_dep (snd (restore_rev project fr s))) project (bf_name f) (b_id r) = Some e \<longrightarrow> rev_artifactId e = b_artifactId r)"
    using ok s' by auto
qed (use assms(3) in auto)

lemma restored_rev_unique:
  assumes "distinct (map bf_name fs)" "list_all (\<lambda>f. distinct (map b_id (bf_revisions f))) fs" "(f, r) \<in> set (flat fs)"
  shows "restored_rev project (flat fs) (bf_name f) (b_id r) = Some (restored_record project (bf_name f) r)"
proof -
  let ?P = "\<lambda>fr. bf_name (fst fr) = bf_name f \<and> b_id (snd fr) = b_id r"
  obtain fr where fr: "find ?P (flat fs) = Some fr" using assms(3) by (cases "find ?P (flat fs)") (force simp: find_None_iff)+
  then have "?P fr" "fr \<in> set (flat fs)" by (auto simp: find_Some_iff)
  then have "fr = (f, r)" using same_revision[OF assms(1,2), of "fst fr" "snd fr" f r] assms(3) by (cases fr) auto
  then show ?thesis using fr by (simp add: restored_rev_def)
qed

lemma pointed_unique:
  assumes "distinct (map bf_name fs)" "(f, r) \<in> set (flat fs)" "bf_activeRevisionId f = Some (b_id r)"
  shows "pointed (flat fs) (bf_name f) = Some (b_id r)"
proof -
  let ?P = "\<lambda>fr. bf_name (fst fr) = bf_name f \<and> bf_activeRevisionId (fst fr) = Some (b_id (snd fr))"
  obtain fr where fr: "find ?P (rev (flat fs)) = Some fr" using assms(2,3) by (cases "find ?P (rev (flat fs))") (force simp: find_None_iff)+
  then have p: "?P fr" "fr \<in> set (flat fs)" by (auto simp: find_Some_iff dest: nth_mem) (metis length_rev nth_mem set_rev)
  then have "fst fr \<in> set fs" "f \<in> set fs" using assms(2) by (auto simp: flat_def)
  then have "fst fr = f" using assms(1) p(1) by (meson inj_onD distinct_map)
  then show ?thesis using fr p(1) assms(3) by (simp add: pointed_def)
qed

lemma check_keys_free_kv: "run_each (restore_kv now org project) es s = (u, s') \<Longrightarrow>
   list_all (\<lambda>e. kv_valid (target_key org project e)) es \<Longrightarrow> u = Inr ()"
  by (induction es arbitrary: s) (auto simp: restore_kv_def kv_set_def kv_valid_def split: prod.splits sum.splits)

lemma static_checks_pass:
  assumes "static_checks project a s = Inr ()"
  shows "b \<in> set (ba_objects a) \<Longrightarrow> bo_dataBase64 b \<noteq> None \<or> oget (bs_obj s) (''artifacts/'' @ bo_sha256 b) \<noteq> None"
    and "(f, r) \<in> set (flat (ba_functions a)) \<Longrightarrow> getRevision (bs_dep s) project (bf_name f) (b_id r) = Some e \<Longrightarrow> rev_artifactId e = b_artifactId r"
proof -
  have c: "\<forall>b \<in> set (ba_objects a). check_payload (bs_obj s) b = Inr ()"
    and r: "\<forall>fr \<in> set (archive_revisions a). check_revision (bs_dep s) project fr = Inr ()"
    using assms by (simp_all add: static_checks_def res_simps)
  show "b \<in> set (ba_objects a) \<Longrightarrow> bo_dataBase64 b \<noteq> None \<or> oget (bs_obj s) (''artifacts/'' @ bo_sha256 b) \<noteq> None"
    using c by (auto simp: check_payload_def split: if_splits)
  have "(f, r) \<in> set (flat (ba_functions a)) \<Longrightarrow> (bf_name f, r) \<in> set (archive_revisions a)"
    by (auto simp: flat_def archive_revisions_def)
  then show "(f, r) \<in> set (flat (ba_functions a)) \<Longrightarrow> getRevision (bs_dep s) project (bf_name f) (b_id r) = Some e \<Longrightarrow> rev_artifactId e = b_artifactId r"
    using r by (force simp: check_revision_def guard_res_def split: if_splits)
qed

lemma restore_objects_payload:
  assumes "run_each (restore_object c org project) bs s = (Inr (), s')" "\<And>b. b \<in> set bs \<Longrightarrow> CHR ''/'' \<notin> set (bo_sha256 b)" "b \<in> set bs"
  shows "payload c (bs_obj s) b \<noteq> None"
  using assms
proof (induction bs arbitrary: s)
  case (Cons x xs)
  obtain s1 where x: "restore_object c org project x s = (Inr (), s1)" and r: "run_each (restore_object c org project) xs s1 = (Inr (), s')"
    using Cons.prems(1) by (auto split: prod.splits sum.splits)
  obtain bytes where p: "payload c (bs_obj s) x = Some bytes" using restore_object_payload(1)[of c org project x s] x by auto
  have "s1 = s\<lparr>bs_obj := oset (target_object org project x) bytes (bs_obj s)\<rparr>" using restore_object_payload(2)[OF p] x by simp
  then have same: "payload c (bs_obj s1) b = payload c (bs_obj s) b" if "CHR ''/'' \<notin> set (bo_sha256 b)" for b
    using payload_other[OF that] by simp
  show ?case
  proof (cases "b = x")
    case False
    then have b: "b \<in> set xs" using Cons.prems(3) by simp
    then have "payload c (bs_obj s1) b \<noteq> None" using Cons.IH[OF r] Cons.prems(2) by simp
    then show ?thesis using same Cons.prems(2,3) by simp
  qed (use p in simp)
qed simp

text \<open>What a successful restore has done.\<close>

definition distinct_archive :: "string \<Rightarrow> string \<Rightarrow> StateBackupArchive \<Rightarrow> bool" where
  "distinct_archive org project a =
     (distinct (map bf_name (ba_functions a)) \<and> list_all (\<lambda>f. distinct (map b_id (bf_revisions f))) (ba_functions a) \<and>
      distinct (map (target_key org project) (ba_kv a)) \<and> distinct (map (target_object org project) (ba_objects a)))"

lemma restore_all_effect:
  assumes ra: "restore_all c now org project a s = (Inr (), s')" and da: "distinct_archive org project a"
    and p: "static_checks project a s = Inr ()"
    and h: "\<And>b. b \<in> set (ba_objects a) \<Longrightarrow> CHR ''/'' \<notin> set (bo_sha256 b)"
    and act: "\<And>f i. f \<in> set (ba_functions a) \<Longrightarrow> bf_activeRevisionId f = Some i \<Longrightarrow> i \<in> set (map b_id (bf_revisions f))"
  shows "all_restored c now org project a s s'"
proof -
  obtain s1 s2 where 1: "run_each (restore_rev project) (flat (ba_functions a)) s = (Inr (), s1)"
    and 2: "run_each (restore_kv now org project) (ba_kv a) s1 = (Inr (), s2)"
    and 3: "run_each (restore_object c org project) (ba_objects a) s2 = (Inr (), s')"
    using ra by (auto simp: restore_all_def run_each_flat split: prod.splits sum.splits)
  note e1 = restore_revs_effect[OF 1]
  have f2: "bs_dep s2 = bs_dep s1" "bs_obj s2 = bs_obj s" using restore_kv_frame[OF 2] e1(4) by simp_all
  have pay: "payload c (bs_obj s2) b \<noteq> None \<and> CHR ''/'' \<notin> set (bo_sha256 b)" if "b \<in> set (ba_objects a)" for b
    using restore_objects_payload[OF 3 h that] h[OF that] by simp
  note dd = da[unfolded distinct_archive_def]
  have dt: "distinct (map (target_object org project) (ba_objects a))" using dd by blast
  note e3 = restore_objects_effect[OF pay dt, unfolded 3 snd_conv]
  have "revisions_restored project f (bs_dep s) (bs_dep s')" if f: "f \<in> set (ba_functions a)" for f
    unfolding revisions_restored_def
  proof (intro conjI ballI allI impI)
    fix r assume "r \<in> set (bf_revisions f)"
    then have m: "(f, r) \<in> set (flat (ba_functions a))" using f by (auto simp: flat_def)
    have "restored_rev project (flat (ba_functions a)) (bf_name f) (b_id r) = Some (restored_record project (bf_name f) r)"
      using restored_rev_unique[OF _ _ m] dd by blast
    then show "\<exists>e. getRevision (bs_dep s') project (bf_name f) (b_id r) = Some e \<and> rev_artifactId e = b_artifactId r \<and>
        (getRevision (bs_dep s) project (bf_name f) (b_id r) = None \<longrightarrow> e = restored_record project (bf_name f) r)"
      using e1(1)[of "bf_name f" "b_id r"] static_checks_pass(2)[OF p m] e3(4) f2(1)
      by (cases "getRevision (bs_dep s) project (bf_name f) (b_id r)") (auto simp: restored_record_def)
  next
    fix i assume i: "bf_activeRevisionId f = Some i"
    then obtain r where r: "r \<in> set (bf_revisions f)" "b_id r = i" using act[OF f i] by auto
    then have "pointed (flat (ba_functions a)) (bf_name f) = Some i"
      using pointed_unique[of "ba_functions a" f r] f i dd by (auto simp: flat_def)
    then show "getActivePointer (bs_dep s') project (bf_name f) = Some i" using e1(2)[of "bf_name f"] e3(4) f2(1) by simp
  qed
  moreover have "kv_read (bs_kv s') n (target_key org project e) = Some (bk_value e)"
    if "e \<in> set (ba_kv a)" "\<forall>t. bk_ttl e = Some t \<longrightarrow> n < now + t * 1000" for e n
    using restore_kv_effect[OF 2 _ that(1), of n] that(2) dd e3(5) by simp
  ultimately show ?thesis using e3(2) pay f2 by (auto simp: all_restored_def)
qed

lemma restore_all_succeeds:
  assumes s: "sound_archive c (bs_obj s) org project a" and p: "static_checks project a s = Inr ()"
    and h: "\<And>b. b \<in> set (ba_objects a) \<Longrightarrow> CHR ''/'' \<notin> set (bo_sha256 b)"
  shows "fst (restore_all c now org project a s) = Inr ()"
proof -
  note sa = s[unfolded sound_archive_def]
  obtain u1 s1 where 1: "run_each (restore_rev project) (flat (ba_functions a)) s = (u1, s1)" by (meson surj_pair)
  have "fst (run_each (restore_rev project) (flat (ba_functions a)) s) = Inr ()"
    by (rule restore_revs_succeed) (use sa static_checks_pass(2)[OF p] in blast)+
  then have u1: "u1 = Inr ()" using 1 by simp
  obtain u2 s2 where 2: "run_each (restore_kv now org project) (ba_kv a) s1 = (u2, s2)" by (meson surj_pair)
  have u2: "u2 = Inr ()" using check_keys_free_kv[OF 2] sa by blast
  have f2: "bs_obj s2 = bs_obj s" using restore_kv_frame[OF 2] restore_revs_effect(4)[OF 1[unfolded u1]] by simp
  have pay: "payload c (bs_obj s2) b \<noteq> None \<and> CHR ''/'' \<notin> set (bo_sha256 b)" if "b \<in> set (ba_objects a)" for b
    using sa static_checks_pass(1)[OF p that] h[OF that] that f2 by (auto simp: list_all_iff)
  have "distinct (map (target_object org project) (ba_objects a))" using sa by blast
  then show ?thesis using restore_objects_effect(1)[OF pay] by (simp add: restore_all_def run_each_flat 1 u1 2 u2)
qed


section \<open>Export and import\<close>

text \<open>What the round trip needs of the codecs.\<close>

definition codec_ok :: "codec \<Rightarrow> bool" where
  "codec_ok c = (\<forall>x. decodeBase64 c (encodeBase64 c x) = Some x \<and> CHR ''/'' \<notin> set (encodeHex c x))"

lemma check_keys_free_distinct:
  "fst (check_keys_free now ks seen t) = Inr () \<Longrightarrow> distinct (map (join_with ''/'') ks) \<and> set (map (join_with ''/'') ks) \<inter> set seen = {}"
proof (induction ks arbitrary: seen t)
  case (Cons k ks)
  then obtain t' where "fst (check_keys_free now ks (join_with ''/'' k # seen) t') = Inr ()" and n: "join_with ''/'' k \<notin> set seen"
    by (auto simp: Let_def split: if_splits sum.splits)
  from Cons.IH[OF this(1)] n show ?case by auto
qed simp

lemma precheck_distinct:
  assumes "precheck now org project False a s = (Inr (), s')"
  shows "distinct (map (target_key org project) (ba_kv a))" "static_checks project a s = Inr ()"
proof -
  have sc: "static_checks project a s = Inr ()" and c: "fst (check_keys_free now (map (target_key org project) (ba_kv a)) [] (bs_kv s)) = Inr ()"
    using assms by (auto simp: precheck_def Let_def split: sum.splits prod.splits)
  show "static_checks project a s = Inr ()" by (rule sc)
  show "distinct (map (target_key org project) (ba_kv a))"
    using check_keys_free_distinct[OF c] by (metis distinct_map)
qed

lemma importProject_success:
  assumes "importProject c now org project raw False s = (Inr res, s')"
  obtains s1 where "import_checks org project raw = Inr ()" "precheck now org project False (archive_of raw) s = (Inr (), s1)"
    "restore_all c now org project (archive_of raw) s1 = (Inr (), s')"
  using assms by (auto simp: importProject_def Let_def split: sum.splits prod.splits)

lemma gather_functions_distinct:
  assumes "service_wf d"
  shows "distinct (map bf_name (gather_functions d project))"
    and "list_all (\<lambda>f. distinct (map b_id (bf_revisions f))) (gather_functions d project)"
proof -
  have e: "each_ok revmap_ok (inner (revisions d) project)" using assms by (simp add: service_wf_def each_ok_inner)
  then show "distinct (map bf_name (gather_functions d project))"
    by (simp add: gather_functions_def listFunctions_def comp_def each_ok_def owf_def)
  have "distinct (map b_id (map backup_revision (listRevisions d project fn)))" for fn
  proof -
    have r: "revmap_ok (inner (inner (revisions d) project) fn)" using e by (simp add: each_ok_inner)
    then have "map (\<lambda>e. rev_id (snd e)) (inner (inner (revisions d) project) fn) = map fst (inner (inner (revisions d) project) fn)"
      by (simp add: revmap_ok_def)
    moreover have "map b_id (map backup_revision (listRevisions d project fn)) = map (\<lambda>e. rev_id (snd e)) (inner (inner (revisions d) project) fn)"
      by (simp add: listRevisions_def backup_revision_def)
    ultimately show ?thesis using r unfolding revmap_ok_def owf_def by metis
  qed
  then show "list_all (\<lambda>f. distinct (map b_id (bf_revisions f))) (gather_functions d project)"
    by (simp add: gather_functions_def list_all_iff)
qed

lemma index_of_sep: "c \<notin> set x \<Longrightarrow> index_of c (x @ c # y) = Some (length x)"
  by (induction x) auto

lemma split_object_key_sep:
  "CHR ''/'' \<notin> set st \<Longrightarrow> split_object_key pre (pre @ st @ ''/'' @ k) = Some (st, k)"
  using index_of_sep[of "CHR ''/''" st k] by (simp add: split_object_key_def)

lemma split_object_key_join:
  assumes "split_object_key pre full = Some (st, k)" "starts_with full pre"
  shows "full = pre @ st @ ''/'' @ k"
proof -
  obtain rel where f: "full = pre @ rel" using assms(2) by (auto simp: starts_with_iff)
  obtain i where i: "index_of CHR ''/'' rel = Some i" "st = take i rel" "k = drop (Suc i) rel"
    using assms(1) f by (auto simp: split_object_key_def split: option.splits)
  then have "i < length rel" "rel ! i = CHR ''/''" using index_of_Some[OF i(1)] by auto
  then have "rel = take i rel @ ''/'' @ drop (Suc i) rel" using id_take_nth_drop[of i rel] by simp
  then show ?thesis using f i by simp
qed

definition source_key :: "string \<Rightarrow> BackupObjectRecord \<Rightarrow> string" where
  "source_key pre b = pre @ bo_store b @ ''/'' @ bo_key b"

lemma gather_objects_keys:
  "set (map (source_key pre) (fst (gather_objects c pre ks obs))) \<subseteq> set ks \<and>
   (distinct ks \<longrightarrow> distinct (map (source_key pre) (fst (gather_objects c pre ks obs))))"
proof (induction ks arbitrary: obs)
  case (Cons full ks)
  show ?case
  proof (cases "if starts_with full pre then split_object_key pre full else None")
    case None
    then show ?thesis using Cons[of obs] by auto
  next
    case (Some p)
    obtain st k where p: "p = (st, k)" by (cases p)
    show ?thesis
    proof (cases "oget obs full")
      case None
      then show ?thesis using Cons[of obs] Some p by auto
    next
      case b: (Some bytes)
      let ?r = "object_record c st k bytes"
      define obs' where "obs' = (if bo_dataBase64 ?r = None then oset (''artifacts/'' @ bo_sha256 ?r) bytes obs else obs)"
      have "fst (gather_objects c pre (full # ks) obs) = ?r # fst (gather_objects c pre ks obs')"
        using Some p b by (simp add: Let_def obs'_def split: prod.split)
      moreover have "source_key pre ?r = full"
        using split_object_key_join[of pre full st k] Some p by (simp add: source_key_def object_record_def split: if_splits)
      ultimately show ?thesis using Cons[of obs'] by auto
    qed
  qed
qed simp

lemma gather_objects_records:
  assumes "codec_ok c" "full \<in> set ks" "full = object_prefix org project @ st @ ''/'' @ k" "CHR ''/'' \<notin> set st" "oget obs full = Some bytes"
  shows "object_record c st k bytes \<in> set (fst (gather_objects c (object_prefix org project) ks obs))"
  using assms(2,5)
proof (induction ks arbitrary: obs)
  case (Cons x ks)
  have sp: "split_object_key (object_prefix org project) full = Some (st, k)" "starts_with full (object_prefix org project)"
    using split_object_key_sep[OF assms(4)] assms(3) by simp_all
  have keep: "oget (oset (''artifacts/'' @ bo_sha256 (object_record c st' k' b')) b' obs) full = Some bytes" for st' k' b'
  proof -
    have "CHR ''/'' \<notin> set (bo_sha256 (object_record c st' k' b'))" using assms(1) by (simp add: codec_ok_def object_record_def)
    from target_not_artifact[OF this, of org project "\<lparr>bo_store = st, bo_key = k, bo_sizeBytes = 0, bo_sha256 = [], bo_integrity = [], bo_dataBase64 = None\<rparr>"]
    show ?thesis using Cons.prems(2) assms(3) by (simp add: target_object_def)
  qed
  show ?case
  proof (cases "x = full")
    case True
    then show ?thesis using sp Cons.prems(2) by (auto simp: Let_def split: prod.split)
  next
    case False
    then have m: "full \<in> set ks" using Cons.prems(1) by simp
    let ?pre = "object_prefix org project"
    show ?thesis
    proof (cases "if starts_with x ?pre then split_object_key ?pre x else None")
      case None
      then show ?thesis using Cons.IH[OF m Cons.prems(2)] by simp
    next
      case (Some p)
      obtain st' k' where p: "p = (st', k')" by (cases p)
      show ?thesis
      proof (cases "oget obs x")
        case None
        then show ?thesis using Cons.IH[OF m Cons.prems(2)] Some p by simp
      next
        case b': (Some b')
        let ?r = "object_record c st' k' b'"
        have "object_record c st k bytes \<in> set (fst (gather_objects c ?pre ks
            (if bo_dataBase64 ?r = None then oset (''artifacts/'' @ bo_sha256 ?r) b' obs else obs)))"
          using Cons.IH[OF m Cons.prems(2)] Cons.IH[OF m keep[of st' k' b']] by (cases "bo_dataBase64 ?r = None") (simp_all del: append_Cons append.simps)
        then show ?thesis using Some p b' by (auto simp: Let_def split: prod.split)
      qed
    qed
  qed
qed simp


lemma gather_kv_complete:
  assumes "table_ok t" "oget t [] = None" "gather_kv t now org project = Some es"
    and "kv_read t now (org # project # ns # k) = Some v" "k \<noteq> []"
  shows "\<lparr>bk_namespace = ns, bk_key = k, bk_value = v, bk_ttl = None, bk_version = 1\<rparr> \<in> set es"
proof -
  have o: "owf t" using assms(1) by (simp add: table_ok_def)
  let ?key = "org # project # ns # k" and ?M = "matching_rows t now [org, project] None"
  have "length ?M < Suc (length t)" by (simp add: matching_rows_def less_Suc_eq_le)
  then have "list_all_pages (Suc (length t)) t now [org, project] (Some 1000) None = Some (map row_item (drop 0 ?M))"
    by (intro list_all_pages_suffix[OF o assms(2) refl]) (simp_all add: effective_cursor_def)
  then have es: "es = List.map_filter kv_entry (map row_item ?M)" using assms(3) by (simp add: gather_kv_def)
  obtain r where r: "oget t (encodeKeyPath ?key) = Some r" "\<not> expired now r" "value_json r = v"
    using assms(4) by (auto simp: kv_read_def live_row_def split: option.splits if_splits)
  have "encodeKeyPath ?key = encodeKeyPath [org, project] @ encodeKeyPath (ns # k)" using encodeKeyPath_append[of "[org, project]" "ns # k"] by simp
  then have "like (encodeKeyPath [org, project] @ ''%'') (encodeKeyPath ?key)" using like_refl_append by simp
  then have "(encodeKeyPath ?key, r) \<in> set ?M" using r by (auto simp: matching_rows_def dest: map_of_SomeD)
  moreover have "key_json r = ?key" using assms(1) r(1) encodeKeyPath_inj unfolding table_ok_def by metis
  moreover from this have "kv_entry (row_item (encodeKeyPath ?key, r)) = Some \<lparr>bk_namespace = ns, bk_key = k, bk_value = v, bk_ttl = None, bk_version = 1\<rparr>"
    using assms(5) r(3) by (cases k) (simp_all add: kv_entry_def row_item_def)
  ultimately show ?thesis unfolding es by (force simp: List.map_filter_def)
qed

lemma exportProject_success:
  assumes "exportProject c now ib org project key s = Some (Inr a, s1)"
  obtains kv where "gather_kv (bs_kv s) now org project = Some kv" "ba_functions a = gather_functions (bs_dep s) project" "ba_kv a = kv"
    "ba_objects a = fst (gather_objects c (object_prefix org project) (listed_keys (bs_obj s) (object_prefix org project)) (bs_obj s))"
  using assms by (auto simp: exportProject_def Let_def project_archive_def split: sum.splits option.splits prod.splits if_splits)

lemma exported_distinct:
  assumes "service_wf (bs_dep s)" "owf (bs_obj s)" "exportProject c now ib org project key s = Some (Inr a, s1)"
    and "distinct (map (target_key torg tproject) (ba_kv a))"
  shows "distinct_archive torg tproject a"
proof -
  obtain kv where a: "ba_functions a = gather_functions (bs_dep s) project"
    "ba_objects a = fst (gather_objects c (object_prefix org project) (listed_keys (bs_obj s) (object_prefix org project)) (bs_obj s))"
    by (rule exportProject_success[OF assms(3)])
  let ?pre = "object_prefix org project"
  have "distinct (listed_keys (bs_obj s) ?pre)" using assms(2) by (simp add: listed_keys_def owf_def)
  then have d: "distinct (map (source_key ?pre) (ba_objects a))" using gather_objects_keys a(2) by metis
  have "distinct (map (target_object torg tproject) (ba_objects a))"
    using d unfolding distinct_map inj_on_def target_object_def source_key_def by (metis same_append_eq)
  then show ?thesis using gather_functions_distinct[OF assms(1), of project] assms(4) a(1) by (simp add: distinct_archive_def)
qed

lemma round_trip_revision:
  assumes "service_wf d" "getRevision d project fn i = Some r"
    and "\<forall>f \<in> set (gather_functions d project). revisions_restored tproject f dt dt'"
  shows "\<exists>e. getRevision dt' tproject fn i = Some e \<and> rev_artifactId e = rev_artifactId r \<and>
      (getRevision dt tproject fn i = None \<longrightarrow> e = r\<lparr>rev_project := tproject, rev_functionName := fn\<rparr>)"
proof -
  have m: "revmap_ok (inner (inner (revisions d) project) fn)" using assms(1) by (simp add: service_wf_def each_ok_inner)
  have in_map: "(i, r) \<in> set (inner (inner (revisions d) project) fn)" using assms(2) by (auto simp: getRevision_def dest: map_of_SomeD)
  then have i: "rev_id r = i" and l: "r \<in> set (listRevisions d project fn)" using m by (force simp: revmap_ok_def listRevisions_def)+
  have "fn \<in> set (listFunctions d project)" 
  proof (cases "oget (inner (revisions d) project) fn")
    case None
    then show ?thesis using in_map by (simp add: inner_def[of "inner (revisions d) project"])
  next
    case (Some m)
    then show ?thesis by (force simp: listFunctions_def dest: map_of_SomeD)
  qed
  then have "\<lparr>bf_name = fn, bf_activeRevisionId = getActivePointer d project fn, bf_revisions = map backup_revision (listRevisions d project fn)\<rparr>
      \<in> set (gather_functions d project)" by (force simp: gather_functions_def)
  then have "\<exists>e. getRevision dt' tproject fn (b_id (backup_revision r)) = Some e \<and> rev_artifactId e = b_artifactId (backup_revision r) \<and>
      (getRevision dt tproject fn (b_id (backup_revision r)) = None \<longrightarrow> e = restored_record tproject fn (backup_revision r))"
    using assms(3) l by (fastforce simp: revisions_restored_def)
  moreover have "restored_record tproject fn (backup_revision r) = r\<lparr>rev_project := tproject, rev_functionName := fn\<rparr>"
    by (cases r) (simp add: backup_revision_def restored_record_def)
  moreover have "b_id (backup_revision r) = i" "b_artifactId (backup_revision r) = rev_artifactId r" using i by (simp_all add: backup_revision_def)
  ultimately show ?thesis by simp
qed

text \<open>
  C16: Exporting a project and importing the archive elsewhere brings it back: when both succeed, every
  revision of the source is in the target (as it was, unless the target had it already, and then with
  the same artifact), every active pointer is set, every live entry with a namespace and a key reads in the target as in the source,
  and every object of a store is there with the same hash, and byte for byte when it was small enough to be inlined.
\<close>

theorem backup_round_trip:
  assumes "codec_ok c" "service_wf (bs_dep s)" "table_ok (bs_kv s)" "oget (bs_kv s) [] = None" "owf (bs_obj s)"
    and ex: "exportProject c now ib org project key s = Some (Inr a, s1)"
    and im: "importProject c now' torg tproject (json_archive a) False t = (Inr res, t')"
  shows "(\<forall>fn i r. getRevision (bs_dep s) project fn i = Some r \<longrightarrow>
           (\<exists>e. getRevision (bs_dep t') tproject fn i = Some e \<and> rev_artifactId e = rev_artifactId r \<and>
              (getRevision (bs_dep t) tproject fn i = None \<longrightarrow> e = r\<lparr>rev_project := tproject, rev_functionName := fn\<rparr>))) \<and>
    (\<forall>fn i. fn \<in> set (listFunctions (bs_dep s) project) \<longrightarrow> getActivePointer (bs_dep s) project fn = Some i \<longrightarrow>
           getActivePointer (bs_dep t') tproject fn = Some i) \<and>
    (\<forall>ns k v n. k \<noteq> [] \<longrightarrow> kv_read (bs_kv s) now (org # project # ns # k) = Some v \<longrightarrow>
           kv_read (bs_kv t') n (torg # tproject # ns # k) = Some v) \<and>
    (\<forall>st k bytes. CHR ''/'' \<notin> set st \<longrightarrow> oget (bs_obj s) (object_prefix org project @ st @ ''/'' @ k) = Some bytes \<longrightarrow>
           (\<exists>bytes'. oget (bs_obj t') (object_prefix torg tproject @ st @ ''/'' @ k) = Some bytes' \<and>
              encodeHex c (computeSha256 c bytes') = encodeHex c (computeSha256 c bytes) \<and>
              (int (length bytes) < MAX_INLINE_OBJECT_BYTES \<longrightarrow> bytes' = bytes)))"
proof -
  obtain kv where a: "gather_kv (bs_kv s) now org project = Some kv" "ba_functions a = gather_functions (bs_dep s) project" "ba_kv a = kv"
    "ba_objects a = fst (gather_objects c (object_prefix org project) (listed_keys (bs_obj s) (object_prefix org project)) (bs_obj s))"
    by (rule exportProject_success[OF ex])
  obtain t1 where ic: "import_checks torg tproject (json_archive a) = Inr ()"
    and pc: "precheck now' torg tproject False a t = (Inr (), t1)" and ra: "restore_all c now' torg tproject a t1 = (Inr (), t')"
    using importProject_success[OF im] by (metis archive_of_json)
  have da: "distinct_archive torg tproject a" by (rule exported_distinct[OF assms(2,5) ex precheck_distinct(1)[OF pc]])
  note pu = precheck_unchanged[OF pc]
  have sc: "static_checks tproject a t1 = Inr ()" using precheck_distinct(2)[OF pc] pu by (simp add: static_checks_def)
  have r: "all_restored c now' torg tproject a t1 t'"
    by (rule restore_all_effect[OF ra da sc]) (use validated_hashes[OF ic] validated_active[OF ic] in simp_all)
  have "\<exists>e. getRevision (bs_dep t') tproject fn i = Some e \<and> rev_artifactId e = rev_artifactId r \<and>
      (getRevision (bs_dep t) tproject fn i = None \<longrightarrow> e = r\<lparr>rev_project := tproject, rev_functionName := fn\<rparr>)"
    if "getRevision (bs_dep s) project fn i = Some r" for fn i r
    by (rule round_trip_revision[OF assms(2) that r[unfolded all_restored_def, THEN conjunct1, unfolded a(2) pu(1)]])
  moreover have "getActivePointer (bs_dep t') tproject fn = Some i"
    if "fn \<in> set (listFunctions (bs_dep s) project)" "getActivePointer (bs_dep s) project fn = Some i" for fn i
    using r that a(2) by (force simp: all_restored_def revisions_restored_def gather_functions_def)
  moreover have "kv_read (bs_kv t') n (torg # tproject # ns # k) = Some v"
    if "k \<noteq> []" "kv_read (bs_kv s) now (org # project # ns # k) = Some v" for ns k v n
    using gather_kv_complete[OF assms(3,4) a(1) that(2,1)] r a(3) by (force simp: all_restored_def target_key_def)
  moreover have "\<exists>bytes'. oget (bs_obj t') (object_prefix torg tproject @ st @ ''/'' @ k) = Some bytes' \<and>
      encodeHex c (computeSha256 c bytes') = encodeHex c (computeSha256 c bytes) \<and> (int (length bytes) < MAX_INLINE_OBJECT_BYTES \<longrightarrow> bytes' = bytes)"
    if "CHR ''/'' \<notin> set st" "oget (bs_obj s) (object_prefix org project @ st @ ''/'' @ k) = Some bytes" for st k bytes
  proof -
    let ?b = "object_record c st k bytes"
    have "object_prefix org project @ st @ ''/'' @ k \<in> set (listed_keys (bs_obj s) (object_prefix org project))"
      using map_of_SomeD[OF that(2)] by (force simp: listed_keys_def)
    then have "?b \<in> set (ba_objects a)" using gather_objects_records[OF assms(1) _ refl that] a(4) by metis
    then obtain bytes' where "oget (bs_obj t') (target_object torg tproject ?b) = Some bytes'" "payload c (bs_obj t1) ?b = Some bytes'"
      using r by (auto simp: all_restored_def)
    then show ?thesis using assms(1) by (auto simp: target_object_def payload_def object_record_def codec_ok_def split: option.splits if_splits)
  qed
  ultimately show ?thesis by blast
qed

section \<open>Instances\<close>

text \<open>A codec for the instances: a letter for the sign, then the number in unary; one hash for all.\<close>

definition unary :: "int \<Rightarrow> string" where
  "unary i = (if i < 0 then CHR ''n'' else CHR ''p'') # replicate (nat \<bar>i\<bar>) CHR ''A''"

function read_unary :: "string \<Rightarrow> int list" where
  "read_unary [] = []"
| "read_unary (c # s) =
     (let k = int (length (takeWhile (\<lambda>d. d = CHR ''A'') s)) in
      (if c = CHR ''n'' then - k else k) # read_unary (dropWhile (\<lambda>d. d = CHR ''A'') s))"
  by pat_completeness auto
termination by (relation "measure length") (auto simp: le_imp_less_Suc length_dropWhile_le)

definition demo_codec :: codec where
  "demo_codec = \<lparr>computeSha256 = (\<lambda>x. [1]), encodeHex = (\<lambda>_. replicate 64 CHR ''a''), encodeBase64 = (\<lambda>x. concat (map unary x)),
     decodeBase64 = (\<lambda>t. Some (read_unary t)), serialize = (\<lambda>_. [])\<rparr>"

lemma read_unary_concat: "read_unary (concat (map unary xs)) = xs"
proof (induction xs)
  case (Cons i xs)
  have "takeWhile (\<lambda>d. d = CHR ''A'') (replicate n CHR ''A'' @ concat (map unary xs)) = replicate n CHR ''A'' \<and>
    dropWhile (\<lambda>d. d = CHR ''A'') (replicate n CHR ''A'' @ concat (map unary xs)) = concat (map unary xs)" for n
    by (induction n) (cases xs; simp add: unary_def)+
  then show ?case using Cons by (simp add: unary_def[of i])
qed simp

lemma demo_codec_ok: "codec_ok demo_codec"
  by (simp add: codec_ok_def demo_codec_def read_unary_concat)

definition demo_rev :: "RevisionState \<Rightarrow> RevisionRecord" where
  "demo_rev st = \<lparr>rev_id = ''rev_'' @ replicate 26 CHR ''0'', rev_project = ''web'', rev_functionName = ''f'',
     rev_artifactId = ''sha256:'' @ replicate 64 CHR ''a'', rev_integrity = ''sha256-AA'', rev_state = st, rev_createdAt = 5,
     rev_manifest = Some \<lparr>m_permissions = None, m_limits = JUndef, m_auth = JUndef, m_triggers = JUndef\<rparr>\<rparr>"

definition demo_source :: "RevisionState \<Rightarrow> int list \<Rightarrow> backup_state" where
  "demo_source st bytes =
     \<lparr>bs_dep = setActivePointer ''web'' ''f'' (rev_id (demo_rev st)) (saveRevisionRecord ''web'' ''f'' (demo_rev st) no_deployments),
      bs_kv = upsert [''acme'', ''web'', ''ns'', ''k''] (JStr ''v'') (Some 9000) [], bs_obj = [(''acme/web/media/a'', bytes)]\<rparr>"

definition empty_target :: backup_state where
  "empty_target = \<lparr>bs_dep = no_deployments, bs_kv = [], bs_obj = []\<rparr>"

definition demo_export :: "RevisionState \<Rightarrow> int list \<Rightarrow> (StateBackupArchive res \<times> backup_state) option" where
  "demo_export st bytes = exportProject demo_codec 1000 [0, 0, 0, 0, 0, 0, 0, 0, 0, 0] ''acme'' ''web'' None (demo_source st bytes)"

fun archive_in :: "(StateBackupArchive res \<times> backup_state) option \<Rightarrow> StateBackupArchive option" where
  "archive_in (Some (Inr a, s)) = Some a"
| "archive_in _ = None"

definition demo_archive :: "RevisionState \<Rightarrow> StateBackupArchive" where
  "demo_archive st = the (archive_in (demo_export st [1]))"

definition demo_import :: "jsval \<Rightarrow> ImportProjectResult res \<times> backup_state" where
  "demo_import raw = importProject demo_codec 2000 ''beta'' ''site'' raw False empty_target"

lemma demo_source_wf: "service_wf (bs_dep (demo_source st bytes))" "table_ok (bs_kv (demo_source st bytes))" "owf (bs_obj (demo_source st bytes))"
proof -
  have "service_wf no_deployments" by (simp add: service_wf_def no_deployments_def)
  then show "service_wf (bs_dep (demo_source st bytes))" by (simp add: demo_source_def service_wf_save service_wf_pointer)
  show "table_ok (bs_kv (demo_source st bytes))" "owf (bs_obj (demo_source st bytes))"
    by (simp_all add: demo_source_def table_ok_upsert table_ok_Nil owf_def)
qed


lemma backup_round_trip_witness:
  "kv_read (bs_kv (snd (demo_import (json_archive (demo_archive Deployed))))) 99000 [''beta'', ''site'', ''ns'', ''k''] = Some (JStr ''v'') \<and>
   oget (bs_obj (snd (demo_import (json_archive (demo_archive Deployed))))) ''beta/site/media/a'' = Some [1]"
proof -
  have e: "archive_in (demo_export Deployed [1]) \<noteq> None" by code_simp
  then obtain s1 where ex: "demo_export Deployed [1] = Some (Inr (demo_archive Deployed), s1)"
    unfolding demo_archive_def by (cases "demo_export Deployed [1]" rule: archive_in.cases) auto
  have "\<not> isl (fst (demo_import (json_archive (demo_archive Deployed))))" by code_simp
  then obtain res where im: "demo_import (json_archive (demo_archive Deployed)) = (Inr res, snd (demo_import (json_archive (demo_archive Deployed))))"
    by (cases "demo_import (json_archive (demo_archive Deployed))"; cases "fst (demo_import (json_archive (demo_archive Deployed)))") auto
  have z: "oget (bs_kv (demo_source Deployed [1])) [] = None" by code_simp
  have k: "kv_read (bs_kv (demo_source Deployed [1])) 1000 (''acme'' # ''web'' # ''ns'' # [''k'']) = Some (JStr ''v'')" by code_simp
  have o: "oget (bs_obj (demo_source Deployed [1])) (object_prefix ''acme'' ''web'' @ ''media'' @ ''/'' @ ''a'') = Some [1]"
    "CHR ''/'' \<notin> set ''media''" "int (length [1 :: int]) < MAX_INLINE_OBJECT_BYTES" by code_simp+
  note rt = backup_round_trip[OF demo_codec_ok demo_source_wf(1,2) z demo_source_wf(3) ex[unfolded demo_export_def] im[unfolded demo_import_def], folded demo_import_def]
  have p: "object_prefix ''beta'' ''site'' @ ''media'' @ ''/'' @ ''a'' = ''beta/site/media/a''" by (simp add: object_prefix_def)
  show ?thesis using rt[THEN conjunct2, THEN conjunct2, THEN conjunct1, rule_format, OF _ k]
      rt[THEN conjunct2, THEN conjunct2, THEN conjunct2, rule_format, OF o(2,1)] o(3) unfolding p by auto
qed

section \<open>Where the promises end\<close>

text \<open>An empty object makes every export of its project fail: its encoding is the empty string, which the schema refuses.\<close>

lemma empty_object_blocks_export: "archive_in (demo_export Deployed []) = None"
  by code_simp

text \<open>A revision that failed its health check becomes active by an import.\<close>

lemma import_activates_failed_revision:
  "\<not> isl (fst (demo_import (json_archive (demo_archive Failed)))) \<and>
   map_option rev_state (getActiveRevision (bs_dep (snd (demo_import (json_archive (demo_archive Failed))))) ''site'' ''f'') = Some Failed"
  by code_simp

text \<open>An import that fails on a damaged inline object leaves the revisions and entries it has restored before.\<close>

definition damaged_archive :: StateBackupArchive where
  "damaged_archive = (demo_archive Deployed)\<lparr>ba_objects := map (\<lambda>b. b\<lparr>bo_sha256 := replicate 64 CHR ''b''\<rparr>) (ba_objects (demo_archive Deployed))\<rparr>"

lemma failed_import_leaves_state:
  "case demo_import (json_archive damaged_archive) of (x, s) \<Rightarrow>
     isl x \<and> getActivePointer (bs_dep s) ''site'' ''f'' \<noteq> None \<and> kv_read (bs_kv s) 3000 [''beta'', ''site'', ''ns'', ''k''] = Some (JStr ''v'')"
  by code_simp

text \<open>Keys that differ only in how a slash splits them are taken for duplicates.\<close>

lemma slash_keys_collide:
  "isl (fst (check_keys_free now [[''o'', ''p'', ''n'', ''a/b''], [''o'', ''p'', ''n'', ''a'', ''b'']] [] []))"
  by code_simp

end
