(* ===== verification/ApiKeys.thy ===== *)
theory ApiKeys
  imports KvStore Ulid
begin

text \<open>
  \<open>packages/auth\<close>: the API key store (\<open>store.ts\<close>), token verification and identities (\<open>verifier.ts\<close>,
  \<open>token.ts\<close>) and the HTTP middleware (\<open>middleware.ts\<close>).

  Storage and cache are tables of \<open>KvStore\<close>. A stored value is an object of the expected type or a
  string, which the code tries to parse as JSON (the parameter \<open>json\<close>). The token hash is the
  parameter \<open>hash\<close>, a time stamp is the instant it denotes, and each operation reads the clock
  once. A cache call may fail; whether it does is an argument. \<open>verifyRawToken\<close> is split at its
  await of the storage, so that a revocation can happen in between.
\<close>

section \<open>Records and identities\<close>

record StoredApiKeyRecord =
  key_id :: string
  key_tokenHash :: string
  key_name :: string
  key_orgId :: string
  key_projectId :: "string option"
  key_createdAt :: int
  key_revokedAt :: "int option"

datatype CallerType = Anonymous | Token | Project | Internal

record IdentityContext =
  callerId :: string
  ctx_orgId :: string
  ctx_projectId :: "string option"
  ctx_tokenHash :: "string option"
  callerType :: CallerType

datatype 'a stored = Val 'a | Str string

type_synonym 'a json = "string \<Rightarrow> 'a stored option"

record key_store =
  storage :: "StoredApiKeyRecord stored table"
  cache :: "IdentityContext stored table option"
  cacheTtl :: int

definition new_ApiKeyStore :: "bool \<Rightarrow> int option \<Rightarrow> key_store" where
  "new_ApiKeyStore has_cache ttl =
     \<lparr>storage = [], cache = (if has_cache then Some [] else None), cacheTtl = or_default ttl 300\<rparr>"

definition token_key :: "string \<Rightarrow> string list" where
  "token_key h = [''_auth'', ''tokens'', h]"

definition id_key :: "string \<Rightarrow> string list" where
  "id_key i = [''_auth'', ''keys'', i]"

definition org_key :: "string \<Rightarrow> string \<Rightarrow> string list" where
  "org_key org i = [''_auth'', ''orgs'', org, i]"

definition cache_key :: "string \<Rightarrow> string list" where
  "cache_key h = [''auth_cache'', h]"

section \<open>Creating keys\<close>

definition hex_lower :: "nat \<Rightarrow> char" where
  "hex_lower d = (if d < 10 then char_of (48 + d) else char_of (87 + d))"

definition hex_byte :: "nat \<Rightarrow> string" where
  "hex_byte b = [hex_lower (b div 16), hex_lower (b mod 16)]"

definition raw_token :: "nat list \<Rightarrow> string" where
  "raw_token bytes = ''rfk_'' @ concat (map hex_byte bytes)"

text \<open>\<open>x?.trim() || undefined\<close>.\<close>

definition trimmed_or_none :: "string option \<Rightarrow> string option" where
  "trimmed_or_none s = (case s of None \<Rightarrow> None | Some x \<Rightarrow> if trim x = [] then None else Some (trim x))"

definition new_record :: "(string \<Rightarrow> string) \<Rightarrow> int \<Rightarrow> int list \<Rightarrow> nat list \<Rightarrow> string \<Rightarrow> string \<Rightarrow> string option \<Rightarrow> StoredApiKeyRecord" where
  "new_record hash now idBytes randomBytes name org project =
     \<lparr>key_id = generateUlid now idBytes, key_tokenHash = hash (raw_token randomBytes), key_name = trim name,
      key_orgId = trim org, key_projectId = trimmed_or_none project, key_createdAt = now, key_revokedAt = None\<rparr>"

text \<open>A write that fails leaves the writes before it in place.\<close>

fun set_all :: "int \<Rightarrow> (string list \<times> 'v) list \<Rightarrow> 'v table \<Rightarrow> unit res \<times> 'v table" where
  "set_all now [] t = (Inr (), t)"
| "set_all now ((k, v) # ws) t =
     (case kv_set t now k v None of Inl e \<Rightarrow> (Inl e, t) | Inr t' \<Rightarrow> set_all now ws t')"

definition createKey ::
  "(string \<Rightarrow> string) \<Rightarrow> int \<Rightarrow> int list \<Rightarrow> nat list \<Rightarrow> string \<Rightarrow> string \<Rightarrow> string option \<Rightarrow> key_store \<Rightarrow>
   (string \<times> string \<times> StoredApiKeyRecord) res \<times> key_store" where
  "createKey hash now idBytes randomBytes name org project s =
     (let r = new_record hash now idBytes randomBytes name org project;
          (u, t) = set_all now [(token_key (key_tokenHash r), Val r), (id_key (key_id r), Str (key_tokenHash r)),
                                (org_key (key_orgId r) (key_id r), Val r)] (storage s) in
      (bind_res u (\<lambda>_. Inr (key_id r, raw_token randomBytes, r)), s\<lparr>storage := t\<rparr>))"

section \<open>Verification\<close>

definition usable_identity :: "IdentityContext \<Rightarrow> bool" where
  "usable_identity i = (callerId i \<noteq> [] \<and> ctx_orgId i \<noteq> [])"

text \<open>A cached value counts when it is, or parses to, an object with a caller and an organisation.\<close>

fun cached_identity :: "IdentityContext json \<Rightarrow> IdentityContext stored \<Rightarrow> IdentityContext option" where
  "cached_identity json (Val i) = (if usable_identity i then Some i else None)"
| "cached_identity json (Str x) =
     (case json x of Some (Val i) \<Rightarrow> if usable_identity i then Some i else None | _ \<Rightarrow> None)"

definition cache_lookup :: "IdentityContext json \<Rightarrow> bool \<Rightarrow> int \<Rightarrow> string \<Rightarrow> IdentityContext stored table \<Rightarrow>
   IdentityContext option \<times> IdentityContext stored table" where
  "cache_lookup json up now h c =
     (if \<not> up then (None, c)
      else case kv_get c now (cache_key h) of
        Inl _ \<Rightarrow> (None, c)
      | Inr (None, c') \<Rightarrow> (None, c')
      | Inr (Some v, c') \<Rightarrow> (cached_identity json v, c'))"

text \<open>Two rounds of JSON.parse; a text that does not parse yields no record. Providers encode a value at most twice.\<close>

fun stored_record :: "StoredApiKeyRecord json \<Rightarrow> StoredApiKeyRecord stored \<Rightarrow> StoredApiKeyRecord option" where
  "stored_record json (Val r) = Some r"
| "stored_record json (Str x) =
     (case json x of Some (Val r) \<Rightarrow> Some r
      | Some (Str y) \<Rightarrow> (case json y of Some (Val r) \<Rightarrow> Some r | _ \<Rightarrow> None)
      | None \<Rightarrow> None)"

definition identity_of :: "string \<Rightarrow> StoredApiKeyRecord \<Rightarrow> IdentityContext" where
  "identity_of h r =
     \<lparr>callerId = key_name r, ctx_orgId = key_orgId r, ctx_projectId = key_projectId r, ctx_tokenHash = Some h, callerType = Token\<rparr>"

text \<open>Up to the read of the primary storage: a cache hit, no identity, or an identity to be cached.\<close>

datatype verification = Hit IdentityContext | Unknown | Found IdentityContext

definition verify_read ::
  "(string \<Rightarrow> string) \<Rightarrow> IdentityContext json \<Rightarrow> StoredApiKeyRecord json \<Rightarrow> bool \<Rightarrow> int \<Rightarrow> string \<Rightarrow> key_store \<Rightarrow>
   verification res \<times> key_store" where
  "verify_read hash ijson rjson up now tok s =
     (if \<not> starts_with tok ''rfk_'' then (Inr Unknown, s)
      else let h = hash tok;
               (hit, c) = (case cache s of None \<Rightarrow> (None, None)
                           | Some c \<Rightarrow> (case cache_lookup ijson up now h c of (i, c') \<Rightarrow> (i, Some c')));
               s1 = s\<lparr>cache := c\<rparr> in
           case hit of
             Some i \<Rightarrow> (Inr (Hit i), s1)
           | None \<Rightarrow>
               (case kv_get (storage s1) now (token_key h) of
                  Inl e \<Rightarrow> (Inl e, s1)
                | Inr (None, t) \<Rightarrow> (Inr Unknown, s1\<lparr>storage := t\<rparr>)
                | Inr (Some v, t) \<Rightarrow>
                    (case stored_record rjson v of
                       None \<Rightarrow> (Inr Unknown, s1\<lparr>storage := t\<rparr>)
                     | Some r \<Rightarrow>
                         (Inr (if key_revokedAt r \<noteq> None then Unknown else Found (identity_of h r)), s1\<lparr>storage := t\<rparr>))))"

definition verify_fill :: "bool \<Rightarrow> int \<Rightarrow> string \<Rightarrow> IdentityContext \<Rightarrow> key_store \<Rightarrow> key_store" where
  "verify_fill up now h i s =
     (case cache s of
        None \<Rightarrow> s
      | Some c \<Rightarrow>
          if usable_identity i \<and> up
          then (case kv_set c now (cache_key h) (Val i) (Some (cacheTtl s)) of Inl _ \<Rightarrow> s | Inr c' \<Rightarrow> s\<lparr>cache := Some c'\<rparr>)
          else s)"

definition verifyRawToken ::
  "(string \<Rightarrow> string) \<Rightarrow> IdentityContext json \<Rightarrow> StoredApiKeyRecord json \<Rightarrow> bool \<Rightarrow> int \<Rightarrow> string \<Rightarrow> key_store \<Rightarrow>
   IdentityContext option res \<times> key_store" where
  "verifyRawToken hash ijson rjson up now tok s =
     (case verify_read hash ijson rjson up now tok s of
        (Inl e, s1) \<Rightarrow> (Inl e, s1)
      | (Inr (Hit i), s1) \<Rightarrow> (Inr (Some i), s1)
      | (Inr Unknown, s1) \<Rightarrow> (Inr None, s1)
      | (Inr (Found i), s1) \<Rightarrow> (Inr (Some i), verify_fill up now (hash tok) i s1))"

section \<open>Revocation and listing\<close>

text \<open>A value used as a key segment; an object turns into its default text.\<close>

fun as_segment :: "'a stored \<Rightarrow> string" where
  "as_segment (Str x) = x"
| "as_segment (Val _) = ''[object Object]''"

definition evict :: "bool \<Rightarrow> string \<Rightarrow> key_store \<Rightarrow> key_store" where
  "evict up h s =
     (case cache s of None \<Rightarrow> s
      | Some c \<Rightarrow> if up then (case kv_delete c (cache_key h) of Inl _ \<Rightarrow> s | Inr c' \<Rightarrow> s\<lparr>cache := Some c'\<rparr>) else s)"

text \<open>The second half, for the hash the identifier leads to. Assigning a property of a string throws in a module.\<close>

definition revoke_token :: "bool \<Rightarrow> int \<Rightarrow> string \<Rightarrow> string \<Rightarrow> key_store \<Rightarrow> bool res \<times> key_store" where
  "revoke_token up now keyId h s =
     (case kv_get (storage s) now (token_key h) of
        Inl e \<Rightarrow> (Inl e, s)
      | Inr (None, t) \<Rightarrow> (Inr False, s\<lparr>storage := t\<rparr>)
      | Inr (Some (Str x), t) \<Rightarrow> (if x = [] then Inr False else Inl (Foreign ''TypeError''), s\<lparr>storage := t\<rparr>)
      | Inr (Some (Val r), t) \<Rightarrow>
          (let r' = r\<lparr>key_revokedAt := Some now\<rparr>;
               (u, t') = set_all now [(token_key h, Val r'), (org_key (key_orgId r) keyId, Val r')] t in
           case u of Inl e \<Rightarrow> (Inl e, s\<lparr>storage := t'\<rparr>) | Inr _ \<Rightarrow> (Inr True, evict up h (s\<lparr>storage := t'\<rparr>))))"

definition revokeKey :: "bool \<Rightarrow> int \<Rightarrow> string \<Rightarrow> key_store \<Rightarrow> bool res \<times> key_store" where
  "revokeKey up now keyId s =
     (case kv_get (storage s) now (id_key keyId) of
        Inl e \<Rightarrow> (Inl e, s)
      | Inr (None, t) \<Rightarrow> (Inr False, s\<lparr>storage := t\<rparr>)
      | Inr (Some v, t) \<Rightarrow>
          if v = Str [] then (Inr False, s\<lparr>storage := t\<rparr>)
          else revoke_token up now keyId (as_segment v) (s\<lparr>storage := t\<rparr>))"

definition hasAnyKeys :: "int \<Rightarrow> key_store \<Rightarrow> bool" where
  "hasAnyKeys now s = (fst (kv_list (storage s) now [''_auth'', ''orgs''] (Some 1) None) \<noteq> [])"

fun record_of :: "'a stored \<Rightarrow> 'a option" where
  "record_of (Val r) = Some r"
| "record_of (Str _) = None"

text \<open>ISO time stamps order like the instants they denote; the sort is stable.\<close>

definition listKeys :: "int \<Rightarrow> string \<Rightarrow> key_store \<Rightarrow> StoredApiKeyRecord list" where
  "listKeys now org s =
     sort_key (\<lambda>r. - key_createdAt r)
       (List.map_filter (\<lambda>(k, v). record_of v) (fst (kv_list (storage s) now [''_auth'', ''orgs'', org] (Some 1000) None)))"

section \<open>Identities of callers\<close>

text \<open>\<open>/^Bearer\s+(\S+)$/i\<close>.\<close>

definition extractBearerToken :: "string option \<Rightarrow> string option" where
  "extractBearerToken header =
     (case header of
        None \<Rightarrow> None
      | Some x \<Rightarrow>
          let gap = takeWhile is_ws (drop 6 x); tok = dropWhile is_ws (drop 6 x) in
          if to_lower (take 6 x) = ''bearer'' \<and> gap \<noteq> [] \<and> tok \<noteq> [] \<and> list_all (\<lambda>c. \<not> is_ws c) tok
          then Some tok else None)"

datatype rate_scope = ScopeIp | ScopeIdentity | ScopeProject

fun deriveRateLimitKey :: "rate_scope \<Rightarrow> IdentityContext \<Rightarrow> string option \<Rightarrow> string" where
  "deriveRateLimitKey ScopeIp i ip = ''ip:'' @ or_default ip ''unknown''"
| "deriveRateLimitKey ScopeIdentity i ip = ''identity:'' @ or_default (ctx_tokenHash i) (callerId i)"
| "deriveRateLimitKey ScopeProject i ip = ''project:'' @ or_default (ctx_projectId i) (ctx_orgId i)"

record AuthRecord =
  ar_tokenHash :: string
  ar_orgId :: string
  ar_projectId :: "string option"
  ar_name :: string

definition auth_identity :: "AuthRecord \<Rightarrow> IdentityContext" where
  "auth_identity r =
     \<lparr>callerId = ar_name r, ctx_orgId = ar_orgId r, ctx_projectId = ar_projectId r,
      ctx_tokenHash = Some (ar_tokenHash r), callerType = Token\<rparr>"

definition verifyApiToken :: "string \<Rightarrow> (string, AuthRecord) omap \<Rightarrow> IdentityContext option" where
  "verifyApiToken tok records =
     (if tok = [] then None
      else case oget records tok of
        None \<Rightarrow> map_option auth_identity (find (\<lambda>r. ar_tokenHash r = tok) (map snd records))
      | Some r \<Rightarrow> Some (auth_identity r))"

record LoggedIdentity =
  log_callerId :: string
  log_orgId :: string
  log_projectId :: "string option"
  log_callerType :: CallerType
  tokenHashRedacted :: bool

definition sanitizeIdentityForLogging :: "IdentityContext \<Rightarrow> LoggedIdentity" where
  "sanitizeIdentityForLogging i =
     \<lparr>log_callerId = callerId i, log_orgId = ctx_orgId i, log_projectId = ctx_projectId i,
      log_callerType = callerType i, tokenHashRedacted = (ctx_tokenHash i \<noteq> None)\<rparr>"

section \<open>The middleware\<close>

text \<open>What the middleware reads of a request; a response is its status, code, message and request id.\<close>

record auth_request =
  req_pathname :: string
  req_authorization :: "string option"
  req_api_key :: "string option"

record auth_response =
  resp_status :: nat
  resp_code :: string
  resp_message :: string
  resp_requestId :: string

record auth_options =
  has_key_store :: bool
  staticTokens :: "(string, IdentityContext) omap"
  allowAnonymousPaths :: "string list option"
  requireMatchingProject :: bool

definition createAuthErrorResponse :: "nat \<Rightarrow> string \<Rightarrow> string \<Rightarrow> string \<Rightarrow> auth_response" where
  "createAuthErrorResponse status ecode msg rid =
     \<lparr>resp_status = status, resp_code = ecode, resp_message = msg, resp_requestId = rid\<rparr>"

definition denied :: "string \<Rightarrow> string \<Rightarrow> auth_response" where
  "denied msg rid = createAuthErrorResponse 403 ''PERMISSION_DENIED'' msg rid"

definition normalized_path :: "string \<Rightarrow> string" where
  "normalized_path p = (if 1 < length p \<and> last p = CHR ''/'' then butlast p else p)"

definition anonymous_identity :: IdentityContext where
  "anonymous_identity =
     \<lparr>callerId = ''anonymous'', ctx_orgId = [], ctx_projectId = None, ctx_tokenHash = None, callerType = Anonymous\<rparr>"

definition presented_token :: "auth_request \<Rightarrow> string option" where
  "presented_token req =
     (case extractBearerToken (req_authorization req) of
        Some t \<Rightarrow> Some t
      | None \<Rightarrow> (case req_api_key req of Some k \<Rightarrow> if trim k \<noteq> [] then Some (trim k) else None | None \<Rightarrow> None))"

text \<open>\<open>/^\/v1\/projects\/([^/]+)/\<close>.\<close>

definition path_project :: "string \<Rightarrow> string option" where
  "path_project p =
     (if starts_with p ''/v1/projects/''
      then let seg = takeWhile (\<lambda>c. c \<noteq> CHR ''/'') (drop 13 p) in if seg = [] then None else Some seg
      else None)"

definition project_mismatch :: "auth_options \<Rightarrow> IdentityContext \<Rightarrow> string \<Rightarrow> bool" where
  "project_mismatch ops i pathname =
     (requireMatchingProject ops \<and>
      (case ctx_projectId i of None \<Rightarrow> False
       | Some p \<Rightarrow> p \<noteq> [] \<and> (case path_project pathname of None \<Rightarrow> False | Some q \<Rightarrow> q \<noteq> p)))"

definition quoted :: "string \<Rightarrow> string" where
  "quoted x = CHR 0x27 # x @ [CHR 0x27]"

definition authMiddleware ::
  "auth_options \<Rightarrow> (string \<Rightarrow> key_store \<Rightarrow> IdentityContext option res \<times> key_store) \<Rightarrow> auth_request \<Rightarrow> string \<Rightarrow> key_store \<Rightarrow>
   (auth_response + IdentityContext) \<times> key_store" where
  "authMiddleware ops verify req rid s =
     (let pathname = normalized_path (req_pathname req) in
      if pathname \<in> set (or_default (allowAnonymousPaths ops) [''/healthz'', ''/login'']) then (Inr anonymous_identity, s)
      else case presented_token req of
        None \<Rightarrow> (Inl (denied ''Missing authorization credentials (PLAT-6, PLAT-12). Provide Authorization: Bearer <key> or x-api-key header.'' rid), s)
      | Some tok \<Rightarrow>
          (case oget (staticTokens ops) tok of
             Some ctx \<Rightarrow> (Inr ctx, s)
           | None \<Rightarrow>
               let refused = Inl (denied ''Invalid or revoked API key (PLAT-6, PLAT-12).'' rid) in
               if \<not> has_key_store ops then (refused, s)
               else (case verify tok s of
                       (Inl _, s1) \<Rightarrow> (refused, s1)
                     | (Inr None, s1) \<Rightarrow> (refused, s1)
                     | (Inr (Some i), s1) \<Rightarrow>
                         if project_mismatch ops i pathname
                         then (Inl (denied (''Access denied: API token is scoped to project '' @ quoted (the (ctx_projectId i)) @
                                  '' but requested '' @ quoted (the (path_project pathname)) @ '' (PLAT-6).'') rid), s1)
                         else (Inr i, s1))))"


section \<open>Writing several keys\<close>

lemma set_all_read_other:
  "k' \<notin> fst ` set ws \<Longrightarrow> kv_read (snd (set_all now ws t)) n k' = kv_read t n k'"
proof (induction now ws t rule: set_all.induct)
  case (2 now k v ws t)
  then show ?case by (auto split: sum.split simp: kv_set_Inr)
qed simp

lemma set_all_read:
  assumes "set_all now ws t = (Inr (), t')" "distinct (map fst ws)" "(k, v) \<in> set ws"
  shows "kv_read t' n k = Some v"
  using assms
proof (induction now ws t rule: set_all.induct)
  case (2 now k0 v0 ws t)
  then obtain t1 where t1: "kv_set t now k0 v0 None = Inr t1" and r: "set_all now ws t1 = (Inr (), t')"
    by (auto split: sum.splits)
  show ?case
  proof (cases "(k, v) \<in> set ws")
    case True
    then show ?thesis using 2 r t1 by auto
  next
    case False
    then have "k = k0" "v = v0" "k \<notin> fst ` set ws" using 2(3,4) by force+
    then show ?thesis using set_all_read_other[of k ws now t1 n] r kv_set_Inr[OF t1] by simp
  qed
qed simp

text \<open>A write that changes one value at most: each key reads as before or as one of the written values.\<close>

lemma set_all_read_or:
  "kv_read (snd (set_all now ws t)) n k = kv_read t n k \<or> (\<exists>v. (k, v) \<in> set ws \<and> kv_read (snd (set_all now ws t)) n k = Some v)"
proof (induction now ws t rule: set_all.induct)
  case (2 now k0 v0 ws t)
  show ?case
  proof (cases "kv_set t now k0 v0 None")
    case (Inr t1)
    show ?thesis using "2.IH"[OF Inr] kv_set_Inr[OF Inr, of n k] Inr by (auto split: if_splits)
  qed simp
qed simp

lemma keys_differ [simp]:
  "token_key h \<noteq> id_key i" "id_key i \<noteq> token_key h" "token_key h \<noteq> org_key g i" "org_key g i \<noteq> token_key h"
  "id_key j \<noteq> org_key g i" "org_key g i \<noteq> id_key j"
  "token_key h = token_key h' \<longleftrightarrow> h = h'" "id_key i = id_key j \<longleftrightarrow> i = j" "cache_key h = cache_key h' \<longleftrightarrow> h = h'"
  by (auto simp: token_key_def id_key_def org_key_def cache_key_def)

section \<open>The cache and the storage under the operations\<close>

definition cache_read :: "key_store \<Rightarrow> int \<Rightarrow> string \<Rightarrow> IdentityContext stored option" where
  "cache_read s now h = (case cache s of None \<Rightarrow> None | Some c \<Rightarrow> kv_read c now (cache_key h))"

definition token_read :: "key_store \<Rightarrow> int \<Rightarrow> string \<Rightarrow> StoredApiKeyRecord stored option" where
  "token_read s now h = kv_read (storage s) now (token_key h)"

definition id_read :: "key_store \<Rightarrow> int \<Rightarrow> string \<Rightarrow> StoredApiKeyRecord stored option" where
  "id_read s now i = kv_read (storage s) now (id_key i)"

lemmas reads = cache_read_def token_read_def id_read_def

lemma cache_lookup_keeps:
  "now \<le> n \<Longrightarrow> kv_read (snd (cache_lookup ijson up now h c)) n k = kv_read c n k"
  using kv_get_Inr(2)[of c now "cache_key h"]
  by (cases "kv_get c now (cache_key h)") (auto simp: cache_lookup_def split: option.split)

lemma cache_lookup_hit:
  "kv_valid (cache_key h) \<Longrightarrow> fst (cache_lookup ijson True now h c) =
     (case kv_read c now (cache_key h) of None \<Rightarrow> None | Some v \<Rightarrow> cached_identity ijson v)"
  using kv_get_read[of "cache_key h" c now] by (auto simp: cache_lookup_def split: option.split)

lemma cache_lookup_some:
  assumes "fst (cache_lookup ijson up now h c) = Some x"
  shows "\<exists>v. kv_read c now (cache_key h) = Some v \<and> cached_identity ijson v = Some x"
proof (cases "kv_get c now (cache_key h)")
  case (Inr p)
  obtain v c' where p: "p = (v, c')" by (cases p)
  have "v = kv_read c now (cache_key h)" using kv_get_Inr(1) Inr p by metis
  then show ?thesis using assms Inr p by (cases up; cases v) (auto simp: cache_lookup_def split: option.splits)
qed (use assms in \<open>auto simp: cache_lookup_def split: if_splits\<close>)


lemma verify_read_keeps:
  assumes "now \<le> n"
  shows "kv_read (storage (snd (verify_read hash ijson rjson up now tok s))) n k = kv_read (storage s) n k"
    and "cache_read (snd (verify_read hash ijson rjson up now tok s)) n h = cache_read s n h"
    and "cacheTtl (snd (verify_read hash ijson rjson up now tok s)) = cacheTtl s"
    and "cache (snd (verify_read hash ijson rjson up now tok s)) = None \<longleftrightarrow> cache s = None"
proof -
  have g: "kv_get (storage s) now (token_key (hash tok)) = Inr (v, t) \<Longrightarrow> kv_read t n k = kv_read (storage s) n k" for v t
    using kv_get_Inr(2) assms by blast
  note sp = verify_read_def Let_def
  show "kv_read (storage (snd (verify_read hash ijson rjson up now tok s))) n k = kv_read (storage s) n k"
    by (auto simp: sp g split: prod.splits option.splits sum.splits)
  show "cacheTtl (snd (verify_read hash ijson rjson up now tok s)) = cacheTtl s"
    by (auto simp: sp split: prod.splits option.splits sum.splits)
  show "cache (snd (verify_read hash ijson rjson up now tok s)) = None \<longleftrightarrow> cache s = None"
    by (auto simp: sp split: prod.splits option.splits sum.splits)
  show "cache_read (snd (verify_read hash ijson rjson up now tok s)) n h = cache_read s n h"
    using cache_lookup_keeps[OF assms, of ijson up "hash tok"]
    by (auto simp: sp cache_read_def split: prod.splits option.splits sum.splits) (metis snd_conv)+
qed

lemma verify_read_hit:
  assumes "fst (verify_read hash ijson rjson up now tok s) = Inr (Hit i)"
  shows "\<exists>v. cache_read s now (hash tok) = Some v \<and> cached_identity ijson v = Some i"
proof (cases "cache s")
  case None
  then show ?thesis using assms by (auto simp: verify_read_def Let_def split: if_splits option.splits sum.splits prod.splits)
next
  case (Some c)
  then have "fst (cache_lookup ijson up now (hash tok) c) = Some i" using assms
    by (auto simp: verify_read_def Let_def split: if_splits option.splits sum.splits prod.splits)
  then show ?thesis using cache_lookup_some Some by (fastforce simp: cache_read_def)
qed

lemma verify_read_found:
  assumes "fst (verify_read hash ijson rjson up now tok s) = Inr (Found i)"
  shows "\<exists>v r. token_read s now (hash tok) = Some v \<and> stored_record rjson v = Some r \<and> key_revokedAt r = None \<and> i = identity_of (hash tok) r"
proof -
  have g: "kv_get (storage s) now (token_key (hash tok)) = Inr (v, t) \<Longrightarrow> v = token_read s now (hash tok)" for v t
    using kv_get_Inr(1) by (fastforce simp: token_read_def)
  show ?thesis using assms g
    by (fastforce simp: verify_read_def Let_def split: if_splits option.splits sum.splits prod.splits)
qed

lemma verify_fill_storage [simp]: "storage (verify_fill up now h i s) = storage s"
  by (auto simp: verify_fill_def split: option.split sum.split)

lemma verify_fill_cache:
  "cache_read (verify_fill up now h i s) n h' = cache_read s n h' \<or>
   (h' = h \<and> usable_identity i \<and> cache_read (verify_fill up now h i s) n h' = (if now + cacheTtl s * 1000 \<le> n then None else Some (Val i)))"
proof (cases "cache s")
  case (Some c)
  then show ?thesis using kv_set_Inr[of c now "cache_key h" "Val i" "Some (cacheTtl s)" _ n "cache_key h'"]
    by (auto simp: verify_fill_def cache_read_def split: sum.split)
qed (simp add: verify_fill_def)

lemma verifyRawToken_storage:
  "now \<le> n \<Longrightarrow> kv_read (storage (snd (verifyRawToken hash ijson rjson up now tok s))) n k = kv_read (storage s) n k"
  using verify_read_keeps(1)[of now n hash ijson rjson up tok s k]
  by (auto simp: verifyRawToken_def split: prod.splits sum.splits verification.splits)

text \<open>After a verification the cache reads as before, or holds the identity just read from the storage.\<close>

lemma verifyRawToken_cache:
  assumes "now \<le> n"
  shows "cache_read (snd (verifyRawToken hash ijson rjson up now tok s)) n h = cache_read s n h \<or>
    (\<exists>i. h = hash tok \<and> fst (verify_read hash ijson rjson up now tok s) = Inr (Found i) \<and>
      cache_read (snd (verifyRawToken hash ijson rjson up now tok s)) n h \<in> {None, Some (Val i)})"
proof -
  obtain x s1 where v: "verify_read hash ijson rjson up now tok s = (x, s1)" by (cases "verify_read hash ijson rjson up now tok s")
  have k: "cache_read s1 n h = cache_read s n h" using verify_read_keeps(2)[OF assms, of hash ijson rjson up tok s h] v by simp
  show ?thesis
  proof (cases "\<exists>i. x = Inr (Found i)")
    case True
    then obtain i where x: "x = Inr (Found i)" by blast
    show ?thesis using verify_fill_cache[of up now "hash tok" i s1 n h] k v x
      by (auto simp: verifyRawToken_def split: if_splits)
  next
    case False
    then show ?thesis using k v by (auto simp: verifyRawToken_def split: sum.splits verification.splits)
  qed
qed

lemma verifyRawToken_result:
  assumes "fst (verifyRawToken hash ijson rjson up now tok s) = Inr (Some i)"
  shows "(\<exists>v. cache_read s now (hash tok) = Some v \<and> cached_identity ijson v = Some i) \<or>
    (\<exists>v r. token_read s now (hash tok) = Some v \<and> stored_record rjson v = Some r \<and> key_revokedAt r = None \<and> i = identity_of (hash tok) r)"
  using assms verify_read_hit[of hash ijson rjson up now tok s i] verify_read_found[of hash ijson rjson up now tok s i]
  by (auto simp: verifyRawToken_def split: prod.splits sum.splits verification.splits)

section \<open>Histories of the key store\<close>

datatype key_event =
    Create int "int list" "nat list" string string "string option"
  | Verify bool int string
  | Revoke bool int string

fun event_time :: "key_event \<Rightarrow> int" where
  "event_time (Create now _ _ _ _ _) = now"
| "event_time (Verify _ now _) = now"
| "event_time (Revoke _ now _) = now"

fun key_step :: "(string \<Rightarrow> string) \<Rightarrow> IdentityContext json \<Rightarrow> StoredApiKeyRecord json \<Rightarrow> key_event \<Rightarrow> key_store \<Rightarrow> key_store" where
  "key_step hash ijson rjson (Create now ib rb name org project) s = snd (createKey hash now ib rb name org project s)"
| "key_step hash ijson rjson (Verify up now tok) s = snd (verifyRawToken hash ijson rjson up now tok s)"
| "key_step hash ijson rjson (Revoke up now keyId) s = snd (revokeKey up now keyId s)"

text \<open>No event creates a key with the hash \<open>h\<close> again.\<close>

fun creates_other :: "(string \<Rightarrow> string) \<Rightarrow> string \<Rightarrow> key_event \<Rightarrow> bool" where
  "creates_other hash h (Create now ib rb name org project) = (hash (raw_token rb) \<noteq> h)"
| "creates_other hash h e = True"

lemma createKey_keeps:
  assumes "hash (raw_token rb) \<noteq> h"
  shows "token_read (snd (createKey hash now ib rb name org project s)) n h = token_read s n h"
    and "cache (snd (createKey hash now ib rb name org project s)) = cache s"
    and "id_read (snd (createKey hash now ib rb name org project s)) n i \<in> {id_read s n i, Some (Str (hash (raw_token rb)))}"
proof -
  define r where "r = new_record hash now ib rb name org project"
  define ws where "ws = [(token_key (key_tokenHash r), Val r), (id_key (key_id r), Str (key_tokenHash r)), (org_key (key_orgId r) (key_id r), Val r)]"
  have h: "key_tokenHash r = hash (raw_token rb)" by (simp add: r_def new_record_def)
  have s: "storage (snd (createKey hash now ib rb name org project s)) = snd (set_all now ws (storage s))"
    by (simp add: createKey_def Let_def ws_def r_def split: prod.split)
  show "token_read (snd (createKey hash now ib rb name org project s)) n h = token_read s n h"
    using set_all_read_other[of "token_key h" ws now "storage s" n] assms h by (auto simp: token_read_def s ws_def)
  show "cache (snd (createKey hash now ib rb name org project s)) = cache s"
    by (simp add: createKey_def Let_def split: prod.split)
  show "id_read (snd (createKey hash now ib rb name org project s)) n i \<in> {id_read s n i, Some (Str (hash (raw_token rb)))}"
    using set_all_read_or[of now ws "storage s" n "id_key i"] h by (auto simp: id_read_def s ws_def)
qed


lemma cache_key_valid: "kv_valid (token_key h) \<Longrightarrow> kv_valid (cache_key h)"
  by (auto simp: kv_valid_def validateKey_def token_key_def cache_key_def utf8_len_def split: if_splits)

text \<open>What a revocation does, in terms of reads: nothing, or it marks the record its identifier points to.\<close>

definition marks :: "bool \<Rightarrow> int \<Rightarrow> string \<Rightarrow> string \<Rightarrow> bool res \<Rightarrow> key_store \<Rightarrow> key_store \<Rightarrow> bool" where
  "marks up now keyId h x s s' = (\<exists>r t t2 u. kv_valid (token_key h) \<and> token_read s now h = Some (Val r) \<and>
     (\<forall>n k. now \<le> n \<longrightarrow> kv_read t n k = kv_read (storage s) n k) \<and>
     set_all now [(token_key h, Val (r\<lparr>key_revokedAt := Some now\<rparr>)),
                  (org_key (key_orgId r) keyId, Val (r\<lparr>key_revokedAt := Some now\<rparr>))] t = (u, t2) \<and>
     (x, s') = (case u of Inl e \<Rightarrow> (Inl e, s\<lparr>storage := t2\<rparr>) | Inr _ \<Rightarrow> (Inr True, evict up h (s\<lparr>storage := t2\<rparr>))))"

definition idles :: "int \<Rightarrow> bool res \<Rightarrow> key_store \<Rightarrow> key_store \<Rightarrow> bool" where
  "idles now x s s' = (x \<noteq> Inr True \<and> cache s' = cache s \<and> cacheTtl s' = cacheTtl s \<and>
     (\<forall>n k. now \<le> n \<longrightarrow> kv_read (storage s') n k = kv_read (storage s) n k))"

lemma marksE:
  assumes "marks up now keyId h x s s'"
  obtains r t t2 u where "kv_valid (token_key h)" "token_read s now h = Some (Val r)"
     "\<forall>n k. now \<le> n \<longrightarrow> kv_read t n k = kv_read (storage s) n k"
     "set_all now [(token_key h, Val (r\<lparr>key_revokedAt := Some now\<rparr>)),
                  (org_key (key_orgId r) keyId, Val (r\<lparr>key_revokedAt := Some now\<rparr>))] t = (u, t2)"
     "(x, s') = (case u of Inl e \<Rightarrow> (Inl e, s\<lparr>storage := t2\<rparr>) | Inr _ \<Rightarrow> (Inr True, evict up h (s\<lparr>storage := t2\<rparr>)))"
  using assms unfolding marks_def by blast

lemma revoke_token_cases:
  assumes "revoke_token up now keyId h s = (x, s')"
  shows "idles now x s s' \<or> marks up now keyId h x s s'"
proof (cases "kv_get (storage s) now (token_key h)")
  case (Inl e)
  then show ?thesis using assms by (auto simp: revoke_token_def idles_def)
next
  case (Inr q)
  obtain w t where q: "q = (w, t)" by (cases q)
  have w: "w = token_read s now h" using kv_get_Inr(1) Inr q by (fastforce simp: token_read_def)
  have t: "\<forall>n k. now \<le> n \<longrightarrow> kv_read t n k = kv_read (storage s) n k" using kv_get_Inr(2) Inr q by blast
  have val: "kv_valid (token_key h)" using Inr by (auto simp: kv_get_def kv_valid_def res_simps)
  consider "w = None \<or> (\<exists>y. w = Some (Str y))" | (rec) r where "w = Some (Val r)"
    by (metis option.exhaust stored.exhaust)
  then show ?thesis
  proof cases
    case 1
    then show ?thesis using assms Inr q t by (auto simp: revoke_token_def idles_def split: if_splits)
  next
    case (rec r)
    obtain u t2 where st: "set_all now [(token_key h, Val (r\<lparr>key_revokedAt := Some now\<rparr>)),
        (org_key (key_orgId r) keyId, Val (r\<lparr>key_revokedAt := Some now\<rparr>))] t = (u, t2)" by (meson surj_pair)
    then have "(x, s') = (case u of Inl e \<Rightarrow> (Inl e, s\<lparr>storage := t2\<rparr>) | Inr _ \<Rightarrow> (Inr True, evict up h (s\<lparr>storage := t2\<rparr>)))"
      using assms Inr q rec by (simp add: revoke_token_def Let_def)
    then show ?thesis using t w rec val st unfolding marks_def by blast
  qed
qed

lemma idles_trans:
  "(\<forall>n k. now \<le> n \<longrightarrow> kv_read (storage s1) n k = kv_read (storage s) n k) \<Longrightarrow> cache s1 = cache s \<Longrightarrow> cacheTtl s1 = cacheTtl s \<Longrightarrow>
   idles now x s1 s' \<Longrightarrow> idles now x s s'"
  by (simp add: idles_def)

lemma marks_trans:
  assumes "\<forall>n k. now \<le> n \<longrightarrow> kv_read t n k = kv_read (storage s) n k" "marks up now keyId h x (s\<lparr>storage := t\<rparr>) s'"
  shows "marks up now keyId h x s s'"
proof -
  obtain r t1 t2 u where m: "kv_valid (token_key h)" "token_read (s\<lparr>storage := t\<rparr>) now h = Some (Val r)"
     "\<forall>n k. now \<le> n \<longrightarrow> kv_read t1 n k = kv_read (storage (s\<lparr>storage := t\<rparr>)) n k"
     "set_all now [(token_key h, Val (r\<lparr>key_revokedAt := Some now\<rparr>)),
                  (org_key (key_orgId r) keyId, Val (r\<lparr>key_revokedAt := Some now\<rparr>))] t1 = (u, t2)"
     "(x, s') = (case u of Inl e \<Rightarrow> (Inl e, s\<lparr>storage := t, storage := t2\<rparr>)
        | Inr _ \<Rightarrow> (Inr True, evict up h (s\<lparr>storage := t, storage := t2\<rparr>)))"
    using assms(2) unfolding marks_def by blast
  have "(x, s') = (case u of Inl e \<Rightarrow> (Inl e, s\<lparr>storage := t2\<rparr>) | Inr _ \<Rightarrow> (Inr True, evict up h (s\<lparr>storage := t2\<rparr>)))"
    using m(5) by (cases u) simp_all
  moreover have "token_read s now h = Some (Val r)" "\<forall>n k. now \<le> n \<longrightarrow> kv_read t1 n k = kv_read (storage s) n k"
    using m(2,3) assms(1) by (simp_all add: token_read_def)
  ultimately show ?thesis using m(1,4) unfolding marks_def by blast
qed

lemma revokeKey_cases:
  assumes "revokeKey up now keyId s = (x, s')"
  shows "idles now x s s' \<or> (\<exists>v. id_read s now keyId = Some v \<and> marks up now keyId (as_segment v) x s s')"
proof (cases "kv_get (storage s) now (id_key keyId)")
  case (Inl e)
  then show ?thesis using assms by (auto simp: revokeKey_def idles_def)
next
  case (Inr q)
  obtain w t where q: "q = (w, t)" by (cases q)
  have w: "w = id_read s now keyId" using kv_get_Inr(1) Inr q by (fastforce simp: id_read_def)
  have t: "\<forall>n k. now \<le> n \<longrightarrow> kv_read t n k = kv_read (storage s) n k" using kv_get_Inr(2) Inr q by blast
  show ?thesis
  proof (cases "w = None \<or> w = Some (Str [])")
    case True
    then show ?thesis using assms Inr q t by (auto simp: revokeKey_def idles_def)
  next
    case False
    then obtain v where v: "w = Some v" by auto
    then have "revoke_token up now keyId (as_segment v) (s\<lparr>storage := t\<rparr>) = (x, s')"
      using assms Inr q False by (simp add: revokeKey_def)
    then have "idles now x (s\<lparr>storage := t\<rparr>) s' \<or> marks up now keyId (as_segment v) x (s\<lparr>storage := t\<rparr>) s'"
      by (rule revoke_token_cases)
    then show ?thesis using idles_trans[of now "s\<lparr>storage := t\<rparr>" s x s'] marks_trans[OF t] t v w by auto
  qed
qed

lemma evict_storage [simp]: "storage (evict up h s) = storage s"
  by (auto simp: evict_def split: option.split sum.split)

lemma evict_cache: "cache_read (evict up h s) n h' \<in> {cache_read s n h', None}"
proof (cases "cache s")
  case (Some c)
  show ?thesis
  proof (cases "kv_delete c (cache_key h)")
    case (Inr c')
    then show ?thesis using Some kv_delete_Inr[OF Inr, of n "cache_key h'"] by (simp add: evict_def cache_read_def)
  qed (simp add: evict_def cache_read_def Some)
qed (simp add: evict_def cache_read_def)

lemma evict_gone: "kv_valid (cache_key h) \<Longrightarrow> cache_read (evict True h s) n h = None"
  using kv_delete_Inr[of _ "cache_key h" _ n "cache_key h"]
  by (auto simp: evict_def cache_read_def kv_delete_def kv_valid_def split: option.split sum.split)

lemma marks_token:
  assumes "marks up now keyId h x s s'" "now \<le> n"
  shows "(token_read s' n h' = token_read s n h') \<or> (h' = h \<and> (\<exists>r. token_read s now h = Some (Val r) \<and> token_read s' n h' = Some (Val (r\<lparr>key_revokedAt := Some now\<rparr>))))"
    and "id_read s' n i = id_read s n i"
    and "cache_read s' n h' \<in> {cache_read s n h', None}"
proof -
  obtain r t t2 u where m: "token_read s now h = Some (Val r)"
     "\<forall>n k. now \<le> n \<longrightarrow> kv_read t n k = kv_read (storage s) n k"
     "set_all now [(token_key h, Val (r\<lparr>key_revokedAt := Some now\<rparr>)),
                  (org_key (key_orgId r) keyId, Val (r\<lparr>key_revokedAt := Some now\<rparr>))] t = (u, t2)"
     "(x, s') = (case u of Inl e \<Rightarrow> (Inl e, s\<lparr>storage := t2\<rparr>) | Inr _ \<Rightarrow> (Inr True, evict up h (s\<lparr>storage := t2\<rparr>)))"
    by (rule marksE[OF assms(1)])
  have st: "storage s' = t2" and ca: "s' = s\<lparr>storage := t2\<rparr> \<or> s' = evict up h (s\<lparr>storage := t2\<rparr>)"
    using m(4) by (auto split: sum.splits)
  let ?ws = "[(token_key h, Val (r\<lparr>key_revokedAt := Some now\<rparr>)), (org_key (key_orgId r) keyId, Val (r\<lparr>key_revokedAt := Some now\<rparr>))]"
  have "kv_read t2 n (token_key h') = kv_read t n (token_key h') \<or>
      (h' = h \<and> kv_read t2 n (token_key h') = Some (Val (r\<lparr>key_revokedAt := Some now\<rparr>)))"
    using set_all_read_or[of now ?ws t n "token_key h'"] m(3) by auto
  then show "(token_read s' n h' = token_read s n h') \<or> (h' = h \<and> (\<exists>r. token_read s now h = Some (Val r) \<and> token_read s' n h' = Some (Val (r\<lparr>key_revokedAt := Some now\<rparr>))))"
    using m(1,2) st assms(2) unfolding token_read_def by auto
  show "id_read s' n i = id_read s n i"
    using set_all_read_other[of "id_key i" ?ws now t n] m(2,3) st assms(2) by (simp add: id_read_def)
  show "cache_read s' n h' \<in> {cache_read s n h', None}"
    using ca evict_cache[of up h "s\<lparr>storage := t2\<rparr>" n h'] by (auto simp: cache_read_def)
qed

text \<open>A revocation that reports success has marked the record and evicted the cache.\<close>

lemma revoked_reads:
  assumes "revokeKey True now keyId s = (Inr True, s')" "id_read s now keyId = Some v"
  shows "\<exists>r. token_read s' n (as_segment v) = Some (Val r) \<and> key_revokedAt r = Some now"
    and "cache_read s' n (as_segment v) = None"
proof -
  have mk: "marks True now keyId (as_segment v) (Inr True) s s'"
    using revokeKey_cases[OF assms(1)] assms(2) by (auto simp: idles_def)
  obtain r t t2 u where m: "kv_valid (token_key (as_segment v))"
     "set_all now [(token_key (as_segment v), Val (r\<lparr>key_revokedAt := Some now\<rparr>)),
                  (org_key (key_orgId r) keyId, Val (r\<lparr>key_revokedAt := Some now\<rparr>))] t = (u, t2)"
     "(Inr True, s') = (case u of Inl e \<Rightarrow> (Inl e, s\<lparr>storage := t2\<rparr>) | Inr _ \<Rightarrow> (Inr True, evict True (as_segment v) (s\<lparr>storage := t2\<rparr>)))"
    by (rule marksE[OF mk])
  have e: "s' = evict True (as_segment v) (s\<lparr>storage := t2\<rparr>)" and u: "u = Inr ()"
    using m(3) by (cases u; simp)+
  show "cache_read s' n (as_segment v) = None" by (simp add: e evict_gone cache_key_valid m(1))
  show "\<exists>r. token_read s' n (as_segment v) = Some (Val r) \<and> key_revokedAt r = Some now"
    using set_all_read[OF m(2)[unfolded u], of "token_key (as_segment v)" "Val (r\<lparr>key_revokedAt := Some now\<rparr>)" n] e
    by (simp add: token_read_def)
qed


section \<open>Revocation is final\<close>

text \<open>
  The contract of a store of revocable credentials: a credential that is dead stays dead under
  every harmless step, and a dead credential is not admitted.
\<close>

locale revocable =
  fixes step :: "'e \<Rightarrow> 's \<Rightarrow> 's"
    and time_of :: "'e \<Rightarrow> int"
    and harmless :: "'c \<Rightarrow> 'e \<Rightarrow> bool"
    and dead :: "'c \<Rightarrow> int \<Rightarrow> 's \<Rightarrow> bool"
    and admits :: "'c \<Rightarrow> int \<Rightarrow> 's \<Rightarrow> bool"
  assumes dead_step: "dead c now s \<Longrightarrow> harmless c e \<Longrightarrow> now \<le> time_of e \<Longrightarrow> dead c (time_of e) (step e s)"
    and dead_refused: "dead c now s \<Longrightarrow> now \<le> later \<Longrightarrow> \<not> admits c later s"
begin

lemma dead_forever:
  assumes "dead c now s" "list_all (harmless c) es" "sorted (now # map time_of es @ [later])"
  shows "\<not> admits c later (fold step es s)"
  using assms
proof (induction es arbitrary: now s)
  case Nil
  then show ?case using dead_refused by simp
next
  case (Cons e es)
  have "dead c (time_of e) (step e s)" using Cons.prems by (intro dead_step[of c now]) auto
  moreover have "sorted (time_of e # map time_of es @ [later])" using Cons.prems(3) by simp
  ultimately show ?case using Cons.IH[of "time_of e" "step e s"] Cons.prems(2) by simp
qed

end

definition dead_token :: "string \<Rightarrow> int \<Rightarrow> key_store \<Rightarrow> bool" where
  "dead_token h now s = (\<forall>n. now \<le> n \<longrightarrow>
     (token_read s n h = None \<or> (\<exists>r. token_read s n h = Some (Val r) \<and> key_revokedAt r \<noteq> None)) \<and> cache_read s n h = None)"

definition token_admitted :: "(string \<Rightarrow> string) \<Rightarrow> IdentityContext json \<Rightarrow> StoredApiKeyRecord json \<Rightarrow> string \<Rightarrow> int \<Rightarrow> key_store \<Rightarrow> bool" where
  "token_admitted hash ijson rjson h now s = (\<exists>up tok i. hash tok = h \<and> fst (verifyRawToken hash ijson rjson up now tok s) = Inr (Some i))"

lemma dead_not_found:
  assumes "dead_token (hash tok) now s" "now \<le> n"
  shows "fst (verify_read hash ijson rjson up n tok s) \<noteq> Inr (Found i)"
proof
  assume "fst (verify_read hash ijson rjson up n tok s) = Inr (Found i)"
  then obtain v r where "token_read s n (hash tok) = Some v" "stored_record rjson v = Some r" "key_revokedAt r = None"
    using verify_read_found by blast
  then show False using assms unfolding dead_token_def by (metis option.distinct(1) option.inject stored_record.simps(1))
qed

lemma dead_token_step:
  assumes "dead_token h now s" "creates_other hash h e" "now \<le> event_time e"
  shows "dead_token h (event_time e) (key_step hash ijson rjson e s)"
proof (cases e)
  case (Create m ib rb name org project)
  then have "hash (raw_token rb) \<noteq> h" using assms(2) by simp
  then show ?thesis using assms Create createKey_keeps[of hash rb h m ib name org project s]
    by (auto simp: dead_token_def cache_read_def)
next
  case (Verify up m tok)
  have "cache_read (snd (verifyRawToken hash ijson rjson up m tok s)) n h = None" if "m \<le> n" for n
    using verifyRawToken_cache[OF that, of hash ijson rjson up tok s h] dead_not_found[of hash tok now s m] assms Verify that
    by (auto simp: dead_token_def)
  moreover have "token_read (snd (verifyRawToken hash ijson rjson up m tok s)) n h = token_read s n h" if "m \<le> n" for n
    using verifyRawToken_storage[OF that] by (simp add: token_read_def)
  ultimately show ?thesis using assms Verify by (auto simp: dead_token_def)
next
  case (Revoke up m keyId)
  obtain x s' where r: "revokeKey up m keyId s = (x, s')" by (cases "revokeKey up m keyId s")
  have *: "(token_read s' n h = token_read s n h \<or> (\<exists>r. token_read s' n h = Some (Val (r\<lparr>key_revokedAt := Some m\<rparr>)))) \<and>
      cache_read s' n h \<in> {cache_read s n h, None}" if "m \<le> n" for n
    using revokeKey_cases[OF r] marks_token[of up m keyId _ x s s' n h] that
    by (auto simp: idles_def token_read_def cache_read_def)
  have d: "(token_read s n h = None \<or> (\<exists>r. token_read s n h = Some (Val r) \<and> key_revokedAt r \<noteq> None)) \<and> cache_read s n h = None"
    if "m \<le> n" for n using assms Revoke that by (simp add: dead_token_def)
  have "(token_read s' n h = None \<or> (\<exists>r. token_read s' n h = Some (Val r) \<and> key_revokedAt r \<noteq> None)) \<and> cache_read s' n h = None"
    if "m \<le> n" for n using d[OF that] *[OF that] by auto
  then show ?thesis using Revoke r by (simp add: dead_token_def)
qed

lemma dead_token_refused:
  assumes "dead_token h now s" "now \<le> later"
  shows "\<not> token_admitted hash ijson rjson h later s"
proof
  assume "token_admitted hash ijson rjson h later s"
  then obtain up tok i where t: "hash tok = h" "fst (verifyRawToken hash ijson rjson up later tok s) = Inr (Some i)"
    by (auto simp: token_admitted_def)
  have "cache_read s later h = None" using assms by (simp add: dead_token_def)
  then obtain v r where "token_read s later h = Some v" "stored_record rjson v = Some r" "key_revokedAt r = None"
    using verifyRawToken_result[OF t(2)] t(1) by auto
  then show False using assms unfolding dead_token_def by (metis option.distinct(1) option.inject stored_record.simps(1))
qed

interpretation key_revocation: revocable "key_step hash ijson rjson" event_time "creates_other hash" dead_token "token_admitted hash ijson rjson"
  for hash ijson rjson
  by unfold_locales (fact dead_token_step, fact dead_token_refused)

text \<open>
  Once a revocation has reported success, the token of the revoked key is never accepted again,
  whatever verifications, creations of other keys and revocations follow, in storage or from the cache.
\<close>

theorem revocation_is_final:
  assumes "revokeKey True now keyId s = (Inr True, s')" "id_read s now keyId = Some (Str (hash tok))"
    and "list_all (creates_other hash (hash tok)) es" "sorted (now # map event_time es @ [later])"
  shows "fst (verifyRawToken hash ijson rjson up later tok (fold (key_step hash ijson rjson) es s')) \<noteq> Inr (Some i)"
proof -
  have "dead_token (hash tok) now s'"
    using revoked_reads[OF assms(1,2)] by (simp add: dead_token_def) (metis option.distinct(1))
  then show ?thesis using key_revocation.dead_forever[OF _ assms(3,4), of s' ijson rjson] by (auto simp: token_admitted_def)
qed


section \<open>A key works until it is revoked\<close>

text \<open>The record is stored, the cache holds nothing else for it, and only its own identifier leads to it.\<close>

definition alive_at :: "StoredApiKeyRecord \<Rightarrow> int \<Rightarrow> key_store \<Rightarrow> bool" where
  "alive_at r n s = (token_read s n (key_tokenHash r) = Some (Val r) \<and>
     cache_read s n (key_tokenHash r) \<in> {None, Some (Val (identity_of (key_tokenHash r) r))} \<and>
     (\<forall>i v. i \<noteq> key_id r \<longrightarrow> id_read s n i = Some v \<longrightarrow> as_segment v \<noteq> key_tokenHash r))"

definition alive_token :: "StoredApiKeyRecord \<Rightarrow> int \<Rightarrow> key_store \<Rightarrow> bool" where
  "alive_token r now s = (\<forall>n. now \<le> n \<longrightarrow> alive_at r n s)"

fun spares :: "(string \<Rightarrow> string) \<Rightarrow> StoredApiKeyRecord \<Rightarrow> key_event \<Rightarrow> bool" where
  "spares hash r (Create now ib rb name org project) = (hash (raw_token rb) \<noteq> key_tokenHash r)"
| "spares hash r (Verify up now tok) = True"
| "spares hash r (Revoke up now keyId) = (keyId \<noteq> key_id r)"

lemma alive_create:
  assumes "alive_at r n s" "hash (raw_token rb) \<noteq> key_tokenHash r"
  shows "alive_at r n (snd (createKey hash m ib rb name org project s))"
proof -
  let ?s = "snd (createKey hash m ib rb name org project s)"
  have "id_read ?s n i = Some v \<Longrightarrow> id_read s n i = Some v \<or> v = Str (hash (raw_token rb))" for i v
    using createKey_keeps(3)[where hash = hash and rb = rb and h = "key_tokenHash r" and now = m and n = n and i = i
        and ib = ib and name = name and org = org and project = project and s = s] assms(2) by auto
  then have "i \<noteq> key_id r \<longrightarrow> id_read ?s n i = Some v \<longrightarrow> as_segment v \<noteq> key_tokenHash r" for i v
    using assms unfolding alive_at_def by fastforce
  then show ?thesis using assms createKey_keeps(1,2)[where hash = hash and rb = rb and h = "key_tokenHash r"]
    by (auto simp: alive_at_def cache_read_def)
qed

lemma alive_verify:
  assumes "alive_at r m s" "alive_at r n s" "m \<le> n"
  shows "alive_at r n (snd (verifyRawToken hash ijson rjson up m tok s))"
proof -
  let ?s = "snd (verifyRawToken hash ijson rjson up m tok s)"
  have "i = identity_of (key_tokenHash r) r"
    if "fst (verify_read hash ijson rjson up m tok s) = Inr (Found i)" "key_tokenHash r = hash tok" for i
    using verify_read_found[OF that(1)] that(2) assms(1) by (force simp: alive_at_def)
  then have "cache_read ?s n (key_tokenHash r) \<in> {None, Some (Val (identity_of (key_tokenHash r) r))}"
    using verifyRawToken_cache[OF assms(3), of hash ijson rjson up tok s "key_tokenHash r"] assms(2)
    by (auto simp: alive_at_def)
  moreover have "token_read ?s n h = token_read s n h" "id_read ?s n i = id_read s n i" for h i
    using verifyRawToken_storage[OF assms(3)] by (simp_all add: token_read_def id_read_def)
  ultimately show ?thesis using assms(2) by (simp add: alive_at_def)
qed

lemma alive_revoke:
  assumes "alive_at r m s" "alive_at r n s" "m \<le> n" "keyId \<noteq> key_id r"
  shows "alive_at r n (snd (revokeKey up m keyId s))"
proof -
  obtain x s' where r: "revokeKey up m keyId s = (x, s')" by (cases "revokeKey up m keyId s")
  have ne: "id_read s m keyId = Some v \<Longrightarrow> as_segment v \<noteq> key_tokenHash r" for v
    using assms by (auto simp: alive_at_def)
  have "token_read s' n (key_tokenHash r) = token_read s n (key_tokenHash r) \<and> (\<forall>i. id_read s' n i = id_read s n i) \<and>
      cache_read s' n (key_tokenHash r) \<in> {cache_read s n (key_tokenHash r), None}"
    using revokeKey_cases[OF r]
  proof (elim disjE exE conjE)
    assume "idles m x s s'"
    then show ?thesis using assms(3) by (simp add: idles_def token_read_def cache_read_def id_read_def)
  next
    fix v
    assume v: "id_read s m keyId = Some v" and k: "marks up m keyId (as_segment v) x s s'"
    show ?thesis using marks_token(1)[OF k assms(3), of "key_tokenHash r"] marks_token(2,3)[OF k assms(3)] ne[OF v] by auto
  qed
  then show ?thesis using assms(2) r by (auto simp: alive_at_def)
qed

lemma alive_token_step:
  assumes "alive_token r now s" "spares hash r e" "now \<le> event_time e"
  shows "alive_token r (event_time e) (key_step hash ijson rjson e s)"
  using assms by (cases e) (auto simp: alive_token_def intro: alive_create alive_verify alive_revoke)

lemma alive_token_fold:
  assumes "alive_token r now s" "list_all (spares hash r) es" "sorted (now # map event_time es @ [later])"
  shows "alive_token r later (fold (key_step hash ijson rjson) es s)"
  using assms
proof (induction es arbitrary: now s)
  case Nil
  then have "now \<le> later" by simp
  then show ?case using Nil(1) by (simp add: alive_token_def)
next
  case (Cons e es)
  have "alive_token r (event_time e) (key_step hash ijson rjson e s)" using Cons.prems by (intro alive_token_step) auto
  then show ?case using Cons by simp
qed

lemma alive_verifies:
  assumes "alive_token r now s" "key_revokedAt r = None" "starts_with tok ''rfk_''" "hash tok = key_tokenHash r" "kv_valid (token_key (hash tok))"
  shows "fst (verifyRawToken hash ijson rjson up now tok s) = Inr (Some (identity_of (hash tok) r))"
proof -
  have t: "token_read s now (hash tok) = Some (Val r)" and c: "cache_read s now (hash tok) \<in> {None, Some (Val (identity_of (hash tok) r))}"
    using assms(1,4) by (auto simp: alive_token_def alive_at_def)
  define x where "x = fst (verify_read hash ijson rjson up now tok s)"
  obtain t' where g: "kv_get (storage s) now (token_key (hash tok)) = Inr (Some (Val r), t')"
    using kv_get_read[OF assms(5), of "storage s" now] t by (auto simp: token_read_def)
  have "(\<exists>i. x = Inr (Hit i)) \<or> x = Inr (Found (identity_of (hash tok) r))"
    using g assms(2,3) by (simp add: x_def verify_read_def Let_def split: prod.split option.split)
  moreover have "i = identity_of (hash tok) r" if "x = Inr (Hit i)" for i
    using verify_read_hit[of hash ijson rjson up now tok s i] c that by (auto simp: x_def split: if_splits)
  ultimately show ?thesis by (auto simp: x_def verifyRawToken_def split: prod.split sum.split verification.split)
qed

text \<open>No cache entry and no identifier of the store refers to the hash.\<close>

definition fresh_hash :: "string \<Rightarrow> int \<Rightarrow> key_store \<Rightarrow> bool" where
  "fresh_hash h now s = (\<forall>n k v. now \<le> n \<longrightarrow> cache_read s n h = None \<and> (id_read s n k = Some v \<longrightarrow> as_segment v \<noteq> h))"

lemma createKey_alive:
  assumes "createKey hash now ib rb name org project s = (Inr (i, tok, r), s')"
    and "fresh_hash (hash tok) now s"
  shows "alive_token r now s'" "key_tokenHash r = hash tok" "key_revokedAt r = None" "tok = raw_token rb" "kv_valid (token_key (hash tok))"
proof -
  let ?r = "new_record hash now ib rb name org project"
  let ?ws = "[(token_key (key_tokenHash ?r), Val ?r), (id_key (key_id ?r), Str (key_tokenHash ?r)), (org_key (key_orgId ?r) (key_id ?r), Val ?r)]"
  have r: "r = ?r" "tok = raw_token rb" and st: "set_all now ?ws (storage s) = (Inr (), storage s')" and ca: "cache s' = cache s"
    using assms(1) by (auto simp: createKey_def Let_def res_simps split: prod.splits)
  show h: "key_tokenHash r = hash tok" "key_revokedAt r = None" and "tok = raw_token rb" by (simp_all add: r new_record_def)
  have d: "distinct (map fst ?ws)" by simp
  have "token_read s' n (hash tok) = Some (Val r)" for n
    using set_all_read[OF st d, of "token_key (key_tokenHash ?r)" "Val ?r" n] r h by (simp add: token_read_def)
  moreover have "id_read s' n k = id_read s n k" if "k \<noteq> key_id r" for n k
    using set_all_read_other[of "id_key k" ?ws now "storage s" n] st that r by (simp add: id_read_def)
  ultimately show "alive_token r now s'" using assms(2)[unfolded fresh_hash_def] h ca by (auto simp: alive_token_def alive_at_def cache_read_def)
  show "kv_valid (token_key (hash tok))"
    using st h r by (auto simp: kv_set_def kv_valid_def res_simps split: sum.splits)
qed


text \<open>
  A created key works until it is revoked: whatever verifications, creations of other keys and
  revocations of other keys follow, with or without a working cache, its token is accepted and
  resolves to the trimmed name, organisation and project it was created with.
\<close>

theorem key_valid_until_revoked:
  assumes "createKey hash now ib rb name org project s = (Inr (i, tok, r), s')"
    and "fresh_hash (hash tok) now s"
    and "list_all (spares hash r) es" "sorted (now # map event_time es @ [later])"
  shows "fst (verifyRawToken hash ijson rjson up later tok (fold (key_step hash ijson rjson) es s')) =
    Inr (Some \<lparr>callerId = trim name, ctx_orgId = trim org, ctx_projectId = trimmed_or_none project,
               ctx_tokenHash = Some (hash tok), callerType = Token\<rparr>)"
proof -
  note c = createKey_alive[OF assms(1,2)]
  have "alive_token r later (fold (key_step hash ijson rjson) es s')" using alive_token_fold[OF c(1) assms(3,4)] .
  then have "fst (verifyRawToken hash ijson rjson up later tok (fold (key_step hash ijson rjson) es s')) = Inr (Some (identity_of (hash tok) r))"
    using c by (intro alive_verifies) (simp_all add: raw_token_def starts_with_def)
  moreover have "r = new_record hash now ib rb name org project"
    using assms(1) by (auto simp: createKey_def Let_def res_simps split: prod.splits)
  ultimately show ?thesis by (simp add: identity_of_def new_record_def)
qed

definition demo_hash :: "string \<Rightarrow> string" where
  "demo_hash tok = rev tok"

definition demo_keys :: key_store where
  "demo_keys = snd (createKey demo_hash 1000 [0, 0, 0, 0, 0, 0, 0, 0, 0, 0] [1, 171] '' ci '' ''acme'' (Some '' '') (new_ApiKeyStore True None))"

definition demo_id :: string where
  "demo_id = generateUlid 1000 [0, 0, 0, 0, 0, 0, 0, 0, 0, 0]"

lemma key_valid_until_revoked_witness:
  "fst (verifyRawToken demo_hash (\<lambda>_. None) (\<lambda>_. None) True 4000 ''rfk_01ab''
      (fold (key_step demo_hash (\<lambda>_. None) (\<lambda>_. None))
        [Verify True 2000 ''rfk_01ab'', Create 2500 [0, 0, 0, 0, 0, 0, 0, 0, 0, 0] [2] ''other'' ''acme'' None, Revoke True 3000 ''x''] demo_keys)) =
   Inr (Some \<lparr>callerId = ''ci'', ctx_orgId = ''acme'', ctx_projectId = None, ctx_tokenHash = Some ''ba10_kfr'', callerType = Token\<rparr>)"
proof -
  let ?s = "new_ApiKeyStore True None"
  have c: "createKey demo_hash 1000 [0, 0, 0, 0, 0, 0, 0, 0, 0, 0] [1, 171] '' ci '' ''acme'' (Some '' '') ?s =
      (Inr (demo_id, ''rfk_01ab'', new_record demo_hash 1000 [0, 0, 0, 0, 0, 0, 0, 0, 0, 0] [1, 171] '' ci '' ''acme'' (Some '' '')), demo_keys)"
    by code_simp
  have e: "cache_read ?s n h = None" "id_read ?s n k = None" for n h k
    by (simp_all add: new_ApiKeyStore_def cache_read_def id_read_def kv_read_def live_row_def)
  have l: "list_all (spares demo_hash (new_record demo_hash 1000 [0, 0, 0, 0, 0, 0, 0, 0, 0, 0] [1, 171] '' ci '' ''acme'' (Some '' '')))
      [Verify True 2000 ''rfk_01ab'', Create 2500 [0, 0, 0, 0, 0, 0, 0, 0, 0, 0] [2] ''other'' ''acme'' None, Revoke True 3000 ''x'']"
    by code_simp
  have t: "trim '' ci '' = ''ci''" "trim ''acme'' = ''acme''" "trimmed_or_none (Some '' '') = None" "demo_hash ''rfk_01ab'' = ''ba10_kfr''"
    by code_simp+
  show ?thesis
    using key_valid_until_revoked[OF c _ l, of 4000 "\<lambda>_. None" "\<lambda>_. None" True] e t
    by (simp add: fresh_hash_def)
qed

lemma revocation_is_final_witness:
  "fst (revokeKey True 3000 demo_id (snd (verifyRawToken demo_hash (\<lambda>_. None) (\<lambda>_. None) True 2000 ''rfk_01ab'' demo_keys))) = Inr True \<and>
   fst (verifyRawToken demo_hash (\<lambda>_. None) (\<lambda>_. None) True 4000 ''rfk_01ab''
      (fold (key_step demo_hash (\<lambda>_. None) (\<lambda>_. None)) [Create 3500 [0, 0, 0, 0, 0, 0, 0, 0, 0, 0] [2] ''other'' ''acme'' None]
        (snd (revokeKey True 3000 demo_id (snd (verifyRawToken demo_hash (\<lambda>_. None) (\<lambda>_. None) True 2000 ''rfk_01ab'' demo_keys))))))
     \<noteq> Inr (Some (identity_of ''ba10_kfr'' (new_record demo_hash 1000 [0, 0, 0, 0, 0, 0, 0, 0, 0, 0] [1, 171] '' ci '' ''acme'' None)))"
proof -
  let ?s = "snd (verifyRawToken demo_hash (\<lambda>_. None) (\<lambda>_. None) True 2000 ''rfk_01ab'' demo_keys)"
  have r: "fst (revokeKey True 3000 demo_id ?s) = Inr True" by code_simp
  then have p: "revokeKey True 3000 demo_id ?s = (Inr True, snd (revokeKey True 3000 demo_id ?s))" by (metis prod.collapse)
  have i: "id_read ?s 3000 demo_id = Some (Str (demo_hash ''rfk_01ab''))" by code_simp
  have l: "list_all (creates_other demo_hash (demo_hash ''rfk_01ab'')) [Create 3500 [0, 0, 0, 0, 0, 0, 0, 0, 0, 0] [2] ''other'' ''acme'' None]" by code_simp
  show ?thesis using r revocation_is_final[OF p i l, of 4000 "\<lambda>_. None" "\<lambda>_. None" True] by simp
qed

section \<open>What can go wrong\<close>

text \<open>
  A verification that has read the record when the key is revoked, and fills the cache afterwards,
  makes the revoked token acceptable again until the cache entry expires.
\<close>

lemma late_fill_outlives_revocation:
  "let (v, s1) = verify_read demo_hash (\<lambda>_. None) (\<lambda>_. None) True 2000 ''rfk_01ab'' demo_keys;
       (revoked, s2) = revokeKey True 2001 demo_id s1;
       i = identity_of ''ba10_kfr'' (new_record demo_hash 1000 [0, 0, 0, 0, 0, 0, 0, 0, 0, 0] [1, 171] '' ci '' ''acme'' None);
       s3 = verify_fill True 2002 ''ba10_kfr'' i s2 in
   v = Inr (Found i) \<and> revoked = Inr True \<and>
   fst (verifyRawToken demo_hash (\<lambda>_. None) (\<lambda>_. None) True 302001 ''rfk_01ab'' s3) = Inr (Some i) \<and>
   fst (verifyRawToken demo_hash (\<lambda>_. None) (\<lambda>_. None) True 302002 ''rfk_01ab'' s3) = Inr None"
  by code_simp

text \<open>Listing the keys of an organisation whose name has an underscore shows keys of other organisations.\<close>

lemma listKeys_crosses_organisations:
  "map key_orgId (listKeys 2000 ''org_1''
     (snd (createKey demo_hash 1000 [0, 0, 0, 0, 0, 0, 0, 0, 0, 0] [1] ''ci'' ''orgX1'' None (new_ApiKeyStore False None)))) = [''orgX1'']"
  by code_simp

end
