(* ===== verification/ControlServer.thy ===== *)
theory ControlServer
  imports Backup ApiKeys UriCodec
begin

text \<open>
  The request handler of the control plane (\<open>apps/api/control-server.ts\<close>), over the deployment
  service, the state backup, the API keys and the project snapshots. A request is handled as one
  step (the interleaving of deployments is treated in \<open>Deployment\<close>). A URL is given by its
  path and its decoded query, a body by the value it parses to. Clock, random bytes, hashes, codecs, the
  conversions \<open>String(v)\<close> and \<open>Number(v)\<close> of values that are not strings or numbers, the failure of a write to the object store
  and the answer of the runtime for logs are the environment of a request. Interpolated values are left out of
  messages. The key records have a table of their own here; the daemon keeps them in the KV provider of the projects, under \<open>_auth\<close>, where
  an import can write entries of the index of the organisations (four segments) but no token and no identifier (three). Characters above code 255 are outside the model, so a percent-encoded one is an error of \<open>decodeURIComponent\<close> here.
\<close>

section \<open>Requests, responses, state\<close>

datatype req_body = NoBody | BadJson | Json jsval

record http_request =
  rq_method :: string
  rq_pathname :: string
  rq_query :: "(string, string) omap"
  rq_headers :: "(string, string) omap"
  rq_body :: req_body

datatype resp_body = RJson jsval | RText string | RHtml | RBytes "int list" | REmpty

record http_response =
  rs_status :: nat
  rs_body :: resp_body
  rs_etag :: "string option"
  rs_requestId :: string

record control_state =
  cs_data :: backup_state
  cs_keys :: key_store
  cs_snapshots :: snapshot_states

record environment =
  e_now :: int
  e_requestUlid :: string
  e_idBytes :: "int list"
  e_random :: "nat list"
  e_stamp :: stamp
  e_hash :: "string \<Rightarrow> string"
  e_identity_json :: "IdentityContext json"
  e_record_json :: "StoredApiKeyRecord json"
  e_cache_up :: bool
  e_hashing :: hashing
  e_codec :: codec
  e_string :: "jsval \<Rightarrow> string"
  e_number :: "jsval \<Rightarrow> jsnum"
  e_put_fails :: "exn option"
  e_logs :: "(nat \<times> string) option"

type_synonym middleware = "auth_request \<Rightarrow> string \<Rightarrow> key_store \<Rightarrow> (auth_response + IdentityContext) \<times> key_store"

record control_options =
  o_apiKeyStore :: bool
  o_authMiddleware :: "middleware option"

section \<open>Helpers\<close>

definition DEFAULT_ORG_ID :: string where
  "DEFAULT_ORG_ID = ''default-org''"

definition header :: "http_request \<Rightarrow> string \<Rightarrow> string option" where
  "header rq k = oget (rq_headers rq) k"

text \<open>\<open>a || b\<close> on optional strings.\<close>

definition or_str :: "string option \<Rightarrow> string option \<Rightarrow> string option" where
  "or_str a b = (case a of Some (c # s) \<Rightarrow> Some (c # s) | _ \<Rightarrow> b)"

definition resolveRequestId :: "environment \<Rightarrow> http_request \<Rightarrow> string" where
  "resolveRequestId env rq =
     or_default (or_str (header rq ''x-request-id'') (or_str (header rq ''request-id'') None)) (e_requestUlid env)"

definition error_body :: "string \<Rightarrow> string \<Rightarrow> string \<Rightarrow> jsval" where
  "error_body ecode msg rid = JObj [(''error'', JObj [(''code'', JStr ecode), (''message'', JStr msg), (''request_id'', JStr rid)])]"

definition buildErrorResponse :: "exn \<Rightarrow> string \<Rightarrow> http_response" where
  "buildErrorResponse e rid =
     (case e of
        RF r \<Rightarrow> \<lparr>rs_status = statusFromErrorCode (err_code r),
                 rs_body = RJson (error_body (code_name (err_code r)) (err_message r) rid), rs_etag = None, rs_requestId = rid\<rparr>
      | _ \<Rightarrow> \<lparr>rs_status = 500, rs_body = RJson (error_body ''INTERNAL'' (exn_message e) rid), rs_etag = None, rs_requestId = rid\<rparr>)"

definition parseJsonBody :: "http_request \<Rightarrow> jsval res" where
  "parseJsonBody rq =
     (case rq_body rq of
        NoBody \<Rightarrow> Inr (JObj [])
      | BadJson \<Rightarrow> Inl (throw_rf VALIDATION_FAILED ''VALIDATION_FAILED: Malformed JSON payload'')
      | Json v \<Rightarrow> if is_record v then Inr v else Inl (throw_rf VALIDATION_FAILED ''VALIDATION_FAILED: Request body must be a JSON object''))"

definition json_response :: "string \<Rightarrow> jsval \<Rightarrow> http_response" where
  "json_response rid v = \<lparr>rs_status = 200, rs_body = RJson v, rs_etag = None, rs_requestId = rid\<rparr>"

definition auth_error_response :: "auth_response \<Rightarrow> http_response" where
  "auth_error_response r =
     \<lparr>rs_status = resp_status r, rs_body = RJson (error_body (resp_code r) (resp_message r) (resp_requestId r)),
      rs_etag = None, rs_requestId = resp_requestId r\<rparr>"

definition not_allowed :: exn where
  "not_allowed = throw_rf VALIDATION_FAILED ''VALIDATION_FAILED: Method not allowed (PLAT-12)''"

definition permission_denied :: "string \<Rightarrow> exn" where
  "permission_denied m = throw_rf PERMISSION_DENIED (''PERMISSION_DENIED: '' @ m)"

definition missing :: "string \<Rightarrow> exn" where
  "missing what = throw_rf VALIDATION_FAILED (''VALIDATION_FAILED: Missing '' @ what)"

definition reads_only :: "http_request \<Rightarrow> bool" where
  "reads_only rq = (rq_method rq = ''GET'' \<or> rq_method rq = ''HEAD'')"

section \<open>Authentication\<close>

definition default_middleware :: "environment \<Rightarrow> middleware" where
  "default_middleware env =
     authMiddleware \<lparr>has_key_store = True, staticTokens = [], allowAnonymousPaths = Some [''/healthz'', ''/login'', ''/v1/auth/verify''],
                     requireMatchingProject = False\<rparr>
       (\<lambda>tok ks. verifyRawToken (e_hash env) (e_identity_json env) (e_record_json env) (e_cache_up env) (e_now env) tok ks)"

definition effective_middleware :: "control_options \<Rightarrow> environment \<Rightarrow> middleware option" where
  "effective_middleware ops env =
     (case o_authMiddleware ops of Some m \<Rightarrow> Some m | None \<Rightarrow> if o_apiKeyStore ops then Some (default_middleware env) else None)"

definition auth_view :: "http_request \<Rightarrow> auth_request" where
  "auth_view rq = \<lparr>req_pathname = rq_pathname rq, req_authorization = header rq ''authorization'', req_api_key = header rq ''x-api-key''\<rparr>"

text \<open>A string property with text in it, trimmed.\<close>

definition text_of :: "jsval \<Rightarrow> string option" where
  "text_of v = (case v of JStr s \<Rightarrow> if trim s = [] then None else Some (trim s) | _ \<Rightarrow> None)"

type_synonym outcome = "http_response res \<times> control_state"

definition json_identity :: "IdentityContext \<Rightarrow> jsval" where
  "json_identity i = JObj
     [(''callerId'', JStr (callerId i)), (''orgId'', JStr (ctx_orgId i)), (''projectId'', js_opt JStr (ctx_projectId i)),
      (''tokenHash'', js_opt JStr (ctx_tokenHash i)),
      (''callerType'', JStr (case callerType i of Anonymous \<Rightarrow> ''anonymous'' | Token \<Rightarrow> ''token'' | Project \<Rightarrow> ''project'' | Internal \<Rightarrow> ''internal''))]"

definition json_record :: "StoredApiKeyRecord \<Rightarrow> jsval" where
  "json_record r = JObj
     [(''id'', JStr (key_id r)), (''tokenHash'', JStr (key_tokenHash r)), (''name'', JStr (key_name r)), (''orgId'', JStr (key_orgId r)),
      (''projectId'', js_opt JStr (key_projectId r)), (''createdAt'', json_int (key_createdAt r))]"

text \<open>POST /v1/auth/keys, for the identity of the caller (\<open>None\<close> while no key exists).\<close>

definition mint_key :: "environment \<Rightarrow> string \<Rightarrow> IdentityContext option \<Rightarrow> http_request \<Rightarrow> control_state \<Rightarrow> outcome" where
  "mint_key env rid caller rq s =
     (case parseJsonBody rq of
        Inl e \<Rightarrow> (Inl e, s)
      | Inr body \<Rightarrow>
          let org = (case caller of Some i \<Rightarrow> ctx_orgId i | None \<Rightarrow> or_default (text_of (jget body ''orgId'')) DEFAULT_ORG_ID);
              name = or_default (text_of (jget body ''name'')) ''cli-key'';
              requested = text_of (jget body ''projectId'');
              scope = (case caller of None \<Rightarrow> None | Some i \<Rightarrow> ctx_projectId i) in
          if (case scope of Some p \<Rightarrow> p \<noteq> [] \<and> requested \<noteq> None \<and> requested \<noteq> Some p | None \<Rightarrow> False)
          then (Inl (throw_rf VALIDATION_FAILED ''VALIDATION_FAILED: Token is scoped to another project (PLAT-6)''), s)
          else (case createKey (e_hash env) (e_now env) (e_idBytes env) (e_random env) name org (or_else scope requested) (cs_keys s) of
                  (Inl e, ks) \<Rightarrow> (Inl e, s\<lparr>cs_keys := ks\<rparr>)
                | (Inr (i, raw, r), ks) \<Rightarrow>
                    (Inr (json_response rid (JObj [(''ok'', JBool True), (''id'', JStr i), (''rawToken'', JStr raw),
                        (''record'', json_record r), (''request_id'', JStr rid)])), s\<lparr>cs_keys := ks\<rparr>)))"

definition auth_keys_endpoint :: "control_options \<Rightarrow> environment \<Rightarrow> string \<Rightarrow> http_request \<Rightarrow> control_state \<Rightarrow> outcome" where
  "auth_keys_endpoint ops env rid rq s =
     (if rq_method rq \<noteq> ''POST'' then (Inl not_allowed, s)
      else if \<not> o_apiKeyStore ops
      then (Inl (throw_rf VALIDATION_FAILED ''VALIDATION_FAILED: ApiKeyStore is not configured on control server.''), s)
      else if \<not> hasAnyKeys (e_now env) (cs_keys s) then mint_key env rid None rq s
      else case effective_middleware ops env of
        None \<Rightarrow> (Inl (permission_denied ''Authentication required to create API keys (PLAT-6, PLAT-12)''), s)
      | Some m \<Rightarrow>
          (case m (auth_view rq) rid (cs_keys s) of
             (Inl r, ks) \<Rightarrow> (Inr (auth_error_response r), s\<lparr>cs_keys := ks\<rparr>)
           | (Inr i, ks) \<Rightarrow> mint_key env rid (Some i) rq (s\<lparr>cs_keys := ks\<rparr>)))"

definition auth_verify_endpoint :: "control_options \<Rightarrow> environment \<Rightarrow> string \<Rightarrow> http_request \<Rightarrow> control_state \<Rightarrow> outcome" where
  "auth_verify_endpoint ops env rid rq s =
     (if \<not> o_apiKeyStore ops
      then (Inr (json_response rid (JObj [(''ok'', JBool True),
              (''identity'', JObj [(''callerId'', JStr ''anonymous''), (''orgId'', JStr DEFAULT_ORG_ID), (''callerType'', JStr ''anonymous'')]),
              (''request_id'', JStr rid)])), s)
      else case or_str (extractBearerToken (header rq ''authorization'')) (or_str (map_option trim (header rq ''x-api-key'')) None) of
        None \<Rightarrow> (Inl (permission_denied ''Missing authorization credentials (PLAT-12)''), s)
      | Some tok \<Rightarrow>
          (case verifyRawToken (e_hash env) (e_identity_json env) (e_record_json env) (e_cache_up env) (e_now env) tok (cs_keys s) of
             (Inl e, ks) \<Rightarrow> (Inl e, s\<lparr>cs_keys := ks\<rparr>)
           | (Inr None, ks) \<Rightarrow> (Inl (permission_denied ''Invalid or revoked API token (PLAT-12)''), s\<lparr>cs_keys := ks\<rparr>)
           | (Inr (Some i), ks) \<Rightarrow>
               (Inr (json_response rid (JObj [(''ok'', JBool True), (''identity'', json_identity i), (''request_id'', JStr rid)])),
                s\<lparr>cs_keys := ks\<rparr>)))"

section \<open>Paths\<close>

definition is_data_plane_read :: "http_request \<Rightarrow> string \<Rightarrow> bool" where
  "is_data_plane_read rq p =
     (reads_only rq \<and> (ends_with p ''/snapshot'' \<or> p = ''/v1/projects'' \<or> starts_with p ''/v1/artifacts/'' \<or> ends_with p ''/logs''))"

definition is_customer_path :: "string \<Rightarrow> bool" where
  "is_customer_path p =
     (p = ''/invoke'' \<or> p = ''/run'' \<or> starts_with p ''/api/'' \<or> ends_with p ''/invoke'' \<or> p = ''/customer-function'')"

definition artifact_match :: "string \<Rightarrow> string option" where
  "artifact_match p =
     (if starts_with p ''/v1/artifacts/'' \<and> drop 14 p \<noteq> [] \<and> CHR ''/'' \<notin> set (drop 14 p) then Some (drop 14 p) else None)"

definition project_actions :: "string list" where
  "project_actions = [''snapshot'', ''deploy'', ''rollback'', ''export'', ''import'', ''logs'', ''delete'', ''undeploy'']"

definition project_match :: "string \<Rightarrow> (string \<times> string) option" where
  "project_match p =
     (if starts_with p ''/v1/projects/''
      then case split_on (CHR ''/'') (drop 13 p) of
             [q, act] \<Rightarrow> if q \<noteq> [] \<and> act \<in> set project_actions then Some (q, act) else None
           | _ \<Rightarrow> None
      else None)"

definition direct_match :: "string \<Rightarrow> string option" where
  "direct_match p =
     (if starts_with p ''/v1/projects/'' \<and> drop 13 p \<noteq> [] \<and> CHR ''/'' \<notin> set (drop 13 p) then Some (drop 13 p) else None)"

definition action_is :: "string \<Rightarrow> string \<Rightarrow> bool" where
  "action_is p act = (case project_match p of Some (_, a) \<Rightarrow> a = act | None \<Rightarrow> False)"

section \<open>Project endpoints\<close>

text \<open>Invalidate and rebuild the snapshot of a project after a change.\<close>

definition refresh_snapshot :: "environment \<Rightarrow> string \<Rightarrow> control_state \<Rightarrow> control_state" where
  "refresh_snapshot env project s =
     s\<lparr>cs_snapshots := fst (getProjectSnapshot project (e_stamp env) (service_readings (bs_dep (cs_data s)) project)
                              (invalidateProjectSnapshot project (cs_snapshots s)))\<rparr>"

definition set_dep :: "deployments \<Rightarrow> control_state \<Rightarrow> control_state" where
  "set_dep d s = s\<lparr>cs_data := (cs_data s)\<lparr>bs_dep := d\<rparr>\<rparr>"

definition artifact_endpoint :: "string \<Rightarrow> http_request \<Rightarrow> string \<Rightarrow> control_state \<Rightarrow> outcome" where
  "artifact_endpoint rid rq enc s =
     (if \<not> reads_only rq then (Inl not_allowed, s)
      else case decodeURIComponent enc of
        Inl e \<Rightarrow> (Inl e, s)
      | Inr i \<Rightarrow>
          (case oget (bs_obj (cs_data s)) (ARTIFACT_STORAGE_PREFIX @ i) of
             None \<Rightarrow> (Inl (throw_rf RESOURCE_NOT_FOUND ''RESOURCE_NOT_FOUND: Artifact not found (OBJ-4, PLAT-12)''), s)
           | Some bytes \<Rightarrow>
               let tag = [CHR 0x22] @ i @ [CHR 0x22] in
               if (case header rq ''if-none-match'' of Some h \<Rightarrow> h \<noteq> [] \<and> isEtagMatch h tag | None \<Rightarrow> False)
               then (Inr \<lparr>rs_status = 304, rs_body = REmpty, rs_etag = Some tag, rs_requestId = rid\<rparr>, s)
               else (Inr \<lparr>rs_status = 200, rs_body = RBytes bytes, rs_etag = Some tag, rs_requestId = rid\<rparr>, s)))"

definition delete_endpoint :: "string \<Rightarrow> string \<Rightarrow> control_state \<Rightarrow> outcome" where
  "delete_endpoint rid enc s =
     (case decodeURIComponent enc of
        Inl e \<Rightarrow> (Inl e, s)
      | Inr project \<Rightarrow>
          let (deleted, d) = deleteProject project (bs_dep (cs_data s)) in
          (Inr (json_response rid (JObj [(''ok'', JBool True), (''deleted'', JBool deleted), (''projectId'', JStr project),
              (''request_id'', JStr rid)])), set_dep d s))"

definition logs_endpoint :: "environment \<Rightarrow> string \<Rightarrow> string \<Rightarrow> control_state \<Rightarrow> outcome" where
  "logs_endpoint env rid enc s =
     (case decodeURIComponent enc of
        Inl e \<Rightarrow> (Inl e, s)
      | Inr project \<Rightarrow>
          (case e_logs env of
             Some (st, text) \<Rightarrow> (Inr \<lparr>rs_status = st, rs_body = RText text, rs_etag = None, rs_requestId = rid\<rparr>, s)
           | None \<Rightarrow> (Inr (json_response rid (JArr [])), s)))"

definition snapshot_request :: "environment \<Rightarrow> string \<Rightarrow> http_request \<Rightarrow> string \<Rightarrow> control_state \<Rightarrow> outcome" where
  "snapshot_request env rid rq enc s =
     (if \<not> reads_only rq then (Inl not_allowed, s)
      else case decodeURIComponent enc of
        Inl e \<Rightarrow> (Inl e, s)
      | Inr project \<Rightarrow>
          let (S, sn) = getProjectSnapshot project (e_stamp env) (service_readings (bs_dep (cs_data s)) project) (cs_snapshots s);
              s1 = s\<lparr>cs_snapshots := S\<rparr> in
          (case snapshot_endpoint (header rq ''if-none-match'') sn of
             NotModified tag \<Rightarrow> (Inr \<lparr>rs_status = 304, rs_body = REmpty, rs_etag = Some tag, rs_requestId = rid\<rparr>, s1)
           | SnapshotOk v tag \<Rightarrow> (Inr \<lparr>rs_status = 200, rs_body = RJson v, rs_etag = Some tag, rs_requestId = rid\<rparr>, s1)))"

text \<open>The project of a request: the first source that is not empty.\<close>

definition str_prop :: "jsval \<Rightarrow> string \<Rightarrow> string option" where
  "str_prop v k = as_str (jget v k)"

fun first_text :: "string option list \<Rightarrow> string option" where
  "first_text [] = None"
| "first_text (x # xs) = or_str x (first_text xs)"

definition path_id :: "string \<Rightarrow> string option res" where
  "path_id p =
     (case project_match p of None \<Rightarrow> Inr None | Some (q, _) \<Rightarrow> bind_res (decodeURIComponent q) (\<lambda>d. Inr (Some d)))"

definition project_of :: "string \<Rightarrow> string option list \<Rightarrow> string \<Rightarrow> string res" where
  "project_of p others what =
     bind_res (path_id p) (\<lambda>q.
       case first_text (q # others) of
         None \<Rightarrow> Inl (missing what)
       | Some x \<Rightarrow> if trim x = [] then Inl (missing what) else Inr x)"

definition to_uint8 :: "environment \<Rightarrow> jsval \<Rightarrow> int" where
  "to_uint8 env v =
     (case (case v of JNum n \<Rightarrow> n | _ \<Rightarrow> e_number env v) of
        Fin q \<Rightarrow> (if q < 0 then - floor (- q) else floor q) mod 256
      | _ \<Rightarrow> 0)"

definition artifact_bytes :: "environment \<Rightarrow> jsval \<Rightarrow> int list res" where
  "artifact_bytes env v =
     (case v of
        JArr xs \<Rightarrow> Inr (map (to_uint8 env) xs)
      | JObj fs \<Rightarrow> Inr (map (\<lambda>f. to_uint8 env (snd f)) fs)
      | _ \<Rightarrow> Inl (missing ''or invalid artifact bytes (OBJ-4, PLAT-12)''))"

definition string_or_empty :: "environment \<Rightarrow> jsval \<Rightarrow> string" where
  "string_or_empty env v = (case v of JStr s \<Rightarrow> s | JUndef \<Rightarrow> [] | JNull \<Rightarrow> [] | _ \<Rightarrow> e_string env v)"

text \<open>\<open>{...manifest, ...auth, ...limits, ...triggers}\<close>: a later property overrides.\<close>

definition merged_manifest :: "jsval \<Rightarrow> jsval \<Rightarrow> jsval" where
  "merged_manifest m body =
     JObj (map (\<lambda>k. (k, jget body k)) (filter (\<lambda>k. truthy (jget body k)) [''auth'', ''limits'', ''triggers'']) @ (case m of JObj fs \<Rightarrow> fs | _ \<Rightarrow> []))"

definition deploy_artifact :: "environment \<Rightarrow> jsval \<Rightarrow> PackagedArtifact res" where
  "deploy_artifact env body =
     (let raw = jget body ''artifact'' in
      if \<not> is_object raw then Inl (missing ''artifact for deployment (PLAT-12)'')
      else bind_res (artifact_bytes env (jget raw ''bytes'')) (\<lambda>bytes.
        Inr \<lparr>art_id = string_or_empty env (jget raw ''id''), art_integrity = string_or_empty env (jget raw ''integrity''),
             art_bytes = bytes, art_manifest = manifest_of (merged_manifest (jget raw ''manifest'') body)\<rparr>))"

text \<open>\<open>deploymentService.deploy\<close> without a health check: the default probe always passes.\<close>

definition run_deploy :: "environment \<Rightarrow> string \<Rightarrow> string \<Rightarrow> PackagedArtifact \<Rightarrow> control_state \<Rightarrow> DeploymentResult res \<times> control_state" where
  "run_deploy env project fn art s =
     (case deploy_begin (e_hashing env) project fn art (e_now env) (e_idBytes env) (bs_dep (cs_data s)) of
        Inl e \<Rightarrow> (Inl e, s)
      | Inr (r, d) \<Rightarrow>
          (case e_put_fails env of
             Some e \<Rightarrow> (Inl e, set_dep d s)
           | None \<Rightarrow>
               let s1 = (set_dep d s)\<lparr>cs_data := (cs_data (set_dep d s))\<lparr>bs_obj :=
                          oset (ARTIFACT_STORAGE_PREFIX @ art_id art) (art_bytes art) (bs_obj (cs_data s))\<rparr>\<rparr>;
                   (res, d2) = deploy_finish project fn r (probe_loop (\<lambda>_. Inr True) 0 REQUIRED_HEALTHY_PROBES) (bs_dep (cs_data s1)) in
               (Inr res, set_dep d2 s1)))"

definition route_pairs :: "jsval list \<Rightarrow> (string \<times> string) list" where
  "route_pairs rs = map (\<lambda>r. (str_of (jget r ''pattern''), str_of (jget r ''function''))) rs"

definition store_declared :: "string \<Rightarrow> jsval \<Rightarrow> deployments \<Rightarrow> deployments" where
  "store_declared project body d =
     (let d1 = (case items (jget body ''routes'') of Some rs \<Rightarrow> setProjectRoutes project (route_pairs rs) d | None \<Rightarrow> d) in
      if truthy (jget body ''environment'') \<or> truthy (jget body ''domains'')
      then setProjectMetadata project \<lparr>meta_environment = as_str (jget body ''environment''),
             meta_domains = map_option (map str_of) (items (jget body ''domains''))\<rparr> d1
      else d1)"

definition json_deploy_result :: "DeploymentResult \<Rightarrow> jsval" where
  "json_deploy_result r = JObj [(''revisionId'', JStr (res_revisionId r)), (''state'', JStr (state_name (res_state r))), (''active'', JBool (res_active r))]"

definition deploy_endpoint :: "environment \<Rightarrow> string \<Rightarrow> http_request \<Rightarrow> string \<Rightarrow> control_state \<Rightarrow> outcome" where
  "deploy_endpoint env rid rq p s =
     (if rq_method rq \<noteq> ''POST'' then (Inl not_allowed, s)
      else case bind_res (parseJsonBody rq) (\<lambda>body.
             bind_res (project_of p [str_prop body ''project'', str_prop body ''projectId''] ''project identifier for deployment (PLAT-12)'') (\<lambda>project.
             bind_res (case text_of (jget body ''functionName'') of None \<Rightarrow> Inl (missing ''functionName for deployment (PLAT-12)'') | Some f \<Rightarrow> Inr f) (\<lambda>fn.
             bind_res (deploy_artifact env body) (\<lambda>art. Inr (body, project, fn, art))))) of
        Inl e \<Rightarrow> (Inl e, s)
      | Inr (body, project, fn, art) \<Rightarrow>
          (case run_deploy env project fn art s of
             (Inl e, s1) \<Rightarrow> (Inl e, s1)
           | (Inr r, s1) \<Rightarrow>
               (Inr (json_response rid (json_deploy_result r)),
                refresh_snapshot env project (set_dep (store_declared project body (bs_dep (cs_data s1))) s1))))"

definition rollback_endpoint :: "environment \<Rightarrow> string \<Rightarrow> http_request \<Rightarrow> string \<Rightarrow> control_state \<Rightarrow> outcome" where
  "rollback_endpoint env rid rq p s =
     (if rq_method rq \<noteq> ''POST'' then (Inl not_allowed, s)
      else case bind_res (parseJsonBody rq) (\<lambda>body.
             bind_res (project_of p [str_prop body ''project'', str_prop body ''projectId''] ''project identifier for rollback (PLAT-12)'') (\<lambda>project.
             bind_res (case text_of (jget body ''functionName'') of None \<Rightarrow> Inl (missing ''functionName for rollback (PLAT-12)'') | Some f \<Rightarrow> Inr f) (\<lambda>fn.
             bind_res (case text_of (jget body ''targetRevisionId'') of None \<Rightarrow> Inl (missing ''targetRevisionId for rollback (PLAT-12)'') | Some t \<Rightarrow> Inr t)
               (\<lambda>target. Inr (project, fn, target))))) of
        Inl e \<Rightarrow> (Inl e, s)
      | Inr (project, fn, target) \<Rightarrow>
          (case rollback project fn target (bs_dep (cs_data s)) of
             (Inl e, d) \<Rightarrow> (Inl e, set_dep d s)
           | (Inr (prev, act), d) \<Rightarrow>
               (Inr (json_response rid (JObj [(''previousRevisionId'', JStr prev), (''activeRevisionId'', JStr act)])),
                refresh_snapshot env project (set_dep d s))))"

definition export_endpoint :: "environment \<Rightarrow> string \<Rightarrow> http_request \<Rightarrow> string \<Rightarrow> control_state \<Rightarrow> outcome" where
  "export_endpoint env rid rq p s =
     (if rq_method rq \<noteq> ''POST'' \<and> rq_method rq \<noteq> ''GET'' then (Inl not_allowed, s)
      else let body = (if rq_method rq = ''POST'' then (case parseJsonBody rq of Inr b \<Rightarrow> b | Inl _ \<Rightarrow> JObj []) else JObj []) in
        case project_of p [oget (rq_query rq) ''projectId'', str_prop body ''projectId'', str_prop body ''project''] ''projectId for export (PLAT-12)'' of
          Inl e \<Rightarrow> (Inl e, s)
        | Inr project \<Rightarrow>
            let org = or_default (first_text [oget (rq_query rq) ''orgId'', header rq ''x-org-id'', str_prop body ''orgId'']) DEFAULT_ORG_ID in
            (case exportProject (e_codec env) (e_now env) (e_idBytes env) org project None (cs_data s) of
               None \<Rightarrow> (Inl (Foreign ''listing does not end''), s)
             | Some (Inl e, b) \<Rightarrow> (Inl e, s\<lparr>cs_data := b\<rparr>)
             | Some (Inr a, b) \<Rightarrow> (Inr (json_response rid (json_archive a)), s\<lparr>cs_data := b\<rparr>)))"

definition json_import_result :: "ImportProjectResult \<Rightarrow> jsval" where
  "json_import_result r = JObj [(''restoredRevisions'', json_int (int (restoredRevisions r))), (''restoredKvKeys'', json_int (int (restoredKvKeys r))),
     (''restoredObjects'', json_int (int (restoredObjects r))), (''restoredQueues'', json_int (int (restoredQueues r)))]"

definition import_endpoint :: "environment \<Rightarrow> string \<Rightarrow> http_request \<Rightarrow> string \<Rightarrow> control_state \<Rightarrow> outcome" where
  "import_endpoint env rid rq p s =
     (if rq_method rq \<noteq> ''POST'' then (Inl not_allowed, s)
      else case bind_res (parseJsonBody rq) (\<lambda>body.
             bind_res (project_of p [str_prop body ''targetProjectId'', str_prop body ''projectId'', str_prop body ''project''] ''targetProjectId for import (PLAT-12)'') (\<lambda>project.
             if is_object (jget body ''archive'') then Inr (body, project)
             else Inl (missing ''archive payload in import request body (PLAT-12, ADR-0002)''))) of
        Inl e \<Rightarrow> (Inl e, s)
      | Inr (body, project) \<Rightarrow>
          let org = or_default (first_text [str_prop body ''targetOrgId'', oget (rq_query rq) ''orgId'', header rq ''x-org-id'', str_prop body ''orgId'']) DEFAULT_ORG_ID in
          (case importProject (e_codec env) (e_now env) org project (jget body ''archive'') (jget body ''overwriteKv'' = JBool True) (cs_data s) of
             (Inl e, b) \<Rightarrow> (Inl e, s\<lparr>cs_data := b\<rparr>)
           | (Inr r, b) \<Rightarrow> (Inr (json_response rid (json_import_result r)), refresh_snapshot env project (s\<lparr>cs_data := b\<rparr>))))"

section \<open>The handler\<close>

text \<open>The endpoints behind the authentication, in the order of the code.\<close>

definition management :: "environment \<Rightarrow> string \<Rightarrow> http_request \<Rightarrow> string \<Rightarrow> control_state \<Rightarrow> outcome" where
  "management env rid rq p s =
     (if is_customer_path p then (Inl (permission_denied ''Control plane never executes customer code per PLAT-1.''), s)
      else if p = ''/v1/projects'' then
        (if \<not> reads_only rq then (Inl not_allowed, s)
         else (Inr (json_response rid (JObj [(''ok'', JBool True), (''projects'', js_strs (listProjects (bs_dep (cs_data s)))),
                 (''request_id'', JStr rid)])), s))
      else if artifact_match p \<noteq> None then artifact_endpoint rid rq (the (artifact_match p)) s
      else if action_is p ''delete'' \<or> action_is p ''undeploy'' \<or> (direct_match p \<noteq> None \<and> rq_method rq = ''DELETE'')
      then delete_endpoint rid (case project_match p of Some (q, _) \<Rightarrow> q | None \<Rightarrow> or_default (direct_match p) []) s
      else if action_is p ''logs'' then logs_endpoint env rid (fst (the (project_match p))) s
      else if action_is p ''snapshot'' then snapshot_request env rid rq (fst (the (project_match p))) s
      else if action_is p ''deploy'' \<or> p = ''/deploy'' then deploy_endpoint env rid rq p s
      else if action_is p ''rollback'' \<or> p = ''/rollback'' then rollback_endpoint env rid rq p s
      else if action_is p ''export'' \<or> p = ''/export'' then export_endpoint env rid rq p s
      else if action_is p ''import'' \<or> p = ''/import'' then import_endpoint env rid rq p s
      else (Inl (permission_denied ''Control plane never executes customer code per PLAT-1.''), s))"

definition dispatch :: "control_options \<Rightarrow> environment \<Rightarrow> string \<Rightarrow> http_request \<Rightarrow> control_state \<Rightarrow> outcome" where
  "dispatch ops env rid rq s =
     (let p = normalized_path (rq_pathname rq) in
      if p = ''/healthz'' then
        (if \<not> reads_only rq then (Inl not_allowed, s)
         else (Inr (json_response rid (JObj [(''status'', JStr ''ok''), (''service'', JStr ''railfog-control''), (''request_id'', JStr rid)])), s))
      else if p = ''/login'' then
        (if \<not> reads_only rq then (Inl not_allowed, s)
         else (Inr \<lparr>rs_status = 200, rs_body = RHtml, rs_etag = None, rs_requestId = rid\<rparr>, s))
      else if p = ''/v1/auth/keys'' then auth_keys_endpoint ops env rid rq s
      else if p = ''/v1/auth/verify'' then auth_verify_endpoint ops env rid rq s
      else case effective_middleware ops env of
        Some m \<Rightarrow>
          if is_data_plane_read rq p then management env rid rq p s
          else (case m (auth_view rq) rid (cs_keys s) of
                  (Inl r, ks) \<Rightarrow> (Inr (auth_error_response r), s\<lparr>cs_keys := ks\<rparr>)
                | (Inr i, ks) \<Rightarrow> management env rid rq p (s\<lparr>cs_keys := ks\<rparr>))
      | None \<Rightarrow> management env rid rq p s)"

definition handler :: "control_options \<Rightarrow> environment \<Rightarrow> http_request \<Rightarrow> control_state \<Rightarrow> http_response \<times> control_state" where
  "handler ops env rq s =
     (let rid = resolveRequestId env rq in
      case dispatch ops env rid rq s of
        (Inl e, s1) \<Rightarrow> (buildErrorResponse e rid, s1)
      | (Inr r, s1) \<Rightarrow> (r, s1))"

text \<open>The key of the environment variable, stored at the start of the process.\<close>

definition bootstrap_key :: "environment \<Rightarrow> string \<Rightarrow> key_store \<Rightarrow> unit res \<times> key_store" where
  "bootstrap_key env tok s =
     (let h = e_hash env tok;
          r = \<lparr>key_id = ''bootstrap-id'', key_tokenHash = h, key_name = ''bootstrap-key'', key_orgId = ''default-org'',
               key_projectId = None, key_createdAt = e_now env, key_revokedAt = None\<rparr> in
      case set_all (e_now env) [(token_key h, Val r)] (storage s) of (u, t) \<Rightarrow> (u, s\<lparr>storage := t\<rparr>))"

section \<open>What the endpoints leave alone\<close>

lemma set_dep_keys [simp]: "cs_keys (set_dep d s) = cs_keys s" "cs_keys (refresh_snapshot env p s) = cs_keys s"
  "cs_data (refresh_snapshot env p s) = cs_data s"
  by (simp_all add: set_dep_def refresh_snapshot_def)

lemma run_deploy_keys [simp]: "cs_keys (snd (run_deploy env project fn art s)) = cs_keys s"
  by (auto simp: run_deploy_def Let_def split: sum.split option.split prod.split)

text \<open>The endpoints behind the authentication leave the keys alone.\<close>

lemma endpoints_keep_keys:
  "cs_keys (snd (artifact_endpoint rid rq enc s)) = cs_keys s"
  "cs_keys (snd (delete_endpoint rid enc s)) = cs_keys s"
  "cs_keys (snd (logs_endpoint env rid enc s)) = cs_keys s"
  "cs_keys (snd (snapshot_request env rid rq enc s)) = cs_keys s"
  "cs_keys (snd (rollback_endpoint env rid rq p s)) = cs_keys s"
  "cs_keys (snd (export_endpoint env rid rq p s)) = cs_keys s"
  "cs_keys (snd (import_endpoint env rid rq p s)) = cs_keys s"
  by (auto simp: artifact_endpoint_def delete_endpoint_def logs_endpoint_def snapshot_request_def rollback_endpoint_def
      export_endpoint_def import_endpoint_def Let_def split: sum.split option.split prod.split snapshot_response.split)

lemma deploy_endpoint_keys: "cs_keys (snd (deploy_endpoint env rid rq p s)) = cs_keys s"
proof -
  have "run_deploy env project fn art s = (x, s1) \<Longrightarrow> cs_keys s1 = cs_keys s" for project fn art x s1
    using run_deploy_keys[of env project fn art s] by simp
  then show ?thesis by (auto simp: deploy_endpoint_def split: sum.split prod.split)
qed

lemma management_keys: "cs_keys (snd (management env rid rq p s)) = cs_keys s"
  by (simp add: management_def endpoints_keep_keys deploy_endpoint_keys)

text \<open>The reads that bypass the authentication change no data.\<close>

lemma reads_keep_data:
  "cs_data (snd (artifact_endpoint rid rq enc s)) = cs_data s"
  "cs_data (snd (logs_endpoint env rid enc s)) = cs_data s"
  "cs_data (snd (snapshot_request env rid rq enc s)) = cs_data s"
  by (auto simp: artifact_endpoint_def logs_endpoint_def snapshot_request_def
      Let_def split: sum.split option.split prod.split snapshot_response.split)

lemma mint_key_data: "cs_data (snd (mint_key env rid caller rq s)) = cs_data s"
  by (auto simp: mint_key_def Let_def split: sum.split prod.split)

lemma auth_endpoints_data:
  "cs_data (snd (auth_keys_endpoint ops env rid rq s)) = cs_data s"
  "cs_data (snd (auth_verify_endpoint ops env rid rq s)) = cs_data s"
  by (auto simp: auth_keys_endpoint_def auth_verify_endpoint_def mint_key_data split: sum.split option.split prod.split)


lemma project_match_path:
  assumes "project_match p = Some (q, act)"
  shows "p = ''/v1/projects/'' @ q @ ''/'' @ act" "act \<in> set project_actions" "q \<noteq> []" "CHR ''/'' \<notin> set q"
proof -
  have s: "starts_with p ''/v1/projects/''" "split_on (CHR ''/'') (drop 13 p) = [q, act]" "act \<in> set project_actions" "q \<noteq> []"
    using assms by (auto simp: project_match_def split: if_splits list.splits)
  have "drop 13 p = q @ ''/'' @ act" using join_split[of "CHR ''/''" "drop 13 p"] s(2) by simp
  then show "p = ''/v1/projects/'' @ q @ ''/'' @ act" using s(1) by (auto simp: starts_with_iff)
  show "act \<in> set project_actions" "q \<noteq> []" using s by auto
  show "CHR ''/'' \<notin> set q" using split_on_no_sep[of q "CHR ''/''" "drop 13 p"] s(2) by simp
qed

lemma action_path:
  assumes "action_is p act"
  shows "starts_with p ''/v1/projects/''" "\<exists>q. p = q @ act"
proof -
  obtain q where "project_match p = Some (q, act)" using assms by (auto simp: action_is_def split: option.splits)
  note m = project_match_path(1)[OF this]
  show "starts_with p ''/v1/projects/''" unfolding m by (rule starts_with_append)
  show "\<exists>q. p = q @ act" unfolding m by (metis append.assoc)
qed

text \<open>The actions that change something do not look like a read of the data plane.\<close>

lemma mutation_not_read:
  assumes "act \<in> {''deploy'', ''rollback'', ''export'', ''import'', ''delete'', ''undeploy''}" "action_is p act \<or> p = ''/'' @ act"
  shows "\<not> is_data_plane_read rq p"
proof -
  have "\<exists>q. p = q @ act" using assms(2) action_path(2) by blast
  then have "\<not> ends_with p ''/snapshot'' \<and> \<not> ends_with p ''/logs''"
    using assms(1) by (auto simp: ends_with_def suffix_to_prefix)
  moreover have "starts_with p ''/v1/projects/'' \<or> p = ''/'' @ act" using assms(2) action_path(1) by blast
  then have "p \<noteq> ''/v1/projects'' \<and> \<not> starts_with p ''/v1/artifacts/''" using assms(1) by (auto simp: starts_with_iff)
  ultimately show ?thesis by (simp add: is_data_plane_read_def)
qed

lemma data_plane_read_data:
  assumes "is_data_plane_read rq p"
  shows "cs_data (snd (management env rid rq p s)) = cs_data s"
proof -
  have n: "\<not> action_is p act" "p \<noteq> ''/'' @ act"
    if "act \<in> {''deploy'', ''rollback'', ''export'', ''import'', ''delete'', ''undeploy''}" for act
    using mutation_not_read[OF that, of p rq] assms by auto
  have d: "rq_method rq \<noteq> ''DELETE''" using assms by (auto simp: is_data_plane_read_def reads_only_def)
  show ?thesis using n[of "''deploy''"] n[of "''rollback''"] n[of "''export''"] n[of "''import''"] n[of "''delete''"] n[of "''undeploy''"] d
    by (simp add: management_def reads_keep_data)
qed

lemma default_middleware_keeps:
  assumes "default_middleware env a rid ks = (x, ks')" "e_now env \<le> n"
  shows "kv_read (storage ks') n k = kv_read (storage ks) n k"
  using assms verifyRawToken_storage[OF assms(2), of "e_hash env" "e_identity_json env" "e_record_json env" "e_cache_up env" _ ks k]
  by (auto simp: default_middleware_def authMiddleware_def Let_def split: if_splits option.splits prod.splits sum.splits) (metis snd_conv)+

text \<open>Whoever is not authenticated changes no data, and no key once there are keys.\<close>

definition default_auth :: "control_options \<Rightarrow> bool" where
  "default_auth ops = (o_apiKeyStore ops \<and> o_authMiddleware ops = None)"

lemma effective_default: "default_auth ops \<Longrightarrow> effective_middleware ops env = Some (default_middleware env)"
  by (simp add: default_auth_def effective_middleware_def)

lemma denied_data:
  assumes "effective_middleware ops env = Some m" "m (auth_view rq) (resolveRequestId env rq) (cs_keys s) = (Inl r, ks)"
  shows "cs_data (snd (handler ops env rq s)) = cs_data s"
proof -
  let ?rid = "resolveRequestId env rq"
  have "cs_data (snd (dispatch ops env ?rid rq s)) = cs_data s"
    using assms by (simp add: dispatch_def Let_def auth_endpoints_data data_plane_read_data)
  then show ?thesis by (auto simp: handler_def Let_def split: prod.split sum.split)
qed

lemma denied_keys:
  assumes "default_auth ops" "default_middleware env (auth_view rq) (resolveRequestId env rq) (cs_keys s) = (Inl r, ks)"
    and "hasAnyKeys (e_now env) (cs_keys s)" "e_now env \<le> n"
  shows "kv_read (storage (cs_keys (snd (handler ops env rq s)))) n k = kv_read (storage (cs_keys s)) n k"
proof -
  let ?rid = "resolveRequestId env rq"
  note e = effective_default[OF assms(1), of env] default_middleware_keeps[OF assms(2,4), of k]
    verifyRawToken_storage[OF assms(4), of "e_hash env" "e_identity_json env" "e_record_json env" "e_cache_up env" _ "cs_keys s" k]
  have v: "kv_read (storage (cs_keys (snd (auth_verify_endpoint ops env ?rid rq s)))) n k = kv_read (storage (cs_keys s)) n k"
    using e(3) by (auto simp: auth_verify_endpoint_def split: option.split prod.split sum.split) (metis snd_conv)+
  have "kv_read (storage (cs_keys (snd (dispatch ops env ?rid rq s)))) n k = kv_read (storage (cs_keys s)) n k"
    using assms(2,3) e v by (simp add: dispatch_def Let_def auth_keys_endpoint_def management_keys)
  then show ?thesis by (auto simp: handler_def Let_def split: prod.split sum.split)
qed

text \<open>
  C15: With the key store as the only authentication, a request the middleware refuses changes no deployment, object
  or KV entry, whatever its method and path (the reads of the data plane bypass the middleware, and only read), and
  once the store holds a key it changes no key either.
\<close>

theorem unauthenticated_request_changes_nothing:
  assumes "default_auth ops" "default_middleware env (auth_view rq) (resolveRequestId env rq) (cs_keys s) = (Inl r, ks)"
  shows "cs_data (snd (handler ops env rq s)) = cs_data s \<and>
    (hasAnyKeys (e_now env) (cs_keys s) \<longrightarrow> e_now env \<le> n \<longrightarrow>
      kv_read (storage (cs_keys (snd (handler ops env rq s)))) n k = kv_read (storage (cs_keys s)) n k)"
  using denied_data[OF effective_default[OF assms(1)]] denied_keys assms by auto

section \<open>Keys over a run of the server\<close>

text \<open>What a request does to the key store is a history of key events at the time of the request.\<close>

definition request_events :: "environment \<Rightarrow> key_event set" where
  "request_events env = {Verify (e_cache_up env) (e_now env) tok | tok. True} \<union>
     {Create (e_now env) (e_idBytes env) (e_random env) name org project | name org project. True}"

definition env_step :: "environment \<Rightarrow> key_event \<Rightarrow> key_store \<Rightarrow> key_store" where
  "env_step env = key_step (e_hash env) (e_identity_json env) (e_record_json env)"

inductive key_history :: "environment \<Rightarrow> key_store \<Rightarrow> key_store \<Rightarrow> bool" for env where
  none: "key_history env ks ks"
| more: "key_history env ks ks' \<Longrightarrow> e \<in> request_events env \<Longrightarrow> key_history env ks (env_step env e ks')"

lemma verify_history: "key_history env ks (snd (verifyRawToken (e_hash env) (e_identity_json env) (e_record_json env) (e_cache_up env) (e_now env) tok ks))"
  using key_history.more[OF key_history.none, of "Verify (e_cache_up env) (e_now env) tok" env ks]
  by (auto simp: request_events_def env_step_def)

lemma create_history:
  "key_history env ks ks' \<Longrightarrow> key_history env ks (snd (createKey (e_hash env) (e_now env) (e_idBytes env) (e_random env) name org project ks'))"
  using key_history.more[of env ks ks' "Create (e_now env) (e_idBytes env) (e_random env) name org project"]
  by (auto simp: request_events_def env_step_def)

lemma middleware_history:
  assumes "default_middleware env a rid ks = (x, ks')"
  shows "key_history env ks ks'"
proof -
  have "verifyRawToken (e_hash env) (e_identity_json env) (e_record_json env) (e_cache_up env) (e_now env) tok ks = (y, ks'') \<Longrightarrow>
    key_history env ks ks''" for tok y ks'' using verify_history[of env ks tok] by simp
  then show ?thesis using assms
    by (auto simp: default_middleware_def authMiddleware_def Let_def intro: key_history.none
        split: if_splits option.splits prod.splits sum.splits)
qed

lemma mint_history:
  assumes "key_history env ks (cs_keys s)"
  shows "key_history env ks (cs_keys (snd (mint_key env rid caller rq s)))"
proof -
  have "createKey (e_hash env) (e_now env) (e_idBytes env) (e_random env) name org project (cs_keys s) = (y, ks') \<Longrightarrow>
    key_history env ks ks'" for name org project y ks' using create_history[OF assms, of name org project] by simp
  then show ?thesis using assms by (auto simp: mint_key_def Let_def split: sum.split prod.split)
qed

lemma handler_history:
  assumes "default_auth ops"
  shows "key_history env (cs_keys s) (cs_keys (snd (handler ops env rq s)))"
proof -
  let ?rid = "resolveRequestId env rq"
  let ?H = "key_history env (cs_keys s)"
  note e = effective_default[OF assms, of env]
  have v: "?H (cs_keys (snd (auth_verify_endpoint ops env ?rid rq s)))"
    using verify_history[of env "cs_keys s"]
    by (auto simp: auth_verify_endpoint_def intro: key_history.none split: option.split prod.split sum.split) (metis snd_conv)+
  have k: "?H (cs_keys (snd (auth_keys_endpoint ops env ?rid rq s)))"
    using middleware_history[of env "auth_view rq" ?rid "cs_keys s"]
    by (auto simp: auth_keys_endpoint_def e intro: key_history.none intro!: mint_history split: prod.split sum.split)
  have "?H (cs_keys (snd (dispatch ops env ?rid rq s)))"
    using middleware_history[of env "auth_view rq" ?rid "cs_keys s"] v k
    by (auto simp: dispatch_def Let_def e management_keys intro: key_history.none split: prod.split sum.split)
  then show ?thesis by (auto simp: handler_def Let_def split: prod.split sum.split)
qed


lemma dead_history:
  assumes "key_history env ks ks'" "dead_token h now ks" "now \<le> e_now env" "e_hash env (raw_token (e_random env)) \<noteq> h"
  shows "dead_token h (e_now env) ks'"
  using assms
proof (induction rule: key_history.induct)
  case (none ks)
  then show ?case by (simp add: dead_token_def)
next
  case (more ks ks' e)
  then have "creates_other (e_hash env) h e" "event_time e = e_now env" by (auto simp: request_events_def)
  then show ?case using dead_token_step[of h "e_now env" ks' "e_hash env" e] more by (simp add: env_step_def)
qed

text \<open>A run of the server: each request comes with its environment.\<close>

definition serve :: "control_options \<Rightarrow> (environment \<times> http_request) list \<Rightarrow> control_state \<Rightarrow> control_state" where
  "serve ops reqs s = fold (\<lambda>(env, rq) s. snd (handler ops env rq s)) reqs s"

definition never_mints :: "string \<Rightarrow> environment \<times> http_request \<Rightarrow> bool" where
  "never_mints h x = (e_hash (fst x) (raw_token (e_random (fst x))) \<noteq> h)"

lemma dead_serve:
  assumes "default_auth ops" "dead_token h now (cs_keys s)" "sorted (now # map (e_now \<circ> fst) reqs @ [later])" "list_all (never_mints h) reqs"
  shows "dead_token h later (cs_keys (serve ops reqs s))"
  using assms(2-4)
proof (induction reqs arbitrary: now s)
  case Nil
  then show ?case by (simp add: serve_def dead_token_def)
next
  case (Cons x reqs)
  obtain env rq where x: "x = (env, rq)" by (cases x)
  have "dead_token h (e_now env) (cs_keys (snd (handler ops env rq s)))"
    using dead_history[OF handler_history[OF assms(1)] Cons.prems(1)] Cons.prems(2,3) x by (simp add: never_mints_def)
  then show ?case using Cons.IH[of "e_now env"] Cons.prems x by (simp add: serve_def)
qed

definition public_path :: "string \<Rightarrow> bool" where
  "public_path p = (p \<in> {''/healthz'', ''/login'', ''/v1/auth/verify''})"

lemma public_path_data:
  "public_path (normalized_path (rq_pathname rq)) \<Longrightarrow> cs_data (snd (handler ops env rq s)) = cs_data s"
  using auth_endpoints_data(2)[of ops env _ rq s]
  by (auto simp: public_path_def handler_def dispatch_def Let_def split: prod.split sum.split) (metis snd_conv)+

lemma refused_token_denied:
  assumes "\<not> public_path (normalized_path (rq_pathname rq))" "presented_token (auth_view rq) = Some tok"
    and "\<not> token_admitted (e_hash env) (e_identity_json env) (e_record_json env) (e_hash env tok) (e_now env) ks"
  shows "\<exists>m ks'. default_middleware env (auth_view rq) rid ks = (Inl (denied m rid), ks')"
proof -
  have "verifyRawToken (e_hash env) (e_identity_json env) (e_record_json env) (e_cache_up env) (e_now env) tok ks \<noteq> (Inr (Some i), ks')" for i ks'
    using assms(3) unfolding token_admitted_def by (metis fst_conv)
  then show ?thesis using assms(1,2)
    by (auto simp: default_middleware_def authMiddleware_def Let_def public_path_def auth_view_def split: option.split sum.split prod.split)
qed


lemma code_status_not_200: "statusFromErrorCode c \<noteq> 200"
  by (cases c) auto

lemma error_status: "rs_status (buildErrorResponse e rid) \<noteq> 200"
  using code_status_not_200 by (auto simp: buildErrorResponse_def split: exn.split)

lemma middleware_token:
  assumes "default_middleware env (auth_view rq) rid ks = (Inr i, ks')" "\<not> public_path (normalized_path (rq_pathname rq))"
  obtains tok where "presented_token (auth_view rq) = Some tok"
    "verifyRawToken (e_hash env) (e_identity_json env) (e_record_json env) (e_cache_up env) (e_now env) tok ks = (Inr (Some i), ks')"
  using assms
  by (auto simp: default_middleware_def authMiddleware_def Let_def public_path_def auth_view_def split: if_splits option.splits sum.splits prod.splits)

lemma default_middleware_status:
  assumes "default_middleware env a rid ks = (Inl r, ks')"
  shows "resp_status r = 403 \<and> resp_code r = ''PERMISSION_DENIED'' \<and> resp_requestId r = rid"
  using assms by (auto simp: default_middleware_def authMiddleware_def Let_def denied_def createAuthErrorResponse_def
      split: if_splits option.splits sum.splits prod.splits)

lemma createKey_stored:
  assumes "createKey hash now ib rb name org project s = (Inr (i, tok, r), s')"
  shows "token_read s' n (hash (raw_token rb)) = Some (Val r)" "r = new_record hash now ib rb name org project"
proof -
  let ?r = "new_record hash now ib rb name org project"
  let ?ws = "[(token_key (key_tokenHash ?r), Val ?r), (id_key (key_id ?r), Str (key_tokenHash ?r)), (org_key (key_orgId ?r) (key_id ?r), Val ?r)]"
  show r: "r = ?r" using assms by (auto simp: createKey_def Let_def res_simps split: prod.splits)
  have st: "set_all now ?ws (storage s) = (Inr (), storage s')"
    using assms by (auto simp: createKey_def Let_def res_simps split: prod.splits)
  show "token_read s' n (hash (raw_token rb)) = Some (Val r)"
    using set_all_read[OF st, of "token_key (key_tokenHash ?r)" "Val ?r" n] by (simp add: token_read_def r) (simp add: new_record_def)
qed

lemma mint_key_200:
  assumes "mint_key env rid caller rq s = (Inr resp, s')"
  obtains name org project i tok r ks where "createKey (e_hash env) (e_now env) (e_idBytes env) (e_random env) name org project (cs_keys s) = (Inr (i, tok, r), ks)"
    "s' = s\<lparr>cs_keys := ks\<rparr>" "\<And>c. caller = Some c \<Longrightarrow> org = ctx_orgId c" "\<And>c q. caller = Some c \<Longrightarrow> ctx_projectId c = Some q \<Longrightarrow> project = Some q"
proof -
  obtain body where b: "parseJsonBody rq = Inr body" using assms by (auto simp: mint_key_def split: sum.splits)
  define org where "org = (case caller of Some i \<Rightarrow> ctx_orgId i | None \<Rightarrow> or_default (text_of (jget body ''orgId'')) DEFAULT_ORG_ID)"
  define name where "name = or_default (text_of (jget body ''name'')) ''cli-key''"
  define project where "project = or_else (case caller of None \<Rightarrow> None | Some i \<Rightarrow> ctx_projectId i) (text_of (jget body ''projectId''))"
  obtain i tok r ks where c: "createKey (e_hash env) (e_now env) (e_idBytes env) (e_random env) name org project (cs_keys s) = (Inr (i, tok, r), ks)"
    "s' = s\<lparr>cs_keys := ks\<rparr>"
    using assms b unfolding mint_key_def org_def name_def project_def by (auto simp: Let_def split: sum.splits prod.splits if_splits)
  show ?thesis using that[OF c] by (simp add: org_def project_def or_else_def)
qed


text \<open>
  C29: Once the store holds a key, a new key is minted only for a caller whose own token the store accepts, in the caller's
  organisation and, when the caller is scoped to a project, for that project; the other tokens read as before.
\<close>

theorem minted_key_within_caller_scope:
  assumes "default_auth ops" "hasAnyKeys (e_now env) (cs_keys s)" "normalized_path (rq_pathname rq) = ''/v1/auth/keys''"
    and "handler ops env rq s = (resp, s')" "rs_status resp = 200" "h = e_hash env (raw_token (e_random env))"
  shows "\<exists>tok i r. presented_token (auth_view rq) = Some tok \<and>
    fst (verifyRawToken (e_hash env) (e_identity_json env) (e_record_json env) (e_cache_up env) (e_now env) tok (cs_keys s)) = Inr (Some i) \<and>
    token_read (cs_keys s') (e_now env) h = Some (Val r) \<and> key_orgId r = trim (ctx_orgId i) \<and>
    (\<forall>q. ctx_projectId i = Some q \<longrightarrow> key_projectId r = trimmed_or_none (Some q)) \<and>
    (\<forall>h' n. h' \<noteq> h \<longrightarrow> e_now env \<le> n \<longrightarrow> token_read (cs_keys s') n h' = token_read (cs_keys s) n h')"
proof -
  let ?rid = "resolveRequestId env rq"
  have st: "auth_keys_endpoint ops env ?rid rq s = (Inr resp, s')"
    using assms(3-5) error_status by (auto simp: handler_def dispatch_def Let_def split: prod.splits sum.splits)
  then obtain i ks where m: "default_middleware env (auth_view rq) ?rid (cs_keys s) = (Inr i, ks)"
    and k: "mint_key env ?rid (Some i) rq (s\<lparr>cs_keys := ks\<rparr>) = (Inr resp, s')"
    using assms(1,2,5) effective_default[OF assms(1), of env] default_middleware_status[of env "auth_view rq" ?rid "cs_keys s"]
    by (auto simp: auth_keys_endpoint_def auth_error_response_def split: if_splits prod.splits sum.splits)
  have np: "\<not> public_path (normalized_path (rq_pathname rq))" using assms(3) by (simp add: public_path_def)
  obtain tok where t: "presented_token (auth_view rq) = Some tok"
    "verifyRawToken (e_hash env) (e_identity_json env) (e_record_json env) (e_cache_up env) (e_now env) tok (cs_keys s) = (Inr (Some i), ks)"
    by (rule middleware_token[OF m np])
  obtain name org project x raw r ks' where c: "createKey (e_hash env) (e_now env) (e_idBytes env) (e_random env) name org project ks = (Inr (x, raw, r), ks')"
    and s': "cs_keys s' = ks'" "org = ctx_orgId i" "\<And>q. ctx_projectId i = Some q \<Longrightarrow> project = Some q"
    by (rule mint_key_200[OF k]) auto
  have "token_read ks' n h' = token_read (cs_keys s) n h'" if "h' \<noteq> h" "e_now env \<le> n" for h' n
    using createKey_keeps(1)[of "e_hash env" "e_random env" h'] c assms(6) that default_middleware_keeps[OF m that(2)]
    by (metis snd_conv token_read_def)
  then show ?thesis using createKey_stored[OF c] t s' assms(6) by (auto simp: new_record_def)
qed


section \<open>The shape of responses\<close>

definition canonical_error :: "string \<Rightarrow> http_response \<Rightarrow> bool" where
  "canonical_error rid r =
     (\<exists>c m. rs_status r = statusFromErrorCode c \<and> rs_body r = RJson (error_body (code_name c) m rid))"

definition response_ok :: "environment \<Rightarrow> string \<Rightarrow> http_response \<Rightarrow> bool" where
  "response_ok env rid r =
     (rs_requestId r = rid \<and>
      (rs_status r = 200 \<or> (rs_status r = 304 \<and> rs_body r = REmpty \<and> rs_etag r \<noteq> None) \<or> canonical_error rid r \<or>
       (\<exists>txt. e_logs env = Some (rs_status r, txt) \<and> rs_body r = RText txt)))"

definition outcome_ok :: "environment \<Rightarrow> string \<Rightarrow> outcome \<Rightarrow> bool" where
  "outcome_ok env rid x = (case fst x of Inl _ \<Rightarrow> True | Inr r \<Rightarrow> response_ok env rid r)"

lemma canonicalI:
  "rs_status r = statusFromErrorCode c \<Longrightarrow> rs_body r = RJson (error_body (code_name c) m rid) \<Longrightarrow> canonical_error rid r"
  unfolding canonical_error_def by blast

lemma error_response_ok: "response_ok env rid (buildErrorResponse e rid)"
proof -
  have "canonical_error rid (buildErrorResponse e rid)"
    by (rule canonicalI[where c = "case e of RF r \<Rightarrow> err_code r | _ \<Rightarrow> INTERNAL" and m = "exn_message e"])
      (cases e; simp add: buildErrorResponse_def)+
  then show ?thesis by (auto simp: response_ok_def buildErrorResponse_def split: exn.split)
qed

lemma json_response_ok [simp]: "response_ok env rid (json_response rid v)"
  by (simp add: response_ok_def json_response_def)

lemma auth_error_ok:
  assumes "default_middleware env a rid ks = (Inl r, ks')"
  shows "response_ok env rid (auth_error_response r)"
proof -
  have "canonical_error rid (auth_error_response r)"
    using default_middleware_status[OF assms] by (intro canonicalI[where c = PERMISSION_DENIED]) (simp_all add: auth_error_response_def)
  then show ?thesis using default_middleware_status[OF assms] by (simp add: response_ok_def auth_error_response_def)
qed

lemma outcome_simps [simp]:
  "outcome_ok env rid (Inl e, s)" "outcome_ok env rid (Inr r, s) = response_ok env rid r"
  by (simp_all add: outcome_ok_def)

lemma endpoints_ok:
  "outcome_ok env rid (artifact_endpoint rid rq enc s)"
  "outcome_ok env rid (delete_endpoint rid enc s)"
  "outcome_ok env rid (logs_endpoint env rid enc s)"
  "outcome_ok env rid (snapshot_request env rid rq enc s)"
  "outcome_ok env rid (deploy_endpoint env rid rq p s)"
  "outcome_ok env rid (rollback_endpoint env rid rq p s)"
  "outcome_ok env rid (export_endpoint env rid rq p s)"
  "outcome_ok env rid (import_endpoint env rid rq p s)"
  by (auto simp: artifact_endpoint_def delete_endpoint_def logs_endpoint_def snapshot_request_def deploy_endpoint_def rollback_endpoint_def
      export_endpoint_def import_endpoint_def Let_def split: sum.split option.split prod.split snapshot_response.split,
      auto simp: response_ok_def)

lemma auth_endpoints_ok:
  assumes "o_authMiddleware ops = None"
  shows "outcome_ok env rid (mint_key env rid caller rq s)" "outcome_ok env rid (auth_keys_endpoint ops env rid rq s)"
    "outcome_ok env rid (auth_verify_endpoint ops env rid rq s)"
proof -
  show m: "outcome_ok env rid (mint_key env rid caller rq s)" for caller s
    by (auto simp: mint_key_def Let_def split: sum.split prod.split)
  show "outcome_ok env rid (auth_keys_endpoint ops env rid rq s)"
    using assms by (auto simp: auth_keys_endpoint_def effective_middleware_def m auth_error_ok split: sum.split prod.split)
  show "outcome_ok env rid (auth_verify_endpoint ops env rid rq s)"
    by (auto simp: auth_verify_endpoint_def split: sum.split prod.split option.split)
qed

lemma management_ok: "outcome_ok env rid (management env rid rq p s)"
  by (simp add: management_def endpoints_ok)

text \<open>
  Every response of the control plane is well formed: it carries the identifier of its request, and it is a success, an
  empty 304 with its ETag, the answer of the runtime for logs, or an error whose status is the one of the error code
  in its body, with the request identifier repeated there.
\<close>

theorem responses_well_formed:
  assumes "o_authMiddleware ops = None"
  shows "response_ok env (resolveRequestId env rq) (fst (handler ops env rq s))"
proof -
  let ?rid = "resolveRequestId env rq"
  have "outcome_ok env ?rid (dispatch ops env ?rid rq s)"
    using assms auth_error_ok[of env "auth_view rq" ?rid "cs_keys s"]
    by (auto simp: dispatch_def Let_def management_ok auth_endpoints_ok effective_middleware_def split: sum.split prod.split)
       (auto simp: response_ok_def)
  then show ?thesis by (auto simp: handler_def Let_def error_response_ok split: prod.split sum.split)
qed

section \<open>A deployment reaches the next snapshot\<close>

definition plain_segment :: "string \<Rightarrow> bool" where
  "plain_segment q = (trim q \<noteq> [] \<and> CHR ''/'' \<notin> set q \<and> CHR ''%'' \<notin> set q)"

lemma decode_plain: "CHR ''%'' \<notin> set q \<Longrightarrow> decodeURIComponent q = Inr q"
  by (induction q) (auto simp: res_simps)

definition action_path_of :: "string \<Rightarrow> string \<Rightarrow> string" where
  "action_path_of q act = ''/v1/projects/'' @ q @ ''/'' @ act"

lemma project_match_of:
  assumes "plain_segment q" "act \<in> set project_actions"
  shows "project_match (action_path_of q act) = Some (q, act)"
proof -
  have "CHR ''/'' \<notin> set act" using assms(2) by (auto simp: project_actions_def)
  then have "split_on (CHR ''/'') (q @ ''/'' @ act) = [q, act]" using assms(1) by (simp add: split_on_two plain_segment_def)
  moreover have "q \<noteq> []" using assms(1) by (auto simp: plain_segment_def trim_def)
  ultimately show ?thesis using assms(2) by (simp add: project_match_def action_path_of_def starts_with_def)
qed

lemma action_path_normal:
  assumes "act \<in> set project_actions"
  shows "normalized_path (action_path_of q act) = action_path_of q act"
proof -
  have "last (action_path_of q act) = last act" "last act \<noteq> CHR ''/''"
    using assms by (auto simp: action_path_of_def project_actions_def)
  then show ?thesis by (simp add: normalized_path_def)
qed

text \<open>No other route of the server takes the path of a project action.\<close>

lemma action_path_routes:
  assumes "act \<in> set project_actions"
  shows "\<not> is_customer_path (action_path_of q act)" "artifact_match (action_path_of q act) = None" "direct_match (action_path_of q act) = None"
    "action_path_of q act \<notin> {''/healthz'', ''/login'', ''/v1/auth/keys'', ''/v1/auth/verify'', ''/v1/projects'', ''/deploy'', ''/rollback'', ''/export'', ''/import''}"
  using assms
  by (auto simp: is_customer_path_def artifact_match_def direct_match_def action_path_of_def project_actions_def starts_with_def
      ends_with_def suffix_to_prefix)


lemma fingerprint_not_Nil:
  assumes "revs \<noteq> []"
  shows "fingerprint revs \<noteq> []"
proof -
  define f where "f = (\<lambda>(k, v :: RevisionRecord). k @ '':'' @ rev_id v @ '':'' @ rev_artifactId v @ '':'' @ state_name (rev_state v))"
  obtain y ys where xs: "sort (map f revs) = y # ys" using assms by (cases "sort (map f revs)") (auto dest: arg_cong[where f = length])
  then have "y \<in> f ` set revs" by (metis list.set_intros(1) list.set_map set_sort)
  then have "y \<noteq> []" by (auto simp: f_def)
  moreover have "fingerprint revs = join_with '';'' (y # ys)" by (simp add: fingerprint_def xs[symmetric] f_def)
  ultimately show ?thesis by (cases ys) auto
qed

text \<open>After an invalidation and a rebuild, the next reading returns the rebuilt snapshot.\<close>

lemma rebuilt_snapshot:
  assumes "active_revisions d \<noteq> []"
  obtains v where "snd (getProjectSnapshot p st' d (fst (getProjectSnapshot p st d (invalidateProjectSnapshot p S)))) =
    snd (createSnapshot v st (snapshot_routes d) (active_revisions d) (dep_metadata d))"
proof -
  let ?S = "invalidateProjectSnapshot p S"
  have "\<forall>x. oget ?S p = Some x \<longrightarrow> revisionFingerprint x = []"
    by (auto simp: invalidateProjectSnapshot_def split: option.split)
  moreover define v where "v = (case oget ?S p of None \<Rightarrow> 0 | Some x \<Rightarrow> distributor x)"
  moreover obtain w sn where c: "createSnapshot v st (snapshot_routes d) (active_revisions d) (dep_metadata d) = (w, sn)" by fastforce
  ultimately have g: "getProjectSnapshot p st d ?S = (oset p \<lparr>distributor = w, snapshot = sn, revisionFingerprint = fingerprint (active_revisions d)\<rparr> ?S, sn)"
    using fingerprint_not_Nil[OF assms] by (cases "oget ?S p") (auto simp: getProjectSnapshot_def Let_def)
  show ?thesis using that[of v] c by (simp add: g) (simp add: getProjectSnapshot_def Let_def)
qed

lemma map_filter_pairs:
  "oget (List.map_filter (\<lambda>f. map_option (Pair f) (g f)) xs) fn = (if fn \<in> set xs then g fn else None)"
  by (induction xs) (auto simp: List.map_filter_simps split: option.split)

lemma active_revisions_get: "fn \<in> set (dep_functions d) \<Longrightarrow> oget (active_revisions d) fn = dep_active d fn"
  by (simp add: active_revisions_def map_filter_pairs)

lemma snapshot_function:
  assumes "oget revs fn = Some r"
  shows "jget (jget (jget (wire (snd (createSnapshot v st routes revs meta))) ''functions'') fn) ''revisionId'' = JStr (rev_id r)"
proof -
  obtain w sn where c: "createSnapshot v st routes revs meta = (w, sn)" by (cases "createSnapshot v st routes revs meta")
  obtain fs where "wire sn = JObj ([(''snapshotId'', JStr (SNAPSHOT_ID_PREFIX @ generateUlid (id_time st) (id_bytes st))),
      (''version'', JNum (Fin (of_int (v + 1)))),
      (''routes'', JArr (map (\<lambda>r. JObj [(''pattern'', JStr (fst r)), (''function'', JStr (snd r))]) routes)),
      (''functions'', JObj (map (\<lambda>e. (fst e, wire (function_snapshot (snd e)))) revs)),
      (''generatedAt'', JNum (Fin (of_int (gen_time st))))] @ fs)" by (rule wire_snapshot[OF c])
  then show ?thesis using assms oget_map_snd[of "\<lambda>r. wire (function_snapshot r)" revs fn] c
    by (simp add: function_snapshot_def Let_def)
qed

lemma listFunctions_save: "fn \<in> set (listFunctions (saveRevisionRecord p fn r s) p)"
  by (simp add: listFunctions_def saveRevisionRecord_def Let_def)


lemma run_deploy_active:
  assumes "run_deploy env project fn art s = (Inr r, s1)" "res_active r"
  obtains rr where "getActiveRevision (bs_dep (cs_data s1)) project fn = Some rr" "rev_id rr = res_revisionId r"
    "fn \<in> set (listFunctions (bs_dep (cs_data s1)) project)"
proof -
  obtain rb d where b: "deploy_begin (e_hashing env) project fn art (e_now env) (e_idBytes env) (bs_dep (cs_data s)) = Inr (rb, d)"
    using assms(1) by (auto simp: run_deploy_def split: sum.splits)
  let ?h = "probe_loop (\<lambda>_. Inr True) 0 REQUIRED_HEALTHY_PROBES"
  obtain d2 where f: "deploy_finish project fn rb ?h d = (r, d2)" and s1: "bs_dep (cs_data s1) = d2"
    using assms(1) b by (auto simp: run_deploy_def set_dep_def Let_def split: option.splits prod.splits)
  have h: ?h using f assms(2) by (auto simp: deploy_finish_def split: if_splits)
  have n: "rev_id rb \<noteq> []" using rev_id_not_Nil[OF b] .
  have p: "getActivePointer d2 project fn = Some (rev_id rb)" "getRevision d2 project fn (rev_id rb) = Some (rb\<lparr>rev_state := Deployed\<rparr>)"
    "r = \<lparr>res_revisionId = rev_id rb, res_state = Deployed, res_active = True\<rparr>"
    using f assms(2) h by (auto simp: deploy_finish_def Let_def split: if_splits)
  have "listFunctions d2 project = listFunctions (saveRevisionRecord project fn (rb\<lparr>rev_state := Deployed\<rparr>) d) project"
    using f h by (auto simp: deploy_finish_def Let_def listFunctions_def schedulePersist_def setActivePointer_def split: if_splits)
  then show ?thesis using that[of "rb\<lparr>rev_state := Deployed\<rparr>"] p n listFunctions_save[of fn project] by (simp add: s1 getActiveRevision_def)
qed

lemma store_declared_frame:
  "getActiveRevision (store_declared project body d) = getActiveRevision d" "listFunctions (store_declared project body d) = listFunctions d"
proof -
  show "getActiveRevision (store_declared project body d) = getActiveRevision d"
    by (simp add: fun_eq_iff store_declared_def Let_def getActiveRevision_def split: option.split)
  show "listFunctions (store_declared project body d) = listFunctions d"
    by (simp add: fun_eq_iff store_declared_def Let_def listFunctions_def setProjectRoutes_def setProjectMetadata_def schedulePersist_def split: option.split)
qed

text \<open>The readings after a deployment that became active list the new revision.\<close>

definition serves :: "string \<Rightarrow> string \<Rightarrow> string \<Rightarrow> control_state \<Rightarrow> bool" where
  "serves project fn i s =
     (\<forall>st. jget (jget (jget (wire (snd (getProjectSnapshot project st (service_readings (bs_dep (cs_data s)) project) (cs_snapshots s)))) ''functions'') fn)
        ''revisionId'' = JStr i)"

lemma refresh_serves:
  assumes "getActiveRevision (bs_dep (cs_data s)) project fn = Some rr" "fn \<in> set (listFunctions (bs_dep (cs_data s)) project)"
  shows "serves project fn (rev_id rr) (refresh_snapshot env project s)"
proof -
  let ?d = "service_readings (bs_dep (cs_data s)) project"
  have g: "oget (active_revisions ?d) fn = Some rr" using active_revisions_get[of fn ?d] assms by (simp add: service_readings_def)
  then have "active_revisions ?d \<noteq> []" by auto
  then show ?thesis unfolding serves_def refresh_snapshot_def
  proof (intro allI)
    fix st
    obtain v where "snd (getProjectSnapshot project st ?d (fst (getProjectSnapshot project (e_stamp env) ?d (invalidateProjectSnapshot project (cs_snapshots s))))) =
      snd (createSnapshot v (e_stamp env) (snapshot_routes ?d) (active_revisions ?d) (dep_metadata ?d))"
      by (rule rebuilt_snapshot[OF \<open>active_revisions ?d \<noteq> []\<close>])
    then show "jget (jget (jget (wire (snd (getProjectSnapshot project st
          (service_readings (bs_dep (cs_data (s\<lparr>cs_snapshots := fst (getProjectSnapshot project (e_stamp env) ?d (invalidateProjectSnapshot project (cs_snapshots s)))\<rparr>))) project)
          (cs_snapshots (s\<lparr>cs_snapshots := fst (getProjectSnapshot project (e_stamp env) ?d (invalidateProjectSnapshot project (cs_snapshots s)))\<rparr>)))))
          ''functions'') fn) ''revisionId'' = JStr (rev_id rr)" using snapshot_function[OF g] by simp
  qed
qed

lemma deploy_endpoint_serves:
  assumes "deploy_endpoint env rid rq (action_path_of q ''deploy'') s = (Inr resp, s')" "plain_segment q"
    and "rq_body rq = Json body" "text_of (jget body ''functionName'') = Some fn"
    and "rs_body resp = RJson (json_deploy_result r)" "res_active r"
  shows "serves q fn (res_revisionId r) s'"
proof -
  have q: "q \<noteq> []" "trim q \<noteq> []" "decodeURIComponent q = Inr q" using assms(2) decode_plain by (auto simp: plain_segment_def trim_def)
  have b: "parseJsonBody rq = Inr body" using assms(1,3) by (auto simp: deploy_endpoint_def parseJsonBody_def res_simps split: if_splits)
  have "project_of (action_path_of q ''deploy'') os w = Inr q" for os w
    using q project_match_of[OF assms(2), of "''deploy''"]
    by (cases q) (simp_all add: project_of_def path_id_def project_actions_def res_simps or_str_def)
  then obtain art r' s1 where d: "run_deploy env q fn art s = (Inr r', s1)" "resp = json_response rid (json_deploy_result r')"
    "s' = refresh_snapshot env q (set_dep (store_declared q body (bs_dep (cs_data s1))) s1)"
    using assms(1,4) b by (auto simp: deploy_endpoint_def res_simps split: if_splits sum.splits prod.splits)
  have r: "res_revisionId r' = res_revisionId r" "res_active r'" using assms(5,6) d(2) by (auto simp: json_response_def json_deploy_result_def)
  obtain rr where "getActiveRevision (bs_dep (cs_data s1)) q fn = Some rr" "rev_id rr = res_revisionId r'"
    "fn \<in> set (listFunctions (bs_dep (cs_data s1)) q)" by (rule run_deploy_active[OF d(1) r(2)])
  then show ?thesis using refresh_serves[of "set_dep (store_declared q body (bs_dep (cs_data s1))) s1" q fn rr env] d(3) r(1)
    by (simp add: set_dep_def store_declared_frame)
qed


lemma action_is_of: "plain_segment q \<Longrightarrow> act \<in> set project_actions \<Longrightarrow> action_is (action_path_of q act) a \<longleftrightarrow> a = act"
  by (auto simp: action_is_def project_match_of)

lemma deploy_route:
  assumes "plain_segment q" "rq_pathname rq = action_path_of q ''deploy''" "rs_body (fst (handler ops env rq s)) = RJson (json_deploy_result r)"
  obtains s0 resp where "deploy_endpoint env (resolveRequestId env rq) rq (action_path_of q ''deploy'') s0 = (Inr resp, snd (handler ops env rq s))"
    "rs_body resp = RJson (json_deploy_result r)"
proof -
  let ?p = "action_path_of q ''deploy''" and ?rid = "resolveRequestId env rq"
  have a: "''deploy'' \<in> set project_actions" by (simp add: project_actions_def)
  note sim = action_path_routes[OF a, of q] action_is_of[OF assms(1) a] project_match_of[OF assms(1) a] action_path_normal[OF a, of q]
  have m: "management env ?rid rq ?p s0 = deploy_endpoint env ?rid rq ?p s0" for s0
    using sim by (simp add: management_def)
  have r: "\<not> is_data_plane_read rq ?p" using mutation_not_read[of "''deploy''" ?p rq] sim by simp
  have b: "rs_body (buildErrorResponse e i) \<noteq> RJson (json_deploy_result r)" "rs_body (auth_error_response x) \<noteq> RJson (json_deploy_result r)" for e i x
    by (auto simp: buildErrorResponse_def auth_error_response_def error_body_def json_deploy_result_def split: exn.split)
  have d: "dispatch ops env ?rid rq s = (case effective_middleware ops env of None \<Rightarrow> deploy_endpoint env ?rid rq ?p s
      | Some m \<Rightarrow> (case m (auth_view rq) ?rid (cs_keys s) of
          (Inl y, ks) \<Rightarrow> (Inr (auth_error_response y), s\<lparr>cs_keys := ks\<rparr>) | (Inr i, ks) \<Rightarrow> deploy_endpoint env ?rid rq ?p (s\<lparr>cs_keys := ks\<rparr>)))"
    using sim m r assms(2) by (simp add: dispatch_def Let_def split: option.split prod.split sum.split)
  show ?thesis using assms(3) that b
    by (auto simp: handler_def Let_def d split: option.splits prod.splits sum.splits)
qed

lemma snapshot_route:
  assumes "plain_segment q" "rq_pathname rq = action_path_of q ''snapshot''" "rq_method rq = ''GET''"
  shows "dispatch ops env rid rq s = snapshot_request env rid rq q s"
proof -
  let ?p = "action_path_of q ''snapshot''"
  have a: "''snapshot'' \<in> set project_actions" by (simp add: project_actions_def)
  note sim = action_path_routes[OF a, of q] action_is_of[OF assms(1) a] project_match_of[OF assms(1) a] action_path_normal[OF a, of q]
  have "is_data_plane_read rq ?p" using assms(3) by (simp add: is_data_plane_read_def reads_only_def action_path_of_def ends_with_def suffix_to_prefix)
  then show ?thesis using sim assms by (simp add: dispatch_def Let_def management_def split: option.split)
qed

lemma snapshot_response:
  assumes "plain_segment q" "rq_pathname rq = action_path_of q ''snapshot''" "rq_method rq = ''GET''" "header rq ''if-none-match'' = None"
  shows "rs_status (fst (handler ops env rq s)) = 200 \<and>
    rs_body (fst (handler ops env rq s)) = RJson (wire (snd (getProjectSnapshot q (e_stamp env) (service_readings (bs_dep (cs_data s)) q) (cs_snapshots s))))"
proof -
  have "decodeURIComponent q = Inr q" using assms(1) decode_plain by (simp add: plain_segment_def)
  then show ?thesis using assms
    by (simp add: handler_def snapshot_route[OF assms(1-3)] snapshot_request_def reads_only_def snapshot_endpoint_def Let_def split: prod.split)
qed

text \<open>
  When a deploy request is answered with an active revision, the next snapshot request for the project, whoever makes
  it, is answered with 200 and a snapshot that runs the function at that revision.
\<close>

theorem deployed_revision_in_next_snapshot:
  assumes "plain_segment q" "rq_pathname rq = action_path_of q ''deploy''" "rq_body rq = Json body"
    and "text_of (jget body ''functionName'') = Some fn"
    and "rs_body (fst (handler ops env rq s)) = RJson (json_deploy_result r)" "res_active r"
    and "rq_pathname rq' = action_path_of q ''snapshot''" "rq_method rq' = ''GET''" "header rq' ''if-none-match'' = None"
    and "resp = fst (handler ops env' rq' (snd (handler ops env rq s)))"
  shows "rs_status resp = 200 \<and> (\<exists>sn. rs_body resp = RJson sn \<and>
    jget (jget (jget sn ''functions'') fn) ''revisionId'' = JStr (res_revisionId r))"
proof -
  obtain s0 rs where "deploy_endpoint env (resolveRequestId env rq) rq (action_path_of q ''deploy'') s0 = (Inr rs, snd (handler ops env rq s))"
    "rs_body rs = RJson (json_deploy_result r)" by (rule deploy_route[OF assms(1,2,5)])
  then have s: "serves q fn (res_revisionId r) (snd (handler ops env rq s))"
    using deploy_endpoint_serves[OF _ assms(1,3,4) _ assms(6)] by blast
  show ?thesis using snapshot_response[OF assms(1,7,8,9), of ops env'] s unfolding assms(10) serves_def by simp
qed

section \<open>Sample requests\<close>

definition demo_env :: "int \<Rightarrow> environment" where
  "demo_env now = \<lparr>e_now = now, e_requestUlid = ''ULID'', e_idBytes = [0, 0, 0, 0, 0, 0, 0, 0, 0, 0], e_random = [2],
     e_stamp = sample_stamp, e_hash = demo_hash, e_identity_json = (\<lambda>_. None), e_record_json = (\<lambda>_. None), e_cache_up = True,
     e_hashing = sample_hash, e_codec = demo_codec, e_string = (\<lambda>_. []), e_number = (\<lambda>_. NaN), e_put_fails = None, e_logs = None\<rparr>"

definition demo_options :: control_options where
  "demo_options = \<lparr>o_apiKeyStore = True, o_authMiddleware = None\<rparr>"

definition demo_control :: control_state where
  "demo_control = \<lparr>cs_data = demo_source Deployed [1], cs_keys = demo_keys, cs_snapshots = []\<rparr>"

definition request :: "string \<Rightarrow> string \<Rightarrow> (string \<times> string) list \<Rightarrow> req_body \<Rightarrow> http_request" where
  "request mth p hs b = \<lparr>rq_method = mth, rq_pathname = p, rq_query = [], rq_headers = hs, rq_body = b\<rparr>"

definition bearer :: "(string \<times> string) list" where
  "bearer = [(''authorization'', ''Bearer rfk_01ab'')]"

lemma unauthenticated_request_changes_nothing_witness:
  "cs_data (snd (handler demo_options (demo_env 2000) (request ''DELETE'' ''/v1/projects/web'' [] NoBody) demo_control)) = cs_data demo_control \<and>
   kv_read (storage (cs_keys (snd (handler demo_options (demo_env 2000) (request ''DELETE'' ''/v1/projects/web'' [] NoBody) demo_control)))) 3000
     (token_key ''ba10_kfr'') = kv_read (storage demo_keys) 3000 (token_key ''ba10_kfr'')"
proof -
  let ?rq = "request ''DELETE'' ''/v1/projects/web'' [] NoBody" and ?e = "demo_env 2000"
  have d: "default_auth demo_options" by (simp add: default_auth_def demo_options_def)
  have m: "isl (fst (default_middleware ?e (auth_view ?rq) (resolveRequestId ?e ?rq) (cs_keys demo_control)))" by code_simp
  then obtain r ks where m: "default_middleware ?e (auth_view ?rq) (resolveRequestId ?e ?rq) (cs_keys demo_control) = (Inl r, ks)"
    by (cases "default_middleware ?e (auth_view ?rq) (resolveRequestId ?e ?rq) (cs_keys demo_control)") (auto simp: isl_def)
  have k: "hasAnyKeys 2000 demo_keys" by code_simp
  show ?thesis using unauthenticated_request_changes_nothing[OF d m, of 3000 "token_key ''ba10_kfr''"] k
    by (simp add: demo_env_def demo_control_def)
qed

text \<open>The key of one organisation and project deletes the project of another organisation: the scope of the token is not checked.\<close>

definition scoped_keys :: key_store where
  "scoped_keys = snd (createKey demo_hash 1000 [0, 0, 0, 0, 0, 0, 0, 0, 0, 0] [1, 171] ''ci'' ''other'' (Some ''shop'') (new_ApiKeyStore False None))"

lemma scoped_token_deletes_foreign_project:
  "(case handler demo_options (demo_env 2000) (request ''DELETE'' ''/v1/projects/web'' bearer NoBody) (demo_control\<lparr>cs_keys := scoped_keys\<rparr>) of
      (r, s) \<Rightarrow> rs_status r = 200 \<and> listProjects (bs_dep (cs_data s)) = []) \<and>
   listProjects (bs_dep (cs_data demo_control)) = [''web''] \<and>
   map_option ctx_projectId (case fst (verifyRawToken demo_hash (\<lambda>_. None) (\<lambda>_. None) True 2000 ''rfk_01ab'' scoped_keys) of Inr i \<Rightarrow> i | Inl _ \<Rightarrow> None)
     = Some (Some ''shop'')"
  by code_simp

text \<open>The key of the environment variable is not in the index of the organisations, so an anonymous caller still mints keys for any organisation.\<close>

lemma bootstrap_key_leaves_minting_open:
  "(case bootstrap_key (demo_env 500) ''rfk_env'' (new_ApiKeyStore False None) of (u, ks) \<Rightarrow>
      u = Inr () \<and> \<not> hasAnyKeys 2000 ks \<and>
      (case fst (verifyRawToken demo_hash (\<lambda>_. None) (\<lambda>_. None) True 2000 ''rfk_env'' ks) of Inr (Some i) \<Rightarrow> ctx_orgId i = ''default-org'' | _ \<Rightarrow> False) \<and>
      (case handler demo_options (demo_env 2000) (request ''POST'' ''/v1/auth/keys'' [] (Json (JObj [(''orgId'', JStr ''victim'')]))) (demo_control\<lparr>cs_keys := ks\<rparr>) of
         (r, s) \<Rightarrow> rs_status r = 200 \<and>
           (case fst (verifyRawToken demo_hash (\<lambda>_. None) (\<lambda>_. None) True 2000 ''rfk_02'' (cs_keys s)) of Inr (Some i) \<Rightarrow> ctx_orgId i = ''victim'' | _ \<Rightarrow> False)))"
  by code_simp



lemma minted_key_within_caller_scope_witness:
  "\<exists>tok i r. presented_token (auth_view (request ''POST'' ''/v1/auth/keys'' bearer (Json (JObj [(''orgId'', JStr ''victim'')])))) = Some tok \<and>
    fst (verifyRawToken demo_hash (\<lambda>_. None) (\<lambda>_. None) True 2000 tok demo_keys) = Inr (Some i) \<and>
    token_read (cs_keys (snd (handler demo_options (demo_env 2000)
       (request ''POST'' ''/v1/auth/keys'' bearer (Json (JObj [(''orgId'', JStr ''victim'')]))) demo_control))) 2000 (demo_hash ''rfk_02'') = Some (Val r) \<and>
    key_orgId r = trim (ctx_orgId i)"
proof -
  let ?rq = "request ''POST'' ''/v1/auth/keys'' bearer (Json (JObj [(''orgId'', JStr ''victim'')]))" and ?e = "demo_env 2000"
  have d: "default_auth demo_options" by (simp add: default_auth_def demo_options_def)
  have k: "hasAnyKeys (e_now ?e) (cs_keys demo_control)" by code_simp
  have p: "normalized_path (rq_pathname ?rq) = ''/v1/auth/keys''" by code_simp
  have st: "rs_status (fst (handler demo_options ?e ?rq demo_control)) = 200" by code_simp
  have h: "demo_hash ''rfk_02'' = e_hash ?e (raw_token (e_random ?e))" by code_simp
  have "e_hash ?e = demo_hash" "e_identity_json ?e = (\<lambda>_. None)" "e_record_json ?e = (\<lambda>_. None)" "e_cache_up ?e" "e_now ?e = 2000" "cs_keys demo_control = demo_keys"
    by (simp_all add: demo_env_def demo_control_def)
  then show ?thesis using minted_key_within_caller_scope[OF d k p prod.collapse[symmetric] st h] by metis
qed

lemma responses_well_formed_witness:
  "response_ok (demo_env 2000) ''ULID'' (fst (handler demo_options (demo_env 2000) (request ''PUT'' ''/v1/projects/web/deploy'' bearer BadJson) demo_control))"
proof -
  have "resolveRequestId (demo_env 2000) (request ''PUT'' ''/v1/projects/web/deploy'' bearer BadJson) = ''ULID''" by code_simp
  then show ?thesis using responses_well_formed[of demo_options "demo_env 2000" "request ''PUT'' ''/v1/projects/web/deploy'' bearer BadJson" demo_control]
    by (simp add: demo_options_def)
qed

definition deploy_body :: jsval where
  "deploy_body = JObj [(''functionName'', JStr ''f''),
     (''artifact'', JObj [(''id'', JStr (art_id sample_artifact)), (''integrity'', JStr (art_integrity sample_artifact)),
        (''bytes'', JArr [JNum (Fin 1), JNum (Fin 2)])])]"

definition deploy_result :: DeploymentResult where
  "deploy_result = \<lparr>res_revisionId = REVISION_ID_PREFIX @ generateUlid 2000 [0, 0, 0, 0, 0, 0, 0, 0, 0, 0], res_state = Deployed, res_active = True\<rparr>"

lemma deployed_revision_in_next_snapshot_witness:
  "\<exists>sn. rs_body (fst (handler demo_options (demo_env 3000) (request ''GET'' ''/v1/projects/web/snapshot'' [] NoBody)
       (snd (handler demo_options (demo_env 2000) (request ''POST'' ''/v1/projects/web/deploy'' bearer (Json deploy_body)) demo_control)))) = RJson sn \<and>
     jget (jget (jget sn ''functions'') ''f'') ''revisionId'' = JStr (res_revisionId deploy_result)"
proof -
  let ?rq = "request ''POST'' ''/v1/projects/web/deploy'' bearer (Json deploy_body)"
  let ?rq' = "request ''GET'' ''/v1/projects/web/snapshot'' [] NoBody"
  have q: "plain_segment ''web''" by code_simp
  have p: "rq_pathname ?rq = action_path_of ''web'' ''deploy''" "rq_pathname ?rq' = action_path_of ''web'' ''snapshot''" by code_simp+
  have b: "rq_body ?rq = Json deploy_body" "rq_method ?rq' = ''GET''" "header ?rq' ''if-none-match'' = None" by (simp_all add: request_def header_def)
  have f: "text_of (jget deploy_body ''functionName'') = Some ''f''" by code_simp
  have r: "rs_body (fst (handler demo_options (demo_env 2000) ?rq demo_control)) = RJson (json_deploy_result deploy_result)" by code_simp
  have a: "res_active deploy_result" by (simp add: deploy_result_def)
  show ?thesis using deployed_revision_in_next_snapshot[OF q p(1) b(1) f r a p(2) b(2,3) refl] by blast
qed

end
