(* ===== verification/Redactor.thy ===== *)
theory Redactor
  imports JsLib
begin

text \<open>
  \<open>packages/logging/secret-redactor.ts\<close>: secrets in log text and structured log values. A value is a
  tree here: the \<open>WeakMap\<close> that breaks cycles has no counterpart. The constructor of an error, called with a message,
  is taken to make an error with that message.

  Shown: after a redaction no secret of at least four characters is left in any text, key or error field,
  for secrets that cannot be produced by the marker itself; and what the code leaves alone.
\<close>

section \<open>Text\<close>

definition REDACTED_MARKER :: string where
  "REDACTED_MARKER = ''[REDACTED]''"

definition MIN_SECRET_REDACTION_LENGTH :: nat where
  "MIN_SECRET_REDACTION_LENGTH = 4"

text \<open>\<open>Array.from(new Set(xs))\<close>: the first occurrence of each element.\<close>

definition unique_values :: "'a list \<Rightarrow> 'a list" where
  "unique_values xs = rev (remdups (rev xs))"

definition filterAndSortSecrets :: "string list \<Rightarrow> string list" where
  "filterAndSortSecrets secrets =
     sort_key (\<lambda>x. - int (length x)) (unique_values (filter (\<lambda>x. MIN_SECRET_REDACTION_LENGTH \<le> length x) secrets))"

text \<open>\<open>t.replaceAll(s, m)\<close> for a pattern that is not empty: from the left, without overlaps.\<close>

function replace_all :: "string \<Rightarrow> string \<Rightarrow> string \<Rightarrow> string" where
  "replace_all s m t =
     (if t = [] \<or> s = [] then t
      else if prefix s t then m @ replace_all s m (drop (length s) t)
      else hd t # replace_all s m (tl t))"
  by auto
termination by (relation "measure (\<lambda>(s, m, t). length t)") (auto simp: neq_Nil_conv)

declare replace_all.simps [simp del]

definition redactWithCandidates :: "string \<Rightarrow> string list \<Rightarrow> string" where
  "redactWithCandidates text candidates = foldl (\<lambda>r s. replace_all s REDACTED_MARKER r) text candidates"

definition redact :: "string \<Rightarrow> string list \<Rightarrow> string" where
  "redact text secrets = redactWithCandidates text (filterAndSortSecrets secrets)"

section \<open>Structured values\<close>

text \<open>The values the traversal distinguishes; \<open>LPrim\<close> is a number, a boolean, null or undefined.\<close>

datatype logval =
    LPrim jsval
  | LText string
  | LDate int
  | LRegExp string string
  | LError string string "string option" "(string \<times> logval) list"
  | LArr "logval list"
  | LObj "(string \<times> logval) list"

definition put_all :: "('k \<times> 'v) list \<Rightarrow> ('k, 'v) omap" where
  "put_all es = foldl (\<lambda>m e. oset (fst e) (snd e) m) [] es"

fun redactJsonInternal :: "string list \<Rightarrow> logval \<Rightarrow> logval" where
  "redactJsonInternal cs (LPrim v) = LPrim v"
| "redactJsonInternal cs (LText t) = LText (redactWithCandidates t cs)"
| "redactJsonInternal cs (LDate d) = LDate d"
| "redactJsonInternal cs (LRegExp src flags) = LRegExp src flags"
| "redactJsonInternal cs (LError name msg st props) =
     LError (redactWithCandidates name cs) (redactWithCandidates msg cs) (map_option (\<lambda>x. redactWithCandidates x cs) st)
       (put_all (map (\<lambda>(k, v). (redactWithCandidates k cs, redactJsonInternal cs v)) props))"
| "redactJsonInternal cs (LArr xs) = LArr (map (redactJsonInternal cs) xs)"
| "redactJsonInternal cs (LObj es) = LObj (put_all (map (\<lambda>(k, v). (redactWithCandidates k cs, redactJsonInternal cs v)) es))"

definition redactJson :: "logval \<Rightarrow> string list \<Rightarrow> logval" where
  "redactJson v secrets = redactJsonInternal (filterAndSortSecrets secrets) v"

section \<open>Replacement\<close>

text \<open>A text the marker cannot give rise to: it has no bracket and is not a part of the word in the brackets.\<close>

definition unlike_marker :: "string \<Rightarrow> bool" where
  "unlike_marker x = (CHR ''['' \<notin> set x \<and> CHR '']'' \<notin> set x \<and> \<not> sublist x ''REDACTED'')"

lemma sublist_between:
  assumes "sublist x (c # m @ [d])" "c \<notin> set x" "d \<notin> set x"
  shows "sublist x m"
proof -
  have "sublist x (m @ [d])" using assms(1,2) by (cases x) (auto simp: sublist_Cons_right)
  then consider "sublist x m" | "sublist x [d]" | u v where "x = u @ v" "suffix u m" "prefix v [d]" by (auto simp: sublist_append)
  then show ?thesis
  proof cases
    case 2
    then have "x = []" using assms(3) by (cases x) (auto simp: sublist_Cons_right)
    then show ?thesis by simp
  next
    case 3
    then have "v = []" using assms(3) by (cases v) auto
    then show ?thesis using 3 by simp
  qed
qed

lemma bracket_free_in_marker:
  "CHR ''['' \<notin> set x \<Longrightarrow> CHR '']'' \<notin> set x \<Longrightarrow> sublist x REDACTED_MARKER \<Longrightarrow> sublist x ''REDACTED''"
  using sublist_between[of x "CHR ''[''" "''REDACTED''" "CHR '']''"] by (simp add: REDACTED_MARKER_def)

lemma prefix_replace_all:
  assumes "prefix x (replace_all s REDACTED_MARKER t)" "CHR ''['' \<notin> set x"
  shows "prefix x t"
  using assms
proof (induction s REDACTED_MARKER t arbitrary: x rule: replace_all.induct)
  case (1 s t)
  show ?case
  proof (cases "t = [] \<or> s = [] \<or> x = []")
    case True
    then show ?thesis using "1.prems" by (auto simp: replace_all.simps)
  next
    case False
    have "\<not> prefix s t" using "1.prems" False by (cases x) (auto simp: replace_all.simps[of s _ t] REDACTED_MARKER_def)
    then obtain c x' where x: "x = c # x'" "c = hd t" "prefix x' (replace_all s REDACTED_MARKER (tl t))"
      using "1.prems"(1) False by (cases x) (auto simp: replace_all.simps[of s _ t])
    then have "prefix x' (tl t)" using "1.hyps"(2)[of x'] False \<open>\<not> prefix s t\<close> "1.prems"(2) by simp
    then show ?thesis using x False by (cases t) auto
  qed
qed

lemma sublist_after_marker:
  assumes "unlike_marker x" "sublist x (REDACTED_MARKER @ r)"
  shows "sublist x r"
proof -
  consider "sublist x REDACTED_MARKER" | "sublist x r" | u v where "x = u @ v" "suffix u REDACTED_MARKER" "prefix v r"
    using assms(2) unfolding sublist_append by blast
  then show ?thesis
  proof cases
    case 1
    then show ?thesis using assms(1) bracket_free_in_marker[of x] by (simp add: unlike_marker_def)
  next
    case 3
    have "u = []"
    proof (rule ccontr)
      assume "u \<noteq> []"
      then have "last u = CHR '']''" using 3(2) by (auto simp: suffix_def REDACTED_MARKER_def) (metis last.simps last_append list.discI)
      then have "CHR '']'' \<in> set u" using \<open>u \<noteq> []\<close> last_in_set by metis
      then show False using 3(1) assms(1) by (simp add: unlike_marker_def)
    qed
    then show ?thesis using 3 by simp
  qed
qed

lemma sublist_replace_all:
  assumes "unlike_marker x" "sublist x (replace_all s REDACTED_MARKER t)"
  shows "sublist x t"
  using assms(2)
proof (induction s REDACTED_MARKER t rule: replace_all.induct)
  case (1 s t)
  consider "t = [] \<or> s = []" | "t \<noteq> []" "s \<noteq> []" "prefix s t" | "t \<noteq> []" "s \<noteq> []" "\<not> prefix s t" by blast
  then show ?case
  proof cases
    case 1
    then show ?thesis using "1.prems" by (auto simp: replace_all.simps)
  next
    case 2
    then have "sublist x (replace_all s REDACTED_MARKER (drop (length s) t))"
      using "1.prems" sublist_after_marker[OF assms(1)] by (simp add: replace_all.simps[of s _ t])
    then have "sublist x (drop (length s) t)" using "1.hyps"(1) 2 by blast
    then show ?thesis by (metis sublist_drop sublist_order.order.trans)
  next
    case 3
    then have r: "replace_all s REDACTED_MARKER t = hd t # replace_all s REDACTED_MARKER (tl t)" by (simp add: replace_all.simps[of s _ t])
    then consider "prefix x (replace_all s REDACTED_MARKER t)" | "sublist x (replace_all s REDACTED_MARKER (tl t))"
      using "1.prems" by (auto simp: sublist_Cons_right)
    then show ?thesis
    proof cases
      case 1
      then show ?thesis using prefix_replace_all[OF 1] assms(1) by (simp add: unlike_marker_def)
    next
      case 2
      then have "sublist x (tl t)" using "1.hyps"(2) 3 by blast
      then show ?thesis by (metis sublist_order.order.trans sublist_tl)
    qed
  qed
qed

lemma replace_all_gone:
  assumes "unlike_marker s" "s \<noteq> []"
  shows "\<not> sublist s (replace_all s REDACTED_MARKER t)"
  using assms
proof (induction s REDACTED_MARKER t rule: replace_all.induct)
  case (1 s t)
  consider "t = []" | "t \<noteq> []" "prefix s t" | "t \<noteq> []" "\<not> prefix s t" by blast
  then show ?case
  proof cases
    case 1
    then show ?thesis using "1.prems" by (simp add: replace_all.simps)
  next
    case 2
    then show ?thesis using "1.hyps"(1) "1.prems" sublist_after_marker[OF "1.prems"(1)] by (auto simp: replace_all.simps[of s _ t])
  next
    case 3
    then have r: "replace_all s REDACTED_MARKER t = hd t # replace_all s REDACTED_MARKER (tl t)" using "1.prems" by (simp add: replace_all.simps[of s _ t])
    have "\<not> prefix s (replace_all s REDACTED_MARKER t)" using prefix_replace_all[of s s t] 3 "1.prems"(1) by (auto simp: unlike_marker_def)
    moreover have "\<not> sublist s (replace_all s REDACTED_MARKER (tl t))" using "1.hyps"(2) 3 "1.prems" by blast
    ultimately show ?thesis by (simp add: r sublist_Cons_right)
  qed
qed

lemma redactWithCandidates_gone:
  assumes "list_all (\<lambda>c. unlike_marker c \<and> c \<noteq> []) cs" "s \<in> set cs"
  shows "\<not> sublist s (redactWithCandidates t cs)"
proof -
  have keep: "sublist s (redactWithCandidates u ds) \<Longrightarrow> sublist s u" if "unlike_marker s" for u ds
    by (induction ds arbitrary: u) (auto simp: redactWithCandidates_def dest: sublist_replace_all[OF that])
  obtain as bs where cs: "cs = as @ s # bs" using assms(2) by (meson split_list)
  have s: "unlike_marker s" "s \<noteq> []" using assms by (auto simp: list_all_iff)
  have "redactWithCandidates t cs = redactWithCandidates (replace_all s REDACTED_MARKER (redactWithCandidates t as)) bs"
    by (simp add: redactWithCandidates_def cs)
  then show ?thesis using keep[OF s(1)] replace_all_gone[OF s] by metis
qed

lemma set_filterAndSortSecrets [simp]: "set (filterAndSortSecrets secrets) = {x \<in> set secrets. 4 \<le> length x}"
  by (auto simp: filterAndSortSecrets_def unique_values_def MIN_SECRET_REDACTION_LENGTH_def)

section \<open>Redacted values hold no secret\<close>

text \<open>Every text of a value: strings, keys and the fields of errors; the source of a regular expression is not redacted.\<close>

fun texts :: "logval \<Rightarrow> string set" where
  "texts (LPrim v) = {}"
| "texts (LText t) = {t}"
| "texts (LDate d) = {}"
| "texts (LRegExp src flags) = {}"
| "texts (LError name msg st props) = {name, msg} \<union> set_option st \<union> fst ` set props \<union> (\<Union>e \<in> set props. texts (snd e))"
| "texts (LArr xs) = (\<Union>x \<in> set xs. texts x)"
| "texts (LObj es) = fst ` set es \<union> (\<Union>e \<in> set es. texts (snd e))"

lemma put_all_subset: "set (put_all es) \<subseteq> set es"
proof -
  have "set (foldl (\<lambda>m e. oset (fst e) (snd e) m) m es) \<subseteq> set m \<union> set es" for m
  proof (induction es arbitrary: m)
    case (Cons e es)
    show ?case using Cons[of "oset (fst e) (snd e) m"] oset_set_subset[of "fst e" "snd e" m] by auto
  qed simp
  then show ?thesis by (force simp: put_all_def)
qed

lemma texts_put_all:
  assumes "x \<in> fst ` set (put_all (map (\<lambda>(k, v). (f k, g v)) es)) \<union> (\<Union>e \<in> set (put_all (map (\<lambda>(k, v). (f k, g v)) es)). texts (snd e))"
  obtains k v where "(k, v) \<in> set es" "x = f k \<or> x \<in> texts (g v)"
proof -
  obtain e where "e \<in> set (put_all (map (\<lambda>(k, v). (f k, g v)) es))" "x = fst e \<or> x \<in> texts (snd e)" using assms by blast
  then have "e \<in> set (map (\<lambda>(k, v). (f k, g v)) es)" "x = fst e \<or> x \<in> texts (snd e)" using put_all_subset by blast+
  then show ?thesis using that by auto
qed

lemma texts_redacted: "x \<in> texts (redactJsonInternal cs v) \<Longrightarrow> \<exists>t. x = redactWithCandidates t cs"
proof (induction cs v rule: redactJsonInternal.induct)
  case (5 cs name msg st props)
  let ?ps = "map (\<lambda>(k, v). (redactWithCandidates k cs, redactJsonInternal cs v)) props"
  consider "x = redactWithCandidates name cs" | "x = redactWithCandidates msg cs" | "x \<in> set_option (map_option (\<lambda>y. redactWithCandidates y cs) st)"
    | "x \<in> fst ` set (put_all ?ps) \<union> (\<Union>e \<in> set (put_all ?ps). texts (snd e))" using "5.prems" by auto
  then show ?case
  proof cases
    case 4
    obtain k v where "(k, v) \<in> set props" "x = redactWithCandidates k cs \<or> x \<in> texts (redactJsonInternal cs v)" by (rule texts_put_all[OF 4])
    then show ?thesis using "5.IH"[of "(k, v)" k v] by blast
  qed (auto simp: option.set_map)
next
  case (7 cs es)
  let ?ps = "map (\<lambda>(k, v). (redactWithCandidates k cs, redactJsonInternal cs v)) es"
  have 4: "x \<in> fst ` set (put_all ?ps) \<union> (\<Union>e \<in> set (put_all ?ps). texts (snd e))" using "7.prems" by simp
  obtain k v where "(k, v) \<in> set es" "x = redactWithCandidates k cs \<or> x \<in> texts (redactJsonInternal cs v)" by (rule texts_put_all[OF 4])
  then show ?case using "7.IH"[of "(k, v)" k v] by blast
qed auto

text \<open>
  C26: No secret survives redaction: for secrets that the marker itself cannot produce, no text, key or error field of a redacted value
  contains a secret of four or more characters, however secrets overlap and whatever the order of the replacements.
\<close>

theorem redacted_value_has_no_secret:
  assumes "list_all unlike_marker secrets" "s \<in> set secrets" "4 \<le> length s"
  shows "\<not> sublist s (redact t secrets) \<and> (\<forall>x. x \<in> texts (redactJson v secrets) \<longrightarrow> \<not> sublist s x)"
proof -
  have "list_all (\<lambda>c. unlike_marker c \<and> c \<noteq> []) (filterAndSortSecrets secrets)" "s \<in> set (filterAndSortSecrets secrets)"
    using assms by (auto simp: list_all_iff)
  note g = redactWithCandidates_gone[OF this]
  show ?thesis using g texts_redacted[of _ _ v] unfolding redact_def redactJson_def by metis
qed

lemma redacted_value_has_no_secret_witness:
  "redactJson (LObj [(''token'', LText ''Bearer abcdef99''), (''abcdef'', LArr [LText ''cdef99''])]) [''abcdef'', ''cdef99'', ''abc''] =
     LObj [(''token'', LText ''Bearer [REDACTED]99''), (''[REDACTED]'', LArr [LText ''[REDACTED]''])] \<and>
   \<not> sublist ''cdef99'' (redact ''Bearer abcdef99'' [''abcdef'', ''cdef99'', ''abc''])"
proof -
  have "redactJson (LObj [(''token'', LText ''Bearer abcdef99''), (''abcdef'', LArr [LText ''cdef99''])]) [''abcdef'', ''cdef99'', ''abc''] =
     LObj [(''token'', LText ''Bearer [REDACTED]99''), (''[REDACTED]'', LArr [LText ''[REDACTED]''])]" by code_simp
  moreover have "list_all unlike_marker [''abcdef'', ''cdef99'', ''abc'']" by code_simp
  ultimately show ?thesis using redacted_value_has_no_secret[of "[''abcdef'', ''cdef99'', ''abc'']" "''cdef99''" "''Bearer abcdef99''" "LPrim JNull"] by simp
qed

text \<open>A secret that is a number or is in a regular expression, and one that the marker completes, are left in the output.\<close>

lemma secrets_left:
  "redactJson (LArr [LPrim (JNum (Fin 12345678)), LRegExp ''s3cret'' []]) [''12345678'', ''s3cret''] =
     LArr [LPrim (JNum (Fin 12345678)), LRegExp ''s3cret'' []]"
  "redact ''<wxyz>'' [''wxyz'', ''<[REDACTED]>''] = ''<[REDACTED]>''"
  by code_simp+

end
