(* ===== verification/Secrets.thy ===== *)
theory Secrets
  imports UriCodec
begin

text \<open>
  \<open>packages/policy/secret-store.ts\<close> and \<open>runtime/loader/secret-injector.ts\<close>: encrypted secrets of a project, in memory
  or in files, and the environment binding of an invocation. AES-GCM with a key derived from the master key and a salt is a
  parameter (\<open>crypto\<close>), as are the random salt and nonce; a file is its path below the storage directory, in segments, and its bytes. File
  operations may fail with an error of the system.

  Shown: both backends implement a map from organisation, project and name to values (the locale \<open>record_backend\<close>, interpreted
  for the nested maps and for the files); a binding exposes the declared secrets with their current values and nothing else.
\<close>

type_synonym bytes = "int list"

section \<open>Identifiers\<close>

definition FORBIDDEN_IDENTIFIER_CHARS :: "char set" where
  "FORBIDDEN_IDENTIFIER_CHARS = set ''<>:/|?*'' \<union> {CHR 0x22, CHR 0x5C}"

definition hasControlChar :: "string \<Rightarrow> bool" where
  "hasControlChar s = list_ex (\<lambda>c. code c \<le> 31 \<or> code c = 127) s"

definition assertValidIdentifier :: "string \<Rightarrow> string \<Rightarrow> unit res" where
  "assertValidIdentifier label v =
     (if v = [] then Inl (throw_rf VALIDATION_FAILED (label @ '' must be a non-empty string''))
      else if v \<noteq> trim v \<or> v = ''.'' \<or> v = ''..'' \<or> str_includes v ''..'' \<or> ends_with v ''.'' \<or>
              list_ex (\<lambda>c. c \<in> FORBIDDEN_IDENTIFIER_CHARS) v \<or> hasControlChar v
      then Inl (throw_rf VALIDATION_FAILED (label @ '' contains invalid characters or path traversal sequences''))
      else Inr ())"

section \<open>Records\<close>

definition RECORD_MAGIC :: bytes where
  "RECORD_MAGIC = [82, 70, 83, 49]"

definition MAGIC_LENGTH :: nat where "MAGIC_LENGTH = 4"

definition SALT_LENGTH_BYTES :: nat where "SALT_LENGTH_BYTES = 16"

definition IV_LENGTH_BYTES :: nat where "IV_LENGTH_BYTES = 12"

definition TAG_LENGTH_BYTES :: nat where "TAG_LENGTH_BYTES = 16"

definition MIN_RECORD_LENGTH_BYTES :: nat where
  "MIN_RECORD_LENGTH_BYTES = MAGIC_LENGTH + SALT_LENGTH_BYTES + IV_LENGTH_BYTES + TAG_LENGTH_BYTES"

definition FILE_EXTENSION :: string where
  "FILE_EXTENSION = ''.enc''"

text \<open>Encryption of a text, and decryption (\<open>None\<close> when the tag does not verify), under the key of the store.\<close>

record crypto =
  seal :: "bytes \<Rightarrow> bytes \<Rightarrow> string \<Rightarrow> bytes"
  unseal :: "bytes \<Rightarrow> bytes \<Rightarrow> bytes \<Rightarrow> string option"

definition encrypt :: "crypto \<Rightarrow> bytes \<Rightarrow> bytes \<Rightarrow> string \<Rightarrow> bytes" where
  "encrypt c salt iv plaintext = RECORD_MAGIC @ salt @ iv @ seal c salt iv plaintext"

definition decrypt :: "crypto \<Rightarrow> bytes \<Rightarrow> string res" where
  "decrypt c rc =
     (if length rc < MIN_RECORD_LENGTH_BYTES then Inl (throw_rf VALIDATION_FAILED ''Invalid secret record length'')
      else if take 4 rc \<noteq> RECORD_MAGIC then Inl (throw_rf VALIDATION_FAILED ''Invalid secret record magic header'')
      else let salt = take SALT_LENGTH_BYTES (drop MAGIC_LENGTH rc);
               iv = take IV_LENGTH_BYTES (drop (MAGIC_LENGTH + SALT_LENGTH_BYTES) rc);
               body = drop (MAGIC_LENGTH + SALT_LENGTH_BYTES + IV_LENGTH_BYTES) rc in
           case unseal c salt iv body of
             None \<Rightarrow> Inl (throw_rf VALIDATION_FAILED ''Secret decryption failed: ciphertext corrupted, tag mismatch, or wrong key'')
           | Some p \<Rightarrow> Inr p)"

section \<open>The two backends\<close>

type_synonym skey = "string \<times> string \<times> string"
type_synonym memory = "(string, (string, (string, bytes) omap) omap) omap"
type_synonym files = "(string list, bytes) omap"

definition sub :: "('k, ('l, 'v) omap) omap \<Rightarrow> 'k \<Rightarrow> ('l, 'v) omap" where
  "sub m k = (case oget m k of None \<Rightarrow> [] | Some i \<Rightarrow> i)"

definition mem_get :: "memory \<Rightarrow> skey \<Rightarrow> bytes option" where
  "mem_get m = (\<lambda>(org, project, name). Option.bind (oget m org) (\<lambda>om. Option.bind (oget om project) (\<lambda>pm. oget pm name)))"

definition mem_set :: "skey \<Rightarrow> bytes \<Rightarrow> memory \<Rightarrow> memory" where
  "mem_set = (\<lambda>(org, project, name) rc m. oset org (oset project (oset name rc (sub (sub m org) project)) (sub m org)) m)"

text \<open>Deleting the last secret of a project removes its map, and the last project that of the organisation.\<close>

definition mem_delete :: "skey \<Rightarrow> memory \<Rightarrow> memory" where
  "mem_delete = (\<lambda>(org, project, name) m.
     case oget m org of
       None \<Rightarrow> m
     | Some om \<Rightarrow>
         (case oget om project of
            None \<Rightarrow> m
          | Some pm \<Rightarrow>
              let pm' = odel name pm in
              if pm' \<noteq> [] then oset org (oset project pm' om) m
              else let om' = odel project om in
                   if om' \<noteq> [] then oset org om' m else odel org m))"

definition mem_names :: "memory \<Rightarrow> string \<Rightarrow> string \<Rightarrow> string list" where
  "mem_names m org project = map fst (sub (sub m org) project)"

definition getRecordPath :: "skey \<Rightarrow> string list" where
  "getRecordPath = (\<lambda>(org, project, name). [org, project, encodeURIComponent name @ FILE_EXTENSION])"

definition file_get :: "files \<Rightarrow> skey \<Rightarrow> bytes option" where
  "file_get fs k = oget fs (getRecordPath k)"

definition file_set :: "skey \<Rightarrow> bytes \<Rightarrow> files \<Rightarrow> files" where
  "file_set k rc fs = oset (getRecordPath k) rc fs"

definition file_delete :: "skey \<Rightarrow> files \<Rightarrow> files" where
  "file_delete k fs = odel (getRecordPath k) fs"

definition entry_name :: "string \<Rightarrow> string \<Rightarrow> string list \<Rightarrow> string option" where
  "entry_name org project path =
     (case path of
        [a, b, f] \<Rightarrow>
          if a = org \<and> b = project \<and> ends_with f FILE_EXTENSION
          then (case decodeURIComponent (take (length f - length FILE_EXTENSION) f) of Inr n \<Rightarrow> Some n | Inl _ \<Rightarrow> None)
          else None
      | _ \<Rightarrow> None)"

definition file_names :: "files \<Rightarrow> string \<Rightarrow> string \<Rightarrow> string list" where
  "file_names fs org project = List.map_filter (\<lambda>e. entry_name org project (fst e)) fs"

section \<open>The store\<close>

datatype storage = Memory memory | Files files

fun find_record :: "storage \<Rightarrow> skey \<Rightarrow> bytes option" where
  "find_record (Memory m) k = mem_get m k"
| "find_record (Files fs) k = file_get fs k"

fun put_record :: "skey \<Rightarrow> bytes \<Rightarrow> storage \<Rightarrow> storage" where
  "put_record k rc (Memory m) = Memory (mem_set k rc m)"
| "put_record k rc (Files fs) = Files (file_set k rc fs)"

fun drop_record :: "skey \<Rightarrow> storage \<Rightarrow> storage" where
  "drop_record k (Memory m) = Memory (mem_delete k m)"
| "drop_record k (Files fs) = Files (file_delete k fs)"

fun record_names :: "storage \<Rightarrow> string \<Rightarrow> string \<Rightarrow> string list" where
  "record_names (Memory m) org project = mem_names m org project"
| "record_names (Files fs) org project = file_names fs org project"

definition valid_tenant :: "string \<Rightarrow> string \<Rightarrow> unit res" where
  "valid_tenant org project =
     bind_res (assertValidIdentifier ''orgId'' org) (\<lambda>_. assertValidIdentifier ''projectId'' project)"

definition valid_key :: "skey \<Rightarrow> unit res" where
  "valid_key = (\<lambda>(org, project, name). bind_res (valid_tenant org project) (\<lambda>_. assertValidIdentifier ''name'' name))"

text \<open>An error of the file system; the memory has none.\<close>

definition system_fault :: "storage \<Rightarrow> exn option \<Rightarrow> exn option" where
  "system_fault s fault = (case s of Memory _ \<Rightarrow> None | Files _ \<Rightarrow> fault)"

definition get_secret :: "crypto \<Rightarrow> exn option \<Rightarrow> skey \<Rightarrow> storage \<Rightarrow> string option res" where
  "get_secret c fault k s =
     bind_res (valid_key k) (\<lambda>_.
       case system_fault s fault of
         Some e \<Rightarrow> Inl e
       | None \<Rightarrow> (case find_record s k of None \<Rightarrow> Inr None | Some rc \<Rightarrow> bind_res (decrypt c rc) (\<lambda>v. Inr (Some v))))"

definition set_secret :: "crypto \<Rightarrow> exn option \<Rightarrow> bytes \<Rightarrow> bytes \<Rightarrow> skey \<Rightarrow> string \<Rightarrow> storage \<Rightarrow> unit res \<times> storage" where
  "set_secret c fault salt iv k v s =
     (case valid_key k of
        Inl e \<Rightarrow> (Inl e, s)
      | Inr _ \<Rightarrow>
          (case system_fault s fault of
             Some e \<Rightarrow> (Inl e, s)
           | None \<Rightarrow> (Inr (), put_record k (encrypt c salt iv v) s)))"

definition delete_secret :: "exn option \<Rightarrow> skey \<Rightarrow> storage \<Rightarrow> unit res \<times> storage" where
  "delete_secret fault k s =
     (case valid_key k of
        Inl e \<Rightarrow> (Inl e, s)
      | Inr _ \<Rightarrow> (case system_fault s fault of Some e \<Rightarrow> (Inl e, s) | None \<Rightarrow> (Inr (), drop_record k s)))"

definition listNames :: "exn option \<Rightarrow> string \<Rightarrow> string \<Rightarrow> storage \<Rightarrow> string list res" where
  "listNames fault org project s =
     bind_res (valid_tenant org project) (\<lambda>_.
       case system_fault s fault of Some e \<Rightarrow> Inl e | None \<Rightarrow> Inr (record_names s org project))"

section \<open>The binding of an invocation\<close>

text \<open>The secrets are read concurrently; the first error in the order of the names is taken as the one reported.\<close>

definition resolveEnvBinding :: "crypto \<Rightarrow> exn option \<Rightarrow> string \<Rightarrow> string \<Rightarrow> string list \<Rightarrow> storage \<Rightarrow> (string, string) omap res" where
  "resolveEnvBinding c fault org project allowed s =
     bind_res (valid_tenant org project) (\<lambda>_.
     bind_res (map_res (\<lambda>n. bind_res (get_secret c fault (org, project, n) s) (\<lambda>v. Inr (n, v))) (rev (remdups (rev allowed)))) (\<lambda>entries.
       Inr (List.map_filter (\<lambda>(n, v). map_option (Pair n) v) entries)))"

definition env_get :: "(string, string) omap \<Rightarrow> string \<Rightarrow> string option" where
  "env_get b k = oget b k"

section \<open>Backends as maps\<close>

text \<open>What the store relies on: a map of records, and the names of a tenant without repetition.\<close>

locale record_backend =
  fixes look :: "'s \<Rightarrow> skey \<Rightarrow> bytes option"
    and put :: "skey \<Rightarrow> bytes \<Rightarrow> 's \<Rightarrow> 's"
    and del :: "skey \<Rightarrow> 's \<Rightarrow> 's"
    and names :: "'s \<Rightarrow> string \<Rightarrow> string \<Rightarrow> string list"
    and inv :: "'s \<Rightarrow> bool"
  assumes inv_put: "inv s \<Longrightarrow> inv (put k rc s)"
    and inv_del: "inv s \<Longrightarrow> inv (del k s)"
    and look_put: "inv s \<Longrightarrow> look (put k rc s) k' = (if k' = k then Some rc else look s k')"
    and look_del: "inv s \<Longrightarrow> look (del k s) k' = (if k' = k then None else look s k')"
    and names_distinct: "inv s \<Longrightarrow> distinct (names s org project)"
    and names_set: "inv s \<Longrightarrow> set (names s org project) = {n. look s (org, project, n) \<noteq> None}"
begin

text \<open>The records stand for a map of values: each decrypts to the value of its key.\<close>

definition stands_for :: "crypto \<Rightarrow> 's \<Rightarrow> (skey \<Rightarrow> string option) \<Rightarrow> bool" where
  "stands_for c s F = (inv s \<and> (\<forall>k. map_option (decrypt c) (look s k) = map_option Inr (F k)))"

lemma stands_put: "stands_for c s F \<Longrightarrow> decrypt c rc = Inr v \<Longrightarrow> stands_for c (put k rc s) (F(k \<mapsto> v))"
  by (simp add: stands_for_def inv_put look_put)

lemma stands_del: "stands_for c s F \<Longrightarrow> stands_for c (del k s) (F(k := None))"
  by (simp add: stands_for_def inv_del look_del)

lemma stands_look: "stands_for c s F \<Longrightarrow> map_option (decrypt c) (look s k) = map_option Inr (F k)"
  unfolding stands_for_def by blast

lemma stands_names:
  assumes "stands_for c s F"
  shows "distinct (names s org project) \<and> set (names s org project) = {n. F (org, project, n) \<noteq> None}"
proof -
  have "look s k = None \<longleftrightarrow> F k = None" for k using stands_look[OF assms, of k] by (metis option.map_disc_iff)
  moreover have "inv s" using assms by (simp add: stands_for_def)
  ultimately show ?thesis using names_distinct[of s org project] names_set[of s org project] by (simp del: not_None_eq)
qed

end

definition mem_ok :: "memory \<Rightarrow> bool" where
  "mem_ok m = (owf m \<and> (\<forall>org om. oget m org = Some om \<longrightarrow> owf om \<and> (\<forall>p pm. oget om p = Some pm \<longrightarrow> owf pm)))"

lemma mem_get_sub: "mem_get m (org, project, n) = oget (sub (sub m org) project) n"
  by (simp add: mem_get_def sub_def split: option.split)

lemma sub_oset [simp]: "sub (oset k v m) k' = (if k' = k then v else sub m k')"
  by (simp add: sub_def)

lemma sub_odel [simp]: "sub (odel k m) k' = (if k' = k then [] else sub m k')"
  by (simp add: sub_def)

lemma sub_ok: "mem_ok m \<Longrightarrow> owf (sub m org)" "mem_ok m \<Longrightarrow> owf (sub (sub m org) project)"
  by (auto simp: mem_ok_def sub_def split: option.split)

lemma mem_ok_set: "mem_ok m \<Longrightarrow> mem_ok (mem_set k rc m)"
  using sub_ok[of m] by (cases k) (auto simp: mem_ok_def mem_set_def sub_def split: option.splits if_splits)

lemma mem_ok_delete: "mem_ok m \<Longrightarrow> mem_ok (mem_delete k m)"
  by (cases k) (auto simp: mem_ok_def mem_delete_def Let_def split: option.splits if_splits)

lemma mem_get_delete: "mem_get (mem_delete (org, project, name) m) (o', p', n') = (if (o', p', n') = (org, project, name) then None else mem_get m (o', p', n'))"
proof -
  have e: "odel name pm = [] \<Longrightarrow> n' \<noteq> name \<Longrightarrow> oget pm n' = None" for pm :: "(string, bytes) omap"
    using oget_odel[of name pm n'] by simp
  have e2: "odel project om = [] \<Longrightarrow> p' \<noteq> project \<Longrightarrow> oget om p' = None" for om :: "(string, (string, bytes) omap) omap"
    using oget_odel[of project om p'] by simp
  show ?thesis using e e2 by (auto simp: mem_delete_def mem_get_def Let_def split: option.splits)
qed

interpretation memo: record_backend mem_get mem_set mem_delete mem_names mem_ok
proof
  fix s :: memory and k k' rc org project
  assume ok: "mem_ok s"
  show "mem_ok (mem_set k rc s)" "mem_ok (mem_delete k s)" using ok mem_ok_set mem_ok_delete by auto
  show "mem_get (mem_set k rc s) k' = (if k' = k then Some rc else mem_get s k')"
    by (cases k; cases k') (auto simp: mem_get_sub mem_set_def)
  show "mem_get (mem_delete k s) k' = (if k' = k then None else mem_get s k')" using mem_get_delete by (cases k; cases k') auto
  show "distinct (mem_names s org project)" using sub_ok(2)[OF ok] by (simp add: mem_names_def owf_def)
  show "set (mem_names s org project) = {n. mem_get s (org, project, n) \<noteq> None}"
    unfolding mem_names_def mem_get_sub map_of_eq_None_iff by simp
qed

definition files_ok :: "files \<Rightarrow> bool" where
  "files_ok fs = (owf fs \<and> (\<forall>p \<in> fst ` set fs. \<exists>k. p = getRecordPath k))"

lemma getRecordPath_inj: "getRecordPath k = getRecordPath k' \<longleftrightarrow> k = k'"
  by (cases k; cases k') (auto simp: getRecordPath_def encodeURIComponent_inj)

lemma entry_name_path: "entry_name org project (getRecordPath (o', p', n)) = (if o' = org \<and> p' = project then Some n else None)"
  by (simp add: entry_name_def getRecordPath_def ends_with_def decode_encode suffix_def)

lemma map_filter_distinct:
  "distinct xs \<Longrightarrow> (\<And>x y v. x \<in> set xs \<Longrightarrow> y \<in> set xs \<Longrightarrow> f x = Some v \<Longrightarrow> f y = Some v \<Longrightarrow> x = y) \<Longrightarrow> distinct (List.map_filter f xs)"
proof (induction xs)
  case (Cons x xs)
  then have "distinct (List.map_filter f xs)" by simp
  moreover have "v \<notin> set (List.map_filter f xs)" if "f x = Some v" for v
  proof
    assume "v \<in> set (List.map_filter f xs)"
    then obtain y where "y \<in> set xs" "f y = Some v" by (auto simp: List.map_filter_def)
    then show False using Cons.prems(1) Cons.prems(2)[of x y v] that by simp
  qed
  ultimately show ?case by (auto simp: List.map_filter_simps split: option.split)
qed (simp add: List.map_filter_simps)

lemma file_names_ok:
  assumes "files_ok fs"
  shows "distinct (file_names fs org project)" "set (file_names fs org project) = {n. file_get fs (org, project, n) \<noteq> None}"
proof -
  have e: "\<exists>o' p' n. p = getRecordPath (o', p', n)" if "p \<in> fst ` set fs" for p
    using assms that unfolding files_ok_def by (metis prod_cases3)
  have "x = y" if "x \<in> set (map fst fs)" "y \<in> set (map fst fs)" "entry_name org project x = Some v" "entry_name org project y = Some v" for x y v
    using e[of x] e[of y] that by (auto simp: entry_name_path split: if_splits)
  then have "distinct (List.map_filter (entry_name org project) (map fst fs))"
    using assms by (intro map_filter_distinct) (auto simp: files_ok_def owf_def)
  moreover have m: "file_names fs org project = List.map_filter (entry_name org project) (map fst fs)"
    by (simp add: file_names_def List.map_filter_def comp_def filter_map)
  ultimately show "distinct (file_names fs org project)" by simp
  have "n \<in> set (file_names fs org project) \<longleftrightarrow> getRecordPath (org, project, n) \<in> fst ` set fs" for n
  proof
    assume "n \<in> set (file_names fs org project)"
    then obtain p where "p \<in> fst ` set fs" "entry_name org project p = Some n" unfolding m by (auto simp: List.map_filter_def) (metis fst_conv image_eqI)
    moreover from this obtain o' p' n' where "p = getRecordPath (o', p', n')" using e by blast
    ultimately show "getRecordPath (org, project, n) \<in> fst ` set fs" by (simp add: entry_name_path split: if_splits)
  next
    assume "getRecordPath (org, project, n) \<in> fst ` set fs"
    then show "n \<in> set (file_names fs org project)" unfolding m List.map_filter_def using entry_name_path[of org project org project n] by force
  qed
  then show "set (file_names fs org project) = {n. file_get fs (org, project, n) \<noteq> None}"
    by (auto simp: file_get_def map_of_eq_None_iff)
qed

interpretation fil: record_backend file_get file_set file_delete file_names files_ok
  by unfold_locales (auto simp: files_ok_def file_get_def file_set_def file_delete_def getRecordPath_inj file_names_ok[unfolded files_ok_def file_get_def])


fun storage_ok :: "storage \<Rightarrow> bool" where
  "storage_ok (Memory m) = mem_ok m"
| "storage_ok (Files fs) = files_ok fs"

interpretation store: record_backend find_record put_record drop_record record_names storage_ok
proof
  fix s k k' rc org project
  assume ok: "storage_ok s"
  show "storage_ok (put_record k rc s)" "storage_ok (drop_record k s)"
    using ok by (cases s; simp add: memo.inv_put memo.inv_del fil.inv_put fil.inv_del)+
  show "find_record (put_record k rc s) k' = (if k' = k then Some rc else find_record s k')"
    "find_record (drop_record k s) k' = (if k' = k then None else find_record s k')"
    using ok by (cases s; simp add: memo.look_put memo.look_del fil.look_put fil.look_del)+
  show "distinct (record_names s org project)" "set (record_names s org project) = {n. find_record s (org, project, n) \<noteq> None}"
    using ok by (cases s; simp add: memo.names_distinct memo.names_set fil.names_distinct fil.names_set)+
qed

section \<open>The store implements a map of secrets\<close>

definition crypto_ok :: "crypto \<Rightarrow> bool" where
  "crypto_ok c = (\<forall>salt iv p. unseal c salt iv (seal c salt iv p) = Some p \<and> TAG_LENGTH_BYTES \<le> length (seal c salt iv p))"

lemmas lengths = MIN_RECORD_LENGTH_BYTES_def MAGIC_LENGTH_def SALT_LENGTH_BYTES_def IV_LENGTH_BYTES_def TAG_LENGTH_BYTES_def

lemma decrypt_encrypt:
  assumes "crypto_ok c" "length salt = SALT_LENGTH_BYTES" "length iv = IV_LENGTH_BYTES"
  shows "decrypt c (encrypt c salt iv v) = Inr v"
proof -
  have u: "unseal c salt iv (seal c salt iv v) = Some v" "16 \<le> length (seal c salt iv v)"
    using assms(1) by (auto simp: crypto_ok_def lengths)
  have n: "length (encrypt c salt iv v) = 32 + length (seal c salt iv v)" "take 4 (encrypt c salt iv v) = RECORD_MAGIC"
    "take 16 (drop 4 (encrypt c salt iv v)) = salt" "take 12 (drop 20 (encrypt c salt iv v)) = iv" "drop 32 (encrypt c salt iv v) = seal c salt iv v"
    using assms(2,3) by (simp_all add: encrypt_def RECORD_MAGIC_def lengths)
  show ?thesis using u n by (simp add: decrypt_def lengths Let_def)
qed

datatype secret_op =
    GetS skey
  | SetS skey string bytes bytes
  | DeleteS skey
  | ListS string string

datatype secret_result = RValue "string option" | RDone | RNames "string list" | RError exn

definition answer :: "('a \<Rightarrow> secret_result) \<Rightarrow> 'a res \<Rightarrow> secret_result" where
  "answer f r = (case r of Inl e \<Rightarrow> RError e | Inr x \<Rightarrow> f x)"

fun secret_step :: "crypto \<Rightarrow> secret_op \<times> exn option \<Rightarrow> storage \<Rightarrow> secret_result \<times> storage" where
  "secret_step c (GetS k, fault) s = (answer RValue (get_secret c fault k s), s)"
| "secret_step c (SetS k v salt iv, fault) s = (case set_secret c fault salt iv k v s of (r, s') \<Rightarrow> (answer (\<lambda>_. RDone) r, s'))"
| "secret_step c (DeleteS k, fault) s = (case delete_secret fault k s of (r, s') \<Rightarrow> (answer (\<lambda>_. RDone) r, s'))"
| "secret_step c (ListS org project, fault) s = (answer RNames (listNames fault org project s), s)"

fun secret_run :: "crypto \<Rightarrow> (secret_op \<times> exn option) list \<Rightarrow> storage \<Rightarrow> secret_result list" where
  "secret_run c [] s = []"
| "secret_run c (x # xs) s = (case secret_step c x s of (r, s') \<Rightarrow> r # secret_run c xs s')"

text \<open>The specification: an operation is refused for its identifiers or by the system, and otherwise acts on a map.\<close>

fun refusal :: "bool \<Rightarrow> secret_op \<times> exn option \<Rightarrow> exn option" where
  "refusal in_files (op, fault) =
     (case (case op of GetS k \<Rightarrow> valid_key k | SetS k _ _ _ \<Rightarrow> valid_key k | DeleteS k \<Rightarrow> valid_key k | ListS org project \<Rightarrow> valid_tenant org project) of
        Inl e \<Rightarrow> Some e
      | Inr _ \<Rightarrow> if in_files then fault else None)"

fun spec_answer :: "secret_op \<Rightarrow> (skey \<Rightarrow> string option) \<Rightarrow> secret_result \<Rightarrow> bool" where
  "spec_answer (GetS k) F r = (r = RValue (F k))"
| "spec_answer (SetS k v _ _) F r = (r = RDone)"
| "spec_answer (DeleteS k) F r = (r = RDone)"
| "spec_answer (ListS org project) F r = (case r of RNames ns \<Rightarrow> distinct ns \<and> set ns = {n. F (org, project, n) \<noteq> None} | _ \<Rightarrow> False)"

fun spec_effect :: "secret_op \<Rightarrow> (skey \<Rightarrow> string option) \<Rightarrow> (skey \<Rightarrow> string option)" where
  "spec_effect (SetS k v _ _) F = F(k \<mapsto> v)"
| "spec_effect (DeleteS k) F = F(k := None)"
| "spec_effect _ F = F"

fun spec_run :: "bool \<Rightarrow> (secret_op \<times> exn option) list \<Rightarrow> (skey \<Rightarrow> string option) \<Rightarrow> secret_result list \<Rightarrow> bool" where
  "spec_run in_files [] F rs = (rs = [])"
| "spec_run in_files (x # xs) F rs =
     (case rs of
        [] \<Rightarrow> False
      | r # rs' \<Rightarrow>
          (case refusal in_files x of
             Some e \<Rightarrow> r = RError e \<and> spec_run in_files xs F rs'
           | None \<Rightarrow> spec_answer (fst x) F r \<and> spec_run in_files xs (spec_effect (fst x) F) rs'))"

fun random_ok :: "secret_op \<times> exn option \<Rightarrow> bool" where
  "random_ok (SetS k v salt iv, fault) = (length salt = SALT_LENGTH_BYTES \<and> length iv = IV_LENGTH_BYTES)"
| "random_ok _ = True"

fun is_files :: "storage \<Rightarrow> bool" where
  "is_files (Memory _) = False"
| "is_files (Files _) = True"

lemma is_files_keeps [simp]: "is_files (put_record k rc s) = is_files s" "is_files (drop_record k s) = is_files s"
  by (cases s; simp)+

lemma system_fault_eq: "system_fault s fault = (if is_files s then fault else None)"
  by (cases s) (simp_all add: system_fault_def)

lemma secret_step_refines:
  assumes "crypto_ok c" "random_ok x" "store.stands_for c s F" "secret_step c x s = (r, s')"
  shows "case refusal (is_files s) x of
      Some e \<Rightarrow> r = RError e \<and> s' = s
    | None \<Rightarrow> spec_answer (fst x) F r \<and> store.stands_for c s' (spec_effect (fst x) F) \<and> is_files s' = is_files s"
proof -
  obtain op fault where x: "x = (op, fault)" by (cases x)
  show ?thesis
  proof (cases op)
    case (GetS k)
    have "map_option (decrypt c) (find_record s k) = map_option Inr (F k)" by (rule store.stands_look[OF assms(3)])
    then show ?thesis using assms(3,4) x GetS
      by (cases "find_record s k"; cases "F k") (auto simp: get_secret_def system_fault_eq answer_def res_simps split: sum.splits option.splits if_splits)
  next
    case (SetS k v salt iv)
    then have "decrypt c (encrypt c salt iv v) = Inr v" using decrypt_encrypt assms(1,2) x by simp
    then show ?thesis using assms(3,4) x SetS store.stands_put[OF assms(3), of "encrypt c salt iv v" v k]
      by (auto simp: set_secret_def system_fault_eq answer_def split: sum.splits option.splits if_splits)
  next
    case (DeleteS k)
    then show ?thesis using assms(3,4) x store.stands_del[OF assms(3), of k]
      by (auto simp: delete_secret_def system_fault_eq answer_def split: sum.splits option.splits if_splits)
  next
    case (ListS org project)
    then show ?thesis using assms(3,4) x store.stands_names[OF assms(3), of org project]
      by (auto simp: listNames_def system_fault_eq answer_def res_simps split: sum.splits option.splits if_splits)
  qed
qed

lemma secret_run_refines:
  assumes "crypto_ok c" "list_all random_ok xs" "store.stands_for c s F"
  shows "spec_run (is_files s) xs F (secret_run c xs s)"
  using assms(2,3)
proof (induction xs arbitrary: s F)
  case (Cons x xs)
  obtain r s' where st: "secret_step c x s = (r, s')" by (cases "secret_step c x s")
  note step = secret_step_refines[OF assms(1) _ Cons.prems(2) st]
  show ?case
  proof (cases "refusal (is_files s) x")
    case None
    then have "spec_answer (fst x) F r" "store.stands_for c s' (spec_effect (fst x) F)" "is_files s' = is_files s"
      using step Cons.prems(1) by simp_all
    then show ?thesis using Cons.IH[of s' "spec_effect (fst x) F"] Cons.prems(1) None st by simp
  next
    case (Some e)
    then show ?thesis using step Cons st by simp
  qed
qed simp



section \<open>Bindings expose what is declared\<close>

definition secret_state :: "crypto \<Rightarrow> (secret_op \<times> exn option) list \<Rightarrow> storage \<Rightarrow> storage" where
  "secret_state c xs s = fold (\<lambda>x s. snd (secret_step c x s)) xs s"

definition spec_state :: "bool \<Rightarrow> (secret_op \<times> exn option) list \<Rightarrow> (skey \<Rightarrow> string option) \<Rightarrow> skey \<Rightarrow> string option" where
  "spec_state in_files xs F = fold (\<lambda>x F. if refusal in_files x = None then spec_effect (fst x) F else F) xs F"

lemma state_refines:
  assumes "crypto_ok c" "list_all random_ok xs" "store.stands_for c s F"
  shows "store.stands_for c (secret_state c xs s) (spec_state (is_files s) xs F)"
  using assms(2,3)
proof (induction xs arbitrary: s F)
  case (Cons x xs)
  obtain r s' where st: "secret_step c x s = (r, s')" by (cases "secret_step c x s")
  note step = secret_step_refines[OF assms(1) _ Cons.prems(2) st]
  show ?case
  proof (cases "refusal (is_files s) x")
    case None
    then have "store.stands_for c s' (spec_effect (fst x) F)" "is_files s' = is_files s" using step Cons.prems(1) by simp_all
    then show ?thesis using Cons.IH[of s' "spec_effect (fst x) F"] Cons.prems(1) None st by (simp add: secret_state_def spec_state_def)
  next
    case (Some e)
    then show ?thesis using step Cons st by (simp add: secret_state_def spec_state_def)
  qed
qed (simp add: secret_state_def spec_state_def)

lemma get_secret_stands:
  assumes "store.stands_for c s F" "get_secret c fault k s = Inr v"
  shows "v = F k"
  using assms(2) store.stands_look[OF assms(1), of k]
  by (cases "find_record s k"; cases "F k") (auto simp: get_secret_def res_simps split: option.splits sum.splits)

lemma binding_get:
  assumes "\<And>n v. n \<in> set ns \<Longrightarrow> f n = Inr v \<Longrightarrow> v = F n" "map_res (\<lambda>n. bind_res (f n) (\<lambda>v. Inr (n, v))) ns = Inr es"
  shows "oget (List.map_filter (\<lambda>(n, v). map_option (Pair n) v) es) k = (if k \<in> set ns then F k else None)"
  using assms
proof (induction ns arbitrary: es)
  case (Cons n ns)
  obtain v es' where e: "f n = Inr v" "es = (n, v) # es'" "map_res (\<lambda>n. bind_res (f n) (\<lambda>v. Inr (n, v))) ns = Inr es'"
    using Cons.prems(2) by (auto simp: bind_res_Inr_iff)
  have "v = F n" using Cons.prems(1)[of n v] e(1) by simp
  moreover have "oget (List.map_filter (\<lambda>(n, v). map_option (Pair n) v) es') k = (if k \<in> set ns then F k else None)"
    using Cons.IH[OF _ e(3)] Cons.prems(1) by simp
  ultimately show ?case using e(2) by (auto simp: List.map_filter_simps split: option.split)
qed (simp add: List.map_filter_simps)

text \<open>
  The binding of an invocation exposes exactly the declared secrets of its project, each with the value last set, so a rotation is
  seen by the next invocation; a name that is not declared has no value. With valid identifiers and a working store a binding is made.
\<close>

theorem env_binding_exact:
  assumes "crypto_ok c" "list_all random_ok ops" "s = Memory [] \<or> s = Files []"
    and "resolveEnvBinding c fault org project allowed (secret_state c ops s) = r"
  shows "(\<forall>b. r = Inr b \<longrightarrow> env_get b k = (if k \<in> set allowed then spec_state (is_files s) ops (\<lambda>_. None) (org, project, k) else None)) \<and>
    (list_all (\<lambda>n. valid_key (org, project, n) = Inr ()) allowed \<and> valid_tenant org project = Inr () \<and> fault = None \<longrightarrow> (\<exists>b. r = Inr b))"
proof -
  let ?t = "secret_state c ops s" and ?F = "spec_state (is_files s) ops (\<lambda>_. None)"
  have "store.stands_for c s (\<lambda>_. None)"
    using assms(3) by (auto simp: store.stands_for_def mem_ok_def files_ok_def mem_get_def file_get_def)
  then have st: "store.stands_for c ?t ?F" by (rule state_refines[OF assms(1,2)])
  have b: "env_get b k = (if k \<in> set allowed then ?F (org, project, k) else None)" if "r = Inr b" for b
    using that assms(4) binding_get[of "rev (remdups (rev allowed))" "\<lambda>n. get_secret c fault (org, project, n) ?t" "\<lambda>n. ?F (org, project, n)" _ k] get_secret_stands[OF st]
    by (auto simp: resolveEnvBinding_def bind_res_Inr_iff env_get_def)
  have g: "get_secret c None k ?t = Inr (?F k)" if "valid_key k = Inr ()" for k
    using that store.stands_look[OF st, of k]
    by (cases "find_record ?t k"; cases "?F k") (auto simp: get_secret_def system_fault_eq res_simps)
  have m: "map_res (\<lambda>n. bind_res (get_secret c None (org, project, n) ?t) (\<lambda>v. Inr (n, v))) ns = Inr (map (\<lambda>n. (n, ?F (org, project, n))) ns)"
    if "list_all (\<lambda>n. valid_key (org, project, n) = Inr ()) ns" for ns
    using that by (induction ns) (simp_all add: g res_simps)
  have "\<exists>b. r = Inr b" if "list_all (\<lambda>n. valid_key (org, project, n) = Inr ()) allowed" "valid_tenant org project = Inr ()" "fault = None"
  proof -
    have "list_all (\<lambda>n. valid_key (org, project, n) = Inr ()) (rev (remdups (rev allowed)))" using that(1) by (simp add: list_all_iff)
    then show ?thesis using m that(2,3) assms(4) by (auto simp: resolveEnvBinding_def res_simps)
  qed
  then show ?thesis using b by blast
qed

section \<open>Samples\<close>

definition demo_crypto :: crypto where
  "demo_crypto = \<lparr>seal = (\<lambda>salt iv p. replicate 16 0 @ map (\<lambda>c. int (code c)) p), unseal = (\<lambda>salt iv b. Some (map (\<lambda>i. char_of (nat i)) (drop 16 b)))\<rparr>"

lemma demo_crypto_ok: "crypto_ok demo_crypto"
  by (simp add: crypto_ok_def demo_crypto_def comp_def TAG_LENGTH_BYTES_def)

definition demo_secret_ops :: "(secret_op \<times> exn option) list" where
  "demo_secret_ops = [(SetS (''acme'', ''web'', ''API KEY'') ''one'' (replicate 16 1) (replicate 12 2), None),
     (SetS (''acme'', ''web'', ''API KEY'') ''two'' (replicate 16 3) (replicate 12 4), None), (GetS (''acme'', ''web'', ''API KEY''), None),
     (SetS (''acme'', ''..'', ''x'') ''y'' (replicate 16 3) (replicate 12 4), None), (ListS ''acme'' ''web'', None)]"


lemma env_binding_exact_witness:
  "\<exists>b. resolveEnvBinding demo_crypto None ''acme'' ''web'' [''API KEY''] (secret_state demo_crypto demo_secret_ops (Memory [])) = Inr b \<and>
     env_get b ''API KEY'' = Some ''two'' \<and> env_get b ''HOME'' = None"
proof -
  let ?r = "resolveEnvBinding demo_crypto None ''acme'' ''web'' [''API KEY''] (secret_state demo_crypto demo_secret_ops (Memory []))"
  have r: "list_all random_ok demo_secret_ops" by code_simp
  note t = env_binding_exact[OF demo_crypto_ok r _ refl, where s = "Memory []" and fault = None and org = "''acme''" and project = "''web''" and allowed = "[''API KEY'']"]
  have "valid_key (''acme'', ''web'', ''API KEY'') = Inr ()" "valid_tenant ''acme'' ''web'' = Inr ()" by code_simp+
  then obtain b where "?r = Inr b" using t[where k = "''HOME''"] by auto
  moreover have "spec_state False demo_secret_ops (\<lambda>_. None) (''acme'', ''web'', ''API KEY'') = Some ''two''" by code_simp
  ultimately show ?thesis using t[where k = "''HOME''"] t[where k = "''API KEY''"] by auto
qed

end
