(* ===== verification/Gateway.thy ===== *)
theory Gateway
  imports RateLimiter
begin

text \<open>
  \<open>apps/gateway/gateway-server.ts\<close>: the ingress gateway. A request is its method, path, query text, headers (lower case names), the
  address of the peer and its body; the upstream is a function from the forwarded request to a response or a failure, and the hash of
  tokens is a parameter. The part of the URL standard that the gateway relies on is \<open>resolve_reference\<close>.

  Shown: what is forwarded and to whom, what an upstream can never receive from a client, the bound on anonymous requests of
  one peer; and two ways around the gateway's rules.
\<close>

section \<open>Requests and responses\<close>

record gw_request =
  gq_method :: string
  gq_path :: string
  gq_search :: string
  gq_headers :: "(string, string) omap"
  gq_peer :: "string option"
  gq_body :: "string option"

datatype gw_body = Raw string | Json jsval

record gw_response =
  gr_status :: nat
  gr_headers :: "(string, string) omap"
  gr_body :: "gw_body option"

record base_url =
  b_origin :: string
  b_path :: string

record gateway_options =
  controlPlaneUrl :: base_url
  dataPlaneUrl :: base_url
  has_limiter :: bool

definition FALLBACK_CLIENT_IP :: string where
  "FALLBACK_CLIENT_IP = ''127.0.0.1''"

definition DEFAULT_RETRY_AFTER_SECONDS :: int where
  "DEFAULT_RETRY_AFTER_SECONDS = 1"

text \<open>A header that is present and not empty.\<close>

definition present :: "gw_request \<Rightarrow> string \<Rightarrow> string option" where
  "present rq k = (case oget (gq_headers rq) k of Some (c # s) \<Rightarrow> Some (c # s) | _ \<Rightarrow> None)"

definition resolveRequestId :: "string \<Rightarrow> gw_request \<Rightarrow> string" where
  "resolveRequestId ulid rq =
     (case present rq ''x-request-id'' of Some x \<Rightarrow> x | None \<Rightarrow> (case present rq ''request-id'' of Some x \<Rightarrow> x | None \<Rightarrow> ulid))"

section \<open>Targets\<close>

definition control_prefixes :: "string list" where
  "control_prefixes = [''/login'', ''/deploy'', ''/rollback'', ''/export'', ''/import'', ''/v1'']"

definition isControlPlane :: "string \<Rightarrow> bool" where
  "isControlPlane p = list_ex (\<lambda>x. p = x \<or> starts_with p (x @ ''/'')) control_prefixes"

text \<open>
  \<open>new URL(ref, origin)\<close> for a reference that begins with a slash: with a second slash the reference names its own
  authority (further slashes are skipped), which ends at the next slash, question mark or number sign and may not be empty.
\<close>

datatype target =
    Origin string string
  | Authority string string
  | BadUrl

definition resolve_reference :: "string \<Rightarrow> string \<Rightarrow> target" where
  "resolve_reference origin ref =
     (if starts_with ref ''//''
      then let rest = dropWhile (\<lambda>c. c = CHR ''/'') ref;
               auth = takeWhile (\<lambda>c. c \<notin> set ''/?#'') rest in
           if auth = [] then BadUrl else Authority auth (drop (length auth) rest)
      else Origin origin ref)"

definition strip_slash :: "string \<Rightarrow> string" where
  "strip_slash p = (if ends_with p ''/'' then butlast p else p)"

definition resolveTargetUrl :: "gateway_options \<Rightarrow> gw_request \<Rightarrow> target" where
  "resolveTargetUrl ops rq =
     (let base = (if isControlPlane (gq_path rq) then controlPlaneUrl ops else dataPlaneUrl ops) in
      resolve_reference (b_origin base) (strip_slash (b_path base) @ gq_path rq @ gq_search rq))"

section \<open>Rate limits\<close>

definition peer_address :: "gw_request \<Rightarrow> string" where
  "peer_address rq = (case gq_peer rq of Some p \<Rightarrow> p | None \<Rightarrow> FALLBACK_CLIENT_IP)"

definition is_loopback :: "string \<Rightarrow> bool" where
  "is_loopback p = (p = ''127.0.0.1'' \<or> p = ''::1'' \<or> p = ''localhost'')"

definition forwarded_ip :: "gw_request \<Rightarrow> string option" where
  "forwarded_ip rq =
     (case oget (gq_headers rq) ''x-forwarded-for'' of
        None \<Rightarrow> None
      | Some h \<Rightarrow> let ip = trim (hd (split_on (CHR '','') h)) in if ip = [] then None else Some ip)"

definition client_ip :: "gw_request \<Rightarrow> string" where
  "client_ip rq = (if is_loopback (peer_address rq) then (case forwarded_ip rq of Some ip \<Rightarrow> ip | None \<Rightarrow> peer_address rq) else peer_address rq)"

definition evaluateRateLimits :: "(string \<Rightarrow> string) \<Rightarrow> int \<Rightarrow> gw_request \<Rightarrow> gw_limiter \<Rightarrow> decision \<times> gw_limiter" where
  "evaluateRateLimits hash now rq g =
     (case (present rq ''authorization'', present rq ''x-project-id'') of
        (None, None) \<Rightarrow> check g ScopeIp (client_ip rq) now
      | (None, Some p) \<Rightarrow> check g ScopeProject p now
      | (Some h, None) \<Rightarrow> check g ScopeIdentity (hash h) now
      | (Some h, Some p) \<Rightarrow>
          (case check g ScopeIdentity (hash h) now of
             (d, g1) \<Rightarrow> if d_allowed d then check g1 ScopeProject p now else (d, g1)))"

section \<open>Forwarding\<close>

definition error_headers :: "string \<Rightarrow> (string \<times> string) list \<Rightarrow> (string, string) omap" where
  "error_headers rid extra = [(''content-type'', ''application/json''), (''x-request-id'', rid), (''request-id'', rid)] @ extra"

definition createErrorResponse :: "nat \<Rightarrow> string \<Rightarrow> string \<Rightarrow> string \<Rightarrow> (string \<times> string) list \<Rightarrow> gw_response" where
  "createErrorResponse status ecode msg rid extra =
     \<lparr>gr_status = status, gr_headers = error_headers rid extra,
      gr_body = Some (Json (JObj [(''error'', JObj [(''code'', JStr ecode), (''message'', JStr msg), (''request_id'', JStr rid)])]))\<rparr>"

definition internal_headers :: "string list" where
  "internal_headers = [''x-forwarded-by'', ''x-railfog-trigger'', ''x-railfog-call-depth'', ''x-railfog-invocation-id'']"

definition upstream_headers :: "string \<Rightarrow> (string, string) omap \<Rightarrow> (string, string) omap" where
  "upstream_headers rid hs =
     oset ''x-forwarded-by'' ''railfog-gateway'' (oset ''request-id'' rid (oset ''x-request-id'' rid (fold odel internal_headers hs)))"

record forwarded =
  f_target :: target
  f_method :: string
  f_headers :: "(string, string) omap"
  f_body :: "string option"

definition forward :: "target \<Rightarrow> string \<Rightarrow> gw_request \<Rightarrow> forwarded" where
  "forward t rid rq =
     \<lparr>f_target = t, f_method = gq_method rq, f_headers = upstream_headers rid (gq_headers rq),
      f_body = (if gq_method rq \<noteq> ''GET'' \<and> gq_method rq \<noteq> ''HEAD'' then gq_body rq else None)\<rparr>"

definition proxyRequest :: "(forwarded \<Rightarrow> gw_response option) \<Rightarrow> gw_request \<Rightarrow> target \<Rightarrow> string \<Rightarrow> gw_response" where
  "proxyRequest upstream rq t rid =
     (case upstream (forward t rid rq) of
        None \<Rightarrow> createErrorResponse 503 ''UNAVAILABLE'' ''Upstream service unavailable.'' rid []
      | Some r \<Rightarrow>
          \<lparr>gr_status = gr_status r, gr_headers = oset ''request-id'' rid (oset ''x-request-id'' rid (gr_headers r)),
           gr_body = (if gr_status r = 204 \<or> gr_status r = 304 then None else gr_body r)\<rparr>)"

text \<open>\<open>None\<close>: the URL of the target cannot be built, and the server answers for itself.\<close>

definition handle :: "gateway_options \<Rightarrow> (string \<Rightarrow> string) \<Rightarrow> (forwarded \<Rightarrow> gw_response option) \<Rightarrow> string \<Rightarrow> int \<Rightarrow> gw_request \<Rightarrow> gw_limiter \<Rightarrow>
    gw_response option \<times> gw_limiter" where
  "handle ops hash upstream ulid now rq g =
     (let rid = resolveRequestId ulid rq;
          (d, g1) = (if has_limiter ops then evaluateRateLimits hash now rq g
                     else (\<lparr>d_allowed = True, d_remaining = 1, d_limit = 1, resetMs = 0, d_retryAfter = None\<rparr>, g)) in
      if \<not> d_allowed d
      then (Some (createErrorResponse 429 ''RATE_LIMITED'' ''Rate limit exceeded. Please retry after specified delay.'' rid
               [(''retry-after'', int_str (case d_retryAfter d of Some s \<Rightarrow> s | None \<Rightarrow> DEFAULT_RETRY_AFTER_SECONDS))]), g1)
      else (case resolveTargetUrl ops rq of
              BadUrl \<Rightarrow> (None, g1)
            | t \<Rightarrow> (Some (proxyRequest upstream rq t rid), g1)))"

section \<open>What is forwarded\<close>

lemma oget_fold_odel: "oget (fold odel ks m) k = (if k \<in> set ks then None else oget m k)"
  by (induction ks arbitrary: m) auto

lemma upstream_headers_get:
  "oget (upstream_headers rid hs) k =
     (if k = ''x-forwarded-by'' then Some ''railfog-gateway''
      else if k \<in> {''x-request-id'', ''request-id''} then Some rid
      else if k \<in> {''x-railfog-trigger'', ''x-railfog-call-depth'', ''x-railfog-invocation-id''} then None
      else oget hs k)"
  by (simp add: upstream_headers_def oget_fold_odel internal_headers_def)

definition plane :: "gateway_options \<Rightarrow> gw_request \<Rightarrow> base_url" where
  "plane ops rq = (if isControlPlane (gq_path rq) then controlPlaneUrl ops else dataPlaneUrl ops)"

text \<open>The reference keeps the origin of the plane: its path, or the request's, begins with a single slash.\<close>

definition single_slash :: "gateway_options \<Rightarrow> gw_request \<Rightarrow> bool" where
  "single_slash ops rq = (\<not> starts_with (strip_slash (b_path (plane ops rq)) @ gq_path rq @ gq_search rq) ''//'')"

definition request_allowed :: "gateway_options \<Rightarrow> (string \<Rightarrow> string) \<Rightarrow> int \<Rightarrow> gw_request \<Rightarrow> gw_limiter \<Rightarrow> bool" where
  "request_allowed ops hash now rq g = (has_limiter ops \<longrightarrow> d_allowed (fst (evaluateRateLimits hash now rq g)))"

definition response_tagged :: "string \<Rightarrow> gw_response \<Rightarrow> bool" where
  "response_tagged rid r = (oget (gr_headers r) ''x-request-id'' = Some rid \<and> oget (gr_headers r) ''request-id'' = Some rid)"

lemma handle_refused:
  assumes "\<not> request_allowed ops hash now rq g"
  shows "fst (handle ops hash upstream ulid now rq g) =
    Some (createErrorResponse 429 ''RATE_LIMITED'' ''Rate limit exceeded. Please retry after specified delay.'' (resolveRequestId ulid rq)
      [(''retry-after'', int_str (case d_retryAfter (fst (evaluateRateLimits hash now rq g)) of Some s \<Rightarrow> s | None \<Rightarrow> DEFAULT_RETRY_AFTER_SECONDS))])"
  using assms by (cases "evaluateRateLimits hash now rq g") (simp add: handle_def Let_def request_allowed_def)



section \<open>Anonymous requests of a peer are bounded\<close>

text \<open>The gateway as its limiter sees it: requests and the sweeps of the timer, with their times.\<close>

datatype gw_event = Arrive gw_request | Sweep

definition DEFAULT_MAX_IDLE_MS :: int where
  "DEFAULT_MAX_IDLE_MS = 60000"

fun gw_step :: "(string \<Rightarrow> string) \<Rightarrow> gw_event \<times> int \<Rightarrow> gw_limiter \<Rightarrow> bool \<times> gw_limiter" where
  "gw_step hash (Arrive rq, now) g = (case evaluateRateLimits hash now rq g of (d, g1) \<Rightarrow> (d_allowed d, g1))"
| "gw_step hash (Sweep, now) g = (False, snd (gw_prune g DEFAULT_MAX_IDLE_MS now))"

definition anonymous_from :: "string \<Rightarrow> gw_event \<Rightarrow> bool" where
  "anonymous_from ip e =
     (case e of Sweep \<Rightarrow> False
      | Arrive rq \<Rightarrow> present rq ''authorization'' = None \<and> present rq ''x-project-id'' = None \<and> peer_address rq = ip)"

fun anonymous_admitted :: "(string \<Rightarrow> string) \<Rightarrow> string \<Rightarrow> gw_limiter \<Rightarrow> (gw_event \<times> int) list \<Rightarrow> nat" where
  "anonymous_admitted hash ip g [] = 0"
| "anonymous_admitted hash ip g (e # es) =
     (if anonymous_from ip (fst e) \<and> fst (gw_step hash e g) then 1 else 0) + anonymous_admitted hash ip (snd (gw_step hash e g)) es"

text \<open>The events of the limiter behind one event of the gateway.\<close>

fun limiter_events :: "(string \<Rightarrow> string) \<Rightarrow> gw_event \<times> int \<Rightarrow> gw_limiter \<Rightarrow> limit_event list" where
  "limiter_events hash (Sweep, now) g = [Prune DEFAULT_MAX_IDLE_MS now]"
| "limiter_events hash (Arrive rq, now) g =
     (case (present rq ''authorization'', present rq ''x-project-id'') of
        (None, None) \<Rightarrow> [Request ScopeIp (client_ip rq) now]
      | (None, Some p) \<Rightarrow> [Request ScopeProject p now]
      | (Some h, None) \<Rightarrow> [Request ScopeIdentity (hash h) now]
      | (Some h, Some p) \<Rightarrow> Request ScopeIdentity (hash h) now #
          (if d_allowed (fst (check g ScopeIdentity (hash h) now)) then [Request ScopeProject p now] else []))"

definition after_events :: "limit_event list \<Rightarrow> gw_limiter \<Rightarrow> gw_limiter" where
  "after_events es g = foldl (\<lambda>g e. snd (gateway_step g e)) g es"

lemma gw_step_events: "snd (gw_step hash e g) = after_events (limiter_events hash e g) g"
  by (cases e; cases "fst e") (auto simp: after_events_def evaluateRateLimits_def Let_def split: option.split prod.split)

fun run_events :: "(string \<Rightarrow> string) \<Rightarrow> (gw_event \<times> int) list \<Rightarrow> gw_limiter \<Rightarrow> limit_event list" where
  "run_events hash [] g = []"
| "run_events hash (e # es) g = limiter_events hash e g @ run_events hash es (snd (gw_step hash e g))"

lemma gateway_admitted_append:
  "gateway_admitted sc k g (es @ fs) = gateway_admitted sc k g es + gateway_admitted sc k (after_events es g) fs"
  by (induction es arbitrary: g) (simp_all add: after_events_def)

lemma limiter_events_times:
  "x \<in> set (limiter_events hash (e, now) g) \<Longrightarrow> event_time x = now \<and> (\<forall>tr. 1000 * t_burst tr \<le> t_rate tr * 60000 \<longrightarrow> prune_harmless tr x)"
  by (cases e) (auto simp: prune_harmless_def DEFAULT_MAX_IDLE_MS_def split: option.splits if_splits)

lemma run_events_times:
  "x \<in> set (run_events hash es g) \<Longrightarrow>
     \<exists>e \<in> set es. event_time x = snd e \<and> (\<forall>tr. 1000 * t_burst tr \<le> t_rate tr * 60000 \<longrightarrow> prune_harmless tr x)"
proof (induction es arbitrary: g)
  case (Cons e es)
  then show ?case using limiter_events_times[of x hash "fst e" "snd e" g] by auto
qed simp

lemma run_events_sorted: "sorted (map snd es) \<Longrightarrow> sorted (map event_time (run_events hash es g))"
proof (induction es arbitrary: g)
  case (Cons e es)
  have t: "event_time x = snd e" if "x \<in> set (limiter_events hash e g)" for x
    using limiter_events_times[of x hash "fst e" "snd e" g] that by simp
  then have "map event_time (limiter_events hash e g) = replicate (length (limiter_events hash e g)) (snd e)"
    by (intro nth_equalityI) auto
  moreover have "snd e \<le> event_time x" if "x \<in> set (run_events hash es (snd (gw_step hash e g)))" for x
    using run_events_times[OF that] Cons.prems by auto
  ultimately show ?case using Cons by (auto simp: sorted_append sorted_replicate)
qed simp

lemma anonymous_admitted_le:
  assumes "\<not> is_loopback ip"
  shows "anonymous_admitted hash ip g es \<le> gateway_admitted ScopeIp ip g (run_events hash es g)"
proof (induction es arbitrary: g)
  case (Cons e es)
  obtain ev now where e: "e = (ev, now)" by (cases e)
  have "(if anonymous_from ip ev \<and> fst (gw_step hash e g) then 1 else 0) \<le> gateway_admitted ScopeIp ip g (limiter_events hash e g)"
    using assms e by (cases ev) (auto simp: anonymous_from_def client_ip_def evaluateRateLimits_def is_request_def Let_def split: option.splits prod.splits)
  then show ?case using Cons[of "snd (gw_step hash e g)"] e by (simp add: gateway_admitted_append gw_step_events[symmetric])
qed simp

text \<open>
  However a remote peer forges its headers, the gateway admits in a window of a monotone clock at most burst plus rate times length of its
  requests without credentials and project, whatever other traffic there is and whenever idle buckets are swept.
\<close>

theorem anonymous_peer_bounded:
  assumes "\<not> is_loopback ip" "gw_ok cfg g" "1000 * t_burst (cfg ScopeIp) \<le> t_rate (cfg ScopeIp) * 60000"
    and "sorted (map snd es)" "\<forall>e \<in> set es. t0 \<le> snd e \<and> snd e \<le> t1" "t0 \<le> t1"
  shows "of_nat (anonymous_admitted hash ip g es) \<le> t_burst (cfg ScopeIp) + t_rate (cfg ScopeIp) * of_int (t1 - t0) / 1000"
proof -
  have "of_nat (gateway_admitted ScopeIp ip g (run_events hash es g)) \<le> t_burst (cfg ScopeIp) + t_rate (cfg ScopeIp) * of_int (t1 - t0) / 1000"
  proof (rule gateway_window_bound[OF assms(2) run_events_sorted[OF assms(4)] _ assms(6)])
    show "\<forall>e \<in> set (run_events hash es g). prune_harmless (cfg ScopeIp) e \<and> t0 \<le> event_time e \<and> event_time e \<le> t1"
      using run_events_times[of _ hash es g] assms(3,5) by fastforce
  qed
  then show ?thesis using anonymous_admitted_le[OF assms(1), of hash g es] by (meson of_nat_mono order_trans)
qed


section \<open>Samples, and ways around\<close>

definition gw_sample :: "(string \<times> string) list \<Rightarrow> string \<Rightarrow> gw_request" where
  "gw_sample hs p = \<lparr>gq_method = ''GET'', gq_path = p, gq_search = [], gq_headers = hs, gq_peer = Some ''9.9.9.9'', gq_body = None\<rparr>"

definition gw_options :: gateway_options where
  "gw_options = \<lparr>controlPlaneUrl = \<lparr>b_origin = ''http://c'', b_path = ''/''\<rparr>, dataPlaneUrl = \<lparr>b_origin = ''http://d'', b_path = ''/''\<rparr>, has_limiter = True\<rparr>"


lemma anonymous_peer_bounded_witness:
  "of_nat (anonymous_admitted (\<lambda>h. h) ''9.9.9.9'' (new_gw_limiter (\<lambda>_. None))
     [(Arrive (gw_sample [] ''/a''), 0), (Arrive (gw_sample [(''x-forwarded-for'', ''1.1.1.1'')] ''/a''), 5), (Sweep, 10)]) \<le> (201 / 10 :: rat)"
proof -
  have "gw_ok DEFAULT_RATE_LIMITS (new_gw_limiter (\<lambda>_. None))" using new_gw_ok[of "\<lambda>_. None"] default_tiers_ok by simp
  from anonymous_peer_bounded[OF _ this, of "''9.9.9.9''"
      "[(Arrive (gw_sample [] ''/a''), 0), (Arrive (gw_sample [(''x-forwarded-for'', ''1.1.1.1'')] ''/a''), 5), (Sweep, 10)]" 0 10 "\<lambda>h. h"]
  show ?thesis by (simp add: DEFAULT_RATE_LIMITS_def is_loopback_def)
qed

text \<open>A path that begins with two slashes makes the gateway forward the request, with its headers, to a host the client names.\<close>

lemma double_slash_leaves_the_platform:
  "resolveTargetUrl gw_options (gw_sample [(''authorization'', ''Bearer x'')] ''//evil.example/x'') = Authority ''evil.example'' ''/x''"
  by code_simp

text \<open>A peer that sends a project header of its own choice with every request is never limited by its address.\<close>

definition forged :: "nat \<Rightarrow> gw_request" where
  "forged i = gw_sample [(''x-project-id'', nat_str i)] ''/a''"

fun all_admitted :: "(string \<Rightarrow> string) \<Rightarrow> (gw_event \<times> int) list \<Rightarrow> gw_limiter \<Rightarrow> bool" where
  "all_admitted hash [] g = True"
| "all_admitted hash (e # es) g = (case gw_step hash e g of (a, g1) \<Rightarrow> a \<and> all_admitted hash es g1)"

lemma forged_project_escapes_the_limit:
  "all_admitted (\<lambda>h. h) (map (\<lambda>i. (Arrive (forged i), 0)) [0..<30]) (new_gw_limiter (\<lambda>_. None)) \<and>
   \<not> all_admitted (\<lambda>h. h) (map (\<lambda>i. (Arrive (gw_sample [] ''/a''), 0)) [0..<30]) (new_gw_limiter (\<lambda>_. None))"
  by code_simp

end
