(* ===== verification/Dispatch.thy ===== *)
theory Dispatch
  imports ApiKeys
begin

text \<open>
  \<open>runtime/api/dispatch.ts\<close>: the dispatcher of the data plane. The compute provider, the route resolver and the authentication are
  parameters; a request is its URL (\<open>None\<close> when it does not parse), method, headers (lower case names) and body.

  Shown: every response carries a valid request identifier and the call depth; the compute provider is reached only by admitted requests, and
  a chain of calls that hands on the depth it was given is cut at the maximum.
\<close>

section \<open>Data\<close>

record run_request =
  rr_url :: "string option"
  rr_method :: string
  rr_headers :: "(string, string) omap"
  rr_body :: "string option"

record RouteTarget =
  rt_projectId :: string
  rt_functionName :: string
  rt_revision :: string
  rt_artifact :: string
  rt_limits :: jsval

record InvocationRequest =
  inv_requestId :: string
  inv_method :: string
  inv_url :: string
  inv_headers :: "(string, string) omap"
  inv_body :: "string option"

record ExecutionResult =
  ex_statusCode :: nat
  ex_headers :: "(string, string) omap"
  ex_body :: string
  ex_cpuTimeMs :: int
  ex_wallClockMs :: int

record run_error =
  er_name :: string
  er_message :: string

type_synonym compute = "string \<Rightarrow> jsval \<Rightarrow> InvocationRequest \<Rightarrow> run_error + ExecutionResult"

record dispatcher =
  computeProvider :: compute
  resolveRoute :: "string \<Rightarrow> RouteTarget option"
  authenticateCaller :: "(run_request \<Rightarrow> IdentityContext option res) option"
  callDepthMax :: int

datatype run_body = Bytes string | ErrorJson jsval | Empty

record run_response =
  ru_status :: nat
  ru_headers :: "(string, string) omap"
  ru_body :: run_body

definition DEFAULT_CALL_DEPTH_MAX :: int where
  "DEFAULT_CALL_DEPTH_MAX = 8"

section \<open>The dispatcher\<close>

definition resolveRequestId :: "string \<Rightarrow> run_request \<Rightarrow> string" where
  "resolveRequestId ulid rq =
     (case (case oget (rr_headers rq) ''x-request-id'' of Some h \<Rightarrow> Some h | None \<Rightarrow> oget (rr_headers rq) ''request-id'') of
        Some h \<Rightarrow> if h \<noteq> [] \<and> isValidUlid (trim h) then trim h else ulid
      | None \<Rightarrow> ulid)"

definition parseCallDepth :: "(string, string) omap \<Rightarrow> int" where
  "parseCallDepth hs =
     (case oget hs ''x-railfog-call-depth'' of
        None \<Rightarrow> 0
      | Some raw \<Rightarrow>
          if raw = [] then 0
          else (case parseInt (trim raw) 10 of None \<Rightarrow> 0 | Some n \<Rightarrow> if n < 0 then 0 else n))"

definition createErrorResponse :: "error_code \<Rightarrow> string \<Rightarrow> string \<Rightarrow> jsval" where
  "createErrorResponse c msg rid = JObj [(''error'', JObj [(''code'', JStr (code_name c)), (''message'', JStr msg), (''request_id'', JStr rid)])]"

definition buildErrorResponse :: "nat \<Rightarrow> error_code \<Rightarrow> string \<Rightarrow> string \<Rightarrow> int \<Rightarrow> run_response" where
  "buildErrorResponse status c msg rid depth =
     \<lparr>ru_status = status,
      ru_headers = [(''content-type'', ''application/json''), (''x-request-id'', rid), (''request-id'', rid), (''x-railfog-call-depth'', int_str depth)],
      ru_body = ErrorJson (createErrorResponse c msg rid)\<rparr>"

definition isTimeout :: "run_error \<Rightarrow> bool" where
  "isTimeout e = (er_name e = ''TimeoutError'' \<or> str_includes (to_lower (er_message e)) ''timeout'')"

definition invocation_headers :: "string \<Rightarrow> int \<Rightarrow> (string, string) omap \<Rightarrow> (string, string) omap" where
  "invocation_headers rid depth hs =
     oset ''x-railfog-call-depth'' (int_str depth) (oset ''request-id'' rid (oset ''x-request-id'' rid hs))"

definition invocation :: "string \<Rightarrow> int \<Rightarrow> string \<Rightarrow> run_request \<Rightarrow> InvocationRequest" where
  "invocation rid depth url rq =
     \<lparr>inv_requestId = rid, inv_method = rr_method rq, inv_url = url, inv_headers = invocation_headers rid depth (rr_headers rq), inv_body = rr_body rq\<rparr>"

definition run_function :: "compute \<Rightarrow> RouteTarget \<Rightarrow> string \<Rightarrow> int \<Rightarrow> string \<Rightarrow> run_request \<Rightarrow> run_response" where
  "run_function compute target rid depth url rq =
     (case compute (rt_artifact target) (rt_limits target) (invocation rid depth url rq) of
        Inr r \<Rightarrow>
          \<lparr>ru_status = ex_statusCode r,
           ru_headers = oset ''x-railfog-call-depth'' (int_str depth) (oset ''request-id'' rid (oset ''x-request-id'' rid (ex_headers r))),
           ru_body = (if ex_statusCode r \<in> {204, 205, 304} then Empty else Bytes (ex_body r))\<rparr>
      | Inl e \<Rightarrow>
          if isTimeout e then buildErrorResponse 504 TIMEOUT ''Function execution deadline exceeded'' rid depth
          else buildErrorResponse 500 INTERNAL ''Internal function execution error'' rid depth)"

definition wrong_project :: "IdentityContext option \<Rightarrow> RouteTarget \<Rightarrow> bool" where
  "wrong_project i target =
     (case Option.bind i ctx_projectId of None \<Rightarrow> False | Some p \<Rightarrow> p \<noteq> [] \<and> p \<noteq> rt_projectId target)"

definition handleRequest :: "dispatcher \<Rightarrow> string \<Rightarrow> run_request \<Rightarrow> run_response" where
  "handleRequest d ulid rq =
     (let rid = resolveRequestId ulid rq; depth = parseCallDepth (rr_headers rq);
          denied = buildErrorResponse 403 PERMISSION_DENIED in
      if callDepthMax d \<le> depth
      then buildErrorResponse 429 CALL_DEPTH_EXCEEDED (''Call depth limit exceeded (maximum '' @ int_str (callDepthMax d) @ '')'') rid depth
      else case (case authenticateCaller d of
                   None \<Rightarrow> Inr None
                 | Some auth \<Rightarrow>
                     (case auth rq of
                        Inl _ \<Rightarrow> Inl ''Authentication verification failed''
                      | Inr None \<Rightarrow> Inl ''Authentication failed or caller identity not permitted''
                      | Inr (Some i) \<Rightarrow> Inr (Some i))) of
        Inl msg \<Rightarrow> denied msg rid depth
      | Inr i \<Rightarrow>
          (case rr_url rq of
             None \<Rightarrow> buildErrorResponse 400 VALIDATION_FAILED ''Malformed request URL'' rid depth
           | Some url \<Rightarrow>
               (case resolveRoute d url of
                  None \<Rightarrow> buildErrorResponse 404 RESOURCE_NOT_FOUND ''No matching route found for the requested resource'' rid depth
                | Some target \<Rightarrow>
                    if wrong_project i target then denied ''Caller identity is not authorized for target project'' rid depth
                    else run_function (computeProvider d) target rid (depth + 1) url rq)))"

section \<open>Admission\<close>

text \<open>What has to hold before the compute provider is asked.\<close>

definition admits :: "dispatcher \<Rightarrow> run_request \<Rightarrow> RouteTarget \<Rightarrow> bool" where
  "admits d rq target =
     (parseCallDepth (rr_headers rq) < callDepthMax d \<and> Option.bind (rr_url rq) (resolveRoute d) = Some target \<and>
      (case authenticateCaller d of
         None \<Rightarrow> True
       | Some auth \<Rightarrow> (case auth rq of Inr (Some i) \<Rightarrow> \<not> wrong_project (Some i) target | _ \<Rightarrow> False)))"

definition response_ids :: "string \<Rightarrow> run_response \<Rightarrow> bool" where
  "response_ids rid r = (oget (ru_headers r) ''x-request-id'' = Some rid \<and> oget (ru_headers r) ''request-id'' = Some rid \<and>
     oget (ru_headers r) ''x-railfog-call-depth'' \<noteq> None)"

lemma error_ids: "response_ids rid (buildErrorResponse status c msg rid depth)"
  by (simp add: response_ids_def buildErrorResponse_def)

lemma run_ids: "response_ids rid (run_function compute target rid depth url rq)"
  by (auto simp: run_function_def error_ids split: sum.split) (simp_all add: response_ids_def)

lemma resolveRequestId_valid: "isValidUlid ulid \<Longrightarrow> isValidUlid (resolveRequestId ulid rq)"
  by (simp add: resolveRequestId_def split: option.split)

lemma handleRequest_ids: "response_ids (resolveRequestId ulid rq) (handleRequest d ulid rq)"
  by (auto simp: handleRequest_def Let_def error_ids run_ids split: option.split sum.split)

lemma handleRequest_admitted:
  assumes "admits d rq target"
  shows "\<exists>url. rr_url rq = Some url \<and>
    handleRequest d ulid rq = run_function (computeProvider d) target (resolveRequestId ulid rq) (parseCallDepth (rr_headers rq) + 1) url rq"
  using assms by (auto simp: admits_def handleRequest_def Let_def wrong_project_def bind_eq_Some_conv split: option.splits sum.splits)

lemma wrong_project_None [simp]: "\<not> wrong_project None target"
  by (simp add: wrong_project_def)

lemma handleRequest_refused:
  assumes "\<nexists>target. admits d rq target"
  shows "handleRequest (d\<lparr>computeProvider := c\<rparr>) ulid rq = handleRequest d ulid rq \<and> ru_status (handleRequest d ulid rq) \<in> {400, 403, 404, 429}"
  using assms
  by (auto simp: admits_def handleRequest_def Let_def buildErrorResponse_def split: option.splits sum.splits)


text \<open>
  The compute provider is asked exactly for the requests that are below the call depth, have a route, and come from an authenticated caller whose
  project scope, if any, is the project of the route: for every other request the provider makes no difference and the answer is 400, 403, 404 or 429. It gets the
  artifact and limits of the route and the increased depth. Every response carries a valid identifier, the caller's own when that is a ULID.
\<close>

theorem dispatch_admission_exact:
  assumes "isValidUlid ulid" "rid = resolveRequestId ulid rq"
  shows "isValidUlid rid \<and> response_ids rid (handleRequest d ulid rq) \<and>
    ((\<nexists>target. admits d rq target) \<longrightarrow>
       handleRequest (d\<lparr>computeProvider := c\<rparr>) ulid rq = handleRequest d ulid rq \<and> ru_status (handleRequest d ulid rq) \<in> {400, 403, 404, 429}) \<and>
    (\<forall>target. admits d rq target \<longrightarrow> (\<exists>i. inv_requestId i = rid \<and>
       oget (inv_headers i) ''x-railfog-call-depth'' = Some (int_str (parseCallDepth (rr_headers rq) + 1)) \<and>
       ru_status (handleRequest d ulid rq) =
         (case computeProvider d (rt_artifact target) (rt_limits target) i of
            Inr r \<Rightarrow> ex_statusCode r | Inl e \<Rightarrow> if isTimeout e then 504 else 500)))"
proof -
  have "\<exists>i. inv_requestId i = rid \<and> oget (inv_headers i) ''x-railfog-call-depth'' = Some (int_str (parseCallDepth (rr_headers rq) + 1)) \<and>
       ru_status (handleRequest d ulid rq) = (case computeProvider d (rt_artifact target) (rt_limits target) i of
            Inr r \<Rightarrow> ex_statusCode r | Inl e \<Rightarrow> if isTimeout e then 504 else 500)" if a: "admits d rq target" for target
  proof -
    obtain url where "handleRequest d ulid rq = run_function (computeProvider d) target rid (parseCallDepth (rr_headers rq) + 1) url rq"
      using handleRequest_admitted[OF a, of ulid] assms(2) by blast
    then show ?thesis
      by (intro exI[of _ "invocation rid (parseCallDepth (rr_headers rq) + 1) url rq"])
        (auto simp: run_function_def invocation_def invocation_headers_def buildErrorResponse_def split: sum.split)
  qed
  then show ?thesis using handleRequest_refused[of d rq c ulid] handleRequest_ids[of ulid rq d] resolveRequestId_valid[OF assms(1), of rq] assms(2) by blast
qed

section \<open>Chains of calls\<close>

lemma trim_nat_str: "trim (nat_str n) = nat_str n"
proof -
  have "\<not> is_ws c" if "c \<in> set (nat_str n)" for c using nat_str_chars[OF that] by blast
  then have "dropWhile is_ws (nat_str n) = nat_str n" "dropWhile is_ws (rev (nat_str n)) = rev (nat_str n)"
    by (metis dropWhile_eq_self_iff hd_in_set, metis dropWhile_eq_self_iff hd_in_set set_rev)
  then show ?thesis by (simp add: trim_def)
qed

lemma parseCallDepth_int_str: "0 \<le> n \<Longrightarrow> oget hs ''x-railfog-call-depth'' = Some (int_str n) \<Longrightarrow> parseCallDepth hs = n"
  by (simp add: parseCallDepth_def int_str_def trim_nat_str)

lemma parseCallDepth_nonneg: "0 \<le> parseCallDepth hs"
  by (simp add: parseCallDepth_def split: option.split)

text \<open>Each request is admitted and carries the depth that the invocation before it was given.\<close>

fun call_chain :: "dispatcher \<Rightarrow> string \<Rightarrow> run_request list \<Rightarrow> bool" where
  "call_chain d ulid [] = True"
| "call_chain d ulid [rq] = (\<exists>target. admits d rq target)"
| "call_chain d ulid (rq # rq' # rs) =
     ((\<exists>target. admits d rq target) \<and>
      oget (rr_headers rq') ''x-railfog-call-depth'' =
        oget (invocation_headers (resolveRequestId ulid rq) (parseCallDepth (rr_headers rq) + 1) (rr_headers rq)) ''x-railfog-call-depth'' \<and>
      call_chain d ulid (rq' # rs))"

text \<open>
  Recursion ends: in a chain of calls in which every call hands on the depth of the invocation it is made from, at most the maximum less the depth
  of the first request are admitted.
\<close>

theorem call_chain_bounded:
  assumes "call_chain d ulid (rq # rs)"
  shows "int (length (rq # rs)) \<le> callDepthMax d - parseCallDepth (rr_headers rq)"
  using assms
proof (induction rs arbitrary: rq)
  case Nil
  then show ?case by (auto simp: admits_def)
next
  case (Cons rq' rs)
  have "oget (rr_headers rq') ''x-railfog-call-depth'' = Some (int_str (parseCallDepth (rr_headers rq) + 1))"
    using Cons.prems by (simp add: invocation_headers_def)
  then have "parseCallDepth (rr_headers rq') = parseCallDepth (rr_headers rq) + 1"
    by (rule parseCallDepth_int_str[rotated]) (use parseCallDepth_nonneg[of "rr_headers rq"] in linarith)
  moreover have "int (length (rq' # rs)) \<le> callDepthMax d - parseCallDepth (rr_headers rq')" using Cons.IH[of rq'] Cons.prems by simp
  ultimately show ?case by simp
qed

definition demo_dispatcher :: "string option \<Rightarrow> dispatcher" where
  "demo_dispatcher scope = \<lparr>computeProvider = (\<lambda>a l i. Inr \<lparr>ex_statusCode = 200, ex_headers = [], ex_body = a, ex_cpuTimeMs = 1, ex_wallClockMs = 2\<rparr>),
     resolveRoute = (\<lambda>u. if u = ''/a'' then Some \<lparr>rt_projectId = ''p'', rt_functionName = ''f'', rt_revision = ''r'', rt_artifact = ''x'', rt_limits = JNull\<rparr> else None),
     authenticateCaller = Some (\<lambda>_. Inr (Some (anonymous_identity\<lparr>ctx_projectId := scope\<rparr>))), callDepthMax = 2\<rparr>"

definition demo_run :: "string \<Rightarrow> run_request" where
  "demo_run depth = \<lparr>rr_url = Some ''/a'', rr_method = ''GET'', rr_headers = [(''x-railfog-call-depth'', depth)], rr_body = None\<rparr>"

lemma dispatch_admission_exact_witness:
  "ru_status (handleRequest (demo_dispatcher (Some ''p'')) (replicate 26 CHR ''0'') (demo_run ''1'')) = 200 \<and>
   ru_status (handleRequest (demo_dispatcher (Some ''q'')) (replicate 26 CHR ''0'') (demo_run ''1'')) \<in> {400, 403, 404, 429}"
proof -
  have u: "isValidUlid (replicate 26 CHR ''0'')" by code_simp
  have a: "admits (demo_dispatcher (Some ''p'')) (demo_run ''1'') \<lparr>rt_projectId = ''p'', rt_functionName = ''f'', rt_revision = ''r'', rt_artifact = ''x'', rt_limits = JNull\<rparr>"
    by code_simp
  have n: "\<nexists>target. admits (demo_dispatcher (Some ''q'')) (demo_run ''1'') target"
    by (auto simp: admits_def demo_dispatcher_def demo_run_def wrong_project_def)
  show ?thesis using dispatch_admission_exact[OF u refl, of "demo_run ''1''" "demo_dispatcher (Some ''p'')"] a
      dispatch_admission_exact[OF u refl, of "demo_run ''1''" "demo_dispatcher (Some ''q'')"] n
    by (auto simp: demo_dispatcher_def)
qed

lemma call_chain_bounded_witness: "length [demo_run ''0'', demo_run ''1''] \<le> 2"
proof -
  let ?d = "demo_dispatcher None" and ?u = "replicate 26 CHR ''0''"
  let ?t = "\<lparr>rt_projectId = ''p'', rt_functionName = ''f'', rt_revision = ''r'', rt_artifact = ''x'', rt_limits = JNull\<rparr>"
  have a: "admits ?d (demo_run ''0'') ?t" "admits ?d (demo_run ''1'') ?t" by code_simp+
  have h: "oget (rr_headers (demo_run ''1'')) ''x-railfog-call-depth'' =
      oget (invocation_headers (resolveRequestId ?u (demo_run ''0'')) (parseCallDepth (rr_headers (demo_run ''0'')) + 1) (rr_headers (demo_run ''0''))) ''x-railfog-call-depth''"
    by code_simp
  have "call_chain ?d ?u [demo_run ''0'', demo_run ''1'']" using a h unfolding call_chain.simps by blast
  moreover have "callDepthMax ?d - parseCallDepth (rr_headers (demo_run ''0'')) = 2" by code_simp
  ultimately show ?thesis using call_chain_bounded[of ?d ?u "demo_run ''0''" "[demo_run ''1'']"] by simp
qed

end
