(* ===== verification/Shutdown.thy ===== *)
theory Shutdown
  imports Prelude
begin

text \<open>
  \<open>runtime/lifecycle/shutdown-coordinator.ts\<close>: the graceful shutdown. A target is described by how long its \<open>stopAccepting\<close> and its \<open>drain\<close> take until they settle
  (\<open>None\<close>: never), whether the drain succeeds and how many requests it leaves; targets are registered before the shutdown begins. Callbacks are counted; their errors are swallowed.

  Shown: one shutdown is performed however often it is asked for; it ends when every target stops accepting, within the drain timeout after that, and is
  clean exactly when all targets drain in time and are idle. The drain timeout does not cover \<open>stopAccepting\<close>: a target that hangs there blocks the shutdown for ever.
\<close>

section \<open>The sequence\<close>

record drain_target =
  stopAccepting :: "nat option"
  drain :: "nat option"
  drain_fulfilled :: bool
  activeCount :: nat

definition DEFAULT_DRAIN_TIMEOUT_MS :: nat where
  "DEFAULT_DRAIN_TIMEOUT_MS = 15000"

text \<open>\<open>Promise.all\<close>: settles with the last of its promises.\<close>

definition all_settled :: "nat option list \<Rightarrow> nat option" where
  "all_settled ts = (if None \<in> set ts then None else Some (foldr (\<lambda>t m. max (the t) m) ts 0))"

definition drained :: "drain_target \<Rightarrow> bool" where
  "drained t = (drain_fulfilled t \<and> activeCount t = 0)"

text \<open>The time until the promise resolves and its value; \<open>tie\<close> decides the race when the last drain ends as the timer fires.\<close>

definition executeShutdown :: "nat option \<Rightarrow> bool \<Rightarrow> drain_target list \<Rightarrow> (nat \<times> bool) option" where
  "executeShutdown drainTimeoutMs tie ts =
     (if ts = [] then Some (0, True)
      else case all_settled (map stopAccepting ts) of
        None \<Rightarrow> None
      | Some t0 \<Rightarrow>
          let timeout = (case drainTimeoutMs of Some m \<Rightarrow> m | None \<Rightarrow> DEFAULT_DRAIN_TIMEOUT_MS) in
          (case all_settled (map drain ts) of
             Some d \<Rightarrow> if d < timeout \<or> d = timeout \<and> tie then Some (t0 + d, list_all drained ts) else Some (t0 + timeout, False)
           | None \<Rightarrow> Some (t0 + timeout, False)))"

section \<open>The coordinator\<close>

text \<open>\<open>started\<close> holds the targets of the shutdown whose promise is kept; \<open>starts\<close> counts the calls of \<open>onShutdownStart\<close>.\<close>

record coordinator =
  targets :: "drain_target list"
  shuttingDown :: bool
  started :: "drain_target list option"
  signalsListening :: bool
  starts :: nat

definition new_coordinator :: coordinator where
  "new_coordinator = \<lparr>targets = [], shuttingDown = False, started = None, signalsListening = False, starts = 0\<rparr>"

definition register :: "drain_target \<Rightarrow> coordinator \<Rightarrow> coordinator" where
  "register t s = s\<lparr>targets := targets s @ [t]\<rparr>"

definition listenSignals :: "coordinator \<Rightarrow> coordinator" where
  "listenSignals s = (if signalsListening s then s else s\<lparr>signalsListening := True\<rparr>)"

definition shutdown :: "coordinator \<Rightarrow> coordinator" where
  "shutdown s =
     (case started s of
        Some _ \<Rightarrow> s
      | None \<Rightarrow> s\<lparr>shuttingDown := True, starts := starts s + 1, started := Some (targets s)\<rparr>)"

datatype shutdown_event = Register drain_target | Listen | Signal | Shutdown

fun coordinate :: "shutdown_event \<Rightarrow> coordinator \<Rightarrow> coordinator" where
  "coordinate (Register t) s = register t s"
| "coordinate Listen s = listenSignals s"
| "coordinate Signal s = (if signalsListening s then shutdown s else s)"
| "coordinate Shutdown s = shutdown s"

section \<open>When a shutdown ends\<close>

lemma all_settled_None: "all_settled ts = None \<longleftrightarrow> None \<in> set ts"
  by (simp add: all_settled_def)

lemma foldr_max_least: "foldr (\<lambda>t m. max (the t) m) ts 0 \<le> b \<longleftrightarrow> (\<forall>t \<in> set ts. the t \<le> b)" for b :: nat
  by (induction ts) auto

lemma all_settled_le: "all_settled ts = Some m \<Longrightarrow> m \<le> b \<longleftrightarrow> (\<forall>t \<in> set ts. the t \<le> b)"
  by (auto simp: all_settled_def foldr_max_least split: if_splits)

text \<open>The target drains within the timeout (before it when \<open>tie\<close> is lost), cleanly.\<close>

definition clean_within :: "nat \<Rightarrow> bool \<Rightarrow> drain_target \<Rightarrow> bool" where
  "clean_within b tie t = (drained t \<and> (\<exists>d. drain t = Some d \<and> (d < b \<or> d = b \<and> tie)))"

lemma all_in_time:
  assumes "all_settled (map drain ts) = Some m" "ts \<noteq> []"
  shows "m < b \<or> m = b \<and> tie \<longleftrightarrow> (\<forall>t \<in> set ts. \<exists>d. drain t = Some d \<and> (d < b \<or> d = b \<and> tie))"
proof -
  have s: "\<exists>d. drain t = Some d" if "t \<in> set ts" for t
    using assms(1) all_settled_None[of "map drain ts"] that by (metis image_eqI list.set_map not_None_eq option.distinct(1))
  have le: "m \<le> c \<longleftrightarrow> (\<forall>t \<in> set ts. the (drain t) \<le> c)" for c using all_settled_le[OF assms(1)] by simp
  have lt: "m < b \<longleftrightarrow> (\<forall>t \<in> set ts. the (drain t) < b)"
  proof (cases b)
    case 0
    then show ?thesis using assms(2) by (cases ts) auto
  next
    case (Suc c)
    then show ?thesis using le[of c] by (simp add: less_Suc_eq_le)
  qed
  show ?thesis using lt le[of b] s by (cases tie) (fastforce simp: le_less)+
qed

text \<open>
  A shutdown of registered targets ends exactly when all of them stop accepting, and then at most the drain timeout after the last of them; it reports
  success exactly when every target drains in that time, without an error and with no request left.
\<close>

theorem shutdown_ends_within_timeout:
  assumes "ts \<noteq> []" "timeout = (case drainTimeoutMs of Some m \<Rightarrow> m | None \<Rightarrow> DEFAULT_DRAIN_TIMEOUT_MS)"
  shows "(case executeShutdown drainTimeoutMs tie ts of
      None \<Rightarrow> \<exists>t \<in> set ts. stopAccepting t = None
    | Some (m, clean) \<Rightarrow>
        (\<exists>t0. (\<forall>t \<in> set ts. \<exists>d. stopAccepting t = Some d \<and> d \<le> t0) \<and> (\<exists>t \<in> set ts. stopAccepting t = Some t0 \<or> t0 = 0) \<and> m \<le> t0 + timeout) \<and>
        (clean \<longleftrightarrow> (\<forall>t \<in> set ts. clean_within timeout tie t)))"
proof (cases "all_settled (map stopAccepting ts)")
  case None
  moreover from None have "\<exists>t \<in> set ts. stopAccepting t = None" unfolding all_settled_None by (auto intro: bexI[rotated] sym)
  ultimately show ?thesis using assms(1) by (simp add: executeShutdown_def)
next
  case (Some t0)
  have st: "\<exists>d. stopAccepting t = Some d \<and> d \<le> t0" if "t \<in> set ts" for t
  proof -
    have "None \<notin> stopAccepting ` set ts" using Some all_settled_None[of "map stopAccepting ts"] by simp
    then have "stopAccepting t \<noteq> None" using that by (metis image_eqI)
    then show ?thesis using all_settled_le[OF Some, of t0] that by auto
  qed
  have at: "\<exists>t \<in> set ts. stopAccepting t = Some t0 \<or> t0 = 0"
  proof (cases t0)
    case (Suc c)
    have "\<not> t0 \<le> c" using Suc by simp
    then obtain t where "t \<in> set ts" "c < the (stopAccepting t)" using all_settled_le[OF Some, of c] by (auto simp: not_le)
    then show ?thesis using st[of t] Suc by (metis Suc_leI le_antisym option.sel)
  qed (use assms in \<open>cases ts; auto\<close>)
  have ex: "\<exists>u. (\<forall>t \<in> set ts. \<exists>d. stopAccepting t = Some d \<and> d \<le> u) \<and> (\<exists>t \<in> set ts. stopAccepting t = Some u \<or> u = 0) \<and> m \<le> u + timeout"
    if "m \<le> t0 + timeout" for m using st at that by blast
  show ?thesis
  proof (cases "all_settled (map drain ts)")
    case None
    then have "\<exists>t \<in> set ts. drain t = None" unfolding all_settled_None by (auto intro: bexI[rotated] sym)
    then have "\<not> (\<forall>t \<in> set ts. clean_within timeout tie t)" unfolding clean_within_def by (metis option.distinct(1))
    moreover have "executeShutdown drainTimeoutMs tie ts = Some (t0 + timeout, False)" using Some None assms by (simp add: executeShutdown_def Let_def)
    ultimately show ?thesis using ex[of "t0 + timeout"] by simp
  next
    case (Some d)
    have "(\<forall>t \<in> set ts. clean_within timeout tie t) \<longleftrightarrow> list_all drained ts \<and> (d < timeout \<or> d = timeout \<and> tie)"
      using all_in_time[OF Some assms(1), of timeout tie] by (auto simp: clean_within_def list_all_iff)
    then show ?thesis using \<open>all_settled (map stopAccepting ts) = Some t0\<close> Some ex[of "t0 + d"] ex[of "t0 + timeout"] assms
      by (auto simp: executeShutdown_def Let_def)
  qed
qed

text \<open>
  However often and by whatever mixture of calls and signals a shutdown is asked for, one is performed: \<open>onShutdownStart\<close> runs once, the targets of
  the first call are the ones that are shut down, and the coordinator stays in the shutting-down state.
\<close>

theorem shutdown_once:
  assumes "s = fold coordinate es new_coordinator"
  shows "starts s = (if shuttingDown s then 1 else 0) \<and> (shuttingDown s \<longleftrightarrow> started s \<noteq> None) \<and> (started s \<noteq> None \<longrightarrow> started (coordinate e s) = started s) \<and>
    (shuttingDown s \<longrightarrow> shuttingDown (coordinate e s)) \<and> shuttingDown (coordinate Shutdown s)"
proof -
  have inv: "starts s = (if shuttingDown s then 1 else 0) \<and> (shuttingDown s \<longleftrightarrow> started s \<noteq> None)" if "s = fold coordinate es new_coordinator" for s es
    using that
  proof (induction es arbitrary: s rule: rev_induct)
    case (snoc e es)
    show ?case using snoc.IH[OF refl] snoc.prems
      by (cases e) (auto simp: register_def listenSignals_def shutdown_def split: option.split)
  qed (simp add: new_coordinator_def)
  show ?thesis using inv[OF assms] by (cases e) (auto simp: register_def listenSignals_def shutdown_def split: option.split)
qed

definition sample_target :: "nat option \<Rightarrow> nat option \<Rightarrow> drain_target" where
  "sample_target st dr = \<lparr>stopAccepting = st, drain = dr, drain_fulfilled = True, activeCount = 0\<rparr>"

lemma shutdown_ends_within_timeout_witness:
  "executeShutdown (Some 50) True [sample_target (Some 3) (Some 10), sample_target (Some 7) None] = Some (57, False) \<and>
   (\<exists>t \<in> set [sample_target (Some 3) (Some 10), sample_target (Some 7) None]. \<not> clean_within 50 True t)"
proof -
  let ?ts = "[sample_target (Some 3) (Some 10), sample_target (Some 7) None]"
  have e: "executeShutdown (Some 50) True ?ts = Some (57, False)" by code_simp
  show ?thesis using shutdown_ends_within_timeout[of ?ts 50 "Some 50" True] e by simp
qed

lemma shutdown_once_witness:
  "starts (fold coordinate [Listen, Signal, Shutdown, Signal] new_coordinator) = 1"
proof -
  have "shuttingDown (fold coordinate [Listen, Signal, Shutdown, Signal] new_coordinator)" by code_simp
  then show ?thesis using shutdown_once[OF refl, of "[Listen, Signal, Shutdown, Signal]" Shutdown] by simp
qed

text \<open>A target whose \<open>stopAccepting\<close> hangs blocks the shutdown, whatever the timeout.\<close>

lemma hanging_stop_blocks_shutdown:
  assumes "t \<in> set ts" "stopAccepting t = None"
  shows "executeShutdown drainTimeoutMs tie ts = None"
proof -
  have "all_settled (map stopAccepting ts) = None" unfolding all_settled_None using assms by force
  then show ?thesis using assms(1) by (auto simp: executeShutdown_def)
qed

end
