(* ===== verification/Billing.thy ===== *)
theory Billing
  imports Errors
begin

text \<open>
  \<open>packages/metrics/cost-calculator.ts\<close> and \<open>packages/metrics/usage-collector.ts\<close>: the bill of a project and the buffer of usage records. Amounts are exact rationals (the rounding of
  doubles below the millionth of a dollar is not modelled); usage quantities may be NaN or infinite.

  Shown: a bill adds up exactly and is within half a millionth per item of the exact price; no usage record is lost or reordered while the
  receiver of the batches takes them, and the buffer is bounded.
\<close>

section \<open>The bill\<close>

record PricingRates =
  cpuMillisecondCostUsd :: rat
  memoryMbSecondCostUsd :: rat
  kvReadOpCostUsd :: rat
  kvWriteOpCostUsd :: rat
  objectReadOpCostUsd :: rat
  objectWriteOpCostUsd :: rat
  queueSentOpCostUsd :: rat
  queueProcessedOpCostUsd :: rat
  kvStorageGbMonthCostUsd :: rat
  objectStorageGbMonthCostUsd :: rat

record PartialRates =
  p_cpu :: "rat option"
  p_memory :: "rat option"
  p_kvRead :: "rat option"
  p_kvWrite :: "rat option"
  p_objectRead :: "rat option"
  p_objectWrite :: "rat option"
  p_queueSent :: "rat option"
  p_queueProcessed :: "rat option"
  p_kvStorage :: "rat option"
  p_objectStorage :: "rat option"

record ProjectUsageSummary =
  u_orgId :: string
  u_projectId :: string
  periodStart :: rat
  periodEnd :: rat
  invocations :: jsnum
  cpuTimeMs :: jsnum
  memoryMbSeconds :: jsnum
  kvReads :: jsnum
  kvWrites :: jsnum
  objectReads :: jsnum
  objectWrites :: jsnum
  queueSent :: jsnum
  queueProcessed :: jsnum
  storageBytesKv :: jsnum
  storageBytesObjects :: jsnum

record ProjectCostItemized =
  c_orgId :: string
  c_projectId :: string
  c_periodStart :: rat
  c_periodEnd :: rat
  computeCostUsd :: rat
  storageCostUsd :: rat
  operationsCostUsd :: rat
  totalCostUsd :: rat
  cpuCostUsd :: rat
  memoryCostUsd :: rat
  kvOpsCostUsd :: rat
  objectOpsCostUsd :: rat
  queueOpsCostUsd :: rat
  kvStorageCostUsd :: rat
  objectStorageCostUsd :: rat

definition DEFAULT_PRICING_RATES :: PricingRates where
  "DEFAULT_PRICING_RATES =
     \<lparr>cpuMillisecondCostUsd = 10 / 1000000, memoryMbSecondCostUsd = 2 / 1000000, kvReadOpCostUsd = 1 / 1000000,
      kvWriteOpCostUsd = 5 / 1000000, objectReadOpCostUsd = 1 / 1000000, objectWriteOpCostUsd = 5 / 1000000,
      queueSentOpCostUsd = 1 / 1000000, queueProcessedOpCostUsd = 1 / 1000000, kvStorageGbMonthCostUsd = 20 / 100,
      objectStorageGbMonthCostUsd = 2 / 100\<rparr>"

definition MICRO_CENT_FACTOR :: rat where "MICRO_CENT_FACTOR = 1000000"

definition BYTES_PER_GIGABYTE :: rat where "BYTES_PER_GIGABYTE = 1024 * 1024 * 1024"

definition MS_PER_BILLING_MONTH :: rat where "MS_PER_BILLING_MONTH = 30 * 24 * 60 * 60 * 1000"

text \<open>\<open>Math.round\<close>: halves go up.\<close>

definition roundMicroCent :: "rat \<Rightarrow> rat" where
  "roundMicroCent v = (if v \<le> 0 then 0 else of_int \<lfloor>v * MICRO_CENT_FACTOR + 1 / 2\<rfloor> / MICRO_CENT_FACTOR)"

definition sanitizeUsageQuantity :: "jsnum \<Rightarrow> rat" where
  "sanitizeUsageQuantity q = (case q of Fin a \<Rightarrow> if 0 < a then a else 0 | _ \<Rightarrow> 0)"

definition merged_rates :: "PartialRates option \<Rightarrow> PricingRates" where
  "merged_rates p =
     (let D = DEFAULT_PRICING_RATES; rate = (\<lambda>sel dflt. case Option.bind p sel of Some r \<Rightarrow> r | None \<Rightarrow> dflt) in
      \<lparr>cpuMillisecondCostUsd = rate p_cpu (cpuMillisecondCostUsd D), memoryMbSecondCostUsd = rate p_memory (memoryMbSecondCostUsd D),
       kvReadOpCostUsd = rate p_kvRead (kvReadOpCostUsd D), kvWriteOpCostUsd = rate p_kvWrite (kvWriteOpCostUsd D),
       objectReadOpCostUsd = rate p_objectRead (objectReadOpCostUsd D), objectWriteOpCostUsd = rate p_objectWrite (objectWriteOpCostUsd D),
       queueSentOpCostUsd = rate p_queueSent (queueSentOpCostUsd D), queueProcessedOpCostUsd = rate p_queueProcessed (queueProcessedOpCostUsd D),
       kvStorageGbMonthCostUsd = rate p_kvStorage (kvStorageGbMonthCostUsd D),
       objectStorageGbMonthCostUsd = rate p_objectStorage (objectStorageGbMonthCostUsd D)\<rparr>)"

definition month_fraction :: "ProjectUsageSummary \<Rightarrow> rat" where
  "month_fraction u = (let d = periodEnd u - periodStart u in if 0 < d then d / MS_PER_BILLING_MONTH else 0)"

definition calculateProjectCost :: "ProjectUsageSummary \<Rightarrow> PartialRates option \<Rightarrow> ProjectCostItemized" where
  "calculateProjectCost u p =
     (let r = merged_rates p; q = sanitizeUsageQuantity;
          cpu = roundMicroCent (q (cpuTimeMs u) * cpuMillisecondCostUsd r);
          memory = roundMicroCent (q (memoryMbSeconds u) * memoryMbSecondCostUsd r);
          compute = roundMicroCent (cpu + memory);
          kvOps = roundMicroCent (q (kvReads u) * kvReadOpCostUsd r + q (kvWrites u) * kvWriteOpCostUsd r);
          objectOps = roundMicroCent (q (objectReads u) * objectReadOpCostUsd r + q (objectWrites u) * objectWriteOpCostUsd r);
          queueOps = roundMicroCent (q (queueSent u) * queueSentOpCostUsd r + q (queueProcessed u) * queueProcessedOpCostUsd r);
          operations = roundMicroCent (kvOps + objectOps + queueOps);
          kvStore = roundMicroCent (q (storageBytesKv u) / BYTES_PER_GIGABYTE * month_fraction u * kvStorageGbMonthCostUsd r);
          objectStore = roundMicroCent (q (storageBytesObjects u) / BYTES_PER_GIGABYTE * month_fraction u * objectStorageGbMonthCostUsd r);
          storage = roundMicroCent (kvStore + objectStore) in
      \<lparr>c_orgId = u_orgId u, c_projectId = u_projectId u, c_periodStart = periodStart u, c_periodEnd = periodEnd u,
       computeCostUsd = compute, storageCostUsd = storage, operationsCostUsd = operations,
       totalCostUsd = roundMicroCent (compute + operations + storage),
       cpuCostUsd = cpu, memoryCostUsd = memory, kvOpsCostUsd = kvOps, objectOpsCostUsd = objectOps, queueOpsCostUsd = queueOps,
       kvStorageCostUsd = kvStore, objectStorageCostUsd = objectStore\<rparr>)"

section \<open>A bill adds up\<close>

definition micro :: "rat \<Rightarrow> bool" where
  "micro v = (\<exists>n. 0 \<le> n \<and> v = of_int n / MICRO_CENT_FACTOR)"

lemma micro_round: "micro (roundMicroCent v)"
proof (cases "v \<le> 0")
  case True
  then show ?thesis unfolding micro_def by (intro exI[of _ 0]) (simp add: roundMicroCent_def)
next
  case False
  then have "0 \<le> \<lfloor>v * MICRO_CENT_FACTOR + 1 / 2\<rfloor>" by (simp add: MICRO_CENT_FACTOR_def)
  then show ?thesis unfolding micro_def using False
    by (intro exI[of _ "\<lfloor>v * MICRO_CENT_FACTOR + 1 / 2\<rfloor>"]) (simp add: roundMicroCent_def)
qed

lemma micro_add: "micro a \<Longrightarrow> micro b \<Longrightarrow> micro (a + b)"
proof -
  assume "micro a" "micro b"
  then obtain m n where mn: "0 \<le> m" "0 \<le> n" "a = of_int m / MICRO_CENT_FACTOR" "b = of_int n / MICRO_CENT_FACTOR" by (auto simp: micro_def)
  then have "a + b = of_int (m + n) / MICRO_CENT_FACTOR" by (simp add: add_divide_distrib)
  then show "micro (a + b)" unfolding micro_def using mn(1,2) by (metis add_nonneg_nonneg)
qed

lemma round_micro: "micro v \<Longrightarrow> roundMicroCent v = v"
proof -
  assume "micro v"
  then obtain n where n: "0 \<le> n" "v = of_int n / MICRO_CENT_FACTOR" by (auto simp: micro_def)
  have "\<lfloor>v * MICRO_CENT_FACTOR + 1 / 2\<rfloor> = n" using n(2) by (intro floor_unique) (simp_all add: MICRO_CENT_FACTOR_def)
  moreover have "0 \<le> v" using n by (simp add: MICRO_CENT_FACTOR_def)
  ultimately show ?thesis using n(2) by (cases "v = 0") (auto simp: roundMicroCent_def)
qed

lemma round_error:
  assumes "0 \<le> v"
  shows "\<bar>roundMicroCent v - v\<bar> \<le> 1 / 2000000"
proof (cases "v = 0")
  case False
  define n :: rat where "n = of_int \<lfloor>v * MICRO_CENT_FACTOR + 1 / 2\<rfloor>"
  have "n \<le> v * 1000000 + 1 / 2" "v * 1000000 + 1 / 2 < n + 1" unfolding n_def MICRO_CENT_FACTOR_def by linarith+
  moreover have "roundMicroCent v = n / 1000000" using False assms by (simp add: roundMicroCent_def n_def MICRO_CENT_FACTOR_def)
  ultimately show ?thesis by (simp only: abs_le_iff) linarith
qed (simp add: roundMicroCent_def)

text \<open>The exact prices of the seven items.\<close>

definition exact_items :: "ProjectUsageSummary \<Rightarrow> PricingRates \<Rightarrow> rat list" where
  "exact_items u r =
     (let q = sanitizeUsageQuantity in
      [q (cpuTimeMs u) * cpuMillisecondCostUsd r, q (memoryMbSeconds u) * memoryMbSecondCostUsd r,
       q (kvReads u) * kvReadOpCostUsd r + q (kvWrites u) * kvWriteOpCostUsd r,
       q (objectReads u) * objectReadOpCostUsd r + q (objectWrites u) * objectWriteOpCostUsd r,
       q (queueSent u) * queueSentOpCostUsd r + q (queueProcessed u) * queueProcessedOpCostUsd r,
       q (storageBytesKv u) / BYTES_PER_GIGABYTE * month_fraction u * kvStorageGbMonthCostUsd r,
       q (storageBytesObjects u) / BYTES_PER_GIGABYTE * month_fraction u * objectStorageGbMonthCostUsd r])"

definition billed_items :: "ProjectCostItemized \<Rightarrow> rat list" where
  "billed_items c = [cpuCostUsd c, memoryCostUsd c, kvOpsCostUsd c, objectOpsCostUsd c, queueOpsCostUsd c, kvStorageCostUsd c, objectStorageCostUsd c]"

lemma billed_rounded: "billed_items (calculateProjectCost u p) = map roundMicroCent (exact_items u (merged_rates p))"
  by (simp add: billed_items_def calculateProjectCost_def exact_items_def Let_def)

text \<open>
  A bill adds up: compute, operations and storage are the exact sums of their items and the total of all seven, with no drift from the repeated rounding;
  no amount is negative; and with prices that are not negative the total is within seven halves of a millionth of a dollar of the exact price, whatever the usage
  report holds (a quantity that is not a positive finite number counts as zero).
\<close>

theorem bill_adds_up:
  assumes "c = calculateProjectCost u p"
  shows "computeCostUsd c = cpuCostUsd c + memoryCostUsd c \<and>
    operationsCostUsd c = kvOpsCostUsd c + objectOpsCostUsd c + queueOpsCostUsd c \<and>
    storageCostUsd c = kvStorageCostUsd c + objectStorageCostUsd c \<and>
    totalCostUsd c = sum_list (billed_items c) \<and> 0 \<le> totalCostUsd c \<and>
    (list_all (\<lambda>x. 0 \<le> x) (exact_items u (merged_rates p)) \<longrightarrow> \<bar>totalCostUsd c - sum_list (exact_items u (merged_rates p))\<bar> \<le> 7 / 2000000)"
proof -
  note m = micro_round micro_add
  have s: "computeCostUsd c = cpuCostUsd c + memoryCostUsd c" "operationsCostUsd c = kvOpsCostUsd c + objectOpsCostUsd c + queueOpsCostUsd c"
    "storageCostUsd c = kvStorageCostUsd c + objectStorageCostUsd c"
    "totalCostUsd c = computeCostUsd c + operationsCostUsd c + storageCostUsd c"
    by (simp_all add: assms calculateProjectCost_def Let_def round_micro m)
  then have tot: "totalCostUsd c = sum_list (billed_items c)" by (simp add: billed_items_def)
  have pos: "0 \<le> roundMicroCent v" for v using micro_round[of v] by (auto simp: micro_def MICRO_CENT_FACTOR_def)
  have "0 \<le> sum_list (billed_items c)" unfolding assms billed_rounded by (rule sum_list_nonneg) (auto simp: pos)
  moreover have "\<bar>sum_list (map roundMicroCent xs) - sum_list xs\<bar> \<le> of_nat (length xs) / 2000000" if "list_all (\<lambda>x. 0 \<le> x) xs" for xs
    using that
  proof (induction xs)
    case (Cons x xs)
    then have "\<bar>roundMicroCent x - x\<bar> \<le> 1 / 2000000" "\<bar>sum_list (map roundMicroCent xs) - sum_list xs\<bar> \<le> of_nat (length xs) / 2000000"
      using round_error by auto
    moreover have "of_nat (length (x # xs)) / (2000000 :: rat) = 1 / 2000000 + of_nat (length xs) / 2000000" by (simp add: add_divide_distrib)
    ultimately show ?case unfolding list.map sum_list.Cons by (simp only: abs_le_iff) linarith
  qed simp
  from this[of "exact_items u (merged_rates p)"]
  have "list_all (\<lambda>x. 0 \<le> x) (exact_items u (merged_rates p)) \<longrightarrow> \<bar>sum_list (billed_items c) - sum_list (exact_items u (merged_rates p))\<bar> \<le> 7 / 2000000"
    unfolding assms billed_rounded by (simp add: exact_items_def Let_def)
  ultimately show ?thesis using s tot by simp
qed


section \<open>The collector of usage records\<close>

record UsageRecord =
  timestamp :: int
  project :: string
  functionName :: string
  revisionId :: string
  metric :: string
  val :: rat

text \<open>What the receiver of a batch does: it returns, throws, or returns a promise.\<close>

datatype receipt = Taken | Throws exn | Pending nat

record collector =
  maxBufferSize :: nat
  flushBatchSize :: nat
  has_onFlush :: bool
  buffer :: "UsageRecord list"
  droppedCount :: nat
  disposed :: bool
  inFlight :: "nat list"
  handed :: "UsageRecord list list"

definition DEFAULT_MAX_BUFFER_SIZE :: nat where "DEFAULT_MAX_BUFFER_SIZE = 10000"

definition DEFAULT_FLUSH_BATCH_SIZE :: nat where "DEFAULT_FLUSH_BATCH_SIZE = 500"

definition new_collector :: "nat option \<Rightarrow> nat option \<Rightarrow> bool \<Rightarrow> collector" where
  "new_collector mx bs recv =
     \<lparr>maxBufferSize = (case mx of Some n \<Rightarrow> n | None \<Rightarrow> DEFAULT_MAX_BUFFER_SIZE),
      flushBatchSize = (case bs of Some n \<Rightarrow> n | None \<Rightarrow> DEFAULT_FLUSH_BATCH_SIZE), has_onFlush = recv,
      buffer = [], droppedCount = 0, disposed = False, inFlight = [], handed = []\<rparr>"

text \<open>Drain the buffer and hand the batch over; \<open>handed\<close> records what the receiver was given.\<close>

definition drain_buffer :: "collector \<Rightarrow> UsageRecord list \<times> collector" where
  "drain_buffer s = (buffer s, s\<lparr>buffer := []\<rparr>)"

definition hand_over :: "receipt \<Rightarrow> UsageRecord list \<Rightarrow> collector \<Rightarrow> collector" where
  "hand_over r batch s =
     (case r of
        Pending i \<Rightarrow> s\<lparr>handed := handed s @ [batch], inFlight := i # inFlight s\<rparr>
      | _ \<Rightarrow> s\<lparr>handed := handed s @ [batch]\<rparr>)"

definition triggerFlush :: "receipt \<Rightarrow> collector \<Rightarrow> collector" where
  "triggerFlush r s =
     (case drain_buffer s of (batch, s1) \<Rightarrow> if batch \<noteq> [] \<and> has_onFlush s1 then hand_over r batch s1 else s1)"

definition record_usage :: "receipt \<Rightarrow> UsageRecord \<Rightarrow> collector \<Rightarrow> collector" where
  "record_usage r x s =
     (if disposed s then s\<lparr>droppedCount := droppedCount s + 1\<rparr>
      else if maxBufferSize s \<le> length (buffer s) then s\<lparr>droppedCount := droppedCount s + 1\<rparr>
      else let s1 = s\<lparr>buffer := buffer s @ [x]\<rparr> in
           if flushBatchSize s1 \<le> length (buffer s1) then triggerFlush r s1 else s1)"

text \<open>The interval timer.\<close>

definition tick :: "receipt \<Rightarrow> collector \<Rightarrow> collector" where
  "tick r s = (if disposed s \<or> buffer s = [] then s else triggerFlush r s)"

text \<open>Unlike the timer, a caller of \<open>flush\<close> sees the batch, or the receiver's exception; with a pending promise it is the state in which the call waits.\<close>

definition flush :: "receipt \<Rightarrow> collector \<Rightarrow> UsageRecord list res \<times> collector" where
  "flush r s =
     (case drain_buffer s of (batch, s1) \<Rightarrow>
        if batch \<noteq> [] \<and> has_onFlush s1
        then (case r of Throws e \<Rightarrow> Inl e | _ \<Rightarrow> Inr batch, hand_over r batch s1)
        else (Inr batch, s1))"

definition settled :: "nat \<Rightarrow> collector \<Rightarrow> collector" where
  "settled i s = s\<lparr>inFlight := removeAll i (inFlight s)\<rparr>"

definition dispose :: "receipt \<Rightarrow> collector \<Rightarrow> unit res \<times> collector" where
  "dispose r s =
     (if disposed s then (Inr (), s)
      else case flush r (s\<lparr>disposed := True\<rparr>) of (q, s1) \<Rightarrow> (bind_res q (\<lambda>_. Inr ()), s1))"

datatype usage_event = RecordUsage UsageRecord receipt | Tick receipt | Flush receipt | Settled nat | Dispose receipt

fun collect :: "usage_event \<Rightarrow> collector \<Rightarrow> collector" where
  "collect (RecordUsage x r) s = record_usage r x s"
| "collect (Tick r) s = tick r s"
| "collect (Flush r) s = snd (flush r s)"
| "collect (Settled i) s = settled i s"
| "collect (Dispose r) s = snd (dispose r s)"

text \<open>The records that are offered, and those of them that are taken into the buffer.\<close>

definition offered :: "usage_event list \<Rightarrow> nat" where
  "offered es = length (filter (\<lambda>e. case e of RecordUsage _ _ \<Rightarrow> True | _ \<Rightarrow> False) es)"

fun accepted :: "usage_event list \<Rightarrow> collector \<Rightarrow> UsageRecord list" where
  "accepted [] s = []"
| "accepted (e # es) s =
     (case e of RecordUsage x r \<Rightarrow> if disposed s \<or> maxBufferSize s \<le> length (buffer s) then [] else [x] | _ \<Rightarrow> []) @ accepted es (collect e s)"

definition collector_ok :: "collector \<Rightarrow> bool" where
  "collector_ok s = (length (buffer s) \<le> maxBufferSize s \<and> (disposed s \<longrightarrow> buffer s = []) \<and> has_onFlush s)"

lemma hand_over_simps [simp]:
  "buffer (hand_over r b s) = buffer s" "handed (hand_over r b s) = handed s @ [b]" "droppedCount (hand_over r b s) = droppedCount s"
  "disposed (hand_over r b s) = disposed s" "maxBufferSize (hand_over r b s) = maxBufferSize s" "has_onFlush (hand_over r b s) = has_onFlush s"
  by (cases r; simp add: hand_over_def)+

lemma triggerFlush_simps:
  "buffer (triggerFlush r s) = []" "droppedCount (triggerFlush r s) = droppedCount s" "disposed (triggerFlush r s) = disposed s"
  "maxBufferSize (triggerFlush r s) = maxBufferSize s" "has_onFlush (triggerFlush r s) = has_onFlush s"
  "has_onFlush s \<Longrightarrow> concat (handed (triggerFlush r s)) = concat (handed s) @ buffer s"
  by (auto simp: triggerFlush_def drain_buffer_def)

lemma flush_state: "snd (flush r s) = triggerFlush r s"
  by (simp add: flush_def triggerFlush_def drain_buffer_def)

lemma dispose_state: "snd (dispose r s) = (if disposed s then s else triggerFlush r (s\<lparr>disposed := True\<rparr>))"
  by (simp add: dispose_def split_beta flush_state)

lemma collect_step:
  assumes "collector_ok s"
  shows "collector_ok (collect e s) \<and> maxBufferSize (collect e s) = maxBufferSize s \<and>
    concat (handed (collect e s)) @ buffer (collect e s) = concat (handed s) @ buffer s @ accepted [e] s \<and>
    droppedCount (collect e s) + length (accepted [e] s) = droppedCount s + offered [e]"
  using assms
  by (cases e) (auto simp: collector_ok_def record_usage_def tick_def flush_state settled_def dispose_state triggerFlush_simps offered_def Let_def)

text \<open>
  No usage record is lost, duplicated or reordered: over any history of records, timer ticks, flushes and a disposal, what the receiver has been
  handed, followed by the buffer, is exactly the sequence of accepted records; accepted and dropped records together are the offered ones; the buffer stays
  within its bound and is empty after the disposal.
\<close>

theorem usage_records_conserved:
  assumes "s0 = new_collector mx bs True" "s = fold collect es s0"
  shows "concat (handed s) @ buffer s = accepted es s0 \<and> length (accepted es s0) + droppedCount s = offered es \<and>
    length (buffer s) \<le> maxBufferSize s0 \<and> (disposed s \<longrightarrow> concat (handed s) = accepted es s0)"
proof -
  have run: "collector_ok (fold collect es s) \<and> maxBufferSize (fold collect es s) = maxBufferSize s \<and>
      concat (handed (fold collect es s)) @ buffer (fold collect es s) = concat (handed s) @ buffer s @ accepted es s \<and>
      droppedCount (fold collect es s) + length (accepted es s) = droppedCount s + offered es" if "collector_ok s" for s
    using that
  proof (induction es arbitrary: s)
    case (Cons e es)
    note st = collect_step[OF Cons.prems, of e]
    note ih = Cons.IH[of "collect e s"]
    have "accepted (e # es) s = accepted [e] s @ accepted es (collect e s)" by simp
    moreover have "offered (e # es) = offered [e] + offered es" by (simp add: offered_def)
    ultimately show ?case using st ih by (simp del: accepted.simps)
  qed (simp add: offered_def)
  have "collector_ok s0" by (simp add: assms(1) collector_ok_def new_collector_def)
  note r = run[OF this, folded assms(2)]
  have z: "concat (handed s0) = []" "buffer s0 = []" "droppedCount s0 = 0" by (simp_all add: assms(1) new_collector_def)
  have d: "disposed s \<Longrightarrow> buffer s = []" "length (buffer s) \<le> maxBufferSize s" using r by (simp_all add: collector_ok_def)
  then show ?thesis using r z by (auto simp: add.commute)
qed

section \<open>Samples\<close>

definition demo_usage :: ProjectUsageSummary where
  "demo_usage = \<lparr>u_orgId = ''o'', u_projectId = ''p'', periodStart = 0, periodEnd = 2592000000, invocations = Fin 3, cpuTimeMs = Fin (1 / 3), memoryMbSeconds = NaN,
     kvReads = Fin 7, kvWrites = Fin (- 2), objectReads = PosInf, objectWrites = Fin 1, queueSent = Fin 0, queueProcessed = Fin 0,
     storageBytesKv = Fin 1073741824, storageBytesObjects = Fin 5\<rparr>"

lemma bill_adds_up_witness:
  "totalCostUsd (calculateProjectCost demo_usage None) = 200015 / 1000000 \<and>
   totalCostUsd (calculateProjectCost demo_usage None) = sum_list (billed_items (calculateProjectCost demo_usage None))"
proof -
  have "totalCostUsd (calculateProjectCost demo_usage None) = 200015 / 1000000" by code_simp
  then show ?thesis using bill_adds_up[OF refl, of demo_usage None] by simp
qed

definition demo_usage_record :: "rat \<Rightarrow> UsageRecord" where
  "demo_usage_record v = \<lparr>timestamp = 0, project = ''p'', functionName = ''f'', revisionId = ''r'', metric = ''kv.read'', val = v\<rparr>"

definition demo_events :: "usage_event list" where
  "demo_events = [RecordUsage (demo_usage_record 1) Taken, RecordUsage (demo_usage_record 2) (Throws RangeError), RecordUsage (demo_usage_record 3) Taken, Dispose (Pending 1),
     RecordUsage (demo_usage_record 4) Taken]"

lemma usage_records_conserved_witness:
  "concat (handed (fold collect demo_events (new_collector (Some 2) (Some 2) True))) = map demo_usage_record [1, 2, 3] \<and>
   length (accepted demo_events (new_collector (Some 2) (Some 2) True)) + droppedCount (fold collect demo_events (new_collector (Some 2) (Some 2) True)) = 4"
proof -
  have "accepted demo_events (new_collector (Some 2) (Some 2) True) = map demo_usage_record [1, 2, 3]" "offered demo_events = 4"
    "disposed (fold collect demo_events (new_collector (Some 2) (Some 2) True))" by code_simp+
  then show ?thesis using usage_records_conserved[OF refl refl, where es = demo_events and mx = "Some 2" and bs = "Some 2"] by simp
qed

text \<open>Without a receiver the automatic flush throws the records away without counting them as dropped.\<close>

lemma flush_without_receiver_discards:
  "let s = fold collect [RecordUsage (demo_usage_record 1) Taken, RecordUsage (demo_usage_record 2) Taken] (new_collector (Some 10) (Some 2) False) in
   buffer s = [] \<and> handed s = [] \<and> droppedCount s = 0"
  by code_simp

end
