(* ===== verification/RuntimeServer.thy ===== *)
theory RuntimeServer
  imports Router RateLimiter Snapshot UriCodec Dispatch
begin

text \<open>
  \<open>apps/runtime/runtime-server.ts\<close>: the request handler of the data plane, over the route matcher, the gateway's rate limiter and
  routing snapshots. A request is handled in one step: the state is what the closures of \<open>startRuntimeServer\<close> share, and the
  outside (isolate, control plane, file system, URL patterns, token digest) is the record \<open>rt_world\<close>. A throw inside the handler
  keeps the state changes made before it. Numbers in rate-limit headers are whole, as the configured bursts are.

  Shown: what a function is run with and when, that the headers the platform sets cannot be forged, how many requests of one
  identifier pass the depth guard, and that every answer of the server itself carries the identifier of its request.
\<close>

section \<open>Data\<close>

record rt_request =
  rq_method :: string
  rq_origin :: string
  rq_host :: string
  rq_path :: string
  rq_search :: string
  rq_query :: "(string \<times> string) list"
  rq_headers :: "(string, string) omap"
  rq_body :: "string option"

record artifact =
  art_id :: string
  art_code :: string
  art_permissions :: jsval

record run_limits =
  lim_cpuMs :: jsval
  lim_timeoutMs :: jsval
  lim_memoryMb :: jsval

record log_entry =
  lg_time :: int
  lg_level :: string
  lg_project :: string
  lg_function :: string
  lg_revision :: string
  lg_request_id :: string
  lg_duration_ms :: "int option"
  lg_message :: string

datatype rt_body = Data string | Json jsval | LogJson "log_entry list" | NoBody

record rt_response =
  rp_status :: nat
  rp_headers :: "(string, string) omap"
  rp_body :: rt_body

record rt_options =
  o_projectId :: string
  o_orgId :: "string option"
  o_controlPlaneUrl :: "string option"
  o_tempDir :: "string option"

text \<open>\<open>fetch_bytes\<close> is the body of a 200 answer and \<open>None\<close> otherwise; \<open>run_isolate\<close> and \<open>fetch_control\<close> may throw.\<close>

record 'p rt_world =
  compile_pattern :: "string \<Rightarrow> 'p"
  test_pattern :: "'p \<Rightarrow> string \<Rightarrow> bool"
  hash_token :: "string \<Rightarrow> string"
  fetch_bytes :: "string \<Rightarrow> string option"
  fetch_control :: "string \<Rightarrow> string \<Rightarrow> (string, string) omap \<Rightarrow> string option \<Rightarrow> rt_response res"
  run_isolate :: "artifact \<Rightarrow> run_limits \<Rightarrow> InvocationRequest \<Rightarrow> ExecutionResult res"
  real_path :: "string \<Rightarrow> string option"
  read_file :: "string \<Rightarrow> string option"

record 'p rt_state =
  currentSnapshot :: "jsval option"
  projectSnapshots :: "(string, jsval) omap"
  artifactCache :: "(string, string) omap"
  limiter :: gw_limiter
  callDepthChains :: "(string, int) omap"
  logEntries :: "log_entry list"
  patternCache :: "(string, 'p) omap"

definition MAX_ARTIFACT_CACHE_ENTRIES :: nat where "MAX_ARTIFACT_CACHE_ENTRIES = 200"

definition MAX_CALL_DEPTH_CHAINS :: nat where "MAX_CALL_DEPTH_CHAINS = 10000"

definition CALL_DEPTH_MAX :: int where "CALL_DEPTH_MAX = 8"

definition MAX_LOG_ENTRIES :: nat where "MAX_LOG_ENTRIES = 1000"

definition MAX_REQUEST_BODY_BYTES :: int where "MAX_REQUEST_BODY_BYTES = 10 * 1024 * 1024"

definition org_of :: "rt_options \<Rightarrow> string" where
  "org_of ops = (case o_orgId ops of Some x \<Rightarrow> x | None \<Rightarrow> ''default-org'')"

text \<open>An optional string that is used as a condition, and a trimmed one.\<close>

definition nonempty :: "string option \<Rightarrow> string option" where
  "nonempty v = (case v of Some (c # s) \<Rightarrow> Some (c # s) | _ \<Rightarrow> None)"

definition trimmed :: "string option \<Rightarrow> string option" where
  "trimmed v = nonempty (map_option trim v)"

definition either :: "'a option \<Rightarrow> 'a option \<Rightarrow> 'a option" where
  "either a b = (case a of Some x \<Rightarrow> Some x | None \<Rightarrow> b)"

section \<open>Identifiers, depths and responses\<close>

definition resolveRequestId :: "string \<Rightarrow> (string, string) omap \<Rightarrow> string" where
  "resolveRequestId ulid hs =
     (case either (oget hs ''x-request-id'') (oget hs ''request-id'') of
        Some h \<Rightarrow> if h \<noteq> [] \<and> isValidUlid (trim h) then trim h else ulid
      | None \<Rightarrow> ulid)"

definition id_headers :: "string \<Rightarrow> (string, string) omap" where
  "id_headers rid = [(''x-request-id'', rid), (''request-id'', rid)]"

definition createErrorResponse :: "nat \<Rightarrow> string \<Rightarrow> string \<Rightarrow> string \<Rightarrow> rt_response" where
  "createErrorResponse status ecode msg rid =
     \<lparr>rp_status = status, rp_headers = (''content-type'', ''application/json'') # id_headers rid,
      rp_body = Json (JObj [(''error'', JObj [(''code'', JStr ecode), (''message'', JStr msg), (''request_id'', JStr rid)])])\<rparr>"

definition inbound_depth :: "(string, string) omap \<Rightarrow> int" where
  "inbound_depth hs =
     (case parseInt (case oget hs ''x-railfog-call-depth'' of Some h \<Rightarrow> h | None \<Rightarrow> ''0'') 10 of
        None \<Rightarrow> 0
      | Some n \<Rightarrow> if n < 0 then 0 else n)"

definition tracked_depth :: "string \<Rightarrow> int \<Rightarrow> 'p rt_state \<Rightarrow> int" where
  "tracked_depth rid inbound s = (case oget (callDepthChains s) rid of Some d \<Rightarrow> d | None \<Rightarrow> inbound)"

definition trackCallDepth :: "string \<Rightarrow> int \<Rightarrow> 'p rt_state \<Rightarrow> 'p rt_state" where
  "trackCallDepth rid headerDepth s =
     (let chainDepth = tracked_depth rid headerDepth s;
          m = (if MAX_CALL_DEPTH_CHAINS \<le> length (callDepthChains s) then [] else callDepthChains s) in
      s\<lparr>callDepthChains := oset rid (chainDepth + 1) m\<rparr>)"

definition recordLogEntry :: "log_entry \<Rightarrow> 'p rt_state \<Rightarrow> 'p rt_state" where
  "recordLogEntry e s =
     (let l = logEntries s @ [e] in s\<lparr>logEntries := (if MAX_LOG_ENTRIES < length l then tl l else l)\<rparr>)"

section \<open>Artifacts\<close>

definition cacheArtifactCode :: "string \<Rightarrow> string \<Rightarrow> 'p rt_state \<Rightarrow> 'p rt_state" where
  "cacheArtifactCode aid c s =
     (let m = artifactCache s;
          m1 = (if MAX_ARTIFACT_CACHE_ENTRIES \<le> length m then (case m of [] \<Rightarrow> [] | (k, _) # _ \<Rightarrow> odel k m) else m) in
      s\<lparr>artifactCache := oset aid c m1\<rparr>)"

definition strip_slashes :: "string \<Rightarrow> string" where
  "strip_slashes u = rev (dropWhile (\<lambda>c. c = CHR ''/'') (rev u))"

text \<open>The code of an artifact: cached, or fetched from the control plane, or empty.\<close>

definition load_artifact :: "'p rt_world \<Rightarrow> rt_options \<Rightarrow> string \<Rightarrow> 'p rt_state \<Rightarrow> string \<times> 'p rt_state" where
  "load_artifact w ops aid s =
     (case nonempty (oget (artifactCache s) aid) of
        Some c \<Rightarrow> (c, s)
      | None \<Rightarrow>
          (case nonempty (o_controlPlaneUrl ops) of
             None \<Rightarrow> ([], s)
           | Some base \<Rightarrow>
               (case fetch_bytes w (strip_slashes base @ ''/v1/artifacts/'' @ encodeURIComponent aid) of
                  Some c \<Rightarrow> (c, cacheArtifactCode aid c s)
                | None \<Rightarrow> ([], s))))"

text \<open>Fields of validated snapshots.\<close>

definition jtext :: "jsval \<Rightarrow> string" where
  "jtext v = (case v of JStr t \<Rightarrow> t | _ \<Rightarrow> [])"

definition routes_of :: "jsval \<Rightarrow> route list" where
  "routes_of snap =
     (case jget snap ''routes'' of
        JArr rs \<Rightarrow> map (\<lambda>r. \<lparr>pattern = jtext (jget r ''pattern''), rfunction = jtext (jget r ''function'')\<rparr>) rs
      | _ \<Rightarrow> [])"

definition functions_of :: "jsval \<Rightarrow> (string \<times> jsval) list" where
  "functions_of snap = (case jget snap ''functions'' of JObj fs \<Rightarrow> fs | _ \<Rightarrow> [])"

definition artifact_of :: "jsval \<Rightarrow> string \<Rightarrow> artifact" where
  "artifact_of fn acode = \<lparr>art_id = jtext (jget fn ''artifactId''), art_code = acode, art_permissions = jget fn ''permissions''\<rparr>"

definition limits_of :: "jsval \<Rightarrow> run_limits" where
  "limits_of fn =
     (let l = jget fn ''limits'' in \<lparr>lim_cpuMs = jget l ''cpu_ms'', lim_timeoutMs = jget l ''timeout_ms'', lim_memoryMb = jget l ''memory_mb''\<rparr>)"

section \<open>Built-in endpoints\<close>

definition health_version :: "'p rt_state \<Rightarrow> jsval" where
  "health_version s = (case currentSnapshot s of Some v \<Rightarrow> coalesce (jget v ''version'') (JNum (Fin 0)) | None \<Rightarrow> JNum (Fin 0))"

definition healthz :: "string \<Rightarrow> 'p rt_state \<Rightarrow> rt_response" where
  "healthz rid s =
     \<lparr>rp_status = 200, rp_headers = (''content-type'', ''application/json'') # id_headers rid,
      rp_body = Json (JObj [(''status'', JStr ''ok''), (''service'', JStr ''railfog-runtime''),
        (''snapshotVersion'', health_version s), (''request_id'', JStr rid)])\<rparr>"

definition safe_segment :: "string \<Rightarrow> bool" where
  "safe_segment seg =
     (seg \<noteq> [] \<and> seg \<noteq> ''.'' \<and> seg \<noteq> ''..'' \<and> CHR 0x5C \<notin> set seg \<and> CHR 0x00 \<notin> set seg \<and>
      \<not> str_includes (to_lower seg) ''%2e%2e'')"

fun first_readable :: "'p rt_world \<Rightarrow> string \<Rightarrow> string \<Rightarrow> string list \<Rightarrow> string option" where
  "first_readable w base objPath [] = None"
| "first_readable w base objPath (p # ps) =
     (let tenantRoot = base @ p in
      case real_path w (tenantRoot @ ''/'' @ objPath) of
        None \<Rightarrow> first_readable w base objPath ps
      | Some resolved \<Rightarrow>
          if \<not> starts_with resolved tenantRoot then first_readable w base objPath ps
          else (case read_file w resolved of Some d \<Rightarrow> Some d | None \<Rightarrow> first_readable w base objPath ps))"

definition local_object :: "'p rt_world \<Rightarrow> rt_options \<Rightarrow> string \<Rightarrow> rt_request \<Rightarrow> 'p rt_state \<Rightarrow> rt_response res" where
  "local_object w ops rid rq s =
     bind_res (decodeURIComponent (drop (length ''/local-fs/'') (rq_path rq))) (\<lambda>objPath.
       let found =
         (case nonempty (o_tempDir ops) of
            None \<Rightarrow> None
          | Some tempDir \<Rightarrow>
              if \<not> list_all safe_segment (split_on (CHR ''/'') objPath) then None
              else first_readable w (tempDir @ ''/objects/'' @ org_of ops @ ''/'') objPath
                     (filter (\<lambda>p. p \<noteq> [])
                        ((case oget (rq_headers rq) ''x-railfog-project'' of Some h \<Rightarrow> [trim h] | None \<Rightarrow> []) @
                         o_projectId ops # map fst (projectSnapshots s)))) in
       Inr (case found of
              Some d \<Rightarrow> \<lparr>rp_status = 200, rp_headers = (''content-type'', ''application/octet-stream'') # id_headers rid, rp_body = Data d\<rparr>
            | None \<Rightarrow> createErrorResponse 404 ''RESOURCE_NOT_FOUND'' (''Object not found: '' @ objPath) rid))"

text \<open>The project of \<open>/v1/projects/{id}/logs\<close>.\<close>

definition logs_match :: "string \<Rightarrow> string option" where
  "logs_match path =
     (case split_on (CHR ''/'') path of
        [a, b, c, p, d] \<Rightarrow> if a = [] \<and> b = ''v1'' \<and> c = ''projects'' \<and> p \<noteq> [] \<and> d = ''logs'' then Some p else None
      | _ \<Rightarrow> None)"

definition is_logs_path :: "string \<Rightarrow> bool" where
  "is_logs_path path = (logs_match path \<noteq> None \<or> path = ''/logs'' \<or> path = ''/v1/logs'')"

text \<open>\<open>slice(-limit)\<close>; a limit that is no number selects everything.\<close>

definition last_entries :: "string option \<Rightarrow> log_entry list \<Rightarrow> log_entry list" where
  "last_entries lmt l =
     (case parseInt (case lmt of Some t \<Rightarrow> t | None \<Rightarrow> ''50'') 10 of
        None \<Rightarrow> l
      | Some n \<Rightarrow> drop (length l - nat (min 1000 (max 1 n))) l)"

definition logs_endpoint :: "rt_options \<Rightarrow> string \<Rightarrow> rt_request \<Rightarrow> 'p rt_state \<Rightarrow> rt_response res" where
  "logs_endpoint ops rid rq s =
     bind_res (case logs_match (rq_path rq) of
                 Some p \<Rightarrow> decodeURIComponent p
               | None \<Rightarrow> Inr (case oget (rq_query rq) ''project'' of Some p \<Rightarrow> p | None \<Rightarrow> o_projectId ops)) (\<lambda>target.
       let l0 = filter (\<lambda>e. target = [] \<or> lg_project e = target \<or> target = ''all'') (logEntries s);
           l1 = (case nonempty (oget (rq_query rq) ''function'') of Some f \<Rightarrow> filter (\<lambda>e. lg_function e = f) l0 | None \<Rightarrow> l0);
           l2 = (case nonempty (map_option to_lower (oget (rq_query rq) ''level'')) of Some v \<Rightarrow> filter (\<lambda>e. lg_level e = v) l1 | None \<Rightarrow> l1) in
       Inr \<lparr>rp_status = 200, rp_headers = (''content-type'', ''application/json'') # id_headers rid,
            rp_body = LogJson (last_entries (oget (rq_query rq) ''limit'') l2)\<rparr>)"

definition isControlPlanePath :: "string \<Rightarrow> bool" where
  "isControlPlanePath p =
     list_ex (\<lambda>x. p = x \<or> starts_with p (x @ ''/'')) [''/login'', ''/deploy'', ''/rollback'', ''/export'', ''/import'', ''/v1'']"

definition proxy_control :: "'p rt_world \<Rightarrow> rt_options \<Rightarrow> string \<Rightarrow> rt_request \<Rightarrow> rt_response res" where
  "proxy_control w ops rid rq =
     (case nonempty (o_controlPlaneUrl ops) of
        Some base \<Rightarrow>
          fetch_control w (strip_slashes base @ rq_path rq @ rq_search rq) (rq_method rq)
            (oset ''request-id'' rid (oset ''x-request-id'' rid (rq_headers rq))) (rq_body rq)
      | None \<Rightarrow>
          Inr (createErrorResponse 404 ''RESOURCE_NOT_FOUND''
            (''Endpoint '' @ rq_path rq @ '' is a Control Plane route. This instance is running railfog-runtime (Data Plane). Please route requests to railfog-control (Port 8081) or configure RAILFOG_CONTROL_URL.'') rid))"

section \<open>Rate limits\<close>

definition isGatewayForwarded :: "rt_request \<Rightarrow> bool" where
  "isGatewayForwarded rq = (oget (rq_headers rq) ''x-forwarded-by'' = Some ''railfog-gateway'')"

definition clientIp :: "rt_request \<Rightarrow> string" where
  "clientIp rq =
     (case nonempty (oget (rq_headers rq) ''cf-connecting-ip'') of
        Some ip \<Rightarrow> ip
      | None \<Rightarrow>
          (case nonempty (map_option (\<lambda>h. trim (hd (split_on (CHR '','') h))) (oget (rq_headers rq) ''x-forwarded-for'')) of
             Some ip \<Rightarrow> ip
           | None \<Rightarrow> ''127.0.0.1''))"

definition limited_response :: "string \<Rightarrow> string \<Rightarrow> decision \<Rightarrow> rt_response" where
  "limited_response msg rid d =
     (let retry = (case d_retryAfter d of Some n \<Rightarrow> n | None \<Rightarrow> 1) in
      \<lparr>rp_status = 429,
       rp_headers = [(''content-type'', ''application/json''), (''retry-after'', int_str retry),
         (''x-ratelimit-limit'', int_str \<lfloor>d_limit d\<rfloor>), (''x-ratelimit-remaining'', int_str (d_remaining d))] @ id_headers rid,
       rp_body = Json (JObj [(''error'', JObj [(''code'', JStr ''RATE_LIMITED''), (''message'', JStr msg),
         (''request_id'', JStr rid), (''retry_after'', JNum (Fin (of_int retry)))])])\<rparr>)"

definition take_token :: "scope \<Rightarrow> string \<Rightarrow> int \<Rightarrow> string \<Rightarrow> string \<Rightarrow> 'p rt_state \<Rightarrow> rt_response option \<times> 'p rt_state" where
  "take_token sc key now msg rid s =
     (case check (limiter s) sc key now of
        (d, g) \<Rightarrow> (if d_allowed d then None else Some (limited_response msg rid d), s\<lparr>limiter := g\<rparr>))"

definition perimeter :: "'p rt_world \<Rightarrow> int \<Rightarrow> string \<Rightarrow> rt_request \<Rightarrow> 'p rt_state \<Rightarrow> rt_response option \<times> 'p rt_state" where
  "perimeter w now rid rq s =
     (if isGatewayForwarded rq then (None, s)
      else case take_token scope.ScopeIp (clientIp rq) now ''Rate limit exceeded. Please retry later.'' rid s of
        (Some r, s1) \<Rightarrow> (Some r, s1)
      | (None, s1) \<Rightarrow>
          (case nonempty (oget (rq_headers rq) ''authorization'') of
             None \<Rightarrow> (None, s1)
           | Some h \<Rightarrow> take_token scope.ScopeIdentity (hash_token w h) now ''Rate limit exceeded for token. Please retry later.'' rid s1))"

definition project_quota :: "int \<Rightarrow> string \<Rightarrow> rt_request \<Rightarrow> string \<Rightarrow> 'p rt_state \<Rightarrow> rt_response option \<times> 'p rt_state" where
  "project_quota now rid rq project s =
     (if isGatewayForwarded rq then (None, s)
      else take_token scope.ScopeProject project now ''Rate limit exceeded for project. Please retry later.'' rid s)"

section \<open>The project of a request\<close>

definition header_project :: "rt_request \<Rightarrow> string option" where
  "header_project rq = either (trimmed (oget (rq_headers rq) ''x-railfog-project'')) (trimmed (oget (rq_headers rq) ''x-project-id''))"

definition host_header :: "rt_request \<Rightarrow> string" where
  "host_header rq = (case nonempty (oget (rq_headers rq) ''host'') of Some h \<Rightarrow> h | None \<Rightarrow> rq_host rq)"

definition hostname_of :: "rt_request \<Rightarrow> string" where
  "hostname_of rq = to_lower (hd (split_on (CHR '':'') (host_header rq)))"

text \<open>\<open>snap.domains\<close> is not validated: a value without \<open>some\<close>, or an element that is no string, throws.\<close>

fun some_domain :: "string \<Rightarrow> jsval list \<Rightarrow> bool res" where
  "some_domain h [] = Inr False"
| "some_domain h (JStr d # ds) = (if to_lower d = h then Inr True else some_domain h ds)"
| "some_domain h (_ # ds) = Inl (Foreign ''d.toLowerCase is not a function'')"

definition has_domain :: "string \<Rightarrow> jsval \<Rightarrow> bool res" where
  "has_domain h snap =
     (case jget snap ''domains'' of
        JArr ds \<Rightarrow> some_domain h ds
      | v \<Rightarrow> if truthy v then Inl (Foreign ''snap.domains.some is not a function'') else Inr False)"

fun domain_project :: "string \<Rightarrow> (string \<times> jsval) list \<Rightarrow> string option res" where
  "domain_project h [] = Inr None"
| "domain_project h ((p, snap) # ps) = bind_res (has_domain h snap) (\<lambda>b. if b then Inr (Some p) else domain_project h ps)"

definition subdomain_project :: "rt_options \<Rightarrow> string \<Rightarrow> 'p rt_state \<Rightarrow> string option" where
  "subdomain_project ops hostname s =
     (let parts = split_on (CHR ''.'') hostname; sub = to_lower (hd parts) in
      if 3 \<le> length parts \<and> (oget (projectSnapshots s) sub \<noteq> None \<or> currentSnapshot s \<noteq> None \<and> to_lower (o_projectId ops) = sub)
      then Some sub else None)"

definition host_project :: "rt_options \<Rightarrow> rt_request \<Rightarrow> 'p rt_state \<Rightarrow> string option res" where
  "host_project ops rq s =
     (if host_header rq = [] then Inr None
      else bind_res (domain_project (hostname_of rq) (projectSnapshots s)) (\<lambda>p.
        Inr (either (nonempty p) (subdomain_project ops (hostname_of rq) s))))"

definition env_names :: "string list" where
  "env_names = [''staging'', ''production'', ''dev'']"

text \<open>The path below the project, without the environment segment if there is one.\<close>

definition below_project :: "string \<Rightarrow> string \<Rightarrow> string option" where
  "below_project path p =
     (let pre = ''/'' @ p @ ''/'' in
      if starts_with path pre
      then let rest = drop (length pre) path; seg = takeWhile (\<lambda>c. c \<noteq> CHR ''/'') rest in
           if seg \<in> set env_names then Some (if seg = rest then ''/'' else drop (length seg) rest)
           else Some (drop (length p + 1) path)
      else if path = ''/'' @ p then Some ''/'' else None)"

fun path_project :: "string \<Rightarrow> string list \<Rightarrow> (string \<times> string) option" where
  "path_project path [] = None"
| "path_project path (p # ps) = (case below_project path p of Some rest \<Rightarrow> Some (p, rest) | None \<Rightarrow> path_project path ps)"

definition candidates :: "rt_options \<Rightarrow> 'p rt_state \<Rightarrow> string list" where
  "candidates ops s =
     (let ks = map fst (projectSnapshots s) in
      if o_projectId ops = [] then ks else o_projectId ops # filter (\<lambda>k. k \<noteq> o_projectId ops) ks)"

text \<open>The project a request names, if any, and the path to look up.\<close>

definition requested_project :: "rt_options \<Rightarrow> rt_request \<Rightarrow> 'p rt_state \<Rightarrow> (string option \<times> string) res" where
  "requested_project ops rq s =
     bind_res (case header_project rq of Some p \<Rightarrow> Inr (Some p) | None \<Rightarrow> host_project ops rq s) (\<lambda>p.
       Inr (case p of
              Some x \<Rightarrow> (Some x, rq_path rq)
            | None \<Rightarrow> (case path_project (rq_path rq) (candidates ops s) of Some (x, rest) \<Rightarrow> (nonempty (Some x), rest) | None \<Rightarrow> (None, rq_path rq))))"

section \<open>The route of a request\<close>

definition try_snapshot :: "'p rt_world \<Rightarrow> string \<Rightarrow> jsval \<Rightarrow> 'p rt_state \<Rightarrow> route option \<times> 'p rt_state" where
  "try_snapshot w path snap s =
     (case matchRoute (compile_pattern w) (test_pattern w) (patternCache s) (routes_of snap) path of (r, c) \<Rightarrow> (r, s\<lparr>patternCache := c\<rparr>))"

fun any_project :: "'p rt_world \<Rightarrow> string \<Rightarrow> (string \<times> jsval) list \<Rightarrow> 'p rt_state \<Rightarrow> (jsval \<times> route \<times> string) option \<times> 'p rt_state" where
  "any_project w path [] s = (None, s)"
| "any_project w path ((p, snap) # ps) s =
     (case try_snapshot w path snap s of
        (Some r, s1) \<Rightarrow> (Some (snap, r, p), s1)
      | (None, s1) \<Rightarrow> any_project w path ps s1)"

definition own_project :: "'p rt_world \<Rightarrow> string \<Rightarrow> string option \<Rightarrow> 'p rt_state \<Rightarrow> (jsval \<times> route \<times> string) option \<times> 'p rt_state" where
  "own_project w path requested s =
     (case requested of
        None \<Rightarrow> (None, s)
      | Some p \<Rightarrow>
          (case oget (projectSnapshots s) p of
             None \<Rightarrow> (None, s)
           | Some snap \<Rightarrow> (case try_snapshot w path snap s of (Some r, s1) \<Rightarrow> (Some (snap, r, p), s1) | (None, s1) \<Rightarrow> (None, s1))))"

definition default_project :: "'p rt_world \<Rightarrow> rt_options \<Rightarrow> string \<Rightarrow> string option \<Rightarrow> 'p rt_state \<Rightarrow> (jsval \<times> route \<times> string) option \<times> 'p rt_state" where
  "default_project w ops path requested s =
     (case currentSnapshot s of
        None \<Rightarrow> (None, s)
      | Some snap \<Rightarrow>
          if routes_of snap = [] then (None, s)
          else (case try_snapshot w path snap s of
                  (Some r, s1) \<Rightarrow> (Some (snap, r, case requested of Some p \<Rightarrow> p | None \<Rightarrow> o_projectId ops), s1)
                | (None, s1) \<Rightarrow> (None, s1)))"

definition find_route :: "'p rt_world \<Rightarrow> rt_options \<Rightarrow> string \<Rightarrow> string option \<Rightarrow> 'p rt_state \<Rightarrow> (jsval \<times> route \<times> string) option \<times> 'p rt_state" where
  "find_route w ops path requested s =
     (case own_project w path requested s of
        (Some x, s1) \<Rightarrow> (Some x, s1)
      | (None, s1) \<Rightarrow>
          (case default_project w ops path requested s1 of
             (Some x, s2) \<Rightarrow> (Some x, s2)
           | (None, s2) \<Rightarrow> any_project w path (projectSnapshots s2) s2))"

section \<open>Running a function\<close>

definition bearer_missing :: "jsval \<Rightarrow> rt_request \<Rightarrow> bool" where
  "bearer_missing fn rq =
     (jget fn ''auth'' = JStr ''bearer'' \<and>
      (case oget (rq_headers rq) ''authorization'' of None \<Rightarrow> True | Some h \<Rightarrow> \<not> starts_with (to_lower h) ''bearer ''))"

definition unauthorized :: "string \<Rightarrow> rt_response" where
  "unauthorized rid =
     \<lparr>rp_status = 401,
      rp_headers = [(''content-type'', ''application/json''), (''www-authenticate'', ''Bearer realm=\"RailFog\"'')] @ id_headers rid,
      rp_body = Json (JObj [(''error'', JObj [(''code'', JStr ''PERMISSION_DENIED''),
        (''message'', JStr ''Unauthorized: Missing or invalid Bearer authentication token''), (''request_id'', JStr rid)])])\<rparr>"

definition set_headers :: "(string \<times> string) list \<Rightarrow> (string, string) omap \<Rightarrow> (string, string) omap" where
  "set_headers kvs hs = fold (\<lambda>(k, v). oset k v) kvs hs"

definition invocation_headers :: "rt_options \<Rightarrow> string \<Rightarrow> int \<Rightarrow> string \<Rightarrow> string \<Rightarrow> jsval \<Rightarrow> (string, string) omap \<Rightarrow> (string, string) omap" where
  "invocation_headers ops rid depth project fname fn hs =
     set_headers [(''x-request-id'', rid), (''request-id'', rid), (''x-railfog-project'', project), (''x-railfog-function'', fname),
       (''x-railfog-revision'', jtext (jget fn ''revisionId'')), (''x-railfog-org'', org_of ops), (''x-railfog-trigger'', ''http''),
       (''x-railfog-call-depth'', int_str (depth + 1))] hs"

definition invocation :: "rt_options \<Rightarrow> string \<Rightarrow> int \<Rightarrow> string \<Rightarrow> string \<Rightarrow> jsval \<Rightarrow> string \<Rightarrow> rt_request \<Rightarrow> InvocationRequest" where
  "invocation ops rid depth project fname fn path rq =
     \<lparr>inv_requestId = rid, inv_method = rq_method rq, inv_url = rq_origin rq @ path @ rq_search rq,
      inv_headers = invocation_headers ops rid depth project fname fn (rq_headers rq), inv_body = rq_body rq\<rparr>"

definition too_large :: "rt_request \<Rightarrow> bool" where
  "too_large rq =
     ((case nonempty (oget (rq_headers rq) ''content-length'') of
         None \<Rightarrow> False
       | Some h \<Rightarrow> (case parseInt h 10 of None \<Rightarrow> False | Some n \<Rightarrow> MAX_REQUEST_BODY_BYTES < n)) \<or>
      (case rq_body rq of None \<Rightarrow> False | Some b \<Rightarrow> MAX_REQUEST_BODY_BYTES < int (length b)))"

definition payload_too_large :: "string \<Rightarrow> rt_response" where
  "payload_too_large rid =
     createErrorResponse 413 ''PAYLOAD_TOO_LARGE'' (''Request body exceeds maximum allowed size of '' @ int_str MAX_REQUEST_BODY_BYTES @ '' bytes'') rid"

definition level_of :: "nat \<Rightarrow> string" where
  "level_of status = (if 500 \<le> status then ''error'' else if 400 \<le> status then ''warn'' else ''info'')"

definition answer_of :: "string \<Rightarrow> ExecutionResult \<Rightarrow> rt_response" where
  "answer_of rid r =
     \<lparr>rp_status = ex_statusCode r, rp_headers = set_headers (id_headers rid) (ex_headers r),
      rp_body = (if ex_statusCode r \<in> {204, 205, 304} then NoBody else Data (ex_body r))\<rparr>"

definition run_function :: "'p rt_world \<Rightarrow> rt_options \<Rightarrow> int \<Rightarrow> string \<Rightarrow> int \<Rightarrow> string \<Rightarrow> string \<Rightarrow> jsval \<Rightarrow> string \<Rightarrow> rt_request \<Rightarrow> 'p rt_state \<Rightarrow>
    rt_response res \<times> 'p rt_state" where
  "run_function w ops now rid depth project fname fn path rq s =
     (case load_artifact w ops (jtext (jget fn ''artifactId'')) s of
        (acode, s1) \<Rightarrow>
          if too_large rq then (Inr (payload_too_large rid), s1)
          else (case run_isolate w (artifact_of fn acode) (limits_of fn) (invocation ops rid depth project fname fn path rq) of
                  Inl e \<Rightarrow> (Inl e, s1)
                | Inr r \<Rightarrow>
                    (Inr (answer_of rid r),
                     recordLogEntry \<lparr>lg_time = now, lg_level = level_of (ex_statusCode r), lg_project = project, lg_function = fname,
                       lg_revision = jtext (jget fn ''revisionId''), lg_request_id = rid, lg_duration_ms = Some (ex_wallClockMs r),
                       lg_message = rq_method rq @ '' '' @ path @ '' -> '' @ nat_str (ex_statusCode r) @ '' ('' @ int_str (ex_wallClockMs r) @ ''ms)''\<rparr> s1)))"

definition function_request :: "'p rt_world \<Rightarrow> rt_options \<Rightarrow> int \<Rightarrow> string \<Rightarrow> int \<Rightarrow> rt_request \<Rightarrow> 'p rt_state \<Rightarrow> rt_response res \<times> 'p rt_state" where
  "function_request w ops now rid depth rq s =
     (case perimeter w now rid rq s of
        (Some r, s1) \<Rightarrow> (Inr r, s1)
      | (None, s1) \<Rightarrow>
          (case requested_project ops rq s1 of
             Inl e \<Rightarrow> (Inl e, s1)
           | Inr (requested, path) \<Rightarrow>
               (case find_route w ops path requested s1 of
                  (None, s2) \<Rightarrow> (Inr (createErrorResponse 404 ''RESOURCE_NOT_FOUND'' (''No route matching path: '' @ rq_path rq) rid), s2)
                | (Some (snap, r, project), s2) \<Rightarrow>
                    (case project_quota now rid rq project s2 of
                       (Some q, s3) \<Rightarrow> (Inr q, s3)
                     | (None, s3) \<Rightarrow>
                         (case oget (functions_of snap) (rfunction r) of
                            None \<Rightarrow> (Inr (createErrorResponse 404 ''RESOURCE_NOT_FOUND'' (''Function not found: '' @ rfunction r) rid), s3)
                          | Some fn \<Rightarrow>
                              if bearer_missing fn rq then (Inr (unauthorized rid), s3)
                              else run_function w ops now rid depth project (rfunction r) fn path rq s3)))))"

definition serve :: "'p rt_world \<Rightarrow> rt_options \<Rightarrow> int \<Rightarrow> string \<Rightarrow> int \<Rightarrow> rt_request \<Rightarrow> 'p rt_state \<Rightarrow> rt_response res \<times> 'p rt_state" where
  "serve w ops now rid depth rq s =
     (if rq_path rq = ''/healthz'' then (Inr (healthz rid s), s)
      else if starts_with (rq_path rq) ''/local-fs/'' then (local_object w ops rid rq s, s)
      else if is_logs_path (rq_path rq) then (logs_endpoint ops rid rq s, s)
      else if isControlPlanePath (rq_path rq) then (proxy_control w ops rid rq, s)
      else function_request w ops now rid depth rq s)"

definition handler :: "'p rt_world \<Rightarrow> rt_options \<Rightarrow> string \<Rightarrow> int \<Rightarrow> rt_request \<Rightarrow> 'p rt_state \<Rightarrow> rt_response \<times> 'p rt_state" where
  "handler w ops ulid now rq s =
     (let rid = resolveRequestId ulid (rq_headers rq); inbound = inbound_depth (rq_headers rq);
          depth = tracked_depth rid inbound s in
      if CALL_DEPTH_MAX \<le> depth
      then (createErrorResponse 429 ''CALL_DEPTH_EXCEEDED'' (''Call depth limit exceeded (maximum '' @ int_str CALL_DEPTH_MAX @ '')'') rid, s)
      else case serve w ops now rid depth rq (trackCallDepth rid inbound s) of
        (Inr r, s1) \<Rightarrow> (r, s1)
      | (Inl e, s1) \<Rightarrow>
          (createErrorResponse 500 ''INTERNAL'' (exn_message e) rid,
           recordLogEntry \<lparr>lg_time = now, lg_level = ''error'', lg_project = o_projectId ops, lg_function = ''runtime'', lg_revision = ''system'',
             lg_request_id = rid, lg_duration_ms = None, lg_message = ''INTERNAL: '' @ exn_message e\<rparr> s1))"


section \<open>What a function is run with\<close>

lemma isolate_irrelevant [simp]:
  "load_artifact (w\<lparr>run_isolate := f\<rparr>) = load_artifact w" "perimeter (w\<lparr>run_isolate := f\<rparr>) = perimeter w"
  "try_snapshot (w\<lparr>run_isolate := f\<rparr>) = try_snapshot w" "proxy_control (w\<lparr>run_isolate := f\<rparr>) = proxy_control w"
  by (intro ext; simp add: load_artifact_def perimeter_def try_snapshot_def proxy_control_def cong: option.case_cong)+

lemma isolate_irrelevant_loops [simp]:
  "any_project (w\<lparr>run_isolate := f\<rparr>) path ps s = any_project w path ps s"
  "first_readable (w\<lparr>run_isolate := f\<rparr>) base obj qs = first_readable w base obj qs"
  by (induction ps arbitrary: s) (auto simp: split_beta split: option.split, induction qs, auto simp: Let_def split: option.split)

lemma isolate_irrelevant_rest [simp]:
  "own_project (w\<lparr>run_isolate := f\<rparr>) = own_project w" "default_project (w\<lparr>run_isolate := f\<rparr>) = default_project w"
  "local_object (w\<lparr>run_isolate := f\<rparr>) = local_object w"
  unfolding own_project_def default_project_def local_object_def isolate_irrelevant isolate_irrelevant_loops by (rule refl)+

lemma isolate_irrelevant_route [simp]: "find_route (w\<lparr>run_isolate := f\<rparr>) = find_route w"
  unfolding find_route_def isolate_irrelevant_rest isolate_irrelevant_loops by (rule refl)

text \<open>Only the limiter, the pattern cache and the artifact cache change before a function runs.\<close>

definition same_snapshots :: "'p rt_state \<Rightarrow> 'p rt_state \<Rightarrow> bool" where
  "same_snapshots s t =
     (projectSnapshots t = projectSnapshots s \<and> currentSnapshot t = currentSnapshot s \<and> artifactCache t = artifactCache s \<and>
      logEntries t = logEntries s \<and> callDepthChains t = callDepthChains s)"

lemma same_snapshots_trans: "same_snapshots s t \<Longrightarrow> same_snapshots t u \<Longrightarrow> same_snapshots s u"
  by (simp add: same_snapshots_def)

lemma take_token_same: "take_token sc key now msg rid s = (r, t) \<Longrightarrow> same_snapshots s t \<and> patternCache t = patternCache s"
  by (auto simp: take_token_def same_snapshots_def split: prod.splits)

lemma perimeter_same: "perimeter w now rid rq s = (r, t) \<Longrightarrow> same_snapshots s t \<and> patternCache t = patternCache s"
  by (auto simp: perimeter_def same_snapshots_def split: if_splits prod.splits option.splits dest!: take_token_same)

lemma project_quota_same: "project_quota now rid rq p s = (r, t) \<Longrightarrow> same_snapshots s t \<and> patternCache t = patternCache s"
  by (auto simp: project_quota_def same_snapshots_def split: if_splits dest!: take_token_same)

lemma requested_project_same: "same_snapshots s t \<Longrightarrow> requested_project ops rq t = requested_project ops rq s"
proof -
  assume a: "same_snapshots s t"
  then have "subdomain_project ops h t = subdomain_project ops h s" for h by (simp add: same_snapshots_def subdomain_project_def)
  then have h: "host_project ops rq t = host_project ops rq s" using a by (simp add: same_snapshots_def host_project_def)
  have c: "candidates ops t = candidates ops s" using a by (simp add: same_snapshots_def candidates_def)
  show ?thesis unfolding requested_project_def h c by (rule refl)
qed

definition matched :: "'p rt_world \<Rightarrow> string \<Rightarrow> jsval \<Rightarrow> route option \<Rightarrow> bool" where
  "matched w path snap r = best_route (matching (compile_pattern w) (test_pattern w) path) (routes_of snap) r"

lemma try_snapshot_matched:
  assumes "cache_ok (compile_pattern w) (patternCache s)" "try_snapshot w path snap s = (r, t)"
  shows "matched w path snap r \<and> same_snapshots s t \<and> limiter t = limiter s \<and> cache_ok (compile_pattern w) (patternCache t)"
  using assms(2) match_loop_best[OF assms(1), of "test_pattern w" path "[]" None "-1" "routes_of snap"]
  by (auto simp: try_snapshot_def matchRoute_def matched_def best_route_def same_snapshots_def split: prod.splits)

text \<open>What the three stages of the search have in common.\<close>

definition stage_ok :: "'p rt_world \<Rightarrow> string \<Rightarrow> 'p rt_state \<Rightarrow> (jsval \<times> route \<times> string) option \<Rightarrow> 'p rt_state \<Rightarrow> bool" where
  "stage_ok w path s x t =
     (same_snapshots s t \<and> limiter t = limiter s \<and> cache_ok (compile_pattern w) (patternCache t) \<and>
      (case x of None \<Rightarrow> True | Some (snap, r, p) \<Rightarrow> matched w path snap (Some r)))"

lemma any_project_ok:
  assumes "cache_ok (compile_pattern w) (patternCache s)" "any_project w path ps s = (x, t)"
  shows "stage_ok w path s x t \<and>
    (case x of None \<Rightarrow> list_all (\<lambda>e. matched w path (snd e) None) ps | Some (snap, r, p) \<Rightarrow> (p, snap) \<in> set ps)"
  using assms
proof (induction ps arbitrary: s)
  case (Cons e ps)
  obtain p snap where e: "e = (p, snap)" by (cases e)
  obtain r s1 where ts: "try_snapshot w path snap s = (r, s1)" by fastforce
  note m = try_snapshot_matched[OF Cons.prems(1) ts]
  show ?case
  proof (cases r)
    case None
    then have "any_project w path ps s1 = (x, t)" using Cons.prems(2) e ts by simp
    then have "stage_ok w path s1 x t \<and> (case x of None \<Rightarrow> list_all (\<lambda>e. matched w path (snd e) None) ps | Some (snap, r, p) \<Rightarrow> (p, snap) \<in> set ps)"
      using Cons.IH m by blast
    then show ?thesis using m None e by (auto simp: stage_ok_def same_snapshots_def split: option.splits)
  next
    case (Some r')
    then show ?thesis using Cons.prems(2) e ts m by (auto simp: stage_ok_def)
  qed
qed (auto simp: stage_ok_def same_snapshots_def)

lemma own_project_ok:
  assumes "cache_ok (compile_pattern w) (patternCache s)" "own_project w path requested s = (x, t)"
  shows "stage_ok w path s x t \<and>
    (case x of None \<Rightarrow> (\<forall>p snap. requested = Some p \<and> oget (projectSnapshots s) p = Some snap \<longrightarrow> matched w path snap None)
     | Some (snap, r, p) \<Rightarrow> requested = Some p \<and> oget (projectSnapshots s) p = Some snap)"
proof (cases "Option.bind requested (oget (projectSnapshots s))")
  case None
  then have "x = None \<and> t = s" "\<And>p. requested = Some p \<Longrightarrow> oget (projectSnapshots s) p = None"
    using assms(2) by (auto simp: own_project_def split: option.splits)
  then show ?thesis using assms(1) by (auto simp: stage_ok_def same_snapshots_def)
next
  case (Some snap)
  then obtain p where p: "requested = Some p" "oget (projectSnapshots s) p = Some snap" by (auto simp: bind_eq_Some_conv)
  obtain r s1 where ts: "try_snapshot w path snap s = (r, s1)" by fastforce
  then show ?thesis using p assms(2) try_snapshot_matched[OF assms(1) ts]
    by (cases r) (auto simp: own_project_def stage_ok_def)
qed

lemma default_project_ok:
  assumes "cache_ok (compile_pattern w) (patternCache s)" "default_project w ops path requested s = (x, t)"
  shows "stage_ok w path s x t \<and>
    (case x of None \<Rightarrow> (\<forall>snap. currentSnapshot s = Some snap \<longrightarrow> matched w path snap None)
     | Some (snap, r, p) \<Rightarrow> currentSnapshot s = Some snap \<and> p = (case requested of Some q \<Rightarrow> q | None \<Rightarrow> o_projectId ops))"
proof (cases "currentSnapshot s")
  case None
  then show ?thesis using assms by (auto simp: default_project_def stage_ok_def same_snapshots_def)
next
  case (Some snap)
  obtain r s1 where ts: "try_snapshot w path snap s = (r, s1)" by fastforce
  show ?thesis
  proof (cases "routes_of snap = []")
    case True
    then show ?thesis using assms Some by (auto simp: default_project_def stage_ok_def same_snapshots_def matched_def best_route_def)
  next
    case False
    then show ?thesis using assms(2) Some ts try_snapshot_matched[OF assms(1) ts]
      by (cases r) (auto simp: default_project_def stage_ok_def)
  qed
qed

text \<open>The snapshot a project's request may be served from.\<close>

definition served_by :: "rt_options \<Rightarrow> string option \<Rightarrow> 'p rt_state \<Rightarrow> string \<Rightarrow> jsval \<Rightarrow> bool" where
  "served_by ops requested s project snap =
     (oget (projectSnapshots s) project = Some snap \<or>
      currentSnapshot s = Some snap \<and> project = (case requested of Some q \<Rightarrow> q | None \<Rightarrow> o_projectId ops))"

definition own_snapshot_first :: "'p rt_world \<Rightarrow> string \<Rightarrow> string option \<Rightarrow> 'p rt_state \<Rightarrow> string \<Rightarrow> jsval \<Rightarrow> bool" where
  "own_snapshot_first w path requested s project snap =
     (\<forall>p own. requested = Some p \<and> oget (projectSnapshots s) p = Some own \<and> \<not> matched w path own None \<longrightarrow> project = p \<and> snap = own)"

lemma find_route_ok:
  assumes "cache_ok (compile_pattern w) (patternCache s)" "owf (projectSnapshots s)" "find_route w ops path requested s = (x, t)"
  shows "stage_ok w path s x t \<and>
    (case x of
       None \<Rightarrow> (\<forall>p snap. served_by ops requested s p snap \<longrightarrow> matched w path snap None)
     | Some (snap, r, project) \<Rightarrow> served_by ops requested s project snap \<and> own_snapshot_first w path requested s project snap)"
proof -
  obtain x1 s1 where o: "own_project w path requested s = (x1, s1)" by fastforce
  note o1 = own_project_ok[OF assms(1) o]
  show ?thesis
  proof (cases x1)
    case (Some y)
    then have "x = x1" "t = s1" using assms(3) o by (auto simp: find_route_def)
    then show ?thesis using o1 Some by (auto simp: served_by_def own_snapshot_first_def split: prod.splits)
  next
    case None
    have c1: "cache_ok (compile_pattern w) (patternCache s1)" and e1: "projectSnapshots s1 = projectSnapshots s" "currentSnapshot s1 = currentSnapshot s"
      using o1 by (auto simp: stage_ok_def same_snapshots_def)
    have f: "own_snapshot_first w path requested s p sn" for p sn using o1 None by (auto simp: own_snapshot_first_def)
    obtain x2 s2 where d: "default_project w ops path requested s1 = (x2, s2)" by fastforce
    note d1 = default_project_ok[OF c1 d]
    show ?thesis
    proof (cases x2)
      case (Some y)
      then have "x = x2" "t = s2" using assms(3) o d \<open>x1 = None\<close> by (auto simp: find_route_def)
      moreover have "stage_ok w path s x2 s2" using o1 d1 by (auto simp: stage_ok_def same_snapshots_def)
      ultimately show ?thesis using Some d1 e1 f by (auto simp: served_by_def)
    next
      case None
      have "cache_ok (compile_pattern w) (patternCache s2)" "projectSnapshots s2 = projectSnapshots s" using d1 e1 by (auto simp: stage_ok_def same_snapshots_def)
      moreover from this have a: "any_project w path (projectSnapshots s) s2 = (x, t)" using assms(3) o d \<open>x1 = None\<close> None by (auto simp: find_route_def)
      ultimately have a1: "stage_ok w path s2 x t \<and>
          (case x of None \<Rightarrow> list_all (\<lambda>e. matched w path (snd e) None) (projectSnapshots s) | Some (snap, r, p) \<Rightarrow> (p, snap) \<in> set (projectSnapshots s))"
        using any_project_ok by blast
      then have st: "stage_ok w path s x t" using o1 d1 by (auto simp: stage_ok_def same_snapshots_def split: option.splits)
      show ?thesis
      proof (cases x)
        case None
        then show ?thesis using a1 d1 st e1 \<open>x2 = None\<close> by (auto simp: served_by_def list_all_iff dest!: map_of_SomeD)
      next
        case (Some y)
        then show ?thesis using a1 st f assms(2) by (auto simp: served_by_def owf_def split: prod.splits)
      qed
    qed
  qed
qed

lemma load_artifact_source:
  assumes "load_artifact w ops aid s = (c, t)"
  shows "c = [] \<or> oget (artifactCache s) aid = Some c \<or> (\<exists>u. fetch_bytes w u = Some c \<and> suffix (encodeURIComponent aid) u)"
  using assms by (auto simp: load_artifact_def nonempty_def suffix_def split: option.splits list.splits)

text \<open>The headers a function sees: those the platform owns, then the client's.\<close>

definition function_headers :: "rt_options \<Rightarrow> string \<Rightarrow> int \<Rightarrow> string \<Rightarrow> string \<Rightarrow> jsval \<Rightarrow> rt_request \<Rightarrow> string \<Rightarrow> string option" where
  "function_headers ops rid depth project fname fn rq k =
     (if k \<in> {''x-request-id'', ''request-id''} then Some rid
      else if k = ''x-railfog-project'' then Some project
      else if k = ''x-railfog-function'' then Some fname
      else if k = ''x-railfog-revision'' then Some (jtext (jget fn ''revisionId''))
      else if k = ''x-railfog-org'' then Some (org_of ops)
      else if k = ''x-railfog-trigger'' then Some ''http''
      else if k = ''x-railfog-call-depth'' then Some (int_str (depth + 1))
      else oget (rq_headers rq) k)"

lemma invocation_headers_get:
  "oget (inv_headers (invocation ops rid depth project fname fn path rq)) k = function_headers ops rid depth project fname fn rq k"
  by (simp add: invocation_def invocation_headers_def set_headers_def function_headers_def)

text \<open>The answer to a request for a function, as a function of what the isolate does.\<close>

definition isolate_answer :: "string \<Rightarrow> ExecutionResult res \<Rightarrow> rt_response" where
  "isolate_answer rid q = (case q of Inr r \<Rightarrow> answer_of rid r | Inl e \<Rightarrow> createErrorResponse 500 ''INTERNAL'' (exn_message e) rid)"

definition answered :: "string \<Rightarrow> rt_response res \<Rightarrow> rt_response" where
  "answered rid q = (case q of Inr r \<Rightarrow> r | Inl e \<Rightarrow> createErrorResponse 500 ''INTERNAL'' (exn_message e) rid)"

lemma handler_answer:
  assumes "rid = resolveRequestId ulid (rq_headers rq)" "depth = tracked_depth rid (inbound_depth (rq_headers rq)) s" "depth < CALL_DEPTH_MAX"
  shows "fst (handler w ops ulid now rq s) = answered rid (fst (serve w ops now rid depth rq (trackCallDepth rid (inbound_depth (rq_headers rq)) s)))"
  using assms by (auto simp: handler_def answered_def Let_def split: prod.split sum.split)

lemma run_function_answer:
  assumes "\<not> too_large rq" "load_artifact w ops (jtext (jget fn ''artifactId'')) s = (c, t)"
  shows "answered rid (fst (run_function (w\<lparr>run_isolate := f\<rparr>) ops now rid depth project fname fn path rq s)) =
    isolate_answer rid (f (artifact_of fn c) (limits_of fn) (invocation ops rid depth project fname fn path rq))"
  using assms by (auto simp: run_function_def answered_def isolate_answer_def split: sum.split)

lemma run_function_too_large: "too_large rq \<Longrightarrow> fst (run_function w ops now rid depth project fname fn path rq s) = Inr (payload_too_large rid)"
  by (simp add: run_function_def split: prod.split)

text \<open>
  The handler either never asks the isolate, or asks it once, for a function entry of a snapshot the server holds.
\<close>

definition runs :: "'p rt_world \<Rightarrow> rt_options \<Rightarrow> rt_request \<Rightarrow> 'p rt_state \<Rightarrow> string \<Rightarrow> string \<Rightarrow> route \<Rightarrow> jsval \<Rightarrow> string \<Rightarrow> bool" where
  "runs w ops rq s path project r fn acode =
     (\<exists>requested snap. requested_project ops rq s = Inr (requested, path) \<and> served_by ops requested s project snap \<and>
        own_snapshot_first w path requested s project snap \<and> matched w path snap (Some r) \<and> oget (functions_of snap) (rfunction r) = Some fn \<and>
        \<not> bearer_missing fn rq \<and> \<not> too_large rq \<and>
        (acode = [] \<or> oget (artifactCache s) (jtext (jget fn ''artifactId'')) = Some acode \<or>
         (\<exists>u. fetch_bytes w u = Some acode \<and> suffix (encodeURIComponent (jtext (jget fn ''artifactId''))) u)))"

lemma function_request_runs:
  assumes "cache_ok (compile_pattern w) (patternCache s)" "owf (projectSnapshots s)"
  shows "(\<forall>f. fst (function_request (w\<lparr>run_isolate := f\<rparr>) ops now rid depth rq s) = fst (function_request w ops now rid depth rq s)) \<or>
    (\<exists>path project r fn acode. runs w ops rq s path project r fn acode \<and>
       (\<forall>f. answered rid (fst (function_request (w\<lparr>run_isolate := f\<rparr>) ops now rid depth rq s)) =
          isolate_answer rid (f (artifact_of fn acode) (limits_of fn) (invocation ops rid depth project (rfunction r) fn path rq))))"
proof -
  obtain p s1 where p: "perimeter w now rid rq s = (p, s1)" by fastforce
  show ?thesis
  proof (cases "p = None \<and> (\<exists>q. requested_project ops rq s1 = Inr q)")
    case False
    then have "fst (function_request (w\<lparr>run_isolate := f\<rparr>) ops now rid depth rq s) = fst (function_request w ops now rid depth rq s)" for f
      using p by (cases p; cases "requested_project ops rq s1") (auto simp: function_request_def)
    then show ?thesis by blast
  next
    case True
    then obtain requested path where q: "requested_project ops rq s1 = Inr (requested, path)" by auto
    have s1: "same_snapshots s s1" "patternCache s1 = patternCache s" using perimeter_same[OF p] by auto
    then have q0: "requested_project ops rq s = Inr (requested, path)" using q requested_project_same by metis
    obtain x s2 where x: "find_route w ops path requested s1 = (x, s2)" by fastforce
    have ow: "owf (projectSnapshots s1)" using assms(2) s1(1) by (simp add: same_snapshots_def)
    have ca: "cache_ok (compile_pattern w) (patternCache s1)" using assms(1) s1(2) by simp
    note fr = find_route_ok[OF ca ow x]
    show ?thesis
    proof (cases x)
      case None
      then have "fst (function_request (w\<lparr>run_isolate := f\<rparr>) ops now rid depth rq s) = fst (function_request w ops now rid depth rq s)" for f
        using p True q x by (auto simp: function_request_def)
      then show ?thesis by blast
    next
      case (Some y)
      then obtain snap r project where y: "x = Some (snap, r, project)" by (cases y) auto
      obtain g s3 where g: "project_quota now rid rq project s2 = (g, s3)" by fastforce
      show ?thesis
      proof (cases "g = None \<and> (\<exists>fn. oget (functions_of snap) (rfunction r) = Some fn \<and> \<not> bearer_missing fn rq \<and> \<not> too_large rq)")
        case False
        then have "fst (function_request (w\<lparr>run_isolate := f\<rparr>) ops now rid depth rq s) = fst (function_request w ops now rid depth rq s)" for f
          using p True q x y g by (cases g) (auto simp: function_request_def run_function_too_large split: option.split)
        then show ?thesis by blast
      next
        case True
        then obtain fn where fn: "oget (functions_of snap) (rfunction r) = Some fn" "\<not> bearer_missing fn rq" "\<not> too_large rq" by auto
        obtain c s4 where c: "load_artifact w ops (jtext (jget fn ''artifactId'')) s3 = (c, s4)" by fastforce
        have sm: "artifactCache s3 = artifactCache s" using s1(1) fr project_quota_same[OF g] by (auto simp: stage_ok_def same_snapshots_def)
        have "answered rid (fst (function_request (w\<lparr>run_isolate := f\<rparr>) ops now rid depth rq s)) =
            isolate_answer rid (f (artifact_of fn c) (limits_of fn) (invocation ops rid depth project (rfunction r) fn path rq))" for f
          using p \<open>p = None \<and> _\<close> q x y g True fn c run_function_answer[OF fn(3), of "w\<lparr>run_isolate := f\<rparr>"] by (auto simp: function_request_def run_function_answer)
        moreover have "runs w ops rq s path project r fn c"
          using q0 fr y fn s1(1) load_artifact_source[OF c] sm
          by (auto simp: runs_def served_by_def own_snapshot_first_def same_snapshots_def stage_ok_def)
        ultimately show ?thesis by blast
      qed
    qed
  qed
qed

definition rt_ok :: "'p rt_world \<Rightarrow> 'p rt_state \<Rightarrow> bool" where
  "rt_ok w s =
     (cache_ok (compile_pattern w) (patternCache s) \<and> owf (projectSnapshots s) \<and> length (artifactCache s) \<le> MAX_ARTIFACT_CACHE_ENTRIES \<and>
      length (callDepthChains s) \<le> MAX_CALL_DEPTH_CHAINS \<and> length (logEntries s) \<le> MAX_LOG_ENTRIES)"

lemma trackCallDepth_simps [simp]:
  "patternCache (trackCallDepth rid d s) = patternCache s" "projectSnapshots (trackCallDepth rid d s) = projectSnapshots s"
  "currentSnapshot (trackCallDepth rid d s) = currentSnapshot s" "artifactCache (trackCallDepth rid d s) = artifactCache s"
  "logEntries (trackCallDepth rid d s) = logEntries s" "limiter (trackCallDepth rid d s) = limiter s"
  by (simp_all add: trackCallDepth_def Let_def)

lemma runs_trackCallDepth: "runs w ops rq (trackCallDepth rid d s) = runs w ops rq s"
proof -
  let ?t = "trackCallDepth rid d s"
  have h: "subdomain_project ops h ?t = subdomain_project ops h s" "candidates ops ?t = candidates ops s" for h
    by (simp_all add: subdomain_project_def candidates_def)
  then have "host_project ops rq ?t = host_project ops rq s" by (simp add: host_project_def)
  then have q: "requested_project ops rq ?t = requested_project ops rq s" unfolding requested_project_def h by (rule arg_cong[where f = "\<lambda>x. bind_res (case header_project rq of Some p \<Rightarrow> Inr (Some p) | None \<Rightarrow> x) _"])
  show ?thesis by (intro ext) (simp add: runs_def served_by_def own_snapshot_first_def q)
qed


section \<open>The depth guard\<close>

lemma take_token_chains [simp]: "callDepthChains (snd (take_token sc key now msg rid s)) = callDepthChains s"
  by (simp add: take_token_def split: prod.split)

lemma perimeter_chains [simp]: "callDepthChains (snd (perimeter w now rid rq s)) = callDepthChains s"
  using perimeter_same[of w now rid rq s] by (metis prod.collapse same_snapshots_def)

lemma project_quota_chains [simp]: "callDepthChains (snd (project_quota now rid rq p s)) = callDepthChains s"
  by (simp add: project_quota_def)

lemma try_snapshot_chains [simp]: "callDepthChains (snd (try_snapshot w path snap s)) = callDepthChains s"
  by (simp add: try_snapshot_def split: prod.split)

lemma try_snapshot_keeps: "try_snapshot w path snap s = (r, t) \<Longrightarrow> callDepthChains t = callDepthChains s"
  using try_snapshot_chains[of w path snap s] by simp

lemma any_project_chains [simp]: "callDepthChains (snd (any_project w path ps s)) = callDepthChains s"
proof (induction ps arbitrary: s)
  case (Cons e ps)
  obtain p snap r t where "e = (p, snap)" "try_snapshot w path snap s = (r, t)" by (metis surj_pair)
  then show ?case using Cons.IH[of t] try_snapshot_chains[of w path snap s] by (cases r) simp_all
qed simp

lemma find_route_chains [simp]: "callDepthChains (snd (find_route w ops path requested s)) = callDepthChains s"
proof -
  have o: "callDepthChains (snd (own_project w path requested t)) = callDepthChains t" for t
    by (auto simp: own_project_def try_snapshot_keeps split: option.split prod.split)
  have d: "callDepthChains (snd (default_project w ops path requested t)) = callDepthChains t" for t
    by (auto simp: default_project_def try_snapshot_keeps split: option.split prod.split)
  obtain x1 s1 x2 s2 where e: "own_project w path requested s = (x1, s1)" "default_project w ops path requested s1 = (x2, s2)" by fastforce
  then have "callDepthChains s1 = callDepthChains s" "callDepthChains s2 = callDepthChains s1" using o[of s] d[of s1] by simp_all
  then show ?thesis using e by (cases x1; cases x2) (simp_all add: find_route_def)
qed

lemma load_artifact_state:
  "load_artifact w ops aid s = (c, t) \<Longrightarrow> t = s \<or> t = cacheArtifactCode aid c s"
  by (auto simp: load_artifact_def split: option.splits)

lemma run_function_chains [simp]: "callDepthChains (snd (run_function w ops now rid depth project fname fn path rq s)) = callDepthChains s"
proof -
  obtain c t where c: "load_artifact w ops (jtext (jget fn ''artifactId'')) s = (c, t)" by fastforce
  have "callDepthChains t = callDepthChains s" using load_artifact_state[OF c] by (auto simp: cacheArtifactCode_def Let_def)
  then show ?thesis using c by (simp add: run_function_def recordLogEntry_def Let_def split: sum.split)
qed

lemma function_request_chains: "callDepthChains (snd (function_request w ops now rid depth rq s)) = callDepthChains s"
proof -
  obtain p s1 where p: "perimeter w now rid rq s = (p, s1)" by fastforce
  then have s1: "callDepthChains s1 = callDepthChains s" using perimeter_chains[of w now rid rq s] by simp
  show ?thesis
  proof (cases "p = None \<and> (\<exists>q. requested_project ops rq s1 = Inr q)")
    case False
    then show ?thesis using p s1 by (cases p; cases "requested_project ops rq s1") (auto simp: function_request_def)
  next
    case True
    then obtain requested path where q: "requested_project ops rq s1 = Inr (requested, path)" by auto
    obtain x s2 where x: "find_route w ops path requested s1 = (x, s2)" by fastforce
    then have s2: "callDepthChains s2 = callDepthChains s" using find_route_chains[of w ops path requested s1] s1 by simp
    show ?thesis
    proof (cases x)
      case None
      then show ?thesis using p True q x s2 by (simp add: function_request_def)
    next
      case (Some y)
      obtain snap r project where y: "y = (snap, r, project)" by (cases y)
      obtain g s3 where g: "project_quota now rid rq project s2 = (g, s3)" by fastforce
      then have "callDepthChains s3 = callDepthChains s" using project_quota_chains[of now rid rq project s2] s2 by simp
      then show ?thesis using p True q x Some y g by (cases g) (auto simp: function_request_def split: option.split)
    qed
  qed
qed

lemma handler_chains:
  assumes "rid = resolveRequestId ulid (rq_headers rq)" "inbound = inbound_depth (rq_headers rq)"
  shows "callDepthChains (snd (handler w ops ulid now rq s)) =
    callDepthChains (if CALL_DEPTH_MAX \<le> tracked_depth rid inbound s then s else trackCallDepth rid inbound s)"
proof -
  have "callDepthChains (snd (serve w ops now rid depth rq t)) = callDepthChains t" for depth t
    using function_request_chains[of w ops now rid depth rq t] by (simp add: serve_def)
  then show ?thesis using assms by (simp add: handler_def Let_def recordLogEntry_def split: prod.split sum.split) (metis snd_conv)
qed

lemma inbound_nonneg: "0 \<le> inbound_depth hs"
  by (simp add: inbound_depth_def split: option.split)

text \<open>How many requests of an identifier pass the guard, in a sequence of requests; every step has its own outside.\<close>

fun guard_passed :: "string \<Rightarrow> ('p rt_world \<times> rt_options \<times> string \<times> int \<times> rt_request) list \<Rightarrow> 'p rt_state \<Rightarrow> nat" where
  "guard_passed rid [] s = 0"
| "guard_passed rid ((w, ops, ulid, now, rq) # es) s =
     (if resolveRequestId ulid (rq_headers rq) = rid \<and> tracked_depth rid (inbound_depth (rq_headers rq)) s < CALL_DEPTH_MAX then 1 else 0) +
     guard_passed rid es (snd (handler w ops ulid now rq s))"

definition chain_depth :: "string \<Rightarrow> 'p rt_state \<Rightarrow> int" where
  "chain_depth rid s = (case oget (callDepthChains s) rid of Some d \<Rightarrow> d | None \<Rightarrow> 0)"

lemma chain_depth_step:
  assumes "length (callDepthChains s) < MAX_CALL_DEPTH_CHAINS"
    and passed_def: "passed \<longleftrightarrow> resolveRequestId ulid (rq_headers rq) = rid \<and> tracked_depth rid (inbound_depth (rq_headers rq)) s < CALL_DEPTH_MAX"
  shows "chain_depth rid s + (if passed then 1 else 0) \<le> chain_depth rid (snd (handler w ops ulid now rq s)) \<and>
    (passed \<longrightarrow> chain_depth rid s < CALL_DEPTH_MAX) \<and> length (callDepthChains (snd (handler w ops ulid now rq s))) \<le> Suc (length (callDepthChains s))"
proof -
  note h = handler_chains[OF refl refl, of w ops ulid now rq s]
  have t: "chain_depth rid s \<le> tracked_depth rid (inbound_depth (rq_headers rq)) s"
    using inbound_nonneg[of "rq_headers rq"] by (auto simp: chain_depth_def tracked_depth_def split: option.split)
  have k: "callDepthChains (trackCallDepth x d s) = oset x (tracked_depth x d s + 1) (callDepthChains s)" for x d
    using assms(1) by (simp add: trackCallDepth_def Let_def)
  show ?thesis using t unfolding chain_depth_def h passed_def by (auto simp: k length_oset split: if_splits)
qed

text \<open>
  While the table of chains has room, at most eight requests with one identifier pass the depth guard, whatever depth headers they
  carry, and whatever else is requested in between; an identifier that is already known has only its rest.
\<close>

theorem chain_passes_bounded:
  fixes s :: "'p rt_state"
  assumes "length (callDepthChains s) + length es \<le> MAX_CALL_DEPTH_CHAINS"
  shows "int (guard_passed rid es s) \<le> max 0 (CALL_DEPTH_MAX - chain_depth rid s)"
  using assms
proof (induction es arbitrary: s)
  case (Cons e es)
  obtain w ops ulid now rq where e: "e = (w, ops, ulid, now, rq)" by (metis surj_pair)
  have "length (callDepthChains s) < MAX_CALL_DEPTH_CHAINS" using Cons.prems by simp
  note st = chain_depth_step[OF this refl, where ulid = ulid and rq = rq and rid = rid and w = w and ops = ops and now = now]
  then have "length (callDepthChains (snd (handler w ops ulid now rq s))) + length es \<le> MAX_CALL_DEPTH_CHAINS" using Cons.prems by simp
  then have "int (guard_passed rid es (snd (handler w ops ulid now rq s))) \<le> max 0 (CALL_DEPTH_MAX - chain_depth rid (snd (handler w ops ulid now rq s)))"
    by (rule Cons.IH)
  then show ?case using st e by (auto simp: max_def split: if_splits)
qed simp

section \<open>Answers and memory\<close>

definition tagged :: "string \<Rightarrow> rt_response \<Rightarrow> bool" where
  "tagged rid r = (oget (rp_headers r) ''x-request-id'' = Some rid \<and> oget (rp_headers r) ''request-id'' = Some rid)"

lemma tagged_simps [simp]:
  "tagged rid (createErrorResponse st c m rid)" "tagged rid (healthz rid s)" "tagged rid (limited_response m rid d)" "tagged rid (unauthorized rid)"
  "tagged rid (answer_of rid r)" "tagged rid (payload_too_large rid)"
  by (simp_all add: tagged_def createErrorResponse_def healthz_def limited_response_def unauthorized_def answer_of_def payload_too_large_def
      id_headers_def set_headers_def Let_def)

lemma take_token_tagged: "take_token sc key now m rid s = (Some r, t) \<Longrightarrow> tagged rid r"
  by (auto simp: take_token_def split: prod.splits if_splits)

lemma perimeter_tagged: "perimeter w now rid rq s = (Some r, t) \<Longrightarrow> tagged rid r"
  by (auto simp: perimeter_def take_token_tagged split: if_splits prod.splits option.splits)

lemma project_quota_tagged: "project_quota now rid rq p s = (Some r, t) \<Longrightarrow> tagged rid r"
  by (auto simp: project_quota_def take_token_tagged split: if_splits)

lemma run_function_tagged: "run_function w ops now rid depth p fname fn path rq s = (Inr r, t) \<Longrightarrow> tagged rid r"
  by (auto simp: run_function_def split: prod.splits if_splits sum.splits)

lemma function_request_tagged: "function_request w ops now rid depth rq s = (Inr r, t) \<Longrightarrow> tagged rid r"
  unfolding function_request_def
  by (auto simp: perimeter_tagged project_quota_tagged run_function_tagged split: prod.splits option.splits sum.splits if_splits)

lemma endpoint_tagged: "local_object w ops rid rq s = Inr r \<Longrightarrow> tagged rid r" "logs_endpoint ops rid rq s = Inr r \<Longrightarrow> tagged rid r"
  by (auto simp: local_object_def logs_endpoint_def res_simps Let_def tagged_def createErrorResponse_def id_headers_def split: option.splits)

text \<open>
  Every request is answered, under a valid identifier: the answer carries it in both headers, unless it is the control plane's own
  answer, passed on as it came. A request that is cut off at the depth limit changes no state.
\<close>

theorem every_answer_identified:
  assumes "isValidUlid ulid" "rid = resolveRequestId ulid (rq_headers rq)"
  shows "isValidUlid rid \<and>
    (tagged rid (fst (handler w ops ulid now rq s)) \<or>
     isControlPlanePath (rq_path rq) \<and> (\<exists>url hs. fetch_control w url (rq_method rq) hs (rq_body rq) = Inr (fst (handler w ops ulid now rq s)) \<and>
       oget hs ''x-request-id'' = Some rid)) \<and>
    (CALL_DEPTH_MAX \<le> tracked_depth rid (inbound_depth (rq_headers rq)) s \<longrightarrow>
       rp_status (fst (handler w ops ulid now rq s)) = 429 \<and> snd (handler w ops ulid now rq s) = s)"
proof -
  let ?d = "tracked_depth rid (inbound_depth (rq_headers rq)) s" and ?t = "trackCallDepth rid (inbound_depth (rq_headers rq)) s"
  have v: "isValidUlid rid" using assms by (simp add: resolveRequestId_def split: option.split)
  have s: "tagged rid r \<or> isControlPlanePath (rq_path rq) \<and> (\<exists>url hs. fetch_control w url (rq_method rq) hs (rq_body rq) = Inr r \<and> oget hs ''x-request-id'' = Some rid)"
    if "serve w ops now rid ?d rq ?t = (Inr r, t)" for r t
    using that unfolding serve_def
    by (auto simp: endpoint_tagged function_request_tagged proxy_control_def split: if_splits option.splits) (metis oget_oset)+
  obtain q t where q: "serve w ops now rid ?d rq ?t = (q, t)" by fastforce
  show ?thesis
  proof (cases "?d < CALL_DEPTH_MAX")
    case True
    then have "fst (handler w ops ulid now rq s) = answered rid q" using handler_answer[OF assms(2) refl True, of w ops now] q by simp
    then show ?thesis using v s q True by (cases q) (auto simp: answered_def)
  qed (use assms(2) v in \<open>auto simp: handler_def Let_def createErrorResponse_def tagged_def id_headers_def\<close>)
qed

lemma cacheArtifactCode_bound:
  assumes "length (artifactCache s) \<le> MAX_ARTIFACT_CACHE_ENTRIES"
  shows "length (artifactCache (cacheArtifactCode aid c s)) \<le> MAX_ARTIFACT_CACHE_ENTRIES"
proof (cases "length (artifactCache s) < MAX_ARTIFACT_CACHE_ENTRIES")
  case True
  then show ?thesis by (simp add: cacheArtifactCode_def length_oset Let_def)
next
  case False
  then obtain k v m where m: "artifactCache s = (k, v) # m" using assms by (cases "artifactCache s") (auto simp: MAX_ARTIFACT_CACHE_ENTRIES_def)
  have "length (odel k ((k, v) # m)) \<le> length m" by (simp add: odel_def)
  then show ?thesis using False m assms by (auto simp: cacheArtifactCode_def length_oset Let_def)
qed

lemma recordLogEntry_bound: "length (logEntries s) \<le> MAX_LOG_ENTRIES \<Longrightarrow> length (logEntries (recordLogEntry e s)) \<le> MAX_LOG_ENTRIES"
  by (simp add: recordLogEntry_def Let_def)

lemma trackCallDepth_bound: "length (callDepthChains s) \<le> MAX_CALL_DEPTH_CHAINS \<Longrightarrow> length (callDepthChains (trackCallDepth rid d s)) \<le> MAX_CALL_DEPTH_CHAINS"
  by (simp add: trackCallDepth_def Let_def length_oset MAX_CALL_DEPTH_CHAINS_def)

lemma recordLogEntry_ok: "rt_ok w s \<Longrightarrow> rt_ok w (recordLogEntry e s)"
  using recordLogEntry_bound[of s e] by (simp add: rt_ok_def) (simp add: recordLogEntry_def Let_def)

lemma trackCallDepth_ok: "rt_ok w s \<Longrightarrow> rt_ok w (trackCallDepth rid d s)"
  using trackCallDepth_bound[of s rid d] by (simp add: rt_ok_def)

lemma load_artifact_ok: "rt_ok w s \<Longrightarrow> load_artifact w ops aid s = (c, t) \<Longrightarrow> rt_ok w t"
  using cacheArtifactCode_bound[of s aid c] load_artifact_state[of w ops aid s c t]
  by (auto simp: rt_ok_def) (auto simp: cacheArtifactCode_def Let_def)

lemma run_function_ok: "rt_ok w s \<Longrightarrow> rt_ok w (snd (run_function w ops now rid depth p fname fn path rq s))"
  using load_artifact_ok[of w s ops "jtext (jget fn ''artifactId'')"]
  by (auto simp: run_function_def recordLogEntry_ok split: prod.split sum.split)

lemma function_request_ok:
  assumes "rt_ok w s"
  shows "rt_ok w (snd (function_request w ops now rid depth rq s))"
proof -
  obtain p s1 where p: "perimeter w now rid rq s = (p, s1)" by fastforce
  have s1: "rt_ok w s1" using perimeter_same[OF p] assms by (simp add: rt_ok_def same_snapshots_def)
  have f: "rt_ok w s2" if "find_route w ops path requested s1 = (x, s2)" for path requested x s2
    using find_route_ok[OF _ _ that] s1 by (auto simp: rt_ok_def stage_ok_def same_snapshots_def)
  have g: "rt_ok w s3" if "project_quota now rid rq project s2 = (g, s3)" "rt_ok w s2" for project s2 g s3
    using project_quota_same[OF that(1)] that(2) by (simp add: rt_ok_def same_snapshots_def)
  show ?thesis unfolding function_request_def p
    by (auto simp: s1 split: option.split sum.split prod.split intro: f g run_function_ok)
qed

definition new_runtime :: "gw_limiter \<Rightarrow> 'p rt_state" where
  "new_runtime g = \<lparr>currentSnapshot = None, projectSnapshots = [], artifactCache = [], limiter = g, callDepthChains = [], logEntries = [], patternCache = []\<rparr>"

text \<open>
  The server's memory stays bounded under any requests: at most 200 artifacts, 10000 chains, 1000 log entries and 1000 compiled patterns,
  each pattern compiled from its own text; the held snapshots have distinct projects.
\<close>

theorem runtime_memory_bounded:
  "rt_ok w (new_runtime g) \<and> (rt_ok w s \<longrightarrow> rt_ok w (snd (handler w ops ulid now rq s)))"
proof (intro conjI impI)
  show "rt_ok w (new_runtime g)" by (simp add: rt_ok_def new_runtime_def cache_ok_Nil)
  assume s: "rt_ok w s"
  have "rt_ok w (snd (serve w ops now rid depth rq (trackCallDepth rid d s)))" for rid depth d
    using function_request_ok[OF trackCallDepth_ok[OF s]] trackCallDepth_ok[OF s] by (auto simp: serve_def)
  then show "rt_ok w (snd (handler w ops ulid now rq s))"
    using s by (auto simp: handler_def Let_def split: prod.split sum.split) (metis recordLogEntry_ok snd_conv)+
qed

text \<open>A request that comes through the gateway is not charged again.\<close>

lemma forwarded_limiter:
  assumes "rt_ok w s" "isGatewayForwarded rq"
  shows "limiter (snd (handler w ops ulid now rq s)) = limiter s"
proof -
  have l: "limiter (snd (load_artifact w ops a t)) = limiter t" for a t
    by (auto simp: load_artifact_def cacheArtifactCode_def Let_def split: option.split)
  have r: "limiter (snd (run_function w ops now rid depth p fname fn path rq t)) = limiter t" for rid depth p fname fn path t
    using l[of "jtext (jget fn ''artifactId'')" t] by (auto simp: run_function_def recordLogEntry_def Let_def split: prod.split sum.split)
  have f: "limiter (snd (function_request w ops now rid depth rq t)) = limiter t" if t: "rt_ok w t" for rid depth t
  proof -
    have fr: "limiter t2 = limiter t" if "find_route w ops path requested t = (x, t2)" for path requested x t2
      using find_route_ok[OF _ _ that] t by (auto simp: rt_ok_def stage_ok_def)
    show ?thesis using assms(2) by (auto simp: function_request_def perimeter_def project_quota_def r split: sum.split prod.split option.split dest: fr)
  qed
  have "limiter (snd (serve w ops now rid depth rq (trackCallDepth rid d s))) = limiter s" for rid depth d
    using f[OF trackCallDepth_ok[OF assms(1)]] by (simp add: serve_def)
  then show ?thesis by (simp add: handler_def Let_def recordLogEntry_def split: prod.split sum.split) (metis snd_conv)
qed

section \<open>Samples, and ways around\<close>

text \<open>Code equations that compare lengths as integers.\<close>

lemma trackCallDepth_code [code]:
  "trackCallDepth rid d s =
     s\<lparr>callDepthChains := oset rid (tracked_depth rid d s + 1) (if 10000 \<le> int (length (callDepthChains s)) then [] else callDepthChains s)\<rparr>"
  by (simp add: trackCallDepth_def MAX_CALL_DEPTH_CHAINS_def Let_def)

lemma recordLogEntry_code [code]:
  "recordLogEntry e s = (let l = logEntries s @ [e] in s\<lparr>logEntries := (if 1000 < int (length l) then tl l else l)\<rparr>)"
  by (simp add: recordLogEntry_def MAX_LOG_ENTRIES_def Let_def)

lemma cacheArtifactCode_code [code]:
  "cacheArtifactCode aid c s =
     (let m = artifactCache s in
      s\<lparr>artifactCache := oset aid c (if 200 \<le> int (length m) then (case m of [] \<Rightarrow> [] | (k, _) # _ \<Rightarrow> odel k m) else m)\<rparr>)"
  by (simp add: cacheArtifactCode_def MAX_ARTIFACT_CACHE_ENTRIES_def Let_def)

definition demo_world :: "string rt_world" where
  "demo_world =
     \<lparr>compile_pattern = (\<lambda>p. p), test_pattern = (\<lambda>p x. p = x), hash_token = (\<lambda>h. h), fetch_bytes = (\<lambda>u. Some ''code''),
      fetch_control = (\<lambda>u m h b. Inl (Foreign ''connection refused'')),
      run_isolate = (\<lambda>a l i. Inr \<lparr>ex_statusCode = 200, ex_headers = [], ex_body = art_id a @ ''@'' @ the (oget (inv_headers i) ''x-railfog-project''),
        ex_cpuTimeMs = 1, ex_wallClockMs = 2\<rparr>),
      real_path = (\<lambda>p. None), read_file = (\<lambda>p. None)\<rparr>"

definition demo_snapshot :: "string \<Rightarrow> string \<Rightarrow> jsval" where
  "demo_snapshot art auth =
     JObj [(''version'', JNum (Fin 1)),
           (''routes'', JArr [JObj [(''pattern'', JStr ''/hello''), (''function'', JStr ''hello'')]]),
           (''functions'', JObj [(''hello'', JObj [(''revisionId'', JStr ''r1''), (''artifactId'', JStr art), (''permissions'', JObj []),
              (''limits'', JObj []), (''auth'', JStr auth)])])]"

definition demo_options :: rt_options where
  "demo_options = \<lparr>o_projectId = ''home'', o_orgId = None, o_controlPlaneUrl = Some ''http://control'', o_tempDir = None\<rparr>"

definition demo_runtime :: "string \<Rightarrow> string rt_state" where
  "demo_runtime auth =
     (new_runtime (new_gw_limiter (\<lambda>_. None)))\<lparr>currentSnapshot := Some (demo_snapshot ''sha256:home'' auth),
        projectSnapshots := [(''home'', demo_snapshot ''sha256:home'' auth), (''shop'', demo_snapshot ''sha256:shop'' auth)]\<rparr>"

definition demo_call :: "string \<Rightarrow> (string \<times> string) list \<Rightarrow> rt_request" where
  "demo_call path hs =
     \<lparr>rq_method = ''GET'', rq_origin = ''http://edge'', rq_host = ''edge'', rq_path = path, rq_search = [], rq_query = [], rq_headers = hs, rq_body = None\<rparr>"

definition demo_ulid :: string where
  "demo_ulid = ''01ARZ3NDEKTSV4RRFFQ69G5FAV''"

lemma demo_runtime_ok: "rt_ok demo_world (demo_runtime auth)"
  by (simp add: rt_ok_def demo_runtime_def new_runtime_def cache_ok_Nil owf_def)


lemma chain_passes_bounded_witness:
  "int (guard_passed demo_ulid (replicate 10 (demo_world, demo_options, demo_ulid, 0, demo_call ''/healthz'' [(''x-railfog-call-depth'', ''0'')])) (demo_runtime ''none'')) \<le> 8"
proof -
  have "callDepthChains (demo_runtime ''none'') = []" by (simp add: demo_runtime_def new_runtime_def)
  then show ?thesis
    using chain_passes_bounded[of "demo_runtime ''none''" "replicate 10 (demo_world, demo_options, demo_ulid, 0, demo_call ''/healthz'' [(''x-railfog-call-depth'', ''0'')])" demo_ulid]
    by (simp add: MAX_CALL_DEPTH_CHAINS_def CALL_DEPTH_MAX_def chain_depth_def)
qed

lemma every_answer_identified_witness:
  "isValidUlid demo_ulid \<and> tagged demo_ulid (fst (handler demo_world demo_options demo_ulid 0 (demo_call ''/missing'' [(''x-request-id'', ''forged'')]) (demo_runtime ''none'')))"
proof -
  have "isValidUlid demo_ulid" "resolveRequestId demo_ulid (rq_headers (demo_call ''/missing'' [(''x-request-id'', ''forged'')])) = demo_ulid"
    "\<not> isControlPlanePath (rq_path (demo_call ''/missing'' [(''x-request-id'', ''forged'')]))" by code_simp+
  then show ?thesis
    using every_answer_identified[of demo_ulid demo_ulid "demo_call ''/missing'' [(''x-request-id'', ''forged'')]" demo_world demo_options 0 "demo_runtime ''none''"] by simp
qed

lemma runtime_memory_bounded_witness:
  "rt_ok demo_world (snd (handler demo_world demo_options demo_ulid 0 (demo_call ''/shop/hello'' []) (demo_runtime ''none'')))"
  using runtime_memory_bounded demo_runtime_ok by blast

text \<open>
  A header names the project in which a function of the server's own project runs: the isolate scopes its bindings by \<open>x-railfog-project\<close>,
  and a name that has no snapshot is taken over as it is.
\<close>

lemma header_rescopes_function:
  "rp_body (fst (handler demo_world demo_options demo_ulid 0 (demo_call ''/hello'' [(''x-railfog-project'', ''victim'')]) (demo_runtime ''none''))) = Data ''sha256:home@victim''"
  by code_simp

text \<open>A function that declares bearer authentication accepts every token.\<close>

lemma any_bearer_token_passes:
  "rp_status (fst (handler demo_world demo_options demo_ulid 0 (demo_call ''/hello'' [(''authorization'', ''Bearer x'')]) (demo_runtime ''bearer''))) = 200"
  by code_simp

text \<open>The depth of a chain is not given back when its request ends: the ninth request in a row with one identifier is refused.\<close>

lemma repeated_identifier_refused:
  "rp_status (fst (handler demo_world demo_options demo_ulid 0 (demo_call ''/healthz'' [])
     (fold (\<lambda>_ s. snd (handler demo_world demo_options demo_ulid 0 (demo_call ''/healthz'' []) s)) [1..8] (demo_runtime ''none'')))) = 429"
  by code_simp

end
