(* ===== verification/RuntimeSync.thy ===== *)
theory RuntimeSync
  imports RuntimeServer SnapshotCache Cron
begin

text \<open>
  The background work of \<open>apps/runtime/runtime-server.ts\<close>: polling the control plane for the snapshots of all projects, the
  snapshot file, prewarming, the cron schedules of the functions, and the dispatcher of queue messages. The answers of the control
  plane are arguments; a poll that is overtaken by its timeout is a fetch whose second half comes late.

  Shown: polls never replace a snapshot by an older one and an outage changes nothing, schedules follow the snapshot of
  their project exactly; and what late answers, removed projects and default triggers do.
\<close>

section \<open>State\<close>

text \<open>A timer closes over the project, the function and its entry at the time of the synchronisation.\<close>

record cron_job =
  job_project :: string
  job_function :: string
  job_entry :: jsval

record 'p rt_daemon =
  node :: "'p rt_state"
  cronTimers :: "(string, cron_job) omap"
  cronMatchers :: "(string, cron option) omap"
  isClosed :: bool
  diskCache :: "jsval option"

section \<open>Cron schedules\<close>

definition timer_key :: "string \<Rightarrow> string \<Rightarrow> string" where
  "timer_key p f = p @ '':'' @ f"

definition schedule_of :: "jsval \<Rightarrow> jsval" where
  "schedule_of fn = coalesce (jget (jget fn ''triggers'') ''schedule'') (jget fn ''schedule'')"

text \<open>The compiled schedule of a function, if it has one.\<close>

definition cron_of :: "jsval \<Rightarrow> cron res option" where
  "cron_of fn =
     (let sched = schedule_of fn in
      if truthy sched \<or> jget fn ''type'' = JStr ''cron''
      then Some (compileCron (case sched of JStr e \<Rightarrow> e | _ \<Rightarrow> ''* * * * *''))
      else None)"

definition clear_project :: "string \<Rightarrow> 'p rt_daemon \<Rightarrow> 'p rt_daemon" where
  "clear_project p d =
     (let gone = filter (\<lambda>k. starts_with k (p @ '':'')) (map fst (cronTimers d)) in
      d\<lparr>cronTimers := fold odel gone (cronTimers d), cronMatchers := fold odel gone (cronMatchers d)\<rparr>)"

definition add_schedule :: "string \<Rightarrow> string \<times> jsval \<Rightarrow> 'p rt_daemon \<Rightarrow> 'p rt_daemon" where
  "add_schedule p e d =
     (case cron_of (snd e) of
        None \<Rightarrow> d
      | Some (Inl _) \<Rightarrow> d\<lparr>cronMatchers := oset (timer_key p (fst e)) None (cronMatchers d)\<rparr>
      | Some (Inr c) \<Rightarrow>
          d\<lparr>cronMatchers := oset (timer_key p (fst e)) (Some c) (cronMatchers d),
            cronTimers := oset (timer_key p (fst e)) \<lparr>job_project = p, job_function = fst e, job_entry = snd e\<rparr> (cronTimers d)\<rparr>)"

definition syncCronSchedules :: "jsval \<Rightarrow> string \<Rightarrow> 'p rt_daemon \<Rightarrow> 'p rt_daemon" where
  "syncCronSchedules snap p d = fold (add_schedule p) (functions_of snap) (clear_project p d)"

text \<open>Whether the minute timer of a key runs its function.\<close>

definition fires :: "string \<Rightarrow> moment \<Rightarrow> 'p rt_daemon \<Rightarrow> bool" where
  "fires k date d =
     (\<not> isClosed d \<and> oget (cronTimers d) k \<noteq> None \<and>
      (case oget (cronMatchers d) k of Some (Some c) \<Rightarrow> cron_matches c date | _ \<Rightarrow> False))"

definition background_level :: "nat \<Rightarrow> string" where
  "background_level status = (if 400 \<le> status then ''error'' else ''info'')"

definition cron_invocation :: "rt_options \<Rightarrow> string \<Rightarrow> string \<Rightarrow> cron_job \<Rightarrow> InvocationRequest" where
  "cron_invocation ops rid body j =
     \<lparr>inv_requestId = rid, inv_method = ''POST'', inv_url = ''https://internal.railfog/cron/'' @ job_function j,
      inv_headers = [(''x-railfog-trigger'', ''schedule''), (''x-railfog-project'', job_project j), (''x-railfog-function'', job_function j),
        (''x-railfog-revision'', jtext (jget (job_entry j) ''revisionId'')), (''x-railfog-org'', org_of ops), (''x-request-id'', rid),
        (''request-id'', rid), (''content-type'', ''application/json'')],
      inv_body = Some body\<rparr>"

text \<open>One tick of a timer; \<open>body\<close> is the JSON text with the scheduled time. A throw of the isolate is only printed.\<close>

definition cron_tick :: "'p rt_world \<Rightarrow> rt_options \<Rightarrow> string \<Rightarrow> string \<Rightarrow> int \<Rightarrow> moment \<Rightarrow> string \<Rightarrow> 'p rt_daemon \<Rightarrow> 'p rt_daemon" where
  "cron_tick w ops rid body now date k d =
     (case oget (cronTimers d) k of
        None \<Rightarrow> d
      | Some j \<Rightarrow>
          if \<not> fires k date d then d
          else (case load_artifact w ops (jtext (jget (job_entry j) ''artifactId'')) (node d) of
                  (acode, s) \<Rightarrow>
                    (case run_isolate w (artifact_of (job_entry j) acode) (limits_of (job_entry j)) (cron_invocation ops rid body j) of
                       Inl _ \<Rightarrow> d\<lparr>node := s\<rparr>
                     | Inr r \<Rightarrow>
                         d\<lparr>node := recordLogEntry \<lparr>lg_time = now, lg_level = background_level (ex_statusCode r), lg_project = job_project j,
                            lg_function = job_function j, lg_revision = jtext (jget (job_entry j) ''revisionId''), lg_request_id = rid,
                            lg_duration_ms = Some (ex_wallClockMs r),
                            lg_message = ''Cron job ['' @ job_function j @ ''] executed -> '' @ nat_str (ex_statusCode r) @ '' ('' @ int_str (ex_wallClockMs r) @ ''ms)''\<rparr> s\<rparr>)))"

section \<open>Queue messages\<close>

definition queue_trigger :: "string \<Rightarrow> string \<times> jsval \<Rightarrow> bool" where
  "queue_trigger q e = (let t = jget (jget (snd e) ''triggers'') ''queue'' in t = JStr q \<or> t = JStr ''default'')"

definition worker_name :: "string \<Rightarrow> string \<times> jsval \<Rightarrow> bool" where
  "worker_name q e =
     (let n = to_lower (fst e) in n = ''worker'' \<or> n = ''queue'' \<or> str_includes n ''worker'' \<or> n = to_lower q)"

text \<open>\<open>!targetFnName\<close> also holds of a function whose name is empty.\<close>

definition queue_target :: "string \<Rightarrow> jsval \<Rightarrow> (string \<times> jsval) option" where
  "queue_target q snap =
     (let first = (case find (queue_trigger q) (functions_of snap) of
                     Some e \<Rightarrow> if fst e = [] then None else Some e
                   | None \<Rightarrow> None) in
      case first of
        Some e \<Rightarrow> Some e
      | None \<Rightarrow> (case find (worker_name q) (functions_of snap) of Some e \<Rightarrow> if fst e = [] then None else Some e | None \<Rightarrow> None))"

definition queue_invocation :: "rt_options \<Rightarrow> string \<Rightarrow> string \<Rightarrow> string \<Rightarrow> string \<Rightarrow> string \<times> jsval \<Rightarrow> InvocationRequest" where
  "queue_invocation ops rid q payload project e =
     \<lparr>inv_requestId = rid, inv_method = ''POST'', inv_url = ''https://internal.railfog/queues/'' @ q,
      inv_headers = [(''x-railfog-trigger'', ''queue''), (''x-railfog-project'', project), (''x-railfog-function'', fst e),
        (''x-railfog-revision'', jtext (jget (snd e) ''revisionId'')), (''x-railfog-org'', org_of ops), (''x-railfog-message-id'', rid),
        (''x-request-id'', rid), (''request-id'', rid), (''content-type'', ''application/json'')],
      inv_body = Some payload\<rparr>"

definition dispatch_message :: "'p rt_world \<Rightarrow> rt_options \<Rightarrow> string \<Rightarrow> int \<Rightarrow> int \<Rightarrow> string \<Rightarrow> string \<Rightarrow> string \<Rightarrow> string option \<Rightarrow> 'p rt_state \<Rightarrow> 'p rt_state" where
  "dispatch_message w ops ulid now duration q payload project messageId s =
     (case either (oget (projectSnapshots s) project) (currentSnapshot s) of
        None \<Rightarrow> s
      | Some snap \<Rightarrow>
          (case queue_target q snap of
             None \<Rightarrow> s
           | Some e \<Rightarrow>
               (case load_artifact w ops (jtext (jget (snd e) ''artifactId'')) s of
                  (acode, s1) \<Rightarrow>
                    let rid = (case messageId of Some m \<Rightarrow> m | None \<Rightarrow> ulid) in
                    (case run_isolate w (artifact_of (snd e) acode) (limits_of (snd e)) (queue_invocation ops rid q payload project e) of
                       Inl _ \<Rightarrow> s1
                     | Inr r \<Rightarrow>
                         recordLogEntry \<lparr>lg_time = now, lg_level = background_level (ex_statusCode r), lg_project = project, lg_function = fst e,
                           lg_revision = jtext (jget (snd e) ''revisionId''), lg_request_id = rid, lg_duration_ms = Some duration,
                           lg_message = ''Queue worker ['' @ fst e @ ''] processed message for queue ['' @ q @ ''] -> '' @ nat_str (ex_statusCode r) @ '' ('' @ int_str duration @ ''ms)''\<rparr> s1))))"

section \<open>Snapshots\<close>

text \<open>The answer to a snapshot request: the JSON body of a 200, another status, or no answer.\<close>

datatype fetched = Body jsval | OtherStatus nat | NoAnswer

record control_plane =
  cp_snapshot :: "string \<Rightarrow> jsval option \<Rightarrow> fetched"
  cp_projects :: "string list option"

definition prewarm_function :: "'p rt_world \<Rightarrow> rt_options \<Rightarrow> string \<times> jsval \<Rightarrow> 'p rt_daemon \<Rightarrow> 'p rt_daemon" where
  "prewarm_function w ops e d = d\<lparr>node := snd (load_artifact w ops (jtext (jget (snd e) ''artifactId'')) (node d))\<rparr>"

definition prewarmSnapshotFunctions :: "bool \<Rightarrow> 'p rt_world \<Rightarrow> rt_options \<Rightarrow> jsval \<Rightarrow> 'p rt_daemon \<Rightarrow> 'p rt_daemon" where
  "prewarmSnapshotFunctions has_prewarm w ops snap d = (if has_prewarm then fold (prewarm_function w ops) (functions_of snap) d else d)"

definition existing_snapshot :: "rt_options \<Rightarrow> string \<Rightarrow> 'p rt_daemon \<Rightarrow> jsval option" where
  "existing_snapshot ops p d = (if p = o_projectId ops then currentSnapshot (node d) else oget (projectSnapshots (node d)) p)"

definition store_snapshot :: "rt_options \<Rightarrow> bool \<Rightarrow> string \<Rightarrow> jsval \<Rightarrow> 'p rt_daemon \<Rightarrow> 'p rt_daemon" where
  "store_snapshot ops has_disk p v d =
     (let d1 = syncCronSchedules v p (d\<lparr>node := (node d)\<lparr>projectSnapshots := oset p v (projectSnapshots (node d))\<rparr>\<rparr>) in
      if p = o_projectId ops
      then (let d2 = d1\<lparr>node := (node d1)\<lparr>currentSnapshot := Some v\<rparr>\<rparr> in if has_disk then d2\<lparr>diskCache := Some v\<rparr> else d2)
      else d1)"

text \<open>The second half of \<open>fetchSnapshotForProject\<close>: \<open>known\<close> was read before the request.\<close>

definition finish_fetch :: "bool \<Rightarrow> bool \<Rightarrow> 'p rt_world \<Rightarrow> rt_options \<Rightarrow> string \<Rightarrow> jsval option \<Rightarrow> fetched \<Rightarrow> 'p rt_daemon \<Rightarrow> 'p rt_daemon" where
  "finish_fetch has_disk has_prewarm w ops p known answer d =
     (if isClosed d then d
      else case answer of
        Body payload \<Rightarrow>
          (case validateRoutingSnapshot payload of
             Inl _ \<Rightarrow> d
           | Inr v \<Rightarrow> if is_newer v known then prewarmSnapshotFunctions has_prewarm w ops v (store_snapshot ops has_disk p v d) else d)
      | _ \<Rightarrow> d)"

definition fetchSnapshotForProject :: "bool \<Rightarrow> bool \<Rightarrow> 'p rt_world \<Rightarrow> rt_options \<Rightarrow> control_plane \<Rightarrow> string \<Rightarrow> 'p rt_daemon \<Rightarrow> 'p rt_daemon" where
  "fetchSnapshotForProject has_disk has_prewarm w ops cp p d =
     (if nonempty (o_controlPlaneUrl ops) = None then d
      else let known = existing_snapshot ops p d in
           finish_fetch has_disk has_prewarm w ops p known (cp_snapshot cp p (map_option (\<lambda>v. jget v ''version'') known)) d)"

definition drop_inactive :: "rt_options \<Rightarrow> string list \<Rightarrow> 'p rt_daemon \<Rightarrow> 'p rt_daemon" where
  "drop_inactive ops ps d =
     d\<lparr>node := (node d)\<lparr>projectSnapshots := filter (\<lambda>e. fst e = o_projectId ops \<or> fst e \<in> set ps) (projectSnapshots (node d))\<rparr>\<rparr>"

definition pollControlPlane :: "bool \<Rightarrow> bool \<Rightarrow> 'p rt_world \<Rightarrow> rt_options \<Rightarrow> control_plane \<Rightarrow> 'p rt_daemon \<Rightarrow> 'p rt_daemon" where
  "pollControlPlane has_disk has_prewarm w ops cp d =
     (if isClosed d then d
      else let fetch = fetchSnapshotForProject has_disk has_prewarm w ops cp; d1 = fetch (o_projectId ops) d in
           if nonempty (o_controlPlaneUrl ops) = None then d1
           else case cp_projects cp of
             None \<Rightarrow> d1
           | Some ps \<Rightarrow> fold fetch (filter (\<lambda>p. p \<noteq> o_projectId ops) ps) (drop_inactive ops ps d1))"

text \<open>The start from the snapshot file: \<open>None\<close> if it is missing or no JSON.\<close>

definition cold_start :: "bool \<Rightarrow> 'p rt_world \<Rightarrow> rt_options \<Rightarrow> jsval option \<Rightarrow> 'p rt_daemon \<Rightarrow> 'p rt_daemon" where
  "cold_start has_prewarm w ops cached d =
     (case Option.bind cached (\<lambda>j. case validateRoutingSnapshot j of Inr v \<Rightarrow> Some v | Inl _ \<Rightarrow> None) of
        None \<Rightarrow> d
      | Some v \<Rightarrow>
          prewarmSnapshotFunctions has_prewarm w ops v
            (syncCronSchedules v (o_projectId ops)
               (d\<lparr>node := (node d)\<lparr>currentSnapshot := Some v, projectSnapshots := oset (o_projectId ops) v (projectSnapshots (node d))\<rparr>\<rparr>)))"

definition close_daemon :: "'p rt_daemon \<Rightarrow> 'p rt_daemon" where
  "close_daemon d = d\<lparr>isClosed := True, cronTimers := [], cronMatchers := []\<rparr>"

section \<open>Schedules follow the snapshot\<close>

lemma timer_key_inj [simp]: "timer_key p f = timer_key p g \<longleftrightarrow> f = g"
  by (simp add: timer_key_def)

lemma starts_with_timer_key [simp]: "starts_with (timer_key p f) (p @ '':'')"
  by (simp add: timer_key_def starts_with_def)

lemma not_own_key: "\<not> starts_with k (p @ '':'') \<Longrightarrow> k \<noteq> timer_key p f"
  by auto

lemma fold_odel: "oget (fold odel ks m) k = (if k \<in> set ks then None else oget m k)"
  by (induction ks arbitrary: m) auto

lemma clear_project_get:
  "oget (cronTimers (clear_project p d)) k = (if starts_with k (p @ '':'') then None else oget (cronTimers d) k)"
  "\<not> starts_with k (p @ '':'') \<Longrightarrow> oget (cronMatchers (clear_project p d)) k = oget (cronMatchers d) k"
  "isClosed (clear_project p d) = isClosed d" "node (clear_project p d) = node d" "diskCache (clear_project p d) = diskCache d"
  by (auto simp: clear_project_def Let_def fold_odel map_of_eq_None_iff)

lemma add_schedule_other:
  "k \<noteq> timer_key p (fst e) \<Longrightarrow> oget (cronTimers (add_schedule p e d)) k = oget (cronTimers d) k"
  "k \<noteq> timer_key p (fst e) \<Longrightarrow> oget (cronMatchers (add_schedule p e d)) k = oget (cronMatchers d) k"
  "isClosed (add_schedule p e d) = isClosed d" "node (add_schedule p e d) = node d" "diskCache (add_schedule p e d) = diskCache d"
  by (simp_all add: add_schedule_def split: option.split sum.split)

lemma add_schedule_self:
  "oget (cronTimers (add_schedule p (f, fn) d)) (timer_key p f) =
     (case cron_of fn of Some (Inr c) \<Rightarrow> Some \<lparr>job_project = p, job_function = f, job_entry = fn\<rparr> | _ \<Rightarrow> oget (cronTimers d) (timer_key p f))"
  "cron_of fn = Some (Inr c) \<Longrightarrow> oget (cronMatchers (add_schedule p (f, fn) d)) (timer_key p f) = Some (Some c)"
  by (simp_all add: add_schedule_def split: option.split sum.split)

lemma add_schedules_rest:
  "isClosed (fold (add_schedule p) es d) = isClosed d" "node (fold (add_schedule p) es d) = node d" "diskCache (fold (add_schedule p) es d) = diskCache d"
  by (induction es arbitrary: d) (simp_all add: add_schedule_other)

lemma add_schedules_foreign:
  assumes "\<And>f. k \<noteq> timer_key p f"
  shows "oget (cronTimers (fold (add_schedule p) es d)) k = oget (cronTimers d) k" "oget (cronMatchers (fold (add_schedule p) es d)) k = oget (cronMatchers d) k"
  using assms by (induction es arbitrary: d) (simp_all add: add_schedule_other)

lemma add_schedules_untouched:
  assumes "f \<notin> fst ` set es"
  shows "oget (cronTimers (fold (add_schedule p) es d)) (timer_key p f) = oget (cronTimers d) (timer_key p f)"
    "oget (cronMatchers (fold (add_schedule p) es d)) (timer_key p f) = oget (cronMatchers d) (timer_key p f)"
  using assms by (induction es arbitrary: d) (auto simp: add_schedule_other)

lemma add_schedules_own:
  assumes "owf es" "oget es f = Some fn"
  shows "oget (cronTimers (fold (add_schedule p) es d)) (timer_key p f) =
    (case cron_of fn of Some (Inr c) \<Rightarrow> Some \<lparr>job_project = p, job_function = f, job_entry = fn\<rparr> | _ \<Rightarrow> oget (cronTimers d) (timer_key p f))"
  using assms
proof (induction es arbitrary: d)
  case (Cons e es)
  obtain g gn where e: "e = (g, gn)" by (cases e)
  have w: "owf es" "g \<notin> fst ` set es" using Cons.prems e by (auto simp: owf_def)
  show ?case
  proof (cases "g = f")
    case True
    then show ?thesis using w Cons.prems e by (simp add: add_schedules_untouched add_schedule_self)
  next
    case False
    then have "oget (cronTimers (add_schedule p e d)) (timer_key p f) = oget (cronTimers d) (timer_key p f)" using e by (simp add: add_schedule_other)
    then show ?thesis using Cons.IH[of "add_schedule p e d"] w Cons.prems False e by (simp split: option.split sum.split)
  qed
qed simp

lemma add_schedules_matcher:
  assumes "owf es" "oget es f = Some fn" "cron_of fn = Some (Inr c)"
  shows "oget (cronMatchers (fold (add_schedule p) es d)) (timer_key p f) = Some (Some c)"
  using assms
proof (induction es arbitrary: d)
  case (Cons e es)
  obtain g gn where e: "e = (g, gn)" by (cases e)
  have w: "owf es" "g \<notin> fst ` set es" using Cons.prems e by (auto simp: owf_def)
  then show ?case using Cons.IH[of "add_schedule p e d"] Cons.prems e
    by (cases "g = f") (simp_all add: add_schedules_untouched add_schedule_self)
qed simp

text \<open>
  After the synchronisation with a snapshot of a project, the minute timer of a function of that project runs exactly when the
  snapshot declares a valid schedule for the function and the schedule matches the moment, and it runs the function's entry of that
  snapshot; the timers of other projects are as before.
\<close>

theorem schedules_follow_snapshot:
  assumes "owf (functions_of snap)" "d' = syncCronSchedules snap p d"
  shows "(fires (timer_key p f) date d' \<longleftrightarrow>
      \<not> isClosed d \<and> (\<exists>fn c. oget (functions_of snap) f = Some fn \<and> cron_of fn = Some (Inr c) \<and> cron_matches c date)) \<and>
    (\<forall>j. oget (cronTimers d') (timer_key p f) = Some j \<longrightarrow> job_project j = p \<and> job_function j = f \<and> oget (functions_of snap) f = Some (job_entry j)) \<and>
    (\<not> starts_with k (p @ '':'') \<longrightarrow> fires k date d' = fires k date d)"
proof -
  let ?es = "functions_of snap" and ?c = "clear_project p d"
  have d': "d' = fold (add_schedule p) ?es ?c" using assms(2) by (simp add: syncCronSchedules_def)
  have closed: "isClosed d' = isClosed d" by (simp add: d' add_schedules_rest clear_project_get)
  have none: "oget (cronTimers ?c) (timer_key p f) = None" by (simp add: clear_project_get)
  have own: "oget (cronTimers d') (timer_key p f) =
      (case oget ?es f of Some fn \<Rightarrow> (case cron_of fn of Some (Inr c) \<Rightarrow> Some \<lparr>job_project = p, job_function = f, job_entry = fn\<rparr> | _ \<Rightarrow> None) | None \<Rightarrow> None)"
  proof (cases "oget ?es f")
    case None
    then have "f \<notin> fst ` set ?es" by (simp add: map_of_eq_None_iff)
    then show ?thesis using None none add_schedules_untouched(1)[of f ?es p ?c] by (simp add: d')
  next
    case (Some fn)
    then show ?thesis using none add_schedules_own[OF assms(1) Some, of p ?c] by (simp add: d' split: option.split sum.split)
  qed
  have m: "oget (cronMatchers d') (timer_key p f) = Some (Some c)" if "oget ?es f = Some fn" "cron_of fn = Some (Inr c)" for fn c
    using add_schedules_matcher[OF assms(1) that] by (simp add: d')
  have a: "fires (timer_key p f) date d' \<longleftrightarrow> \<not> isClosed d \<and> (\<exists>fn c. oget ?es f = Some fn \<and> cron_of fn = Some (Inr c) \<and> cron_matches c date)"
    using m by (auto simp: fires_def closed own split: option.splits sum.splits)
  have b: "\<forall>j. oget (cronTimers d') (timer_key p f) = Some j \<longrightarrow> job_project j = p \<and> job_function j = f \<and> oget ?es f = Some (job_entry j)"
    by (auto simp: own split: option.splits sum.splits)
  have "fires k date d' = fires k date d" if "\<not> starts_with k (p @ '':'')"
    using that add_schedules_foreign[OF not_own_key[OF that], of ?es ?c] by (simp add: fires_def closed clear_project_get d'[symmetric])
  with a b show ?thesis by blast
qed

section \<open>Polls never regress\<close>

text \<open>The held snapshots are validated, and the server's own project is held twice, alike.\<close>

definition sync_ok :: "rt_options \<Rightarrow> 'p rt_daemon \<Rightarrow> bool" where
  "sync_ok ops d =
     (owf (projectSnapshots (node d)) \<and> oget (projectSnapshots (node d)) (o_projectId ops) = currentSnapshot (node d) \<and>
      (\<forall>p v. oget (projectSnapshots (node d)) p = Some v \<longrightarrow> validateRoutingSnapshot v = Inr v))"

definition at_least :: "jsval \<Rightarrow> jsval option \<Rightarrow> bool" where
  "at_least v x = (\<exists>v'. x = Some v' \<and> snapshot_version v \<le> snapshot_version v')"

lemma at_least_refl [simp]: "at_least v (Some v)"
  by (simp add: at_least_def)

lemma load_artifact_snapshots:
  "projectSnapshots (snd (load_artifact w ops aid s)) = projectSnapshots s" "currentSnapshot (snd (load_artifact w ops aid s)) = currentSnapshot s"
  by (auto simp: load_artifact_def cacheArtifactCode_def Let_def split: option.split)

lemma prewarm_snapshots [simp]:
  "projectSnapshots (node (prewarmSnapshotFunctions b w ops snap d)) = projectSnapshots (node d)"
  "currentSnapshot (node (prewarmSnapshotFunctions b w ops snap d)) = currentSnapshot (node d)"
  "isClosed (prewarmSnapshotFunctions b w ops snap d) = isClosed d"
proof -
  have "projectSnapshots (node (fold (prewarm_function w ops) es d)) = projectSnapshots (node d) \<and>
      currentSnapshot (node (fold (prewarm_function w ops) es d)) = currentSnapshot (node d) \<and> isClosed (fold (prewarm_function w ops) es d) = isClosed d" for es
    by (induction es arbitrary: d) (simp_all add: prewarm_function_def load_artifact_snapshots)
  then show "projectSnapshots (node (prewarmSnapshotFunctions b w ops snap d)) = projectSnapshots (node d)"
    "currentSnapshot (node (prewarmSnapshotFunctions b w ops snap d)) = currentSnapshot (node d)"
    "isClosed (prewarmSnapshotFunctions b w ops snap d) = isClosed d"
    by (simp_all add: prewarmSnapshotFunctions_def)
qed

lemma sync_node [simp]: "node (syncCronSchedules snap p d) = node d" "isClosed (syncCronSchedules snap p d) = isClosed d"
  by (simp_all add: syncCronSchedules_def add_schedules_rest clear_project_get)

lemma store_snapshot_simps [simp]:
  "projectSnapshots (node (store_snapshot ops b p v d)) = oset p v (projectSnapshots (node d))"
  "currentSnapshot (node (store_snapshot ops b p v d)) = (if p = o_projectId ops then Some v else currentSnapshot (node d))"
  "isClosed (store_snapshot ops b p v d) = isClosed d"
  by (simp_all add: store_snapshot_def Let_def)

text \<open>What one complete fetch does to the snapshots.\<close>

definition installs :: "rt_options \<Rightarrow> control_plane \<Rightarrow> string \<Rightarrow> 'p rt_daemon \<Rightarrow> jsval \<Rightarrow> bool" where
  "installs ops cp p d v =
     (nonempty (o_controlPlaneUrl ops) \<noteq> None \<and> \<not> isClosed d \<and>
      (\<exists>b. cp_snapshot cp p (map_option (\<lambda>v. jget v ''version'') (existing_snapshot ops p d)) = Body b \<and>
         validateRoutingSnapshot b = Inr v) \<and> is_newer v (existing_snapshot ops p d))"

lemma fetch_cases:
  "fetchSnapshotForProject dk0 hp w ops cp p d = d \<and> (\<nexists>v. installs ops cp p d v) \<or>
   (\<exists>v. installs ops cp p d v \<and> fetchSnapshotForProject dk0 hp w ops cp p d = prewarmSnapshotFunctions hp w ops v (store_snapshot ops dk0 p v d))"
  by (auto simp: fetchSnapshotForProject_def finish_fetch_def installs_def Let_def split: fetched.split sum.split)

lemma fetch_keeps:
  assumes "sync_ok ops d" "d' = fetchSnapshotForProject dk0 hp w ops cp p d"
  shows "sync_ok ops d' \<and> isClosed d' = isClosed d \<and> (\<forall>q v. oget (projectSnapshots (node d)) q = Some v \<longrightarrow> at_least v (oget (projectSnapshots (node d')) q)) \<and>
    (p \<noteq> o_projectId ops \<longrightarrow> currentSnapshot (node d') = currentSnapshot (node d))"
proof (cases "\<exists>v. installs ops cp p d v")
  case False
  then have "d' = d" using fetch_cases[of dk0 hp w ops cp p d] assms(2) by blast
  then show ?thesis using assms(1) by (auto simp: at_least_def)
next
  case True
  then obtain v where v: "installs ops cp p d v" "d' = prewarmSnapshotFunctions hp w ops v (store_snapshot ops dk0 p v d)"
    using fetch_cases[of dk0 hp w ops cp p d] assms(2) by blast
  have val: "validateRoutingSnapshot v = Inr v" using v(1) validated_version[of _ v] by (auto simp: installs_def)
  have old: "existing_snapshot ops p d = oget (projectSnapshots (node d)) p" using assms(1) by (simp add: existing_snapshot_def sync_ok_def)
  have "at_least u (Some v)" if "oget (projectSnapshots (node d)) p = Some u" for u
  proof -
    have "validateRoutingSnapshot u = Inr u" using assms(1) that by (auto simp: sync_ok_def)
    then show ?thesis using v(1) that old is_newer_validated[OF val, of u] by (auto simp: installs_def at_least_def)
  qed
  then show ?thesis using v(2) assms(1) val by (auto simp: sync_ok_def at_least_def)
qed

lemma fetches_keep:
  assumes "sync_ok ops d" "o_projectId ops \<notin> set ps" "d' = fold (fetchSnapshotForProject dk0 hp w ops cp) ps d"
  shows "sync_ok ops d' \<and> (\<forall>q v. oget (projectSnapshots (node d)) q = Some v \<longrightarrow> at_least v (oget (projectSnapshots (node d')) q)) \<and>
    currentSnapshot (node d') = currentSnapshot (node d)"
  using assms
proof (induction ps arbitrary: d)
  case Nil
  then show ?case by (auto simp: at_least_def)
next
  case (Cons p ps)
  let ?e = "fetchSnapshotForProject dk0 hp w ops cp p d"
  note k = fetch_keeps[OF Cons.prems(1) refl, of dk0 hp w cp p]
  have "sync_ok ops d' \<and> (\<forall>q v. oget (projectSnapshots (node ?e)) q = Some v \<longrightarrow> at_least v (oget (projectSnapshots (node d')) q)) \<and>
      currentSnapshot (node d') = currentSnapshot (node ?e)"
    using Cons.IH[of ?e] Cons.prems k by simp
  moreover have "at_least v (oget (projectSnapshots (node d')) q)" if a: "oget (projectSnapshots (node d)) q = Some v" for q v
  proof -
    obtain u where "oget (projectSnapshots (node ?e)) q = Some u" "snapshot_version v \<le> snapshot_version u" using k a by (auto simp: at_least_def)
    then show ?thesis using calculation by (fastforce simp: at_least_def)
  qed
  ultimately show ?case using k Cons.prems(2) by auto
qed

lemma drop_inactive_keeps:
  assumes "sync_ok ops d"
  shows "sync_ok ops (drop_inactive ops ps d) \<and> currentSnapshot (node (drop_inactive ops ps d)) = currentSnapshot (node d) \<and>
    oget (projectSnapshots (node (drop_inactive ops ps d))) p = (if p = o_projectId ops \<or> p \<in> set ps then oget (projectSnapshots (node d)) p else None)"
proof -
  have g: "oget (projectSnapshots (node (drop_inactive ops ps d))) p = (if p = o_projectId ops \<or> p \<in> set ps then oget (projectSnapshots (node d)) p else None)" for p
    using assms by (auto simp: drop_inactive_def sync_ok_def oget_filter split: option.split)
  then show ?thesis using assms by (auto simp: sync_ok_def) (simp_all add: drop_inactive_def sync_ok_def)
qed


section \<open>Samples, and ways around\<close>

definition sync_function :: "(string \<times> jsval) list \<Rightarrow> jsval" where
  "sync_function triggers =
     JObj [(''functionName'', JStr ''job''), (''revisionId'', JStr ''r1''), (''artifactId'', JStr ''sha256:job''), (''permissions'', JObj []),
           (''limits'', JObj [(''cpu_ms'', JNum (Fin 200)), (''timeout_ms'', JNum (Fin 1000)), (''memory_mb'', JNum (Fin 64))]),
           (''triggers'', JObj triggers)]"

definition sync_snapshot :: "rat \<Rightarrow> jsval" where
  "sync_snapshot n =
     JObj [(''snapshotId'', JStr (''snap_'' @ demo_ulid)), (''version'', JNum (Fin n)), (''routes'', JArr []),
           (''functions'', JObj [(''job'', sync_function [(''schedule'', JStr ''0 8 * * *'')])]), (''generatedAt'', JNum (Fin 0))]"

definition sync_daemon :: "rat \<Rightarrow> string rt_daemon" where
  "sync_daemon n =
     store_snapshot demo_options False ''shop'' (sync_snapshot n)
       (store_snapshot demo_options False ''home'' (sync_snapshot n)
          \<lparr>node = new_runtime (new_gw_limiter (\<lambda>_. None)), cronTimers = [], cronMatchers = [], isClosed = False, diskCache = None\<rparr>)"

definition at_eight :: moment where
  "at_eight = \<lparr>getMinutes = 0, getHours = 8, getDate = 1, getMonth = 0, getDay = 1\<rparr>"

definition newer_plane :: control_plane where
  "newer_plane = \<lparr>cp_snapshot = (\<lambda>p e. Body (sync_snapshot 2)), cp_projects = Some [''shop'']\<rparr>"

lemma sync_snapshot_valid: "validateRoutingSnapshot (sync_snapshot 1) = Inr (sync_snapshot 1)" "validateRoutingSnapshot (sync_snapshot 2) = Inr (sync_snapshot 2)"
  by code_simp+

lemma schedules_follow_snapshot_witness:
  "fires (timer_key ''home'' ''job'') at_eight (syncCronSchedules (sync_snapshot 2) ''home'' (sync_daemon 1)) \<and>
   \<not> fires (timer_key ''home'' ''job'') (at_eight\<lparr>getHours := 9\<rparr>) (syncCronSchedules (sync_snapshot 2) ''home'' (sync_daemon 1))"
proof -
  have w: "owf (functions_of (sync_snapshot 2))" by (simp add: owf_def functions_of_def sync_snapshot_def)
  have e: "\<not> isClosed (sync_daemon 1)" "oget (functions_of (sync_snapshot 2)) ''job'' = Some (sync_function [(''schedule'', JStr ''0 8 * * *'')])"
    "(case cron_of (sync_function [(''schedule'', JStr ''0 8 * * *'')]) of Some (Inr c) \<Rightarrow> cron_matches c at_eight \<and> \<not> cron_matches c (at_eight\<lparr>getHours := 9\<rparr>) | _ \<Rightarrow> False)"
    by code_simp+
  note t = schedules_follow_snapshot[OF w refl, where p = "''home''" and d = "sync_daemon 1" and f = "''job''" and k = "[]"]
  show ?thesis using e t[where date = at_eight] t[where date = "at_eight\<lparr>getHours := 9\<rparr>"] by (auto split: option.splits sum.splits)
qed


text \<open>
  A poll that outlives its timeout still holds the snapshot it knew at its start: its answer replaces a newer snapshot that came in between.
\<close>

lemma late_answer_regresses:
  "currentSnapshot (node (sync_daemon 3)) = Some (sync_snapshot 3) \<and>
   currentSnapshot (node (finish_fetch False False demo_world demo_options ''home'' (Some (sync_snapshot 1)) (Body (sync_snapshot 2)) (sync_daemon 3))) = Some (sync_snapshot 2)"
  by code_simp

text \<open>A project that the control plane no longer lists loses its snapshot but not its timers.\<close>

lemma removed_project_keeps_schedule:
  "let d = pollControlPlane False False demo_world demo_options \<lparr>cp_snapshot = (\<lambda>p e. NoAnswer), cp_projects = Some []\<rparr> (sync_daemon 1) in
   oget (projectSnapshots (node d)) ''shop'' = None \<and> fires (timer_key ''shop'' ''job'') at_eight d"
  by code_simp

text \<open>A function with the trigger \<open>default\<close> takes the messages of every queue from the functions that declare them after it.\<close>

lemma default_trigger_takes_all_queues:
  "map_option fst (queue_target ''orders''
     (JObj [(''functions'', JObj [(''mail'', sync_function [(''queue'', JStr ''default'')]), (''billing'', sync_function [(''queue'', JStr ''orders'')])])])) = Some ''mail''"
  by code_simp

end
