(* ===== verification/EgressProxy.thy ===== *)
theory EgressProxy
  imports IpBlocker Errors
begin

text \<open>
  The egress proxy (\<open>src/runtime/sandbox/egress-proxy.ts\<close>): the allowlist, the reading of a
  request from a client socket, the headers and the connection of the upstream request, the two
  handlers (forwarded requests and CONNECT tunnels) with the registration of invocations and the
  connection counters, and the runs of the proxy in which any number of requests are in flight.

  A handler is split at its awaits: what runs before the destination is validated, what runs when
  the validation has its result, and what runs when the upstream connection has answered or ended.
  Byte arrays are strings of characters below 256. The text decoder, the URL parser, the request
  constructor and the DNS resolver of the platform are parameters.
\<close>

unbundle bit_operations_syntax

section \<open>The allowlist\<close>

record ParsedAllowlistEntry =
  ae_host :: string
  ae_port :: "string option"

definition all_digits :: "string \<Rightarrow> bool" where
  "all_digits s = (s \<noteq> [] \<and> list_all is_digit s)"

text \<open>\<open>/^\[([a-fA-F0-9:]+)\](?::(\d+))?$/\<close>.\<close>

definition bracket_entry :: "string \<Rightarrow> (string \<times> string option) option" where
  "bracket_entry t =
     (case t of
        [] \<Rightarrow> None
      | c # r \<Rightarrow>
          let h = takeWhile (\<lambda>x. is_hex x \<or> x = CHR '':'') r; rest = drop (length h) r in
          if c \<noteq> CHR ''['' \<or> h = [] then None
          else if rest = '']'' then Some (h, None)
          else if take 2 rest = '']:'' \<and> all_digits (drop 2 rest) then Some (h, Some (drop 2 rest))
          else None)"

definition parseAllowlistEntry :: "string \<Rightarrow> ParsedAllowlistEntry" where
  "parseAllowlistEntry entry =
     (let trimmed = trim entry; whole = \<lparr>ae_host = to_lower trimmed, ae_port = None\<rparr> in
      case bracket_entry trimmed of
        Some (h, p) \<Rightarrow> \<lparr>ae_host = to_lower h, ae_port = p\<rparr>
      | None \<Rightarrow>
          (case last_index_of (CHR '':'') trimmed of
             None \<Rightarrow> whole
           | Some i \<Rightarrow>
               if CHR '']'' \<notin> set trimmed \<and> index_of (CHR '':'') trimmed = Some i \<and> all_digits (drop (i + 1) trimmed)
               then \<lparr>ae_host = to_lower (take i trimmed), ae_port = Some (drop (i + 1) trimmed)\<rparr>
               else whole))"

definition normalizeHostname :: "string \<Rightarrow> string" where
  "normalizeHostname h =
     (if starts_with h ''['' \<and> ends_with h '']'' then to_lower (butlast (tl h)) else to_lower h)"

record target_url =
  u_protocol :: string
  u_hostname :: string
  u_host :: string
  u_port :: string
  u_pathname :: string
  u_search :: string

definition getEffectivePort :: "target_url \<Rightarrow> string" where
  "getEffectivePort u =
     (if u_port u \<noteq> [] then u_port u
      else if u_protocol u = ''http:'' then ''80''
      else if u_protocol u = ''https:'' then ''443''
      else [])"

definition matchesAllowlistHostPort :: "string \<Rightarrow> string \<Rightarrow> string \<Rightarrow> bool" where
  "matchesAllowlistHostPort targetHost targetPort entry =
     (let e = parseAllowlistEntry entry; h = normalizeHostname targetHost in
      if ae_port e \<noteq> None \<and> ae_port e \<noteq> Some targetPort then False
      else if starts_with (ae_host e) ''*.'' then
        (let sfx = drop 2 (ae_host e) in ends_with h (CHR ''.'' # sfx) \<and> length sfx + 1 < length h)
      else h = ae_host e)"

definition matchesAllowlistEntry :: "target_url \<Rightarrow> string \<Rightarrow> bool" where
  "matchesAllowlistEntry u entry = matchesAllowlistHostPort (u_hostname u) (getEffectivePort u) entry"

section \<open>Responses\<close>

datatype net_body = NoBody | Json jsval | Stream string

record net_response =
  nr_status :: nat
  nr_statusText :: string
  nr_headers :: "(string, string) omap"
  nr_body :: net_body

definition HTTP_STATUS_FORBIDDEN :: nat where
  "HTTP_STATUS_FORBIDDEN = 403"

definition HTTP_STATUS_TOO_MANY_REQUESTS :: nat where
  "HTTP_STATUS_TOO_MANY_REQUESTS = 429"

definition HTTP_STATUS_BAD_GATEWAY :: nat where
  "HTTP_STATUS_BAD_GATEWAY = 502"

definition RETRY_AFTER_SECONDS :: string where
  "RETRY_AFTER_SECONDS = ''1''"

definition DEFAULT_MAX_CONCURRENT_CONNECTIONS :: int where
  "DEFAULT_MAX_CONCURRENT_CONNECTIONS = 6"

definition INVOCATION_ID_HEADER :: string where
  "INVOCATION_ID_HEADER = ''x-railfog-invocation-id''"

definition egress_error :: "error_code \<Rightarrow> string \<Rightarrow> rf_error" where
  "egress_error c m = \<lparr>err_code = c, err_message = m, err_requestId = None\<rparr>"

definition createErrorResponse :: "rf_error \<Rightarrow> nat \<Rightarrow> string option \<Rightarrow> net_response" where
  "createErrorResponse err status retryAfter =
     \<lparr>nr_status = status, nr_statusText = [],
      nr_headers = (''content-type'', ''application/json'') #
        (case retryAfter of None \<Rightarrow> [] | Some r \<Rightarrow> [(''retry-after'', r)]),
      nr_body = Json (toErrorResponseBody err)\<rparr>"

definition forbidden :: "string \<Rightarrow> net_response" where
  "forbidden m = createErrorResponse (egress_error PERMISSION_DENIED m) HTTP_STATUS_FORBIDDEN None"

definition limited :: net_response where
  "limited = createErrorResponse (egress_error RATE_LIMITED ''Outbound connection limit exceeded'')
     HTTP_STATUS_TOO_MANY_REQUESTS (Some RETRY_AFTER_SECONDS)"

definition bad_gateway :: "string \<Rightarrow> net_response" where
  "bad_gateway m = createErrorResponse (egress_error UNAVAILABLE m) HTTP_STATUS_BAD_GATEWAY None"

definition crlf :: string where
  "crlf = [CHR 0x0D, CHR 0x0A]"

definition writeRawHttpResponse :: "nat \<Rightarrow> string \<Rightarrow> string \<Rightarrow> (string \<times> string) list \<Rightarrow> string" where
  "writeRawHttpResponse status statusText body extraHeaders =
     ''HTTP/1.1 '' @ nat_str status @ '' '' @ statusText @ crlf @
     ''content-type: application/json'' @ crlf @
     ''content-length: '' @ nat_str (length body) @ crlf @
     ''connection: close'' @ crlf @
     concat (map (\<lambda>(k, v). k @ '': '' @ v @ crlf) extraHeaders) @ crlf @ body"

section \<open>Reading a request\<close>

definition MAX_HEADER_BUFFER_SIZE :: nat where
  "MAX_HEADER_BUFFER_SIZE = 65536"

definition findHeaderEnd :: "string \<Rightarrow> nat option" where
  "findHeaderEnd buf = List.find (\<lambda>i. take 4 (drop i buf) = crlf @ crlf) [0..<length buf - 3]"

text \<open>
  The chunks of \<open>readHttpHeaders\<close> are views (\<open>subarray\<close>) of the one read buffer, so a chunk is its
  length and shows what the buffer holds now; a read overwrites the front of the buffer. The list
  holds the bytes of the successive reads, its end is the end of the stream.
\<close>

fun read_loop :: "string \<Rightarrow> nat list \<Rightarrow> string list \<Rightarrow> (string \<times> string) option" where
  "read_loop buf chunks [] = None"
| "read_loop buf chunks (d # ds) =
     (if MAX_HEADER_BUFFER_SIZE \<le> sum_list chunks then None
      else let buf' = d @ drop (length d) buf; chunks' = chunks @ [length d];
               combined = concat (map (\<lambda>n. take n buf') chunks') in
           case findHeaderEnd combined of
             Some i \<Rightarrow> Some (take i combined, drop (i + 4) combined)
           | None \<Rightarrow> read_loop buf' chunks' ds)"

definition readHttpHeaders :: "string list \<Rightarrow> (string \<times> string) option" where
  "readHttpHeaders reads = read_loop (replicate 4096 (CHR 0x00)) [] reads"

fun percent_decode :: "string \<Rightarrow> string" where
  "percent_decode (c # a # b # r) =
     (if c = CHR ''%'' \<and> is_hex a \<and> is_hex b then char_of (16 * digit_val a + digit_val b) # percent_decode r
      else c # percent_decode (a # b # r))"
| "percent_decode s = s"

definition form_decode :: "(string \<Rightarrow> string) \<Rightarrow> string \<Rightarrow> string" where
  "form_decode dec s = dec (percent_decode (map (\<lambda>c. if c = CHR ''+'' then CHR '' '' else c) s))"

definition query_pair :: "(string \<Rightarrow> string) \<Rightarrow> string \<Rightarrow> string \<times> string" where
  "query_pair dec seg =
     (case index_of (CHR ''='') seg of
        None \<Rightarrow> (form_decode dec seg, [])
      | Some i \<Rightarrow> (form_decode dec (take i seg), form_decode dec (drop (i + 1) seg)))"

definition search_params :: "(string \<Rightarrow> string) \<Rightarrow> string \<Rightarrow> (string \<times> string) list" where
  "search_params dec q = map (query_pair dec) (filter (\<lambda>s. s \<noteq> []) (split_on (CHR ''&'') q))"

definition extractInvocationFromTarget :: "(string \<Rightarrow> string) \<Rightarrow> string \<Rightarrow> string option" where
  "extractInvocationFromTarget dec target =
     (case index_of (CHR ''?'') target of
        None \<Rightarrow> None
      | Some i \<Rightarrow> map_of (search_params dec (drop (i + 1) target)) ''invocationId'')"

text \<open>\<open>text.split("\r\n")\<close>.\<close>

fun split_crlf :: "string \<Rightarrow> string list" where
  "split_crlf [] = [[]]"
| "split_crlf [c] = [[c]]"
| "split_crlf (c # d # r) =
     (if [c, d] = crlf then [] # split_crlf r
      else (case split_crlf (d # r) of [] \<Rightarrow> [[c]] | y # ys \<Rightarrow> (c # y) # ys))"

text \<open>
  \<open>Headers.append\<close>: names are tokens and compared in lower case, a value holds no NUL, CR or LF,
  and a second value is joined to the first; anything else throws (\<open>None\<close>).
\<close>

definition is_token_char :: "char \<Rightarrow> bool" where
  "is_token_char c =
     (is_digit c \<or> 65 \<le> code c \<and> code c \<le> 90 \<or> 97 \<le> code c \<and> code c \<le> 122 \<or>
      c \<in> set ''!#$%&*+-.^_`|~'' \<or> code c = 39)"

definition ascii_lower :: "string \<Rightarrow> string" where
  "ascii_lower s = map (\<lambda>c. if 65 \<le> code c \<and> code c \<le> 90 then char_of (code c + 32) else c) s"

definition headers_append :: "string \<Rightarrow> string \<Rightarrow> (string, string) omap \<Rightarrow> (string, string) omap option" where
  "headers_append name v hs =
     (if name = [] \<or> \<not> list_all is_token_char name \<or> \<not> list_all (\<lambda>c. code c \<notin> {0, 10, 13}) v then None
      else let k = ascii_lower name in
           Some (oset k (case oget hs k of None \<Rightarrow> v | Some v0 \<Rightarrow> v0 @ '', '' @ v) hs))"

fun header_lines :: "string list \<Rightarrow> (string, string) omap \<Rightarrow> (string, string) omap option" where
  "header_lines [] hs = Some hs"
| "header_lines (l # ls) hs =
     (case index_of (CHR '':'') l of
        None \<Rightarrow> header_lines ls hs
      | Some i \<Rightarrow> Option.bind (headers_append (trim (take i l)) (trim (drop (i + 1) l)) hs) (header_lines ls))"

datatype parsed_request =
    Dropped
  | Failed
  | Tunnel string string string
  | Forward string string "(string, string) omap" string string

text \<open>
  \<open>handleConnection\<close> up to the choice of the handler: the target, the invocation and the bytes
  read past the headers of a tunnel; method, target, headers, left-over bytes and invocation of a
  forwarded request; \<open>Failed\<close> when the header object refuses a line.
\<close>

definition handleConnection :: "(string \<Rightarrow> string) \<Rightarrow> string list \<Rightarrow> parsed_request" where
  "handleConnection dec reads =
     (case readHttpHeaders reads of
        None \<Rightarrow> Dropped
      | Some (headerBytes, leftoverBytes) \<Rightarrow>
          let ls = split_crlf (dec headerBytes); parts = split_on (CHR '' '') (hd ls) in
          if hd parts = [] \<or> length parts < 2 \<or> parts ! 1 = [] then Dropped
          else let meth = parts ! 0; target = parts ! 1 in
            case header_lines (tl ls) [] of
              None \<Rightarrow> Failed
            | Some hs \<Rightarrow>
                let invocationId = or_default (or_else (oget hs INVOCATION_ID_HEADER) (extractInvocationFromTarget dec target)) [] in
                if to_upper meth = ''CONNECT'' then Tunnel target invocationId leftoverBytes
                else Forward meth target hs leftoverBytes invocationId)"

section \<open>The upstream request\<close>

record net_request =
  nq_method :: string
  nq_url :: string
  nq_headers :: "(string, string) omap"
  nq_body :: "string list option"

definition hop_headers :: "string list" where
  "hop_headers = [''host'', ''connection'', ''keep-alive'', ''proxy-authenticate'', ''proxy-authorization'', ''te'',
     ''trailer'', ''transfer-encoding'', ''upgrade'']"

definition sanitizeForwardHeaders :: "(string, string) omap \<Rightarrow> (string, string) omap" where
  "sanitizeForwardHeaders hs =
     filter (\<lambda>(k, v). to_lower k \<noteq> INVOCATION_ID_HEADER \<and> to_lower k \<notin> set hop_headers) hs"

record upstream_options =
  uo_host :: string
  uo_port :: int
  uo_method :: string
  uo_path :: string
  uo_headers :: "(string, string) omap"
  uo_servername :: "string option"
  uo_body :: "string list"

text \<open>The request \<open>dispatchUpstream\<close> sends, and the response it makes of the upstream answer.\<close>

definition dispatchUpstream :: "net_request \<Rightarrow> string \<Rightarrow> target_url \<Rightarrow> upstream_options" where
  "dispatchUpstream rq validatedIp u =
     (let isHttps = (u_protocol u = ''https:'') in
      \<lparr>uo_host = validatedIp,
       uo_port = (if u_port u \<noteq> [] then digits_val 10 (u_port u) else if isHttps then 443 else 80),
       uo_method = nq_method rq, uo_path = u_pathname u @ u_search u,
       uo_headers = oset ''host'' (u_host u) (sanitizeForwardHeaders (nq_headers rq)),
       uo_servername = (if isHttps then Some (u_hostname u) else None),
       uo_body = (if nq_method rq \<noteq> ''GET'' \<and> nq_method rq \<noteq> ''HEAD'' then or_default (nq_body rq) [] else [])\<rparr>)"

datatype header_value = One string | Many "string list"

record upstream_answer =
  ua_status :: "nat option"
  ua_message :: "string option"
  ua_headers :: "(string \<times> header_value) list"
  ua_chunks :: "string list"

definition append_value :: "string \<Rightarrow> string \<Rightarrow> (string, string) omap \<Rightarrow> (string, string) omap" where
  "append_value k v hs = oset k (case oget hs k of None \<Rightarrow> v | Some v0 \<Rightarrow> v0 @ '', '' @ v) hs"

fun add_answer_header :: "string \<times> header_value \<Rightarrow> (string, string) omap \<Rightarrow> (string, string) omap" where
  "add_answer_header (k, One v) hs = oset k v hs"
| "add_answer_header (k, Many vs) hs = fold (append_value k) vs hs"

definition upstream_response :: "upstream_answer \<Rightarrow> net_response" where
  "upstream_response a =
     \<lparr>nr_status = or_default (ua_status a) 200, nr_statusText = or_default (ua_message a) ''OK'',
      nr_headers = fold add_answer_header (ua_headers a) [], nr_body = Stream (concat (ua_chunks a))\<rparr>"

section \<open>The body of a forwarded request\<close>

text \<open>
  \<open>subarray(0, n)\<close>: a negative end counts from the back.
\<close>

definition subarray0 :: "int \<Rightarrow> string \<Rightarrow> string" where
  "subarray0 n bs = take (nat (if n < 0 then int (length bs) + n else n)) bs"

text \<open>
  The declared length: \<open>None\<close> without the header (or with an empty one), \<open>Some None\<close> for NaN.
\<close>

definition content_length :: "(string, string) omap \<Rightarrow> int option option" where
  "content_length hs =
     (case oget hs ''content-length'' of None \<Rightarrow> None | Some s \<Rightarrow> if s = [] then None else Some (parseInt s 10))"

fun reached :: "int option option \<Rightarrow> int \<Rightarrow> bool" where
  "reached (Some (Some n)) bytes = (n \<le> bytes)"
| "reached _ bytes = False"

fun clip :: "int option option \<Rightarrow> int \<Rightarrow> string \<Rightarrow> string" where
  "clip (Some (Some n)) bytes bs = (if n < bytes + int (length bs) then subarray0 (n - bytes) bs else bs)"
| "clip _ bytes bs = bs"

text \<open>One \<open>pull\<close> after another on the bytes of the socket, the left-over bytes sent before.\<close>

fun pull_socket :: "int option option \<Rightarrow> int \<Rightarrow> string list \<Rightarrow> string list" where
  "pull_socket cl bytesRead [] = []"
| "pull_socket cl bytesRead (v # vs) =
     (if reached cl bytesRead then []
      else let toEnqueue = clip cl bytesRead v in toEnqueue # pull_socket cl (bytesRead + int (length toEnqueue)) vs)"

definition body_chunks :: "int option option \<Rightarrow> string \<Rightarrow> string list \<Rightarrow> string list" where
  "body_chunks cl leftoverBytes socket =
     (if leftoverBytes = [] then pull_socket cl 0 socket
      else let toSend = clip cl 0 leftoverBytes in toSend # pull_socket cl (int (length toSend)) socket)"

definition forward_body :: "string \<Rightarrow> (string, string) omap \<Rightarrow> string \<Rightarrow> string list \<Rightarrow> string list option" where
  "forward_body meth hs leftoverBytes socket =
     (if meth = ''GET'' \<or> meth = ''HEAD'' \<or> content_length hs = Some (Some 0) then None
      else Some (body_chunks (content_length hs) leftoverBytes socket))"

definition full_url :: "string \<Rightarrow> (string, string) omap \<Rightarrow> string" where
  "full_url target hs =
     (if starts_with target ''http://'' \<or> starts_with target ''https://'' then target
      else ''http://'' @ or_default (oget hs ''host'') ''127.0.0.1'' @ target)"

text \<open>
  \<open>handleHttpForward\<close> up to the handler: the request constructor \<open>mk\<close> gives the serialised URL
  and the method of the request, or throws (\<open>None\<close>). Then what it writes back.
\<close>

definition handleHttpForward ::
  "(string \<Rightarrow> string \<Rightarrow> bool \<Rightarrow> (string \<times> string) option) \<Rightarrow> string \<Rightarrow> string \<Rightarrow> (string, string) omap \<Rightarrow> string \<Rightarrow> string list \<Rightarrow> net_request option" where
  "handleHttpForward mk meth target hs leftoverBytes socket =
     (let body = forward_body meth hs leftoverBytes socket in
      map_option (\<lambda>(url, m). \<lparr>nq_method = m, nq_url = url, nq_headers = hs, nq_body = body\<rparr>) (mk (full_url target hs) meth (body \<noteq> None)))"

definition response_head :: "net_response \<Rightarrow> string" where
  "response_head r =
     ''HTTP/1.1 '' @ nat_str (nr_status r) @ '' '' @ (if nr_statusText r = [] then ''OK'' else nr_statusText r) @ crlf @
     concat (map (\<lambda>(k, v). k @ '': '' @ v @ crlf) (nr_headers r)) @ ''connection: close'' @ crlf @ crlf"

section \<open>Invocations and their connections\<close>

record InvocationNetworkContext =
  nc_invocationId :: string
  nc_allowlist :: "string list"
  nc_maxConcurrentConnections :: "int option"

text \<open>A socket is the connection of a client (\<open>False\<close>) or its upstream connection (\<open>True\<close>).\<close>

record proxy =
  invocations :: "(string, InvocationNetworkContext) omap"
  activeConnections :: "(string, int) omap"
  openSockets :: "(nat \<times> bool) set"
  closed :: bool

definition registerInvocation :: "InvocationNetworkContext \<Rightarrow> proxy \<Rightarrow> proxy" where
  "registerInvocation ctx st =
     (let st1 = st\<lparr>invocations := oset (nc_invocationId ctx) ctx (invocations st)\<rparr> in
      if oget (activeConnections st) (nc_invocationId ctx) = None
      then st1\<lparr>activeConnections := oset (nc_invocationId ctx) 0 (activeConnections st)\<rparr>
      else st1)"

definition unregisterInvocation :: "string \<Rightarrow> proxy \<Rightarrow> proxy" where
  "unregisterInvocation i st =
     st\<lparr>invocations := odel i (invocations st), activeConnections := odel i (activeConnections st)\<rparr>"

definition getActiveConnectionCount :: "string \<Rightarrow> proxy \<Rightarrow> int" where
  "getActiveConnectionCount i st = or_default (oget (activeConnections st) i) 0"

definition incrementActiveConnections :: "string \<Rightarrow> proxy \<Rightarrow> proxy" where
  "incrementActiveConnections i st =
     st\<lparr>activeConnections := oset i (getActiveConnectionCount i st + 1) (activeConnections st)\<rparr>"

definition decrementActiveConnections :: "string \<Rightarrow> proxy \<Rightarrow> proxy" where
  "decrementActiveConnections i st =
     (case oget (activeConnections st) i of
        None \<Rightarrow> st
      | Some n \<Rightarrow>
          if n \<le> 1 then st\<lparr>activeConnections := odel i (activeConnections st)\<rparr>
          else st\<lparr>activeConnections := oset i (n - 1) (activeConnections st)\<rparr>)"

definition maxConnections :: "InvocationNetworkContext \<Rightarrow> int" where
  "maxConnections ctx = or_default (nc_maxConcurrentConnections ctx) DEFAULT_MAX_CONCURRENT_CONNECTIONS"

definition close :: "proxy \<Rightarrow> proxy" where
  "close st = (if closed st then st else st\<lparr>closed := True, openSockets := {}\<rparr>)"

section \<open>The handlers\<close>

record pending =
  pd_invocation :: string
  pd_max :: int
  pd_host :: string
  pd_port :: string

text \<open>\<open>handleRequest\<close> up to the validation of the destination.\<close>

definition not_registered :: string where
  "not_registered = ''Invocation not registered or context missing''"

definition empty_allowlist :: string where
  "empty_allowlist = ''Network access not permitted: allowlist is empty''"

definition not_allowed :: "string \<Rightarrow> string" where
  "not_allowed h = ''Destination '' @ h @ '' is not permitted by network allowlist''"

definition handleRequest_start :: "(string \<Rightarrow> target_url option) \<Rightarrow> net_request \<Rightarrow> string \<Rightarrow> proxy \<Rightarrow> net_response + target_url \<times> pending" where
  "handleRequest_start parse_url rq i st =
     (case oget (invocations st) i of
        None \<Rightarrow> Inl (forbidden not_registered)
      | Some ctx \<Rightarrow>
          if maxConnections ctx \<le> getActiveConnectionCount i st then Inl limited
          else if nc_allowlist ctx = [] then Inl (forbidden empty_allowlist)
          else (case parse_url (nq_url rq) of
              None \<Rightarrow> Inl (forbidden (''Invalid outbound destination URL: '' @ nq_url rq))
            | Some u \<Rightarrow>
                if u_protocol u \<noteq> ''http:'' \<and> u_protocol u \<noteq> ''https:'' \<and> nq_method rq \<noteq> ''CONNECT''
                then Inl (forbidden (''Unsupported protocol scheme: '' @ u_protocol u))
                else if \<not> list_ex (matchesAllowlistEntry u) (nc_allowlist ctx) then Inl (forbidden (not_allowed (u_hostname u)))
                else Inr (u, \<lparr>pd_invocation = i, pd_max = maxConnections ctx, pd_host = normalizeHostname (u_hostname u),
                              pd_port = getEffectivePort u\<rparr>)))"

text \<open>What both handlers do with the result of the validation.\<close>

definition validated :: "pending \<Rightarrow> block_result res \<Rightarrow> proxy \<Rightarrow> net_response + string" where
  "validated p result st =
     (case result of
        Inl e \<Rightarrow> Inl (forbidden (''DNS resolution failed for destination '' @ pd_host p @ '': '' @ exn_message e))
      | Inr r \<Rightarrow>
          if blocked r then Inl (forbidden (or_default (reason r) (''Destination '' @ pd_host p @ '' is blocked by network policy'')))
          else if pd_max p \<le> getActiveConnectionCount (pd_invocation p) st then Inl limited
          else Inr (res_ip r))"

definition handleRequest_resolved :: "net_request \<Rightarrow> target_url \<Rightarrow> pending \<Rightarrow> block_result res \<Rightarrow> proxy \<Rightarrow> (net_response + upstream_options) \<times> proxy" where
  "handleRequest_resolved rq u p result st =
     (case validated p result st of
        Inl r \<Rightarrow> (Inl r, st)
      | Inr ip \<Rightarrow>
          if nq_method rq = ''CONNECT''
          then (Inl \<lparr>nr_status = 200, nr_statusText = ''Connection Established'', nr_headers = [], nr_body = NoBody\<rparr>, st)
          else (Inr (dispatchUpstream rq ip u), incrementActiveConnections (pd_invocation p) st))"

definition upstream_failed :: net_response where
  "upstream_failed = bad_gateway ''Bad Gateway: Upstream connection failed''"

definition handleRequest_done :: "string \<Rightarrow> upstream_answer option \<Rightarrow> proxy \<Rightarrow> net_response \<times> proxy" where
  "handleRequest_done i answer st =
     (case answer of None \<Rightarrow> upstream_failed | Some a \<Rightarrow> upstream_response a, decrementActiveConnections i st)"

text \<open>The whole handler when nothing else runs between its parts, with the request it sent.\<close>

definition handleRequest ::
  "blocker \<Rightarrow> (string \<Rightarrow> target_url option) \<Rightarrow> (string \<Rightarrow> string list res) \<Rightarrow> (upstream_options \<Rightarrow> upstream_answer option) \<Rightarrow>
   net_request \<Rightarrow> string \<Rightarrow> proxy \<Rightarrow> net_response \<times> upstream_options option \<times> proxy" where
  "handleRequest b parse_url dns upstream rq i st =
     (case handleRequest_start parse_url rq i st of
        Inl r \<Rightarrow> (r, None, st)
      | Inr (u, p) \<Rightarrow>
          (case handleRequest_resolved rq u p (validateDestination b dns (pd_host p)) st of
             (Inl r, st1) \<Rightarrow> (r, None, st1)
           | (Inr opts, st1) \<Rightarrow> (case handleRequest_done i (upstream opts) st1 of (r, st2) \<Rightarrow> (r, Some opts, st2))))"

text \<open>\<open>handleConnectTunnel\<close>, split the same way: a tunnel is connected to an address and a port.\<close>

definition tunnel_port :: "string \<Rightarrow> int" where
  "tunnel_port target = (case ae_port (parseAllowlistEntry target) of None \<Rightarrow> 443 | Some p \<Rightarrow> digits_val 10 p)"

definition handleConnectTunnel_start :: "string \<Rightarrow> string \<Rightarrow> proxy \<Rightarrow> net_response + pending" where
  "handleConnectTunnel_start target i st =
     (case oget (invocations st) i of
        None \<Rightarrow> Inl (forbidden not_registered)
      | Some ctx \<Rightarrow>
          if maxConnections ctx \<le> getActiveConnectionCount i st then Inl limited
          else if nc_allowlist ctx = [] then Inl (forbidden empty_allowlist)
          else let h = ae_host (parseAllowlistEntry target); destPort = int_str (tunnel_port target) in
            if \<not> list_ex (matchesAllowlistHostPort h destPort) (nc_allowlist ctx) then Inl (forbidden (not_allowed h))
            else Inr \<lparr>pd_invocation = i, pd_max = maxConnections ctx, pd_host = h, pd_port = destPort\<rparr>)"

definition handleConnectTunnel_resolved :: "pending \<Rightarrow> block_result res \<Rightarrow> proxy \<Rightarrow> (net_response + string) \<times> proxy" where
  "handleConnectTunnel_resolved p result st =
     (case validated p result st of
        Inl r \<Rightarrow> (Inl r, st)
      | Inr ip \<Rightarrow> (Inr ip, incrementActiveConnections (pd_invocation p) st))"

definition handleConnectTunnel_connected :: "nat \<Rightarrow> proxy \<Rightarrow> proxy" where
  "handleConnectTunnel_connected c st = st\<lparr>openSockets := insert (c, True) (openSockets st)\<rparr>"

definition handleConnectTunnel_done :: "nat \<Rightarrow> string \<Rightarrow> proxy \<Rightarrow> proxy" where
  "handleConnectTunnel_done c i st =
     (let st1 = decrementActiveConnections i st in st1\<lparr>openSockets := openSockets st1 - {(c, True)}\<rparr>)"

section \<open>Runs with many requests in flight\<close>

text \<open>
  A run is a sequence of events: the runtime registers and unregisters invocations, the handler is
  called directly or a client connects, the resolver answers, a tunnel is connected, an upstream
  connection answers or ends, the body of a forwarded response has been passed on, and the proxy
  is closed. Each request has a number; what it waits for is its flight.
\<close>

datatype flight =
    HttpWaiting net_request target_url pending
  | TunnelWaiting pending
  | HttpOpen string
  | TunnelOpen string
  | Draining string

record contact =
  ct_invocation :: string
  ct_host :: string
  ct_port :: string
  ct_ip :: string

record run_state =
  px :: proxy
  flights :: "(nat, flight) omap"
  contacts :: "contact list"

record platform =
  pl_decode :: "string \<Rightarrow> string"
  pl_url :: "string \<Rightarrow> target_url option"
  pl_request :: "string \<Rightarrow> string \<Rightarrow> bool \<Rightarrow> (string \<times> string) option"

datatype event =
    Register InvocationNetworkContext
  | Unregister string
  | Direct nat net_request string
  | Client nat "string list" "string list"
  | Resolved nat "string list res"
  | Connected nat
  | Finished nat "upstream_answer option"
  | Drained nat
  | Close

definition finish_flight :: "nat \<Rightarrow> run_state \<Rightarrow> run_state" where
  "finish_flight c w =
     w\<lparr>px := (px w)\<lparr>openSockets := openSockets (px w) - {(c, False)}\<rparr>, flights := odel c (flights w)\<rparr>"

definition start_http :: "platform \<Rightarrow> nat \<Rightarrow> net_request \<Rightarrow> string \<Rightarrow> run_state \<Rightarrow> run_state" where
  "start_http pl c rq i w =
     (case handleRequest_start (pl_url pl) rq i (px w) of
        Inl _ \<Rightarrow> finish_flight c w
      | Inr (u, p) \<Rightarrow> w\<lparr>flights := oset c (HttpWaiting rq u p) (flights w)\<rparr>)"

definition start_tunnel :: "nat \<Rightarrow> string \<Rightarrow> string \<Rightarrow> run_state \<Rightarrow> run_state" where
  "start_tunnel c target i w =
     (case handleConnectTunnel_start target i (px w) of
        Inl _ \<Rightarrow> finish_flight c w
      | Inr p \<Rightarrow> w\<lparr>flights := oset c (TunnelWaiting p) (flights w)\<rparr>)"

definition accept_client :: "platform \<Rightarrow> nat \<Rightarrow> string list \<Rightarrow> string list \<Rightarrow> run_state \<Rightarrow> run_state" where
  "accept_client pl c reads socket w =
     (let w1 = w\<lparr>px := (px w)\<lparr>openSockets := insert (c, False) (openSockets (px w))\<rparr>\<rparr> in
      case handleConnection (pl_decode pl) reads of
        Dropped \<Rightarrow> finish_flight c w1
      | Failed \<Rightarrow> finish_flight c w1
      | Tunnel target i _ \<Rightarrow> start_tunnel c target i w1
      | Forward meth target hs leftover i \<Rightarrow>
          (case handleHttpForward (pl_request pl) meth target hs leftover socket of
             None \<Rightarrow> finish_flight c w1
           | Some rq \<Rightarrow> start_http pl c rq i w1))"

definition resolved :: "blocker \<Rightarrow> nat \<Rightarrow> string list res \<Rightarrow> run_state \<Rightarrow> run_state" where
  "resolved b c ips w =
     (case oget (flights w) c of
        Some (HttpWaiting rq u p) \<Rightarrow>
          (case handleRequest_resolved rq u p (validateDestination b (\<lambda>_. ips) (pd_host p)) (px w) of
             (Inl _, st) \<Rightarrow> finish_flight c (w\<lparr>px := st\<rparr>)
           | (Inr opts, st) \<Rightarrow>
               \<lparr>px = st, flights = oset c (HttpOpen (pd_invocation p)) (flights w),
                contacts = contacts w @ [\<lparr>ct_invocation = pd_invocation p, ct_host = u_hostname u, ct_port = pd_port p, ct_ip = uo_host opts\<rparr>]\<rparr>)
      | Some (TunnelWaiting p) \<Rightarrow>
          (case handleConnectTunnel_resolved p (validateDestination b (\<lambda>_. ips) (pd_host p)) (px w) of
             (Inl _, st) \<Rightarrow> finish_flight c (w\<lparr>px := st\<rparr>)
           | (Inr ip, st) \<Rightarrow>
               \<lparr>px = st, flights = oset c (TunnelOpen (pd_invocation p)) (flights w),
                contacts = contacts w @ [\<lparr>ct_invocation = pd_invocation p, ct_host = pd_host p, ct_port = pd_port p, ct_ip = ip\<rparr>]\<rparr>)
      | _ \<Rightarrow> w)"

fun step :: "blocker \<Rightarrow> platform \<Rightarrow> event \<Rightarrow> run_state \<Rightarrow> run_state" where
  "step b pl (Register ctx) w = w\<lparr>px := registerInvocation ctx (px w)\<rparr>"
| "step b pl (Unregister i) w = w\<lparr>px := unregisterInvocation i (px w)\<rparr>"
| "step b pl (Direct c rq i) w = (if oget (flights w) c \<noteq> None then w else start_http pl c rq i w)"
| "step b pl (Client c reads socket) w = (if closed (px w) \<or> oget (flights w) c \<noteq> None then w else accept_client pl c reads socket w)"
| "step b pl (Resolved c ips) w = resolved b c ips w"
| "step b pl (Connected c) w =
     (case oget (flights w) c of Some (TunnelOpen i) \<Rightarrow> w\<lparr>px := handleConnectTunnel_connected c (px w)\<rparr> | _ \<Rightarrow> w)"
| "step b pl (Finished c answer) w =
     (case oget (flights w) c of
        Some (HttpOpen i) \<Rightarrow> w\<lparr>px := snd (handleRequest_done i answer (px w)), flights := oset c (Draining i) (flights w)\<rparr>
      | Some (TunnelOpen i) \<Rightarrow> finish_flight c (w\<lparr>px := handleConnectTunnel_done c i (px w)\<rparr>)
      | _ \<Rightarrow> w)"
| "step b pl (Drained c) w = (case oget (flights w) c of Some (Draining i) \<Rightarrow> finish_flight c w | _ \<Rightarrow> w)"
| "step b pl Close w = w\<lparr>px := close (px w)\<rparr>"

definition initial :: run_state where
  "initial = \<lparr>px = \<lparr>invocations = [], activeConnections = [], openSockets = {}, closed = False\<rparr>, flights = [], contacts = []\<rparr>"

definition run :: "blocker \<Rightarrow> platform \<Rightarrow> event list \<Rightarrow> run_state" where
  "run b pl es = fold (step b pl) es initial"

text \<open>The connections of an invocation that hold one of its slots.\<close>

fun holds_slot :: "string \<Rightarrow> flight \<Rightarrow> bool" where
  "holds_slot i (HttpOpen j) = (j = i)"
| "holds_slot i (TunnelOpen j) = (j = i)"
| "holds_slot i _ = False"

definition slots :: "string \<Rightarrow> (nat, flight) omap \<Rightarrow> nat" where
  "slots i fs = length (filter (\<lambda>e. holds_slot i (snd e)) fs)"

definition open_connections :: "string \<Rightarrow> run_state \<Rightarrow> nat" where
  "open_connections i w = slots i (flights w)"

fun waiting_for :: "flight \<Rightarrow> pending option" where
  "waiting_for (HttpWaiting rq u p) = Some p"
| "waiting_for (TunnelWaiting p) = Some p"
| "waiting_for _ = None"

fun asked_host :: "flight \<Rightarrow> string" where
  "asked_host (HttpWaiting rq u p) = u_hostname u"
| "asked_host (TunnelWaiting p) = pd_host p"
| "asked_host _ = []"

section \<open>Counting open connections\<close>

lemma run_snoc: "run b pl (es @ [e]) = step b pl e (run b pl es)"
  by (simp add: run_def)

lemma owf_oset_split: "owf m \<Longrightarrow> oget m k = Some v \<Longrightarrow> \<exists>a b. m = a @ (k, v) # b \<and> (\<forall>v'. oset k v' m = a @ (k, v') # b) \<and> odel k m = a @ b"
proof (induction m)
  case (Cons e m)
  obtain k' v0 where e: "e = (k', v0)" by (cases e)
  show ?case
  proof (cases "k' = k")
    case True
    have "k \<notin> fst ` set m" using Cons.prems(1) e True by (simp add: owf_def)
    then have "filter (\<lambda>e. fst e \<noteq> k) m = m" by (intro filter_True) force
    then show ?thesis using e True Cons.prems by (intro exI[of _ "[]"] exI[of _ m]) (auto simp: odel_def)
  next
    case False
    have "owf m" using Cons.prems(1) by (simp add: owf_def)
    with Cons e False obtain a b where
      "m = a @ (k, v) # b \<and> (\<forall>v'. oset k v' m = a @ (k, v') # b) \<and> odel k m = a @ b" by auto
    then show ?thesis using e False by (intro exI[of _ "(k', v0) # a"] exI[of _ b]) (auto simp: odel_def)
  qed
qed simp

lemma oset_fresh: "oget m k = None \<Longrightarrow> oset k v m = m @ [(k, v)]"
  by (induction m) (auto split: if_splits)

lemma odel_fresh: "oget m k = None \<Longrightarrow> odel k m = m"
  by (induction m) (auto simp: odel_def split: if_splits)

text \<open>How the number of slots changes when one flight is replaced or removed.\<close>

definition slot :: "string \<Rightarrow> flight option \<Rightarrow> nat" where
  "slot i f = (case f of None \<Rightarrow> 0 | Some x \<Rightarrow> if holds_slot i x then 1 else 0)"

lemma slots_oset: "owf fs \<Longrightarrow> slots i (oset c f fs) + slot i (oget fs c) = slots i fs + slot i (Some f)"
proof (cases "oget fs c")
  case None
  then show ?thesis by (simp add: oset_fresh slots_def slot_def)
next
  case (Some g)
  assume "owf fs"
  then obtain a d where "fs = a @ (c, g) # d" "oset c f fs = a @ (c, f) # d" using owf_oset_split[OF _ Some] by blast
  then show ?thesis using Some by (simp add: slots_def slot_def)
qed

lemma slots_odel: "owf fs \<Longrightarrow> slots i (odel c fs) + slot i (oget fs c) = slots i fs"
proof (cases "oget fs c")
  case None
  then show ?thesis by (simp add: odel_fresh slot_def)
next
  case (Some g)
  assume "owf fs"
  then obtain a d where "fs = a @ (c, g) # d" "odel c fs = a @ d" using owf_oset_split[OF _ Some] by blast
  then show ?thesis using Some by (simp add: slots_def slot_def)
qed

lemma slots_zero: "slots i fs = 0 \<Longrightarrow> owf fs \<Longrightarrow> slot i (oget fs c) = 0"
  using slots_odel[of fs i c] by simp

section \<open>The connection limit\<close>

lemma count_register [simp]: "getActiveConnectionCount i (registerInvocation ctx st) = getActiveConnectionCount i st"
  by (auto simp: getActiveConnectionCount_def registerInvocation_def Let_def)

lemma count_unregister [simp]:
  "getActiveConnectionCount i (unregisterInvocation j st) = (if j = i then 0 else getActiveConnectionCount i st)"
  by (auto simp: getActiveConnectionCount_def unregisterInvocation_def)

lemma count_increment [simp]:
  "getActiveConnectionCount i (incrementActiveConnections j st) = getActiveConnectionCount i st + (if j = i then 1 else 0)"
  by (auto simp: getActiveConnectionCount_def incrementActiveConnections_def)

lemma count_decrement:
  "getActiveConnectionCount i (decrementActiveConnections j st) =
     (if j = i \<and> 1 \<le> getActiveConnectionCount i st then getActiveConnectionCount i st - 1
      else if j = i \<and> oget (activeConnections st) i \<noteq> None then 0 else getActiveConnectionCount i st)"
  by (auto simp: getActiveConnectionCount_def decrementActiveConnections_def split: option.split)

lemma count_sockets [simp]: "getActiveConnectionCount i (st\<lparr>openSockets := x\<rparr>) = getActiveConnectionCount i st"
  "getActiveConnectionCount i (handleConnectTunnel_connected c st) = getActiveConnectionCount i st"
  "getActiveConnectionCount i (handleConnectTunnel_done c j st) = getActiveConnectionCount i (decrementActiveConnections j st)"
  "getActiveConnectionCount i (close st) = getActiveConnectionCount i st"
  by (simp_all add: getActiveConnectionCount_def handleConnectTunnel_connected_def handleConnectTunnel_done_def close_def Let_def)

lemma invocations_kept [simp]:
  "invocations (incrementActiveConnections j st) = invocations st"
  "invocations (decrementActiveConnections j st) = invocations st"
  "invocations (handleConnectTunnel_connected c st) = invocations st"
  "invocations (handleConnectTunnel_done c j st) = invocations st"
  "invocations (close st) = invocations st"
  by (simp_all add: incrementActiveConnections_def decrementActiveConnections_def handleConnectTunnel_connected_def
      handleConnectTunnel_done_def close_def Let_def split: option.split)

lemma invocations_register [simp]: "invocations (registerInvocation ctx st) = oset (nc_invocationId ctx) ctx (invocations st)"
  by (simp add: registerInvocation_def Let_def)

lemma invocations_unregister [simp]: "invocations (unregisterInvocation i st) = odel i (invocations st)"
  by (simp add: unregisterInvocation_def)

lemma finish_flight_fields [simp]:
  "flights (finish_flight c w) = odel c (flights w)" "contacts (finish_flight c w) = contacts w"
  "invocations (px (finish_flight c w)) = invocations (px w)"
  "getActiveConnectionCount i (px (finish_flight c w)) = getActiveConnectionCount i (px w)"
  by (simp_all add: finish_flight_def)

lemma start_http_pending:
  assumes "handleRequest_start parse rq i st = Inr (u, p)"
  shows "\<exists>ctx. oget (invocations st) i = Some ctx \<and> pd_invocation p = i \<and> pd_max p = maxConnections ctx \<and> pd_port p = getEffectivePort u \<and>
    pd_host p = normalizeHostname (u_hostname u) \<and> (\<exists>e \<in> set (nc_allowlist ctx). matchesAllowlistHostPort (u_hostname u) (pd_port p) e)"
  using assms by (auto simp: handleRequest_start_def matchesAllowlistEntry_def list_ex_iff split: option.splits if_splits)

lemma start_tunnel_pending:
  assumes "handleConnectTunnel_start t i st = Inr p"
  shows "\<exists>ctx. oget (invocations st) i = Some ctx \<and> pd_invocation p = i \<and> pd_max p = maxConnections ctx \<and>
    (\<exists>e \<in> set (nc_allowlist ctx). matchesAllowlistHostPort (pd_host p) (pd_port p) e)"
  using assms by (auto simp: handleConnectTunnel_start_def list_ex_iff Let_def split: option.splits if_splits)

lemma waiting_no_slot: "waiting_for f = Some p \<Longrightarrow> \<not> holds_slot i f"
  by (cases f) auto

text \<open>
  The kinds of step, as far as the registrations, the counters, the flights and the contacts are
  concerned: the handlers of forwarded requests and of tunnels move in the same way.
\<close>

inductive moves :: "blocker \<Rightarrow> event \<Rightarrow> run_state \<Rightarrow> run_state \<Rightarrow> bool" for b where
  stays: "\<lbrakk>invocations (px w') = invocations (px w); activeConnections (px w') = activeConnections (px w);
    flights w' = flights w; contacts w' = contacts w\<rbrakk> \<Longrightarrow> moves b e w w'"
| registers: "\<lbrakk>px w' = registerInvocation ctx (px w); flights w' = flights w; contacts w' = contacts w\<rbrakk> \<Longrightarrow> moves b (Register ctx) w w'"
| unregisters: "\<lbrakk>px w' = unregisterInvocation i (px w); flights w' = flights w; contacts w' = contacts w\<rbrakk> \<Longrightarrow> moves b (Unregister i) w w'"
| ends: "\<lbrakk>invocations (px w') = invocations (px w); activeConnections (px w') = activeConnections (px w);
    flights w' = odel c (flights w); contacts w' = contacts w; \<forall>i. slot i (oget (flights w) c) = 0\<rbrakk> \<Longrightarrow> moves b e w w'"
| begins: "\<lbrakk>invocations (px w') = invocations (px w); activeConnections (px w') = activeConnections (px w);
    flights w' = oset c f (flights w); contacts w' = contacts w; oget (flights w) c = None; waiting_for f = Some p;
    oget (invocations (px w)) (pd_invocation p) = Some ctx; pd_max p = maxConnections ctx;
    pd_host p \<in> {asked_host f, normalizeHostname (asked_host f)};
    \<exists>a \<in> set (nc_allowlist ctx). matchesAllowlistHostPort (asked_host f) (pd_port p) a\<rbrakk> \<Longrightarrow> moves b e w w'"
| connects: "\<lbrakk>px w' = incrementActiveConnections (pd_invocation p) (px w); flights w' = oset c f' (flights w);
    oget (flights w) c = Some f; waiting_for f = Some p; \<forall>i. holds_slot i f' \<longleftrightarrow> pd_invocation p = i; waiting_for f' = None;
    validateDestination b (\<lambda>_. ips) (pd_host p) = Inr r; \<not> blocked r;
    getActiveConnectionCount (pd_invocation p) (px w) < pd_max p;
    contacts w' = contacts w @ [\<lparr>ct_invocation = pd_invocation p, ct_host = asked_host f, ct_port = pd_port p, ct_ip = res_ip r\<rparr>]\<rbrakk>
    \<Longrightarrow> moves b (Resolved c ips) w w'"
| releases: "\<lbrakk>invocations (px w') = invocations (px w);
    activeConnections (px w') = activeConnections (decrementActiveConnections i (px w)); contacts w' = contacts w;
    oget (flights w) c = Some f; \<forall>j. holds_slot j f \<longleftrightarrow> i = j;
    flights w' = odel c (flights w) \<or> flights w' = oset c (Draining i) (flights w)\<rbrakk> \<Longrightarrow> moves b e w w'"

inductive_cases moves_Register: "moves b (Register ctx) w w'"

inductive_cases moves_Unregister: "moves b (Unregister i) w w'"

lemma same_sockets [simp]: "invocations (px (finish_flight c w)) = invocations (px w)"
  "activeConnections (px (finish_flight c w)) = activeConnections (px w)"
  by (simp_all add: finish_flight_def)

lemma start_http_moves:
  assumes "oget (flights w0) c = None" "invocations (px w) = invocations (px w0)" "activeConnections (px w) = activeConnections (px w0)"
    "flights w = flights w0" "contacts w = contacts w0"
  shows "moves b e w0 (start_http pl c rq i w)"
proof (cases "handleRequest_start (pl_url pl) rq i (px w)")
  case (Inl r)
  then show ?thesis using assms by (intro ends[of _ _ c]) (simp_all add: start_http_def slot_def)
next
  case (Inr up)
  obtain u p where up: "up = (u, p)" by (cases up)
  from start_http_pending[OF Inr[unfolded up]] obtain ctx where "oget (invocations (px w)) i = Some ctx" "pd_invocation p = i"
    "pd_max p = maxConnections ctx" "pd_host p = normalizeHostname (u_hostname u)"
    "\<exists>e \<in> set (nc_allowlist ctx). matchesAllowlistHostPort (u_hostname u) (pd_port p) e" by blast
  then show ?thesis using assms Inr up by (intro begins[of _ _ c "HttpWaiting rq u p" p ctx]) (simp_all add: start_http_def)
qed

lemma start_tunnel_moves:
  assumes "oget (flights w0) c = None" "invocations (px w) = invocations (px w0)" "activeConnections (px w) = activeConnections (px w0)"
    "flights w = flights w0" "contacts w = contacts w0"
  shows "moves b e w0 (start_tunnel c t i w)"
proof (cases "handleConnectTunnel_start t i (px w)")
  case (Inl r)
  then show ?thesis using assms by (intro ends[of _ _ c]) (simp_all add: start_tunnel_def slot_def)
next
  case (Inr p)
  from start_tunnel_pending[OF Inr] obtain ctx where "oget (invocations (px w)) i = Some ctx" "pd_invocation p = i"
    "pd_max p = maxConnections ctx"
    "\<exists>e \<in> set (nc_allowlist ctx). matchesAllowlistHostPort (pd_host p) (pd_port p) e" by blast
  then show ?thesis using assms Inr by (intro begins[of _ _ c "TunnelWaiting p" p ctx]) (simp_all add: start_tunnel_def)
qed

lemma accept_client_moves:
  assumes "oget (flights w) c = None"
  shows "moves b e w (accept_client pl c reads socket w)"
proof -
  define w1 where "w1 = w\<lparr>px := (px w)\<lparr>openSockets := insert (c, False) (openSockets (px w))\<rparr>\<rparr>"
  have w1: "invocations (px w1) = invocations (px w)" "activeConnections (px w1) = activeConnections (px w)"
    "flights w1 = flights w" "contacts w1 = contacts w" by (simp_all add: w1_def)
  have f: "moves b e w (finish_flight c w1)" using assms w1 by (intro ends[of _ _ c]) (simp_all add: slot_def)
  show ?thesis unfolding accept_client_def Let_def w1_def[symmetric]
    using f start_tunnel_moves[OF assms w1] start_http_moves[OF assms w1] by (auto split: parsed_request.split option.split)
qed

lemma validated_Inr:
  "validated p res st = Inr ip \<longleftrightarrow> (\<exists>r. res = Inr r \<and> \<not> blocked r \<and> ip = res_ip r \<and> getActiveConnectionCount (pd_invocation p) st < pd_max p)"
  by (auto simp: validated_def split: sum.split)

lemma resolved_moves: "moves b (Resolved c ips) w (resolved b c ips w)"
proof (cases "oget (flights w) c")
  case None
  then show ?thesis by (intro stays) (simp_all add: resolved_def)
next
  case (Some f)
  have none: "moves b (Resolved c ips) w (finish_flight c w)" if "waiting_for f \<noteq> None"
    using Some that waiting_no_slot by (intro ends[of _ _ c]) (auto simp: slot_def)
  show ?thesis
  proof (cases f)
    case (HttpWaiting rq u p)
    show ?thesis
    proof (cases "validated p (validateDestination b (\<lambda>_. ips) (pd_host p)) (px w)")
      case (Inl r)
      then show ?thesis using Some HttpWaiting none by (simp add: resolved_def handleRequest_resolved_def)
    next
      case (Inr ip)
      show ?thesis
      proof (cases "nq_method rq = ''CONNECT''")
        case True
        then show ?thesis using Some HttpWaiting Inr none by (simp add: resolved_def handleRequest_resolved_def)
      next
        case False
        obtain r where r: "validateDestination b (\<lambda>_. ips) (pd_host p) = Inr r" "\<not> blocked r" "ip = res_ip r"
          "getActiveConnectionCount (pd_invocation p) (px w) < pd_max p" using Inr validated_Inr by metis
        show ?thesis using Some HttpWaiting Inr False r
          by (intro connects[OF _ _ Some _ _ _ r(1,2,4), of _ "HttpOpen (pd_invocation p)"])
            (auto simp: resolved_def handleRequest_resolved_def dispatchUpstream_def Let_def)
      qed
    qed
  next
    case (TunnelWaiting p)
    show ?thesis
    proof (cases "validated p (validateDestination b (\<lambda>_. ips) (pd_host p)) (px w)")
      case (Inl r)
      then show ?thesis using Some TunnelWaiting none by (simp add: resolved_def handleConnectTunnel_resolved_def)
    next
      case (Inr ip)
      obtain r where r: "validateDestination b (\<lambda>_. ips) (pd_host p) = Inr r" "\<not> blocked r" "ip = res_ip r"
        "getActiveConnectionCount (pd_invocation p) (px w) < pd_max p" using Inr validated_Inr by metis
      show ?thesis using Some TunnelWaiting Inr r
        by (intro connects[OF _ _ Some _ _ _ r(1,2,4), of _ "TunnelOpen (pd_invocation p)"])
          (auto simp: resolved_def handleConnectTunnel_resolved_def)
    qed
  qed (use Some in \<open>auto simp: resolved_def intro: stays\<close>)
qed

lemma finished_moves: "moves b (Finished c a) w (step b pl (Finished c a) w)"
proof (cases "oget (flights w) c")
  case None
  then show ?thesis by (intro stays) simp_all
next
  case (Some f)
  show ?thesis
  proof (cases f)
    case (HttpOpen i)
    then show ?thesis using Some by (intro releases[of _ _ i c f]) (auto simp: handleRequest_done_def)
  next
    case (TunnelOpen i)
    then show ?thesis using Some by (intro releases[of _ _ i c f]) (auto simp: handleConnectTunnel_done_def Let_def)
  qed (use Some in \<open>auto intro: stays\<close>)
qed

lemma step_moves: "moves b e w (step b pl e w)"
proof (cases e)
  case (Register ctx)
  then show ?thesis by (auto intro: registers)
next
  case (Unregister i)
  then show ?thesis by (auto intro: unregisters)
next
  case (Direct c rq i)
  then show ?thesis using start_http_moves[of w c w b e pl rq i] by (auto intro: stays)
next
  case (Client c reads socket)
  then show ?thesis using accept_client_moves[of w c b e pl reads socket] by (auto intro: stays)
next
  case (Resolved c ips)
  then show ?thesis using resolved_moves by simp
next
  case (Connected c)
  then show ?thesis by (intro stays) (auto simp: handleConnectTunnel_connected_def split: option.split flight.split)
next
  case (Finished c a)
  then show ?thesis using finished_moves by blast
next
  case (Drained c)
  show ?thesis
  proof (cases "\<exists>i. oget (flights w) c = Some (Draining i)")
    case True
    then show ?thesis using Drained by (intro ends[of _ _ c]) (auto simp: slot_def)
  next
    case False
    then show ?thesis using Drained by (intro stays) (auto split: option.split flight.split)
  qed
next
  case Close
  then show ?thesis by (intro stays) (auto simp: close_def)
qed

section \<open>The invariants of a run\<close>

definition limit_inv :: "string \<Rightarrow> int \<Rightarrow> run_state \<Rightarrow> bool" where
  "limit_inv i m w \<longleftrightarrow>
     owf (flights w) \<and> getActiveConnectionCount i (px w) = int (slots i (flights w)) \<and> int (slots i (flights w)) \<le> max 0 m \<and>
     (\<forall>c f p. oget (flights w) c = Some f \<longrightarrow> waiting_for f = Some p \<longrightarrow> pd_invocation p = i \<longrightarrow> pd_max p \<le> m) \<and>
     (\<forall>ctx. oget (invocations (px w)) i = Some ctx \<longrightarrow> maxConnections ctx \<le> m)"

lemma count_cong: "activeConnections st = activeConnections st' \<Longrightarrow> getActiveConnectionCount i st = getActiveConnectionCount i st'"
  by (simp add: getActiveConnectionCount_def)

lemma slot_simps [simp]: "slot i None = 0" "slot i (Some f) = (if holds_slot i f then 1 else 0)"
  by (simp_all add: slot_def)

lemma moves_limit:
  assumes "moves b e w w'" "limit_inv i m w"
    and "\<And>ctx. e = Register ctx \<Longrightarrow> nc_invocationId ctx = i \<Longrightarrow> maxConnections ctx \<le> m"
    and "e = Unregister i \<Longrightarrow> slots i (flights w) = 0"
  shows "limit_inv i m w'"
  using assms
proof (cases rule: moves.cases)
  case stays
  then show ?thesis using assms(2) count_cong[of "px w'" "px w"] by (simp add: limit_inv_def)
next
  case (registers ctx)
  then show ?thesis using assms(2,3) by (auto simp: limit_inv_def)
next
  case (unregisters j)
  then show ?thesis using assms(2,4) by (auto simp: limit_inv_def)
next
  case (ends c)
  then show ?thesis using assms(2) count_cong[of "px w'" "px w"] slots_odel[of "flights w" i c] by (simp add: limit_inv_def)
next
  case (begins c f p ctx)
  then show ?thesis using assms(2) count_cong[of "px w'" "px w"] slots_oset[of "flights w" i c f] waiting_no_slot[of f p i]
    by (auto simp: limit_inv_def)
next
  case (connects p c f' f ips r)
  have "pd_invocation p = i \<Longrightarrow> getActiveConnectionCount i (px w) < m" using connects assms(2) by (force simp: limit_inv_def)
  then show ?thesis using connects assms(2) slots_oset[of "flights w" i c f'] waiting_no_slot[of f p i] by (auto simp: limit_inv_def)
next
  case (releases j c f)
  have "getActiveConnectionCount i (px w') = getActiveConnectionCount i (decrementActiveConnections j (px w))"
    using releases(2) by (rule count_cong)
  then have n: "getActiveConnectionCount i (px w') + int (slot i (Some f)) = getActiveConnectionCount i (px w)"
    using assms(2) releases slots_odel[of "flights w" i c] by (auto simp: count_decrement limit_inv_def)
  show ?thesis using releases(6)
  proof
    assume "flights w' = odel c (flights w)"
    then show ?thesis using n releases assms(2) slots_odel[of "flights w" i c] by (auto simp: limit_inv_def)
  next
    assume "flights w' = oset c (Draining j) (flights w)"
    then show ?thesis using n releases assms(2) slots_oset[of "flights w" i c "Draining j"] by (auto simp: limit_inv_def)
  qed
qed

text \<open>The contacts of a run and its waiting requests were allowed when they were asked for.\<close>

definition allowed_in :: "blocker \<Rightarrow> platform \<Rightarrow> event list \<Rightarrow> string \<Rightarrow> string \<Rightarrow> string \<Rightarrow> bool" where
  "allowed_in b pl es i h port \<longleftrightarrow>
     (\<exists>pre post ctx. es = pre @ post \<and> oget (invocations (px (run b pl pre))) i = Some ctx \<and>
        (\<exists>a \<in> set (nc_allowlist ctx). matchesAllowlistHostPort h port a))"

lemma allowed_in_snoc: "allowed_in b pl es i h port \<Longrightarrow> allowed_in b pl (es @ [e]) i h port"
  unfolding allowed_in_def by (metis append.assoc)

definition checked :: "blocker \<Rightarrow> contact \<Rightarrow> bool" where
  "checked b ct \<longleftrightarrow> (\<exists>h ips r. h \<in> {ct_host ct, normalizeHostname (ct_host ct)} \<and>
     validateDestination b (\<lambda>_. ips) h = Inr r \<and> \<not> blocked r \<and> ct_ip ct = res_ip r)"

definition waiting_allowed :: "blocker \<Rightarrow> platform \<Rightarrow> event list \<Rightarrow> flight \<Rightarrow> bool" where
  "waiting_allowed b pl es f \<longleftrightarrow> (\<forall>p. waiting_for f = Some p \<longrightarrow>
     allowed_in b pl es (pd_invocation p) (asked_host f) (pd_port p) \<and> pd_host p \<in> {asked_host f, normalizeHostname (asked_host f)})"

definition contact_allowed :: "blocker \<Rightarrow> platform \<Rightarrow> event list \<Rightarrow> contact \<Rightarrow> bool" where
  "contact_allowed b pl es ct \<longleftrightarrow> allowed_in b pl es (ct_invocation ct) (ct_host ct) (ct_port ct) \<and> checked b ct"

lemma moves_allowed:
  assumes "moves b e (run b pl es) w'"
    and "\<forall>f \<in> snd ` set (flights (run b pl es)). waiting_allowed b pl es f"
    and "\<forall>ct \<in> set (contacts (run b pl es)). contact_allowed b pl es ct"
  shows "(\<forall>f \<in> snd ` set (flights w'). waiting_allowed b pl (es @ [e]) f) \<and> (\<forall>ct \<in> set (contacts w'). contact_allowed b pl (es @ [e]) ct)"
proof -
  let ?w = "run b pl es"
  have f: "\<forall>f \<in> snd ` set (flights ?w). waiting_allowed b pl (es @ [e]) f"
    using assms(2) by (auto simp: waiting_allowed_def intro: allowed_in_snoc)
  have k: "\<forall>ct \<in> set (contacts ?w). contact_allowed b pl (es @ [e]) ct"
    using assms(3) by (auto simp: contact_allowed_def intro: allowed_in_snoc)
  have sub: "\<forall>g \<in> snd ` set (flights w'). waiting_allowed b pl (es @ [e]) g"
    if "flights w' = odel c (flights ?w) \<or> flights w' = oset c g (flights ?w) \<and> waiting_allowed b pl (es @ [e]) g" for c g
    using that f oset_set_subset[of c g "flights ?w"] by (fastforce simp: odel_def)
  have none: "waiting_for g = None \<Longrightarrow> waiting_allowed b pl (es @ [e]) g" for g by (simp add: waiting_allowed_def)
  from assms(1) show ?thesis
  proof (cases rule: moves.cases)
    case (begins c g p ctx)
    have "allowed_in b pl (es @ [e]) (pd_invocation p) (asked_host g) (pd_port p)" using begins(7,10) unfolding allowed_in_def by blast
    then show ?thesis using sub[of c g] k begins by (auto simp: waiting_allowed_def)
  next
    case (connects p c f' g ips r)
    have "waiting_allowed b pl es g" using assms(2) connects(4) by (force dest: map_of_SomeD)
    then have "contact_allowed b pl (es @ [e]) \<lparr>ct_invocation = pd_invocation p, ct_host = asked_host g, ct_port = pd_port p, ct_ip = res_ip r\<rparr>"
      using connects(5,8,9) allowed_in_snoc unfolding waiting_allowed_def contact_allowed_def checked_def by fastforce
    then show ?thesis using sub[of c f'] none[of f'] k connects by auto
  next
    case (releases j c g)
    then show ?thesis using sub[of c "Draining j"] none[of "Draining j"] k by auto
  next
    case (ends c)
    then show ?thesis using sub[of c] k by auto
  qed (use f k in auto)
qed

lemma run_allowed:
  "(\<forall>f \<in> snd ` set (flights (run b pl es)). waiting_allowed b pl es f) \<and> (\<forall>ct \<in> set (contacts (run b pl es)). contact_allowed b pl es ct)"
proof (induction es rule: rev_induct)
  case (snoc e es)
  then show ?case unfolding run_snoc by (intro moves_allowed[OF step_moves]) simp_all
qed (simp add: run_def initial_def)

section \<open>What is contacted\<close>

lemma validated_unblocked:
  assumes "validateDestination b dns h = Inr r" "\<not> blocked r"
  shows "isIpBlocked b (res_ip r) = Inr False"
proof -
  let ?t = "stripPortAndBrackets h"
  obtain parsed where p: "tryParseIp ?t = Inr parsed" using assms(1) by (auto simp: validateDestination_def Let_def bind_res_Inr_iff)
  show ?thesis
  proof (cases parsed)
    case (Some x)
    then show ?thesis using assms p by (auto simp: validateDestination_def Let_def bind_res_Inr_iff split: if_splits)
  next
    case None
    with assms(1) p obtain ips where "decide_resolved b ?t ips = Inr r" by (auto simp: validateDestination_def Let_def bind_res_Inr_iff)
    then have "ips \<noteq> []" "res_ip r = hd ips" "\<forall>ip \<in> set ips. isIpBlocked b ip = Inr False" using decide_resolved_open[OF _ assms(2)] by auto
    then show ?thesis by simp
  qed
qed

lemma unblocked_not_mandatory:
  assumes "new_blocker extra = Inr b" "isIpBlocked b ip = Inr False" "tryParseIp ip = Inr (Some p)"
  shows "\<not> mandatory_ip p"
proof
  assume m: "mandatory_ip p"
  obtain xs ys where "ipv4BlockedRanges b = mandatory_v4_ranges @ xs" "ipv6BlockedRanges b = mandatory_v6_ranges @ ys"
    using new_blocker_ranges[OF assms(1)] .
  then have "isParsedBlocked b (Some p)" using isParsedBlocked_mono tryParseIp_width assms(3) m by blast
  then show False using assms(2,3) by (simp add: isIpBlocked_def)
qed


text \<open>
  C10: The connections of an invocation that are being made or are tunnelled never exceed the largest
  limit it was registered with, whatever happens between the check of the limit and the connection,
  as long as the invocation is only unregistered when none of its connections is open.
\<close>

theorem connection_limit_holds:
  assumes "\<And>ctx. Register ctx \<in> set es \<Longrightarrow> nc_invocationId ctx = i \<Longrightarrow> maxConnections ctx \<le> m"
    and "\<And>pre post. es = pre @ Unregister i # post \<Longrightarrow> open_connections i (run b pl pre) = 0"
  shows "int (open_connections i (run b pl es)) \<le> max 0 m"
proof -
  have "limit_inv i m (run b pl es)" using assms
  proof (induction es rule: rev_induct)
    case Nil
    show ?case by (simp add: run_def initial_def limit_inv_def slots_def getActiveConnectionCount_def)
  next
    case (snoc e es)
    have u: "open_connections i (run b pl pre) = 0" if "es = pre @ Unregister i # post" for pre post
      using snoc.prems(2)[of pre "post @ [e]"] that by simp
    have "limit_inv i m (run b pl es)" using snoc.IH snoc.prems(1) u by auto
    moreover have "e = Unregister i \<Longrightarrow> slots i (flights (run b pl es)) = 0"
      using snoc.prems(2)[of es "[]"] by (simp add: open_connections_def)
    ultimately show ?case unfolding run_snoc using moves_limit[OF step_moves] snoc.prems(1) by auto
  qed
  then show ?thesis by (simp add: limit_inv_def open_connections_def)
qed

section \<open>The forwarded body\<close>

lemma length_clip: "0 \<le> bytes \<Longrightarrow> bytes \<le> n \<Longrightarrow> clip (Some (Some n)) bytes bs = take (nat (n - bytes)) bs"
  by (simp add: subarray0_def)

lemma pull_socket_exact:
  "0 \<le> bytes \<Longrightarrow> bytes \<le> n \<Longrightarrow> concat (pull_socket (Some (Some n)) bytes vs) = take (nat (n - bytes)) (concat vs)"
proof (induction vs arbitrary: bytes)
  case (Cons v vs)
  show ?case
  proof (cases "bytes = n")
    case False
    let ?t = "take (nat (n - bytes)) v"
    have c: "clip (Some (Some n)) bytes v = ?t" using Cons.prems length_clip by blast
    have "concat (pull_socket (Some (Some n)) (bytes + int (length ?t)) vs) = take (nat (n - (bytes + int (length ?t)))) (concat vs)"
      using Cons.prems by (intro Cons.IH) auto
    moreover have "nat (n - (bytes + int (length ?t))) = nat (n - bytes) - length v" using Cons.prems by auto
    ultimately show ?thesis using Cons.prems False c by (simp del: clip.simps add: Let_def)
  qed simp
qed simp

lemma pull_socket_unbounded: "cl = None \<or> cl = Some None \<Longrightarrow> pull_socket cl bytes vs = vs"
  by (induction vs arbitrary: bytes) auto

text \<open>
  The body of a forwarded request is exactly the declared number of bytes after the headers,
  however they are spread over the first read and the later ones, and everything up to the end of
  the stream when no length (or one that is no number) is declared.
\<close>

theorem forwarded_body_exact:
  assumes "forward_body meth hs leftover socket = Some body" "\<And>n. content_length hs = Some (Some n) \<Longrightarrow> 0 \<le> n"
  shows "concat body = (case content_length hs of Some (Some n) \<Rightarrow> take (nat n) (leftover @ concat socket) | _ \<Rightarrow> leftover @ concat socket)"
proof (cases "\<exists>n. content_length hs = Some (Some n)")
  case True
  then obtain n where n: "content_length hs = Some (Some n)" "0 \<le> n" using assms(2) by blast
  let ?t = "take (nat n) leftover"
  have t: "clip (Some (Some n)) 0 leftover = ?t" using n(2) length_clip[of 0 n] by simp
  have "concat (body_chunks (Some (Some n)) leftover socket) = ?t @ concat (pull_socket (Some (Some n)) (int (length ?t)) socket)"
    unfolding body_chunks_def t Let_def by simp
  also have "\<dots> = take (nat n) (leftover @ concat socket)" using n(2) by (simp add: pull_socket_exact nat_diff_distrib min_def)
  finally show ?thesis using assms(1) n by (auto simp: forward_body_def split: if_splits)
next
  case False
  then have "content_length hs = None \<or> content_length hs = Some None" by (metis option.exhaust)
  then show ?thesis using assms(1) by (auto simp: forward_body_def body_chunks_def pull_socket_unbounded Let_def split: if_splits)
qed

section \<open>The decision and the request that is sent\<close>

lemma oget_filter_key: "oget (filter (\<lambda>(k, v). P k) m) k = (if P k then oget m k else None)"
  by (induction m) auto

text \<open>
  The request that goes upstream is the client's, sent to the validated address with the host name
  for the certificate: its host header names the host of the URL, no hop-by-hop header and no
  invocation header is passed on, and every other header is.
\<close>

theorem upstream_request_exact:
  "uo_host (dispatchUpstream rq ip u) = ip \<and> uo_method (dispatchUpstream rq ip u) = nq_method rq \<and>
   uo_servername (dispatchUpstream rq ip u) = (if u_protocol u = ''https:'' then Some (u_hostname u) else None) \<and>
   oget (uo_headers (dispatchUpstream rq ip u)) k =
     (if k = ''host'' then Some (u_host u)
      else if to_lower k = ''x-railfog-invocation-id'' \<or> to_lower k \<in> set hop_headers then None
      else oget (nq_headers rq) k)"
proof -
  have "oget (sanitizeForwardHeaders (nq_headers rq)) k =
      (if to_lower k \<noteq> INVOCATION_ID_HEADER \<and> to_lower k \<notin> set hop_headers then oget (nq_headers rq) k else None)"
    unfolding sanitizeForwardHeaders_def by (rule oget_filter_key)
  then show ?thesis by (simp add: dispatchUpstream_def Let_def INVOCATION_ID_HEADER_def)
qed

definition destination_open :: "blocker \<Rightarrow> (string \<Rightarrow> string list res) \<Rightarrow> target_url \<Rightarrow> string \<Rightarrow> bool" where
  "destination_open b dns u ip \<longleftrightarrow>
     (\<exists>r. validateDestination b dns (normalizeHostname (u_hostname u)) = Inr r \<and> \<not> blocked r \<and> res_ip r = ip)"

definition granted :: "(string \<Rightarrow> target_url option) \<Rightarrow> net_request \<Rightarrow> string \<Rightarrow> proxy \<Rightarrow> target_url \<Rightarrow> bool" where
  "granted parse_url rq i st u \<longleftrightarrow>
     (\<exists>ctx. oget (invocations st) i = Some ctx \<and> getActiveConnectionCount i st < maxConnections ctx \<and> parse_url (nq_url rq) = Some u \<and>
        (u_protocol u = ''http:'' \<or> u_protocol u = ''https:'' \<or> nq_method rq = ''CONNECT'') \<and>
        (\<exists>a \<in> set (nc_allowlist ctx). matchesAllowlistHostPort (u_hostname u) (getEffectivePort u) a))"

lemma start_iff_granted:
  "(\<exists>p. handleRequest_start parse_url rq i st = Inr (u, p)) \<longleftrightarrow> granted parse_url rq i st u"
  by (auto simp: handleRequest_start_def granted_def matchesAllowlistEntry_def list_ex_iff split: option.split)

lemma start_refuses:
  assumes "handleRequest_start parse_url rq i st = Inl r"
  shows "\<exists>m. r = forbidden m \<or> r = limited \<and> (\<exists>ctx. oget (invocations st) i = Some ctx \<and> maxConnections ctx \<le> getActiveConnectionCount i st)"
  using assms by (auto simp: handleRequest_start_def split: option.splits if_splits)

text \<open>
  C32: A request is sent upstream if and only if its invocation is registered and below its limit, its
  URL is an HTTP one that an allowlist entry admits, its destination resolves to addresses of which
  none is blocked, and it is no CONNECT request; then it is sent to the validated address and
  answered with the upstream's answer, or with a bad gateway error if the connection fails. Every
  other request is answered with a permission error, a rate limit or (a permitted CONNECT)
  with the establishment. Afterwards every counter is what it was, also when the connection failed.
\<close>

theorem egress_decision_exact:
  assumes "handleRequest b parse_url dns upstream rq i st = (resp, sent, st')" "0 \<le> getActiveConnectionCount i st"
  shows "(sent = Some opts \<longleftrightarrow>
      (\<exists>u ip. granted parse_url rq i st u \<and> destination_open b dns u ip \<and> nq_method rq \<noteq> ''CONNECT'' \<and> opts = dispatchUpstream rq ip u)) \<and>
    (case sent of
       Some q \<Rightarrow> resp = (case upstream q of None \<Rightarrow> upstream_failed | Some a \<Rightarrow> upstream_response a)
     | None \<Rightarrow> resp = limited \<or> (\<exists>m. resp = forbidden m) \<or> nq_method rq = ''CONNECT'' \<and> nr_status resp = 200) \<and>
    getActiveConnectionCount j st' = getActiveConnectionCount j st"
proof (cases "handleRequest_start parse_url rq i st")
  case (Inl r)
  then have "\<not> granted parse_url rq i st u" for u using start_iff_granted[of parse_url rq i st u] by simp
  then show ?thesis using assms Inl start_refuses[OF Inl] by (auto simp: handleRequest_def)
next
  case (Inr up)
  obtain u p where up: "up = (u, p)" by (cases up)
  have s: "handleRequest_start parse_url rq i st = Inr (u, p)" using Inr up by simp
  from start_http_pending[OF s] obtain ctx where c: "oget (invocations st) i = Some ctx" "pd_invocation p = i" "pd_max p = maxConnections ctx"
    "pd_host p = normalizeHostname (u_hostname u)" by blast
  have g: "granted parse_url rq i st v \<longleftrightarrow> v = u" for v using start_iff_granted[of parse_url rq i st v] s by auto
  have lim: "getActiveConnectionCount i st < maxConnections ctx" using g[of u] c(1) by (auto simp: granted_def)
  have od: "destination_open b dns u ip \<longleftrightarrow> validated p (validateDestination b dns (pd_host p)) st = Inr ip" for ip
    using c lim by (auto simp: destination_open_def validated_Inr)
  show ?thesis
  proof (cases "validated p (validateDestination b dns (pd_host p)) st")
    case (Inl r)
    then have "(\<exists>m. r = forbidden m) \<or> r = limited" by (auto simp: validated_def split: sum.splits if_splits)
    then show ?thesis using assms s Inl g od by (auto simp: handleRequest_def handleRequest_resolved_def)
  next
    case (Inr ip)
    show ?thesis
    proof (cases "nq_method rq = ''CONNECT''")
      case True
      then show ?thesis using assms s g od Inr by (auto simp: handleRequest_def handleRequest_resolved_def)
    next
      case False
      then have "sent = Some (dispatchUpstream rq ip u)" "st' = decrementActiveConnections i (incrementActiveConnections i st)"
        "resp = (case upstream (dispatchUpstream rq ip u) of None \<Rightarrow> upstream_failed | Some a \<Rightarrow> upstream_response a)"
        using assms(1) s c(2) Inr by (auto simp: handleRequest_def handleRequest_resolved_def handleRequest_done_def)
      then show ?thesis using False g od Inr assms(2) by (auto simp: count_decrement)
    qed
  qed
qed

section \<open>Allowlist entries\<close>

text \<open>A host name as an entry spells it: no white space, brackets, colons or stars.\<close>

definition plain_host :: "string \<Rightarrow> bool" where
  "plain_host h \<longleftrightarrow> h \<noteq> [] \<and> list_all (\<lambda>c. \<not> is_ws c \<and> c \<notin> {CHR ''['', CHR '']'', CHR '':'', CHR ''*''}) h"

lemma index_of_append: "c \<notin> set a \<Longrightarrow> index_of c (a @ c # b) = Some (length a)"
  by (induction a) auto

lemma last_index_of_append: "c \<notin> set b \<Longrightarrow> last_index_of c (a @ c # b) = Some (length a)"
  by (simp add: last_index_of_def index_of_append)

lemma to_lower_set: "c \<in> set (to_lower s) \<Longrightarrow> \<exists>d \<in> set s. c = lower_char d"
  by (auto simp: to_lower_def)

lemma bracket_entry_None: "t \<noteq> [] \<Longrightarrow> hd t \<noteq> CHR ''['' \<Longrightarrow> bracket_entry t = None"
  by (cases t) (auto simp: bracket_entry_def Let_def)

lemma parse_plain_entry:
  assumes "t \<noteq> []" "list_all (\<lambda>c. \<not> is_ws c \<and> c \<notin> {CHR ''['', CHR '']'', CHR '':''}) t"
  shows "parseAllowlistEntry t = \<lparr>ae_host = to_lower t, ae_port = None\<rparr>"
    "all_digits p \<Longrightarrow> parseAllowlistEntry (t @ CHR '':'' # p) = \<lparr>ae_host = to_lower t, ae_port = Some p\<rparr>"
proof -
  have h: "hd t \<noteq> CHR ''[''" using assms by (cases t) auto
  have "trim t = t" using assms(2) by (intro trim_no_ws) (auto simp: list_all_iff)
  moreover have "CHR '':'' \<notin> set (rev t)" using assms(2) by (auto simp: list_all_iff)
  ultimately show "parseAllowlistEntry t = \<lparr>ae_host = to_lower t, ae_port = None\<rparr>"
    using assms h bracket_entry_None[of t] by (simp add: parseAllowlistEntry_def last_index_of_def index_of_None[THEN iffD2])
  assume p: "all_digits p"
  have d: "c \<in> set p \<Longrightarrow> \<not> is_ws c \<and> c \<noteq> CHR '':'' \<and> c \<noteq> CHR '']''" for c
    using p by (auto simp: all_digits_def list_all_iff is_digit_def is_ws_def)
  let ?e = "t @ CHR '':'' # p"
  have w: "\<not> is_ws (CHR '':'')" by code_simp
  have tr: "trim ?e = ?e" using assms(2) d w by (intro trim_no_ws) (auto simp: list_all_iff)
  have i: "index_of (CHR '':'') ?e = Some (length t)" "last_index_of (CHR '':'') ?e = Some (length t)"
    using assms(2) d by (auto simp: list_all_iff intro!: index_of_append last_index_of_append)
  have b: "CHR '']'' \<notin> set ?e" using assms(2) d by (auto simp: list_all_iff)
  have n: "bracket_entry ?e = None" using h assms(1) by (intro bracket_entry_None) auto
  show "parseAllowlistEntry ?e = \<lparr>ae_host = to_lower t, ae_port = Some p\<rparr>"
    unfolding parseAllowlistEntry_def tr n i Let_def using b p by simp
qed

text \<open>What an entry admits, as its documentation describes it.\<close>

datatype entry_spec = Exactly string "string option" | Subdomains string "string option"

fun spec_text :: "entry_spec \<Rightarrow> string" where
  "spec_text (Exactly h p) = h @ (case p of None \<Rightarrow> [] | Some d \<Rightarrow> CHR '':'' # d)"
| "spec_text (Subdomains h p) = ''*.'' @ h @ (case p of None \<Rightarrow> [] | Some d \<Rightarrow> CHR '':'' # d)"

fun spec_ok :: "entry_spec \<Rightarrow> bool" where
  "spec_ok (Exactly h p) = (plain_host h \<and> (case p of None \<Rightarrow> True | Some d \<Rightarrow> all_digits d))"
| "spec_ok (Subdomains h p) = (plain_host h \<and> (case p of None \<Rightarrow> True | Some d \<Rightarrow> all_digits d))"

fun spec_admits :: "entry_spec \<Rightarrow> string \<Rightarrow> string \<Rightarrow> bool" where
  "spec_admits (Exactly h p) host port \<longleftrightarrow> (p = None \<or> p = Some port) \<and> to_lower host = to_lower h"
| "spec_admits (Subdomains h p) host port \<longleftrightarrow>
     (p = None \<or> p = Some port) \<and> (\<exists>sub. sub \<noteq> [] \<and> to_lower host = sub @ ''.'' @ to_lower h)"

lemma lower_char_star: "lower_char c = CHR ''*'' \<longleftrightarrow> c = CHR ''*''"
proof -
  have "c = CHR ''*''" if "lower_char c = CHR ''*''"
  proof (rule ccontr)
    assume "c \<noteq> CHR ''*''"
    then have l: "lower_char c = char_of (code c + 32)" "65 \<le> code c" "code c < 223" using that by (auto simp: lower_char_def Let_def split: if_splits)
    then have "code (lower_char c) = code c + 32" by simp
    then show False using that l(2) by simp
  qed
  then show ?thesis by (auto simp: lower_char_def)
qed

lemma normalize_plain: "\<not> starts_with h ''['' \<Longrightarrow> normalizeHostname h = to_lower h"
  by (simp add: normalizeHostname_def)

lemma ends_with_sub: "ends_with h (CHR ''.'' # d) \<and> length d + 1 < length h \<longleftrightarrow> (\<exists>sub. sub \<noteq> [] \<and> h = sub @ ''.'' @ d)"
  by (auto simp: ends_with_def suffix_def)

text \<open>
  An allowlist entry means what its documentation says: a host name admits exactly that host, in
  any case; a host name after a star and a dot admits exactly the hosts with at least one further
  label before it, never the host itself; and a port restricts both to that port.
\<close>

theorem allowlist_entry_denotation:
  assumes "spec_ok e" "\<not> starts_with host ''[''"
  shows "matchesAllowlistHostPort host port (spec_text e) \<longleftrightarrow> spec_admits e host port"
proof (cases e)
  case (Exactly h p)
  have h: "h \<noteq> []" "list_all (\<lambda>c. \<not> is_ws c \<and> c \<notin> {CHR ''['', CHR '']'', CHR '':''}) h" "CHR ''*'' \<notin> set h"
    using assms(1) Exactly by (auto simp: plain_host_def list_all_iff)
  have "parseAllowlistEntry (spec_text e) = \<lparr>ae_host = to_lower h, ae_port = p\<rparr>"
    using parse_plain_entry[OF h(1,2)] assms(1) Exactly by (auto split: option.splits)
  moreover have "\<not> starts_with (to_lower h) ''*.''"
  proof
    assume "starts_with (to_lower h) ''*.''"
    then have "CHR ''*'' \<in> set (to_lower h)" using starts_with_set[of "to_lower h" "''*.''"] by simp
    then show False using h(3) to_lower_set[of "CHR ''*''" h] lower_char_star by metis
  qed
  ultimately show ?thesis using Exactly normalize_plain[OF assms(2)] by (cases p) (simp_all add: matchesAllowlistHostPort_def Let_def)
next
  case (Subdomains h p)
  let ?t = "''*.'' @ h"
  have w: "\<not> is_ws (CHR ''*'')" "\<not> is_ws (CHR ''.'')" by code_simp+
  have t: "?t \<noteq> []" "list_all (\<lambda>c. \<not> is_ws c \<and> c \<notin> {CHR ''['', CHR '']'', CHR '':''}) ?t"
    using assms(1) Subdomains w by (auto simp: plain_host_def list_all_iff)
  have "parseAllowlistEntry (spec_text e) = \<lparr>ae_host = to_lower ?t, ae_port = p\<rparr>"
    using parse_plain_entry[OF t] assms(1) Subdomains by (auto split: option.splits)
  moreover have "to_lower ?t = ''*.'' @ to_lower h" by (simp add: to_lower_def lower_char_def)
  ultimately show ?thesis using Subdomains normalize_plain[OF assms(2)] ends_with_sub[of "to_lower host" "to_lower h"]
    by (cases p) (simp_all add: matchesAllowlistHostPort_def Let_def starts_with_def)
qed

section \<open>Reading and writing the head\<close>

lemma findHeaderEnd_Cons:
  "findHeaderEnd (c # s) = (if take 4 (c # s) = crlf @ crlf then Some 0 else map_option Suc (findHeaderEnd s))"
proof (cases "3 \<le> length s")
  case True
  then have l: "length (c # s) - 3 = Suc (length s - 3)" by simp
  have f: "List.find P (map Suc xs) = map_option Suc (List.find (\<lambda>i. P (Suc i)) xs)" for P xs by (induction xs) auto
  have "[0..<Suc (length s - 3)] = 0 # map Suc [0..<length s - 3]" by (simp add: upt_conv_Cons map_Suc_upt del: upt_Suc)
  then show ?thesis unfolding findHeaderEnd_def l by (simp add: f)
next
  case False
  then have "take 4 (c # s) \<noteq> crlf @ crlf" by (auto simp: crlf_def dest: arg_cong[of _ _ length])
  then show ?thesis using False by (simp add: findHeaderEnd_def)
qed

lemma findHeaderEnd_line:
  "CHR 0x0D \<notin> set l \<Longrightarrow> findHeaderEnd (l @ s) = map_option (\<lambda>n. length l + n) (findHeaderEnd s)"
proof (induction l)
  case (Cons c l)
  then show ?case by (cases "findHeaderEnd s") (auto simp: findHeaderEnd_Cons crlf_def)
qed (cases "findHeaderEnd s", simp_all)

lemma findHeaderEnd_next:
  "c \<noteq> CHR 0x0D \<Longrightarrow> findHeaderEnd (crlf @ c # s) = map_option (\<lambda>n. 2 + n) (findHeaderEnd (c # s))"
  by (cases "findHeaderEnd (c # s)") (simp_all add: crlf_def findHeaderEnd_Cons[of "CHR 0x0D"] findHeaderEnd_Cons[of "CHR 0x0A"])

text \<open>Lines of a head: none is empty and none holds a carriage return.\<close>

definition head_line :: "string \<Rightarrow> bool" where
  "head_line l \<longleftrightarrow> l \<noteq> [] \<and> CHR 0x0D \<notin> set l"

lemma head_found:
  "ls \<noteq> [] \<Longrightarrow> list_all head_line ls \<Longrightarrow> findHeaderEnd (join_with crlf ls @ crlf @ crlf @ r) = Some (length (join_with crlf ls))"
proof (induction ls rule: induct_list012)
  case (2 l)
  have "findHeaderEnd (crlf @ crlf @ r) = Some 0" by (simp add: crlf_def findHeaderEnd_Cons)
  then show ?case using 2 findHeaderEnd_line[of l "crlf @ crlf @ r"] by (simp add: head_line_def)
next
  case (3 l k ls)
  obtain c k' where k: "k = c # k'" "c \<noteq> CHR 0x0D" using "3.prems" by (cases k) (auto simp: head_line_def)
  obtain rest where rest: "join_with crlf (k # ls) @ crlf @ crlf @ r = c # rest" using k(1) by (cases ls) auto
  have "findHeaderEnd (crlf @ c # rest) = Some (2 + length (join_with crlf (k # ls)))"
    using findHeaderEnd_next[OF k(2)] "3.IH"(2) "3.prems" rest by simp
  then show ?case using findHeaderEnd_line[of l "crlf @ c # rest"] "3.prems" rest by (simp add: head_line_def crlf_def)
qed simp

lemma split_crlf_line: "CHR 0x0D \<notin> set l \<Longrightarrow> split_crlf l = [l]"
  by (induction l rule: split_crlf.induct) (auto simp: crlf_def)

lemma split_crlf_first: "CHR 0x0D \<notin> set l \<Longrightarrow> split_crlf (l @ crlf @ s) = l # split_crlf s"
proof (induction l)
  case (Cons c l)
  then obtain d rest where "l @ crlf @ s = d # rest" by (cases l) (auto simp: crlf_def)
  then show ?case using Cons by (auto simp: crlf_def)
qed (simp add: crlf_def)

lemma split_crlf_lines: "ls \<noteq> [] \<Longrightarrow> list_all head_line ls \<Longrightarrow> split_crlf (join_with crlf ls) = ls"
  by (induction ls rule: induct_list012) (auto simp: split_crlf_line split_crlf_first head_line_def simp del: split_crlf.simps)

text \<open>A head whose end lies in the first read is returned as it is, with the bytes after it.\<close>

lemma head_in_first_read: "findHeaderEnd d = Some i \<Longrightarrow> readHttpHeaders (d # ds) = Some (take i d, drop (i + 4) d)"
  by (simp add: readHttpHeaders_def MAX_HEADER_BUFFER_SIZE_def Let_def)

lemma head_read_back:
  assumes "ls \<noteq> []" "list_all head_line ls"
  shows "readHttpHeaders ((join_with crlf ls @ crlf @ crlf @ r) # ds) = Some (join_with crlf ls, r)"
  using head_in_first_read[OF head_found[OF assms, of r], of ds] by (simp add: crlf_def)

text \<open>A client's request: the lines of its head.\<close>

definition request_lines :: "string \<Rightarrow> string \<Rightarrow> (string \<times> string) list \<Rightarrow> string list" where
  "request_lines meth target hs = (meth @ '' '' @ target @ '' HTTP/1.1'') # map (\<lambda>(k, v). k @ '': '' @ v) hs"

definition header_ok :: "string \<times> string \<Rightarrow> bool" where
  "header_ok h \<longleftrightarrow> fst h \<noteq> [] \<and> list_all is_token_char (fst h) \<and> ascii_lower (fst h) = fst h \<and> trim (snd h) = snd h \<and>
     list_all (\<lambda>c. code c \<notin> {0, 10, 13}) (snd h)"

lemma token_chars: "is_token_char c \<Longrightarrow> c \<noteq> CHR '':'' \<and> c \<noteq> CHR 0x0D \<and> \<not> is_ws c"
  by (auto simp: is_token_char_def is_digit_def is_ws_def)

lemma header_lines_back:
  assumes "list_all header_ok hs" "distinct (map fst hs)" "fst ` set hs \<inter> fst ` set m = {}"
  shows "header_lines (map (\<lambda>(k, v). k @ '': '' @ v) hs) m = Some (m @ hs)"
  using assms
proof (induction hs arbitrary: m)
  case (Cons h hs)
  obtain k v where h: "h = (k, v)" by (cases h)
  have ok: "k \<noteq> []" "list_all is_token_char k" "ascii_lower k = k" "trim v = v" "list_all (\<lambda>c. code c \<notin> {0, 10, 13}) v"
    using Cons.prems(1) h by (auto simp: header_ok_def)
  have t: "c \<in> set k \<Longrightarrow> c \<noteq> CHR '':'' \<and> \<not> is_ws c" for c using ok(2) token_chars by (auto simp: list_all_iff)
  have i: "index_of (CHR '':'') (k @ '': '' @ v) = Some (length k)" using t index_of_append[of "CHR '':''" k "'' '' @ v"] by auto
  have tk: "trim k = k" using t by (intro trim_no_ws) blast
  have tv: "trim ('' '' @ v) = v" using ok(4) by (simp add: trim_def is_ws_def)
  have n: "oget m k = None" using Cons.prems(3) h by (auto simp: map_of_eq_None_iff)
  have a: "headers_append k v m = Some (m @ [(k, v)])" using ok n by (simp add: headers_append_def oset_fresh)
  have "header_lines (map (\<lambda>(k, v). k @ '': '' @ v) hs) (m @ [(k, v)]) = Some ((m @ [(k, v)]) @ hs)"
    using Cons.prems h by (intro Cons.IH) auto
  then show ?case using i tk tv a h by simp
qed simp

text \<open>
  A request whose head arrives in one read is understood as it was written: the method, the target
  and every header come out as they went in, the bytes after the head are kept for the body or the
  tunnel, the invocation is the one of the header, or else the one of the query, and CONNECT in any
  case opens a tunnel.
\<close>

theorem request_head_round_trip:
  assumes "meth \<noteq> []" "target \<noteq> []" "CHR '' '' \<notin> set meth \<union> set target" "CHR 0x0D \<notin> set meth \<union> set target"
    and "list_all header_ok hs" "distinct (map fst hs)"
    and "head = join_with crlf (request_lines meth target hs)" "dec head = head"
  shows "handleConnection dec ((head @ crlf @ crlf @ rest) # reads) =
    (let i = or_default (or_else (oget hs ''x-railfog-invocation-id'') (extractInvocationFromTarget dec target)) [] in
     if to_upper meth = ''CONNECT'' then Tunnel target i rest else Forward meth target hs rest i)"
proof -
  let ?ls = "request_lines meth target hs"
  have ok: "list_all head_line ?ls"
    using assms(4,5) token_chars by (fastforce simp: request_lines_def head_line_def header_ok_def list_all_iff)
  have ne: "?ls \<noteq> []" by (simp add: request_lines_def)
  have sp: "split_on (CHR '' '') (meth @ '' '' @ target @ '' HTTP/1.1'') = [meth, target, ''HTTP/1.1'']"
    using split_on_append_sep[of "CHR '' ''" meth "target @ '' HTTP/1.1''"] split_on_append_sep[of "CHR '' ''" target "''HTTP/1.1''"]
      assms(3) by (simp add: split_on_absent)
  have "header_lines (tl ?ls) [] = Some hs" using header_lines_back[OF assms(5,6), of "[]"] by (simp add: request_lines_def)
  then show ?thesis
    using assms(1,2,8) sp head_read_back[OF ne ok, of rest reads] split_crlf_lines[OF ne ok] unfolding assms(7) handleConnection_def
    by (simp add: Let_def INVOCATION_ID_HEADER_def request_lines_def)
qed

lemma join_crlf: "ls \<noteq> [] \<Longrightarrow> join_with crlf ls @ crlf = concat (map (\<lambda>l. l @ crlf) ls)"
  by (induction ls rule: induct_list012) simp_all

text \<open>
  An error written to a socket is read back by the reader of heads: the lines of the head, one of
  which declares the length of the body, and then exactly the body.
\<close>

theorem raw_response_read_back:
  assumes "CHR 0x0D \<notin> set statusText" "list_all (\<lambda>(k, v). CHR 0x0D \<notin> set k \<union> set v) extra"
  shows "\<exists>ls. readHttpHeaders [writeRawHttpResponse status statusText body extra] = Some (join_with crlf ls, body) \<and>
    split_crlf (join_with crlf ls) = ls \<and> ls ! 0 = ''HTTP/1.1 '' @ nat_str status @ '' '' @ statusText \<and>
    ''content-length: '' @ nat_str (length body) \<in> set ls \<and> (\<lambda>(k, v). k @ '': '' @ v) ` set extra \<subseteq> set ls"
proof -
  define ls where "ls = [''HTTP/1.1 '' @ nat_str status @ '' '' @ statusText, ''content-type: application/json'',
      ''content-length: '' @ nat_str (length body), ''connection: close''] @ map (\<lambda>(k, v). k @ '': '' @ v) extra"
  have d: "CHR 0x0D \<notin> set (nat_str n)" for n using nat_str_digits[of "CHR 0x0D" n] by (auto simp: is_digit_def)
  have ok: "ls \<noteq> []" "list_all head_line ls" using assms d by (auto simp: ls_def head_line_def list_all_iff)
  have "writeRawHttpResponse status statusText body extra = join_with crlf ls @ crlf @ crlf @ body"
    using join_crlf[OF ok(1)] by (simp add: ls_def writeRawHttpResponse_def comp_def split_def)
  then have "readHttpHeaders [writeRawHttpResponse status statusText body extra] = Some (join_with crlf ls, body)"
    using head_read_back[OF ok, of body "[]"] by simp
  moreover have "ls ! 0 = ''HTTP/1.1 '' @ nat_str status @ '' '' @ statusText" "''content-length: '' @ nat_str (length body) \<in> set ls"
    "(\<lambda>(k, v). k @ '': '' @ v) ` set extra \<subseteq> set ls" by (auto simp: ls_def)
  ultimately show ?thesis using split_crlf_lines[OF ok] by blast
qed

section \<open>Samples\<close>

definition sample_blocker :: blocker where
  "sample_blocker = \<lparr>ipv4BlockedRanges = mandatory_v4_ranges, ipv6BlockedRanges = mandatory_v6_ranges\<rparr>"

definition sample_url :: target_url where
  "sample_url = \<lparr>u_protocol = ''https:'', u_hostname = ''api.example.com'', u_host = ''api.example.com'', u_port = [],
     u_pathname = ''/v1'', u_search = ''?invocationId=inv''\<rparr>"

definition sample_platform :: platform where
  "sample_platform = \<lparr>pl_decode = (\<lambda>s. s), pl_url = (\<lambda>_. Some sample_url), pl_request = (\<lambda>u m _. Some (u, m))\<rparr>"

definition sample_request :: net_request where
  "sample_request = \<lparr>nq_method = ''GET'', nq_url = ''https://api.example.com/v1?invocationId=inv'',
     nq_headers = [(''accept'', ''*/*''), (''x-railfog-invocation-id'', ''inv'')], nq_body = None\<rparr>"

definition sample_context :: InvocationNetworkContext where
  "sample_context = \<lparr>nc_invocationId = ''inv'', nc_allowlist = [''*.example.com:443''], nc_maxConcurrentConnections = Some 1\<rparr>"

definition sample_answer :: "string list res" where
  "sample_answer = Inr [''93.184.216.34'']"


lemma connection_limit_holds_witness:
  "int (open_connections ''inv'' (run sample_blocker sample_platform [Register sample_context, Direct 0 sample_request ''inv'',
     Direct 1 sample_request ''inv'', Resolved 0 sample_answer, Resolved 1 sample_answer])) \<le> 1"
proof -
  let ?es = "[Register sample_context, Direct 0 sample_request ''inv'', Direct 1 sample_request ''inv'', Resolved 0 sample_answer, Resolved 1 sample_answer]"
  have m: "maxConnections sample_context = 1" by code_simp
  have u: "?es \<noteq> pre @ Unregister ''inv'' # post" for pre post by (auto simp: Cons_eq_append_conv)
  show ?thesis using connection_limit_holds[of ?es "''inv''" 1 sample_blocker sample_platform] m u by auto
qed

lemma forwarded_body_exact_witness:
  "(let hs = [(''content-length'', ''5'')] in
    forward_body ''POST'' hs ''abc'' [''defg''] = Some [''abc'', ''de''] \<and> concat [''abc'', ''de''] = take 5 (''abc'' @ ''defg''))"
proof -
  have f: "forward_body ''POST'' [(''content-length'', ''5'')] ''abc'' [''defg''] = Some [''abc'', ''de'']" by code_simp
  have c: "content_length [(''content-length'', ''5'')] = Some (Some 5)" by code_simp
  show ?thesis using f c forwarded_body_exact[OF f] by simp
qed

lemma egress_decision_exact_witness:
  "snd (snd (handleRequest sample_blocker (\<lambda>_. Some sample_url) (\<lambda>_. sample_answer) (\<lambda>_. None) sample_request ''inv''
     (registerInvocation sample_context (px initial)))) \<noteq> px initial \<and>
   fst (handleRequest sample_blocker (\<lambda>_. Some sample_url) (\<lambda>_. sample_answer) (\<lambda>_. None) sample_request ''inv''
     (registerInvocation sample_context (px initial))) = upstream_failed"
proof -
  let ?st = "registerInvocation sample_context (px initial)"
  define res where "res = handleRequest sample_blocker (\<lambda>_. Some sample_url) (\<lambda>_. sample_answer) (\<lambda>_. None) sample_request ''inv'' ?st"
  obtain resp sent st' where r: "res = (resp, sent, st')" by (cases res)
  have s: "fst (snd res) \<noteq> None" unfolding res_def by code_simp
  have n: "0 \<le> getActiveConnectionCount ''inv'' ?st" by code_simp
  have i: "snd (snd res) \<noteq> px initial" unfolding res_def by code_simp
  obtain q where q: "sent = Some q" using s r by auto
  have "resp = upstream_failed" using egress_decision_exact[OF r[unfolded res_def] n, of q "''inv''"] q by simp
  then show ?thesis using i r unfolding res_def[symmetric] by simp
qed

lemma allowlist_entry_denotation_witness:
  "matchesAllowlistHostPort ''API.Example.com'' ''443'' ''*.example.com:443'' \<and> \<not> matchesAllowlistHostPort ''example.com'' ''443'' ''*.example.com:443''"
proof -
  let ?e = "Subdomains ''example.com'' (Some ''443'')"
  have e: "spec_ok ?e" "spec_text ?e = ''*.example.com:443''" by code_simp+
  have h: "\<not> starts_with ''API.Example.com'' ''[''" "\<not> starts_with ''example.com'' ''[''" by code_simp+
  have "to_lower ''API.Example.com'' = ''api'' @ ''.'' @ to_lower ''example.com''" by code_simp
  then have a: "spec_admits ?e ''API.Example.com'' ''443''" unfolding spec_admits.simps by blast
  have "length (to_lower ''example.com'') < length (sub @ ''.'' @ to_lower ''example.com'')" for sub by simp
  then have "\<not> spec_admits ?e ''example.com'' ''443''" unfolding spec_admits.simps by (metis less_irrefl)
  then show ?thesis using a allowlist_entry_denotation[OF e(1) h(1), of "''443''"] allowlist_entry_denotation[OF e(1) h(2), of "''443''"] e(2) by simp
qed

lemma request_head_round_trip_witness:
  "handleConnection (\<lambda>s. s) [''connect api.example.com:443 HTTP/1.1'' @ crlf @ ''x-railfog-invocation-id: inv'' @ crlf @ crlf @ ''rest''] =
     Tunnel ''api.example.com:443'' ''inv'' ''rest''"
proof -
  let ?hs = "[(''x-railfog-invocation-id'', ''inv'')]"
  have h: "list_all header_ok ?hs" by code_simp
  have t: "to_upper ''connect'' = ''CONNECT''" by code_simp
  show ?thesis using t h request_head_round_trip[of "''connect''" "''api.example.com:443''" ?hs
        "join_with crlf (request_lines ''connect'' ''api.example.com:443'' ?hs)" "\<lambda>s. s" "''rest''" "[]"]
    by (simp add: request_lines_def or_else_def crlf_def)
qed

lemma raw_response_read_back_witness:
  "\<exists>ls. readHttpHeaders [writeRawHttpResponse 429 ''Too Many Requests'' ''{}'' [(''retry-after'', RETRY_AFTER_SECONDS)]] = Some (join_with crlf ls, ''{}'') \<and>
     ''content-length: 2'' \<in> set ls"
proof -
  have n: "nat_str (length ''{}'') = ''2''" by code_simp
  have "CHR 0x0D \<notin> set ''Too Many Requests''" "list_all (\<lambda>(k, v). CHR 0x0D \<notin> set k \<union> set v) [(''retry-after'', RETRY_AFTER_SECONDS)]" by code_simp+
  from raw_response_read_back[OF this, of 429 "''{}''"] show ?thesis unfolding n by auto
qed

section \<open>Where the proxy falls short\<close>

text \<open>
  All reads share one buffer of which the chunks are views: when the head arrives in two reads, the
  second read overwrites the first chunk. A request whose last line break arrives alone is dropped.
\<close>

lemma second_read_overwrites:
  assumes "findHeaderEnd a = None" "length b \<le> length a" "length a < MAX_HEADER_BUFFER_SIZE"
  shows "readHttpHeaders [a, b] =
    (let c = b @ drop (length b) a @ b in case findHeaderEnd c of None \<Rightarrow> None | Some i \<Rightarrow> Some (take i c, drop (i + 4) c))"
proof -
  let ?buf = "replicate 4096 (CHR 0x00)"
  have "take (length a) (b @ drop (length b) (a @ drop (length a) ?buf)) = b @ drop (length b) a" using assms(2) by simp
  then show ?thesis using assms by (simp add: readHttpHeaders_def Let_def MAX_HEADER_BUFFER_SIZE_def split: option.split)
qed

lemma split_head_is_damaged:
  "handleConnection (\<lambda>s. s) [''GET http://a.com/ HTTP/1.1'' @ crlf @ ''host: a.com'' @ crlf, crlf] = Dropped"
proof -
  let ?a = "''GET http://a.com/ HTTP/1.1'' @ crlf @ ''host: a.com'' @ crlf"
  let ?c = "crlf @ drop (length crlf) ?a @ crlf"
  have e: "findHeaderEnd ?a = None" "length crlf \<le> length ?a" "int (length ?a) < 65536" by code_simp+
  then have "length ?a < MAX_HEADER_BUFFER_SIZE" unfolding MAX_HEADER_BUFFER_SIZE_def by linarith
  note r = second_read_overwrites[OF e(1,2) this]
  have "findHeaderEnd ?c = Some 39" "hd (split_on (CHR '' '') (hd (split_crlf (take 39 ?c)))) = []" by code_simp+
  then show ?thesis unfolding handleConnection_def r Let_def by simp
qed

text \<open>
  The slot of a forwarded request is released when its upstream has answered, not when the body has
  been passed on: with a limit of one connection, a second one is opened while the first still streams.
\<close>

lemma streaming_responses_hold_no_slot:
  "(let w = run sample_blocker sample_platform [Register sample_context, Direct 0 sample_request ''inv'', Resolved 0 sample_answer,
       Finished 0 (Some \<lparr>ua_status = Some 200, ua_message = None, ua_headers = [], ua_chunks = []\<rparr>),
       Direct 1 sample_request ''inv'', Resolved 1 sample_answer] in
    flights w = [(0, Draining ''inv''), (1, HttpOpen ''inv'')] \<and> maxConnections sample_context = 1)"
  by code_simp

text \<open>
  Unregistering an invocation forgets its open connections, so after the invocation is registered
  again a second connection is opened beside the first although the limit is one; and a request that
  waits for the resolver is connected although its invocation has been unregistered meanwhile.
\<close>

lemma registration_forgets_connections:
  "open_connections ''inv'' (run sample_blocker sample_platform [Register sample_context, Direct 0 sample_request ''inv'', Resolved 0 sample_answer,
     Unregister ''inv'', Register sample_context, Direct 1 sample_request ''inv'', Resolved 1 sample_answer]) = 2 \<and>
   maxConnections sample_context = 1"
  by code_simp

lemma unregistered_invocation_is_connected:
  "(let w = run sample_blocker sample_platform [Register sample_context, Direct 0 sample_request ''inv'', Unregister ''inv'', Resolved 0 sample_answer] in
    length (contacts w) = 1 \<and> invocations (px w) = [])"
  by code_simp

text \<open>An invocation named in the query of the target is passed on upstream in the path.\<close>

lemma invocation_in_query_leaks:
  "extractInvocationFromTarget (\<lambda>s. s) (nq_url sample_request) = Some ''inv'' \<and>
   uo_path (dispatchUpstream sample_request ''93.184.216.34'' sample_url) = ''/v1?invocationId=inv''"
  by code_simp

end
