(* ===== verification/Resilient.thy ===== *)
theory Resilient
  imports Retry CircuitBreaker KvScope
begin

text \<open>
  The resilient providers (\<open>src/providers/resilient/resilient-provider.ts\<close>): redaction of
  credentials in texts, the sanitised cause of an error, the classification of what a provider
  throws, and the wrappers that run an operation through the circuit breaker and, when it is
  idempotent, through the retry loop.

  What is thrown may be anything: values are primitives or references into a heap of objects,
  which may be shared and cyclic. The regular expressions are lists of items, matched as JavaScript
  does it, the alternatives of an item tried in order and repetitions greedily.
\<close>

section \<open>Regular expressions\<close>

datatype item =
    AnyOf "string list"
  | Exact string
  | Many "char \<Rightarrow> bool" nat "nat option"
  | WordBoundary

definition ci_prefix :: "string \<Rightarrow> string \<Rightarrow> bool" where
  "ci_prefix l s = (length l \<le> length s \<and> to_lower (take (length l) s) = to_lower l)"

definition is_word :: "char \<Rightarrow> bool" where
  "is_word c = (is_digit c \<or> 65 \<le> code c \<and> code c \<le> 90 \<or> 97 \<le> code c \<and> code c \<le> 122 \<or> c = CHR ''_'')"

text \<open>The texts an item may take at a place, the preferred one first.\<close>

fun choices :: "item \<Rightarrow> char option \<Rightarrow> string \<Rightarrow> string list" where
  "choices (AnyOf ls) p s = map (\<lambda>l. take (length l) s) (filter (\<lambda>l. ci_prefix l s) ls)"
| "choices (Exact l) p s = (if prefix l s then [l] else [])"
| "choices (Many P lo hi) p s =
     (let run = takeWhile P s; n = (case hi of None \<Rightarrow> length run | Some h \<Rightarrow> min h (length run)) in
      map (\<lambda>k. take k run) (rev [lo..<n + 1]))"
| "choices WordBoundary p s =
     (if (case p of None \<Rightarrow> False | Some c \<Rightarrow> is_word c) \<noteq> (case s of [] \<Rightarrow> False | c # _ \<Rightarrow> is_word c) then [[]] else [])"

definition prev_char :: "char option \<Rightarrow> string \<Rightarrow> char option" where
  "prev_char p taken = (if taken = [] then p else Some (last taken))"

fun matches :: "item list \<Rightarrow> char option \<Rightarrow> string \<Rightarrow> string list list" where
  "matches [] p s = [[]]"
| "matches (i # is) p s =
     concat (map (\<lambda>a. map ((#) a) (matches is (prev_char p a) (drop (length a) s))) (choices i p s))"

text \<open>\<open>text.replace(/.../g, f)\<close>: the leftmost matches, each continued after the one before.\<close>

function replace_all :: "item list \<Rightarrow> (string list \<Rightarrow> string) \<Rightarrow> char option \<Rightarrow> string \<Rightarrow> string" where
  "replace_all is f p [] = []"
| "replace_all is f p (c # r) =
     (case matches is p (c # r) of
        [] \<Rightarrow> c # replace_all is f (Some c) r
      | m # _ \<Rightarrow>
          if concat m = [] then c # replace_all is f (Some c) r
          else f m @ replace_all is f (prev_char p (concat m)) (drop (length (concat m)) (c # r)))"
  by pat_completeness auto
termination
  by (relation "measure (\<lambda>(is, f, p, s). length s)") (auto simp del: concat_eq_Nil_conv simp flip: length_greater_0_conv)

section \<open>Redaction\<close>

definition REDACTED :: string where
  "REDACTED = ''[REDACTED]''"

definition not_in :: "string \<Rightarrow> char \<Rightarrow> bool" where
  "not_in cs c = (c \<notin> set cs)"

definition url_password :: "item list" where
  "url_password = [AnyOf [''postgres'', ''postgresql'', ''mysql'', ''mariadb'', ''redis'', ''rediss'', ''mongodb'', ''mongodb+srv'',
       ''amqp'', ''amqps'', ''https'', ''http''], AnyOf [''://''], Many (\<lambda>c. c \<notin> set '':/@'' \<and> \<not> is_ws c) 0 None, AnyOf ['':''],
     Many (\<lambda>c. c \<noteq> CHR ''@'' \<and> \<not> is_ws c) 1 None, AnyOf [''@'']]"

definition line_char :: "char \<Rightarrow> bool" where
  "line_char c = (c \<noteq> CHR 0x0D \<and> c \<noteq> CHR 0x0A)"

definition list_char :: "char \<Rightarrow> bool" where
  "list_char c = (c \<noteq> CHR '','' \<and> \<not> is_ws c)"

definition token_char :: "char \<Rightarrow> bool" where
  "token_char c = (is_digit c \<or> 65 \<le> code c \<and> code c \<le> 90 \<or> 97 \<le> code c \<and> code c \<le> 122 \<or> c \<in> set ''-._~+/'')"

definition quote_char :: "char \<Rightarrow> bool" where
  "quote_char c = (code c = 34 \<or> code c = 39)"

definition TOKEN_PREFIX :: string where
  "TOKEN_PREFIX = ''railfog_sec_''"

definition railfog_token :: "item list" where
  "railfog_token = [AnyOf [TOKEN_PREFIX], Many is_word 1 None]"

definition redactions :: "(item list \<times> (string list \<Rightarrow> string)) list" where
  "redactions =
     [(url_password, \<lambda>m. concat (take 4 m) @ REDACTED @ concat (drop 5 m)),
      ([AnyOf [''AWS4-HMAC-SHA256''], Many line_char 0 None], \<lambda>_. REDACTED),
      ([AnyOf [''Credential=''], Many list_char 1 None], \<lambda>_. ''Credential='' @ REDACTED),
      ([AnyOf [''Signature=''], Many is_hex 1 None], \<lambda>_. ''Signature='' @ REDACTED),
      ([AnyOf [''SecretAccessKey'', ''aws_secret_access_key'', ''x-amz-security-token''], Many is_ws 0 None, AnyOf [''=''],
        Many is_ws 0 None, Many list_char 1 None], \<lambda>m. concat (take 4 m) @ REDACTED),
      ([WordBoundary, Exact ''AKIA'', Many (\<lambda>c. is_digit c \<or> 65 \<le> code c \<and> code c \<le> 90) 16 (Some 16), WordBoundary], \<lambda>_. REDACTED),
      ([AnyOf [''Bearer''], Many is_ws 1 None, Many quote_char 0 (Some 1), Many token_char 1 None,
        Many (\<lambda>c. c = CHR ''='') 0 None, Many quote_char 0 (Some 1)], \<lambda>_. ''Bearer '' @ REDACTED),
      (railfog_token, \<lambda>_. REDACTED)]"

text \<open>The caller's patterns are functions: each replaces what it matches.\<close>

definition redactSecrets :: "(string \<Rightarrow> string) list \<Rightarrow> string \<Rightarrow> string" where
  "redactSecrets sensitive text =
     (if text = [] then text
      else fold (\<lambda>g s. g s) sensitive (fold (\<lambda>(is, f) s. replace_all is f None s) redactions text))"

section \<open>What providers throw\<close>

datatype 'a js =
    JNullV
  | JUndefined
  | JText string
  | JNumber int
  | JBoolean bool
  | JRef 'a

datatype kind = PlainObject | OtherError string | RailError error_code

text \<open>
  An object: its kind (for an error that is not the platform's with the name of its class), its
  own properties and what \<open>String\<close> makes of it. Of an error \<open>message\<close>, \<open>stack\<close> and \<open>cause\<close> are
  not enumerable.
\<close>

record 'a obj =
  ob_kind :: kind
  ob_fields :: "(string \<times> 'a js) list"
  ob_string :: string

type_synonym 'a heap = "'a \<Rightarrow> 'a obj"

fun is_error :: "kind \<Rightarrow> bool" where
  "is_error PlainObject = False"
| "is_error _ = True"

fun rail_class :: "error_code \<Rightarrow> string" where
  "rail_class RESOURCE_NOT_FOUND = ''ResourceNotFoundError''"
| "rail_class PERMISSION_DENIED = ''PermissionDeniedError''"
| "rail_class VALIDATION_FAILED = ''ValidationFailedError''"
| "rail_class RATE_LIMITED = ''RateLimitedError''"
| "rail_class CALL_DEPTH_EXCEEDED = ''CallDepthExceededError''"
| "rail_class TIMEOUT = ''TimeoutError''"
| "rail_class PAYLOAD_TOO_LARGE = ''PayloadTooLargeError''"
| "rail_class CONFLICT = ''ConflictError''"
| "rail_class UNAVAILABLE = ''UnavailableError''"
| "rail_class INTERNAL = ''InternalError''"

fun class_name :: "kind \<Rightarrow> string" where
  "class_name PlainObject = ''Object''"
| "class_name (OtherError n) = n"
| "class_name (RailError c) = rail_class c"

definition field :: "'a obj \<Rightarrow> string \<Rightarrow> 'a js" where
  "field ob k = or_default (map_of (ob_fields ob) k) JUndefined"

text \<open>\<open>obj.name\<close>: an error without an own name has that of its class.\<close>

definition name_of :: "'a obj \<Rightarrow> 'a js" where
  "name_of ob = (if field ob ''name'' = JUndefined \<and> is_error (ob_kind ob) then JText (class_name (ob_kind ob)) else field ob ''name'')"

fun text_of :: "'a js \<Rightarrow> string" where
  "text_of (JText s) = s"
| "text_of _ = []"

fun js_truthy :: "'a js \<Rightarrow> bool" where
  "js_truthy JNullV = False"
| "js_truthy JUndefined = False"
| "js_truthy (JText s) = (s \<noteq> [])"
| "js_truthy (JNumber n) = (n \<noteq> 0)"
| "js_truthy (JBoolean b) = b"
| "js_truthy (JRef a) = True"

section \<open>The sanitised cause\<close>

text \<open>What is made of a cause is new: a tree of objects and sanitised errors.\<close>

datatype tree =
    Leaf "unit js"
  | Node kind "(string \<times> tree) list"

fun leaf :: "'a js \<Rightarrow> unit js" where
  "leaf JNullV = JNullV"
| "leaf JUndefined = JUndefined"
| "leaf (JText s) = JText s"
| "leaf (JNumber n) = JNumber n"
| "leaf (JBoolean b) = JBoolean b"
| "leaf (JRef a) = JUndefined"

fun walk :: "(string \<Rightarrow> string) \<Rightarrow> ('a list \<Rightarrow> 'a js \<Rightarrow> tree \<times> 'a list) \<Rightarrow> (string \<times> 'a js) list \<Rightarrow> 'a list \<Rightarrow> (string \<times> tree) list \<times> 'a list" where
  "walk red go [] seen = ([], seen)"
| "walk red go ((k, v) # es) seen =
     (case v of
        JText s \<Rightarrow> (let (ts, seen1) = walk red go es seen in ((k, Leaf (JText (red s))) # ts, seen1))
      | JRef a \<Rightarrow> (let (t, seen1) = go seen v; (ts, seen2) = walk red go es seen1 in ((k, t) # ts, seen2))
      | _ \<Rightarrow> (let (ts, seen1) = walk red go es seen in ((k, Leaf (leaf v)) # ts, seen1)))"

definition put_field :: "string \<Rightarrow> tree \<Rightarrow> (string \<times> tree) list \<Rightarrow> (string \<times> tree) list" where
  "put_field k t fs = oset k t fs"

text \<open>An object at a depth from which \<open>k\<close> more levels are entered; \<open>go\<close> is the next level.\<close>

definition sanitize_object :: "(string \<Rightarrow> string) \<Rightarrow> ('a list \<Rightarrow> 'a js \<Rightarrow> tree \<times> 'a list) \<Rightarrow> 'a obj \<Rightarrow> 'a list \<Rightarrow> tree \<times> 'a list" where
  "sanitize_object red go ob seen =
     (if is_error (ob_kind ob) then
        let head = [(''message'', Leaf (JText (red (text_of (field ob ''message''))))), (''name'', Leaf (leaf (name_of ob)))] @
              (if js_truthy (field ob ''stack'') then [(''stack'', Leaf (JText (red (text_of (field ob ''stack'')))))] else []);
            (props, seen1) = walk red go (filter (\<lambda>e. fst e \<notin> {''cause'', ''message'', ''stack''}) (ob_fields ob)) seen;
            base = fold (\<lambda>(k, t). put_field k t) props head in
        (case map_of (ob_fields ob) ''cause'' of
           None \<Rightarrow> (Node (ob_kind ob) base, seen1)
         | Some c \<Rightarrow> (let (t, seen2) = go seen1 c in (Node (ob_kind ob) (put_field ''cause'' t base), seen2)))
      else (let (props, seen1) = walk red go (ob_fields ob) seen in (Node PlainObject (fold (\<lambda>(k, t). put_field k t) props []), seen1)))"

text \<open>\<open>sanitizeCause\<close> with \<open>k\<close> levels left: the code's depth is \<open>11 - k\<close>.\<close>

fun sanitizeCause :: "'a heap \<Rightarrow> (string \<Rightarrow> string) \<Rightarrow> nat \<Rightarrow> 'a list \<Rightarrow> 'a js \<Rightarrow> tree \<times> 'a list" where
  "sanitizeCause h red k seen (JText s) = (Leaf (JText (red s)), seen)"
| "sanitizeCause h red 0 seen (JRef a) =
     (if a \<in> set seen then (Leaf (JText ''[CIRCULAR]''), seen) else (Leaf (JText ''[MAX_DEPTH_EXCEEDED]''), seen))"
| "sanitizeCause h red (Suc k) seen (JRef a) =
     (if a \<in> set seen then (Leaf (JText ''[CIRCULAR]''), seen)
      else sanitize_object red (sanitizeCause h red k) (h a) (a # seen))"
| "sanitizeCause h red k seen v = (Leaf (leaf v), seen)"

definition MAX_CAUSE_LEVELS :: nat where
  "MAX_CAUSE_LEVELS = 11"

section \<open>Classification\<close>

fun number_of :: "'a js \<Rightarrow> int option" where
  "number_of (JNumber n) = Some n"
| "number_of _ = None"

text \<open>
  \<open>extractStatusCode\<close> follows the causes without a bound: \<open>None\<close> when the fuel is used up.
\<close>

definition own_status :: "'a heap \<Rightarrow> 'a obj \<Rightarrow> int option" where
  "own_status h ob =
     or_else (number_of (field ob ''status'')) (or_else (number_of (field ob ''statusCode'')) (or_else (number_of (field ob ''httpStatus''))
       (case field ob ''$metadata'' of JRef m \<Rightarrow> number_of (field (h m) ''httpStatusCode'') | _ \<Rightarrow> None)))"

fun extractStatusCode :: "nat \<Rightarrow> 'a heap \<Rightarrow> 'a js \<Rightarrow> int option option" where
  "extractStatusCode 0 h v = None"
| "extractStatusCode (Suc n) h (JRef a) =
     (case own_status h (h a) of
        Some c \<Rightarrow> Some (Some c)
      | None \<Rightarrow> if js_truthy (field (h a) ''cause'') then extractStatusCode n h (field (h a) ''cause'') else Some None)"
| "extractStatusCode (Suc n) h v = Some None"

definition spaced :: "'a js \<Rightarrow> string" where
  "spaced v = (case v of JText s \<Rightarrow> '' '' @ s | _ \<Rightarrow> [])"

fun extractAllMessages :: "nat \<Rightarrow> 'a heap \<Rightarrow> 'a js \<Rightarrow> string" where
  "extractAllMessages 0 h v = []"
| "extractAllMessages (Suc n) h (JText s) = (if s = [] then [] else '' '' @ s)"
| "extractAllMessages (Suc n) h (JRef a) =
     spaced (field (h a) ''message'') @ spaced (name_of (h a)) @ extractAllMessages n h (field (h a) ''cause'')"
| "extractAllMessages (Suc n) h v = []"

definition maxCauseDepth :: nat where
  "maxCauseDepth = 10"

definition mentions :: "string list \<Rightarrow> string \<Rightarrow> bool" where
  "mentions ls s = (let t = to_lower s in list_ex (\<lambda>l. str_includes t (to_lower l)) ls)"

definition rail_of :: "'a heap \<Rightarrow> 'a js \<Rightarrow> error_code option" where
  "rail_of h v = (case v of JRef a \<Rightarrow> (case ob_kind (h a) of RailError c \<Rightarrow> Some c | _ \<Rightarrow> None) | _ \<Rightarrow> None)"

definition target_class :: "int option \<Rightarrow> string \<Rightarrow> error_code option \<Rightarrow> error_code" where
  "target_class status combined rail =
     (if status \<in> {Some 503, Some 502, Some 504} \<or>
         mentions [''ECONNRESET'', ''ECONNREFUSED'', ''fetch failed'', ''socket hang up'', ''SlowDown'', ''Service Unavailable''] combined then UNAVAILABLE
      else if status = Some 404 \<or> mentions [''NoSuchKey'', ''Not Found'', ''Key not found''] combined then RESOURCE_NOT_FOUND
      else if status = Some 408 \<or> mentions [''ETIMEDOUT'', ''Request Timeout'', ''Socket timeout'', ''deadline exceeded''] combined then TIMEOUT
      else if status = Some 429 \<or> mentions [''Too Many Requests'', ''ThrottlingException'', ''Rate limit''] combined then RATE_LIMITED
      else if status = Some 409 \<or> mentions [''CAS mismatch'', ''version conflict''] combined then CONFLICT
      else or_default rail INTERNAL)"

definition nonempty_or :: "string \<Rightarrow> string \<Rightarrow> string" where
  "nonempty_or a b = (if a = [] then b else a)"

fun raw_message :: "'a heap \<Rightarrow> 'a js \<Rightarrow> string" where
  "raw_message h (JText s) = s"
| "raw_message h (JRef a) =
     (if is_error (ob_kind (h a))
      then nonempty_or (text_of (field (h a) ''message'')) (nonempty_or (text_of (name_of (h a))) ''Error'')
      else (case field (h a) ''message'' of JText s \<Rightarrow> s | _ \<Rightarrow> ob_string (h a)))"
| "raw_message h JNullV = ''Internal error: null''"
| "raw_message h JUndefined = ''Internal error: undefined''"
| "raw_message h (JNumber n) = int_str n"
| "raw_message h (JBoolean b) = (if b then ''true'' else ''false'')"

record normalized_error =
  ne_code :: error_code
  ne_message :: string
  ne_requestId :: "string option"
  ne_cause :: "tree option"
  ne_stack :: "string option"

definition raw_cause :: "'a heap \<Rightarrow> 'a js \<Rightarrow> 'a js" where
  "raw_cause h v = (case v of JRef a \<Rightarrow> (if field (h a) ''cause'' = JUndefined then v else field (h a) ''cause'') | _ \<Rightarrow> v)"

definition normalized_stack :: "(string \<Rightarrow> string) \<Rightarrow> 'a heap \<Rightarrow> 'a js \<Rightarrow> error_code \<Rightarrow> string \<Rightarrow> string option" where
  "normalized_stack red h v c msg =
     (case v of
        JRef a \<Rightarrow>
          if is_error (ob_kind (h a)) \<and> js_truthy (field (h a) ''stack'') then
            (let st = red (text_of (field (h a) ''stack'')) in
             Some (rail_class c @ '': '' @ msg @ (case index_of (CHR 0x0A) st of None \<Rightarrow> [] | Some i \<Rightarrow> drop i st)))
          else None
      | _ \<Rightarrow> None)"

text \<open>\<open>None\<close> when reading the status does not end within the fuel.\<close>

definition normalizeProviderError :: "nat \<Rightarrow> (string \<Rightarrow> string) \<Rightarrow> 'a heap \<Rightarrow> 'a js \<Rightarrow> normalized_error option" where
  "normalizeProviderError fuel red h v =
     map_option (\<lambda>status.
       let c = target_class status (extractAllMessages maxCauseDepth h v) (rail_of h v); msg = red (raw_message h v); cause = raw_cause h v in
       \<lparr>ne_code = c, ne_message = msg,
        ne_requestId = (case v of JRef a \<Rightarrow> (case (rail_of h v, field (h a) ''requestId'') of (Some _, JText r) \<Rightarrow> Some r | _ \<Rightarrow> None) | _ \<Rightarrow> None),
        ne_cause = (if v \<in> {JNullV, JUndefined} \<or> cause \<in> {JNullV, JUndefined} then None else Some (fst (sanitizeCause h red MAX_CAUSE_LEVELS [] cause))),
        ne_stack = normalized_stack red h v c msg\<rparr>)
     (extractStatusCode fuel h v)"

section \<open>Redaction removes platform tokens\<close>

definition starts_token :: "string \<Rightarrow> bool" where
  "starts_token s = (ci_prefix TOKEN_PREFIX s \<and> (case drop (length TOKEN_PREFIX) s of [] \<Rightarrow> False | c # r \<Rightarrow> is_word c))"

lemma starts_token_iff: "starts_token s \<longleftrightarrow> ci_prefix TOKEN_PREFIX s \<and> (\<exists>c r. drop (length TOKEN_PREFIX) s = c # r \<and> is_word c)"
  by (auto simp: starts_token_def split: list.split)

fun has_token :: "string \<Rightarrow> bool" where
  "has_token [] = False"
| "has_token (c # r) = (starts_token (c # r) \<or> has_token r)"

lemma lower_word: "is_word (lower_char c) \<Longrightarrow> is_word c"
proof -
  assume w: "is_word (lower_char c)"
  show ?thesis
  proof (cases "65 \<le> code c \<and> code c \<le> 90 \<or> 192 \<le> code c \<and> code c \<le> 222 \<and> code c \<noteq> 215")
    case True
    then have l: "lower_char c = char_of (code c + 32)" by (simp add: lower_char_def Let_def)
    then have "code (lower_char c) = code c + 32" using True by (auto simp: l)
    moreover have "lower_char c = CHR ''_'' \<Longrightarrow> code (lower_char c) = 95" by simp
    ultimately show ?thesis using w True by (auto simp: is_word_def is_digit_def)
  next
    case False
    then show ?thesis using w by (auto simp: lower_char_def Let_def split: if_splits)
  qed
qed

lemma token_prefix_word: "ci_prefix TOKEN_PREFIX s \<Longrightarrow> c \<in> set (take (length TOKEN_PREFIX) s) \<Longrightarrow> is_word c"
proof -
  assume a: "ci_prefix TOKEN_PREFIX s" "c \<in> set (take (length TOKEN_PREFIX) s)"
  have "lower_char c \<in> set (to_lower (take (length TOKEN_PREFIX) s))" using a(2) by (simp add: to_lower_def)
  moreover have "list_all is_word (to_lower TOKEN_PREFIX)" by code_simp
  ultimately have "is_word (lower_char c)" using a(1) by (auto simp: ci_prefix_def list_all_iff)
  then show ?thesis by (rule lower_word)
qed

lemma starts_token_mono: "starts_token s \<Longrightarrow> prefix s t \<Longrightarrow> starts_token t"
  by (auto simp: starts_token_iff ci_prefix_def prefix_def)

lemma starts_token_run: "starts_token s \<Longrightarrow> starts_token (takeWhile is_word s)"
proof -
  assume a: "starts_token s"
  let ?n = "length TOKEN_PREFIX"
  obtain c r where c: "drop ?n s = c # r" "is_word c" and p: "ci_prefix TOKEN_PREFIX s" using a by (auto simp: starts_token_iff)
  have "s = take ?n s @ c # r" using c(1) by (metis append_take_drop_id)
  then have "takeWhile is_word s = take ?n s @ c # takeWhile is_word r"
    using token_prefix_word[OF p] c(2) takeWhile_append2[of "take ?n s" is_word "c # r"] by (metis takeWhile.simps(2))
  moreover have "length (take ?n s) = ?n" using p by (simp add: ci_prefix_def)
  ultimately show ?thesis using p c(2) by (auto simp: starts_token_iff ci_prefix_def)
qed

lemma has_token_chars: "has_token s \<Longrightarrow> set (to_lower TOKEN_PREFIX) \<subseteq> lower_char ` set s"
proof (induction s)
  case (Cons c r)
  show ?case
  proof (cases "starts_token (c # r)")
    case True
    then have "to_lower TOKEN_PREFIX = map lower_char (take (length TOKEN_PREFIX) (c # r))" by (simp add: starts_token_iff ci_prefix_def to_lower_def)
    then have "set (to_lower TOKEN_PREFIX) = lower_char ` set (take (length TOKEN_PREFIX) (c # r))" by simp
    then show ?thesis using set_take_subset[of "length TOKEN_PREFIX" "c # r"] by blast
  qed (use Cons in auto)
qed simp

text \<open>Texts without an underscore, or without the letter g, hold no token.\<close>

lemma no_token: "list_all (\<lambda>c. lower_char c \<noteq> CHR ''_'') s \<or> list_all (\<lambda>c. lower_char c \<noteq> CHR ''g'') s \<Longrightarrow> \<not> has_token s"
proof
  assume a: "list_all (\<lambda>c. lower_char c \<noteq> CHR ''_'') s \<or> list_all (\<lambda>c. lower_char c \<noteq> CHR ''g'') s" and t: "has_token s"
  have "CHR ''_'' \<in> set (to_lower TOKEN_PREFIX)" "CHR ''g'' \<in> set (to_lower TOKEN_PREFIX)" by code_simp+
  then have "CHR ''_'' \<in> lower_char ` set s" "CHR ''g'' \<in> lower_char ` set s" using has_token_chars[OF t] by blast+
  then obtain c d where "c \<in> set s" "lower_char c = CHR ''_''" "d \<in> set s" "lower_char d = CHR ''g''" by (elim imageE) metis
  then show False using a unfolding list_all_iff by blast
qed

lemma railfog_token_matches: "matches railfog_token p s \<noteq> [] \<longleftrightarrow> starts_token s"
proof -
  let ?n = "length TOKEN_PREFIX"
  have c: "choices (Many is_word 1 None) q t \<noteq> [] \<longleftrightarrow> (\<exists>c r. t = c # r \<and> is_word c)" for q t
    by (cases t) (auto simp: Let_def)
  show ?thesis
  proof (cases "ci_prefix TOKEN_PREFIX s")
    case True
    then have "length (take ?n s) = ?n" by (simp add: ci_prefix_def)
    then have "matches railfog_token p s \<noteq> [] \<longleftrightarrow> choices (Many is_word 1 None) (prev_char p (take ?n s)) (drop ?n s) \<noteq> []"
      using True by (simp add: railfog_token_def del: choices.simps(3))
    then show ?thesis unfolding c using True by (simp add: starts_token_iff)
  qed (simp add: railfog_token_def starts_token_iff)
qed

lemma railfog_token_nonempty: "m \<in> set (matches railfog_token p s) \<Longrightarrow> concat m \<noteq> []"
  by (auto simp: railfog_token_def ci_prefix_def TOKEN_PREFIX_def split: if_splits)

definition redact_tokens :: "char option \<Rightarrow> string \<Rightarrow> string" where
  "redact_tokens p s = replace_all railfog_token (\<lambda>_. REDACTED) p s"

lemma redact_tokens_Cons:
  "redact_tokens p (c # r) = c # redact_tokens (Some c) r \<and> \<not> starts_token (c # r) \<or>
   (\<exists>q t. redact_tokens p (c # r) = REDACTED @ redact_tokens q t \<and> length t < length (c # r))"
proof (cases "matches railfog_token p (c # r)")
  case Nil
  then show ?thesis using railfog_token_matches[of p "c # r"] by (simp add: redact_tokens_def)
next
  case (Cons m ms)
  then have "concat m \<noteq> []" using railfog_token_nonempty[of m p "c # r"] by simp
  then have l: "0 < length (concat m)" by blast
  have "redact_tokens p (c # r) = REDACTED @ redact_tokens (prev_char p (concat m)) (drop (length (concat m)) (c # r))"
    using Cons \<open>concat m \<noteq> []\<close> by (simp add: redact_tokens_def del: concat_eq_Nil_conv)
  moreover have "length (drop (length (concat m)) (c # r)) < length (c # r)" using l by simp
  ultimately show ?thesis by blast
qed

lemma redact_tokens_run: "prefix (takeWhile is_word (redact_tokens p s)) (takeWhile is_word s)"
proof (induction "length s" arbitrary: p s rule: less_induct)
  case less
  show ?case
  proof (cases s)
    case Nil
    then show ?thesis by (simp add: redact_tokens_def)
  next
    case (Cons c r)
    from redact_tokens_Cons[of p c r] show ?thesis
    proof (elim disjE conjE exE)
      assume "redact_tokens p (c # r) = c # redact_tokens (Some c) r"
      then show ?thesis using less[of r "Some c"] Cons by simp
    next
      fix q t assume "redact_tokens p (c # r) = REDACTED @ redact_tokens q t"
      then show ?thesis using Cons by (simp add: REDACTED_def is_word_def is_digit_def)
    qed
  qed
qed

lemma has_token_drop: "has_token s \<longleftrightarrow> (\<exists>i. starts_token (drop i s))"
proof (induction s)
  case Nil
  then show ?case by (simp add: starts_token_iff)
next
  case (Cons c r)
  have "(\<exists>i. starts_token (drop i (c # r))) \<longleftrightarrow> starts_token (c # r) \<or> (\<exists>i. starts_token (drop i r))"
    by (metis drop0 drop_Suc_Cons not0_implies_Suc)
  then show ?case using Cons by simp
qed

lemma starts_token_word: "starts_token s \<Longrightarrow> \<exists>c r. s = c # r \<and> is_word c"
  using starts_token_run[of s] by (cases s) (auto simp: starts_token_iff split: if_splits)

lemma marker_run: "i < length REDACTED \<Longrightarrow> \<not> starts_token (drop i REDACTED @ s)"
proof
  assume i: "i < length REDACTED" and t: "starts_token (drop i REDACTED @ s)"
  obtain b where r: "REDACTED = b @ '']''" "length b = 9" by (rule that[of "''[REDACTED''"]) (simp_all add: REDACTED_def)
  have d: "drop i REDACTED @ s = drop i b @ CHR '']'' # s" using i by (simp add: r)
  have "\<not> is_word (CHR '']'')" by code_simp
  then have "takeWhile is_word (drop i REDACTED @ s) = takeWhile is_word (drop i b)" unfolding d by (rule takeWhile_tail)
  then have "length (takeWhile is_word (drop i REDACTED @ s)) \<le> 9" using r(2) length_takeWhile_le[of is_word "drop i b"] by simp
  moreover have "starts_token (takeWhile is_word (drop i REDACTED @ s))" using t by (rule starts_token_run)
  ultimately show False by (simp add: starts_token_iff ci_prefix_def TOKEN_PREFIX_def)
qed

lemma has_token_skip: "has_token (REDACTED @ s) \<longleftrightarrow> has_token s"
proof
  assume "has_token (REDACTED @ s)"
  then obtain i where i: "starts_token (drop i (REDACTED @ s))" using has_token_drop by blast
  then have "\<not> i < length REDACTED" using marker_run[of i s] by auto
  then show "has_token s" using i has_token_drop by auto
next
  assume "has_token s"
  then obtain i where "starts_token (drop i s)" using has_token_drop by blast
  then have "starts_token (drop (length REDACTED + i) (REDACTED @ s))" by simp
  then show "has_token (REDACTED @ s)" using has_token_drop by blast
qed

lemma redact_tokens_clean: "\<not> has_token (redact_tokens p s)"
proof (induction "length s" arbitrary: p s rule: less_induct)
  case less
  show ?case
  proof (cases s)
    case Nil
    then show ?thesis by (simp add: redact_tokens_def)
  next
    case (Cons c r)
    from redact_tokens_Cons[of p c r] show ?thesis
    proof (elim disjE conjE exE)
      assume e: "redact_tokens p (c # r) = c # redact_tokens (Some c) r" and n: "\<not> starts_token (c # r)"
      have "\<not> starts_token (redact_tokens p (c # r))"
        using n starts_token_mono[OF starts_token_run redact_tokens_run] starts_token_mono[OF _ takeWhile_is_prefix] by blast
      then show ?thesis using e less[of r "Some c"] Cons by simp
    next
      fix q t assume "redact_tokens p (c # r) = REDACTED @ redact_tokens q t" "length t < length (c # r)"
      then show ?thesis using less[of t q] has_token_skip[of "redact_tokens q t"] Cons by simp
    qed
  qed
qed

lemma redactSecrets_clean: "\<not> has_token (redactSecrets [] text)"
proof (cases "text = []")
  case False
  have "redactSecrets [] text = redact_tokens None (fold (\<lambda>(is, f) s. replace_all is f None s) (butlast redactions) text)"
    using False by (simp add: redactSecrets_def redactions_def redact_tokens_def)
  then show ?thesis using redact_tokens_clean by simp
qed (simp add: redactSecrets_def)

lemma has_token_split: "\<not> is_word c \<Longrightarrow> has_token (a @ c # b) \<longleftrightarrow> has_token a \<or> has_token (c # b)"
proof (induction a)
  case (Cons x a)
  have "starts_token (x # a @ c # b) \<longleftrightarrow> starts_token (x # a)"
  proof
    assume "starts_token (x # a @ c # b)"
    then have "starts_token (takeWhile is_word ((x # a) @ c # b))" using starts_token_run[of "x # a @ c # b"] by (simp only: append_Cons)
    then have "starts_token (takeWhile is_word (x # a))" using Cons.prems takeWhile_tail[of is_word c "x # a" b] by metis
    then show "starts_token (x # a)" using starts_token_mono[OF _ takeWhile_is_prefix] by blast
  next
    assume "starts_token (x # a)"
    then show "starts_token (x # a @ c # b)" by (rule starts_token_mono) simp
  qed
  then show ?case using Cons by simp
qed simp

lemma has_token_word: "\<not> is_word c \<Longrightarrow> has_token (c # b) \<longleftrightarrow> has_token b"
  using starts_token_word[of "c # b"] by auto

lemma has_token_dropped: "\<not> has_token s \<Longrightarrow> \<not> has_token (drop i s)"
  unfolding has_token_drop by (metis drop_drop)

section \<open>The texts of a sanitised cause\<close>

fun tree_texts :: "tree \<Rightarrow> string list" where
  "tree_texts (Leaf (JText s)) = [s]"
| "tree_texts (Leaf _) = []"
| "tree_texts (Node k fs) = concat (map (\<lambda>e. tree_texts (snd e)) fs)"

definition all_texts :: "(string \<Rightarrow> bool) \<Rightarrow> tree \<Rightarrow> bool" where
  "all_texts G t = list_all G (tree_texts t)"

lemma all_texts_simps [simp]:
  "all_texts G (Leaf (JText s)) = G s" "all_texts G (Leaf JNullV)" "all_texts G (Leaf JUndefined)" "all_texts G (Leaf (JNumber n))"
  "all_texts G (Leaf (JBoolean b))" "all_texts G (Leaf (JRef r))"
  "all_texts G (Node k fs) = (\<forall>e \<in> set fs. all_texts G (snd e))"
  by (simp_all add: all_texts_def list_all_iff)

lemma put_fields_set:
  "(k, t) \<in> set (fold (\<lambda>(k, t). put_field k t) ps base) \<Longrightarrow> owf base \<Longrightarrow> (k, t) \<in> set ps \<or> (k, t) \<in> set base \<and> k \<notin> fst ` set ps"
proof (induction ps arbitrary: base)
  case (Cons e ps)
  obtain k0 t0 where e: "e = (k0, t0)" by (cases e)
  have o: "owf (put_field k0 t0 base)" using Cons.prems(2) by (simp add: put_field_def)
  have "(k, t) \<in> set (put_field k0 t0 base) \<Longrightarrow> (k, t) = (k0, t0) \<or> (k, t) \<in> set base \<and> k \<noteq> k0"
  proof -
    assume m: "(k, t) \<in> set (put_field k0 t0 base)"
    show ?thesis
    proof (cases "k = k0")
      case True
      then show ?thesis using m o by (metis map_of_is_SomeI oget_oset option.inject owf_def put_field_def)
    next
      case False
      then show ?thesis using m oset_set_subset[of k0 t0 base] by (auto simp: put_field_def)
    qed
  qed
  then show ?case using Cons.IH[OF _ o] Cons.prems(1) e by auto
qed simp

lemma walk_texts:
  assumes "\<And>s. G (red s)" "\<And>seen v. all_texts G (fst (go seen v))"
  shows "(\<forall>e \<in> set (fst (walk red go es seen)). all_texts G (snd e)) \<and> fst ` set (fst (walk red go es seen)) = fst ` set es"
proof (induction es arbitrary: seen)
  case (Cons e es)
  obtain k v where e: "e = (k, v)" by (cases e)
  show ?case
  proof (cases v)
    case (JText s)
    then show ?thesis using Cons[of seen] e assms(1) by (cases "walk red go es seen") auto
  next
    case (JRef a)
    obtain t seen1 where g: "go seen v = (t, seen1)" by (cases "go seen v")
    have "all_texts G t" using assms(2)[of seen v] g by simp
    then show ?thesis using Cons[of seen1] e g JRef by (cases "walk red go es seen1") auto
  qed (use Cons[of seen] e in \<open>cases "walk red go es seen"; auto\<close>)+
qed simp

lemma sanitize_object_texts:
  assumes "\<And>s. G (red s)" "\<And>seen v. all_texts G (fst (go seen v))" "G (class_name (ob_kind ob))"
  shows "all_texts G (fst (sanitize_object red go ob seen))"
proof (cases "is_error (ob_kind ob)")
  case False
  note w = walk_texts[of G red go "ob_fields ob" seen, OF assms(1,2)]
  show ?thesis using False w put_fields_set[of _ _ "fst (walk red go (ob_fields ob) seen)" "[]"]
    by (cases "walk red go (ob_fields ob) seen") (fastforce simp: sanitize_object_def)
next
  case True
  define es where "es = filter (\<lambda>e. fst e \<notin> {''cause'', ''message'', ''stack''}) (ob_fields ob)"
  define hd0 where "hd0 = [(''message'', Leaf (JText (red (text_of (field ob ''message''))))), (''name'', Leaf (leaf (name_of ob)))] @
      (if js_truthy (field ob ''stack'') then [(''stack'', Leaf (JText (red (text_of (field ob ''stack'')))))] else [])"
  obtain props seen1 where w: "walk red go es seen = (props, seen1)" by (cases "walk red go es seen")
  have ps: "\<forall>e \<in> set props. all_texts G (snd e)" "fst ` set props = fst ` set es" using walk_texts[of G red go es seen, OF assms(1,2)] w by auto
  define base where "base = fold (\<lambda>(k, t). put_field k t) props hd0"
  have o: "owf hd0" by (simp add: hd0_def owf_def)
  have nm: "all_texts G (Leaf (leaf (name_of ob)))" if "''name'' \<notin> fst ` set props"
  proof -
    have "''name'' \<notin> fst ` set (ob_fields ob)" using that ps(2) by (auto simp: es_def)
    then have "field ob ''name'' = JUndefined" by (simp add: field_def map_of_eq_None_iff[THEN iffD2])
    then show ?thesis using True assms(3) by (simp add: name_of_def)
  qed
  have b: "all_texts G t" if "(k, t) \<in> set base" for k t
  proof -
    have h: "\<forall>e \<in> set hd0. (if fst e = ''name'' then snd e = Leaf (leaf (name_of ob)) else all_texts G (snd e))"
      using assms(1) by (simp add: hd0_def)
    have "(k, t) \<in> set props \<or> (k, t) \<in> set hd0 \<and> k \<notin> fst ` set props" using put_fields_set[OF that[unfolded base_def] o] .
    then show ?thesis
    proof
      assume "(k, t) \<in> set props"
      then show ?thesis using ps(1) by force
    next
      assume "(k, t) \<in> set hd0 \<and> k \<notin> fst ` set props"
      then show ?thesis using h nm by (cases "k = ''name''") force+
    qed
  qed
  have e: "sanitize_object red go ob seen =
      (case map_of (ob_fields ob) ''cause'' of
         None \<Rightarrow> (Node (ob_kind ob) base, seen1)
       | Some c \<Rightarrow> (let (t, seen2) = go seen1 c in (Node (ob_kind ob) (put_field ''cause'' t base), seen2)))"
    unfolding sanitize_object_def Let_def es_def[symmetric] hd0_def[symmetric] w base_def using True by simp
  show ?thesis
  proof (cases "map_of (ob_fields ob) ''cause''")
    case None
    then show ?thesis using e b by auto
  next
    case (Some c)
    obtain t seen2 where g: "go seen1 c = (t, seen2)" by (cases "go seen1 c")
    have "all_texts G t" using assms(2)[of seen1 c] g by simp
    then show ?thesis using e b g Some oset_set_subset[of "''cause''" t base] by (fastforce simp: put_field_def)
  qed
qed

lemma sanitizeCause_texts:
  assumes "\<And>s. G (red s)" "\<And>a. G (class_name (ob_kind (h a)))" "G ''[CIRCULAR]''" "G ''[MAX_DEPTH_EXCEEDED]''"
  shows "all_texts G (fst (sanitizeCause h red k seen v))"
proof (induction k arbitrary: seen v)
  case 0
  show ?case by (cases v) (use assms in auto)
next
  case (Suc k)
  show ?case
  proof (cases v)
    case (JRef a)
    then show ?thesis using sanitize_object_texts[of G red "sanitizeCause h red k" "h a" "a # seen"] assms Suc by auto
  qed (use assms in auto)
qed


section \<open>Running an operation\<close>

text \<open>
  The exceptions of the other components as objects; what is foreign to them is any value. The
  fuel is the depth of the call stack: reading the status of an endless chain of causes exhausts it.
\<close>

datatype loc = OfExn exn | Loc nat

definition rail_fields :: "rf_error \<Rightarrow> (string \<times> loc js) list" where
  "rail_fields e = [(''requestId'', case err_requestId e of None \<Rightarrow> JUndefined | Some r \<Rightarrow> JText r), (''name'', JText (rail_class (err_code e))),
     (''code'', JText (code_name (err_code e))), (''message'', JText (err_message e))]"

fun exn_obj :: "exn \<Rightarrow> loc obj" where
  "exn_obj (RF e) = \<lparr>ob_kind = RailError (err_code e), ob_fields = rail_fields e, ob_string = []\<rparr>"
| "exn_obj (exn.PlainError m) = \<lparr>ob_kind = OtherError ''Error'', ob_fields = [(''message'', JText m)], ob_string = []\<rparr>"
| "exn_obj RangeError = \<lparr>ob_kind = OtherError ''RangeError'', ob_fields = [(''message'', JText ''RangeError'')], ob_string = []\<rparr>"
| "exn_obj URIError = \<lparr>ob_kind = OtherError ''URIError'', ob_fields = [(''message'', JText ''URI malformed'')], ob_string = []\<rparr>"
| "exn_obj (Foreign m) = \<lparr>ob_kind = OtherError ''Error'', ob_fields = [(''message'', JText m)], ob_string = []\<rparr>"

record thrown_world =
  tw_objects :: "nat \<Rightarrow> loc obj"
  tw_foreign :: "string \<Rightarrow> loc js"
  tw_patterns :: "(string \<Rightarrow> string) list"
  tw_stack :: nat

fun tw_heap :: "thrown_world \<Rightarrow> loc heap" where
  "tw_heap tw (OfExn e) = exn_obj e"
| "tw_heap tw (Loc n) = tw_objects tw n"

fun thrown_value :: "thrown_world \<Rightarrow> exn \<Rightarrow> loc js" where
  "thrown_value tw (Foreign s) = tw_foreign tw s"
| "thrown_value tw e = JRef (OfExn e)"

definition normalize :: "thrown_world \<Rightarrow> exn \<Rightarrow> exn" where
  "normalize tw e =
     (case normalizeProviderError (tw_stack tw) (redactSecrets (tw_patterns tw)) (tw_heap tw) (thrown_value tw e) of
        None \<Rightarrow> RangeError
      | Some n \<Rightarrow> RF \<lparr>err_code = ne_code n, err_message = ne_message n, err_requestId = ne_requestId n\<rparr>)"

definition transient :: "thrown_world \<Rightarrow> exn \<Rightarrow> bool" where
  "transient tw e = (exn_code (normalize tw e) \<in> {Some UNAVAILABLE, Some TIMEOUT})"

lemma normalize_code:
  "exn_code (normalize tw e) = map_option (\<lambda>status. target_class status
     (extractAllMessages maxCauseDepth (tw_heap tw) (thrown_value tw e)) (rail_of (tw_heap tw) (thrown_value tw e)))
     (extractStatusCode (tw_stack tw) (tw_heap tw) (thrown_value tw e))"
  by (auto simp: normalize_def normalizeProviderError_def Let_def split: option.split)

text \<open>The class does not depend on the redacted message, so it is computed without it.\<close>

lemma transient_code [code]:
  "transient tw e = (map_option (\<lambda>status. target_class status
     (extractAllMessages maxCauseDepth (tw_heap tw) (thrown_value tw e)) (rail_of (tw_heap tw) (thrown_value tw e)))
     (extractStatusCode (tw_stack tw) (tw_heap tw) (thrown_value tw e)) \<in> {Some UNAVAILABLE, Some TIMEOUT})"
  unfolding transient_def normalize_code by (rule refl)

record ResilientProviderOptions =
  retryPolicy :: "RetryPolicyOptions option"
  circuitBreaker :: "breaker option"

definition no_policy :: RetryPolicyOptions where
  "no_policy = \<lparr>baseMs = None, capMs = None, maxAttempts = None, randomUniform = None, shouldRetry = None\<rparr>"

definition retryOpts :: "thrown_world \<Rightarrow> ResilientProviderOptions \<Rightarrow> RetryPolicyOptions" where
  "retryOpts tw opts =
     (let p = or_default (retryPolicy opts) no_policy in
      p\<lparr>shouldRetry := Some (\<lambda>e n. transient tw e \<and> (case shouldRetry p of None \<Rightarrow> True | Some f \<Rightarrow> f e n))\<rparr>)"

definition rethrow :: "thrown_world \<Rightarrow> 'a res \<Rightarrow> 'a res" where
  "rethrow tw r = map_sum (normalize tw) id r"

record 'a resilient_result =
  rr_outcome :: "'a res"
  rr_calls :: nat
  rr_sleeps :: "rat list"
  rr_table :: "cb_value table"

definition protect :: "nat \<Rightarrow> world \<Rightarrow> thrown_world \<Rightarrow> ResilientProviderOptions \<Rightarrow> 'a retry_result \<Rightarrow> cb_value table \<Rightarrow> 'a resilient_result option" where
  "protect fuel w tw opts attempts t =
     (case circuitBreaker opts of
        None \<Rightarrow> Some \<lparr>rr_outcome = rethrow tw (result attempts), rr_calls = Suc (length (sleeps attempts)), rr_sleeps = sleeps attempts, rr_table = t\<rparr>
      | Some b \<Rightarrow>
          map_option (\<lambda>x. \<lparr>rr_outcome = rethrow tw (outcome x), rr_calls = (if invoked x then Suc (length (sleeps attempts)) else 0),
              rr_sleeps = (if invoked x then sleeps attempts else []), rr_table = table_after x\<rparr>)
            (execute fuel w b (result attempts) t))"

text \<open>The operation's outcome depends on the attempt; \<open>None\<close> when the breaker never returns.\<close>

definition executeIdempotent ::
  "nat \<Rightarrow> world \<Rightarrow> thrown_world \<Rightarrow> (nat \<Rightarrow> rat) \<Rightarrow> ResilientProviderOptions \<Rightarrow> (nat \<Rightarrow> 'a res) \<Rightarrow> cb_value table \<Rightarrow> 'a resilient_result option" where
  "executeIdempotent fuel w tw rnd opts operation t = protect fuel w tw opts (withRetry rnd operation (retryOpts tw opts)) t"

definition executeNonIdempotent ::
  "nat \<Rightarrow> world \<Rightarrow> thrown_world \<Rightarrow> ResilientProviderOptions \<Rightarrow> (nat \<Rightarrow> 'a res) \<Rightarrow> cb_value table \<Rightarrow> 'a resilient_result option" where
  "executeNonIdempotent fuel w tw opts operation t = protect fuel w tw opts \<lparr>result = operation 0, sleeps = []\<rparr> t"

section \<open>The decorated providers\<close>

fun kv_idempotent :: "('k, 'v) kv_op \<Rightarrow> bool" where
  "kv_idempotent (OpGet k) = True"
| "kv_idempotent (OpList p l c) = True"
| "kv_idempotent _ = False"

datatype object_op = ObjPut string | ObjGet string | ObjDelete string | ObjHead string | ObjList string | ObjPresign string | ObjCreateMultipart string

fun object_idempotent :: "object_op \<Rightarrow> bool" where
  "object_idempotent (ObjGet k) = True"
| "object_idempotent (ObjHead k) = True"
| "object_idempotent (ObjList p) = True"
| "object_idempotent _ = False"

datatype 'm queue_op = QSend 'm | QSendBatch "'m list" | QReceive | QAck string

fun queue_idempotent :: "'m queue_op \<Rightarrow> bool" where
  "queue_idempotent QReceive = True"
| "queue_idempotent _ = False"

text \<open>A decorated provider runs each operation of the inner one in one of the two ways.\<close>

definition decorated ::
  "('op \<Rightarrow> bool) \<Rightarrow> nat \<Rightarrow> world \<Rightarrow> thrown_world \<Rightarrow> (nat \<Rightarrow> rat) \<Rightarrow> ResilientProviderOptions \<Rightarrow> ('op \<Rightarrow> nat \<Rightarrow> 'a res) \<Rightarrow> 'op \<Rightarrow> cb_value table \<Rightarrow>
   'a resilient_result option" where
  "decorated idem fuel w tw rnd opts inner op t =
     (if idem op then executeIdempotent fuel w tw rnd opts (inner op) t else executeNonIdempotent fuel w tw opts (inner op) t)"

definition wrapResilientKv where
  "wrapResilientKv = decorated kv_idempotent"

definition wrapResilientObjects where
  "wrapResilientObjects = decorated object_idempotent"

definition wrapResilientQueues where
  "wrapResilientQueues = decorated queue_idempotent"

section \<open>Calls and outcomes\<close>

text \<open>The chain of causes ends before the stack does, for everything that is thrown.\<close>

definition chains_end :: "thrown_world \<Rightarrow> bool" where
  "chains_end tw \<longleftrightarrow> (\<forall>e. extractStatusCode (tw_stack tw) (tw_heap tw) (thrown_value tw e) \<noteq> None)"

lemma normalize_rail: "chains_end tw \<Longrightarrow> \<exists>err. normalize tw e = RF err"
  by (auto simp: chains_end_def normalize_def normalizeProviderError_def split: option.split)

lemma retry_attempts:
  "\<exists>m. int m < max 1 (or_default (maxAttempts opts) DEFAULT_MAX_ATTEMPTS) \<and> result (withRetry rnd operation opts) = operation m \<and>
     length (sleeps (withRetry rnd operation opts)) = m \<and> (\<forall>i < m. \<exists>e. operation i = Inl e \<and> \<not> refused opts e i)"
  using retry_loop_calls[of 0 opts rnd operation 0] by (auto simp: withRetry_def)

lemma refused_retryOpts: "\<not> refused (retryOpts tw opts) e i \<Longrightarrow> transient tw e"
  by (simp add: refused_def retryOpts_def Let_def)

lemma maxAttempts_retryOpts: "maxAttempts (retryOpts tw opts) = (case retryPolicy opts of None \<Rightarrow> None | Some p \<Rightarrow> maxAttempts p)"
  by (cases "retryPolicy opts") (simp_all add: retryOpts_def Let_def no_policy_def)

lemma open_is_unavailable:
  assumes "1 < tw_stack tw"
  shows "exn_code (normalize tw (throw_rf UNAVAILABLE ''Circuit breaker is Open: downstream service unavailable'')) = Some UNAVAILABLE"
proof -
  let ?e = "throw_rf UNAVAILABLE ''Circuit breaker is Open: downstream service unavailable''"
  obtain n where n: "tw_stack tw = Suc n" using assms by (cases "tw_stack tw") auto
  have v: "thrown_value tw ?e = JRef (OfExn ?e)" by (simp add: throw_rf_def)
  have "extractStatusCode (tw_stack tw) (tw_heap tw) (JRef (OfExn ?e)) = Some None"
    by (simp add: n throw_rf_def own_status_def field_def rail_fields_def or_else_def)
  moreover have "rail_of (tw_heap tw) (JRef (OfExn ?e)) = Some UNAVAILABLE" by (simp add: rail_of_def throw_rf_def)
  moreover have "extractAllMessages maxCauseDepth (tw_heap tw) (JRef (OfExn ?e)) =
      '' Circuit breaker is Open: downstream service unavailable UnavailableError''"
    by (simp add: maxCauseDepth_def throw_rf_def spaced_def field_def rail_fields_def name_of_def numeral_eq_Suc)
  moreover have "target_class None '' Circuit breaker is Open: downstream service unavailable UnavailableError'' (Some UNAVAILABLE) = UNAVAILABLE"
    by code_simp
  ultimately show ?thesis unfolding normalize_def v normalizeProviderError_def by (simp add: Let_def)
qed

definition attempts_allowed :: "ResilientProviderOptions \<Rightarrow> int" where
  "attempts_allowed opts = max 1 (or_default (case retryPolicy opts of None \<Rightarrow> None | Some p \<Rightarrow> maxAttempts p) DEFAULT_MAX_ATTEMPTS)"

lemma protect_calls:
  assumes "protect fuel w tw opts attempts t = Some r"
  shows "rr_calls r = 0 \<or> rr_calls r = Suc (length (sleeps attempts))"
  using assms by (auto simp: protect_def split: option.splits)

lemma protect_outcome:
  assumes "protect fuel w tw opts attempts t = Some r" "rr_outcome r = Inl e"
  shows "\<exists>e'. e = normalize tw e'"
proof -
  obtain x where "rr_outcome r = rethrow tw x" using assms(1) by (auto simp: protect_def split: option.splits)
  then show ?thesis using assms(2) by (cases x) (auto simp: rethrow_def)
qed

text \<open>
  Through the decorated providers an operation that is not idempotent reaches the inner provider
  at most once, whatever it throws; an idempotent one at most as often as the policy allows, and
  again only after an error that is classified as unavailability or a timeout. Every error the
  caller sees is one of the platform's.
\<close>

theorem resilient_calls_bounded:
  assumes "decorated idem fuel w tw rnd opts inner op t = Some r" "chains_end tw"
  shows "(\<not> idem op \<longrightarrow> rr_calls r \<le> 1) \<and> int (rr_calls r) \<le> attempts_allowed opts \<and>
    (\<forall>i. Suc i < rr_calls r \<longrightarrow> (\<exists>e. inner op i = Inl e \<and> exn_code (normalize tw e) \<in> {Some UNAVAILABLE, Some TIMEOUT})) \<and>
    (\<forall>e. rr_outcome r = Inl e \<longrightarrow> (\<exists>err. e = RF err))"
proof -
  have e: "\<exists>err. e = RF err" if "rr_outcome r = Inl e" for e
  proof -
    obtain att where "protect fuel w tw opts att t = Some r"
      using assms(1) by (auto simp: decorated_def executeIdempotent_def executeNonIdempotent_def split: if_splits)
    then show ?thesis using protect_outcome[OF _ that] normalize_rail[OF assms(2)] by metis
  qed
  show ?thesis
  proof (cases "idem op")
    case True
    then have p: "protect fuel w tw opts (withRetry rnd (inner op) (retryOpts tw opts)) t = Some r"
      using assms(1) by (simp add: decorated_def executeIdempotent_def)
    obtain m where m: "int m < max 1 (or_default (maxAttempts (retryOpts tw opts)) DEFAULT_MAX_ATTEMPTS)"
      "length (sleeps (withRetry rnd (inner op) (retryOpts tw opts))) = m"
      "\<forall>i < m. \<exists>e. inner op i = Inl e \<and> \<not> refused (retryOpts tw opts) e i" using retry_attempts[of "retryOpts tw opts" rnd "inner op"] by blast
    have c: "rr_calls r \<le> Suc m" using protect_calls[OF p] m(2) by auto
    then have "int (rr_calls r) \<le> attempts_allowed opts" using m(1) by (simp add: attempts_allowed_def maxAttempts_retryOpts)
    moreover have "\<exists>e. inner op i = Inl e \<and> exn_code (normalize tw e) \<in> {Some UNAVAILABLE, Some TIMEOUT}" if "Suc i < rr_calls r" for i
    proof -
      have "i < m" using that c by simp
      then obtain e where "inner op i = Inl e" "transient tw e" using m(3) refused_retryOpts by blast
      then show ?thesis by (simp add: transient_def)
    qed
    ultimately show ?thesis using True e by simp
  next
    case False
    then have "rr_calls r \<le> 1" using assms(1) protect_calls[of fuel w tw opts "\<lparr>result = inner op 0, sleeps = []\<rparr>" t r]
      by (auto simp: decorated_def executeNonIdempotent_def)
    then show ?thesis using e by (auto simp: attempts_allowed_def)
  qed
qed

text \<open>
  C19: A decorated provider behind a breaker that nothing else writes to: the breaker takes one step of
  the abstract three-state machine for a call with all its retries together, the inner provider is
  called exactly when the machine admits it, and the caller gets the outcome of the last attempt
  with its error normalised; while the circuit is open nothing is called and the caller gets an
  unavailability error.
\<close>

theorem resilient_refines_breaker:
  assumes "circuitBreaker opts = Some b" "row_agrees b t" "kv_valid (circuitKey b)" "counts_ok (state_of b t)" "1 < tw_stack tw"
  shows "\<exists>r m. decorated idem (Suc fuel) (quiet now) tw rnd opts inner op t = Some r \<and> row_agrees b (rr_table r) \<and> counts_ok (state_of b (rr_table r)) \<and>
    spec_execute b now (\<not> isl (inner op m)) (abs_state (state_of b t)) = (abs_state (state_of b (rr_table r)), 0 < rr_calls r) \<and>
    (if 0 < rr_calls r then rr_calls r = Suc m \<and> rr_outcome r = rethrow tw (inner op m)
     else \<exists>e. rr_outcome r = Inl e \<and> exn_code e = Some UNAVAILABLE)"
proof -
  define att where "att = (if idem op then withRetry rnd (inner op) (retryOpts tw opts) else \<lparr>result = inner op 0, sleeps = []\<rparr>)"
  obtain m where m: "result att = inner op m" "length (sleeps att) = m"
    using retry_attempts[of "retryOpts tw opts" rnd "inner op"] by (cases "idem op") (auto simp: att_def)
  obtain x where x: "execute (Suc fuel) (quiet now) b (inner op m) t = Some x" "row_agrees b (table_after x)" "counts_ok (state_of b (table_after x))"
    "spec_execute b now (\<not> isl (inner op m)) (abs_state (state_of b t)) = (abs_state (state_of b (table_after x)), invoked x)"
    "outcome x = (if invoked x then inner op m else Inl (throw_rf UNAVAILABLE ''Circuit breaker is Open: downstream service unavailable''))"
    using execute_quiet[OF assms(2-4), of fuel now "inner op m"] by blast
  define r where "r = \<lparr>rr_outcome = rethrow tw (outcome x), rr_calls = (if invoked x then Suc m else 0),
      rr_sleeps = (if invoked x then sleeps att else []), rr_table = table_after x\<rparr>"
  have d: "decorated idem (Suc fuel) (quiet now) tw rnd opts inner op t = Some r"
  proof -
    have "execute (Suc fuel) (quiet now) b (result att) t = Some x" using x(1) m(1) by simp
    then have "protect (Suc fuel) (quiet now) tw opts att t = Some r" unfolding protect_def assms(1) r_def m(2)[symmetric] by simp
    then show ?thesis by (simp add: decorated_def executeIdempotent_def executeNonIdempotent_def att_def split: if_splits)
  qed
  have "exn_code (normalize tw (throw_rf UNAVAILABLE ''Circuit breaker is Open: downstream service unavailable'')) = Some UNAVAILABLE"
    using open_is_unavailable[OF assms(5)] .
  then show ?thesis using d x(2-5) by (intro exI[of _ r] exI[of _ m]) (auto simp: r_def rethrow_def)
qed

text \<open>
  Reading the status ends whenever the chain of causes does, and then only the first status on the
  chain counts.
\<close>

fun cause_at :: "'a heap \<Rightarrow> 'a js \<Rightarrow> nat \<Rightarrow> 'a js" where
  "cause_at h v 0 = v"
| "cause_at h v (Suc n) = (case v of JRef a \<Rightarrow> cause_at h (field (h a) ''cause'') n | _ \<Rightarrow> JUndefined)"

definition status_at :: "'a heap \<Rightarrow> 'a js \<Rightarrow> int option" where
  "status_at h v = (case v of JRef a \<Rightarrow> own_status h (h a) | _ \<Rightarrow> None)"

theorem status_read_when_chain_ends:
  assumes "\<not> js_truthy (cause_at h v n)"
  shows "extractStatusCode (Suc n) h v = Some (case List.find (\<lambda>i. status_at h (cause_at h v i) \<noteq> None) [0..<n] of
    None \<Rightarrow> None | Some i \<Rightarrow> status_at h (cause_at h v i))"
  using assms
proof (induction n arbitrary: v)
  case 0
  then show ?case by (cases v) auto
next
  case (Suc n)
  have u: "[0..<Suc n] = 0 # map Suc [0..<n]" by (simp add: upt_conv_Cons map_Suc_upt del: upt_Suc)
  have f: "List.find P (map Suc xs) = map_option Suc (List.find (\<lambda>i. P (Suc i)) xs)" for P xs by (induction xs) auto
  show ?case
  proof (cases v)
    case (JRef a)
    let ?c = "field (h a) ''cause''"
    show ?thesis
    proof (cases "own_status h (h a)")
      case (Some k)
      then show ?thesis using JRef by (simp add: u status_at_def del: upt_Suc)
    next
      case None
      have "\<not> js_truthy (cause_at h ?c n)" using Suc.prems JRef by simp
      note ih = Suc.IH[OF this]
      have nt: "\<not> js_truthy ?c \<Longrightarrow> extractStatusCode (Suc n) h ?c = Some None" by (cases ?c) auto
      show ?thesis using None JRef ih nt by (auto simp: u f status_at_def option.case_eq_if option.map_sel simp del: upt_Suc extractStatusCode.simps(2,3) intro: extractStatusCode.simps(2)[THEN trans])
    qed
  qed (auto simp: u status_at_def f cause_at.simps option.case_eq_if simp del: upt_Suc)
qed

section \<open>Samples\<close>

definition leaky :: "nat obj" where
  "leaky = \<lparr>ob_kind = OtherError ''Error'', ob_fields = [(''message'', JText ''bad railfog_sec_abc''), (''status'', JNumber 503), (''cause'', JRef 0)], ob_string = []\<rparr>"


lemma status_read_when_chain_ends_witness:
  "extractStatusCode 2 (\<lambda>_. \<lparr>ob_kind = PlainObject, ob_fields = [(''statusCode'', JNumber 404)], ob_string = []\<rparr> :: nat obj) (JRef 0) = Some (Some 404)"
proof -
  let ?h = "\<lambda>_. \<lparr>ob_kind = PlainObject, ob_fields = [(''statusCode'', JNumber 404)], ob_string = []\<rparr> :: nat obj"
  have "\<not> js_truthy (cause_at ?h (JRef 0) 1)" by code_simp
  from status_read_when_chain_ends[OF this] show ?thesis
    by (simp add: status_at_def own_status_def field_def or_else_def numeral_2_eq_2)
qed

text \<open>A provider that is down for two attempts, seen through the decorator without a breaker.\<close>

definition calm :: thrown_world where
  "calm = \<lparr>tw_objects = (\<lambda>_. \<lparr>ob_kind = PlainObject, ob_fields = [], ob_string = []\<rparr>), tw_foreign = (\<lambda>s. JText s), tw_patterns = [], tw_stack = 3\<rparr>"

definition flaky :: "int queue_op \<Rightarrow> nat \<Rightarrow> int res" where
  "flaky op n = (if n < 2 then Inl (Foreign ''connect ECONNREFUSED'') else Inr 7)"

lemma calm_chains_end: "chains_end calm"
  unfolding chains_end_def
proof
  fix e
  show "extractStatusCode (tw_stack calm) (tw_heap calm) (thrown_value calm e) \<noteq> None"
    by (cases e) (simp_all add: calm_def numeral_3_eq_3 own_status_def field_def rail_fields_def or_else_def)
qed

lemma resilient_calls_bounded_witness:
  "(let opts = \<lparr>retryPolicy = None, circuitBreaker = None\<rparr> in
    (\<exists>r. wrapResilientQueues 1 (quiet 0) calm (\<lambda>_. 1) opts flaky QReceive [] = Some r \<and> rr_calls r = 3 \<and> rr_outcome r = Inr 7 \<and> int (rr_calls r) \<le> 5) \<and>
    (\<exists>r. wrapResilientQueues 1 (quiet 0) calm (\<lambda>_. 1) opts flaky (QSend 1) [] = Some r \<and> rr_calls r \<le> 1))"
proof -
  let ?o = "\<lparr>retryPolicy = None, circuitBreaker = None\<rparr>"
  let ?r = "wrapResilientQueues 1 (quiet 0) calm (\<lambda>_. 1) ?o flaky QReceive []"
  let ?s = "wrapResilientQueues 1 (quiet 0) calm (\<lambda>_. 1) ?o flaky (QSend 1) []"
  have r: "map_option rr_calls ?r = Some 3" "map_option rr_outcome ?r = Some (Inr 7)" by code_simp+
  obtain x where x: "?r = Some x" using r by auto
  obtain y where y: "?s = Some y" by (simp add: wrapResilientQueues_def decorated_def executeNonIdempotent_def protect_def)
  have a: "attempts_allowed ?o = 5" by code_simp
  have "int (rr_calls x) \<le> 5" using resilient_calls_bounded[OF x[unfolded wrapResilientQueues_def] calm_chains_end] a by simp
  moreover have "rr_calls y \<le> 1" using resilient_calls_bounded[OF y[unfolded wrapResilientQueues_def] calm_chains_end] by simp
  ultimately show ?thesis using r x y by (auto simp: Let_def)
qed

lemma resilient_refines_breaker_witness:
  "\<exists>r. wrapResilientQueues 1 (quiet 7) calm (\<lambda>_. 1) \<lparr>retryPolicy = None, circuitBreaker = Some demo_breaker\<rparr> flaky (QSend 1) [] = Some r \<and>
     abs_state (state_of demo_breaker (rr_table r)) = SClosed 1 \<and> 0 < rr_calls r"
proof -
  let ?o = "\<lparr>retryPolicy = None, circuitBreaker = Some demo_breaker\<rparr>"
  have k: "1 < tw_stack calm" by (simp add: calm_def)
  have f: "spec_execute demo_breaker 7 False (abs_state (state_of demo_breaker [])) = (SClosed 1, True)" by code_simp
  obtain r m where r: "decorated queue_idempotent 1 (quiet 7) calm (\<lambda>_. 1) ?o flaky (QSend 1) [] = Some r"
    "spec_execute demo_breaker 7 (\<not> isl (flaky (QSend 1) m)) (abs_state (state_of demo_breaker [])) =
      (abs_state (state_of demo_breaker (rr_table r)), 0 < rr_calls r)" "0 < rr_calls r \<longrightarrow> rr_calls r = Suc m"
    using resilient_refines_breaker[of ?o demo_breaker "[]" calm queue_idempotent 0 7 "\<lambda>_. 1" flaky "QSend 1"] demo_agrees demo_valid demo_counts k by auto
  have "rr_calls r \<le> 1" using protect_calls[of 1 "quiet 7" calm ?o "\<lparr>result = flaky (QSend 1) 0, sleeps = []\<rparr>" "[]" r] r(1)
    by (auto simp: decorated_def executeNonIdempotent_def)
  moreover have "0 < rr_calls r" using r(2) by (auto simp: state_of_def abs_state_def initial_record_def)
  ultimately have "m = 0" using r(3) by simp
  then show ?thesis using r f by (auto simp: wrapResilientQueues_def flaky_def)
qed

section \<open>Where the wrappers fall short\<close>

text \<open>
  An error that is its own cause has a sanitised form, but its status is looked for without end: the
  error is replaced by a stack overflow.
\<close>

definition self_caused :: "nat obj" where
  "self_caused = \<lparr>ob_kind = OtherError ''Error'', ob_fields = [(''message'', JText ''down''), (''cause'', JRef 0)], ob_string = []\<rparr>"

lemma cyclic_cause_never_classified:
  "normalizeProviderError n red (\<lambda>_. self_caused) (JRef 0) = None"
proof -
  have "extractStatusCode n (\<lambda>_. self_caused) (JRef 0) = None"
    by (induction n) (simp_all add: self_caused_def own_status_def field_def or_else_def)
  then show ?thesis by (simp add: normalizeProviderError_def)
qed

lemma cyclic_cause_is_sanitised: "all_texts (\<lambda>s. \<not> has_token s) (fst (sanitizeCause (\<lambda>_. self_caused) (redactSecrets []) MAX_CAUSE_LEVELS [] (JRef 0)))"
proof -
  have "\<not> has_token ''Error''" "\<not> has_token ''[CIRCULAR]''" "\<not> has_token ''[MAX_DEPTH_EXCEEDED]''" by (intro no_token; code_simp)+
  then show ?thesis using redactSecrets_clean by (intro sanitizeCause_texts) (auto simp: self_caused_def)
qed

text \<open>A refusal of the platform is reclassified by the words of its message: denied permission becomes a missing resource.\<close>

lemma permission_error_reclassified:
  "exn_code (normalize calm (throw_rf PERMISSION_DENIED ''not found'')) = Some RESOURCE_NOT_FOUND"
  unfolding normalize_code by code_simp

end
