(* ===== verification/MemoryKv.thy ===== *)
theory MemoryKv
  imports KvStore
begin

text \<open>
  The other KV providers (\<open>src/providers/kv/redis-provider.ts\<close>, \<open>postgres-provider.ts\<close>): their
  embedded stores, which both use when no server is configured, and the statements the Postgres
  provider sends. The two embedded stores are the same program up to the prefix of the key paths
  (empty for Postgres) and the record fields, so one model with the prefix as an argument stands for
  both; rows are those of the SQLite provider. The order of \<open>localeCompare\<close> and the collation of
  the database are arguments; a cursor is the path it encodes. The Redis server is not modelled.

  Shown: the embedded stores keep the compare-and-set contract, a commit is atomic, they answer like
  the SQLite provider as long as nothing expires, following cursors visits every key when the order
  of the listing is that of the paths, and where the stores differ from each other.
\<close>

section \<open>Keys\<close>

definition mem_validateKey :: "string list \<Rightarrow> unit res" where
  "mem_validateKey key =
     (if key = [] then Inl (throw_rf VALIDATION_FAILED ''VALIDATION_FAILED: Key must be a non-empty array of segments'')
      else if 32 < length key then Inl (throw_rf VALIDATION_FAILED ''VALIDATION_FAILED: Key exceeds 32 segments'')
      else if 512 < sum_list (map utf8_len key) then Inl (throw_rf VALIDATION_FAILED ''VALIDATION_FAILED: Key exceeds 512 bytes'')
      else Inr ())"

definition mem_path :: "string \<Rightarrow> string list \<Rightarrow> string" where
  "mem_path pfx key = pfx @ join_with ''/'' (map encodeURIComponent key) @ ''/''"

definition DEFAULT_REDIS_PREFIX :: string where
  "DEFAULT_REDIS_PREFIX = ''rfk:''"

section \<open>The embedded store\<close>

definition cleanMemoryExpired :: "int \<Rightarrow> 'v table \<Rightarrow> 'v table" where
  "cleanMemoryExpired now t = filter (\<lambda>e. \<not> expired now (snd e)) t"

definition mem_get :: "string \<Rightarrow> 'v table \<Rightarrow> int \<Rightarrow> string list \<Rightarrow> ('v option \<times> 'v table) res" where
  "mem_get pfx t now key =
     bind_res (mem_validateKey key) (\<lambda>_.
       let t1 = cleanMemoryExpired now t in Inr (map_option value_json (oget t1 (mem_path pfx key)), t1))"

definition stored_version :: "string \<Rightarrow> 'v table \<Rightarrow> string list \<Rightarrow> int" where
  "stored_version pfx t key = (case oget t (mem_path pfx key) of None \<Rightarrow> 0 | Some r \<Rightarrow> version r)"

definition mem_put :: "string \<Rightarrow> string list \<Rightarrow> 'v \<Rightarrow> int option \<Rightarrow> 'v table \<Rightarrow> 'v table" where
  "mem_put pfx key v ex t =
     oset (mem_path pfx key) \<lparr>key_json = key, value_json = v, version = stored_version pfx t key + 1, expires_at = ex\<rparr> t"

definition mem_expiry :: "int \<Rightarrow> int option \<Rightarrow> int option" where
  "mem_expiry now ttl = (case ttl of None \<Rightarrow> None | Some s \<Rightarrow> if 0 < s then Some (now + s * 1000) else None)"

definition mem_set :: "string \<Rightarrow> 'v table \<Rightarrow> int \<Rightarrow> string list \<Rightarrow> 'v \<Rightarrow> int option \<Rightarrow> 'v table res" where
  "mem_set pfx t now key v ttl =
     bind_res (mem_validateKey key) (\<lambda>_. Inr (mem_put pfx key v (mem_expiry now ttl) (cleanMemoryExpired now t)))"

definition mem_delete :: "string \<Rightarrow> 'v table \<Rightarrow> string list \<Rightarrow> 'v table res" where
  "mem_delete pfx t key = bind_res (mem_validateKey key) (\<lambda>_. Inr (odel (mem_path pfx key) t))"

text \<open>\<open>sort\<close> with a comparison: stable, \<open>le a b\<close> when \<open>a.localeCompare(b)\<close> is not positive.\<close>

fun insert_by :: "('a \<Rightarrow> 'a \<Rightarrow> bool) \<Rightarrow> 'a \<Rightarrow> 'a list \<Rightarrow> 'a list" where
  "insert_by le x [] = [x]"
| "insert_by le x (y # ys) = (if le x y then x # y # ys else y # insert_by le x ys)"

definition sort_by :: "('a \<Rightarrow> 'a \<Rightarrow> bool) \<Rightarrow> 'a list \<Rightarrow> 'a list" where
  "sort_by le xs = foldr (insert_by le) xs []"

definition mem_limit :: "int option \<Rightarrow> nat" where
  "mem_limit l = nat (min (max (or_default l 100) 1) 1000)"

definition mem_matching :: "string \<Rightarrow> 'v table \<Rightarrow> int \<Rightarrow> string list \<Rightarrow> string option \<Rightarrow> (string \<times> 'v kv_row) list" where
  "mem_matching pfx t now pre cursor =
     filter (\<lambda>(p, r). starts_with p (mem_path pfx pre) \<and> or_default cursor [] < p) (cleanMemoryExpired now t)"

definition page_of :: "nat \<Rightarrow> (string \<times> 'v kv_row) list \<Rightarrow> (string list \<times> 'v) list \<times> string option" where
  "page_of n rows =
     (let hasMore = n < length rows; items = (if hasMore then take n rows else rows) in
      (map (\<lambda>(p, r). (key_json r, value_json r)) items, if hasMore then Some (fst (last items)) else None))"

definition mem_list ::
  "string \<Rightarrow> (string \<Rightarrow> string \<Rightarrow> bool) \<Rightarrow> 'v table \<Rightarrow> int \<Rightarrow> string list \<Rightarrow> int option \<Rightarrow> string option \<Rightarrow>
   ((string list \<times> 'v) list \<times> string option) \<times> 'v table" where
  "mem_list pfx le t now pre limit cursor =
     (page_of (mem_limit limit) (sort_by (\<lambda>a b. le (fst a) (fst b)) (mem_matching pfx t now pre cursor)), cleanMemoryExpired now t)"

fun mem_checks_pass :: "string \<Rightarrow> 'v table \<Rightarrow> (string list \<times> int) list \<Rightarrow> bool" where
  "mem_checks_pass pfx t [] = True"
| "mem_checks_pass pfx t ((k, e) # cs) = (stored_version pfx t k = e \<and> mem_checks_pass pfx t cs)"

fun mem_apply :: "string \<Rightarrow> 'v mutation list \<Rightarrow> int \<Rightarrow> 'v table \<Rightarrow> int \<times> 'v table" where
  "mem_apply pfx [] hv t = (hv, t)"
| "mem_apply pfx (MSet k v # ms) hv t = mem_apply pfx ms (max hv (stored_version pfx t k + 1)) (mem_put pfx k v None t)"
| "mem_apply pfx (MDelete k # ms) hv t = mem_apply pfx ms hv (odel (mem_path pfx k) t)"

definition mem_commit :: "string \<Rightarrow> 'v table \<Rightarrow> int \<Rightarrow> 'v builder \<Rightarrow> (commit_result \<times> 'v table) res" where
  "mem_commit pfx t now b =
     bind_res (each_res (\<lambda>m. mem_validateKey (mut_key m)) (mutations b)) (\<lambda>_.
     bind_res (each_res (\<lambda>c. mem_validateKey (fst c)) (checks b)) (\<lambda>_.
       let t1 = cleanMemoryExpired now t in
       if \<not> mem_checks_pass pfx t1 (checks b) then Inr (\<lparr>commit_ok = False, commit_version = None\<rparr>, t1)
       else let (hv, t2) = mem_apply pfx (mutations b) 0 t1 in Inr (\<lparr>commit_ok = True, commit_version = Some hv\<rparr>, t2)))"

section \<open>The statements of the Postgres provider\<close>

definition pg_get :: "'v table \<Rightarrow> int \<Rightarrow> string list \<Rightarrow> 'v option res" where
  "pg_get t now key =
     bind_res (mem_validateKey key) (\<lambda>_.
       Inr (case oget t (mem_path [] key) of None \<Rightarrow> None | Some r \<Rightarrow> if expired now r then None else Some (value_json r)))"

definition pg_upsert :: "string list \<Rightarrow> 'v \<Rightarrow> int option \<Rightarrow> 'v table \<Rightarrow> 'v table" where
  "pg_upsert key v ex t =
     (let p = mem_path [] key in
      case oget t p of
        None \<Rightarrow> oset p \<lparr>key_json = key, value_json = v, version = 1, expires_at = ex\<rparr> t
      | Some r \<Rightarrow> oset p (r\<lparr>value_json := v, version := version r + 1, expires_at := ex\<rparr>) t)"

definition pg_set :: "'v table \<Rightarrow> int \<Rightarrow> string list \<Rightarrow> 'v \<Rightarrow> int option \<Rightarrow> 'v table res" where
  "pg_set t now key v ttl = bind_res (mem_validateKey key) (\<lambda>_. Inr (pg_upsert key v (mem_expiry now ttl) t))"

definition pg_delete :: "'v table \<Rightarrow> string list \<Rightarrow> 'v table res" where
  "pg_delete t key = bind_res (mem_validateKey key) (\<lambda>_. Inr (odel (mem_path [] key) t))"

text \<open>\<open>LIKE\<close> of PostgreSQL: \<open>%\<close> any run, \<open>_\<close> any character, a backslash takes the next character literally.\<close>

fun pg_like :: "string \<Rightarrow> string \<Rightarrow> bool" where
  "pg_like [] s = (s = [])"
| "pg_like (p # ps) s =
     (if p = CHR ''%'' then pg_like ps s \<or> (case s of [] \<Rightarrow> False | c # cs \<Rightarrow> pg_like (p # ps) cs)
      else if p = CHR ''_'' then (case s of [] \<Rightarrow> False | c # cs \<Rightarrow> pg_like ps cs)
      else if code p = 92 then
        (case ps of [] \<Rightarrow> False | q # qs \<Rightarrow> (case s of [] \<Rightarrow> False | c # cs \<Rightarrow> c = q \<and> pg_like qs cs))
      else (case s of [] \<Rightarrow> False | c # cs \<Rightarrow> c = p \<and> pg_like ps cs))"

definition pg_list ::
  "(string \<Rightarrow> string \<Rightarrow> bool) \<Rightarrow> 'v table \<Rightarrow> int \<Rightarrow> string list \<Rightarrow> int option \<Rightarrow> string option \<Rightarrow> (string list \<times> 'v) list \<times> string option" where
  "pg_list le t now pre limit cursor =
     page_of (mem_limit limit) (take (mem_limit limit + 1) (sort_by (\<lambda>a b. le (fst a) (fst b))
       (filter (\<lambda>(p, r). pg_like (mem_path [] pre @ ''%'') p \<and> \<not> expired now r \<and>
          (case effective_cursor cursor of None \<Rightarrow> True | Some c \<Rightarrow> \<not> le p c)) t)))"

definition pg_version :: "'v table \<Rightarrow> int \<Rightarrow> string list \<Rightarrow> int" where
  "pg_version t now key = (case oget t (mem_path [] key) of None \<Rightarrow> 0 | Some r \<Rightarrow> if expired now r then 0 else version r)"

fun pg_apply :: "'v mutation list \<Rightarrow> int \<Rightarrow> 'v table \<Rightarrow> int \<times> 'v table" where
  "pg_apply [] hv t = (hv, t)"
| "pg_apply (MSet k v # ms) hv t =
     (let t' = pg_upsert k v None t in
      pg_apply ms (max hv (case oget t' (mem_path [] k) of None \<Rightarrow> 0 | Some r \<Rightarrow> version r)) t')"
| "pg_apply (MDelete k # ms) hv t = pg_apply ms hv (odel (mem_path [] k) t)"

definition pg_commit :: "'v table \<Rightarrow> int \<Rightarrow> 'v builder \<Rightarrow> (commit_result \<times> 'v table) res" where
  "pg_commit t now b =
     bind_res (each_res (\<lambda>m. mem_validateKey (mut_key m)) (mutations b)) (\<lambda>_.
     bind_res (each_res (\<lambda>c. mem_validateKey (fst c)) (checks b)) (\<lambda>_.
       if \<not> list_all (\<lambda>(k, e). pg_version t now k = e) (checks b) then Inr (\<lparr>commit_ok = False, commit_version = None\<rparr>, t)
       else let (hv, t2) = pg_apply (mutations b) 0 t in Inr (\<lparr>commit_ok = True, commit_version = Some hv\<rparr>, t2)))"

section \<open>The store seen by its readers\<close>

definition mem_valid :: "string list \<Rightarrow> bool" where
  "mem_valid k = (mem_validateKey k = Inr ())"

definition mem_ok :: "string \<Rightarrow> 'v table \<Rightarrow> bool" where
  "mem_ok pfx t \<longleftrightarrow> owf t \<and> (\<forall>p r. oget t p = Some r \<longrightarrow> 1 \<le> version r \<and> p = mem_path pfx (key_json r) \<and> key_json r \<noteq> [])"

definition mem_row :: "string \<Rightarrow> 'v table \<Rightarrow> int \<Rightarrow> string list \<Rightarrow> 'v kv_row option" where
  "mem_row pfx t now k = (if k = [] then None else oget (cleanMemoryExpired now t) (mem_path pfx k))"

definition mem_read :: "string \<Rightarrow> 'v table \<Rightarrow> int \<Rightarrow> string list \<Rightarrow> 'v option" where
  "mem_read pfx t now k = map_option value_json (mem_row pfx t now k)"

definition mem_version :: "string \<Rightarrow> 'v table \<Rightarrow> int \<Rightarrow> string list \<Rightarrow> int" where
  "mem_version pfx t now k = (case mem_row pfx t now k of None \<Rightarrow> 0 | Some r \<Rightarrow> version r)"

definition mem_cas :: "string \<Rightarrow> 'v table \<Rightarrow> int \<Rightarrow> string list \<Rightarrow> int \<Rightarrow> 'v \<Rightarrow> bool \<times> 'v table" where
  "mem_cas pfx t now k e v =
     (case mem_commit pfx t now (b_set k v (b_check k e atomic)) of Inl _ \<Rightarrow> (False, t) | Inr (r, t') \<Rightarrow> (commit_ok r, t'))"

lemma mem_path_key: "k \<noteq> [] \<Longrightarrow> mem_path pfx k = pfx @ encodeKeyPath k"
  by (simp add: mem_path_def encodeKeyPath_def)

lemma mem_path_eq: "a \<noteq> [] \<Longrightarrow> b \<noteq> [] \<Longrightarrow> mem_path pfx a = mem_path pfx b \<longleftrightarrow> a = b"
  by (simp add: mem_path_key)

lemma mem_valid_not_Nil: "mem_valid k \<Longrightarrow> k \<noteq> []"
  by (auto simp: mem_valid_def mem_validateKey_def)

lemma clean_purge: "cleanMemoryExpired now t = purge now t"
  by (simp add: cleanMemoryExpired_def purge_def)

lemma oget_clean: "owf t \<Longrightarrow> oget (cleanMemoryExpired now t) p = (case oget t p of None \<Rightarrow> None | Some r \<Rightarrow> if expired now r then None else Some r)"
  by (simp add: clean_purge oget_purge)

lemma owf_clean: "owf t \<Longrightarrow> owf (cleanMemoryExpired now t)"
  by (simp add: cleanMemoryExpired_def)

lemma mem_row_clean: "owf t \<Longrightarrow> now \<le> now' \<Longrightarrow> mem_row pfx (cleanMemoryExpired now t) now' k = mem_row pfx t now' k"
  by (auto simp: mem_row_def oget_clean owf_clean split: option.splits dest: expired_mono)

lemma mem_row_put:
  assumes "owf t" "k \<noteq> []"
  shows "mem_row pfx (mem_put pfx k v None t) now k' =
    (if k' = k then Some \<lparr>key_json = k, value_json = v, version = stored_version pfx t k + 1, expires_at = None\<rparr> else mem_row pfx t now k')"
  using assms by (auto simp: mem_row_def mem_put_def oget_clean mem_path_eq expired_def)

lemma mem_row_del: "owf t \<Longrightarrow> k \<noteq> [] \<Longrightarrow> mem_row pfx (odel (mem_path pfx k) t) now k' = (if k' = k then None else mem_row pfx t now k')"
  by (auto simp: mem_row_def oget_clean mem_path_eq)

lemma stored_version_clean: "k \<noteq> [] \<Longrightarrow> stored_version pfx (cleanMemoryExpired now t) k = mem_version pfx t now k"
  by (simp add: stored_version_def mem_version_def mem_row_def)

lemma stored_version_nonneg: "mem_ok pfx t \<Longrightarrow> 0 \<le> stored_version pfx t k"
  by (fastforce simp: stored_version_def mem_ok_def split: option.split)

lemma mem_ok_clean: "mem_ok pfx t \<Longrightarrow> mem_ok pfx (cleanMemoryExpired now t)"
  by (auto simp: mem_ok_def oget_clean owf_clean split: option.splits if_splits)

lemma mem_ok_put: "mem_ok pfx t \<Longrightarrow> k \<noteq> [] \<Longrightarrow> mem_ok pfx (mem_put pfx k v ex t)"
  using stored_version_nonneg[of pfx t k] by (auto simp: mem_ok_def mem_put_def)

lemma mem_ok_del: "mem_ok pfx t \<Longrightarrow> mem_ok pfx (odel p t)"
  by (auto simp: mem_ok_def)

lemma mem_cas_eq:
  assumes "mem_valid k"
  shows "mem_cas pfx t now k e v =
    (if mem_version pfx t now k = e then (True, mem_put pfx k v None (cleanMemoryExpired now t)) else (False, cleanMemoryExpired now t))"
  using assms stored_version_clean[of k pfx now t] mem_valid_not_Nil[OF assms]
  by (simp add: mem_cas_def mem_commit_def b_set_def b_check_def atomic_def mem_valid_def Let_def)

text \<open>The embedded stores keep the compare-and-set contract of the SQLite provider.\<close>

interpretation memory_cas: cas_store "mem_read pfx" "mem_version pfx" "mem_cas pfx" "mem_ok pfx" mem_valid for pfx
proof (unfold_locales, goal_cases)
  case (1 s t k)
  then show ?case by (fastforce simp: mem_version_def mem_read_def mem_row_def mem_ok_def oget_clean split: option.splits if_splits)
next
  case (2 s t k)
  then show ?case by (fastforce simp: mem_version_def mem_row_def mem_ok_def oget_clean split: option.splits if_splits)
next
  case (3 s k t e v)
  then show ?case by (simp add: mem_cas_eq)
next
  case (4 s k t e v t' k')
  then show ?case by (auto simp: mem_cas_eq mem_read_def mem_version_def mem_row_clean mem_ok_def split: if_splits)
next
  case (5 s k t e v t' k')
  then have "owf s" "k \<noteq> []" using mem_valid_not_Nil by (auto simp: mem_ok_def)
  then show ?case using 5 by (simp add: mem_cas_eq mem_read_def mem_row_put owf_clean mem_row_clean split: if_splits)
next
  case (6 s k t e v t' k')
  then have "owf s" "k \<noteq> []" using mem_valid_not_Nil by (auto simp: mem_ok_def)
  then show ?case using 6 by (auto simp: mem_cas_eq mem_version_def[of _ _ t'] mem_row_put owf_clean mem_row_clean stored_version_clean split: if_splits)
next
  case (7 s k t e v)
  then show ?case using mem_valid_not_Nil by (auto simp: mem_cas_eq intro: mem_ok_put mem_ok_clean)
qed

text \<open>
  C36: Optimistic concurrency on every local store: of any number of clients that expect the same
  version of a key, at most one succeeds in setting it, in the SQLite store and in the embedded stores
  of the Redis and Postgres providers alike, whatever expires meanwhile.
\<close>

theorem one_client_wins_the_race:
  assumes "sorted (map fst cs)" "mem_valid k" "table_ok t" "mem_ok pfx m"
  shows "length (filter (\<lambda>b. b) (race kv_cas t k e cs)) \<le> 1 \<and> length (filter (\<lambda>b. b) (race (mem_cas pfx) m k e cs)) \<le> 1"
proof -
  have "kv_valid k" using assms(2) by (auto simp: mem_valid_def mem_validateKey_def kv_valid_def validateKey_def split: if_splits)
  then show ?thesis using sqlite_cas.race_one_winner[OF assms(3)] memory_cas.race_one_winner[OF assms(4,2)] assms(1) by blast
qed

section \<open>Transactions\<close>

lemma mem_checks_iff: "mem_checks_pass pfx t cs \<longleftrightarrow> (\<forall>(k, e) \<in> set cs. stored_version pfx t k = e)"
  by (induction pfx t cs rule: mem_checks_pass.induct) auto

lemma mem_apply_ok:
  "mem_ok pfx t \<Longrightarrow> \<forall>m \<in> set ms. mut_key m \<noteq> [] \<Longrightarrow> mem_ok pfx (snd (mem_apply pfx ms hv t))"
  by (induction pfx ms hv t rule: mem_apply.induct) (simp_all add: mem_ok_put mem_ok_del)

lemma mem_read_apply:
  "mem_ok pfx t \<Longrightarrow> \<forall>m \<in> set ms. mut_key m \<noteq> [] \<Longrightarrow>
   mem_read pfx (snd (mem_apply pfx ms hv t)) now k =
     (case last_mutation k ms of None \<Rightarrow> mem_read pfx t now k | Some (MSet _ v) \<Rightarrow> Some v | Some (MDelete _) \<Rightarrow> None)"
proof (induction pfx ms hv t rule: mem_apply.induct)
  case (2 pfx k' v ms hv t)
  then have "owf t" "k' \<noteq> []" "mem_ok pfx (mem_put pfx k' v None t)" by (auto simp: mem_ok_def[of _ t] intro: mem_ok_put)
  then have "mem_read pfx (mem_put pfx k' v None t) now k = (if k = k' then Some v else mem_read pfx t now k)"
    by (simp add: mem_read_def mem_row_put)
  then show ?case using 2 \<open>mem_ok pfx (mem_put pfx k' v None t)\<close>
    by (auto simp: last_mutation_def find_append split: option.splits mutation.splits)
next
  case (3 pfx k' ms hv t)
  then have "owf t" "k' \<noteq> []" "mem_ok pfx (odel (mem_path pfx k') t)" by (auto simp: mem_ok_def[of _ t] intro: mem_ok_del)
  then have "mem_read pfx (odel (mem_path pfx k') t) now k = (if k = k' then None else mem_read pfx t now k)"
    by (simp add: mem_read_def mem_row_del)
  then show ?case using 3 \<open>mem_ok pfx (odel (mem_path pfx k') t)\<close>
    by (auto simp: last_mutation_def find_append split: option.splits mutation.splits)
qed (simp add: last_mutation_def)

lemma mem_commit_cases:
  assumes "mem_commit pfx t now b = Inr (r, t')"
  shows "\<forall>m \<in> set (mutations b). mem_valid (mut_key m)" "\<forall>c \<in> set (checks b). mem_valid (fst c)"
    "commit_ok r \<longleftrightarrow> mem_checks_pass pfx (cleanMemoryExpired now t) (checks b)"
    "\<not> commit_ok r \<Longrightarrow> t' = cleanMemoryExpired now t" "commit_ok r \<Longrightarrow> t' = snd (mem_apply pfx (mutations b) 0 (cleanMemoryExpired now t))"
proof -
  from assms show "\<forall>m \<in> set (mutations b). mem_valid (mut_key m)" "\<forall>c \<in> set (checks b). mem_valid (fst c)"
    by (auto simp: mem_commit_def bind_res_Inr_iff each_res_Inr_iff mem_valid_def)
  then have e: "each_res (\<lambda>m. mem_validateKey (mut_key m)) (mutations b) = Inr ()" "each_res (\<lambda>c. mem_validateKey (fst c)) (checks b) = Inr ()"
    by (simp_all add: each_res_Inr_iff mem_valid_def)
  from assms e show "commit_ok r \<longleftrightarrow> mem_checks_pass pfx (cleanMemoryExpired now t) (checks b)"
    "\<not> commit_ok r \<Longrightarrow> t' = cleanMemoryExpired now t" "commit_ok r \<Longrightarrow> t' = snd (mem_apply pfx (mutations b) 0 (cleanMemoryExpired now t))"
    by (auto simp: mem_commit_def Let_def split: if_splits prod.splits)
qed

text \<open>
  A transaction on an embedded store commits exactly when every checked key is at its expected
  version, 0 for a key that reads as absent; then each key reads as its last mutation left it and
  every other key as before, and otherwise every key reads as before.
\<close>

theorem mem_commit_atomic:
  assumes "mem_ok pfx t" "mem_commit pfx t now b = Inr (r, t')"
  shows "(commit_ok r \<longleftrightarrow> (\<forall>(k, e) \<in> set (checks b). mem_version pfx t now k = e)) \<and> mem_ok pfx t' \<and>
    mem_read pfx t' now k =
      (if commit_ok r then (case last_mutation k (mutations b) of None \<Rightarrow> mem_read pfx t now k | Some (MSet _ v) \<Rightarrow> Some v | Some (MDelete _) \<Rightarrow> None)
       else mem_read pfx t now k)"
proof -
  note c = mem_commit_cases[OF assms(2)]
  let ?t = "cleanMemoryExpired now t"
  have o: "owf t" "mem_ok pfx ?t" using assms(1) mem_ok_clean[OF assms(1)] by (simp_all add: mem_ok_def[of _ t])
  have n: "\<forall>m \<in> set (mutations b). mut_key m \<noteq> []" using c(1) mem_valid_not_Nil by blast
  have "stored_version pfx ?t k = mem_version pfx t now k" if "(k, e) \<in> set (checks b)" for k e
    using c(2) that mem_valid_not_Nil stored_version_clean by fastforce
  then have "commit_ok r \<longleftrightarrow> (\<forall>(k, e) \<in> set (checks b). mem_version pfx t now k = e)" unfolding c(3) mem_checks_iff by fastforce
  moreover have "mem_read pfx ?t now k = mem_read pfx t now k" using o by (simp add: mem_read_def mem_row_clean)
  ultimately show ?thesis using c(4,5) o(2) mem_apply_ok[OF o(2) n, of 0] mem_read_apply[OF o(2) n, of 0 now k]
    by (cases "commit_ok r") (simp_all cong: option.case_cong)
qed

section \<open>Agreement with the SQLite provider\<close>

datatype 'v kv_call = CallGet "string list" | CallSet "string list" 'v | CallDelete "string list" | CallCommit "(string list \<times> int) list" "'v mutation list"

datatype 'v kv_answer = Value "'v option" | Written | Committed bool int | Refused

definition answer_commit :: "(commit_result \<times> 'v table) res \<Rightarrow> 'v table \<Rightarrow> 'v kv_answer \<times> 'v table" where
  "answer_commit x t =
     (case x of Inl _ \<Rightarrow> (Refused, t) | Inr (r, t') \<Rightarrow> (Committed (commit_ok r) (or_default (commit_version r) 0), t'))"

definition answer_write :: "'v table res \<Rightarrow> 'v table \<Rightarrow> 'v kv_answer \<times> 'v table" where
  "answer_write x t = (case x of Inl _ \<Rightarrow> (Refused, t) | Inr t' \<Rightarrow> (Written, t'))"

definition answer_read :: "('v option \<times> 'v table) res \<Rightarrow> 'v table \<Rightarrow> 'v kv_answer \<times> 'v table" where
  "answer_read x t = (case x of Inl _ \<Rightarrow> (Refused, t) | Inr (v, t') \<Rightarrow> (Value v, t'))"

fun sqlite_call :: "int \<Rightarrow> 'v kv_call \<Rightarrow> 'v table \<Rightarrow> 'v kv_answer \<times> 'v table" where
  "sqlite_call now (CallGet k) t = answer_read (kv_get t now k) t"
| "sqlite_call now (CallSet k v) t = answer_write (kv_set t now k v None) t"
| "sqlite_call now (CallDelete k) t = answer_write (kv_delete t k) t"
| "sqlite_call now (CallCommit cs ms) t = answer_commit (commit t now \<lparr>checks = cs, mutations = ms\<rparr>) t"

fun memory_call :: "string \<Rightarrow> int \<Rightarrow> 'v kv_call \<Rightarrow> 'v table \<Rightarrow> 'v kv_answer \<times> 'v table" where
  "memory_call pfx now (CallGet k) t = answer_read (mem_get pfx t now k) t"
| "memory_call pfx now (CallSet k v) t = answer_write (mem_set pfx t now k v None) t"
| "memory_call pfx now (CallDelete k) t = answer_write (mem_delete pfx t k) t"
| "memory_call pfx now (CallCommit cs ms) t = answer_commit (mem_commit pfx t now \<lparr>checks = cs, mutations = ms\<rparr>) t"

fun run_kv :: "(int \<Rightarrow> 'v kv_call \<Rightarrow> 'v table \<Rightarrow> 'v kv_answer \<times> 'v table) \<Rightarrow> (int \<times> 'v kv_call) list \<Rightarrow> 'v table \<Rightarrow> 'v kv_answer list" where
  "run_kv f [] t = []"
| "run_kv f ((now, c) # cs) t = fst (f now c t) # run_kv f cs (snd (f now c t))"

text \<open>Keys are not empty, and the keys of checks are valid: SQLite does not validate those.\<close>

fun call_ok :: "'v kv_call \<Rightarrow> bool" where
  "call_ok (CallGet k) = (k \<noteq> [])"
| "call_ok (CallSet k v) = (k \<noteq> [])"
| "call_ok (CallDelete k) = (k \<noteq> [])"
| "call_ok (CallCommit cs ms) = (list_all (\<lambda>c. mem_valid (fst c)) cs \<and> list_all (\<lambda>m. mut_key m \<noteq> []) ms)"

definition cell :: "'v kv_row option \<Rightarrow> ('v \<times> int) option" where
  "cell r = map_option (\<lambda>r. (value_json r, version r)) r"

definition lasting :: "'v table \<Rightarrow> bool" where
  "lasting t \<longleftrightarrow> (\<forall>e \<in> set t. expires_at (snd e) = None)"

definition same_rows :: "string \<Rightarrow> 'v table \<Rightarrow> 'v table \<Rightarrow> bool" where
  "same_rows pfx t m \<longleftrightarrow> lasting t \<and> lasting m \<and> (\<forall>k. k \<noteq> [] \<longrightarrow> cell (oget t (encodeKeyPath k)) = cell (oget m (mem_path pfx k)))"

lemma lasting_purge: "lasting t \<Longrightarrow> purge now t = t" "lasting t \<Longrightarrow> cleanMemoryExpired now t = t"
  by (auto simp: lasting_def purge_def cleanMemoryExpired_def expired_def intro!: filter_True)

lemma lasting_oset: "lasting t \<Longrightarrow> expires_at r = None \<Longrightarrow> lasting (oset p r t)"
  using oset_set_subset[of p r t] by (auto simp: lasting_def)

lemma lasting_odel: "lasting t \<Longrightarrow> lasting (odel p t)"
  by (auto simp: lasting_def odel_def)

lemma lasting_row: "lasting t \<Longrightarrow> oget t p = Some r \<Longrightarrow> \<not> expired now r"
  by (fastforce simp: lasting_def expired_def dest: map_of_SomeD)

lemma same_rows_put:
  assumes "same_rows pfx t m" "k \<noteq> []"
  shows "same_rows pfx (upsert k v None t) (mem_put pfx k v None m)"
proof -
  have "lasting (upsert k v None t)" "lasting (mem_put pfx k v None m)"
    using assms(1) by (auto simp: same_rows_def upsert_def mem_put_def Let_def intro: lasting_oset split: option.split)
  moreover have "cell (oget (upsert k v None t) (encodeKeyPath j)) = cell (oget (mem_put pfx k v None m) (mem_path pfx j))" if "j \<noteq> []" for j
    using assms that unfolding same_rows_def
    by (cases "oget t (encodeKeyPath k)"; cases "oget m (mem_path pfx k)")
      (auto simp: oget_upsert mem_put_def mem_path_eq cell_def stored_version_def dest!: spec[of _ k])
  ultimately show ?thesis by (simp add: same_rows_def)
qed

lemma same_rows_del: "same_rows pfx t m \<Longrightarrow> k \<noteq> [] \<Longrightarrow> same_rows pfx (odel (encodeKeyPath k) t) (odel (mem_path pfx k) m)"
  by (auto simp: same_rows_def mem_path_eq lasting_odel)

lemma same_rows_version:
  assumes "same_rows pfx t m" "k \<noteq> []"
  shows "current_version t now k = stored_version pfx m k" "kv_read t now k = map_option value_json (oget m (mem_path pfx k))"
proof -
  have c: "cell (oget t (encodeKeyPath k)) = cell (oget m (mem_path pfx k))" using assms by (simp add: same_rows_def)
  have l: "live_row t now k = oget t (encodeKeyPath k)" using assms(1) lasting_row[of t "encodeKeyPath k" _ now]
    by (auto simp: same_rows_def live_row_def split: option.split)
  show "current_version t now k = stored_version pfx m k" "kv_read t now k = map_option value_json (oget m (mem_path pfx k))"
    using c by (cases "oget t (encodeKeyPath k)"; cases "oget m (mem_path pfx k)";
        simp add: l cell_def current_version_def stored_version_def kv_read_def)+
qed

lemma same_rows_apply:
  "same_rows pfx t m \<Longrightarrow> list_all (\<lambda>x. mut_key x \<noteq> []) ms \<Longrightarrow>
   fst (apply_mutations ms hv t) = fst (mem_apply pfx ms hv m) \<and> same_rows pfx (snd (apply_mutations ms hv t)) (snd (mem_apply pfx ms hv m))"
proof (induction ms hv t arbitrary: m rule: apply_mutations.induct)
  case (2 k v ms hv t)
  have k: "k \<noteq> []" using "2.prems"(2) by simp
  let ?t = "upsert k v None t"
  have "(case oget ?t (encodeKeyPath k) of None \<Rightarrow> 0 | Some r \<Rightarrow> version r) = stored_version pfx m k + 1"
    using same_rows_version(1)[OF "2.prems"(1) k] "2.prems"(1) k unfolding same_rows_def
    by (cases "oget t (encodeKeyPath k)"; cases "oget m (mem_path pfx k)") (auto simp: oget_upsert stored_version_def cell_def dest!: spec[of _ k])
  then show ?case using 2 same_rows_put[OF "2.prems"(1) k, of v] by (simp add: Let_def)
qed (auto simp: same_rows_del)

lemma valid_keys: "k \<noteq> [] \<Longrightarrow> mem_validateKey k = Inr () \<longleftrightarrow> validateKey k = Inr ()"
  by (simp add: mem_validateKey_def validateKey_def)

lemma invalid_keys: "k \<noteq> [] \<Longrightarrow> validateKey k \<noteq> Inr () \<Longrightarrow> (\<exists>e. validateKey k = Inl e) \<and> (\<exists>e. mem_validateKey k = Inl e)"
  by (cases "32 < length k"; cases "512 < sum_list (map utf8_len k)") (simp_all add: mem_validateKey_def validateKey_def)

lemma same_rows_commit:
  assumes "same_rows pfx t m" "list_all (\<lambda>c. mem_valid (fst c)) cs" "list_all (\<lambda>x. mut_key x \<noteq> []) ms"
  shows "fst (answer_commit (commit t now \<lparr>checks = cs, mutations = ms\<rparr>) t) = fst (answer_commit (mem_commit pfx m now \<lparr>checks = cs, mutations = ms\<rparr>) m) \<and>
    same_rows pfx (snd (answer_commit (commit t now \<lparr>checks = cs, mutations = ms\<rparr>) t)) (snd (answer_commit (mem_commit pfx m now \<lparr>checks = cs, mutations = ms\<rparr>) m))"
proof (cases "each_res (\<lambda>x. validateKey (mut_key x)) ms")
  case (Inl e)
  then obtain x where x: "x \<in> set ms" "validateKey (mut_key x) = Inl e" using each_res_Inl_mem by fastforce
  then obtain e' where "mem_validateKey (mut_key x) = Inl e'" using invalid_keys[of "mut_key x"] assms(3) by (auto simp: list_all_iff)
  then have "each_res (\<lambda>x. mem_validateKey (mut_key x)) ms \<noteq> Inr ()" using x(1) each_res_Inr_iff[of "\<lambda>x. mem_validateKey (mut_key x)" ms "()"] by fastforce
  then obtain e'' where "each_res (\<lambda>x. mem_validateKey (mut_key x)) ms = Inl e''" by (cases "each_res (\<lambda>x. mem_validateKey (mut_key x)) ms") auto
  then show ?thesis using Inl assms(1) by (simp add: answer_commit_def commit_def mem_commit_def)
next
  case (Inr u)
  have v: "each_res (\<lambda>x. mem_validateKey (mut_key x)) ms = Inr ()" "each_res (\<lambda>c. mem_validateKey (fst c)) cs = Inr ()"
    using Inr assms(2,3) valid_keys by (auto simp: each_res_Inr_iff list_all_iff mem_valid_def)
  have l: "purge now t = t" "cleanMemoryExpired now m = m" using assms(1) lasting_purge by (auto simp: same_rows_def)
  have c: "checks_pass t now cs \<longleftrightarrow> mem_checks_pass pfx m cs"
    using assms(2) same_rows_version(1)[OF assms(1)] mem_valid_not_Nil by (fastforce simp: checks_pass_iff mem_checks_iff list_all_iff)
  have a: "fst (apply_mutations ms 0 t) = fst (mem_apply pfx ms 0 m)" "same_rows pfx (snd (apply_mutations ms 0 t)) (snd (mem_apply pfx ms 0 m))"
    using same_rows_apply[OF assms(1,3)] by blast+
  have hv: "h \<le> fst (mem_apply pfx xs h y)" for xs h y by (induction pfx xs h y rule: mem_apply.induct) auto
  have z: "0 \<le> fst (mem_apply pfx ms 0 m)" using hv .
  show ?thesis
  proof (cases "mem_checks_pass pfx m cs")
    case True
    then show ?thesis using Inr v l c a z by (cases "apply_mutations ms 0 t"; cases "mem_apply pfx ms 0 m") (auto simp: answer_commit_def commit_def mem_commit_def)
  next
    case False
    then show ?thesis using Inr v l c assms(1) by (simp add: answer_commit_def commit_def mem_commit_def)
  qed
qed

lemma same_rows_call:
  assumes "same_rows pfx t m" "call_ok c"
  shows "fst (sqlite_call now c t) = fst (memory_call pfx now c m) \<and> same_rows pfx (snd (sqlite_call now c t)) (snd (memory_call pfx now c m))"
proof -
  have l: "cleanMemoryExpired now m = m" using assms(1) lasting_purge by (auto simp: same_rows_def)
  have g: "kv_get t now k = (if validateKey k = Inr () then Inr (kv_read t now k, t) else kv_get t now k)" for k
    using assms(1) lasting_row[of t "encodeKeyPath k" _ now] by (auto simp: kv_get_def kv_read_def live_row_def same_rows_def split: option.split)
  show ?thesis
  proof (cases c)
    case (CallGet k)
    then show ?thesis using assms l same_rows_version(2)[OF assms(1), of k now] g[of k] invalid_keys[of k] valid_keys[of k]
      by (cases "validateKey k = Inr ()") (auto simp: answer_read_def mem_get_def kv_get_def[of t now k])
  next
    case (CallSet k v)
    then show ?thesis using assms l same_rows_put[OF assms(1), of k v] invalid_keys[of k] valid_keys[of k]
      by (cases "validateKey k = Inr ()") (auto simp: answer_write_def mem_set_def kv_set_def mem_expiry_def)
  next
    case (CallDelete k)
    then show ?thesis using assms same_rows_del[OF assms(1), of k] invalid_keys[of k] valid_keys[of k]
      by (cases "validateKey k = Inr ()") (auto simp: answer_write_def mem_delete_def kv_delete_def)
  next
    case (CallCommit cs ms)
    then show ?thesis using assms same_rows_commit[OF assms(1)] by simp
  qed
qed

lemma same_rows_run:
  "same_rows pfx t m \<Longrightarrow> list_all (\<lambda>x. call_ok (snd x)) cs \<Longrightarrow> run_kv (memory_call pfx) cs m = run_kv sqlite_call cs t"
proof (induction cs arbitrary: t m)
  case (Cons x cs)
  obtain now c where x: "x = (now, c)" by (cases x)
  then show ?case using same_rows_call[OF Cons.prems(1), of c now] Cons.IH Cons.prems(2) by simp
qed simp


section \<open>Paging\<close>

fun mem_all_pages :: "nat \<Rightarrow> string \<Rightarrow> (string \<Rightarrow> string \<Rightarrow> bool) \<Rightarrow> 'v table \<Rightarrow> int \<Rightarrow> string list \<Rightarrow> int option \<Rightarrow> string option \<Rightarrow> (string list \<times> 'v) list option" where
  "mem_all_pages 0 pfx le t now pre limit cursor = None"
| "mem_all_pages (Suc n) pfx le t now pre limit cursor =
     (case fst (mem_list pfx le t now pre limit cursor) of
        (items, None) \<Rightarrow> Some items
      | (items, Some c) \<Rightarrow> map_option (\<lambda>rest. items @ rest) (mem_all_pages n pfx le t now pre limit (Some c)))"

text \<open>The rows below the prefix, in the order of their paths.\<close>

definition mem_rows :: "string \<Rightarrow> 'v table \<Rightarrow> int \<Rightarrow> string list \<Rightarrow> (string \<times> 'v kv_row) list" where
  "mem_rows pfx t now pre = sort_key fst (mem_matching pfx t now pre None)"

definition mem_item :: "string \<times> 'v kv_row \<Rightarrow> string list \<times> 'v" where
  "mem_item e = (key_json (snd e), value_json (snd e))"

lemma insert_by_insort: "(\<And>y. y \<in> set ys \<Longrightarrow> le x y \<longleftrightarrow> f x \<le> f y) \<Longrightarrow> insert_by le x ys = insort_key f x ys"
  by (induction ys) auto

lemma sort_by_sort: "(\<And>x y. x \<in> set xs \<Longrightarrow> y \<in> set xs \<Longrightarrow> le x y \<longleftrightarrow> f x \<le> f y) \<Longrightarrow> sort_by le xs = sort_key f xs"
proof (induction xs)
  case (Cons x xs)
  have "sort_by le xs = sort_key f xs" using Cons by simp
  moreover have "insert_by le x (sort_key f xs) = insort_key f x (sort_key f xs)" using Cons.prems by (intro insert_by_insort) auto
  ultimately show ?case by (simp add: sort_by_def)
qed (simp add: sort_by_def)

lemma sort_key_filter: "sort_key f (filter P xs) = filter P (sort_key f xs)"
  by (rule filter_sort[symmetric])

text \<open>What lies after a cursor in a strictly sorted list is the part after the row it names.\<close>

lemma after_cursor:
  assumes "sorted_wrt (<) (map fst xs)" "0 < n" "n \<le> length xs"
  shows "filter (\<lambda>e. fst (xs ! (n - 1)) < fst e) xs = drop n (xs :: ('k :: linorder \<times> 'r) list)"
proof -
  let ?c = "fst (xs ! (n - 1))"
  have lt: "i < j \<Longrightarrow> j < length xs \<Longrightarrow> fst (xs ! i) < fst (xs ! j)" for i j
    using sorted_wrt_nth_less[OF assms(1), of i j] by simp
  have a: "\<not> ?c < fst e" if e: "e \<in> set (take n xs)" for e
  proof -
    obtain i where i: "i < n" "e = xs ! i" using e assms(3) by (auto simp: in_set_conv_nth)
    consider "i = n - 1" | "i < n - 1" using i(1) by linarith
    then show ?thesis
    proof cases
      case 2
      then have "fst (xs ! i) < ?c" using lt[of i "n - 1"] assms(2,3) by simp
      then show ?thesis using i(2) by (simp add: less_asym)
    qed (use i in simp)
  qed
  have b: "?c < fst e" if e: "e \<in> set (drop n xs)" for e
  proof -
    obtain i where i: "i < length xs - n" "e = xs ! (n + i)" using e assms(3) by (auto simp: in_set_conv_nth)
    then show ?thesis using lt[of "n - 1" "n + i"] assms(2) by auto
  qed
  have "filter (\<lambda>e. ?c < fst e) (take n xs @ drop n xs) = drop n xs"
    unfolding filter_append using a b by (simp add: filter_empty_conv filter_id_conv)
  then show ?thesis by simp
qed

definition agrees_on :: "(string \<Rightarrow> string \<Rightarrow> bool) \<Rightarrow> 'v table \<Rightarrow> bool" where
  "agrees_on le t \<longleftrightarrow> (\<forall>a \<in> fst ` set t. \<forall>b \<in> fst ` set t. le a b \<longleftrightarrow> a \<le> b)"

lemma mem_matching_cursor: "mem_matching pfx t now pre (Some c) = filter (\<lambda>e. c < fst e) (mem_matching pfx t now pre None)" if "c \<noteq> []"
proof -
  have "c < p \<Longrightarrow> [] < p" for p :: string by (cases p) auto
  then show ?thesis unfolding mem_matching_def filter_filter by (intro filter_cong) auto
qed

lemma mem_sorted:
  assumes "agrees_on le t"
  shows "sort_by (\<lambda>a b. le (fst a) (fst b)) (mem_matching pfx t now pre cursor) = sort_key fst (mem_matching pfx t now pre cursor)"
proof (rule sort_by_sort)
  fix x y assume "x \<in> set (mem_matching pfx t now pre cursor)" "y \<in> set (mem_matching pfx t now pre cursor)"
  then have "x \<in> set t" "y \<in> set t" by (auto simp: mem_matching_def cleanMemoryExpired_def)
  then show "le (fst x) (fst y) \<longleftrightarrow> fst x \<le> fst y" using assms by (auto simp: agrees_on_def)
qed

lemma mem_rows_strict: "owf t \<Longrightarrow> sorted_wrt (<) (map fst (mem_rows pfx t now pre))"
proof -
  assume "owf t"
  then have "owf (mem_matching pfx t now pre None)" by (simp add: mem_matching_def cleanMemoryExpired_def)
  then have "distinct (map fst (mem_matching pfx t now pre None))" by (simp add: owf_def)
  then have "distinct (map fst (mem_rows pfx t now pre))" by (simp add: mem_rows_def distinct_map)
  then show ?thesis by (simp add: mem_rows_def strict_sorted_iff)
qed

definition cursor_at :: "(string \<times> 'v kv_row) list \<Rightarrow> nat \<Rightarrow> string option" where
  "cursor_at rows i = (if i = 0 then None else Some (fst (rows ! (i - 1))))"

lemma mem_limit_pos: "0 < mem_limit l"
  by (simp add: mem_limit_def)

lemma mem_list_at:
  assumes "owf t" "agrees_on le t" "rows = mem_rows pfx t now pre" "i \<le> length rows"
  shows "sort_by (\<lambda>a b. le (fst a) (fst b)) (mem_matching pfx t now pre (cursor_at rows i)) = drop i rows"
proof (cases "i = 0")
  case True
  then show ?thesis using assms mem_sorted by (simp add: cursor_at_def mem_rows_def)
next
  case False
  have "rows ! (i - 1) \<in> set rows" using False assms(4) by simp
  then have "fst (rows ! (i - 1)) \<noteq> []" by (auto simp: assms(3) mem_rows_def mem_matching_def mem_path_def starts_with_def prefix_def)
  then have "mem_matching pfx t now pre (cursor_at rows i) = filter (\<lambda>e. fst (rows ! (i - 1)) < fst e) (mem_matching pfx t now pre None)"
    using False mem_matching_cursor by (simp add: cursor_at_def)
  then have "sort_by (\<lambda>a b. le (fst a) (fst b)) (mem_matching pfx t now pre (cursor_at rows i)) = filter (\<lambda>e. fst (rows ! (i - 1)) < fst e) rows"
    using mem_sorted[OF assms(2), of pfx now pre "cursor_at rows i"] sort_key_filter[of fst _ "mem_matching pfx t now pre None"]
    unfolding assms(3)[unfolded mem_rows_def, symmetric] by simp
  then show ?thesis using after_cursor[of rows i] mem_rows_strict[OF assms(1)] False assms(3,4) by simp
qed

lemma mem_all_pages_suffix:
  assumes "owf t" "agrees_on le t" "rows = mem_rows pfx t now pre" "i \<le> length rows" "length rows - i < n"
  shows "mem_all_pages n pfx le t now pre limit (cursor_at rows i) = Some (map mem_item (drop i rows))"
  using assms(4,5)
proof (induction n arbitrary: i)
  case (Suc n)
  let ?L = "mem_limit limit"
  have l: "fst (mem_list pfx le t now pre limit (cursor_at rows i)) = page_of ?L (drop i rows)"
    using mem_list_at[OF assms(1-3) Suc.prems(1)] by (simp add: mem_list_def)
  have it: "map (\<lambda>(p, r). (key_json r, value_json r)) xs = map mem_item xs" for xs :: "(string \<times> 'a kv_row) list"
    by (simp add: mem_item_def split_def)
  show ?case
  proof (cases "?L < length (drop i rows)")
    case False
    then show ?thesis using l by (simp add: page_of_def Let_def it)
  next
    case True
    have p: "0 < ?L" by (rule mem_limit_pos)
    have "fst (last (take ?L (drop i rows))) = fst (rows ! (i + ?L - 1))" using True p by (simp add: last_conv_nth)
    then have "page_of ?L (drop i rows) = (map mem_item (take ?L (drop i rows)), cursor_at rows (i + ?L))"
      using True p by (simp add: page_of_def Let_def it cursor_at_def)
    moreover have "mem_all_pages n pfx le t now pre limit (cursor_at rows (i + ?L)) = Some (map mem_item (drop (i + ?L) rows))"
      using True p Suc.prems by (intro Suc.IH) auto
    moreover have "cursor_at rows (i + ?L) = Some (fst (rows ! (i + ?L - 1)))" using p by (simp add: cursor_at_def)
    moreover have "take ?L (drop i rows) @ drop (i + ?L) rows = drop i rows" by (metis add.commute append_take_drop_id drop_drop)
    then have "map mem_item (take ?L (drop i rows)) @ map mem_item (drop (i + ?L) rows) = map mem_item (drop i rows)" by (metis map_append)
    ultimately show ?thesis using l by simp
  qed
qed simp

text \<open>
  Where \<open>localeCompare\<close> orders the stored paths as the comparison of the cursor does, a client of
  an embedded store that follows the cursors sees every live entry below the prefix exactly once,
  in the order of the paths, after at most one page more than there are entries.
\<close>

theorem embedded_pages_complete:
  assumes "owf t" "agrees_on le t"
  shows "mem_all_pages (Suc (length t)) pfx le t now pre limit None = Some (map mem_item (mem_rows pfx t now pre)) \<and>
    sorted_wrt (<) (map fst (mem_rows pfx t now pre)) \<and>
    set (mem_rows pfx t now pre) = {(p, r). oget t p = Some r \<and> \<not> expired now r \<and> starts_with p (mem_path pfx pre)}"
proof -
  have "length (mem_rows pfx t now pre) \<le> length t" by (simp add: mem_rows_def mem_matching_def cleanMemoryExpired_def le_trans[OF length_filter_le])
  then have "mem_all_pages (Suc (length t)) pfx le t now pre limit None = Some (map mem_item (mem_rows pfx t now pre))"
    using mem_all_pages_suffix[OF assms refl, of 0 pfx now pre "Suc (length t)" limit] by (simp add: cursor_at_def)
  moreover have "[] < p" if "starts_with p (mem_path pfx pre)" for p using that by (cases p) (auto simp: starts_with_def mem_path_def)
  then have "set (mem_rows pfx t now pre) = {(p, r). oget t p = Some r \<and> \<not> expired now r \<and> starts_with p (mem_path pfx pre)}"
    using assms(1) by (auto simp: mem_rows_def mem_matching_def cleanMemoryExpired_def owf_def map_of_eq_Some_iff)
  ultimately show ?thesis using mem_rows_strict[OF assms(1)] by blast
qed

section \<open>Samples\<close>

definition two_keys :: "int table" where
  "two_keys = mem_put [] [''B''] 2 None (mem_put [] [''a''] 1 None [])"

lemma one_client_wins_the_race_witness:
  "race kv_cas [] [''a''] 0 [(1, 7), (2, 8 :: int)] = [True, False] \<and>
   length (filter (\<lambda>b. b) (race (mem_cas ''rfk:'') [] [''a''] 0 [(1, 7), (2, 8 :: int)])) \<le> 1"
proof -
  have "mem_valid [''a'']" by code_simp
  moreover have "race kv_cas [] [''a''] 0 [(1, 7), (2, 8 :: int)] = [True, False]" by code_simp
  ultimately show ?thesis using one_client_wins_the_race[of "[(1, 7), (2, 8 :: int)]" "[''a'']" "[]" "''rfk:''" "[]" 0]
    by (simp add: table_ok_Nil mem_ok_def)
qed

lemma two_keys_ok: "mem_ok [] two_keys"
  unfolding two_keys_def by (intro mem_ok_put) (simp_all add: mem_ok_def)

lemma mem_commit_atomic_witness:
  "\<exists>r t'. mem_commit [] two_keys 5 \<lparr>checks = [([''a''], 1)], mutations = [MSet [''a''] 9, MDelete [''B'']]\<rparr> = Inr (r, t') \<and>
     commit_ok r \<and> mem_read [] t' 5 [''a''] = Some 9 \<and> mem_read [] t' 5 [''B''] = None"
proof -
  let ?b = "\<lparr>checks = [([''a''], 1)], mutations = [MSet [''a''] 9, MDelete [''B'']]\<rparr> :: int builder"
  let ?c = "mem_commit [] two_keys 5 ?b"
  have "\<not> isl ?c" by code_simp
  then obtain r t' where c: "?c = Inr (r, t')" by (cases ?c) auto
  have v: "mem_version [] two_keys 5 [''a''] = 1" "last_mutation [''a''] (mutations ?b) = Some (MSet [''a''] 9)"
    "last_mutation [''B''] (mutations ?b) = Some (MDelete [''B''])" by code_simp+
  show ?thesis using mem_commit_atomic[OF two_keys_ok c, of "[''a'']"] mem_commit_atomic[OF two_keys_ok c, of "[''B'']"] c v by simp
qed


lemma embedded_pages_complete_witness:
  "(let t = mem_put [] [''s'', ''x''] 3 None two_keys in
    mem_all_pages (Suc (length t)) [] (\<le>) t 0 [''s''] (Some 1) None = Some [([''s'', ''x''], 3)])"
proof -
  let ?t = "mem_put [] [''s'', ''x''] 3 None two_keys"
  have "owf ?t" using mem_ok_put[OF two_keys_ok, of "[''s'', ''x'']"] by (simp add: mem_ok_def)
  moreover have "agrees_on (\<le>) ?t" by (simp add: agrees_on_def)
  moreover have "map mem_item (mem_rows [] ?t 0 [''s'']) = [([''s'', ''x''], 3)]" by code_simp
  ultimately show ?thesis using embedded_pages_complete[of ?t "(\<le>)" "[]" 0 "[''s'']" "Some 1"] by simp
qed

section \<open>Where the stores differ\<close>

text \<open>
  The pages are sorted by \<open>localeCompare\<close>, which puts a before B, but the cursor is compared by code
  units, where B comes before a: a client that follows the cursors never sees B.
\<close>

definition collated :: "string \<Rightarrow> string \<Rightarrow> bool" where
  "collated a b = (to_lower a \<le> to_lower b)"

lemma paging_loses_keys:
  "(let t = mem_put [] [''s'', ''B''] 2 None (mem_put [] [''s'', ''a''] (1 :: int) None []) in
    map mem_item (mem_rows [] t 0 [''s'']) = [([''s'', ''B''], 2), ([''s'', ''a''], 1)] \<and>
    mem_all_pages 3 [] collated t 0 [''s''] (Some 1) None = Some [([''s'', ''a''], 1)])"
  by code_simp

text \<open>Listing everything: the path of the empty prefix is a lone slash here and empty in the SQLite provider.\<close>

lemma empty_prefix_lists_nothing:
  "fst (mem_list [] (\<le>) two_keys 0 [] None None) = ([], None) \<and>
   fst (kv_list two_keys 0 [] None None) = [([''B''], 2), ([''a''], 1)]"
  by code_simp

text \<open>A lifetime of zero: gone at once in the SQLite provider, kept for ever in the others.\<close>

lemma zero_lifetime_is_kept:
  "map_sum (\<lambda>_. ()) (\<lambda>t. mem_read [] t 1000000 [''a'']) (mem_set [] [] 0 [''a''] (1 :: int) (Some 0)) = Inr (Some 1) \<and>
   map_sum (\<lambda>_. ()) (\<lambda>t. kv_read t 1 [''a'']) (kv_set [] 0 [''a''] (1 :: int) (Some 0)) = Inr None"
  by code_simp

text \<open>
  A key that has expired reads as absent, with version 0, but its row goes on counting in the
  Postgres table: setting it expecting 0 succeeds and leaves version 2, in the embedded store 1.
\<close>

definition old_row :: "int table" where
  "old_row = [(mem_path [] [''a''], \<lparr>key_json = [''a''], value_json = 1, version = 1, expires_at = Some 5\<rparr>)]"

lemma expired_row_keeps_counting:
  "(let b = b_set [''a''] 7 (b_check [''a''] 0 atomic) in
    map_sum (\<lambda>_. ()) (\<lambda>x. commit_version (fst x)) (pg_commit old_row 10 b) = Inr (Some 2) \<and>
    map_sum (\<lambda>_. ()) (\<lambda>x. commit_version (fst x)) (mem_commit [] old_row 10 b) = Inr (Some 1))"
  by code_simp

text \<open>The prefix of a listing is a pattern of LIKE: an underscore matches any character.\<close>

lemma pg_listing_crosses_scopes:
  "(let t = mem_put [] [''orgX1'', ''k''] (1 :: int) None [] in
    fst (pg_list (\<le>) t 0 [''org_1''] None None) = [([''orgX1'', ''k''], 1)] \<and> fst (fst (mem_list [] (\<le>) t 0 [''org_1''] None None)) = [])"
  by code_simp

end
