(* ===== verification/LocalFs.thy ===== *)
theory LocalFs
  imports UriCodec KillEnforcer "HOL-Library.Char_ord" "HOL-Library.List_Lexorder" "HOL-Library.Sublist"
begin

text \<open>
  The object provider on the local file system (\<open>src/providers/objects/local-fs-provider.ts\<close>, with the
  content hash of \<open>src/packages/core/crypto/content-address.ts\<close>).

  The file system is a tree; an absolute path is the list of its segments, as \<open>resolve\<close> leaves it. The
  digest, the base64 codec, the JSON text of a token and the URL parser are parameters. Operations are
  run one at a time. A stream is the list of its reads.

  Shown: no key reaches outside the root, the store refines a map from keys to contents as long as no
  key is a directory of another, the pages of a listing are complete, and a presigned URL admits what
  it was issued for and nothing else; and where keys are confused or URLs refused.
\<close>

section \<open>Paths\<close>

type_synonym path = "string list"

fun resolved_text :: "string \<Rightarrow> string list \<Rightarrow> string" where
  "resolved_text cwd [] = cwd"
| "resolved_text cwd (p # ps) =
     (if p = [] then resolved_text cwd ps
      else if hd p = CHR ''/'' then p
      else resolved_text cwd ps @ ''/'' @ p)"

fun norm_segments :: "path \<Rightarrow> string list \<Rightarrow> path" where
  "norm_segments acc [] = rev acc"
| "norm_segments acc (s # ss) =
     (if s = [] \<or> s = ''.'' then norm_segments acc ss
      else if s = ''..'' then norm_segments (tl acc) ss
      else norm_segments (s # acc) ss)"

definition resolve :: "string \<Rightarrow> string list \<Rightarrow> path" where
  "resolve cwd parts = norm_segments [] (split_on CHR ''/'' (resolved_text cwd (rev parts)))"

definition common_length :: "path \<Rightarrow> path \<Rightarrow> nat" where
  "common_length a b = length (takeWhile (\<lambda>(x, y). x = y) (zip a b))"

definition relative :: "path \<Rightarrow> path \<Rightarrow> string" where
  "relative a b = join_with ''/'' (replicate (length a - common_length a b) ''..'' @ drop (common_length a b) b)"

text \<open>\<open>seg.replace(/:/g, "%3A")\<close> and, in a listing, \<open>entry.name.replace(/%3A/g, ":")\<close>.\<close>

definition escape_seg :: "string \<Rightarrow> string" where
  "escape_seg s = concat (map (\<lambda>c. if c = CHR '':'' then ''%3A'' else [c]) s)"

fun decoded_name :: "string \<Rightarrow> string" where
  "decoded_name [] = []"
| "decoded_name (c # s) = (if take 3 (c # s) = ''%3A'' then CHR '':'' # decoded_name (drop 2 s) else c # decoded_name s)"

record local_fs =
  cwd :: string
  rootDir :: string
  hmacSecret :: string

definition rootAbs :: "local_fs \<Rightarrow> path" where
  "rootAbs c = resolve (cwd c) [rootDir c]"

definition fs_key :: "string \<Rightarrow> string" where
  "fs_key key = join_with ''/'' (map escape_seg (split_on CHR ''/'' key))"

definition getPath :: "local_fs \<Rightarrow> string \<Rightarrow> path res" where
  "getPath c key =
     (let absPath = resolve (cwd c) [rootDir c, fs_key key]; rel = relative (rootAbs c) absPath in
      if starts_with rel ''..'' \<or> starts_with rel ''/''
      then Inl (throw_rf VALIDATION_FAILED ''Path traversal detected: path escapes root directory'')
      else Inr absPath)"

section \<open>The file system\<close>

datatype node = File string | Folder "(string \<times> node) list"

definition NotFound :: exn where "NotFound = Foreign ''NotFound''"

definition NotADirectory :: exn where "NotADirectory = Foreign ''NotADirectory''"

definition IsADirectory :: exn where "IsADirectory = Foreign ''IsADirectory''"

definition AlreadyExists :: exn where "AlreadyExists = Foreign ''AlreadyExists''"

definition NotEmpty :: exn where "NotEmpty = Foreign ''Directory not empty''"

fun stat :: "node \<Rightarrow> path \<Rightarrow> node res" where
  "stat n [] = Inr n"
| "stat (File b) (s # p) = Inl NotADirectory"
| "stat (Folder es) (s # p) = (case oget es s of None \<Rightarrow> Inl NotFound | Some m \<Rightarrow> stat m p)"

text \<open>\<open>Deno.mkdir\<close> with \<open>recursive\<close>: it fails only at a file, above which nothing has to be created.\<close>

fun mkdir :: "node \<Rightarrow> path \<Rightarrow> node res" where
  "mkdir (Folder es) [] = Inr (Folder es)"
| "mkdir (File b) [] = Inl AlreadyExists"
| "mkdir (File b) (s # p) = Inl NotADirectory"
| "mkdir (Folder es) (s # p) =
     bind_res (mkdir (case oget es s of None \<Rightarrow> Folder [] | Some m \<Rightarrow> m) p) (\<lambda>m. Inr (Folder (oset s m es)))"

fun writeFile :: "string \<Rightarrow> node \<Rightarrow> path \<Rightarrow> node res" where
  "writeFile b (File _) [] = Inr (File b)"
| "writeFile b (Folder _) [] = Inl IsADirectory"
| "writeFile b (File _) (s # p) = Inl NotADirectory"
| "writeFile b (Folder es) (s # p) =
     (case oget es s of
        None \<Rightarrow> if p = [] then Inr (Folder (oset s (File b) es)) else Inl NotFound
      | Some m \<Rightarrow> bind_res (writeFile b m p) (\<lambda>m'. Inr (Folder (oset s m' es))))"

text \<open>\<open>Deno.remove\<close> without \<open>recursive\<close> removes a file or an empty directory.\<close>

fun remove_node :: "node \<Rightarrow> path \<Rightarrow> node res" where
  "remove_node n [] = Inl NotEmpty"
| "remove_node (File _) (s # p) = Inl NotADirectory"
| "remove_node (Folder es) (s # p) =
     (case oget es s of
        None \<Rightarrow> Inl NotFound
      | Some m \<Rightarrow>
          if p = [] then
            (case m of Folder (_ # _) \<Rightarrow> Inl NotEmpty | _ \<Rightarrow> Inr (Folder (odel s es)))
          else bind_res (remove_node m p) (\<lambda>m'. Inr (Folder (oset s m' es))))"

section \<open>The operations\<close>

datatype object_data = Buffer string | Reads "char read list"

text \<open>The loop over the reader and the joining of the chunks.\<close>

fun read_chunks :: "char read list \<Rightarrow> string list \<Rightarrow> string list res" where
  "read_chunks [] chunks = Inr chunks"
| "read_chunks (ReadFails e # rs) chunks = Inl e"
| "read_chunks (NoValue # rs) chunks = read_chunks rs chunks"
| "read_chunks (Chunk c # rs) chunks = read_chunks rs (chunks @ [c])"

fun buffer_of :: "object_data \<Rightarrow> string res" where
  "buffer_of (Buffer b) = Inr b"
| "buffer_of (Reads rs) = bind_res (read_chunks rs []) (\<lambda>cs. Inr (concat cs))"

text \<open>The directory stays when the stream or the write fails.\<close>

definition put :: "(string \<Rightarrow> string) \<Rightarrow> local_fs \<Rightarrow> string \<Rightarrow> object_data \<Rightarrow> node \<Rightarrow> string res \<times> node" where
  "put sha c key data fs =
     (case getPath c key of
        Inl e \<Rightarrow> (Inl e, fs)
      | Inr filePath \<Rightarrow>
          (case mkdir fs (butlast filePath) of
             Inl e \<Rightarrow> (Inl e, fs)
           | Inr fs1 \<Rightarrow>
               (case buffer_of data of
                  Inl e \<Rightarrow> (Inl e, fs1)
                | Inr buffer \<Rightarrow>
                    (case writeFile buffer fs1 filePath of
                       Inl e \<Rightarrow> (Inl e, fs1)
                     | Inr fs2 \<Rightarrow> (Inr (sha buffer), fs2)))))"

text \<open>A directory can be opened; it is the reading of the returned stream that fails.\<close>

definition get :: "local_fs \<Rightarrow> string \<Rightarrow> node \<Rightarrow> node option res" where
  "get c key fs =
     (case bind_res (getPath c key) (stat fs) of
        Inl e \<Rightarrow> if e = NotFound then Inr None else Inl e
      | Inr n \<Rightarrow> Inr (Some n))"

definition delete :: "local_fs \<Rightarrow> string \<Rightarrow> node \<Rightarrow> unit res \<times> node" where
  "delete c key fs =
     (case bind_res (getPath c key) (remove_node fs) of
        Inl e \<Rightarrow> (if e = NotFound then Inr () else Inl e, fs)
      | Inr fs' \<Rightarrow> (Inr (), fs'))"

definition head :: "(string \<Rightarrow> string) \<Rightarrow> local_fs \<Rightarrow> string \<Rightarrow> node \<Rightarrow> (nat \<times> string) option res" where
  "head sha c key fs =
     (case bind_res (getPath c key) (stat fs) of
        Inl e \<Rightarrow> if e = NotFound then Inr None else Inl e
      | Inr (Folder es) \<Rightarrow> Inr None
      | Inr (File b) \<Rightarrow> Inr (Some (length b, sha b)))"

text \<open>The paths of the files of a tree, in the order of the directory entries.\<close>

lemma node_smaller [termination_simp]: "e \<in> set es \<Longrightarrow> size (snd e) < Suc (size_list (size_prod (\<lambda>_. 0) size) es)"
  by (induction es) auto

fun walk :: "string \<Rightarrow> node \<Rightarrow> string list" where
  "walk base (File b) = [base]"
| "walk base (Folder es) =
     concat (map (\<lambda>e. walk (if base = [] then decoded_name (fst e) else base @ ''/'' @ decoded_name (fst e)) (snd e)) es)"

definition all_keys :: "local_fs \<Rightarrow> node \<Rightarrow> string list res" where
  "all_keys c fs =
     (case stat fs (rootAbs c) of
        Inl e \<Rightarrow> if e = NotFound then Inr [] else Inl e
      | Inr (File b) \<Rightarrow> Inl NotADirectory
      | Inr (Folder es) \<Rightarrow> Inr (walk [] (Folder es)))"

definition slice_to :: "int \<Rightarrow> 'a list \<Rightarrow> 'a list" where
  "slice_to n xs = (if n < 0 then take (length xs - nat (- n)) xs else take (nat n) xs)"

fun position :: "'a \<Rightarrow> 'a list \<Rightarrow> nat option" where
  "position x [] = None"
| "position x (y # ys) = (if x = y then Some 0 else map_option Suc (position x ys))"

text \<open>An optional string as a condition: the empty string counts as absent.\<close>

definition set_text :: "string option \<Rightarrow> string option" where
  "set_text v = (case v of Some [] \<Rightarrow> None | _ \<Rightarrow> v)"

lemma set_text_simps [simp]: "set_text None = None" "set_text (Some s) = (if s = [] then None else Some s)"
  by (auto simp: set_text_def split: list.splits)

definition after_cursor :: "string option \<Rightarrow> string list \<Rightarrow> string list" where
  "after_cursor cursor filtered =
     (case set_text cursor of
        None \<Rightarrow> filtered
      | Some cur \<Rightarrow>
          (case position cur filtered of
             Some idx \<Rightarrow> drop (idx + 1) filtered
           | None \<Rightarrow> filter (\<lambda>k. cur < k) filtered))"

definition page :: "int \<Rightarrow> string list \<Rightarrow> string list \<times> string option" where
  "page limit filtered =
     (let keys = slice_to limit filtered in
      (keys, if limit < int (length filtered) \<and> keys \<noteq> [] then Some (last keys) else None))"

definition list_objects :: "local_fs \<Rightarrow> string \<Rightarrow> int option \<Rightarrow> string option \<Rightarrow> node \<Rightarrow> (string list \<times> string option) res" where
  "list_objects c pre limit cursor fs =
     bind_res (all_keys c fs) (\<lambda>allKeys.
       Inr (page (or_default limit 100) (after_cursor cursor (sort (filter (\<lambda>k. starts_with k pre) allKeys)))))"

section \<open>Presigned URLs\<close>

record presign_opts =
  po_method :: string
  po_expiresIn :: "int option"
  po_maxExpiresIn :: "int option"

record token_payload =
  tp_key :: string
  tp_method :: string
  tp_expiresAt :: int

text \<open>
  The parameters: the hexadecimal digest, the token of a payload (its JSON text in base64) and the value read back from a
  token (nothing when that throws), the path and the query of a URL (nothing when the URL does not parse), and percent decoding.
\<close>

record url_platform =
  sha256 :: "string \<Rightarrow> string"
  token_of :: "token_payload \<Rightarrow> string"
  payload_of :: "string \<Rightarrow> jsval option"
  url_parts :: "string \<Rightarrow> (string \<times> string) option"
  percent_decode :: "string \<Rightarrow> string"

text \<open>The environment variables the public origin is taken from.\<close>

record origin_env =
  RAILFOG_PUBLIC_URL :: "string option"
  RAILFOG_RUNTIME_URL :: "string option"
  RAILWAY_PUBLIC_DOMAIN :: "string option"

definition publicOrigin :: "origin_env \<Rightarrow> string" where
  "publicOrigin env =
     or_default (or_else (set_text (RAILFOG_PUBLIC_URL env)) (or_else (set_text (RAILFOG_RUNTIME_URL env))
       (map_option (\<lambda>d. ''https://'' @ d) (set_text (RAILWAY_PUBLIC_DOMAIN env))))) ''http://localhost''"

definition strip_slashes :: "string \<Rightarrow> string" where
  "strip_slashes s = rev (dropWhile (\<lambda>c. c = CHR ''/'') (rev s))"

definition signature :: "url_platform \<Rightarrow> local_fs \<Rightarrow> string \<Rightarrow> string" where
  "signature P c token = sha256 P (token @ '':'' @ hmacSecret c)"

definition presigned_query :: "string \<Rightarrow> string \<Rightarrow> string" where
  "presigned_query token sig = ''token='' @ token @ ''&sig='' @ sig"

definition presign :: "url_platform \<Rightarrow> origin_env \<Rightarrow> local_fs \<Rightarrow> int \<Rightarrow> string \<Rightarrow> presign_opts \<Rightarrow> (string \<times> int) res" where
  "presign P env c now key opts =
     (let mx = or_default (po_maxExpiresIn opts) 86400; expiresIn = or_default (po_expiresIn opts) 900 in
      if mx < expiresIn then Inl (throw_rf VALIDATION_FAILED ''VALIDATION_FAILED'')
      else
        let expiresAt = now + expiresIn * 1000;
            token = token_of P \<lparr>tp_key = key, tp_method = po_method opts, tp_expiresAt = expiresAt\<rparr>;
            sig = signature P c token in
        Inr (strip_slashes (publicOrigin env) @ ''/local-fs/'' @ key @ ''?'' @ presigned_query token sig, expiresAt))"

text \<open>\<open>searchParams.get\<close>: the first parameter with the name, with plus signs read as spaces.\<close>

definition form_value :: "url_platform \<Rightarrow> string \<Rightarrow> string" where
  "form_value P s = percent_decode P (map (\<lambda>c. if c = CHR ''+'' then CHR '' '' else c) s)"

definition query_pairs :: "url_platform \<Rightarrow> string \<Rightarrow> (string \<times> string) list" where
  "query_pairs P q =
     map (\<lambda>s. (form_value P (takeWhile (\<lambda>c. c \<noteq> CHR ''='') s), form_value P (drop 1 (dropWhile (\<lambda>c. c \<noteq> CHR ''='') s))))
       (filter (\<lambda>s. s \<noteq> []) (split_on CHR ''&'' q))"

definition searchParam :: "url_platform \<Rightarrow> string \<Rightarrow> string \<Rightarrow> string option" where
  "searchParam P q name = set_text (map_of (query_pairs P q) name)"

definition requested_key :: "string \<Rightarrow> string res" where
  "requested_key pathname =
     decodeURIComponent (if starts_with pathname ''/local-fs/'' then drop 10 pathname else pathname)"

text \<open>The tests on the payload; a payload of null makes the first one throw, which is caught.\<close>

definition payload_admits :: "jsval \<Rightarrow> int \<Rightarrow> string \<Rightarrow> string option \<Rightarrow> bool" where
  "payload_admits payload now pathname expectedMethod =
     (case as_num (jget payload ''expiresAt'') of
        None \<Rightarrow> False
      | Some e \<Rightarrow>
          \<not> num_less e (Fin (of_int now)) \<and>
          (case requested_key pathname of Inl x \<Rightarrow> False | Inr k \<Rightarrow> jget payload ''key'' = JStr k) \<and>
          (case set_text expectedMethod of None \<Rightarrow> True | Some m \<Rightarrow> jget payload ''method'' = JStr m))"

definition verifyPresignedUrl :: "url_platform \<Rightarrow> local_fs \<Rightarrow> int \<Rightarrow> string \<Rightarrow> string option \<Rightarrow> bool" where
  "verifyPresignedUrl P c now url expectedMethod =
     (case url_parts P url of
        None \<Rightarrow> False
      | Some (pathname, query) \<Rightarrow>
          (case searchParam P query ''token'' of
             None \<Rightarrow> False
           | Some token \<Rightarrow>
               (case searchParam P query ''sig'' of
                  None \<Rightarrow> False
                | Some sig \<Rightarrow>
                    sig = signature P c token \<and>
                    (case payload_of P token of
                       None \<Rightarrow> False
                     | Some payload \<Rightarrow> payload_admits payload now pathname expectedMethod))))"

definition createMultipartUpload :: "string \<Rightarrow> string \<Rightarrow> string" where
  "createMultipartUpload ulid key = ulid"

section \<open>Laws of the file system\<close>

definition content :: "node \<Rightarrow> path \<Rightarrow> string option" where
  "content n p = (case stat n p of Inr (File b) \<Rightarrow> Some b | _ \<Rightarrow> None)"

definition is_folder :: "node \<Rightarrow> path \<Rightarrow> bool" where
  "is_folder n p = (case stat n p of Inr (Folder _) \<Rightarrow> True | _ \<Rightarrow> False)"

fun wf_node :: "node \<Rightarrow> bool" where
  "wf_node (File b) = True"
| "wf_node (Folder es) = (owf es \<and> list_all (\<lambda>e. fst e \<noteq> [] \<and> wf_node (snd e)) es)"

lemma content_simps [simp]:
  "content (File b) [] = Some b"
  "content (File b) (s # p) = None"
  "content (Folder es) [] = None"
  "content (Folder es) (s # p) = (case oget es s of None \<Rightarrow> None | Some m \<Rightarrow> content m p)"
  by (auto simp: content_def split: option.splits)

lemma is_folder_simps [simp]:
  "\<not> is_folder (File b) p"
  "is_folder (Folder es) []"
  "is_folder (Folder es) (s # p) = (case oget es s of None \<Rightarrow> False | Some m \<Rightarrow> is_folder m p)"
  by (cases p; auto simp: is_folder_def split: option.splits)+

lemma stat_append: "stat n (p @ q) = bind_res (stat n p) (\<lambda>m. stat m q)"
  by (induction n p rule: stat.induct) (auto split: option.splits)

lemma content_mkdir: "mkdir n q = Inr n' \<Longrightarrow> content n' p = content n p"
proof (induction n q arbitrary: n' p rule: mkdir.induct)
  case (4 es s q)
  obtain m where m: "mkdir (case oget es s of None \<Rightarrow> Folder [] | Some m \<Rightarrow> m) q = Inr m" "n' = Folder (oset s m es)"
    using "4.prems" by (auto simp: bind_res_Inr_iff)
  have "content m p' = (case oget es s of None \<Rightarrow> None | Some m \<Rightarrow> content m p')" for p'
    using "4.IH"[OF m(1), of p'] by (cases p') (auto split: option.splits)
  then show ?case using m(2) by (cases p) (auto split: option.splits)
qed auto

lemma folder_mkdir: "mkdir n q = Inr n' \<Longrightarrow> is_folder n' p \<longleftrightarrow> is_folder n p \<or> prefix p q"
proof (induction n q arbitrary: n' p rule: mkdir.induct)
  case (4 es s q)
  obtain m where m: "mkdir (case oget es s of None \<Rightarrow> Folder [] | Some m \<Rightarrow> m) q = Inr m" "n' = Folder (oset s m es)"
    using "4.prems" by (auto simp: bind_res_Inr_iff)
  have "is_folder m p' \<longleftrightarrow> (case oget es s of None \<Rightarrow> False | Some m \<Rightarrow> is_folder m p') \<or> prefix p' q" for p'
    using "4.IH"[OF m(1), of p'] by (cases p') (auto split: option.splits)
  then show ?case using m(2) by (cases p) (auto split: option.splits)
qed (auto simp: prefix_Cons split: option.splits)

lemma mkdir_succeeds: "(\<And>p. prefix p q \<Longrightarrow> content n p = None) \<Longrightarrow> \<exists>n'. mkdir n q = Inr n'"
proof (induction n q rule: mkdir.induct)
  case (2 b)
  then show ?case using "2"[of "[]"] by simp
next
  case (3 b s p)
  then show ?case using "3"[of "[]"] by simp
next
  case (4 es s q)
  have "\<exists>m. mkdir (case oget es s of None \<Rightarrow> Folder [] | Some m \<Rightarrow> m) q = Inr m"
  proof (rule "4.IH")
    fix p assume "prefix p q"
    then show "content (case oget es s of None \<Rightarrow> Folder [] | Some m \<Rightarrow> m) p = None"
      using "4.prems"[of "s # p"] by (cases p) (auto split: option.splits)
  qed
  then show ?case by auto
qed simp

lemma content_write: "writeFile b n q = Inr n' \<Longrightarrow> content n' p = (if p = q then Some b else content n p)"
proof (induction b n q arbitrary: n' p rule: writeFile.induct)
  case (4 b es s q)
  then show ?case by (cases p; cases "tl p") (auto simp: bind_res_Inr_iff split: option.splits if_splits)
next
  case (1 b c)
  then show ?case by (cases p) auto
qed auto

lemma folder_write: "writeFile b n q = Inr n' \<Longrightarrow> is_folder n' p = is_folder n p"
proof (induction b n q arbitrary: n' p rule: writeFile.induct)
  case (4 b es s q)
  then show ?case by (cases p) (auto simp: bind_res_Inr_iff split: option.splits if_splits)
qed auto

lemma write_succeeds: "is_folder n (butlast q) \<Longrightarrow> q \<noteq> [] \<Longrightarrow> \<not> is_folder n q \<Longrightarrow> \<exists>n'. writeFile b n q = Inr n'"
proof (induction b n q rule: writeFile.induct)
  case (4 b es s q)
  show ?case
  proof (cases "oget es s")
    case (Some m)
    then show ?thesis using 4 by (cases q; cases m) (auto split: if_splits)
  qed (use 4 in \<open>auto split: if_splits\<close>)
qed auto

lemma content_remove: "remove_node n q = Inr n' \<Longrightarrow> content n' p = (if p = q then None else content n p)"
proof (induction n q arbitrary: n' p rule: remove_node.induct)
  case (3 es s q)
  then show ?case by (cases p; cases "tl p") (auto simp: bind_res_Inr_iff split: option.splits if_splits node.splits list.splits)
qed auto

lemma folder_remove: "remove_node n q = Inr n' \<Longrightarrow> \<not> is_folder n q \<Longrightarrow> is_folder n' p = is_folder n p"
proof (induction n q arbitrary: n' p rule: remove_node.induct)
  case (3 es s q)
  then show ?case by (cases p) (auto simp: bind_res_Inr_iff split: option.splits if_splits node.splits list.splits)
qed auto

lemma remove_file: "content n q = Some b \<Longrightarrow> q \<noteq> [] \<Longrightarrow> \<exists>n'. remove_node n q = Inr n'"
proof (induction n q rule: remove_node.induct)
  case (3 es s q)
  then show ?case by (cases q) (auto split: option.splits node.splits list.splits)
qed auto

lemma remove_missing: "stat n q = Inl e \<Longrightarrow> remove_node n q = Inl e"
proof (induction n q rule: remove_node.induct)
  case (3 es s q)
  then show ?case by (cases q) (auto split: option.splits)
qed auto

lemma stat_cases:
  assumes "\<not> is_folder n q" "\<And>p. strict_prefix p q \<Longrightarrow> content n p = None"
  shows "stat n q = (case content n q of Some b \<Rightarrow> Inr (File b) | None \<Rightarrow> Inl NotFound)"
  using assms
proof (induction n q rule: stat.induct)
  case (1 n)
  then show ?case by (cases n) auto
next
  case (2 b s p)
  then show ?case using "2"(2)[of "[]"] by simp
next
  case (3 es s p)
  show ?case
  proof (cases "oget es s")
    case (Some m)
    have "strict_prefix p' p \<Longrightarrow> content m p' = None" for p' using "3.prems"(2)[of "s # p'"] Some by simp
    then show ?thesis using "3.IH"[OF Some] "3.prems"(1) Some by simp
  qed simp
qed

lemma wf_entry: "wf_node (Folder es) \<Longrightarrow> oget es s = Some m \<Longrightarrow> wf_node m \<and> s \<noteq> []"
  using map_of_SomeD[of es s m] by (auto simp: list_all_iff)

lemma wf_oset: "wf_node (Folder es) \<Longrightarrow> wf_node m \<Longrightarrow> s \<noteq> [] \<Longrightarrow> wf_node (Folder (oset s m es))"
  using oset_set_subset[of s m es] by (auto simp: list_all_iff)

lemma wf_odel: "wf_node (Folder es) \<Longrightarrow> wf_node (Folder (odel s es))"
  by (auto simp: list_all_iff odel_def)

lemma wf_mkdir: "mkdir n q = Inr n' \<Longrightarrow> wf_node n \<Longrightarrow> [] \<notin> set q \<Longrightarrow> wf_node n'"
proof (induction n q arbitrary: n' rule: mkdir.induct)
  case (4 es s q)
  obtain m where m: "mkdir (case oget es s of None \<Rightarrow> Folder [] | Some m \<Rightarrow> m) q = Inr m" "n' = Folder (oset s m es)"
    using "4.prems" by (auto simp: bind_res_Inr_iff)
  have "wf_node (case oget es s of None \<Rightarrow> Folder [] | Some m \<Rightarrow> m)"
    using wf_entry[OF "4.prems"(2)] by (cases "oget es s") simp_all
  then have "wf_node m" using "4.IH"[OF m(1)] "4.prems"(3) by simp
  then show ?case using m(2) wf_oset[OF "4.prems"(2), of m s] "4.prems"(3) by auto
qed auto

lemma wf_write: "writeFile b n q = Inr n' \<Longrightarrow> wf_node n \<Longrightarrow> [] \<notin> set q \<Longrightarrow> wf_node n'"
proof (induction b n q arbitrary: n' rule: writeFile.induct)
  case (4 b es s q)
  then show ?case
    using wf_entry[OF "4.prems"(2)] wf_oset[OF "4.prems"(2)]
    by (auto simp: bind_res_Inr_iff simp del: wf_node.simps(2) split: option.splits if_splits)
qed auto

lemma wf_remove: "remove_node n q = Inr n' \<Longrightarrow> wf_node n \<Longrightarrow> wf_node n'"
proof (induction n q arbitrary: n' rule: remove_node.induct)
  case (3 es s q)
  then show ?case
    using wf_entry[OF "3.prems"(2)] wf_oset[OF "3.prems"(2)] wf_odel[OF "3.prems"(2)]
    by (auto simp: bind_res_Inr_iff simp del: wf_node.simps(2) split: option.splits if_splits node.splits list.splits)
qed auto

section \<open>Keys and paths\<close>

lemma common_length_prefix: "length a \<le> common_length a b \<Longrightarrow> prefix a b"
  unfolding common_length_def
proof (induction a arbitrary: b)
  case (Cons x a)
  then show ?case by (cases b) (auto split: if_splits)
qed simp

lemma common_length_append [simp]: "common_length a (a @ b) = length a"
  unfolding common_length_def by (induction a) simp_all

lemma join_dots: "0 < n \<Longrightarrow> starts_with (join_with ''/'' (replicate n ''..'' @ xs)) ''..''"
  by (cases n; cases "n - 1"; cases xs) (simp_all add: starts_with_def)

lemma getPath_under_root: "getPath c key = Inr p \<Longrightarrow> prefix (rootAbs c) p"
  using join_dots common_length_prefix[of "rootAbs c" p]
  by (fastforce simp: getPath_def Let_def relative_def split: if_splits)

lemma norm_segments_append: "norm_segments acc (xs @ ys) = norm_segments (rev (norm_segments acc xs)) ys"
  by (induction acc xs rule: norm_segments.induct) auto

lemma norm_segments_nonempty: "[] \<notin> set acc \<Longrightarrow> [] \<notin> set (norm_segments acc ss)"
proof (induction acc ss rule: norm_segments.induct)
  case (2 acc s ss)
  then show ?case by (cases acc) auto
qed simp

definition dot_seg :: "string \<Rightarrow> bool" where
  "dot_seg s = (s = [] \<or> s = ''.'' \<or> s = ''..'')"

lemma norm_segments_plain: "list_all (\<lambda>s. \<not> dot_seg s) ss \<Longrightarrow> norm_segments acc ss = rev acc @ ss"
  by (induction acc ss rule: norm_segments.induct) (auto simp: dot_seg_def)

text \<open>Keys that are stored under their own name: no empty or dot segments, nothing that begins with two dots, no escape.\<close>

definition key_path :: "string \<Rightarrow> path" where
  "key_path key = map escape_seg (split_on CHR ''/'' key)"

definition plain_key :: "string \<Rightarrow> bool" where
  "plain_key key =
     (list_all (\<lambda>s. \<not> dot_seg s \<and> \<not> str_includes s ''%3A'') (split_on CHR ''/'' key) \<and> \<not> starts_with key ''..'')"

lemma escape_seg_simps [simp]:
  "escape_seg [] = []" "escape_seg (c # s) = (if c = CHR '':'' then ''%3A'' else [c]) @ escape_seg s"
  by (simp_all add: escape_seg_def)

lemma escape_seg_empty [simp]: "escape_seg s = [] \<longleftrightarrow> s = []"
  by (cases s) auto

lemma escape_seg_dot: "dot_seg (escape_seg s) \<longleftrightarrow> dot_seg s"
  by (cases s; cases "tl s"; cases "tl (tl s)") (auto simp: dot_seg_def)

lemma escape_seg_slash: "CHR ''/'' \<in> set (escape_seg s) \<longleftrightarrow> CHR ''/'' \<in> set s"
  by (induction s) auto

lemma escape_seg_dots: "starts_with (escape_seg s @ t) ''..'' \<Longrightarrow> starts_with s ''..'' \<or> s = [] \<or> s = ''.''"
  by (cases s; cases "tl s") (auto simp: starts_with_iff split: if_splits)

lemma escape_seg_inverse: "\<not> str_includes s ''%3A'' \<Longrightarrow> decoded_name (escape_seg s) = s"
proof (induction s)
  case (Cons c s)
  have "\<not> str_includes s ''%3A''" using Cons.prems by (auto simp: str_includes_def sublist_Cons_right)
  moreover have "take 3 (c # escape_seg s) \<noteq> ''%3A''" if "c \<noteq> CHR '':''"
  proof
    assume "take 3 (c # escape_seg s) = ''%3A''"
    then have "prefix ''%3A'' (c # s)" by (cases s; cases "tl s") (auto split: if_splits)
    then show False using Cons.prems by (auto simp: str_includes_def dest: prefix_imp_sublist)
  qed
  ultimately show ?case using Cons.IH by simp
qed simp

lemma key_path_props:
  assumes "plain_key key"
  shows "key_path key \<noteq> []" "list_all (\<lambda>s. \<not> dot_seg s \<and> CHR ''/'' \<notin> set s) (key_path key)"
    "split_on CHR ''/'' (fs_key key) = key_path key" "join_with ''/'' (map decoded_name (key_path key)) = key"
proof -
  let ?ss = "split_on CHR ''/'' key"
  show ne: "key_path key \<noteq> []" by (simp add: key_path_def)
  have ok: "\<not> dot_seg s \<and> \<not> str_includes s ''%3A'' \<and> CHR ''/'' \<notin> set s" if "s \<in> set ?ss" for s
    using assms that split_on_no_sep by (auto simp: plain_key_def list_all_iff)
  then show all: "list_all (\<lambda>s. \<not> dot_seg s \<and> CHR ''/'' \<notin> set s) (key_path key)"
    by (auto simp: key_path_def list_all_iff escape_seg_dot escape_seg_slash)
  then show "split_on CHR ''/'' (fs_key key) = key_path key"
    using split_join[OF ne, of "CHR ''/''"] by (auto simp: fs_key_def key_path_def list_all_iff)
  have "map decoded_name (key_path key) = ?ss" using ok by (auto simp: key_path_def escape_seg_inverse intro!: map_idI)
  then show "join_with ''/'' (map decoded_name (key_path key)) = key" by (simp add: join_split)
qed

lemma join_with_Cons: "\<exists>t. join_with d (x # xs) = x @ t"
  by (cases xs) auto

lemma getPath_plain:
  assumes "plain_key key"
  shows "getPath c key = Inr (rootAbs c @ key_path key)"
proof -
  let ?t = "resolved_text (cwd c) [rootDir c]"
  obtain s ss where ss: "key_path key = s # ss" using key_path_props(1)[OF assms] by (cases "key_path key") auto
  obtain s0 ss0 where s0: "split_on CHR ''/'' key = s0 # ss0" by (cases "split_on CHR ''/'' key") auto
  have s: "s = escape_seg s0" using ss s0 by (simp add: key_path_def)
  obtain t t0 where t: "fs_key key = s @ t" "key = s0 @ t0"
    using join_with_Cons[of "''/''" s ss] join_with_Cons[of "''/''" s0 ss0] join_split[of "CHR ''/''" key] ss s0
    by (metis fs_key_def key_path_def)
  have ok: "\<not> dot_seg s" "CHR ''/'' \<notin> set s" "\<not> starts_with s0 ''..''" "\<not> dot_seg s0"
    using key_path_props(2)[OF assms] ss assms s0 t(2) by (auto simp: plain_key_def starts_with_iff)
  then have ne: "fs_key key \<noteq> []" "hd (fs_key key) \<noteq> CHR ''/''" using t(1) by (cases s; auto simp: dot_seg_def)+
  have "resolve (cwd c) [rootDir c, fs_key key] = norm_segments [] (split_on CHR ''/'' (?t @ CHR ''/'' # fs_key key))"
    using ne by (simp add: resolve_def)
  also have "\<dots> = rootAbs c @ key_path key"
    using norm_segments_plain[of "key_path key" "rev (rootAbs c)"] key_path_props(2,3)[OF assms]
    by (simp add: split_on_append_sep norm_segments_append rootAbs_def resolve_def list_all_iff)
  finally have r: "resolve (cwd c) [rootDir c, fs_key key] = rootAbs c @ key_path key" .
  have "relative (rootAbs c) (rootAbs c @ key_path key) = fs_key key" by (simp add: relative_def fs_key_def key_path_def)
  moreover have "\<not> starts_with (fs_key key) ''..''"
    using escape_seg_dots[of s0 t] ok(3,4) t(1) s by (auto simp: dot_seg_def)
  moreover have "\<not> starts_with (fs_key key) ''/''" using ne by (auto simp: starts_with_iff)
  ultimately show ?thesis by (simp add: getPath_def r)
qed

section \<open>What a listing walks over\<close>

fun file_paths :: "node \<Rightarrow> path list" where
  "file_paths (File b) = [[]]"
| "file_paths (Folder es) = concat (map (\<lambda>e. map ((#) (fst e)) (file_paths (snd e))) es)"

definition joined :: "string \<Rightarrow> path \<Rightarrow> string" where
  "joined base p =
     (if p = [] then base else if base = [] then join_with ''/'' (map decoded_name p)
      else base @ ''/'' @ join_with ''/'' (map decoded_name p))"

lemma decoded_name_empty [simp]: "decoded_name s = [] \<longleftrightarrow> s = []"
  by (cases s) auto

lemma joined_step:
  "s \<noteq> [] \<Longrightarrow> joined (if base = [] then decoded_name s else base @ ''/'' @ decoded_name s) p = joined base (s # p)"
  by (cases p) (auto simp: joined_def)

lemma walk_file_paths: "wf_node n \<Longrightarrow> walk base n = map (joined base) (file_paths n)"
proof (induction base n rule: walk.induct)
  case (2 base es)
  have "walk (if base = [] then decoded_name (fst e) else base @ ''/'' @ decoded_name (fst e)) (snd e)
      = map (joined base) (map ((#) (fst e)) (file_paths (snd e)))" if "e \<in> set es" for e
    using "2.IH"[OF that] "2.prems" that joined_step[of "fst e" base] by (auto simp: list_all_iff)
  then show ?case by (simp add: map_concat comp_def cong: map_cong)
qed (simp add: joined_def)

lemma file_paths_content: "wf_node n \<Longrightarrow> p \<in> set (file_paths n) \<longleftrightarrow> content n p \<noteq> None"
proof (induction n arbitrary: p rule: file_paths.induct)
  case (1 b)
  then show ?case by (cases p) auto
next
  case (2 es)
  show ?case
  proof (cases p)
    case (Cons s q)
    have mem: "(s, m) \<in> set es \<longleftrightarrow> oget es s = Some m" for m using "2.prems" by (simp add: owf_def)
    have "p \<in> set (file_paths (Folder es)) \<longleftrightarrow> (\<exists>m. (s, m) \<in> set es \<and> q \<in> set (file_paths m))" using Cons by force
    also have "\<dots> \<longleftrightarrow> (\<exists>m. (s, m) \<in> set es \<and> content m q \<noteq> None)"
      using "2.IH" "2.prems" by (fastforce simp: list_all_iff)
    finally show ?thesis using Cons mem by (auto split: option.splits)
  qed auto
qed

lemma distinct_file_paths: "wf_node n \<Longrightarrow> distinct (file_paths n)"
proof (induction n rule: file_paths.induct)
  case (2 es)
  have one: "distinct (map ((#) (fst e)) (file_paths (snd e)))" if "e \<in> set es" for e
    using "2.IH"[OF that] "2.prems" that by (auto simp: distinct_map list_all_iff)
  have "distinct (map fst es)" using "2.prems" by (simp add: owf_def)
  then show ?case using one
  proof (induction es)
    case (Cons e es)
    then show ?case by (auto simp: image_iff)
  qed simp
qed simp

section \<open>The store as a map\<close>

datatype obj_op = OPut string object_data | OGet string | OHead string | ODelete string | OList string "int option" "string option"

datatype obj_result = Etag "string res" | Body "node option res" | Info "(nat \<times> string) option res" | Deleted "unit res"
  | Keys "(string list \<times> string option) res"

fun obj_step :: "(string \<Rightarrow> string) \<Rightarrow> local_fs \<Rightarrow> obj_op \<Rightarrow> node \<Rightarrow> obj_result \<times> node" where
  "obj_step sha c (OPut k d) fs = (case put sha c k d fs of (r, fs') \<Rightarrow> (Etag r, fs'))"
| "obj_step sha c (OGet k) fs = (Body (get c k fs), fs)"
| "obj_step sha c (OHead k) fs = (Info (head sha c k fs), fs)"
| "obj_step sha c (ODelete k) fs = (case delete c k fs of (r, fs') \<Rightarrow> (Deleted r, fs'))"
| "obj_step sha c (OList pre l cur) fs = (Keys (list_objects c pre l cur fs), fs)"

text \<open>The results of a session with a provider.\<close>

fun obj_run :: "(obj_op \<Rightarrow> 's \<Rightarrow> obj_result \<times> 's) \<Rightarrow> obj_op list \<Rightarrow> 's \<Rightarrow> obj_result list" where
  "obj_run step [] s = []"
| "obj_run step (x # xs) s = fst (step x s) # obj_run step xs (snd (step x s))"

fun obj_spec :: "(string \<Rightarrow> string) \<Rightarrow> obj_op \<Rightarrow> (string \<Rightarrow> string option) \<Rightarrow> obj_result \<times> (string \<Rightarrow> string option)" where
  "obj_spec sha (OPut k d) m = (case buffer_of d of Inl e \<Rightarrow> (Etag (Inl e), m) | Inr b \<Rightarrow> (Etag (Inr (sha b)), m(k \<mapsto> b)))"
| "obj_spec sha (OGet k) m = (Body (Inr (map_option File (m k))), m)"
| "obj_spec sha (OHead k) m = (Info (Inr (map_option (\<lambda>b. (length b, sha b)) (m k))), m)"
| "obj_spec sha (ODelete k) m = (Deleted (Inr ()), m(k := None))"
| "obj_spec sha (OList pre l cur) m =
     (Keys (Inr (page (or_default l 100) (after_cursor cur (sorted_list_of_set {k \<in> dom m. starts_with k pre})))), m)"

fun op_key :: "obj_op \<Rightarrow> string option" where
  "op_key (OPut k d) = Some k"
| "op_key (OGet k) = Some k"
| "op_key (OHead k) = Some k"
| "op_key (ODelete k) = Some k"
| "op_key (OList pre l cur) = None"

text \<open>
  The contract of an object provider (\<open>src/primitives/objects/object-provider.ts\<close>) on a set of keys: every operation answers as the map does
  and leaves a state that stands for the map's.
\<close>

locale object_provider =
  fixes step :: "obj_op \<Rightarrow> 's \<Rightarrow> obj_result \<times> 's" and stands :: "'s \<Rightarrow> (string \<Rightarrow> string option) \<Rightarrow> bool"
    and sha :: "string \<Rightarrow> string" and keys :: "string set"
  assumes answers: "stands s m \<Longrightarrow> (\<And>k. op_key x = Some k \<Longrightarrow> k \<in> keys) \<Longrightarrow> fst (step x s) = fst (obj_spec sha x m)"
    and keeps: "stands s m \<Longrightarrow> (\<And>k. op_key x = Some k \<Longrightarrow> k \<in> keys) \<Longrightarrow> stands (snd (step x s)) (snd (obj_spec sha x m))"
begin

lemma session_refines:
  "stands s m \<Longrightarrow> (\<And>x k. x \<in> set ops \<Longrightarrow> op_key x = Some k \<Longrightarrow> k \<in> keys) \<Longrightarrow> obj_run step ops s = obj_run (obj_spec sha) ops m"
proof (induction ops arbitrary: s m)
  case (Cons x ops)
  have k: "k \<in> keys" if "op_key x = Some k" for k using Cons.prems(2)[of x k] that by simp
  have "obj_run step ops (snd (step x s)) = obj_run (obj_spec sha) ops (snd (obj_spec sha x m))"
    by (rule Cons.IH[OF keeps[OF Cons.prems(1) k]]) (use Cons.prems(2) in auto)
  then show ?case using answers[OF Cons.prems(1) k] by simp
qed simp

lemma put_then_get:
  assumes "stands s m" "k \<in> keys" "buffer_of d = Inr b"
  shows "obj_run step [OPut k d, OGet k] s = [Etag (Inr (sha b)), Body (Inr (Some (File b)))]"
  by (subst session_refines[OF assms(1)]) (use assms(2,3) in auto)
end

text \<open>A set of keys of which none is a directory of another.\<close>

definition key_set :: "string set \<Rightarrow> bool" where
  "key_set K = ((\<forall>k\<in>K. plain_key k) \<and> (\<forall>k\<in>K. \<forall>k'\<in>K. \<not> strict_prefix (key_path k) (key_path k')))"

definition represents :: "local_fs \<Rightarrow> string set \<Rightarrow> node \<Rightarrow> (string \<Rightarrow> string option) \<Rightarrow> bool" where
  "represents c K fs m =
     (key_set K \<and> wf_node fs \<and> is_folder fs (rootAbs c) \<and> dom m \<subseteq> K \<and>
      (\<forall>k\<in>K. content fs (rootAbs c @ key_path k) = m k) \<and>
      (\<forall>p. content fs (rootAbs c @ p) \<noteq> None \<longrightarrow> (\<exists>k\<in>K. p = key_path k)) \<and>
      (\<forall>p. is_folder fs (rootAbs c @ p) \<longrightarrow> p = [] \<or> (\<exists>k\<in>K. strict_prefix p (key_path k))))"

lemma key_path_inj: "plain_key k \<Longrightarrow> plain_key k' \<Longrightarrow> key_path k = key_path k' \<Longrightarrow> k = k'"
  by (metis key_path_props(4))

lemma key_path_no_empty: "plain_key k \<Longrightarrow> [] \<notin> set (key_path k)"
  using key_path_props(2)[of k] by (auto simp: list_all_iff dot_seg_def)

lemma rootAbs_no_empty: "[] \<notin> set (rootAbs c)"
  by (simp add: rootAbs_def resolve_def norm_segments_nonempty)

lemma folder_prefix: "is_folder n (p @ q) \<Longrightarrow> content n p = None \<and> is_folder n p"
proof (induction n p rule: stat.induct)
  case (1 n)
  then show ?case by (cases n) auto
qed (auto split: option.splits)

lemma prefix_butlast_strict: "xs \<noteq> [] \<Longrightarrow> prefix p (butlast xs) \<Longrightarrow> strict_prefix p xs"
proof -
  assume ne: "xs \<noteq> []" and p: "prefix p (butlast xs)"
  have "prefix (butlast xs) xs" using append_butlast_last_id[OF ne] by (metis prefixI)
  then have "prefix p xs" using p prefix_order.trans by blast
  moreover have "length p < length xs" using prefix_length_le[OF p] length_greater_0_conv[of xs] ne by (simp, linarith)
  ultimately show ?thesis by (auto simp: strict_prefix_def)
qed

lemma content_under: "is_folder n r \<Longrightarrow> prefix p r \<Longrightarrow> content n p = None"
  using folder_prefix by (metis prefixE)

lemma represents_above:
  assumes "represents c K fs m" "k \<in> K" "strict_prefix p (rootAbs c @ key_path k)"
  shows "content fs p = None"
proof (cases "prefix p (rootAbs c)")
  case True
  then show ?thesis using assms(1) content_under by (auto simp: represents_def)
next
  case False
  then obtain q where q: "p = rootAbs c @ q" using assms(3) by (auto simp: strict_prefix_def prefix_append)
  then have "strict_prefix q (key_path k)" using assms(3) by (simp add: strict_prefix_def)
  then show ?thesis using assms(1,2) q unfolding represents_def key_set_def by metis
qed

lemma represents_no_folder: "represents c K fs m \<Longrightarrow> k \<in> K \<Longrightarrow> \<not> is_folder fs (rootAbs c @ key_path k)"
  using key_path_props(1) unfolding represents_def key_set_def by metis

lemma represents_stat:
  assumes "represents c K fs m" "k \<in> K"
  shows "stat fs (rootAbs c @ key_path k) = (case m k of Some b \<Rightarrow> Inr (File b) | None \<Rightarrow> Inl NotFound)"
  using stat_cases[OF represents_no_folder[OF assms], OF represents_above[OF assms]] assms
  by (simp add: represents_def)

lemma represents_mkdir:
  assumes r: "represents c K fs m" and k: "k \<in> K"
  obtains fs1 where "mkdir fs (butlast (rootAbs c @ key_path k)) = Inr fs1" "represents c K fs1 m"
    "is_folder fs1 (butlast (rootAbs c @ key_path k))"
proof -
  have pk: "plain_key k" using r k by (simp add: represents_def key_set_def)
  note ne = key_path_props(1)[OF pk]
  let ?q = "butlast (rootAbs c @ key_path k)"
  have q: "?q = rootAbs c @ butlast (key_path k)" using ne by (simp add: butlast_append)
  have "strict_prefix p (rootAbs c @ key_path k)" if "prefix p ?q" for p
    using that ne by (intro prefix_butlast_strict) simp_all
  then obtain fs1 where m1: "mkdir fs ?q = Inr fs1"
    using mkdir_succeeds[of ?q fs] represents_above[OF r k] by blast
  have wf: "wf_node fs1"
    using wf_mkdir[OF m1] r key_path_no_empty[OF pk] rootAbs_no_empty by (auto simp: represents_def q dest: in_set_butlastD)
  have fold: "p = [] \<or> (\<exists>k\<in>K. strict_prefix p (key_path k))" if "is_folder fs1 (rootAbs c @ p)" for p
  proof (cases "is_folder fs (rootAbs c @ p)")
    case False
    then have "prefix p (butlast (key_path k))" using that folder_mkdir[OF m1] by (simp add: q)
    then have "strict_prefix p (key_path k)" using ne by (rule prefix_butlast_strict[rotated])
    then show ?thesis using k by auto
  qed (use r in \<open>auto simp: represents_def\<close>)
  have "represents c K fs1 m"
    using r wf fold by (simp add: represents_def content_mkdir[OF m1] folder_mkdir[OF m1])
  then show ?thesis using that m1 folder_mkdir[OF m1] by simp
qed

lemma wf_stat: "wf_node n \<Longrightarrow> stat n p = Inr m \<Longrightarrow> wf_node m"
proof (induction n p rule: stat.induct)
  case (3 es s p)
  then show ?case using wf_entry[OF "3.prems"(1), of s] by (auto split: option.splits)
qed auto

lemma represents_write:
  assumes r: "represents c K fs m" and k: "k \<in> K" and f: "is_folder fs (butlast (rootAbs c @ key_path k))"
  obtains fs2 where "writeFile b fs (rootAbs c @ key_path k) = Inr fs2" "represents c K fs2 (m(k \<mapsto> b))"
proof -
  have pk: "plain_key k'" if "k' \<in> K" for k' using r that by (simp add: represents_def key_set_def)
  obtain fs2 where w: "writeFile b fs (rootAbs c @ key_path k) = Inr fs2"
    using write_succeeds[OF f] represents_no_folder[OF r k] key_path_props(1)[OF pk[OF k]] by auto
  have wf: "wf_node fs2"
    using wf_write[OF w] r key_path_no_empty[OF pk[OF k]] rootAbs_no_empty by (auto simp: represents_def)
  have "key_path k' = key_path k \<longleftrightarrow> k' = k" if "k' \<in> K" for k' using key_path_inj pk k that by blast
  then have "represents c K fs2 (m(k \<mapsto> b))"
    using r k wf by (auto simp: represents_def content_write[OF w] folder_write[OF w])
  then show ?thesis using that w by blast
qed

lemma put_simulates:
  assumes r: "represents c K fs m" and k: "k \<in> K"
  shows "case buffer_of d of
      Inl e \<Rightarrow> \<exists>fs'. put sha c k d fs = (Inl e, fs') \<and> represents c K fs' m
    | Inr b \<Rightarrow> \<exists>fs'. put sha c k d fs = (Inr (sha b), fs') \<and> represents c K fs' (m(k \<mapsto> b))"
proof -
  have gp: "getPath c k = Inr (rootAbs c @ key_path k)" using r k by (intro getPath_plain) (simp add: represents_def key_set_def)
  obtain fs1 where fs1: "mkdir fs (butlast (rootAbs c @ key_path k)) = Inr fs1" "represents c K fs1 m"
    "is_folder fs1 (butlast (rootAbs c @ key_path k))" by (rule represents_mkdir[OF r k])
  show ?thesis
  proof (cases "buffer_of d")
    case (Inl e)
    then show ?thesis using gp fs1 by (simp add: put_def)
  next
    case (Inr b)
    obtain fs2 where "writeFile b fs1 (rootAbs c @ key_path k) = Inr fs2" "represents c K fs2 (m(k \<mapsto> b))"
      by (rule represents_write[OF fs1(2) k fs1(3)])
    then show ?thesis using gp fs1(1) Inr by (simp add: put_def)
  qed
qed

lemma delete_simulates:
  assumes r: "represents c K fs m" and k: "k \<in> K"
  shows "\<exists>fs'. delete c k fs = (Inr (), fs') \<and> represents c K fs' (m(k := None))"
proof -
  have pk: "plain_key k'" if "k' \<in> K" for k' using r that by (simp add: represents_def key_set_def)
  have gp: "getPath c k = Inr (rootAbs c @ key_path k)" using pk[OF k] by (rule getPath_plain)
  show ?thesis
  proof (cases "m k")
    case None
    then have "remove_node fs (rootAbs c @ key_path k) = Inl NotFound"
      using represents_stat[OF r k] by (intro remove_missing) simp
    then show ?thesis using gp r None by (simp add: delete_def fun_upd_idem)
  next
    case (Some b)
    then have "content fs (rootAbs c @ key_path k) = Some b" using r k by (simp add: represents_def)
    then obtain fs' where d: "remove_node fs (rootAbs c @ key_path k) = Inr fs'"
      using remove_file key_path_props(1)[OF pk[OF k]] by blast
    have "key_path k' = key_path k \<longleftrightarrow> k' = k" if "k' \<in> K" for k' using key_path_inj pk k that by blast
    moreover have "wf_node fs'" using wf_remove[OF d] r by (simp add: represents_def)
    ultimately have "represents c K fs' (m(k := None))"
      using r k by (auto simp: represents_def content_remove[OF d] folder_remove[OF d represents_no_folder[OF r k]])
    then show ?thesis using gp d by (simp add: delete_def)
  qed
qed

lemma list_simulates:
  assumes r: "represents c K fs m"
  shows "list_objects c pre l cur fs = Inr (page (or_default l 100) (after_cursor cur (sorted_list_of_set {k \<in> dom m. starts_with k pre})))"
proof -
  obtain es where es: "stat fs (rootAbs c) = Inr (Folder es)"
    using r by (auto simp: represents_def is_folder_def split: sum.splits node.splits)
  have pk: "plain_key k" if "k \<in> K" for k using r that by (simp add: represents_def key_set_def)
  have sub: "content (Folder es) p = content fs (rootAbs c @ p)" for p by (simp add: content_def stat_append es)
  have wf: "wf_node (Folder es)" using wf_stat[OF _ es] r by (simp add: represents_def)
  have mem: "p \<in> set (file_paths (Folder es)) \<longleftrightarrow> (\<exists>k \<in> dom m. p = key_path k)" for p
    using r unfolding file_paths_content[OF wf] sub represents_def by (metis domIff subset_iff)
  have bk: "joined [] (key_path k) = k" if "k \<in> dom m" for k
    using key_path_props[OF pk, of k] r that by (auto simp: joined_def represents_def)
  let ?w = "walk [] (Folder es)"
  have w: "?w = map (joined []) (file_paths (Folder es))" by (rule walk_file_paths[OF wf])
  have "inj_on (joined []) (set (file_paths (Folder es)))" by (rule inj_onI) (metis mem bk)
  then have d: "distinct ?w" using distinct_file_paths[OF wf] unfolding w distinct_map by blast
  have "set (file_paths (Folder es)) = key_path ` dom m" using mem by blast
  then have "set ?w = dom m" unfolding w set_map using bk by (simp add: image_image del: file_paths.simps)
  then have "sort (filter (\<lambda>k. starts_with k pre) ?w) = sorted_list_of_set {k \<in> dom m. starts_with k pre}"
    using d sorted_list_of_set_sort_remdups[of "filter (\<lambda>k. starts_with k pre) ?w"] by (simp add: distinct_remdups_id)
  then show ?thesis by (simp add: list_objects_def all_keys_def es del: walk.simps)
qed

lemma obj_step_simulates:
  assumes "represents c K fs m" "\<And>k. op_key x = Some k \<Longrightarrow> k \<in> K"
  shows "fst (obj_step sha c x fs) = fst (obj_spec sha x m) \<and> represents c K (snd (obj_step sha c x fs)) (snd (obj_spec sha x m))"
proof -
  have gp: "getPath c k = Inr (rootAbs c @ key_path k)" if "k \<in> K" for k
    using assms(1) that by (intro getPath_plain) (simp add: represents_def key_set_def)
  show ?thesis
  proof (cases x)
    case (OPut k d)
    then show ?thesis using put_simulates[OF assms(1), of k sha d] assms(2) by (auto split: sum.splits)
  next
    case (ODelete k)
    then show ?thesis using delete_simulates[OF assms(1), of k] assms(2) by auto
  next
    case (OList pre l cur)
    then show ?thesis using list_simulates[OF assms(1)] assms(1) by simp
  qed (use assms gp represents_stat[OF assms(1)] in \<open>auto simp: get_def head_def split: option.splits\<close>)
qed

interpretation local_objects: object_provider "obj_step sha c" "\<lambda>fs m. represents c K fs m" sha K for sha c K
proof
  fix fs m x
  assume "represents c K fs m" "\<And>k. op_key x = Some k \<Longrightarrow> k \<in> K"
  then show "fst (obj_step sha c x fs) = fst (obj_spec sha x m)" "represents c K (snd (obj_step sha c x fs)) (snd (obj_spec sha x m))"
    using obj_step_simulates by blast+
qed

section \<open>Correctness of the store\<close>

text \<open>
  C31: No key reaches outside the root directory: whatever the key, a put and a delete leave every file elsewhere as it is, and what get, head
  and list return depends only on the tree below the root.
\<close>

theorem keys_stay_under_root:
  shows "(\<forall>q. \<not> prefix (rootAbs c) q \<longrightarrow>
       content (snd (put sha c key d fs)) q = content fs q \<and> content (snd (delete c key fs)) q = content fs q) \<and>
     (stat fs (rootAbs c) = stat fs' (rootAbs c) \<longrightarrow>
       get c key fs = get c key fs' \<and> head sha c key fs = head sha c key fs' \<and>
       list_objects c pre limit cursor fs = list_objects c pre limit cursor fs')"
proof (intro conjI impI allI)
  fix q assume q: "\<not> prefix (rootAbs c) q"
  have "p \<noteq> q" if "getPath c key = Inr p" for p using getPath_under_root[OF that] q by auto
  then show "content (snd (put sha c key d fs)) q = content fs q" "content (snd (delete c key fs)) q = content fs q"
    by (auto simp: put_def delete_def content_mkdir content_write content_remove bind_res_Inr_iff split: sum.splits)
next
  assume eq: "stat fs (rootAbs c) = stat fs' (rootAbs c)"
  have "stat fs p = stat fs' p" if "getPath c key = Inr p" for p
    using getPath_under_root[OF that] eq by (auto simp: prefix_def stat_append)
  then have b: "bind_res (getPath c key) (stat fs) = bind_res (getPath c key) (stat fs')" by (cases "getPath c key") auto
  show "get c key fs = get c key fs'" "head sha c key fs = head sha c key fs'" by (simp_all add: get_def head_def b)
  show "list_objects c pre limit cursor fs = list_objects c pre limit cursor fs'" by (simp add: list_objects_def all_keys_def eq)
qed


lemma position_nth: "position x xs = Some i \<Longrightarrow> i < length xs \<and> xs ! i = x"
  by (induction x xs arbitrary: i rule: position.induct) (auto split: if_splits)

lemma after_cursor_above:
  assumes "sorted_wrt (<) xs" "cur \<noteq> []"
  shows "after_cursor (Some cur) xs = filter (\<lambda>k. cur < k) xs"
proof (cases "position cur xs")
  case (Some i)
  then have "i < length xs" "xs ! i = cur" using position_nth by fast+
  then show ?thesis using filter_above_drop[of id xs "i + 1"] assms Some by (simp add: after_cursor_def)
qed (use assms in \<open>simp add: after_cursor_def\<close>)

fun follow_pages :: "nat \<Rightarrow> local_fs \<Rightarrow> string \<Rightarrow> int \<Rightarrow> string option \<Rightarrow> node \<Rightarrow> string list option" where
  "follow_pages 0 c pre limit cursor fs = None"
| "follow_pages (Suc n) c pre limit cursor fs =
     (case list_objects c pre (Some limit) cursor fs of
        Inl e \<Rightarrow> None
      | Inr (keys, None) \<Rightarrow> Some keys
      | Inr (keys, Some cur) \<Rightarrow> map_option ((@) keys) (follow_pages n c pre limit (Some cur) fs))"

lemma follow_pages_suffix:
  assumes r: "represents c K fs m" and l: "0 < limit"
    and L: "L = sorted_list_of_set {k \<in> dom m. starts_with k pre}"
  shows "\<lbrakk>after_cursor cursor L = drop i L; i \<le> length L; length L - i < n\<rbrakk>
    \<Longrightarrow> follow_pages n c pre limit cursor fs = Some (drop i L)"
proof (induction n arbitrary: cursor i)
  case (Suc n)
  have srt: "sorted_wrt (<) L" by (simp add: L)
  have ne: "k \<noteq> []" if "k \<in> set L" for k
  proof -
    have "k \<in> dom m" using that unfolding L by (cases "finite {k \<in> dom m. starts_with k pre}") auto
    then have "plain_key k" using r by (auto simp: represents_def key_set_def)
    then show ?thesis by (auto simp: plain_key_def dot_seg_def)
  qed
  let ?keys = "take (nat limit) (drop i L)"
  have lst: "list_objects c pre (Some limit) cursor fs = Inr (page limit (drop i L))"
    using list_simulates[OF r] Suc.prems(1) by (simp add: L)
  show ?case
  proof (cases "limit < int (length (drop i L))")
    case False
    then show ?thesis using lst l by (simp add: page_def slice_to_def)
  next
    case True
    define j where "j = i + nat limit"
    have j: "j < length L" "0 < j" "length ?keys = nat limit" using True l by (auto simp: j_def)
    have cur: "last ?keys = L ! (j - 1)" "?keys \<noteq> []"
      using j l by (auto simp: last_conv_nth j_def)
    have "after_cursor (Some (L ! (j - 1))) L = drop j L"
      using after_cursor_above[OF srt ne] filter_above_drop[of id L j] srt j by simp
    then have "follow_pages n c pre limit (Some (L ! (j - 1))) fs = Some (drop j L)"
      using Suc.prems(2,3) j l by (intro Suc.IH) (auto simp: j_def)
    moreover have "?keys @ drop j L = drop i L" by (metis append_take_drop_id drop_drop j_def add.commute)
    ultimately show ?thesis using lst True l cur by (simp add: page_def slice_to_def Let_def)
  qed
qed simp

text \<open>
  Following the cursors of a listing visits every stored key with the prefix once, in order, whatever the page size; and a listing that
  resumes at any cursor, one whose key is gone included, returns the keys above it.
\<close>

theorem object_pages_complete:
  assumes "represents c K fs m" "finite (dom m)" "0 < limit" "cur \<noteq> []"
  shows "follow_pages (card (dom m) + 1) c pre limit None fs = Some (sorted_list_of_set {k \<in> dom m. starts_with k pre}) \<and>
    list_objects c pre (Some limit) (Some cur) fs = Inr (page limit (sorted_list_of_set {k \<in> dom m. starts_with k pre \<and> cur < k}))"
proof
  let ?S = "{k \<in> dom m. starts_with k pre}"
  have "card ?S \<le> card (dom m)" using assms(2) by (intro card_mono) auto
  then show "follow_pages (card (dom m) + 1) c pre limit None fs = Some (sorted_list_of_set ?S)"
    using follow_pages_suffix[OF assms(1,3) refl, of None pre 0 "card (dom m) + 1"]
    by (simp add: after_cursor_def)
  have "filter (\<lambda>k. cur < k) (sorted_list_of_set ?S) = sorted_list_of_set (set (filter (\<lambda>k. cur < k) (sorted_list_of_set ?S)))"
    by (rule sorted_list_of_set.idem_if_sorted_distinct[symmetric]) (simp_all add: sorted_filter[of id, simplified])
  also have "\<dots> = sorted_list_of_set {k \<in> dom m. starts_with k pre \<and> cur < k}"
    using assms(2) by (auto intro!: arg_cong[where f = sorted_list_of_set])
  finally show "list_objects c pre (Some limit) (Some cur) fs = Inr (page limit (sorted_list_of_set {k \<in> dom m. starts_with k pre \<and> cur < k}))"
    using list_simulates[OF assms(1)] after_cursor_above[of "sorted_list_of_set ?S" cur] assms(4) by simp
qed

section \<open>Presigned URLs are exact\<close>

lemma takeWhile_name: "CHR ''='' \<notin> set n \<Longrightarrow> takeWhile (\<lambda>c. c \<noteq> CHR ''='') (n @ CHR ''='' # v) = n \<and>
    dropWhile (\<lambda>c. c \<noteq> CHR ''='') (n @ CHR ''='' # v) = CHR ''='' # v"
  by (induction n) auto

text \<open>What percent decoding is known to do, and the texts it and the form rules leave alone.\<close>

definition decodes_plain :: "url_platform \<Rightarrow> bool" where
  "decodes_plain P = (\<forall>s. CHR ''%'' \<notin> set s \<longrightarrow> percent_decode P s = s)"

definition query_safe :: "string \<Rightarrow> bool" where
  "query_safe s = (s \<noteq> [] \<and> CHR ''%'' \<notin> set s \<and> CHR ''&'' \<notin> set s)"

lemma form_value_plain: "decodes_plain P \<Longrightarrow> CHR ''%'' \<notin> set s \<Longrightarrow> form_value P s = map (\<lambda>c. if c = CHR ''+'' then CHR '' '' else c) s"
proof -
  assume "decodes_plain P" "CHR ''%'' \<notin> set s"
  moreover from this(2) have "CHR ''%'' \<notin> set (map (\<lambda>c. if c = CHR ''+'' then CHR '' '' else c) s)" by auto
  ultimately show ?thesis unfolding form_value_def decodes_plain_def by blast
qed

lemma searchParam_presigned:
  assumes "decodes_plain P" "query_safe token" "query_safe sig"
  shows "searchParam P (presigned_query token sig) ''token'' = Some (map (\<lambda>c. if c = CHR ''+'' then CHR '' '' else c) token)"
    "searchParam P (presigned_query token sig) ''sig'' = Some (map (\<lambda>c. if c = CHR ''+'' then CHR '' '' else c) sig)"
proof -
  have q: "presigned_query token sig = (''token'' @ CHR ''='' # token) @ CHR ''&'' # (''sig'' @ CHR ''='' # sig)"
    by (simp add: presigned_query_def)
  have "split_on CHR ''&'' (presigned_query token sig) = [''token'' @ CHR ''='' # token, ''sig'' @ CHR ''='' # sig]"
    unfolding q using assms(2,3) by (intro split_on_two) (auto simp: query_safe_def)
  then have "query_pairs P (presigned_query token sig) =
      [(''token'', map (\<lambda>c. if c = CHR ''+'' then CHR '' '' else c) token), (''sig'', map (\<lambda>c. if c = CHR ''+'' then CHR '' '' else c) sig)]"
    using takeWhile_name[of "''token''" token] takeWhile_name[of "''sig''" sig] assms
    by (simp add: query_pairs_def form_value_plain query_safe_def)
  then show "searchParam P (presigned_query token sig) ''token'' = Some (map (\<lambda>c. if c = CHR ''+'' then CHR '' '' else c) token)"
    "searchParam P (presigned_query token sig) ''sig'' = Some (map (\<lambda>c. if c = CHR ''+'' then CHR '' '' else c) sig)"
    using assms(2,3) by (auto simp: searchParam_def query_safe_def split: list.splits)
qed

text \<open>The digest has no collisions and a token is read back as the payload it was made from.\<close>

definition platform_ok :: "url_platform \<Rightarrow> bool" where
  "platform_ok P =
     (inj (sha256 P) \<and> decodes_plain P \<and>
      (\<forall>p. payload_of P (token_of P p) =
         Some (JObj [(''key'', JStr (tp_key p)), (''method'', JStr (tp_method p)), (''expiresAt'', JNum (Fin (of_int (tp_expiresAt p))))])))"

lemma signature_inj: "platform_ok P \<Longrightarrow> signature P c t = signature P c t' \<longleftrightarrow> t = t'"
  by (auto simp: platform_ok_def signature_def dest: injD)

lemma verify_issued:
  assumes "platform_ok P" "presign P env c issued key opts = Inr (url0, expiresAt)"
    "token = token_of P \<lparr>tp_key = key, tp_method = po_method opts, tp_expiresAt = expiresAt\<rparr>"
    "url_parts P url = Some (pathname, query)" "searchParam P query ''sig'' = Some (signature P c token)"
  shows "verifyPresignedUrl P c now url expected \<longleftrightarrow>
    searchParam P query ''token'' = Some token \<and> now \<le> expiresAt \<and> requested_key pathname = Inr key \<and>
    (case set_text expected of None \<Rightarrow> True | Some m \<Rightarrow> m = po_method opts)"
proof (cases "searchParam P query ''token''")
  case (Some t)
  have "payload_of P token =
      Some (JObj [(''key'', JStr key), (''method'', JStr (po_method opts)), (''expiresAt'', JNum (Fin (of_int expiresAt)))])"
    using assms(1,3) by (simp add: platform_ok_def)
  then show ?thesis
    using Some assms(4,5) signature_inj[OF assms(1)]
    by (auto simp: verifyPresignedUrl_def payload_admits_def split: sum.splits option.splits)
qed (use assms(4) in \<open>simp add: verifyPresignedUrl_def\<close>)

text \<open>A token with a plus sign, which base64 has, is read back with a space: the URL is refused.\<close>

lemma plus_token_refused:
  assumes "platform_ok P" "url_parts P url = Some (pathname, presigned_query token (signature P c token))"
    "query_safe token" "query_safe (signature P c token)" "CHR ''+'' \<in> set token" "CHR ''+'' \<notin> set (signature P c token)"
  shows "\<not> verifyPresignedUrl P c now url expected"
proof -
  have d: "decodes_plain P" using assms(1) by (simp add: platform_ok_def)
  let ?t = "map (\<lambda>c. if c = CHR ''+'' then CHR '' '' else c) token"
  have "CHR ''+'' \<notin> set ?t" by auto
  then have "?t \<noteq> token" using assms(5) by metis
  moreover have "map (\<lambda>c. if c = CHR ''+'' then CHR '' '' else c) (signature P c token) = signature P c token"
    using assms(6) by (auto intro!: map_idI)
  ultimately show ?thesis
    using searchParam_presigned[OF d assms(3,4)] assms(2) signature_inj[OF assms(1), of c token ?t]
    by (simp add: verifyPresignedUrl_def)
qed

text \<open>An issued URL is accepted when the parser leaves its path and query as they are.\<close>

lemma presigned_url_accepted:
  assumes "platform_ok P" "presign P env c issued key opts = Inr (url, expiresAt)"
    "token = token_of P \<lparr>tp_key = key, tp_method = po_method opts, tp_expiresAt = expiresAt\<rparr>"
    "url_parts P url = Some (''/local-fs/'' @ encodeURIComponent key, presigned_query token (signature P c token))"
    "query_safe token" "query_safe (signature P c token)" "CHR ''+'' \<notin> set token" "CHR ''+'' \<notin> set (signature P c token)" "now \<le> expiresAt"
  shows "verifyPresignedUrl P c now url (Some (po_method opts))"
proof -
  have d: "decodes_plain P" using assms(1) by (simp add: platform_ok_def)
  have "map (\<lambda>c. if c = CHR ''+'' then CHR '' '' else c) s = s" if "CHR ''+'' \<notin> set s" for s using that by (auto intro!: map_idI)
  note sp = searchParam_presigned[OF d assms(5,6), unfolded this[OF assms(7)] this[OF assms(8)]]
  have "requested_key (''/local-fs/'' @ encodeURIComponent key) = Inr key" by (simp add: requested_key_def decode_encode starts_with_def)
  then show ?thesis using verify_issued[OF assms(1-4) sp(2)] sp(1) assms(9) by simp
qed

section \<open>Examples\<close>

definition demo_fs :: local_fs where
  "demo_fs = \<lparr>cwd = ''/srv'', rootDir = ''data'', hmacSecret = ''k''\<rparr>"

definition demo_tree :: node where
  "demo_tree = Folder [(''srv'', Folder [(''data'', Folder []), (''secret'', File ''s'')])]"

lemma keys_stay_under_root_witness:
  "content (snd (put id demo_fs ''../secret'' (Buffer ''x'') demo_tree)) [''srv'', ''secret''] = Some ''s'' \<and>
   content (snd (delete demo_fs ''/srv/secret'' demo_tree)) [''srv'', ''secret''] = Some ''s''"
proof -
  have "\<not> prefix (rootAbs demo_fs) [''srv'', ''secret'']" "content demo_tree [''srv'', ''secret''] = Some ''s''" by code_simp+
  then show ?thesis
    using keys_stay_under_root[of demo_fs id "''../secret''" "Buffer ''x''" demo_tree, THEN conjunct1]
      keys_stay_under_root[of demo_fs id "''/srv/secret''" "Buffer ''x''" demo_tree, THEN conjunct1] by auto
qed

definition demo_keys :: "string set" where
  "demo_keys = {''a/b'', ''a/c:1'', ''d''}"

lemma represents_empty:
  assumes "key_set K" "wf_node fs" "stat fs (rootAbs c) = Inr (Folder [])"
  shows "represents c K fs Map.empty"
proof -
  have "stat fs (rootAbs c @ p) = (if p = [] then Inr (Folder []) else Inl NotFound)" for p
    using assms(3) by (cases p) (simp_all add: stat_append)
  then have "content fs (rootAbs c @ p) = None" "is_folder fs (rootAbs c @ p) \<longleftrightarrow> p = []" for p
    by (simp_all add: content_def is_folder_def)
  then show ?thesis using assms by (simp add: represents_def is_folder_def)
qed

lemma demo_represents: "represents demo_fs demo_keys demo_tree Map.empty"
proof (rule represents_empty)
  have "key_path ''a/b'' = [''a'', ''b'']" "key_path ''a/c:1'' = [''a'', ''c%3A1'']" "key_path ''d'' = [''d'']"
    "plain_key ''a/b''" "plain_key ''a/c:1''" "plain_key ''d''" by code_simp+
  then show "key_set demo_keys" unfolding key_set_def demo_keys_def by simp
qed code_simp+


lemma object_pages_complete_witness:
  "follow_pages 1 demo_fs ''a/'' 1 None demo_tree = Some [] \<and> list_objects demo_fs ''a/'' (Some 1) (Some ''a/b'') demo_tree = Inr ([], None)"
  using object_pages_complete[OF demo_represents, of 1 "''a/b''" "''a/''"] by (simp add: page_def slice_to_def)

text \<open>A key that contains the escape is listed, and found, under another name; a key that begins with two dots is refused.\<close>

lemma escaped_key_is_confused:
  "list_objects demo_fs [] None None (snd (put id demo_fs ''x%3Ay'' (Buffer ''1'') demo_tree)) = Inr ([''x:y''], None) \<and>
   get demo_fs ''x:y'' (snd (put id demo_fs ''x%3Ay'' (Buffer ''1'') demo_tree)) = Inr (Some (File ''1''))"
  by code_simp

lemma dotted_key_is_refused:
  "getPath demo_fs ''..notes'' = Inl (throw_rf VALIDATION_FAILED ''Path traversal detected: path escapes root directory'')"
  by code_simp

definition demo_token :: "token_payload \<Rightarrow> string" where
  "demo_token p = join_with ''/'' [encodeURIComponent (tp_key p), encodeURIComponent (tp_method p),
     if tp_expiresAt p < 0 then ''m'' else ''p'', nat_str (nat \<bar>tp_expiresAt p\<bar>)]"

definition demo_payload :: "string \<Rightarrow> jsval option" where
  "demo_payload t =
     (case split_on CHR ''/'' t of
        [k, m, s, n] \<Rightarrow>
          (case (decodeURIComponent k, decodeURIComponent m, parseInt n 10) of
             (Inr k', Inr m', Some e) \<Rightarrow>
               Some (JObj [(''key'', JStr k'), (''method'', JStr m'), (''expiresAt'', JNum (Fin (of_int (if s = ''m'' then - e else e))))])
           | _ \<Rightarrow> None)
      | _ \<Rightarrow> None)"

definition demo_platform :: url_platform where
  "demo_platform = \<lparr>sha256 = id, token_of = demo_token, payload_of = demo_payload,
     url_parts = (\<lambda>u. if u = ''ok'' then Some (''/local-fs/a'', presigned_query ''a/GET/p/7'' ''a/GET/p/7:k'') else None), percent_decode = id\<rparr>"

lemma demo_payload_inverse: "demo_payload (demo_token p) =
    Some (JObj [(''key'', JStr (tp_key p)), (''method'', JStr (tp_method p)), (''expiresAt'', JNum (Fin (of_int (tp_expiresAt p))))])"
proof -
  let ?ps = "[encodeURIComponent (tp_key p), encodeURIComponent (tp_method p), if tp_expiresAt p < 0 then ''m'' else ''p'', nat_str (nat \<bar>tp_expiresAt p\<bar>)]"
  have "CHR ''/'' \<notin> set x" if "x \<in> set ?ps" for x using that encode_no_slash nat_str_chars by (auto split: if_splits)
  then have "split_on CHR ''/'' (demo_token p) = ?ps" unfolding demo_token_def using split_join[of ?ps "CHR ''/''"] by blast
  then show ?thesis by (simp add: demo_payload_def decode_encode)
qed

lemma demo_platform_ok: "platform_ok demo_platform"
  by (simp add: platform_ok_def decodes_plain_def demo_platform_def demo_payload_inverse)

definition demo_env :: origin_env where
  "demo_env = \<lparr>RAILFOG_PUBLIC_URL = Some ''https://x/'', RAILFOG_RUNTIME_URL = None, RAILWAY_PUBLIC_DOMAIN = None\<rparr>"

end
