(* ===== verification/LocalBindings.thy ===== *)
theory LocalBindings
  imports OperationCounter KvStore LocalFs
begin

text \<open>
  The bindings of the local isolation provider (the first half of \<open>src/runtime/sandbox/local-isolation.ts\<close>):
  the KV binding over the store of a tenant, with its builder and the optional replica, the object binding
  over the local file system, and the queue binding. Every operation is counted by the tracker of its invocation.

  The store of a tenant is shared by its invocations, the versions belong to one binding. Keys are lists of
  strings; the map of the code is indexed by their JSON texts, which determine them. The replica is a parameter.

  Shown: within one binding the builder keeps the compare-and-set contract; the versions of another binding are
  not seen, so that updates are lost between invocations; what is stored is what is read.
\<close>

section \<open>The KV binding\<close>

datatype kv_key = KPath "string list" | KName string

fun normalizeKey :: "kv_key \<Rightarrow> string list" where
  "normalizeKey (KPath p) = p"
| "normalizeKey (KName s) = [s]"

text \<open>\<open>JSON.stringify\<close> on a list of strings.\<close>

definition json_char :: "char \<Rightarrow> string" where
  "json_char c =
     (let n = code c; bs = char_of (92 :: nat) in
      if n = 34 \<or> n = 92 then [bs, c]
      else if n = 8 then [bs, CHR ''b'']
      else if n = 9 then [bs, CHR ''t'']
      else if n = 10 then [bs, CHR ''n'']
      else if n = 12 then [bs, CHR ''f'']
      else if n = 13 then [bs, CHR ''r'']
      else if n < 32 then bs # ''u00'' @ map lower_char (tl (escape_byte n))
      else [c])"

definition json_string :: "string \<Rightarrow> string" where
  "json_string s = char_of (34 :: nat) # concat (map json_char s) @ [char_of (34 :: nat)]"

definition json_list :: "string list \<Rightarrow> string" where
  "json_list ss = ''['' @ join_with '','' (map json_string ss) @ '']''"

type_synonym kv_map = "(string list, jsval) omap"

record 'r replica =
  rp_get :: "string list \<Rightarrow> 'r \<Rightarrow> jsval res"
  rp_set :: "string list \<Rightarrow> jsval \<Rightarrow> int option \<Rightarrow> 'r \<Rightarrow> 'r"
  rp_delete :: "string list \<Rightarrow> 'r \<Rightarrow> 'r"
  rp_list :: "string list \<Rightarrow> 'r \<Rightarrow> (string list \<times> jsval \<times> int) list res"

record kv_binding =
  kb_tracker :: InvocationTracker
  kb_versions :: "(string list, int) omap"
  kb_org :: "string option"
  kb_project :: "string option"

record 'r kv_world =
  kw_store :: kv_map
  kw_replica :: 'r

definition toRedisKey :: "kv_binding \<Rightarrow> kv_key \<Rightarrow> string list" where
  "toRedisKey b key = [or_default (kb_org b) ''default-org'', or_default (kb_project b) ''default-proj''] @ normalizeKey key"

definition versionOf :: "kv_binding \<Rightarrow> string list \<Rightarrow> int" where
  "versionOf b k = or_default (oget (kb_versions b) k) 0"

definition createMockKvBinding :: "InvocationTracker \<Rightarrow> string option \<Rightarrow> string option \<Rightarrow> kv_binding" where
  "createMockKvBinding t org project = \<lparr>kb_tracker = t, kb_versions = [], kb_org = org, kb_project = project\<rparr>"

definition counted_kv :: "kv_binding \<Rightarrow> kv_binding res" where
  "counted_kv b = bind_res (recordKvOp (kb_tracker b)) (\<lambda>t. Inr (b\<lparr>kb_tracker := t\<rparr>))"

definition nullish :: "jsval \<Rightarrow> jsval" where
  "nullish v = (if v = JUndef then JNull else v)"

text \<open>A string is also looked up as the text of a stored key.\<close>

fun raw_lookup :: "kv_key \<Rightarrow> kv_map \<Rightarrow> jsval option" where
  "raw_lookup (KPath p) m = None"
| "raw_lookup (KName s) m = map_option snd (find (\<lambda>e. json_list (fst e) = s) m)"

definition binding_get :: "'r replica option \<Rightarrow> kv_binding \<Rightarrow> kv_key \<Rightarrow> 'r kv_world \<Rightarrow> (jsval \<times> kv_binding) res" where
  "binding_get R b key w =
     bind_res (counted_kv b) (\<lambda>b'.
       Inr (case or_else (oget (kw_store w) (normalizeKey key)) (raw_lookup key (kw_store w)) of
              Some v \<Rightarrow> nullish v
            | None \<Rightarrow>
                (case R of
                   None \<Rightarrow> JNull
                 | Some r \<Rightarrow> (case rp_get r (toRedisKey b key) (kw_replica w) of Inl e \<Rightarrow> JNull | Inr v \<Rightarrow> nullish v)), b'))"

definition replicate_set :: "'r replica option \<Rightarrow> kv_binding \<Rightarrow> kv_key \<Rightarrow> jsval \<Rightarrow> int option \<Rightarrow> 'r kv_world \<Rightarrow> 'r kv_world" where
  "replicate_set R b key v ttl w =
     (case R of None \<Rightarrow> w | Some r \<Rightarrow> w\<lparr>kw_replica := rp_set r (toRedisKey b key) v ttl (kw_replica w)\<rparr>)"

definition replicate_delete :: "'r replica option \<Rightarrow> kv_binding \<Rightarrow> kv_key \<Rightarrow> 'r kv_world \<Rightarrow> 'r kv_world" where
  "replicate_delete R b key w =
     (case R of None \<Rightarrow> w | Some r \<Rightarrow> w\<lparr>kw_replica := rp_delete r (toRedisKey b key) (kw_replica w)\<rparr>)"

definition binding_set ::
  "'r replica option \<Rightarrow> kv_binding \<Rightarrow> kv_key \<Rightarrow> jsval \<Rightarrow> int option \<Rightarrow> 'r kv_world \<Rightarrow> (kv_binding \<times> 'r kv_world) res" where
  "binding_set R b key v ttl w =
     bind_res (counted_kv b) (\<lambda>b'.
       let k = normalizeKey key in
       Inr (b'\<lparr>kb_versions := oset k (versionOf b k + 1) (kb_versions b)\<rparr>,
            replicate_set R b key v ttl (w\<lparr>kw_store := oset k v (kw_store w)\<rparr>)))"

definition binding_delete :: "'r replica option \<Rightarrow> kv_binding \<Rightarrow> kv_key \<Rightarrow> 'r kv_world \<Rightarrow> (kv_binding \<times> 'r kv_world) res" where
  "binding_delete R b key w =
     bind_res (counted_kv b) (\<lambda>b'.
       let k = normalizeKey key in
       Inr (b'\<lparr>kb_versions := oset k 0 (kb_versions b)\<rparr>,
            replicate_delete R b key (w\<lparr>kw_store := odel k (kw_store w)\<rparr>)))"

text \<open>\<open>prefixArr.every((seg, idx) => parsed[idx] === seg)\<close>; the replica is asked when nothing is found.\<close>

definition under_prefix :: "string list \<Rightarrow> string list \<Rightarrow> bool" where
  "under_prefix pre k = prefix pre k"

definition binding_list ::
  "'r replica option \<Rightarrow> kv_binding \<Rightarrow> kv_key \<Rightarrow> 'r kv_world \<Rightarrow> ((string list \<times> jsval \<times> int) list \<times> kv_binding) res" where
  "binding_list R b pre w =
     bind_res (counted_kv b) (\<lambda>b'.
       let keys = map (\<lambda>(k, v). (k, v, versionOf b k)) (filter (\<lambda>(k, v). under_prefix (normalizeKey pre) k) (kw_store w)) in
       Inr (case R of
              None \<Rightarrow> keys
            | Some r \<Rightarrow>
                if keys \<noteq> [] then keys
                else (case rp_list r (toRedisKey b pre) (kw_replica w) of
                        Inl e \<Rightarrow> keys
                      | Inr es \<Rightarrow> if es = [] then keys else map (\<lambda>(k, v, n). (drop 2 k, v, n)) es), b'))"

section \<open>The builder\<close>

datatype pending = PSet "string list" jsval | PDelete "string list"

fun pending_key :: "pending \<Rightarrow> string list" where
  "pending_key (PSet k v) = k"
| "pending_key (PDelete k) = k"

record kv_builder =
  pendingChecks :: "(string list \<times> int) list"
  pendingMutations :: "pending list"

definition newAtomicBuilder :: kv_builder where
  "newAtomicBuilder = \<lparr>pendingChecks = [], pendingMutations = []\<rparr>"

definition push_check :: "string list \<Rightarrow> int \<Rightarrow> kv_builder \<Rightarrow> kv_builder" where
  "push_check k e a = a\<lparr>pendingChecks := pendingChecks a @ [(k, e)]\<rparr>"

definition push_mutation :: "pending \<Rightarrow> kv_builder \<Rightarrow> kv_builder" where
  "push_mutation m a = a\<lparr>pendingMutations := pendingMutations a @ [m]\<rparr>"

definition builder_check :: "kv_key \<Rightarrow> int \<Rightarrow> kv_binding \<Rightarrow> kv_builder \<Rightarrow> (kv_binding \<times> kv_builder) res" where
  "builder_check key e b a = bind_res (counted_kv b) (\<lambda>b'. Inr (b', push_check (normalizeKey key) e a))"

text \<open>The replica is written when the builder is filled, not when it commits.\<close>

definition builder_set ::
  "'r replica option \<Rightarrow> kv_key \<Rightarrow> jsval \<Rightarrow> int option \<Rightarrow> kv_binding \<Rightarrow> kv_builder \<Rightarrow> 'r kv_world \<Rightarrow> (kv_binding \<times> kv_builder \<times> 'r kv_world) res" where
  "builder_set R key v ttl b a w =
     bind_res (counted_kv b) (\<lambda>b'. Inr (b', push_mutation (PSet (normalizeKey key) v) a, replicate_set R b key v ttl w))"

definition builder_delete ::
  "'r replica option \<Rightarrow> kv_key \<Rightarrow> kv_binding \<Rightarrow> kv_builder \<Rightarrow> 'r kv_world \<Rightarrow> (kv_binding \<times> kv_builder \<times> 'r kv_world) res" where
  "builder_delete R key b a w =
     bind_res (counted_kv b) (\<lambda>b'. Inr (b', push_mutation (PDelete (normalizeKey key)) a, replicate_delete R b key w))"

fun apply_pending :: "pending list \<Rightarrow> kv_binding \<Rightarrow> kv_map \<Rightarrow> kv_binding \<times> kv_map" where
  "apply_pending [] b m = (b, m)"
| "apply_pending (p # ps) b m =
     apply_pending ps (b\<lparr>kb_versions := oset (pending_key p) (versionOf b (pending_key p) + 1) (kb_versions b)\<rparr>)
       (case p of PSet k v \<Rightarrow> oset k v m | PDelete k \<Rightarrow> odel k m)"

definition builder_commit :: "kv_builder \<Rightarrow> kv_binding \<Rightarrow> kv_map \<Rightarrow> commit_result \<times> kv_binding \<times> kv_map" where
  "builder_commit a b m =
     (if list_ex (\<lambda>(k, e). versionOf b k \<noteq> e) (pendingChecks a)
      then (\<lparr>commit_ok = False, commit_version = None\<rparr>, b, m)
      else
        let (b', m') = apply_pending (pendingMutations a) b m in
        (\<lparr>commit_ok = True,
          commit_version = (if pendingMutations a = [] then None else Some (versionOf b' (pending_key (last (pendingMutations a)))))\<rparr>, b', m'))"

section \<open>The object binding\<close>

text \<open>
  What may be stored: bytes, a text, a stream, or any other value by its JSON text, which may be missing or fail to be made.
\<close>

datatype put_arg = PutBytes string | PutText string | PutStream "char read list" | PutJson "string option res"

definition utf8_bytes :: "string \<Rightarrow> string" where
  "utf8_bytes s = concat (map (\<lambda>c. if code c < 128 then [c] else [char_of (192 + code c div 64), char_of (128 + code c mod 64)]) s)"

fun put_data :: "put_arg \<Rightarrow> object_data res" where
  "put_data (PutBytes b) = Inr (Buffer b)"
| "put_data (PutText t) = Inr (Buffer (utf8_bytes t))"
| "put_data (PutStream rs) = Inr (Reads rs)"
| "put_data (PutJson j) = bind_res j (\<lambda>t. Inr (Buffer (utf8_bytes (or_default t []))))"

text \<open>Every error of the provider is swallowed; a put reports a made-up tag.\<close>

definition binding_put ::
  "(string \<Rightarrow> string) \<Rightarrow> local_fs option \<Rightarrow> string \<Rightarrow> InvocationTracker \<Rightarrow> string \<Rightarrow> put_arg \<Rightarrow> node \<Rightarrow>
   (string \<times> InvocationTracker \<times> node) res" where
  "binding_put sha c ulid t key data fs =
     bind_res (recordObjectOp t) (\<lambda>t'.
       let mock = ''etag-'' @ ulid in
       Inr (case c of
              None \<Rightarrow> (mock, t', fs)
            | Some c' \<Rightarrow>
                (case put_data data of
                   Inl e \<Rightarrow> (mock, t', fs)
                 | Inr d \<Rightarrow> (case put sha c' key d fs of (Inl e, fs') \<Rightarrow> (mock, t', fs') | (Inr etag, fs') \<Rightarrow> (etag, t', fs')))))"

definition swallowed :: "'a \<Rightarrow> local_fs option \<Rightarrow> (local_fs \<Rightarrow> 'a res) \<Rightarrow> 'a" where
  "swallowed d c f = (case c of None \<Rightarrow> d | Some c' \<Rightarrow> (case f c' of Inl e \<Rightarrow> d | Inr v \<Rightarrow> v))"

definition binding_get_object :: "local_fs option \<Rightarrow> InvocationTracker \<Rightarrow> string \<Rightarrow> node \<Rightarrow> (node option \<times> InvocationTracker) res" where
  "binding_get_object c t key fs =
     bind_res (recordObjectOp t) (\<lambda>t'. Inr (swallowed None c (\<lambda>c'. get c' key fs), t'))"

definition binding_delete_object :: "local_fs option \<Rightarrow> InvocationTracker \<Rightarrow> string \<Rightarrow> node \<Rightarrow> (InvocationTracker \<times> node) res" where
  "binding_delete_object c t key fs =
     bind_res (recordObjectOp t) (\<lambda>t'. Inr (t', case c of None \<Rightarrow> fs | Some c' \<Rightarrow> snd (delete c' key fs)))"

definition binding_head ::
  "(string \<Rightarrow> string) \<Rightarrow> local_fs option \<Rightarrow> InvocationTracker \<Rightarrow> string \<Rightarrow> node \<Rightarrow> ((nat \<times> string) option \<times> InvocationTracker) res" where
  "binding_head sha c t key fs =
     bind_res (recordObjectOp t) (\<lambda>t'. Inr (swallowed None c (\<lambda>c'. head sha c' key fs), t'))"

definition binding_list_objects :: "local_fs option \<Rightarrow> InvocationTracker \<Rightarrow> string \<Rightarrow> node \<Rightarrow> (string list \<times> InvocationTracker) res" where
  "binding_list_objects c t pre fs =
     bind_res (recordObjectOp t) (\<lambda>t'.
       Inr (swallowed [] c (\<lambda>c'. bind_res (list_objects c' pre None None fs) (\<lambda>r. Inr (fst r))), t'))"

definition binding_presign ::
  "url_platform \<Rightarrow> origin_env \<Rightarrow> local_fs option \<Rightarrow> int \<Rightarrow> InvocationTracker \<Rightarrow> string \<Rightarrow> string option \<Rightarrow> int option \<Rightarrow>
   ((string \<times> int) \<times> InvocationTracker) res" where
  "binding_presign P env c now t key method expiresIn =
     bind_res (recordObjectOp t) (\<lambda>t'.
       Inr (swallowed (''https://mock.storage/'' @ key, now + 3600000) c
              (\<lambda>c'. presign P env c' now key
                 \<lparr>po_method = or_default method ''GET'', po_expiresIn = Some (or_default expiresIn 3600), po_maxExpiresIn = None\<rparr>), t'))"

definition binding_multipart :: "string \<Rightarrow> InvocationTracker \<Rightarrow> (string \<times> InvocationTracker) res" where
  "binding_multipart ulid t = bind_res (recordObjectOp t) (\<lambda>t'. Inr (''mp-'' @ ulid, t'))"

section \<open>The queue binding\<close>

definition MAX_QUEUE_DELAY_SECONDS :: jsnum where
  "MAX_QUEUE_DELAY_SECONDS = Fin 900"

record dispatched =
  dp_queue :: string
  dp_body :: jsval
  dp_project :: string
  dp_id :: string
  dp_delay :: jsnum

text \<open>An options object that has a property \<open>delay\<close>.\<close>

fun delay_of :: "jsval \<Rightarrow> jsval option" where
  "delay_of (JObj fs) =
     (case map_of fs ''delay'' of None \<Rightarrow> None | Some JUndef \<Rightarrow> Some (JNum (Fin 0)) | Some JNull \<Rightarrow> Some (JNum (Fin 0)) | Some v \<Rightarrow> Some v)"
| "delay_of _ = None"

definition send_target :: "string \<Rightarrow> jsval \<Rightarrow> jsval \<Rightarrow> jsval \<Rightarrow> string \<times> jsval \<times> jsval" where
  "send_target dflt arg1 arg2 arg3 =
     (case arg1 of
        JStr q \<Rightarrow>
          if arg2 \<noteq> JUndef then (q, arg2, or_default (delay_of arg3) (JNum (Fin 0)))
          else (dflt, arg1, or_default (delay_of arg2) (JNum (Fin 0)))
      | _ \<Rightarrow> (dflt, arg1, or_default (delay_of arg2) (JNum (Fin 0))))"

fun valid_delay :: "jsval \<Rightarrow> jsnum option" where
  "valid_delay (JNum n) = (if num_finite n \<and> \<not> num_less n (Fin 0) \<and> \<not> num_less MAX_QUEUE_DELAY_SECONDS n then Some n else None)"
| "valid_delay _ = None"

text \<open>The promise returned, the tracker and what is handed to the dispatcher; the project is absent when there is no dispatcher or no project.\<close>

definition queue_send ::
  "string option \<Rightarrow> string \<Rightarrow> string \<Rightarrow> jsval \<Rightarrow> jsval \<Rightarrow> jsval \<Rightarrow> InvocationTracker \<Rightarrow> (string res \<times> InvocationTracker \<times> dispatched list) res" where
  "queue_send project dflt ulid arg1 arg2 arg3 t =
     bind_res (recordQueueOp t) (\<lambda>t'.
       let mid = ''msg-'' @ ulid; (queue, body, delay) = send_target dflt arg1 arg2 arg3 in
       Inr (case valid_delay delay of
              None \<Rightarrow>
                (Inl (throw_rf VALIDATION_FAILED
                   ''VALIDATION_FAILED: Delay must be a non-negative number <= 900s. Use a schedule trigger instead per FN-2''), t', [])
            | Some n \<Rightarrow>
                (Inr mid, t',
                 case project of
                   None \<Rightarrow> []
                 | Some p \<Rightarrow> [\<lparr>dp_queue = queue, dp_body = body, dp_project = p, dp_id = mid, dp_delay = n\<rparr>])))"

definition queue_sendBatch ::
  "string option \<Rightarrow> string \<Rightarrow> string list \<Rightarrow> jsval list \<Rightarrow> InvocationTracker \<Rightarrow> (string list \<times> InvocationTracker \<times> dispatched list) res" where
  "queue_sendBatch project dflt ulids bodies t =
     bind_res (recordQueueOp t) (\<lambda>t'.
       let ids = map (\<lambda>u. ''msg-'' @ u) (take (length bodies) ulids) in
       Inr (ids, t',
            case project of
              None \<Rightarrow> []
            | Some p \<Rightarrow> map2 (\<lambda>b i. \<lparr>dp_queue = dflt, dp_body = b, dp_project = p, dp_id = i, dp_delay = Fin 0\<rparr>) bodies ids))"

section \<open>Versions within one binding\<close>

lemma versionOf_set [simp]: "versionOf (b\<lparr>kb_versions := oset k n (kb_versions b)\<rparr>) k' = (if k' = k then n else versionOf b k')"
  by (simp add: versionOf_def)

definition touches :: "pending list \<Rightarrow> string list \<Rightarrow> nat" where
  "touches ps k = length (filter (\<lambda>p. pending_key p = k) ps)"

fun effect_on :: "pending list \<Rightarrow> string list \<Rightarrow> jsval option \<Rightarrow> jsval option" where
  "effect_on [] k v = v"
| "effect_on (PSet k' v' # ps) k v = effect_on ps k (if k = k' then Some v' else v)"
| "effect_on (PDelete k' # ps) k v = effect_on ps k (if k = k' then None else v)"

lemma apply_pending_effect:
  "versionOf (fst (apply_pending ps b m)) k = versionOf b k + int (touches ps k) \<and>
   oget (snd (apply_pending ps b m)) k = effect_on ps k (oget m k)"
proof (induction ps arbitrary: b m)
  case (Cons p ps)
  then show ?case by (cases p) (auto simp: touches_def)
qed (simp add: touches_def)

text \<open>
  A commit is all or nothing and exact: it succeeds if and only if every checked key has the version expected of it in this binding; then every
  key holds what the last mutation of it says and its version has grown by the number of its mutations, and otherwise nothing changes.
\<close>

theorem binding_commit_exact:
  "(commit_ok (fst (builder_commit a b m)) \<longleftrightarrow> list_all (\<lambda>(k, e). versionOf b k = e) (pendingChecks a)) \<and>
   (if commit_ok (fst (builder_commit a b m))
    then versionOf (fst (snd (builder_commit a b m))) k = versionOf b k + int (touches (pendingMutations a) k) \<and>
      oget (snd (snd (builder_commit a b m))) k = effect_on (pendingMutations a) k (oget m k)
    else snd (builder_commit a b m) = (b, m))"
  using apply_pending_effect[of "pendingMutations a" b m k]
  by (auto simp: builder_commit_def list_ex_iff list_all_iff Let_def split: prod.splits)

type_synonym kv_cell = "kv_binding \<times> kv_map"

definition cell_read :: "kv_cell \<Rightarrow> int \<Rightarrow> string list \<Rightarrow> jsval option" where
  "cell_read s now k = oget (snd s) k"

definition cell_version :: "kv_cell \<Rightarrow> int \<Rightarrow> string list \<Rightarrow> int" where
  "cell_version s now k = versionOf (fst s) k"

definition cell_cas :: "kv_cell \<Rightarrow> int \<Rightarrow> string list \<Rightarrow> int \<Rightarrow> jsval \<Rightarrow> bool \<times> kv_cell" where
  "cell_cas s now k e v =
     (case builder_commit (push_mutation (PSet k v) (push_check k e newAtomicBuilder)) (fst s) (snd s) of
        (r, b, m) \<Rightarrow> (commit_ok r, (b, m)))"

definition cell_ok :: "kv_cell \<Rightarrow> bool" where
  "cell_ok s = (\<forall>k. 0 \<le> versionOf (fst s) k \<and> (versionOf (fst s) k = 0 \<longleftrightarrow> oget (snd s) k = None))"

lemma cell_cas_eq:
  "cell_cas s now k e v =
     (if versionOf (fst s) k = e
      then (True, ((fst s)\<lparr>kb_versions := oset k (e + 1) (kb_versions (fst s))\<rparr>, oset k v (snd s))) else (False, s))"
  by (simp add: cell_cas_def builder_commit_def push_mutation_def push_check_def newAtomicBuilder_def)

interpretation binding_cas: cas_store cell_read cell_version cell_cas cell_ok "\<lambda>_. True"
proof (unfold_locales, goal_cases)
  case (7 s k t e v)
  then have "0 \<le> versionOf (fst s) k" by (simp add: cell_ok_def)
  then have "versionOf (fst s) k + 1 \<noteq> 0" by linarith
  moreover from 7 have "\<And>k. 0 \<le> versionOf (fst s) k \<and> (versionOf (fst s) k = 0 \<longleftrightarrow> oget (snd s) k = None)"
    by (auto simp: cell_ok_def)
  ultimately show ?case by (auto simp: cell_cas_eq cell_ok_def)
qed (auto simp: cell_cas_eq cell_read_def cell_version_def cell_ok_def split: if_splits)

lemma fresh_cell_ok: "cell_ok (createMockKvBinding t org project, [])"
  by (simp add: cell_ok_def createMockKvBinding_def versionOf_def)

text \<open>Within one binding over an empty store at most one of several writers that expect the same version wins.\<close>

lemma binding_race: "sorted (map fst cs) \<Longrightarrow>
    length (filter (\<lambda>x. x) (race cell_cas (createMockKvBinding t org project, []) k e cs)) \<le> 1"
  by (rule binding_cas.race_one_winner[OF fresh_cell_ok]) simp_all

section \<open>Versions between bindings\<close>

text \<open>Another invocation of the tenant has a binding of its own, in which every key still has version 0: its checks say nothing about the store.\<close>

lemma fresh_binding_overwrites:
  "builder_commit (push_mutation (PSet k v) (push_check k 0 newAtomicBuilder)) (createMockKvBinding t org project) m =
     (\<lparr>commit_ok = True, commit_version = Some 1\<rparr>,
      (createMockKvBinding t org project)\<lparr>kb_versions := [(k, 1)]\<rparr>, oset k v m)"
  by (simp add: builder_commit_def push_mutation_def push_check_def newAtomicBuilder_def createMockKvBinding_def versionOf_def)

lemma fresh_binding_refuses:
  "0 < e \<Longrightarrow> \<not> commit_ok (fst (builder_commit (push_mutation (PSet k v) (push_check k e newAtomicBuilder)) (createMockKvBinding t org project) m))"
  by (simp add: builder_commit_def push_mutation_def push_check_def newAtomicBuilder_def createMockKvBinding_def versionOf_def)

text \<open>A key deleted by a commit is absent but does not have version 0.\<close>

lemma committed_delete_keeps_version:
  assumes "versionOf b k = e" "0 \<le> e"
  shows "case builder_commit (push_mutation (PDelete k) (push_check k e newAtomicBuilder)) b m of
    (r, b', m') \<Rightarrow> commit_ok r \<and> oget m' k = None \<and> versionOf b' k = e + 1"
  using assms by (simp add: builder_commit_def push_mutation_def push_check_def newAtomicBuilder_def)

text \<open>A string key that is the JSON text of another key reads that key.\<close>

definition demo_world :: "unit kv_world" where
  "demo_world = \<lparr>kw_store = [([''a''], JBool True)], kw_replica = ()\<rparr>"

definition demo_kv_binding :: kv_binding where
  "demo_kv_binding = createMockKvBinding
     (createInvocationTracker \<lparr>l_maxKvOps = None, l_maxObjectOps = None, l_maxQueueOps = None, l_maxLogBytes = None, l_maxCallDepth = None\<rparr>) None None"

lemma string_key_reads_another:
  "map_sum id fst (binding_get None demo_kv_binding (KName (json_list [''a''])) demo_world) = Inr (JBool True)"
  by code_simp

section \<open>Sending\<close>

text \<open>
  A message that is not a text, or is sent without options, goes to the queue of the binding with the delay of its options; with a delay that is
  not a number from 0 to 900 nothing is sent and the promise is rejected. Either way one queue operation is counted, and none is allowed above the limit.
\<close>

theorem queue_send_exact:
  assumes "recordQueueOp t = Inr t'" "(\<forall>s. msg \<noteq> JStr s) \<or> opts = JUndef"
  shows "queue_send (Some p) dflt ulid msg opts rest t =
    Inr (case valid_delay (or_default (delay_of opts) (JNum (Fin 0))) of
           Some n \<Rightarrow> (Inr (''msg-'' @ ulid), t',
             [\<lparr>dp_queue = dflt, dp_body = msg, dp_project = p, dp_id = ''msg-'' @ ulid, dp_delay = n\<rparr>])
         | None \<Rightarrow> (Inl (throw_rf VALIDATION_FAILED
             ''VALIDATION_FAILED: Delay must be a non-negative number <= 900s. Use a schedule trigger instead per FN-2''), t', []))"
proof -
  have "send_target dflt msg opts rest = (dflt, msg, or_default (delay_of opts) (JNum (Fin 0)))"
    using assms(2) by (cases msg) (auto simp: send_target_def)
  then show ?thesis using assms(1) by (simp add: queue_send_def Let_def split: option.splits)
qed

lemma queue_send_exact_witness:
  "queue_send (Some ''p'') ''q'' ''1'' JNull (JObj [(''delay'', JNum (Fin 900))]) JUndef (kb_tracker demo_kv_binding) =
     Inr (Inr ''msg-1'', (kb_tracker demo_kv_binding)\<lparr>queueOps := 1\<rparr>,
       [\<lparr>dp_queue = ''q'', dp_body = JNull, dp_project = ''p'', dp_id = ''msg-1'', dp_delay = Fin 900\<rparr>]) \<and>
   map_sum id fst (queue_send (Some ''p'') ''q'' ''1'' JNull (JObj [(''delay'', JNum (Fin 901))]) JUndef (kb_tracker demo_kv_binding)) =
     Inr (Inl (throw_rf VALIDATION_FAILED
       ''VALIDATION_FAILED: Delay must be a non-negative number <= 900s. Use a schedule trigger instead per FN-2''))"
proof -
  have t: "recordQueueOp (kb_tracker demo_kv_binding) = Inr ((kb_tracker demo_kv_binding)\<lparr>queueOps := 1\<rparr>)" by code_simp
  show ?thesis
    by (subst queue_send_exact[OF t], simp, subst queue_send_exact[OF t], simp, simp add: MAX_QUEUE_DELAY_SECONDS_def)
qed

text \<open>A text that is sent with options is taken for the name of a queue, the options for the message, and the delay is lost.\<close>

lemma text_message_is_misrouted:
  "map_sum id (\<lambda>r. snd (snd r)) (queue_send (Some ''p'') ''default'' ''1'' (JStr ''hello'') (JObj [(''delay'', JNum (Fin 60))]) JUndef (kb_tracker demo_kv_binding)) =
   Inr [\<lparr>dp_queue = ''hello'', dp_body = JObj [(''delay'', JNum (Fin 60))], dp_project = ''p'', dp_id = ''msg-1'', dp_delay = Fin 0\<rparr>]"
  by code_simp

text \<open>A put that is refused, here because the key leaves the root, still reports a tag.\<close>

lemma refused_put_reports_a_tag:
  "map_sum id fst (binding_put id (Some demo_fs) ''1'' (kb_tracker demo_kv_binding) ''../x'' (PutText ''y'') demo_tree) = Inr ''etag-1''"
  by code_simp
end
