(* ===== verification/LocalIsolation.thy ===== *)
theory LocalIsolation
  imports LocalBindings Secrets
begin

text \<open>
  The local isolation provider (the second half of \<open>src/runtime/sandbox/local-isolation.ts\<close>): the tuple a function is
  identified by, the pool of warm instances, the loading of modules, the secrets and the context of an
  invocation, and the run of a handler with its outcome.

  Loading is split at its awaits (the bytes of the artifact, the write of the file, the import), so that loads
  interleave. A module is what the import of a source text gives, a parameter, and a module that has been
  imported once is not read again. What a handler does is a parameter of \<open>run\<close>.

  Shown: in every interleaving a warm instance runs the code of its own tuple, as long as the file names of
  different tuples differ, and how tuples are mixed up when they do not; the pool is bounded by the limit and the
  number of loads in flight; an invocation sees only secrets that are declared and stored for its tenant; every
  failure of a handler is answered with its error.
\<close>

section \<open>The tuple of a function\<close>

datatype code_source = CodeBytes string | CodeStream "char read list" | NoCode

record 'b custom_context =
  cu_kv :: "'b option"
  cu_objects :: "'b option"
  cu_queues :: "'b option"

record 'b local_artifact =
  af_project :: "string option"
  af_projectName :: "string option"
  af_function :: "string option"
  af_functionName :: "string option"
  af_orgId :: "string option"
  af_org :: "string option"
  af_revision :: "string option"
  af_revisionId :: "string option"
  af_id :: "string option"
  af_entrypoint :: string
  af_code :: code_source
  af_secrets :: jsval
  af_context :: "'b custom_context option"

record local_invocation =
  iv_requestId :: string
  iv_method :: "string option"
  iv_url :: "string option"
  iv_headers :: "(string \<times> string) list"
  iv_body :: "string option"

record FunctionRevisionTuple =
  ft_orgId :: "string option"
  ft_project :: string
  ft_functionName :: string
  ft_revision :: string

definition getHeader :: "(string \<times> string) list \<Rightarrow> string \<Rightarrow> string option" where
  "getHeader headers name = map_option snd (find (\<lambda>e. to_lower (fst e) = to_lower name) headers)"

definition base_name :: "string \<Rightarrow> string" where
  "base_name p =
     (let t = strip_slashes p in if t = [] then (if p = [] then [] else ''/'') else last (split_on CHR ''/'' t))"

text \<open>\<open>replace(/\.[^/.]+$/, "")\<close>.\<close>

definition strip_extension :: "string \<Rightarrow> string" where
  "strip_extension s =
     (case last_index_of CHR ''.'' s of
        None \<Rightarrow> s
      | Some i \<Rightarrow> if drop (i + 1) s \<noteq> [] \<and> CHR ''/'' \<notin> set (drop (i + 1) s) then take i s else s)"

definition extractMetadata :: "string option \<Rightarrow> 'b local_artifact \<Rightarrow> local_invocation option \<Rightarrow> FunctionRevisionTuple" where
  "extractMetadata configuredOrgId a iv =
     (let header = (\<lambda>n. case iv of None \<Rightarrow> None | Some i \<Rightarrow> getHeader (iv_headers i) n) in
      \<lparr>ft_orgId = or_else (af_orgId a) (or_else (af_org a) (or_else (header ''x-railfog-org'')
         (or_else (header ''x-railfog-org-id'') configuredOrgId))),
       ft_project = or_default (or_else (af_project a) (or_else (af_projectName a) (header ''x-railfog-project''))) ''default'',
       ft_functionName = or_default (or_else (af_function a) (or_else (af_functionName a) (header ''x-railfog-function'')))
         (if af_entrypoint a \<noteq> [] then strip_extension (base_name (af_entrypoint a)) else ''default''),
       ft_revision = or_default (or_else (af_revision a) (or_else (af_revisionId a) (or_else (header ''x-railfog-revision'') (af_id a)))) ''latest''\<rparr>)"

text \<open>The cache key is the JSON text of this list, which determines it.\<close>

definition cache_key :: "FunctionRevisionTuple \<Rightarrow> string list" where
  "cache_key m = [or_default (ft_orgId m) [], ft_project m, ft_functionName m, ft_revision m]"

definition safe_char :: "char \<Rightarrow> char" where
  "safe_char c =
     (if is_digit c \<or> 65 \<le> code c \<and> code c \<le> 90 \<or> 97 \<le> code c \<and> code c \<le> 122 \<or> c = CHR ''_'' \<or> c = CHR ''-'' then c else CHR ''_'')"

definition safe_base :: "FunctionRevisionTuple \<Rightarrow> string" where
  "safe_base m = join_with ''_'' (map (map safe_char) (cache_key m))"

definition file_name :: "FunctionRevisionTuple \<Rightarrow> nat \<Rightarrow> string" where
  "file_name m gen = safe_base m @ ''_gen'' @ nat_str gen @ ''.ts''"

fun joined_reads :: "char read list \<Rightarrow> string \<Rightarrow> string res" where
  "joined_reads [] acc = Inr acc"
| "joined_reads (ReadFails e # rs) acc = Inl e"
| "joined_reads (NoValue # rs) acc = joined_reads rs acc"
| "joined_reads (Chunk c # rs) acc = joined_reads rs (acc @ c)"

definition getArtifactCodeBytes :: "(string \<Rightarrow> string option) \<Rightarrow> 'b local_artifact \<Rightarrow> string res" where
  "getArtifactCodeBytes readFile a =
     (case af_code a of
        CodeBytes b \<Rightarrow>
          if b \<noteq> [] then Inr b
          else if af_entrypoint a \<noteq> [] then Inr (or_default (readFile (af_entrypoint a)) b)
          else Inr b
      | CodeStream rs \<Rightarrow> joined_reads rs []
      | NoCode \<Rightarrow> Inr [])"

section \<open>The pool of warm instances\<close>

record 'h warm_instance =
  wi_handler :: 'h
  wi_lastUsed :: int
  wi_count :: nat
  wi_file :: string

datatype load_stage = Reading | Writing string string | Importing string

record 'b module_load =
  ld_meta :: FunctionRevisionTuple
  ld_artifact :: "'b local_artifact"
  ld_stage :: load_stage

record ('h, 'b) warm_pool =
  warmInstances :: "(string list, 'h warm_instance) omap"
  fileGeneration :: nat
  tempFiles :: "(string, string) omap"
  modules :: "(string, 'h option) omap"
  loads :: "(nat, 'b module_load) omap"

definition empty_pool :: "('h, 'b) warm_pool" where
  "empty_pool = \<lparr>warmInstances = [], fileGeneration = 0, tempFiles = [], modules = [], loads = []\<rparr>"

definition getWarmCount :: "('h, 'b) warm_pool \<Rightarrow> nat" where
  "getWarmCount s = length (warmInstances s)"

definition clearWarm :: "('h, 'b) warm_pool \<Rightarrow> ('h, 'b) warm_pool" where
  "clearWarm s = s\<lparr>warmInstances := [], fileGeneration := fileGeneration s + 1\<rparr>"

text \<open>The least recently used entry, the first one among equals.\<close>

fun oldest :: "(string list \<times> 'h warm_instance) list \<Rightarrow> (string list \<times> int) option \<Rightarrow> string list option" where
  "oldest [] best = map_option fst best"
| "oldest ((k, i) # es) best =
     oldest es (case best of None \<Rightarrow> Some (k, wi_lastUsed i) | Some (k0, t0) \<Rightarrow> if wi_lastUsed i < t0 then Some (k, wi_lastUsed i) else best)"

definition evicted :: "nat option \<Rightarrow> (string list, 'h warm_instance) omap \<Rightarrow> (string list, 'h warm_instance) omap" where
  "evicted maxWarm w =
     (case maxWarm of
        None \<Rightarrow> w
      | Some mx \<Rightarrow> if mx \<le> length w then (case oldest w None of None \<Rightarrow> w | Some k \<Rightarrow> odel k w) else w)"

text \<open>Up to the first await: a hit is returned, a miss makes room and counts the generation.\<close>

definition begin_load :: "nat option \<Rightarrow> int \<Rightarrow> string list \<Rightarrow> ('h, 'b) warm_pool \<Rightarrow> 'h option \<times> ('h, 'b) warm_pool" where
  "begin_load maxWarm now key s =
     (case oget (warmInstances s) key of
        Some i \<Rightarrow> (Some (wi_handler i), s\<lparr>warmInstances := oset key (i\<lparr>wi_lastUsed := now, wi_count := wi_count i + 1\<rparr>) (warmInstances s)\<rparr>)
      | None \<Rightarrow> (None, s\<lparr>warmInstances := evicted maxWarm (warmInstances s), fileGeneration := fileGeneration s + 1\<rparr>))"

text \<open>The import of a path: an error text, or a module with or without a default export that is a function.\<close>

definition import_module :: "(string \<Rightarrow> string + 'h option) \<Rightarrow> string \<Rightarrow> ('h, 'b) warm_pool \<Rightarrow> (string + 'h option) \<times> ('h, 'b) warm_pool" where
  "import_module evaluate path s =
     (case oget (modules s) path of
        Some md \<Rightarrow> (Inr md, s)
      | None \<Rightarrow>
          (case oget (tempFiles s) path of
             None \<Rightarrow> (Inl ''Module not found'', s)
           | Some src \<Rightarrow>
               (case evaluate src of Inl e \<Rightarrow> (Inl e, s) | Inr md \<Rightarrow> (Inr md, s\<lparr>modules := oset path md (modules s)\<rparr>))))"

definition loaded :: "(string + 'h option) \<Rightarrow> 'h res" where
  "loaded r =
     (case r of
        Inl e \<Rightarrow> Inl (throw_rf VALIDATION_FAILED (''Failed to load function module: '' @ e))
      | Inr None \<Rightarrow> Inl (throw_rf VALIDATION_FAILED ''Function module must export a default handler function'')
      | Inr (Some h) \<Rightarrow> Inr h)"

definition finish_load :: "string list \<Rightarrow> string \<Rightarrow> int \<Rightarrow> 'h \<Rightarrow> ('h, 'b) warm_pool \<Rightarrow> ('h, 'b) warm_pool" where
  "finish_load key path now h s =
     s\<lparr>warmInstances := oset key \<lparr>wi_handler = h, wi_lastUsed = now, wi_count = 1, wi_file = path\<rparr> (warmInstances s)\<rparr>"

text \<open>One load without interruption.\<close>

definition getOrCreateWarmInstance ::
  "nat option \<Rightarrow> (string \<Rightarrow> string option) \<Rightarrow> (string \<Rightarrow> string + 'h option) \<Rightarrow> int \<Rightarrow> FunctionRevisionTuple \<Rightarrow> 'b local_artifact \<Rightarrow>
   ('h, 'b) warm_pool \<Rightarrow> 'h res \<times> ('h, 'b) warm_pool" where
  "getOrCreateWarmInstance maxWarm readFile evaluate now m a s =
     (case begin_load maxWarm now (cache_key m) s of
        (Some h, s1) \<Rightarrow> (Inr h, s1)
      | (None, s1) \<Rightarrow>
          (case getArtifactCodeBytes readFile a of
             Inl e \<Rightarrow> (Inl e, s1)
           | Inr bytes \<Rightarrow>
               let path = file_name m (fileGeneration s1);
                   (r, s2) = import_module evaluate path (s1\<lparr>tempFiles := oset path bytes (tempFiles s1)\<rparr>) in
               (case loaded r of Inl e \<Rightarrow> (Inl e, s2) | Inr h \<Rightarrow> (Inr h, finish_load (cache_key m) path now h s2))))"

definition prewarm ::
  "nat option \<Rightarrow> string option \<Rightarrow> (string \<Rightarrow> string option) \<Rightarrow> (string \<Rightarrow> string + 'h option) \<Rightarrow> int \<Rightarrow> 'b local_artifact \<Rightarrow>
   ('h, 'b) warm_pool \<Rightarrow> unit res \<times> ('h, 'b) warm_pool" where
  "prewarm maxWarm configuredOrgId readFile evaluate now a s =
     (let m = extractMetadata configuredOrgId a None; key = cache_key m in
      if oget (warmInstances s) key \<noteq> None then (Inr (), s)
      else
        (case getOrCreateWarmInstance maxWarm readFile evaluate now m a s of
           (Inl e, s') \<Rightarrow> (Inl e, s')
         | (Inr h, s') \<Rightarrow>
             (Inr (), case oget (warmInstances s') key of
                None \<Rightarrow> s' | Some i \<Rightarrow> s'\<lparr>warmInstances := oset key (i\<lparr>wi_count := 0\<rparr>) (warmInstances s')\<rparr>)))"

text \<open>Loads that interleave: the file is named when the bytes have arrived, with the generation of that moment.\<close>

datatype 'b load_event = Begin nat FunctionRevisionTuple "'b local_artifact" int | BytesRead nat | Written nat | Imported nat int

fun pool_step ::
  "nat option \<Rightarrow> (string \<Rightarrow> string option) \<Rightarrow> (string \<Rightarrow> string + 'h option) \<Rightarrow> 'b load_event \<Rightarrow> ('h, 'b) warm_pool \<Rightarrow> ('h, 'b) warm_pool" where
  "pool_step mx rf ev (Begin i m a now) s =
     (if oget (loads s) i \<noteq> None then s
      else (case begin_load mx now (cache_key m) s of
              (Some h, s1) \<Rightarrow> s1
            | (None, s1) \<Rightarrow> s1\<lparr>loads := oset i \<lparr>ld_meta = m, ld_artifact = a, ld_stage = Reading\<rparr> (loads s1)\<rparr>))"
| "pool_step mx rf ev (BytesRead i) s =
     (case oget (loads s) i of
        Some l \<Rightarrow>
          (case ld_stage l of
             Reading \<Rightarrow>
               (case getArtifactCodeBytes rf (ld_artifact l) of
                  Inl e \<Rightarrow> s\<lparr>loads := odel i (loads s)\<rparr>
                | Inr b \<Rightarrow> s\<lparr>loads := oset i (l\<lparr>ld_stage := Writing (file_name (ld_meta l) (fileGeneration s)) b\<rparr>) (loads s)\<rparr>)
           | _ \<Rightarrow> s)
      | None \<Rightarrow> s)"
| "pool_step mx rf ev (Written i) s =
     (case oget (loads s) i of
        Some l \<Rightarrow>
          (case ld_stage l of
             Writing path b \<Rightarrow> s\<lparr>tempFiles := oset path b (tempFiles s), loads := oset i (l\<lparr>ld_stage := Importing path\<rparr>) (loads s)\<rparr>
           | _ \<Rightarrow> s)
      | None \<Rightarrow> s)"
| "pool_step mx rf ev (Imported i now) s =
     (case oget (loads s) i of
        Some l \<Rightarrow>
          (case ld_stage l of
             Importing path \<Rightarrow>
               (case import_module ev path (s\<lparr>loads := odel i (loads s)\<rparr>) of
                  (r, s1) \<Rightarrow> (case loaded r of Inl e \<Rightarrow> s1 | Inr h \<Rightarrow> finish_load (cache_key (ld_meta l)) path now h s1))
           | _ \<Rightarrow> s)
      | None \<Rightarrow> s)"

section \<open>Secrets\<close>

fun collect_secrets ::
  "crypto \<Rightarrow> exn option \<Rightarrow> string \<Rightarrow> string \<Rightarrow> string list option \<Rightarrow> storage \<Rightarrow> string list \<Rightarrow> (string, string) omap \<Rightarrow> (string, string) omap" where
  "collect_secrets c fault org project allowed st [] acc = acc"
| "collect_secrets c fault org project allowed st (n # ns) acc =
     (if (case allowed of None \<Rightarrow> False | Some as \<Rightarrow> n \<notin> set as) then collect_secrets c fault org project allowed st ns acc
      else (case get_secret c fault (org, project, n) st of
              Inl e \<Rightarrow> acc
            | Inr None \<Rightarrow> collect_secrets c fault org project allowed st ns acc
            | Inr (Some v) \<Rightarrow> collect_secrets c fault org project allowed st ns (oset n v acc)))"

definition resolveSecrets ::
  "crypto \<Rightarrow> exn option \<Rightarrow> storage option \<Rightarrow> string option \<Rightarrow> string \<Rightarrow> string list option \<Rightarrow> (string, string) omap" where
  "resolveSecrets c fault store org project allowed =
     (case (store, set_text org) of
        (Some st, Some o') \<Rightarrow>
          (case listNames fault o' project st of Inl e \<Rightarrow> [] | Inr names \<Rightarrow> collect_secrets c fault o' project allowed st names [])
      | _ \<Rightarrow> [])"

definition declared_names :: "jsval \<Rightarrow> string list option" where
  "declared_names v = (case v of JArr xs \<Rightarrow> Some (List.map_filter as_str xs) | _ \<Rightarrow> None)"

section \<open>Running an invocation\<close>

datatype result_body = RawBody string | JsonBody jsval

record ExecutionResult =
  er_statusCode :: nat
  er_headers :: "(string, string) omap"
  er_body :: result_body
  er_cpuTimeMs :: int
  er_wallClockMs :: int

definition formatErrorResult :: "rf_error \<Rightarrow> ExecutionResult" where
  "formatErrorResult err =
     \<lparr>er_statusCode = statusFromErrorCode (err_code err), er_headers = [(''content-type'', ''application/json'')],
      er_body = JsonBody (toErrorResponseBody err), er_cpuTimeMs = 0, er_wallClockMs = 0\<rparr>"

text \<open>\<open>new Headers(record)\<close>: names in lower case, values of one name joined.\<close>

fun headers_of :: "(string \<times> string) list \<Rightarrow> (string, string) omap \<Rightarrow> (string, string) omap" where
  "headers_of [] acc = acc"
| "headers_of ((k, v) # hs) acc =
     headers_of hs (oset (to_lower k) (case oget acc (to_lower k) of None \<Rightarrow> v | Some w \<Rightarrow> w @ '', '' @ v) acc)"

text \<open>The bindings of a context: a custom one, or the default one of the tenant.\<close>

datatype 'b binding_source = CustomBinding 'b | TenantBinding string

record 'b local_context =
  cx_requestId :: string
  cx_project :: string
  cx_function :: string
  cx_revision :: string
  cx_deadline :: jsnum
  cx_kv :: "'b binding_source"
  cx_objects :: "'b binding_source"
  cx_queues :: "'b binding_source"
  cx_env :: "(string, string) omap"

record local_request =
  lr_method :: string
  lr_url :: string
  lr_headers :: "(string, string) omap"
  lr_body :: "string option"

record queue_event =
  qe_id :: string
  qe_body :: "jsval option"
  qe_raw :: "string option"
  qe_attempts :: nat
  qe_timestamp :: int
  qe_headers :: "(string, string) omap"

datatype handler_arg = HttpArg local_request | QueueArg queue_event

definition timeRemaining :: "'b local_context \<Rightarrow> int \<Rightarrow> jsnum" where
  "timeRemaining cx now = (case cx_deadline cx of Fin q \<Rightarrow> Fin (max 0 (q - of_int now)) | d \<Rightarrow> d)"

definition env_lookup :: "bool \<Rightarrow> 'b local_context \<Rightarrow> string \<Rightarrow> string option" where
  "env_lookup activeEnv cx key = (if activeEnv then oget (cx_env cx) key else None)"

definition tenant_org :: "string option \<Rightarrow> FunctionRevisionTuple \<Rightarrow> string" where
  "tenant_org configuredOrgId m = or_default (or_else (ft_orgId m) configuredOrgId) ''default-org''"

text \<open>The key of the tenant's KV store and of its directory of objects.\<close>

definition tenant_key :: "string option \<Rightarrow> FunctionRevisionTuple \<Rightarrow> string" where
  "tenant_key configuredOrgId m = tenant_org configuredOrgId m @ ''/'' @ ft_project m"

definition choose_binding :: "('b custom_context \<Rightarrow> 'b option) \<Rightarrow> 'b custom_context option \<Rightarrow> string \<Rightarrow> 'b binding_source" where
  "choose_binding f custom tenant = (case custom of Some cu \<Rightarrow> (case f cu of Some b \<Rightarrow> CustomBinding b | None \<Rightarrow> TenantBinding tenant) | None \<Rightarrow> TenantBinding tenant)"

record provider_config =
  pc_maxWarm :: "nat option"
  pc_org :: "string option"
  pc_crypto :: crypto
  pc_fault :: "exn option"
  pc_store :: "storage option"
  pc_readFile :: "string \<Rightarrow> string option"
  pc_ulid :: string
  pc_parse :: "string \<Rightarrow> jsval option"

definition build_context ::
  "provider_config \<Rightarrow> int \<Rightarrow> jsnum \<Rightarrow> FunctionRevisionTuple \<Rightarrow> 'b local_artifact \<Rightarrow> local_invocation option \<Rightarrow> 'b local_context" where
  "build_context pc now tmo m a iv =
     \<lparr>cx_requestId = (case iv of None \<Rightarrow> pc_ulid pc | Some i \<Rightarrow> iv_requestId i), cx_project = ft_project m, cx_function = ft_functionName m,
      cx_revision = ft_revision m, cx_deadline = (case tmo of Fin q \<Rightarrow> Fin (of_int now + q) | t \<Rightarrow> t),
      cx_kv = choose_binding cu_kv (af_context a) (tenant_key (pc_org pc) m),
      cx_objects = choose_binding cu_objects (af_context a) (tenant_key (pc_org pc) m),
      cx_queues = choose_binding cu_queues (af_context a) (ft_project m),
      cx_env = resolveSecrets (pc_crypto pc) (pc_fault pc) (pc_store pc) (ft_orgId m) (ft_project m) (declared_names (af_secrets a))\<rparr>"

definition build_request :: "int \<Rightarrow> string \<Rightarrow> local_invocation option \<Rightarrow> local_request" where
  "build_request nextHopDepth rid iv =
     (let hs = (case iv of None \<Rightarrow> [] | Some i \<Rightarrow> headers_of (iv_headers i) []);
          method = (case iv of None \<Rightarrow> ''GET'' | Some i \<Rightarrow> or_default (iv_method i) ''GET'');
          body = (case iv of None \<Rightarrow> None | Some i \<Rightarrow> iv_body i) in
      \<lparr>lr_method = method, lr_url = (case iv of None \<Rightarrow> ''https://example.com/api'' | Some i \<Rightarrow> or_default (iv_url i) ''https://example.com/api''),
       lr_headers = oset ''x-railfog-request-id'' rid (oset ''x-railfog-call-depth'' (int_str nextHopDepth) hs),
       lr_body = (if or_default body [] \<noteq> [] \<and> method \<noteq> ''GET'' \<and> method \<noteq> ''HEAD'' then body else None)\<rparr>)"

text \<open>A queue trigger gets the message instead of the request; a body that is no JSON is passed on as bytes.\<close>

definition handler_argument :: "provider_config \<Rightarrow> int \<Rightarrow> local_request \<Rightarrow> string \<Rightarrow> local_invocation option \<Rightarrow> handler_arg" where
  "handler_argument pc now rq rid iv =
     (if oget (lr_headers rq) ''x-railfog-trigger'' = Some ''queue'' then
        let body = (case iv of None \<Rightarrow> [] | Some i \<Rightarrow> or_default (iv_body i) []) in
        QueueArg \<lparr>qe_id = or_default (oget (lr_headers rq) ''x-railfog-message-id'') rid,
          qe_body = (if body = [] then None else pc_parse pc body),
          qe_raw = (if body \<noteq> [] \<and> pc_parse pc body = None then Some body else None),
          qe_attempts = 1, qe_timestamp = now, qe_headers = lr_headers rq\<rparr>
      else HttpArg rq)"

datatype 'b prepared = Answered "ExecutionResult res" | Ready 'b

definition answer_of :: "exn \<Rightarrow> ExecutionResult res" where
  "answer_of e = (case e of RF err \<Rightarrow> Inr (formatErrorResult err) | _ \<Rightarrow> Inl e)"

text \<open>Steps 1 to 7 of \<open>run\<close>: everything before the handler is called.\<close>

definition prepare_run ::
  "provider_config \<Rightarrow> (string \<Rightarrow> string + 'h option) \<Rightarrow> int \<Rightarrow> 'b local_artifact \<Rightarrow> jsval \<Rightarrow> jsval \<Rightarrow> local_invocation option \<Rightarrow> ('h, 'b) warm_pool \<Rightarrow>
   ('h \<times> handler_arg \<times> 'b local_context) prepared \<times> ('h, 'b) warm_pool" where
  "prepare_run pc evaluate now a tmo cpu iv s =
     (let m = extractMetadata (pc_org pc) a iv;
          tracker = createInvocationTracker
            \<lparr>l_maxKvOps = None, l_maxObjectOps = None, l_maxQueueOps = None, l_maxLogBytes = None, l_maxCallDepth = None\<rparr>;
          callDepthRaw = (case iv of None \<Rightarrow> None | Some i \<Rightarrow> getHeader (iv_headers i) ''x-railfog-call-depth'') in
      case checkCallDepth callDepthRaw tracker of
        Inl e \<Rightarrow> (Answered (answer_of e), s)
      | Inr nextHopDepth \<Rightarrow>
          (case new_KillEnforcer \<lparr>o_timeoutMs = tmo, o_cpuMs = cpu, o_maxRequestBodyBytes = JUndef,
                  o_maxResponseBodyBytes = JUndef, o_maxStreamedBytes = JUndef\<rparr> of
             Inl e \<Rightarrow> (Answered (Inl e), s)
           | Inr k \<Rightarrow>
               (case getOrCreateWarmInstance (pc_maxWarm pc) (pc_readFile pc) evaluate now m a s of
                  (Inl e, s') \<Rightarrow> (Answered (answer_of e), s')
                | (Inr h, s') \<Rightarrow>
                    let cx = build_context pc now (timeoutMs k) m a iv;
                        rq = build_request nextHopDepth (cx_requestId cx) iv in
                    (Ready (h, handler_argument pc now rq (cx_requestId cx) iv, cx), s'))))"

text \<open>What a handler may settle with, and how that becomes a response.\<close>

datatype raw_result = RawResponse nat "(string, string) omap" "string res" | RawNothing | RawValue "jsval res"

datatype settled = DeadlineFirst | Settled "raw_result res"

fun response_of :: "raw_result \<Rightarrow> (nat \<times> (string, string) omap \<times> result_body) res" where
  "response_of (RawResponse st hs b) = bind_res b (\<lambda>t. Inr (st, hs, RawBody t))"
| "response_of RawNothing = Inr (200, [(''content-type'', ''application/json'')], JsonBody (JObj [(''ok'', JBool True)]))"
| "response_of (RawValue v) = bind_res v (\<lambda>j. Inr (200, [(''content-type'', ''application/json'')], JsonBody j))"

definition TimeoutError :: rf_error where
  "TimeoutError = \<lparr>err_code = TIMEOUT, err_message = ''Invocation deadline exceeded'', err_requestId = None\<rparr>"

definition failure_result :: "bool \<Rightarrow> exn \<Rightarrow> ExecutionResult" where
  "failure_result ab e =
     formatErrorResult (if ab then TimeoutError
       else case e of RF err \<Rightarrow> err | _ \<Rightarrow> \<lparr>err_code = INTERNAL, err_message = exn_message e, err_requestId = None\<rparr>)"

text \<open>The result of the race; \<open>ab\<close> tells whether the signal is aborted when an error is caught.\<close>

definition settle_run :: "bool \<Rightarrow> int \<Rightarrow> settled \<Rightarrow> ExecutionResult" where
  "settle_run ab elapsed st =
     (case st of
        DeadlineFirst \<Rightarrow> formatErrorResult TimeoutError
      | Settled (Inl e) \<Rightarrow> failure_result ab e
      | Settled (Inr raw) \<Rightarrow>
          (case response_of raw of
             Inl e \<Rightarrow> failure_result ab e
           | Inr (status, hs, body) \<Rightarrow>
               \<lparr>er_statusCode = status, er_headers = hs, er_body = body, er_cpuTimeMs = max 0 elapsed, er_wallClockMs = max 0 elapsed\<rparr>))"

text \<open>\<open>behave\<close> is what a handler does with its argument: how it settles, whether the signal is aborted then, and the time it took.\<close>

definition run ::
  "('h \<Rightarrow> handler_arg \<Rightarrow> 'b local_context \<Rightarrow> settled \<times> bool \<times> int) \<Rightarrow> provider_config \<Rightarrow> (string \<Rightarrow> string + 'h option) \<Rightarrow> int \<Rightarrow>
   'b local_artifact option \<Rightarrow> (jsval \<times> jsval) option \<Rightarrow> local_invocation option \<Rightarrow> ('h, 'b) warm_pool \<Rightarrow> ExecutionResult res \<times> ('h, 'b) warm_pool" where
  "run behave pc evaluate now artifact limits iv s =
     (case artifact of
        None \<Rightarrow> (Inl (throw_rf VALIDATION_FAILED ''Artifact must be a non-null object''), s)
      | Some a \<Rightarrow>
          (case limits of
             None \<Rightarrow> (Inl (throw_rf VALIDATION_FAILED ''Limits must be a non-null object''), s)
           | Some (tmo, cpu) \<Rightarrow>
               (case prepare_run pc evaluate now a tmo cpu iv s of
                  (Answered r, s') \<Rightarrow> (r, s')
                | (Ready (h, arg, cx), s') \<Rightarrow>
                    (case behave h arg cx of (st, ab, elapsed) \<Rightarrow> (Inr (settle_run ab elapsed st), s')))))"

text \<open>The properties a handler left on a shared object are removed unless they cannot be.\<close>

definition cleaned_keys :: "string list \<Rightarrow> (string \<Rightarrow> bool) \<Rightarrow> string list \<Rightarrow> string list" where
  "cleaned_keys initial configurable current = filter (\<lambda>k. k \<in> set initial \<or> \<not> configurable k) current"

section \<open>File names\<close>

lemma digits_suffix: "list_all is_digit ds \<Longrightarrow> takeWhile is_digit (drop 3 (rev (b @ ''_gen'' @ ds @ ''.ts''))) = rev ds"
proof -
  assume "list_all is_digit ds"
  moreover have "\<not> is_digit (CHR ''n'')" by code_simp
  ultimately show ?thesis by (auto simp: takeWhile_append list_all_iff)
qed

lemma file_name_inj: "file_name m n = file_name m' n' \<longleftrightarrow> safe_base m = safe_base m' \<and> n = n'"
proof
  assume eq: "file_name m n = file_name m' n'"
  have d: "list_all is_digit (nat_str n)" for n using nat_str_digits by (auto simp: list_all_iff)
  have "rev (nat_str n) = rev (nat_str n')"
    using digits_suffix[OF d, of "safe_base m" n] digits_suffix[OF d, of "safe_base m'" n'] eq unfolding file_name_def by metis
  then have "n = n'" using digits_val_nat_str by (metis of_nat_eq_iff rev_is_rev_conv)
  then show "safe_base m = safe_base m' \<and> n = n'" using eq by (simp add: file_name_def)
qed (simp add: file_name_def)

section \<open>Warm instances run their own code\<close>

text \<open>Tuples whose file names differ, for which the source text is given by the cache key.\<close>

definition names_differ :: "FunctionRevisionTuple set \<Rightarrow> bool" where
  "names_differ M = (\<forall>m \<in> M. \<forall>m' \<in> M. safe_base m = safe_base m' \<longrightarrow> cache_key m = cache_key m')"

fun admissible :: "(string \<Rightarrow> string option) \<Rightarrow> FunctionRevisionTuple set \<Rightarrow> (string list \<Rightarrow> string) \<Rightarrow> 'b load_event \<Rightarrow> bool" where
  "admissible rf M src (Begin i m a now) = (m \<in> M \<and> (\<forall>b. getArtifactCodeBytes rf a = Inr b \<longrightarrow> b = src (cache_key m)))"
| "admissible rf M src _ = True"

definition load_ok :: "(string \<Rightarrow> string option) \<Rightarrow> FunctionRevisionTuple set \<Rightarrow> (string list \<Rightarrow> string) \<Rightarrow> (string, string) omap \<Rightarrow> 'b module_load \<Rightarrow> bool" where
  "load_ok rf M src files l =
     (ld_meta l \<in> M \<and> (\<forall>b. getArtifactCodeBytes rf (ld_artifact l) = Inr b \<longrightarrow> b = src (cache_key (ld_meta l))) \<and>
      (case ld_stage l of
         Reading \<Rightarrow> True
       | Writing path b \<Rightarrow> (\<exists>n. path = file_name (ld_meta l) n) \<and> b = src (cache_key (ld_meta l))
       | Importing path \<Rightarrow> (\<exists>n. path = file_name (ld_meta l) n) \<and> oget files path = Some (src (cache_key (ld_meta l)))))"

definition pool_ok ::
  "(string \<Rightarrow> string option) \<Rightarrow> (string \<Rightarrow> string + 'h option) \<Rightarrow> FunctionRevisionTuple set \<Rightarrow> (string list \<Rightarrow> string) \<Rightarrow> ('h, 'b) warm_pool \<Rightarrow> bool" where
  "pool_ok rf ev M src s =
     ((\<forall>k i. oget (warmInstances s) k = Some i \<longrightarrow> ev (src k) = Inr (Some (wi_handler i))) \<and>
      (\<forall>m \<in> M. \<forall>n b. oget (tempFiles s) (file_name m n) = Some b \<longrightarrow> b = src (cache_key m)) \<and>
      (\<forall>m \<in> M. \<forall>n md. oget (modules s) (file_name m n) = Some md \<longrightarrow> ev (src (cache_key m)) = Inr md) \<and>
      (\<forall>i l. oget (loads s) i = Some l \<longrightarrow> load_ok rf M src (tempFiles s) l))"

lemma evicted_subset: "oget (evicted mx w) k = Some i \<Longrightarrow> oget w k = Some i"
  by (auto simp: evicted_def split: option.splits if_splits)

lemma pool_okI:
  assumes "\<And>k i. oget (warmInstances s) k = Some i \<Longrightarrow> ev (src k) = Inr (Some (wi_handler i))"
    "\<And>m n b. m \<in> M \<Longrightarrow> oget (tempFiles s) (file_name m n) = Some b \<Longrightarrow> b = src (cache_key m)"
    "\<And>m n md. m \<in> M \<Longrightarrow> oget (modules s) (file_name m n) = Some md \<Longrightarrow> ev (src (cache_key m)) = Inr md"
    "\<And>i l. oget (loads s) i = Some l \<Longrightarrow> load_ok rf M src (tempFiles s) l"
  shows "pool_ok rf ev M src s"
  using assms by (simp add: pool_ok_def)

lemma pool_okD:
  assumes "pool_ok rf ev M src s"
  shows "oget (warmInstances s) k = Some i \<Longrightarrow> ev (src k) = Inr (Some (wi_handler i))"
    "m \<in> M \<Longrightarrow> oget (tempFiles s) (file_name m n) = Some b \<Longrightarrow> b = src (cache_key m)"
    "m \<in> M \<Longrightarrow> oget (modules s) (file_name m n) = Some md \<Longrightarrow> ev (src (cache_key m)) = Inr md"
    "oget (loads s) j = Some l \<Longrightarrow> load_ok rf M src (tempFiles s) l"
  using assms by (simp_all add: pool_ok_def)

lemma same_file: "names_differ M \<Longrightarrow> m \<in> M \<Longrightarrow> m' \<in> M \<Longrightarrow> file_name m n = file_name m' n' \<Longrightarrow> cache_key m = cache_key m'"
  unfolding names_differ_def file_name_inj by blast

lemma begin_load_ok:
  assumes "pool_ok rf ev M src s"
  shows "pool_ok rf ev M src (snd (begin_load mx now key s))"
proof (cases "oget (warmInstances s) key")
  case None
  have "pool_ok rf ev M src (s\<lparr>warmInstances := evicted mx (warmInstances s), fileGeneration := fileGeneration s + 1\<rparr>)"
  proof (rule pool_okI, goal_cases)
    case (1 k i)
    then show ?case using pool_okD(1)[OF assms evicted_subset, of mx k i] by simp
  qed (use pool_okD[OF assms] in simp_all)
  then show ?thesis using None by (simp add: begin_load_def)
next
  case (Some i)
  have "pool_ok rf ev M src (s\<lparr>warmInstances := oset key (i\<lparr>wi_lastUsed := now, wi_count := wi_count i + 1\<rparr>) (warmInstances s)\<rparr>)"
    by (rule pool_okI) (use pool_okD[OF assms] Some in \<open>auto split: if_splits\<close>)
  then show ?thesis using Some by (simp add: begin_load_def)
qed

lemma load_ok_files:
  assumes "load_ok rf M src files l" "names_differ M" "m \<in> M"
  shows "load_ok rf M src (oset (file_name m n) (src (cache_key m)) files) l"
proof -
  have "file_name (ld_meta l) n' = file_name m n \<Longrightarrow> cache_key (ld_meta l) = cache_key m" for n'
    using same_file[OF assms(2) _ assms(3)] assms(1) by (simp add: load_ok_def)
  note eq = this
  show ?thesis
  proof (cases "ld_stage l")
    case (Importing path)
    then obtain n' where n': "path = file_name (ld_meta l) n'" using assms(1) by (auto simp: load_ok_def)
    then have "oget (oset (file_name m n) (src (cache_key m)) files) path = Some (src (cache_key (ld_meta l)))"
      using Importing assms(1) eq[of n'] by (simp add: load_ok_def)
    then show ?thesis using Importing assms(1) by (simp add: load_ok_def)
  qed (use assms(1) in \<open>simp_all add: load_ok_def\<close>)
qed

lemma written_ok:
  assumes ok: "pool_ok rf ev M src s" and M: "names_differ M" "m \<in> M"
    and l: "load_ok rf M src (oset (file_name m n) (src (cache_key m)) (tempFiles s)) l"
  shows "pool_ok rf ev M src (s\<lparr>tempFiles := oset (file_name m n) (src (cache_key m)) (tempFiles s), loads := oset i l (loads s)\<rparr>)"
proof (rule pool_okI, goal_cases)
  case (2 m' n' b)
  then show ?case using pool_okD(2)[OF ok, of m' n' b] same_file[OF M(1), of m' m n' n] M(2) by (auto split: if_splits)
next
  case (4 j l')
  then show ?case using l load_ok_files[OF pool_okD(4)[OF ok] M, of j l'] by (auto split: if_splits)
qed (use pool_okD[OF ok] in auto)

lemma import_module_ok:
  assumes ok: "pool_ok rf ev M src s" and M: "names_differ M" "m \<in> M" and p: "path = file_name m n"
  shows "pool_ok rf ev M src (snd (import_module ev path s)) \<and>
    (\<forall>md. fst (import_module ev path s) = Inr md \<longrightarrow> ev (src (cache_key m)) = Inr md)"
proof (cases "oget (modules s) path")
  case None
  show ?thesis
  proof (cases "oget (tempFiles s) path")
    case (Some b)
    have b: "b = src (cache_key m)" using pool_okD(2)[OF ok M(2)] Some p by blast
    have "pool_ok rf ev M src (s\<lparr>modules := oset path md (modules s)\<rparr>)" if "ev b = Inr md" for md
    proof (rule pool_okI, goal_cases)
      case (3 m' n' md')
      then show ?case using pool_okD(3)[OF ok, of m' n' md'] same_file[OF M(1), of m' m n' n] M(2) p that b by (auto split: if_splits)
    qed (use pool_okD[OF ok] in auto)
    then show ?thesis using None Some ok b by (auto simp: import_module_def split: sum.splits)
  qed (use None ok in \<open>simp add: import_module_def\<close>)
qed (use ok p pool_okD(3)[OF ok M(2)] in \<open>simp add: import_module_def\<close>)

lemma pool_step_ok:
  assumes ok: "pool_ok rf ev M src s" and M: "names_differ M" and adm: "admissible rf M src e"
  shows "pool_ok rf ev M src (pool_step mx rf ev e s)"
proof (cases e)
  case (Begin i m a now)
  have "load_ok rf M src f \<lparr>ld_meta = m, ld_artifact = a, ld_stage = Reading\<rparr>" for f
    using adm Begin by (simp add: load_ok_def)
  note l = this
  obtain r s1 where r: "begin_load mx now (cache_key m) s = (r, s1)" by fastforce
  then have "pool_ok rf ev M src s1" using begin_load_ok[OF ok, of mx now "cache_key m"] by simp
  then have "pool_ok rf ev M src (s1\<lparr>loads := oset i \<lparr>ld_meta = m, ld_artifact = a, ld_stage = Reading\<rparr> (loads s1)\<rparr>)" "pool_ok rf ev M src s1"
    using l pool_okD[of rf ev M src s1] by (auto intro!: pool_okI split: if_splits)
  then show ?thesis using Begin r ok by (simp split: option.split)
next
  case (BytesRead i)
  have "pool_ok rf ev M src (s\<lparr>loads := odel i (loads s)\<rparr>)" using pool_okD[OF ok] by (intro pool_okI) (auto split: if_splits)
  moreover have "pool_ok rf ev M src (s\<lparr>loads := oset i (l\<lparr>ld_stage := Writing (file_name (ld_meta l) g) b\<rparr>) (loads s)\<rparr>)"
    if "oget (loads s) i = Some l" "getArtifactCodeBytes rf (ld_artifact l) = Inr b" for l b g
  proof -
    have "load_ok rf M src (tempFiles s) (l\<lparr>ld_stage := Writing (file_name (ld_meta l) g) b\<rparr>)"
      using pool_okD(4)[OF ok that(1)] that(2) by (auto simp: load_ok_def)
    then show ?thesis using pool_okD[OF ok] by (intro pool_okI) (auto split: if_splits)
  qed
  ultimately show ?thesis using BytesRead ok by (simp split: option.split load_stage.split sum.split)
next
  case (Written i)
  have "pool_ok rf ev M src (s\<lparr>tempFiles := oset path b (tempFiles s), loads := oset i (l\<lparr>ld_stage := Importing path\<rparr>) (loads s)\<rparr>)"
    if l: "oget (loads s) i = Some l" "ld_stage l = Writing path b" for l path b
  proof -
    have lk: "load_ok rf M src (tempFiles s) l" using pool_okD(4)[OF ok l(1)] .
    then obtain n where "ld_meta l \<in> M" "path = file_name (ld_meta l) n" "b = src (cache_key (ld_meta l))"
      using l(2) by (auto simp: load_ok_def)
    moreover from this have "load_ok rf M src (oset path b (tempFiles s)) (l\<lparr>ld_stage := Importing path\<rparr>)"
      using lk by (auto simp: load_ok_def)
    ultimately show ?thesis using written_ok[OF ok M] by simp
  qed
  then show ?thesis using Written ok by (simp split: option.split load_stage.split)
next
  case (Imported i now)
  show ?thesis
  proof (cases "\<exists>l path. oget (loads s) i = Some l \<and> ld_stage l = Importing path")
    case True
    then obtain l path where l: "oget (loads s) i = Some l" "ld_stage l = Importing path" by blast
    define s0 where "s0 = s\<lparr>loads := odel i (loads s)\<rparr>"
    have ok0: "pool_ok rf ev M src s0" using pool_okD[OF ok] by (intro pool_okI) (auto simp: s0_def split: if_splits)
    have "load_ok rf M src (tempFiles s) l" using pool_okD(4)[OF ok l(1)] .
    then obtain n where n: "ld_meta l \<in> M" "path = file_name (ld_meta l) n" using l(2) by (auto simp: load_ok_def)
    obtain r s1 where r: "import_module ev path s0 = (r, s1)" by fastforce
    have p1: "pool_ok rf ev M src s1" "\<And>md. r = Inr md \<Longrightarrow> ev (src (cache_key (ld_meta l))) = Inr md"
      using import_module_ok[OF ok0 M n] r by auto
    have "pool_ok rf ev M src (finish_load (cache_key (ld_meta l)) path now h s1)" if "loaded r = Inr h" for h
      using pool_okD[OF p1(1)] p1(2) that
      by (intro pool_okI) (auto simp: finish_load_def loaded_def split: sum.splits option.splits if_splits)
    then show ?thesis using Imported l r p1(1) by (simp add: s0_def split: sum.split)
  next
    case False
    then show ?thesis using Imported ok by (simp split: option.split load_stage.split) blast
  qed
qed


text \<open>Loads that are not interrupted never share a file, whatever the names: the generation is new every time.\<close>

fun load_all ::
  "nat option \<Rightarrow> (string \<Rightarrow> string option) \<Rightarrow> (string \<Rightarrow> string + 'h option) \<Rightarrow> (int \<times> FunctionRevisionTuple \<times> 'b local_artifact) list \<Rightarrow>
   ('h, 'b) warm_pool \<Rightarrow> 'h res list" where
  "load_all mx rf ev [] s = []"
| "load_all mx rf ev ((now, m, a) # cs) s =
     fst (getOrCreateWarmInstance mx rf ev now m a s) # load_all mx rf ev cs (snd (getOrCreateWarmInstance mx rf ev now m a s))"

definition presented :: "(string \<Rightarrow> string option) \<Rightarrow> (int \<times> FunctionRevisionTuple \<times> 'b local_artifact) set \<Rightarrow> string list \<Rightarrow> string \<Rightarrow> bool" where
  "presented rf C k b = (\<exists>(now, m, a) \<in> C. cache_key m = k \<and> getArtifactCodeBytes rf a = Inr b)"

definition seq_ok ::
  "(string \<Rightarrow> string option) \<Rightarrow> (string \<Rightarrow> string + 'h option) \<Rightarrow> (int \<times> FunctionRevisionTuple \<times> 'b local_artifact) set \<Rightarrow> ('h, 'b) warm_pool \<Rightarrow> bool" where
  "seq_ok rf ev C s =
     ((\<forall>k i. oget (warmInstances s) k = Some i \<longrightarrow> (\<exists>b. presented rf C k b \<and> ev b = Inr (Some (wi_handler i)))) \<and>
      (\<forall>m n. fileGeneration s < n \<longrightarrow> oget (modules s) (file_name m n) = None))"

lemma presented_mono: "presented rf C k b \<Longrightarrow> C \<subseteq> D \<Longrightarrow> presented rf D k b"
  unfolding presented_def by blast

lemma seq_load_ok:
  assumes ok: "seq_ok rf ev C s" and c: "(now, m, a) \<in> C"
  shows "seq_ok rf ev C (snd (getOrCreateWarmInstance mx rf ev now m a s)) \<and>
    (\<forall>h. fst (getOrCreateWarmInstance mx rf ev now m a s) = Inr h \<longrightarrow> (\<exists>b. presented rf C (cache_key m) b \<and> ev b = Inr (Some h)))"
proof (cases "oget (warmInstances s) (cache_key m)")
  case (Some i)
  then show ?thesis using ok by (auto simp: getOrCreateWarmInstance_def begin_load_def seq_ok_def)
next
  case None
  define s1 where "s1 = s\<lparr>warmInstances := evicted mx (warmInstances s), fileGeneration := fileGeneration s + 1\<rparr>"
  have ok1: "oget (warmInstances s1) k = Some i \<Longrightarrow> \<exists>b. presented rf C k b \<and> ev b = Inr (Some (wi_handler i))"
    "fileGeneration s < n \<Longrightarrow> oget (modules s1) (file_name m' n) = None" for k i m' n
    using ok evicted_subset[of mx "warmInstances s"] by (auto simp: seq_ok_def s1_def)
  have b: "begin_load mx now (cache_key m) s = (None, s1)" using None by (simp add: begin_load_def s1_def)
  show ?thesis
  proof (cases "getArtifactCodeBytes rf a")
    case (Inl e)
    then show ?thesis using b ok1 by (auto simp: getOrCreateWarmInstance_def seq_ok_def s1_def)
  next
    case (Inr bytes)
    define path where "path = file_name m (fileGeneration s1)"
    define s2 where "s2 = s1\<lparr>tempFiles := oset path bytes (tempFiles s1)\<rparr>"
    have pr: "presented rf C (cache_key m) bytes" using c Inr unfolding presented_def by blast
    have "oget (modules s2) path = None" using ok1(2)[of "fileGeneration s1" m] by (simp add: s2_def path_def s1_def)
    define s3 where "s3 = (case ev bytes of Inl e \<Rightarrow> s2 | Inr md \<Rightarrow> s2\<lparr>modules := oset path md (modules s2)\<rparr>)"
    with \<open>oget (modules s2) path = None\<close> have i: "import_module ev path s2 = (ev bytes, s3)"
      by (simp add: import_module_def s2_def split: sum.split)
    have g: "getOrCreateWarmInstance mx rf ev now m a s =
        (case loaded (ev bytes) of Inl e \<Rightarrow> (Inl e, s3) | Inr h \<Rightarrow> (Inr h, finish_load (cache_key m) path now h s3))"
      using b Inr i unfolding getOrCreateWarmInstance_def path_def s2_def by (simp add: Let_def)
    have "seq_ok rf ev C s3"
      using ok1 by (auto simp: seq_ok_def s3_def s2_def s1_def path_def file_name_inj split: sum.split)
    then show ?thesis using pr
      by (auto simp: g finish_load_def seq_ok_def loaded_def split: sum.splits option.splits if_splits)
  qed
qed

text \<open>
  When loads are not interrupted by one another, a handler returned for a function was loaded from an artifact presented for the same
  organisation, project, function and revision, whatever the names are and whatever has been evicted.
\<close>

theorem uninterrupted_loads_are_right:
  assumes "length (load_all mx rf ev cs empty_pool) = n" "j < n" "load_all mx rf ev cs empty_pool ! j = Inr h"
  shows "\<exists>b. presented rf (set cs) (cache_key (fst (snd (cs ! j)))) b \<and> ev b = Inr (Some h)"
proof -
  have "\<lbrakk>seq_ok rf ev C s; set cs \<subseteq> C; j < length (load_all mx rf ev cs s); load_all mx rf ev cs s ! j = Inr h\<rbrakk>
      \<Longrightarrow> \<exists>b. presented rf C (cache_key (fst (snd (cs ! j)))) b \<and> ev b = Inr (Some h)" for C s
  proof (induction mx rf ev cs s arbitrary: j rule: load_all.induct)
    case (2 mx rf ev now m a cs s)
    note st = seq_load_ok[OF "2.prems"(1), of now m a mx]
    show ?case
    proof (cases j)
      case 0
      then show ?thesis using st "2.prems" by auto
    next
      case (Suc j')
      then show ?thesis using "2.IH"[of j'] st "2.prems" by auto
    qed
  qed simp
  moreover have "seq_ok rf ev (set cs) empty_pool" by (simp add: seq_ok_def empty_pool_def)
  ultimately show ?thesis using assms by blast
qed

section \<open>The size of the pool\<close>

lemma owf_length: "owf m \<Longrightarrow> length m = card (fst ` set m)"
  unfolding owf_def using distinct_card[of "map fst m"] by simp

lemma length_odel: "owf m \<Longrightarrow> length (odel k m) = length m - (if k \<in> fst ` set m then 1 else 0)"
  by (simp add: owf_length)

lemma length_oset_le: "length (oset k v m) \<le> length m + 1"
  by (simp add: length_oset)

lemma oldest_mem: "oldest es best = Some k \<Longrightarrow> k \<in> fst ` set es \<or> (\<exists>t. best = Some (k, t))"
  by (induction es best rule: oldest.induct) (auto split: option.splits if_splits)

lemma oldest_some: "es \<noteq> [] \<or> best \<noteq> None \<Longrightarrow> oldest es best \<noteq> None"
  by (induction es best rule: oldest.induct) (auto split: option.splits if_splits)

lemma evicted_length:
  assumes "owf w" "0 < n"
  shows "length (evicted (Some n) w) = (if n \<le> length w then length w - 1 else length w) \<and> owf (evicted (Some n) w)"
proof (cases "n \<le> length w")
  case True
  then obtain k where k: "oldest w None = Some k" using oldest_some[of w None] assms(2) by fastforce
  then have "k \<in> fst ` set w" using oldest_mem[OF k] by simp
  then show ?thesis using True k assms(1) by (simp add: evicted_def length_odel)
qed (use assms in \<open>simp add: evicted_def\<close>)

text \<open>Runs with at most \<open>p\<close> loads in flight.\<close>

inductive bounded_run ::
  "nat option \<Rightarrow> (string \<Rightarrow> string option) \<Rightarrow> (string \<Rightarrow> string + 'h option) \<Rightarrow> nat \<Rightarrow> ('h, 'b) warm_pool \<Rightarrow> bool" for mx rf ev p where
  start: "bounded_run mx rf ev p empty_pool"
| step: "bounded_run mx rf ev p s \<Longrightarrow> length (loads (pool_step mx rf ev e s)) \<le> p \<Longrightarrow> bounded_run mx rf ev p (pool_step mx rf ev e s)"

definition sizes_ok :: "nat \<Rightarrow> nat \<Rightarrow> ('h, 'b) warm_pool \<Rightarrow> bool" where
  "sizes_ok n p s = (owf (warmInstances s) \<and> owf (loads s) \<and> length (warmInstances s) + length (loads s) + 1 \<le> n + p)"

lemma oget_None_keys: "oget m k = None \<longleftrightarrow> k \<notin> fst ` set m"
  by (simp add: map_of_eq_None_iff)

lemma length_oset_present: "oget m k = Some w \<Longrightarrow> length (oset k v m) = length m"
  using oget_None_keys[of m k] by (simp add: length_oset)

lemma import_module_sizes:
  "warmInstances (snd (import_module ev path s)) = warmInstances s \<and> loads (snd (import_module ev path s)) = loads s"
  by (simp add: import_module_def split: option.split sum.split)

lemma pool_step_sizes:
  assumes ok: "sizes_ok n p s" and n: "0 < n" and l: "length (loads (pool_step (Some n) rf ev e s)) \<le> p"
  shows "sizes_ok n p (pool_step (Some n) rf ev e s)"
proof (cases e)
  case (Begin i m a now)
  show ?thesis
  proof (cases "oget (loads s) i = None \<and> oget (warmInstances s) (cache_key m) = None")
    case True
    define s1 where "s1 = pool_step (Some n) rf ev e s"
    have s1: "warmInstances s1 = evicted (Some n) (warmInstances s)"
      "loads s1 = oset i \<lparr>ld_meta = m, ld_artifact = a, ld_stage = Reading\<rparr> (loads s)"
      using True Begin by (simp_all add: begin_load_def s1_def)
    have "length (loads s1) = length (loads s) + 1" using True oget_None_keys[of "loads s" i] by (simp add: s1 length_oset)
    then show ?thesis using ok l evicted_length[of "warmInstances s" n] n unfolding s1_def[symmetric]
      by (auto simp: sizes_ok_def s1 split: if_splits)
  next
    case False
    show ?thesis
    proof (cases "oget (loads s) i")
      case None
      then obtain w where w: "oget (warmInstances s) (cache_key m) = Some w" using False by auto
      then have "cache_key m \<in> fst ` set (warmInstances s)" using oget_None_keys[of "warmInstances s" "cache_key m"] by simp
      then show ?thesis using Begin ok None w by (simp add: sizes_ok_def begin_load_def length_oset)
    qed (use Begin ok in simp)
  qed
next
  case (Imported i now)
  show ?thesis
  proof (cases "\<exists>l path. oget (loads s) i = Some l \<and> ld_stage l = Importing path")
    case True
    then obtain l path where l': "oget (loads s) i = Some l" "ld_stage l = Importing path" by blast
    obtain r s1 where r: "import_module ev path (s\<lparr>loads := odel i (loads s)\<rparr>) = (r, s1)" by fastforce
    have s1: "warmInstances s1 = warmInstances s" "loads s1 = odel i (loads s)"
      using import_module_sizes[of ev path "s\<lparr>loads := odel i (loads s)\<rparr>"] r by simp_all
    have mem: "i \<in> fst ` set (loads s)" using l'(1) oget_None_keys[of "loads s" i] by auto
    then have "length (odel i (loads s)) + 1 = length (loads s)" using ok length_odel[of "loads s" i]
      by (cases "loads s") (auto simp: sizes_ok_def)
    note len = this
    have "sizes_ok n p (finish_load (cache_key (ld_meta l)) path now h s1)" for h
      using len ok s1 length_oset_le[of "cache_key (ld_meta l)" "\<lparr>wi_handler = h, wi_lastUsed = now, wi_count = 1, wi_file = path\<rparr>" "warmInstances s"]
      by (simp add: sizes_ok_def finish_load_def)
    moreover have "sizes_ok n p s1" using len ok s1 by (simp add: sizes_ok_def)
    ultimately show ?thesis using Imported l' r by (simp split: sum.split)
  next
    case False
    then show ?thesis using Imported ok by (simp split: option.split load_stage.split) blast
  qed
qed (use ok in \<open>auto simp: sizes_ok_def length_oset_present length_odel split: option.split load_stage.split sum.split\<close>)

text \<open>
  With a limit of \<open>n\<close> warm instances and never more than \<open>p\<close> loads in flight there are never more than \<open>n + p - 1\<close> warm instances; in
  particular the limit holds as long as loads do not overlap.
\<close>

theorem warm_pool_bounded:
  assumes "bounded_run (Some n) rf ev p s" "0 < n" "0 < p"
  shows "getWarmCount s + length (loads s) + 1 \<le> n + p"
proof -
  have "sizes_ok n p s" using assms(1)
  proof (induction rule: bounded_run.induct)
    case start
    then show ?case using assms(2,3) by (simp add: sizes_ok_def empty_pool_def)
  next
    case (step s e)
    then show ?case using pool_step_sizes[OF _ assms(2)] by blast
  qed
  then show ?thesis by (simp add: sizes_ok_def getWarmCount_def)
qed

section \<open>Secrets, depth and tenants\<close>

lemma collect_secrets_scoped:
  "oget (collect_secrets c fault org project allowed st ns acc) n = Some v \<Longrightarrow>
   oget acc n = Some v \<or> get_secret c fault (org, project, n) st = Inr (Some v) \<and> (case allowed of None \<Rightarrow> True | Some as \<Rightarrow> n \<in> set as)"
  by (induction c fault org project allowed st ns acc rule: collect_secrets.induct) (auto split: if_splits sum.splits option.splits)

lemma resolveSecrets_scoped:
  assumes "oget (resolveSecrets c fault store org project allowed) n = Some v"
  shows "\<exists>org' st. org = Some org' \<and> org' \<noteq> [] \<and> store = Some st \<and> get_secret c fault (org', project, n) st = Inr (Some v) \<and>
    (case allowed of None \<Rightarrow> True | Some as \<Rightarrow> n \<in> set as)"
proof -
  obtain st org' names where s: "store = Some st" "set_text org = Some org'"
    "oget (collect_secrets c fault org' project allowed st names []) n = Some v"
    using assms by (auto simp: resolveSecrets_def split: option.splits sum.splits)
  have "org = Some org' \<and> org' \<noteq> []" using s(2) by (cases org) (auto split: if_splits)
  then show ?thesis using s(1) collect_secrets_scoped[OF s(3)] by auto
qed

lemma prepare_run_ready:
  assumes "prepare_run pc ev now a tmo cpu iv s = (Ready (h, arg, cx), s')"
  obtains d and k :: kill_enforcer where "checkCallDepth (case iv of None \<Rightarrow> None | Some i \<Rightarrow> getHeader (iv_headers i) ''x-railfog-call-depth'')
      (createInvocationTracker \<lparr>l_maxKvOps = None, l_maxObjectOps = None, l_maxQueueOps = None, l_maxLogBytes = None, l_maxCallDepth = None\<rparr>) = Inr d"
    "cx = build_context pc now (timeoutMs k) (extractMetadata (pc_org pc) a iv) a iv"
    "arg = handler_argument pc now (build_request d (cx_requestId cx) iv) (cx_requestId cx) iv"
    "getOrCreateWarmInstance (pc_maxWarm pc) (pc_readFile pc) ev now (extractMetadata (pc_org pc) a iv) a s = (Inr h, s')"
  using assms by (auto simp: prepare_run_def Let_def split: sum.splits prod.splits)


fun arg_headers :: "handler_arg \<Rightarrow> (string, string) omap" where
  "arg_headers (HttpArg rq) = lr_headers rq"
| "arg_headers (QueueArg q) = qe_headers q"

text \<open>
  A handler is called only when the depth of the call is below 8, and then its headers carry the next depth, at most 8, and the identifier of the request,
  whatever the caller sent under these names; a deeper call is answered with its error and leaves the pool of instances alone.
\<close>

theorem local_calls_are_cut:
  assumes "depth = checkCallDepth (getHeader (iv_headers i) ''x-railfog-call-depth'')
      (createInvocationTracker \<lparr>l_maxKvOps = None, l_maxObjectOps = None, l_maxQueueOps = None, l_maxLogBytes = None, l_maxCallDepth = None\<rparr>)"
  shows "case prepare_run pc ev now a tmo cpu (Some i) s of
      (Ready (h, arg, cx), s') \<Rightarrow>
        \<exists>d. depth = Inr d \<and> 1 \<le> d \<and> d \<le> 8 \<and> oget (arg_headers arg) ''x-railfog-call-depth'' = Some (int_str d) \<and>
          oget (arg_headers arg) ''x-railfog-request-id'' = Some (iv_requestId i) \<and> cx_requestId cx = iv_requestId i
    | (Answered r, s') \<Rightarrow> (\<forall>e. depth = Inl e \<longrightarrow> s' = s \<and> (\<exists>err. e = RF err \<and> r = Inr (formatErrorResult err)))"
proof -
  have depth: "1 \<le> d \<and> d \<le> 8" if "depth = Inr d" for d
    using that digits_val_nonneg[of 10] unfolding assms checkCallDepth_def
    by (auto simp: createInvocationTracker_def Let_def split: option.splits if_splits)
  have err: "\<exists>err. e = RF err" if "depth = Inl e" for e
    using that unfolding assms checkCallDepth_def by (auto simp: throw_rf_def Let_def split: option.splits if_splits)
  show ?thesis
  proof (cases "prepare_run pc ev now a tmo cpu (Some i) s")
    case (Pair r s')
    show ?thesis
    proof (cases r)
      case (Answered x)
      then show ?thesis using Pair err by (auto simp: prepare_run_def Let_def answer_of_def assms split: sum.splits prod.splits)
    next
      case (Ready t)
      obtain h arg cx where t: "t = (h, arg, cx)" by (cases t)
      have "prepare_run pc ev now a tmo cpu (Some i) s = (Ready (h, arg, cx), s')" using Pair Ready t by simp
      then obtain d and k :: kill_enforcer where d: "depth = Inr d" "cx = build_context pc now (timeoutMs k) (extractMetadata (pc_org pc) a (Some i)) a (Some i)"
        "arg = handler_argument pc now (build_request d (cx_requestId cx) (Some i)) (cx_requestId cx) (Some i)"
        unfolding assms by (rule prepare_run_ready) auto
      then have "cx_requestId cx = iv_requestId i" by (simp add: build_context_def)
      moreover have "arg_headers arg = lr_headers (build_request d (cx_requestId cx) (Some i))" by (simp add: d(3) handler_argument_def Let_def)
      ultimately show ?thesis using Pair Ready t d(1) depth[OF d(1)] by (simp add: build_request_def Let_def)
    qed
  qed
qed

text \<open>The stores of two tenants are the same only for the same organisation and project, when the organisation has no slash in its name.\<close>

lemma tenant_key_inj:
  assumes "CHR ''/'' \<notin> set (tenant_org c m)" "CHR ''/'' \<notin> set (tenant_org c m')" "tenant_key c m = tenant_key c m'"
  shows "tenant_org c m = tenant_org c m' \<and> ft_project m = ft_project m'"
proof -
  have "takeWhile (\<lambda>x. x \<noteq> CHR ''/'') (tenant_key c x) = tenant_org c x" if "CHR ''/'' \<notin> set (tenant_org c x)" for x
    using that by (simp add: tenant_key_def takeWhile_append)
  then show ?thesis using assms by (metis append_same_eq same_append_eq tenant_key_def)
qed

section \<open>Examples\<close>

definition demo_meta :: "string \<Rightarrow> string \<Rightarrow> FunctionRevisionTuple" where
  "demo_meta org project = \<lparr>ft_orgId = Some org, ft_project = project, ft_functionName = ''f'', ft_revision = ''1''\<rparr>"

definition demo_artifact :: "string \<Rightarrow> unit local_artifact" where
  "demo_artifact src =
     \<lparr>af_project = Some ''c'', af_projectName = None, af_function = Some ''f'', af_functionName = None, af_orgId = Some ''a'', af_org = None,
      af_revision = Some ''1'', af_revisionId = None, af_id = None, af_entrypoint = [], af_code = CodeBytes src,
      af_secrets = JArr [JStr ''KEY''], af_context = None\<rparr>"

definition demo_eval :: "string \<Rightarrow> string + string option" where
  "demo_eval src = Inr (Some src)"

definition overlapping :: "FunctionRevisionTuple \<Rightarrow> FunctionRevisionTuple \<Rightarrow> unit load_event list" where
  "overlapping m m' = [Begin 0 m (demo_artifact ''one'') 1, Begin 1 m' (demo_artifact ''two'') 1, BytesRead 0, BytesRead 1, Written 0, Written 1,
     Imported 0 2, Imported 1 2]"

text \<open>
  Two organisations whose names run together: loaded at the same time they get the same file, and the function of the first runs the code of the second.
\<close>

lemma tenants_mix_up_code:
  "map_option wi_handler (oget (warmInstances (fold (pool_step None (\<lambda>_. None) demo_eval)
      (overlapping (demo_meta ''a_b'' ''c'') (demo_meta ''a'' ''b_c'')) empty_pool)) (cache_key (demo_meta ''a_b'' ''c''))) = Some ''two''"
  by code_simp

text \<open>Overlapping loads exceed the limit of the pool, and two tenants whose names contain slashes share a store.\<close>

lemma overlapping_loads_exceed_limit:
  "getWarmCount (fold (pool_step (Some 1) (\<lambda>_. None) demo_eval) (overlapping (demo_meta ''x'' ''c'') (demo_meta ''y'' ''c'')) empty_pool) = 2"
  by code_simp

lemma tenants_share_a_store: "tenant_key None (demo_meta ''a/b'' ''c'') = tenant_key None (demo_meta ''a'' ''b/c'')"
  by code_simp


lemma uninterrupted_loads_are_right_witness:
  "\<exists>b. presented (\<lambda>_. None) {(1, demo_meta ''a_b'' ''c'', demo_artifact ''one''), (2, demo_meta ''a'' ''b_c'', demo_artifact ''two'')}
     (cache_key (demo_meta ''a'' ''b_c'')) b \<and> demo_eval b = Inr (Some ''two'')"
proof -
  let ?cs = "[(1, demo_meta ''a_b'' ''c'', demo_artifact ''one''), (2, demo_meta ''a'' ''b_c'', demo_artifact ''two'')]"
  have "load_all None (\<lambda>_. None) demo_eval ?cs empty_pool = [Inr ''one'', Inr ''two'']" by code_simp
  then show ?thesis using uninterrupted_loads_are_right[of None "\<lambda>_. None" demo_eval ?cs 2 1 "''two''"] by simp
qed

lemma warm_pool_bounded_witness:
  "getWarmCount (pool_step (Some 1) (\<lambda>_. None) demo_eval (Begin 0 (demo_meta ''x'' ''c'') (demo_artifact ''one'') 1) empty_pool) + 1 + 1 \<le> 1 + 1"
proof -
  let ?s = "pool_step (Some 1) (\<lambda>_. None) demo_eval (Begin 0 (demo_meta ''x'' ''c'') (demo_artifact ''one'') 1) empty_pool"
  have l: "length (loads ?s) = 1" by code_simp
  then have "bounded_run (Some 1) (\<lambda>_. None) demo_eval 1 ?s" by (intro bounded_run.step bounded_run.start) simp
  from warm_pool_bounded[OF this] show ?thesis using l by simp
qed

definition demo_storage :: storage where
  "demo_storage = snd (set_secret demo_crypto None (replicate 16 0) (replicate 12 0) (''a'', ''c'', ''KEY'') ''v'' (Memory []))"

definition demo_provider :: provider_config where
  "demo_provider = \<lparr>pc_maxWarm = None, pc_org = None, pc_crypto = demo_crypto, pc_fault = None, pc_store = Some demo_storage,
     pc_readFile = (\<lambda>_. None), pc_ulid = ''u'', pc_parse = (\<lambda>_. None)\<rparr>"

definition demo_local_call :: "string \<Rightarrow> local_invocation" where
  "demo_local_call depth = \<lparr>iv_requestId = ''r'', iv_method = None, iv_url = None, iv_headers = [(''X-RailFog-Call-Depth'', depth)], iv_body = None\<rparr>"

definition demo_prepared :: "string \<Rightarrow> (string \<times> handler_arg \<times> unit local_context) prepared \<times> (string, unit) warm_pool" where
  "demo_prepared depth = prepare_run demo_provider demo_eval 1 (demo_artifact ''one'') (JNum (Fin 5)) (JNum (Fin 5)) (Some (demo_local_call depth)) empty_pool"

lemma demo_ready: "\<exists>h arg cx s. demo_prepared ''3'' = (Ready (h, arg, cx), s) \<and> env_lookup True cx ''KEY'' = Some ''v''"
proof -
  have "(case demo_prepared ''3'' of (Ready (h, arg, cx), s) \<Rightarrow> env_lookup True cx ''KEY'' = Some ''v'' | _ \<Rightarrow> False)" by code_simp
  then show ?thesis by (auto split: prod.splits prepared.splits)
qed


lemma local_calls_are_cut_witness:
  "(case demo_prepared ''3'' of (Ready (h, arg, cx), s) \<Rightarrow> oget (arg_headers arg) ''x-railfog-call-depth'' = Some ''4'' | _ \<Rightarrow> False) \<and>
   snd (demo_prepared ''8'') = empty_pool"
proof -
  let ?t = "createInvocationTracker \<lparr>l_maxKvOps = None, l_maxObjectOps = None, l_maxQueueOps = None, l_maxLogBytes = None, l_maxCallDepth = None\<rparr>"
  let ?d = "\<lambda>s. checkCallDepth (getHeader (iv_headers (demo_local_call s)) ''x-railfog-call-depth'') ?t"
  have d: "?d ''3'' = Inr 4" "case ?d ''8'' of Inl e \<Rightarrow> True | Inr n \<Rightarrow> False" "int_str 4 = ''4''" by code_simp+
  have a: "case demo_prepared ''8'' of (Ready x, s) \<Rightarrow> False | (Answered r, s) \<Rightarrow> True" by code_simp
  note c = local_calls_are_cut[OF refl, where i = "demo_local_call x" and pc = demo_provider and ev = demo_eval and now = 1 and a = "demo_artifact ''one''"
      and tmo = "JNum (Fin 5)" and cpu = "JNum (Fin 5)" and s = empty_pool for x]
  obtain h arg cx s where p: "demo_prepared ''3'' = (Ready (h, arg, cx), s)" using demo_ready by blast
  obtain r s' where q: "demo_prepared ''8'' = (Answered r, s')" using a by (auto split: prod.splits prepared.splits)
  obtain e where "?d ''8'' = Inl e" using d(2) by (auto split: sum.splits)
  then show ?thesis using c[of "''3''"] c[of "''8''"] d(1,3) p q unfolding demo_prepared_def by auto
qed
end
