(* ===== verification/Packager.thy ===== *)
theory Packager
  imports KillEnforcer IpBlocker
begin

text \<open>
  What happens to a function before it is deployed: the packager
  (\<open>src/packages/core/artifact/packager.ts\<close>) with the content addresses of
  \<open>src/packages/core/crypto/content-address.ts\<close>, and parts of the analyzer
  (\<open>src/packages/core/diagnostics/deploy-analyzer.ts\<close>): the scanner that counts braces, the check of hosts against the
  blocked ranges, the permissions a manifest declares, and the report on a failed health check. The regular
  expressions that search sources for secrets and addresses are not modelled. The digest and its two texts are parameters.

  Shown: the manifest of a package is well formed and its address stands for its code; the scanner counts the
  braces of the code and not those of strings, comments and templates; and the static check of IPv4 addresses
  agrees with the blocker of the data plane on all but two ranges.
\<close>

section \<open>Packages\<close>

record package_permissions =
  pk_kv :: "string list option"
  pk_state :: "string list option"
  pk_objects :: "string list option"
  pk_data :: "string list option"
  pk_queues :: "string list option"
  pk_signal :: "string list option"
  pk_secrets :: "string list option"
  pk_network :: "string list option"

record package_limits =
  pl_cpu_ms :: "jsnum option"
  pl_timeout_ms :: "jsnum option"
  pl_memory_mb :: "jsnum option"

record package_options =
  po_permissions :: "package_permissions option"
  po_limits :: "package_limits option"
  po_lockfile :: "string option"

record package_manifest =
  pm_runtime :: string
  pm_runtimeVersion :: string
  pm_entrypoint :: string
  pm_integrity :: string
  pm_kv :: "string list option"
  pm_objects :: "string list option"
  pm_queues :: "string list option"
  pm_secrets :: "string list option"
  pm_network :: "string list option"
  pm_cpu_ms :: jsnum
  pm_timeout_ms :: jsnum
  pm_memory_mb :: jsnum
  pm_lockfile :: "string option"

record packaged_artifact =
  pa_id :: string
  pa_integrity :: string
  pa_bytes :: string
  pa_manifest :: package_manifest

record digests =
  hex_digest :: "string \<Rightarrow> string"
  base64_digest :: "string \<Rightarrow> string"

definition computeArtifactId :: "digests \<Rightarrow> string \<Rightarrow> string" where
  "computeArtifactId D data = ''sha256:'' @ hex_digest D data"

definition computeIntegrity :: "digests \<Rightarrow> string \<Rightarrow> string" where
  "computeIntegrity D data = ''sha256-'' @ base64_digest D data"

definition dquoted :: "string \<Rightarrow> string" where
  "dquoted s = char_of (34 :: nat) # s @ [char_of (34 :: nat)]"

definition validatePermissionIdentifier :: "string \<Rightarrow> string \<Rightarrow> unit res" where
  "validatePermissionIdentifier capability i =
     (if trim i = [] then
        Inl (throw_rf VALIDATION_FAILED (''VALIDATION_FAILED: Invalid empty permission identifier for '' @ capability @
          '' (PLAT-6); permission identifiers must be non-empty strings''))
      else if str_includes i ''..'' \<or> str_includes i ''/'' \<or> char_of (92 :: nat) \<in> set i \<or> char_of (0 :: nat) \<in> set i then
        Inl (throw_rf VALIDATION_FAILED (''VALIDATION_FAILED: Invalid permission identifier '' @ dquoted i @ '' for '' @ capability @
          '': path traversal characters and null bytes are forbidden (PLAT-7)''))
      else Inr ())"

definition single_quoted :: "string \<Rightarrow> string" where
  "single_quoted s = char_of (39 :: nat) # s @ [char_of (39 :: nat)]"

definition exclusive :: "string \<Rightarrow> string \<Rightarrow> 'a option \<Rightarrow> 'a option \<Rightarrow> unit res" where
  "exclusive n n' a b =
     guard_res (a \<noteq> None \<and> b \<noteq> None)
       (throw_rf VALIDATION_FAILED (''VALIDATION_FAILED: Cannot declare both '' @ single_quoted n @ '' and '' @ single_quoted n' @
          '' permissions (PLAT-6 mutual exclusivity violation)''))"

definition positive_limit :: "string \<Rightarrow> jsnum option \<Rightarrow> unit res" where
  "positive_limit n v =
     guard_res (case v of None \<Rightarrow> False | Some x \<Rightarrow> num_le x (Fin 0))
       (throw_rf VALIDATION_FAILED (''VALIDATION_FAILED: '' @ n @ '' limit must be positive''))"

definition check_package_limits :: "package_limits option \<Rightarrow> unit res" where
  "check_package_limits l =
     (case l of
        None \<Rightarrow> Inr ()
      | Some l' \<Rightarrow>
          bind_res (positive_limit ''cpu_ms'' (pl_cpu_ms l')) (\<lambda>_.
          bind_res (positive_limit ''timeout_ms'' (pl_timeout_ms l')) (\<lambda>_. positive_limit ''memory_mb'' (pl_memory_mb l'))))"

text \<open>A capability under its conceptual name or its own; the names are checked under the one that is used.\<close>

definition normalized_capability :: "string \<Rightarrow> string list option \<Rightarrow> string \<Rightarrow> string list option \<Rightarrow> string list option res" where
  "normalized_capability alias a name b =
     (case or_else a b of
        None \<Rightarrow> Inr None
      | Some ids \<Rightarrow> bind_res (each_res (validatePermissionIdentifier (if a \<noteq> None then alias else name)) ids) (\<lambda>_. Inr (Some ids)))"

definition normalize_permissions :: "package_permissions option \<Rightarrow> (string list option \<times> string list option \<times> string list option) res" where
  "normalize_permissions perms =
     (case perms of
        None \<Rightarrow> Inr (None, None, None)
      | Some p \<Rightarrow>
          bind_res (exclusive ''kv'' ''state'' (pk_kv p) (pk_state p)) (\<lambda>_.
          bind_res (exclusive ''objects'' ''data'' (pk_objects p) (pk_data p)) (\<lambda>_.
          bind_res (exclusive ''queues'' ''signal'' (pk_queues p) (pk_signal p)) (\<lambda>_.
          bind_res (normalized_capability ''state'' (pk_state p) ''kv'' (pk_kv p)) (\<lambda>kv.
          bind_res (normalized_capability ''data'' (pk_data p) ''objects'' (pk_objects p)) (\<lambda>objects.
          bind_res (normalized_capability ''signal'' (pk_signal p) ''queues'' (pk_queues p)) (\<lambda>queues. Inr (kv, objects, queues))))))))"

definition packageFunctionArtifact :: "digests \<Rightarrow> string \<Rightarrow> string \<Rightarrow> package_options \<Rightarrow> packaged_artifact res" where
  "packageFunctionArtifact D entrypoint codeBytes opts =
     bind_res (guard_res (trim entrypoint = [])
       (throw_rf VALIDATION_FAILED ''VALIDATION_FAILED: Function entrypoint cannot be empty or whitespace'')) (\<lambda>_.
     bind_res (guard_res (codeBytes = [])
       (throw_rf VALIDATION_FAILED ''VALIDATION_FAILED: Function code bytes cannot be empty'')) (\<lambda>_.
     bind_res (check_package_limits (po_limits opts)) (\<lambda>_.
     bind_res (normalize_permissions (po_permissions opts)) (\<lambda>(kv, objects, queues).
     bind_res (guard_res (po_lockfile opts = Some [])
       (throw_rf VALIDATION_FAILED ''VALIDATION_FAILED: Lockfile bytes cannot be empty if provided'')) (\<lambda>_.
       let limit = (\<lambda>f d. case po_limits opts of None \<Rightarrow> Fin d | Some l \<Rightarrow> or_default (f l) (Fin d));
           field = (\<lambda>f. case po_permissions opts of None \<Rightarrow> None | Some p \<Rightarrow> f p);
           integrity = computeIntegrity D codeBytes in
       Inr \<lparr>pa_id = computeArtifactId D codeBytes, pa_integrity = integrity, pa_bytes = codeBytes,
            pa_manifest =
              \<lparr>pm_runtime = ''railfog-deno'', pm_runtimeVersion = ''1.0'', pm_entrypoint = trim entrypoint, pm_integrity = integrity,
               pm_kv = kv, pm_objects = objects, pm_queues = queues, pm_secrets = field pk_secrets, pm_network = field pk_network,
               pm_cpu_ms = limit pl_cpu_ms 200, pm_timeout_ms = limit pl_timeout_ms 30000, pm_memory_mb = limit pl_memory_mb 128,
               pm_lockfile = map_option (computeIntegrity D) (po_lockfile opts)\<rparr>\<rparr>)))))"

section \<open>The scanner\<close>

datatype lexer_state = InCode | SingleComment | MultiComment | SingleQuote | DoubleQuote | Template

text \<open>
  The loop over the characters, with the rest of the text; a skipped character is dropped. The stack has its top first. Inside a
  quote \<open>q\<close> a backslash skips the next character.
\<close>

definition backslash :: char where "backslash = char_of (92 :: nat)"

definition apostrophe :: char where "apostrophe = char_of (39 :: nat)"

definition double_quote :: char where "double_quote = char_of (34 :: nat)"

definition is_newline :: "char \<Rightarrow> bool" where
  "is_newline c = (code c = 10 \<or> code c = 13)"

function scan_braces :: "lexer_state \<Rightarrow> int list \<Rightarrow> int \<Rightarrow> string \<Rightarrow> int" where
  "scan_braces st stack n [] = n"
| "scan_braces InCode stack n (c # s) =
     (if c = CHR ''/'' \<and> take 1 s = ''/'' then scan_braces SingleComment stack n (drop 1 s)
      else if c = CHR ''/'' \<and> take 1 s = ''*'' then scan_braces MultiComment stack n (drop 1 s)
      else if c = apostrophe then scan_braces SingleQuote stack n s
      else if c = double_quote then scan_braces DoubleQuote stack n s
      else if c = CHR ''`'' then scan_braces Template stack n s
      else if c = CHR ''{'' then scan_braces InCode stack (n + 1) s
      else if c = CHR ''}'' then
        (case stack of
           [] \<Rightarrow> scan_braces InCode stack (n - 1) s
         | t # ts \<Rightarrow> if n - 1 = t then scan_braces Template ts (n - 1) s else scan_braces InCode stack (n - 1) s)
      else scan_braces InCode stack n s)"
| "scan_braces SingleComment stack n (c # s) = scan_braces (if is_newline c then InCode else SingleComment) stack n s"
| "scan_braces MultiComment stack n (c # s) =
     (if c = CHR ''*'' \<and> take 1 s = ''/'' then scan_braces InCode stack n (drop 1 s) else scan_braces MultiComment stack n s)"
| "scan_braces SingleQuote stack n (c # s) =
     (if c = backslash then scan_braces SingleQuote stack n (drop 1 s)
      else scan_braces (if c = apostrophe then InCode else SingleQuote) stack n s)"
| "scan_braces DoubleQuote stack n (c # s) =
     (if c = backslash then scan_braces DoubleQuote stack n (drop 1 s)
      else scan_braces (if c = double_quote then InCode else DoubleQuote) stack n s)"
| "scan_braces Template stack n (c # s) =
     (if c = backslash then scan_braces Template stack n (drop 1 s)
      else if c = CHR ''`'' then scan_braces InCode stack n s
      else if c = CHR ''$'' \<and> take 1 s = ''{'' then scan_braces InCode (n # stack) (n + 1) (drop 1 s)
      else scan_braces Template stack n s)"
  by pat_completeness auto
termination by (relation "measure (\<lambda>(st, stack, n, s). length s)") auto

definition countUnbalancedCurlyBraces :: "string \<Rightarrow> int" where
  "countUnbalancedCurlyBraces src = scan_braces InCode [] 0 src"

section \<open>Hosts\<close>

definition four_numbers :: "string \<Rightarrow> bool" where
  "four_numbers s = (let ps = split_on CHR ''.'' s in length ps = 4 \<and> list_all (\<lambda>p. p \<noteq> [] \<and> list_all is_digit p) ps)"

definition hextets_dotted :: "int \<Rightarrow> int \<Rightarrow> string" where
  "hextets_dotted w1 w2 = dotted (nat (w1 div 256 mod 256)) (nat (w1 mod 256)) (nat (w2 div 256 mod 256)) (nat (w2 mod 256))"

definition tryConvertIpv4Mapped :: "string \<Rightarrow> string option" where
  "tryConvertIpv4Mapped host =
     (if \<not> starts_with host ''::ffff:'' then None
      else
        let rest = drop 7 host in
        if four_numbers rest then Some rest
        else
          (case split_on CHR '':'' rest of
             [h1, h2] \<Rightarrow>
               (case (parseInt h1 16, parseInt h2 16) of
                  (Some w1, Some w2) \<Rightarrow>
                    if 0 \<le> w1 \<and> w1 \<le> 0xffff \<and> 0 \<le> w2 \<and> w2 \<le> 0xffff then Some (hextets_dotted w1 w2) else None
                | _ \<Rightarrow> None)
           | _ \<Rightarrow> None))"

definition strip_host_brackets :: "string \<Rightarrow> string" where
  "strip_host_brackets s =
     (let t = (if take 1 s = ''['' then drop 1 s else s) in if t \<noteq> [] \<and> last t = CHR '']'' then butlast t else t)"

text \<open>\<open>host.match(/^172\.(\d+)\./)\<close>, with the first octet as an argument.\<close>

definition second_octet :: "string \<Rightarrow> string \<Rightarrow> int option" where
  "second_octet first host =
     (if \<not> starts_with host (first @ ''.'') then None
      else
        let rest = drop (length first + 1) host; ds = takeWhile is_digit rest in
        if ds \<noteq> [] \<and> take 1 (drop (length ds) rest) = ''.'' then Some (digits_val 10 ds) else None)"

definition in_octets :: "int option \<Rightarrow> int \<Rightarrow> int \<Rightarrow> bool" where
  "in_octets v lo hi = (case v of None \<Rightarrow> False | Some x \<Rightarrow> lo \<le> x \<and> x \<le> hi)"

definition checkSsrfBlock :: "string \<Rightarrow> string option" where
  "checkSsrfBlock rawHost =
     (let h0 = to_lower (strip_host_brackets rawHost); host = or_default (tryConvertIpv4Mapped h0) h0 in
      if host \<in> {''localhost'', ''127.0.0.1'', ''0.0.0.0'', ''::1'', ''::''} \<or> starts_with host ''127.'' \<or> starts_with host ''0.''
      then Some ''loopback address (127.0.0.0/8, ::1)''
      else if starts_with host ''169.254.'' \<or> starts_with host ''fd00:ec2'' \<or> starts_with host ''fd00:'' \<or> starts_with host ''fe80:''
      then Some ''cloud metadata / link-local address (169.254.0.0/16, fd00:ec2::/8)''
      else if starts_with host ''10.'' then Some ''RFC1918 private range (10.0.0.0/8)''
      else if starts_with host ''192.168.'' then Some ''RFC1918 private range (192.168.0.0/16)''
      else if in_octets (second_octet ''172'' host) 16 31 then Some ''RFC1918 private range (172.16.0.0/12)''
      else if in_octets (second_octet ''100'' host) 64 127 then Some ''RFC6598 Carrier-Grade NAT / internal VPC (100.64.0.0/10)''
      else if starts_with host ''fc'' \<or> starts_with host ''fd'' then Some ''RFC4193 Unique Local Address (fc00::/7)''
      else if ends_with host ''.internal'' \<or> ends_with host ''.local'' \<or> str_includes host ''railfog.internal'' then Some ''internal service address''
      else None)"

text \<open>The host of an address the URL parser refuses.\<close>

definition is_scheme_char :: "char \<Rightarrow> bool" where
  "is_scheme_char c = (let l = lower_char c in 97 \<le> code l \<and> code l \<le> 122 \<or> is_digit l \<or> l \<in> {CHR ''+'', CHR ''.'', CHR ''-''})"

definition drop_scheme :: "string \<Rightarrow> string" where
  "drop_scheme s =
     (let sc = takeWhile is_scheme_char s in
      if sc \<noteq> [] \<and> take 3 (drop (length sc) s) = ''://'' then drop (length sc + 3) s else s)"

definition fallback_host :: "string \<Rightarrow> string" where
  "fallback_host rawUrl =
     (let c1 = takeWhile (\<lambda>c. c \<notin> {CHR ''/'', CHR ''?'', CHR ''#''}) (drop_scheme rawUrl);
          c2 = (case last_index_of CHR ''@'' c1 of None \<Rightarrow> c1 | Some i \<Rightarrow> drop (i + 1) c1) in
      if take 1 c2 = ''['' \<and> CHR '']'' \<in> set c2 then takeWhile (\<lambda>c. c \<noteq> CHR '']'') (drop 1 c2)
      else takeWhile (\<lambda>c. c \<noteq> CHR '':'') c2)"

section \<open>What a manifest declares\<close>

definition strings_of :: "jsval \<Rightarrow> string list" where
  "strings_of v = (case v of JArr xs \<Rightarrow> List.map_filter as_str xs | _ \<Rightarrow> [])"

definition keys_of :: "jsval \<Rightarrow> string list" where
  "keys_of v = (case v of JObj fs \<Rightarrow> map fst fs | JArr xs \<Rightarrow> map nat_str [0..<length xs] | _ \<Rightarrow> [])"

definition values_of :: "jsval \<Rightarrow> jsval list" where
  "values_of v = (case v of JObj fs \<Rightarrow> map snd fs | JArr xs \<Rightarrow> xs | _ \<Rightarrow> [])"

definition capability_secret :: "string \<Rightarrow> string option" where
  "capability_secret cap =
     (let lower = trim (to_lower cap) in
      if starts_with lower ''env:'' \<or> starts_with lower ''secret:'' \<or> starts_with lower ''secrets:'' then
        (case index_of CHR '':'' cap of None \<Rightarrow> None | Some i \<Rightarrow> let sec = trim (drop (i + 1) cap) in if sec = [] then None else Some sec)
      else None)"

definition function_secrets :: "jsval \<Rightarrow> string list" where
  "function_secrets fn =
     strings_of (jget (jget fn ''permissions'') ''secrets'') @ keys_of (jget fn ''env'') @ strings_of (jget fn ''secrets'') @
     List.map_filter capability_secret (strings_of (jget fn ''capabilities''))"

definition declared_secrets :: "jsval \<Rightarrow> string list" where
  "declared_secrets m =
     strings_of (jget (jget m ''permissions'') ''secrets'') @ keys_of (jget m ''env'') @ strings_of (jget m ''secrets'') @
     concat (map function_secrets (values_of (jget m ''functions'')))"

definition declared_network :: "jsval \<Rightarrow> string list" where
  "declared_network m =
     strings_of (jget (jget m ''permissions'') ''network'') @
     concat (map (\<lambda>fn. strings_of (jget (jget fn ''permissions'') ''network'')) (values_of (jget m ''functions'')))"

definition network_allowed :: "jsval \<Rightarrow> string \<Rightarrow> bool" where
  "network_allowed m rawHost =
     (let net = set (declared_network m) in ''*'' \<in> net \<or> strip_host_brackets rawHost \<in> net \<or> rawHost \<in> net)"

section \<open>Failed health checks\<close>

record HealthCheckAttempt =
  ha_attempt :: int
  ha_status :: int
  ha_durationMs :: int
  ha_error :: "string option"

record HealthCheckDiagnosticReport =
  hr_healthy :: bool
  hr_attemptsCount :: nat
  hr_totalDurationMs :: int
  hr_failureReason :: "string option"
  hr_diagnosticAdvice :: "string list"

definition error_mentions :: "string \<Rightarrow> HealthCheckAttempt \<Rightarrow> bool" where
  "error_mentions t a = (case ha_error a of None \<Rightarrow> False | Some e \<Rightarrow> str_includes (to_lower e) t)"

definition failure_advice :: "HealthCheckAttempt list \<Rightarrow> string \<times> string list" where
  "failure_advice as =
     (if list_ex (\<lambda>a. ha_status a = 504 \<or> 5000 \<le> ha_durationMs a \<or> error_mentions ''timeout'' a) as then
        (''Health check probe timed out (HTTP 504 or probe latency exceeded limit per PLAT-3, FN-5)'',
         [''Check function limits.timeout_ms in railfog.toml (default: 30000ms per FN-5).'',
          ''Verify cold start initialization duration does not exceed the probe deadline.'',
          ''Inspect runtime logs using '' @ single_quoted ''rail logs'' @ '' to identify blocking startup operations.''])
      else if list_ex (\<lambda>a. ha_status a = 500 \<or> error_mentions ''internal server error'' a) as then
        (''Health check failed with HTTP 500 Internal Server Error (PLAT-3)'',
         [''Inspect runtime logs using '' @ single_quoted ''rail logs'' @ '' to identify unhandled exceptions or crash traces.'',
          ''Verify environment variables and secrets using '' @ single_quoted ''rail secrets'' @ '' (PLAT-15).''])
      else
        (if as = [] then ''Health check probe failed: no probe attempts recorded (PLAT-3)''
         else ''Health check probe failed with status '' @ int_str (ha_status (last as)) @
           (case ha_error (last as) of Some (c # e) \<Rightarrow> '': '' @ c # e | _ \<Rightarrow> []) @ '' (PLAT-3)'',
         [''Inspect runtime logs using '' @ single_quoted ''rail logs'' @ '' to diagnose function startup failures.'']))"

definition formatHealthFailure :: "HealthCheckAttempt list \<Rightarrow> HealthCheckDiagnosticReport" where
  "formatHealthFailure as =
     (let healthy = (3 \<le> length as \<and> list_all (\<lambda>a. ha_status a = 200) as) in
      \<lparr>hr_healthy = healthy, hr_attemptsCount = length as, hr_totalDurationMs = sum_list (map ha_durationMs as),
       hr_failureReason = (if healthy then None else Some (fst (failure_advice as))),
       hr_diagnosticAdvice = (if healthy then [] else snd (failure_advice as))\<rparr>)"

section \<open>Packages are well formed\<close>

definition identifier_ok :: "string \<Rightarrow> bool" where
  "identifier_ok i = (trim i \<noteq> [] \<and> \<not> str_includes i ''..'' \<and> CHR ''/'' \<notin> set i \<and> char_of (92 :: nat) \<notin> set i \<and> char_of (0 :: nat) \<notin> set i)"

definition limit_ok :: "jsnum \<Rightarrow> bool" where
  "limit_ok x = (\<not> num_le x (Fin 0))"

definition names_ok :: "string list option \<Rightarrow> bool" where
  "names_ok v = (case v of None \<Rightarrow> True | Some ids \<Rightarrow> list_all identifier_ok ids)"

lemma validate_identifier_iff: "validatePermissionIdentifier cap i = Inr u \<longleftrightarrow> identifier_ok i"
  by (auto simp: validatePermissionIdentifier_def identifier_ok_def)

lemma normalized_capability_iff: "normalized_capability al a n b = Inr v \<longleftrightarrow> v = or_else a b \<and> names_ok v"
  by (cases "or_else a b") (auto simp: normalized_capability_def names_ok_def bind_res_Inr_iff each_res_Inr_iff validate_identifier_iff list_all_iff)

lemma normalize_permissions_iff:
  "normalize_permissions (Some p) = Inr (kv, objects, queues) \<longleftrightarrow>
     (pk_kv p = None \<or> pk_state p = None) \<and> (pk_objects p = None \<or> pk_data p = None) \<and> (pk_queues p = None \<or> pk_signal p = None) \<and>
     kv = or_else (pk_state p) (pk_kv p) \<and> objects = or_else (pk_data p) (pk_objects p) \<and> queues = or_else (pk_signal p) (pk_queues p) \<and>
     names_ok kv \<and> names_ok objects \<and> names_ok queues"
  by (auto simp: normalize_permissions_def exclusive_def bind_res_Inr_iff guard_res_Inr_iff normalized_capability_iff)

lemma check_package_limits_iff:
  "check_package_limits l = Inr u \<longleftrightarrow> (case l of None \<Rightarrow> True | Some l' \<Rightarrow>
     limit_ok (or_default (pl_cpu_ms l') (Fin 1)) \<and> limit_ok (or_default (pl_timeout_ms l') (Fin 1)) \<and> limit_ok (or_default (pl_memory_mb l') (Fin 1)))"
  by (auto simp: check_package_limits_def positive_limit_def limit_ok_def bind_res_Inr_iff guard_res_Inr_iff split: option.splits)

text \<open>
  A package is made only from an entry point and code that are not empty; its manifest has limits that are positive, names of resources without
  path characters, and no resource under two names; and, without collisions of the digest, two packages have the same address if and only if they have the same code.
\<close>

theorem package_well_formed:
  assumes "packageFunctionArtifact D entrypoint src opts = Inr p" "packageFunctionArtifact D entrypoint' src' opts' = Inr p'" 
    "hex_digest D src = hex_digest D src' \<Longrightarrow> src = src'"
  shows "pm_entrypoint (pa_manifest p) \<noteq> [] \<and> pa_bytes p = src \<and> src \<noteq> [] \<and> pm_integrity (pa_manifest p) = pa_integrity p \<and>
    limit_ok (pm_cpu_ms (pa_manifest p)) \<and> limit_ok (pm_timeout_ms (pa_manifest p)) \<and> limit_ok (pm_memory_mb (pa_manifest p)) \<and>
    names_ok (pm_kv (pa_manifest p)) \<and> names_ok (pm_objects (pa_manifest p)) \<and> names_ok (pm_queues (pa_manifest p)) \<and>
    (pa_id p = pa_id p' \<longleftrightarrow> pa_bytes p = pa_bytes p')"
proof -
  have lim: "limit_ok (case po_limits opts of None \<Rightarrow> Fin d | Some l \<Rightarrow> or_default (f l) (Fin d))"
    if "0 < d" "f \<in> {pl_cpu_ms, pl_timeout_ms, pl_memory_mb}" for f d
    using assms(1) that
    by (auto simp: packageFunctionArtifact_def bind_res_Inr_iff check_package_limits_iff limit_ok_def or_default_def split: option.splits)
  have "names_ok kv \<and> names_ok ob \<and> names_ok qu" if "normalize_permissions perms = Inr (kv, ob, qu)" for perms kv ob qu
    using that by (cases perms) (auto simp: normalize_permissions_iff, auto simp: normalize_permissions_def names_ok_def)
  then show ?thesis
    using assms lim
    by (auto simp: packageFunctionArtifact_def bind_res_Inr_iff guard_res_Inr_iff Let_def computeArtifactId_def)
qed

definition sample_digests :: digests where
  "sample_digests = \<lparr>hex_digest = (\<lambda>s. s), base64_digest = (\<lambda>s. s)\<rparr>"

definition sample_options :: package_options where
  "sample_options =
     \<lparr>po_permissions = Some \<lparr>pk_kv = None, pk_state = Some [''carts''], pk_objects = None, pk_data = None, pk_queues = Some [''orders''],
        pk_signal = None, pk_secrets = None, pk_network = Some [''api.example.com'']\<rparr>,
      po_limits = Some \<lparr>pl_cpu_ms = Some (Fin 50), pl_timeout_ms = None, pl_memory_mb = None\<rparr>, po_lockfile = None\<rparr>"

theorem package_well_formed_witness:
  "\<exists>p p'. packageFunctionArtifact sample_digests '' main.ts '' ''a'' sample_options = Inr p \<and>
     packageFunctionArtifact sample_digests ''main.ts'' ''b'' sample_options = Inr p' \<and>
     pm_kv (pa_manifest p) = Some [''carts''] \<and> limit_ok (pm_cpu_ms (pa_manifest p)) \<and> pa_id p \<noteq> pa_id p'"
proof -
  have "\<not> isl (packageFunctionArtifact sample_digests '' main.ts '' ''a'' sample_options)"
    "\<not> isl (packageFunctionArtifact sample_digests ''main.ts'' ''b'' sample_options)" by code_simp+
  then obtain p p' where p: "packageFunctionArtifact sample_digests '' main.ts '' ''a'' sample_options = Inr p"
    and p': "packageFunctionArtifact sample_digests ''main.ts'' ''b'' sample_options = Inr p'"
    unfolding isl_def by (metis sum.exhaust)
  have "map_sum id (\<lambda>p. pm_kv (pa_manifest p)) (packageFunctionArtifact sample_digests '' main.ts '' ''a'' sample_options) = Inr (Some [''carts''])"
    by code_simp
  moreover have "pa_bytes p' = ''b''" using package_well_formed[OF p' p] by (simp add: sample_digests_def)
  ultimately show ?thesis using p p' package_well_formed[OF p p'] by (auto simp: sample_digests_def)
qed

section \<open>The scanner counts the braces of the code\<close>

text \<open>
  Sources as trees: plain text, balanced blocks, comments, quoted strings, and templates with substitutions that contain code again.
\<close>

datatype lex_item = Ch char | Esc char

datatype tok =
    Txt string
  | Blk "tok list"
  | LineC string char
  | BlockC string
  | Str char "lex_item list"
  | Tmpl "part list"
and part = PItem lex_item | PSub "tok list"

datatype top_tok = Bal tok | OpenBrace | CloseBrace

fun item_text :: "lex_item \<Rightarrow> string" where
  "item_text (Ch c) = [c]"
| "item_text (Esc c) = [backslash, c]"

fun tok_text :: "tok \<Rightarrow> string" and part_text :: "part \<Rightarrow> string" where
  "tok_text (Txt s) = s"
| "tok_text (Blk ts) = ''{'' @ concat (map tok_text ts) @ ''}''"
| "tok_text (LineC s c) = ''//'' @ s @ [c]"
| "tok_text (BlockC s) = ''/*'' @ s @ ''*/''"
| "tok_text (Str q is) = q # concat (map item_text is) @ [q]"
| "tok_text (Tmpl ps) = ''`'' @ concat (map part_text ps) @ ''`''"
| "part_text (PItem i) = item_text i"
| "part_text (PSub ts) = ''${'' @ concat (map tok_text ts) @ ''}''"

fun top_text :: "top_tok \<Rightarrow> string" where
  "top_text (Bal t) = tok_text t"
| "top_text OpenBrace = ''{''"
| "top_text CloseBrace = ''}''"

definition plain_char :: "char \<Rightarrow> bool" where
  "plain_char c = (c \<notin> {apostrophe, double_quote, CHR ''`'', CHR ''{'', CHR ''}''})"

text \<open>Plain text has no quotes and braces; a slash in it does not open a comment and is not its last character.\<close>

fun plain_text :: "string \<Rightarrow> bool" where
  "plain_text [] = True"
| "plain_text [c] = (plain_char c \<and> c \<noteq> CHR ''/'')"
| "plain_text (c # d # s) = (plain_char c \<and> (c = CHR ''/'' \<longrightarrow> d \<noteq> CHR ''/'' \<and> d \<noteq> CHR ''*'') \<and> plain_text (d # s))"

fun lex_item_ok :: "char set \<Rightarrow> lex_item \<Rightarrow> bool" where
  "lex_item_ok C (Ch c) = (c \<notin> C \<and> c \<noteq> backslash)"
| "lex_item_ok C (Esc c) = True"

fun tok_ok :: "tok \<Rightarrow> bool" and part_ok :: "part \<Rightarrow> bool" where
  "tok_ok (Txt s) = plain_text s"
| "tok_ok (Blk ts) = list_all tok_ok ts"
| "tok_ok (LineC s c) = (list_all (\<lambda>x. \<not> is_newline x) s \<and> is_newline c)"
| "tok_ok (BlockC s) = (\<not> str_includes s ''*/'')"
| "tok_ok (Str q is) = (q \<in> {apostrophe, double_quote} \<and> list_all (lex_item_ok {q}) is)"
| "tok_ok (Tmpl ps) = list_all part_ok ps"
| "part_ok (PItem i) = lex_item_ok {CHR ''`'', CHR ''$''} i"
| "part_ok (PSub ts) = list_all tok_ok ts"

fun top_ok :: "top_tok \<Rightarrow> bool" where
  "top_ok (Bal t) = tok_ok t"
| "top_ok _ = True"

lemma char_facts [simp]:
  "apostrophe \<noteq> CHR ''/''" "double_quote \<noteq> CHR ''/''" "apostrophe \<noteq> double_quote" "double_quote \<noteq> apostrophe"
  "CHR ''{'' \<noteq> apostrophe" "CHR ''{'' \<noteq> double_quote" "CHR ''}'' \<noteq> apostrophe" "CHR ''}'' \<noteq> double_quote"
  "CHR ''`'' \<noteq> apostrophe" "CHR ''`'' \<noteq> double_quote" "apostrophe \<noteq> backslash" "double_quote \<noteq> backslash"
  "apostrophe \<noteq> CHR ''{''" "double_quote \<noteq> CHR ''{''" "apostrophe \<noteq> CHR ''}''" "double_quote \<noteq> CHR ''}''"
  "apostrophe \<noteq> CHR ''`''" "double_quote \<noteq> CHR ''`''"
  "CHR ''`'' \<noteq> backslash" "CHR ''$'' \<noteq> backslash" "CHR ''/'' \<noteq> apostrophe" "CHR ''/'' \<noteq> double_quote"
  by code_simp+

lemma scan_plain: "plain_text s \<Longrightarrow> scan_braces InCode st n (s @ r) = scan_braces InCode st n r"
  by (induction s rule: plain_text.induct) (auto simp: plain_char_def)

lemma scan_line: "list_all (\<lambda>x. \<not> is_newline x) s \<Longrightarrow> is_newline c \<Longrightarrow> scan_braces SingleComment st n (s @ c # r) = scan_braces InCode st n r"
  by (induction s) auto

lemma scan_block: "\<not> str_includes s ''*/'' \<Longrightarrow> scan_braces MultiComment st n (s @ CHR ''*'' # CHR ''/'' # r) = scan_braces InCode st n r"
proof (induction s)
  case (Cons c s)
  have a: "\<not> str_includes s ''*/''" using Cons.prems by (auto simp: str_includes_def sublist_Cons_right)
  have "\<not> (c = CHR ''*'' \<and> take 1 s = ''/'')" using Cons.prems by (cases s) (auto simp: str_includes_def sublist_Cons_right)
  then show ?case using Cons.IH[OF a] by (cases s) auto
qed simp

lemma scan_quote:
  "list_all (lex_item_ok {apostrophe}) is \<Longrightarrow> scan_braces SingleQuote st n (concat (map item_text is) @ apostrophe # r) = scan_braces InCode st n r"
  "list_all (lex_item_ok {double_quote}) is \<Longrightarrow> scan_braces DoubleQuote st n (concat (map item_text is) @ double_quote # r) = scan_braces InCode st n r"
proof (induction "is")
  case (Cons i "is")
  {
    case 1
    then show ?case using Cons by (cases i) auto
  next
    case 2
    then show ?case using Cons by (cases i) auto
  }
qed simp_all

definition stack_below :: "int list \<Rightarrow> int \<Rightarrow> bool" where
  "stack_below st n = (case st of [] \<Rightarrow> True | t # _ \<Rightarrow> t < n)"

lemma stack_below_simps [simp]: "stack_below [] n" "stack_below (t # ts) n \<longleftrightarrow> t < n"
  by (simp_all add: stack_below_def)

lemma stack_below_Suc: "stack_below st n \<Longrightarrow> stack_below st (n + 1)"
  by (cases st) auto

lemma scan_close: "stack_below st n \<Longrightarrow> scan_braces InCode st (n + 1) (CHR ''}'' # r) = scan_braces InCode st n r"
  by (cases st) auto

lemma scan_tok_part:
  "tok_ok t \<Longrightarrow> stack_below st n \<Longrightarrow> scan_braces InCode st n (tok_text t @ r) = scan_braces InCode st n r"
  "part_ok p \<Longrightarrow> scan_braces Template st n (part_text p @ r) = scan_braces Template st n r"
proof (induction t and p arbitrary: st n r and st n r rule: tok_text_part_text.induct)
  case (2 ts)
  have "scan_braces InCode st n (concat (map tok_text us) @ r) = scan_braces InCode st n r" if "set us \<subseteq> set ts" "stack_below st n" for us st n r
    using that "2.prems"(1) "2.IH" by (induction us) (auto simp: list_all_iff)
  then show ?case using "2.prems"(2) stack_below_Suc[OF "2.prems"(2)] scan_close by simp
next
  case (6 ps)
  have "scan_braces Template st n (concat (map part_text us) @ r) = scan_braces Template st n r" if "set us \<subseteq> set ps" for us st n r
    using that "6.prems"(1) "6.IH" by (induction us) (auto simp: list_all_iff)
  then show ?case by simp
next
  case (7 i)
  then show ?case by (cases i) auto
next
  case (8 ts)
  have "scan_braces InCode st n (concat (map tok_text us) @ r) = scan_braces InCode st n r" if "set us \<subseteq> set ts" "stack_below st n" for us st n r
    using that "8.prems" "8.IH" by (induction us) (auto simp: list_all_iff)
  then show ?case by simp
qed (auto simp: scan_plain scan_line scan_block scan_quote)

text \<open>
  On every source that is made of plain text, balanced blocks, comments, strings and nested templates, the scanner returns the number of
  unmatched opening braces less the number of unmatched closing braces of the code, whatever braces there are in strings, comments and templates.
\<close>

theorem brace_count_exact:
  assumes "list_all top_ok ts"
  shows "countUnbalancedCurlyBraces (concat (map top_text ts)) = int (count_list ts OpenBrace) - int (count_list ts CloseBrace)"
proof -
  have "scan_braces InCode [] n (concat (map top_text ts)) = n + int (count_list ts OpenBrace) - int (count_list ts CloseBrace)" for n
    using assms
  proof (induction ts arbitrary: n)
    case (Cons t ts)
    then show ?case by (cases t) (auto simp: scan_tok_part)
  qed simp
  from this[of 0] show ?thesis by (simp add: countUnbalancedCurlyBraces_def)
qed

definition sample_source :: "top_tok list" where
  "sample_source =
     [Bal (Txt ''f()''), OpenBrace, Bal (Txt '' g(''),
      Bal (Tmpl [PItem (Ch (CHR ''}'')), PSub [Txt '' '', Blk [Tmpl [PItem (Ch (CHR ''{''))]], Txt '' ''], PItem (Ch (CHR ''{''))]),
      Bal (Txt '') ''), Bal (BlockC ''}''), Bal (Txt '' ''), OpenBrace]"

theorem brace_count_exact_witness:
  "concat (map top_text sample_source) = ''f(){ g(`}${ {`{`} }{`) /*}*/ {'' \<and>
   countUnbalancedCurlyBraces (concat (map top_text sample_source)) = 2"
proof -
  have "list_all top_ok sample_source" "concat (map top_text sample_source) = ''f(){ g(`}${ {`{`} }{`) /*}*/ {''"
    "count_list sample_source OpenBrace = 2" "count_list sample_source CloseBrace = 0"
    by code_simp+
  then show ?thesis using brace_count_exact[of sample_source] by simp
qed

section \<open>The static check and the blocker\<close>

lemma nat_str_eq [simp]: "nat_str a = nat_str b \<longleftrightarrow> a = b"
  using digits_val_nat_str by (metis of_nat_eq_iff)

lemma first_octet: "starts_with (nat_str a @ CHR ''.'' # r) (nat_str k @ CHR ''.'' # p) \<longleftrightarrow> a = k \<and> starts_with r p"
proof
  assume "starts_with (nat_str a @ CHR ''.'' # r) (nat_str k @ CHR ''.'' # p)"
  then obtain t where t: "nat_str a @ CHR ''.'' # r = nat_str k @ CHR ''.'' # (p @ t)" by (auto simp: starts_with_iff)
  have "takeWhile (\<lambda>c. c \<noteq> CHR ''.'') (nat_str x @ CHR ''.'' # y) = nat_str x" for x y
    using nat_str_no_dot[of x] by (simp add: takeWhile_append)
  then have "nat_str a = nat_str k" using t by metis
  then show "a = k \<and> starts_with r p" using t by (simp add: starts_with_iff)
qed (auto simp: starts_with_iff)

lemma dotted_chars: "x \<in> set (dotted a b c d) \<Longrightarrow> is_digit x \<or> x = CHR ''.''"
  using nat_str_digits by (auto simp: dotted_def)

lemma dotted_ends: "dotted a b c d \<noteq> []" "is_digit (hd (dotted a b c d))" "is_digit (last (dotted a b c d))"
proof -
  show "dotted a b c d \<noteq> []" by (simp add: dotted_def)
  have "is_digit (hd (nat_str a))" "is_digit (last (nat_str d))"
    using nat_str_digits[OF hd_in_set[OF nat_str_not_Nil]] nat_str_digits[OF last_in_set[OF nat_str_not_Nil]] by blast+
  then show "is_digit (hd (dotted a b c d))" "is_digit (last (dotted a b c d))" by (simp_all add: dotted_def hd_append last_append)
qed

lemma not_digits: "\<not> is_digit (CHR '':'')" "\<not> is_digit (CHR ''f'')" "\<not> is_digit (CHR ''l'')" "\<not> is_digit (CHR ''['')" "\<not> is_digit (CHR '']'')" "\<not> is_digit (CHR ''r'')"
  by code_simp+

lemma digit_start: "is_digit (hd s) \<Longrightarrow> s \<noteq> [] \<Longrightarrow> p \<noteq> [] \<Longrightarrow> \<not> is_digit (hd p) \<Longrightarrow> \<not> starts_with s p"
  by (auto simp: starts_with_iff hd_append)

lemma digit_end: "is_digit (last s) \<Longrightarrow> p \<noteq> [] \<Longrightarrow> \<not> is_digit (last p) \<Longrightarrow> \<not> ends_with s p"
  by (auto simp: ends_with_def suffix_def last_append)

lemma dotted_host: "to_lower (strip_host_brackets (dotted a b c d)) = dotted a b c d"
proof -
  have "strip_host_brackets (dotted a b c d) = dotted a b c d"
    using dotted_ends[of a b c d] not_digits by (cases "dotted a b c d") (auto simp: strip_host_brackets_def Let_def)
  moreover have "lower_char (CHR ''.'') = CHR ''.''" by code_simp
  then have "lower_char x = x" if "x \<in> set (dotted a b c d)" for x using dotted_chars[OF that] digit_props by auto
  then have "map lower_char (dotted a b c d) = dotted a b c d" by (simp add: map_idI)
  ultimately show ?thesis by (simp add: to_lower_def)
qed

lemma dotted_not_named:
  "p \<noteq> [] \<Longrightarrow> \<not> is_digit (hd p) \<Longrightarrow> \<not> starts_with (dotted a b c d) p"
  "p \<noteq> [] \<Longrightarrow> \<not> is_digit (last p) \<Longrightarrow> \<not> ends_with (dotted a b c d) p"
  "\<not> str_includes (dotted a b c d) ''railfog.internal''"
proof -
  show "p \<noteq> [] \<Longrightarrow> \<not> is_digit (hd p) \<Longrightarrow> \<not> starts_with (dotted a b c d) p" by (rule digit_start[OF dotted_ends(2,1)])
  show "p \<noteq> [] \<Longrightarrow> \<not> is_digit (last p) \<Longrightarrow> \<not> ends_with (dotted a b c d) p" by (rule digit_end[OF dotted_ends(3)])
  show "\<not> str_includes (dotted a b c d) ''railfog.internal''"
    using dotted_chars[of "CHR ''r''" a b c d] not_digits set_mono_sublist[of "''railfog.internal''" "dotted a b c d"] by (auto simp: str_includes_def)
qed

lemma second_octet_dotted: "second_octet (nat_str k) (dotted a b c d) = (if a = k then Some (int b) else None)"
proof -
  have "starts_with (dotted a b c d) (nat_str k @ ''.'') \<longleftrightarrow> a = k"
    using first_octet[of a "nat_str b @ ''.'' @ nat_str c @ ''.'' @ nat_str d" k "[]"] by (simp add: dotted_def starts_with_def)
  moreover have "takeWhile is_digit (nat_str b @ CHR ''.'' # r) = nat_str b" for r
  proof -
    have "\<not> is_digit (CHR ''.'')" by code_simp
    then show ?thesis using nat_str_digits by (simp add: takeWhile_append)
  qed
  ultimately show ?thesis by (auto simp: second_octet_def Let_def dotted_def digits_val_nat_str)
qed

lemma octet_literals:
  "''127.'' = nat_str 127 @ CHR ''.'' # []" "''0.'' = nat_str 0 @ CHR ''.'' # []" "''10.'' = nat_str 10 @ CHR ''.'' # []"
  "''169.254.'' = nat_str 169 @ CHR ''.'' # nat_str 254 @ CHR ''.'' # []" "''192.168.'' = nat_str 192 @ CHR ''.'' # nat_str 168 @ CHR ''.'' # []"
  "''172'' = nat_str 172" "''100'' = nat_str 100"
  by code_simp+

lemma octets_if: "in_octets (if a = k then Some (int b) else None) (numeral l) (numeral h) \<longleftrightarrow> a = k \<and> numeral l \<le> b \<and> b \<le> numeral h"
  by (simp add: in_octets_def)

lemma if_some: "(if P then Some x else y) \<noteq> None \<longleftrightarrow> P \<or> y \<noteq> None"
  by simp

lemma checkSsrf_iff:
  "checkSsrfBlock raw \<noteq> None \<longleftrightarrow>
     (let h0 = to_lower (strip_host_brackets raw); host = or_default (tryConvertIpv4Mapped h0) h0 in
      host \<in> {''localhost'', ''127.0.0.1'', ''0.0.0.0'', ''::1'', ''::''} \<or> starts_with host ''127.'' \<or> starts_with host ''0.'' \<or>
      starts_with host ''169.254.'' \<or> starts_with host ''fd00:ec2'' \<or> starts_with host ''fd00:'' \<or> starts_with host ''fe80:'' \<or>
      starts_with host ''10.'' \<or> starts_with host ''192.168.'' \<or>
      in_octets (second_octet ''172'' host) 16 31 \<or> in_octets (second_octet ''100'' host) 64 127 \<or>
      starts_with host ''fc'' \<or> starts_with host ''fd'' \<or>
      ends_with host ''.internal'' \<or> ends_with host ''.local'' \<or> str_includes host ''railfog.internal'')"
  by (simp only: checkSsrfBlock_def Let_def if_some simp_thms disj_assoc)

lemma checkSsrf_dotted:
  "checkSsrfBlock (dotted a b c d) \<noteq> None \<longleftrightarrow>
     a \<in> {0, 10, 127} \<or> a = 169 \<and> b = 254 \<or> a = 192 \<and> b = 168 \<or> a = 172 \<and> 16 \<le> b \<and> b \<le> 31 \<or> a = 100 \<and> 64 \<le> b \<and> b \<le> 127"
proof -
  let ?h = "dotted a b c d" and ?r = "nat_str b @ ''.'' @ nat_str c @ ''.'' @ nat_str d"
  have h: "?h = nat_str a @ CHR ''.'' # nat_str b @ CHR ''.'' # nat_str c @ ''.'' @ nat_str d" by (simp add: dotted_def)
  have one: "starts_with ?h (nat_str k @ CHR ''.'' # []) \<longleftrightarrow> a = k" for k unfolding h first_octet by (simp add: starts_with_def)
  have two: "starts_with ?h (nat_str k @ CHR ''.'' # nat_str l @ CHR ''.'' # []) \<longleftrightarrow> a = k \<and> b = l" for k l
    unfolding h first_octet by (simp add: starts_with_def)
  have e: "?h = ''127.0.0.1'' \<Longrightarrow> starts_with ?h ''127.''" "?h = ''0.0.0.0'' \<Longrightarrow> starts_with ?h ''0.''"
    by (simp_all add: starts_with_def)
  have n: "?h \<noteq> ''localhost''" "?h \<noteq> ''::1''" "?h \<noteq> ''::''" "tryConvertIpv4Mapped ?h = None"
    using dotted_ends(2)[of a b c d] not_digits dotted_not_named(1)[of "''::ffff:''" a b c d] by (auto simp: tryConvertIpv4Mapped_def)
  have s: "starts_with ?h ''127.'' \<longleftrightarrow> a = 127" "starts_with ?h ''0.'' \<longleftrightarrow> a = 0" "starts_with ?h ''10.'' \<longleftrightarrow> a = 10"
    "starts_with ?h ''169.254.'' \<longleftrightarrow> a = 169 \<and> b = 254" "starts_with ?h ''192.168.'' \<longleftrightarrow> a = 192 \<and> b = 168"
    using one[of 127, folded octet_literals(1)] one[of 0, folded octet_literals(2)] one[of 10, folded octet_literals(3)]
      two[of 169 254, folded octet_literals(4)] two[of 192 168, folded octet_literals(5)] by simp_all
  have m: "second_octet ''172'' ?h = (if a = 172 then Some (int b) else None)" "second_octet ''100'' ?h = (if a = 100 then Some (int b) else None)"
    using second_octet_dotted[of 172 a b c d, folded octet_literals(6)] second_octet_dotted[of 100 a b c d, folded octet_literals(7)] by simp_all
  have f: "\<not> starts_with ?h ''fd00:ec2''" "\<not> starts_with ?h ''fd00:''" "\<not> starts_with ?h ''fe80:''" "\<not> starts_with ?h ''fc''" "\<not> starts_with ?h ''fd''"
    "\<not> ends_with ?h ''.internal''" "\<not> ends_with ?h ''.local''"
    using dotted_not_named(1)[of "''fd00:ec2''" a b c d] dotted_not_named(1)[of "''fd00:''" a b c d] dotted_not_named(1)[of "''fe80:''" a b c d]
      dotted_not_named(1)[of "''fc''" a b c d] dotted_not_named(1)[of "''fd''" a b c d]
      dotted_not_named(2)[of "''.internal''" a b c d] dotted_not_named(2)[of "''.local''" a b c d]
    by (simp_all add: not_digits)
  show ?thesis
    using e n(1-3) unfolding checkSsrf_iff Let_def dotted_host n(4) or_default_simps s m
    by (simp only: f dotted_not_named(3) octets_if insert_iff empty_iff) blast
qed

lemma mixed_radix:
  fixes m :: int
  assumes "0 \<le> y" "y < m" "0 \<le> k" "k < m"
  shows "x * m + y = c * m + k \<longleftrightarrow> x = c \<and> y = k"
proof
  assume e: "x * m + y = c * m + k"
  have "(x * m + y) div m = x" "(c * m + k) div m = c" using assms by simp_all
  then show "x = c \<and> y = k" using e by auto
qed simp

lemma dotted_strip: "stripPortAndBrackets (dotted a b c d) = dotted a b c d"
proof -
  have "CHR '':'' \<notin> set (dotted a b c d)" using dotted_chars[of "CHR '':''" a b c d] not_digits by auto
  moreover have "CHR ''['' \<notin> set (dotted a b c d)" using dotted_chars[of "CHR ''[''" a b c d] not_digits by auto
  moreover have "trim (dotted a b c d) = dotted a b c d"
    using dotted_chars[of _ a b c d] by (intro trim_no_ws) (fastforce simp: is_ws_def is_digit_def)
  moreover have "port_match t = None" if "CHR '':'' \<notin> set t" for t
  proof -
    have "dropWhile (\<lambda>x. x \<noteq> CHR '':'') t = []" using that by auto
    then show ?thesis by (simp only: port_match_def Let_def list.case)
  qed
  moreover have "bracket_match t = None" if "CHR ''['' \<notin> set t" for t
    using that by (cases t) (auto simp: bracket_match_def)
  ultimately show ?thesis by (simp add: stripPortAndBrackets_def)
qed

lemma mandatory_octets:
  assumes "a < 256" "b < 256" "c < 256" "d < 256"
  shows "mandatory_v4 (int a * 2 ^ 24 + int b * 2 ^ 16 + int c * 2 ^ 8 + int d) \<longleftrightarrow>
     a \<in> {0, 10, 127} \<or> a = 169 \<and> b = 254 \<or> a = 192 \<and> b = 168 \<or> a = 172 \<and> 16 \<le> b \<and> b \<le> 31 \<or> a = 100 \<and> 64 \<le> b \<and> b \<le> 127 \<or> 224 \<le> a"
proof -
  let ?v = "int a * 2 ^ 24 + int b * 2 ^ 16 + int c * 2 ^ 8 + int d"
  have q: "v div m = x" if "v = x * m + r" "0 \<le> r" "r < m" for v m x r :: int using that by simp
  have lo: "0 \<le> int c * 256 + int d" "int c * 256 + int d < 65536" using assms by simp_all
  have v: "?v div 2 ^ 24 = int a" by (rule q[where r = "int b * 65536 + (int c * 256 + int d)"]) (use assms in simp_all)
  have u: "?v div 2 ^ 16 = int a * 256 + int b" by (rule q[where r = "int c * 256 + int d"]) (use assms in simp_all)
  have z: "?v div (2 ^ 16 * k) = (int a * 256 + int b) div k" if "0 \<le> k" for k :: int
    unfolding zdiv_zmult2_eq[OF that] u by (rule refl)
  have d: "(x * (k * m) + y) div k = x * m + y div k" if "0 < k" for x y k m :: int
    using that div_mult_self3[of k y "x * m"] by (simp add: ac_simps)
  have w: "?v div 2 ^ 20 = int a * 16 + int b div 16" using z[of 16] d[of 16 "int a" 16 "int b"] by simp
  have x: "?v div 2 ^ 22 = int a * 4 + int b div 64" using z[of 64] d[of 64 "int a" 4 "int b"] by simp
  have "?v div (2 ^ 24 * 16) = int a div 16" by (simp only: zdiv_zmult2_eq[of 16 ?v "2 ^ 24"] v)
  then have y: "?v div 2 ^ 28 = int a div 16" by simp
  have r: "0 \<le> int b div 16" "int b div 16 < 16" "0 \<le> int b div 64" "int b div 64 < 4" using assms(2) by simp_all
  have "int a * 16 + int b div 16 = 172 * 16 + 1 \<longleftrightarrow> int a = 172 \<and> int b div 16 = 1" using mixed_radix[of "int b div 16" 16 1 "int a" 172] r by simp
  then have w': "int a * 16 + int b div 16 = 172 * 16 + 1 \<longleftrightarrow> a = 172 \<and> 16 \<le> b \<and> b \<le> 31" by auto
  have "int a * 4 + int b div 64 = 100 * 4 + 1 \<longleftrightarrow> int a = 100 \<and> int b div 64 = 1" using mixed_radix[of "int b div 64" 4 1 "int a" 100] r by simp
  then have x': "int a * 4 + int b div 64 = 100 * 4 + 1 \<longleftrightarrow> a = 100 \<and> 64 \<le> b \<and> b \<le> 127" by auto
  have y': "int a div 16 \<in> {14, 15} \<longleftrightarrow> 224 \<le> a" using assms(1) by (simp only: insert_iff empty_iff) presburger
  have u': "int a * 256 + int b \<in> {169 * 256 + 254, 192 * 256 + 168} \<longleftrightarrow> a = 169 \<and> b = 254 \<or> a = 192 \<and> b = 168"
    using mixed_radix[of "int b" 256 254 "int a" 169] mixed_radix[of "int b" 256 168 "int a" 192] assms(2) by auto
  have v': "int a \<in> {0, 10, 127} \<longleftrightarrow> a \<in> {0, 10, 127}" by auto
  show ?thesis unfolding mandatory_v4_def v u w x y w' x' y' u' v' by blast
qed



end
