(* ===== verification/Spec2Isabelle.thy ===== *)
theory Spec2Isabelle
  imports IpBlocker Router RateLimiter CircuitBreaker TenantGuard Permissions QueueConsumer OperationCounter
    Config SnapshotCache Cron KillEnforcer ControlServer Redactor Secrets Gateway Dispatch Shutdown Billing
    RuntimeSync EgressProxy Resilient MemoryKv LocalIsolation Packager
begin

text \<open>
  A verification library for RailFog, a function platform with a control plane (\<open>apps/api\<close>), an
  ingress gateway (\<open>apps/gateway\<close>), a data plane (\<open>apps/runtime\<close>, \<open>runtime/\<close>) and workers
  (\<open>apps/worker\<close>), over three storage primitives (\<open>primitives/\<close>, \<open>providers/\<close>) and shared packages
  (\<open>packages/\<close>). All paths are below \<open>src/\<close>.

  How the parts interact. The control plane publishes routing snapshots; the data plane caches
  them, matches a request to a function, resolves the function's declared permissions to
  bindings over the KV, object and queue providers, and runs it under operation and call-depth
  limits; its connections to the outside pass the egress blocker. Providers are shared by tenants
  and wrapped by a tenant guard. Circuit breakers keep their state in the KV store and update it
  optimistically; queue workers poll the queue provider and invoke functions.

  Conventions. A throw is \<open>Inl\<close>, a return \<open>Inr\<close> (theory \<open>Errors\<close>). JavaScript objects that are read
  dynamically are values of \<open>jsval\<close>; numbers are exact (\<open>int\<close>, or \<open>rat\<close> where fractions occur, and
  \<open>jsnum\<close> where a validator tests for NaN or infinity); strings are lists of characters with codes
  below 256, except for the log truncation, which works on 16-bit code units. Time, randomness,
  DNS, the TOML parser, URL patterns, object stores and user functions are arguments.

  Theories and the code they model.

  \<^item> \<open>Prelude\<close>, \<open>JsLib\<close>: results, ordered maps, dynamic values; the string functions of the language
    (split, trim, parseInt, ...) that the code uses.
  \<^item> \<open>Errors\<close>: \<open>packages/errors/mod.ts\<close>.
  \<^item> \<open>IpBlocker\<close>: \<open>runtime/sandbox/egress-ip-blocker.ts\<close>. Parsing of address literals, CIDR ranges and
    the decision on a destination; the mandatory ranges cannot be evaded by notation.
  \<^item> \<open>EgressProxy\<close>: \<open>runtime/sandbox/egress-proxy.ts\<close> over \<open>IpBlocker\<close>. Allowlist, reading of requests, forwarding and tunnels, as
    runs in which requests interleave: every address contacted is on the list of its invocation and not blocked,
    and the number of open connections is bounded.
  \<^item> \<open>Router\<close>: \<open>runtime/router/route-matcher.ts\<close>. The most specific match wins, the cache is bounded.
  \<^item> \<open>RateLimiter\<close>: \<open>packages/policy/rate-limiter.ts\<close> and \<open>apps/gateway/rate-limiter.ts\<close>. Token buckets as
    one locale, interpreted for both; window bounds, exact Retry-After, concurrency slots.
  \<^item> \<open>KvStore\<close>: \<open>providers/kv/sqlite-provider.ts\<close>. Keys, rows, transactions, listing with cursors;
    atomicity, complete pagination, and what LIKE lets through. The locale \<open>cas_store\<close> is the
    compare-and-set contract its clients use.
  \<^item> \<open>MemoryKv\<close>: the embedded stores of \<open>providers/kv/redis-provider.ts\<close> and \<open>postgres-provider.ts\<close> and the statements of the
    latter. A second interpretation of \<open>cas_store\<close>; agreement with the SQLite provider while nothing expires.
  \<^item> \<open>CircuitBreaker\<close>: \<open>packages/policy/circuit-breaker.ts\<close> over \<open>KvStore\<close>. The update loop takes fuel, one
    unit per round, and another client acts between the rounds; enough fuel is any amount that covers
    a quiet round. Refinement of an abstract three-state breaker.
  \<^item> \<open>KvScope\<close>: the operations of \<open>primitives/kv/kv-provider.ts\<close> as data, sessions of them, and the
    locale \<open>scoped_kv\<close> for clients that are confined to a key prefix.
  \<^item> \<open>TenantGuard\<close>: \<open>providers/guard/tenant-guard.ts\<close>; \<open>Permissions\<close>:
    \<open>packages/policy/permission-resolver.ts\<close>. Both interpret \<open>scoped_kv\<close>; non-interference between
    tenants and between bindings, and confinement of object keys.
  \<^item> \<open>Retry\<close>: \<open>packages/policy/retry.ts\<close>. Bounded attempts, decorrelated jitter.
  \<^item> \<open>Resilient\<close>: \<open>providers/resilient/resilient-provider.ts\<close> over the two. The wrapped operation behaves as the abstract
    breaker around the retried one; what a provider throws is reported without its credentials, from a heap of
    objects that may be shared and cyclic.
  \<^item> \<open>LocalFs\<close>: \<open>providers/objects/local-fs-provider.ts\<close> on a tree of files and directories. No key leaves the root; as an object
    provider (locale \<open>object_provider\<close>) it is a map from keys to contents; presigned URLs are exact.
  \<^item> \<open>Queue\<close>: \<open>providers/queues/sqlite-queue-provider.ts\<close>; \<open>QueueConsumer\<close>: \<open>apps/worker/queue-consumer.ts\<close>
    and parts of \<open>apps/worker/worker-supervisor.ts\<close>. At-least-once delivery, bounded redelivery,
    visibility, progress; the workers rely on the locale \<open>queue_contract\<close>.
  \<^item> \<open>OperationCounter\<close>: \<open>runtime/limits/operation-counter.ts\<close>. Exact limits, longest truncation.
  \<^item> \<open>Config\<close>: \<open>packages/config/parser.ts\<close> and \<open>schema.ts\<close>.
  \<^item> \<open>Ulid\<close>: \<open>packages/core/id/ulid.ts\<close>.
  \<^item> \<open>Snapshot\<close>: \<open>packages/protocol/snapshot.ts\<close> and the project snapshots of
    \<open>apps/api/control-server.ts\<close>; \<open>SnapshotCache\<close>: \<open>runtime/snapshot/\<close>. Producer and validator agree, ETags
    are exact within one run, both caches interpret \<open>snapshot_cache\<close>, and the disk cache is also an
    event system on inodes in which polls and persists interleave.
  \<^item> \<open>Cron\<close>: \<open>runtime/lifecycle/cron-matcher.ts\<close>, against a set semantics of schedules.
  \<^item> \<open>KillEnforcer\<close>: \<open>runtime/limits/kill-enforcer.ts\<close>. Exact body limits over the reads of a stream.
  \<^item> \<open>Deployment\<close>: \<open>apps/api/deployment-service.ts\<close> and \<open>apps/api/health-checker.ts\<close>. A deployment is split
    at its awaits, so that deployments interleave; the active revision has passed its health check and
    is the newest one that did, and the state survives a restart. The health check takes fuel, one unit
    per probe; the theorem gives an amount that is enough for a clock that advances with every probe.
  \<^item> \<open>ApiKeys\<close>: \<open>packages/auth/\<close> (\<open>store.ts\<close>, \<open>verifier.ts\<close>, \<open>middleware.ts\<close>) over \<open>KvStore\<close>. A key works until it is
    revoked and never again afterwards, with or without the cache; the locale \<open>revocable\<close> carries the argument over
    histories of the store.
  \<^item> \<open>Backup\<close>: \<open>packages/core/backup/archive-schema.ts\<close> and \<open>apps/api/state-backup-service.ts\<close>. Export and import of a
    project over the deployment service, the KV store and the objects; an import is confined to its target,
    restores all or nothing when the payloads are intact, and undoes an export.
  \<^item> \<open>ControlServer\<close>: the request handler of \<open>apps/api/control-server.ts\<close> over the three theories above and
    \<open>Snapshot\<close>. Unauthenticated requests and revoked tokens change nothing, new keys stay in the scope of their
    creator, responses are well formed, and a deployment is in the next snapshot.
  \<^item> \<open>Gateway\<close>: \<open>apps/gateway/gateway-server.ts\<close> over \<open>RateLimiter\<close>. What is forwarded, to which plane and with which headers,
    and the bound on anonymous requests of one peer.
  \<^item> \<open>Dispatch\<close>: \<open>runtime/api/dispatch.ts\<close>. When a function runs, and the bound on chains of calls.
  \<^item> \<open>RuntimeServer\<close>: the request handler of \<open>apps/runtime/runtime-server.ts\<close> over \<open>Router\<close>, \<open>RateLimiter\<close> and \<open>Snapshot\<close>. A function runs with
    what its snapshot declares and with headers the client cannot forge, chains of calls are cut, memory is bounded;
    \<open>RuntimeSync\<close>: its polling, schedules and queue dispatcher. Polls never regress and schedules follow the snapshot.
  \<^item> \<open>LocalBindings\<close>, \<open>LocalIsolation\<close>: \<open>runtime/sandbox/local-isolation.ts\<close> over \<open>LocalFs\<close>, \<open>OperationCounter\<close>, \<open>KillEnforcer\<close> and \<open>Secrets\<close>. The
    bindings of an invocation, with a third interpretation of \<open>cas_store\<close>; the pool of warm instances as a system of
    overlapping loads, in which an instance runs the code of its own tuple and the pool is bounded; secrets and call depth.
  \<^item> \<open>Packager\<close>: \<open>packages/core/artifact/packager.ts\<close>, \<open>crypto/content-address.ts\<close> and parts of \<open>diagnostics/deploy-analyzer.ts\<close>
    over \<open>IpBlocker\<close>. Packages are well formed, the scanner counts the braces of the code, and the static check of addresses
    is compared with the blocker.
  \<^item> \<open>UriCodec\<close>: \<open>encodeURIComponent\<close> and its inverse, on which file names and paths rest.
  \<^item> \<open>Secrets\<close>: \<open>packages/policy/secret-store.ts\<close> and \<open>runtime/loader/secret-injector.ts\<close>. The memory and the file backend
    interpret the locale \<open>record_backend\<close>; the store refines a map, and bindings show what is declared.
  \<^item> \<open>Redactor\<close>: \<open>packages/logging/secret-redactor.ts\<close>. Redacted values contain no bound secret.
  \<^item> \<open>Shutdown\<close>: \<open>runtime/lifecycle/shutdown-coordinator.ts\<close>, with time as numbers of milliseconds.
  \<^item> \<open>Billing\<close>: \<open>packages/metrics/cost-calculator.ts\<close> and \<open>usage-collector.ts\<close>. The bill adds up and is close to the exact
    price; usage records are conserved.
  \<^item> This theory: a request on its way from the gateway to the runtime server.

  Not modelled. Terminal and HTTP glue (\<open>cli/\<close>, the entry points of the servers, pages, the development server, the SDK),
  operating system isolation (processes, workers and gVisor in \<open>runtime/sandbox\<close>), clients of remote services (the Redis server,
  Cloudflare, Deno Deploy, R2), telemetry, the walk of the source analyzer over files and its regular expressions, scripts and tests.
\<close>

section \<open>From the gateway to a function\<close>

text \<open>The request a forwarded one is at the runtime server.\<close>

definition arrives :: "rt_request \<Rightarrow> forwarded \<Rightarrow> rt_request" where
  "arrives url f = url\<lparr>rq_method := f_method f, rq_headers := f_headers f, rq_body := f_body f\<rparr>"



text \<open>An identifier that is no ULID is kept by the gateway and replaced by the runtime server: the two planes log different identifiers.\<close>

lemma identifier_changes_between_planes:
  "Gateway.resolveRequestId demo_ulid (gw_sample [(''x-request-id'', ''order-17'')] ''/hello'') = ''order-17'' \<and>
   RuntimeServer.resolveRequestId demo_ulid (rq_headers (arrives (demo_call ''/hello'' []) (forward (Origin [] []) ''order-17'' (gw_sample [] ''/hello'')))) = demo_ulid"
  by code_simp
end
